(* ===== verification/Prelude.thy ===== *)
theory Prelude
  imports Main "HOL-Library.Word" "HOL-Library.List_Lexorder" "HOL-Library.Char_ord"
    "HOL-Library.Product_Lexorder" "HOL-Library.Option_ord" "HOL-Library.Sublist"
begin

text \<open>
  What every component of the development shares: the machine types of the Rust sources,
  results as sums, the lexicographic order of byte strings (the order of Rust slices), and
  generic facts on sorted lists.

  Machine integers are words of the same width; a two's complement integer is the word that
  holds its bits. Additions wrap, as they do in a release build. A Rust string is the list
  of the bytes of its UTF-8 form, as HOL characters; its order is the order of those bytes.
\<close>

unbundle bit_operations_syntax

type_synonym byte = "8 word"
type_synonym bytes = "byte list"
type_synonym u8 = "8 word"
type_synonym u32 = "32 word"
type_synonym u64 = "64 word"
type_synonym u128 = "128 word"
type_synonym i64 = "64 word"

named_theorems enc_simps \<open>equations that unfold the encoders\<close>
named_theorems view_simps \<open>what the projections of a database value return after an update\<close>

subsection \<open>Results\<close>

definition bindr :: "'e + 'a \<Rightarrow> ('a \<Rightarrow> 'e + 'b) \<Rightarrow> 'e + 'b" where
  "bindr r f = (case r of Inl e \<Rightarrow> Inl e | Inr a \<Rightarrow> f a)"

lemma bindr_simps [simp]: "bindr (Inl e) f = Inl e" "bindr (Inr a) f = f a"
  by (simp_all add: bindr_def)

lemma bindr_eq_Inr: "bindr r f = Inr b \<longleftrightarrow> (\<exists>a. r = Inr a \<and> f a = Inr b)"
  by (cases r) auto

lemma bindr_eq_Inl: "bindr r f = Inl e \<longleftrightarrow> r = Inl e \<or> (\<exists>a. r = Inr a \<and> f a = Inl e)"
  by (cases r) auto

definition ok_or :: "'e \<Rightarrow> 'a option \<Rightarrow> 'e + 'a" where
  "ok_or e x = (case x of None \<Rightarrow> Inl e | Some a \<Rightarrow> Inr a)"

lemma ok_or_simps [simp]: "ok_or e None = Inl e" "ok_or e (Some a) = Inr a"
  by (simp_all add: ok_or_def)

lemma ok_or_eq_Inr: "ok_or e x = Inr a \<longleftrightarrow> x = Some a"
  by (cases x) auto

lemma option_eqI: "(\<And>v. x = Some v \<longleftrightarrow> y = Some v) \<Longrightarrow> x = y"
  by (metis not_None_eq)

subsection \<open>The order of byte strings\<close>

text \<open>
  \<open>a @ s < b @ t\<close> is decided inside \<open>a\<close> and \<open>b\<close> as soon as neither is a prefix of the
  other: the fact every order-preserving key encoding rests on.
\<close>

lemma append_less_same [simp]:
  fixes x :: "'a::linorder list"
  shows "x @ s < x @ t \<longleftrightarrow> s < t"
  by (induction x) auto

lemma append_less_eq_length:
  fixes x y :: "'a::linorder list"
  assumes "length x = length y"
  shows "x @ s < y @ t \<longleftrightarrow> x < y \<or> x = y \<and> s < t"
  using assms by (induction x y rule: list_induct2) auto

lemma snoc_less_eq_length:
  fixes x y :: "'a::linorder list"
  assumes "length x = length y"
  shows "x @ [a] < y @ [b] \<longleftrightarrow> x < y \<or> x = y \<and> a < b"
  using append_less_eq_length [OF assms, of "[a]" "[b]"] by simp

lemma prefix_imp_le: "prefix x y \<Longrightarrow> (x :: 'a::linorder list) \<le> y"
  by (induction x arbitrary: y) (auto simp: prefix_def)

text \<open>The strings with a given prefix form an interval of the order.\<close>

lemma prefix_interval:
  fixes p x y z :: "'a::linorder list"
  assumes "prefix p x" and "prefix p z" and "x \<le> y" and "y \<le> z"
  shows "prefix p y"
  using assms
proof (induction p arbitrary: x y z)
  case (Cons a p)
  from Cons.prems(1,2) obtain u w where xz: "x = a # p @ u" "z = a # p @ w"
    by (auto elim!: prefixE)
  from Cons.prems(3) xz(1) obtain b y' where y: "y = b # y'"
    by (cases y) simp_all
  from Cons.prems(3,4) xz y
  have "a < b \<or> a = b \<and> p @ u \<le> y'" and "b < a \<or> b = a \<and> y' \<le> p @ w" by simp_all
  then have "b = a" "p @ u \<le> y'" "y' \<le> p @ w" by (elim disjE conjE; simp)+
  with Cons.IH [of "p @ u" "p @ w" y'] y show ?case by simp
qed simp

lemma le_prefix_start:
  fixes p x y :: "'a::linorder list"
  assumes "p \<le> x" and "x \<le> y" and "prefix p y"
  shows "prefix p x"
  using prefix_interval [of p p y x] assms by simp

subsection \<open>Words\<close>

lemma unat_less_pow: "unat (w :: 'a::len word) < 2 ^ LENGTH('a)"
  by (rule unsigned_less)

text \<open>The sign bit of a 64-bit integer, \<open>1_u64 << 63\<close>.\<close>

definition sign_bit :: u64 where
  "sign_bit = push_bit 63 1"

lemma bit_sign_bit: "bit sign_bit n \<longleftrightarrow> n = 63"
  unfolding sign_bit_def bit_push_bit_iff bit_1_iff by auto

lemma sign_bit_add_self: "sign_bit + sign_bit = 0"
  by (simp add: sign_bit_def)

lemma unat_sign_bit: "unat sign_bit = 2 ^ 63"
  by (simp add: sign_bit_def)

text \<open>Flipping the sign bit is adding it.\<close>

lemma xor_sign_bit: "v XOR sign_bit = v + sign_bit"
proof (cases "bit v 63")
  case False
  then have "v AND sign_bit = 0"
    by (intro bit_word_eqI) (auto simp: bit_and_iff bit_sign_bit)
  then show ?thesis
    by (metis disjunctive_add_eq_xor)
next
  case True
  then have "(v XOR sign_bit) AND sign_bit = 0"
    by (intro bit_word_eqI) (auto simp: bit_and_iff bit_xor_iff bit_sign_bit)
  then have "(v XOR sign_bit) + sign_bit = (v XOR sign_bit) XOR sign_bit"
    by (rule disjunctive_add_eq_xor)
  also have "\<dots> = v" by (simp only: xor.assoc xor_self_eq xor.right_neutral)
  finally have "v + sign_bit = (v XOR sign_bit) + (sign_bit + sign_bit)"
    by (simp only: add.assoc [symmetric])
  then show ?thesis by (simp only: sign_bit_add_self add_0_right)
qed

lemma nat_less_div_mod:
  "(a::nat) < b \<longleftrightarrow> a div n < b div n \<or> a div n = b div n \<and> a mod n < b mod n"
  by (metis div_le_mono div_mult_mod_eq leD linorder_neqE_nat nat_add_left_cancel_less
      nat_less_le not_le_imp_less)

subsection \<open>Sorted lists\<close>

lemma dropWhile_less_sorted:
  fixes xs :: "'a::linorder list"
  assumes "sorted xs"
  shows "dropWhile (\<lambda>x. x < a) xs = filter (\<lambda>x. a \<le> x) xs"
    using assms
proof (induction xs)
  case (Cons x xs)
  then have "a \<le> x \<Longrightarrow> filter (\<lambda>y. a \<le> y) xs = xs"
    by (auto simp: filter_id_conv)
  with Cons show ?case by auto
qed simp

lemma takeWhile_eq_filter_sorted:
  assumes "sorted_wrt R xs" and "\<And>x y. R x y \<Longrightarrow> P y \<Longrightarrow> P x"
  shows "takeWhile P xs = filter P xs"
  using assms(1)
proof (induction xs)
  case (Cons x xs)
  then have "filter P xs = []" if "\<not> P x"
    using that assms(2) by (fastforce simp: filter_empty_conv)
  with Cons show ?case by simp
qed simp

lemma strict_sorted_unique:
  fixes xs ys :: "'a::linorder list"
  assumes "sorted_wrt (<) xs" and "sorted_wrt (<) ys" and "set xs = set ys"
  shows "xs = ys"
  using assms by (simp add: strict_sorted_equal)

lemma sorted_wrt_less_map_imp_distinct:
  "sorted_wrt (<) (map (f :: 'a \<Rightarrow> 'b::linorder) xs) \<Longrightarrow> distinct xs"
  by (simp add: distinct_map strict_sorted_iff)

subsection \<open>Folds\<close>

lemma fold_invariant:
  assumes "P s" and "\<And>x s. x \<in> set xs \<Longrightarrow> P s \<Longrightarrow> P (f x s)"
  shows "P (fold f xs s)"
  using assms
proof (induction xs arbitrary: s)
  case (Cons x xs)
  then have "P (f x s)" by simp
  then have "P (fold f xs (f x s))" using Cons by simp
  then show ?case by simp
qed simp

lemma strict_sorted_le_last:
  fixes f :: "'a \<Rightarrow> 'b::linorder"
  shows "sorted_wrt (<) (map f xs) \<Longrightarrow> x \<in> set xs \<Longrightarrow> f x \<le> f (last xs)"
  by (induction xs) (auto intro: less_imp_le)

lemma fold_no_change: "(\<And>x s. x \<in> set xs \<Longrightarrow> f x s = s) \<Longrightarrow> fold f xs s = s"
  by (induction xs arbitrary: s) auto

end
