(* ===== verification/Ids.thy ===== *)
theory Ids
  imports Prelude
begin

text \<open>
  Entity identifiers (\<open>crates/corium-core/src/ids.rs\<close>): a 64-bit word with the partition in
  its 22 high bits and the sequence in its 42 low bits. \<open>EntityId\<close> wraps the raw word and
  derives its order from it, so an entity id is that word here; attribute and transaction ids
  are entity ids.
\<close>

type_synonym entity_id = u64
type_synonym attr_id = entity_id
type_synonym tx_id = entity_id
type_synonym kw_id = u64
type_synonym partition_id = u32

definition SEQUENCE_BITS :: nat where
  "SEQUENCE_BITS = 42"

definition SEQUENCE_MASK :: u64 where
  "SEQUENCE_MASK = push_bit SEQUENCE_BITS 1 - 1"

datatype partition = PartDb | PartTx | PartUser

fun part_id :: "partition \<Rightarrow> partition_id" where
  "part_id PartDb = 0"
| "part_id PartTx = 1"
| "part_id PartUser = 2"

definition eid_new :: "partition_id \<Rightarrow> u64 \<Rightarrow> entity_id" where
  "eid_new p s = push_bit SEQUENCE_BITS (ucast p) OR (s AND SEQUENCE_MASK)"

definition eid_partition :: "entity_id \<Rightarrow> partition_id" where
  "eid_partition e = ucast (drop_bit SEQUENCE_BITS e)"

definition eid_sequence :: "entity_id \<Rightarrow> u64" where
  "eid_sequence e = e AND SEQUENCE_MASK"

lemma SEQUENCE_MASK_mask: "SEQUENCE_MASK = mask 42"
  by (simp add: SEQUENCE_MASK_def SEQUENCE_BITS_def mask_eq_exp_minus_1)

lemma and_SEQUENCE_MASK: "x AND SEQUENCE_MASK = take_bit 42 x"
  by (simp add: SEQUENCE_MASK_mask take_bit_eq_mask)

lemma unat_eid_sequence: "unat (eid_sequence e) = unat e mod 2 ^ 42"
  by (simp add: eid_sequence_def and_SEQUENCE_MASK take_bit_eq_mod unat_mod)

lemma unat_eid_partition: "unat (eid_partition e) = unat e div 2 ^ 42"
proof -
  have "unat e div 2 ^ 42 < 2 ^ 32"
    using unat_less_pow [of e] by simp
  then show ?thesis
    by (simp add: eid_partition_def SEQUENCE_BITS_def unsigned_ucast_eq
        drop_bit_eq_div unat_div take_bit_nat_eq_self)
qed

lemma unat_eid_new:
  assumes "unat p < 2 ^ 22"
  shows "unat (eid_new p s) = unat p * 2 ^ 42 + unat s mod 2 ^ 42"
proof -
  have disj: "push_bit 42 (ucast p :: u64) AND take_bit 42 s = 0"
    by (rule bit_eqI) (auto simp: bit_and_iff bit_push_bit_iff bit_take_bit_iff)
  have "eid_new p s = push_bit 42 (ucast p) + take_bit 42 s"
    unfolding eid_new_def SEQUENCE_BITS_def and_SEQUENCE_MASK
    using disjunctive_add_eq_or [OF disj] by simp
  moreover have "unat (push_bit 42 (ucast p :: u64)) = unat p * 2 ^ 42"
    using assms
    by (simp add: push_bit_eq_mult unat_word_ariths unsigned_ucast_eq take_bit_nat_eq_self mult.commute)
  moreover have "unat (take_bit 42 s) = unat s mod 2 ^ 42"
    by (simp add: take_bit_eq_mod unat_mod)
  moreover have "unat p * 2 ^ 42 + unat s mod 2 ^ 42 < 2 ^ 64"
    using assms mod_less_divisor [of "2 ^ 42" "unat s"] by simp
  ultimately show ?thesis
    by (simp add: unat_word_ariths)
qed

lemma eid_sequence_new:
  assumes "unat p < 2 ^ 22" and "unat s < 2 ^ 42"
  shows "eid_sequence (eid_new p s) = s"
  using assms by (simp add: unat_eid_new unat_eid_sequence word_unat_eq_iff)

lemma eid_partition_new:
  assumes "unat p < 2 ^ 22"
  shows "eid_partition (eid_new p s) = p"
  using assms by (simp add: unat_eid_new unat_eid_partition word_unat_eq_iff)

lemma eid_new_parts: "eid_new (eid_partition e) (eid_sequence e) = e"
proof -
  have "unat (eid_partition e) < 2 ^ 22"
    using unat_less_pow [of e] by (simp add: unat_eid_partition)
  then show ?thesis
    by (simp add: word_unat_eq_iff unat_eid_new unat_eid_partition
        unat_eid_sequence)
qed

text \<open>The raw order is the order by partition, then by sequence.\<close>

lemma eid_less_iff: "e < e' \<longleftrightarrow> eid_partition e < eid_partition e' \<or>
    eid_partition e = eid_partition e' \<and> eid_sequence e < eid_sequence e'"
  by (simp add: word_less_nat_alt word_unat_eq_iff unat_eid_partition unat_eid_sequence
      nat_less_div_mod [of "unat e" "unat e'" "2 ^ 42"])

end
