(* ===== verification/Values.thy ===== *)
theory Values
  imports Ids
begin

text \<open>
  Engine values (\<open>crates/corium-core/src/value.rs\<close>) and the value types of the schema
  (\<open>crates/corium-core/src/schema.rs\<close>).

  A double is the 64 bits of its IEEE-754 form; \<open>TotalF64\<close> compares and equates doubles by
  those bits only, so nothing else of a double is modelled. A string value is the bytes of
  its UTF-8 form (\<open>value_wf\<close> says that they are valid UTF-8, which Rust's \<open>str\<close> guarantees).
  The order on values, \<open>value_less\<close>, is the one \<open>derive(Ord)\<close> generates: the variants in
  declaration order, then the fields.
\<close>

subsection \<open>Data\<close>

datatype value_type =
    BoolT | LongT | DoubleT | InstantT | UuidT | KeywordT | StrT | BytesT | RefT

fun value_type_index :: "value_type \<Rightarrow> nat" where
  "value_type_index BoolT = 0"
| "value_type_index LongT = 1"
| "value_type_index DoubleT = 2"
| "value_type_index InstantT = 3"
| "value_type_index UuidT = 4"
| "value_type_index KeywordT = 5"
| "value_type_index StrT = 6"
| "value_type_index BytesT = 7"
| "value_type_index RefT = 8"

datatype total_f64 = TotalF64 (f64_bits: u64)

datatype sealed = Sealed_mk (s_class: entity_id) (s_epoch: u32) (s_vtype: value_type) (s_body: bytes)

datatype val =
    Bool bool
  | Long i64
  | Double total_f64
  | Instant i64
  | Uuid u128
  | Keyword kw_id
  | Str string
  | Bytes bytes
  | Ref entity_id
  | Sealed sealed

subsection \<open>Types and orders\<close>

definition sortable_bits :: "total_f64 \<Rightarrow> u64" where
  "sortable_bits f = (let bits = f64_bits f in
     if bits AND sign_bit = 0 then bits XOR sign_bit else NOT bits)"

fun has_type :: "val \<Rightarrow> value_type \<Rightarrow> bool" where
  "has_type (Sealed s) t = (s_vtype s = t)"
| "has_type (Bool _) t = (t = BoolT)"
| "has_type (Long _) t = (t = LongT)"
| "has_type (Double _) t = (t = DoubleT)"
| "has_type (Instant _) t = (t = InstantT)"
| "has_type (Uuid _) t = (t = UuidT)"
| "has_type (Keyword _) t = (t = KeywordT)"
| "has_type (Str _) t = (t = StrT)"
| "has_type (Bytes _) t = (t = BytesT)"
| "has_type (Ref _) t = (t = RefT)"

definition i64_less :: "i64 \<Rightarrow> i64 \<Rightarrow> bool" where
  "i64_less a b = (sint a < sint b)"

definition f64_less :: "total_f64 \<Rightarrow> total_f64 \<Rightarrow> bool" where
  "f64_less a b = (sortable_bits a < sortable_bits b)"

definition value_type_less :: "value_type \<Rightarrow> value_type \<Rightarrow> bool" where
  "value_type_less a b = (value_type_index a < value_type_index b)"

definition sealed_less :: "sealed \<Rightarrow> sealed \<Rightarrow> bool" where
  "sealed_less a b =
     (s_class a < s_class b \<or> s_class a = s_class b \<and>
      (s_epoch a < s_epoch b \<or> s_epoch a = s_epoch b \<and>
       (value_type_less (s_vtype a) (s_vtype b) \<or> s_vtype a = s_vtype b \<and> s_body a < s_body b)))"

fun variant_index :: "val \<Rightarrow> nat" where
  "variant_index (Bool _) = 0"
| "variant_index (Long _) = 1"
| "variant_index (Double _) = 2"
| "variant_index (Instant _) = 3"
| "variant_index (Uuid _) = 4"
| "variant_index (Keyword _) = 5"
| "variant_index (Str _) = 6"
| "variant_index (Bytes _) = 7"
| "variant_index (Ref _) = 8"
| "variant_index (Sealed _) = 9"

definition fields_less :: "val \<Rightarrow> val \<Rightarrow> bool" where
  "fields_less v w = (case v of
     Bool a \<Rightarrow> (case w of Bool b \<Rightarrow> \<not> a \<and> b | _ \<Rightarrow> False)
   | Long a \<Rightarrow> (case w of Long b \<Rightarrow> i64_less a b | _ \<Rightarrow> False)
   | Double a \<Rightarrow> (case w of Double b \<Rightarrow> f64_less a b | _ \<Rightarrow> False)
   | Instant a \<Rightarrow> (case w of Instant b \<Rightarrow> i64_less a b | _ \<Rightarrow> False)
   | Uuid a \<Rightarrow> (case w of Uuid b \<Rightarrow> a < b | _ \<Rightarrow> False)
   | Keyword a \<Rightarrow> (case w of Keyword b \<Rightarrow> a < b | _ \<Rightarrow> False)
   | Str a \<Rightarrow> (case w of Str b \<Rightarrow> a < b | _ \<Rightarrow> False)
   | Bytes a \<Rightarrow> (case w of Bytes b \<Rightarrow> a < b | _ \<Rightarrow> False)
   | Ref a \<Rightarrow> (case w of Ref b \<Rightarrow> a < b | _ \<Rightarrow> False)
   | Sealed a \<Rightarrow> (case w of Sealed b \<Rightarrow> sealed_less a b | _ \<Rightarrow> False))"

definition value_less :: "val \<Rightarrow> val \<Rightarrow> bool" where
  "value_less v w \<longleftrightarrow> variant_index v < variant_index w \<or> fields_less v w"

subsection \<open>Strings and UTF-8\<close>

definition str_bytes :: "string \<Rightarrow> bytes" where
  "str_bytes s = map (\<lambda>c. word_of_nat (of_char c)) s"

definition bytes_str :: "bytes \<Rightarrow> string" where
  "bytes_str bs = map (\<lambda>b. char_of (unat b)) bs"

definition in_range :: "byte \<Rightarrow> byte \<Rightarrow> byte \<Rightarrow> bool" where
  "in_range lo hi b \<longleftrightarrow> lo \<le> b \<and> b \<le> hi"

text \<open>
  \<open>std::str::from_utf8\<close> accepts exactly the well-formed byte sequences of the Unicode
  standard: no overlong form, no surrogate, nothing above \<open>U+10FFFF\<close>.
\<close>

fun utf8_valid :: "bytes \<Rightarrow> bool" where
  "utf8_valid [] = True"
| "utf8_valid (b0 # r0) =
     (if b0 < 0x80 then utf8_valid r0
      else case r0 of [] \<Rightarrow> False | b1 # r1 \<Rightarrow>
        if in_range 0xC2 0xDF b0 then in_range 0x80 0xBF b1 \<and> utf8_valid r1
        else case r1 of [] \<Rightarrow> False | b2 # r2 \<Rightarrow>
          if b0 = 0xE0 then in_range 0xA0 0xBF b1 \<and> in_range 0x80 0xBF b2 \<and> utf8_valid r2
          else if in_range 0xE1 0xEC b0 \<or> in_range 0xEE 0xEF b0
            then in_range 0x80 0xBF b1 \<and> in_range 0x80 0xBF b2 \<and> utf8_valid r2
          else if b0 = 0xED then in_range 0x80 0x9F b1 \<and> in_range 0x80 0xBF b2 \<and> utf8_valid r2
          else case r2 of [] \<Rightarrow> False | b3 # r3 \<Rightarrow>
            (if b0 = 0xF0 then in_range 0x90 0xBF b1
             else if in_range 0xF1 0xF3 b0 then in_range 0x80 0xBF b1
             else if b0 = 0xF4 then in_range 0x80 0x8F b1 else False)
            \<and> in_range 0x80 0xBF b2 \<and> in_range 0x80 0xBF b3 \<and> utf8_valid r3)"

fun value_wf :: "val \<Rightarrow> bool" where
  "value_wf (Str s) = utf8_valid (str_bytes s)"
| "value_wf _ = True"

subsection \<open>Facts\<close>

lemma bytes_str_str_bytes [simp]: "bytes_str (str_bytes s) = s"
proof -
  have "of_char c < (256::nat)" for c :: char
    by (metis of_char_mod_256 mod_less_divisor zero_less_numeral)
  then show ?thesis
    by (simp add: bytes_str_def str_bytes_def unat_of_nat comp_def map_idI)
qed

lemma str_bytes_inject [simp]: "str_bytes s = str_bytes t \<longleftrightarrow> s = t"
  by (metis bytes_str_str_bytes)

lemma str_bytes_less [simp]: "str_bytes s < str_bytes t \<longleftrightarrow> s < t"
proof -
  have lt: "of_char c < (256::nat)" for c :: char
    by (metis of_char_mod_256 mod_less_divisor zero_less_numeral)
  have cmp: "(word_of_nat (of_char c) :: byte) < word_of_nat (of_char d) \<longleftrightarrow> c < d" for c d :: char
    using lt by (simp add: word_less_nat_alt unat_of_nat less_char_def)
  have inj: "(word_of_nat (of_char c) :: byte) = word_of_nat (of_char d) \<longleftrightarrow> c = d" for c d :: char
    using str_bytes_inject [of "[c]" "[d]"] by (simp add: str_bytes_def)
  show ?thesis
  proof (induction s arbitrary: t)
    case Nil
    then show ?case by (cases t) (simp_all add: str_bytes_def)
  next
    case (Cons c s)
    then show ?case by (cases t) (simp_all add: str_bytes_def cmp inj)
  qed
qed

lemma value_type_index_inject: "value_type_index a = value_type_index b \<longleftrightarrow> a = b"
  by (cases a; cases b) simp_all

lemma has_type_unique: "has_type v t \<Longrightarrow> has_type v t' \<Longrightarrow> t = t'"
  by (cases v) simp_all

lemma str_bytes_bytes_str [simp]: "str_bytes (bytes_str bs) = bs"
proof -
  have "unat b mod 256 = unat b" for b :: byte
    using unat_less_pow [of b] by simp
  then show ?thesis
    by (induction bs) (simp_all add: str_bytes_def bytes_str_def)
qed

end
