(* ===== verification/Encoding.thy ===== *)
theory Encoding
  imports Values
begin

text \<open>
  The sortable encoding of values (\<open>crates/corium-core/src/encoding.rs\<close>): every value is a tag
  byte and a self-delimiting payload, and the byte order of encodings is the order of values.

  The locale \<open>sortable_encoding\<close> is that contract: two encodings followed by anything compare
  as the encoded things do, and by what follows only when these are equal. Its lemmas say what
  the indexes use of it (order, injectivity, no encoding a prefix of another); it is
  interpreted for every encoder of the file, down to the one of values.
\<close>

subsection \<open>Fixed-width integers\<close>

fun be_bytes :: "nat \<Rightarrow> nat \<Rightarrow> bytes" where
  "be_bytes 0 x = []"
| "be_bytes (Suc n) x = be_bytes n (x div 256) @ [word_of_nat x]"

definition be_val :: "bytes \<Rightarrow> nat" where
  "be_val bs = foldl (\<lambda>a b. a * 256 + unat b) 0 bs"

definition u32_to_be_bytes :: "u32 \<Rightarrow> bytes" where
  "u32_to_be_bytes w = be_bytes 4 (unat w)"

definition u64_to_be_bytes :: "u64 \<Rightarrow> bytes" where
  "u64_to_be_bytes w = be_bytes 8 (unat w)"

definition u128_to_be_bytes :: "u128 \<Rightarrow> bytes" where
  "u128_to_be_bytes w = be_bytes 16 (unat w)"

definition u32_from_be_bytes :: "bytes \<Rightarrow> u32" where
  "u32_from_be_bytes bs = word_of_nat (be_val bs)"

definition u64_from_be_bytes :: "bytes \<Rightarrow> u64" where
  "u64_from_be_bytes bs = word_of_nat (be_val bs)"

definition u128_from_be_bytes :: "bytes \<Rightarrow> u128" where
  "u128_from_be_bytes bs = word_of_nat (be_val bs)"

lemma be_bytes_numeral [simp]:
  "be_bytes (numeral k) x = be_bytes (pred_numeral k) (x div 256) @ [word_of_nat x]"
  unfolding numeral_eq_Suc [of k] by (rule be_bytes.simps)

lemma length_be_bytes [simp]: "length (be_bytes n x) = n"
  by (induction n x rule: be_bytes.induct) auto

lemma be_val_snoc: "be_val (bs @ [b]) = be_val bs * 256 + unat b"
  by (simp add: be_val_def)

lemma be_val_be_bytes: "be_val (be_bytes n x) = x mod 256 ^ n"
proof (induction n x rule: be_bytes.induct)
  case (2 n x)
  have "x div 256 mod 256 ^ n * 256 + x mod 256 = x mod 256 ^ Suc n"
    by (simp add: mod_mult2_eq mult.commute)
  with 2 show ?case by (simp add: be_val_snoc unat_of_nat)
qed (simp add: be_val_def)

lemma be_bytes_less:
  "x < 256 ^ n \<Longrightarrow> y < 256 ^ n \<Longrightarrow> be_bytes n x < be_bytes n y \<longleftrightarrow> x < y"
proof (induction n x arbitrary: y rule: be_bytes.induct)
  case (2 n x)
  from 2(2,3) have bound: "x div 256 < 256 ^ n" "y div 256 < 256 ^ n"
    by (auto intro: less_mult_imp_div_less simp: mult.commute)
  note IH = 2(1) [OF bound]
  from bound have inj: "be_bytes n (x div 256) = be_bytes n (y div 256) \<longleftrightarrow> x div 256 = y div 256"
    by (metis be_val_be_bytes mod_less)
  have "be_bytes (Suc n) x < be_bytes (Suc n) y \<longleftrightarrow>
      x div 256 < y div 256 \<or> x div 256 = y div 256 \<and> x mod 256 < y mod 256"
    by (simp add: snoc_less_eq_length IH inj word_less_nat_alt unat_of_nat)
  then show ?case
    by (simp only: nat_less_div_mod [of x y 256])
qed simp

subsection \<open>The contract of a sortable encoding\<close>

locale sortable_encoding =
  fixes enc :: "'a \<Rightarrow> bytes" and lt :: "'a \<Rightarrow> 'a \<Rightarrow> bool"
  assumes enc_less: "enc x @ s < enc y @ t \<longleftrightarrow> lt x y \<or> x = y \<and> s < t"
begin

lemma enc_order: "enc x < enc y \<longleftrightarrow> lt x y"
  using enc_less [of x "[]" y "[]"] by simp

lemma lt_irrefl: "\<not> lt x x"
  using enc_order [of x x] by simp

lemma lt_trans: "lt x y \<Longrightarrow> lt y z \<Longrightarrow> lt x z"
  by (metis enc_order order_less_trans)

lemma enc_append_inject: "enc x @ s = enc y @ t \<longleftrightarrow> x = y \<and> s = t"
proof
  assume eq: "enc x @ s = enc y @ t"
  then have "\<not> lt x y" and "\<not> lt y x"
    using enc_less [of x s y t] enc_less [of y t x s] by auto
  moreover have "enc x @ s < enc y @ (t @ [0])"
  proof -
    have "z < z @ [0]" for z :: bytes
      by (induction z) auto
    then show ?thesis using eq by (metis append.assoc)
  qed
  ultimately have "x = y"
    using enc_less [of x s y "t @ [0]"] by blast
  with eq show "x = y \<and> s = t" by simp
qed simp

lemma enc_inject: "enc x = enc y \<longleftrightarrow> x = y"
  using enc_append_inject [of x "[]" y "[]"] by simp

lemma enc_prefix_free: "prefix (enc x) (enc y @ t) \<Longrightarrow> x = y"
  using enc_append_inject by (metis prefixE)

lemma enc_prefix_iff: "prefix (enc x @ s) (enc y @ t) \<longleftrightarrow> x = y \<and> prefix s t"
  using enc_append_inject [of y t x] by (auto simp: prefix_def)

lemma lt_total: "lt x y \<or> x = y \<or> lt y x"
  by (metis enc_inject enc_order linorder_less_linear)

end

text \<open>Encoders compose: a pair is encoded by the two encodings one after the other.\<close>

definition lex_less :: "('a \<Rightarrow> 'a \<Rightarrow> bool) \<Rightarrow> ('b \<Rightarrow> 'b \<Rightarrow> bool) \<Rightarrow> 'a \<times> 'b \<Rightarrow> 'a \<times> 'b \<Rightarrow> bool" where
  "lex_less r q p p' \<longleftrightarrow> r (fst p) (fst p') \<or> fst p = fst p' \<and> q (snd p) (snd p')"

lemma sortable_pair:
  assumes "sortable_encoding e1 lt1" and "sortable_encoding e2 lt2"
  shows "sortable_encoding (\<lambda>p. e1 (fst p) @ e2 (snd p)) (lex_less lt1 lt2)"
proof
  fix p p' s t
  show "(e1 (fst p) @ e2 (snd p)) @ s < (e1 (fst p') @ e2 (snd p')) @ t \<longleftrightarrow>
      lex_less lt1 lt2 p p' \<or> p = p' \<and> s < t"
    using sortable_encoding.enc_less [OF assms(1), of "fst p" "e2 (snd p) @ s" "fst p'"]
      sortable_encoding.enc_less [OF assms(2), of "snd p" s "snd p'" t]
    by (auto simp: lex_less_def prod_eq_iff)
qed

text \<open>An encoder read through an injection is sortable for the order it pulls back.\<close>

lemma sortable_image:
  assumes "sortable_encoding e lt" and "inj f"
  shows "sortable_encoding (\<lambda>x. e (f x)) (\<lambda>x y. lt (f x) (f y))"
  using assms by (simp add: sortable_encoding_def inj_eq)

lemma sortable_fixed:
  assumes "\<And>x. length (e x) = n" and "\<And>x y. e x < e y \<longleftrightarrow> lt x y" and "inj e"
  shows "sortable_encoding e lt"
  by standard (simp add: append_less_eq_length assms inj_eq [OF assms(3)])

subsection \<open>The encoders\<close>

definition i64_encode :: "i64 \<Rightarrow> bytes" where
  "i64_encode v = u64_to_be_bytes (v XOR sign_bit)"

definition f64_encode :: "total_f64 \<Rightarrow> bytes" where
  "f64_encode v = u64_to_be_bytes (sortable_bits v)"

fun escape_byte :: "byte \<Rightarrow> bytes" where
  "escape_byte b = (if b = 0 then [0, 0xff] else [b])"

definition encode_escaped :: "bytes \<Rightarrow> bytes" where
  "encode_escaped bs = concat (map escape_byte bs) @ [0, 0]"

fun value_type_tag :: "value_type \<Rightarrow> u8" where
  "value_type_tag BoolT = 0"
| "value_type_tag LongT = 1"
| "value_type_tag DoubleT = 2"
| "value_type_tag InstantT = 3"
| "value_type_tag UuidT = 4"
| "value_type_tag KeywordT = 5"
| "value_type_tag StrT = 6"
| "value_type_tag BytesT = 7"
| "value_type_tag RefT = 8"

definition BOOL_TAG :: u8 where "BOOL_TAG = 0x10"
definition LONG_TAG :: u8 where "LONG_TAG = 0x20"
definition DOUBLE_TAG :: u8 where "DOUBLE_TAG = 0x30"
definition INSTANT_TAG :: u8 where "INSTANT_TAG = 0x40"
definition UUID_TAG :: u8 where "UUID_TAG = 0x50"
definition KEYWORD_TAG :: u8 where "KEYWORD_TAG = 0x60"
definition STR_TAG :: u8 where "STR_TAG = 0x70"
definition BYTES_TAG :: u8 where "BYTES_TAG = 0x80"
definition REF_TAG :: u8 where "REF_TAG = 0x90"
definition SEALED_TAG :: u8 where "SEALED_TAG = 0xA0"

lemmas tag_defs [enc_simps] =
  BOOL_TAG_def LONG_TAG_def DOUBLE_TAG_def INSTANT_TAG_def UUID_TAG_def KEYWORD_TAG_def STR_TAG_def BYTES_TAG_def REF_TAG_def SEALED_TAG_def

definition sealed_encode :: "sealed \<Rightarrow> bytes" where
  "sealed_encode v = u64_to_be_bytes (s_class v) @ u32_to_be_bytes (s_epoch v)
     @ [value_type_tag (s_vtype v)] @ encode_escaped (s_body v)"

fun encode_value :: "val \<Rightarrow> bytes" where
  "encode_value (Bool v) = [BOOL_TAG, of_bool v]"
| "encode_value (Long v) = LONG_TAG # i64_encode v"
| "encode_value (Double v) = DOUBLE_TAG # f64_encode v"
| "encode_value (Instant v) = INSTANT_TAG # i64_encode v"
| "encode_value (Uuid v) = UUID_TAG # u128_to_be_bytes v"
| "encode_value (Keyword v) = KEYWORD_TAG # u64_to_be_bytes v"
| "encode_value (Str v) = STR_TAG # encode_escaped (str_bytes v)"
| "encode_value (Bytes v) = BYTES_TAG # encode_escaped v"
| "encode_value (Ref v) = REF_TAG # u64_to_be_bytes v"
| "encode_value (Sealed v) = SEALED_TAG # sealed_encode v"

subsection \<open>Every encoder is sortable\<close>

lemma u64_bytes_sortable: "sortable_encoding u64_to_be_bytes (<)"
proof (rule sortable_fixed)
  show "length (u64_to_be_bytes x) = 8" for x
    by (simp add: u64_to_be_bytes_def del: be_bytes_numeral)
  show "u64_to_be_bytes x < u64_to_be_bytes y \<longleftrightarrow> x < y" for x y
    using be_bytes_less [of "unat x" 8 "unat y"] unat_less_pow [of x] unat_less_pow [of y]
    by (simp add: u64_to_be_bytes_def word_less_nat_alt del: be_bytes_numeral)
  then show "inj u64_to_be_bytes"
    by (metis injI linorder_less_linear order_less_irrefl)
qed

lemma u32_bytes_sortable: "sortable_encoding u32_to_be_bytes (<)"
proof (rule sortable_fixed)
  show "length (u32_to_be_bytes x) = 4" for x
    by (simp add: u32_to_be_bytes_def del: be_bytes_numeral)
  show "u32_to_be_bytes x < u32_to_be_bytes y \<longleftrightarrow> x < y" for x y
    using be_bytes_less [of "unat x" 4 "unat y"] unat_less_pow [of x] unat_less_pow [of y]
    by (simp add: u32_to_be_bytes_def word_less_nat_alt del: be_bytes_numeral)
  then show "inj u32_to_be_bytes"
    by (metis injI linorder_less_linear order_less_irrefl)
qed

lemma u128_bytes_sortable: "sortable_encoding u128_to_be_bytes (<)"
proof (rule sortable_fixed)
  show "length (u128_to_be_bytes x) = 16" for x
    by (simp add: u128_to_be_bytes_def del: be_bytes_numeral)
  show "u128_to_be_bytes x < u128_to_be_bytes y \<longleftrightarrow> x < y" for x y
    using be_bytes_less [of "unat x" 16 "unat y"] unat_less_pow [of x] unat_less_pow [of y]
    by (simp add: u128_to_be_bytes_def word_less_nat_alt del: be_bytes_numeral)
  then show "inj u128_to_be_bytes"
    by (metis injI linorder_less_linear order_less_irrefl)
qed

lemma sint_sign_bit: "sint v = int (unat (v + sign_bit)) - 2 ^ 63" for v :: i64
proof -
  have u: "uint v < 2 ^ 64" "0 \<le> uint v" using uint_lt2p [of v] by simp_all
  have wrap: "(uint v + 2 ^ 63) mod 2 ^ 64 =
      (if uint v < 2 ^ 63 then uint v + 2 ^ 63 else uint v - 2 ^ 63)"
    using u by (auto intro!: int_mod_pos_eq [where q = 1])
  have "uint (v + sign_bit) = (uint v + 2 ^ 63) mod 2 ^ 64"
    by (simp add: uint_word_ariths sign_bit_def)
  moreover have "sint v = (uint v + 2 ^ 63) mod 2 ^ 64 - 2 ^ 63"
    by (simp add: sint_uint signed_take_bit_eq_take_bit_shift take_bit_eq_mod)
  ultimately show ?thesis by simp
qed

lemma i64_less_encode: "i64_less v w \<longleftrightarrow> v XOR sign_bit < w XOR sign_bit"
  unfolding i64_less_def sint_sign_bit xor_sign_bit word_less_def by simp

lemma inj_xor_sign_bit: "inj (\<lambda>v. v XOR sign_bit)"
  by (simp add: inj_def xor_sign_bit)

lemma i64_sortable: "sortable_encoding i64_encode i64_less"
  using sortable_image [OF u64_bytes_sortable inj_xor_sign_bit]
  by (simp add: i64_encode_def [abs_def] i64_less_encode [abs_def])


lemma and_sign_bit_eq_0: "v AND sign_bit = 0 \<longleftrightarrow> \<not> bit v 63"
proof
  assume "v AND sign_bit = 0"
  then have "\<not> bit (v AND sign_bit) 63" by simp
  then show "\<not> bit v 63" by (simp add: bit_and_iff bit_sign_bit)
next
  assume "\<not> bit v 63"
  then show "v AND sign_bit = 0"
    by (intro bit_word_eqI) (auto simp: bit_and_iff bit_sign_bit)
qed

lemma sortable_bits_alt:
  "sortable_bits f = (if bit (f64_bits f) 63 then NOT (f64_bits f) else f64_bits f XOR sign_bit)"
  by (simp add: sortable_bits_def and_sign_bit_eq_0 Let_def)

lemma bit_63_sortable_bits: "bit (sortable_bits f) 63 \<longleftrightarrow> \<not> bit (f64_bits f) 63"
  by (simp add: sortable_bits_alt bit_xor_iff bit_not_iff bit_sign_bit)

lemma inj_sortable_bits: "inj sortable_bits"
proof (rule injI)
  fix f g
  assume eq: "sortable_bits f = sortable_bits g"
  then have "bit (f64_bits f) 63 \<longleftrightarrow> bit (f64_bits g) 63"
    using bit_63_sortable_bits [of f] bit_63_sortable_bits [of g] by simp
  with eq have "f64_bits f = f64_bits g"
    by (auto simp: sortable_bits_alt xor_sign_bit split: if_splits)
  then show "f = g" by (cases f; cases g) simp
qed

lemma f64_sortable: "sortable_encoding f64_encode f64_less"
  using sortable_image [OF u64_bytes_sortable inj_sortable_bits]
  by (simp add: f64_encode_def [abs_def] f64_less_def [abs_def])

text \<open>
  An escaped byte string: a zero byte becomes the pair \<open>0, 0xff\<close> and the string ends with the
  pair \<open>0, 0\<close>, so that a proper prefix sorts first whatever follows.
\<close>

lemma encode_escaped_Nil [simp]: "encode_escaped [] = [0, 0]"
  by (simp add: encode_escaped_def)

lemma encode_escaped_Cons [simp]: "encode_escaped (b # bs) = escape_byte b @ encode_escaped bs"
  by (simp add: encode_escaped_def)

lemma escape_byte_less:
  "escape_byte a @ s < escape_byte b @ t \<longleftrightarrow> a < b \<or> a = b \<and> s < t"
  by (auto simp: word_neq_0_conv)

lemma escape_byte_above_end: "[0, 0] @ s < escape_byte b @ t" "\<not> escape_byte b @ t < [0, 0] @ s"
  by (auto simp: word_neq_0_conv)

lemma escaped_sortable: "sortable_encoding encode_escaped (<)"
proof
  fix x y s t :: bytes
  show "encode_escaped x @ s < encode_escaped y @ t \<longleftrightarrow> x < y \<or> x = y \<and> s < t"
  proof (induction x arbitrary: y)
    case Nil
    then show ?case
      by (cases y) (use escape_byte_above_end in \<open>auto simp del: escape_byte.simps\<close>)
  next
    case (Cons a x)
    then show ?case
      by (cases y) (use escape_byte_above_end in \<open>auto simp: escape_byte_less simp del: escape_byte.simps\<close>)
  qed
qed

lemma str_sortable: "sortable_encoding (\<lambda>s. encode_escaped (str_bytes s)) (<)"
proof -
  have "inj str_bytes" by (simp add: inj_def)
  from sortable_image [OF escaped_sortable this] show ?thesis by simp
qed

lemma value_type_tag_index: "value_type_tag t = word_of_nat (value_type_index t)"
  by (cases t) simp_all

lemma value_type_tag_sortable: "sortable_encoding (\<lambda>t. [value_type_tag t]) value_type_less"
proof (rule sortable_fixed)
  show "[value_type_tag x] < [value_type_tag y] \<longleftrightarrow> value_type_less x y" for x y
    by (cases x; cases y) (simp_all add: value_type_less_def)
  show "inj (\<lambda>t. [value_type_tag t])"
    by (rule injI, case_tac x; case_tac y) simp_all
qed simp

lemma sealed_sortable: "sortable_encoding sealed_encode sealed_less"
proof -
  let ?f = "\<lambda>s. (s_class s, s_epoch s, s_vtype s, s_body s)"
  have "inj ?f" by (rule injI) (auto intro: sealed.expand)
  from sortable_image [OF sortable_pair [OF u64_bytes_sortable sortable_pair [OF u32_bytes_sortable
        sortable_pair [OF value_type_tag_sortable escaped_sortable]]] this]
  show ?thesis
    by (simp add: sealed_encode_def [abs_def] sealed_less_def [abs_def] lex_less_def)
qed

lemma bool_sortable: "sortable_encoding (\<lambda>b. [of_bool b :: byte]) (\<lambda>a b. \<not> a \<and> b)"
  by (rule sortable_fixed [where n = 1]) (auto simp: inj_def)

lemma encode_value_tagged:
  "encode_value v = (let n = variant_index v in word_of_nat (16 * (n + 1)) # tl (encode_value v))"
  by (cases v) (simp_all add: tag_defs)

lemma variant_index_bound: "variant_index v \<le> 9"
  by (cases v) simp_all

lemma value_tag_less:
  "(word_of_nat (16 * (variant_index v + 1)) :: byte) < word_of_nat (16 * (variant_index w + 1))
     \<longleftrightarrow> variant_index v < variant_index w"
proof -
  have "unat (word_of_nat (16 * (variant_index u + 1)) :: byte) = 16 * (variant_index u + 1)" for u
    unfolding unat_of_nat using variant_index_bound [of u] by simp
  then show ?thesis unfolding word_less_nat_alt by simp
qed

lemma fields_less_variant: "fields_less v w \<Longrightarrow> variant_index v = variant_index w"
  by (cases v; cases w) (simp_all add: fields_less_def)

lemma value_payload_less:
  assumes "variant_index v = variant_index w"
  shows "tl (encode_value v) @ s < tl (encode_value w) @ t \<longleftrightarrow> fields_less v w \<or> v = w \<and> s < t"
  using assms
    sortable_encoding.enc_less [OF bool_sortable] sortable_encoding.enc_less [OF i64_sortable]
    sortable_encoding.enc_less [OF f64_sortable] sortable_encoding.enc_less [OF u128_bytes_sortable]
    sortable_encoding.enc_less [OF u64_bytes_sortable] sortable_encoding.enc_less [OF str_sortable]
    sortable_encoding.enc_less [OF escaped_sortable] sortable_encoding.enc_less [OF sealed_sortable]
  by (cases v; cases w) (simp_all add: fields_less_def)

lemma value_sortable: "sortable_encoding encode_value value_less"
proof
  fix x y s t
  let ?tag = "\<lambda>v. word_of_nat (16 * (variant_index v + 1)) :: byte"
  have enc: "encode_value v = ?tag v # tl (encode_value v)" for v
    using encode_value_tagged [of v] by (simp add: Let_def)
  have "encode_value x @ s < encode_value y @ t \<longleftrightarrow>
      ?tag x < ?tag y \<or> ?tag x = ?tag y \<and> tl (encode_value x) @ s < tl (encode_value y) @ t"
    by (subst enc [of x], subst enc [of y]) simp
  also have "\<dots> \<longleftrightarrow> variant_index x < variant_index y \<or>
      variant_index x = variant_index y \<and> (fields_less x y \<or> x = y \<and> s < t)"
    using value_tag_less [of x y] value_tag_less [of y x] value_payload_less [of x y s t]
    by (metis linorder_less_linear order_less_irrefl)
  also have "\<dots> \<longleftrightarrow> value_less x y \<or> x = y \<and> s < t"
    using fields_less_variant [of x y] by (auto simp: value_less_def)
  finally show "encode_value x @ s < encode_value y @ t \<longleftrightarrow> value_less x y \<or> x = y \<and> s < t" .
qed

interpretation u64_enc: sortable_encoding u64_to_be_bytes "(<)"
  by (rule u64_bytes_sortable)

interpretation value_enc: sortable_encoding encode_value value_less
  by (rule value_sortable)

text \<open>
  The derived order on values is linear: the encoding transports the order of byte strings.
\<close>

instantiation val :: linorder
begin

definition less_val :: "val \<Rightarrow> val \<Rightarrow> bool" where
  "less_val v w \<longleftrightarrow> value_less v w"

definition less_eq_val :: "val \<Rightarrow> val \<Rightarrow> bool" where
  "less_eq_val v w \<longleftrightarrow> v = w \<or> value_less v w"

instance
proof
  fix x y z :: val
  show "x < y \<longleftrightarrow> x \<le> y \<and> \<not> y \<le> x"
    by (metis less_eq_val_def less_val_def value_enc.lt_irrefl value_enc.lt_trans)
  show "x \<le> x" by (simp add: less_eq_val_def)
  show "x \<le> y \<Longrightarrow> y \<le> z \<Longrightarrow> x \<le> z"
    by (metis less_eq_val_def value_enc.lt_trans)
  show "x \<le> y \<Longrightarrow> y \<le> x \<Longrightarrow> x = y"
    by (metis less_eq_val_def value_enc.lt_irrefl value_enc.lt_trans)
  show "x \<le> y \<or> y \<le> x"
    by (metis less_eq_val_def value_enc.lt_total)
qed

end

subsection \<open>Decoding\<close>

datatype decode_error =
    Truncated | UnknownTag u8 | InvalidEscape | InvalidUtf8 | Trailing | InvalidValueType u8

definition slice_get :: "'a list \<Rightarrow> nat \<Rightarrow> nat \<Rightarrow> 'a list option" where
  "slice_get xs i j = (if i \<le> j \<and> j \<le> length xs then Some (take (j - i) (drop i xs)) else None)"

definition fixed :: "bytes \<Rightarrow> nat \<Rightarrow> decode_error + bytes" where
  "fixed rest n = ok_or Truncated (slice_get rest 0 n)"

definition value_type_from_tag :: "u8 \<Rightarrow> decode_error + value_type" where
  "value_type_from_tag tag =
    (if tag = 0 then Inr BoolT else if tag = 1 then Inr LongT else if tag = 2 then Inr DoubleT
     else if tag = 3 then Inr InstantT else if tag = 4 then Inr UuidT
     else if tag = 5 then Inr KeywordT else if tag = 6 then Inr StrT
     else if tag = 7 then Inr BytesT else if tag = 8 then Inr RefT
     else Inl (InvalidValueType tag))"

definition decode_i64 :: "bytes \<Rightarrow> i64" where
  "decode_i64 bs = u64_from_be_bytes bs XOR sign_bit"

definition decode_f64_bits :: "bytes \<Rightarrow> u64" where
  "decode_f64_bits bs =
    (let s = u64_from_be_bytes bs in if s AND sign_bit = 0 then NOT s else s XOR sign_bit)"

text \<open>
  The loop of \<open>decode_escaped\<close>: the input from index \<open>i\<close> on, the output so far, and \<open>i\<close>.
\<close>

fun decode_escaped_loop :: "bytes \<Rightarrow> bytes \<Rightarrow> nat \<Rightarrow> decode_error + bytes \<times> nat" where
  "decode_escaped_loop [] out i = Inl Truncated"
| "decode_escaped_loop (b # rest) out i =
    (if b = 0 then
       (case rest of
          [] \<Rightarrow> Inl InvalidEscape
        | c # rest' \<Rightarrow>
            if c = 0 then Inr (out, i + 2)
            else if c = 0xff then decode_escaped_loop rest' (out @ [0]) (i + 2)
            else Inl InvalidEscape)
     else decode_escaped_loop rest (out @ [b]) (i + 1))"

definition decode_escaped :: "bytes \<Rightarrow> decode_error + bytes \<times> nat" where
  "decode_escaped input = decode_escaped_loop input [] 0"

definition decode_sealed :: "bytes \<Rightarrow> decode_error + val \<times> nat" where
  "decode_sealed rest =
    bindr (fixed rest 8) (\<lambda>cls.
    bindr (ok_or Truncated (slice_get rest 8 12)) (\<lambda>ep.
    bindr (ok_or Truncated (if 12 < length rest then Some (rest ! 12) else None)) (\<lambda>tag.
    bindr (value_type_from_tag tag) (\<lambda>vtype.
    bindr (ok_or Truncated (if 13 \<le> length rest then Some (drop 13 rest) else None)) (\<lambda>tail.
    bindr (decode_escaped tail) (\<lambda>(body, used).
      Inr (Sealed (Sealed_mk (u64_from_be_bytes cls) (u32_from_be_bytes ep) vtype body),
           1 + 13 + used)))))))"

definition decode_value :: "bytes \<Rightarrow> decode_error + val \<times> nat" where
  "decode_value input = (case input of
     [] \<Rightarrow> Inl Truncated
   | tag # rest \<Rightarrow>
      if tag = BOOL_TAG then
        bindr (fixed rest 1) (\<lambda>bs. Inr (Bool (hd bs \<noteq> 0), 2))
      else if tag = LONG_TAG then
        bindr (fixed rest 8) (\<lambda>bs. Inr (Long (decode_i64 bs), 9))
      else if tag = DOUBLE_TAG then
        bindr (fixed rest 8) (\<lambda>bs. Inr (Double (TotalF64 (decode_f64_bits bs)), 9))
      else if tag = INSTANT_TAG then
        bindr (fixed rest 8) (\<lambda>bs. Inr (Instant (decode_i64 bs), 9))
      else if tag = UUID_TAG then
        bindr (fixed rest 16) (\<lambda>bs. Inr (Uuid (u128_from_be_bytes bs), 17))
      else if tag = KEYWORD_TAG then
        bindr (fixed rest 8) (\<lambda>bs. Inr (Keyword (u64_from_be_bytes bs), 9))
      else if tag = REF_TAG then
        bindr (fixed rest 8) (\<lambda>bs. Inr (Ref (u64_from_be_bytes bs), 9))
      else if tag = STR_TAG \<or> tag = BYTES_TAG then
        bindr (decode_escaped rest) (\<lambda>(bs, used).
          if tag = STR_TAG then
            if utf8_valid bs then Inr (Str (bytes_str bs), used + 1) else Inl InvalidUtf8
          else Inr (Bytes bs, used + 1))
      else if tag = SEALED_TAG then decode_sealed rest
      else Inl (UnknownTag tag))"

definition decode_entity_id :: "bytes \<Rightarrow> decode_error + entity_id \<times> nat" where
  "decode_entity_id input = bindr (fixed input 8) (\<lambda>bs. Inr (u64_from_be_bytes bs, 8))"

definition decode_u64 :: "bytes \<Rightarrow> decode_error + u64 \<times> nat" where
  "decode_u64 input = bindr (fixed input 8) (\<lambda>bs. Inr (u64_from_be_bytes bs, 8))"

subsection \<open>Decoding inverts encoding\<close>

lemma length_u64_to_be_bytes [simp]: "length (u64_to_be_bytes x) = 8"
  by (simp add: u64_to_be_bytes_def del: be_bytes_numeral)

lemma length_u32_to_be_bytes [simp]: "length (u32_to_be_bytes x) = 4"
  by (simp add: u32_to_be_bytes_def del: be_bytes_numeral)

lemma length_u128_to_be_bytes [simp]: "length (u128_to_be_bytes x) = 16"
  by (simp add: u128_to_be_bytes_def del: be_bytes_numeral)

lemma u64_from_to_be_bytes [simp]: "u64_from_be_bytes (u64_to_be_bytes x) = x"
  using unat_less_pow [of x]
  by (simp add: u64_from_be_bytes_def u64_to_be_bytes_def be_val_be_bytes del: be_bytes_numeral)

lemma u32_from_to_be_bytes [simp]: "u32_from_be_bytes (u32_to_be_bytes x) = x"
  using unat_less_pow [of x]
  by (simp add: u32_from_be_bytes_def u32_to_be_bytes_def be_val_be_bytes del: be_bytes_numeral)

lemma u128_from_to_be_bytes [simp]: "u128_from_be_bytes (u128_to_be_bytes x) = x"
  using unat_less_pow [of x]
  by (simp add: u128_from_be_bytes_def u128_to_be_bytes_def be_val_be_bytes del: be_bytes_numeral)

lemma fixed_append [simp]: "length bs = n \<Longrightarrow> fixed (bs @ rest) n = Inr bs"
  by (simp add: fixed_def slice_get_def)

lemma fixed_one [simp]: "fixed (b # rest) (Suc 0) = Inr [b]"
  by (simp add: fixed_def slice_get_def)

lemma decode_i64_encode [simp]: "decode_i64 (i64_encode v) = v"
  by (simp add: decode_i64_def i64_encode_def xor.assoc)

lemma decode_f64_encode [simp]: "decode_f64_bits (f64_encode v) = f64_bits v"
proof -
  have "decode_f64_bits (f64_encode v) =
      (if bit (sortable_bits v) 63 then sortable_bits v XOR sign_bit else NOT (sortable_bits v))"
    by (simp add: decode_f64_bits_def f64_encode_def and_sign_bit_eq_0)
  then show ?thesis
    unfolding bit_63_sortable_bits by (simp add: sortable_bits_alt xor.assoc)
qed

lemma decode_escaped_loop_encode:
  "decode_escaped_loop (encode_escaped bs @ rest) out i =
     Inr (out @ bs, i + length (encode_escaped bs))"
  by (induction bs arbitrary: out i) auto

lemma decode_escaped_encode [simp]:
  "decode_escaped (encode_escaped bs @ rest) = Inr (bs, length (encode_escaped bs))"
  by (simp add: decode_escaped_def decode_escaped_loop_encode)

lemma value_type_from_tag_inverse [simp]: "value_type_from_tag (value_type_tag t) = Inr t"
  by (cases t) (simp_all add: value_type_from_tag_def)

lemma decode_sealed_encode:
  "decode_sealed (sealed_encode s @ rest) = Inr (Sealed s, 1 + length (sealed_encode s))"
proof -
  have "drop 8 (u64_to_be_bytes c @ u32_to_be_bytes e @ tl) = u32_to_be_bytes e @ tl"
    "drop 13 (u64_to_be_bytes c @ u32_to_be_bytes e @ t # tl) = tl"
    "(u64_to_be_bytes c @ u32_to_be_bytes e @ t # tl) ! 12 = t" for c e t and tl :: bytes
    by (simp_all add: nth_append)
  then show ?thesis
    by (cases s) (simp add: decode_sealed_def sealed_encode_def slice_get_def)
qed

lemma length_i64_encode [simp]: "length (i64_encode v) = 8"
  by (simp add: i64_encode_def)

lemma length_f64_encode [simp]: "length (f64_encode v) = 8"
  by (simp add: f64_encode_def)

lemma decode_encode_value:
  "value_wf v \<Longrightarrow> decode_value (encode_value v @ rest) = Inr (v, length (encode_value v))"
  by (cases v) (simp_all add: decode_value_def tag_defs decode_sealed_encode)

lemma decode_entity_id_encode [simp]:
  "decode_entity_id (u64_to_be_bytes e @ rest) = Inr (e, 8)"
  by (simp add: decode_entity_id_def)

lemma decode_u64_encode [simp]: "decode_u64 (u64_to_be_bytes e @ rest) = Inr (e, 8)"
  by (simp add: decode_u64_def)

subsection \<open>What the decoder accepts\<close>

lemma be_bytes_be_val:
  "length bs = n \<Longrightarrow> be_bytes n (be_val bs) = bs"
proof (induction bs arbitrary: n rule: rev_induct)
  case (snoc b bs)
  have "unat b < 256" using unat_less_pow [of b] by simp
  then have "(be_val bs * 256 + unat b) div 256 = be_val bs" by simp
  moreover have "(word_of_nat (be_val bs * 256 + unat b) :: byte) = b"
    by (rule word_unat_eq_iff [THEN iffD2])
      (simp only: unat_of_nat, use \<open>unat b < 256\<close> in simp)
  ultimately show ?case
    using snoc by (auto simp: be_val_snoc)
qed simp

lemma be_val_bound: "be_val bs < 256 ^ length bs"
proof (induction bs rule: rev_induct)
  case (snoc b bs)
  have "unat b < 256" using unat_less_pow [of b] by simp
  with snoc show ?case by (simp add: be_val_snoc)
qed (simp add: be_val_def)

lemma u64_to_from_be_bytes: "length bs = 8 \<Longrightarrow> u64_to_be_bytes (u64_from_be_bytes bs) = bs"
  using be_val_bound [of bs]
  by (simp add: u64_to_be_bytes_def u64_from_be_bytes_def unat_of_nat be_bytes_be_val
      del: be_bytes_numeral)

lemma u32_to_from_be_bytes: "length bs = 4 \<Longrightarrow> u32_to_be_bytes (u32_from_be_bytes bs) = bs"
  using be_val_bound [of bs]
  by (simp add: u32_to_be_bytes_def u32_from_be_bytes_def unat_of_nat be_bytes_be_val
      del: be_bytes_numeral)

lemma u128_to_from_be_bytes: "length bs = 16 \<Longrightarrow> u128_to_be_bytes (u128_from_be_bytes bs) = bs"
  using be_val_bound [of bs]
  by (simp add: u128_to_be_bytes_def u128_from_be_bytes_def unat_of_nat be_bytes_be_val
      del: be_bytes_numeral)

lemma i64_encode_decode: "length bs = 8 \<Longrightarrow> i64_encode (decode_i64 bs) = bs"
  by (simp add: i64_encode_def decode_i64_def xor.assoc u64_to_from_be_bytes)

lemma f64_encode_decode: "length bs = 8 \<Longrightarrow> f64_encode (TotalF64 (decode_f64_bits bs)) = bs"
  by (simp add: f64_encode_def decode_f64_bits_def sortable_bits_alt and_sign_bit_eq_0 Let_def
      bit_not_iff bit_xor_iff bit_sign_bit xor.assoc u64_to_from_be_bytes)

lemma fixed_eq_Inr: "fixed rest n = Inr bs \<longleftrightarrow> n \<le> length rest \<and> bs = take n rest"
  by (auto simp: fixed_def slice_get_def ok_or_eq_Inr)

lemma decode_escaped_loop_sound:
  "decode_escaped_loop input out i = Inr (bs, j) \<Longrightarrow>
     \<exists>tail. bs = out @ tail \<and> j = i + length (encode_escaped tail) \<and> prefix (encode_escaped tail) input"
proof (induction input out i rule: decode_escaped_loop.induct)
  case (2 b rest out i)
  consider (stop) r where "b = 0" "rest = 0 # r" | (zero) r where "b = 0" "rest = 0xff # r" | (other) "b \<noteq> 0"
    using 2(3) by (auto split: list.splits if_splits)
  then show ?case
  proof cases
    case stop
    with 2(3) show ?thesis by (auto intro!: exI [of _ "[]"])
  next
    case zero
    with 2(1) 2(3) obtain tail where
      "bs = (out @ [0]) @ tail" "j = i + 2 + length (encode_escaped tail)"
      "prefix (encode_escaped tail) r" by auto
    with zero show ?thesis by (auto intro!: exI [of _ "0 # tail"])
  next
    case other
    with 2(2) 2(3) obtain tail where
      "bs = (out @ [b]) @ tail" "j = i + 1 + length (encode_escaped tail)"
      "prefix (encode_escaped tail) rest" by auto
    with other show ?thesis by (auto intro!: exI [of _ "b # tail"])
  qed
qed simp

lemma decode_escaped_sound:
  "decode_escaped input = Inr (bs, j) \<Longrightarrow>
     j = length (encode_escaped bs) \<and> prefix (encode_escaped bs) input"
  using decode_escaped_loop_sound [of input "[]" 0 bs j] by (simp add: decode_escaped_def)

lemma value_type_from_tag_sound: "value_type_from_tag t = Inr ty \<Longrightarrow> value_type_tag ty = t"
  by (auto simp: value_type_from_tag_def split: if_splits)

lemma sealed_layout:
  fixes rest :: bytes
  assumes "12 < length rest"
  shows "rest = take 8 rest @ take 4 (drop 8 rest) @ [rest ! 12] @ drop 13 rest"
proof -
  have "drop 12 rest = rest ! 12 # drop 13 rest"
    using Cons_nth_drop_Suc [OF assms] by simp
  moreover have "drop 8 rest = take 4 (drop 8 rest) @ drop 12 rest"
    using append_take_drop_id [of 4 "drop 8 rest"] by (simp only: drop_drop) simp
  ultimately show ?thesis
    by (metis append_Cons append_Nil append_take_drop_id)
qed

lemma decode_sealed_sound:
  assumes "decode_sealed rest = Inr (v, n)"
  shows "\<exists>s. v = Sealed s \<and> n = 1 + length (sealed_encode s) \<and> prefix (sealed_encode s) rest"
proof -
  obtain vt body used where len: "12 < length rest"
    and vt: "value_type_from_tag (rest ! 12) = Inr vt"
    and body: "decode_escaped (drop 13 rest) = Inr (body, used)"
    and res: "v = Sealed (Sealed_mk (u64_from_be_bytes (take 8 rest))
        (u32_from_be_bytes (take 4 (drop 8 rest))) vt body)" "n = 1 + 13 + used"
    using assms
    by (auto simp: decode_sealed_def bindr_eq_Inr ok_or_eq_Inr fixed_eq_Inr slice_get_def
        split: if_splits)
  let ?s = "Sealed_mk (u64_from_be_bytes (take 8 rest)) (u32_from_be_bytes (take 4 (drop 8 rest))) vt body"
  have enc: "sealed_encode ?s = take 8 rest @ take 4 (drop 8 rest) @ [rest ! 12] @ encode_escaped body"
    using len value_type_from_tag_sound [OF vt]
    by (simp add: sealed_encode_def u64_to_from_be_bytes u32_to_from_be_bytes)
  have "prefix (sealed_encode ?s) rest"
  proof -
    obtain zs where "drop 13 rest = encode_escaped body @ zs"
      using decode_escaped_sound [OF body] by (auto simp: prefix_def)
    with sealed_layout [OF len] have "rest = sealed_encode ?s @ zs"
      unfolding enc by simp
    then show ?thesis by (rule prefixI)
  qed
  moreover have "n = 1 + length (sealed_encode ?s)"
    unfolding enc using decode_escaped_sound [OF body] len res by simp
  ultimately show ?thesis using res by blast
qed


lemma take_length_prefix: "prefix xs rest \<Longrightarrow> take (length xs) rest = xs"
  by (auto simp: prefix_def)

lemma take_one: "Suc 0 \<le> length xs \<Longrightarrow> take (Suc 0) xs = [hd xs]"
  by (cases xs) auto

lemma decode_value_sound:
  assumes "decode_value input = Inr (v, n)"
  shows "value_wf v \<and> n \<le> length input \<and> (v \<noteq> Bool True \<longrightarrow> take n input = encode_value v)"
proof -
  obtain tag rest where input: "input = tag # rest"
    using assms by (cases input) (auto simp: decode_value_def)
  show ?thesis
  proof (cases "tag = SEALED_TAG")
    case True
    then obtain s where "v = Sealed s" "n = 1 + length (sealed_encode s)" "prefix (sealed_encode s) rest"
      using assms decode_sealed_sound [of rest v n] by (auto simp: input decode_value_def tag_defs)
    with True show ?thesis
      by (auto simp: input take_length_prefix prefix_length_le)
  next
    case False
    show ?thesis
    proof (cases "tag = STR_TAG \<or> tag = BYTES_TAG")
      case True
      then obtain bs where "prefix (encode_escaped bs) rest" "n = Suc (length (encode_escaped bs))"
        and "tag = STR_TAG \<and> utf8_valid bs \<and> v = Str (bytes_str bs) \<or> tag = BYTES_TAG \<and> v = Bytes bs"
        using assms
        by (auto simp: input decode_value_def tag_defs bindr_eq_Inr split: if_splits
            dest!: decode_escaped_sound)
      then show ?thesis
        by (auto simp: input take_length_prefix prefix_length_le)
    next
      case False
      with \<open>tag \<noteq> SEALED_TAG\<close> show ?thesis
        using assms
        by (auto simp: input decode_value_def bindr_eq_Inr fixed_eq_Inr i64_encode_decode
            f64_encode_decode u64_to_from_be_bytes u128_to_from_be_bytes take_one
            split: if_splits)
    qed
  qed
qed

subsection \<open>Properties\<close>

text \<open>
  C12. The byte encoding of values is order preserving and self-delimiting: whatever bytes follow
  two encodings, they compare the way the values do under the derived order, and by what
  follows only when the values are equal.
\<close>

theorem encode_value_order:
  "encode_value v @ s < encode_value w @ t \<longleftrightarrow> v < w \<or> v = w \<and> s < t"
  by (simp add: value_enc.enc_less less_val_def)

text \<open>
  Decoding inverts encoding: for every well-formed value, with any bytes after it,
  \<open>decode_value\<close> returns the value and exactly the length of its encoding.
\<close>

theorem decode_value_encode_value:
  "value_wf v \<Longrightarrow> decode_value (encode_value v @ rest) = Inr (v, length (encode_value v))"
  by (rule decode_encode_value)

theorem decode_value_encode_value_witness:
  "decode_value (encode_value (Str ''a'') @ [7]) = Inr (Str ''a'', 4)"
  using decode_value_encode_value [of "Str ''a''" "[7]"]
  by (simp add: str_bytes_def)

text \<open>
  What \<open>decode_value\<close> accepts: it returns a well-formed value, consumes no more than the
  input, and what it consumes is the encoding of the value, byte for byte, except that a
  boolean payload is read as true whatever its nonzero byte.
\<close>

theorem decode_value_canonical:
  assumes "decode_value input = Inr (v, n)"
  shows "value_wf v \<and> n \<le> length input \<and> (v \<noteq> Bool True \<longrightarrow> take n input = encode_value v)"
  by (rule decode_value_sound [OF assms])

theorem decode_value_canonical_witness:
  "decode_value [0x80, 1, 0, 0, 9] = Inr (Bytes [1], 4) \<and>
   take 4 [0x80, 1, 0, 0, 9] = encode_value (Bytes [1])"
proof -
  have d: "decode_value [0x80, 1, 0, 0, 9] = Inr (Bytes [1], 4)"
    by (simp add: decode_value_def decode_escaped_def tag_defs)
  show ?thesis using d decode_value_canonical [OF d] by simp
qed

end
