(* ===== verification/Ordered_Map.thy ===== *)
theory Ordered_Map
  imports Prelude
begin

text \<open>
  Ordered maps and sets. Every map of the sources that is iterated in key order (the
  standard library's \<open>BTreeMap\<close> and \<open>BTreeSet\<close>, and the persistent map behind a database
  value's covering indexes) is represented by the value it holds: the list of its entries in
  strictly ascending key order. The representation is canonical, so two maps are equal when
  they answer every lookup alike (\<open>om_eqI\<close>).

  The locale \<open>ordered_map\<close> is the interface the components rely on: what a lookup and an
  ascending iteration return after an insertion or a removal.
\<close>

subsection \<open>Association lists in ascending key order\<close>

fun al_insert :: "'k::linorder \<Rightarrow> 'v \<Rightarrow> ('k \<times> 'v) list \<Rightarrow> ('k \<times> 'v) list" where
  "al_insert k v [] = [(k, v)]"
| "al_insert k v ((a, w) # m) =
     (if k < a then (k, v) # (a, w) # m
      else if k = a then (k, v) # m
      else (a, w) # al_insert k v m)"

definition al_remove :: "'k \<Rightarrow> ('k \<times> 'v) list \<Rightarrow> ('k \<times> 'v) list" where
  "al_remove k m = filter (\<lambda>e. fst e \<noteq> k) m"

abbreviation ascending :: "('k::linorder \<times> 'v) list \<Rightarrow> bool" where
  "ascending m \<equiv> sorted_wrt (<) (map fst m)"

lemma al_insert_keys: "set (map fst (al_insert k v m)) = insert k (set (map fst m))"
  by (induction k v m rule: al_insert.induct) auto

lemma ascending_al_insert: "ascending m \<Longrightarrow> ascending (al_insert k v m)"
proof (induction k v m rule: al_insert.induct)
  case (2 k v a w m)
  then show ?case
    using al_insert_keys [of k v m] by (auto simp del: set_map)
qed simp

lemma ascending_filter: "ascending m \<Longrightarrow> ascending (filter P m)"
  by (induction m) auto

lemma map_of_al_insert: "map_of (al_insert k v m) = (map_of m)(k \<mapsto> v)"
  by (induction k v m rule: al_insert.induct) auto

lemma map_of_al_remove: "map_of (al_remove k m) = (map_of m)(k := None)"
  unfolding al_remove_def by (induction m) auto

lemma ascending_distinct: "ascending m \<Longrightarrow> distinct (map fst m)"
  by (simp add: strict_sorted_iff)

lemma map_snd_by_key: "distinct (map fst m) \<Longrightarrow> map snd m = map (\<lambda>k. the (map_of m k)) (map fst m)"
  by (auto simp: map_of_is_SomeI)

lemma ascending_eq:
  assumes "ascending m" and "ascending n" and "map_of m = map_of n"
  shows "m = n"
proof -
  have "set (map fst m) = set (map fst n)"
    using assms(3) by (metis dom_map_of_conv_image_fst set_map)
  with assms have "map fst m = map fst n"
    using strict_sorted_unique by blast
  moreover from this have "map snd m = map snd n"
    using assms map_snd_by_key [of m] map_snd_by_key [of n] by (simp add: ascending_distinct)
  ultimately show ?thesis by (rule pair_list_eqI)
qed

subsection \<open>The type of ordered maps\<close>

typedef (overloaded) ('k::linorder, 'v) omap = "{m :: ('k \<times> 'v) list. ascending m}"
  morphisms om_entries Abs_omap
  by (rule exI [of _ "[]"]) simp

setup_lifting type_definition_omap

lift_definition om_empty :: "('k::linorder, 'v) omap" is "[]"
  by simp

lift_definition om_get :: "('k::linorder, 'v) omap \<Rightarrow> 'k \<Rightarrow> 'v option" is map_of .

lift_definition om_insert :: "'k::linorder \<Rightarrow> 'v \<Rightarrow> ('k, 'v) omap \<Rightarrow> ('k, 'v) omap" is al_insert
  by (rule ascending_al_insert)

lift_definition om_remove :: "'k::linorder \<Rightarrow> ('k, 'v) omap \<Rightarrow> ('k, 'v) omap" is al_remove
  by (simp add: al_remove_def ascending_filter)

lift_definition om_filter :: "('k \<times> 'v \<Rightarrow> bool) \<Rightarrow> ('k::linorder, 'v) omap \<Rightarrow> ('k, 'v) omap"
  is filter
  by (rule ascending_filter)

definition om_keys :: "('k::linorder, 'v) omap \<Rightarrow> 'k list" where
  "om_keys m = map fst (om_entries m)"

definition om_values :: "('k::linorder, 'v) omap \<Rightarrow> 'v list" where
  "om_values m = map snd (om_entries m)"

definition om_size :: "('k::linorder, 'v) omap \<Rightarrow> nat" where
  "om_size m = length (om_entries m)"

text \<open>The entries from the first key at or after \<open>k\<close> on, in ascending order.\<close>

definition om_range_from :: "'k \<Rightarrow> ('k::linorder, 'v) omap \<Rightarrow> ('k \<times> 'v) list" where
  "om_range_from k m = dropWhile (\<lambda>e. fst e < k) (om_entries m)"

text \<open>\<open>collect\<close> into a map: the entries are inserted in the order they come.\<close>

definition om_of_list :: "('k::linorder \<times> 'v) list \<Rightarrow> ('k, 'v) omap" where
  "om_of_list es = fold (\<lambda>(k, v). om_insert k v) es om_empty"

lemma om_entries_simps [simp]:
  "om_entries om_empty = []"
  "om_entries (om_insert k v m) = al_insert k v (om_entries m)"
  "om_entries (om_remove k m) = al_remove k (om_entries m)"
  "om_entries (om_filter P m) = filter P (om_entries m)"
  by (transfer; simp)+

lemma om_get_entries: "om_get m k = map_of (om_entries m) k"
  by transfer simp

lemma om_entries_ascending [simp]: "ascending (om_entries m)"
  using om_entries by blast

lemma om_keys_ascending: "sorted_wrt (<) (om_keys m)"
  by (simp add: om_keys_def)

lemma om_get_simps [simp]:
  "om_get om_empty k = None"
  "om_get (om_insert k v m) k' = (if k' = k then Some v else om_get m k')"
  "om_get (om_remove k m) k' = (if k' = k then None else om_get m k')"
  by (simp_all add: om_get_entries map_of_al_insert map_of_al_remove)

lemma om_eqI: "(\<And>k. om_get m k = om_get n k) \<Longrightarrow> m = n"
proof -
  assume "\<And>k. om_get m k = om_get n k"
  then have "map_of (om_entries m) = map_of (om_entries n)"
    by (simp add: fun_eq_iff flip: om_get_entries)
  then have "om_entries m = om_entries n"
    by (rule ascending_eq [OF om_entries_ascending om_entries_ascending])
  then show ?thesis by (simp add: om_entries_inject)
qed

lemma om_entries_iff: "(k, v) \<in> set (om_entries m) \<longleftrightarrow> om_get m k = Some v"
  by (simp add: om_get_entries ascending_distinct)

lemma om_get_filter: "om_get (om_filter P m) k =
    (case om_get m k of None \<Rightarrow> None | Some v \<Rightarrow> if P (k, v) then Some v else None)"
proof (rule option_eqI)
  fix v
  have "om_get (om_filter P m) k = Some v \<longleftrightarrow> om_get m k = Some v \<and> P (k, v)"
    by (simp flip: om_entries_iff)
  then show "om_get (om_filter P m) k = Some v \<longleftrightarrow>
      (case om_get m k of None \<Rightarrow> None | Some v \<Rightarrow> if P (k, v) then Some v else None) = Some v"
    by (simp split: option.split) blast
qed

lemma om_values_iff: "v \<in> set (om_values m) \<longleftrightarrow> (\<exists>k. om_get m k = Some v)"
  by (force simp: om_values_def simp flip: om_entries_iff)

lemma om_keys_iff: "k \<in> set (om_keys m) \<longleftrightarrow> (\<exists>v. om_get m k = Some v)"
  by (force simp: om_keys_def simp flip: om_entries_iff)

lemma om_range_from_filter: "om_range_from k m = filter (\<lambda>e. k \<le> fst e) (om_entries m)"
proof -
  have "ascending es \<Longrightarrow> dropWhile (\<lambda>e. fst e < k) es = filter (\<lambda>e. k \<le> fst e) es"
    for es :: "('a \<times> 'b) list"
  proof (induction es)
    case (Cons e es)
    then have "k \<le> fst e \<Longrightarrow> filter (\<lambda>e. k \<le> fst e) es = es"
      by (auto simp: filter_id_conv)
    with Cons show ?case by auto
  qed simp
  then show ?thesis by (simp add: om_range_from_def)
qed

lemma al_insert_last: "\<forall>e \<in> set m. fst e < k \<Longrightarrow> al_insert k v m = m @ [(k, v)]"
  by (induction k v m rule: al_insert.induct) (auto simp: less_not_sym)

lemma om_entries_of_list: "ascending es \<Longrightarrow> om_entries (om_of_list es) = es"
proof (induction es rule: rev_induct)
  case (snoc e es)
  then have "\<forall>e' \<in> set es. fst e' < fst e" and "ascending es"
    by (auto simp: sorted_wrt_append)
  with snoc show ?case
    by (cases e) (simp add: om_of_list_def al_insert_last)
qed (simp add: om_of_list_def)

lemma om_size_insert: "om_size (om_insert k v m) = (if om_get m k = None then Suc (om_size m) else om_size m)"
proof -
  have "ascending es \<Longrightarrow> length (al_insert k v es) = (if map_of es k = None then Suc (length es) else length es)" for es
  proof (induction k v es rule: al_insert.induct)
    case (2 k v a w m)
    have "map_of m k = None" if "k < a"
      using 2(2) that by (auto simp: map_of_eq_None_iff)
    then show ?case using 2 by auto
  qed simp
  then show ?thesis by (simp add: om_size_def om_get_entries)
qed

lemma om_size_empty [simp]: "om_size om_empty = 0"
  by (simp add: om_size_def)

lemma om_insert_commute:
  "k \<noteq> k' \<Longrightarrow> om_insert k v (om_insert k' v' m) = om_insert k' v' (om_insert k v m)"
  by (rule om_eqI) auto

instantiation omap :: (linorder, equal) equal
begin

definition equal_omap :: "('a, 'b) omap \<Rightarrow> ('a, 'b) omap \<Rightarrow> bool" where
  "equal_omap m n = (om_entries m = om_entries n)"

instance
  by standard (simp add: equal_omap_def om_entries_inject)

end

subsection \<open>The interface of an ordered map\<close>

locale ordered_map =
  fixes new :: "'m"
    and get :: "'m \<Rightarrow> 'k::linorder \<Rightarrow> 'v option"
    and insert_mut :: "'k \<Rightarrow> 'v \<Rightarrow> 'm \<Rightarrow> 'm"
    and remove_mut :: "'k \<Rightarrow> 'm \<Rightarrow> 'm"
    and iter :: "'m \<Rightarrow> ('k \<times> 'v) list"
  assumes get_new: "get new k = None"
    and get_insert: "get (insert_mut k v m) k' = (if k' = k then Some v else get m k')"
    and get_remove: "get (remove_mut k m) k' = (if k' = k then None else get m k')"
    and iter_get: "(k, v) \<in> set (iter m) \<longleftrightarrow> get m k = Some v"
    and iter_ascending: "ascending (iter m)"
begin

lemma iter_determined:
  assumes "\<And>k. get m k = get n k"
  shows "iter m = iter n"
proof (rule ascending_eq [OF iter_ascending iter_ascending])
  have "map_of (iter m) k = get m k" for m k
    using iter_get [of k _ m] ascending_distinct [OF iter_ascending, of m]
    by (metis map_of_eq_Some_iff not_Some_eq)
  with assms show "map_of (iter m) = map_of (iter n)" by (simp add: fun_eq_iff)
qed

lemma insert_order_irrelevant:
  assumes "k \<noteq> k'"
  shows "iter (insert_mut k v (insert_mut k' v' m)) = iter (insert_mut k' v' (insert_mut k v m))"
  using assms by (intro iter_determined) (auto simp: get_insert)

lemma remove_after_insert:
  "iter (remove_mut k (insert_mut k v m)) = iter (remove_mut k m)"
  by (intro iter_determined) (auto simp: get_insert get_remove)

end

interpretation omap: ordered_map om_empty om_get om_insert om_remove om_entries
  by unfold_locales (simp_all add: om_entries_iff)

subsection \<open>Ordered sets\<close>

type_synonym 'a oset = "('a, unit) omap"

definition os_insert :: "'a::linorder \<Rightarrow> 'a oset \<Rightarrow> 'a oset" where
  "os_insert a s = om_insert a () s"

definition os_remove :: "'a::linorder \<Rightarrow> 'a oset \<Rightarrow> 'a oset" where
  "os_remove a s = om_remove a s"

definition os_member :: "'a::linorder \<Rightarrow> 'a oset \<Rightarrow> bool" where
  "os_member a s = (om_get s a \<noteq> None)"

definition os_elems :: "'a::linorder oset \<Rightarrow> 'a list" where
  "os_elems s = om_keys s"

lemma os_member_simps [simp]:
  "os_member a om_empty = False"
  "os_member a (os_insert b s) = (a = b \<or> os_member a s)"
  "os_member a (os_remove b s) = (a \<noteq> b \<and> os_member a s)"
  by (auto simp: os_member_def os_insert_def os_remove_def)

lemma os_elems_iff [simp]: "a \<in> set (os_elems s) \<longleftrightarrow> os_member a s"
  by (auto simp: os_elems_def om_keys_iff os_member_def)

lemma os_elems_sorted: "sorted_wrt (<) (os_elems s)"
  by (simp add: os_elems_def om_keys_ascending)

text \<open>The members as a set.\<close>

definition os_set :: "'a::linorder oset \<Rightarrow> 'a set" where
  "os_set s = {x. os_member x s}"

lemma os_set_simps [simp]: "os_set om_empty = {}" "os_set (os_insert x s) = insert x (os_set s)"
  by (auto simp: os_set_def)

lemma om_size_card: "om_size m = card {k. om_get m k \<noteq> None}"
proof -
  have "{k. om_get m k \<noteq> None} = set (map fst (om_entries m))"
    by (auto simp: om_get_entries map_of_eq_None_iff)
  then show ?thesis
    using distinct_card [OF ascending_distinct [OF om_entries_ascending, of m]] by (simp add: om_size_def)
qed

lemma os_size_card: "om_size s = card (set (os_elems s))"
proof -
  have "{k. om_get s k \<noteq> None} = set (os_elems s)"
    by (auto simp: os_member_def)
  then show ?thesis by (simp add: om_size_card)
qed

lemma om_size_os_set: "om_size s = card (os_set s)"
  unfolding os_size_card by (rule arg_cong [where f = card]) (auto simp: os_set_def)

end
