(* ===== verification/Keywords.thy ===== *)
theory Keywords
  imports Encoding Ordered_Map
begin

text \<open>
  Keywords and their interner (\<open>crates/corium-core/src/keyword.rs\<close>), and the plaintext of
  sealed values (\<open>encode_seal_plaintext\<close>, \<open>decode_seal_plaintext\<close> of
  \<open>crates/corium-core/src/encoding.rs\<close>).

  The clones of an interner share one overlay of reader-local keywords behind a mutex. The
  overlay is therefore a state of its own, \<open>local_keywords\<close>, that the operations take next to
  the durable table and return when they change it.
\<close>

subsection \<open>Keywords\<close>

datatype keyword = Kw (kw_ns: "string option") (kw_name: string)

instantiation keyword :: linorder
begin

definition less_keyword :: "keyword \<Rightarrow> keyword \<Rightarrow> bool" where
  "less_keyword a b \<longleftrightarrow> (kw_ns a, kw_name a) < (kw_ns b, kw_name b)"

definition less_eq_keyword :: "keyword \<Rightarrow> keyword \<Rightarrow> bool" where
  "less_eq_keyword a b \<longleftrightarrow> (kw_ns a, kw_name a) \<le> (kw_ns b, kw_name b)"

instance
proof
  fix x y z :: keyword
  show "x < y \<longleftrightarrow> x \<le> y \<and> \<not> y \<le> x"
    unfolding less_keyword_def less_eq_keyword_def by (rule less_le_not_le)
  show "x \<le> x" by (simp add: less_eq_keyword_def)
  show "x \<le> y \<Longrightarrow> y \<le> z \<Longrightarrow> x \<le> z"
    unfolding less_eq_keyword_def by (rule order_trans)
  show "x \<le> y \<Longrightarrow> y \<le> x \<Longrightarrow> x = y"
    unfolding less_eq_keyword_def by (drule (1) order_antisym) (auto intro: keyword.expand)
  show "x \<le> y \<or> y \<le> x"
    unfolding less_eq_keyword_def by (rule linear)
qed

end

text \<open>\<open>str::split_once\<close>: the parts around the first occurrence.\<close>

fun split_once :: "char \<Rightarrow> string \<Rightarrow> (string \<times> string) option" where
  "split_once c [] = None"
| "split_once c (x # xs) =
    (if x = c then Some ([], xs)
     else case split_once c xs of None \<Rightarrow> None | Some (a, b) \<Rightarrow> Some (x # a, b))"

definition kw_parse :: "string \<Rightarrow> keyword" where
  "kw_parse text = (case split_once (CHR ''/'') text of
     Some (namespace, name) \<Rightarrow>
       if namespace \<noteq> [] \<and> name \<noteq> [] then Kw (Some namespace) name else Kw None text
   | None \<Rightarrow> Kw None text)"

definition kw_display :: "keyword \<Rightarrow> string" where
  "kw_display k = (case kw_ns k of
     Some namespace \<Rightarrow> CHR '':'' # namespace @ ''/'' @ kw_name k
   | None \<Rightarrow> CHR '':'' # kw_name k)"

definition keyword_text :: "keyword \<Rightarrow> string" where
  "keyword_text k = (case kw_ns k of
     None \<Rightarrow> kw_name k
   | Some namespace \<Rightarrow> namespace @ ''/'' @ kw_name k)"

text \<open>The keywords that \<open>parse\<close> produces.\<close>

definition kw_canonical :: "keyword \<Rightarrow> bool" where
  "kw_canonical k \<longleftrightarrow> kw_parse (keyword_text k) = k"

lemma split_once_None: "split_once c xs = None \<longleftrightarrow> c \<notin> set xs"
  by (induction xs) (auto split: option.splits)

lemma split_once_Some: "split_once c xs = Some (a, b) \<longleftrightarrow> xs = a @ c # b \<and> c \<notin> set a"
proof (induction xs arbitrary: a)
  case (Cons x xs)
  show ?case
  proof (cases a)
    case Nil
    then show ?thesis by (cases "split_once c xs") auto
  next
    case (Cons y a')
    have "split_once c (x # xs) = Some (y # a', b) \<longleftrightarrow> x \<noteq> c \<and> x = y \<and> split_once c xs = Some (a', b)"
      by (cases "split_once c xs") auto
    then show ?thesis using Cons Cons.IH by auto
  qed
qed simp

lemma keyword_text_parse: "keyword_text (kw_parse text) = text"
  by (auto simp: keyword_text_def kw_parse_def split_once_Some split: option.splits)

lemma kw_canonical_parse: "kw_canonical (kw_parse text)"
  by (simp add: kw_canonical_def keyword_text_parse)

subsection \<open>The interner\<close>

definition FIRST_LOCAL_KW_ID :: kw_id where
  "FIRST_LOCAL_KW_ID = push_bit 56 1"

record keyword_interner =
  k_by_keyword :: "(keyword, kw_id) omap"
  k_by_id :: "(kw_id, keyword) omap"
  next_kw :: kw_id

record local_keywords =
  l_by_keyword :: "(keyword, kw_id) omap"
  l_by_id :: "(kw_id, keyword) omap"

definition interner_new :: keyword_interner where
  "interner_new = \<lparr>k_by_keyword = om_empty, k_by_id = om_empty, next_kw = 0\<rparr>"

definition local_new :: local_keywords where
  "local_new = \<lparr>l_by_keyword = om_empty, l_by_id = om_empty\<rparr>"

definition intern :: "keyword \<Rightarrow> keyword_interner \<Rightarrow> kw_id \<times> keyword_interner" where
  "intern k i = (case om_get (k_by_keyword i) k of
     Some kid \<Rightarrow> (kid, i)
   | None \<Rightarrow>
      let kid = next_kw i
      in (kid, i\<lparr>next_kw := next_kw i + 1, k_by_id := om_insert kid k (k_by_id i),
                k_by_keyword := om_insert k kid (k_by_keyword i)\<rparr>))"

definition intern_local ::
    "keyword_interner \<Rightarrow> keyword \<Rightarrow> local_keywords \<Rightarrow> kw_id \<times> local_keywords" where
  "intern_local i k l = (case om_get (k_by_keyword i) k of
     Some kid \<Rightarrow> (kid, l)
   | None \<Rightarrow> (case om_get (l_by_keyword l) k of
       Some kid \<Rightarrow> (kid, l)
     | None \<Rightarrow>
        let kid = FIRST_LOCAL_KW_ID + word_of_nat (om_size (l_by_id l))
        in (kid, l\<lparr>l_by_id := om_insert kid k (l_by_id l),
                  l_by_keyword := om_insert k kid (l_by_keyword l)\<rparr>)))"

definition kw_get :: "keyword_interner \<Rightarrow> local_keywords \<Rightarrow> keyword \<Rightarrow> kw_id option" where
  "kw_get i l k = (case om_get (k_by_keyword i) k of
     Some kid \<Rightarrow> Some kid | None \<Rightarrow> om_get (l_by_keyword l) k)"

definition kw_resolve :: "keyword_interner \<Rightarrow> local_keywords \<Rightarrow> kw_id \<Rightarrow> keyword option" where
  "kw_resolve i l kid = (case om_get (k_by_id i) kid of
     Some k \<Rightarrow> Some k | None \<Rightarrow> om_get (l_by_id l) kid)"

definition kw_iter :: "keyword_interner \<Rightarrow> (kw_id \<times> keyword) list" where
  "kw_iter i = om_entries (k_by_id i)"

definition kw_len :: "keyword_interner \<Rightarrow> nat" where
  "kw_len i = om_size (k_by_id i)"

definition kw_is_empty :: "keyword_interner \<Rightarrow> bool" where
  "kw_is_empty i = (om_entries (k_by_id i) = [])"

subsection \<open>Its invariant\<close>

text \<open>The two maps are inverse to each other and the ids are dense from zero.\<close>

definition interner_wf :: "keyword_interner \<Rightarrow> bool" where
  "interner_wf i \<longleftrightarrow>
    (\<forall>k kid. om_get (k_by_keyword i) k = Some kid \<longleftrightarrow> om_get (k_by_id i) kid = Some k) \<and>
    (\<forall>kid. om_get (k_by_id i) kid \<noteq> None \<longleftrightarrow> kid < next_kw i)"

text \<open>
  The overlay: inverse maps again, dense from \<open>FIRST_LOCAL_KW_ID\<close>. The number of entries stays
  below the room above it, so ids do not wrap.
\<close>

definition local_wf :: "local_keywords \<Rightarrow> bool" where
  "local_wf l \<longleftrightarrow>
    (\<forall>k kid. om_get (l_by_keyword l) k = Some kid \<longleftrightarrow> om_get (l_by_id l) kid = Some k) \<and>
    (\<forall>kid. om_get (l_by_id l) kid \<noteq> None \<longleftrightarrow>
      FIRST_LOCAL_KW_ID \<le> kid \<and> unat kid < 2 ^ 56 + om_size (l_by_id l))"

lemma interner_wfD:
  assumes "interner_wf i"
  shows "om_get (k_by_keyword i) k = Some kid \<longleftrightarrow> om_get (k_by_id i) kid = Some k"
    and "om_get (k_by_id i) kid = None \<longleftrightarrow> next_kw i \<le> kid"
  using assms unfolding interner_wf_def by (blast, metis not_None_eq not_less)

lemma interner_wf_new: "interner_wf interner_new"
  by (simp add: interner_wf_def interner_new_def)

lemma kw_new_id: "interner_wf i \<Longrightarrow> om_get (k_by_id i) (next_kw i) = None"
  by (simp add: interner_wfD)

lemma interner_wf_intern:
  assumes "interner_wf i" and "next_kw i + 1 \<noteq> 0"
  shows "interner_wf (snd (intern k i))"
proof (cases "om_get (k_by_keyword i) k")
  case None
  have new: "om_get (k_by_id i) (next_kw i) = None" by (rule kw_new_id [OF assms(1)])
  have below: "kid < next_kw i + 1 \<longleftrightarrow> kid < next_kw i \<or> kid = next_kw i" for kid
    using assms(2) unatSuc [of "next_kw i"]
    by (auto simp: word_less_nat_alt word_unat_eq_iff add.commute [of _ 1] less_Suc_eq)
  let ?i = "snd (intern k i)"
  have i: "?i = i\<lparr>next_kw := next_kw i + 1, k_by_id := om_insert (next_kw i) k (k_by_id i),
      k_by_keyword := om_insert k (next_kw i) (k_by_keyword i)\<rparr>"
    by (simp add: intern_def None Let_def)
  have "om_get (k_by_keyword ?i) k' = Some kid \<longleftrightarrow> om_get (k_by_id ?i) kid = Some k'" for k' kid
    using interner_wfD(1) [OF assms(1), of k' kid] new None
      interner_wfD(1) [OF assms(1), of k kid] interner_wfD(1) [OF assms(1), of k' "next_kw i"]
    unfolding i by (cases "k' = k"; cases "kid = next_kw i") simp_all
  moreover have "om_get (k_by_id ?i) kid \<noteq> None \<longleftrightarrow> kid < next_kw ?i" for kid
    using interner_wfD(2) [OF assms(1), of kid] below [of kid] unfolding i by auto
  ultimately show ?thesis unfolding interner_wf_def by blast
qed (simp add: intern_def assms)

lemma intern_resolves:
  assumes "interner_wf i"
  shows "om_get (k_by_id (snd (intern k i))) (fst (intern k i)) = Some k"
    and "om_get (k_by_id i) kid = Some k' \<Longrightarrow> om_get (k_by_id (snd (intern k i))) kid = Some k'"
  using assms kw_new_id [OF assms] interner_wfD(1) [OF assms]
  by (auto simp: intern_def Let_def split: option.splits)

subsection \<open>Re-interning\<close>

definition reintern :: "keyword list \<Rightarrow> keyword_interner" where
  "reintern ks = fold (\<lambda>k i. snd (intern k i)) ks interner_new"

lemma reintern_maps:
  assumes "distinct ks" and "length ks < 2 ^ 64"
  shows "next_kw (reintern ks) = word_of_nat (length ks) \<and>
    (\<forall>kid k. om_get (k_by_id (reintern ks)) kid = Some k \<longleftrightarrow>
       unat kid < length ks \<and> ks ! unat kid = k) \<and>
    (\<forall>kid k. om_get (k_by_keyword (reintern ks)) k = Some kid \<longleftrightarrow>
       unat kid < length ks \<and> ks ! unat kid = k)"
  using assms
proof (induction ks rule: rev_induct)
  case Nil
  then show ?case by (simp add: reintern_def interner_new_def)
next
  case (snoc k ks)
  let ?i = "reintern ks"
  have n: "next_kw ?i = word_of_nat (length ks)"
    and id: "\<And>kid k. om_get (k_by_id ?i) kid = Some k \<longleftrightarrow> unat kid < length ks \<and> ks ! unat kid = k"
    and kw: "\<And>kid k. om_get (k_by_keyword ?i) k = Some kid \<longleftrightarrow> unat kid < length ks \<and> ks ! unat kid = k"
    using snoc by simp_all
  have un: "unat (next_kw ?i) = length ks"
    using snoc(3) unfolding n by (simp add: unat_of_nat)
  then have eq: "kid = next_kw ?i \<longleftrightarrow> unat kid = length ks" for kid
    by (metis word_unat_eq_iff)
  have "om_get (k_by_keyword ?i) k = None"
    using kw [of k] snoc(2) by (metis distinct_append distinct.simps(2) not_Some_eq nth_mem snoc_eq_iff_butlast disjoint_iff list.set_intros(1))
  then have r: "reintern (ks @ [k]) = ?i\<lparr>next_kw := next_kw ?i + 1,
      k_by_id := om_insert (next_kw ?i) k (k_by_id ?i),
      k_by_keyword := om_insert k (next_kw ?i) (k_by_keyword ?i)\<rparr>"
    unfolding reintern_def by (simp add: intern_def Let_def)
  have nk: "k \<notin> set ks" using snoc(2) by simp
  have "om_get (k_by_id (reintern (ks @ [k]))) kid = Some k' \<longleftrightarrow>
      unat kid < length (ks @ [k]) \<and> (ks @ [k]) ! unat kid = k'" for kid k'
    unfolding r using id [of kid k'] eq [of kid] by (auto simp: nth_append less_Suc_eq)
  moreover have "om_get (k_by_keyword (reintern (ks @ [k]))) k' = Some kid \<longleftrightarrow>
      unat kid < length (ks @ [k]) \<and> (ks @ [k]) ! unat kid = k'" for kid k'
    unfolding r using kw [of k' kid] eq [of kid] nk by (auto simp: nth_append less_Suc_eq)
  moreover have "next_kw (reintern (ks @ [k])) = word_of_nat (length (ks @ [k]))"
    unfolding r by (simp add: n)
  ultimately show ?case by blast
qed

lemma interner_ids:
  assumes "interner_wf i"
  shows "map fst (kw_iter i) = map word_of_nat [0..<unat (next_kw i)]"
proof (rule strict_sorted_unique)
  let ?n = "unat (next_kw i)"
  have small: "j < ?n \<Longrightarrow> unat (word_of_nat j :: kw_id) = j" for j
    using unat_less_pow [of "next_kw i"] by (simp add: unat_of_nat)
  show "sorted_wrt (<) (map fst (kw_iter i))" by (simp add: kw_iter_def)
  show "sorted_wrt (<) (map word_of_nat [0..<?n] :: kw_id list)"
    by (auto simp: sorted_wrt_iff_nth_less word_less_nat_alt small)
  have "kid \<in> set (map fst (kw_iter i)) \<longleftrightarrow> kid < next_kw i" for kid
    using interner_wfD(2) [OF assms, of kid]
    by (auto simp: kw_iter_def om_keys_iff simp flip: om_keys_def)
  moreover have "kid \<in> set (map word_of_nat [0..<?n]) \<longleftrightarrow> kid < next_kw i" for kid :: kw_id
    by (auto simp: word_less_nat_alt small image_iff intro!: bexI [of _ "unat kid"])
  ultimately show "set (map fst (kw_iter i)) = set (map word_of_nat [0..<?n])" by blast
qed

lemma reintern_iter:
  assumes "interner_wf i"
  shows "reintern (map snd (kw_iter i)) = i"
proof -
  let ?ks = "map snd (kw_iter i)" and ?n = "unat (next_kw i)"
  have len: "length ?ks = ?n"
    using arg_cong [OF interner_ids [OF assms], of length] by simp
  have nth: "kw_iter i ! j = (word_of_nat j, ?ks ! j)" if "j < ?n" for j
    using arg_cong [OF interner_ids [OF assms], of "\<lambda>xs. xs ! j"] that len
    by (simp add: prod_eq_iff)
  have id: "om_get (k_by_id i) kid = Some k \<longleftrightarrow> unat kid < ?n \<and> ?ks ! unat kid = k" for kid k
  proof -
    have "om_get (k_by_id i) kid = Some k \<longleftrightarrow> (\<exists>j < ?n. kw_iter i ! j = (kid, k))"
      using len by (simp add: kw_iter_def om_entries_iff [symmetric] in_set_conv_nth)
    also have "\<dots> \<longleftrightarrow> unat kid < ?n \<and> ?ks ! unat kid = k"
      using nth unat_less_pow [of "next_kw i"] by (auto simp: unat_of_nat intro!: exI [of _ "unat kid"])
    finally show ?thesis .
  qed
  have "distinct ?ks"
  proof (rule distinct_conv_nth [THEN iffD2], intro allI impI)
    fix a b
    assume ab: "a < length ?ks" "b < length ?ks" "a \<noteq> b"
    let ?w = "\<lambda>j. word_of_nat j :: kw_id"
    have u: "unat (?w a) = a" "unat (?w b) = b"
      using ab len unat_less_pow [of "next_kw i"] by (simp_all add: unat_of_nat)
    have "om_get (k_by_id i) (?w a) = Some (?ks ! a)" "om_get (k_by_id i) (?w b) = Some (?ks ! b)"
      using id [of "?w a"] id [of "?w b"] u ab len by simp_all
    then show "?ks ! a \<noteq> ?ks ! b"
      using interner_wfD(1) [OF assms] u ab by (metis option.inject)
  qed
  from reintern_maps [OF this] len unat_less_pow [of "next_kw i"]
  have r: "next_kw (reintern ?ks) = next_kw i"
    "\<And>kid k. om_get (k_by_id (reintern ?ks)) kid = Some k \<longleftrightarrow> om_get (k_by_id i) kid = Some k"
    "\<And>kid k. om_get (k_by_keyword (reintern ?ks)) k = Some kid \<longleftrightarrow> om_get (k_by_keyword i) k = Some kid"
    by (simp_all add: id interner_wfD(1) [OF assms])
  have "k_by_id (reintern ?ks) = k_by_id i" "k_by_keyword (reintern ?ks) = k_by_keyword i"
    by (rule om_eqI, rule option_eqI, rule r(2))+ (rule om_eqI, rule option_eqI, rule r(3))
  with r(1) show ?thesis by (cases i; cases "reintern ?ks") simp
qed

subsection \<open>The local overlay\<close>

lemma unat_FIRST_LOCAL: "unat FIRST_LOCAL_KW_ID = 2 ^ 56"
  by (simp add: FIRST_LOCAL_KW_ID_def)

lemma local_wf_new: "local_wf local_new"
  by (auto simp: local_wf_def local_new_def word_le_nat_alt unat_FIRST_LOCAL)

lemma local_wfD:
  assumes "local_wf l"
  shows "om_get (l_by_keyword l) k = Some kid \<longleftrightarrow> om_get (l_by_id l) kid = Some k"
    and "om_get (l_by_id l) kid \<noteq> None \<longleftrightarrow>
      2 ^ 56 \<le> unat kid \<and> unat kid < 2 ^ 56 + om_size (l_by_id l)"
  using assms unfolding local_wf_def word_le_nat_alt unat_FIRST_LOCAL by blast+

lemma unat_local_id:
  "2 ^ 56 + n < 2 ^ 64 \<Longrightarrow> unat (FIRST_LOCAL_KW_ID + word_of_nat n) = 2 ^ 56 + n"
  by (simp add: unat_word_ariths unat_FIRST_LOCAL unat_of_nat)

lemma intern_local_cases:
  obtains (durable) "om_get (k_by_keyword i) k = Some (fst (intern_local i k l))" "snd (intern_local i k l) = l"
  | (known) "om_get (k_by_keyword i) k = None" "om_get (l_by_keyword l) k = Some (fst (intern_local i k l))"
      "snd (intern_local i k l) = l"
  | (fresh) kid where "om_get (k_by_keyword i) k = None" "om_get (l_by_keyword l) k = None"
      "kid = FIRST_LOCAL_KW_ID + word_of_nat (om_size (l_by_id l))"
      "intern_local i k l = (kid, l\<lparr>l_by_id := om_insert kid k (l_by_id l),
         l_by_keyword := om_insert k kid (l_by_keyword l)\<rparr>)"
  by (cases "om_get (k_by_keyword i) k"; cases "om_get (l_by_keyword l) k")
    (simp_all add: intern_local_def Let_def)

lemma local_wf_intern_local:
  assumes "local_wf l" and "2 ^ 56 + om_size (l_by_id l) < 2 ^ 64"
  shows "local_wf (snd (intern_local i k l))"
proof (cases i k l rule: intern_local_cases)
  case (fresh kid)
  let ?l = "snd (intern_local i k l)"
  have u: "unat kid = 2 ^ 56 + om_size (l_by_id l)"
    unfolding fresh by (rule unat_local_id [OF assms(2)])
  then have new: "om_get (l_by_id l) kid = None"
    using local_wfD(2) [OF assms(1), of kid] by auto
  have size: "om_size (l_by_id ?l) = Suc (om_size (l_by_id l))"
    by (simp add: fresh(4) om_size_insert new)
  have "om_get (l_by_keyword ?l) k' = Some kid' \<longleftrightarrow> om_get (l_by_id ?l) kid' = Some k'" for k' kid'
    using local_wfD(1) [OF assms(1), of k' kid'] local_wfD(1) [OF assms(1), of k kid']
      local_wfD(1) [OF assms(1), of k' kid] new fresh(2)
    by (cases "k' = k"; cases "kid' = kid") (simp_all add: fresh(4))
  moreover have "om_get (l_by_id ?l) kid' \<noteq> None \<longleftrightarrow>
      FIRST_LOCAL_KW_ID \<le> kid' \<and> unat kid' < 2 ^ 56 + om_size (l_by_id ?l)" for kid'
    using local_wfD(2) [OF assms(1), of kid'] u word_unat_eq_iff [of kid' kid]
    unfolding size word_le_nat_alt unat_FIRST_LOCAL by (simp add: fresh(4)) linarith
  ultimately show ?thesis unfolding local_wf_def by blast
qed (simp_all add: assms)

text \<open>A durable table with room below the local range, and its overlay.\<close>

definition tables_wf :: "keyword_interner \<Rightarrow> local_keywords \<Rightarrow> bool" where
  "tables_wf i l \<longleftrightarrow> interner_wf i \<and> local_wf l \<and> next_kw i \<le> FIRST_LOCAL_KW_ID \<and>
     2 ^ 56 + om_size (l_by_id l) < 2 ^ 64"

lemma tables_disjoint:
  assumes "tables_wf i l" and "om_get (l_by_id l) kid = Some k"
  shows "om_get (k_by_id i) kid = None"
proof -
  have "2 ^ 56 \<le> unat kid"
    using assms local_wfD(2) [of l kid] by (auto simp: tables_wf_def)
  moreover have "unat (next_kw i) \<le> 2 ^ 56"
    using assms(1) by (simp add: tables_wf_def word_le_nat_alt unat_FIRST_LOCAL)
  ultimately show ?thesis
    using assms(1) interner_wfD(2) [of i kid] by (simp add: tables_wf_def word_le_nat_alt)
qed

lemma intern_local_resolves:
  assumes "tables_wf i l"
  shows "kw_resolve i (snd (intern_local i k l)) (fst (intern_local i k l)) = Some k"
    and "kw_get i (snd (intern_local i k l)) k = Some (fst (intern_local i k l))"
    and "kw_resolve i l kid = Some k' \<Longrightarrow> kw_resolve i (snd (intern_local i k l)) kid = Some k'"
proof -
  have wf: "interner_wf i" "local_wf l" using assms by (simp_all add: tables_wf_def)
  have all: "kw_resolve i (snd (intern_local i k l)) (fst (intern_local i k l)) = Some k \<and>
      kw_get i (snd (intern_local i k l)) k = Some (fst (intern_local i k l)) \<and>
      (kw_resolve i l kid = Some k' \<longrightarrow> kw_resolve i (snd (intern_local i k l)) kid = Some k')"
  proof (cases i k l rule: intern_local_cases)
    case durable
    then show ?thesis
      using interner_wfD(1) [OF wf(1), of k "fst (intern_local i k l)"]
      by (simp add: kw_resolve_def kw_get_def)
  next
    case known
    then have "om_get (l_by_id l) (fst (intern_local i k l)) = Some k"
      using local_wfD(1) [OF wf(2)] by simp
    then show ?thesis
      using known tables_disjoint [OF assms] by (simp add: kw_resolve_def kw_get_def)
  next
    case (fresh n)
    have u: "unat n = 2 ^ 56 + om_size (l_by_id l)"
      unfolding fresh using assms by (intro unat_local_id) (simp add: tables_wf_def)
    then have "om_get (l_by_id l) n = None" using local_wfD(2) [OF wf(2), of n] by auto
    moreover have "om_get (k_by_id i) n = None"
      using assms interner_wfD(2) [OF wf(1), of n] u
      by (simp add: tables_wf_def word_le_nat_alt unat_FIRST_LOCAL)
    ultimately show ?thesis
      using fresh by (auto simp: kw_resolve_def kw_get_def split: option.splits)
  qed
  then show "kw_resolve i (snd (intern_local i k l)) (fst (intern_local i k l)) = Some k"
    "kw_get i (snd (intern_local i k l)) k = Some (fst (intern_local i k l))"
    "kw_resolve i l kid = Some k' \<Longrightarrow> kw_resolve i (snd (intern_local i k l)) kid = Some k'"
    by blast+
qed

subsection \<open>The plaintext of sealed values\<close>

datatype seal_plaintext_error =
    Nested | UnresolvableKeyword kw_id | Malformed decode_error | TypeMismatch value_type value_type

definition value_type_of :: "val \<Rightarrow> seal_plaintext_error + value_type" where
  "value_type_of v = (case v of
     Bool _ \<Rightarrow> Inr BoolT | Long _ \<Rightarrow> Inr LongT | Double _ \<Rightarrow> Inr DoubleT | Instant _ \<Rightarrow> Inr InstantT
   | Uuid _ \<Rightarrow> Inr UuidT | Keyword _ \<Rightarrow> Inr KeywordT | Str _ \<Rightarrow> Inr StrT | Bytes _ \<Rightarrow> Inr BytesT
   | Ref _ \<Rightarrow> Inr RefT | Sealed _ \<Rightarrow> Inl Nested)"

definition encode_seal_plaintext ::
    "keyword_interner \<Rightarrow> local_keywords \<Rightarrow> val \<Rightarrow> seal_plaintext_error + bytes" where
  "encode_seal_plaintext i l v = (case v of
     Sealed _ \<Rightarrow> Inl Nested
   | Keyword kid \<Rightarrow>
       bindr (ok_or (UnresolvableKeyword kid) (kw_resolve i l kid)) (\<lambda>k.
         Inr (STR_TAG # encode_escaped (str_bytes (keyword_text k))))
   | other \<Rightarrow> Inr (encode_value other))"

definition decode_seal_plaintext ::
    "keyword_interner \<Rightarrow> bytes \<Rightarrow> value_type \<Rightarrow> local_keywords
     \<Rightarrow> (seal_plaintext_error + val) \<times> local_keywords" where
  "decode_seal_plaintext i bs expected l = (case decode_value bs of
     Inl e \<Rightarrow> (Inl (Malformed e), l)
   | Inr (v, _) \<Rightarrow>
       if expected = KeywordT then
         (case v of
            Str text \<Rightarrow> (case intern_local i (kw_parse text) l of (kid, l) \<Rightarrow> (Inr (Keyword kid), l))
          | _ \<Rightarrow> (bindr (value_type_of v) (\<lambda>actual. Inl (TypeMismatch expected actual)), l))
       else if has_type v expected then (Inr v, l)
       else (bindr (value_type_of v) (\<lambda>actual. Inl (TypeMismatch expected actual)), l))"

definition is_sealed :: "val \<Rightarrow> bool" where
  "is_sealed v \<longleftrightarrow> (case v of Sealed _ \<Rightarrow> True | _ \<Rightarrow> False)"

definition is_keyword :: "val \<Rightarrow> bool" where
  "is_keyword v \<longleftrightarrow> (case v of Keyword _ \<Rightarrow> True | _ \<Rightarrow> False)"

lemma decode_seal_plain:
  assumes "value_wf v" and "\<not> is_sealed v" and "\<not> is_keyword v" and "has_type v t"
  shows "encode_seal_plaintext i l v = Inr (encode_value v) \<and>
    decode_seal_plaintext i' (encode_value v @ pad) t l' = (Inr v, l')"
proof -
  have "t \<noteq> KeywordT" using assms(2-4) by (cases v) (auto simp: is_sealed_def is_keyword_def)
  then show ?thesis
    using assms decode_encode_value [OF assms(1)]
    by (cases v) (simp_all add: encode_seal_plaintext_def decode_seal_plaintext_def
        is_sealed_def is_keyword_def)
qed

lemma decode_seal_keyword:
  assumes "kw_canonical k" and "utf8_valid (str_bytes (keyword_text k))"
    and "encode_seal_plaintext i l (Keyword kid) = Inr bs" and "kw_resolve i l kid = Some k"
  shows "decode_seal_plaintext i' (bs @ pad) KeywordT l' =
    (Inr (Keyword (fst (intern_local i' k l'))), snd (intern_local i' k l'))"
proof -
  have bs: "bs = encode_value (Str (keyword_text k))"
    using assms(3,4) by (simp add: encode_seal_plaintext_def)
  have d: "decode_value (bs @ pad) = Inr (Str (keyword_text k), length bs)"
    unfolding bs by (rule decode_encode_value) (simp add: assms(2))
  show ?thesis
    using assms(1) unfolding decode_seal_plaintext_def d
    by (simp add: kw_canonical_def split: prod.split)
qed

subsection \<open>Properties\<close>

text \<open>
  The interner: interning returns an id that resolves to the keyword, keeps every id handed
  out before, and keeps the table well formed (inverse maps, ids dense from zero) as long as
  the counter does not wrap; and re-interning the keywords in the order of \<open>iter\<close> into an
  empty interner reproduces the table exactly.
\<close>

theorem interner_stable:
  assumes "interner_wf i" and "next_kw i + 1 \<noteq> 0"
  shows "interner_wf (snd (intern k i)) \<and>
    om_get (k_by_id (snd (intern k i))) (fst (intern k i)) = Some k \<and>
    (\<forall>kid k'. om_get (k_by_id i) kid = Some k' \<longrightarrow> om_get (k_by_id (snd (intern k i))) kid = Some k') \<and>
    reintern (map snd (kw_iter i)) = i"
  using interner_wf_intern [OF assms] intern_resolves [OF assms(1)] reintern_iter [OF assms(1)] by blast

theorem interner_stable_witness:
  "reintern (map snd (kw_iter (snd (intern (Kw (Some ''db'') ''ident'') interner_new)))) =
     snd (intern (Kw (Some ''db'') ''ident'') interner_new)"
proof -
  have new: "interner_wf interner_new" "next_kw interner_new + 1 \<noteq> 0"
    using interner_wf_new by (simp_all add: interner_new_def)
  have "next_kw (snd (intern (Kw (Some ''db'') ''ident'') interner_new)) + 1 \<noteq> 0"
    by (simp add: intern_def interner_new_def)
  then show ?thesis
    using interner_stable [OF conjunct1 [OF interner_stable [OF new]]] by blast
qed

text \<open>
  The reader-local overlay: interning a keyword read out of a sealed value never changes the
  durable table, returns the durable id when there is one and otherwise an id of the local range
  that no durable keyword has; the id resolves to the keyword, lookups find it again, ids handed
  out before keep their meaning, and the overlay stays well formed.
\<close>

theorem intern_local_overlay:
  assumes "tables_wf i l"
  shows "local_wf (snd (intern_local i k l)) \<and>
    kw_resolve i (snd (intern_local i k l)) (fst (intern_local i k l)) = Some k \<and>
    kw_get i (snd (intern_local i k l)) k = Some (fst (intern_local i k l)) \<and>
    (om_get (k_by_keyword i) k = None \<longrightarrow> om_get (k_by_id i) (fst (intern_local i k l)) = None) \<and>
    (\<forall>kid k'. kw_resolve i l kid = Some k' \<longrightarrow> kw_resolve i (snd (intern_local i k l)) kid = Some k')"
proof -
  have wf: "interner_wf i" "local_wf l" "2 ^ 56 + om_size (l_by_id l) < 2 ^ 64"
    using assms by (simp_all add: tables_wf_def)
  have "om_get (k_by_id i) (fst (intern_local i k l)) \<noteq> Some k'" if "om_get (k_by_keyword i) k = None" for k'
    using intern_local_resolves(1) [OF assms, of k] interner_wfD(1) [OF wf(1), of k] that
    by (auto simp: kw_resolve_def)
  then have "om_get (k_by_keyword i) k = None \<longrightarrow> om_get (k_by_id i) (fst (intern_local i k l)) = None"
    by (metis not_Some_eq)
  with local_wf_intern_local [OF wf(2,3)] intern_local_resolves [OF assms] show ?thesis by blast
qed

theorem intern_local_overlay_witness:
  "kw_resolve interner_new (snd (intern_local interner_new (Kw None ''a'') local_new)) FIRST_LOCAL_KW_ID =
     Some (Kw None ''a'')"
proof -
  have wf: "tables_wf interner_new local_new"
    using interner_wf_new local_wf_new
    by (simp add: tables_wf_def) (simp add: interner_new_def local_new_def)
  have "fst (intern_local interner_new (Kw None ''a'') local_new) = FIRST_LOCAL_KW_ID"
    by (simp add: intern_local_def interner_new_def local_new_def)
  with intern_local_overlay [OF wf, of "Kw None ''a''"] show ?thesis by simp
qed

text \<open>
  Sealed plaintext round trip, with any padding behind it: a well-formed value that is neither
  a keyword nor sealed comes back as itself; a keyword comes back, in whatever interner the
  reader has, as an id that resolves to the same keyword, and only the reader's overlay may
  change. A sealed value is refused.
\<close>

theorem seal_plaintext_round_trip:
  assumes "value_wf v" and "has_type v t" and "tables_wf i' l'"
    and "kw_resolve i l kid = Some k" and "kw_canonical k" and "utf8_valid (str_bytes (keyword_text k))"
  shows "(is_sealed v \<longrightarrow> encode_seal_plaintext i l v = Inl Nested) \<and>
    (\<not> is_sealed v \<and> \<not> is_keyword v \<longrightarrow>
      encode_seal_plaintext i l v = Inr (encode_value v) \<and>
      decode_seal_plaintext i' (encode_value v @ pad) t l' = (Inr v, l')) \<and>
    (\<exists>bs kid' l''. encode_seal_plaintext i l (Keyword kid) = Inr bs \<and>
      decode_seal_plaintext i' (bs @ pad) KeywordT l' = (Inr (Keyword kid'), l'') \<and>
      kw_resolve i' l'' kid' = Some k)"
proof -
  have "is_sealed v \<longrightarrow> encode_seal_plaintext i l v = Inl Nested"
    by (cases v) (simp_all add: is_sealed_def encode_seal_plaintext_def)
  moreover have "\<exists>bs. encode_seal_plaintext i l (Keyword kid) = Inr bs"
    using assms(4) by (simp add: encode_seal_plaintext_def)
  ultimately show ?thesis
    using decode_seal_plain [OF assms(1) _ _ assms(2)] decode_seal_keyword [OF assms(5,6) _ assms(4)]
      intern_local_resolves(1) [OF assms(3), of k] by blast
qed

theorem seal_plaintext_round_trip_witness:
  "decode_seal_plaintext interner_new (encode_value (Long 5) @ [9, 9]) LongT local_new = (Inr (Long 5), local_new)"
proof -
  have wf: "tables_wf interner_new local_new"
    using interner_wf_new local_wf_new
    by (simp add: tables_wf_def) (simp add: interner_new_def local_new_def)
  have r: "kw_resolve (snd (intern (Kw None ''a'') interner_new)) local_new 0 = Some (Kw None ''a'')"
    by (simp add: kw_resolve_def intern_def interner_new_def)
  have c: "kw_canonical (Kw None ''a'')" "utf8_valid (str_bytes (keyword_text (Kw None ''a'')))"
    by (simp_all add: kw_canonical_def kw_parse_def keyword_text_def str_bytes_def)
  show ?thesis
    using seal_plaintext_round_trip [OF _ _ wf r c, of "Long 5" LongT "[9, 9]"]
    by (simp add: is_sealed_def is_keyword_def)
qed

text \<open>
  The identity of hydrated keywords is not stable across a later durable interning: a keyword
  that was hydrated from a sealed value first has its local id, and after the naming table
  learns the keyword, lookups and later hydrations return the durable id instead. The two ids
  are different although both resolve to the same keyword.
\<close>

theorem hydrated_keyword_changes_id:
  "let k = Kw None ''vip'';
       (kid1, l) = intern_local interner_new k local_new;
       (kid2, i) = intern k interner_new
   in kid1 \<noteq> kid2 \<and> kw_get i l k = Some kid2 \<and> fst (intern_local i k l) = kid2 \<and>
      kw_resolve i l kid1 = Some k \<and> kw_resolve i l kid2 = Some k"
  by (simp add: intern_local_def intern_def interner_new_def local_new_def kw_get_def kw_resolve_def
      FIRST_LOCAL_KW_ID_def)

end
