(* ===== verification/Schema_Model.thy ===== *)
theory Schema_Model
  imports Keywords
begin

text \<open>
  The schema of a database value (\<open>crates/corium-core/src/schema.rs\<close>): attributes, protection
  classes and timelines, documentation and retirement; and the ident registry
  (\<open>Idents\<close> of \<open>crates/corium-db/src/lib.rs\<close>).
\<close>

datatype cardinality = CardOne | CardMany

datatype unique = UniqueIdentity | UniqueValue

record attribute =
  at_id :: attr_id
  at_value_type :: value_type
  at_cardinality :: cardinality
  at_unique :: "unique option"
  at_is_component :: bool
  at_indexed :: bool
  at_no_history :: bool

datatype seal_algorithm = Aes256GcmSiv

datatype protection_scope = ScopeAttribute | ScopeEntity

datatype missing_key_policy = MissingRedact | MissingHide | MissingError

datatype legacy_plaintext_policy = LegacyRedact | LegacyPassThrough

definition FIRST_KEY_EPOCH :: u32 where
  "FIRST_KEY_EPOCH = 1"

record protection_class =
  pc_id :: entity_id
  pc_key_id :: string
  pc_algorithm :: seal_algorithm
  pc_scope :: protection_scope
  pc_padding :: "u32 option"
  pc_on_missing_key :: missing_key_policy
  pc_legacy_plaintext :: legacy_plaintext_policy
  pc_current_epoch :: u32

subsection \<open>Protection timelines\<close>

type_synonym protection_timeline = "(u64 \<times> entity_id option) list"

definition protected_from :: "u64 \<Rightarrow> entity_id \<Rightarrow> protection_timeline" where
  "protected_from t cls = [(t, Some cls)]"

definition tl_current :: "protection_timeline \<Rightarrow> entity_id option" where
  "tl_current line = (if line = [] then None else snd (last line))"

definition tl_at :: "protection_timeline \<Rightarrow> u64 \<Rightarrow> entity_id option" where
  "tl_at line t = tl_current (takeWhile (\<lambda>(entry_t, _). entry_t \<le> t) line)"

definition ever_protected :: "protection_timeline \<Rightarrow> bool" where
  "ever_protected line = (\<exists>entry \<in> set line. snd entry \<noteq> None)"

definition tl_classes :: "protection_timeline \<Rightarrow> entity_id list" where
  "tl_classes line = List.map_filter snd line"

subsection \<open>The schema\<close>

record schema =
  sc_attrs :: "(attr_id, attribute) omap"
  sc_classes :: "(entity_id, protection_class) omap"
  sc_protection :: "(attr_id, protection_timeline) omap"
  sc_docs :: "(attr_id, string) omap"
  sc_retired :: "attr_id oset"

definition schema_default :: schema where
  "schema_default = \<lparr>sc_attrs = om_empty, sc_classes = om_empty, sc_protection = om_empty,
     sc_docs = om_empty, sc_retired = om_empty\<rparr>"

definition schema_insert :: "attribute \<Rightarrow> schema \<Rightarrow> schema" where
  "schema_insert attr s = s\<lparr>sc_attrs := om_insert (at_id attr) attr (sc_attrs s)\<rparr>"

definition schema_get :: "schema \<Rightarrow> attr_id \<Rightarrow> attribute option" where
  "schema_get s a = om_get (sc_attrs s) a"

definition insert_class :: "protection_class \<Rightarrow> schema \<Rightarrow> schema" where
  "insert_class cls s = s\<lparr>sc_classes := om_insert (pc_id cls) cls (sc_classes s)\<rparr>"

definition schema_class :: "schema \<Rightarrow> entity_id \<Rightarrow> protection_class option" where
  "schema_class s e = om_get (sc_classes s) e"

definition set_protection :: "attr_id \<Rightarrow> protection_timeline \<Rightarrow> schema \<Rightarrow> schema" where
  "set_protection a line s =
    (if line = [] then s\<lparr>sc_protection := om_remove a (sc_protection s)\<rparr>
     else s\<lparr>sc_protection := om_insert a line (sc_protection s)\<rparr>)"

definition schema_protection :: "schema \<Rightarrow> attr_id \<Rightarrow> protection_timeline" where
  "schema_protection s a = (case om_get (sc_protection s) a of None \<Rightarrow> [] | Some line \<Rightarrow> line)"

definition current_protection_class :: "schema \<Rightarrow> attr_id \<Rightarrow> protection_class option" where
  "current_protection_class s a = (case tl_current (schema_protection s a) of
     None \<Rightarrow> None | Some cls \<Rightarrow> schema_class s cls)"

definition is_protected :: "schema \<Rightarrow> attr_id \<Rightarrow> bool" where
  "is_protected s a = (tl_current (schema_protection s a) \<noteq> None)"

definition set_doc :: "attr_id \<Rightarrow> string option \<Rightarrow> schema \<Rightarrow> schema" where
  "set_doc a doc s = (case doc of
     Some doc \<Rightarrow> s\<lparr>sc_docs := om_insert a doc (sc_docs s)\<rparr>
   | None \<Rightarrow> s\<lparr>sc_docs := om_remove a (sc_docs s)\<rparr>)"

definition schema_doc :: "schema \<Rightarrow> attr_id \<Rightarrow> string option" where
  "schema_doc s a = om_get (sc_docs s) a"

definition set_retired :: "attr_id \<Rightarrow> bool \<Rightarrow> schema \<Rightarrow> schema" where
  "set_retired a retired s =
    (if retired then s\<lparr>sc_retired := os_insert a (sc_retired s)\<rparr>
     else s\<lparr>sc_retired := os_remove a (sc_retired s)\<rparr>)"

definition is_retired :: "schema \<Rightarrow> attr_id \<Rightarrow> bool" where
  "is_retired s a = os_member a (sc_retired s)"

subsection \<open>Idents\<close>

record idents =
  id_by_keyword :: "(keyword, entity_id) omap"
  id_by_id :: "(entity_id, keyword) omap"

definition idents_default :: idents where
  "idents_default = \<lparr>id_by_keyword = om_empty, id_by_id = om_empty\<rparr>"

definition idents_insert :: "keyword \<Rightarrow> entity_id \<Rightarrow> idents \<Rightarrow> idents" where
  "idents_insert k e ids = ids\<lparr>id_by_id := om_insert e k (id_by_id ids),
     id_by_keyword := om_insert k e (id_by_keyword ids)\<rparr>"

definition entid :: "idents \<Rightarrow> keyword \<Rightarrow> entity_id option" where
  "entid ids k = om_get (id_by_keyword ids) k"

definition ident_of :: "idents \<Rightarrow> entity_id \<Rightarrow> keyword option" where
  "ident_of ids e = om_get (id_by_id ids) e"

subsection \<open>What the accessors return after an update\<close>

lemma schema_get_simps [view_simps]:
  "schema_get (schema_insert attr s) a = (if a = at_id attr then Some attr else schema_get s a)"
  "schema_get (insert_class cls s) a = schema_get s a"
  "schema_get (set_protection b line s) a = schema_get s a"
  "schema_get (set_doc b doc s) a = schema_get s a"
  "schema_get (set_retired b r s) a = schema_get s a"
  by (simp_all add: schema_get_def schema_insert_def insert_class_def set_protection_def set_doc_def
      set_retired_def split: option.split)

lemma schema_protection_simps [view_simps]:
  "schema_protection (schema_insert attr s) a = schema_protection s a"
  "schema_protection (insert_class cls s) a = schema_protection s a"
  "schema_protection (set_protection b line s) a = (if a = b then line else schema_protection s a)"
  "schema_protection (set_doc b doc s) a = schema_protection s a"
  "schema_protection (set_retired b r s) a = schema_protection s a"
  by (simp_all add: schema_protection_def schema_insert_def insert_class_def set_protection_def
      set_doc_def set_retired_def split: option.split)

lemma is_retired_simps [view_simps]:
  "is_retired (schema_insert attr s) a = is_retired s a"
  "is_retired (insert_class cls s) a = is_retired s a"
  "is_retired (set_protection b line s) a = is_retired s a"
  "is_retired (set_doc b doc s) a = is_retired s a"
  "is_retired (set_retired b r s) a = (if a = b then r else is_retired s a)"
  by (auto simp: is_retired_def schema_insert_def insert_class_def set_protection_def
      set_doc_def set_retired_def split: option.split)

lemma schema_doc_simps [view_simps]:
  "schema_doc (schema_insert attr s) a = schema_doc s a"
  "schema_doc (set_protection b line s) a = schema_doc s a"
  "schema_doc (set_doc b doc s) a = (if a = b then doc else schema_doc s a)"
  "schema_doc (set_retired b r s) a = schema_doc s a"
  by (auto simp: schema_doc_def schema_insert_def set_protection_def set_doc_def set_retired_def
      split: option.split)

lemma idents_simps [view_simps]:
  "entid (idents_insert k e ids) k' = (if k' = k then Some e else entid ids k')"
  "ident_of (idents_insert k e ids) e' = (if e' = e then Some k else ident_of ids e')"
  by (simp_all add: entid_def ident_of_def idents_insert_def)

text \<open>The invariant of every schema the engine builds: records under their own id, uniqueness
  with index coverage.\<close>

definition schema_wf :: "schema \<Rightarrow> bool" where
  "schema_wf s \<longleftrightarrow> (\<forall>a attr. schema_get s a = Some attr \<longrightarrow>
     at_id attr = a \<and> (at_unique attr \<noteq> None \<longrightarrow> at_indexed attr))"

lemma schema_wf_default: "schema_wf schema_default"
  by (simp add: schema_wf_def schema_get_def schema_default_def)

lemma schema_wf_insert:
  "schema_wf s \<Longrightarrow> (at_unique attr \<noteq> None \<longrightarrow> at_indexed attr) \<Longrightarrow> schema_wf (schema_insert attr s)"
  by (auto simp: schema_wf_def view_simps)

end
