(* ===== verification/Datom.thy ===== *)
theory Datom
  imports Encoding
begin

text \<open>
  Datoms and the keys of the four covering indexes (\<open>crates/corium-core/src/datom.rs\<close>).

  A key is the encodings of the three components in the order of the index, followed by eight
  bytes for the transaction and the added flag. The component part is a sortable encoding of
  the fact \<open>(e, a, v)\<close> (interpretation \<open>fact_enc\<close>); from it follow the order of the keys,
  their decoding, and that the component prefix identifies the fact.
\<close>

record datom =
  d_e :: entity_id
  d_a :: attr_id
  d_v :: val
  d_tx :: tx_id
  d_added :: bool

datatype index_order = Eavt | Aevt | Avet | Vaet

definition KEY_TX_SUFFIX_LEN :: nat where
  "KEY_TX_SUFFIX_LEN = 8"

definition key_components :: "bytes \<Rightarrow> bytes" where
  "key_components key = take (length key - KEY_TX_SUFFIX_LEN) key"

definition tx_added_word :: "tx_id \<Rightarrow> bool \<Rightarrow> u64" where
  "tx_added_word tx added = push_bit 1 tx OR of_bool added"

definition encode_tx_added :: "tx_id \<Rightarrow> bool \<Rightarrow> bytes" where
  "encode_tx_added tx added = u64_to_be_bytes (tx_added_word tx added)"

fun fact_key :: "index_order \<Rightarrow> entity_id \<times> attr_id \<times> val \<Rightarrow> bytes" where
  "fact_key Eavt (e, a, v) = u64_to_be_bytes e @ u64_to_be_bytes a @ encode_value v"
| "fact_key Aevt (e, a, v) = u64_to_be_bytes a @ u64_to_be_bytes e @ encode_value v"
| "fact_key Avet (e, a, v) = u64_to_be_bytes a @ encode_value v @ u64_to_be_bytes e"
| "fact_key Vaet (e, a, v) = encode_value v @ u64_to_be_bytes a @ u64_to_be_bytes e"

definition d_fact :: "datom \<Rightarrow> entity_id \<times> attr_id \<times> val" where
  "d_fact d = (d_e d, d_a d, d_v d)"

definition datom_key :: "datom \<Rightarrow> index_order \<Rightarrow> bytes" where
  "datom_key d order = fact_key order (d_fact d) @ encode_tx_added (d_tx d) (d_added d)"

text \<open>
  \<open>Datom::from_key\<close> reads one component after the other at a running offset. Each decoder
  consumes at most what is left, so the slices of the source never start out of range.
\<close>

definition from_key_fact ::
    "index_order \<Rightarrow> bytes \<Rightarrow> decode_error + (entity_id \<times> attr_id \<times> val) \<times> nat" where
  "from_key_fact order input = (case order of
     Eavt \<Rightarrow>
       bindr (decode_entity_id input) (\<lambda>(e, u1).
       bindr (decode_entity_id (drop u1 input)) (\<lambda>(a, u2).
       bindr (decode_value (drop (u1 + u2) input)) (\<lambda>(v, u3).
         Inr ((e, a, v), u1 + u2 + u3))))
   | Aevt \<Rightarrow>
       bindr (decode_entity_id input) (\<lambda>(a, u1).
       bindr (decode_entity_id (drop u1 input)) (\<lambda>(e, u2).
       bindr (decode_value (drop (u1 + u2) input)) (\<lambda>(v, u3).
         Inr ((e, a, v), u1 + u2 + u3))))
   | Avet \<Rightarrow>
       bindr (decode_entity_id input) (\<lambda>(a, u1).
       bindr (decode_value (drop u1 input)) (\<lambda>(v, u2).
       bindr (decode_entity_id (drop (u1 + u2) input)) (\<lambda>(e, u3).
         Inr ((e, a, v), u1 + u2 + u3))))
   | Vaet \<Rightarrow>
       bindr (decode_value input) (\<lambda>(v, u1).
       bindr (decode_entity_id (drop u1 input)) (\<lambda>(a, u2).
       bindr (decode_entity_id (drop (u1 + u2) input)) (\<lambda>(e, u3).
         Inr ((e, a, v), u1 + u2 + u3)))))"

definition from_key :: "index_order \<Rightarrow> bytes \<Rightarrow> decode_error + datom" where
  "from_key order input =
    bindr (from_key_fact order input) (\<lambda>((e, a, v), off).
    bindr (decode_u64 (drop off input)) (\<lambda>(tx_added, used).
      if off + used \<noteq> length input then Inl Trailing
      else Inr \<lparr>d_e = e, d_a = a, d_v = v, d_tx = drop_bit 1 tx_added,
                d_added = (tx_added AND 1 = 1)\<rparr>))"

subsection \<open>The component part of a key\<close>

text \<open>The order of the facts that each index is sorted by.\<close>

fun fact_less :: "index_order \<Rightarrow> entity_id \<times> attr_id \<times> val \<Rightarrow> entity_id \<times> attr_id \<times> val \<Rightarrow> bool" where
  "fact_less Eavt (e, a, v) (e', a', v') \<longleftrightarrow> (e, a, v) < (e', a', v')"
| "fact_less Aevt (e, a, v) (e', a', v') \<longleftrightarrow> (a, e, v) < (a', e', v')"
| "fact_less Avet (e, a, v) (e', a', v') \<longleftrightarrow> (a, v, e) < (a', v', e')"
| "fact_less Vaet (e, a, v) (e', a', v') \<longleftrightarrow> (v, a, e) < (v', a', e')"

lemma fact_sortable: "sortable_encoding (fact_key order) (fact_less order)"
proof
  fix x y :: "entity_id \<times> attr_id \<times> val" and s t :: bytes
  obtain e a v e' a' v' where xy: "x = (e, a, v)" "y = (e', a', v')"
    by (cases x, cases y)
  show "fact_key order x @ s < fact_key order y @ t \<longleftrightarrow> fact_less order x y \<or> x = y \<and> s < t"
    by (cases order)
      (auto simp: xy u64_enc.enc_less value_enc.enc_less less_val_def less_eq_val_def)
qed

interpretation fact_enc: sortable_encoding "fact_key order" "fact_less order" for order
  by (rule fact_sortable)

lemma length_encode_tx_added [simp]: "length (encode_tx_added tx added) = 8"
  by (simp add: encode_tx_added_def)

lemma key_components_datom_key [simp]: "key_components (datom_key d order) = fact_key order (d_fact d)"
  by (simp add: key_components_def datom_key_def KEY_TX_SUFFIX_LEN_def)

lemma key_components_eq_iff:
  "key_components (datom_key d order) = key_components (datom_key d' order) \<longleftrightarrow> d_fact d = d_fact d'"
  by (simp add: fact_enc.enc_inject)

lemma key_components_order:
  "key_components (datom_key d order) < key_components (datom_key d' order)
     \<Longrightarrow> datom_key d order < datom_key d' order"
  unfolding key_components_datom_key by (simp add: datom_key_def fact_enc.enc_less fact_enc.enc_order)

subsection \<open>The transaction suffix\<close>

lemma tx_added_word_alt: "tx_added_word tx added = 2 * tx + of_bool added"
proof -
  have "(2 * tx) AND of_bool added = (0 :: u64)"
    by (cases added) (simp_all add: and_one_eq mod_2_eq_odd)
  then have "(2 * tx) OR of_bool added = 2 * tx + of_bool added"
    by (simp add: disjunctive_add_eq_or)
  then show ?thesis
    by (simp add: tx_added_word_def push_bit_eq_mult mult.commute)
qed

lemma unat_tx_added_word:
  assumes "unat tx < 2 ^ 63"
  shows "unat (tx_added_word tx added) = 2 * unat tx + of_bool added"
proof -
  have "unat (2 * tx) = 2 * unat tx"
    using assms by (simp add: unat_word_ariths)
  then show ?thesis
    using assms by (simp add: tx_added_word_alt unat_word_ariths)
qed

lemma tx_added_word_less:
  assumes "unat tx < 2 ^ 63" and "unat tx' < 2 ^ 63"
  shows "tx_added_word tx added < tx_added_word tx' added' \<longleftrightarrow> (tx, added) < (tx', added')"
  using assms by (auto simp: word_less_nat_alt word_le_nat_alt unat_tx_added_word of_bool_def)

lemma drop_bit_tx_added_word:
  "unat tx < 2 ^ 63 \<Longrightarrow> drop_bit (Suc 0) (tx_added_word tx added) = tx"
  by (simp add: word_unat_eq_iff drop_bit_eq_div unat_div unat_tx_added_word)

lemma and_one_tx_added_word: "tx_added_word tx added AND 1 = 1 \<longleftrightarrow> added"
  by (cases added) (simp_all add: tx_added_word_alt and_one_eq mod_2_eq_odd)

text \<open>A datom whose key can be decoded: its value is well formed, its transaction id fits 63 bits.\<close>

definition datom_wf :: "datom \<Rightarrow> bool" where
  "datom_wf d \<longleftrightarrow> value_wf (d_v d) \<and> unat (d_tx d) < 2 ^ 63"

definition datom_less :: "index_order \<Rightarrow> datom \<Rightarrow> datom \<Rightarrow> bool" where
  "datom_less order d d' \<longleftrightarrow> fact_less order (d_fact d) (d_fact d') \<or>
     d_fact d = d_fact d' \<and> (d_tx d, d_added d) < (d_tx d', d_added d')"

lemma from_key_fact_encode:
  "value_wf v \<Longrightarrow> from_key_fact order (fact_key order (e, a, v) @ rest) =
     Inr ((e, a, v), length (fact_key order (e, a, v)))"
  by (cases order) (simp_all add: from_key_fact_def decode_encode_value)

lemma datom_key_less:
  "unat (d_tx d) < 2 ^ 63 \<Longrightarrow> unat (d_tx d') < 2 ^ 63 \<Longrightarrow>
     datom_key d order < datom_key d' order \<longleftrightarrow> datom_less order d d'"
  by (simp add: datom_key_def fact_enc.enc_less encode_tx_added_def u64_enc.enc_order
      tx_added_word_less datom_less_def)

lemma from_key_datom_key:
  assumes "datom_wf d"
  shows "from_key order (datom_key d order) = Inr d"
  using assms
  by (simp add: from_key_def datom_key_def d_fact_def datom_wf_def from_key_fact_encode
      encode_tx_added_def decode_u64_encode [where rest = "[]", simplified]
      drop_bit_tx_added_word and_one_tx_added_word)

lemma datom_key_inject:
  "datom_wf d \<Longrightarrow> datom_wf d' \<Longrightarrow> datom_key d order = datom_key d' order \<longleftrightarrow> d = d'"
  by (metis Inr_inject from_key_datom_key)

subsection \<open>Properties\<close>

text \<open>
  C24. The keys of every covering index sort by the components in the order of the index, then
  by transaction, then retractions before assertions, for transaction ids below \<open>2 ^ 63\<close>.
\<close>

theorem datom_key_order:
  assumes "unat (d_tx d) < 2 ^ 63" and "unat (d_tx d') < 2 ^ 63"
  shows "datom_key d order < datom_key d' order \<longleftrightarrow> datom_less order d d'"
  by (rule datom_key_less [OF assms])

theorem datom_key_order_witness:
  "datom_key \<lparr>d_e = 7, d_a = 3, d_v = Long 1, d_tx = 5, d_added = False\<rparr> Avet
     < datom_key \<lparr>d_e = 7, d_a = 3, d_v = Long 1, d_tx = 5, d_added = True\<rparr> Avet"
  using datom_key_order [of "\<lparr>d_e = 7, d_a = 3, d_v = Long 1, d_tx = 5, d_added = False\<rparr>"
      "\<lparr>d_e = 7, d_a = 3, d_v = Long 1, d_tx = 5, d_added = True\<rparr>" Avet]
  by (simp add: datom_less_def d_fact_def)

text \<open>
  C25. A key decodes to the datom it was made from, in every index order, and so no two
  well-formed datoms share a key.
\<close>

theorem datom_key_round_trip:
  assumes "datom_wf d" and "datom_wf d'"
  shows "from_key order (datom_key d order) = Inr d \<and>
    (datom_key d order = datom_key d' order \<longleftrightarrow> d = d')"
  using from_key_datom_key [OF assms(1)] datom_key_inject [OF assms] by blast

theorem datom_key_round_trip_witness:
  "from_key Vaet (datom_key \<lparr>d_e = 7, d_a = 3, d_v = Str ''x'', d_tx = 5, d_added = True\<rparr> Vaet) =
     Inr \<lparr>d_e = 7, d_a = 3, d_v = Str ''x'', d_tx = 5, d_added = True\<rparr>"
  using datom_key_round_trip [of "\<lparr>d_e = 7, d_a = 3, d_v = Str ''x'', d_tx = 5, d_added = True\<rparr>"
      "\<lparr>d_e = 7, d_a = 3, d_v = Str ''x'', d_tx = 5, d_added = True\<rparr>" Vaet]
  by (simp add: datom_wf_def str_bytes_def)

text \<open>
  \<open>key_components\<close> identifies the fact: two keys of one index share their component prefix
  exactly when the datoms state the same fact, a prefix is never a proper byte prefix of
  another key's prefix, and keys with different prefixes sort the way the prefixes do.
\<close>

theorem key_components_identify_fact:
  "(key_components (datom_key d order) = key_components (datom_key d' order) \<longleftrightarrow> d_fact d = d_fact d') \<and>
   (prefix (key_components (datom_key d order)) (datom_key d' order) \<longleftrightarrow> d_fact d = d_fact d') \<and>
   (datom_key d order < datom_key d' order \<longleftrightarrow>
      key_components (datom_key d order) < key_components (datom_key d' order) \<or>
      d_fact d = d_fact d' \<and> encode_tx_added (d_tx d) (d_added d) < encode_tx_added (d_tx d') (d_added d'))"
proof (intro conjI)
  show "prefix (key_components (datom_key d order)) (datom_key d' order) \<longleftrightarrow> d_fact d = d_fact d'"
    using fact_enc.enc_prefix_iff [of order "d_fact d" "[]" "d_fact d'"]
    unfolding key_components_datom_key by (simp add: datom_key_def)
  show "datom_key d order < datom_key d' order \<longleftrightarrow>
      key_components (datom_key d order) < key_components (datom_key d' order) \<or>
      d_fact d = d_fact d' \<and> encode_tx_added (d_tx d) (d_added d) < encode_tx_added (d_tx d') (d_added d')"
    unfolding key_components_datom_key
    by (simp add: datom_key_def fact_enc.enc_less fact_enc.enc_order)
qed (rule key_components_eq_iff)

end
