(* ===== verification/Bootstrap.thy ===== *)
theory Bootstrap
  imports Schema_Model Datom
begin

text \<open>
  The attributes the engine installs in every database (\<open>crates/corium-db/src/bootstrap.rs\<close>):
  their ids, the table of their records, installation, and the instant a transaction asserts
  on its own entity.
\<close>

subsection \<open>Reserved ids\<close>

definition FIRST_ATTR_ID :: u64 where
  "FIRST_ATTR_ID = 100"

definition FIRST_USER_ID :: u64 where
  "FIRST_USER_ID = 1000"

definition db_id :: "u64 \<Rightarrow> entity_id" where
  "db_id n = eid_new (part_id PartDb) n"

definition IDENT :: attr_id where
  "IDENT = db_id 10"

definition VALUE_TYPE :: attr_id where
  "VALUE_TYPE = db_id 40"

definition CARDINALITY :: attr_id where
  "CARDINALITY = db_id 41"

definition UNIQUE :: attr_id where
  "UNIQUE = db_id 42"

definition IS_COMPONENT :: attr_id where
  "IS_COMPONENT = db_id 43"

definition INDEX :: attr_id where
  "INDEX = db_id 44"

definition NO_HISTORY :: attr_id where
  "NO_HISTORY = db_id 45"

definition TX_INSTANT :: attr_id where
  "TX_INSTANT = db_id 50"

definition DOC :: attr_id where
  "DOC = db_id 62"

definition SAGA_ID :: attr_id where
  "SAGA_ID = db_id 63"

definition SAGA_STATUS :: attr_id where
  "SAGA_STATUS = db_id 64"

definition SAGA_BASIS_T :: attr_id where
  "SAGA_BASIS_T = db_id 65"

definition SAGA_DESCRIPTION :: attr_id where
  "SAGA_DESCRIPTION = db_id 66"

definition SAGA_OWNER :: attr_id where
  "SAGA_OWNER = db_id 67"

definition SAGA_EXPIRES_AT :: attr_id where
  "SAGA_EXPIRES_AT = db_id 68"

definition SAGA_ID_GRANTS :: attr_id where
  "SAGA_ID_GRANTS = db_id 69"

definition SAGA_FOOTPRINT :: attr_id where
  "SAGA_FOOTPRINT = db_id 70"

definition SAGA_RESERVES :: attr_id where
  "SAGA_RESERVES = db_id 71"

definition SAGA_SEALED :: attr_id where
  "SAGA_SEALED = db_id 72"

definition SAGA_MERGED_TX :: attr_id where
  "SAGA_MERGED_TX = db_id 73"

definition SAGA_STEPS :: attr_id where
  "SAGA_STEPS = db_id 74"

definition SAGA_CONFLICT_REPORT :: attr_id where
  "SAGA_CONFLICT_REPORT = db_id 75"

definition SAGA_ON_ABORT_TX :: attr_id where
  "SAGA_ON_ABORT_TX = db_id 76"

definition SAGA_ON_ABORT_FN :: attr_id where
  "SAGA_ON_ABORT_FN = db_id 77"

definition SAGA_ON_ABORT_ERROR :: attr_id where
  "SAGA_ON_ABORT_ERROR = db_id 78"

definition SAGA_COMPENSATIONS :: attr_id where
  "SAGA_COMPENSATIONS = db_id 79"

definition PROTECTION :: attr_id where
  "PROTECTION = db_id 80"

definition RETIRED :: attr_id where
  "RETIRED = db_id 81"

definition SAGA_GUARD :: attr_id where
  "SAGA_GUARD = db_id 82"

definition SAGA_GRANT_PARTITION :: attr_id where
  "SAGA_GRANT_PARTITION = db_id 83"

definition SAGA_GRANT_START :: attr_id where
  "SAGA_GRANT_START = db_id 84"

definition SAGA_GRANT_LENGTH :: attr_id where
  "SAGA_GRANT_LENGTH = db_id 85"

definition SAGA_COMPENSATION_KEY :: attr_id where
  "SAGA_COMPENSATION_KEY = db_id 86"

definition SAGA_COMPENSATION_STATUS :: attr_id where
  "SAGA_COMPENSATION_STATUS = db_id 87"

definition SAGA_COMPENSATION_DETAIL :: attr_id where
  "SAGA_COMPENSATION_DETAIL = db_id 88"

definition SAGA_COMPENSATION_COMPLETED_AT :: attr_id where
  "SAGA_COMPENSATION_COMPLETED_AT = db_id 89"

definition UPDATE_REQUESTER :: attr_id where
  "UPDATE_REQUESTER = db_id 90"

definition UPDATE_DESIRED_DIGEST :: attr_id where
  "UPDATE_DESIRED_DIGEST = db_id 91"

definition UPDATE_PLAN_DIGEST :: attr_id where
  "UPDATE_PLAN_DIGEST = db_id 92"

definition UPDATE_OBSERVED_BASIS :: attr_id where
  "UPDATE_OBSERVED_BASIS = db_id 93"

definition UPDATE_TOOL :: attr_id where
  "UPDATE_TOOL = db_id 94"

definition UPDATE_CLASS :: attr_id where
  "UPDATE_CLASS = db_id 95"

definition UPDATE_ACK :: attr_id where
  "UPDATE_ACK = db_id 96"

definition SAGA_COMPENSATION_ERROR :: attr_id where
  "SAGA_COMPENSATION_ERROR = db_id 97"

definition SAGA_TX_ID :: attr_id where
  "SAGA_TX_ID = db_id 98"

definition SAGA_RETAIN_FOR :: attr_id where
  "SAGA_RETAIN_FOR = db_id 99"

subsection \<open>The table of engine attributes\<close>

definition simple_attr :: "attr_id \<Rightarrow> value_type \<Rightarrow> attribute" where
  "simple_attr a value_type = \<lparr>at_id = a, at_value_type = value_type, at_cardinality = CardOne,
     at_unique = None, at_is_component = False, at_indexed = False, at_no_history = False\<rparr>"

definition tx_instant_ident :: keyword where
  "tx_instant_ident = Kw (Some ''db'') ''txInstant''"

definition tx_instant_attribute :: attribute where
  "tx_instant_attribute = \<lparr>at_id = TX_INSTANT, at_value_type = InstantT, at_cardinality = CardOne,
     at_unique = None, at_is_component = False, at_indexed = True, at_no_history = False\<rparr>"

definition engine_attributes :: "(keyword \<times> attribute) list" where
  "engine_attributes =
    [(Kw (Some ''db'') ''ident'', (simple_attr IDENT KeywordT)\<lparr>at_unique := Some UniqueIdentity, at_indexed := True\<rparr>),
     (Kw (Some ''db'') ''valueType'', simple_attr VALUE_TYPE KeywordT),
     (Kw (Some ''db'') ''cardinality'', simple_attr CARDINALITY KeywordT),
     (Kw (Some ''db'') ''unique'', simple_attr UNIQUE KeywordT),
     (Kw (Some ''db'') ''isComponent'', simple_attr IS_COMPONENT BoolT),
     (Kw (Some ''db'') ''index'', simple_attr INDEX BoolT),
     (Kw (Some ''db'') ''noHistory'', simple_attr NO_HISTORY BoolT),
     (tx_instant_ident, tx_instant_attribute),
     (Kw (Some ''db'') ''doc'', simple_attr DOC StrT),
     (Kw (Some ''db.saga'') ''id'', (simple_attr SAGA_ID UuidT)\<lparr>at_unique := Some UniqueIdentity, at_indexed := True\<rparr>),
     (Kw (Some ''db.saga'') ''status'', (simple_attr SAGA_STATUS KeywordT)\<lparr>at_indexed := True\<rparr>),
     (Kw (Some ''db.saga'') ''basis-t'', simple_attr SAGA_BASIS_T LongT),
     (Kw (Some ''db.saga'') ''description'', simple_attr SAGA_DESCRIPTION StrT),
     (Kw (Some ''db.saga'') ''owner'', simple_attr SAGA_OWNER StrT),
     (Kw (Some ''db.saga'') ''expires-at'', (simple_attr SAGA_EXPIRES_AT InstantT)\<lparr>at_indexed := True\<rparr>),
     (Kw (Some ''db.saga'') ''id-grants'', (simple_attr SAGA_ID_GRANTS RefT)\<lparr>at_cardinality := CardMany, at_is_component := True\<rparr>),
     (Kw (Some ''db.saga'') ''footprint'', (simple_attr SAGA_FOOTPRINT RefT)\<lparr>at_cardinality := CardMany\<rparr>),
     (Kw (Some ''db.saga'') ''reserves'', (simple_attr SAGA_RESERVES RefT)\<lparr>at_cardinality := CardMany\<rparr>),
     (Kw (Some ''db.saga'') ''sealed'', simple_attr SAGA_SEALED BoolT),
     (Kw (Some ''db.saga'') ''merged-tx'', simple_attr SAGA_MERGED_TX RefT),
     (Kw (Some ''db.saga'') ''steps'', simple_attr SAGA_STEPS LongT),
     (Kw (Some ''db.saga'') ''conflict-report'', simple_attr SAGA_CONFLICT_REPORT StrT),
     (Kw (Some ''db.saga'') ''on-abort-tx'', simple_attr SAGA_ON_ABORT_TX StrT),
     (Kw (Some ''db.saga'') ''on-abort-fn'', simple_attr SAGA_ON_ABORT_FN RefT),
     (Kw (Some ''db.saga'') ''on-abort-error'', simple_attr SAGA_ON_ABORT_ERROR StrT),
     (Kw (Some ''db.saga'') ''compensations'', (simple_attr SAGA_COMPENSATIONS RefT)\<lparr>at_cardinality := CardMany, at_is_component := True\<rparr>),
     (Kw (Some ''db'') ''protection'', simple_attr PROTECTION RefT),
     (Kw (Some ''db'') ''retired'', simple_attr RETIRED BoolT),
     (Kw (Some ''db.saga'') ''guard'', (simple_attr SAGA_GUARD StrT)\<lparr>at_cardinality := CardMany\<rparr>),
     (Kw (Some ''db.saga'') ''tx-id'', (simple_attr SAGA_TX_ID UuidT)\<lparr>at_indexed := True\<rparr>),
     (Kw (Some ''db.saga.grant'') ''partition'', simple_attr SAGA_GRANT_PARTITION LongT),
     (Kw (Some ''db.saga.grant'') ''start'', simple_attr SAGA_GRANT_START LongT),
     (Kw (Some ''db.saga.grant'') ''length'', simple_attr SAGA_GRANT_LENGTH LongT),
     (Kw (Some ''db.saga.compensation'') ''key'', simple_attr SAGA_COMPENSATION_KEY StrT),
     (Kw (Some ''db.saga.compensation'') ''status'', simple_attr SAGA_COMPENSATION_STATUS KeywordT),
     (Kw (Some ''db.saga.compensation'') ''detail'', simple_attr SAGA_COMPENSATION_DETAIL StrT),
     (Kw (Some ''db.saga.compensation'') ''completed-at'', simple_attr SAGA_COMPENSATION_COMPLETED_AT InstantT),
     (Kw (Some ''db.schemaUpdate'') ''requester'', simple_attr UPDATE_REQUESTER StrT),
     (Kw (Some ''db.schemaUpdate'') ''desiredDigest'', simple_attr UPDATE_DESIRED_DIGEST StrT),
     (Kw (Some ''db.schemaUpdate'') ''planDigest'', simple_attr UPDATE_PLAN_DIGEST StrT),
     (Kw (Some ''db.schemaUpdate'') ''observedBasis'', simple_attr UPDATE_OBSERVED_BASIS LongT),
     (Kw (Some ''db.schemaUpdate'') ''tool'', simple_attr UPDATE_TOOL StrT),
     (Kw (Some ''db.schemaUpdate'') ''class'', (simple_attr UPDATE_CLASS StrT)\<lparr>at_cardinality := CardMany\<rparr>),
     (Kw (Some ''db.schemaUpdate'') ''ack'', (simple_attr UPDATE_ACK StrT)\<lparr>at_cardinality := CardMany\<rparr>),
     (Kw (Some ''db.saga.compensation'') ''error'', simple_attr SAGA_COMPENSATION_ERROR StrT),
     (Kw (Some ''db.saga'') ''retain-for'', simple_attr SAGA_RETAIN_FOR LongT)]"

definition is_audit_attribute :: "attr_id \<Rightarrow> bool" where
  "is_audit_attribute a \<longleftrightarrow>
     a = UPDATE_REQUESTER \<or> a = UPDATE_DESIRED_DIGEST \<or> a = UPDATE_PLAN_DIGEST \<or> a = UPDATE_OBSERVED_BASIS \<or> a = UPDATE_TOOL
     \<or> a = UPDATE_CLASS \<or> a = UPDATE_ACK"

definition is_schema_attribute :: "attr_id \<Rightarrow> bool" where
  "is_schema_attribute a \<longleftrightarrow>
     a = IDENT \<or> a = VALUE_TYPE \<or> a = CARDINALITY \<or> a = UNIQUE \<or> a = IS_COMPONENT
     \<or> a = INDEX \<or> a = NO_HISTORY \<or> a = DOC \<or> a = PROTECTION \<or> a = RETIRED"

definition install_schema :: "schema \<Rightarrow> schema" where
  "install_schema s = fold (\<lambda>(_, attr). schema_insert attr) engine_attributes s"

definition install :: "schema \<times> idents \<Rightarrow> schema \<times> idents" where
  "install si = (install_schema (fst si),
     fold (\<lambda>(k, attr). idents_insert k (at_id attr)) engine_attributes (snd si))"

subsection \<open>The instant of a transaction\<close>

definition tx_entity :: "u64 \<Rightarrow> tx_id" where
  "tx_entity t = eid_new (part_id PartTx) t"

definition tx_instant_datom :: "u64 \<Rightarrow> i64 \<Rightarrow> datom" where
  "tx_instant_datom t instant = \<lparr>d_e = tx_entity t, d_a = TX_INSTANT, d_v = Instant instant,
     d_tx = tx_entity t, d_added = True\<rparr>"

definition asserted_step :: "tx_id \<Rightarrow> datom \<Rightarrow> i64 option \<Rightarrow> i64 option" where
  "asserted_step tx d asserted = (case d_v d of
     Instant instant \<Rightarrow>
       if d_e d = tx \<and> d_a d = TX_INSTANT then
         if d_added d then Some instant
         else if asserted = Some instant then None else asserted
       else asserted
   | _ \<Rightarrow> asserted)"

definition asserted_instant :: "u64 \<Rightarrow> datom list \<Rightarrow> i64 option" where
  "asserted_instant t ds = fold (asserted_step (tx_entity t)) ds None"

subsection \<open>Facts\<close>

lemma db_id_eq: "s < 2 ^ 42 \<Longrightarrow> db_id s = s"
proof -
  assume "s < 2 ^ 42"
  then have "take_bit 42 s = s"
    by (simp add: take_bit_eq_mod word_unat_eq_iff unat_mod word_less_nat_alt)
  then show ?thesis
    by (simp add: db_id_def eid_new_def and_SEQUENCE_MASK)
qed

lemma engine_ids:
  "IDENT = 10"
  "VALUE_TYPE = 40"
  "CARDINALITY = 41"
  "UNIQUE = 42"
  "IS_COMPONENT = 43"
  "INDEX = 44"
  "NO_HISTORY = 45"
  "TX_INSTANT = 50"
  "DOC = 62"
  "SAGA_ID = 63"
  "SAGA_STATUS = 64"
  "SAGA_BASIS_T = 65"
  "SAGA_DESCRIPTION = 66"
  "SAGA_OWNER = 67"
  "SAGA_EXPIRES_AT = 68"
  "SAGA_ID_GRANTS = 69"
  "SAGA_FOOTPRINT = 70"
  "SAGA_RESERVES = 71"
  "SAGA_SEALED = 72"
  "SAGA_MERGED_TX = 73"
  "SAGA_STEPS = 74"
  "SAGA_CONFLICT_REPORT = 75"
  "SAGA_ON_ABORT_TX = 76"
  "SAGA_ON_ABORT_FN = 77"
  "SAGA_ON_ABORT_ERROR = 78"
  "SAGA_COMPENSATIONS = 79"
  "PROTECTION = 80"
  "RETIRED = 81"
  "SAGA_GUARD = 82"
  "SAGA_GRANT_PARTITION = 83"
  "SAGA_GRANT_START = 84"
  "SAGA_GRANT_LENGTH = 85"
  "SAGA_COMPENSATION_KEY = 86"
  "SAGA_COMPENSATION_STATUS = 87"
  "SAGA_COMPENSATION_DETAIL = 88"
  "SAGA_COMPENSATION_COMPLETED_AT = 89"
  "UPDATE_REQUESTER = 90"
  "UPDATE_DESIRED_DIGEST = 91"
  "UPDATE_PLAN_DIGEST = 92"
  "UPDATE_OBSERVED_BASIS = 93"
  "UPDATE_TOOL = 94"
  "UPDATE_CLASS = 95"
  "UPDATE_ACK = 96"
  "SAGA_COMPENSATION_ERROR = 97"
  "SAGA_TX_ID = 98"
  "SAGA_RETAIN_FOR = 99"
  by (simp_all add: IDENT_def VALUE_TYPE_def CARDINALITY_def UNIQUE_def IS_COMPONENT_def INDEX_def NO_HISTORY_def TX_INSTANT_def DOC_def SAGA_ID_def SAGA_STATUS_def SAGA_BASIS_T_def SAGA_DESCRIPTION_def SAGA_OWNER_def SAGA_EXPIRES_AT_def SAGA_ID_GRANTS_def SAGA_FOOTPRINT_def SAGA_RESERVES_def SAGA_SEALED_def SAGA_MERGED_TX_def SAGA_STEPS_def SAGA_CONFLICT_REPORT_def SAGA_ON_ABORT_TX_def SAGA_ON_ABORT_FN_def SAGA_ON_ABORT_ERROR_def SAGA_COMPENSATIONS_def PROTECTION_def RETIRED_def SAGA_GUARD_def SAGA_GRANT_PARTITION_def SAGA_GRANT_START_def SAGA_GRANT_LENGTH_def SAGA_COMPENSATION_KEY_def SAGA_COMPENSATION_STATUS_def SAGA_COMPENSATION_DETAIL_def SAGA_COMPENSATION_COMPLETED_AT_def UPDATE_REQUESTER_def UPDATE_DESIRED_DIGEST_def UPDATE_PLAN_DIGEST_def UPDATE_OBSERVED_BASIS_def UPDATE_TOOL_def UPDATE_CLASS_def UPDATE_ACK_def SAGA_COMPENSATION_ERROR_def SAGA_TX_ID_def SAGA_RETAIN_FOR_def db_id_eq)

lemma engine_attribute_ids:
  "map (\<lambda>p. at_id (snd p)) engine_attributes = [IDENT, VALUE_TYPE, CARDINALITY, UNIQUE, IS_COMPONENT, INDEX, NO_HISTORY, TX_INSTANT, DOC, SAGA_ID, SAGA_STATUS, SAGA_BASIS_T, SAGA_DESCRIPTION, SAGA_OWNER, SAGA_EXPIRES_AT, SAGA_ID_GRANTS, SAGA_FOOTPRINT, SAGA_RESERVES, SAGA_SEALED, SAGA_MERGED_TX, SAGA_STEPS, SAGA_CONFLICT_REPORT, SAGA_ON_ABORT_TX, SAGA_ON_ABORT_FN, SAGA_ON_ABORT_ERROR, SAGA_COMPENSATIONS, PROTECTION, RETIRED, SAGA_GUARD, SAGA_TX_ID, SAGA_GRANT_PARTITION, SAGA_GRANT_START, SAGA_GRANT_LENGTH, SAGA_COMPENSATION_KEY, SAGA_COMPENSATION_STATUS, SAGA_COMPENSATION_DETAIL, SAGA_COMPENSATION_COMPLETED_AT, UPDATE_REQUESTER, UPDATE_DESIRED_DIGEST, UPDATE_PLAN_DIGEST, UPDATE_OBSERVED_BASIS, UPDATE_TOOL, UPDATE_CLASS, UPDATE_ACK, SAGA_COMPENSATION_ERROR, SAGA_RETAIN_FOR]"
  by (simp add: engine_attributes_def simple_attr_def tx_instant_attribute_def)

lemma engine_ids_distinct: "distinct (map (\<lambda>p. at_id (snd p)) engine_attributes)"
  unfolding engine_attribute_ids by (simp add: engine_ids)

lemma engine_ids_reserved: "p \<in> set engine_attributes \<Longrightarrow> at_id (snd p) < FIRST_ATTR_ID"
proof -
  assume "p \<in> set engine_attributes"
  then have "at_id (snd p) \<in> set (map (\<lambda>p. at_id (snd p)) engine_attributes)" by simp
  then show ?thesis unfolding engine_attribute_ids by (auto simp: engine_ids FIRST_ATTR_ID_def)
qed

lemma engine_names_distinct: "distinct (map fst engine_attributes)"
  by (simp add: engine_attributes_def tx_instant_ident_def)

lemma engine_unique_indexed:
  "p \<in> set engine_attributes \<Longrightarrow> at_unique (snd p) \<noteq> None \<Longrightarrow> at_indexed (snd p)"
proof -
  have "\<forall>p \<in> set engine_attributes. at_unique (snd p) \<noteq> None \<longrightarrow> at_indexed (snd p)"
    by (simp add: engine_attributes_def simple_attr_def tx_instant_attribute_def)
  then show "p \<in> set engine_attributes \<Longrightarrow> at_unique (snd p) \<noteq> None \<Longrightarrow> at_indexed (snd p)" by blast
qed

lemma schema_get_fold_insert:
  "distinct (map (\<lambda>p. at_id (snd p)) ps) \<Longrightarrow>
   schema_get (fold (\<lambda>(_, attr). schema_insert attr) ps s) a =
     (case map_of (map (\<lambda>p. (at_id (snd p), snd p)) ps) a of Some attr \<Rightarrow> Some attr | None \<Rightarrow> schema_get s a)"
proof (induction ps arbitrary: s)
  case (Cons p ps)
  have "map_of (map (\<lambda>p. (at_id (snd p), snd p)) ps) (at_id (snd p)) = None"
    using Cons.prems by (force simp: map_of_eq_None_iff)
  with Cons show ?case
    by (cases p) (auto simp: view_simps split: option.split)
qed simp

lemma schema_get_install:
  "schema_get (install_schema s) a =
     (case map_of (map (\<lambda>p. (at_id (snd p), snd p)) engine_attributes) a of
        Some attr \<Rightarrow> Some attr | None \<Rightarrow> schema_get s a)"
  unfolding install_schema_def by (rule schema_get_fold_insert [OF engine_ids_distinct])

lemma schema_get_install_engine:
  "p \<in> set engine_attributes \<Longrightarrow> schema_get (install_schema s) (at_id (snd p)) = Some (snd p)"
proof -
  assume p: "p \<in> set engine_attributes"
  have "map_of (map (\<lambda>p. (at_id (snd p), snd p)) engine_attributes) (at_id (snd p)) = Some (snd p)"
    using engine_ids_distinct p by (intro map_of_is_SomeI) (auto simp: comp_def)
  then show ?thesis by (simp add: schema_get_install)
qed

lemma schema_get_install_user:
  "FIRST_ATTR_ID \<le> a \<Longrightarrow> schema_get (install_schema s) a = schema_get s a"
proof -
  assume "FIRST_ATTR_ID \<le> a"
  then have "map_of (map (\<lambda>p. (at_id (snd p), snd p)) engine_attributes) a = None"
    using engine_ids_reserved by (fastforce simp: map_of_eq_None_iff)
  then show ?thesis by (simp add: schema_get_install)
qed

lemma install_schema_more:
  "sc_classes (install_schema s) = sc_classes s" "sc_protection (install_schema s) = sc_protection s"
  "sc_docs (install_schema s) = sc_docs s" "sc_retired (install_schema s) = sc_retired s"
proof -
  have "sc_classes (fold (\<lambda>(_, attr). schema_insert attr) ps s) = sc_classes s \<and>
      sc_protection (fold (\<lambda>(_, attr). schema_insert attr) ps s) = sc_protection s \<and>
      sc_docs (fold (\<lambda>(_, attr). schema_insert attr) ps s) = sc_docs s \<and>
      sc_retired (fold (\<lambda>(_, attr). schema_insert attr) ps s) = sc_retired s"
    for ps :: "(keyword \<times> attribute) list" and s
    by (induction ps arbitrary: s) (auto simp: schema_insert_def)
  then show "sc_classes (install_schema s) = sc_classes s" "sc_protection (install_schema s) = sc_protection s"
    "sc_docs (install_schema s) = sc_docs s" "sc_retired (install_schema s) = sc_retired s"
    by (simp_all add: install_schema_def)
qed

lemma schema_eqI:
  assumes "\<And>a. schema_get s a = schema_get s' a" and "sc_classes s = sc_classes s'"
    and "sc_protection s = sc_protection s'" and "sc_docs s = sc_docs s'" and "sc_retired s = sc_retired s'"
  shows "s = (s' :: schema)"
proof -
  have "sc_attrs s = sc_attrs s'" by (rule om_eqI) (use assms(1) in \<open>simp add: schema_get_def\<close>)
  with assms show ?thesis by simp
qed

lemma install_schema_idem: "install_schema (install_schema s) = install_schema s"
  by (rule schema_eqI) (simp_all add: install_schema_more schema_get_install split: option.split)

lemma schema_wf_install: "schema_wf s \<Longrightarrow> schema_wf (install_schema s)"
proof -
  have "(\<forall>p \<in> set ps. at_unique (snd p) \<noteq> None \<longrightarrow> at_indexed (snd p)) \<Longrightarrow> schema_wf s \<Longrightarrow>
      schema_wf (fold (\<lambda>(_, attr). schema_insert attr) ps s)" for ps :: "(keyword \<times> attribute) list" and s
    by (induction ps arbitrary: s) (auto simp: schema_wf_insert)
  with engine_unique_indexed show "schema_wf s \<Longrightarrow> schema_wf (install_schema s)"
    unfolding install_schema_def by blast
qed

lemma idents_fold_insert:
  fixes ps :: "(keyword \<times> attribute) list"
  shows "distinct (map fst ps) \<Longrightarrow> (k, attr) \<in> set ps \<Longrightarrow>
     entid (fold (\<lambda>(k, attr). idents_insert k (at_id attr)) ps ids) k = Some (at_id attr)"
proof (induction ps arbitrary: ids)
  case (Cons p ps)
  have keep: "entid (fold (\<lambda>(k, attr). idents_insert k (at_id attr)) qs ids) k = entid ids k"
    if "k \<notin> fst ` set qs" for qs :: "(keyword \<times> attribute) list" and k ids
    using that by (induction qs arbitrary: ids) (auto simp: view_simps)
  show ?case
  proof (cases "p = (k, attr)")
    case True
    with Cons.prems(1) keep [of k ps "idents_insert k (at_id attr) ids"] show ?thesis
      by (simp add: idents_simps)
  next
    case False
    with Cons show ?thesis by (auto split: prod.split)
  qed
qed simp

text \<open>
  Installing the engine's attributes is idempotent, keeps the schema invariant, gives every
  engine attribute its record and its name, and leaves every attribute outside the reserved
  range alone; the reserved ids are pairwise different and below \<open>FIRST_ATTR_ID\<close>.
\<close>

theorem install_engine_attributes:
  assumes "schema_wf s"
  shows "schema_wf (install_schema s) \<and> install_schema (install_schema s) = install_schema s \<and>
    distinct (map (\<lambda>p. at_id (snd p)) engine_attributes) \<and>
    (\<forall>(k, attr) \<in> set engine_attributes. at_id attr < FIRST_ATTR_ID \<and>
       schema_get (fst (install (s, ids))) (at_id attr) = Some attr \<and>
       entid (snd (install (s, ids))) k = Some (at_id attr)) \<and>
    (\<forall>a \<ge> FIRST_ATTR_ID. schema_get (install_schema s) a = schema_get s a)"
  using schema_wf_install [OF assms] install_schema_idem engine_ids_distinct schema_get_install_user
    schema_get_install_engine engine_ids_reserved idents_fold_insert [OF engine_names_distinct]
  by (fastforce simp: install_def)

theorem install_engine_attributes_witness:
  "schema_get (install_schema schema_default) TX_INSTANT = Some tx_instant_attribute \<and>
   schema_get (install_schema schema_default) 100 = None"
proof -
  have "(tx_instant_ident, tx_instant_attribute) \<in> set engine_attributes"
    by (simp add: engine_attributes_def)
  with install_engine_attributes [OF schema_wf_default] show ?thesis
    by (fastforce simp: install_def tx_instant_attribute_def FIRST_ATTR_ID_def schema_default_def schema_get_def)
qed

end
