(* ===== verification/Schema_Datoms.thy ===== *)
theory Schema_Datoms
  imports Bootstrap
begin

text \<open>
  Deriving the schema and the idents from the schema datoms of a transaction
  (\<open>crates/corium-db/src/schemadatoms.rs\<close>).

  \<open>resolve\<close> is the interner's \<open>resolve\<close>: the keyword of an id, when it has one.
\<close>

definition touches_naming :: "datom list \<Rightarrow> bool" where
  "touches_naming ds = (\<exists>d \<in> set ds. is_schema_attribute (d_a d))"

definition changes_schema :: "datom list \<Rightarrow> bool" where
  "changes_schema ds =
    (\<exists>d \<in> set ds. is_schema_attribute (d_a d) \<and> eid_partition (d_e d) = part_id PartDb)"

type_synonym resolved = "(entity_id \<times> attr_id, val option) omap"

definition final_step :: "datom \<Rightarrow> resolved \<Rightarrow> resolved" where
  "final_step d m =
    (if \<not> is_schema_attribute (d_a d) then m
     else let slot = (case om_get m (d_e d, d_a d) of None \<Rightarrow> None | Some s \<Rightarrow> s)
          in om_insert (d_e d, d_a d)
               (if d_added d then Some (d_v d) else if slot = Some (d_v d) then None else slot) m)"

definition final_values :: "datom list \<Rightarrow> resolved" where
  "final_values ds = fold final_step ds om_empty"

definition value_type_named :: "keyword \<Rightarrow> value_type option" where
  "value_type_named k =
    (if kw_name k = ''string'' then Some StrT else if kw_name k = ''long'' then Some LongT
     else if kw_name k = ''double'' then Some DoubleT else if kw_name k = ''boolean'' then Some BoolT
     else if kw_name k = ''instant'' then Some InstantT else if kw_name k = ''uuid'' then Some UuidT
     else if kw_name k = ''keyword'' then Some KeywordT else if kw_name k = ''bytes'' then Some BytesT
     else if kw_name k = ''ref'' then Some RefT else None)"

definition cardinality_named :: "keyword \<Rightarrow> cardinality option" where
  "cardinality_named k =
    (if kw_name k = ''one'' then Some CardOne else if kw_name k = ''many'' then Some CardMany else None)"

definition unique_named :: "keyword \<Rightarrow> unique option" where
  "unique_named k =
    (if kw_name k = ''identity'' then Some UniqueIdentity
     else if kw_name k = ''value'' then Some UniqueValue else None)"

definition keyword_value :: "(kw_id \<Rightarrow> keyword option) \<Rightarrow> val \<Rightarrow> keyword option" where
  "keyword_value resolve v = (case v of Keyword kid \<Rightarrow> resolve kid | _ \<Rightarrow> None)"

definition derive_ident ::
    "(kw_id \<Rightarrow> keyword option) \<Rightarrow> (entity_id \<times> attr_id) \<times> val option \<Rightarrow> idents \<Rightarrow> idents" where
  "derive_ident resolve = (\<lambda>((e, a), v) ids.
    if a = IDENT then
      case v of None \<Rightarrow> ids
      | Some v \<Rightarrow> (case keyword_value resolve v of None \<Rightarrow> ids | Some name \<Rightarrow> idents_insert name e ids)
    else ids)"

definition derive_record ::
    "(kw_id \<Rightarrow> keyword option) \<Rightarrow> attr_id \<Rightarrow> val option \<Rightarrow> attribute \<times> bool \<Rightarrow> attribute \<times> bool" where
  "derive_record resolve a v = (\<lambda>(rec, installed).
    if a = VALUE_TYPE then
      (case Option.bind (Option.bind v (keyword_value resolve)) value_type_named of
         Some ty \<Rightarrow> (rec\<lparr>at_value_type := ty\<rparr>, True) | None \<Rightarrow> (rec, installed))
    else if a = CARDINALITY then
      (case Option.bind (Option.bind v (keyword_value resolve)) cardinality_named of
         Some c \<Rightarrow> (rec\<lparr>at_cardinality := c\<rparr>, installed) | None \<Rightarrow> (rec, installed))
    else if a = UNIQUE then
      (case v of
         None \<Rightarrow> (rec\<lparr>at_unique := None\<rparr>, installed)
       | Some v \<Rightarrow> (case Option.bind (keyword_value resolve v) unique_named of
           Some u \<Rightarrow> (rec\<lparr>at_unique := Some u\<rparr>, installed) | None \<Rightarrow> (rec, installed)))
    else if a = INDEX then (rec\<lparr>at_indexed := (v = Some (Bool True))\<rparr>, installed)
    else if a = IS_COMPONENT then (rec\<lparr>at_is_component := (v = Some (Bool True))\<rparr>, installed)
    else if a = NO_HISTORY then (rec\<lparr>at_no_history := (v = Some (Bool True))\<rparr>, installed)
    else (rec, installed))"

definition derive_beside :: "u64 \<Rightarrow> entity_id \<Rightarrow> attr_id \<Rightarrow> val option \<Rightarrow> schema \<Rightarrow> schema" where
  "derive_beside t e a v s =
    (if a = DOC then set_doc e (case v of Some (Str doc) \<Rightarrow> Some doc | _ \<Rightarrow> None) s
     else if a = RETIRED then set_retired e (v = Some (Bool True)) s
     else if a = PROTECTION then
       (let cls = (case v of Some (Ref c) \<Rightarrow> Some c | _ \<Rightarrow> None);
            timeline = schema_protection s e
        in if tl_current timeline \<noteq> cls then set_protection e (timeline @ [(t, cls)]) s else s)
     else s)"

definition placeholder_attr :: "entity_id \<Rightarrow> attribute" where
  "placeholder_attr e = \<lparr>at_id = e, at_value_type = StrT, at_cardinality = CardOne,
     at_unique = None, at_is_component = False, at_indexed = False, at_no_history = False\<rparr>"

definition derive_attr ::
    "(kw_id \<Rightarrow> keyword option) \<Rightarrow> u64 \<Rightarrow> (entity_id \<times> attr_id) \<times> val option \<Rightarrow> schema \<Rightarrow> schema" where
  "derive_attr resolve t = (\<lambda>((e, a), v) s.
    if a = IDENT then s
    else
      let existing = schema_get s e;
          (rec, installed) = derive_record resolve a v
            (case existing of Some r \<Rightarrow> r | None \<Rightarrow> placeholder_attr e, existing \<noteq> None);
          s = derive_beside t e a v s;
          rec = rec\<lparr>at_indexed := at_indexed rec \<or> at_unique rec \<noteq> None\<rparr>
      in if installed then schema_insert rec s else s)"

definition derive ::
    "(kw_id \<Rightarrow> keyword option) \<Rightarrow> u64 \<Rightarrow> datom list \<Rightarrow> schema \<times> idents \<Rightarrow> schema \<times> idents" where
  "derive resolve t ds si =
    (let resolved = om_entries (final_values ds)
     in (fold (derive_attr resolve t) resolved (fst si), fold (derive_ident resolve) resolved (snd si)))"

subsection \<open>What a transaction resolves to\<close>

definition slot_step :: "datom \<Rightarrow> val option \<Rightarrow> val option" where
  "slot_step d slot = (if d_added d then Some (d_v d) else if slot = Some (d_v d) then None else slot)"

definition on_slot :: "entity_id \<times> attr_id \<Rightarrow> datom \<Rightarrow> bool" where
  "on_slot p d \<longleftrightarrow> is_schema_attribute (d_a d) \<and> (d_e d, d_a d) = p"

lemma final_values_slot:
  "om_get (final_values ds) p =
     (if filter (on_slot p) ds = [] then None else Some (fold slot_step (filter (on_slot p) ds) None))"
proof (induction ds rule: rev_induct)
  case (snoc d ds)
  have step: "final_values (ds @ [d]) = final_step d (final_values ds)"
    by (simp add: final_values_def)
  show ?case
  proof (cases "on_slot p d")
    case False
    then have "om_get (final_step d (final_values ds)) p = om_get (final_values ds) p"
      by (auto simp: final_step_def Let_def on_slot_def)
    with False snoc show ?thesis unfolding step by simp
  next
    case True
    have "om_get (final_step d (final_values ds)) p =
        Some (slot_step d (case om_get (final_values ds) p of None \<Rightarrow> None | Some s \<Rightarrow> s))"
      using True by (auto simp: final_step_def slot_step_def Let_def on_slot_def)
    with True snoc show ?thesis unfolding step by simp
  qed
qed (simp add: final_values_def)

text \<open>
  A transaction states its schema facts consistently when it asserts at most one value for each
  entity and attribute, and does not assert and retract the same fact.
\<close>

definition compatible :: "datom \<Rightarrow> datom \<Rightarrow> bool" where
  "compatible d d' \<longleftrightarrow> (d_added d \<longrightarrow> (if d_added d' then d_v d = d_v d' else d_v d \<noteq> d_v d'))"

definition consistent :: "datom list \<Rightarrow> bool" where
  "consistent ds \<longleftrightarrow> (\<forall>d \<in> set ds. \<forall>d' \<in> set ds.
     (d_e d, d_a d) = (d_e d', d_a d') \<longrightarrow> compatible d d')"

lemma fold_slot_step:
  assumes "\<forall>d \<in> set ds. \<forall>d' \<in> set ds. compatible d d'"
  shows "fold slot_step ds None = Some v \<longleftrightarrow> (\<exists>d \<in> set ds. d_added d \<and> d_v d = v)"
  using assms
proof (induction ds arbitrary: v rule: rev_induct)
  case (snoc d ds)
  have IH: "fold slot_step ds None = Some v \<longleftrightarrow> (\<exists>d \<in> set ds. d_added d \<and> d_v d = v)" for v
    using snoc by simp
  have comp: "compatible d' d" if "d' \<in> set ds" for d'
    using snoc(2) that by simp
  show ?case
  proof (cases "d_added d")
    case True
    then have "d_v d' = d_v d" if "d' \<in> set ds" "d_added d'" for d'
      using comp [OF that(1)] that(2) by (simp add: compatible_def)
    with True show ?thesis by (auto simp: slot_step_def [of d])
  next
    case False
    then have "d_v d' \<noteq> d_v d" if "d' \<in> set ds" "d_added d'" for d'
      using comp [OF that(1)] that(2) by (simp add: compatible_def)
    then have "fold slot_step ds None \<noteq> Some (d_v d)" using IH by blast
    with False have "fold slot_step (ds @ [d]) None = fold slot_step ds None"
      by (simp add: slot_step_def [of d])
    with False IH show ?thesis by simp
  qed
qed simp

lemma final_values_set:
  assumes "consistent ds" and "consistent ds'" and "set ds = set ds'"
  shows "final_values ds = final_values ds'"
proof (rule om_eqI)
  fix p
  let ?f = "filter (on_slot p)"
  have eq: "set (?f ds) = set (?f ds')" using assms(3) by simp
  have "\<forall>d \<in> set (?f ds). \<forall>d' \<in> set (?f ds). compatible d d'"
    and "\<forall>d \<in> set (?f ds'). \<forall>d' \<in> set (?f ds'). compatible d d'"
    using assms(1,2) by (auto simp: consistent_def on_slot_def)
  note this [THEN fold_slot_step]
  then have "fold slot_step (?f ds) None = Some v \<longleftrightarrow> fold slot_step (?f ds') None = Some v" for v
    unfolding eq by simp
  then have "fold slot_step (?f ds) None = fold slot_step (?f ds') None"
    by (rule option_eqI)
  moreover have "?f ds = [] \<longleftrightarrow> ?f ds' = []" using eq by (metis set_empty)
  ultimately show "om_get (final_values ds) p = om_get (final_values ds') p"
    unfolding final_values_slot by simp
qed

subsection \<open>What derivation changes\<close>

lemma at_id_derive_record: "at_id (fst (derive_record resolve a v ri)) = at_id (fst ri)"
  by (cases ri) (auto simp: derive_record_def split: option.split)

lemma schema_get_derive_beside [view_simps]: "schema_get (derive_beside t e a v s) b = schema_get s b"
  by (simp add: derive_beside_def Let_def view_simps)

text \<open>One entry changes what lies beside its attribute and may replace the attribute's record.\<close>

lemma derive_attr_shape:
  assumes "schema_wf s"
  shows "\<exists>r. at_id r = e \<and> (at_unique r \<noteq> None \<longrightarrow> at_indexed r) \<and>
    derive_attr resolve t ((e, a), v) s \<in>
      {if a = IDENT then s else derive_beside t e a v s,
       schema_insert r (if a = IDENT then s else derive_beside t e a v s)}"
proof -
  define ri where "ri = derive_record resolve a v
    (case schema_get s e of Some r \<Rightarrow> r | None \<Rightarrow> placeholder_attr e, schema_get s e \<noteq> None)"
  define r where "r = (fst ri)\<lparr>at_indexed := at_indexed (fst ri) \<or> at_unique (fst ri) \<noteq> None\<rparr>"
  have "at_id r = e"
    using assms by (auto simp: r_def ri_def at_id_derive_record schema_wf_def placeholder_attr_def
        split: option.split)
  moreover have "at_unique r \<noteq> None \<longrightarrow> at_indexed r" by (simp add: r_def)
  moreover have "derive_attr resolve t ((e, a), v) s =
      (if a = IDENT then s else if snd ri then schema_insert r (derive_beside t e a v s)
       else derive_beside t e a v s)"
    unfolding derive_attr_def Let_def case_prod_unfold fst_conv snd_conv ri_def [symmetric] r_def [symmetric] ..
  ultimately show ?thesis by auto
qed

lemma schema_wf_derive_attr: "schema_wf s \<Longrightarrow> schema_wf (derive_attr resolve t kv s)"
proof -
  assume wf: "schema_wf s"
  obtain e a v where kv: "kv = ((e, a), v)" by (metis surj_pair)
  have "schema_wf (derive_beside t e a v s)"
    using wf by (simp add: schema_wf_def view_simps)
  with derive_attr_shape [OF wf, of e resolve t a v] wf show ?thesis
    unfolding kv by (auto split: if_splits intro: schema_wf_insert)
qed

lemma schema_wf_derive: "schema_wf s \<Longrightarrow> schema_wf (fst (derive resolve t ds (s, ids)))"
proof -
  have "schema_wf s \<Longrightarrow> schema_wf (fold (derive_attr resolve t) es s)" for es s
    by (induction es arbitrary: s) (simp_all add: schema_wf_derive_attr)
  then show "schema_wf s \<Longrightarrow> schema_wf (fst (derive resolve t ds (s, ids)))"
    by (simp add: derive_def Let_def)
qed

lemma derive_beside_protection:
  "schema_protection (derive_beside t e a v s) e' =
     (let cls = (case v of Some (Ref c) \<Rightarrow> Some c | _ \<Rightarrow> None)
      in if e' = e \<and> a = PROTECTION \<and> tl_current (schema_protection s e) \<noteq> cls
         then schema_protection s e @ [(t, cls)] else schema_protection s e')"
  by (auto simp: derive_beside_def Let_def view_simps engine_ids)

lemma derive_attr_protection:
  assumes "schema_wf s"
  shows "schema_protection (derive_attr resolve t ((e, a), v) s) e' =
     (let cls = (case v of Some (Ref c) \<Rightarrow> Some c | _ \<Rightarrow> None)
      in if e' = e \<and> a = PROTECTION \<and> tl_current (schema_protection s e) \<noteq> cls
         then schema_protection s e @ [(t, cls)] else schema_protection s e')"
proof -
  have "schema_protection (derive_attr resolve t ((e, a), v) s) e' =
      schema_protection (if a = IDENT then s else derive_beside t e a v s) e'"
    using derive_attr_shape [OF assms, of e resolve t a v] by (elim exE conjE insertE) (simp_all add: view_simps)
  moreover have "PROTECTION \<noteq> IDENT" by (simp add: engine_ids)
  ultimately show ?thesis by (simp add: derive_beside_protection Let_def)
qed

text \<open>The entries of one transaction name each entity and attribute once.\<close>

lemma fold_derive_protection:
  "schema_wf s \<Longrightarrow> distinct (map fst es) \<Longrightarrow>
   schema_protection (fold (derive_attr resolve t) es s) e =
     (case map_of es (e, PROTECTION) of
        None \<Rightarrow> schema_protection s e
      | Some v \<Rightarrow> (let cls = (case v of Some (Ref c) \<Rightarrow> Some c | _ \<Rightarrow> None)
          in if tl_current (schema_protection s e) \<noteq> cls then schema_protection s e @ [(t, cls)]
             else schema_protection s e))"
proof (induction es arbitrary: s)
  case (Cons kv es)
  obtain e' a v where kv: "kv = ((e', a), v)" by (metis surj_pair)
  have none: "map_of es (e', a) = None"
    using Cons.prems(2) by (force simp: kv map_of_eq_None_iff)
  have wf: "schema_wf (derive_attr resolve t kv s)"
    by (rule schema_wf_derive_attr [OF Cons.prems(1)])
  note IH = Cons.IH [OF wf]
  show ?case
  proof (cases "e' = e \<and> a = PROTECTION")
    case False
    then have prot: "schema_protection (derive_attr resolve t kv s) e = schema_protection s e"
      by (auto simp: kv derive_attr_protection [OF Cons.prems(1)] Let_def)
    have "distinct (map fst es)" using Cons.prems(2) by simp
    then have "schema_protection (fold (derive_attr resolve t) (kv # es) s) e =
        (case map_of es (e, PROTECTION) of
           None \<Rightarrow> schema_protection s e
         | Some v \<Rightarrow> (let cls = (case v of Some (Ref c) \<Rightarrow> Some c | _ \<Rightarrow> None)
             in if tl_current (schema_protection s e) \<noteq> cls then schema_protection s e @ [(t, cls)]
                else schema_protection s e))"
      using IH unfolding prot by simp
    then show ?thesis using False by (auto simp: kv)
  next
    case True
    with IH Cons.prems(2) none show ?thesis
      by (simp add: kv derive_attr_protection [OF Cons.prems(1)])
  qed
qed simp

lemma final_values_keys:
  "(p, c) \<in> set (om_entries (final_values ds)) \<Longrightarrow> \<exists>d \<in> set ds. on_slot p d"
  by (simp add: om_entries_iff final_values_slot filter_empty_conv split: if_splits)

text \<open>A transaction whose schema datoms only name entities leaves the schema alone.\<close>

definition naming_only :: "datom list \<Rightarrow> bool" where
  "naming_only ds \<longleftrightarrow> (\<forall>d \<in> set ds. is_schema_attribute (d_a d) \<longrightarrow> d_a d = IDENT)"

lemma derive_naming_only:
  assumes "naming_only ds"
  shows "fst (derive resolve t ds si) = fst si"
proof -
  have "derive_attr resolve t kv s = s" if mem: "kv \<in> set (om_entries (final_values ds))" for kv s
  proof -
    obtain e a v where kv: "kv = ((e, a), v)" by (metis surj_pair)
    obtain d where "d \<in> set ds" "on_slot (e, a) d"
      using final_values_keys [of "(e, a)" v ds] mem kv by auto
    then have "a = IDENT" using assms by (auto simp: naming_only_def on_slot_def)
    then show ?thesis by (simp add: kv derive_attr_def)
  qed
  then have "fold (derive_attr resolve t) (om_entries (final_values ds)) s = s" for s
    by (rule fold_no_change)
  then show ?thesis by (simp add: derive_def Let_def)
qed

text \<open>What the schema and the idents say of one entity.\<close>

definition said_of :: "entity_id \<Rightarrow> schema \<Rightarrow> attribute option \<times> protection_timeline \<times> string option \<times> bool" where
  "said_of e s = (schema_get s e, schema_protection s e, schema_doc s e, is_retired s e)"

lemma derive_attr_said_other:
  assumes "fst (fst kv) \<noteq> e" and "schema_wf s"
  shows "said_of e (derive_attr resolve t kv s) = said_of e s"
proof -
  obtain e' a v where kv: "kv = ((e', a), v)" by (metis surj_pair)
  have "said_of e (derive_beside t e' a v s) = said_of e s"
    using assms(1) by (simp add: kv said_of_def derive_beside_def Let_def view_simps)
  then show ?thesis
    using derive_attr_shape [OF assms(2), of e' resolve t a v] assms(1) unfolding kv
    by (elim exE conjE insertE) (auto simp: said_of_def view_simps)
qed

lemma fold_derive_said_other:
  "schema_wf s \<Longrightarrow> (\<forall>kv \<in> set es. fst (fst kv) \<noteq> e) \<Longrightarrow> said_of e (fold (derive_attr resolve t) es s) = said_of e s"
  by (induction es arbitrary: s) (simp_all add: schema_wf_derive_attr derive_attr_said_other)

lemma derive_attr_classes: "sc_classes (derive_attr resolve t kv s) = sc_classes s"
proof -
  have "sc_classes (derive_beside t e a v s) = sc_classes s" for e a v
    by (simp add: derive_beside_def Let_def set_doc_def set_retired_def set_protection_def split: option.split)
  then show ?thesis by (cases kv) (auto simp: derive_attr_def Let_def schema_insert_def split: prod.splits)
qed

lemma fold_derive_classes: "sc_classes (fold (derive_attr resolve t) es s) = sc_classes s"
  by (induction es arbitrary: s) (simp_all add: derive_attr_classes)

lemma fold_derive_ident_other:
  "(\<forall>kv \<in> set es. fst (fst kv) \<noteq> e) \<Longrightarrow> ident_of (fold (derive_ident resolve) es ids) e = ident_of ids e"
proof (induction es arbitrary: ids)
  case (Cons kv es)
  obtain e' a v where kv: "kv = ((e', a), v)" by (metis surj_pair)
  have "ident_of (derive_ident resolve kv ids) e = ident_of ids e"
    using Cons.prems by (auto simp: kv derive_ident_def view_simps split: option.split)
  then show ?case using Cons by simp
qed simp

lemma fold_derive_entid_other:
  "(\<forall>kv \<in> set es. snd (fst kv) = IDENT \<longrightarrow> Option.bind (snd kv) (keyword_value resolve) \<noteq> Some k) \<Longrightarrow>
   entid (fold (derive_ident resolve) es ids) k = entid ids k"
proof (induction es arbitrary: ids)
  case (Cons kv es)
  obtain e' a v where kv: "kv = ((e', a), v)" by (metis surj_pair)
  have "entid (derive_ident resolve kv ids) k = entid ids k"
    using Cons.prems by (auto simp: kv derive_ident_def view_simps split: option.split)
  then show ?case using Cons by simp
qed simp

lemma fold_slot_step_value: "fold slot_step ds v0 = Some v \<Longrightarrow> v0 = Some v \<or> (\<exists>d \<in> set ds. d_added d \<and> d_v d = v)"
  by (induction ds arbitrary: v0) (auto simp: slot_step_def split: if_splits)

lemma final_values_value:
  assumes "((e, a), Some v) \<in> set (om_entries (final_values ds))"
  shows "\<exists>d \<in> set ds. d_added d \<and> d_e d = e \<and> d_a d = a \<and> d_v d = v"
  using assms fold_slot_step_value [of "filter (on_slot (e, a)) ds" None v]
  by (auto simp: om_entries_iff final_values_slot on_slot_def split: if_splits)

subsection \<open>Properties\<close>

text \<open>
  C27. Deriving the schema of a transaction keeps the schema invariant (records under their own
  id, uniqueness implies index coverage) and changes only what the transaction states. An entity it
  states no schema attribute of keeps its attribute record, protection timeline, documentation,
  retirement and ident; protection classes stay as they are; a keyword that it gives to no
  entity names the entity it named before. Protection changes forward only: a timeline keeps all its entries, and
  gains one, at the transaction's \<open>t\<close>, exactly when the class the transaction leaves stated
  differs from the current one.
\<close>

theorem derive_schema_forward:
  assumes "schema_wf s" and "derive resolve t ds (s, ids) = (s', ids')"
  shows "schema_wf s' \<and>
    ((\<forall>d \<in> set ds. is_schema_attribute (d_a d) \<longrightarrow> d_e d \<noteq> e) \<longrightarrow>
       schema_get s' e = schema_get s e \<and> schema_protection s' e = schema_protection s e \<and>
       schema_doc s' e = schema_doc s e \<and> is_retired s' e = is_retired s e \<and> ident_of ids' e = ident_of ids e) \<and>
    sc_classes s' = sc_classes s \<and>
    ((\<forall>d \<in> set ds. d_a d = IDENT \<and> d_added d \<longrightarrow> keyword_value resolve (d_v d) \<noteq> Some k) \<longrightarrow> entid ids' k = entid ids k) \<and>
    schema_protection s' e = (case om_get (final_values ds) (e, PROTECTION) of
        None \<Rightarrow> schema_protection s e
      | Some v \<Rightarrow> (let cls = (case v of Some (Ref c) \<Rightarrow> Some c | _ \<Rightarrow> None)
          in if tl_current (schema_protection s e) \<noteq> cls then schema_protection s e @ [(t, cls)] else schema_protection s e))"
proof (intro conjI impI)
  let ?es = "om_entries (final_values ds)"
  have s': "s' = fold (derive_attr resolve t) ?es s" and ids': "ids' = fold (derive_ident resolve) ?es ids"
    using assms(2) by (simp_all add: derive_def Let_def)
  show "schema_wf s'" using schema_wf_derive [OF assms(1), of resolve t ds ids] assms(2) by simp
  show "sc_classes s' = sc_classes s" unfolding s' by (rule fold_derive_classes)
  have "distinct (map fst ?es)" by (rule ascending_distinct) simp
  then show "schema_protection s' e = (case om_get (final_values ds) (e, PROTECTION) of
        None \<Rightarrow> schema_protection s e
      | Some v \<Rightarrow> (let cls = (case v of Some (Ref c) \<Rightarrow> Some c | _ \<Rightarrow> None)
          in if tl_current (schema_protection s e) \<noteq> cls then schema_protection s e @ [(t, cls)] else schema_protection s e))"
    unfolding s' using fold_derive_protection [OF assms(1)] by (simp add: om_get_entries)
  show "entid ids' k = entid ids k" if k: "\<forall>d \<in> set ds. d_a d = IDENT \<and> d_added d \<longrightarrow> keyword_value resolve (d_v d) \<noteq> Some k"
    unfolding ids'
  proof (rule fold_derive_entid_other, intro ballI impI)
    fix kv assume kv: "kv \<in> set ?es" "snd (fst kv) = IDENT"
    obtain e' v where e': "kv = ((e', IDENT), v)" using kv(2) by (metis prod.collapse)
    show "Option.bind (snd kv) (keyword_value resolve) \<noteq> Some k"
      using final_values_value [of e' IDENT _ ds] kv(1) k e' by (cases v) auto
  qed
  assume none: "\<forall>d \<in> set ds. is_schema_attribute (d_a d) \<longrightarrow> d_e d \<noteq> e"
  have other: "\<forall>kv \<in> set ?es. fst (fst kv) \<noteq> e"
  proof
    fix kv assume "kv \<in> set ?es"
    then obtain d where "d \<in> set ds" "on_slot (fst kv) d" using final_values_keys [of "fst kv" "snd kv" ds] by auto
    then have "is_schema_attribute (d_a d)" "d_e d = fst (fst kv)" unfolding on_slot_def by (metis, metis fst_conv)
    then show "fst (fst kv) \<noteq> e" using none \<open>d \<in> set ds\<close> by auto
  qed
  show "schema_get s' e = schema_get s e" "schema_protection s' e = schema_protection s e"
    "schema_doc s' e = schema_doc s e" "is_retired s' e = is_retired s e"
    using fold_derive_said_other [OF assms(1) other, of resolve t] by (simp_all add: s' said_of_def)
  show "ident_of ids' e = ident_of ids e" unfolding ids' by (rule fold_derive_ident_other [OF other])
qed

definition example_schema_datom :: "attr_id \<Rightarrow> val \<Rightarrow> bool \<Rightarrow> datom" where
  "example_schema_datom a v added = \<lparr>d_e = 100, d_a = a, d_v = v, d_tx = tx_entity 1, d_added = added\<rparr>"

text \<open>An attribute starts to be protected; another one, with its name and documentation, stays as it is.\<close>

theorem derive_schema_forward_witness:
  "let s = set_doc 101 (Some ''kept'') schema_default;
       (s', ids') = derive (\<lambda>_. None) 1 [example_schema_datom PROTECTION (Ref 7) True] (s, idents_default)
   in schema_wf s' \<and> schema_protection s' 100 = [(1, Some 7)] \<and> schema_doc s' 101 = Some ''kept'' \<and> schema_protection s' 101 = []"
proof -
  let ?s = "set_doc 101 (Some ''kept'') schema_default" and ?ds = "[example_schema_datom PROTECTION (Ref 7) True]"
  obtain s' ids' where d: "derive (\<lambda>_. None) 1 ?ds (?s, idents_default) = (s', ids')" by fastforce
  have wf: "schema_wf ?s" using schema_wf_default by (simp add: schema_wf_def view_simps)
  have start: "schema_protection schema_default e = []" for e by (simp add: schema_protection_def schema_default_def)
  have "om_get (final_values ?ds) (100, PROTECTION) = Some (Some (Ref 7))"
    by (simp add: final_values_def final_step_def example_schema_datom_def is_schema_attribute_def engine_ids)
  then have "schema_protection s' 100 = [(1, Some 7)]"
    using derive_schema_forward [OF wf d, of 100] by (simp add: view_simps start tl_current_def)
  moreover have "schema_wf s' \<and> schema_doc s' 101 = Some ''kept'' \<and> schema_protection s' 101 = []"
    using derive_schema_forward [OF wf d, of 101] by (simp add: view_simps start example_schema_datom_def)
  ultimately show ?thesis using d by simp
qed

text \<open>
  Derivation depends only on the set of datoms of a transaction, not on the order it lists them
  in, provided it asserts at most one value for each entity and attribute and does not both
  assert and retract one fact.
\<close>

theorem derive_order_independent:
  assumes "consistent ds" and "consistent ds'" and "set ds = set ds'"
  shows "derive resolve t ds si = derive resolve t ds' si"
  using final_values_set [OF assms] by (simp add: derive_def)

theorem derive_order_independent_witness:
  "derive (\<lambda>_. None) 1 [example_schema_datom DOC (Str ''a'') False, example_schema_datom DOC (Str ''b'') True]
     (schema_default, idents_default) =
   derive (\<lambda>_. None) 1 [example_schema_datom DOC (Str ''b'') True, example_schema_datom DOC (Str ''a'') False]
     (schema_default, idents_default)"
  by (rule derive_order_independent)
    (auto simp: consistent_def compatible_def example_schema_datom_def)

text \<open>
  Without that proviso the order does matter: asserting and retracting the same fact in one
  transaction leaves the value when the assertion comes last and clears it when the retraction
  does, so an assertion does not always win.
\<close>

theorem final_values_order_matters:
  "om_get (final_values [example_schema_datom DOC (Str ''a'') False, example_schema_datom DOC (Str ''a'') True])
     (100, DOC) = Some (Some (Str ''a'')) \<and>
   om_get (final_values [example_schema_datom DOC (Str ''a'') True, example_schema_datom DOC (Str ''a'') False])
     (100, DOC) = Some None"
  by (simp add: final_values_def final_step_def example_schema_datom_def is_schema_attribute_def Let_def)

end
