(* ===== verification/Db.thy ===== *)
theory Db
  imports Schema_Datoms
begin

text \<open>
  Immutable database values (\<open>crates/corium-db/src/lib.rs\<close>): the recorded datoms, the time views
  over them, the four covering indexes of a view, naming, transaction instants and statistics.

  The persistent containers of the source are represented by the values they hold: the recorded
  vector is a list, an index is an ordered map from keys to datoms, the array of four indexes a
  function of the index order. \<open>OnceLock\<close> caches are optional fields: empty, or holding what a
  read has put there. Values that share a cell in the source hold equal contents here;
  \<open>db_wf\<close> says that a filled cell holds what a fresh fold would.
  The instants are keyed by their signed value. \<open>db_overlay\<close> is the content of the overlay the
  interner shares with its clones.
\<close>

subsection \<open>Views, statistics, index types\<close>

datatype db_view = Current | AsOf u64 | Since u64 | History

record attr_stats =
  st_count :: nat
  st_distinct_values :: nat
  st_distinct_entities :: nat
  st_protected :: bool

record planner_stats =
  ps_per_attr :: "(attr_id, attr_stats) omap"
  ps_total_datoms :: nat
  ps_entity_count :: nat

definition estimate :: "planner_stats \<Rightarrow> bool \<Rightarrow> attr_id option \<Rightarrow> bool \<Rightarrow> nat" where
  "estimate ps e_bound a v_bound = (case Option.bind a (om_get (ps_per_attr ps)) of
     Some st \<Rightarrow>
       if e_bound then max (st_count st div max (st_distinct_entities st) 1) 1
       else if v_bound \<and> \<not> st_protected st then max (st_count st div max (st_distinct_values st) 1) 1
       else max (st_count st) 1
   | None \<Rightarrow>
       if e_bound then max (ps_total_datoms ps div max (ps_entity_count ps) 1) 1
       else if a \<noteq> None then 1
       else max (ps_total_datoms ps) 1)"

type_synonym index = "(bytes, datom) omap"
type_synonym indexes = "index_order \<Rightarrow> index"

definition ORDERS :: "index_order list" where
  "ORDERS = [Eavt, Aevt, Avet, Vaet]"

text \<open>Encoding stops at the first missing component.\<close>

fun encode_components :: "bytes option list \<Rightarrow> bytes" where
  "encode_components (Some c # cs) = c @ encode_components cs"
| "encode_components _ = []"

definition key_prefix :: "index_order \<Rightarrow> entity_id option \<Rightarrow> attr_id option \<Rightarrow> val option \<Rightarrow> bytes" where
  "key_prefix order e a v =
    (let E = map_option u64_to_be_bytes e; A = map_option u64_to_be_bytes a;
         V = map_option encode_value v
     in encode_components (case order of
          Eavt \<Rightarrow> [E, A, V] | Aevt \<Rightarrow> [A, E, V] | Avet \<Rightarrow> [A, V, E] | Vaet \<Rightarrow> [V, A, E]))"

subsection \<open>Transaction instants\<close>

record tx_instants =
  ti_by_t :: "(u64, i64) omap"
  ti_by_instant :: "(int, u64) omap"

definition instants_default :: tx_instants where
  "instants_default = \<lparr>ti_by_t = om_empty, ti_by_instant = om_empty\<rparr>"

definition instants_record :: "u64 \<Rightarrow> i64 \<Rightarrow> tx_instants \<Rightarrow> tx_instants" where
  "instants_record t instant ti =
    (let ti = ti\<lparr>ti_by_t := om_insert t instant (ti_by_t ti)\<rparr>
     in if (case om_get (ti_by_instant ti) (sint instant) of None \<Rightarrow> True | Some held \<Rightarrow> held < t)
        then ti\<lparr>ti_by_instant := om_insert (sint instant) t (ti_by_instant ti)\<rparr>
        else ti)"

definition ti_instant :: "tx_instants \<Rightarrow> u64 \<Rightarrow> i64 option" where
  "ti_instant ti t = om_get (ti_by_t ti) t"

definition t_at :: "tx_instants \<Rightarrow> i64 \<Rightarrow> u64" where
  "t_at ti instant =
    (let upto = takeWhile (\<lambda>e. fst e \<le> sint instant) (om_entries (ti_by_instant ti))
     in if upto = [] then 0 else snd (last upto))"

subsection \<open>The database value\<close>

record db =
  db_basis_t :: u64
  db_next_user :: u64
  db_schema :: schema
  db_recorded :: "datom list"
  db_idents :: idents
  db_interner :: keyword_interner
  db_overlay :: local_keywords
  db_generation :: u64
  db_view :: db_view
  db_instants :: tx_instants
  db_indexes :: "indexes option"
  db_stats :: "planner_stats option"
  db_complete :: bool

definition db_default :: db where
  "db_default = \<lparr>db_basis_t = 0, db_next_user = FIRST_USER_ID, db_schema = schema_default,
     db_recorded = [], db_idents = idents_default, db_interner = interner_new,
     db_overlay = local_new, db_generation = 0, db_view = Current,
     db_instants = instants_default, db_indexes = None, db_stats = None, db_complete = True\<rparr>"

definition db_new :: "schema \<Rightarrow> db" where
  "db_new s = db_default\<lparr>db_schema := install_schema s\<rparr>"

definition next_user_after :: "u64 \<Rightarrow> datom list \<Rightarrow> u64" where
  "next_user_after next ds =
    fold (\<lambda>d m. max m (eid_sequence (d_e d) + 1))
      (filter (\<lambda>d. eid_partition (d_e d) = part_id PartUser) ds) next"

definition snapshot_instants :: "datom list \<Rightarrow> tx_instants" where
  "snapshot_instants ds = fold (\<lambda>d ti. case d_v d of
      Instant instant \<Rightarrow>
        if d_added d \<and> d_a d = TX_INSTANT \<and> d_e d = d_tx d \<and> eid_partition (d_tx d) = part_id PartTx
        then instants_record (eid_sequence (d_tx d)) instant ti else ti
    | _ \<Rightarrow> ti) ds instants_default"

definition from_current_snapshot ::
    "u64 \<Rightarrow> u64 \<Rightarrow> schema \<Rightarrow> idents \<Rightarrow> keyword_interner \<Rightarrow> local_keywords \<Rightarrow> datom list \<Rightarrow> db" where
  "from_current_snapshot basis next s ids i l ds =
    (let (s, ids) = install (s, ids)
     in \<lparr>db_basis_t = basis, db_next_user = next_user_after (max next FIRST_USER_ID) ds,
         db_schema = s, db_recorded = ds, db_idents = ids, db_interner = i, db_overlay = l,
         db_generation = 0, db_view = Current, db_instants = snapshot_instants ds,
         db_indexes = None, db_stats = None, db_complete = False\<rparr>)"

definition from_history_snapshot ::
    "u64 \<Rightarrow> u64 \<Rightarrow> schema \<Rightarrow> idents \<Rightarrow> keyword_interner \<Rightarrow> local_keywords
      \<Rightarrow> datom list \<Rightarrow> datom list \<Rightarrow> db" where
  "from_history_snapshot basis next s ids i l history current =
    (let (s, ids) = install (s, ids);
         history = history @ filter (\<lambda>d. case schema_get s (d_a d) of
           None \<Rightarrow> False | Some attr \<Rightarrow> at_no_history attr) current
     in \<lparr>db_basis_t = basis, db_next_user = next_user_after (max next FIRST_USER_ID) history,
         db_schema = s, db_recorded = history, db_idents = ids, db_interner = i, db_overlay = l,
         db_generation = 0, db_view = Current, db_instants = snapshot_instants history,
         db_indexes = None, db_stats = None, db_complete = True\<rparr>)"

definition with_naming :: "idents \<Rightarrow> keyword_interner \<Rightarrow> local_keywords \<Rightarrow> db \<Rightarrow> db" where
  "with_naming ids i l d =
    (let (s, ids) = install (db_schema d, ids)
     in d\<lparr>db_schema := s, db_idents := ids, db_interner := i, db_overlay := l\<rparr>)"

definition recorded_since :: "db \<Rightarrow> u64 \<Rightarrow> datom list" where
  "recorded_since d t = rev (takeWhile (\<lambda>x. eid_sequence (d_tx x) > t) (rev (db_recorded d)))"

subsection \<open>Coverage and the fold of an index\<close>

definition avet_covered :: "schema \<Rightarrow> attr_id \<Rightarrow> bool" where
  "avet_covered s a = (case schema_get s a of
     None \<Rightarrow> False | Some attr \<Rightarrow> at_indexed attr \<or> at_unique attr \<noteq> None)"

definition is_ref :: "val \<Rightarrow> bool" where
  "is_ref v = (case v of Ref _ \<Rightarrow> True | _ \<Rightarrow> False)"

fun covered :: "schema \<Rightarrow> index_order \<Rightarrow> datom \<Rightarrow> bool" where
  "covered s Eavt d = True"
| "covered s Aevt d = True"
| "covered s Avet d = avet_covered s (d_a d)"
| "covered s Vaet d = is_ref (d_v d)"

definition component_key :: "index_order \<Rightarrow> datom \<Rightarrow> bytes" where
  "component_key order d = key_prefix order (Some (d_e d)) (Some (d_a d)) (Some (d_v d))"

definition insert_datom :: "schema \<Rightarrow> bool \<Rightarrow> datom \<Rightarrow> indexes \<Rightarrow> indexes" where
  "insert_datom s with_tx d ixs = (\<lambda>order.
     if covered s order d
     then om_insert (if with_tx then datom_key d order else component_key order d) d (ixs order)
     else ixs order)"

definition remove_datom :: "schema \<Rightarrow> datom \<Rightarrow> indexes \<Rightarrow> indexes" where
  "remove_datom s d ixs = (\<lambda>order.
     if covered s order d then om_remove (component_key order d) (ixs order) else ixs order)"

definition apply_current :: "schema \<Rightarrow> datom list \<Rightarrow> indexes \<Rightarrow> indexes" where
  "apply_current s ds ixs = fold (\<lambda>d ixs.
     if d_added d then insert_datom s False d ixs else remove_datom s d ixs) ds ixs"

definition live_fold :: "u64 option \<Rightarrow> datom list \<Rightarrow> index" where
  "live_fold cutoff ds = fold (\<lambda>d live.
     if (case cutoff of None \<Rightarrow> False | Some t \<Rightarrow> eid_sequence (d_tx d) > t) then live
     else if d_added d then om_insert (component_key Eavt d) d live
     else om_remove (component_key Eavt d) live) ds om_empty"

definition project :: "schema \<Rightarrow> index \<Rightarrow> indexes" where
  "project s live = (\<lambda>order.
     if order = Eavt then live
     else fold (\<lambda>d m. if covered s order d then om_insert (component_key order d) d m else m)
       (om_values live) om_empty)"

definition no_history_attr :: "schema \<Rightarrow> attr_id \<Rightarrow> bool" where
  "no_history_attr s a = (case schema_get s a of None \<Rightarrow> False | Some attr \<Rightarrow> at_no_history attr)"

definition compute_indexes :: "db_view \<Rightarrow> schema \<Rightarrow> datom list \<Rightarrow> indexes" where
  "compute_indexes view s ds = (case view of
     History \<Rightarrow> fold (\<lambda>d ixs. if no_history_attr s (d_a d) then ixs else insert_datom s True d ixs)
       ds (\<lambda>_. om_empty)
   | Current \<Rightarrow> project s (live_fold None ds)
   | AsOf t \<Rightarrow> project s (live_fold (Some t) ds)
   | Since t \<Rightarrow> project s (om_filter (\<lambda>(_, d). eid_sequence (d_tx d) > t) (live_fold None ds)))"

definition indexes :: "db \<Rightarrow> indexes" where
  "indexes d = (case db_indexes d of
     Some ixs \<Rightarrow> ixs | None \<Rightarrow> compute_indexes (db_view d) (db_schema d) (db_recorded d))"

text \<open>What a read leaves behind: the cell is filled.\<close>

definition materialize :: "db \<Rightarrow> db" where
  "materialize d = d\<lparr>db_indexes := Some (indexes d)\<rparr>"

subsection \<open>Time views\<close>

definition fold_class :: "db \<Rightarrow> db_view \<Rightarrow> db_view" where
  "fold_class d view = (case view of
     AsOf t \<Rightarrow> if t \<ge> db_basis_t d then Current else AsOf t
   | Since t \<Rightarrow> if t = 0 then Current else Since t
   | other \<Rightarrow> other)"

definition with_view :: "db_view \<Rightarrow> db \<Rightarrow> db" where
  "with_view view d =
    (if view = db_view d then d
     else let shared = (fold_class d view = fold_class d (db_view d))
          in d\<lparr>db_view := view,
               db_indexes := (if shared then db_indexes d else None),
               db_stats := (if shared then db_stats d else None)\<rparr>)"

definition as_of :: "u64 \<Rightarrow> db \<Rightarrow> db" where
  "as_of t d = with_view (AsOf t) d"

definition since :: "u64 \<Rightarrow> db \<Rightarrow> db" where
  "since t d = with_view (Since t) d"

definition history :: "db \<Rightarrow> db" where
  "history d = with_view History d"

definition t_at_instant :: "db \<Rightarrow> i64 \<Rightarrow> u64" where
  "t_at_instant d instant = t_at (db_instants d) instant"

definition as_of_instant :: "i64 \<Rightarrow> db \<Rightarrow> db" where
  "as_of_instant instant d = as_of (t_at_instant d instant) d"

definition since_instant :: "i64 \<Rightarrow> db \<Rightarrow> db" where
  "since_instant instant d = since (t_at_instant d instant) d"

subsection \<open>Reading\<close>

definition tx_range :: "db \<Rightarrow> u64 \<Rightarrow> u64 option \<Rightarrow> (u64 \<times> datom list) list" where
  "tx_range d start stop = om_entries (fold (\<lambda>x by_t.
     let t = eid_sequence (d_tx x)
     in if t \<ge> start \<and> (case stop of None \<Rightarrow> True | Some stop \<Rightarrow> t < stop)
        then om_insert t ((case om_get by_t t of None \<Rightarrow> [] | Some xs \<Rightarrow> xs) @ [x]) by_t
        else by_t) (db_recorded d) om_empty)"

definition datoms_at :: "db \<Rightarrow> index_order \<Rightarrow> datom list" where
  "datoms_at d order = om_values (indexes d order)"

definition datoms :: "db \<Rightarrow> datom list" where
  "datoms d = datoms_at d Eavt"

definition datoms_prefix :: "db \<Rightarrow> index_order \<Rightarrow> bytes \<Rightarrow> datom list" where
  "datoms_prefix d order p =
    map snd (takeWhile (\<lambda>e. prefix p (fst e)) (om_range_from p (indexes d order)))"

definition datoms_for_attribute :: "db \<Rightarrow> attr_id \<Rightarrow> datom list" where
  "datoms_for_attribute d a =
    (let p = key_prefix Aevt None (Some a) None
     in map snd (takeWhile (\<lambda>e. prefix p (fst e)) (om_range_from p (indexes d Aevt))))"

definition seek_datoms :: "db \<Rightarrow> index_order \<Rightarrow> bytes \<Rightarrow> datom list" where
  "seek_datoms d order start = map snd (om_range_from start (indexes d order))"

datatype range_error = Protected attr_id

definition index_range :: "db \<Rightarrow> attr_id \<Rightarrow> val option \<Rightarrow> val option \<Rightarrow> range_error + datom list" where
  "index_range d a start stop =
    (if ever_protected (schema_protection (db_schema d) a) then Inl (Protected a)
     else
       let a_prefix = key_prefix Avet None (Some a) None;
           start_key = key_prefix Avet None (Some a) start
       in Inr (takeWhile (\<lambda>x. case stop of None \<Rightarrow> True | Some stop \<Rightarrow> d_v x < stop)
            (map snd (takeWhile (\<lambda>e. prefix a_prefix (fst e)) (om_range_from start_key (indexes d Avet))))))"

definition db_values :: "db \<Rightarrow> entity_id \<Rightarrow> attr_id \<Rightarrow> val list" where
  "db_values d e a = map d_v (datoms_prefix d Eavt (key_prefix Eavt (Some e) (Some a) None))"

definition lookup :: "db \<Rightarrow> attr_id \<Rightarrow> val \<Rightarrow> entity_id option" where
  "lookup d a v =
    (if avet_covered (db_schema d) a
     then (case datoms_prefix d Avet (key_prefix Avet None (Some a) (Some v)) of
             [] \<Rightarrow> None | x # _ \<Rightarrow> Some (d_e x))
     else map_option d_e (find (\<lambda>x. d_v x = v) (datoms_prefix d Aevt (key_prefix Aevt None (Some a) None))))"

subsection \<open>Applying transactions\<close>

definition db_resolve :: "db \<Rightarrow> kw_id \<Rightarrow> keyword option" where
  "db_resolve d kid = kw_resolve (db_interner d) (db_overlay d) kid"

definition apply_transaction :: "u64 \<Rightarrow> datom list \<Rightarrow> db \<Rightarrow> db" where
  "apply_transaction t ds d =
    (let schema_changed = changes_schema ds;
         (s, ids) = (if touches_naming ds then derive (db_resolve d) t ds (db_schema d, db_idents d)
                     else (db_schema d, db_idents d))
     in d\<lparr>db_basis_t := t,
          db_next_user := next_user_after (db_next_user d) ds,
          db_schema := s, db_idents := ids,
          db_generation := (if touches_naming ds \<and> schema_changed then db_generation d + 1 else db_generation d),
          db_recorded := db_recorded d @ ds,
          db_stats := None,
          db_indexes := (case db_indexes d of
              Some parent \<Rightarrow> if schema_changed then None else Some (apply_current (db_schema d) ds parent)
            | None \<Rightarrow> None)\<rparr>)"

definition record_instant :: "u64 \<Rightarrow> i64 \<Rightarrow> db \<Rightarrow> db" where
  "record_instant t instant d = d\<lparr>db_instants := instants_record t instant (db_instants d)\<rparr>"

definition with_transaction_at :: "u64 \<Rightarrow> i64 \<Rightarrow> datom list \<Rightarrow> db \<Rightarrow> db" where
  "with_transaction_at t instant ds d = (case asserted_instant t ds of
     Some asserted \<Rightarrow> record_instant t asserted (apply_transaction t ds d)
   | None \<Rightarrow> record_instant t instant (apply_transaction t (ds @ [tx_instant_datom t instant]) d))"

definition with_transaction :: "u64 \<Rightarrow> datom list \<Rightarrow> db \<Rightarrow> db" where
  "with_transaction t ds d = (case asserted_instant t ds of
     Some instant \<Rightarrow> with_transaction_at t instant ds d
   | None \<Rightarrow> apply_transaction t ds d)"

subsection \<open>Statistics\<close>

record stats_acc =
  sa_stats :: planner_stats
  sa_values :: "(attr_id, val oset) omap"
  sa_attr_entities :: "(attr_id, entity_id oset) omap"
  sa_entities :: "entity_id oset"

definition attr_stats_default :: attr_stats where
  "attr_stats_default = \<lparr>st_count = 0, st_distinct_values = 0, st_distinct_entities = 0, st_protected = False\<rparr>"

text \<open>\<open>entry(k).or_default()\<close> followed by an update of the entry.\<close>

definition om_update :: "'v \<Rightarrow> 'k::linorder \<Rightarrow> ('v \<Rightarrow> 'v) \<Rightarrow> ('k, 'v) omap \<Rightarrow> ('k, 'v) omap" where
  "om_update dflt k f m = om_insert k (f (case om_get m k of None \<Rightarrow> dflt | Some v \<Rightarrow> v)) m"

definition stats_step :: "datom \<Rightarrow> stats_acc \<Rightarrow> stats_acc" where
  "stats_step d acc =
    \<lparr>sa_stats = (sa_stats acc)\<lparr>ps_total_datoms := ps_total_datoms (sa_stats acc) + 1,
       ps_per_attr := om_update attr_stats_default (d_a d) (\<lambda>st. st\<lparr>st_count := st_count st + 1\<rparr>)
         (ps_per_attr (sa_stats acc))\<rparr>,
     sa_values = om_update om_empty (d_a d) (os_insert (d_v d)) (sa_values acc),
     sa_attr_entities = om_update om_empty (d_a d) (os_insert (d_e d)) (sa_attr_entities acc),
     sa_entities = os_insert (d_e d) (sa_entities acc)\<rparr>"

definition stats_init :: stats_acc where
  "stats_init = \<lparr>sa_stats = \<lparr>ps_per_attr = om_empty, ps_total_datoms = 0, ps_entity_count = 0\<rparr>,
     sa_values = om_empty, sa_attr_entities = om_empty, sa_entities = om_empty\<rparr>"

definition stats_finish :: "schema \<Rightarrow> stats_acc \<Rightarrow> planner_stats" where
  "stats_finish s acc = (sa_stats acc)\<lparr>
     ps_per_attr := fold (\<lambda>(a, st) m. om_insert a (st\<lparr>
         st_distinct_values := (case om_get (sa_values acc) a of None \<Rightarrow> 0 | Some vs \<Rightarrow> om_size vs),
         st_distinct_entities := (case om_get (sa_attr_entities acc) a of None \<Rightarrow> 0 | Some es \<Rightarrow> om_size es),
         st_protected := is_protected s a\<rparr>) m)
       (om_entries (ps_per_attr (sa_stats acc))) (ps_per_attr (sa_stats acc)),
     ps_entity_count := om_size (sa_entities acc)\<rparr>"

definition compute_stats :: "db \<Rightarrow> planner_stats" where
  "compute_stats d = stats_finish (db_schema d) (fold stats_step (datoms_at d Eavt) stats_init)"

definition planner_stats_of :: "db \<Rightarrow> planner_stats" where
  "planner_stats_of d = (case db_stats d of Some ps \<Rightarrow> ps | None \<Rightarrow> compute_stats d)"

record db_counts =
  dc_datoms :: nat
  dc_entities :: nat
  dc_attributes :: nat

definition stats_of :: "db \<Rightarrow> db_counts" where
  "stats_of d = (let ps = planner_stats_of d
     in \<lparr>dc_datoms = ps_total_datoms ps, dc_entities = ps_entity_count ps,
         dc_attributes = om_size (ps_per_attr ps)\<rparr>)"

definition mk_attribute :: "u64 \<Rightarrow> value_type \<Rightarrow> cardinality \<Rightarrow> unique option \<Rightarrow> attribute" where
  "mk_attribute n ty c u = \<lparr>at_id = eid_new (part_id PartDb) n, at_value_type = ty, at_cardinality = c,
     at_unique = u, at_is_component = False, at_indexed = (u \<noteq> None), at_no_history = False\<rparr>"

subsection \<open>Key prefixes\<close>

lemma key_prefix_full: "key_prefix order (Some e) (Some a) (Some v) = fact_key order (e, a, v)"
  by (cases order) (simp_all add: key_prefix_def)

lemma component_key_fact: "component_key order d = fact_key order (d_fact d)"
  by (simp add: component_key_def key_prefix_full d_fact_def)

lemma component_key_inject: "component_key order d = component_key order d' \<longleftrightarrow> d_fact d = d_fact d'"
  by (simp add: component_key_fact fact_enc.enc_inject)

lemma key_prefix_eavt: "prefix (key_prefix Eavt (Some e) (Some a) None) (fact_key Eavt (e', a', v) @ s) \<longleftrightarrow> e' = e \<and> a' = a"
  using u64_enc.enc_prefix_iff [of e "u64_to_be_bytes a" e' "u64_to_be_bytes a' @ encode_value v @ s"]
    u64_enc.enc_prefix_iff [of a "[]" a' "encode_value v @ s"]
  by (auto simp: key_prefix_def)

lemma key_prefix_aevt: "prefix (key_prefix Aevt None (Some a) None) (fact_key Aevt (e', a', v) @ s) \<longleftrightarrow> a' = a"
  using u64_enc.enc_prefix_iff [of a "[]" a' "u64_to_be_bytes e' @ encode_value v @ s"]
  by (auto simp: key_prefix_def)

lemma key_prefix_avet_a: "prefix (key_prefix Avet None (Some a) None) (fact_key Avet (e', a', v) @ s) \<longleftrightarrow> a' = a"
  using u64_enc.enc_prefix_iff [of a "[]" a' "encode_value v @ u64_to_be_bytes e' @ s"]
  by (auto simp: key_prefix_def)

lemma key_prefix_avet_av:
  "prefix (key_prefix Avet None (Some a) (Some v)) (fact_key Avet (e', a', v') @ s) \<longleftrightarrow> a' = a \<and> v' = v"
  using u64_enc.enc_prefix_iff [of a "encode_value v" a' "encode_value v' @ u64_to_be_bytes e' @ s"]
    value_enc.enc_prefix_iff [of v "[]" v' "u64_to_be_bytes e' @ s"]
  by (auto simp: key_prefix_def)

subsection \<open>Live facts\<close>

text \<open>A datom is live after a sequence when it is the last word on its fact and an assertion.\<close>

definition is_live :: "datom list \<Rightarrow> datom \<Rightarrow> bool" where
  "is_live ds d \<longleftrightarrow> (\<exists>pre post. ds = pre @ d # post \<and> d_added d \<and> (\<forall>d' \<in> set post. d_fact d' \<noteq> d_fact d))"

lemma is_live_Nil [simp]: "\<not> is_live [] d"
  by (simp add: is_live_def)

lemma is_live_snoc:
  "is_live (ds @ [x]) d \<longleftrightarrow> (if d_fact d = d_fact x then d = x \<and> d_added x else is_live ds d)"
proof -
  have "is_live (ds @ [x]) d \<longleftrightarrow> d = x \<and> d_added x \<or> d_fact d \<noteq> d_fact x \<and> is_live ds d" (is "?l \<longleftrightarrow> ?r")
  proof
    assume ?l
    then obtain pre post where split: "ds @ [x] = pre @ d # post" "d_added d" "\<forall>d' \<in> set post. d_fact d' \<noteq> d_fact d"
      unfolding is_live_def by blast
    show ?r
    proof (cases post rule: rev_cases)
      case Nil
      with split show ?thesis by simp
    next
      case (snoc post' y)
      with split(1) have "ds = pre @ d # post'" "y = x" by simp_all
      with split(2,3) snoc show ?thesis unfolding is_live_def by auto
    qed
  next
    assume ?r
    then show ?l
    proof
      assume "d = x \<and> d_added x"
      then show ?thesis unfolding is_live_def by (intro exI [of _ ds] exI [of _ "[]"]) simp
    next
      assume "d_fact d \<noteq> d_fact x \<and> is_live ds d"
      then obtain pre post where "ds = pre @ d # post" "d_added d"
        "\<forall>d' \<in> set post. d_fact d' \<noteq> d_fact d" "d_fact d \<noteq> d_fact x"
        unfolding is_live_def by blast
      then show ?thesis
        unfolding is_live_def by (intro exI [of _ pre] exI [of _ "post @ [x]"]) auto
    qed
  qed
  then show ?thesis by auto
qed

lemma is_live_in: "is_live ds d \<Longrightarrow> d \<in> set ds \<and> d_added d"
  by (auto simp: is_live_def)

lemma is_live_unique: "is_live ds d \<Longrightarrow> is_live ds d' \<Longrightarrow> d_fact d = d_fact d' \<Longrightarrow> d = d'"
  by (induction ds rule: rev_induct) (auto simp: is_live_snoc split: if_splits)

definition upto_t :: "u64 option \<Rightarrow> datom list \<Rightarrow> datom list" where
  "upto_t cutoff ds = filter (\<lambda>d. case cutoff of None \<Rightarrow> True | Some t \<Rightarrow> eid_sequence (d_tx d) \<le> t) ds"

lemma live_fold_get:
  "om_get (live_fold cutoff ds) k = Some d \<longleftrightarrow> is_live (upto_t cutoff ds) d \<and> k = component_key Eavt d"
proof (induction ds arbitrary: d rule: rev_induct)
  case Nil
  then show ?case by (simp add: live_fold_def upto_t_def)
next
  case (snoc x ds)
  let ?skip = "case cutoff of None \<Rightarrow> False | Some t \<Rightarrow> eid_sequence (d_tx x) > t"
  have fold: "live_fold cutoff (ds @ [x]) = (if ?skip then live_fold cutoff ds
      else if d_added x then om_insert (component_key Eavt x) x (live_fold cutoff ds)
      else om_remove (component_key Eavt x) (live_fold cutoff ds))"
    by (simp add: live_fold_def)
  show ?case
  proof (cases ?skip)
    case True
    then have "upto_t cutoff (ds @ [x]) = upto_t cutoff ds"
      by (auto simp: upto_t_def split: option.splits)
    with True snoc show ?thesis by (simp add: fold)
  next
    case False
    then have "upto_t cutoff (ds @ [x]) = upto_t cutoff ds @ [x]"
      by (auto simp: upto_t_def split: option.splits)
    with False show ?thesis
      using snoc [of d] component_key_inject [of Eavt d x]
      by (auto simp: fold is_live_snoc)
  qed
qed

lemma fold_project_get:
  assumes "\<And>d d'. d \<in> set ds \<Longrightarrow> d' \<in> set ds \<Longrightarrow> d_fact d = d_fact d' \<Longrightarrow> d = d'"
  shows "om_get (fold (\<lambda>d m. if covered s order d then om_insert (component_key order d) d m else m) ds om_empty) k
      = Some x \<longleftrightarrow> x \<in> set ds \<and> covered s order x \<and> k = component_key order x"
  using assms
proof (induction ds arbitrary: x rule: rev_induct)
  case (snoc y ds)
  then have IH: "om_get (fold (\<lambda>d m. if covered s order d then om_insert (component_key order d) d m else m) ds om_empty) k
      = Some x \<longleftrightarrow> x \<in> set ds \<and> covered s order x \<and> k = component_key order x" for x by simp
  have "x = y" if "x \<in> set ds" "component_key order x = component_key order y"
    using snoc(2) [of x y] that by (simp add: component_key_inject)
  then show ?case using IH [of x] by auto
qed simp

text \<open>What every index of a live set holds.\<close>

lemma project_get:
  assumes "\<And>k d. om_get live k = Some d \<Longrightarrow> k = component_key Eavt d"
  shows "om_get (project s live order) k = Some d \<longleftrightarrow>
    om_get live (component_key Eavt d) = Some d \<and> covered s order d \<and> k = component_key order d"
proof (cases "order = Eavt")
  case True
  then have "om_get (project s live order) k = Some d \<longleftrightarrow> om_get live k = Some d"
    and "covered s order d" by (simp_all add: project_def)
  with assms [of k d] True show ?thesis by (auto simp only:)
next
  case False
  have mem: "d \<in> set (om_values live) \<longleftrightarrow> om_get live (component_key Eavt d) = Some d" for d
    unfolding om_values_iff
  proof
    assume "\<exists>k. om_get live k = Some d"
    then obtain k where "om_get live k = Some d" ..
    with assms [OF this] show "om_get live (component_key Eavt d) = Some d" by (simp only:)
  qed (rule exI)
  have inj: "d = d'" if "d \<in> set (om_values live)" "d' \<in> set (om_values live)" "d_fact d = d_fact d'" for d d'
  proof -
    have "component_key Eavt d = component_key Eavt d'" using that(3) by (simp add: component_key_inject)
    then have "Some d = Some d'"
      using that(1,2) unfolding mem by (simp only:)
    then show ?thesis by simp
  qed
  have "project s live order =
      fold (\<lambda>d m. if covered s order d then om_insert (component_key order d) d m else m) (om_values live) om_empty"
    using False by (simp add: project_def)
  moreover have "om_get (fold (\<lambda>d m. if covered s order d then om_insert (component_key order d) d m else m)
      (om_values live) om_empty) k = Some d \<longleftrightarrow>
      d \<in> set (om_values live) \<and> covered s order d \<and> k = component_key order d"
    by (rule fold_project_get) (rule inj)
  ultimately show ?thesis by (simp only: mem)
qed

lemma current_indexes_get:
  "om_get (project s (live_fold cutoff ds) order) k = Some d \<longleftrightarrow>
     is_live (upto_t cutoff ds) d \<and> covered s order d \<and> k = component_key order d"
  by (subst project_get) (auto simp: live_fold_get)

lemma since_indexes_get:
  "om_get (project s (om_filter (\<lambda>(_, d). eid_sequence (d_tx d) > t) (live_fold None ds)) order) k = Some d \<longleftrightarrow>
     is_live ds d \<and> eid_sequence (d_tx d) > t \<and> covered s order d \<and> k = component_key order d"
proof -
  have g: "om_get (om_filter (\<lambda>(_, d). eid_sequence (d_tx d) > t) (live_fold None ds)) k = Some d \<longleftrightarrow>
      is_live ds d \<and> eid_sequence (d_tx d) > t \<and> k = component_key Eavt d" for k d
    using live_fold_get [of None ds k d]
    by (auto simp: om_get_filter upto_t_def split: option.splits)
  show ?thesis by (subst project_get) (auto simp: g)
qed

subsection \<open>Incremental indexes\<close>

lemma apply_current_project:
  "apply_current s xs (project s (live_fold None ds)) = project s (live_fold None (ds @ xs))"
proof (induction xs arbitrary: ds)
  case Nil
  then show ?case by (simp add: apply_current_def)
next
  case (Cons x xs)
  let ?step = "if d_added x then insert_datom s False x (project s (live_fold None ds))
    else remove_datom s x (project s (live_fold None ds))"
  have "?step = project s (live_fold None (ds @ [x]))"
  proof (rule ext, rule om_eqI, rule option_eqI)
    fix order k d
    have cov: "covered s order d = covered s order x" if "d_fact d = d_fact x"
      using that by (cases order) (auto simp: d_fact_def)
    have none: "upto_t None ys = ys" for ys by (simp add: upto_t_def)
    have old: "om_get (project s (live_fold None ds) order) k = Some d \<longleftrightarrow>
        is_live ds d \<and> covered s order d \<and> k = component_key order d"
      using current_indexes_get [of s None ds order k d] unfolding none .
    have new: "om_get (project s (live_fold None (ds @ [x])) order) k = Some d \<longleftrightarrow>
        (if d_fact d = d_fact x then d = x \<and> d_added x else is_live ds d) \<and> covered s order d \<and>
        k = component_key order d"
      using current_indexes_get [of s None "ds @ [x]" order k d] unfolding none is_live_snoc .
    show "om_get (?step order) k = Some d \<longleftrightarrow> om_get (project s (live_fold None (ds @ [x])) order) k = Some d"
    proof (cases "k = component_key order d")
      case True
      then have "k = component_key order x \<longleftrightarrow> d_fact d = d_fact x"
        by (simp add: component_key_inject)
      then show ?thesis
        unfolding new using True old cov
        by (cases "d_fact d = d_fact x"; cases "covered s order x")
          (simp_all add: insert_datom_def remove_datom_def eq_commute [of x d])
    next
      case False
      then have "k = component_key order x \<longrightarrow> x \<noteq> d" by blast
      with False show ?thesis
        unfolding new using old
        by (cases "covered s order x"; cases "k = component_key order x")
          (simp_all add: insert_datom_def remove_datom_def)
    qed
  qed
  then show ?case
    using Cons.IH [of "ds @ [x]"] by (simp add: apply_current_def)
qed

subsection \<open>The invariant of a database value\<close>

definition tx_bounded :: "u64 \<Rightarrow> datom list \<Rightarrow> bool" where
  "tx_bounded basis ds \<longleftrightarrow> (\<forall>x \<in> set ds. 0 < eid_sequence (d_tx x) \<and> eid_sequence (d_tx x) \<le> basis)"

definition fresh_indexes :: "db \<Rightarrow> indexes" where
  "fresh_indexes d = compute_indexes (db_view d) (db_schema d) (db_recorded d)"

definition fresh_stats :: "db \<Rightarrow> planner_stats" where
  "fresh_stats d = stats_finish (db_schema d) (fold stats_step (om_values (fresh_indexes d Eavt)) stats_init)"

definition db_wf :: "db \<Rightarrow> bool" where
  "db_wf d \<longleftrightarrow> schema_wf (db_schema d) \<and> tx_bounded (db_basis_t d) (db_recorded d) \<and>
     (\<forall>ixs. db_indexes d = Some ixs \<longrightarrow> ixs = fresh_indexes d) \<and>
     (\<forall>ps. db_stats d = Some ps \<longrightarrow> ps = fresh_stats d)"

lemma db_wf_indexes: "db_wf d \<Longrightarrow> indexes d = fresh_indexes d"
  by (cases "db_indexes d") (auto simp: db_wf_def indexes_def fresh_indexes_def)

lemma db_wf_stats: "db_wf d \<Longrightarrow> planner_stats_of d = fresh_stats d"
  using db_wf_indexes [of d]
  by (cases "db_stats d") (auto simp: db_wf_def planner_stats_of_def compute_stats_def fresh_stats_def datoms_at_def)

lemma db_wf_default: "db_wf db_default"
  by (simp add: db_wf_def db_default_def schema_wf_default tx_bounded_def)

lemma db_wf_new: "schema_wf s \<Longrightarrow> db_wf (db_new s)"
  by (simp add: db_wf_def db_new_def db_default_def schema_wf_install tx_bounded_def)

lemma db_wf_materialize: "db_wf d \<Longrightarrow> db_wf (materialize d)"
  using db_wf_indexes [of d]
  by (simp add: db_wf_def materialize_def fresh_indexes_def fresh_stats_def)

subsection \<open>Views that share a fold\<close>

lemma live_fold_cutoff:
  "(\<And>x. x \<in> set ds \<Longrightarrow> eid_sequence (d_tx x) \<le> t) \<Longrightarrow> live_fold (Some t) ds = live_fold None ds"
  unfolding live_fold_def by (rule fold_cong) (fastforce simp: fun_eq_iff not_less [symmetric])+

lemma om_filter_all:
  "(\<And>k v. om_get m k = Some v \<Longrightarrow> P (k, v)) \<Longrightarrow> om_filter P m = m"
  by (rule om_eqI) (auto simp: om_get_filter split: option.split)

lemma fold_class_indexes:
  assumes "tx_bounded (db_basis_t d) ds"
  shows "compute_indexes (fold_class d view) s ds = compute_indexes view s ds"
proof (cases view)
  case (AsOf t)
  have "live_fold (Some t) ds = live_fold None ds" if "db_basis_t d \<le> t"
    using assms that by (intro live_fold_cutoff) (fastforce simp: tx_bounded_def)
  then show ?thesis by (simp add: AsOf fold_class_def compute_indexes_def)
next
  case (Since t)
  have "om_filter (\<lambda>(_, d). 0 < eid_sequence (d_tx d)) (live_fold None ds) = live_fold None ds"
  proof (rule om_filter_all)
    fix k x
    assume "om_get (live_fold None ds) k = Some x"
    then have "x \<in> set ds" using live_fold_get [of None ds k x] is_live_in [of ds x] by (simp add: upto_t_def)
    then show "case (k, x) of (_, d) \<Rightarrow> 0 < eid_sequence (d_tx d)"
      using assms by (simp add: tx_bounded_def)
  qed
  then show ?thesis by (simp add: Since fold_class_def compute_indexes_def)
qed (simp_all add: fold_class_def)

lemma db_wf_with_view:
  assumes "db_wf d"
  shows "db_wf (with_view view d)"
proof (cases "view = db_view d")
  case True
  then show ?thesis using assms by (simp add: with_view_def)
next
  case False
  have b: "tx_bounded (db_basis_t d) (db_recorded d)" using assms by (simp add: db_wf_def)
  have same: "compute_indexes view (db_schema d) (db_recorded d) = compute_indexes (db_view d) (db_schema d) (db_recorded d)"
    if "fold_class d view = fold_class d (db_view d)"
    using fold_class_indexes [OF b, of view] fold_class_indexes [OF b, of "db_view d"] that by simp
  show ?thesis
    using assms False same by (cases "fold_class d view = fold_class d (db_view d)")
      (simp_all add: db_wf_def with_view_def fresh_indexes_def fresh_stats_def Let_def)
qed

lemma with_view_simps [simp]:
  "db_view (with_view view d) = view" "db_schema (with_view view d) = db_schema d"
  "db_recorded (with_view view d) = db_recorded d" "db_basis_t (with_view view d) = db_basis_t d"
  by (simp_all add: with_view_def Let_def)

subsection \<open>Applying a transaction\<close>

text \<open>
  Attribute metadata is stated on entities of the db partition only; elsewhere only names are.
\<close>

definition schema_placed :: "datom list \<Rightarrow> bool" where
  "schema_placed ds \<longleftrightarrow> (\<forall>x \<in> set ds. is_schema_attribute (d_a x) \<and> d_a x \<noteq> IDENT \<longrightarrow>
     eid_partition (d_e x) = part_id PartDb)"

lemma naming_only_placed: "schema_placed ds \<Longrightarrow> \<not> changes_schema ds \<Longrightarrow> naming_only ds"
  by (auto simp: schema_placed_def changes_schema_def naming_only_def)

lemma apply_transaction_simps [simp]:
  "db_basis_t (apply_transaction t ds d) = t"
  "db_recorded (apply_transaction t ds d) = db_recorded d @ ds"
  "db_view (apply_transaction t ds d) = db_view d"
  "db_stats (apply_transaction t ds d) = None"
  "db_instants (apply_transaction t ds d) = db_instants d"
  "db_complete (apply_transaction t ds d) = db_complete d"
  by (simp_all add: apply_transaction_def Let_def split: prod.split)

lemma apply_transaction_schema:
  "db_schema (apply_transaction t ds d) =
     (if touches_naming ds then fst (derive (db_resolve d) t ds (db_schema d, db_idents d)) else db_schema d)"
  by (simp add: apply_transaction_def Let_def split: prod.split)

lemma apply_transaction_indexes:
  "db_indexes (apply_transaction t ds d) = (case db_indexes d of
     Some parent \<Rightarrow> if changes_schema ds then None else Some (apply_current (db_schema d) ds parent)
   | None \<Rightarrow> None)"
  by (simp add: apply_transaction_def Let_def split: prod.split)

definition applies :: "u64 \<Rightarrow> datom list \<Rightarrow> db \<Rightarrow> bool" where
  "applies t ds d \<longleftrightarrow> db_view d = Current \<and> db_basis_t d \<le> t \<and> tx_bounded t ds \<and> schema_placed ds"

lemma db_wf_apply_transaction:
  assumes "db_wf d" and "applies t ds d"
  shows "db_wf (apply_transaction t ds d)"
proof -
  let ?n = "apply_transaction t ds d"
  have view: "db_view d = Current" and placed: "schema_placed ds"
    using assms(2) by (simp_all add: applies_def)
  have "schema_wf (db_schema ?n)"
    using assms(1) by (simp add: apply_transaction_schema schema_wf_derive db_wf_def)
  moreover have "tx_bounded t (db_recorded ?n)"
    using assms by (fastforce simp: db_wf_def applies_def tx_bounded_def)
  moreover have "ixs = fresh_indexes ?n" if "db_indexes ?n = Some ixs" for ixs
  proof -
    from that obtain parent where parent: "db_indexes d = Some parent" "\<not> changes_schema ds"
      and ixs: "ixs = apply_current (db_schema d) ds parent"
      by (auto simp: apply_transaction_indexes split: option.splits if_splits)
    have "db_schema ?n = db_schema d"
      using derive_naming_only [OF naming_only_placed [OF placed parent(2)]]
      by (simp add: apply_transaction_schema)
    moreover have "parent = project (db_schema d) (live_fold None (db_recorded d))"
      using assms(1) parent(1) view by (simp add: db_wf_def fresh_indexes_def compute_indexes_def)
    ultimately show ?thesis
      using view ixs by (simp add: fresh_indexes_def compute_indexes_def apply_current_project)
  qed
  ultimately show ?thesis by (simp add: db_wf_def)
qed

lemma db_wf_record_instant: "db_wf (record_instant t i d) = db_wf d"
  by (simp add: db_wf_def record_instant_def fresh_indexes_def fresh_stats_def)

lemma eid_sequence_tx_entity: "unat t < 2 ^ 42 \<Longrightarrow> eid_sequence (tx_entity t) = t"
  by (simp add: tx_entity_def eid_sequence_new)

lemma applies_instant:
  assumes "applies t ds d" and "0 < t" and "unat t < 2 ^ 42"
  shows "applies t (ds @ [tx_instant_datom t i]) d"
  using assms
  by (auto simp: applies_def tx_bounded_def schema_placed_def tx_instant_datom_def eid_sequence_tx_entity
      is_schema_attribute_def engine_ids)

lemma db_wf_with_transaction_at:
  assumes "db_wf d" and "applies t ds d" and "0 < t" and "unat t < 2 ^ 42"
  shows "db_wf (with_transaction_at t i ds d)" and "db_wf (with_transaction t ds d)"
  using db_wf_apply_transaction [OF assms(1)] assms(2) applies_instant [OF assms(2-4)]
  by (simp_all add: with_transaction_def with_transaction_at_def db_wf_record_instant split: option.split)

subsection \<open>Prefix scans\<close>

lemma prefix_scan:
  fixes es :: "(bytes \<times> 'v) list"
  assumes "ascending es" and "prefix p start"
  shows "takeWhile (\<lambda>e. prefix p (fst e)) (filter (\<lambda>e. start \<le> fst e) es) =
    filter (\<lambda>e. start \<le> fst e \<and> prefix p (fst e)) es"
proof -
  have "prefix p (fst x)" if "start \<le> fst x" "fst x < fst y" "prefix p (fst y)" for x y :: "bytes \<times> 'v"
    using prefix_interval [of p start "fst y" "fst x"] assms(2) that by simp
  moreover have "sorted_wrt (\<lambda>x y. start \<le> fst x \<and> fst x < fst y) (filter (\<lambda>e. start \<le> fst e) es)"
    using assms(1) by (induction es) auto
  ultimately have "takeWhile (\<lambda>e. prefix p (fst e)) (filter (\<lambda>e. start \<le> fst e) es) =
      filter (\<lambda>e. prefix p (fst e)) (filter (\<lambda>e. start \<le> fst e) es)"
    by (intro takeWhile_eq_filter_sorted
        [where R = "\<lambda>x y. start \<le> fst x \<and> fst x < fst y"]) auto
  then show ?thesis by (simp add: conj_commute)
qed

lemma datoms_prefix_filter:
  "datoms_prefix d order p = map snd (filter (\<lambda>e. prefix p (fst e)) (om_entries (indexes d order)))"
proof -
  have "filter (\<lambda>e. p \<le> fst e \<and> prefix p (fst e)) es = filter (\<lambda>e. prefix p (fst e)) es"
    for es :: "(bytes \<times> datom) list"
    by (rule filter_cong) (auto intro: prefix_imp_le)
  then show ?thesis
    using prefix_scan [of "om_entries (indexes d order)" p p]
    by (simp add: datoms_prefix_def om_range_from_filter)
qed

subsection \<open>What a view shows\<close>

definition visible :: "db \<Rightarrow> datom \<Rightarrow> bool" where
  "visible d x \<longleftrightarrow> (case db_view d of
     Current \<Rightarrow> is_live (db_recorded d) x
   | AsOf t \<Rightarrow> is_live (filter (\<lambda>y. eid_sequence (d_tx y) \<le> t) (db_recorded d)) x
   | Since t \<Rightarrow> is_live (db_recorded d) x \<and> eid_sequence (d_tx x) > t
   | History \<Rightarrow> x \<in> set (db_recorded d) \<and> \<not> no_history_attr (db_schema d) (d_a x))"

lemma indexes_get:
  assumes "db_wf d" and "db_view d \<noteq> History"
  shows "om_get (indexes d order) k = Some x \<longleftrightarrow>
    visible d x \<and> covered (db_schema d) order x \<and> k = component_key order x"
  using assms(2) current_indexes_get [of "db_schema d" _ "db_recorded d" order k x]
    since_indexes_get [of "db_schema d" _ "db_recorded d" order k x]
  unfolding db_wf_indexes [OF assms(1)] fresh_indexes_def compute_indexes_def visible_def
  by (cases "db_view d") (simp_all add: upto_t_def)

lemma visible_unique:
  "db_view d \<noteq> History \<Longrightarrow> visible d x \<Longrightarrow> visible d y \<Longrightarrow> d_fact x = d_fact y \<Longrightarrow> x = y"
  by (cases "db_view d") (auto simp: visible_def intro: is_live_unique)

text \<open>A part of an index, read off in key order.\<close>

definition scan :: "(bytes \<Rightarrow> bool) \<Rightarrow> db \<Rightarrow> index_order \<Rightarrow> datom list" where
  "scan P d order = map snd (filter (\<lambda>e. P (fst e)) (om_entries (indexes d order)))"

lemma scan_set:
  assumes "db_wf d" and "db_view d \<noteq> History"
  shows "x \<in> set (scan P d order) \<longleftrightarrow>
    visible d x \<and> covered (db_schema d) order x \<and> P (component_key order x)"
proof -
  have "x \<in> set (scan P d order) \<longleftrightarrow> (\<exists>k. om_get (indexes d order) k = Some x \<and> P k)"
    by (simp add: scan_def om_entries_iff [symmetric] image_iff Bex_def)
  then show ?thesis unfolding indexes_get [OF assms] by blast
qed

lemma scan_sorted:
  assumes "db_wf d" and "db_view d \<noteq> History"
  shows "sorted_wrt (\<lambda>x y. component_key order x < component_key order y) (scan P d order)"
proof -
  have "fst e = component_key order (snd e)" if "e \<in> set (om_entries (indexes d order))" for e
    using that indexes_get [OF assms, of order "fst e" "snd e"] by (simp add: om_entries_iff [symmetric])
  moreover have "ascending es \<Longrightarrow> (\<And>e. e \<in> set es \<Longrightarrow> fst e = component_key order (snd e)) \<Longrightarrow>
      sorted_wrt (\<lambda>x y. component_key order x < component_key order y) (map snd (filter (\<lambda>e. P (fst e)) es))"
    for es :: "(bytes \<times> datom) list"
    by (induction es) auto
  ultimately show ?thesis by (simp add: scan_def)
qed

lemma datoms_prefix_scan: "datoms_prefix d order p = scan (prefix p) d order"
  by (simp add: datoms_prefix_filter scan_def)

lemma datoms_at_scan: "datoms_at d order = scan (\<lambda>_. True) d order"
  by (simp add: datoms_at_def scan_def om_values_def)

lemma datoms_for_attribute_scan:
  "datoms_for_attribute d a = scan (prefix (key_prefix Aevt None (Some a) None)) d Aevt"
  by (simp add: datoms_for_attribute_def datoms_prefix_def Let_def flip: datoms_prefix_scan)

lemma seek_datoms_scan: "seek_datoms d order start = scan (\<lambda>k. start \<le> k) d order"
  by (simp add: seek_datoms_def scan_def om_range_from_filter)

subsection \<open>Values of an entity\<close>

lemma db_values_spec:
  assumes "db_wf d" and "db_view d \<noteq> History"
  shows "set (db_values d e a) = {v. \<exists>x. visible d x \<and> d_fact x = (e, a, v)}"
    and "sorted_wrt (<) (db_values d e a)"
proof -
  let ?p = "key_prefix Eavt (Some e) (Some a) None"
  have p: "prefix ?p (component_key Eavt x) \<longleftrightarrow> d_e x = e \<and> d_a x = a" for x
    using key_prefix_eavt [of e a "d_e x" "d_a x" "d_v x" "[]"] by (simp add: component_key_fact d_fact_def)
  have mem: "x \<in> set (scan (prefix ?p) d Eavt) \<longleftrightarrow> visible d x \<and> d_e x = e \<and> d_a x = a" for x
    using scan_set [OF assms, of x "prefix ?p" Eavt] p by simp
  have "v \<in> set (db_values d e a) \<longleftrightarrow> (\<exists>x. visible d x \<and> d_fact x = (e, a, v))" for v
    by (simp add: db_values_def datoms_prefix_scan image_iff Bex_def mem d_fact_def) blast
  then show "set (db_values d e a) = {v. \<exists>x. visible d x \<and> d_fact x = (e, a, v)}" by blast
  have less: "d_v x < d_v y" if "x \<in> set (scan (prefix ?p) d Eavt)" "y \<in> set (scan (prefix ?p) d Eavt)"
    "component_key Eavt x < component_key Eavt y" for x y
  proof -
    have "d_fact x = (e, a, d_v x)" "d_fact y = (e, a, d_v y)"
      using that mem [of x] mem [of y] by (simp_all add: d_fact_def)
    with that(3) show ?thesis by (simp add: component_key_fact value_enc.enc_order less_val_def)
  qed
  have "sorted_wrt (\<lambda>x y. d_v x < d_v y) (scan (prefix ?p) d Eavt)"
    by (rule sorted_wrt_mono_rel [OF _ scan_sorted [OF assms]]) (rule less)
  then show "sorted_wrt (<) (db_values d e a)"
    by (simp add: db_values_def datoms_prefix_scan sorted_wrt_map)
qed

end
