(* ===== verification/Db_Reads.thy ===== *)
theory Db_Reads
  imports Db
begin

text \<open>
  What the read operations of a database value return (\<open>crates/corium-db/src/lib.rs\<close>): \<open>lookup\<close>,
  \<open>values\<close>, \<open>index_range\<close>, the history view, the log reads, instants and planner statistics, each
  related to the recorded datoms, and the properties of database values.
\<close>

subsection \<open>Lookup\<close>

text \<open>The entities that hold a value of an attribute in the view.\<close>

definition holds_value :: "db \<Rightarrow> attr_id \<Rightarrow> val \<Rightarrow> entity_id \<Rightarrow> bool" where
  "holds_value d a v e \<longleftrightarrow> (\<exists>x. visible d x \<and> d_fact x = (e, a, v))"

lemma sorted_hd_least:
  assumes "sorted_wrt R (x # xs)" and "\<And>y. R x y \<Longrightarrow> f x \<le> f y" and "y \<in> set (x # xs)"
  shows "f x \<le> (f y :: 'b::linorder)"
  using assms by auto

lemma find_filter: "find P xs = (case filter P xs of [] \<Rightarrow> None | x # _ \<Rightarrow> Some x)"
  by (induction xs) auto

lemma avet_scan_av:
  assumes "db_wf d" and "db_view d \<noteq> History" and "avet_covered (db_schema d) a"
  shows "x \<in> set (scan (prefix (key_prefix Avet None (Some a) (Some v))) d Avet) \<longleftrightarrow>
    visible d x \<and> d_a x = a \<and> d_v x = v"
proof -
  have "prefix (key_prefix Avet None (Some a) (Some v)) (component_key Avet x) \<longleftrightarrow> d_a x = a \<and> d_v x = v"
    using key_prefix_avet_av [of a v "d_e x" "d_a x" "d_v x" "[]"] by (simp add: component_key_fact d_fact_def)
  then show ?thesis
    using scan_set [OF assms(1,2), of x _ Avet] assms(3) by auto
qed

lemma aevt_scan_a:
  assumes "db_wf d" and "db_view d \<noteq> History"
  shows "x \<in> set (scan (prefix (key_prefix Aevt None (Some a) None)) d Aevt) \<longleftrightarrow> visible d x \<and> d_a x = a"
proof -
  have "prefix (key_prefix Aevt None (Some a) None) (component_key Aevt x) \<longleftrightarrow> d_a x = a"
    using key_prefix_aevt [of a "d_e x" "d_a x" "d_v x" "[]"] by (simp add: component_key_fact d_fact_def)
  then show ?thesis using scan_set [OF assms, of x _ Aevt] by simp
qed

text \<open>Both branches scan the holders in ascending entity order and take the first.\<close>

lemma first_holder:
  assumes mem: "\<And>x. x \<in> set xs \<longleftrightarrow> visible d x \<and> d_a x = a \<and> d_v x = v"
    and sorted: "sorted_wrt (\<lambda>x y. component_key order x < component_key order y) xs"
    and order: "\<And>x y. d_a x = d_a y \<Longrightarrow> d_v x = d_v y \<Longrightarrow> component_key order x < component_key order y \<Longrightarrow> d_e x \<le> d_e y"
  shows "(case xs of [] \<Rightarrow> None | x # _ \<Rightarrow> Some (d_e x)) = Some e \<longleftrightarrow>
    holds_value d a v e \<and> (\<forall>e'. holds_value d a v e' \<longrightarrow> e \<le> e')"
proof -
  have holds: "holds_value d a v e \<longleftrightarrow> (\<exists>x \<in> set xs. d_e x = e)" for e
    unfolding holds_value_def mem Bex_def d_fact_def by auto
  have least: "d_e x \<le> d_e y" if xs: "xs = x # ys" and y: "y \<in> set xs" for x ys y
  proof (cases "y = x")
    case False
    then have "component_key order x < component_key order y" using sorted xs y by auto
    moreover have "x \<in> set xs" using xs by simp
    ultimately show ?thesis using order [of x y] mem [of x] mem [of y] y by auto
  qed simp
  show ?thesis
  proof (cases xs)
    case Nil
    then show ?thesis using holds by simp
  next
    case (Cons x ys)
    have "holds_value d a v (d_e x)" using holds Cons by auto
    moreover have "d_e x \<le> e'" if "holds_value d a v e'" for e'
      using that least [OF Cons] unfolding holds by blast
    ultimately show ?thesis using Cons by (auto intro: order_antisym)
  qed
qed

lemma lookup_spec:
  assumes "db_wf d" and "db_view d \<noteq> History"
  shows "lookup d a v = Some e \<longleftrightarrow> holds_value d a v e \<and> (\<forall>e'. holds_value d a v e' \<longrightarrow> e \<le> e')"
proof (cases "avet_covered (db_schema d) a")
  case True
  let ?xs = "scan (prefix (key_prefix Avet None (Some a) (Some v))) d Avet"
  have ord: "d_e x \<le> d_e y" if "d_a x = d_a y" "d_v x = d_v y" "component_key Avet x < component_key Avet y" for x y
    using that by (simp add: component_key_fact d_fact_def u64_enc.enc_order)
  have "lookup d a v = (case ?xs of [] \<Rightarrow> None | x # _ \<Rightarrow> Some (d_e x))"
    using True by (simp add: lookup_def datoms_prefix_scan)
  then show ?thesis
    using first_holder [OF avet_scan_av [OF assms True] scan_sorted [OF assms] ord] by simp
next
  case False
  let ?ys = "scan (prefix (key_prefix Aevt None (Some a) None)) d Aevt"
  let ?xs = "filter (\<lambda>x. d_v x = v) ?ys"
  have ord: "d_e x \<le> d_e y" if "d_a x = d_a y" "d_v x = d_v y" "component_key Aevt x < component_key Aevt y" for x y
    using that by (auto simp: component_key_fact d_fact_def u64_enc.enc_less)
  have mem: "x \<in> set ?xs \<longleftrightarrow> visible d x \<and> d_a x = a \<and> d_v x = v" for x
    using aevt_scan_a [OF assms, of x a] by auto
  have sorted: "sorted_wrt (\<lambda>x y. component_key Aevt x < component_key Aevt y) ?xs"
    by (rule sorted_wrt_filter [OF scan_sorted [OF assms]])
  have "lookup d a v = (case ?xs of [] \<Rightarrow> None | x # _ \<Rightarrow> Some (d_e x))"
    using False by (simp add: lookup_def datoms_prefix_scan find_filter split: list.split)
  then show ?thesis
    using first_holder [OF mem sorted ord] by simp
qed

lemma lookup_None:
  assumes "db_wf d" and "db_view d \<noteq> History"
  shows "lookup d a v = None \<longleftrightarrow> (\<forall>e. \<not> holds_value d a v e)"
proof
  assume none: "lookup d a v = None"
  show "\<forall>e. \<not> holds_value d a v e"
  proof (intro allI notI)
    fix e
    assume "holds_value d a v e"
    then have "holds_value d a v (LEAST e. holds_value d a v e) \<and>
        (\<forall>e'. holds_value d a v e' \<longrightarrow> (LEAST e. holds_value d a v e) \<le> e')"
      by (metis LeastI Least_le)
    then show False using lookup_spec [OF assms] none by (metis option.distinct(1))
  qed
next
  assume "\<forall>e. \<not> holds_value d a v e"
  then show "lookup d a v = None" using lookup_spec [OF assms] by (metis not_None_eq)
qed

subsection \<open>Range scans\<close>

definition in_range :: "val option \<Rightarrow> val option \<Rightarrow> val \<Rightarrow> bool" where
  "in_range start stop v \<longleftrightarrow> (case start of None \<Rightarrow> True | Some s \<Rightarrow> s \<le> v)
     \<and> (case stop of None \<Rightarrow> True | Some s \<Rightarrow> v < s)"

lemma avet_start_key:
  "key_prefix Avet None (Some a) start \<le> fact_key Avet (e, a, v) \<longleftrightarrow>
    (case start of None \<Rightarrow> True | Some s \<Rightarrow> s \<le> v)"
proof (cases start)
  case None
  then show ?thesis using prefix_imp_le [of "key_prefix Avet None (Some a) None" "fact_key Avet (e, a, v)"]
      key_prefix_avet_a [of a e a v "[]"] by simp
next
  case (Some s)
  have "u64_to_be_bytes a @ encode_value s \<le> u64_to_be_bytes a @ encode_value v @ u64_to_be_bytes e \<longleftrightarrow> s \<le> v"
    using value_enc.enc_less [of s "[]" v "u64_to_be_bytes e"] value_enc.enc_append_inject [of s "[]" v "u64_to_be_bytes e"]
    prefix_imp_le [of "encode_value v" "encode_value v @ u64_to_be_bytes e"]
    by (cases "s = v") (simp_all add: order_le_less less_val_def)
  then show ?thesis using Some by (simp add: key_prefix_def)
qed

lemma index_range_spec:
  assumes "db_wf d" and "db_view d \<noteq> History" and "index_range d a start stop = Inr xs"
  shows "set xs = {x. visible d x \<and> avet_covered (db_schema d) a \<and> d_a x = a \<and> in_range start stop (d_v x)}"
    and "sorted_wrt (\<lambda>x y. (d_v x, d_e x) < (d_v y, d_e y)) xs"
proof -
  let ?p = "key_prefix Avet None (Some a) None" and ?s = "key_prefix Avet None (Some a) start"
  let ?ys = "scan (\<lambda>k. ?s \<le> k \<and> prefix ?p k) d Avet"
  have "prefix ?p ?s" by (cases start) (simp_all add: key_prefix_def)
  then have xs: "xs = takeWhile (\<lambda>x. case stop of None \<Rightarrow> True | Some s \<Rightarrow> d_v x < s) ?ys"
    using assms(3) prefix_scan [of "om_entries (indexes d Avet)" ?p ?s]
    by (simp add: index_range_def Let_def om_range_from_filter scan_def split: if_splits)
  have mem: "x \<in> set ?ys \<longleftrightarrow> visible d x \<and> avet_covered (db_schema d) a \<and> d_a x = a \<and>
      (case start of None \<Rightarrow> True | Some s \<Rightarrow> s \<le> d_v x)" for x
    using scan_set [OF assms(1,2), of x "\<lambda>k. ?s \<le> k \<and> prefix ?p k" Avet]
      key_prefix_avet_a [of a "d_e x" "d_a x" "d_v x" "[]"] avet_start_key [of a start "d_e x" "d_v x"]
    by (auto simp: component_key_fact d_fact_def)
  have less: "(d_v x, d_e x) < (d_v y, d_e y)" if "x \<in> set ?ys" "y \<in> set ?ys"
    "component_key Avet x < component_key Avet y" for x y
  proof -
    have "d_a x = a" "d_a y = a" using that mem by auto
    with that(3) show ?thesis
      by (simp add: component_key_fact d_fact_def u64_enc.enc_less value_enc.enc_less u64_enc.enc_order
          less_val_def less_eq_val_def) blast
  qed
  have sorted: "sorted_wrt (\<lambda>x y. (d_v x, d_e x) < (d_v y, d_e y)) ?ys"
    by (rule sorted_wrt_mono_rel [OF _ scan_sorted [OF assms(1,2)]]) (rule less)
  have filt: "xs = filter (\<lambda>x. case stop of None \<Rightarrow> True | Some s \<Rightarrow> d_v x < s) ?ys"
    unfolding xs by (rule takeWhile_eq_filter_sorted [OF sorted]) (auto split: option.splits)
  show "set xs = {x. visible d x \<and> avet_covered (db_schema d) a \<and> d_a x = a \<and> in_range start stop (d_v x)}"
    unfolding filt set_filter mem in_range_def by auto
  show "sorted_wrt (\<lambda>x y. (d_v x, d_e x) < (d_v y, d_e y)) xs"
    unfolding filt by (rule sorted_wrt_filter [OF sorted])
qed

subsection \<open>The history view\<close>

lemma datom_key_inject_tx:
  assumes "unat (d_tx x) < 2 ^ 63" and "unat (d_tx y) < 2 ^ 63"
  shows "datom_key x order = datom_key y order \<longleftrightarrow> x = y"
proof
  assume eq: "datom_key x order = datom_key y order"
  have "tx_added_word (d_tx x) (d_added x) = tx_added_word (d_tx y) (d_added y)" and fct: "d_fact x = d_fact y"
    using eq by (simp_all add: datom_key_def fact_enc.enc_append_inject encode_tx_added_def u64_enc.enc_inject)
  then have "d_tx x = d_tx y \<and> d_added x = d_added y"
    using drop_bit_tx_added_word [OF assms(1)] drop_bit_tx_added_word [OF assms(2)] and_one_tx_added_word by metis
  then show "x = y" using fct by (simp add: d_fact_def)
qed simp

lemma history_indexes_get:
  assumes "\<forall>x \<in> set ds. unat (d_tx x) < 2 ^ 63"
  shows "om_get (compute_indexes History s ds order) k = Some x \<longleftrightarrow>
    x \<in> set ds \<and> \<not> no_history_attr s (d_a x) \<and> covered s order x \<and> k = datom_key x order"
  using assms
proof (induction ds arbitrary: x rule: rev_induct)
  case (snoc y ds)
  have inj: "x \<in> set ds \<Longrightarrow> datom_key x order = datom_key y order \<longleftrightarrow> x = y"
    using snoc.prems by (intro datom_key_inject_tx) auto
  show ?case
    using snoc.IH [of x] snoc.prems inj
    by (auto simp: compute_indexes_def insert_datom_def split: if_splits)
qed (simp add: compute_indexes_def)

lemma datoms_at_visible:
  assumes "db_wf d" and "\<forall>x \<in> set (db_recorded d). unat (d_tx x) < 2 ^ 63"
  shows "set (datoms_at d order) = {x. visible d x \<and> covered (db_schema d) order x}"
proof (cases "db_view d = History")
  case True
  have "x \<in> set (datoms_at d order) \<longleftrightarrow> (\<exists>k. om_get (indexes d order) k = Some x)" for x
    by (simp add: datoms_at_def om_values_def om_entries_iff [symmetric] image_iff Bex_def)
  then show ?thesis
    unfolding db_wf_indexes [OF assms(1)] fresh_indexes_def True history_indexes_get [OF assms(2)]
    by (auto simp: visible_def True)
next
  case False
  then show ?thesis using scan_set [OF assms(1) False] by (auto simp: datoms_at_scan)
qed

subsection \<open>The tail of the log and the log by transaction\<close>

definition tx_ordered :: "datom list \<Rightarrow> bool" where
  "tx_ordered ds \<longleftrightarrow> sorted_wrt (\<lambda>x y. eid_sequence (d_tx x) \<le> eid_sequence (d_tx y)) ds"

lemma recorded_since_filter:
  assumes "tx_ordered (db_recorded d)"
  shows "recorded_since d t = filter (\<lambda>x. eid_sequence (d_tx x) > t) (db_recorded d)"
proof -
  have "takeWhile (\<lambda>x. eid_sequence (d_tx x) > t) (rev (db_recorded d)) =
      filter (\<lambda>x. eid_sequence (d_tx x) > t) (rev (db_recorded d))"
    using assms
    by (intro takeWhile_eq_filter_sorted [where R = "\<lambda>y x. eid_sequence (d_tx x) \<le> eid_sequence (d_tx y)"])
      (auto simp: tx_ordered_def sorted_wrt_rev)
  then show ?thesis by (simp add: recorded_since_def rev_filter)
qed

definition in_span :: "u64 \<Rightarrow> u64 option \<Rightarrow> datom \<Rightarrow> bool" where
  "in_span start stop x \<longleftrightarrow> start \<le> eid_sequence (d_tx x) \<and>
     (case stop of None \<Rightarrow> True | Some stop \<Rightarrow> eid_sequence (d_tx x) < stop)"

lemma tx_range_fold_get:
  "om_get (fold (\<lambda>x by_t.
     let t = eid_sequence (d_tx x)
     in if t \<ge> start \<and> (case stop of None \<Rightarrow> True | Some stop \<Rightarrow> t < stop)
        then om_insert t ((case om_get by_t t of None \<Rightarrow> [] | Some xs \<Rightarrow> xs) @ [x]) by_t
        else by_t) ds om_empty) t =
   (let xs = filter (\<lambda>x. eid_sequence (d_tx x) = t \<and> in_span start stop x) ds in if xs = [] then None else Some xs)"
proof (induction ds rule: rev_induct)
  case (snoc x ds)
  then show ?case
    by (cases "in_span start stop x")
      (auto simp only: Let_def in_span_def [symmetric] fold_append comp_def fold.simps id_apply filter_append
        filter.simps om_get_simps if_True if_False append_Nil append_Nil2 split: option.splits if_splits)
qed simp

lemma tx_range_mem:
  "(t, xs) \<in> set (tx_range d start stop) \<longleftrightarrow> xs \<noteq> [] \<and>
     xs = filter (\<lambda>x. eid_sequence (d_tx x) = t \<and> in_span start stop x) (db_recorded d)"
  unfolding tx_range_def om_entries_iff tx_range_fold_get by (auto simp: Let_def)

lemma tx_range_ascending: "ascending (tx_range d start stop)"
  by (simp add: tx_range_def)

subsection \<open>Transaction instants\<close>

definition instants_at_most :: "tx_instants \<Rightarrow> i64 \<Rightarrow> u64 set" where
  "instants_at_most ti instant = {t. \<exists>i. ti_instant ti t = Some i \<and> sint i \<le> sint instant}"

text \<open>Instants never run backwards, and the inverse map holds the last transaction of an instant.\<close>

definition instants_wf :: "tx_instants \<Rightarrow> bool" where
  "instants_wf ti \<longleftrightarrow>
     (\<forall>t t' i i'. ti_instant ti t = Some i \<longrightarrow> ti_instant ti t' = Some i' \<longrightarrow> t \<le> t' \<longrightarrow> sint i \<le> sint i') \<and>
     (\<forall>n t. om_get (ti_by_instant ti) n = Some t \<longrightarrow> (\<exists>i. ti_instant ti t = Some i \<and> sint i = n)) \<and>
     (\<forall>t i. ti_instant ti t = Some i \<longrightarrow> (\<exists>t'. om_get (ti_by_instant ti) (sint i) = Some t' \<and> t \<le> t'))"

lemma sorted_wrt_last: "sorted_wrt R xs \<Longrightarrow> x \<in> set xs \<Longrightarrow> x = last xs \<or> R x (last xs)"
  by (induction xs) auto

lemma instants_wf_default: "instants_wf instants_default"
  by (simp add: instants_wf_def ti_instant_def instants_default_def)

lemma ti_instant_record: "ti_instant (instants_record t i ti) t' = (if t' = t then Some i else ti_instant ti t')"
  by (simp add: ti_instant_def instants_record_def Let_def)

lemma by_instant_record:
  "om_get (ti_by_instant (instants_record t i ti)) n =
    (if n = sint i then Some (case om_get (ti_by_instant ti) n of None \<Rightarrow> t | Some held \<Rightarrow> max held t)
     else om_get (ti_by_instant ti) n)"
  by (auto simp: instants_record_def Let_def max_def split: option.splits)

lemma instants_wf_record:
  assumes "instants_wf ti" and "\<And>t' i'. ti_instant ti t' = Some i' \<Longrightarrow> t' < t \<and> sint i' \<le> sint i"
  shows "instants_wf (instants_record t i ti)"
proof -
  note wf = assms(1) [unfolded instants_wf_def]
  have 1: "sint j \<le> sint j'" if "ti_instant (instants_record t i ti) u = Some j"
    "ti_instant (instants_record t i ti) u' = Some j'" "u \<le> u'" for u u' j j'
    using that wf assms(2) [of u j] assms(2) [of u' j']
    by (auto simp: ti_instant_record split: if_splits)
  have 2: "\<exists>j. ti_instant (instants_record t i ti) u = Some j \<and> sint j = n"
    if "om_get (ti_by_instant (instants_record t i ti)) n = Some u" for n u
  proof (cases "om_get (ti_by_instant ti) n")
    case None
    then show ?thesis using that by (auto simp: by_instant_record ti_instant_record split: if_splits)
  next
    case (Some held)
    then obtain j where "ti_instant ti held = Some j" "sint j = n" using wf by blast
    with Some show ?thesis using that assms(2) [of held j]
      by (auto simp: by_instant_record ti_instant_record max_def split: if_splits)
  qed
  have 3: "\<exists>u'. om_get (ti_by_instant (instants_record t i ti)) (sint j) = Some u' \<and> u \<le> u'"
    if "ti_instant (instants_record t i ti) u = Some j" for u j
  proof (cases "u = t")
    case True
    then show ?thesis using that by (auto simp: by_instant_record ti_instant_record split: option.split)
  next
    case False
    then have "ti_instant ti u = Some j" using that by (simp add: ti_instant_record)
    then obtain u' where "om_get (ti_by_instant ti) (sint j) = Some u'" "u \<le> u'"
      using wf by blast
    then show ?thesis by (auto simp: by_instant_record max_def)
  qed
  show ?thesis unfolding instants_wf_def using 1 2 3 by blast
qed

lemma t_at_spec:
  assumes "instants_wf ti"
  shows "if instants_at_most ti instant = {} then t_at ti instant = 0
    else t_at ti instant \<in> instants_at_most ti instant \<and> (\<forall>t \<in> instants_at_most ti instant. t \<le> t_at ti instant)"
proof -
  note wf = assms [unfolded instants_wf_def]
  let ?es = "om_entries (ti_by_instant ti)"
  let ?us = "takeWhile (\<lambda>e. fst e \<le> sint instant) ?es"
  have us: "?us = filter (\<lambda>e. fst e \<le> sint instant) ?es"
    by (rule takeWhile_eq_filter_sorted [where R = "\<lambda>e e'. fst e < fst e'"]) (auto simp: sorted_wrt_map [symmetric])
  have mem: "(n, t) \<in> set ?us \<longleftrightarrow> om_get (ti_by_instant ti) n = Some t \<and> n \<le> sint instant" for n t
    unfolding us by (auto simp: om_entries_iff)
  show ?thesis
  proof (cases "?us = []")
    case True
    have "instants_at_most ti instant = {}"
    proof (rule ccontr)
      assume "instants_at_most ti instant \<noteq> {}"
      then obtain t i where "ti_instant ti t = Some i" "sint i \<le> sint instant" by (auto simp: instants_at_most_def)
      then obtain t' where "(sint i, t') \<in> set ?us" using wf mem by blast
      with True show False by simp
    qed
    then show ?thesis using True by (simp add: t_at_def Let_def)
  next
    case False
    obtain n t where l: "last ?us = (n, t)" by fastforce
    have t: "t_at ti instant = t" using False l by (simp add: t_at_def Let_def)
    have "(n, t) \<in> set ?us" using False l last_in_set by metis
    then obtain i where i: "ti_instant ti t = Some i" "sint i = n" "n \<le> sint instant"
      using mem wf by blast
    have max: "n' \<le> n" if "(n', t') \<in> set ?us" for n' t'
    proof -
      have "sorted_wrt (\<lambda>e e'. fst e < fst e') ?us" unfolding us by (rule sorted_wrt_filter) (simp add: sorted_wrt_map [symmetric])
      then show ?thesis using sorted_wrt_last [OF _ that] l by fastforce
    qed
    have upper: "t' \<le> t" if t': "t' \<in> instants_at_most ti instant" for t'
    proof -
      obtain i' where i': "ti_instant ti t' = Some i'" "sint i' \<le> sint instant" using t' by (auto simp: instants_at_most_def)
      then obtain u where u: "om_get (ti_by_instant ti) (sint i') = Some u" "t' \<le> u" using wf by blast
      then have le: "sint i' \<le> n" using max mem i' by blast
      show ?thesis
      proof (rule ccontr)
        assume "\<not> t' \<le> t"
        then have "n \<le> sint i'" using wf i i' by (metis linorder_linear)
        then have "sint i' = n" using le by simp
        then have "u = t" using u \<open>(n, t) \<in> set ?us\<close> mem by auto
        with u \<open>\<not> t' \<le> t\<close> show False by simp
      qed
    qed
    have "t \<in> instants_at_most ti instant" using i by (auto simp: instants_at_most_def)
    then show ?thesis using t upper by auto
  qed
qed

subsection \<open>Planner statistics\<close>

lemma om_get_update: "om_get (om_update dflt k f m) k' =
    (if k' = k then Some (f (case om_get m k of None \<Rightarrow> dflt | Some v \<Rightarrow> v)) else om_get m k')"
  by (simp add: om_update_def)

lemma fold_update_group:
  assumes "\<And>xs x. g (xs @ [x]) = f x (g xs)" and "g [] = dflt"
  shows "om_get (fold (\<lambda>x. om_update dflt (key x) (f x)) ds om_empty) k =
    (let xs = filter (\<lambda>x. key x = k) ds in if xs = [] then None else Some (g xs))"
proof (induction ds rule: rev_induct)
  case (snoc x ds)
  have "g [x] = f x dflt" using assms(1) [of "[]" x] assms(2) by simp
  with snoc show ?case by (auto simp: om_get_update Let_def assms)
qed simp

lemma stats_fold:
  "fold stats_step ds stats_init =
    \<lparr>sa_stats = \<lparr>ps_per_attr = fold (\<lambda>d. om_update attr_stats_default (d_a d) (\<lambda>st. st\<lparr>st_count := st_count st + 1\<rparr>)) ds om_empty,
       ps_total_datoms = length ds, ps_entity_count = 0\<rparr>,
     sa_values = fold (\<lambda>d. om_update om_empty (d_a d) (os_insert (d_v d))) ds om_empty,
     sa_attr_entities = fold (\<lambda>d. om_update om_empty (d_a d) (os_insert (d_e d))) ds om_empty,
     sa_entities = fold (\<lambda>d. os_insert (d_e d)) ds om_empty\<rparr>"
  by (induction ds rule: rev_induct) (simp_all add: stats_init_def stats_step_def)

lemma os_elems_fold: "set (os_elems (fold (\<lambda>d. os_insert (f d)) ds om_empty)) = f ` set ds"
proof -
  have "os_member a (fold (\<lambda>d. os_insert (f d)) ds om_empty) \<longleftrightarrow> a \<in> f ` set ds" for a
    by (induction ds rule: rev_induct) (auto simp: os_member_simps)
  then show ?thesis by auto
qed

lemma fold_om_insert_map:
  "distinct (map fst es) \<Longrightarrow> om_get (fold (\<lambda>(k, v). om_insert k (h k v)) es m) k =
    (case map_of es k of None \<Rightarrow> om_get m k | Some v \<Rightarrow> Some (h k v))"
proof (induction es arbitrary: m)
  case (Cons e es)
  obtain j u where e: "e = (j, u)" by fastforce
  have "map_of es j = None" using Cons.prems by (simp add: e map_of_eq_None_iff)
  then show ?case using Cons by (auto simp: e split: option.splits)
qed simp

definition attr_stats_of :: "schema \<Rightarrow> attr_id \<Rightarrow> datom list \<Rightarrow> attr_stats" where
  "attr_stats_of s a xs = \<lparr>st_count = length xs, st_distinct_values = card (d_v ` set xs),
     st_distinct_entities = card (d_e ` set xs), st_protected = is_protected s a\<rparr>"

lemma stats_finish_get:
  "om_get (ps_per_attr (stats_finish s (fold stats_step ds stats_init))) a =
    (let xs = filter (\<lambda>x. d_a x = a) ds in if xs = [] then None else Some (attr_stats_of s a xs))"
proof -
  let ?acc = "fold stats_step ds stats_init"
  have cnt: "om_get (ps_per_attr (sa_stats ?acc)) a = (let xs = filter (\<lambda>x. d_a x = a) ds
      in if xs = [] then None else Some (attr_stats_default\<lparr>st_count := length xs\<rparr>))" for a
    using fold_update_group [of "\<lambda>xs. attr_stats_default\<lparr>st_count := length xs\<rparr>"
        "\<lambda>_ st. st\<lparr>st_count := st_count st + 1\<rparr>" attr_stats_default d_a ds a]
    by (simp add: stats_fold attr_stats_default_def)
  have vals: "om_get (sa_values ?acc) a = (let xs = filter (\<lambda>x. d_a x = a) ds
      in if xs = [] then None else Some (fold (\<lambda>d. os_insert (d_v d)) xs om_empty))"
    unfolding stats_fold by (simp add: fold_update_group [where g = "\<lambda>xs. fold (\<lambda>d. os_insert (d_v d)) xs om_empty"])
  have ents: "om_get (sa_attr_entities ?acc) a = (let xs = filter (\<lambda>x. d_a x = a) ds
      in if xs = [] then None else Some (fold (\<lambda>d. os_insert (d_e d)) xs om_empty))"
    unfolding stats_fold by (simp add: fold_update_group [where g = "\<lambda>xs. fold (\<lambda>d. os_insert (d_e d)) xs om_empty"])
  show ?thesis
    using vals ents cnt [of a]
    by (simp add: stats_finish_def fold_om_insert_map [OF ascending_distinct [OF om_entries_ascending]]
        om_get_entries [symmetric] attr_stats_of_def attr_stats_default_def os_size_card os_elems_fold Let_def)
qed

lemma stats_finish_totals:
  "ps_total_datoms (stats_finish s (fold stats_step ds stats_init)) = length ds"
  "ps_entity_count (stats_finish s (fold stats_step ds stats_init)) = card (d_e ` set ds)"
  by (simp_all add: stats_finish_def stats_fold os_size_card os_elems_fold)

lemma stats_finish_attrs:
  "om_size (ps_per_attr (stats_finish s (fold stats_step ds stats_init))) = card (d_a ` set ds)"
  unfolding om_size_card stats_finish_get
  by (rule arg_cong [where f = card]) (auto simp: Let_def filter_empty_conv)

lemma db_wf_stats_datoms:
  "db_wf d \<Longrightarrow> planner_stats_of d = stats_finish (db_schema d) (fold stats_step (datoms d) stats_init)"
  by (simp add: db_wf_stats fresh_stats_def datoms_def datoms_at_def db_wf_indexes)

lemma estimate_positive: "estimate ps e a v \<ge> 1"
  by (simp add: estimate_def split: option.split)

lemma attr_stats_of_bounds:
  "st_distinct_values (attr_stats_of s a xs) \<le> length xs" "st_distinct_entities (attr_stats_of s a xs) \<le> length xs"
  by (simp_all add: attr_stats_of_def card_image_le [THEN order_trans, OF finite_set card_length])

subsection \<open>Properties\<close>

text \<open>A small database the witnesses use: one indexed attribute, two transactions.\<close>

definition wit_attr :: attribute where
  "wit_attr = \<lparr>at_id = 70, at_value_type = LongT, at_cardinality = CardOne,
     at_unique = None, at_is_component = False, at_indexed = True, at_no_history = False\<rparr>"

definition wit_datom :: "u64 \<Rightarrow> u64 \<Rightarrow> u64 \<Rightarrow> bool \<Rightarrow> datom" where
  "wit_datom e n t added = \<lparr>d_e = e, d_a = 70, d_v = Long n, d_tx = tx_entity t, d_added = added\<rparr>"

definition wit_db :: db where
  "wit_db = apply_transaction 2 [wit_datom 9 5 2 False, wit_datom 8 6 2 True]
     (materialize (apply_transaction 1 [wit_datom 9 5 1 True, wit_datom 7 6 1 True]
        (db_default\<lparr>db_schema := schema_insert wit_attr schema_default\<rparr>)))"

text \<open>
  C16. A database value stays coherent: every cached index and statistic is what a fresh fold of
  the recorded datoms under the value's own view and schema gives, for reads, for moves between
  views (which keep the cells of a view with the same fold) and for committing transactions.
\<close>

theorem db_operations_keep_wf:
  assumes "db_wf d"
  shows "db_wf (materialize d) \<and> db_wf (with_view view d) \<and>
    (applies t ds d \<longrightarrow> 0 < t \<longrightarrow> unat t < 2 ^ 42 \<longrightarrow>
       db_wf (with_transaction_at t i ds d) \<and> db_wf (with_transaction t ds d))"
  using db_wf_materialize [OF assms] db_wf_with_view [OF assms] db_wf_with_transaction_at [OF assms]
  by blast

lemma eid_sequence_tx_entity_small:
  "eid_sequence (tx_entity 1) = 1" "eid_sequence (tx_entity 2) = 2" "eid_sequence (tx_entity 3) = 3"
  by (simp_all add: eid_sequence_tx_entity)

lemma wit_applies:
  "db_view d = Current \<Longrightarrow> db_basis_t d \<le> t \<Longrightarrow> t \<in> {1, 2, 3} \<Longrightarrow>
    applies t [wit_datom e n t b, wit_datom e' n' t b'] d"
  by (auto simp: applies_def tx_bounded_def schema_placed_def wit_datom_def eid_sequence_tx_entity_small
      is_schema_attribute_def engine_ids)

lemma wit_db_wf: "db_wf wit_db"
proof -
  have "db_wf (db_default\<lparr>db_schema := schema_insert wit_attr schema_default\<rparr>)"
    by (simp add: db_wf_def db_default_def tx_bounded_def schema_wf_insert schema_wf_default wit_attr_def)
  then show ?thesis unfolding wit_db_def
    by (intro db_wf_apply_transaction db_wf_materialize wit_applies)
      (simp_all add: db_default_def materialize_def)
qed

lemma wit_db_simps:
  "db_view wit_db = Current" "db_basis_t wit_db = 2"
  "db_recorded wit_db = [wit_datom 9 5 1 True, wit_datom 7 6 1 True, wit_datom 9 5 2 False, wit_datom 8 6 2 True]"
  by (simp_all add: wit_db_def materialize_def db_default_def)

lemma is_live_Cons:
  "is_live (x # ds) d \<longleftrightarrow> is_live ds d \<or> d = x \<and> d_added x \<and> (\<forall>y \<in> set ds. d_fact y \<noteq> d_fact x)"
  unfolding is_live_def by (auto simp: Cons_eq_append_conv)

lemma wit_datom_simps [simp]:
  "d_fact (wit_datom e n t b) = (e, 70, Long n)" "d_added (wit_datom e n t b) = b"
  "d_tx (wit_datom e n t b) = tx_entity t" "d_v (wit_datom e n t b) = Long n" "d_e (wit_datom e n t b) = e"
  by (simp_all add: wit_datom_def d_fact_def)

lemma wit_db_live:
  "is_live (db_recorded wit_db) x \<longleftrightarrow> x = wit_datom 8 6 2 True \<or> x = wit_datom 7 6 1 True"
  "is_live (filter (\<lambda>y. eid_sequence (d_tx y) \<le> 1) (db_recorded wit_db)) x \<longleftrightarrow>
     x = wit_datom 7 6 1 True \<or> x = wit_datom 9 5 1 True"
  by (simp_all add: wit_db_simps is_live_Cons eid_sequence_tx_entity_small word_le_nat_alt)

theorem db_operations_keep_wf_witness:
  "db_wf (with_transaction_at 3 44 [wit_datom 1 2 3 True, wit_datom 1 3 3 True] wit_db)"
  using db_operations_keep_wf [OF wit_db_wf, of History 3 "[wit_datom 1 2 3 True, wit_datom 1 3 3 True]" 44]
    wit_applies [of wit_db 3]
  by (simp add: wit_db_simps)

text \<open>
  C21. What the covering indexes of a view hold. The current view shows the facts whose last
  recorded datom is an assertion; \<open>as-of t\<close> the same of the datoms up to \<open>t\<close>; \<open>since t\<close> the current
  facts asserted after \<open>t\<close>; the history every recorded datom of attributes that keep history.
  AVET holds those of indexed or unique attributes, VAET those with a reference value.
\<close>

theorem view_contents:
  assumes "db_wf d" and "\<forall>x \<in> set (db_recorded d). unat (d_tx x) < 2 ^ 63"
  shows "set (datoms_at (with_view view d) order) =
    {x. covered (db_schema d) order x \<and> (case view of
        Current \<Rightarrow> is_live (db_recorded d) x
      | AsOf t \<Rightarrow> is_live (filter (\<lambda>y. eid_sequence (d_tx y) \<le> t) (db_recorded d)) x
      | Since t \<Rightarrow> is_live (db_recorded d) x \<and> eid_sequence (d_tx x) > t
      | History \<Rightarrow> x \<in> set (db_recorded d) \<and> \<not> no_history_attr (db_schema d) (d_a x))}"
  using datoms_at_visible [OF db_wf_with_view [OF assms(1)], of view order] assms(2)
  by (cases view) (auto simp: visible_def)

lemma unat_tx_entity: "unat t < 2 ^ 42 \<Longrightarrow> unat (tx_entity t) < 2 ^ 63"
  by (simp add: tx_entity_def unat_eid_new)

theorem view_contents_witness:
  "wit_datom 9 5 1 True \<in> set (datoms_at (with_view (AsOf 1) wit_db) Eavt) \<and>
   wit_datom 9 5 1 True \<notin> set (datoms_at (with_view Current wit_db) Eavt)"
proof -
  have tx: "\<forall>x \<in> set (db_recorded wit_db). unat (d_tx x) < 2 ^ 63"
    using unat_tx_entity [of 1] unat_tx_entity [of 2] by (simp add: wit_db_simps wit_datom_def)
  show ?thesis
    unfolding view_contents [OF wit_db_wf tx]
    by (simp add: wit_db_live) (simp add: wit_datom_def)
qed

text \<open>
  \<open>values\<close> returns the values the view shows for an entity and attribute, each once and in
  value order. \<open>lookup\<close> returns the least entity holding a value, and \<open>None\<close> exactly when none
  does, whether the AVET index answers or the attribute scan does.
\<close>

theorem values_and_lookup:
  assumes "db_wf d" and "db_view d \<noteq> History"
  shows "set (db_values d e a) = {v. holds_value d a v e} \<and> sorted_wrt (<) (db_values d e a) \<and>
    (lookup d a v = None \<longleftrightarrow> (\<forall>e'. \<not> holds_value d a v e')) \<and>
    (lookup d a v = Some e \<longleftrightarrow> holds_value d a v e \<and> (\<forall>e'. holds_value d a v e' \<longrightarrow> e \<le> e'))"
  using db_values_spec [OF assms] lookup_None [OF assms] lookup_spec [OF assms]
  by (auto simp: holds_value_def)

theorem values_and_lookup_witness: "lookup wit_db 70 (Long 6) = Some 7"
proof -
  have holds: "holds_value wit_db 70 (Long 6) e \<longleftrightarrow> e = 8 \<or> e = 7" for e
  proof -
    have vis: "visible wit_db x \<longleftrightarrow> x = wit_datom 8 6 2 True \<or> x = wit_datom 7 6 1 True" for x
      unfolding visible_def wit_db_simps(1) db_view.simps by (rule wit_db_live)
    have "holds_value wit_db 70 (Long 6) e \<longleftrightarrow> d_fact (wit_datom 8 6 2 True) = (e, 70, Long 6) \<or>
        d_fact (wit_datom 7 6 1 True) = (e, 70, Long 6)"
      unfolding holds_value_def vis by blast
    then show ?thesis unfolding wit_datom_simps prod.inject by blast
  qed
  have "db_view wit_db \<noteq> History" by (simp add: wit_db_simps)
  from values_and_lookup [OF wit_db_wf this, of 7 70 "Long 6", unfolded holds] show ?thesis by auto
qed

text \<open>
  \<open>index_range\<close> refuses an attribute that was ever protected. Otherwise it returns exactly the
  visible datoms of the attribute with \<open>start \<le> v < end\<close>, by value and then entity, for an attribute AVET
  covers, and nothing for one it does not.
\<close>

theorem index_range_correct:
  assumes "db_wf d" and "db_view d \<noteq> History"
  shows "case index_range d a start stop of
      Inl err \<Rightarrow> err = Protected a \<and> ever_protected (schema_protection (db_schema d) a)
    | Inr xs \<Rightarrow> \<not> ever_protected (schema_protection (db_schema d) a) \<and>
        set xs = {x. visible d x \<and> avet_covered (db_schema d) a \<and> d_a x = a \<and> in_range start stop (d_v x)} \<and>
        sorted_wrt (\<lambda>x y. (d_v x, d_e x) < (d_v y, d_e y)) xs"
proof (cases "ever_protected (schema_protection (db_schema d) a)")
  case True
  then show ?thesis by (simp add: index_range_def)
next
  case False
  then obtain xs where "index_range d a start stop = Inr xs" by (simp add: index_range_def Let_def)
  then show ?thesis using index_range_spec [OF assms] False by simp
qed

theorem index_range_correct_witness:
  "case index_range wit_db 70 None (Some (Long 6)) of Inl err \<Rightarrow> err = Protected 70 | Inr xs \<Rightarrow> set xs = {}"
proof -
  have "db_view wit_db \<noteq> History" by (simp add: wit_db_simps)
  moreover have "\<not> (visible wit_db x \<and> in_range None (Some (Long 6)) (d_v x))" for x
    by (auto simp: visible_def wit_db_simps(1) wit_db_live in_range_def)
  ultimately show ?thesis using index_range_correct [OF wit_db_wf, of 70 None "Some (Long 6)"]
    by (cases "index_range wit_db 70 None (Some (Long 6))") auto
qed

text \<open>
  An instant resolves to the last transaction at or before it, and to \<open>0\<close> before the first,
  as long as transactions arrive in order and their instants never run backwards; recording
  such a transaction keeps that so.
\<close>

theorem t_at_latest:
  assumes "instants_wf ti"
  shows "(if instants_at_most ti instant = {} then t_at ti instant = 0
     else t_at ti instant \<in> instants_at_most ti instant \<and>
       (\<forall>t \<in> instants_at_most ti instant. t \<le> t_at ti instant)) \<and>
    ((\<forall>t' i'. ti_instant ti t' = Some i' \<longrightarrow> t' < t \<and> sint i' \<le> sint i) \<longrightarrow> instants_wf (instants_record t i ti))"
  using t_at_spec [OF assms] instants_wf_record [OF assms] by blast

lemma ti_instant_default: "ti_instant instants_default t = None"
  by (simp add: ti_instant_def instants_default_def)

theorem t_at_latest_witness: "t_at (instants_record 4 100 (instants_record 3 100 instants_default)) 101 = 4"
proof -
  let ?ti = "instants_record 4 100 (instants_record 3 100 instants_default)"
  have "instants_wf ?ti"
    by (intro instants_wf_record instants_wf_default)
      (auto simp: ti_instant_record ti_instant_default split: if_splits)
  moreover have "instants_at_most ?ti 101 = {3, 4}"
    by (auto simp: instants_at_most_def ti_instant_record ti_instant_default)
  ultimately show ?thesis using t_at_latest [of ?ti 101 0 0] by auto
qed

text \<open>
  The transaction range groups the recorded datoms by transaction, in ascending \<open>t\<close>, each group the
  datoms of its transaction in log order. The delta after \<open>t\<close>, read backwards from the end of
  the log, is every datom recorded after \<open>t\<close>.
\<close>

theorem log_reads:
  assumes "tx_ordered (db_recorded d)"
  shows "ascending (tx_range d start stop) \<and>
    ((t, xs) \<in> set (tx_range d start stop) \<longleftrightarrow> xs \<noteq> [] \<and>
       xs = filter (\<lambda>x. eid_sequence (d_tx x) = t \<and> in_span start stop x) (db_recorded d)) \<and>
    recorded_since d t = filter (\<lambda>x. eid_sequence (d_tx x) > t) (db_recorded d)"
  by (simp add: tx_range_mem tx_range_ascending recorded_since_filter [OF assms])

theorem log_reads_witness:
  "recorded_since wit_db 1 = [wit_datom 9 5 2 False, wit_datom 8 6 2 True]"
proof -
  have "tx_ordered (db_recorded wit_db)"
    by (simp add: tx_ordered_def wit_db_simps wit_datom_def eid_sequence_tx_entity_small)
  then show ?thesis using log_reads [of wit_db 0 None 1 "[]"]
    by (simp add: wit_db_simps wit_datom_def eid_sequence_tx_entity_small)
qed

text \<open>
  Planner statistics count what the view shows: per attribute the datoms, the distinct
  values and the distinct entities, and the totals over the view. Estimates are never zero,
  and a protected attribute is never estimated by its value distribution.
\<close>

theorem planner_statistics:
  assumes "db_wf d"
  shows "om_get (ps_per_attr (planner_stats_of d)) a =
      (let xs = filter (\<lambda>x. d_a x = a) (datoms d)
       in if xs = [] then None else Some (attr_stats_of (db_schema d) a xs)) \<and>
    stats_of d = \<lparr>dc_datoms = length (datoms d), dc_entities = card (d_e ` set (datoms d)),
      dc_attributes = card (d_a ` set (datoms d))\<rparr> \<and>
    estimate (planner_stats_of d) e_bound attr v_bound \<ge> 1 \<and>
    (is_protected (db_schema d) a \<longrightarrow>
      estimate (planner_stats_of d) e_bound (Some a) True = estimate (planner_stats_of d) e_bound (Some a) False)"
proof -
  have get: "om_get (ps_per_attr (planner_stats_of d)) a =
      (let xs = filter (\<lambda>x. d_a x = a) (datoms d)
       in if xs = [] then None else Some (attr_stats_of (db_schema d) a xs))"
    by (simp add: db_wf_stats_datoms [OF assms] stats_finish_get)
  then show ?thesis
    using estimate_positive
    by (auto simp: stats_of_def Let_def db_wf_stats_datoms [OF assms] stats_finish_totals stats_finish_attrs
        estimate_def attr_stats_of_def)
qed

theorem planner_statistics_witness: "1 \<le> estimate (planner_stats_of wit_db) False (Some 70) True"
  using planner_statistics [OF wit_db_wf] by blast

end
