(* ===== verification/Db_Facts.thy ===== *)
theory Db_Facts
  imports Db_Reads
begin

text \<open>
  The abstraction of a database value to the set of facts it shows, and the refinement the rest
  of the development uses: committing datoms is folding them into the set, reads are
  functions of the set (\<open>crates/corium-db/src/lib.rs\<close>).
\<close>

type_synonym fact_of = "entity_id \<times> attr_id \<times> val"

definition fact_step :: "datom \<Rightarrow> fact_of set \<Rightarrow> fact_of set" where
  "fact_step x F = (if d_added x then insert (d_fact x) F else F - {d_fact x})"

definition apply_facts :: "datom list \<Rightarrow> fact_of set \<Rightarrow> fact_of set" where
  "apply_facts ds F = fold fact_step ds F"

definition db_facts :: "db \<Rightarrow> fact_of set" where
  "db_facts d = {d_fact x | x. visible d x}"

lemma apply_facts_simps [simp]:
  "apply_facts [] F = F" "apply_facts (x # ds) F = apply_facts ds (fact_step x F)"
  "apply_facts (ds @ es) F = apply_facts es (apply_facts ds F)"
  by (simp_all add: apply_facts_def)

lemma live_facts: "{d_fact x | x. is_live ds x} = apply_facts ds {}"
proof (induction ds rule: rev_induct)
  case (snoc y ds)
  have "f \<in> {d_fact x | x. is_live (ds @ [y]) x} \<longleftrightarrow> f \<in> fact_step y {d_fact x | x. is_live ds x}" for f
    unfolding is_live_snoc fact_step_def by (cases "f = d_fact y") (auto split: if_splits; metis)+
  then have "{d_fact x | x. is_live (ds @ [y]) x} = fact_step y {d_fact x | x. is_live ds x}" by blast
  then show ?case using snoc by simp
qed simp

lemma db_facts_current: "db_view d = Current \<Longrightarrow> db_facts d = apply_facts (db_recorded d) {}"
  by (simp add: db_facts_def visible_def live_facts)

lemma db_facts_apply:
  "db_view d = Current \<Longrightarrow> db_facts (apply_transaction t ds d) = apply_facts ds (db_facts d)"
  by (simp add: db_facts_current)

lemma db_facts_record_instant [simp]: "db_facts (record_instant t i d) = db_facts d"
  by (cases "db_view d") (simp_all add: db_facts_def visible_def record_instant_def)

lemma db_facts_with_transaction:
  "db_view d = Current \<Longrightarrow> db_facts (with_transaction t ds d) = apply_facts ds (db_facts d)"
  by (simp add: with_transaction_def with_transaction_at_def db_facts_apply split: option.split)

lemma holds_value_facts: "holds_value d a v e \<longleftrightarrow> (e, a, v) \<in> db_facts d"
  by (auto simp: holds_value_def db_facts_def eq_commute)

lemma db_values_facts:
  assumes "db_wf d" and "db_view d \<noteq> History"
  shows "set (db_values d e a) = {v. (e, a, v) \<in> db_facts d}"
  using db_values_spec(1) [OF assms] by (auto simp: db_facts_def eq_commute)

lemma db_values_eqI:
  assumes "db_wf d" and "db_view d \<noteq> History" and "db_wf d'" and "db_view d' \<noteq> History"
    and "\<And>v. (e, a, v) \<in> db_facts d \<longleftrightarrow> (e', a', v) \<in> db_facts d'"
  shows "db_values d e a = db_values d' e' a'"
  using db_values_spec(2) [OF assms(1,2), of e a] db_values_spec(2) [OF assms(3,4), of e' a']
  by (rule strict_sorted_unique) (simp add: db_values_facts [OF assms(1,2)] db_values_facts [OF assms(3,4)] assms(5))

text \<open>A fact changes only through the datoms that state it.\<close>

lemma apply_facts_other:
  "(\<And>x. x \<in> set ds \<Longrightarrow> d_fact x \<noteq> f) \<Longrightarrow> f \<in> apply_facts ds F \<longleftrightarrow> f \<in> F"
  by (induction ds arbitrary: F) (auto simp: fact_step_def)

text \<open>The last datom that states a fact decides it.\<close>

lemma apply_facts_last:
  assumes "\<And>x. x \<in> set post \<Longrightarrow> d_fact x \<noteq> d_fact y"
  shows "d_fact y \<in> apply_facts (pre @ y # post) F \<longleftrightarrow> d_added y"
  using apply_facts_other [OF assms, where F = "fact_step y (apply_facts pre F)"]
  by (simp add: fact_step_def)

lemma apply_facts_subset: "apply_facts ds F \<subseteq> F \<union> d_fact ` {x \<in> set ds. d_added x}"
proof (induction ds arbitrary: F)
  case (Cons x ds)
  show ?case using Cons [of "fact_step x F"] by (auto simp: fact_step_def split: if_splits)
qed simp

end
