(* ===== verification/Saga_Registry.thy ===== *)
theory Saga_Registry
  imports Db_Facts
begin

text \<open>
  The saga registry as a read model over a database value (\<open>crates/corium-db/src/saga.rs\<close>):
  saga ids and branch names, the lifecycle states, leased blocks of entity ids, and the
  registry entry folded from the facts on a saga entity.
\<close>

subsection \<open>Signed 64-bit arithmetic\<close>

definition i64_fits :: "int \<Rightarrow> bool" where
  "i64_fits n \<longleftrightarrow> - (2 ^ 63) \<le> n \<and> n < 2 ^ 63"

definition i64_checked_add :: "i64 \<Rightarrow> i64 \<Rightarrow> i64 option" where
  "i64_checked_add a b = (let n = sint a + sint b in if i64_fits n then Some (word_of_int n) else None)"

definition i64_saturating_add :: "i64 \<Rightarrow> i64 \<Rightarrow> i64" where
  "i64_saturating_add a b = (let n = sint a + sint b
     in word_of_int (if n < - (2 ^ 63) then - (2 ^ 63) else if 2 ^ 63 \<le> n then 2 ^ 63 - 1 else n))"

subsection \<open>Ids and branch names\<close>

definition STATUS_NAMESPACE :: string where
  "STATUS_NAMESPACE = ''db.saga.status''"

definition COMPENSATION_STATUS_NAMESPACE :: string where
  "COMPENSATION_STATUS_NAMESPACE = ''db.saga.compensation.status''"

definition DEFAULT_ID_BLOCK :: i64 where
  "DEFAULT_ID_BLOCK = push_bit 20 1"

definition BRANCH_INFIX :: string where
  "BRANCH_INFIX = ''.saga.''"

definition hex_digit :: "nat \<Rightarrow> char" where
  "hex_digit n = ''0123456789abcdef'' ! (n mod 16)"

text \<open>\<open>format!("{:0wx}")\<close>: the \<open>w\<close> lowest hexadecimal digits, most significant first.\<close>

fun hex_digits :: "nat \<Rightarrow> nat \<Rightarrow> string" where
  "hex_digits 0 n = []"
| "hex_digits (Suc w) n = hex_digits w (n div 16) @ [hex_digit n]"

definition format_id :: "u128 \<Rightarrow> string" where
  "format_id i = hex_digits 32 (unat i)"

text \<open>\<open>char::to_digit(16)\<close>\<close>

definition to_digit_16 :: "char \<Rightarrow> nat option" where
  "to_digit_16 c = (let n = of_char c :: nat in
     if 48 \<le> n \<and> n \<le> 57 then Some (n - 48)
     else if 97 \<le> n \<and> n \<le> 102 then Some (n - 87)
     else if 65 \<le> n \<and> n \<le> 70 then Some (n - 55)
     else None)"

fun radix_16 :: "string \<Rightarrow> nat \<Rightarrow> nat option" where
  "radix_16 [] acc = Some acc"
| "radix_16 (c # cs) acc = (case to_digit_16 c of
     None \<Rightarrow> None
   | Some d \<Rightarrow> if acc * 16 + d < 2 ^ 128 then radix_16 cs (acc * 16 + d) else None)"

text \<open>\<open>u128::from_str_radix(_, 16)\<close>: one leading plus sign is accepted before the digits.\<close>

definition u128_from_str_radix_16 :: "string \<Rightarrow> u128 option" where
  "u128_from_str_radix_16 s =
    (let digits = (case s of c # cs \<Rightarrow> if c = CHR ''+'' then cs else s | [] \<Rightarrow> [])
     in if digits = [] then None else map_option of_nat (radix_16 digits 0))"

definition parse_id :: "string \<Rightarrow> u128 option" where
  "parse_id text =
    (let compact = filter (\<lambda>c. c \<noteq> CHR ''-'') text
     in if length compact \<noteq> 32 then None else u128_from_str_radix_16 compact)"

definition branch_name :: "string \<Rightarrow> u128 \<Rightarrow> string" where
  "branch_name parent saga = parent @ BRANCH_INFIX @ format_id saga"

text \<open>\<open>str::rsplit_once\<close>: the parts around the last occurrence.\<close>

fun rsplit_once :: "string \<Rightarrow> string \<Rightarrow> (string \<times> string) option" where
  "rsplit_once pat [] = (if pat = [] then Some ([], []) else None)"
| "rsplit_once pat (c # cs) = (case rsplit_once pat cs of
     Some (a, b) \<Rightarrow> Some (c # a, b)
   | None \<Rightarrow> if prefix pat (c # cs) then Some ([], drop (length pat) (c # cs)) else None)"

definition parse_branch_name :: "string \<Rightarrow> (string \<times> u128) option" where
  "parse_branch_name name = (case rsplit_once BRANCH_INFIX name of
     None \<Rightarrow> None
   | Some (parent, i) \<Rightarrow>
       if parent = [] \<or> length i \<noteq> 32 then None
       else map_option (\<lambda>n. (parent, n)) (u128_from_str_radix_16 i))"

definition is_branch_name :: "string \<Rightarrow> bool" where
  "is_branch_name name \<longleftrightarrow> parse_branch_name name \<noteq> None"

subsection \<open>Lifecycle states\<close>

datatype saga_status = Open | Committed | Aborted | Expired | Unknown keyword

definition status_name :: "saga_status \<Rightarrow> string" where
  "status_name s = (case s of Open \<Rightarrow> ''open'' | Committed \<Rightarrow> ''committed'' | Aborted \<Rightarrow> ''aborted''
     | Expired \<Rightarrow> ''expired'' | Unknown k \<Rightarrow> kw_name k)"

definition status_keyword :: "saga_status \<Rightarrow> keyword" where
  "status_keyword s = (case s of Unknown k \<Rightarrow> k | _ \<Rightarrow> Kw (Some STATUS_NAMESPACE) (status_name s))"

definition status_from_keyword :: "keyword \<Rightarrow> saga_status" where
  "status_from_keyword k =
    (if kw_ns k = Some STATUS_NAMESPACE then
       (if kw_name k = ''open'' then Open
        else if kw_name k = ''committed'' then Committed
        else if kw_name k = ''aborted'' then Aborted
        else if kw_name k = ''expired'' then Expired
        else Unknown k)
     else Unknown k)"

definition is_terminal :: "saga_status \<Rightarrow> bool" where
  "is_terminal s = (case s of Committed \<Rightarrow> True | Aborted \<Rightarrow> True | Expired \<Rightarrow> True | _ \<Rightarrow> False)"

definition may_become :: "saga_status \<Rightarrow> saga_status \<Rightarrow> bool" where
  "may_become s next = (s = Open \<and> is_terminal next)"

subsection \<open>Grants, compensations, entries\<close>

record id_grant =
  g_entity :: entity_id
  g_partition :: "i64 option"
  g_start :: "i64 option"
  g_length :: "i64 option"

definition grant_end :: "id_grant \<Rightarrow> i64 option" where
  "grant_end g = (case (g_start g, g_length g) of
     (Some start, Some len) \<Rightarrow> i64_checked_add start len | _ \<Rightarrow> None)"

definition grant_contains :: "id_grant \<Rightarrow> i64 \<Rightarrow> i64 \<Rightarrow> bool" where
  "grant_contains g part sequence =
    (g_partition g = Some part
     \<and> (case g_start g of None \<Rightarrow> False | Some start \<Rightarrow> sint sequence \<ge> sint start)
     \<and> (case grant_end g of None \<Rightarrow> False | Some stop \<Rightarrow> sint sequence < sint stop))"

definition grant_holds :: "id_grant \<Rightarrow> entity_id \<Rightarrow> bool" where
  "grant_holds g e =
    (if eid_sequence e \<ge> 2 ^ 63 then False
     else grant_contains g (ucast (eid_partition e)) (eid_sequence e))"

record compensation =
  co_entity :: entity_id
  co_key :: "string option"
  co_status :: "keyword option"
  co_detail :: "string option"
  co_completed_at :: "i64 option"
  co_error :: "string option"

record saga_entry =
  se_entity :: entity_id
  se_id :: u128
  se_status :: "saga_status option"
  se_basis_t :: "i64 option"
  se_description :: "string option"
  se_owner :: "string option"
  se_expires_at :: "i64 option"
  se_grants :: "id_grant list"
  se_footprint :: "entity_id list"
  se_reserves :: "entity_id list"
  se_sealed :: bool
  se_merged_tx :: "entity_id option"
  se_steps :: "i64 option"
  se_conflict_report :: "string option"
  se_on_abort_tx :: "string option"
  se_on_abort_fn :: "entity_id option"
  se_on_abort_error :: "string option"
  se_retain_for :: "i64 option"
  se_finished_at :: "i64 option"
  se_compensations :: "compensation list"

definition saga_is_open :: "saga_entry \<Rightarrow> bool" where
  "saga_is_open s = (se_status s = Some Open)"

definition saga_is_finished :: "saga_entry \<Rightarrow> bool" where
  "saga_is_finished s = (case se_status s of None \<Rightarrow> False | Some st \<Rightarrow> is_terminal st)"

definition saga_is_overdue :: "saga_entry \<Rightarrow> i64 \<Rightarrow> bool" where
  "saga_is_overdue s now =
    (saga_is_open s \<and> (case se_expires_at s of None \<Rightarrow> True | Some expires_at \<Rightarrow> sint expires_at \<le> sint now))"

definition retention_deadline :: "saga_entry \<Rightarrow> i64 \<Rightarrow> i64 option" where
  "retention_deadline s default_ms =
    (if \<not> saga_is_finished s then None
     else let chosen = (case se_retain_for s of None \<Rightarrow> default_ms | Some ms \<Rightarrow> ms);
              window = (if sint chosen < 0 then 0 else chosen)
          in map_option (\<lambda>finished_at. i64_saturating_add finished_at window) (se_finished_at s))"

definition is_retention_expired :: "saga_entry \<Rightarrow> i64 \<Rightarrow> i64 \<Rightarrow> bool" where
  "is_retention_expired s now default_ms = (case retention_deadline s default_ms of
     None \<Rightarrow> False | Some deadline \<Rightarrow> sint deadline \<le> sint now)"

subsection \<open>The registry vocabulary\<close>

definition saga_attributes :: "attr_id list" where
  "saga_attributes = [SAGA_ID, SAGA_STATUS, SAGA_BASIS_T, SAGA_DESCRIPTION, SAGA_OWNER, SAGA_EXPIRES_AT,
     SAGA_ID_GRANTS, SAGA_FOOTPRINT, SAGA_RESERVES, SAGA_SEALED, SAGA_MERGED_TX, SAGA_STEPS,
     SAGA_CONFLICT_REPORT, SAGA_ON_ABORT_TX, SAGA_ON_ABORT_FN, SAGA_ON_ABORT_ERROR, SAGA_COMPENSATIONS,
     SAGA_RETAIN_FOR]"

definition is_saga_attribute :: "attr_id \<Rightarrow> bool" where
  "is_saga_attribute a = (a \<in> set saga_attributes)"

definition is_grant_attribute :: "attr_id \<Rightarrow> bool" where
  "is_grant_attribute a = (a \<in> {SAGA_GRANT_PARTITION, SAGA_GRANT_START, SAGA_GRANT_LENGTH})"

definition is_compensation_attribute :: "attr_id \<Rightarrow> bool" where
  "is_compensation_attribute a = (a \<in> {SAGA_COMPENSATION_KEY, SAGA_COMPENSATION_STATUS,
     SAGA_COMPENSATION_DETAIL, SAGA_COMPENSATION_COMPLETED_AT, SAGA_COMPENSATION_ERROR})"

definition is_registry_attribute :: "attr_id \<Rightarrow> bool" where
  "is_registry_attribute a = (is_saga_attribute a \<or> is_grant_attribute a \<or> is_compensation_attribute a)"

subsection \<open>Reading a field\<close>

definition as_uuid :: "val \<Rightarrow> u128 option" where
  "as_uuid v = (case v of Uuid i \<Rightarrow> Some i | _ \<Rightarrow> None)"

definition as_long :: "val \<Rightarrow> i64 option" where
  "as_long v = (case v of Long n \<Rightarrow> Some n | _ \<Rightarrow> None)"

definition as_instant :: "val \<Rightarrow> i64 option" where
  "as_instant v = (case v of Instant n \<Rightarrow> Some n | _ \<Rightarrow> None)"

definition as_text :: "val \<Rightarrow> string option" where
  "as_text v = (case v of Str s \<Rightarrow> Some s | _ \<Rightarrow> None)"

definition as_boolean :: "val \<Rightarrow> bool option" where
  "as_boolean v = (case v of Bool b \<Rightarrow> Some b | _ \<Rightarrow> None)"

definition as_reference :: "val \<Rightarrow> entity_id option" where
  "as_reference v = (case v of Ref e \<Rightarrow> Some e | _ \<Rightarrow> None)"

definition as_keyword :: "db \<Rightarrow> val \<Rightarrow> keyword option" where
  "as_keyword d v = (case v of Keyword kid \<Rightarrow> db_resolve d kid | _ \<Rightarrow> None)"

definition field :: "db \<Rightarrow> entity_id \<Rightarrow> attr_id \<Rightarrow> (val \<Rightarrow> 'a option) \<Rightarrow> 'a option" where
  "field d e a parse = (case db_values d e a of [] \<Rightarrow> None | v # _ \<Rightarrow> parse v)"

definition refs :: "db \<Rightarrow> entity_id \<Rightarrow> attr_id \<Rightarrow> entity_id list" where
  "refs d e a = sort (List.map_filter as_reference (db_values d e a))"

definition finished_at :: "db \<Rightarrow> entity_id \<Rightarrow> i64 option" where
  "finished_at d e =
    (case datoms_prefix d Eavt (key_prefix Eavt (Some e) (Some SAGA_STATUS) None) of
       [] \<Rightarrow> None
     | status # _ \<Rightarrow>
         if (case as_keyword d (d_v status) of None \<Rightarrow> False | Some k \<Rightarrow> is_terminal (status_from_keyword k))
         then field d (d_tx status) TX_INSTANT as_instant
         else None)"

definition grant_at :: "db \<Rightarrow> entity_id \<Rightarrow> id_grant" where
  "grant_at d e = \<lparr>g_entity = e, g_partition = field d e SAGA_GRANT_PARTITION as_long,
     g_start = field d e SAGA_GRANT_START as_long, g_length = field d e SAGA_GRANT_LENGTH as_long\<rparr>"

definition compensation_at :: "db \<Rightarrow> entity_id \<Rightarrow> compensation" where
  "compensation_at d e = \<lparr>co_entity = e, co_key = field d e SAGA_COMPENSATION_KEY as_text,
     co_status = field d e SAGA_COMPENSATION_STATUS (as_keyword d),
     co_detail = field d e SAGA_COMPENSATION_DETAIL as_text,
     co_completed_at = field d e SAGA_COMPENSATION_COMPLETED_AT as_instant,
     co_error = field d e SAGA_COMPENSATION_ERROR as_text\<rparr>"

subsection \<open>Entries\<close>

definition entry_at :: "db \<Rightarrow> entity_id \<Rightarrow> saga_entry option" where
  "entry_at d e = (case field d e SAGA_ID as_uuid of
     None \<Rightarrow> None
   | Some i \<Rightarrow> Some \<lparr>se_entity = e, se_id = i,
       se_status = map_option status_from_keyword (field d e SAGA_STATUS (as_keyword d)),
       se_basis_t = field d e SAGA_BASIS_T as_long,
       se_description = field d e SAGA_DESCRIPTION as_text,
       se_owner = field d e SAGA_OWNER as_text,
       se_expires_at = field d e SAGA_EXPIRES_AT as_instant,
       se_grants = map (grant_at d) (refs d e SAGA_ID_GRANTS),
       se_footprint = refs d e SAGA_FOOTPRINT,
       se_reserves = refs d e SAGA_RESERVES,
       se_sealed = (case field d e SAGA_SEALED as_boolean of None \<Rightarrow> False | Some b \<Rightarrow> b),
       se_merged_tx = field d e SAGA_MERGED_TX as_reference,
       se_steps = field d e SAGA_STEPS as_long,
       se_conflict_report = field d e SAGA_CONFLICT_REPORT as_text,
       se_on_abort_tx = field d e SAGA_ON_ABORT_TX as_text,
       se_on_abort_fn = field d e SAGA_ON_ABORT_FN as_reference,
       se_on_abort_error = field d e SAGA_ON_ABORT_ERROR as_text,
       se_retain_for = field d e SAGA_RETAIN_FOR as_long,
       se_finished_at = finished_at d e,
       se_compensations = map (compensation_at d) (refs d e SAGA_COMPENSATIONS)\<rparr>)"

definition saga_entity :: "db \<Rightarrow> u128 \<Rightarrow> entity_id option" where
  "saga_entity d i = lookup d SAGA_ID (Uuid i)"

definition entry_of :: "db \<Rightarrow> u128 \<Rightarrow> saga_entry option" where
  "entry_of d i = Option.bind (saga_entity d i) (entry_at d)"

definition entries :: "db \<Rightarrow> saga_entry list" where
  "entries d = List.map_filter (entry_at d) (remdups_adj (sort (map d_e (datoms_for_attribute d SAGA_ID))))"

definition open_entries :: "db \<Rightarrow> saga_entry list" where
  "open_entries d = filter saga_is_open (entries d)"

definition overdue_entries :: "db \<Rightarrow> i64 \<Rightarrow> saga_entry list" where
  "overdue_entries d now = filter (\<lambda>s. saga_is_overdue s now) (entries d)"

definition declaring :: "db \<Rightarrow> entity_id \<Rightarrow> saga_entry list" where
  "declaring d e = filter (\<lambda>s. e \<in> set (se_footprint s) \<or> e \<in> set (se_reserves s)) (open_entries d)"

definition finished_entries :: "db \<Rightarrow> saga_entry list" where
  "finished_entries d = filter saga_is_finished (entries d)"

definition grants :: "db \<Rightarrow> id_grant list" where
  "grants d = map (grant_at d) (remdups_adj (sort (map d_e (datoms_for_attribute d SAGA_GRANT_START))))"

definition live_grants :: "db \<Rightarrow> id_grant list" where
  "live_grants d = concat (map se_grants (open_entries d))"

definition grant_ceiling :: "db \<Rightarrow> u32 \<Rightarrow> u64" where
  "grant_ceiling d part = fold max
     (map (\<lambda>stop. if sint stop < 0 then 0 else stop)
       (List.map_filter grant_end (filter (\<lambda>g. g_partition g = Some (ucast part)) (grants d)))) 0"

definition asserted_status :: "db \<Rightarrow> entity_id \<Rightarrow> datom list \<Rightarrow> saga_status option" where
  "asserted_status d e ds =
    (case find (\<lambda>x. d_e x = e \<and> d_a x = SAGA_STATUS \<and> d_added x) (rev ds) of
       None \<Rightarrow> None
     | Some x \<Rightarrow> map_option status_from_keyword (as_keyword d (d_v x)))"

subsection \<open>Names\<close>

lemma hex_digit_char:
  assumes "n < 16"
  shows "to_digit_16 (hex_digit n) = Some n \<and> hex_digit n \<notin> {CHR ''+'', CHR ''-'', CHR ''.'', CHR ''s''}"
proof -
  have "n \<in> {0, 1, 2, 3, 4, 5, 6, 7} \<or> n \<in> {8, 9, 10, 11, 12, 13, 14, 15}"
    using assms unfolding insert_iff empty_iff by presburger
  then show ?thesis unfolding insert_iff empty_iff by (elim disjE) (simp_all add: hex_digit_def to_digit_16_def)
qed

lemma hex_digit_mod [simp]: "hex_digit (n mod 16) = hex_digit n"
  by (simp add: hex_digit_def)

lemma length_hex_digits [simp]: "length (hex_digits w n) = w"
  by (induction w arbitrary: n) simp_all

lemma hex_digits_chars: "c \<in> set (hex_digits w n) \<Longrightarrow> c \<notin> {CHR ''+'', CHR ''-'', CHR ''.'', CHR ''s''}"
proof (induction w arbitrary: n)
  case (Suc w)
  have "hex_digit n \<notin> {CHR ''+'', CHR ''-'', CHR ''.'', CHR ''s''}"
    using hex_digit_char [of "n mod 16"] by simp
  with Suc show ?case by auto
qed simp

lemma radix_16_append:
  "radix_16 (xs @ ys) acc = (case radix_16 xs acc of None \<Rightarrow> None | Some n \<Rightarrow> radix_16 ys n)"
  by (induction xs arbitrary: acc) (auto split: option.split)

lemma radix_16_hex:
  "n < 16 ^ w \<Longrightarrow> w \<le> 32 \<Longrightarrow> radix_16 (hex_digits w n) 0 = Some n"
proof (induction w arbitrary: n)
  case (Suc w)
  have "radix_16 (hex_digits w (n div 16)) 0 = Some (n div 16)"
    using Suc by (intro Suc.IH) auto
  moreover have "to_digit_16 (hex_digit n) = Some (n mod 16)" using hex_digit_char [of "n mod 16"] by simp
  moreover have "n < 2 ^ 128"
  proof -
    have "(16::nat) ^ Suc w \<le> 16 ^ 32" using Suc.prems(2) by (intro power_increasing) auto
    then show ?thesis using Suc.prems(1) by simp
  qed
  ultimately show ?case by (simp add: radix_16_append)
qed simp

lemma u128_from_format_id: "u128_from_str_radix_16 (format_id i) = Some i"
proof -
  have "format_id i = hex_digits 32 (unat i)" by (simp add: format_id_def)
  moreover have "hex_digits 32 (unat i) \<noteq> []"
    using length_hex_digits [of 32 "unat i"] by (metis list.size(3) zero_neq_numeral)
  moreover have "hd (hex_digits 32 (unat i)) \<noteq> CHR ''+''"
    using calculation(2) hex_digits_chars [of "hd (hex_digits 32 (unat i))" 32 "unat i"] by auto
  moreover have "radix_16 (hex_digits 32 (unat i)) 0 = Some (unat i)"
    using unat_less_pow [of i] by (intro radix_16_hex) simp_all
  ultimately show ?thesis
    by (cases "hex_digits 32 (unat i)") (simp_all add: u128_from_str_radix_16_def)
qed

lemma parse_format_id: "parse_id (format_id i) = Some i"
proof -
  have "filter (\<lambda>c. c \<noteq> CHR ''-'') (format_id i) = format_id i"
    using hex_digits_chars [of _ 32 "unat i"] by (auto simp: format_id_def intro: filter_True)
  then show ?thesis
    using u128_from_format_id [of i] by (simp add: parse_id_def format_id_def)
qed

lemma rsplit_once_append:
  "rsplit_once pat s = Some (a, b) \<Longrightarrow> rsplit_once pat (p @ s) = Some (p @ a, b)"
  by (induction p) simp_all

lemma rsplit_once_none: "CHR ''.'' \<notin> set s \<Longrightarrow> rsplit_once BRANCH_INFIX s = None"
  by (induction s) (auto simp: BRANCH_INFIX_def prefix_Cons)

lemma rsplit_once_infix:
  assumes "CHR ''.'' \<notin> set s" and "CHR ''s'' \<notin> set s"
  shows "rsplit_once BRANCH_INFIX (BRANCH_INFIX @ s) = Some ([], s)"
proof -
  have "rsplit_once ''.saga.'' s = None" using rsplit_once_none [OF assms(1)] by (simp add: BRANCH_INFIX_def)
  moreover have "\<not> prefix ''saga.'' s" using assms(2) by (cases s) auto
  ultimately show ?thesis by (simp add: BRANCH_INFIX_def)
qed

lemma parse_branch_name_name:
  assumes "parent \<noteq> []"
  shows "parse_branch_name (branch_name parent saga) = Some (parent, saga)"
proof -
  have "rsplit_once BRANCH_INFIX (branch_name parent saga) = Some (parent @ [], format_id saga)"
    unfolding branch_name_def
    by (intro rsplit_once_append rsplit_once_infix) (auto simp: format_id_def dest: hex_digits_chars)
  then show ?thesis
    using assms by (simp add: parse_branch_name_def u128_from_format_id) (simp add: format_id_def)
qed

lemma parse_branch_name_sound:
  assumes "parse_branch_name name = Some (parent, saga)"
  shows "parent \<noteq> [] \<and> (\<exists>i. name = parent @ BRANCH_INFIX @ i \<and> length i = 32 \<and> u128_from_str_radix_16 i = Some saga)"
proof -
  have "rsplit_once pat s = Some (a, b) \<Longrightarrow> s = a @ pat @ b" for pat s a b
    by (induction pat s arbitrary: a b rule: rsplit_once.induct) (auto simp: prefix_def split: if_splits option.splits)
  then show ?thesis using assms by (force simp: parse_branch_name_def split: option.splits if_splits)
qed

subsection \<open>Lifecycle\<close>

lemma status_round_trip:
  "status_from_keyword (status_keyword s) = s \<longleftrightarrow>
    (case s of Unknown k \<Rightarrow> kw_ns k \<noteq> Some STATUS_NAMESPACE \<or>
       kw_name k \<notin> {''open'', ''committed'', ''aborted'', ''expired''} | _ \<Rightarrow> True)"
  by (cases s) (auto simp: status_from_keyword_def status_keyword_def status_name_def)

lemma status_keyword_round_trip: "status_keyword (status_from_keyword k) = k"
  by (cases k) (auto simp: status_from_keyword_def status_keyword_def status_name_def)

lemma may_become_final: "may_become s s' \<Longrightarrow> is_terminal s' \<and> \<not> may_become s' s''"
  by (cases s') (auto simp: may_become_def is_terminal_def)

subsection \<open>Leased blocks\<close>

lemma sint_cases: "sint v = (if uint v < 2 ^ 63 then uint v else uint v - 2 ^ 64)" for v :: i64
proof -
  have shift: "sint v = (uint v + 2 ^ 63) mod 2 ^ 64 - 2 ^ 63"
    by (simp add: sint_uint signed_take_bit_eq_take_bit_shift take_bit_eq_mod)
  have bound: "0 \<le> uint v" "uint v < 2 ^ 64" using uint_range_size [of v] by (simp_all add: word_size)
  show ?thesis
  proof (cases "uint v < 2 ^ 63")
    case True
    then have "(uint v + 2 ^ 63) mod 2 ^ 64 = uint v + 2 ^ 63" using bound by (intro mod_pos_pos_trivial) auto
    with True shift show ?thesis by simp
  next
    case False
    have "(uint v + 2 ^ 63) mod 2 ^ 64 = (uint v + 2 ^ 63 - 2 ^ 64) mod 2 ^ 64" by (rule minus_mod_self2 [symmetric])
    also have "\<dots> = uint v + 2 ^ 63 - 2 ^ 64" using False bound by (intro mod_pos_pos_trivial) auto
    finally show ?thesis using False shift by simp
  qed
qed

lemma uint_eid_sequence: "uint (eid_sequence e) < 2 ^ 42"
proof -
  have "unat (eid_sequence e) < 2 ^ 42" by (simp add: unat_eid_sequence)
  then show ?thesis by (simp add: uint_nat del: of_nat_unat flip: of_nat_less_iff)
qed

lemma sint_eid_sequence: "sint (eid_sequence e) = uint (eid_sequence e)"
  using uint_eid_sequence [of e] unfolding sint_cases by simp

lemma fold_max_ge: "x \<in> set xs \<Longrightarrow> (x :: u64) \<le> fold max xs m"
proof -
  have "m \<le> fold max xs m \<and> (\<forall>x \<in> set xs. x \<le> fold max xs m)" for xs and m :: u64
  proof (induction xs arbitrary: m)
    case (Cons y ys)
    show ?case using Cons [of "max y m"] by auto
  qed simp
  then show "x \<in> set xs \<Longrightarrow> x \<le> fold max xs m" by blast
qed

lemma grant_ceiling_above:
  assumes "g \<in> set (grants d)" and "grant_holds g e"
  shows "eid_sequence e < grant_ceiling d (eid_partition e)"
proof -
  obtain stop where part: "g_partition g = Some (ucast (eid_partition e))"
    and stop: "grant_end g = Some stop" and less: "sint (eid_sequence e) < sint stop"
    using assms(2) by (auto simp: grant_holds_def grant_contains_def split: if_splits option.splits)
  have nonneg: "\<not> sint stop < 0" using less uint_nonnegative [of "eid_sequence e"] unfolding sint_eid_sequence by linarith
  have "stop \<le> grant_ceiling d (eid_partition e)"
    unfolding grant_ceiling_def
    using assms(1) part stop nonneg
    by (intro fold_max_ge) (force simp: List.map_filter_def image_iff)
  moreover have "eid_sequence e < stop"
    using less nonneg uint_range_size [of stop] unfolding sint_eid_sequence sint_cases [of stop] word_less_def
    by (simp add: word_size split: if_splits)
  ultimately show ?thesis by simp
qed

subsection \<open>Reading entries\<close>

lemma field_eqI: "db_values d e a = db_values d' e a \<Longrightarrow> field d e a f = field d' e a f"
  by (simp add: field_def)

lemma field_Some:
  assumes "db_wf d" and "db_view d \<noteq> History" and "field d e a f = Some x"
  shows "\<exists>v. (e, a, v) \<in> db_facts d \<and> f v = Some x"
proof -
  obtain v vs where "db_values d e a = v # vs" "f v = Some x"
    using assms(3) by (auto simp: field_def split: list.splits)
  then show ?thesis using db_values_facts [OF assms(1,2), of e a] by force
qed

lemma entry_at_entity: "entry_at d e = Some s \<Longrightarrow> se_entity s = e"
  by (auto simp: entry_at_def split: option.splits)

lemma set_map_filter: "y \<in> set (List.map_filter f xs) \<longleftrightarrow> (\<exists>x \<in> set xs. f x = Some y)"
  by (induction xs) (auto simp: List.map_filter_simps split: option.split)

lemma entities_of_attribute:
  assumes "db_wf d" and "db_view d \<noteq> History"
  shows "e \<in> set (remdups_adj (sort (map d_e (datoms_for_attribute d a)))) \<longleftrightarrow> (\<exists>v. (e, a, v) \<in> db_facts d)"
proof -
  have "e \<in> d_e ` set (datoms_for_attribute d a) \<longleftrightarrow> (\<exists>x. visible d x \<and> d_a x = a \<and> d_e x = e)"
    unfolding datoms_for_attribute_scan image_iff Bex_def aevt_scan_a [OF assms] by blast
  also have "\<dots> \<longleftrightarrow> (\<exists>v x. visible d x \<and> d_fact x = (e, a, v))" by (auto simp: d_fact_def)
  finally show ?thesis by (simp add: db_facts_def eq_commute conj_commute)
qed

lemma entries_iff:
  assumes "db_wf d" and "db_view d \<noteq> History"
  shows "s \<in> set (entries d) \<longleftrightarrow> (\<exists>e. entry_at d e = Some s)"
proof
  assume "s \<in> set (entries d)"
  then show "\<exists>e. entry_at d e = Some s" unfolding entries_def set_map_filter by blast
next
  assume "\<exists>e. entry_at d e = Some s"
  then obtain e where e: "entry_at d e = Some s" ..
  then obtain i where "field d e SAGA_ID as_uuid = Some i" by (auto simp: entry_at_def split: option.splits)
  then have "e \<in> set (remdups_adj (sort (map d_e (datoms_for_attribute d SAGA_ID))))"
    unfolding entities_of_attribute [OF assms] using field_Some [OF assms, of e SAGA_ID as_uuid i] by blast
  then show "s \<in> set (entries d)" using e unfolding entries_def set_map_filter by blast
qed

lemma sorted_distinct_dedup: "sorted_wrt (<) (remdups_adj (sort xs))" for xs :: "'a::linorder list"
proof -
  have "sorted ys \<Longrightarrow> sorted_wrt (<) (remdups_adj ys)" for ys :: "'a list"
    by (induction ys rule: remdups_adj.induct) (auto simp: order_le_less)
  then show ?thesis by simp
qed

lemma entries_sorted: "sorted_wrt (\<lambda>s s'. se_entity s < se_entity s') (entries d)"
proof -
  have "sorted_wrt (<) es \<Longrightarrow> sorted_wrt (\<lambda>s s'. se_entity s < se_entity s') (List.map_filter (entry_at d) es)" for es
  proof (induction es)
    case (Cons e es)
    have "e < se_entity s" if "s \<in> set (List.map_filter (entry_at d) es)" for s
      using that Cons.prems entry_at_entity [of d _ s] by (auto simp: set_map_filter)
    then show ?case using Cons by (auto simp: List.map_filter_simps entry_at_entity split: option.split)
  qed (simp add: List.map_filter_simps)
  then show ?thesis by (simp add: entries_def sorted_distinct_dedup)
qed

subsection \<open>Properties\<close>

text \<open>
  Saga ids and branch names round trip: an id parses back from the way every surface prints it,
  and the branch name of a saga gives back the parent database and the id, whatever the
  parent's name, including one that itself looks like a branch.
\<close>

theorem saga_names_round_trip:
  assumes "parent \<noteq> []"
  shows "parse_id (format_id i) = Some i \<and> parse_branch_name (branch_name parent i) = Some (parent, i) \<and>
    is_branch_name (branch_name parent i)"
  using parse_format_id parse_branch_name_name [OF assms] by (simp add: is_branch_name_def)

theorem saga_names_round_trip_witness:
  "parse_branch_name (branch_name (branch_name ''db'' 3) 4) = Some (branch_name ''db'' 3, 4)"
  using saga_names_round_trip [of "branch_name ''db'' 3" 4] by (simp add: branch_name_def)

end
