(* ===== verification/Tx_Saga.thy ===== *)
theory Tx_Saga
  imports Saga_Registry
begin

text \<open>
  The registry invariants an ordinary transaction must not break
  (\<open>crates/corium-tx/src/saga.rs\<close>): the checks of the datoms a transaction leaves behind against
  the database it was prepared on. Messages name attributes by their keyword text.
\<close>

datatype saga_violation =
    NotASaga entity_id
  | IncompleteOpen string
  | OpensFinished saga_status
  | IllegalTransition saga_status saga_status
  | StatusCleared
  | StatusMissing entity_id
  | ImmutableField string
  | Finished saga_status string
  | SealedReservation
  | MergeRecordWithoutCommit string
  | GrantNotLeased
  | GrantedId entity_id

definition saga_names :: "(attr_id \<times> string) list" where
  "saga_names = [(SAGA_ID, '':db.saga/id''), (SAGA_STATUS, '':db.saga/status''),
     (SAGA_BASIS_T, '':db.saga/basis-t''), (SAGA_DESCRIPTION, '':db.saga/description''),
     (SAGA_OWNER, '':db.saga/owner''), (SAGA_EXPIRES_AT, '':db.saga/expires-at''),
     (SAGA_ID_GRANTS, '':db.saga/id-grants''), (SAGA_FOOTPRINT, '':db.saga/footprint''),
     (SAGA_RESERVES, '':db.saga/reserves''), (SAGA_SEALED, '':db.saga/sealed''),
     (SAGA_MERGED_TX, '':db.saga/merged-tx''), (SAGA_STEPS, '':db.saga/steps''),
     (SAGA_CONFLICT_REPORT, '':db.saga/conflict-report''), (SAGA_ON_ABORT_TX, '':db.saga/on-abort-tx''),
     (SAGA_ON_ABORT_FN, '':db.saga/on-abort-fn''), (SAGA_ON_ABORT_ERROR, '':db.saga/on-abort-error''),
     (SAGA_COMPENSATIONS, '':db.saga/compensations''), (SAGA_RETAIN_FOR, '':db.saga/retain-for'')]"

definition name_of :: "attr_id \<Rightarrow> string" where
  "name_of a = (case map_of saga_names a of Some n \<Rightarrow> n | None \<Rightarrow> ''a saga registry attribute'')"

text \<open>The first pair whose test holds, as an error.\<close>

fun refuse_first :: "(string \<Rightarrow> 'e) \<Rightarrow> (bool \<times> string) list \<Rightarrow> 'e + unit" where
  "refuse_first err [] = Inr ()"
| "refuse_first err ((bad, name) # rest) = (if bad then Inl (err name) else refuse_first err rest)"

definition writes_to :: "datom list \<Rightarrow> attr_id \<Rightarrow> bool \<Rightarrow> bool" where
  "writes_to writes a added = list_ex (\<lambda>x. d_a x = a \<and> d_added x = added) writes"

definition check_merge_record :: "datom list \<Rightarrow> saga_status option \<Rightarrow> saga_violation + unit" where
  "check_merge_record writes status =
    (if status = Some Committed then Inr ()
     else refuse_first MergeRecordWithoutCommit
       [(writes_to writes SAGA_MERGED_TX True, '':db.saga/merged-tx''),
        (writes_to writes SAGA_STEPS True, '':db.saga/steps'')])"

text \<open>A new entry: what makes the entity a saga must be complete.\<close>

definition validate_opening ::
    "entity_id \<Rightarrow> datom list \<Rightarrow> saga_status option \<Rightarrow> saga_violation + unit" where
  "validate_opening e writes status =
    (if \<not> writes_to writes SAGA_ID True then Inl (NotASaga e)
     else bindr (case status of
           Some Open \<Rightarrow> Inr ()
         | Some other \<Rightarrow> Inl (OpensFinished other)
         | None \<Rightarrow> Inl (IncompleteOpen '':db.saga/status'')) (\<lambda>_.
       bindr (refuse_first IncompleteOpen
          [(\<not> writes_to writes SAGA_BASIS_T True, '':db.saga/basis-t''),
           (\<not> writes_to writes SAGA_OWNER True, '':db.saga/owner''),
           (\<not> writes_to writes SAGA_EXPIRES_AT True, '':db.saga/expires-at'')]) (\<lambda>_.
       check_merge_record writes status)))"

text \<open>The transition a write makes, or that the saga is still open to be written to.\<close>

definition validate_transition ::
    "saga_status \<Rightarrow> datom list \<Rightarrow> saga_status option \<Rightarrow> saga_violation + unit" where
  "validate_transition current writes status = (case status of
     Some next \<Rightarrow> if \<not> may_become current next then Inl (IllegalTransition current next) else Inr ()
   | None \<Rightarrow>
       if writes_to writes SAGA_STATUS False then Inl StatusCleared
       else (case find (\<lambda>x. d_a x \<noteq> SAGA_COMPENSATIONS) writes of
               Some x \<Rightarrow> if current \<noteq> Open then Inl (Finished current (name_of (d_a x))) else Inr ()
             | None \<Rightarrow> Inr ()))"

definition validate_entity :: "db \<Rightarrow> entity_id \<Rightarrow> datom list \<Rightarrow> saga_violation + unit" where
  "validate_entity d e ds =
    (let writes = filter (\<lambda>x. d_e x = e \<and> is_saga_attribute (d_a x)) ds;
         status = asserted_status d e ds;
         touched = (\<lambda>a. writes_to writes a True \<or> writes_to writes a False)
     in case entry_at d e of
          None \<Rightarrow> validate_opening e writes status
        | Some prior \<Rightarrow>
            bindr (refuse_first ImmutableField
              [(touched SAGA_ID, '':db.saga/id''), (touched SAGA_BASIS_T, '':db.saga/basis-t''),
               (touched SAGA_OWNER, '':db.saga/owner''), (touched SAGA_SEALED, '':db.saga/sealed'')]) (\<lambda>_.
            bindr (ok_or (StatusMissing e) (se_status prior)) (\<lambda>current.
            bindr (validate_transition current writes status) (\<lambda>_.
            if se_sealed prior \<and> writes_to writes SAGA_RESERVES True then Inl SealedReservation
            else check_merge_record writes status))))"

definition validate_granted_datom :: "id_grant list \<Rightarrow> datom \<Rightarrow> saga_violation + unit" where
  "validate_granted_datom gs x =
    (if list_ex (\<lambda>g. grant_holds g (d_e x)) gs then Inl (GrantedId (d_e x))
     else case d_v x of
       Ref e \<Rightarrow> if \<not> is_registry_attribute (d_a x) \<and> list_ex (\<lambda>g. grant_holds g e) gs
                then Inl (GrantedId e) else Inr ()
     | _ \<Rightarrow> Inr ())"

text \<open>\<open>for x in xs { check(x)?; }\<close>\<close>

fun for_each :: "('a \<Rightarrow> 'e + unit) \<Rightarrow> 'a list \<Rightarrow> 'e + unit" where
  "for_each f [] = Inr ()"
| "for_each f (x # xs) = bindr (f x) (\<lambda>_. for_each f xs)"

definition validate_granted_ids :: "db \<Rightarrow> datom list \<Rightarrow> saga_violation + unit" where
  "validate_granted_ids d ds =
    (let gs = concat (map se_grants (filter (\<lambda>s. asserted_status d (se_entity s) ds \<noteq> Some Committed) (open_entries d)))
     in if gs = [] then Inr () else for_each (validate_granted_datom gs) ds)"

definition validate_registry :: "db \<Rightarrow> datom list \<Rightarrow> saga_violation + unit" where
  "validate_registry d ds =
    (if list_ex (\<lambda>x. is_grant_attribute (d_a x) \<or> d_a x = SAGA_ID_GRANTS) ds then Inl GrantNotLeased
     else bindr (validate_granted_ids d ds) (\<lambda>_.
       for_each (\<lambda>e. validate_entity d e ds)
         (os_elems (fold (\<lambda>x. os_insert (d_e x)) (filter (\<lambda>x. is_saga_attribute (d_a x)) ds) om_empty))))"

subsection \<open>What acceptance means\<close>

lemma for_each_Inr: "for_each f xs = Inr () \<longleftrightarrow> (\<forall>x \<in> set xs. f x = Inr ())"
  by (induction xs) (auto simp: bindr_eq_Inr)

lemma refuse_first_Inr: "refuse_first err ps = Inr () \<longleftrightarrow> (\<forall>p \<in> set ps. \<not> fst p)"
  by (induction err ps rule: refuse_first.induct) auto

lemma validate_entity_of:
  assumes "validate_registry d ds = Inr ()" and "x \<in> set ds" and "is_saga_attribute (d_a x)"
  shows "validate_entity d (d_e x) ds = Inr ()"
proof -
  have "os_member (d_e x) (fold (\<lambda>x. os_insert (d_e x)) (filter (\<lambda>x. is_saga_attribute (d_a x)) ds) om_empty)"
    using os_elems_fold [of d_e "filter (\<lambda>x. is_saga_attribute (d_a x)) ds"] assms(2,3) by auto
  then show ?thesis using assms(1)
    by (auto simp: validate_registry_def bindr_eq_Inr for_each_Inr split: if_splits)
qed

lemma validate_no_grants:
  "validate_registry d ds = Inr () \<Longrightarrow> x \<in> set ds \<Longrightarrow> \<not> is_grant_attribute (d_a x) \<and> d_a x \<noteq> SAGA_ID_GRANTS"
  by (auto simp: validate_registry_def list_ex_iff split: if_splits)

lemma validate_granted_of:
  "validate_registry d ds = Inr () \<Longrightarrow> validate_granted_ids d ds = Inr ()"
  by (auto simp: validate_registry_def bindr_eq_Inr split: if_splits)

text \<open>What a write on an existing entry may be.\<close>

definition entry_write_ok :: "db \<Rightarrow> datom list \<Rightarrow> saga_entry \<Rightarrow> datom \<Rightarrow> bool" where
  "entry_write_ok d ds p x \<longleftrightarrow>
     d_a x \<notin> {SAGA_ID, SAGA_BASIS_T, SAGA_OWNER, SAGA_SEALED} \<and>
     (\<exists>current. se_status p = Some current \<and>
        (current = Open \<or> d_a x = SAGA_COMPENSATIONS) \<and>
        (\<forall>next. asserted_status d (se_entity p) ds = Some next \<longrightarrow> current = Open \<and> is_terminal next)) \<and>
     (d_a x = SAGA_STATUS \<and> \<not> d_added x \<longrightarrow> asserted_status d (se_entity p) ds \<noteq> None) \<and>
     (d_added x \<and> d_a x \<in> {SAGA_MERGED_TX, SAGA_STEPS} \<longrightarrow> asserted_status d (se_entity p) ds = Some Committed) \<and>
     (d_added x \<and> d_a x = SAGA_RESERVES \<longrightarrow> \<not> se_sealed p)"

lemma validate_transition_Inr:
  assumes "validate_transition current writes status = Inr ()" and "x \<in> set writes"
  shows "(current = Open \<or> d_a x = SAGA_COMPENSATIONS \<and> status = None) \<and>
    (\<forall>next. status = Some next \<longrightarrow> current = Open \<and> is_terminal next) \<and>
    (status = None \<longrightarrow> \<not> writes_to writes SAGA_STATUS False)"
proof (cases status)
  case None
  have "current = Open \<or> find (\<lambda>x. d_a x \<noteq> SAGA_COMPENSATIONS) writes = None"
    using assms(1) None by (auto simp: validate_transition_def split: if_splits option.splits)
  then have "current = Open \<or> d_a x = SAGA_COMPENSATIONS"
    using assms(2) by (auto simp: find_None_iff)
  then show ?thesis using assms(1) None by (auto simp: validate_transition_def split: if_splits)
next
  case (Some n)
  then show ?thesis using assms(1) by (auto simp: validate_transition_def may_become_def split: if_splits)
qed

lemma writes_to_iff: "writes_to ws a b \<longleftrightarrow> (\<exists>x \<in> set ws. d_a x = a \<and> d_added x = b)"
  by (auto simp: writes_to_def list_ex_iff)

lemma check_merge_record_Inr:
  "check_merge_record ws status = Inr () \<longleftrightarrow> status = Some Committed \<or>
    \<not> writes_to ws SAGA_MERGED_TX True \<and> \<not> writes_to ws SAGA_STEPS True"
  by (auto simp: check_merge_record_def split: if_splits)

lemma entry_writes_checked:
  assumes "validate_registry d ds = Inr ()" and "entry_at d e = Some p"
    and x: "x \<in> set ds" "d_e x = e" "is_saga_attribute (d_a x)"
  shows "entry_write_ok d ds p x"
proof -
  let ?ws = "filter (\<lambda>x. d_e x = e \<and> is_saga_attribute (d_a x)) ds"
  have ok: "validate_entity d e ds = Inr ()" using validate_entity_of [OF assms(1) x(1) x(3)] x(2) by simp
  have e: "se_entity p = e" using entry_at_entity assms(2) .
  have in_ws: "x \<in> set ?ws" using x by simp
  have touched: "writes_to ?ws (d_a x) (d_added x)" using in_ws unfolding writes_to_iff by blast
  obtain current where
      fixed: "\<forall>a \<in> {SAGA_ID, SAGA_BASIS_T, SAGA_OWNER, SAGA_SEALED}. \<not> writes_to ?ws a True \<and> \<not> writes_to ?ws a False"
    and current: "se_status p = Some current"
    and trans: "validate_transition current ?ws (asserted_status d e ds) = Inr ()"
    and sealed: "\<not> (se_sealed p \<and> writes_to ?ws SAGA_RESERVES True)"
    and merge: "check_merge_record ?ws (asserted_status d e ds) = Inr ()"
    using ok assms(2)
    by (auto simp: validate_entity_def Let_def bindr_eq_Inr ok_or_eq_Inr refuse_first_Inr split: if_splits)
  have "d_a x \<notin> {SAGA_ID, SAGA_BASIS_T, SAGA_OWNER, SAGA_SEALED}"
    using fixed touched by (cases "d_added x") auto
  then show ?thesis
    unfolding entry_write_ok_def e
    using current validate_transition_Inr [OF trans in_ws] sealed merge touched
    unfolding check_merge_record_Inr by auto
qed

subsection \<open>A finished saga stays finished\<close>

lemma db_resolve_apply [simp]: "db_resolve (apply_transaction t ds d) = db_resolve d"
  by (simp add: db_resolve_def fun_eq_iff apply_transaction_def Let_def split: prod.split)

lemma db_resolve_commit [simp]: "db_resolve (with_transaction t ds d) = db_resolve d"
proof -
  have "db_resolve (record_instant t i d) = db_resolve d" for t i d
    by (simp add: db_resolve_def fun_eq_iff record_instant_def)
  then show ?thesis
    by (simp add: with_transaction_def with_transaction_at_def split: option.split)
qed

lemma db_view_commit [simp]: "db_view (with_transaction t ds d) = db_view d"
  by (simp add: with_transaction_def with_transaction_at_def record_instant_def split: option.split)

lemma values_untouched:
  assumes "db_wf d" and "db_view d = Current" and "db_wf (with_transaction t ds d)"
    and "\<And>x. x \<in> set ds \<Longrightarrow> d_e x = e \<Longrightarrow> d_a x \<noteq> a"
  shows "db_values (with_transaction t ds d) e a = db_values d e a"
proof (rule db_values_eqI [OF assms(3) _ assms(1)])
  fix v
  have "d_fact x \<noteq> (e, a, v)" if "x \<in> set ds" for x
    using assms(4) [OF that] by (auto simp: d_fact_def)
  then show "(e, a, v) \<in> db_facts (with_transaction t ds d) \<longleftrightarrow> (e, a, v) \<in> db_facts d"
    unfolding db_facts_with_transaction [OF assms(2)] by (rule apply_facts_other)
qed (simp_all add: assms(2))

lemma finished_writes:
  assumes "validate_registry d ds = Inr ()" and "entry_at d e = Some p" and "saga_is_finished p"
    and "x \<in> set ds" and "d_e x = e" and "is_saga_attribute (d_a x)"
  shows "d_a x = SAGA_COMPENSATIONS"
  using entry_writes_checked [OF assms(1,2,4-6)] assms(3)
  by (auto simp: entry_write_ok_def saga_is_finished_def is_terminal_def)

lemma as_keyword_commit [simp]: "as_keyword (with_transaction t ds d) = as_keyword d"
  by (rule ext) (simp add: as_keyword_def split: val.split)

lemma grants_untouched:
  assumes "db_wf d" and "db_view d = Current" and "db_wf (with_transaction t ds d)" and "validate_registry d ds = Inr ()"
  shows "grant_at (with_transaction t ds d) = grant_at d"
proof -
  have "field (with_transaction t ds d) g a f = field d g a f" if "is_grant_attribute a" for g a and f :: "val \<Rightarrow> i64 option"
    using that validate_no_grants [OF assms(4)] by (intro field_eqI values_untouched assms(1-3)) auto
  then show ?thesis by (simp add: fun_eq_iff grant_at_def is_grant_attribute_def)
qed

lemma finished_is_final:
  assumes "db_wf d" and "db_view d = Current" and "db_wf (with_transaction t ds d)"
    and "validate_registry d ds = Inr ()" and "entry_at d e = Some p" and "saga_is_finished p"
  shows "entry_at (with_transaction t ds d) e = Some (p\<lparr>
      se_finished_at := finished_at (with_transaction t ds d) e,
      se_compensations := map (compensation_at (with_transaction t ds d))
        (refs (with_transaction t ds d) e SAGA_COMPENSATIONS)\<rparr>)"
proof -
  let ?d = "with_transaction t ds d"
  have vals: "db_values ?d e a = db_values d e a" if "is_saga_attribute a" "a \<noteq> SAGA_COMPENSATIONS" for a
    using that finished_writes [OF assms(4-6)] by (intro values_untouched assms(1-3)) auto
  have attrs: "is_saga_attribute a" if "a \<in> set saga_attributes" for a
    using that by (simp add: is_saga_attribute_def)
  have field: "field ?d e a f = field d e a f" if "a \<in> set saga_attributes" "a \<noteq> SAGA_COMPENSATIONS" for a and f :: "val \<Rightarrow> 'a option"
    by (rule field_eqI [OF vals [OF attrs [OF that(1)] that(2)]])
  have refs: "refs ?d e a = refs d e a" if "a \<in> set saga_attributes" "a \<noteq> SAGA_COMPENSATIONS" for a
    using vals [OF attrs [OF that(1)] that(2)] by (simp add: refs_def)
  note grants = grants_untouched [OF assms(1-4)]
  show ?thesis
    using assms(5) unfolding entry_at_def
    by (auto simp: field refs grants saga_attributes_def engine_ids split: option.splits)
qed

subsection \<open>Leased ids\<close>

lemma leased_ids_refused:
  assumes "validate_registry d ds = Inr ()" and "s \<in> set (open_entries d)" and "g \<in> set (se_grants s)"
    and "asserted_status d (se_entity s) ds \<noteq> Some Committed" and "grant_holds g e" and "x \<in> set ds"
  shows "d_e x \<noteq> e \<and> (d_v x = Ref e \<longrightarrow> is_registry_attribute (d_a x))"
proof -
  define gs where "gs = concat (map se_grants (filter (\<lambda>s. asserted_status d (se_entity s) ds \<noteq> Some Committed) (open_entries d)))"
  have g: "g \<in> set gs" using assms(2-4) by (auto simp: gs_def)
  then have "for_each (validate_granted_datom gs) ds = Inr ()"
    using validate_granted_of [OF assms(1)] unfolding validate_granted_ids_def Let_def gs_def [symmetric]
    by (auto split: if_splits)
  then have "validate_granted_datom gs x = Inr ()" using assms(6) unfolding for_each_Inr by blast
  then show ?thesis
    using g assms(5) unfolding validate_granted_datom_def list_ex_iff by (auto split: if_splits)
qed

lemma opening_complete:
  assumes "validate_registry d ds = Inr ()" and "entry_at d e = None"
    and "x \<in> set ds" and "d_e x = e" and "is_saga_attribute (d_a x)"
  shows "asserted_status d e ds = Some Open \<and>
    (\<forall>a \<in> {SAGA_ID, SAGA_BASIS_T, SAGA_OWNER, SAGA_EXPIRES_AT}. \<exists>y \<in> set ds. d_e y = e \<and> d_a y = a \<and> d_added y) \<and>
    (\<forall>y \<in> set ds. d_e y = e \<and> d_added y \<longrightarrow> d_a y \<notin> {SAGA_MERGED_TX, SAGA_STEPS})"
proof -
  let ?ws = "filter (\<lambda>x. d_e x = e \<and> is_saga_attribute (d_a x)) ds"
  have "validate_opening e ?ws (asserted_status d e ds) = Inr ()"
    using validate_entity_of [OF assms(1,3,5)] assms(2,4) by (simp add: validate_entity_def Let_def)
  then have open_: "asserted_status d e ds = Some Open"
    and wr: "\<forall>a \<in> {SAGA_ID, SAGA_BASIS_T, SAGA_OWNER, SAGA_EXPIRES_AT}. writes_to ?ws a True"
    and merge: "check_merge_record ?ws (asserted_status d e ds) = Inr ()"
    by (auto simp: validate_opening_def bindr_eq_Inr refuse_first_Inr split: if_splits option.splits saga_status.splits)
  have "is_saga_attribute SAGA_MERGED_TX" "is_saga_attribute SAGA_STEPS"
    by (simp_all add: is_saga_attribute_def saga_attributes_def)
  then show ?thesis
    using open_ wr merge unfolding writes_to_iff check_merge_record_Inr by fastforce
qed

subsection \<open>Concrete registries\<close>

lemma values_single:
  assumes "db_wf d" and "db_view d \<noteq> History" and "\<And>v'. (e, a, v') \<in> db_facts d \<longleftrightarrow> v' = v"
  shows "db_values d e a = [v]"
  using db_values_spec(2) [OF assms(1,2), of e a] db_values_facts [OF assms(1,2), of e a]
  by (intro strict_sorted_unique) (auto simp: assms(3))

lemma values_none:
  assumes "db_wf d" and "db_view d \<noteq> History" and "\<And>v'. (e, a, v') \<notin> db_facts d"
  shows "db_values d e a = []"
  using db_values_facts [OF assms(1,2), of e a] by (simp add: assms(3))

definition wit_saga_datom :: "attr_id \<Rightarrow> val \<Rightarrow> u64 \<Rightarrow> bool \<Rightarrow> datom" where
  "wit_saga_datom a v t added = \<lparr>d_e = 7, d_a = a, d_v = v, d_tx = tx_entity t, d_added = added\<rparr>"

definition wit_naming :: keyword_interner where
  "wit_naming = snd (intern (Kw (Some STATUS_NAMESPACE) ''committed'')
     (snd (intern (Kw (Some STATUS_NAMESPACE) ''open'') interner_new)))"

definition wit_open :: db where
  "wit_open = apply_transaction 1
     [wit_saga_datom SAGA_ID (Uuid 5) 1 True, wit_saga_datom SAGA_STATUS (Keyword 0) 1 True]
     (db_default\<lparr>db_interner := wit_naming\<rparr>)"

definition wit_flip :: "datom list" where
  "wit_flip = [wit_saga_datom SAGA_STATUS (Keyword 0) 2 False, wit_saga_datom SAGA_STATUS (Keyword 1) 2 True]"

definition wit_done :: db where
  "wit_done = with_transaction 2 wit_flip wit_open"

lemma wit_open_simps:
  "db_view wit_open = Current" "db_basis_t wit_open = 1"
  "db_facts wit_open = {(7, SAGA_ID, Uuid 5), (7, SAGA_STATUS, Keyword 0)}"
  by (auto simp: wit_open_def db_facts_apply db_facts_current fact_step_def wit_saga_datom_def d_fact_def
     db_default_def)

lemma wit_open_resolve:
  "db_resolve wit_open 0 = Some (Kw (Some STATUS_NAMESPACE) ''open'')"
  "db_resolve wit_open 1 = Some (Kw (Some STATUS_NAMESPACE) ''committed'')"
  unfolding wit_open_def db_resolve_apply
  by (simp_all add: db_resolve_def db_default_def wit_naming_def intern_def interner_new_def kw_resolve_def)

lemma saga_attribute_not_schema: "is_saga_attribute a \<Longrightarrow> \<not> is_schema_attribute a"
  unfolding is_saga_attribute_def saga_attributes_def set_simps insert_iff empty_iff
  by (elim disjE) (simp_all add: is_schema_attribute_def engine_ids)

lemma wit_saga_applies:
  assumes "db_view d = Current" and "db_basis_t d \<le> t" and "t \<in> {1, 2, 3}"
    and "list_all (\<lambda>x. d_tx x = tx_entity t \<and> is_saga_attribute (d_a x)) ds"
  shows "applies t ds d"
proof -
  have "eid_sequence (tx_entity t) = t" "0 < t" using assms(3) eid_sequence_tx_entity_small by auto
  then show ?thesis
    using assms saga_attribute_not_schema
    by (auto simp: applies_def tx_bounded_def schema_placed_def list_all_iff)
qed

lemma wit_saga_datom_simps [simp]:
  "d_tx (wit_saga_datom a v t b) = tx_entity t" "d_a (wit_saga_datom a v t b) = a"
  "d_e (wit_saga_datom a v t b) = 7" "d_v (wit_saga_datom a v t b) = v"
  "d_added (wit_saga_datom a v t b) = b" "d_fact (wit_saga_datom a v t b) = (7, a, v)"
  by (simp_all add: wit_saga_datom_def d_fact_def)

lemma saga_attribute_simps [simp]:
  "is_saga_attribute SAGA_ID" "is_saga_attribute SAGA_STATUS" "is_saga_attribute SAGA_COMPENSATIONS"
  by (simp_all add: is_saga_attribute_def saga_attributes_def)

lemma wit_open_wf: "db_wf wit_open"
proof -
  have "db_wf (db_default\<lparr>db_interner := wit_naming\<rparr>)"
    by (simp add: db_wf_def db_default_def tx_bounded_def schema_wf_default)
  then show ?thesis unfolding wit_open_def
    by (rule db_wf_apply_transaction) (rule wit_saga_applies; simp add: db_default_def)
qed

lemma db_basis_t_commit [simp]: "db_basis_t (with_transaction t ds d) = t"
  by (simp add: with_transaction_def with_transaction_at_def record_instant_def split: option.split)

lemma wit_flip_applies: "applies 2 wit_flip wit_open"
  by (rule wit_saga_applies) (simp_all add: wit_open_simps wit_flip_def)

lemma wit_done_wf: "db_wf wit_done"
  unfolding wit_done_def
  by (rule db_wf_with_transaction_at [OF wit_open_wf wit_flip_applies]) simp_all

lemma wit_done_simps:
  "db_view wit_done = Current" "db_basis_t wit_done = 2"
  "db_facts wit_done = {(7, SAGA_ID, Uuid 5), (7, SAGA_STATUS, Keyword 1)}"
  by (auto simp: wit_done_def db_facts_with_transaction wit_open_simps wit_flip_def fact_step_def)

lemma wit_entry:
  assumes "db_wf d" and "db_view d = Current"
    and "db_facts d = {(7, SAGA_ID, Uuid 5), (7, SAGA_STATUS, Keyword n)}" and "db_resolve d = db_resolve wit_open"
  shows "\<exists>p. entry_at d 7 = Some p \<and> se_status p = map_option status_from_keyword (db_resolve wit_open n) \<and> se_grants p = [] \<and>
     \<not> se_sealed p" and "entry_at d e = Some p \<Longrightarrow> e = 7"
proof -
  have view: "db_view d \<noteq> History" using assms(2) by simp
  have "db_values d 7 SAGA_ID = [Uuid 5]" "db_values d 7 SAGA_STATUS = [Keyword n]"
    by (rule values_single [OF assms(1) view]; simp add: assms(3) engine_ids)+
  moreover have "db_values d 7 SAGA_ID_GRANTS = []" "db_values d 7 SAGA_SEALED = []"
    by (rule values_none [OF assms(1) view]; simp add: assms(3) engine_ids)+
  ultimately show "\<exists>p. entry_at d 7 = Some p \<and> se_status p = map_option status_from_keyword (db_resolve wit_open n) \<and>
      se_grants p = [] \<and> \<not> se_sealed p"
    using assms(4) by (simp add: entry_at_def field_def as_uuid_def as_keyword_def refs_def List.map_filter_simps)
next
  assume "entry_at d e = Some p"
  then obtain i where "field d e SAGA_ID as_uuid = Some i" by (auto simp: entry_at_def split: option.splits)
  then show "e = 7" using field_Some [OF assms(1), of e SAGA_ID as_uuid i] assms(2,3) by (auto simp: engine_ids)
qed

subsection \<open>The registry after a transaction\<close>

text \<open>No fact of the transaction is both asserted and retracted.\<close>

definition settled :: "datom list \<Rightarrow> bool" where
  "settled ds \<longleftrightarrow> (\<forall>x \<in> set ds. \<forall>y \<in> set ds. d_added x \<and> \<not> d_added y \<longrightarrow> d_fact x \<noteq> d_fact y)"

lemma apply_settled:
  assumes "settled ds"
  shows "f \<in> apply_facts ds F \<longleftrightarrow> (\<exists>x \<in> set ds. d_added x \<and> d_fact x = f) \<or> f \<in> F \<and> (\<forall>x \<in> set ds. d_fact x = f \<longrightarrow> d_added x)"
  using assms
proof (induction ds rule: rev_induct)
  case (snoc x ds)
  have IH: "f \<in> apply_facts ds F \<longleftrightarrow> (\<exists>x \<in> set ds. d_added x \<and> d_fact x = f) \<or> f \<in> F \<and> (\<forall>x \<in> set ds. d_fact x = f \<longrightarrow> d_added x)"
    using snoc by (simp add: settled_def)
  have new: "d_added y = d_added x" if "y \<in> set ds" "d_fact y = d_fact x" for y
    using snoc.prems that by (fastforce simp: settled_def)
  show ?case using IH new by (auto simp: fact_step_def)
qed simp

definition one_value :: "db \<Rightarrow> entity_id \<Rightarrow> attr_id \<Rightarrow> bool" where
  "one_value d e a \<longleftrightarrow> (\<forall>v v'. (e, a, v) \<in> db_facts d \<longrightarrow> (e, a, v') \<in> db_facts d \<longrightarrow> v = v')"

lemma field_one:
  assumes "db_wf d" and "db_view d \<noteq> History" and "one_value d e a" and "(e, a, v) \<in> db_facts d"
  shows "field d e a f = f v"
proof -
  have "(e, a, v') \<in> db_facts d \<longleftrightarrow> v' = v" for v' using assms(3,4) unfolding one_value_def by blast
  then show ?thesis using values_single [OF assms(1,2), of e a v] by (simp add: field_def)
qed

lemma find_SomeD: "find P xs = Some x \<Longrightarrow> x \<in> set xs \<and> P x"
  by (induction xs) (auto split: if_splits)

lemma asserted_status_datom:
  assumes "asserted_status d e ds = Some st"
  shows "\<exists>x \<in> set ds. d_e x = e \<and> d_a x = SAGA_STATUS \<and> d_added x \<and> map_option status_from_keyword (as_keyword d (d_v x)) = Some st"
proof -
  obtain x where x: "find (\<lambda>x. d_e x = e \<and> d_a x = SAGA_STATUS \<and> d_added x) (rev ds) = Some x"
      "map_option status_from_keyword (as_keyword d (d_v x)) = Some st"
    using assms by (auto simp: asserted_status_def split: option.splits)
  then show ?thesis using find_SomeD [OF x(1)] by auto
qed

lemma entry_at_fields:
  assumes "entry_at d e = Some p"
  shows "se_status p = map_option status_from_keyword (field d e SAGA_STATUS (as_keyword d))" "se_reserves p = refs d e SAGA_RESERVES"
    "se_basis_t p = field d e SAGA_BASIS_T as_long" "se_owner p = field d e SAGA_OWNER as_text"
    "se_sealed p = (case field d e SAGA_SEALED as_boolean of None \<Rightarrow> False | Some b \<Rightarrow> b)"
    "se_grants p = map (grant_at d) (refs d e SAGA_ID_GRANTS)" "field d e SAGA_ID as_uuid = Some (se_id p)"
  using assms by (auto simp: entry_at_def split: option.splits)

lemma saga_values_untouched:
  assumes "db_wf d" and "db_view d = Current" and "db_wf (with_transaction t ds d)"
    and "\<And>x. x \<in> set ds \<Longrightarrow> d_e x = e \<Longrightarrow> \<not> is_saga_attribute (d_a x)" and "is_saga_attribute a"
  shows "db_values (with_transaction t ds d) e a = db_values d e a"
  using assms(4,5) by (intro values_untouched [OF assms(1-3)]) auto

text \<open>What no accepted write on an existing entry touches.\<close>

lemma entry_values_fixed:
  assumes "db_wf d" and "db_view d = Current" and "db_wf (with_transaction t ds d)"
    and "validate_registry d ds = Inr ()" and "entry_at d e = Some p"
    and "a \<in> {SAGA_ID, SAGA_BASIS_T, SAGA_OWNER, SAGA_SEALED, SAGA_ID_GRANTS}"
  shows "db_values (with_transaction t ds d) e a = db_values d e a"
proof (rule values_untouched [OF assms(1-3)])
  fix x assume x: "x \<in> set ds" "d_e x = e"
  have "is_saga_attribute a" using assms(6) by (auto simp: is_saga_attribute_def saga_attributes_def)
  then show "d_a x \<noteq> a"
    using entry_writes_checked [OF assms(4,5) x] validate_no_grants [OF assms(4) x(1)] assms(6) by (auto simp: entry_write_ok_def)
qed

lemma status_after_assertion:
  assumes "db_view d = Current" and "db_wf (with_transaction t ds d)" and "settled ds"
    and "one_value (with_transaction t ds d) e SAGA_STATUS" and "asserted_status d e ds = Some st"
  shows "map_option status_from_keyword (field (with_transaction t ds d) e SAGA_STATUS (as_keyword d)) = Some st"
proof -
  obtain x where x: "x \<in> set ds" "d_e x = e" "d_a x = SAGA_STATUS" "d_added x"
      "map_option status_from_keyword (as_keyword d (d_v x)) = Some st"
    using asserted_status_datom [OF assms(5)] by blast
  then have "d_fact x = (e, SAGA_STATUS, d_v x)" by (simp add: d_fact_def)
  then have "(e, SAGA_STATUS, d_v x) \<in> db_facts (with_transaction t ds d)"
    unfolding db_facts_with_transaction [OF assms(1)] apply_settled [OF assms(3)] using x by blast
  moreover have "db_view (with_transaction t ds d) \<noteq> History" using assms(1) by simp
  ultimately have "field (with_transaction t ds d) e SAGA_STATUS (as_keyword d) = as_keyword d (d_v x)"
    using field_one [OF assms(2) _ assms(4)] by blast
  then show ?thesis using x(5) by simp
qed

lemma entry_status_after:
  assumes "db_wf d" and "db_view d = Current" and "db_wf (with_transaction t ds d)"
    and "validate_registry d ds = Inr ()" and "entry_at d e = Some p" and "settled ds"
    and "one_value (with_transaction t ds d) e SAGA_STATUS"
  shows "map_option status_from_keyword (field (with_transaction t ds d) e SAGA_STATUS (as_keyword d)) =
    (case asserted_status d e ds of Some st \<Rightarrow> Some st | None \<Rightarrow> se_status p)"
proof (cases "asserted_status d e ds")
  case (Some st)
  then show ?thesis using status_after_assertion [OF assms(2,3,6,7) Some] by simp
next
  case None
  have p: "se_status p = map_option status_from_keyword (field d e SAGA_STATUS (as_keyword d))" "se_entity p = e"
    using assms(5) by (simp_all add: entry_at_fields entry_at_entity)
  show ?thesis
  proof (cases "\<exists>x \<in> set ds. d_e x = e \<and> is_saga_attribute (d_a x)")
    case False
    then have "db_values (with_transaction t ds d) e SAGA_STATUS = db_values d e SAGA_STATUS"
      by (intro saga_values_untouched [OF assms(1-3)]) auto
    then show ?thesis using None p by (simp add: field_def)
  next
    case True
    then obtain x where x: "x \<in> set ds" "d_e x = e" "is_saga_attribute (d_a x)" by blast
    obtain k where k: "field d e SAGA_STATUS (as_keyword d) = Some k"
      using entry_writes_checked [OF assms(4,5) x] p(1) by (auto simp: entry_write_ok_def)
    have "db_view d \<noteq> History" using assms(2) by simp
    then obtain v where v: "(e, SAGA_STATUS, v) \<in> db_facts d" "as_keyword d v = Some k" using field_Some [OF assms(1) _ k] by blast
    have "d_added y" if "y \<in> set ds" "d_fact y = (e, SAGA_STATUS, v)" for y
      using entry_writes_checked [OF assms(4,5) that(1)] that(2) None p(2) by (auto simp: entry_write_ok_def d_fact_def)
    then have "(e, SAGA_STATUS, v) \<in> db_facts (with_transaction t ds d)"
      unfolding db_facts_with_transaction [OF assms(2)] apply_settled [OF assms(6)] using v(1) by blast
    moreover have "db_view (with_transaction t ds d) \<noteq> History" using assms(2) by simp
    ultimately have "field (with_transaction t ds d) e SAGA_STATUS (as_keyword d) = as_keyword d v"
      using field_one [OF assms(3) _ assms(7)] by blast
    then show ?thesis using None p(1) k v(2) by simp
  qed
qed

lemma entry_after:
  assumes "db_wf d" and "db_view d = Current" and "db_wf (with_transaction t ds d)"
    and "validate_registry d ds = Inr ()" and "entry_at d e = Some p"
  obtains p' where "entry_at (with_transaction t ds d) e = Some p'" and "se_id p' = se_id p" and "se_basis_t p' = se_basis_t p"
    and "se_owner p' = se_owner p" and "se_sealed p' = se_sealed p" and "se_grants p' = se_grants p"
    and "se_reserves p' = refs (with_transaction t ds d) e SAGA_RESERVES"
    and "se_status p' = map_option status_from_keyword (field (with_transaction t ds d) e SAGA_STATUS (as_keyword d))"
proof -
  note vals = entry_values_fixed [OF assms]
  have field: "field (with_transaction t ds d) e a f = field d e a f"
    if "a \<in> {SAGA_ID, SAGA_BASIS_T, SAGA_OWNER, SAGA_SEALED}" for a and f :: "val \<Rightarrow> 'a option"
    using that by (intro field_eqI vals) auto
  have refs: "refs (with_transaction t ds d) e SAGA_ID_GRANTS = refs d e SAGA_ID_GRANTS" by (simp add: refs_def vals)
  note p = entry_at_fields [OF assms(5)]
  obtain p' where p': "entry_at (with_transaction t ds d) e = Some p'" using p(7) by (simp add: entry_at_def field)
  note n = entry_at_fields [OF p']
  show thesis
  proof (rule that [OF p' _ _ _ _ _ n(2)])
    show "se_id p' = se_id p" using p(7) n(7) by (simp add: field)
    show "se_grants p' = se_grants p" using p(6) n(6) by (simp add: refs grants_untouched [OF assms(1-4)])
    show "se_status p' = map_option status_from_keyword (field (with_transaction t ds d) e SAGA_STATUS (as_keyword d))" using n(1) by simp
  qed (simp_all add: p n field)
qed

lemma wit_flip_valid:
  assumes "ds = wit_flip \<or> ds = wit_flip @ [wit_saga_datom SAGA_STATUS (Keyword 1) 2 False]"
  shows "validate_registry wit_open ds = Inr ()"
proof -
  obtain p where p: "entry_at wit_open 7 = Some p" "se_status p = Some Open" "\<not> se_sealed p" "se_grants p = []"
    using wit_entry(1) [OF wit_open_wf wit_open_simps(1,3) refl] wit_open_resolve
    by (auto simp: status_from_keyword_def)
  have st: "asserted_status wit_open 7 ds = Some Committed"
    using wit_open_resolve assms by (auto simp: asserted_status_def wit_flip_def as_keyword_def status_from_keyword_def)
  have only: "q = p" if "entry_at wit_open e = Some q" for e q
    using wit_entry(2) [OF wit_open_wf wit_open_simps(1,3) refl that] that p(1) by simp
  have "se_grants s = []" if "s \<in> set (open_entries wit_open)" for s
    using that entries_iff [OF wit_open_wf] only p(4) by (auto simp: wit_open_simps open_entries_def)
  then have "validate_granted_ids wit_open ds = Inr ()" by (simp add: validate_granted_ids_def)
  moreover have "validate_entity wit_open 7 ds = Inr ()"
    using assms by (elim disjE) (use p st in \<open>simp_all add: validate_entity_def validate_transition_def check_merge_record_def
        writes_to_def Let_def may_become_def is_terminal_def wit_flip_def engine_ids\<close>)
  ultimately show ?thesis using assms
    by (elim disjE) (simp_all add: validate_registry_def wit_flip_def is_grant_attribute_def engine_ids os_elems_def om_keys_def os_insert_def)
qed

subsection \<open>Properties\<close>

text \<open>
  C17. A finished saga is final. After any transaction that passes the registry checks, its entry
  reads as before in every field but the external-compensation ledger and the instant read
  off the transaction entity: status, identity, owner, basis, reservations, leased blocks and
  merge record cannot change.
\<close>

theorem finished_saga_is_final:
  assumes "db_wf d" and "applies t ds d" and "0 < t" and "unat t < 2 ^ 42"
    and "validate_registry d ds = Inr ()" and "entry_at d e = Some p" and "saga_is_finished p"
  shows "entry_at (with_transaction t ds d) e = Some (p\<lparr>
      se_finished_at := finished_at (with_transaction t ds d) e,
      se_compensations := map (compensation_at (with_transaction t ds d))
        (refs (with_transaction t ds d) e SAGA_COMPENSATIONS)\<rparr>)"
  using finished_is_final [OF assms(1) _ db_wf_with_transaction_at(2) [OF assms(1-4)] assms(5-7)] assms(2)
  by (simp add: applies_def)

definition wit_ledger :: "datom list" where
  "wit_ledger = [wit_saga_datom SAGA_COMPENSATIONS (Ref 9) 3 True]"

lemma open_entries_Nil:
  assumes "db_wf d" and "db_view d \<noteq> History" and "\<And>e p. entry_at d e = Some p \<Longrightarrow> \<not> saga_is_open p"
  shows "open_entries d = []"
  using entries_iff [OF assms(1,2)] assms(3) by (auto simp: open_entries_def filter_empty_conv)

lemma wit_done_entry:
  "\<exists>p. entry_at wit_done 7 = Some p \<and> se_status p = Some Committed \<and> \<not> se_sealed p \<and>
     (\<forall>e q. entry_at wit_done e = Some q \<longrightarrow> q = p)"
proof -
  have res: "db_resolve wit_done = db_resolve wit_open" by (simp add: wit_done_def)
  obtain p where p: "entry_at wit_done 7 = Some p" "se_status p = Some Committed" "\<not> se_sealed p"
    using wit_entry(1) [OF wit_done_wf wit_done_simps(1,3) res] wit_open_resolve
    by (auto simp: status_from_keyword_def)
  moreover have "q = p" if "entry_at wit_done e = Some q" for e q
    using wit_entry(2) [OF wit_done_wf wit_done_simps(1,3) res that] that p(1) by simp
  ultimately show ?thesis by blast
qed

lemma wit_ledger_valid: "validate_registry wit_done wit_ledger = Inr ()"
proof -
  obtain p where p: "entry_at wit_done 7 = Some p" "se_status p = Some Committed" "\<not> se_sealed p"
    and only: "\<forall>e q. entry_at wit_done e = Some q \<longrightarrow> q = p" using wit_done_entry by blast
  have "\<not> saga_is_open q" if "entry_at wit_done e = Some q" for e q
    using only [rule_format, OF that] p(2) by (simp add: saga_is_open_def)
  then have "open_entries wit_done = []"
    by (intro open_entries_Nil wit_done_wf) (simp_all add: wit_done_simps)
  then have "validate_granted_ids wit_done wit_ledger = Inr ()" by (simp add: validate_granted_ids_def)
  moreover have "validate_entity wit_done 7 wit_ledger = Inr ()"
    using p by (simp add: validate_entity_def wit_ledger_def asserted_status_def validate_transition_def
        check_merge_record_def writes_to_def Let_def engine_ids)
  ultimately show ?thesis
    by (simp add: validate_registry_def wit_ledger_def is_grant_attribute_def engine_ids os_elems_def om_keys_def os_insert_def)
qed

theorem finished_saga_is_final_witness:
  "map_option se_status (entry_at (with_transaction 3 wit_ledger wit_done) 7) = Some (Some Committed)"
proof -
  obtain p where p: "entry_at wit_done 7 = Some p" "se_status p = Some Committed" using wit_done_entry by blast
  have "applies 3 wit_ledger wit_done" by (rule wit_saga_applies) (simp_all add: wit_done_simps wit_ledger_def)
  from finished_saga_is_final [OF wit_done_wf this _ _ wit_ledger_valid p(1)] p(2) show ?thesis
    by (simp add: saga_is_finished_def is_terminal_def)
qed

text \<open>
  C28. What the registry looks like after an accepted transaction that does not both assert and retract a fact, and that
  leaves a saga with at most one status. An entry keeps its id, basis, owner, seal and leased blocks; its status
  stays or goes from open to a terminal one; a sealed entry gains no reservation; unless it was open only its ledger
  changes; and it gains a merge record only when it ends up committed. An entry that was not there opens as
  \<open>open\<close>, with a basis, an owner and a deadline, and gains no merge record.
\<close>

theorem registry_after_transaction:
  assumes "db_wf d" and "applies t ds d" and "0 < t" and "unat t < 2 ^ 42" and "validate_registry d ds = Inr ()"
    and "settled ds" and "d' = with_transaction t ds d" and "one_value d' e SAGA_STATUS"
  shows "case entry_at d e of
      Some p \<Rightarrow> (\<exists>p'. entry_at d' e = Some p' \<and>
        se_id p' = se_id p \<and> se_basis_t p' = se_basis_t p \<and> se_owner p' = se_owner p \<and> se_sealed p' = se_sealed p \<and> se_grants p' = se_grants p \<and>
        (se_status p' = se_status p \<or> se_status p = Some Open \<and> (\<exists>st. se_status p' = Some st \<and> is_terminal st)) \<and>
        (se_sealed p \<longrightarrow> set (se_reserves p') \<subseteq> set (se_reserves p)) \<and>
        (\<forall>a v. se_status p \<noteq> Some Open \<and> is_saga_attribute a \<and> a \<noteq> SAGA_COMPENSATIONS \<longrightarrow> ((e, a, v) \<in> db_facts d' \<longleftrightarrow> (e, a, v) \<in> db_facts d)) \<and>
        (\<forall>a v. a \<in> {SAGA_MERGED_TX, SAGA_STEPS} \<and> (e, a, v) \<in> db_facts d' - db_facts d \<longrightarrow> se_status p' = Some Committed))
    | None \<Rightarrow> (\<forall>p'. entry_at d' e = Some p' \<longrightarrow> se_status p' = Some Open \<and>
        (\<forall>a \<in> {SAGA_BASIS_T, SAGA_OWNER, SAGA_EXPIRES_AT}. \<exists>v. (e, a, v) \<in> db_facts d') \<and>
        (\<forall>a v. a \<in> {SAGA_MERGED_TX, SAGA_STEPS} \<longrightarrow> (e, a, v) \<notin> db_facts d' - db_facts d))"
proof -
  have view: "db_view d = Current" using assms(2) by (simp add: applies_def)
  then have nohist: "db_view d \<noteq> History" "db_view (with_transaction t ds d) \<noteq> History" by simp_all
  have wf': "db_wf (with_transaction t ds d)" using db_wf_with_transaction_at(2) [OF assms(1-4)] .
  note after = db_facts_with_transaction [OF view, of t ds] apply_settled [OF assms(6)]
  note one = assms(8) [unfolded assms(7)]
  have gained: "\<exists>x \<in> set ds. d_added x \<and> d_fact x = f" if "f \<in> db_facts (with_transaction t ds d)" "f \<notin> db_facts d" for f
    using that unfolding after by blast
  show ?thesis unfolding assms(7)
  proof (cases "entry_at d e", simp_all only: option.case)
    case None
    show "\<forall>p'. entry_at (with_transaction t ds d) e = Some p' \<longrightarrow> se_status p' = Some Open \<and>
        (\<forall>a \<in> {SAGA_BASIS_T, SAGA_OWNER, SAGA_EXPIRES_AT}. \<exists>v. (e, a, v) \<in> db_facts (with_transaction t ds d)) \<and>
        (\<forall>a v. a \<in> {SAGA_MERGED_TX, SAGA_STEPS} \<longrightarrow> (e, a, v) \<notin> db_facts (with_transaction t ds d) - db_facts d)"
    proof (intro allI impI)
      fix p' assume p': "entry_at (with_transaction t ds d) e = Some p'"
      have "\<exists>x \<in> set ds. d_e x = e \<and> is_saga_attribute (d_a x)"
      proof (rule ccontr)
        assume "\<not> ?thesis"
        then have "db_values (with_transaction t ds d) e SAGA_ID = db_values d e SAGA_ID"
          by (intro saga_values_untouched [OF assms(1) view wf']) auto
        then show False using None p' by (simp add: entry_at_def field_def split: option.splits)
      qed
      then obtain x where "x \<in> set ds" "d_e x = e" "is_saga_attribute (d_a x)" by blast
      note opened = opening_complete [OF assms(5) None this]
      have "se_status p' = map_option status_from_keyword (field (with_transaction t ds d) e SAGA_STATUS (as_keyword d))"
        using entry_at_fields(1) [OF p'] by simp
      then have "se_status p' = Some Open" using status_after_assertion [OF view wf' assms(6) one] opened by simp
      moreover have "\<exists>v. (e, a, v) \<in> db_facts (with_transaction t ds d)" if a: "a \<in> {SAGA_BASIS_T, SAGA_OWNER, SAGA_EXPIRES_AT}" for a
      proof -
        have "\<exists>y \<in> set ds. d_e y = e \<and> d_a y = a \<and> d_added y" using opened a by auto
        then obtain y where y: "y \<in> set ds" "d_e y = e" "d_a y = a" "d_added y" by blast
        then have "d_fact y = (e, a, d_v y)" by (simp add: d_fact_def)
        then show ?thesis unfolding after using y(1,4) by blast
      qed
      moreover have "(e, a, v) \<notin> db_facts (with_transaction t ds d) - db_facts d" if "a \<in> {SAGA_MERGED_TX, SAGA_STEPS}" for a v
      proof
        assume "(e, a, v) \<in> db_facts (with_transaction t ds d) - db_facts d"
        then obtain y where "y \<in> set ds" "d_added y" "d_fact y = (e, a, v)" using gained by blast
        then show False using opened that by (auto simp: d_fact_def)
      qed
      ultimately show "se_status p' = Some Open \<and>
        (\<forall>a \<in> {SAGA_BASIS_T, SAGA_OWNER, SAGA_EXPIRES_AT}. \<exists>v. (e, a, v) \<in> db_facts (with_transaction t ds d)) \<and>
        (\<forall>a v. a \<in> {SAGA_MERGED_TX, SAGA_STEPS} \<longrightarrow> (e, a, v) \<notin> db_facts (with_transaction t ds d) - db_facts d)" by blast
    qed
  next
    case (Some p)
    note e = entry_at_entity [OF Some]
    obtain p' where p': "entry_at (with_transaction t ds d) e = Some p'" "se_id p' = se_id p" "se_basis_t p' = se_basis_t p"
        "se_owner p' = se_owner p" "se_sealed p' = se_sealed p" "se_grants p' = se_grants p"
        "se_reserves p' = refs (with_transaction t ds d) e SAGA_RESERVES"
        "se_status p' = map_option status_from_keyword (field (with_transaction t ds d) e SAGA_STATUS (as_keyword d))"
      using entry_after [OF assms(1) view wf' assms(5) Some] by blast
    note write_ok = entry_writes_checked [OF assms(5) Some]
    have status: "se_status p' = (case asserted_status d e ds of Some st \<Rightarrow> Some st | None \<Rightarrow> se_status p)"
      using entry_status_after [OF assms(1) view wf' assms(5) Some assms(6) one] p'(8) by simp
    have "se_status p' = se_status p \<or> se_status p = Some Open \<and> (\<exists>st. se_status p' = Some st \<and> is_terminal st)"
    proof (cases "asserted_status d e ds")
      case (Some st)
      then obtain x where "x \<in> set ds" "d_e x = e" "d_a x = SAGA_STATUS" using asserted_status_datom by blast
      then show ?thesis using write_ok [of x] status Some e by (auto simp: entry_write_ok_def)
    qed (simp add: status)
    moreover have "set (se_reserves p') \<subseteq> set (se_reserves p)" if "se_sealed p"
    proof -
      have kept: "(e, SAGA_RESERVES, v) \<in> db_facts d" if new: "(e, SAGA_RESERVES, v) \<in> db_facts (with_transaction t ds d)" for v
      proof (rule ccontr)
        assume "(e, SAGA_RESERVES, v) \<notin> db_facts d"
        then obtain x where "x \<in> set ds" "d_added x" "d_fact x = (e, SAGA_RESERVES, v)" using gained [OF new] by blast
        then show False using write_ok [of x] \<open>se_sealed p\<close>
          by (auto simp: entry_write_ok_def d_fact_def is_saga_attribute_def saga_attributes_def)
      qed
      have "set (refs (with_transaction t ds d) e SAGA_RESERVES) \<subseteq> set (refs d e SAGA_RESERVES)"
        unfolding refs_def set_sort set_map_filter subset_iff db_values_facts [OF assms(1) nohist(1)] db_values_facts [OF wf' nohist(2)]
        using kept by blast
      moreover have "se_reserves p = refs d e SAGA_RESERVES" using entry_at_fields(2) [OF Some] .
      ultimately show ?thesis using p'(7) by simp
    qed
    moreover have "(e, a, v) \<in> db_facts (with_transaction t ds d) \<longleftrightarrow> (e, a, v) \<in> db_facts d"
      if "se_status p \<noteq> Some Open" "is_saga_attribute a" "a \<noteq> SAGA_COMPENSATIONS" for a v
    proof -
      have "d_fact x \<noteq> (e, a, v)" if "x \<in> set ds" for x
        using write_ok [OF that] \<open>se_status p \<noteq> Some Open\<close> \<open>is_saga_attribute a\<close> \<open>a \<noteq> SAGA_COMPENSATIONS\<close>
        by (auto simp: entry_write_ok_def d_fact_def)
      then show ?thesis unfolding after by blast
    qed
    moreover have "se_status p' = Some Committed"
      if a: "a \<in> {SAGA_MERGED_TX, SAGA_STEPS}" "(e, a, v) \<in> db_facts (with_transaction t ds d) - db_facts d" for a v
    proof -
      obtain x where x: "x \<in> set ds" "d_added x" "d_fact x = (e, a, v)" using gained a(2) by blast
      then have "d_e x = e" "d_a x = a" by (simp_all add: d_fact_def)
      moreover have "is_saga_attribute a" using a(1) by (auto simp: is_saga_attribute_def saga_attributes_def)
      ultimately have "asserted_status d e ds = Some Committed" using write_ok [OF x(1)] x(2) a(1) e by (auto simp: entry_write_ok_def)
      then show ?thesis using status by simp
    qed
    ultimately show "\<exists>p'. entry_at (with_transaction t ds d) e = Some p' \<and>
        se_id p' = se_id p \<and> se_basis_t p' = se_basis_t p \<and> se_owner p' = se_owner p \<and> se_sealed p' = se_sealed p \<and> se_grants p' = se_grants p \<and>
        (se_status p' = se_status p \<or> se_status p = Some Open \<and> (\<exists>st. se_status p' = Some st \<and> is_terminal st)) \<and>
        (se_sealed p \<longrightarrow> set (se_reserves p') \<subseteq> set (se_reserves p)) \<and>
        (\<forall>a v. se_status p \<noteq> Some Open \<and> is_saga_attribute a \<and> a \<noteq> SAGA_COMPENSATIONS \<longrightarrow> ((e, a, v) \<in> db_facts (with_transaction t ds d) \<longleftrightarrow> (e, a, v) \<in> db_facts d)) \<and>
        (\<forall>a v. a \<in> {SAGA_MERGED_TX, SAGA_STEPS} \<and> (e, a, v) \<in> db_facts (with_transaction t ds d) - db_facts d \<longrightarrow> se_status p' = Some Committed)"
      using p'(1-6) by blast
  qed
qed

theorem registry_after_transaction_witness:
  "\<exists>p p'. entry_at wit_open 7 = Some p \<and> se_status p = Some Open \<and> entry_at wit_done 7 = Some p' \<and>
     se_status p' = Some Committed \<and> se_id p' = se_id p \<and> se_grants p' = se_grants p"
proof -
  obtain p where p: "entry_at wit_open 7 = Some p" "se_status p = Some Open"
    using wit_entry(1) [OF wit_open_wf wit_open_simps(1,3) refl] wit_open_resolve
    by (auto simp: status_from_keyword_def)
  have settled: "settled wit_flip" by (auto simp: settled_def wit_flip_def)
  have one: "one_value wit_done 7 SAGA_STATUS" unfolding one_value_def wit_done_simps by (auto simp: engine_ids)
  have valid: "validate_registry wit_open wit_flip = Inr ()" by (rule wit_flip_valid) simp
  have t: "0 < (2 :: u64)" "unat (2 :: u64) < 2 ^ 42" by simp_all
  have "\<exists>p'. entry_at wit_done 7 = Some p' \<and> se_id p' = se_id p \<and> se_grants p' = se_grants p"
    using registry_after_transaction [OF wit_open_wf wit_flip_applies t valid settled wit_done_def one] unfolding p(1) option.case by blast
  then show ?thesis using p wit_done_entry by auto
qed


definition wit_leased :: db where
  "wit_leased = wit_open\<lparr>db_recorded := db_recorded wit_open @ [wit_saga_datom SAGA_ID_GRANTS (Ref 7) 1 True,
     wit_saga_datom SAGA_GRANT_PARTITION (Long 2) 1 True, wit_saga_datom SAGA_GRANT_START (Long 1000) 1 True,
     wit_saga_datom SAGA_GRANT_LENGTH (Long 10) 1 True]\<rparr>"

lemma wit_leased_facts:
  "db_facts wit_leased = {(7, SAGA_ID, Uuid 5), (7, SAGA_STATUS, Keyword 0), (7, SAGA_ID_GRANTS, Ref 7),
     (7, SAGA_GRANT_PARTITION, Long 2), (7, SAGA_GRANT_START, Long 1000), (7, SAGA_GRANT_LENGTH, Long 10)}"
proof -
  have "db_facts wit_leased = apply_facts [wit_saga_datom SAGA_ID_GRANTS (Ref 7) 1 True,
     wit_saga_datom SAGA_GRANT_PARTITION (Long 2) 1 True, wit_saga_datom SAGA_GRANT_START (Long 1000) 1 True,
     wit_saga_datom SAGA_GRANT_LENGTH (Long 10) 1 True] (db_facts wit_open)"
    using wit_open_simps(1) by (simp add: db_facts_current wit_leased_def)
  then show ?thesis by (auto simp: wit_open_simps fact_step_def)
qed

lemma wit_leased_wf: "db_wf wit_leased" "db_view wit_leased \<noteq> History"
  by (simp_all add: db_wf_def wit_leased_def wit_open_def db_default_def wit_saga_datom_def apply_transaction_def Let_def
      schema_wf_default tx_bounded_def eid_sequence_tx_entity_small touches_naming_def is_schema_attribute_def engine_ids)

definition wit_block :: id_grant where
  "wit_block = \<lparr>g_entity = 7, g_partition = Some 2, g_start = Some 1000, g_length = Some 10\<rparr>"

lemma wit_leased_entry:
  "\<exists>p. p \<in> set (open_entries wit_leased) \<and> se_entity p = 7 \<and> se_grants p = [wit_block] \<and>
     (\<forall>q \<in> set (open_entries wit_leased). q = p) \<and> wit_block \<in> set (grants wit_leased)"
proof -
  note single = values_single [OF wit_leased_wf, unfolded wit_leased_facts]
  have vals: "db_values wit_leased 7 SAGA_ID = [Uuid 5]" "db_values wit_leased 7 SAGA_STATUS = [Keyword 0]"
    "db_values wit_leased 7 SAGA_ID_GRANTS = [Ref 7]" "db_values wit_leased 7 SAGA_GRANT_PARTITION = [Long 2]"
    "db_values wit_leased 7 SAGA_GRANT_START = [Long 1000]" "db_values wit_leased 7 SAGA_GRANT_LENGTH = [Long 10]"
    by (rule single; simp add: engine_ids)+
  have block: "grant_at wit_leased 7 = wit_block"
    by (simp add: grant_at_def field_def vals as_long_def wit_block_def)
  have "db_resolve wit_leased 0 = Some (Kw (Some STATUS_NAMESPACE) ''open'')"
    using wit_open_resolve(1) by (simp add: db_resolve_def wit_leased_def)
  then obtain p where p: "entry_at wit_leased 7 = Some p" "se_status p = Some Open" "se_grants p = [wit_block]"
    using vals block
    by (simp add: entry_at_def field_def as_uuid_def as_keyword_def refs_def as_reference_def List.map_filter_simps
        status_from_keyword_def)
  have only: "e = 7" if "entry_at wit_leased e = Some q" for e q
  proof -
    from that obtain i where "field wit_leased e SAGA_ID as_uuid = Some i"
      by (auto simp: entry_at_def split: option.splits)
    then show ?thesis
      using field_Some [OF wit_leased_wf, of e SAGA_ID as_uuid i] unfolding wit_leased_facts by auto
  qed
  have "7 \<in> set (remdups_adj (sort (map d_e (datoms_for_attribute wit_leased SAGA_GRANT_START))))"
    unfolding entities_of_attribute [OF wit_leased_wf] wit_leased_facts by auto
  then have "wit_block \<in> set (grants wit_leased)" using block unfolding grants_def set_map by force
  moreover have "q = p" if "q \<in> set (open_entries wit_leased)" for q
    using that only p(1) unfolding open_entries_def set_filter entries_iff [OF wit_leased_wf] by force
  moreover have "p \<in> set (open_entries wit_leased)"
    using p unfolding open_entries_def set_filter entries_iff [OF wit_leased_wf] by (auto simp: saga_is_open_def)
  ultimately show ?thesis using p entry_at_entity by blast
qed


text \<open>
  C39. The transition check looks only at the last assertion of the status, so a transaction that
  asserts \<open>committed\<close> and then retracts it passes every check and leaves a saga without a
  status, which the checks mean to exclude.
\<close>

theorem status_cleared_behind_assertion:
  "validate_registry wit_open (wit_flip @ [wit_saga_datom SAGA_STATUS (Keyword 1) 2 False]) = Inr () \<and>
   map_option se_status (entry_at
     (with_transaction 2 (wit_flip @ [wit_saga_datom SAGA_STATUS (Keyword 1) 2 False]) wit_open) 7) = Some None"
proof
  show "validate_registry wit_open (wit_flip @ [wit_saga_datom SAGA_STATUS (Keyword 1) 2 False]) = Inr ()"
    by (rule wit_flip_valid) simp
next
  let ?ds = "wit_flip @ [wit_saga_datom SAGA_STATUS (Keyword 1) 2 False]"
  let ?n = "with_transaction 2 ?ds wit_open"
  have app: "applies 2 ?ds wit_open" by (rule wit_saga_applies) (simp_all add: wit_open_simps wit_flip_def)
  have wf: "db_wf ?n" by (rule db_wf_with_transaction_at [OF wit_open_wf app]) simp_all
  have view: "db_view ?n \<noteq> History" by (simp add: wit_open_simps)
  have facts: "db_facts ?n = {(7, SAGA_ID, Uuid 5)}"
    by (auto simp: db_facts_with_transaction wit_open_simps wit_flip_def fact_step_def engine_ids)
  have "db_values ?n 7 SAGA_ID = [Uuid 5]"
    by (rule values_single [OF wf view]) (unfold facts, simp add: engine_ids)
  moreover have "db_values ?n 7 SAGA_STATUS = []"
    by (rule values_none [OF wf view]) (unfold facts, simp add: engine_ids)
  ultimately show "map_option se_status (entry_at ?n 7) = Some None"
    by (simp add: entry_at_def field_def as_uuid_def)
qed

end
