(* ===== verification/Tx_Branch.thy ===== *)
theory Tx_Branch
  imports Tx_Saga
begin

text \<open>
  What a saga branch's own pipeline refuses (\<open>crates/corium-tx/src/branch.rs\<close>): a step may write
  only ids leased to the branch or ids that predate it, never the registry or the schema
  partition, and a saga that reserves may touch only what it reserved.
\<close>

record branch_rules =
  br_grants :: "id_grant list"
  br_reserves :: "entity_id list"

definition rules_of :: "saga_entry \<Rightarrow> branch_rules" where
  "rules_of entry = \<lparr>br_grants = se_grants entry, br_reserves = se_reserves entry\<rparr>"

definition grant_floor :: "branch_rules \<Rightarrow> u64" where
  "grant_floor rules =
    (case filter (\<lambda>start. \<not> sint start < 0) (List.map_filter g_start (br_grants rules)) of
       [] \<Rightarrow> - 1
     | start # starts \<Rightarrow> fold min starts start)"

definition is_branch_entity :: "branch_rules \<Rightarrow> entity_id \<Rightarrow> bool" where
  "is_branch_entity rules e = list_ex (\<lambda>g. grant_holds g e) (br_grants rules)"

definition is_pre_existing :: "branch_rules \<Rightarrow> entity_id \<Rightarrow> bool" where
  "is_pre_existing rules e =
    (eid_partition e = part_id PartUser \<and> eid_sequence e < grant_floor rules \<and> \<not> is_branch_entity rules e)"

definition rules_reserve :: "branch_rules \<Rightarrow> entity_id \<Rightarrow> attr_id \<Rightarrow> bool" where
  "rules_reserve rules e a = (e \<in> set (br_reserves rules) \<or> a \<in> set (br_reserves rules))"

datatype step_violation =
    NoGrant
  | UngrantedId entity_id
  | Unreserved entity_id attr_id
  | UnreservedRef entity_id attr_id entity_id
  | RegistryWrite attr_id
  | SchemaEntity entity_id

definition ungranted :: "branch_rules \<Rightarrow> entity_id \<Rightarrow> bool" where
  "ungranted rules e =
    (eid_partition e = part_id PartUser \<and> \<not> is_branch_entity rules e \<and> \<not> is_pre_existing rules e)"

definition validate_step_datom :: "branch_rules \<Rightarrow> datom \<Rightarrow> step_violation + unit" where
  "validate_step_datom rules x =
    (let target = as_reference (d_v x)
     in if is_registry_attribute (d_a x) then Inl (RegistryWrite (d_a x))
        else if eid_partition (d_e x) = part_id PartDb then Inl (SchemaEntity (d_e x))
        else if ungranted rules (d_e x) then Inl (UngrantedId (d_e x))
        else if (case target of Some t \<Rightarrow> ungranted rules t | None \<Rightarrow> False) then Inl (UngrantedId (the target))
        else if br_reserves rules = [] then Inr ()
        else if is_pre_existing rules (d_e x) \<and> \<not> rules_reserve rules (d_e x) (d_a x)
          then Inl (Unreserved (d_e x) (d_a x))
        else if (case target of Some t \<Rightarrow> is_pre_existing rules t \<and> \<not> rules_reserve rules t (d_a x) | None \<Rightarrow> False)
          then Inl (UnreservedRef (d_e x) (d_a x) (the target))
        else Inr ())"

definition validate_step :: "datom list \<Rightarrow> branch_rules \<Rightarrow> step_violation + unit" where
  "validate_step ds rules =
    (if br_grants rules = [] then Inl NoGrant else for_each (validate_step_datom rules) ds)"

subsection \<open>The boundary\<close>

lemma fold_min_le: "fold min xs (m :: u64) \<le> m \<and> (\<forall>x \<in> set xs. fold min xs m \<le> x)"
proof (induction xs arbitrary: m)
  case (Cons y ys)
  show ?case using Cons [of "min y m"] by auto
qed simp

lemma grant_floor_le:
  assumes "g \<in> set (br_grants rules)" and "g_start g = Some start" and "\<not> sint start < 0"
  shows "grant_floor rules \<le> start"
proof -
  have "start \<in> set (filter (\<lambda>start. \<not> sint start < 0) (List.map_filter g_start (br_grants rules)))"
    using assms by (auto simp: set_map_filter)
  then show ?thesis using fold_min_le
    by (cases "filter (\<lambda>start. \<not> sint start < 0) (List.map_filter g_start (br_grants rules))")
      (auto simp: grant_floor_def)
qed

text \<open>Below the floor nothing is leased, so an id is the parent's or the branch's, never both.\<close>

lemma grant_holds_above_floor:
  assumes "g \<in> set (br_grants rules)" and "grant_holds g e" and "\<And>s. g_start g = Some s \<Longrightarrow> \<not> sint s < 0"
  shows "grant_floor rules \<le> eid_sequence e"
proof -
  obtain start where s: "g_start g = Some start" "sint start \<le> sint (eid_sequence e)"
    using assms(2) by (auto simp: grant_holds_def grant_contains_def split: if_splits option.splits)
  have "start \<le> eid_sequence e"
    using s(2) assms(3) [OF s(1)] uint_range_size [of start]
    unfolding sint_eid_sequence sint_cases [of start] word_le_def by (simp add: word_size split: if_splits)
  then show ?thesis using grant_floor_le [OF assms(1) s(1) assms(3) [OF s(1)]] by simp
qed

text \<open>What a step that passes may say.\<close>

lemma validate_step_datom_ok:
  assumes "validate_step_datom rules x = Inr ()"
  shows "\<not> is_registry_attribute (d_a x)" and "eid_partition (d_e x) \<noteq> part_id PartDb"
    and "eid_partition (d_e x) = part_id PartUser \<Longrightarrow> is_branch_entity rules (d_e x) \<or> is_pre_existing rules (d_e x)"
    and "d_v x = Ref t \<Longrightarrow> eid_partition t = part_id PartUser \<Longrightarrow> is_branch_entity rules t \<or> is_pre_existing rules t"
    and "br_reserves rules \<noteq> [] \<Longrightarrow> is_pre_existing rules (d_e x) \<Longrightarrow> rules_reserve rules (d_e x) (d_a x)"
    and "br_reserves rules \<noteq> [] \<Longrightarrow> d_v x = Ref t \<Longrightarrow> is_pre_existing rules t \<Longrightarrow> rules_reserve rules t (d_a x)"
  using assms
  by (auto simp: validate_step_datom_def Let_def ungranted_def as_reference_def split: if_splits)

subsection \<open>Properties\<close>

text \<open>
  C31. A step a branch accepts stays inside what the saga declared. The branch has a lease. The facts the step changes
  are about no registry attribute and no schema entity; a user entity they are about or refer to is leased to the
  branch or predates it. When the saga reserves (an empty reservation reserves nothing and restricts nothing), the
  changed facts about an entity that predates the branch, and the references to one, are covered by the
  reservation, by the entity or by the attribute. Of entities of the transaction partition nothing more is said:
  a step may write them, with or without a reservation.
\<close>

theorem accepted_step_stays_inside:
  assumes "validate_step ds rules = Inr ()" and "f \<in> apply_facts ds F - F \<or> f \<in> F - apply_facts ds F"
    and "f = (e, a, v)"
  shows "br_grants rules \<noteq> [] \<and> \<not> is_registry_attribute a \<and> eid_partition e \<noteq> part_id PartDb \<and>
    (eid_partition e = part_id PartUser \<longrightarrow> is_branch_entity rules e \<or> is_pre_existing rules e) \<and>
    (\<forall>t. v = Ref t \<longrightarrow> eid_partition t = part_id PartUser \<longrightarrow> is_branch_entity rules t \<or> is_pre_existing rules t) \<and>
    (br_reserves rules \<noteq> [] \<longrightarrow>
       (is_pre_existing rules e \<longrightarrow> e \<in> set (br_reserves rules) \<or> a \<in> set (br_reserves rules)) \<and>
       (\<forall>t. v = Ref t \<longrightarrow> is_pre_existing rules t \<longrightarrow> t \<in> set (br_reserves rules) \<or> a \<in> set (br_reserves rules)))"
proof -
  have "\<exists>x \<in> set ds. d_fact x = (e, a, v)"
    using assms(2,3) apply_facts_other [of ds "(e, a, v)" F] by blast
  then obtain x where x: "x \<in> set ds" "d_e x = e" "d_a x = a" "d_v x = v" by (auto simp: d_fact_def)
  have grants: "br_grants rules \<noteq> []" and "validate_step_datom rules x = Inr ()"
    using assms(1) x(1) by (auto simp: validate_step_def for_each_Inr split: if_splits)
  note ok = validate_step_datom_ok [OF this(2), unfolded x(2-4)]
  show ?thesis using grants ok unfolding rules_reserve_def by blast
qed

text \<open>A branch with a lease from 1000 on that reserves one older entity writes it.\<close>

theorem accepted_step_stays_inside_witness:
  "let r = \<lparr>br_grants = [wit_block], br_reserves = [eid_new 2 500]\<rparr>;
       x = \<lparr>d_e = eid_new 2 500, d_a = 200, d_v = Long 1, d_tx = tx_entity 1, d_added = True\<rparr>
   in validate_step [x] r = Inr () \<and> is_pre_existing r (d_e x) \<and> (d_e x \<in> set (br_reserves r) \<or> d_a x \<in> set (br_reserves r))"
proof -
  let ?r = "\<lparr>br_grants = [wit_block], br_reserves = [eid_new 2 500]\<rparr>"
    and ?x = "\<lparr>d_e = eid_new 2 500, d_a = 200, d_v = Long 1, d_tx = tx_entity 1, d_added = True\<rparr>"
  have part: "eid_partition (eid_new 2 500) = 2" and seq: "eid_sequence (eid_new 2 500) = 500"
    by (simp_all add: eid_partition_new eid_sequence_new)
  have "\<not> grant_holds wit_block (eid_new 2 500)"
    unfolding grant_holds_def part seq
    by (simp add: grant_contains_def wit_block_def grant_end_def i64_checked_add_def i64_fits_def)
  then have old: "is_pre_existing ?r (eid_new 2 500)"
    unfolding is_pre_existing_def part seq by (simp add: is_branch_entity_def grant_floor_def wit_block_def List.map_filter_simps)
  then have valid: "validate_step [?x] ?r = Inr ()"
    by (simp add: validate_step_def validate_step_datom_def Let_def as_reference_def ungranted_def rules_reserve_def part
        is_registry_attribute_def is_saga_attribute_def saga_attributes_def is_grant_attribute_def is_compensation_attribute_def engine_ids)
  have "eid_new 2 500 \<in> set (br_reserves ?r) \<or> 200 \<in> set (br_reserves ?r)"
    using accepted_step_stays_inside [OF valid, of "(eid_new 2 500, 200, Long 1)" "{}"] old by (simp add: fact_step_def d_fact_def)
  then show ?thesis using valid old by (simp add: Let_def)
qed

end
