(* ===== verification/Tx.thy ===== *)
theory Tx
  imports Tx_Branch
begin

text \<open>
  Transaction expansion, entity resolution and validation (\<open>crates/corium-tx/src/lib.rs\<close>).

  \<open>prepare\<close> expands map forms, unifies and allocates tempids, and folds the operations over a
  working database, collecting the datoms; the first error ends it. The recursion of
  \<open>collect_entity_retractions\<close> runs with fuel: \<open>None\<close> is running out, which \<open>prepare\<close> never does
  (\<open>collect_total\<close>).
\<close>

subsection \<open>Data\<close>

type_synonym temp_id = string

definition TX_TEMPID :: temp_id where
  "TX_TEMPID = ''datomic.tx''"

datatype entity_ref = EId entity_id | Temp temp_id | Lookup entity_id val

datatype tx_op =
    Add entity_ref attr_id val
  | AddRef entity_ref attr_id entity_ref
  | Retract entity_ref attr_id val
  | Cas entity_ref attr_id "val option" val
  | RetractEntity entity_ref

record entity_map =
  em_entity :: entity_ref
  em_attributes :: "(attr_id \<times> val list) list"

datatype tx_item = ItemOp tx_op | ItemMap entity_map

record prepared_tx =
  pt_datoms :: "datom list"
  pt_tempids :: "(temp_id, entity_id) omap"

datatype tx_error =
    UnknownAttribute entity_id
  | TypeMismatch entity_id
  | LookupNotFound
  | LookupNotUnique
  | UniqueConflict
  | CasFailed
  | CasCardinality
  | TxInstantNotMonotonic i64 i64
  | InvalidTxInstantOperation
  | UnprotectedValue entity_id
  | UnexpectedProtection entity_id
  | StaleProtectionForm entity_id entity_id u32 entity_id u32
  | SchemaAttribute entity_id
  | RetiredAttribute entity_id
  | SagaRefused saga_violation
  | StepRefused step_violation
  | ForeignProtectionClass entity_id entity_id

subsection \<open>Validation of one value\<close>

definition validate_assertion_form :: "db \<Rightarrow> attr_id \<Rightarrow> val \<Rightarrow> tx_error + unit" where
  "validate_assertion_form d a v =
    (case tl_current (schema_protection (db_schema d) a) of
       Some expected_class \<Rightarrow>
         (case v of
            Sealed s \<Rightarrow>
              let expected_epoch = (case schema_class (db_schema d) expected_class of
                    None \<Rightarrow> s_epoch s | Some cls \<Rightarrow> pc_current_epoch cls)
              in if s_class s = expected_class \<and> s_epoch s = expected_epoch then Inr ()
                 else Inl (StaleProtectionForm a expected_class expected_epoch (s_class s) (s_epoch s))
          | _ \<Rightarrow> Inl (UnprotectedValue a))
     | None \<Rightarrow> (case v of Sealed _ \<Rightarrow> Inl (UnexpectedProtection a) | _ \<Rightarrow> Inr ()))"

definition validate_historical_form :: "db \<Rightarrow> attr_id \<Rightarrow> val \<Rightarrow> tx_error + unit" where
  "validate_historical_form d a v = (case v of
     Sealed s \<Rightarrow>
       if s_class s \<in> set (tl_classes (schema_protection (db_schema d) a)) then Inr ()
       else Inl (ForeignProtectionClass a (s_class s))
   | _ \<Rightarrow> Inr ())"

definition writable_by_transaction :: "entity_id \<Rightarrow> attr_id \<Rightarrow> bool" where
  "writable_by_transaction e a =
    (if is_audit_attribute a then False
     else if \<not> is_schema_attribute a then True
     else a = IDENT \<and> eid_partition e \<noteq> part_id PartDb)"

definition validate_value :: "db \<Rightarrow> entity_id \<Rightarrow> attr_id \<Rightarrow> val \<Rightarrow> tx_error + unit" where
  "validate_value d e a v =
    (if \<not> writable_by_transaction e a then Inl (SchemaAttribute a)
     else bindr (ok_or (UnknownAttribute a) (schema_get (db_schema d) a)) (\<lambda>attr.
       if \<not> has_type v (at_value_type attr) then Inl (TypeMismatch a) else Inr ()))"

definition validate_not_retired :: "db \<Rightarrow> attr_id \<Rightarrow> tx_error + unit" where
  "validate_not_retired d a = (if is_retired (db_schema d) a then Inl (RetiredAttribute a) else Inr ())"

subsection \<open>Retracting an entity\<close>

type_synonym collected = "fact_of oset \<times> entity_id oset"

fun fold_option :: "('a \<Rightarrow> 's \<Rightarrow> 's option) \<Rightarrow> 'a list \<Rightarrow> 's \<Rightarrow> 's option" where
  "fold_option f [] s = Some s"
| "fold_option f (x # xs) s = Option.bind (f x s) (fold_option f xs)"

definition is_component_ref :: "db \<Rightarrow> datom \<Rightarrow> entity_id option" where
  "is_component_ref d x = (case schema_get (db_schema d) (d_a x) of
     None \<Rightarrow> None | Some attr \<Rightarrow> if at_is_component attr then as_reference (d_v x) else None)"

fun collect_entity_retractions :: "nat \<Rightarrow> db \<Rightarrow> entity_id \<Rightarrow> collected \<Rightarrow> collected option" where
  "collect_entity_retractions n d e (facts, seen) =
    (if os_member e seen then Some (facts, seen)
     else case n of
       0 \<Rightarrow> None
     | Suc m \<Rightarrow> fold_option (\<lambda>x (facts, seen).
         if d_e x = e then
           map_option (\<lambda>(facts, seen). (os_insert (d_fact x) facts, seen))
             (case is_component_ref d x of
                Some child \<Rightarrow> collect_entity_retractions m d child (facts, seen)
              | None \<Rightarrow> Some (facts, seen))
         else if d_v x = Ref e then Some (os_insert (d_fact x) facts, seen)
         else Some (facts, seen)) (datoms d) (facts, os_insert e seen))"

subsection \<open>Expansion and tempids\<close>

fun expand_item :: "tx_item \<Rightarrow> tx_op list" where
  "expand_item (ItemOp op) = [op]"
| "expand_item (ItemMap m) = concat (map (\<lambda>(a, vs). map (Add (em_entity m) a) vs) (em_attributes m))"

definition unify_step :: "db \<Rightarrow> tx_op \<Rightarrow> (temp_id, entity_id) omap \<Rightarrow> (temp_id, entity_id) omap" where
  "unify_step d op tempids = (case op of
     Add (Temp temp) a v \<Rightarrow>
       if temp \<noteq> TX_TEMPID
          \<and> Option.bind (schema_get (db_schema d) a) at_unique = Some UniqueIdentity
       then (case lookup d a v of Some e \<Rightarrow> om_insert temp e tempids | None \<Rightarrow> tempids)
       else tempids
   | _ \<Rightarrow> tempids)"

fun entity_positions :: "tx_op \<Rightarrow> entity_ref list" where
  "entity_positions (Add e _ _) = [e]"
| "entity_positions (Retract e _ _) = [e]"
| "entity_positions (Cas e _ _ _) = [e]"
| "entity_positions (RetractEntity e) = [e]"
| "entity_positions (AddRef e _ target) = [e, target]"

definition allocate_step ::
    "tx_id \<Rightarrow> entity_ref \<Rightarrow> (temp_id, entity_id) omap \<times> u64 \<Rightarrow> (temp_id, entity_id) omap \<times> u64" where
  "allocate_step tx entity = (\<lambda>(tempids, next). case entity of
     Temp temp \<Rightarrow>
       if temp = TX_TEMPID then (om_insert temp tx tempids, next)
       else if om_get tempids temp \<noteq> None then (tempids, next)
       else (om_insert temp (eid_new (part_id PartUser) next) tempids, next + 1)
   | _ \<Rightarrow> (tempids, next))"

definition assign_tempids :: "db \<Rightarrow> tx_op list \<Rightarrow> tx_id \<Rightarrow> u64 \<Rightarrow> (temp_id, entity_id) omap" where
  "assign_tempids d ops tx next_user_sequence =
    (let unified = fold (unify_step d) ops om_empty
     in fst (fold (allocate_step tx) (concat (map entity_positions ops))
          (unified, max next_user_sequence FIRST_USER_ID)))"

text \<open>\<open>tempids[t]\<close> panics on a tempid that was not assigned; every tempid of an operation is.\<close>

definition resolve_entity ::
    "db \<Rightarrow> (temp_id, entity_id) omap \<Rightarrow> entity_ref \<Rightarrow> tx_error + entity_id" where
  "resolve_entity d tempids entity = (case entity of
     EId e \<Rightarrow> Inr e
   | Temp t \<Rightarrow> Inr (the (om_get tempids t))
   | Lookup a v \<Rightarrow>
       bindr (ok_or (UnknownAttribute a) (schema_get (db_schema d) a)) (\<lambda>attr.
         if at_unique attr = None then Inl LookupNotUnique
         else ok_or LookupNotFound (lookup d a v)))"

subsection \<open>Operations\<close>

text \<open>The datoms one operation records, and whether the instant has been asserted.\<close>

definition fact_datom :: "tx_id \<Rightarrow> bool \<Rightarrow> fact_of \<Rightarrow> datom" where
  "fact_datom tx added f = (case f of (e, a, v) \<Rightarrow> \<lparr>d_e = e, d_a = a, d_v = v, d_tx = tx, d_added = added\<rparr>)"

definition add_op ::
    "db \<Rightarrow> tx_id \<Rightarrow> bool \<Rightarrow> entity_id \<Rightarrow> attr_id \<Rightarrow> val \<Rightarrow> tx_error + datom list \<times> bool" where
  "add_op working tx instant_asserted e a v =
    (if a = TX_INSTANT \<and> (e \<noteq> tx \<or> instant_asserted) then Inl InvalidTxInstantOperation
     else
       let instant_asserted = (instant_asserted \<or> a = TX_INSTANT)
       in bindr (validate_value working e a v) (\<lambda>_.
          bindr (validate_not_retired working a) (\<lambda>_.
          bindr (validate_assertion_form working a v) (\<lambda>_.
          case schema_get (db_schema working) a of
            None \<Rightarrow> Inr ([fact_datom tx True (e, a, v)], instant_asserted)
          | Some attr \<Rightarrow>
              if at_unique attr \<noteq> None
                 \<and> (case lookup working a v of None \<Rightarrow> False | Some owner \<Rightarrow> owner \<noteq> e)
              then Inl UniqueConflict
              else
                let current = db_values working e a
                in if v \<in> set current then Inr ([], instant_asserted)
                   else Inr ((if at_cardinality attr = CardOne
                              then map (\<lambda>old. fact_datom tx False (e, a, old)) current else [])
                             @ [fact_datom tx True (e, a, v)], instant_asserted)))))"

definition retract_op :: "db \<Rightarrow> tx_id \<Rightarrow> entity_id \<Rightarrow> attr_id \<Rightarrow> val \<Rightarrow> tx_error + datom list" where
  "retract_op working tx e a v =
    bindr (validate_value working e a v) (\<lambda>_.
    bindr (validate_historical_form working a v) (\<lambda>_.
      Inr (if v \<in> set (db_values working e a) then [fact_datom tx False (e, a, v)] else [])))"

definition cas_op ::
    "db \<Rightarrow> tx_id \<Rightarrow> entity_id \<Rightarrow> attr_id \<Rightarrow> val option \<Rightarrow> val \<Rightarrow> tx_error + datom list" where
  "cas_op working tx e a old new =
    bindr (validate_value working e a new) (\<lambda>_.
    bindr (validate_not_retired working a) (\<lambda>_.
    bindr (validate_assertion_form working a new) (\<lambda>_.
    bindr (case old of None \<Rightarrow> Inr () | Some old \<Rightarrow> validate_historical_form working a old) (\<lambda>_.
      if (case schema_get (db_schema working) a of
            None \<Rightarrow> True | Some attr \<Rightarrow> at_cardinality attr \<noteq> CardOne)
      then Inl CasCardinality
      else
        let current = (case db_values working e a of [] \<Rightarrow> None | v # _ \<Rightarrow> Some v)
        in if current \<noteq> old then Inl CasFailed
           else Inr ((case current of None \<Rightarrow> [] | Some v \<Rightarrow> [fact_datom tx False (e, a, v)])
                     @ [fact_datom tx True (e, a, new)])))))"

definition retract_entity_op :: "db \<Rightarrow> tx_id \<Rightarrow> entity_id \<Rightarrow> tx_error + datom list" where
  "retract_entity_op working tx e =
    (let facts = os_elems (fst (the (collect_entity_retractions (Suc (length (datoms working))) working e
                   (om_empty, om_empty))))
     in if list_ex (\<lambda>(_, a, _). a = TX_INSTANT) facts then Inl InvalidTxInstantOperation
        else case find (\<lambda>(e, a, _). \<not> writable_by_transaction e a) facts of
          Some (_, a, _) \<Rightarrow> Inl (SchemaAttribute a)
        | None \<Rightarrow> Inr (map (fact_datom tx False) facts))"

text \<open>
  Entity positions resolve against the database the transaction was given, the checks run
  against the working one.
\<close>

definition op_datoms ::
    "db \<Rightarrow> (temp_id, entity_id) omap \<Rightarrow> tx_id \<Rightarrow> db \<Rightarrow> bool \<Rightarrow> tx_op \<Rightarrow> tx_error + datom list \<times> bool" where
  "op_datoms d tempids tx working instant_asserted op =
    (let keep = (\<lambda>r. bindr r (\<lambda>ds. Inr (ds, instant_asserted)))
     in case op of
       AddRef entity a target \<Rightarrow>
         bindr (resolve_entity d tempids target) (\<lambda>t.
         bindr (resolve_entity d tempids entity) (\<lambda>e. add_op working tx instant_asserted e a (Ref t)))
     | Add entity a v \<Rightarrow>
         bindr (resolve_entity d tempids entity) (\<lambda>e. add_op working tx instant_asserted e a v)
     | Retract entity a v \<Rightarrow>
         if a = TX_INSTANT then Inl InvalidTxInstantOperation
         else keep (bindr (resolve_entity d tempids entity) (\<lambda>e. retract_op working tx e a v))
     | Cas entity a old new \<Rightarrow>
         if a = TX_INSTANT then Inl InvalidTxInstantOperation
         else keep (bindr (resolve_entity d tempids entity) (\<lambda>e. cas_op working tx e a old new))
     | RetractEntity entity \<Rightarrow>
         keep (bindr (resolve_entity d tempids entity) (retract_entity_op working tx)))"

text \<open>A re-assertion of a present fact skips the commit into the working database (\<open>continue\<close>).\<close>

definition op_step ::
    "db \<Rightarrow> (temp_id, entity_id) omap \<Rightarrow> tx_id \<Rightarrow> tx_op \<Rightarrow> datom list \<times> db \<times> bool
      \<Rightarrow> tx_error + datom list \<times> db \<times> bool" where
  "op_step d tempids tx op = (\<lambda>(ds, working, instant_asserted).
    bindr (op_datoms d tempids tx working instant_asserted op) (\<lambda>(new, instant_asserted).
      Inr (ds @ new,
           (if new = [] \<and> (case op of Add _ _ _ \<Rightarrow> True | AddRef _ _ _ \<Rightarrow> True | _ \<Rightarrow> False) then working
            else with_transaction (db_basis_t working + 1) new working),
           instant_asserted)))"

fun run_ops ::
    "db \<Rightarrow> (temp_id, entity_id) omap \<Rightarrow> tx_id \<Rightarrow> tx_op list \<Rightarrow> datom list \<times> db \<times> bool
      \<Rightarrow> tx_error + datom list \<times> db \<times> bool" where
  "run_ops d tempids tx [] st = Inr st"
| "run_ops d tempids tx (op # ops) st = bindr (op_step d tempids tx op st) (run_ops d tempids tx ops)"

definition prepare :: "db \<Rightarrow> tx_item list \<Rightarrow> tx_id \<Rightarrow> u64 \<Rightarrow> tx_error + prepared_tx" where
  "prepare d items tx next_user_sequence =
    (let ops = concat (map expand_item items);
         tempids = assign_tempids d ops tx next_user_sequence
     in bindr (run_ops d tempids tx ops ([], d, False)) (\<lambda>(ds, _, _).
        case validate_registry d ds of
          Inl v \<Rightarrow> Inl (SagaRefused v)
        | Inr _ \<Rightarrow> Inr \<lparr>pt_datoms = ds, pt_tempids = tempids\<rparr>))"

subsection \<open>Collecting an entity and its components\<close>

lemma fold_option_append: "fold_option f (xs @ ys) s = Option.bind (fold_option f xs s) (fold_option f ys)"
  by (induction xs arbitrary: s) (auto split: Option.bind_splits)

text \<open>The entities retracting \<open>e\<close> removes: those reached over component references.\<close>

inductive component_reach :: "db \<Rightarrow> entity_id \<Rightarrow> entity_id \<Rightarrow> bool" for d e where
  here: "component_reach d e e"
| child: "component_reach d e e' \<Longrightarrow> x \<in> set (datoms d) \<Longrightarrow> d_e x = e' \<Longrightarrow>
    is_component_ref d x = Some c \<Longrightarrow> component_reach d e c"

definition facts_about :: "db \<Rightarrow> entity_id set \<Rightarrow> fact_of set" where
  "facts_about d R = {d_fact x | x. x \<in> set (datoms d) \<and> (d_e x \<in> R \<or> (\<exists>r \<in> R. d_v x = Ref r))}"

text \<open>
  The state of the traversal: \<open>seen\<close> grows by reached entities, the facts collected are about
  entities seen; an entity that is done (seen, not on the stack) has all its facts collected
  and its children seen.
\<close>

definition closed_below :: "db \<Rightarrow> fact_of set \<Rightarrow> entity_id set \<Rightarrow> entity_id set \<Rightarrow> bool" where
  "closed_below d F S stack \<longleftrightarrow> F \<subseteq> facts_about d S \<and> stack \<subseteq> S \<and>
     (\<forall>e \<in> S - stack. facts_about d {e} \<subseteq> F \<and>
        (\<forall>x \<in> set (datoms d). d_e x = e \<longrightarrow> (\<forall>c. is_component_ref d x = Some c \<longrightarrow> c \<in> S)))"

definition children :: "db \<Rightarrow> entity_id set" where
  "children d = {c. \<exists>x \<in> set (datoms d). is_component_ref d x = Some c}"

lemma finite_children: "finite (children d)"
proof -
  have "children d \<subseteq> the ` is_component_ref d ` set (datoms d)" by (force simp: children_def)
  then show ?thesis by (rule finite_subset) simp
qed

lemma card_children: "card (children d) \<le> length (datoms d)"
proof -
  have "children d \<subseteq> the ` is_component_ref d ` set (datoms d)" by (force simp: children_def)
  then have "card (children d) \<le> card (the ` is_component_ref d ` set (datoms d))" by (rule card_mono [rotated]) simp
  also have "\<dots> \<le> card (set (datoms d))" by (metis card_image_le finite_set image_image finite_imageI order_trans)
  also have "\<dots> \<le> length (datoms d)" by (rule card_length)
  finally show ?thesis .
qed

lemma facts_about_mono: "R \<subseteq> R' \<Longrightarrow> facts_about d R \<subseteq> facts_about d R'"
  unfolding facts_about_def by blast

text \<open>The loop over the datoms while \<open>e\<close> is on the stack, given what a recursive call does.\<close>

definition collect_loop :: "nat \<Rightarrow> db \<Rightarrow> entity_id \<Rightarrow> datom \<Rightarrow> collected \<Rightarrow> collected option" where
  "collect_loop m d e = (\<lambda>x (facts, seen).
     if d_e x = e then
       map_option (\<lambda>(facts, seen). (os_insert (d_fact x) facts, seen))
         (case is_component_ref d x of
            Some child \<Rightarrow> collect_entity_retractions m d child (facts, seen)
          | None \<Rightarrow> Some (facts, seen))
     else if d_v x = Ref e then Some (os_insert (d_fact x) facts, seen)
     else Some (facts, seen))"

lemma collect_unfold:
  "collect_entity_retractions n d e (facts, seen) =
    (if os_member e seen then Some (facts, seen)
     else case n of 0 \<Rightarrow> None | Suc m \<Rightarrow> fold_option (collect_loop m d e) (datoms d) (facts, os_insert e seen))"
  by (simp add: collect_loop_def cong: nat.case_cong)

declare collect_entity_retractions.simps [simp del]

text \<open>What a call promises.\<close>

definition collect_post ::
    "db \<Rightarrow> entity_id \<Rightarrow> entity_id set \<Rightarrow> fact_of set \<Rightarrow> entity_id set \<Rightarrow> collected \<Rightarrow> bool" where
  "collect_post d e stack F S r \<longleftrightarrow>
     F \<subseteq> os_set (fst r) \<and> S \<subseteq> os_set (snd r) \<and> e \<in> os_set (snd r) \<and>
     closed_below d (os_set (fst r)) (os_set (snd r)) stack \<and>
     (\<forall>s \<in> os_set (snd r) - S. component_reach d e s)"

lemma component_reach_trans: "component_reach d b c \<Longrightarrow> component_reach d a b \<Longrightarrow> component_reach d a c"
  by (induction rule: component_reach.induct) (auto intro: component_reach.child)

definition loop_inv ::
    "db \<Rightarrow> entity_id \<Rightarrow> entity_id set \<Rightarrow> fact_of set \<Rightarrow> entity_id set \<Rightarrow> datom list \<Rightarrow> collected \<Rightarrow> bool" where
  "loop_inv d e stack F S pre r \<longleftrightarrow>
     F \<subseteq> os_set (fst r) \<and> insert e S \<subseteq> os_set (snd r) \<and>
     closed_below d (os_set (fst r)) (os_set (snd r)) (insert e stack) \<and>
     (\<forall>s \<in> os_set (snd r) - S. component_reach d e s) \<and>
     (\<forall>x \<in> set pre. (d_e x = e \<or> d_v x = Ref e \<longrightarrow> d_fact x \<in> os_set (fst r)) \<and>
        (d_e x = e \<longrightarrow> (\<forall>c. is_component_ref d x = Some c \<longrightarrow> c \<in> os_set (snd r))))"

lemma closed_below_insert:
  "closed_below d F S stack \<Longrightarrow> x \<in> set (datoms d) \<Longrightarrow> d_e x \<in> S \<or> (\<exists>r \<in> S. d_v x = Ref r) \<Longrightarrow>
    closed_below d (insert (d_fact x) F) S stack"
  unfolding closed_below_def facts_about_def by blast

lemma loop_inv_skip:
  assumes "loop_inv d e stack F S pre r" and "d_e x \<noteq> e" and "d_v x \<noteq> Ref e"
  shows "loop_inv d e stack F S (pre @ [x]) r"
  using assms unfolding loop_inv_def by auto

lemma loop_inv_fact:
  assumes "loop_inv d e stack F S pre (facts, seen)" and "x \<in> set (datoms d)" and "d_e x = e \<or> d_v x = Ref e"
    and "d_e x = e \<Longrightarrow> is_component_ref d x = Some c \<Longrightarrow> c \<in> os_set seen"
    and "\<And>c'. is_component_ref d x = Some c' \<Longrightarrow> c' = c"
  shows "loop_inv d e stack F S (pre @ [x]) (os_insert (d_fact x) facts, seen)"
proof -
  have "e \<in> os_set seen" using assms(1) by (simp add: loop_inv_def)
  then have "closed_below d (insert (d_fact x) (os_set facts)) (os_set seen) (insert e stack)"
    using assms(1-3) by (intro closed_below_insert) (auto simp: loop_inv_def)
  moreover have "c' \<in> os_set seen" if "d_e x = e" "is_component_ref d x = Some c'" for c'
    using assms(4) [OF that(1)] assms(5) [OF that(2)] that(2) by simp
  ultimately show ?thesis
    using assms(1) unfolding loop_inv_def fst_conv snd_conv os_set_simps set_append list.set Un_iff insert_iff empty_iff
    by (intro conjI) blast+
qed

lemma loop_inv_call:
  assumes inv: "loop_inv d e stack F S pre (facts, seen)" and x: "x \<in> set (datoms d)" "d_e x = e" "is_component_ref d x = Some c"
    and post: "collect_post d c (insert e stack) (os_set facts) (os_set seen) r"
  shows "loop_inv d e stack F S (pre @ [x]) (os_insert (d_fact x) (fst r), snd r)"
proof -
  have reach: "component_reach d e c"
    using component_reach.child [OF component_reach.here x(1) x(2) x(3)] .
  have s: "component_reach d e s" if "s \<in> os_set (snd r) - S" for s
  proof (cases "s \<in> os_set seen")
    case True
    then show ?thesis using that inv by (simp add: loop_inv_def)
  next
    case False
    then have "component_reach d c s" using that post by (simp add: collect_post_def)
    then show ?thesis by (rule component_reach_trans [OF _ reach])
  qed
  have "loop_inv d e stack F S pre (fst r, snd r)"
    using inv post s unfolding loop_inv_def collect_post_def by auto
  moreover have "c \<in> os_set (snd r)" using post by (simp add: collect_post_def)
  ultimately show ?thesis using x by (intro loop_inv_fact [where c = c]) auto
qed

lemma collect_loop_total:
  assumes "\<And>c facts seen stack. c \<in> children d \<Longrightarrow> closed_below d (os_set facts) (os_set seen) stack \<Longrightarrow>
      card (children d - os_set seen) \<le> m \<Longrightarrow>
      \<exists>r. collect_entity_retractions m d c (facts, seen) = Some r \<and> collect_post d c stack (os_set facts) (os_set seen) r"
    and "pre @ post = datoms d" and "loop_inv d e stack F S pre st"
    and "card (children d - insert e S) \<le> m"
  shows "\<exists>r. fold_option (collect_loop m d e) post st = Some r \<and> loop_inv d e stack F S (datoms d) r"
  using assms(2,3)
proof (induction post arbitrary: pre st)
  case (Cons x post)
  obtain facts seen where st: "st = (facts, seen)" by fastforce
  have x: "x \<in> set (datoms d)" unfolding Cons.prems(1) [symmetric] by simp
  have "\<exists>st'. collect_loop m d e x st = Some st' \<and> loop_inv d e stack F S (pre @ [x]) st'"
  proof (cases "d_e x = e")
    case True
    show ?thesis
    proof (cases "is_component_ref d x")
      case None
      have "loop_inv d e stack F S (pre @ [x]) (os_insert (d_fact x) facts, seen)"
        using Cons.prems(2) x True None unfolding st by (intro loop_inv_fact [where c = e]) simp_all
      then show ?thesis using True None by (simp add: collect_loop_def st)
    next
      case (Some c)
      have child: "c \<in> children d" using x Some unfolding children_def by blast
      have closed: "closed_below d (os_set facts) (os_set seen) (insert e stack)" and "insert e S \<subseteq> os_set seen"
        using Cons.prems(2) unfolding st loop_inv_def by simp_all
      then have "children d - os_set seen \<subseteq> children d - insert e S" by blast
      then have "card (children d - os_set seen) \<le> m"
        using card_mono [of "children d - insert e S" "children d - os_set seen"] finite_children [of d] assms(4) by simp
      then obtain r where r: "collect_entity_retractions m d c (facts, seen) = Some r"
        "collect_post d c (insert e stack) (os_set facts) (os_set seen) r"
        using assms(1) [OF child closed] by blast
      have "loop_inv d e stack F S (pre @ [x]) (os_insert (d_fact x) (fst r), snd r)"
        by (rule loop_inv_call [OF Cons.prems(2) [unfolded st] x True Some r(2)])
      then show ?thesis using True Some r(1) by (simp add: collect_loop_def st split_beta)
    qed
  next
    case False
    show ?thesis
    proof (cases "d_v x = Ref e")
      case True
      have "loop_inv d e stack F S (pre @ [x]) (os_insert (d_fact x) facts, seen)"
        using Cons.prems(2) x True False unfolding st
        by (intro loop_inv_fact [where c = "the (is_component_ref d x)"]) auto
      then show ?thesis using True False by (simp add: collect_loop_def st)
    next
      case no: False
      then show ?thesis using False loop_inv_skip [OF Cons.prems(2) False no] by (simp add: collect_loop_def st)
    qed
  qed
  then obtain st' where st': "collect_loop m d e x st = Some st'" "loop_inv d e stack F S (pre @ [x]) st'" by blast
  have "\<exists>r. fold_option (collect_loop m d e) post st' = Some r \<and> loop_inv d e stack F S (datoms d) r"
    using Cons.prems(1) by (intro Cons.IH [OF _ st'(2)]) simp
  then show ?case using st'(1) by simp
qed simp

lemma loop_inv_done:
  assumes "loop_inv d e stack F S (datoms d) r"
  shows "collect_post d e stack F S r"
proof -
  have "closed_below d (os_set (fst r)) (os_set (snd r)) stack"
  proof -
    note inv = assms [unfolded loop_inv_def closed_below_def]
    have "facts_about d {e} \<subseteq> os_set (fst r)" using inv unfolding facts_about_def by blast
    moreover have "\<forall>x \<in> set (datoms d). d_e x = e \<longrightarrow> (\<forall>c. is_component_ref d x = Some c \<longrightarrow> c \<in> os_set (snd r))"
      using inv by blast
    ultimately show ?thesis using inv unfolding closed_below_def by (metis Diff_iff insert_iff insert_subset)
  qed
  then show ?thesis using assms unfolding collect_post_def loop_inv_def by simp
qed

lemma loop_inv_start:
  assumes "closed_below d F S stack"
  shows "closed_below d F (insert e S) (insert e stack)"
  using assms facts_about_mono [of S "insert e S" d] unfolding closed_below_def by blast

lemma collect_total:
  assumes "closed_below d (os_set facts) (os_set seen) stack" and "card (insert e (children d) - os_set seen) \<le> n"
  shows "\<exists>r. collect_entity_retractions n d e (facts, seen) = Some r \<and>
    collect_post d e stack (os_set facts) (os_set seen) r"
  using assms
proof (induction n arbitrary: e facts seen stack)
  case 0
  have "finite (insert e (children d) - os_set seen)" using finite_children by simp
  then have "e \<in> os_set seen" using 0 by auto
  then show ?case using 0(1) unfolding collect_unfold by (simp add: collect_post_def os_set_def)
next
  case (Suc m)
  show ?case
  proof (cases "e \<in> os_set seen")
    case True
    then show ?thesis using Suc.prems(1) unfolding collect_unfold by (simp add: collect_post_def os_set_def)
  next
    case False
    have fin: "finite (insert e (children d) - os_set seen)" using finite_children by simp
    have sub: "children d - insert e (os_set seen) = (insert e (children d) - os_set seen) - {e}" by auto
    have card: "card (children d - insert e (os_set seen)) \<le> m"
      unfolding sub using Suc.prems(2) False fin by (simp add: card_Diff_singleton_if)
    have IH: "\<exists>r. collect_entity_retractions m d c (facts, seen) = Some r \<and> collect_post d c stack (os_set facts) (os_set seen) r"
      if "c \<in> children d" "closed_below d (os_set facts) (os_set seen) stack" "card (children d - os_set seen) \<le> m"
      for c facts seen stack
      using Suc.IH [OF that(2), of c] that(1,3) by (simp add: insert_absorb)
    have "loop_inv d e stack (os_set facts) (os_set seen) [] (facts, os_insert e seen)"
      using loop_inv_start [OF Suc.prems(1)] by (auto simp: loop_inv_def intro: component_reach.here)
    then obtain r where "fold_option (collect_loop m d e) (datoms d) (facts, os_insert e seen) = Some r"
      "loop_inv d e stack (os_set facts) (os_set seen) (datoms d) r"
      using collect_loop_total [OF IH append_Nil _ card] by blast
    then show ?thesis using loop_inv_done False unfolding collect_unfold by (auto simp: os_set_def)
  qed
qed

lemma collect_from_scratch:
  "\<exists>facts seen. collect_entity_retractions (Suc (length (datoms d))) d e (om_empty, om_empty) = Some (facts, seen) \<and>
     os_set facts = facts_about d {s. component_reach d e s}"
proof -
  have "closed_below d (os_set om_empty) (os_set om_empty) {}" by (simp add: closed_below_def)
  moreover have "card (insert e (children d) - os_set om_empty) \<le> Suc (length (datoms d))"
    using card_children [of d] card_insert_le_m1 finite_children [of d] by (simp add: card_insert_if)
  ultimately obtain r where r: "collect_entity_retractions (Suc (length (datoms d))) d e (om_empty, om_empty) = Some r"
    and post: "collect_post d e {} {} {} r" using collect_total [of d om_empty om_empty "{}" e] os_set_simps(1) by metis
  have closed: "closed_below d (os_set (fst r)) (os_set (snd r)) {}" using post by (simp add: collect_post_def)
  have "s \<in> os_set (snd r)" if "component_reach d e s" for s
    using that
  proof (induction rule: component_reach.induct)
    case (child e' x c)
    then show ?case using closed unfolding closed_below_def by auto
  qed (use post in \<open>simp_all add: collect_post_def\<close>)
  then have reach: "os_set (snd r) = {s. component_reach d e s}"
    using post by (auto simp: collect_post_def)
  have "facts_about d (os_set (snd r)) \<subseteq> os_set (fst r)"
    using closed unfolding closed_below_def facts_about_def by blast
  then have "os_set (fst r) = facts_about d {s. component_reach d e s}"
    using closed unfolding reach closed_below_def by blast
  then show ?thesis using r by (cases r) auto
qed

end
