(* ===== verification/Tx_Prepare.thy ===== *)
theory Tx_Prepare
  imports Tx
begin

text \<open>
  What \<open>prepare\<close> guarantees (\<open>crates/corium-tx/src/lib.rs\<close>): the effect of each operation on the
  set of facts, the invariant of the working database, the schema's constraints, tempids, and
  the properties of transaction preparation.
\<close>

subsection \<open>The datoms of one operation\<close>

lemma fact_datom_simps [simp]:
  "d_fact (fact_datom tx b f) = f" "d_added (fact_datom tx b f) = b" "d_tx (fact_datom tx b f) = tx"
  "d_e (fact_datom tx b f) = fst f" "d_a (fact_datom tx b f) = fst (snd f)" "d_v (fact_datom tx b f) = snd (snd f)"
  by (cases f; simp add: fact_datom_def d_fact_def)+

lemma apply_facts_retracts: "apply_facts (map (fact_datom tx False) fs) F = F - set fs"
  by (induction fs arbitrary: F) (auto simp: fact_step_def)

text \<open>An assertion the schema admits.\<close>

definition assertable :: "db \<Rightarrow> datom \<Rightarrow> bool" where
  "assertable d x \<longleftrightarrow> (\<exists>attr. schema_get (db_schema d) (d_a x) = Some attr \<and> has_type (d_v x) (at_value_type attr)) \<and>
     \<not> is_retired (db_schema d) (d_a x) \<and> validate_assertion_form d (d_a x) (d_v x) = Inr ()"

definition datom_admitted :: "db \<Rightarrow> tx_id \<Rightarrow> datom \<Rightarrow> bool" where
  "datom_admitted d tx x \<longleftrightarrow> d_tx x = tx \<and> writable_by_transaction (d_e x) (d_a x) \<and>
     (d_a x = TX_INSTANT \<longrightarrow> d_e x = tx) \<and> (d_added x \<longrightarrow> assertable d x)"

lemma validate_value_Inr:
  "validate_value d e a v = Inr () \<longleftrightarrow> writable_by_transaction e a \<and>
     (\<exists>attr. schema_get (db_schema d) a = Some attr \<and> has_type v (at_value_type attr))"
  by (auto simp: validate_value_def bindr_eq_Inr ok_or_eq_Inr split: if_splits)

lemma validate_not_retired_Inr: "validate_not_retired d a = Inr () \<longleftrightarrow> \<not> is_retired (db_schema d) a"
  by (simp add: validate_not_retired_def)

lemma validate_schema_only:
  assumes "db_schema d = db_schema w"
  shows "validate_assertion_form d = validate_assertion_form w" and "assertable d = assertable w"
    and "datom_admitted d = datom_admitted w"
proof -
  show form: "validate_assertion_form d = validate_assertion_form w"
    by (intro ext) (simp only: validate_assertion_form_def assms)
  then show "assertable d = assertable w" by (simp add: fun_eq_iff assertable_def assms)
  then show "datom_admitted d = datom_admitted w" by (simp add: fun_eq_iff datom_admitted_def)
qed

text \<open>What an assertion leaves: with cardinality one the old value goes.\<close>

definition replaced :: "schema \<Rightarrow> entity_id \<Rightarrow> attr_id \<Rightarrow> val \<Rightarrow> fact_of set \<Rightarrow> fact_of set" where
  "replaced s e a v F = (if (e, a, v) \<in> F then F
     else insert (e, a, v) (case schema_get s a of
       Some attr \<Rightarrow> if at_cardinality attr = CardOne then F - {f. \<exists>old. f = (e, a, old)} else F
     | None \<Rightarrow> F))"

lemma add_op_spec:
  assumes "db_wf w" and "db_view w = Current" and "add_op w tx i e a v = Inr (new, i')"
  shows "apply_facts new (db_facts w) = replaced (db_schema w) e a v (db_facts w)"
    and "\<And>x. x \<in> set new \<Longrightarrow> datom_admitted w tx x"
    and "i' = (i \<or> a = TX_INSTANT)" and "a = TX_INSTANT \<Longrightarrow> e = tx \<and> \<not> i"
    and "\<And>attr e'. schema_get (db_schema w) a = Some attr \<Longrightarrow> at_unique attr \<noteq> None \<Longrightarrow>
      (e', a, v) \<in> db_facts w \<Longrightarrow> (e, a, v) \<in> db_facts w"
    and "\<And>x. x \<in> set new \<Longrightarrow> d_e x = e \<and> d_a x = a"
proof -
  have view: "db_view w \<noteq> History" using assms(2) by simp
  obtain attr where attr: "schema_get (db_schema w) a = Some attr" "has_type v (at_value_type attr)"
    and writable: "writable_by_transaction e a" and fresh: "\<not> is_retired (db_schema w) a"
    and form: "validate_assertion_form w a v = Inr ()" and inst: "\<not> (a = TX_INSTANT \<and> (e \<noteq> tx \<or> i))"
    using assms(3)
    by (auto simp: add_op_def Let_def bindr_eq_Inr validate_value_Inr validate_not_retired_Inr split: if_splits)
  have own: "\<not> (at_unique attr \<noteq> None \<and> (case lookup w a v of None \<Rightarrow> False | Some owner \<Rightarrow> owner \<noteq> e))"
    and res: "(new, i') = (if v \<in> set (db_values w e a) then ([], i \<or> a = TX_INSTANT)
      else ((if at_cardinality attr = CardOne then map (\<lambda>old. fact_datom tx False (e, a, old)) (db_values w e a) else [])
            @ [fact_datom tx True (e, a, v)], i \<or> a = TX_INSTANT))"
    using assms(3) attr writable fresh form inst
    by (simp_all add: add_op_def Let_def bindr_eq_Inr validate_value_def validate_not_retired_def split: if_splits option.splits)
  have vals: "set (db_values w e a) = {v. (e, a, v) \<in> db_facts w}" by (rule db_values_facts [OF assms(1) view])
  have retr: "apply_facts (map (\<lambda>old. fact_datom tx False (e, a, old)) (db_values w e a)) F = F - {f. \<exists>old. f = (e, a, old) \<and> f \<in> db_facts w}" for F
    using apply_facts_retracts [of tx "map (\<lambda>old. (e, a, old)) (db_values w e a)" F] vals by (auto simp: comp_def)
  show "i' = (i \<or> a = TX_INSTANT)" using res by (auto split: if_splits)
  show "apply_facts new (db_facts w) = replaced (db_schema w) e a v (db_facts w)"
    using res vals by (auto simp: replaced_def retr attr fact_step_def split: if_splits)
  show "d_e x = e \<and> d_a x = a" if "x \<in> set new" for x
    using that res by (auto split: if_splits)
  show "datom_admitted w tx x" if "x \<in> set new" for x
    using that res writable attr fresh form inst by (auto simp: datom_admitted_def assertable_def split: if_splits)
  show "a = TX_INSTANT \<Longrightarrow> e = tx \<and> \<not> i" using inst by simp
  show "(e, a, v) \<in> db_facts w" if "schema_get (db_schema w) a = Some attr'" "at_unique attr' \<noteq> None" "(e', a, v) \<in> db_facts w" for attr' e'
  proof -
    have "lookup w a v \<noteq> None" using lookup_None [OF assms(1) view, of a v] that(3) by (auto simp: holds_value_facts)
    then have "lookup w a v = Some e" using own attr(1) that(1,2) by auto
    then show ?thesis using lookup_spec [OF assms(1) view, of a v e] by (simp add: holds_value_facts)
  qed
qed

lemma retract_op_spec:
  assumes "db_wf w" and "db_view w = Current" and "retract_op w tx e a v = Inr new" and "a \<noteq> TX_INSTANT"
  shows "apply_facts new (db_facts w) = db_facts w - {(e, a, v)}"
    and "\<And>x. x \<in> set new \<Longrightarrow> datom_admitted w tx x"
proof -
  have new: "new = (if v \<in> set (db_values w e a) then [fact_datom tx False (e, a, v)] else [])"
    and writable: "writable_by_transaction e a"
    using assms(3) by (auto simp: retract_op_def bindr_eq_Inr validate_value_Inr)
  have vals: "set (db_values w e a) = {v. (e, a, v) \<in> db_facts w}"
    by (rule db_values_facts [OF assms(1)]) (simp add: assms(2))
  show "apply_facts new (db_facts w) = db_facts w - {(e, a, v)}"
    unfolding new vals by (auto simp: fact_step_def)
  show "datom_admitted w tx x" if "x \<in> set new" for x
    using that new writable assms(4) by (auto simp: datom_admitted_def split: if_splits)
qed

lemma cas_op_spec:
  assumes "db_wf w" and "db_view w = Current" and "cas_op w tx e a old v = Inr new" and "a \<noteq> TX_INSTANT"
  shows "apply_facts new (db_facts w) = insert (e, a, v) (db_facts w - {f. \<exists>o'. old = Some o' \<and> f = (e, a, o')})"
    and "\<And>x. x \<in> set new \<Longrightarrow> datom_admitted w tx x"
    and "\<exists>attr. schema_get (db_schema w) a = Some attr \<and> at_cardinality attr = CardOne"
    and "case old of None \<Rightarrow> \<forall>v'. (e, a, v') \<notin> db_facts w | Some o' \<Rightarrow> (e, a, o') \<in> db_facts w"
proof -
  obtain attr where attr: "schema_get (db_schema w) a = Some attr" "has_type v (at_value_type attr)"
    and writable: "writable_by_transaction e a" and fresh: "\<not> is_retired (db_schema w) a"
    and form: "validate_assertion_form w a v = Inr ()"
    and card: "at_cardinality attr = CardOne"
    and cur: "(case db_values w e a of [] \<Rightarrow> None | v # _ \<Rightarrow> Some v) = old"
    and new: "new = (case old of None \<Rightarrow> [] | Some v \<Rightarrow> [fact_datom tx False (e, a, v)]) @ [fact_datom tx True (e, a, v)]"
    using assms(3)
    by (auto simp: cas_op_def Let_def bindr_eq_Inr validate_value_Inr validate_not_retired_Inr split: if_splits)
  have vals: "set (db_values w e a) = {v. (e, a, v) \<in> db_facts w}"
    by (rule db_values_facts [OF assms(1)]) (simp add: assms(2))
  show "apply_facts new (db_facts w) = insert (e, a, v) (db_facts w - {f. \<exists>o'. old = Some o' \<and> f = (e, a, o')})"
    unfolding new by (cases old) (auto simp: fact_step_def)
  show "datom_admitted w tx x" if "x \<in> set new" for x
    using that new writable attr fresh form assms(4)
    by (auto simp: datom_admitted_def assertable_def split: option.splits)
  show "\<exists>attr. schema_get (db_schema w) a = Some attr \<and> at_cardinality attr = CardOne" using attr card by blast
  show "case old of None \<Rightarrow> \<forall>v'. (e, a, v') \<notin> db_facts w | Some o' \<Rightarrow> (e, a, o') \<in> db_facts w"
    using cur vals by (cases "db_values w e a") auto
qed

lemma retract_entity_op_spec:
  assumes "db_wf w" and "db_view w = Current" and "retract_entity_op w tx e = Inr new"
  shows "apply_facts new (db_facts w) = db_facts w - facts_about w {s. component_reach w e s}"
    and "\<And>x. x \<in> set new \<Longrightarrow> datom_admitted w tx x"
proof -
  obtain facts seen where c: "collect_entity_retractions (Suc (length (datoms w))) w e (om_empty, om_empty) = Some (facts, seen)"
    and facts: "os_set facts = facts_about w {s. component_reach w e s}" using collect_from_scratch by blast
  have "\<not> list_ex (\<lambda>(_, a, _). a = TX_INSTANT) (os_elems facts)"
    and find: "find (\<lambda>(e, a, _). \<not> writable_by_transaction e a) (os_elems facts) = None"
    and new: "new = map (fact_datom tx False) (os_elems facts)"
    using assms(3) by (auto simp: retract_entity_op_def c Let_def split: if_splits option.splits)
  then have wr: "writable_by_transaction e' a \<and> a \<noteq> TX_INSTANT" if "(e', a, v) \<in> set (os_elems facts)" for e' a v
    using that by (fastforce simp: find_None_iff list_ex_iff)
  show "apply_facts new (db_facts w) = db_facts w - facts_about w {s. component_reach w e s}"
    unfolding new apply_facts_retracts facts [symmetric] by (auto simp: os_set_def)
  show "datom_admitted w tx x" if "x \<in> set new" for x
  proof -
    from that obtain e' a v where f: "(e', a, v) \<in> set (os_elems facts)" "x = fact_datom tx False (e', a, v)"
      unfolding new by auto
    show ?thesis using wr [OF f(1)] by (simp add: f(2) datom_admitted_def)
  qed
qed

subsection \<open>Running the operations\<close>

text \<open>The transaction entity the datoms carry, and room for the working database to count up.\<close>

definition tx_fits :: "db \<Rightarrow> tx_id \<Rightarrow> nat \<Rightarrow> bool" where
  "tx_fits d tx n \<longleftrightarrow> 0 < eid_sequence tx \<and> eid_sequence tx \<le> db_basis_t d + 1 \<and> unat (db_basis_t d) + n < 2 ^ 42"

definition run_inv :: "db \<Rightarrow> tx_id \<Rightarrow> nat \<Rightarrow> datom list \<times> db \<times> bool \<Rightarrow> bool" where
  "run_inv d tx n = (\<lambda>(ds, w, i). db_wf w \<and> db_view w = Current \<and> db_schema w = db_schema d \<and>
     db_facts w = apply_facts ds (db_facts d) \<and> (\<forall>x \<in> set ds. datom_admitted d tx x) \<and> tx_fits w tx n)"

lemma tx_fits_next:
  assumes "tx_fits w tx (Suc n)"
  shows "unat (db_basis_t w + 1) = Suc (unat (db_basis_t w))" and "eid_sequence tx \<le> db_basis_t w + 1"
    and "0 < db_basis_t w + 1" and "unat (db_basis_t w + 1) < 2 ^ 42"
    and "unat (db_basis_t w + 1) + n < 2 ^ 42" and "db_basis_t w \<le> db_basis_t w + 1"
    and "db_basis_t w + 1 \<le> db_basis_t w + 1 + 1"
proof -
  have lim: "unat (db_basis_t w) + Suc n < 2 ^ 42" using assms by (simp add: tx_fits_def)
  then show suc: "unat (db_basis_t w + 1) = Suc (unat (db_basis_t w))" by (simp add: unat_word_ariths)
  then have suc2: "unat (db_basis_t w + 1 + 1) = Suc (Suc (unat (db_basis_t w)))" using lim by (simp add: unat_word_ariths)
  show "eid_sequence tx \<le> db_basis_t w + 1" using assms by (simp add: tx_fits_def)
  show "0 < db_basis_t w + 1" using suc by (simp add: word_less_nat_alt)
  show "unat (db_basis_t w + 1) < 2 ^ 42" "unat (db_basis_t w + 1) + n < 2 ^ 42" using lim suc by simp_all
  show "db_basis_t w \<le> db_basis_t w + 1" using suc by (simp add: word_le_nat_alt)
  show "db_basis_t w + 1 \<le> db_basis_t w + 1 + 1" using suc suc2 by (simp add: word_le_nat_alt)
qed

lemma admitted_naming_only: "\<forall>x \<in> set ds. datom_admitted d tx x \<Longrightarrow> naming_only ds \<and> schema_placed ds"
  by (auto simp: datom_admitted_def naming_only_def schema_placed_def writable_by_transaction_def split: if_splits)

lemma db_schema_commit:
  "naming_only ds \<Longrightarrow> db_schema (with_transaction t ds d) = db_schema d"
  using derive_naming_only [of ds]
  by (simp add: with_transaction_def with_transaction_at_def apply_transaction_schema record_instant_def split: option.split)

lemma run_inv_commit:
  assumes "run_inv d tx (Suc n) (ds, w, i)" and "\<forall>x \<in> set new. datom_admitted w tx x"
  shows "run_inv d tx n (ds @ new, with_transaction (db_basis_t w + 1) new w, i')"
proof -
  have w: "db_wf w" "db_view w = Current" "db_schema w = db_schema d" "db_facts w = apply_facts ds (db_facts d)"
    "\<forall>x \<in> set ds. datom_admitted d tx x" and fits: "tx_fits w tx (Suc n)"
    using assms(1) by (simp_all add: run_inv_def)
  note nx = tx_fits_next [OF fits]
  have new: "\<forall>x \<in> set new. datom_admitted d tx x"
    using assms(2) validate_schema_only(3) [OF w(3)] by simp
  have "applies (db_basis_t w + 1) new w"
    using w nx assms(2) admitted_naming_only [OF assms(2)] fits
    by (auto simp: applies_def tx_bounded_def datom_admitted_def tx_fits_def)
  then have "db_wf (with_transaction (db_basis_t w + 1) new w)"
    by (rule db_wf_with_transaction_at(2) [OF w(1) _ nx(3,4)])
  moreover have "db_schema (with_transaction (db_basis_t w + 1) new w) = db_schema w"
    using admitted_naming_only [OF assms(2)] by (simp add: db_schema_commit)
  moreover have "tx_fits (with_transaction (db_basis_t w + 1) new w) tx n"
    using fits nx unfolding tx_fits_def db_basis_t_commit by (auto intro: order_trans)
  ultimately show ?thesis
    using w new by (simp add: run_inv_def db_facts_with_transaction) blast
qed

lemma op_datoms_admitted:
  assumes "db_wf w" and "db_view w = Current" and "op_datoms d tempids tx w i op = Inr (new, i')"
  shows "\<forall>x \<in> set new. datom_admitted w tx x"
  using assms(3) add_op_spec(2) [OF assms(1,2)] retract_op_spec(2) [OF assms(1,2)] cas_op_spec(2) [OF assms(1,2)]
    retract_entity_op_spec(2) [OF assms(1,2)]
  by (cases op) (auto simp: op_datoms_def Let_def bindr_eq_Inr split: if_splits)

lemma run_inv_weaken: "run_inv d tx (Suc n) st \<Longrightarrow> run_inv d tx n st"
  by (auto simp: run_inv_def tx_fits_def)

lemma run_inv_step:
  assumes "run_inv d tx (Suc n) st" and "op_step d tempids tx op st = Inr st'"
  shows "run_inv d tx n st'"
proof -
  obtain ds w i where st: "st = (ds, w, i)" by (cases st)
  obtain new i' where new: "op_datoms d tempids tx w i op = Inr (new, i')"
    and st': "st' = (ds @ new, (if new = [] \<and> (case op of Add _ _ _ \<Rightarrow> True | AddRef _ _ _ \<Rightarrow> True | _ \<Rightarrow> False) then w
        else with_transaction (db_basis_t w + 1) new w), i')"
    using assms(2) by (auto simp: op_step_def st bindr_eq_Inr)
  have adm: "\<forall>x \<in> set new. datom_admitted w tx x"
    using op_datoms_admitted [OF _ _ new] assms(1) by (simp add: st run_inv_def)
  show ?thesis
  proof (cases "new = [] \<and> (case op of Add _ _ _ \<Rightarrow> True | AddRef _ _ _ \<Rightarrow> True | _ \<Rightarrow> False)")
    case True
    then have "st' = (ds, w, i')" using st' by simp
    then show ?thesis using run_inv_weaken [OF assms(1)] by (simp add: st run_inv_def)
  next
    case False
    then have "st' = (ds @ new, with_transaction (db_basis_t w + 1) new w, i')" unfolding st' by (simp only: if_False)
    then show ?thesis using run_inv_commit [OF assms(1) [unfolded st] adm] by simp
  qed
qed

lemma run_ops_inv:
  "run_inv d tx (length ops + n) st \<Longrightarrow> run_ops d tempids tx ops st = Inr st' \<Longrightarrow> run_inv d tx n st'"
  by (induction ops arbitrary: st) (auto simp: bindr_eq_Inr dest: run_inv_step)

lemma run_inv_start:
  "db_wf d \<Longrightarrow> db_view d = Current \<Longrightarrow> tx_fits d tx n \<Longrightarrow> run_inv d tx n ([], d, False)"
  by (simp add: run_inv_def)

lemma prepare_Inr:
  assumes "prepare d items tx seq = Inr p"
  shows "\<exists>w i. run_ops d (pt_tempids p) tx (concat (map expand_item items)) ([], d, False) = Inr (pt_datoms p, w, i)"
    and "validate_registry d (pt_datoms p) = Inr ()"
    and "pt_tempids p = assign_tempids d (concat (map expand_item items)) tx seq"
proof -
  let ?ops = "concat (map expand_item items)"
  obtain ds w i where r: "run_ops d (assign_tempids d ?ops tx seq) tx ?ops ([], d, False) = Inr (ds, w, i)"
    and v: "(case validate_registry d ds of Inl v \<Rightarrow> Inl (SagaRefused v)
        | Inr _ \<Rightarrow> Inr \<lparr>pt_datoms = ds, pt_tempids = assign_tempids d ?ops tx seq\<rparr>) = Inr p"
    using assms by (auto simp: prepare_def Let_def bindr_eq_Inr)
  have p: "validate_registry d ds = Inr ()" "p = \<lparr>pt_datoms = ds, pt_tempids = assign_tempids d ?ops tx seq\<rparr>"
    using v by (cases "validate_registry d ds"; simp)+
  show "\<exists>w i. run_ops d (pt_tempids p) tx ?ops ([], d, False) = Inr (pt_datoms p, w, i)" using r p by auto
  show "validate_registry d (pt_datoms p) = Inr ()" "pt_tempids p = assign_tempids d ?ops tx seq" using p by simp_all
qed

subsection \<open>Cardinality and uniqueness\<close>

definition card_one_ok :: "schema \<Rightarrow> fact_of set \<Rightarrow> bool" where
  "card_one_ok s F \<longleftrightarrow> (\<forall>e a v v' attr. schema_get s a = Some attr \<longrightarrow> at_cardinality attr = CardOne \<longrightarrow>
     (e, a, v) \<in> F \<longrightarrow> (e, a, v') \<in> F \<longrightarrow> v = v')"

definition unique_ok :: "schema \<Rightarrow> fact_of set \<Rightarrow> bool" where
  "unique_ok s F \<longleftrightarrow> (\<forall>e e' a v attr. schema_get s a = Some attr \<longrightarrow> at_unique attr \<noteq> None \<longrightarrow>
     (e, a, v) \<in> F \<longrightarrow> (e', a, v) \<in> F \<longrightarrow> e = e')"

lemma card_one_ok_subset: "card_one_ok s F \<Longrightarrow> F' \<subseteq> F \<Longrightarrow> card_one_ok s F'"
  unfolding card_one_ok_def by blast

lemma unique_ok_subset: "unique_ok s F \<Longrightarrow> F' \<subseteq> F \<Longrightarrow> unique_ok s F'"
  unfolding unique_ok_def by blast

lemma card_one_ok_replaced: "card_one_ok s F \<Longrightarrow> card_one_ok s (replaced s e a v F)"
  unfolding card_one_ok_def replaced_def by (auto split: option.splits if_splits)

lemma replaced_subset: "replaced s e a v F \<subseteq> insert (e, a, v) F"
  by (auto simp: replaced_def split: option.splits)

lemma unique_ok_replaced:
  assumes "unique_ok s F" and "\<And>attr e'. schema_get s a = Some attr \<Longrightarrow> at_unique attr \<noteq> None \<Longrightarrow>
      (e', a, v) \<in> F \<Longrightarrow> (e, a, v) \<in> F"
  shows "unique_ok s (replaced s e a v F)"
proof (cases "(e, a, v) \<in> F")
  case True
  then show ?thesis using assms(1) by (simp add: replaced_def)
next
  case False
  then have "unique_ok s (insert (e, a, v) F)"
    using assms unfolding unique_ok_def by (metis Pair_inject insert_iff)
  then show ?thesis by (rule unique_ok_subset) (rule replaced_subset)
qed

lemma card_one_ok_cas:
  assumes "card_one_ok s F"
    and "case old of None \<Rightarrow> \<forall>v'. (e, a, v') \<notin> F | Some o' \<Rightarrow> (e, a, o') \<in> F"
  shows "card_one_ok s (insert (e, a, v) (F - {f. \<exists>o'. old = Some o' \<and> f = (e, a, o')}))"
proof -
  have "v' = v''" if "schema_get s a' = Some attr" "at_cardinality attr = CardOne"
    "(e', a', v') \<in> insert (e, a, v) (F - {f. \<exists>o'. old = Some o' \<and> f = (e, a, o')})"
    "(e', a', v'') \<in> insert (e, a, v) (F - {f. \<exists>o'. old = Some o' \<and> f = (e, a, o')})" for e' a' v' v'' attr
  proof (cases "(e', a') = (e, a)")
    case True
    have "(e, a, u) \<notin> F - {f. \<exists>o'. old = Some o' \<and> f = (e, a, o')}" for u
      using assms that(1,2) True unfolding card_one_ok_def by (cases old) auto
    then show ?thesis using that(3,4) True by auto
  next
    case False
    then have "(e', a', v') \<in> F" "(e', a', v'') \<in> F" using that(3,4) by auto
    then show ?thesis using assms(1) that(1,2) unfolding card_one_ok_def by blast
  qed
  then show ?thesis unfolding card_one_ok_def by blast
qed

definition unique_cas :: "schema \<Rightarrow> tx_op \<Rightarrow> bool" where
  "unique_cas s op = (case op of
     Cas _ a _ _ \<Rightarrow> (case schema_get s a of None \<Rightarrow> False | Some attr \<Rightarrow> at_unique attr \<noteq> None) | _ \<Rightarrow> False)"

lemma op_datoms_constraints:
  assumes "db_wf w" and "db_view w = Current" and "op_datoms d tempids tx w i op = Inr (new, i')"
  shows "card_one_ok (db_schema w) (db_facts w) \<Longrightarrow> card_one_ok (db_schema w) (apply_facts new (db_facts w))"
    and "unique_ok (db_schema w) (db_facts w) \<Longrightarrow> \<not> unique_cas (db_schema w) op \<Longrightarrow>
      unique_ok (db_schema w) (apply_facts new (db_facts w))"
proof -
  let ?F = "db_facts w" and ?s = "db_schema w"
  have add: "(card_one_ok ?s ?F \<longrightarrow> card_one_ok ?s (apply_facts new ?F)) \<and> (unique_ok ?s ?F \<longrightarrow> unique_ok ?s (apply_facts new ?F))"
    if "add_op w tx i e a v = Inr (new, i')" for e a v
    using add_op_spec(1,5) [OF assms(1,2) that] card_one_ok_replaced [of ?s ?F e a v] unique_ok_replaced [of ?s ?F a v e]
    by auto
  have sub: "(card_one_ok ?s ?F \<longrightarrow> card_one_ok ?s (apply_facts new ?F)) \<and> (unique_ok ?s ?F \<longrightarrow> unique_ok ?s (apply_facts new ?F))"
    if "apply_facts new ?F \<subseteq> ?F"
    using that card_one_ok_subset unique_ok_subset by blast
  have cas: "(card_one_ok ?s ?F \<longrightarrow> card_one_ok ?s (apply_facts new ?F)) \<and>
      (unique_ok ?s ?F \<longrightarrow> \<not> unique_cas ?s (Cas r a old v) \<longrightarrow> unique_ok ?s (apply_facts new ?F))"
    if c: "cas_op w tx e a old v = Inr new" "a \<noteq> TX_INSTANT" for r e a old v
  proof -
    have "unique_ok ?s (insert (e, a, v) (?F - {f. \<exists>o'. old = Some o' \<and> f = (e, a, o')}))"
      if "unique_ok ?s ?F" "\<not> unique_cas ?s (Cas r a old v)"
      using that unfolding unique_ok_def unique_cas_def by (auto split: option.splits)
    then show ?thesis
      unfolding cas_op_spec(1) [OF assms(1,2) c] using card_one_ok_cas [OF _ cas_op_spec(4) [OF assms(1,2) c]] by blast
  qed
  have "(card_one_ok ?s ?F \<longrightarrow> card_one_ok ?s (apply_facts new ?F)) \<and>
      (unique_ok ?s ?F \<longrightarrow> \<not> unique_cas ?s op \<longrightarrow> unique_ok ?s (apply_facts new ?F))"
  proof (cases op)
    case (Add r a v)
    then show ?thesis using assms(3) add by (auto simp: op_datoms_def bindr_eq_Inr)
  next
    case (AddRef r a r')
    then show ?thesis using assms(3) add by (auto simp: op_datoms_def bindr_eq_Inr)
  next
    case (Retract r a v)
    then obtain e where "retract_op w tx e a v = Inr new" "a \<noteq> TX_INSTANT"
      using assms(3) by (auto simp: op_datoms_def bindr_eq_Inr split: if_splits)
    then have "apply_facts new ?F \<subseteq> ?F" using retract_op_spec(1) [OF assms(1,2)] by auto
    then show ?thesis using sub by blast
  next
    case (Cas r a old v)
    then obtain e where "cas_op w tx e a old v = Inr new" "a \<noteq> TX_INSTANT"
      using assms(3) by (auto simp: op_datoms_def bindr_eq_Inr split: if_splits)
    then show ?thesis using cas unfolding Cas by blast
  next
    case (RetractEntity r)
    then obtain e where "retract_entity_op w tx e = Inr new"
      using assms(3) by (auto simp: op_datoms_def bindr_eq_Inr)
    then have "apply_facts new ?F \<subseteq> ?F" using retract_entity_op_spec(1) [OF assms(1,2)] by auto
    then show ?thesis using sub by blast
  qed
  then show "card_one_ok ?s ?F \<Longrightarrow> card_one_ok ?s (apply_facts new ?F)"
    and "unique_ok ?s ?F \<Longrightarrow> \<not> unique_cas ?s op \<Longrightarrow> unique_ok ?s (apply_facts new ?F)" by blast+
qed

lemma op_step_facts:
  assumes "run_inv d tx n (ds, w, i)" and "op_step d tempids tx op (ds, w, i) = Inr (ds', w', i')"
  shows "\<exists>new. op_datoms d tempids tx w i op = Inr (new, i') \<and> ds' = ds @ new \<and> db_facts w' = apply_facts new (db_facts w)"
proof -
  have "db_view w = Current" using assms(1) by (simp add: run_inv_def)
  then show ?thesis using assms(2)
    by (auto simp: op_step_def bindr_eq_Inr db_facts_with_transaction)
qed

lemma run_ops_constraints:
  assumes "run_inv d tx (length ops + n) (ds, w, i)" and "run_ops d tempids tx ops (ds, w, i) = Inr (ds', w', i')"
  shows "(card_one_ok (db_schema d) (db_facts w) \<longrightarrow> card_one_ok (db_schema d) (db_facts w')) \<and>
    (unique_ok (db_schema d) (db_facts w) \<longrightarrow> (\<forall>op \<in> set ops. \<not> unique_cas (db_schema d) op) \<longrightarrow>
       unique_ok (db_schema d) (db_facts w'))"
  using assms
proof (induction ops arbitrary: ds w i)
  case (Cons op ops)
  obtain ds1 w1 i1 where step: "op_step d tempids tx op (ds, w, i) = Inr (ds1, w1, i1)"
    and rest: "run_ops d tempids tx ops (ds1, w1, i1) = Inr (ds', w', i')"
    using Cons.prems(2) by (auto simp: bindr_eq_Inr)
  have inv: "run_inv d tx (Suc (length ops + n)) (ds, w, i)" using Cons.prems(1) by simp
  have inv1: "run_inv d tx (length ops + n) (ds1, w1, i1)" by (rule run_inv_step [OF inv step])
  obtain new where new: "op_datoms d tempids tx w i op = Inr (new, i1)" "db_facts w1 = apply_facts new (db_facts w)"
    using op_step_facts [OF inv step] by blast
  have w: "db_wf w" "db_view w = Current" "db_schema w = db_schema d" using inv by (simp_all add: run_inv_def)
  show ?case
    using Cons.IH [OF inv1 rest] op_datoms_constraints [OF w(1,2) new(1)] unfolding w(3) new(2) by auto
qed simp

subsection \<open>Tempids\<close>

text \<open>
  The tempids that need a fresh id, and what allocating for some positions leaves: unified ids
  are kept, and the fresh ones are the sequence numbers from \<open>base\<close> on, each given once.
\<close>

definition fresh_temps :: "(temp_id, entity_id) omap \<Rightarrow> entity_ref set \<Rightarrow> temp_id set" where
  "fresh_temps U rs = {t. Temp t \<in> rs \<and> t \<noteq> TX_TEMPID \<and> om_get U t = None}"

definition assigned ::
    "(temp_id, entity_id) omap \<Rightarrow> tx_id \<Rightarrow> u64 \<Rightarrow> entity_ref set \<Rightarrow> (temp_id \<Rightarrow> nat) \<Rightarrow> temp_id \<Rightarrow> entity_id option" where
  "assigned U tx base rs f t =
    (if t \<in> fresh_temps U rs then Some (eid_new (part_id PartUser) (base + of_nat (f t)))
     else if t = TX_TEMPID \<and> Temp t \<in> rs then Some tx
     else om_get U t)"

definition alloc_inv ::
    "(temp_id, entity_id) omap \<Rightarrow> tx_id \<Rightarrow> u64 \<Rightarrow> entity_ref set \<Rightarrow> (temp_id, entity_id) omap \<times> u64 \<Rightarrow> nat \<Rightarrow> (temp_id \<Rightarrow> nat) \<Rightarrow> bool" where
  "alloc_inv U tx base rs st k f \<longleftrightarrow> snd st = base + of_nat k \<and> (\<forall>t. om_get (fst st) t = assigned U tx base rs f t) \<and>
     (\<forall>t \<in> fresh_temps U rs. f t < k) \<and> inj_on f (fresh_temps U rs)"

lemma fresh_temps_insert:
  "fresh_temps U (insert r rs) = (case r of
     Temp t \<Rightarrow> if t \<noteq> TX_TEMPID \<and> om_get U t = None then insert t (fresh_temps U rs) else fresh_temps U rs
   | _ \<Rightarrow> fresh_temps U rs)"
  by (cases r) (auto simp: fresh_temps_def)

lemma alloc_inv_keep:
  assumes "alloc_inv U tx base rs st k f" and "fresh_temps U (insert r rs) = fresh_temps U rs"
    and "\<And>t. om_get (fst st') t = (if t = TX_TEMPID \<and> Temp t \<in> insert r rs then Some tx else om_get (fst st) t)"
    and "snd st' = snd st"
  shows "alloc_inv U tx base (insert r rs) st' k f"
  using assms by (auto simp: alloc_inv_def assigned_def fresh_temps_def)

lemma alloc_inv_step:
  assumes "alloc_inv U tx base rs st k f"
  shows "\<exists>k' f'. k' \<le> Suc k \<and> alloc_inv U tx base (insert r rs) (allocate_step tx r st) k' f'"
proof (cases "\<exists>t. r = Temp t \<and> t \<noteq> TX_TEMPID \<and> om_get (fst st) t = None")
  case True
  then obtain t where t: "r = Temp t" "t \<noteq> TX_TEMPID" "om_get (fst st) t = None" by blast
  have inv: "snd st = base + of_nat k" "\<And>t. om_get (fst st) t = assigned U tx base rs f t"
    "\<And>t. t \<in> fresh_temps U rs \<Longrightarrow> f t < k" "inj_on f (fresh_temps U rs)"
    using assms by (simp_all add: alloc_inv_def)
  have new: "om_get U t = None" "t \<notin> fresh_temps U rs"
    using t inv(2) [of t] by (auto simp: assigned_def split: if_splits)
  have fresh: "fresh_temps U (insert r rs) = insert t (fresh_temps U rs)"
    using t new by (simp add: fresh_temps_insert)
  have "allocate_step tx r st = (om_insert t (eid_new (part_id PartUser) (snd st)) (fst st), snd st + 1)"
    using t by (simp add: allocate_step_def split_beta)
  moreover have "inj_on (f(t := k)) (insert t (fresh_temps U rs))"
    using inv(3,4) new(2) unfolding inj_on_def by (metis fun_upd_apply insert_iff less_irrefl)
  moreover have "om_get (om_insert t (eid_new (part_id PartUser) (snd st)) (fst st)) t' =
      assigned U tx base (insert r rs) (f(t := k)) t'" for t'
    unfolding assigned_def fresh using inv(1) inv(2) [of t'] t(2) by (cases "t' = t") (simp_all add: assigned_def t(1))
  ultimately have "alloc_inv U tx base (insert r rs) (allocate_step tx r st) (Suc k) (f(t := k))"
    using inv(1,3) new(2) unfolding alloc_inv_def fresh by (auto simp: less_Suc_eq add.assoc)
  then show ?thesis by blast
next
  case False
  have inv: "\<And>t. om_get (fst st) t = assigned U tx base rs f t" using assms by (simp add: alloc_inv_def)
  have "fresh_temps U (insert r rs) = fresh_temps U rs"
  proof (cases r)
    case (Temp t)
    then show ?thesis using False inv [of t] by (auto simp: fresh_temps_insert assigned_def insert_absorb split: if_splits)
  qed (simp_all add: fresh_temps_insert)
  moreover have "om_get (fst (allocate_step tx r st)) t = (if t = TX_TEMPID \<and> Temp t \<in> insert r rs then Some tx else om_get (fst st) t)" for t
    using False inv [of TX_TEMPID] by (cases r) (auto simp: allocate_step_def split_beta assigned_def fresh_temps_def)
  moreover have "snd (allocate_step tx r st) = snd st"
    using False by (cases r) (auto simp: allocate_step_def split_beta)
  ultimately have "alloc_inv U tx base (insert r rs) (allocate_step tx r st) k f"
    by (rule alloc_inv_keep [OF assms])
  then show ?thesis by (meson le_SucI order_refl)
qed

lemma alloc_inv_fold:
  "alloc_inv U tx base rs st k f \<Longrightarrow>
    \<exists>k' f'. k' \<le> length ps + k \<and> alloc_inv U tx base (rs \<union> set ps) (fold (allocate_step tx) ps st) k' f'"
proof (induction ps arbitrary: rs st k f)
  case (Cons p ps)
  obtain k1 f1 where "k1 \<le> Suc k" "alloc_inv U tx base (insert p rs) (allocate_step tx p st) k1 f1"
    using alloc_inv_step [OF Cons.prems] by blast
  moreover from this obtain k2 f2 where "k2 \<le> length ps + k1"
    "alloc_inv U tx base (insert p rs \<union> set ps) (fold (allocate_step tx) ps (allocate_step tx p st)) k2 f2"
    using Cons.IH by blast
  ultimately show ?case by (intro exI [of _ k2] exI [of _ f2]) simp
qed auto

lemma assign_tempids_spec:
  fixes d ops
  defines "U \<equiv> fold (unify_step d) ops om_empty" and "ps \<equiv> concat (map entity_positions ops)"
  shows "\<exists>f. (\<forall>t. om_get (assign_tempids d ops tx seq) t = assigned U tx (max seq FIRST_USER_ID) (set ps) f t) \<and>
    (\<forall>t \<in> fresh_temps U (set ps). f t < length ps) \<and> inj_on f (fresh_temps U (set ps))"
proof -
  have "alloc_inv U tx (max seq FIRST_USER_ID) {} (U, max seq FIRST_USER_ID) 0 (\<lambda>_. 0)"
    by (simp add: alloc_inv_def assigned_def fresh_temps_def)
  from alloc_inv_fold [OF this, of ps] obtain k f where "k \<le> length ps"
    "alloc_inv U tx (max seq FIRST_USER_ID) (set ps) (fold (allocate_step tx) ps (U, max seq FIRST_USER_ID)) k f" by auto
  then show ?thesis
    unfolding alloc_inv_def assign_tempids_def Let_def U_def [symmetric] ps_def [symmetric]
    by (meson order_less_le_trans)
qed

text \<open>Unification maps a tempid only to an entity that holds a unique identity value it asserts.\<close>

lemma unified_holds:
  assumes "db_wf d" and "db_view d = Current" and "om_get (fold (unify_step d) ops om_empty) t = Some e"
  shows "t \<noteq> TX_TEMPID \<and> (\<exists>a v attr. Add (Temp t) a v \<in> set ops \<and> schema_get (db_schema d) a = Some attr \<and>
    at_unique attr = Some UniqueIdentity \<and> (e, a, v) \<in> db_facts d)"
  using assms(3)
proof (induction ops rule: rev_induct)
  case (snoc op ops)
  have look: "lookup d a v = Some e \<Longrightarrow> (e, a, v) \<in> db_facts d" for a v
    using lookup_spec [OF assms(1), of a v e] assms(2) by (simp add: holds_value_facts)
  show ?case
  proof (cases "om_get (fold (unify_step d) ops om_empty) t = Some e")
    case True
    then show ?thesis using snoc.IH by auto
  next
    case False
    have "om_get (unify_step d op (fold (unify_step d) ops om_empty)) t = Some e" using snoc.prems by simp
    with False have "\<exists>a v. op = Add (Temp t) a v \<and> t \<noteq> TX_TEMPID \<and> lookup d a v = Some e \<and>
        Option.bind (schema_get (db_schema d) a) at_unique = Some UniqueIdentity"
      unfolding unify_step_def [of d op] by (auto split: tx_op.splits entity_ref.splits if_splits option.splits)
    then obtain a v attr where "op = Add (Temp t) a v" "t \<noteq> TX_TEMPID" "schema_get (db_schema d) a = Some attr"
      "at_unique attr = Some UniqueIdentity" "lookup d a v = Some e"
      by (auto simp: bind_eq_Some_conv)
    moreover from this have "Add (Temp t) a v \<in> set (ops @ [op])" by simp
    ultimately show ?thesis using look by blast
  qed
qed simp

lemma eid_new_user_inject:
  assumes "unat base + n < 2 ^ 42" and "i < n" and "j < n"
  shows "eid_new (part_id PartUser) (base + of_nat i) = eid_new (part_id PartUser) (base + of_nat j) \<longleftrightarrow> i = j"
proof -
  have u: "unat (base + of_nat k :: u64) = unat base + k" if "k < n" for k
  proof -
    have "unat (of_nat k :: u64) = k" using that assms(1) by (simp add: unat_of_nat)
    then show ?thesis using that assms(1) by (simp add: unat_word_ariths)
  qed
  have "eid_sequence (eid_new (part_id PartUser) (base + of_nat k)) = base + of_nat k" if "k < n" for k
    using that assms(1) u [OF that] by (intro eid_sequence_new) simp_all
  then show ?thesis using u assms(2,3) by (metis add_left_cancel)
qed

subsection \<open>The instant of a transaction\<close>

definition instant_asserts :: "datom list \<Rightarrow> nat" where
  "instant_asserts ds = length (filter (\<lambda>x. d_a x = TX_INSTANT \<and> d_added x) ds)"

lemma add_op_instants:
  assumes "db_wf w" and "db_view w = Current" and "add_op w tx i e a v = Inr (new, i')"
  shows "instant_asserts new + of_bool i \<le> of_bool i'"
proof (cases "a = TX_INSTANT")
  case True
  have "length (filter d_added new) \<le> 1"
    using assms(3) by (auto simp: add_op_def Let_def bindr_eq_Inr filter_empty_conv split: if_splits option.splits)
  moreover have "filter (\<lambda>x. d_a x = TX_INSTANT \<and> d_added x) new = filter d_added new"
    using add_op_spec(6) [OF assms] True by (intro filter_cong) auto
  ultimately show ?thesis
    using add_op_spec(3,4) [OF assms] True by (simp add: instant_asserts_def)
next
  case False
  then have "filter (\<lambda>x. d_a x = TX_INSTANT \<and> d_added x) new = []"
    using add_op_spec(6) [OF assms] by (auto simp: filter_empty_conv)
  then show ?thesis using add_op_spec(3) [OF assms] False by (simp add: instant_asserts_def)
qed

lemma op_datoms_instants:
  assumes "db_wf w" and "db_view w = Current" and "op_datoms d tempids tx w i op = Inr (new, i')"
  shows "instant_asserts new + of_bool i \<le> of_bool i'"
proof -
  have none: "instant_asserts new = 0" if "\<forall>x \<in> set new. d_added x \<longrightarrow> d_a x \<noteq> TX_INSTANT"
    using that by (auto simp: instant_asserts_def filter_empty_conv)
  show ?thesis
  proof (cases op)
    case (Add r a v)
    then obtain e where "add_op w tx i e a v = Inr (new, i')" using assms(3) by (auto simp: op_datoms_def bindr_eq_Inr)
    then show ?thesis by (rule add_op_instants [OF assms(1,2)])
  next
    case (AddRef r a r')
    then obtain e t where "add_op w tx i e a (Ref t) = Inr (new, i')" using assms(3) by (auto simp: op_datoms_def bindr_eq_Inr)
    then show ?thesis by (rule add_op_instants [OF assms(1,2)])
  next
    case (Retract r a v)
    then have "instant_asserts new = 0 \<and> i' = i" using assms(3) none
      by (auto simp: op_datoms_def bindr_eq_Inr retract_op_def split: if_splits)
    then show ?thesis by simp
  next
    case (Cas r a old v)
    then have "instant_asserts new = 0 \<and> i' = i" using assms(3) none
      by (auto simp: op_datoms_def bindr_eq_Inr cas_op_def Let_def split: if_splits option.splits)
    then show ?thesis by simp
  next
    case (RetractEntity r)
    then have "instant_asserts new = 0 \<and> i' = i" using assms(3) none
      by (auto simp: op_datoms_def bindr_eq_Inr retract_entity_op_def Let_def split: if_splits option.splits)
    then show ?thesis by simp
  qed
qed

lemma run_ops_instants:
  assumes "run_inv d tx (length ops + n) (ds, w, i)" and "run_ops d tempids tx ops (ds, w, i) = Inr (ds', w', i')"
    and "instant_asserts ds \<le> of_bool i"
  shows "instant_asserts ds' \<le> of_bool i'"
  using assms
proof (induction ops arbitrary: ds w i)
  case (Cons op ops)
  obtain ds1 w1 i1 where step: "op_step d tempids tx op (ds, w, i) = Inr (ds1, w1, i1)"
    and rest: "run_ops d tempids tx ops (ds1, w1, i1) = Inr (ds', w', i')"
    using Cons.prems(2) by (auto simp: bindr_eq_Inr)
  have inv: "run_inv d tx (Suc (length ops + n)) (ds, w, i)" using Cons.prems(1) by simp
  obtain new where new: "op_datoms d tempids tx w i op = Inr (new, i1)" "ds1 = ds @ new"
    using op_step_facts [OF inv step] by blast
  have w: "db_wf w" "db_view w = Current" using inv by (simp_all add: run_inv_def)
  have "instant_asserts ds1 \<le> of_bool i1"
    using op_datoms_instants [OF w new(1)] Cons.prems(3) unfolding new(2) by (simp add: instant_asserts_def)
  then show ?case using Cons.IH [OF run_inv_step [OF inv step] rest] by blast
qed simp

subsection \<open>Properties\<close>

text \<open>
  C22. What a prepared transaction records is admitted. Every datom, asserted or retracted, carries the
  transaction's id and is about an attribute and an entity transactions may write. Of every asserted datom, moreover,
  the attribute is installed and not retired, and the value has its type and the protection form the
  attribute has now; of a retraction nothing more is required, so that facts of retired attributes and of
  earlier protection forms can be retracted. \<open>:db/txInstant\<close> is asserted at most once, on the transaction entity, and
  the saga registry checks hold.
\<close>

theorem prepare_admits:
  assumes "db_wf d" and "db_view d = Current" and "prepare d items tx seq = Inr p"
    and "tx_fits d tx (length (concat (map expand_item items)))"
  shows "(\<forall>x \<in> set (pt_datoms p). datom_admitted d tx x) \<and> instant_asserts (pt_datoms p) \<le> 1 \<and>
    validate_registry d (pt_datoms p) = Inr ()"
proof -
  obtain w i where run: "run_ops d (pt_tempids p) tx (concat (map expand_item items)) ([], d, False) = Inr (pt_datoms p, w, i)"
    using prepare_Inr(1) [OF assms(3)] by blast
  have inv: "run_inv d tx (length (concat (map expand_item items)) + 0) ([], d, False)"
    using run_inv_start [OF assms(1,2)] assms(4) by simp
  have "instant_asserts (pt_datoms p) \<le> of_bool i"
    by (rule run_ops_instants [OF inv run]) (simp add: instant_asserts_def)
  then have "instant_asserts (pt_datoms p) \<le> 1" by (cases i) simp_all
  then show ?thesis
    using run_ops_inv [OF inv run] prepare_Inr(2) [OF assms(3)] by (simp add: run_inv_def)
qed

definition wit_key :: attribute where
  "wit_key = \<lparr>at_id = 101, at_value_type = LongT, at_cardinality = CardOne,
     at_unique = Some UniqueIdentity, at_is_component = False, at_indexed = True, at_no_history = False\<rparr>"

definition wit_empty :: db where
  "wit_empty = db_default\<lparr>db_schema := schema_insert wit_key schema_default\<rparr>"

definition wit_add :: tx_item where
  "wit_add = ItemOp (Add (EId 5) 101 (Long 7))"

definition wit_added :: datom where
  "wit_added = fact_datom (tx_entity 1) True (5, 101, Long 7)"

lemma wit_empty_simps:
  "db_wf wit_empty" "db_view wit_empty = Current" "db_facts wit_empty = {}" "db_basis_t wit_empty = 0"
  "schema_get (db_schema wit_empty) 101 = Some wit_key" "\<not> is_retired (db_schema wit_empty) 101"
  "schema_protection (db_schema wit_empty) 101 = []"
proof -
  show "db_wf wit_empty"
    by (simp add: wit_empty_def db_wf_def db_default_def tx_bounded_def schema_wf_insert schema_wf_default wit_key_def)
qed (simp_all add: wit_empty_def db_default_def wit_key_def db_facts_def visible_def schema_default_def schema_get_def
      schema_insert_def is_retired_def schema_protection_def)

lemma wit_101:
  "writable_by_transaction e 101" "\<not> is_saga_attribute 101" "\<not> is_grant_attribute 101" "101 \<noteq> TX_INSTANT" "101 \<noteq> SAGA_ID_GRANTS"
  by (simp_all add: writable_by_transaction_def is_audit_attribute_def is_schema_attribute_def is_saga_attribute_def
      saga_attributes_def is_grant_attribute_def engine_ids)

lemma wit_no_sagas_all:
  assumes "db_wf d" and "db_view d = Current" and "\<And>e v. (e, SAGA_ID, v) \<notin> db_facts d" and "\<And>x. x \<in> set ds \<Longrightarrow> d_a x = 101"
  shows "validate_registry d ds = Inr ()"
proof -
  have "entry_at d e' = None" for e'
    using field_Some [OF assms(1), of e' SAGA_ID as_uuid] assms(2,3)
    by (cases "field d e' SAGA_ID as_uuid") (auto simp: entry_at_def)
  then have "open_entries d = []"
    using assms(1,2) by (intro open_entries_Nil) auto
  moreover have "filter (\<lambda>x. is_saga_attribute (d_a x)) ds = []" using assms(4) by (simp add: filter_empty_conv wit_101)
  ultimately show ?thesis
    using assms(4) by (simp add: validate_registry_def validate_granted_ids_def wit_101 os_elems_def om_keys_def list_ex_iff)
qed

lemma wit_no_sagas:
  assumes "db_wf d" and "db_view d = Current" and "\<And>e v. (e, SAGA_ID, v) \<notin> db_facts d"
  shows "validate_registry d [fact_datom tx b (e, 101, v)] = Inr ()"
  by (rule wit_no_sagas_all [OF assms]) (simp_all add: fact_datom_def)

lemma wit_prepare: "prepare wit_empty [wit_add] (tx_entity 1) 0 = Inr \<lparr>pt_datoms = [wit_added], pt_tempids = om_empty\<rparr>"
proof -
  have view: "db_view wit_empty \<noteq> History" by (simp add: wit_empty_simps)
  have "db_values wit_empty 5 101 = []"
    by (rule values_none [OF wit_empty_simps(1) view]) (simp add: wit_empty_simps)
  moreover have "lookup wit_empty 101 (Long 7) = None"
    using lookup_None [OF wit_empty_simps(1) view] by (simp add: holds_value_facts wit_empty_simps)
  ultimately have "op_datoms wit_empty om_empty (tx_entity 1) wit_empty False (Add (EId 5) 101 (Long 7)) = Inr ([wit_added], False)"
    by (simp add: op_datoms_def resolve_entity_def add_op_def wit_101 validate_value_def wit_empty_simps validate_not_retired_def
        validate_assertion_form_def tl_current_def wit_key_def wit_added_def)
  then show ?thesis
    using wit_no_sagas [OF wit_empty_simps(1,2), of "tx_entity 1" True 5 "Long 7"]
    by (simp add: prepare_def wit_add_def assign_tempids_def unify_step_def allocate_step_def op_step_def Let_def
        wit_added_def wit_empty_simps)
qed

lemma wit_fits: "tx_fits wit_empty (tx_entity 1) (length (concat (map expand_item [wit_add])))"
  by (simp add: tx_fits_def wit_empty_simps wit_add_def eid_sequence_tx_entity_small)

theorem prepare_admits_witness: "datom_admitted wit_empty (tx_entity 1) wit_added"
  using prepare_admits [OF wit_empty_simps(1,2) wit_prepare wit_fits] by simp

text \<open>
  C1. Committing a prepared transaction keeps the constraints the schema states: at most one value
  per entity for cardinality one, and one owner per unique value unless the transaction
  compare-and-swaps a unique attribute. The working database the operations ran on and the
  committed one show the same facts.
\<close>

theorem prepare_keeps_constraints:
  assumes "db_wf d" and "db_view d = Current" and "prepare d items tx seq = Inr p"
    and "tx_fits d tx (length (concat (map expand_item items)))"
    and "card_one_ok (db_schema d) (db_facts d)" and "unique_ok (db_schema d) (db_facts d)"
  shows "card_one_ok (db_schema d) (db_facts (with_transaction t (pt_datoms p) d)) \<and>
    ((\<forall>op \<in> set (concat (map expand_item items)). \<not> unique_cas (db_schema d) op) \<longrightarrow>
       unique_ok (db_schema d) (db_facts (with_transaction t (pt_datoms p) d))) \<and>
    db_schema (with_transaction t (pt_datoms p) d) = db_schema d \<and>
    (\<exists>w i. run_ops d (pt_tempids p) tx (concat (map expand_item items)) ([], d, False) = Inr (pt_datoms p, w, i) \<and>
       db_facts w = db_facts (with_transaction t (pt_datoms p) d))"
proof -
  obtain w i where run: "run_ops d (pt_tempids p) tx (concat (map expand_item items)) ([], d, False) = Inr (pt_datoms p, w, i)"
    using prepare_Inr(1) [OF assms(3)] by blast
  have inv: "run_inv d tx (length (concat (map expand_item items)) + 0) ([], d, False)"
    using run_inv_start [OF assms(1,2)] assms(4) by simp
  have final: "run_inv d tx 0 (pt_datoms p, w, i)" by (rule run_ops_inv [OF inv run])
  then have facts: "db_facts (with_transaction t (pt_datoms p) d) = db_facts w"
    by (simp add: run_inv_def db_facts_with_transaction [OF assms(2)])
  have "naming_only (pt_datoms p)"
    using final by (intro admitted_naming_only [THEN conjunct1]) (auto simp: run_inv_def)
  then have "db_schema (with_transaction t (pt_datoms p) d) = db_schema d" by (rule db_schema_commit)
  then show ?thesis
    using run_ops_constraints [OF inv run] assms(5,6) run unfolding facts by blast
qed

theorem prepare_keeps_constraints_witness:
  "unique_ok (db_schema wit_empty) (db_facts (with_transaction 1 [wit_added] wit_empty))"
proof -
  have ok: "card_one_ok (db_schema wit_empty) (db_facts wit_empty)" "unique_ok (db_schema wit_empty) (db_facts wit_empty)"
    by (simp_all add: card_one_ok_def unique_ok_def wit_empty_simps)
  show ?thesis
    using prepare_keeps_constraints [OF wit_empty_simps(1,2) wit_prepare wit_fits ok, of 1]
    by (simp add: wit_add_def unique_cas_def)
qed

text \<open>
  C32. Retracting an entity terminates on every graph of component references, cyclic ones included,
  within a depth of one more than the number of datoms, and collects exactly the facts of the
  entities reached over component references and the references to them.
\<close>

theorem collect_retractions_total:
  "\<exists>facts seen. collect_entity_retractions (Suc (length (datoms d))) d e (om_empty, om_empty) = Some (facts, seen) \<and>
     os_set facts = facts_about d {s. component_reach d e s}"
  by (rule collect_from_scratch)

text \<open>
  Tempids. The transaction tempid is the transaction entity. A tempid that asserts a unique
  identity value some entity holds is one such entity. Every other tempid of the transaction
  is a user-partition id at or after the allocator's next, and no two share one.
\<close>

theorem tempids_assigned:
  fixes d ops tx seq
  defines "m \<equiv> assign_tempids d ops tx seq" and "U \<equiv> fold (unify_step d) ops om_empty"
    and "rs \<equiv> set (concat (map entity_positions ops))"
  assumes "db_wf d" and "db_view d = Current"
    and "unat (max seq FIRST_USER_ID) + length (concat (map entity_positions ops)) < 2 ^ 42"
  shows "(Temp TX_TEMPID \<in> rs \<longrightarrow> om_get m TX_TEMPID = Some tx) \<and>
    (\<forall>t e. om_get U t = Some e \<longrightarrow> om_get m t = Some e \<and>
       (\<exists>a v attr. Add (Temp t) a v \<in> set ops \<and> schema_get (db_schema d) a = Some attr \<and>
          at_unique attr = Some UniqueIdentity \<and> (e, a, v) \<in> db_facts d)) \<and>
    (\<forall>t \<in> fresh_temps U rs. \<exists>e. om_get m t = Some e \<and> eid_partition e = part_id PartUser \<and>
       max seq FIRST_USER_ID \<le> eid_sequence e \<and> (\<forall>t' \<in> fresh_temps U rs. om_get m t' = Some e \<longrightarrow> t' = t))"
proof -
  let ?b = "max seq FIRST_USER_ID" and ?n = "length (concat (map entity_positions ops))"
  obtain f where get: "\<And>t. om_get m t = assigned U tx ?b rs f t"
    and lt: "\<And>t. t \<in> fresh_temps U rs \<Longrightarrow> f t < ?n" and inj: "inj_on f (fresh_temps U rs)"
    using assign_tempids_spec [of d ops tx seq] unfolding m_def U_def rs_def by blast
  have uni: "t \<noteq> TX_TEMPID \<and> (\<exists>a v attr. Add (Temp t) a v \<in> set ops \<and> schema_get (db_schema d) a = Some attr \<and>
      at_unique attr = Some UniqueIdentity \<and> (e, a, v) \<in> db_facts d)" if "om_get U t = Some e" for t e
    using unified_holds [OF assms(4,5)] that unfolding U_def by blast
  have 1: "Temp TX_TEMPID \<in> rs \<longrightarrow> om_get m TX_TEMPID = Some tx"
    by (simp add: get assigned_def fresh_temps_def)
  have 2: "om_get m t = Some e" if "om_get U t = Some e" for t e
    using that uni [OF that] by (auto simp: get assigned_def fresh_temps_def)
  have 3: "\<exists>e. om_get m t = Some e \<and> eid_partition e = part_id PartUser \<and> ?b \<le> eid_sequence e \<and>
      (\<forall>t' \<in> fresh_temps U rs. om_get m t' = Some e \<longrightarrow> t' = t)" if t: "t \<in> fresh_temps U rs" for t
  proof -
    have u: "unat (?b + of_nat (f t)) = unat ?b + f t"
      using lt [OF t] assms(6) by (simp add: unat_word_ariths unat_of_nat)
    have "t' = t" if "t' \<in> fresh_temps U rs"
      "eid_new (part_id PartUser) (?b + of_nat (f t')) = eid_new (part_id PartUser) (?b + of_nat (f t))" for t'
      using eid_new_user_inject [OF assms(6) lt [OF that(1)] lt [OF t]] that inj t by (auto simp: inj_on_def)
    moreover have "eid_sequence (eid_new (part_id PartUser) (?b + of_nat (f t))) = ?b + of_nat (f t)"
      using u lt [OF t] assms(6) by (intro eid_sequence_new) simp_all
    moreover have "?b \<le> ?b + of_nat (f t)" unfolding word_le_nat_alt u by simp
    moreover have "eid_partition (eid_new (part_id PartUser) (?b + of_nat (f t))) = part_id PartUser"
      by (rule eid_partition_new) simp
    ultimately show ?thesis using t by (auto simp: get assigned_def)
  qed
  show ?thesis using 1 2 3 uni by blast
qed

theorem tempids_assigned_witness:
  "om_get (assign_tempids wit_empty [Add (Temp TX_TEMPID) 101 (Long 1)] 77 0) TX_TEMPID = Some 77"
  using tempids_assigned [OF wit_empty_simps(1,2), of 0 "[Add (Temp TX_TEMPID) 101 (Long 1)]" 77]
  by (simp add: FIRST_USER_ID_def)

text \<open>
  Retirement refuses assertions and compare-and-swap alike and leaves retraction open: on a
  retired attribute \<open>add\<close> and \<open>cas\<close> fail with \<open>RetiredAttribute\<close>, while retracting a stored
  value still records its retraction.
\<close>

theorem retired_attribute_operations:
  assumes "is_retired (db_schema w) a" and "validate_value w e a v = Inr ()" and "a \<noteq> TX_INSTANT"
  shows "add_op w tx i e a v = Inl (RetiredAttribute a) \<and> cas_op w tx e a old v = Inl (RetiredAttribute a) \<and>
    (validate_historical_form w a v = Inr () \<longrightarrow> v \<in> set (db_values w e a) \<longrightarrow>
       retract_op w tx e a v = Inr [fact_datom tx False (e, a, v)])"
  using assms by (simp add: add_op_def cas_op_def retract_op_def validate_not_retired_def)

definition wit_retired :: db where
  "wit_retired = wit_empty\<lparr>db_schema := set_retired 101 True (db_schema wit_empty)\<rparr>"

theorem retired_attribute_operations_witness:
  "cas_op wit_retired 9 5 101 None (Long 7) = Inl (RetiredAttribute 101)"
proof -
  have "schema_get (db_schema wit_retired) 101 = Some wit_key" "is_retired (db_schema wit_retired) 101"
    by (simp_all add: wit_retired_def wit_empty_simps view_simps)
  then show ?thesis
    using retired_attribute_operations [of wit_retired 101 5 "Long 7"]
    by (simp add: wit_101 validate_value_def wit_key_def)
qed

text \<open>
  C38. Compare-and-swap does not check uniqueness: on a database where entity 5 owns the unique
  value, swapping the same value onto entity 6 is prepared, and committing it leaves the value
  with two owners.
\<close>

theorem cas_breaks_uniqueness:
  "let d = with_transaction 1 [wit_added] wit_empty;
       datom = fact_datom (tx_entity 2) True (6, 101, Long 7)
   in unique_ok (db_schema d) (db_facts d) \<and>
      prepare d [ItemOp (Cas (EId 6) 101 None (Long 7))] (tx_entity 2) 0 =
        Inr \<lparr>pt_datoms = [datom], pt_tempids = om_empty\<rparr> \<and>
      \<not> unique_ok (db_schema d) (db_facts (with_transaction 2 [datom] d))"
proof -
  define d where "d = with_transaction 1 [wit_added] wit_empty"
  have app: "applies 1 [wit_added] wit_empty"
    by (simp add: applies_def wit_empty_simps wit_added_def tx_bounded_def eid_sequence_tx_entity_small
        schema_placed_def is_schema_attribute_def engine_ids)
  have wf: "db_wf d" unfolding d_def by (rule db_wf_with_transaction_at [OF wit_empty_simps(1) app]) simp_all
  have view: "db_view d = Current" by (simp add: d_def wit_empty_simps)
  have facts: "db_facts d = {(5, 101, Long 7)}"
    by (simp add: d_def db_facts_with_transaction wit_empty_simps wit_added_def fact_step_def)
  have schema: "db_schema d = db_schema wit_empty"
    unfolding d_def by (rule db_schema_commit) (simp add: naming_only_def wit_added_def is_schema_attribute_def engine_ids)
  have vals: "db_values d 6 101 = []" by (rule values_none [OF wf]) (simp_all add: view facts)
  have "op_datoms d om_empty (tx_entity 2) d False (Cas (EId 6) 101 None (Long 7)) =
      Inr ([fact_datom (tx_entity 2) True (6, 101, Long 7)], False)"
    by (simp add: op_datoms_def resolve_entity_def cas_op_def wit_101 validate_value_def schema wit_empty_simps validate_not_retired_def
        validate_assertion_form_def tl_current_def wit_key_def vals)
  then have "prepare d [ItemOp (Cas (EId 6) 101 None (Long 7))] (tx_entity 2) 0 =
      Inr \<lparr>pt_datoms = [fact_datom (tx_entity 2) True (6, 101, Long 7)], pt_tempids = om_empty\<rparr>"
    using wit_no_sagas [OF wf view, of "tx_entity 2" True 6 "Long 7"] facts
    by (simp add: prepare_def assign_tempids_def unify_step_def allocate_step_def op_step_def Let_def engine_ids)
  moreover have "db_facts (with_transaction 2 [fact_datom (tx_entity 2) True (6, 101, Long 7)] d) =
      {(6, 101, Long 7), (5, 101, Long 7)}"
    by (simp add: db_facts_with_transaction view facts fact_step_def)
  moreover have "\<not> unique_ok (db_schema d) {(6, 101, Long 7), (5, 101, Long 7)}"
    unfolding unique_ok_def schema
    by (intro notI) (drule spec [of _ 6], drule spec [of _ 5], drule spec [of _ 101],
        drule spec [of _ "Long 7"], drule spec [of _ wit_key], simp add: wit_empty_simps wit_key_def)
  moreover have "unique_ok (db_schema d) (db_facts d)" by (simp add: facts unique_ok_def)
  ultimately show ?thesis by (simp add: Let_def d_def [symmetric])
qed

end
