(* ===== verification/Tx_Merge.thy ===== *)
theory Tx_Merge
  imports Tx_Prepare
begin

text \<open>
  What a saga branch merges into its parent and what stops it (\<open>crates/corium-tx/src/merge.rs\<close>):
  squashing a run of transactions to its net effect, scanning a branch's novelty against the
  parent's current value, matching resolutions, and translating keyword values.
\<close>

subsection \<open>Net effects\<close>

record novelty =
  nv_asserts :: "fact_of oset"
  nv_retracts :: "fact_of oset"
  nv_steps :: nat

definition novelty_default :: novelty where
  "novelty_default = \<lparr>nv_asserts = om_empty, nv_retracts = om_empty, nv_steps = 0\<rparr>"

definition novelty_is_empty :: "novelty \<Rightarrow> bool" where
  "novelty_is_empty n \<longleftrightarrow> om_size (nv_asserts n) = 0 \<and> om_size (nv_retracts n) = 0"

definition novelty_len :: "novelty \<Rightarrow> nat" where
  "novelty_len n = om_size (nv_asserts n) + om_size (nv_retracts n)"

definition novelty_facts :: "novelty \<Rightarrow> (fact_of \<times> bool) list" where
  "novelty_facts n = map (\<lambda>f. (f, False)) (os_elems (nv_retracts n)) @ map (\<lambda>f. (f, True)) (os_elems (nv_asserts n))"

record squash_state =
  sq_first :: "(fact_of, bool) omap"
  sq_last :: "(fact_of, bool) omap"
  sq_transactions :: "u64 oset"

definition squash_step :: "datom \<Rightarrow> squash_state \<Rightarrow> squash_state" where
  "squash_step x st =
    (let st = st\<lparr>sq_transactions := os_insert (eid_sequence (d_tx x)) (sq_transactions st)\<rparr>
     in if eid_partition (d_e x) = part_id PartTx then st
        else st\<lparr>sq_first := (if om_get (sq_first st) (d_fact x) = None
                             then om_insert (d_fact x) (d_added x) (sq_first st) else sq_first st),
                sq_last := om_insert (d_fact x) (d_added x) (sq_last st)\<rparr>)"

definition squash_pick :: "(fact_of, bool) omap \<Rightarrow> fact_of \<times> bool \<Rightarrow> novelty \<Rightarrow> novelty" where
  "squash_pick first = (\<lambda>(f, added) n.
     if om_get first f \<noteq> Some added then n
     else if added then n\<lparr>nv_asserts := os_insert f (nv_asserts n)\<rparr>
     else n\<lparr>nv_retracts := os_insert f (nv_retracts n)\<rparr>)"

definition squash :: "datom list \<Rightarrow> novelty" where
  "squash ds =
    (let st = fold squash_step ds \<lparr>sq_first = om_empty, sq_last = om_empty, sq_transactions = om_empty\<rparr>
     in fold (squash_pick (sq_first st)) (om_entries (sq_last st))
          (novelty_default\<lparr>nv_steps := om_size (sq_transactions st)\<rparr>))"

subsection \<open>Conflicts\<close>

datatype scope = ScopePair | ScopeFact val

fun scope_key :: "scope \<Rightarrow> val option" where
  "scope_key ScopePair = None"
| "scope_key (ScopeFact v) = Some v"

instantiation scope :: linorder
begin

definition less_scope :: "scope \<Rightarrow> scope \<Rightarrow> bool" where
  "less_scope a b \<longleftrightarrow> scope_key a < scope_key b"

definition less_eq_scope :: "scope \<Rightarrow> scope \<Rightarrow> bool" where
  "less_eq_scope a b \<longleftrightarrow> scope_key a \<le> scope_key b"

instance
proof
  fix x y z :: scope
  show "x < y \<longleftrightarrow> x \<le> y \<and> \<not> y \<le> x"
    unfolding less_scope_def less_eq_scope_def by (rule less_le_not_le)
  show "x \<le> x" by (simp add: less_eq_scope_def)
  show "x \<le> y \<Longrightarrow> y \<le> z \<Longrightarrow> x \<le> z"
    unfolding less_eq_scope_def by (rule order_trans)
  show "x \<le> y \<or> y \<le> x"
    unfolding less_eq_scope_def by (rule linear)
  show "x \<le> y \<Longrightarrow> y \<le> x \<Longrightarrow> x = y"
    unfolding less_eq_scope_def by (cases x; cases y) auto
qed

end

datatype conflict_kind =
    WriteWrite
  | Uniqueness entity_id
  | DanglingRef entity_id
  | RetractionMiss

definition kind_name :: "conflict_kind \<Rightarrow> string" where
  "kind_name k = (case k of WriteWrite \<Rightarrow> ''write-write'' | Uniqueness _ \<Rightarrow> ''uniqueness''
     | DanglingRef _ \<Rightarrow> ''dangling-ref'' | RetractionMiss \<Rightarrow> ''retraction-miss'')"

type_synonym merge_unit = "entity_id \<times> attr_id \<times> scope"

record conflict =
  cf_kind :: conflict_kind
  cf_entity :: entity_id
  cf_attribute :: attr_id
  cf_scope :: scope
  cf_branch :: "val option"
  cf_parent :: "val option"
  cf_overridable :: bool

definition conflict_unit :: "conflict \<Rightarrow> merge_unit" where
  "conflict_unit c = (cf_entity c, cf_attribute c, cf_scope c)"

datatype take_side = TakeParent | TakeBranch

record resolution =
  rs_entity :: entity_id
  rs_attribute :: attr_id
  rs_scope :: scope
  rs_parent :: "val option"
  rs_take :: take_side

definition answers :: "resolution \<Rightarrow> conflict \<Rightarrow> bool" where
  "answers r c = (rs_entity r = cf_entity c \<and> rs_attribute r = cf_attribute c
     \<and> rs_scope r = cf_scope c \<and> rs_parent r = cf_parent c)"

datatype resolution_error = Unmatched resolution | NotOverridable resolution

record resolved_merge =
  rv_outstanding :: "conflict list"
  rv_accepted :: "merge_unit oset"
  rv_overridden :: "merge_unit oset"
  rv_rejected :: "resolution_error list"

record merge_input =
  mi_parent :: db
  mi_branch :: novelty
  mi_drift :: novelty

subsection \<open>The scan\<close>

definition is_many :: "db \<Rightarrow> attr_id \<Rightarrow> bool" where
  "is_many d a = (case schema_get (db_schema d) a of
     None \<Rightarrow> False | Some attr \<Rightarrow> at_cardinality attr = CardMany)"

definition entity_exists :: "db \<Rightarrow> entity_id \<Rightarrow> bool" where
  "entity_exists d e = (datoms_prefix d Eavt (key_prefix Eavt (Some e) None None) \<noteq> [])"

definition first_value :: "db \<Rightarrow> entity_id \<Rightarrow> attr_id \<Rightarrow> val option" where
  "first_value d e a = (case db_values d e a of [] \<Rightarrow> None | v # _ \<Rightarrow> Some v)"

definition pairs_step ::
    "db \<Rightarrow> fact_of \<times> bool \<Rightarrow> (entity_id \<times> attr_id, val option) omap \<Rightarrow> (entity_id \<times> attr_id, val option) omap" where
  "pairs_step parent = (\<lambda>((e, a, v), added) pairs.
     if is_many parent a then pairs
     else if added then om_insert (e, a) (Some v) pairs
     else if om_get pairs (e, a) = None then om_insert (e, a) None pairs
     else pairs)"

definition branch_pairs :: "merge_input \<Rightarrow> (entity_id \<times> attr_id, val option) omap" where
  "branch_pairs mi = fold (pairs_step (mi_parent mi)) (novelty_facts (mi_branch mi)) om_empty"

definition drifted :: "merge_input \<Rightarrow> (entity_id \<times> attr_id) oset" where
  "drifted mi = fold (\<lambda>((e, a, _), _). os_insert (e, a)) (novelty_facts (mi_drift mi)) om_empty"

definition emptied :: "merge_input \<Rightarrow> entity_id oset" where
  "emptied mi = fold os_insert
     (filter (\<lambda>e. \<not> entity_exists (mi_parent mi) e)
       (os_elems (fold (\<lambda>(e, _, _). os_insert e) (os_elems (nv_retracts (mi_drift mi))) om_empty))) om_empty"

definition pair_conflict :: "merge_input \<Rightarrow> (entity_id \<times> attr_id) \<times> val option \<Rightarrow> conflict list" where
  "pair_conflict mi = (\<lambda>((e, a), branch).
    let parent = first_value (mi_parent mi) e a
    in if \<not> os_member (e, a) (drifted mi) \<or> parent = branch then []
       else let kind = (if branch \<noteq> None then WriteWrite else RetractionMiss)
            in [\<lparr>cf_kind = kind, cf_entity = e, cf_attribute = a, cf_scope = ScopePair, cf_branch = branch,
                 cf_parent = parent, cf_overridable = (kind = WriteWrite)\<rparr>])"

definition unit_scope :: "db \<Rightarrow> attr_id \<Rightarrow> val \<Rightarrow> scope" where
  "unit_scope d a v = (if is_many d a then ScopeFact v else ScopePair)"

definition uniqueness_conflict :: "merge_input \<Rightarrow> fact_of \<Rightarrow> conflict list" where
  "uniqueness_conflict mi = (\<lambda>(e, a, v).
    if (case schema_get (db_schema (mi_parent mi)) a of None \<Rightarrow> False | Some attr \<Rightarrow> at_unique attr \<noteq> None)
    then (case lookup (mi_parent mi) a v of
            None \<Rightarrow> []
          | Some holder \<Rightarrow>
              if holder = e then []
              else [\<lparr>cf_kind = Uniqueness holder, cf_entity = e, cf_attribute = a,
                     cf_scope = unit_scope (mi_parent mi) a v, cf_branch = Some v,
                     cf_parent = first_value (mi_parent mi) e a, cf_overridable = False\<rparr>])
    else [])"

definition dangling_target :: "merge_input \<Rightarrow> fact_of \<Rightarrow> entity_id option" where
  "dangling_target mi = (\<lambda>(e, a, v).
    case as_reference v of
      Some target \<Rightarrow>
        if os_member target (emptied mi) then Some target
        else if os_member e (emptied mi) then Some e else None
    | None \<Rightarrow> if os_member e (emptied mi) then Some e else None)"

definition dangling_conflict :: "merge_input \<Rightarrow> fact_of \<Rightarrow> conflict list" where
  "dangling_conflict mi = (\<lambda>(e, a, v). case dangling_target mi (e, a, v) of
     None \<Rightarrow> []
   | Some target \<Rightarrow>
       [\<lparr>cf_kind = DanglingRef target, cf_entity = e, cf_attribute = a,
         cf_scope = unit_scope (mi_parent mi) a v, cf_branch = Some v, cf_parent = None, cf_overridable = False\<rparr>])"

definition merge_scan :: "merge_input \<Rightarrow> conflict list" where
  "merge_scan mi =
    sort_key (\<lambda>c. (cf_entity c, cf_attribute c, cf_scope c, kind_name (cf_kind c)))
      (concat (map (pair_conflict mi) (om_entries (branch_pairs mi)))
       @ concat (map (\<lambda>f. uniqueness_conflict mi f @ dangling_conflict mi f) (os_elems (nv_asserts (mi_branch mi)))))"

subsection \<open>Resolutions\<close>

fun position :: "('a \<Rightarrow> bool) \<Rightarrow> 'a list \<Rightarrow> nat option" where
  "position P [] = None"
| "position P (x # xs) = (if P x then Some 0 else map_option Suc (position P xs))"

definition resolve_step ::
    "resolution list \<Rightarrow> conflict \<Rightarrow> resolved_merge \<times> bool list \<Rightarrow> resolved_merge \<times> bool list" where
  "resolve_step resolutions c = (\<lambda>(rv, used).
    case position (\<lambda>r. answers r c) resolutions of
      None \<Rightarrow> (rv\<lparr>rv_outstanding := rv_outstanding rv @ [c]\<rparr>, used)
    | Some index \<Rightarrow>
        let used = used[index := True]; r = resolutions ! index
        in (case rs_take r of
              TakeParent \<Rightarrow> (rv\<lparr>rv_accepted := os_insert (conflict_unit c) (rv_accepted rv)\<rparr>, used)
            | TakeBranch \<Rightarrow>
                if cf_overridable c
                then (rv\<lparr>rv_overridden := os_insert (conflict_unit c) (rv_overridden rv)\<rparr>, used)
                else (rv\<lparr>rv_rejected := rv_rejected rv @ [NotOverridable r],
                         rv_outstanding := rv_outstanding rv @ [c]\<rparr>, used)))"

definition resolve :: "conflict list \<Rightarrow> resolution list \<Rightarrow> resolved_merge" where
  "resolve conflicts resolutions =
    (let (rv, used) = fold (resolve_step resolutions) conflicts
           (\<lparr>rv_outstanding = [], rv_accepted = om_empty, rv_overridden = om_empty, rv_rejected = []\<rparr>,
            replicate (length resolutions) False)
     in rv\<lparr>rv_overridden := om_filter (\<lambda>(unit, _). \<not> os_member unit (rv_accepted rv)) (rv_overridden rv),
           rv_rejected := rv_rejected rv @
             map (\<lambda>(r, _). Unmatched r) (filter (\<lambda>(_, u). \<not> u) (zip resolutions used))\<rparr>)"

definition fact_unit :: "db \<Rightarrow> fact_of \<Rightarrow> merge_unit" where
  "fact_unit d = (\<lambda>(e, a, v). (e, a, unit_scope d a v))"

definition apply_resolved :: "novelty \<Rightarrow> resolved_merge \<Rightarrow> db \<Rightarrow> novelty" where
  "apply_resolved n rv parent = \<lparr>
     nv_asserts = om_filter (\<lambda>(f, _). \<not> os_member (fact_unit parent f) (rv_accepted rv)) (nv_asserts n),
     nv_retracts = om_filter (\<lambda>(f, _). \<not> os_member (fact_unit parent f) (rv_accepted rv)
       \<and> \<not> os_member (fact_unit parent f) (rv_overridden rv)) (nv_retracts n),
     nv_steps = nv_steps n\<rparr>"

subsection \<open>Translating keyword values\<close>

datatype unnamed_keyword = UnnamedKeyword kw_id

definition translate_fact ::
    "(kw_id \<Rightarrow> keyword option) \<Rightarrow> fact_of \<Rightarrow> keyword_interner \<Rightarrow> unnamed_keyword + fact_of \<times> keyword_interner" where
  "translate_fact branch = (\<lambda>(e, a, v) parent. case v of
     Keyword kid \<Rightarrow>
       bindr (ok_or (UnnamedKeyword kid) (branch kid)) (\<lambda>k.
         case intern k parent of (kid', parent) \<Rightarrow> Inr ((e, a, Keyword kid'), parent))
   | _ \<Rightarrow> Inr ((e, a, v), parent))"

fun translate_facts ::
    "(kw_id \<Rightarrow> keyword option) \<Rightarrow> fact_of list \<Rightarrow> fact_of oset \<Rightarrow> keyword_interner
      \<Rightarrow> unnamed_keyword + fact_of oset \<times> keyword_interner" where
  "translate_facts branch [] acc parent = Inr (acc, parent)"
| "translate_facts branch (f # fs) acc parent =
    bindr (translate_fact branch f parent) (\<lambda>(f', parent). translate_facts branch fs (os_insert f' acc) parent)"

definition translate ::
    "novelty \<Rightarrow> keyword_interner \<Rightarrow> local_keywords \<Rightarrow> keyword_interner \<Rightarrow> unnamed_keyword + novelty \<times> keyword_interner" where
  "translate n branch overlay parent =
    bindr (translate_facts (kw_resolve branch overlay) (os_elems (nv_asserts n)) om_empty parent) (\<lambda>(asserts, parent).
    bindr (translate_facts (kw_resolve branch overlay) (os_elems (nv_retracts n)) om_empty parent) (\<lambda>(retracts, parent).
      Inr (\<lparr>nv_asserts = asserts, nv_retracts = retracts, nv_steps = nv_steps n\<rparr>, parent)))"

subsection \<open>Squashing\<close>

text \<open>A recorded run: an assertion only of an absent fact, a retraction only of a present one.\<close>

fun effective :: "datom list \<Rightarrow> fact_of set \<Rightarrow> bool" where
  "effective [] F = True"
| "effective (x # ds) F = ((d_fact x \<in> F \<longleftrightarrow> \<not> d_added x) \<and> effective ds (fact_step x F))"

lemma effective_append: "effective (ds @ es) F \<longleftrightarrow> effective ds F \<and> effective es (apply_facts ds F)"
  by (induction ds arbitrary: F) auto

abbreviation squash_start :: squash_state where
  "squash_start \<equiv> \<lparr>sq_first = om_empty, sq_last = om_empty, sq_transactions = om_empty\<rparr>"

definition tx_fact :: "fact_of \<Rightarrow> bool" where
  "tx_fact f \<longleftrightarrow> eid_partition (fst f) = part_id PartTx"

lemma d_fact_fst [simp]: "fst (d_fact x) = d_e x"
  by (simp add: d_fact_def)

lemma squash_fold:
  assumes "effective ds F"
  shows "om_get (sq_first (fold squash_step ds squash_start)) f =
      (if tx_fact f \<or> f \<notin> d_fact ` set ds then None else Some (f \<notin> F)) \<and>
    om_get (sq_last (fold squash_step ds squash_start)) f =
      (if tx_fact f \<or> f \<notin> d_fact ` set ds then None else Some (f \<in> apply_facts ds F))"
  using assms
proof (induction ds rule: rev_induct)
  case (snoc x ds)
  have eff: "effective ds F" and x: "d_fact x \<in> apply_facts ds F \<longleftrightarrow> \<not> d_added x"
    using snoc.prems by (simp_all add: effective_append)
  have stay: "d_fact x \<in> apply_facts ds F \<longleftrightarrow> d_fact x \<in> F" if "d_fact x \<notin> d_fact ` set ds"
    using that by (intro apply_facts_other) (metis image_eqI)
  show ?case using snoc.IH [OF eff] x stay
    by (cases "f = d_fact x") (auto simp: squash_step_def Let_def tx_fact_def fact_step_def split: if_splits)
qed simp

lemma squash_transactions:
  "os_set (sq_transactions (fold squash_step ds squash_start)) = (\<lambda>x. eid_sequence (d_tx x)) ` set ds"
  by (induction ds rule: rev_induct) (simp_all add: squash_step_def Let_def)

lemma squash_pick_fold:
  "os_set (nv_asserts (fold (squash_pick first) es n0)) =
     os_set (nv_asserts n0) \<union> {f. (f, True) \<in> set es \<and> om_get first f = Some True} \<and>
   os_set (nv_retracts (fold (squash_pick first) es n0)) =
     os_set (nv_retracts n0) \<union> {f. (f, False) \<in> set es \<and> om_get first f = Some False} \<and>
   nv_steps (fold (squash_pick first) es n0) = nv_steps n0"
proof (induction es arbitrary: n0)
  case (Cons p es)
  obtain f added where p: "p = (f, added)" by fastforce
  show ?case
    using Cons [of "squash_pick first p n0"]
    by (cases added; cases "om_get first f = Some added") (auto simp: p squash_pick_def)
qed simp

lemma os_size_set: "om_size s = card (os_set s)"
proof -
  have "set (os_elems s) = os_set s" by (auto simp: os_set_def)
  then show ?thesis by (simp add: os_size_card)
qed

lemma squash_net:
  assumes "effective ds F"
  shows "os_set (nv_asserts (squash ds)) = {f \<in> apply_facts ds F - F. \<not> tx_fact f}"
    and "os_set (nv_retracts (squash ds)) = {f \<in> F - apply_facts ds F. \<not> tx_fact f}"
    and "nv_steps (squash ds) = card ((\<lambda>x. eid_sequence (d_tx x)) ` set ds)"
proof -
  let ?st = "fold squash_step ds squash_start"
  have stay: "f \<in> apply_facts ds F \<longleftrightarrow> f \<in> F" if "f \<notin> d_fact ` set ds" for f
    using that by (intro apply_facts_other) auto
  have first: "om_get (sq_first ?st) f = (if tx_fact f \<or> f \<notin> d_fact ` set ds then None else Some (f \<notin> F))"
    and last: "om_get (sq_last ?st) f = (if tx_fact f \<or> f \<notin> d_fact ` set ds then None else Some (f \<in> apply_facts ds F))" for f
    using squash_fold [OF assms, of f] by blast+
  have "os_set (nv_asserts (squash ds)) = {f. om_get (sq_last ?st) f = Some True \<and> om_get (sq_first ?st) f = Some True}"
    by (simp add: squash_def Let_def squash_pick_fold novelty_default_def om_entries_iff)
  also have "\<dots> = {f \<in> apply_facts ds F - F. \<not> tx_fact f}"
    unfolding first last using stay by (auto split: if_splits)
  finally show "os_set (nv_asserts (squash ds)) = {f \<in> apply_facts ds F - F. \<not> tx_fact f}" .
  have "os_set (nv_retracts (squash ds)) = {f. om_get (sq_last ?st) f = Some False \<and> om_get (sq_first ?st) f = Some False}"
    by (simp add: squash_def Let_def squash_pick_fold novelty_default_def om_entries_iff)
  also have "\<dots> = {f \<in> F - apply_facts ds F. \<not> tx_fact f}"
    unfolding first last using stay by (auto split: if_splits)
  finally show "os_set (nv_retracts (squash ds)) = {f \<in> F - apply_facts ds F. \<not> tx_fact f}" .
  show "nv_steps (squash ds) = card ((\<lambda>x. eid_sequence (d_tx x)) ` set ds)"
    using squash_transactions [of ds] by (simp add: squash_def Let_def squash_pick_fold novelty_default_def os_size_set)
qed

subsection \<open>Prepared transactions are recorded runs\<close>

lemma effective_retracts: "distinct fs \<Longrightarrow> set fs \<subseteq> F \<Longrightarrow> effective (map (fact_datom tx False) fs) F"
proof (induction fs arbitrary: F)
  case (Cons f fs)
  have "set fs \<subseteq> F - {f}" using Cons.prems by auto
  then show ?case using Cons by (simp add: fact_step_def)
qed simp

lemma distinct_db_values: "db_wf d \<Longrightarrow> db_view d \<noteq> History \<Longrightarrow> distinct (db_values d e a)"
  using db_values_spec(2) [of d e a] by (simp add: strict_sorted_iff)

lemma os_elems_distinct: "distinct (os_elems s)"
  using os_elems_sorted [of s] by (simp add: strict_sorted_iff)

lemma op_datoms_effective:
  assumes wf: "db_wf w" and view: "db_view w = Current" and card: "card_one_ok (db_schema w) (db_facts w)"
    and ok: "op_datoms d tempids tx w i op = Inr (new, i')"
  shows "effective new (db_facts w)"
proof -
  have hist: "db_view w \<noteq> History" using view by simp
  have vals: "set (db_values w e a) = {v. (e, a, v) \<in> db_facts w}" for e a by (rule db_values_facts [OF wf hist])
  have add: "effective new (db_facts w)" if "add_op w tx i e a v = Inr (new, i')" for e a v
  proof -
    have olds: "effective (map (\<lambda>old. fact_datom tx False (e, a, old)) (db_values w e a)) (db_facts w)"
      using effective_retracts [of "map (\<lambda>old. (e, a, old)) (db_values w e a)" "db_facts w" tx]
        distinct_db_values [OF wf hist, of e a] vals by (auto simp: comp_def distinct_map inj_on_def)
    have "new = [] \<or> (v \<notin> set (db_values w e a) \<and> (new = [fact_datom tx True (e, a, v)] \<or>
        new = map (\<lambda>old. fact_datom tx False (e, a, old)) (db_values w e a) @ [fact_datom tx True (e, a, v)]))"
      using that by (auto simp: add_op_def Let_def bindr_eq_Inr validate_value_Inr split: if_splits option.splits)
    moreover have "(e, a, v) \<notin> apply_facts (map (\<lambda>old. fact_datom tx False (e, a, old)) (db_values w e a)) (db_facts w)"
      if "v \<notin> set (db_values w e a)"
      using that vals apply_facts_retracts [of tx "map (\<lambda>old. (e, a, old)) (db_values w e a)" "db_facts w"] by (auto simp: comp_def)
    ultimately show ?thesis using olds vals by (auto simp: effective_append)
  qed
  show ?thesis
  proof (cases op)
    case (Add r a v)
    then obtain e where "add_op w tx i e a v = Inr (new, i')" using ok by (auto simp: op_datoms_def bindr_eq_Inr)
    then show ?thesis by (rule add)
  next
    case (AddRef r a r')
    then obtain e t where "add_op w tx i e a (Ref t) = Inr (new, i')" using ok by (auto simp: op_datoms_def bindr_eq_Inr)
    then show ?thesis by (rule add)
  next
    case (Retract r a v)
    then show ?thesis using ok vals by (auto simp: op_datoms_def bindr_eq_Inr retract_op_def split: if_splits)
  next
    case (Cas r a old v)
    then obtain e where c: "cas_op w tx e a old v = Inr new" "a \<noteq> TX_INSTANT"
      using ok by (auto simp: op_datoms_def bindr_eq_Inr split: if_splits)
    have new: "new = (case old of None \<Rightarrow> [] | Some v \<Rightarrow> [fact_datom tx False (e, a, v)]) @ [fact_datom tx True (e, a, v)]"
      using c(1) by (auto simp: cas_op_def Let_def bindr_eq_Inr split: if_splits)
    show ?thesis
      using cas_op_spec(3,4) [OF wf view c] card unfolding new card_one_ok_def
      by (cases old) (auto simp: fact_step_def)
  next
    case (RetractEntity r)
    then obtain e where r: "retract_entity_op w tx e = Inr new" using ok by (auto simp: op_datoms_def bindr_eq_Inr)
    obtain facts seen where c: "collect_entity_retractions (Suc (length (datoms w))) w e (om_empty, om_empty) = Some (facts, seen)"
      and facts: "os_set facts = facts_about w {s. component_reach w e s}" using collect_from_scratch by blast
    have new: "new = map (fact_datom tx False) (os_elems facts)"
      using r by (auto simp: retract_entity_op_def c Let_def split: if_splits option.splits)
    have "set (os_elems facts) = os_set facts" by (auto simp: os_set_def)
    moreover have "d_fact x \<in> db_facts w" if "x \<in> set (datoms w)" for x
      using that scan_set [OF wf hist, of x] by (auto simp: datoms_def datoms_at_scan db_facts_def)
    ultimately have "set (os_elems facts) \<subseteq> db_facts w" unfolding facts facts_about_def by auto
    then show ?thesis unfolding new by (rule effective_retracts [OF os_elems_distinct])
  qed
qed

lemma run_ops_effective:
  assumes "run_inv d tx (length ops + n) (ds, w, i)" and "run_ops d tempids tx ops (ds, w, i) = Inr (ds', w', i')"
    and "card_one_ok (db_schema d) (db_facts w)" and "effective ds (db_facts d)"
  shows "effective ds' (db_facts d)"
  using assms
proof (induction ops arbitrary: ds w i)
  case (Cons op ops)
  obtain ds1 w1 i1 where step: "op_step d tempids tx op (ds, w, i) = Inr (ds1, w1, i1)"
    and rest: "run_ops d tempids tx ops (ds1, w1, i1) = Inr (ds', w', i')"
    using Cons.prems(2) by (auto simp: bindr_eq_Inr)
  have inv: "run_inv d tx (Suc (length ops + n)) (ds, w, i)" using Cons.prems(1) by simp
  obtain new where new: "op_datoms d tempids tx w i op = Inr (new, i1)" "ds1 = ds @ new" "db_facts w1 = apply_facts new (db_facts w)"
    using op_step_facts [OF inv step] by blast
  have w: "db_wf w" "db_view w = Current" "db_schema w = db_schema d" "db_facts w = apply_facts ds (db_facts d)"
    using inv by (simp_all add: run_inv_def)
  have card1: "card_one_ok (db_schema d) (db_facts w1)"
    using op_datoms_constraints(1) [OF w(1,2) new(1)] Cons.prems(3) unfolding w(3) new(3) by blast
  have "effective new (apply_facts ds (db_facts d))"
    using op_datoms_effective [OF w(1,2) _ new(1)] Cons.prems(3) unfolding w(3,4) by blast
  then have "effective ds1 (db_facts d)" unfolding new(2) effective_append using Cons.prems(4) by blast
  then show ?case using Cons.IH [OF run_inv_step [OF inv step] rest card1] by blast
qed simp

subsection \<open>A scan that finds nothing\<close>

text \<open>
  The facts of a database after a novelty, as a specification: what is left of them when the retractions are gone, and the
  assertions. A transaction that states the facts of the novelty, its retractions first, leaves these. The transactor's own
  merge (\<open>crates/corium-transactor/src/merge.rs\<close>), which turns a novelty into transaction items and has them prepared
  like any others, is not modelled.
\<close>

definition merged :: "novelty \<Rightarrow> fact_of set \<Rightarrow> fact_of set" where
  "merged n F = (F - os_set (nv_retracts n)) \<union> os_set (nv_asserts n)"

lemma merged_applied:
  "apply_facts (map (\<lambda>(f, added). fact_datom tx added f) (novelty_facts n)) F = merged n F"
proof -
  have gone: "apply_facts (map (fact_datom tx False) fs) F = F - set fs" for fs F
    by (induction fs arbitrary: F) (auto simp: fact_step_def fact_datom_def d_fact_def)
  have there: "apply_facts (map (fact_datom tx True) fs) F = F \<union> set fs" for fs F
    by (induction fs arbitrary: F) (auto simp: fact_step_def fact_datom_def d_fact_def)
  show ?thesis by (auto simp: novelty_facts_def merged_def gone there comp_def os_set_def os_elems_iff)
qed

lemma novelty_facts_set:
  "(f, b) \<in> set (novelty_facts n) \<longleftrightarrow> (if b then f \<in> os_set (nv_asserts n) else f \<in> os_set (nv_retracts n))"
  by (auto simp: novelty_facts_def os_set_def)

text \<open>What the scan takes the branch to mean a cardinality-one pair to hold.\<close>

lemma pairs_fold_asserted:
  assumes "\<not> is_many d a" and "((e, a, v), True) \<in> set fs"
  shows "\<exists>v'. ((e, a, v'), True) \<in> set fs \<and> om_get (fold (pairs_step d) fs om_empty) (e, a) = Some (Some v')"
  using assms
proof (induction fs rule: rev_induct)
  case (snoc p fs)
  obtain e' a' v' b where p: "p = ((e', a', v'), b)" by (metis prod.collapse)
  show ?case
  proof (cases "(e', a') = (e, a) \<and> b")
    case True
    then show ?thesis using assms(1) by (auto simp: p pairs_step_def)
  next
    case False
    then have "((e, a, v), True) \<in> set fs" using snoc.prems by (auto simp: p)
    then obtain u where u: "((e, a, u), True) \<in> set fs" "om_get (fold (pairs_step d) fs om_empty) (e, a) = Some (Some u)"
      using snoc.IH snoc.prems(1) by blast
    then show ?thesis using False by (auto simp: p pairs_step_def)
  qed
qed simp

lemma merge_scan_Nil:
  assumes "merge_scan mi = []"
  shows "om_get (branch_pairs mi) (e, a) = Some b \<Longrightarrow> os_member (e, a) (drifted mi) \<Longrightarrow> first_value (mi_parent mi) e a = b"
    and "(e, a, v) \<in> os_set (nv_asserts (mi_branch mi)) \<Longrightarrow> uniqueness_conflict mi (e, a, v) = []"
    and "(e, a, v) \<in> os_set (nv_asserts (mi_branch mi)) \<Longrightarrow> dangling_target mi (e, a, v) = None"
proof -
  have nil: "\<forall>x \<in> set (om_entries (branch_pairs mi)). pair_conflict mi x = []"
    "\<forall>x \<in> set (os_elems (nv_asserts (mi_branch mi))). uniqueness_conflict mi x = [] \<and> dangling_conflict mi x = []"
    using arg_cong [OF assms, of length] by (auto simp: merge_scan_def)
  show "first_value (mi_parent mi) e a = b" if "om_get (branch_pairs mi) (e, a) = Some b" "os_member (e, a) (drifted mi)"
  proof -
    have "pair_conflict mi ((e, a), b) = []" using nil(1) that(1) by (auto simp: om_entries_iff)
    then show ?thesis using that(2) by (simp add: pair_conflict_def Let_def split: if_splits)
  qed
  assume "(e, a, v) \<in> os_set (nv_asserts (mi_branch mi))"
  then have "(e, a, v) \<in> set (os_elems (nv_asserts (mi_branch mi)))" by (simp add: os_set_def)
  then have "uniqueness_conflict mi (e, a, v) = []" "dangling_conflict mi (e, a, v) = []" using nil(2) by blast+
  then show "uniqueness_conflict mi (e, a, v) = []" "dangling_target mi (e, a, v) = None"
    by (auto simp: dangling_conflict_def split: option.splits)
qed

lemma os_member_fold_image: "os_member k (fold (\<lambda>x. os_insert (f x)) xs om_empty) \<longleftrightarrow> k \<in> f ` set xs"
  using os_elems_fold [of f xs] by (metis os_elems_iff)

lemma drifted_iff:
  "os_member (e, a) (drifted mi) \<longleftrightarrow>
    (\<exists>v. (e, a, v) \<in> os_set (nv_asserts (mi_drift mi)) \<or> (e, a, v) \<in> os_set (nv_retracts (mi_drift mi)))"
proof -
  have "drifted mi = fold (\<lambda>p. os_insert (fst (fst p), fst (snd (fst p)))) (novelty_facts (mi_drift mi)) om_empty"
    unfolding drifted_def by (rule fold_cong) (auto split: prod.split)
  then have "os_member (e, a) (drifted mi) \<longleftrightarrow> (\<exists>v b. ((e, a, v), b) \<in> set (novelty_facts (mi_drift mi)))"
    by (force simp: os_member_fold_image)
  then show ?thesis unfolding novelty_facts_set by (metis (full_types))
qed

lemma first_value_facts:
  assumes "db_wf d" and "db_view d = Current" and "first_value d e a = Some v"
  shows "(e, a, v) \<in> db_facts d"
  using assms db_values_facts [of d e a] by (force simp: first_value_def split: list.splits)

text \<open>Both sides start from the same facts.\<close>

definition merge_setting :: "merge_input \<Rightarrow> fact_of set \<Rightarrow> datom list \<Rightarrow> datom list \<Rightarrow> bool" where
  "merge_setting mi base branch_run drift_run \<longleftrightarrow>
     effective branch_run base \<and> effective drift_run base \<and>
     mi_branch mi = squash branch_run \<and> mi_drift mi = squash drift_run \<and>
     db_wf (mi_parent mi) \<and> db_view (mi_parent mi) = Current \<and>
     db_facts (mi_parent mi) = apply_facts drift_run base"

lemma merge_settingD:
  assumes "merge_setting mi base branch_run drift_run"
  shows "effective branch_run base" "effective drift_run base" "mi_branch mi = squash branch_run"
    "mi_drift mi = squash drift_run" "db_wf (mi_parent mi)" "db_view (mi_parent mi) = Current"
    "db_facts (mi_parent mi) = apply_facts drift_run base"
  using assms by (simp_all add: merge_setting_def)

lemma asserts_iff:
  "merge_setting mi base branch_run drift_run \<Longrightarrow> f \<in> os_set (nv_asserts (mi_branch mi)) \<longleftrightarrow> f \<in> apply_facts branch_run base \<and> f \<notin> base \<and> \<not> tx_fact f"
  using squash_net(1) [of branch_run base] by (simp add: merge_setting_def)

lemma retracts_iff:
  "merge_setting mi base branch_run drift_run \<Longrightarrow> f \<in> os_set (nv_retracts (mi_branch mi)) \<longleftrightarrow> f \<in> base \<and> f \<notin> apply_facts branch_run base \<and> \<not> tx_fact f"
  using squash_net(2) [of branch_run base] by (simp add: merge_setting_def)

lemma three_way:
  "merge_setting mi base branch_run drift_run \<Longrightarrow> \<not> tx_fact f \<Longrightarrow> f \<in> merged (mi_branch mi) (db_facts (mi_parent mi)) \<longleftrightarrow>
    (if f \<in> apply_facts branch_run base \<longleftrightarrow> f \<in> base then f \<in> db_facts (mi_parent mi) else f \<in> apply_facts branch_run base)"
  by (auto simp: merged_def asserts_iff retracts_iff)

lemma not_drifted:
  assumes set: "merge_setting mi base branch_run drift_run" and "\<not> os_member (e, a) (drifted mi)" and "\<not> tx_fact (e, a, v)"
  shows "(e, a, v) \<in> db_facts (mi_parent mi) \<longleftrightarrow> (e, a, v) \<in> base"
  using assms(2,3) squash_net(1,2) [OF merge_settingD(2) [OF set]] merge_settingD(4,7) [OF set] unfolding drifted_iff by auto

lemma pair_of_assert:
  assumes "(e, a, v) \<in> os_set (nv_asserts (mi_branch mi))" and "\<not> is_many (mi_parent mi) a"
  shows "\<exists>v'. (e, a, v') \<in> os_set (nv_asserts (mi_branch mi)) \<and> om_get (branch_pairs mi) (e, a) = Some (Some v')"
  using pairs_fold_asserted [OF assms(2), of e v "novelty_facts (mi_branch mi)"] assms(1)
  unfolding branch_pairs_def novelty_facts_set by simp

lemma merged_card_one:
  assumes set: "merge_setting mi base branch_run drift_run" and "merge_scan mi = []" and "card_one_ok s (apply_facts branch_run base)"
    and "card_one_ok s (db_facts (mi_parent mi))" and s: "s = db_schema (mi_parent mi)"
  shows "card_one_ok s (merged (mi_branch mi) (db_facts (mi_parent mi)))"
  unfolding card_one_ok_def
proof (intro allI impI)
  let ?M = "merged (mi_branch mi) (db_facts (mi_parent mi))" and ?P = "db_facts (mi_parent mi)"
  fix e a v v' attr
  assume attr: "schema_get s a = Some attr" "at_cardinality attr = CardOne" and mem: "(e, a, v) \<in> ?M" "(e, a, v') \<in> ?M"
  have few: "\<not> is_many (mi_parent mi) a" using attr by (simp add: is_many_def s)
  have branch_one: "u = u'" if "(e, a, u) \<in> apply_facts branch_run base" "(e, a, u') \<in> apply_facts branch_run base" for u u'
    using assms(3) attr that unfolding card_one_ok_def by blast
  have parent_one: "u = u'" if "(e, a, u) \<in> ?P" "(e, a, u') \<in> ?P" for u u'
    using assms(4) attr that unfolding card_one_ok_def by blast
  show "v = v'"
  proof (cases "\<exists>u. (e, a, u) \<in> os_set (nv_asserts (mi_branch mi))")
    case False
    then show ?thesis using mem parent_one by (auto simp: merged_def)
  next
    case True
    then obtain u where u: "(e, a, u) \<in> os_set (nv_asserts (mi_branch mi))" "om_get (branch_pairs mi) (e, a) = Some (Some u)"
      using pair_of_assert [OF _ few] by blast
    have "w = u" if w: "(e, a, w) \<in> ?M" for w
    proof (cases "(e, a, w) \<in> os_set (nv_asserts (mi_branch mi))")
      case True
      then show ?thesis using branch_one u(1) by (simp add: asserts_iff [OF set])
    next
      case False
      then have wP: "(e, a, w) \<in> ?P" and kept: "(e, a, w) \<notin> os_set (nv_retracts (mi_branch mi))"
        using w by (auto simp: merged_def)
      have tx: "\<not> tx_fact (e, a, w)" using u(1) by (simp add: asserts_iff [OF set] tx_fact_def)
      show ?thesis
      proof (cases "os_member (e, a) (drifted mi)")
        case True
        then have "first_value (mi_parent mi) e a = Some u" using merge_scan_Nil(1) [OF assms(2) u(2)] by blast
        then show ?thesis using first_value_facts [OF merge_settingD(5,6) [OF set]] parent_one wP by blast
      next
        case False
        then have "(e, a, w) \<in> base" using not_drifted [OF set] tx wP by blast
        then have "(e, a, w) \<in> apply_facts branch_run base" using kept tx by (simp add: retracts_iff [OF set])
        then show ?thesis using branch_one u(1) by (simp add: asserts_iff [OF set])
      qed
    qed
    then show ?thesis using mem by blast
  qed
qed

lemma merged_unique:
  assumes set: "merge_setting mi base branch_run drift_run" and "merge_scan mi = []" and "unique_ok s (apply_facts branch_run base)"
    and "unique_ok s (db_facts (mi_parent mi))" and s: "s = db_schema (mi_parent mi)"
  shows "unique_ok s (merged (mi_branch mi) (db_facts (mi_parent mi)))"
  unfolding unique_ok_def
proof (intro allI impI)
  let ?M = "merged (mi_branch mi) (db_facts (mi_parent mi))" and ?P = "db_facts (mi_parent mi)"
  let ?A = "os_set (nv_asserts (mi_branch mi))"
  fix e e' a v attr
  assume attr: "schema_get s a = Some attr" "at_unique attr \<noteq> None" and mem: "(e, a, v) \<in> ?M" "(e', a, v) \<in> ?M"
  have view: "db_view (mi_parent mi) \<noteq> History" using merge_settingD(6) [OF set] by simp
  have both: "x = x'" if x: "(x, a, v) \<in> ?A" "(x', a, v) \<in> ?P" for x x'
  proof -
    have "uniqueness_conflict mi (x, a, v) = []" by (rule merge_scan_Nil(2) [OF assms(2) x(1)])
    then have "lookup (mi_parent mi) a v = None \<or> lookup (mi_parent mi) a v = Some x"
      using attr by (auto simp: uniqueness_conflict_def s split: option.splits if_splits)
    then have "(x, a, v) \<in> ?P"
      using lookup_None [OF merge_settingD(5) [OF set] view, of a v] lookup_spec [OF merge_settingD(5) [OF set] view, of a v x] x(2)
      unfolding holds_value_facts by blast
    then show ?thesis using assms(4) attr x(2) unfolding unique_ok_def by blast
  qed
  have branch: "x = x'" if "(x, a, v) \<in> ?A" "(x', a, v) \<in> ?A" for x x'
    using assms(3) attr that unfolding unique_ok_def asserts_iff [OF set] by blast
  have parent: "x = x'" if "(x, a, v) \<in> ?P" "(x', a, v) \<in> ?P" for x x'
    using assms(4) attr that unfolding unique_ok_def by blast
  have "(e, a, v) \<in> ?A \<or> (e, a, v) \<in> ?P" "(e', a, v) \<in> ?A \<or> (e', a, v) \<in> ?P"
    using mem by (auto simp: merged_def)
  then show "e = e'" using both branch parent by metis
qed

subsection \<open>Resolutions\<close>

lemma position_Some: "position P xs = Some i \<Longrightarrow> i < length xs \<and> P (xs ! i)"
  by (induction xs arbitrary: i) (auto split: if_splits)

text \<open>What the fold over the conflicts leaves for the conflicts it has seen.\<close>

definition settled :: "resolution list \<Rightarrow> resolved_merge \<Rightarrow> conflict \<Rightarrow> bool" where
  "settled rs rv c \<longleftrightarrow> c \<in> set (rv_outstanding rv) \<or>
     (\<exists>r \<in> set rs. answers r c \<and>
        (rs_take r = TakeParent \<and> conflict_unit c \<in> os_set (rv_accepted rv) \<or>
         rs_take r = TakeBranch \<and> cf_overridable c \<and> conflict_unit c \<in> os_set (rv_overridden rv)))"

lemma resolve_step_settles: "settled rs (fst (resolve_step rs c st)) c"
proof (cases "position (\<lambda>r. answers r c) rs")
  case None
  then show ?thesis by (simp add: resolve_step_def split_beta settled_def)
next
  case (Some i)
  then have "rs ! i \<in> set rs" "answers (rs ! i) c" using position_Some [OF Some] by simp_all
  then show ?thesis using Some
    by (cases "rs_take (rs ! i)") (auto simp: resolve_step_def split_beta Let_def settled_def)
qed

lemma resolve_step_keeps: "settled rs (fst st) c' \<Longrightarrow> settled rs (fst (resolve_step rs c st)) c'"
  by (auto simp: resolve_step_def split_beta Let_def settled_def split: option.splits take_side.splits)

lemma resolve_fold_settles:
  "(\<forall>c' \<in> seen. settled rs (fst st) c') \<Longrightarrow>
    \<forall>c' \<in> seen \<union> set cs. settled rs (fst (fold (resolve_step rs) cs st)) c'"
proof (induction cs arbitrary: seen st)
  case (Cons c cs)
  have "\<forall>c' \<in> insert c seen. settled rs (fst (resolve_step rs c st)) c'"
    using Cons.prems resolve_step_settles resolve_step_keeps by blast
  from Cons.IH [OF this] show ?case by simp
qed simp

lemma resolve_settles:
  assumes "c \<in> set cs" and "rv_outstanding (resolve cs rs) = []"
  shows "conflict_unit c \<in> os_set (rv_accepted (resolve cs rs)) \<or>
    cf_overridable c \<and> conflict_unit c \<in> os_set (rv_overridden (resolve cs rs))"
proof -
  define st where "st = fold (resolve_step rs) cs
    (\<lparr>rv_outstanding = [], rv_accepted = om_empty, rv_overridden = om_empty, rv_rejected = []\<rparr>, replicate (length rs) False)"
  have "settled rs (fst st) c" using resolve_fold_settles [of "{}" rs _ cs] assms(1) unfolding st_def by blast
  moreover have "rv_outstanding (fst st) = []"
    using assms(2) by (simp add: resolve_def st_def [symmetric] split_beta Let_def)
  ultimately show ?thesis
    by (auto simp: settled_def resolve_def st_def [symmetric] split_beta Let_def os_set_def os_member_def om_get_filter
        split: option.splits)
qed

lemma accepted_overridden_disjoint: "os_set (rv_accepted (resolve cs rs)) \<inter> os_set (rv_overridden (resolve cs rs)) = {}"
  by (auto simp: resolve_def split_beta Let_def os_set_def os_member_def om_get_filter split: option.splits if_splits)

lemma apply_resolved_facts:
  "f \<in> os_set (nv_asserts (apply_resolved n rv d)) \<longleftrightarrow>
     f \<in> os_set (nv_asserts n) \<and> fact_unit d f \<notin> os_set (rv_accepted rv)"
  "f \<in> os_set (nv_retracts (apply_resolved n rv d)) \<longleftrightarrow>
     f \<in> os_set (nv_retracts n) \<and> fact_unit d f \<notin> os_set (rv_accepted rv) \<and> fact_unit d f \<notin> os_set (rv_overridden rv)"
  by (auto simp: apply_resolved_def os_set_def os_member_def om_get_filter split: option.splits if_splits)

subsection \<open>Translation\<close>

text \<open>The same fact under two namings.\<close>

definition same_named :: "(kw_id \<Rightarrow> keyword option) \<Rightarrow> (kw_id \<Rightarrow> keyword option) \<Rightarrow> fact_of \<Rightarrow> fact_of \<Rightarrow> bool" where
  "same_named n n' f f' \<longleftrightarrow> (case (f, f') of ((e, a, v), (e', a', v')) \<Rightarrow> e' = e \<and> a' = a \<and>
     (case v of Keyword kid \<Rightarrow> (\<exists>kid' k. v' = Keyword kid' \<and> n kid = Some k \<and> n' kid' = Some k) | _ \<Rightarrow> v' = v))"

definition room :: "keyword_interner \<Rightarrow> nat \<Rightarrow> bool" where
  "room i n \<longleftrightarrow> unat (next_kw i) + n < 2 ^ 64 - 1"

lemma room_next: "room i (Suc n) \<Longrightarrow> next_kw i + 1 \<noteq> 0 \<and> room (snd (intern k i)) n"
proof -
  assume r: "room i (Suc n)"
  then have "unat (next_kw i + 1) = Suc (unat (next_kw i))" by (simp add: room_def unat_word_ariths)
  moreover from this have "next_kw i + 1 \<noteq> 0" by (metis nat.distinct(1) unat_0)
  ultimately show ?thesis using r by (auto simp: room_def intern_def Let_def split: option.split)
qed

definition extends :: "keyword_interner \<Rightarrow> keyword_interner \<Rightarrow> bool" where
  "extends i i' \<longleftrightarrow> (\<forall>kid k. om_get (k_by_id i) kid = Some k \<longrightarrow> om_get (k_by_id i') kid = Some k)"

lemma same_named_extends:
  "same_named n (om_get (k_by_id i)) f f' \<Longrightarrow> extends i i' \<Longrightarrow> same_named n (om_get (k_by_id i')) f f'"
  by (cases f; cases f'; cases "fst (snd f')"; cases "snd (snd f)") (auto simp: same_named_def extends_def)

lemma translate_fact_ok:
  assumes "interner_wf i" and "room i (Suc m)" and "translate_fact n f i = Inr (f', i')"
  shows "interner_wf i' \<and> room i' m \<and> extends i i' \<and> same_named n (om_get (k_by_id i')) f f'"
proof -
  obtain e a v where f: "f = (e, a, v)" by (cases f)
  have same: "room i m" using assms(2) by (simp add: room_def)
  show ?thesis
  proof (cases "\<exists>kid. v = Keyword kid")
    case True
    then obtain kid where v: "v = Keyword kid" ..
    obtain k where k: "n kid = Some k" "f' = (e, a, Keyword (fst (intern k i)))" "i' = snd (intern k i)"
      using assms(3) by (auto simp: f v translate_fact_def bindr_eq_Inr ok_or_eq_Inr split_beta)
    have "om_get (k_by_id i') (fst (intern k i)) = Some k" "extends i i'"
      using intern_resolves [OF assms(1)] k(3) by (auto simp: extends_def)
    then show ?thesis
      using room_next [OF assms(2), of k] interner_wf_intern [OF assms(1), of k] k by (simp add: f v same_named_def)
  next
    case False
    then have "f' = f \<and> i' = i" using assms(3) by (cases v) (auto simp: f translate_fact_def)
    then show ?thesis using assms(1) same False by (cases v) (auto simp: f same_named_def extends_def)
  qed
qed

lemma translate_facts_ok:
  assumes "interner_wf i" and "room i (length fs + m)" and "translate_facts n fs acc i = Inr (out, i')"
  shows "interner_wf i' \<and> room i' m \<and> extends i i' \<and>
    (\<forall>f \<in> set fs. \<exists>f' \<in> os_set out. same_named n (om_get (k_by_id i')) f f') \<and>
    os_set acc \<subseteq> os_set out \<and>
    (\<forall>f' \<in> os_set out. f' \<in> os_set acc \<or> (\<exists>f \<in> set fs. same_named n (om_get (k_by_id i')) f f'))"
  using assms
proof (induction fs arbitrary: i acc)
  case Nil
  then show ?case by (simp add: extends_def)
next
  case (Cons f fs)
  obtain f' i1 where step: "translate_fact n f i = Inr (f', i1)"
    and rest: "translate_facts n fs (os_insert f' acc) i1 = Inr (out, i')"
    using Cons.prems(3) by (auto simp: bindr_eq_Inr)
  have one: "interner_wf i1" "room i1 (length fs + m)" "extends i i1" "same_named n (om_get (k_by_id i1)) f f'"
    using translate_fact_ok [OF Cons.prems(1) _ step, of "length fs + m"] Cons.prems(2) by simp_all
  note IH = Cons.IH [OF one(1,2) rest]
  have "extends i i'" using one(3) IH by (auto simp: extends_def)
  moreover have "same_named n (om_get (k_by_id i')) f f'" using same_named_extends [OF one(4)] IH by blast
  ultimately show ?case using IH by auto
qed

subsection \<open>Properties\<close>

text \<open>
  C23. Squashing a recorded run gives its net effect: the facts the run left asserted that its
  start did not hold, those it removed that the start held, transaction entities apart, and
  the number of its transactions, without looking at the starting state.
\<close>

theorem squash_is_net_effect:
  assumes "effective ds F"
  shows "os_set (nv_asserts (squash ds)) = {f \<in> apply_facts ds F - F. \<not> tx_fact f} \<and>
    os_set (nv_retracts (squash ds)) = {f \<in> F - apply_facts ds F. \<not> tx_fact f} \<and>
    nv_steps (squash ds) = card ((\<lambda>x. eid_sequence (d_tx x)) ` set ds)"
  using squash_net [OF assms] by blast

definition wit_run :: "datom list" where
  "wit_run = [fact_datom (tx_entity 1) True (eid_new 2 1000, 100, Long 1), fact_datom (tx_entity 2) False (eid_new 2 1000, 100, Long 1)]"

theorem squash_is_net_effect_witness: "os_set (nv_asserts (squash wit_run)) = {}"
  using squash_is_net_effect [of wit_run "{}"] by (simp add: wit_run_def fact_step_def)

text \<open>
  What \<open>prepare\<close> records is a recorded run: on a database that satisfies its cardinality
  constraints, every assertion is of an absent fact and every retraction of a present one, so
  squashing a prepared transaction gives exactly what committing it changes.
\<close>

theorem prepared_is_recorded:
  assumes "db_wf d" and "db_view d = Current" and "prepare d items tx seq = Inr p"
    and "tx_fits d tx (length (concat (map expand_item items)))" and "card_one_ok (db_schema d) (db_facts d)"
  shows "effective (pt_datoms p) (db_facts d) \<and>
    os_set (nv_asserts (squash (pt_datoms p))) =
      {f \<in> db_facts (with_transaction t (pt_datoms p) d) - db_facts d. \<not> tx_fact f} \<and>
    os_set (nv_retracts (squash (pt_datoms p))) =
      {f \<in> db_facts d - db_facts (with_transaction t (pt_datoms p) d). \<not> tx_fact f}"
proof -
  obtain w i where run: "run_ops d (pt_tempids p) tx (concat (map expand_item items)) ([], d, False) = Inr (pt_datoms p, w, i)"
    using prepare_Inr(1) [OF assms(3)] by blast
  have inv: "run_inv d tx (length (concat (map expand_item items)) + 0) ([], d, False)"
    using run_inv_start [OF assms(1,2)] assms(4) by simp
  have eff: "effective (pt_datoms p) (db_facts d)" by (rule run_ops_effective [OF inv run assms(5)]) simp
  then show ?thesis using squash_net(1,2) [OF eff] by (simp add: db_facts_with_transaction [OF assms(2)])
qed

theorem prepared_is_recorded_witness: "effective [wit_added] (db_facts wit_empty)"
proof -
  have "card_one_ok (db_schema wit_empty) (db_facts wit_empty)" by (simp add: card_one_ok_def wit_empty_simps)
  from prepared_is_recorded [OF wit_empty_simps(1,2) wit_prepare wit_fits this] show ?thesis by simp
qed

text \<open>
  C9. A merge the scan finds no conflict in is a three-way merge that keeps the schema's constraints:
  a fact the branch changed since the common basis ends as the branch left it, every other as
  the parent has it; cardinality one and uniqueness hold afterwards when they hold on both
  sides; and no assertion of the branch is about, or refers to, an entity the parent emptied.
\<close>

theorem merge_without_conflicts:
  assumes "merge_setting mi base branch_run drift_run" and "merge_scan mi = []" and "s = db_schema (mi_parent mi)"
    and "card_one_ok s (apply_facts branch_run base)" and "card_one_ok s (db_facts (mi_parent mi))"
    and "unique_ok s (apply_facts branch_run base)" and "unique_ok s (db_facts (mi_parent mi))"
  shows "card_one_ok s (merged (mi_branch mi) (db_facts (mi_parent mi))) \<and>
    unique_ok s (merged (mi_branch mi) (db_facts (mi_parent mi))) \<and>
    (\<forall>f. \<not> tx_fact f \<longrightarrow> (f \<in> merged (mi_branch mi) (db_facts (mi_parent mi)) \<longleftrightarrow>
       (if f \<in> apply_facts branch_run base \<longleftrightarrow> f \<in> base then f \<in> db_facts (mi_parent mi) else f \<in> apply_facts branch_run base))) \<and>
    (\<forall>e a v. (e, a, v) \<in> os_set (nv_asserts (mi_branch mi)) \<longrightarrow>
       \<not> os_member e (emptied mi) \<and> (\<forall>t. v = Ref t \<longrightarrow> \<not> os_member t (emptied mi)))"
proof (intro conjI allI impI)
  show "card_one_ok s (merged (mi_branch mi) (db_facts (mi_parent mi)))"
    by (rule merged_card_one [OF assms(1,2,4,5,3)])
  show "unique_ok s (merged (mi_branch mi) (db_facts (mi_parent mi)))"
    by (rule merged_unique [OF assms(1,2,6,7,3)])
  show "f \<in> merged (mi_branch mi) (db_facts (mi_parent mi)) \<longleftrightarrow>
     (if f \<in> apply_facts branch_run base \<longleftrightarrow> f \<in> base then f \<in> db_facts (mi_parent mi) else f \<in> apply_facts branch_run base)"
    if "\<not> tx_fact f" for f using three_way [OF assms(1) that] .
  fix e a v
  assume "(e, a, v) \<in> os_set (nv_asserts (mi_branch mi))"
  then have none: "dangling_target mi (e, a, v) = None" by (rule merge_scan_Nil(3) [OF assms(2)])
  then show "\<not> os_member e (emptied mi)"
    by (auto simp: dangling_target_def split: option.splits if_splits)
  show "\<not> os_member t (emptied mi)" if "v = Ref t" for t
    using none that by (auto simp: dangling_target_def as_reference_def split: if_splits)
qed

definition wit_parent :: db where
  "wit_parent = with_transaction 1 [wit_added] wit_empty"

definition wit_branch_run :: "datom list" where
  "wit_branch_run = [fact_datom (tx_entity 2) True (eid_new 2 1000, 101, Long 8)]"

definition wit_merge :: merge_input where
  "wit_merge = \<lparr>mi_parent = wit_parent, mi_branch = squash wit_branch_run, mi_drift = squash []\<rparr>"

lemma wit_parent_simps:
  "db_wf wit_parent" "db_view wit_parent = Current" "db_facts wit_parent = {(5, 101, Long 7)}"
  "db_schema wit_parent = db_schema wit_empty"
proof -
  have app: "applies 1 [wit_added] wit_empty"
    by (simp add: applies_def wit_empty_simps wit_added_def tx_bounded_def eid_sequence_tx_entity_small
        schema_placed_def is_schema_attribute_def engine_ids)
  show "db_wf wit_parent" unfolding wit_parent_def
    by (rule db_wf_with_transaction_at [OF wit_empty_simps(1) app]) simp_all
  show "db_view wit_parent = Current" by (simp add: wit_parent_def wit_empty_simps)
  show "db_facts wit_parent = {(5, 101, Long 7)}"
    by (simp add: wit_parent_def db_facts_with_transaction wit_empty_simps wit_added_def fact_step_def)
  show "db_schema wit_parent = db_schema wit_empty"
    unfolding wit_parent_def by (rule db_schema_commit) (simp add: naming_only_def wit_added_def is_schema_attribute_def engine_ids)
qed

lemma wit_squash:
  "squash [] = novelty_default"
  "squash wit_branch_run = \<lparr>nv_asserts = os_insert (eid_new 2 1000, 101, Long 8) om_empty, nv_retracts = om_empty, nv_steps = 1\<rparr>"
proof -
  have "eid_partition (eid_new 2 1000) = 2" by (rule eid_partition_new) simp
  then show "squash wit_branch_run = \<lparr>nv_asserts = os_insert (eid_new 2 1000, 101, Long 8) om_empty, nv_retracts = om_empty, nv_steps = 1\<rparr>"
    by (simp add: squash_def wit_branch_run_def squash_step_def squash_pick_def Let_def novelty_default_def os_insert_def om_size_def)
qed (simp add: squash_def novelty_default_def)

theorem merge_without_conflicts_witness:
  "merge_scan wit_merge = [] \<and>
   unique_ok (db_schema wit_parent) (merged (squash wit_branch_run) {(5, 101, Long 7)})"
proof -
  have view: "db_view wit_parent \<noteq> History" by (simp add: wit_parent_simps)
  have look: "lookup wit_parent 101 (Long 8) = None"
    using lookup_None [OF wit_parent_simps(1) view] by (simp add: holds_value_facts wit_parent_simps)
  have empt: "emptied wit_merge = om_empty" "drifted wit_merge = om_empty"
    by (simp_all add: emptied_def drifted_def wit_merge_def wit_squash novelty_default_def novelty_facts_def os_elems_def om_keys_def)
  have "uniqueness_conflict wit_merge (eid_new 2 1000, 101, Long 8) = []"
    using look by (simp add: uniqueness_conflict_def wit_merge_def split: option.split)
  moreover have "dangling_conflict wit_merge (eid_new 2 1000, 101, Long 8) = []"
    by (simp add: dangling_conflict_def dangling_target_def as_reference_def empt)
  moreover have "pair_conflict wit_merge p = []" for p
    by (simp add: pair_conflict_def empt Let_def split_beta)
  moreover have "os_elems (nv_asserts (mi_branch wit_merge)) = [(eid_new 2 1000, 101, Long 8)]"
    by (simp add: wit_merge_def wit_squash os_elems_def om_keys_def os_insert_def)
  ultimately have "concat (map (\<lambda>f. uniqueness_conflict wit_merge f @ dangling_conflict wit_merge f) (os_elems (nv_asserts (mi_branch wit_merge)))) = []"
    "concat (map (pair_conflict wit_merge) (om_entries (branch_pairs wit_merge))) = []"
    by simp_all
  then have scan: "merge_scan wit_merge = []" by (simp only: merge_scan_def append_Nil sort_key_simps)
  have set: "merge_setting wit_merge {(5, 101, Long 7)} wit_branch_run []"
    by (simp add: merge_setting_def wit_merge_def wit_parent_simps wit_branch_run_def)
  have one: "card_one_ok s {(5, 101, Long 7)}" "unique_ok s {(5, 101, Long 7)}" for s
    by (simp_all add: card_one_ok_def unique_ok_def)
  have "eid_new 2 1000 \<noteq> 5"
  proof
    assume "eid_new 2 1000 = 5"
    then have "eid_partition 5 = (2 :: 32 word)" using eid_partition_new [of 2 1000] by simp
    then show False by (simp add: eid_partition_def SEQUENCE_BITS_def drop_bit_eq_div)
  qed
  then have br: "card_one_ok s (apply_facts wit_branch_run {(5, 101, Long 7)})" "unique_ok s (apply_facts wit_branch_run {(5, 101, Long 7)})" for s
    by (auto simp: card_one_ok_def unique_ok_def wit_branch_run_def fact_step_def)
  show ?thesis
    using merge_without_conflicts [OF set scan refl, unfolded wit_merge_def merge_input.simps wit_parent_simps, OF br(1) one(1) br(2) one(2)] scan
    by (simp add: wit_parent_simps)
qed

text \<open>The resolution that keeps the parent's side of a conflict.\<close>

definition accept_parent :: "conflict \<Rightarrow> resolution" where
  "accept_parent c = \<lparr>rs_entity = cf_entity c, rs_attribute = cf_attribute c, rs_scope = cf_scope c,
     rs_parent = cf_parent c, rs_take = TakeParent\<rparr>"

lemma position_found: "x \<in> set xs \<Longrightarrow> P x \<Longrightarrow> \<exists>i. position P xs = Some i"
  by (induction xs) auto

lemma accept_parent_step:
  assumes "c \<in> set cs" and "rv_outstanding (fst st) = []"
  shows "rv_outstanding (fst (resolve_step (map accept_parent cs) c st)) = []"
proof -
  have "accept_parent c \<in> set (map accept_parent cs)" using assms(1) by simp
  moreover have "answers (accept_parent c) c" by (simp add: answers_def accept_parent_def)
  ultimately obtain i where i: "position (\<lambda>r. answers r c) (map accept_parent cs) = Some i"
    using position_found [of "accept_parent c" "map accept_parent cs" "\<lambda>r. answers r c"] by blast
  then have "rs_take (map accept_parent cs ! i) = TakeParent"
    using position_Some [OF i] by (simp add: accept_parent_def)
  then show ?thesis using i assms(2) by (simp add: resolve_step_def split_beta Let_def)
qed

lemma accept_parent_fold:
  "set cs' \<subseteq> set cs \<Longrightarrow> rv_outstanding (fst st) = [] \<Longrightarrow>
    rv_outstanding (fst (fold (resolve_step (map accept_parent cs)) cs' st)) = []"
  by (induction cs' arbitrary: st) (simp_all add: accept_parent_step)

text \<open>
  Resolving. When nothing is left outstanding, every conflict is accepted to the parent, or it
  is overridable and its unit overridden; no unit is both, and applying the result drops every
  fact of an accepted unit and only retractions of an overridden one. A merge can always be
  unblocked: answering every conflict with the parent's side leaves nothing outstanding.
\<close>

theorem resolutions_settle:
  shows "(rv_outstanding (resolve cs rs) = [] \<longrightarrow> (\<forall>c \<in> set cs.
       conflict_unit c \<in> os_set (rv_accepted (resolve cs rs)) \<or>
       cf_overridable c \<and> conflict_unit c \<in> os_set (rv_overridden (resolve cs rs)))) \<and>
    os_set (rv_accepted (resolve cs rs)) \<inter> os_set (rv_overridden (resolve cs rs)) = {} \<and>
    os_set (nv_asserts (apply_resolved n rv d)) =
      {f \<in> os_set (nv_asserts n). fact_unit d f \<notin> os_set (rv_accepted rv)} \<and>
    os_set (nv_retracts (apply_resolved n rv d)) =
      {f \<in> os_set (nv_retracts n). fact_unit d f \<notin> os_set (rv_accepted rv) \<and> fact_unit d f \<notin> os_set (rv_overridden rv)} \<and>
    rv_outstanding (resolve cs (map accept_parent cs)) = []"
proof (intro conjI)
  show "rv_outstanding (resolve cs rs) = [] \<longrightarrow> (\<forall>c \<in> set cs.
       conflict_unit c \<in> os_set (rv_accepted (resolve cs rs)) \<or>
       cf_overridable c \<and> conflict_unit c \<in> os_set (rv_overridden (resolve cs rs)))"
    using resolve_settles by blast
  show "os_set (rv_accepted (resolve cs rs)) \<inter> os_set (rv_overridden (resolve cs rs)) = {}"
    by (rule accepted_overridden_disjoint)
  show "os_set (nv_asserts (apply_resolved n rv d)) =
      {f \<in> os_set (nv_asserts n). fact_unit d f \<notin> os_set (rv_accepted rv)}"
    using apply_resolved_facts(1) by blast
  show "os_set (nv_retracts (apply_resolved n rv d)) =
      {f \<in> os_set (nv_retracts n). fact_unit d f \<notin> os_set (rv_accepted rv) \<and> fact_unit d f \<notin> os_set (rv_overridden rv)}"
    using apply_resolved_facts(2) by blast
  show "rv_outstanding (resolve cs (map accept_parent cs)) = []"
    using accept_parent_fold [of cs cs "(\<lparr>rv_outstanding = [], rv_accepted = om_empty, rv_overridden = om_empty, rv_rejected = []\<rparr>,
      replicate (length (map accept_parent cs)) False)"]
    by (simp add: resolve_def split_beta Let_def)
qed

definition wit_conflict :: conflict where
  "wit_conflict = \<lparr>cf_kind = WriteWrite, cf_entity = 5, cf_attribute = 101, cf_scope = ScopePair,
     cf_branch = Some (Long 8), cf_parent = Some (Long 7), cf_overridable = True\<rparr>"

theorem resolutions_settle_witness:
  "rv_outstanding (resolve [wit_conflict] [accept_parent wit_conflict]) = [] \<and>
   (5, 101, ScopePair) \<in> os_set (rv_accepted (resolve [wit_conflict] [accept_parent wit_conflict]))"
proof -
  have out: "rv_outstanding (resolve [wit_conflict] [accept_parent wit_conflict]) = []"
    using resolutions_settle [of "[wit_conflict]"] by simp
  have "(5, 101, ScopePair) \<notin> os_set (rv_overridden (resolve [wit_conflict] [accept_parent wit_conflict]))"
    by (simp add: resolve_def resolve_step_def accept_parent_def answers_def Let_def split_beta os_set_def os_member_def om_get_filter)
  then show ?thesis
    using resolutions_settle [of "[wit_conflict]" "[accept_parent wit_conflict]"] out
    by (auto simp: conflict_unit_def wit_conflict_def)
qed

text \<open>
  An override refused on one conflict does survive on another of the same unit: with a
  write-write conflict beside a uniqueness conflict, one override resolution leaves the
  uniqueness conflict outstanding and still records the unit as overridden.
\<close>

theorem refused_override_survives:
  "let unique = wit_conflict\<lparr>cf_kind := Uniqueness 9, cf_overridable := False\<rparr>;
       rv = resolve [unique, wit_conflict] [(accept_parent wit_conflict)\<lparr>rs_take := TakeBranch\<rparr>]
   in rv_outstanding rv = [unique] \<and> os_set (rv_overridden rv) = {(5, 101, ScopePair)} \<and>
      rv_rejected rv = [NotOverridable ((accept_parent wit_conflict)\<lparr>rs_take := TakeBranch\<rparr>)]"
  by (auto simp: resolve_def resolve_step_def accept_parent_def answers_def wit_conflict_def conflict_unit_def Let_def
      os_set_def os_member_def om_get_filter os_insert_def split: if_splits)

text \<open>
  Translating a branch's novelty into the parent's naming keeps its meaning: the translated
  facts are the branch's facts, with every keyword value under the id the parent gives the same
  keyword, and the ids the parent had keep theirs.
\<close>

theorem translate_keeps_names:
  assumes "interner_wf i" and "room i (om_size (nv_asserts n) + om_size (nv_retracts n))"
    and "translate n branch overlay i = Inr (n', i')"
  shows "interner_wf i' \<and> extends i i' \<and> nv_steps n' = nv_steps n \<and>
    (\<forall>f \<in> os_set (nv_asserts n). \<exists>f' \<in> os_set (nv_asserts n'). same_named (kw_resolve branch overlay) (om_get (k_by_id i')) f f') \<and>
    (\<forall>f' \<in> os_set (nv_asserts n'). \<exists>f \<in> os_set (nv_asserts n). same_named (kw_resolve branch overlay) (om_get (k_by_id i')) f f') \<and>
    (\<forall>f \<in> os_set (nv_retracts n). \<exists>f' \<in> os_set (nv_retracts n'). same_named (kw_resolve branch overlay) (om_get (k_by_id i')) f f') \<and>
    (\<forall>f' \<in> os_set (nv_retracts n'). \<exists>f \<in> os_set (nv_retracts n). same_named (kw_resolve branch overlay) (om_get (k_by_id i')) f f')"
proof -
  obtain i1 where a: "translate_facts (kw_resolve branch overlay) (os_elems (nv_asserts n)) om_empty i = Inr (nv_asserts n', i1)"
    and r: "translate_facts (kw_resolve branch overlay) (os_elems (nv_retracts n)) om_empty i1 = Inr (nv_retracts n', i')"
    and steps: "nv_steps n' = nv_steps n"
    using assms(3) by (auto simp: translate_def bindr_eq_Inr)
  have len: "length (os_elems s) = om_size s" and elems: "set (os_elems s) = os_set s" for s :: "fact_of oset"
    by (simp add: os_elems_def om_keys_def om_size_def) (auto simp: os_set_def)
  note A = translate_facts_ok [OF assms(1) _ a, of "om_size (nv_retracts n)", unfolded len elems, OF assms(2)]
  have A1: "interner_wf i1" "room i1 (om_size (nv_retracts n) + 0)" using A by simp_all
  note R = translate_facts_ok [OF A1(1) _ r, of 0, unfolded len elems, OF A1(2)]
  have "extends i i'" using A R by (auto simp: extends_def)
  moreover have "same_named (kw_resolve branch overlay) (om_get (k_by_id i')) f f'" if "same_named (kw_resolve branch overlay) (om_get (k_by_id i1)) f f'" for f f'
    using same_named_extends [OF that] R by blast
  moreover have "os_set (om_empty :: fact_of oset) = {}" by (simp add: os_set_def os_member_def)
  ultimately show ?thesis using A R steps by (intro conjI) (blast | simp)+
qed

theorem translate_keeps_names_witness:
  "let branch = snd (intern (Kw None ''x'') (snd (intern (Kw None ''y'') interner_new))); parent = interner_new;
       n = novelty_default\<lparr>nv_asserts := os_insert (5, 101, Keyword 1) om_empty\<rparr>
   in translate n branch local_new parent =
        Inr (novelty_default\<lparr>nv_asserts := os_insert (5, 101, Keyword 0) om_empty\<rparr>, snd (intern (Kw None ''x'') parent)) \<and>
      om_get (k_by_id (snd (intern (Kw None ''x'') parent))) 0 = Some (Kw None ''x'')"
proof -
  define branch where "branch = snd (intern (Kw None ''x'') (snd (intern (Kw None ''y'') interner_new)))"
  define n where "n = novelty_default\<lparr>nv_asserts := os_insert (5, 101, Keyword 1) om_empty\<rparr>"
  have res: "kw_resolve branch local_new 1 = Some (Kw None ''x'')"
    by (simp add: branch_def kw_resolve_def intern_def interner_new_def local_new_def Let_def)
  have tr: "translate n branch local_new interner_new =
     Inr (novelty_default\<lparr>nv_asserts := os_insert (5, 101, Keyword 0) om_empty\<rparr>, snd (intern (Kw None ''x'') interner_new))"
    by (simp add: n_def translate_def translate_fact_def res novelty_default_def os_elems_def om_keys_def os_insert_def intern_def interner_new_def Let_def)
  have "room interner_new (om_size (nv_asserts n) + om_size (nv_retracts n))"
    by (simp add: n_def room_def interner_new_def novelty_default_def os_insert_def om_size_insert)
  from translate_keeps_names [OF interner_wf_new this tr] tr res show ?thesis
    by (simp add: same_named_def n_def [symmetric] branch_def [symmetric] Let_def) (simp add: n_def)
qed

end
