(* ===== verification/Rust_Text.thy ===== *)
theory Rust_Text
  imports Values
begin

text \<open>
  The parts of Rust's text library the stored records use: decimal printing and parsing of
  integers, \<open>str::lines\<close>, and the validity of concatenated UTF-8.
\<close>

subsection \<open>Decimal integers\<close>

definition dec_digit :: "nat \<Rightarrow> char" where
  "dec_digit n = char_of (48 + n mod 10)"

fun dec :: "nat \<Rightarrow> string" where
  "dec n = (if n < 10 then [dec_digit n] else dec (n div 10) @ [dec_digit n])"

declare dec.simps [simp del]

text \<open>\<open>char::to_digit(10)\<close> and the digit loop of \<open>from_str_radix\<close>, which refuses a value at or over the bound.\<close>

definition to_digit_10 :: "char \<Rightarrow> nat option" where
  "to_digit_10 c = (let n = of_char c :: nat in if 48 \<le> n \<and> n \<le> 57 then Some (n - 48) else None)"

fun radix_10 :: "nat \<Rightarrow> string \<Rightarrow> nat \<Rightarrow> nat option" where
  "radix_10 bound [] acc = Some acc"
| "radix_10 bound (c # cs) acc = (case to_digit_10 c of
     None \<Rightarrow> None
   | Some d \<Rightarrow> if acc * 10 + d < bound then radix_10 bound cs (acc * 10 + d) else None)"

definition parse_digits :: "nat \<Rightarrow> string \<Rightarrow> nat option" where
  "parse_digits bound digits = (if digits = [] then None else radix_10 bound digits 0)"

text \<open>\<open>str::parse\<close>: one leading plus is accepted, and a leading minus by the signed types.\<close>

definition parse_unsigned :: "string \<Rightarrow> 'a::len word option" where
  "parse_unsigned s = map_option of_nat (parse_digits (2 ^ LENGTH('a))
     (case s of c # cs \<Rightarrow> if c = CHR ''+'' then cs else s | [] \<Rightarrow> []))"

definition parse_signed :: "string \<Rightarrow> 'a::len word option" where
  "parse_signed s = (case s of
     [] \<Rightarrow> None
   | c # cs \<Rightarrow>
      if c = CHR ''-'' then map_option (\<lambda>n. - of_nat n) (parse_digits (2 ^ (LENGTH('a) - 1) + 1) cs)
      else map_option of_nat (parse_digits (2 ^ (LENGTH('a) - 1)) (if c = CHR ''+'' then cs else s)))"

definition print_unsigned :: "'a::len word \<Rightarrow> string" where
  "print_unsigned w = dec (unat w)"

definition print_signed :: "'a::len word \<Rightarrow> string" where
  "print_signed w = (if sint w < 0 then CHR ''-'' # dec (nat (- sint w)) else dec (nat (sint w)))"

subsection \<open>Affixes\<close>

definition strip_prefix :: "string \<Rightarrow> string \<Rightarrow> string option" where
  "strip_prefix p s = (if prefix p s then Some (drop (length p) s) else None)"

definition strip_suffix :: "string \<Rightarrow> string \<Rightarrow> string option" where
  "strip_suffix suf s = (if suffix suf s then Some (take (length s - length suf) s) else None)"

subsection \<open>Lines\<close>

abbreviation newline :: char where
  "newline \<equiv> CHR 0x0A"

text \<open>A line without its end, from the reversed characters before the line feed.\<close>

definition end_line :: "string \<Rightarrow> string" where
  "end_line acc = rev (case acc of c # cs \<Rightarrow> if c = CHR 0x0D then cs else acc | [] \<Rightarrow> [])"

fun lines_from :: "string \<Rightarrow> string \<Rightarrow> string list" where
  "lines_from acc [] = (if acc = [] then [] else [rev acc])"
| "lines_from acc (c # cs) =
    (if c = newline then end_line acc # lines_from [] cs else lines_from (c # acc) cs)"

definition lines :: "string \<Rightarrow> string list" where
  "lines s = lines_from [] s"

text \<open>A line that is read back as it was written.\<close>

definition line_safe :: "string \<Rightarrow> bool" where
  "line_safe l \<longleftrightarrow> newline \<notin> set l \<and> (l = [] \<or> last l \<noteq> CHR 0x0D)"

lemma lines_from_run: "newline \<notin> set l \<Longrightarrow> lines_from acc (l @ s) = lines_from (rev l @ acc) s"
  by (induction l arbitrary: acc) auto

lemma lines_line: "line_safe l \<Longrightarrow> lines (l @ newline # s) = l # lines s"
proof -
  assume l: "line_safe l"
  have "end_line (rev l) = l"
    using l by (cases l rule: rev_cases) (auto simp: line_safe_def end_line_def)
  then show ?thesis using l by (simp add: lines_def line_safe_def lines_from_run)
qed

lemma lines_Nil [simp]: "lines [] = []"
  by (simp add: lines_def)

subsection \<open>Printing and parsing\<close>

lemma to_digit_10_dec_digit: "to_digit_10 (dec_digit n) = Some (n mod 10)"
proof -
  have "n mod 10 < 10" by simp
  then show ?thesis by (simp add: to_digit_10_def dec_digit_def)
qed

lemma dec_not_Nil [simp]: "dec n \<noteq> []"
  by (subst dec.simps) simp

lemma radix_10_append: "radix_10 bound (xs @ ys) acc = Option.bind (radix_10 bound xs acc) (radix_10 bound ys)"
  by (induction xs arbitrary: acc) (auto split: option.split)

lemma radix_10_dec: "n < bound \<Longrightarrow> radix_10 bound (dec n) 0 = Some n"
proof (induction n rule: dec.induct)
  case (1 n)
  show ?case
  proof (cases "n < 10")
    case True
    then show ?thesis using "1.prems" by (subst dec.simps) (simp add: to_digit_10_dec_digit)
  next
    case False
    then have "radix_10 bound (dec (n div 10)) 0 = Some (n div 10)"
      using "1.IH" "1.prems" by simp
    moreover have "n div 10 * 10 + n mod 10 = n" by simp
    ultimately show ?thesis using False "1.prems"
      by (subst dec.simps) (simp add: radix_10_append to_digit_10_dec_digit)
  qed
qed

lemma parse_digits_dec: "n < bound \<Longrightarrow> parse_digits bound (dec n) = Some n"
  by (simp add: parse_digits_def radix_10_dec)

lemma dec_chars: "c \<in> set (dec n) \<Longrightarrow> \<exists>d < 10. c = char_of (48 + d :: nat)"
proof (induction n rule: dec.induct)
  case (1 n)
  have "\<exists>d < 10. dec_digit n = char_of (48 + d :: nat)"
    by (rule exI [of _ "n mod 10"]) (simp add: dec_digit_def)
  moreover have "c = dec_digit n \<or> \<not> n < 10 \<and> c \<in> set (dec (n div 10))"
    using "1.prems" by (subst (asm) dec.simps) (auto split: if_splits)
  ultimately show ?case using "1.IH" by blast
qed

lemma of_char_dec: "c \<in> set (dec n) \<Longrightarrow> 48 \<le> (of_char c :: nat) \<and> (of_char c :: nat) \<le> 57"
  by (drule dec_chars) auto

lemma dec_Cons: obtains c cs where "dec n = c # cs" "c \<noteq> CHR ''+''" "c \<noteq> CHR ''-''"
proof -
  obtain c cs where d: "dec n = c # cs" by (cases "dec n") simp_all
  have "c \<in> set (dec n)" by (simp add: d)
  then have "48 \<le> (of_char c :: nat)" by (drule_tac of_char_dec) simp
  then have "c \<noteq> CHR ''+''" "c \<noteq> CHR ''-''" by auto
  with d that show thesis by blast
qed

lemma parse_print_unsigned [simp]: "parse_unsigned (print_unsigned w) = Some w"
proof -
  obtain c cs where d: "dec (unat w) = c # cs" "c \<noteq> CHR ''+''" by (rule dec_Cons)
  then have "(case dec (unat w) of c # cs \<Rightarrow> if c = CHR ''+'' then cs else dec (unat w) | [] \<Rightarrow> []) = dec (unat w)"
    by simp
  then show ?thesis
    by (simp add: parse_unsigned_def print_unsigned_def parse_digits_dec unsigned_less)
qed

lemma parse_print_signed [simp]: "parse_signed (print_signed w) = Some w"
proof -
  have range: "- (2 ^ (LENGTH('a) - 1)) \<le> sint w" "sint w < 2 ^ (LENGTH('a) - 1)" for w :: "'a::len word"
    using sint_range_size [of w] by (simp_all add: word_size)
  show ?thesis
  proof (cases "sint w < 0")
    case True
    have "nat (- sint w) < 2 ^ (LENGTH('a) - 1) + 1" using range(1) [of w] by (simp add: nat_less_iff) (simp add: nat_less_iff less_Suc_eq_le nat_le_iff)
    moreover have "- of_nat (nat (- sint w)) = w" using True by (simp add: of_int_of_nat [symmetric])
    ultimately show ?thesis using True by (simp add: parse_signed_def print_signed_def parse_digits_dec)
  next
    case False
    obtain c cs where d: "dec (nat (sint w)) = c # cs" "c \<noteq> CHR ''+''" "c \<noteq> CHR ''-''" by (rule dec_Cons)
    have "nat (sint w) < 2 ^ (LENGTH('a) - 1)" using range(2) [of w] False by (simp add: nat_less_iff)
    moreover have "of_nat (nat (sint w)) = w" using False by simp
    ultimately show ?thesis using False d parse_digits_dec [of "nat (sint w)"]
      by (simp add: parse_signed_def print_signed_def)
  qed
qed

text \<open>What is printed is safe on a line of its own, and is ASCII.\<close>

definition ascii :: "string \<Rightarrow> bool" where
  "ascii s \<longleftrightarrow> (\<forall>c \<in> set s. (of_char c :: nat) < 128)"

lemma ascii_simps [simp]:
  "ascii []" "ascii (c # s) \<longleftrightarrow> (of_char c :: nat) < 128 \<and> ascii s" "ascii (s @ t) \<longleftrightarrow> ascii s \<and> ascii t"
  by (auto simp: ascii_def)

lemma dec_safe: "line_safe (dec n)" "ascii (dec n)"
proof -
  have "newline \<notin> set (dec n)" "CHR 0x0D \<notin> set (dec n)"
    using of_char_dec [of newline n] of_char_dec [of "CHR 0x0D" n] by auto
  then show "line_safe (dec n)" 
    using last_in_set [OF dec_not_Nil, of n] by (auto simp: line_safe_def simp del: last_in_set)
  show "ascii (dec n)" unfolding ascii_def
  proof
    fix c assume "c \<in> set (dec n)"
    then show "(of_char c :: nat) < 128" using of_char_dec [of c n] by simp
  qed
qed

lemma print_unsigned_safe [simp]: "line_safe (print_unsigned w)" "ascii (print_unsigned w)"
  by (simp_all add: print_unsigned_def dec_safe)

lemma print_signed_safe [simp]: "line_safe (print_signed w)" "ascii (print_signed w)"
  using dec_safe by (simp_all add: print_signed_def line_safe_def)

lemma utf8_valid_append: "utf8_valid a \<Longrightarrow> utf8_valid (a @ b) \<longleftrightarrow> utf8_valid b"
proof (induction a rule: utf8_valid.induct)
  case (2 b0 r0)
  show ?case
  proof (cases "b0 < 0x80")
    case True
    then show ?thesis using 2 by simp
  next
    case False
    then obtain b1 r1 where r0: "r0 = b1 # r1" using "2.prems" by (cases r0) simp_all
    show ?thesis
    proof (cases "in_range 0xC2 0xDF b0")
      case True
      then show ?thesis using 2 False r0 by simp
    next
      case no: False
      then obtain b2 r2 where r1: "r1 = b2 # r2" using "2.prems" False r0 by (cases r1) simp_all
      note IH = "2.IH"(3-5) [OF False r0 no r1]
      show ?thesis
      proof (cases "b0 = 0xE0 \<or> in_range 0xE1 0xEC b0 \<or> in_range 0xEE 0xEF b0 \<or> b0 = 0xED")
        case True
        then show ?thesis using IH "2.prems" False r0 no r1 by (auto split: if_splits)
      next
        case no3: False
        then obtain b3 r3 where r2: "r2 = b3 # r3" using "2.prems" False r0 no r1 by (cases r2) simp_all
        then show ?thesis using "2.IH"(6) [OF False r0 no r1] "2.prems" False r0 no r1 no3 by (simp split: if_splits)
      qed
    qed
  qed
qed simp

lemma str_bytes_append: "str_bytes (s @ t) = str_bytes s @ str_bytes t"
  by (simp add: str_bytes_def)

lemma utf8_valid_ascii: "ascii s \<Longrightarrow> utf8_valid (str_bytes s)"
proof (induction s)
  case (Cons c s)
  have "(word_of_nat (of_char c) :: byte) < 0x80"
    using Cons.prems by (simp add: word_less_nat_alt unat_of_nat)
  with Cons show ?case by (simp add: str_bytes_def)
qed (simp add: str_bytes_def)

text \<open>Text that is a valid string.\<close>

definition valid_str :: "string \<Rightarrow> bool" where
  "valid_str s \<longleftrightarrow> utf8_valid (str_bytes s)"

lemma valid_str_append: "valid_str s \<Longrightarrow> valid_str t \<Longrightarrow> valid_str (s @ t)"
  by (simp add: valid_str_def str_bytes_append utf8_valid_append)

lemma valid_str_ascii: "ascii s \<Longrightarrow> valid_str s"
  by (simp add: valid_str_def utf8_valid_ascii)

end
