(* ===== verification/Db_Root.thy ===== *)
theory Db_Root
  imports Rust_Text "HOL-Library.Monad_Syntax"
begin

text \<open>
  The root record of a database (crates/corium-store/src/lib.rs): blob ids, the record that
  carries the write lease beside the published index roots, and its text form.
\<close>

subsection \<open>Blob ids\<close>

type_synonym blob_id = string

definition is_ascii_hexdigit :: "char \<Rightarrow> bool" where
  "is_ascii_hexdigit c = (let n = of_char c :: nat in
     48 \<le> n \<and> n \<le> 57 \<or> 97 \<le> n \<and> n \<le> 102 \<or> 65 \<le> n \<and> n \<le> 70)"

definition blob_from_hex :: "string \<Rightarrow> blob_id option" where
  "blob_from_hex text = (if length text = 64 \<and> list_all is_ascii_hexdigit text then Some text else None)"

definition db_root_name :: "string \<Rightarrow> string" where
  "db_root_name db = ''db:'' @ db"

definition meta_root_name :: "string \<Rightarrow> string" where
  "meta_root_name db = ''meta:'' @ db"

subsection \<open>The record\<close>

definition FORMAT_VERSION :: u32 where
  "FORMAT_VERSION = 5"

text \<open>One blob id per index order.\<close>

type_synonym index_roots = "blob_id \<times> blob_id \<times> blob_id \<times> blob_id"

record db_root =
  r_format_version :: u32
  r_lease_version :: u64
  r_owner :: string
  r_lease_expires :: i64
  r_owner_endpoint :: string
  r_index_basis_t :: u64
  r_roots :: "index_roots option"
  r_history_roots :: "index_roots option"
  r_next_entity_id :: u64
  r_last_tx_instant :: i64
  r_key_manifest_version :: u64

definition I64_MIN :: i64 where
  "I64_MIN = push_bit 63 1"

definition field_line :: "string \<Rightarrow> string" where
  "field_line value = (if value = [] then ''-'' else value) @ [newline]"

definition parse_field :: "string \<Rightarrow> string" where
  "parse_field line = (if line = ''-'' then [] else line)"

definition roots_lines :: "index_roots option \<Rightarrow> string" where
  "roots_lines roots = (case roots of
     Some (a, b, c, d) \<Rightarrow> a @ [newline] @ b @ [newline] @ c @ [newline] @ d @ [newline]
   | None \<Rightarrow> ''-'' @ [newline] @ ''-'' @ [newline] @ ''-'' @ [newline] @ ''-'' @ [newline])"

definition ROOT_HEADER :: string where
  "ROOT_HEADER = ''corium-root-v''"

definition root_text :: "db_root \<Rightarrow> string" where
  "root_text r =
     ROOT_HEADER @ print_unsigned (r_format_version r) @ [newline]
     @ print_unsigned (r_lease_version r) @ [newline]
     @ print_unsigned (r_index_basis_t r) @ [newline]
     @ roots_lines (r_roots r)
     @ field_line (r_owner r)
     @ print_signed (r_lease_expires r) @ [newline]
     @ field_line (r_owner_endpoint r)
     @ print_unsigned (r_next_entity_id r) @ [newline]
     @ print_signed (r_last_tx_instant r) @ [newline]
     @ print_unsigned (r_key_manifest_version r) @ [newline]
     @ roots_lines (r_history_roots r)"

definition root_encode :: "db_root \<Rightarrow> bytes" where
  "root_encode r = str_bytes (root_text r)"

subsection \<open>Decoding\<close>

text \<open>\<open>Iterator::next\<close> on the lines that are left.\<close>

definition next_line :: "string list \<Rightarrow> string option \<times> string list" where
  "next_line ls = (case ls of [] \<Rightarrow> (None, []) | l # ls \<Rightarrow> (Some l, ls))"

definition decode_roots :: "string list \<Rightarrow> index_roots option option" where
  "decode_roots ids =
    (if list_all (\<lambda>i. i = ''-'') ids then Some None
     else do {
       a \<leftarrow> blob_from_hex (ids ! 0);
       b \<leftarrow> blob_from_hex (ids ! 1);
       c \<leftarrow> blob_from_hex (ids ! 2);
       d \<leftarrow> blob_from_hex (ids ! 3);
       Some (Some (a, b, c, d))
     })"

definition decode_header :: "string list \<Rightarrow> (u32 \<times> u64 \<times> string list) option" where
  "decode_header ls = (case next_line ls of
     (None, _) \<Rightarrow> None
   | (Some first, ls) \<Rightarrow> (case strip_prefix ROOT_HEADER first of
       Some version \<Rightarrow> do {
         format_version \<leftarrow> parse_unsigned version;
         line \<leftarrow> fst (next_line ls);
         lease_version \<leftarrow> parse_unsigned line;
         Some (format_version, lease_version, snd (next_line ls))
       }
     | None \<Rightarrow> do {
         lease_version \<leftarrow> parse_unsigned first;
         Some (1, lease_version, ls)
       }))"

definition unwrap_or :: "'a \<Rightarrow> 'a option \<Rightarrow> 'a" where
  "unwrap_or x m = (case m of None \<Rightarrow> x | Some y \<Rightarrow> y)"

definition decode_lines :: "string list \<Rightarrow> db_root option" where
  "decode_lines ls = do {
     (format_version, lease_version, ls) \<leftarrow> decode_header ls;
     line \<leftarrow> fst (next_line ls);
     index_basis_t \<leftarrow> parse_unsigned line;
     let ls = snd (next_line ls);
     roots \<leftarrow> if length (take 4 ls) \<noteq> 4 then None else decode_roots (take 4 ls);
     let (owner, ls) = next_line (drop 4 ls);
     let (expires, ls) = next_line ls;
     let (endpoint, ls) = next_line ls;
     let (next_entity_id, ls) = next_line ls;
     let (last_tx_instant, ls) = next_line ls;
     let (key_manifest_version, ls) = next_line ls;
     let history_ids = take 4 ls;
     history_roots \<leftarrow> if history_ids = [] \<and> format_version < 5 then Some None
       else if length history_ids \<noteq> 4 then None
       else decode_roots history_ids;
     Some \<lparr>r_format_version = format_version, r_lease_version = lease_version,
       r_owner = unwrap_or [] (map_option parse_field owner),
       r_lease_expires = unwrap_or 0 (Option.bind expires parse_signed),
       r_owner_endpoint = unwrap_or [] (map_option parse_field endpoint),
       r_index_basis_t = index_basis_t, r_roots = roots, r_history_roots = history_roots,
       r_next_entity_id = unwrap_or 0 (Option.bind next_entity_id parse_unsigned),
       r_last_tx_instant = unwrap_or I64_MIN (Option.bind last_tx_instant parse_signed),
       r_key_manifest_version = unwrap_or 0 (Option.bind key_manifest_version parse_unsigned)\<rparr>
   }"

definition root_decode :: "bytes \<Rightarrow> db_root option" where
  "root_decode bytes = (if utf8_valid bytes then decode_lines (lines (bytes_str bytes)) else None)"

subsection \<open>Well-formed records\<close>

text \<open>The text fields of a record that reads back: valid strings on one line that are not a lone dash.\<close>

definition field_ok :: "string \<Rightarrow> bool" where
  "field_ok s \<longleftrightarrow> valid_str s \<and> line_safe s \<and> s \<noteq> ''-''"

fun roots_ok :: "index_roots option \<Rightarrow> bool" where
  "roots_ok None = True"
| "roots_ok (Some (a, b, c, d)) = list_all (\<lambda>i. blob_from_hex i \<noteq> None) [a, b, c, d]"

definition root_wf :: "db_root \<Rightarrow> bool" where
  "root_wf r \<longleftrightarrow> field_ok (r_owner r) \<and> field_ok (r_owner_endpoint r) \<and> roots_ok (r_roots r) \<and> roots_ok (r_history_roots r)"

lemma blob_ok:
  assumes "blob_from_hex i \<noteq> None"
  shows "blob_from_hex i = Some i" "line_safe i" "ascii i" "i \<noteq> ''-''"
proof -
  have len: "length i = 64" and hex: "\<And>c. c \<in> set i \<Longrightarrow> is_ascii_hexdigit c"
    using assms by (auto simp: blob_from_hex_def list_all_iff split: if_splits)
  show "blob_from_hex i = Some i" using assms by (simp add: blob_from_hex_def split: if_splits)
  have "c \<noteq> newline" "c \<noteq> CHR 0x0D" "(of_char c :: nat) < 128" if "c \<in> set i" for c
    using hex [OF that] by (auto simp: is_ascii_hexdigit_def Let_def)
  then show "line_safe i" "ascii i"
    unfolding line_safe_def ascii_def using last_in_set [of i] by blast+
  show "i \<noteq> ''-''" using len by auto
qed

lemma line_safe_dash [simp]: "line_safe ''-''"
  by (simp add: line_safe_def)

lemma lines_field: "line_safe s \<Longrightarrow> lines (field_line s @ t) = (if s = [] then ''-'' else s) # lines t"
  using lines_line [of s t] lines_line [of "''-''" t] by (simp add: field_line_def)

lemma parse_field_ok: "field_ok s \<Longrightarrow> parse_field (if s = [] then ''-'' else s) = s"
  by (simp add: parse_field_def field_ok_def)

text \<open>The four lines of a root field, and what they decode to.\<close>

fun root_ids :: "index_roots option \<Rightarrow> string list" where
  "root_ids None = [''-'', ''-'', ''-'', ''-'']"
| "root_ids (Some (a, b, c, d)) = [a, b, c, d]"

lemma length_root_ids [simp]: "length (root_ids r) = 4"
  by (cases r rule: root_ids.cases) simp_all

lemma four_ids: obtains a b c d where "root_ids r = [a, b, c, d]"
  by (cases r rule: root_ids.cases) simp_all

lemma lines_roots:
  assumes "roots_ok r"
  shows "lines (roots_lines r @ t) = root_ids r @ lines t" and "decode_roots (root_ids r) = Some r" and "ascii (roots_lines r)"
proof -
  have dash: "lines (CHR ''-'' # newline # u) = ''-'' # lines u" for u using lines_line [of "''-''" u] by simp
  show "lines (roots_lines r @ t) = root_ids r @ lines t"
    using assms by (cases r rule: root_ids.cases) (simp_all add: roots_lines_def dash lines_line blob_ok)
  show "decode_roots (root_ids r) = Some r"
    using assms by (cases r rule: root_ids.cases) (simp_all add: decode_roots_def blob_ok(1,4))
  show "ascii (roots_lines r)"
    using assms by (cases r rule: root_ids.cases) (simp_all add: roots_lines_def blob_ok(3))
qed

lemma header_safe: "line_safe (ROOT_HEADER @ print_unsigned (w :: u32))"
  using print_unsigned_safe(1) [of w] by (auto simp: line_safe_def print_unsigned_def ROOT_HEADER_def)

lemma lines_root_text:
  assumes "root_wf r"
  shows "lines (root_text r) =
    [ROOT_HEADER @ print_unsigned (r_format_version r), print_unsigned (r_lease_version r), print_unsigned (r_index_basis_t r)]
    @ root_ids (r_roots r) @ [if r_owner r = [] then ''-'' else r_owner r, print_signed (r_lease_expires r),
      if r_owner_endpoint r = [] then ''-'' else r_owner_endpoint r, print_unsigned (r_next_entity_id r),
      print_signed (r_last_tx_instant r), print_unsigned (r_key_manifest_version r)] @ root_ids (r_history_roots r)"
proof -
  have "lines (roots_lines (r_history_roots r)) = root_ids (r_history_roots r)"
    using lines_roots(1) [of "r_history_roots r" "[]"] assms by (simp add: root_wf_def)
  moreover have "lines (ROOT_HEADER @ print_unsigned (r_format_version r) @ newline # t) =
      (ROOT_HEADER @ print_unsigned (r_format_version r)) # lines t" for t
    using lines_line [OF header_safe] by simp
  ultimately show ?thesis using assms
    by (simp add: root_text_def root_wf_def field_ok_def lines_line lines_field lines_roots)
qed

lemma root_text_valid: "root_wf r \<Longrightarrow> utf8_valid (root_encode r)"
proof -
  assume r: "root_wf r"
  have f: "valid_str (field_line s)" if "field_ok s" for s
    using that by (auto simp: field_line_def field_ok_def valid_str_ascii intro: valid_str_append)
  have "valid_str (root_text r)" unfolding root_text_def
    using r f by (intro valid_str_append) (auto simp: root_wf_def valid_str_ascii lines_roots ROOT_HEADER_def)
  then show ?thesis by (simp add: root_encode_def valid_str_def)
qed

lemma root_decode_encode:
  assumes "root_wf r"
  shows "root_decode (root_encode r) = Some r"
proof -
  obtain a b c d where roots: "root_ids (r_roots r) = [a, b, c, d]" by (rule four_ids)
  obtain a' b' c' d' where history: "root_ids (r_history_roots r) = [a', b', c', d']" by (rule four_ids)
  define owner where "owner = (if r_owner r = [] then ''-'' else r_owner r)"
  define endpoint where "endpoint = (if r_owner_endpoint r = [] then ''-'' else r_owner_endpoint r)"
  have fields: "parse_field owner = r_owner r" "parse_field endpoint = r_owner_endpoint r"
      "decode_roots [a, b, c, d] = Some (r_roots r)" "decode_roots [a', b', c', d'] = Some (r_history_roots r)"
    using assms lines_roots(2) [of "r_roots r"] lines_roots(2) [of "r_history_roots r"]
    by (simp_all add: owner_def endpoint_def parse_field_ok root_wf_def roots history)
  have "decode_lines (lines (root_text r)) = Some r"
    unfolding lines_root_text [OF assms] owner_def [symmetric] endpoint_def [symmetric] roots history
    by (simp add: decode_lines_def decode_header_def next_line_def strip_prefix_def unwrap_or_def Let_def numeral_eq_Suc fields)
  then show ?thesis using root_text_valid [OF assms] by (simp add: root_decode_def root_encode_def)
qed
text \<open>The record before the header line existed: the fence, the basis and four ids.\<close>

definition legacy_root_text :: "u64 \<Rightarrow> u64 \<Rightarrow> index_roots option \<Rightarrow> string" where
  "legacy_root_text v t roots = print_unsigned v @ [newline] @ print_unsigned t @ [newline] @ roots_lines roots"

lemma not_header: "strip_prefix ROOT_HEADER (print_unsigned v) = None"
proof -
  obtain c cs where d: "dec (unat v) = c # cs" by (rule dec_Cons)
  have "c \<in> set (dec (unat v))" by (simp add: d)
  then have "(of_char c :: nat) \<le> 57" using of_char_dec by blast
  then have "c \<noteq> CHR ''c''" by auto
  then show ?thesis by (simp add: strip_prefix_def ROOT_HEADER_def print_unsigned_def d)
qed

lemma root_decode_legacy:
  assumes "roots_ok roots"
  shows "root_decode (str_bytes (legacy_root_text v t roots)) = Some
    \<lparr>r_format_version = 1, r_lease_version = v, r_owner = [], r_lease_expires = 0, r_owner_endpoint = [],
     r_index_basis_t = t, r_roots = roots, r_history_roots = None, r_next_entity_id = 0,
     r_last_tx_instant = I64_MIN, r_key_manifest_version = 0\<rparr>"
proof -
  obtain a b c d where roots: "root_ids roots = [a, b, c, d]" by (rule four_ids)
  have dec: "decode_roots [a, b, c, d] = Some roots" using lines_roots(2) [OF assms] by (simp add: roots)
  have "lines (legacy_root_text v t roots) = [print_unsigned v, print_unsigned t, a, b, c, d]"
    using lines_roots(1) [OF assms, of "[]"] by (simp add: legacy_root_text_def lines_line roots)
  moreover have "utf8_valid (str_bytes (legacy_root_text v t roots))"
    by (rule utf8_valid_ascii) (simp add: legacy_root_text_def lines_roots(3) [OF assms])
  moreover have "(1 :: u32) < 5" by simp
  ultimately show ?thesis
    by (simp add: root_decode_def decode_lines_def decode_header_def next_line_def not_header unwrap_or_def Let_def
        numeral_eq_Suc dec)
qed

text \<open>
  The root record round trips: every record whose text fields are printable lines decodes to
  itself, whatever its format version, integers at their full width included. A record from
  before the header existed decodes as format 1 with an unowned lease, no recovery hints and
  no key manifest.
\<close>

theorem root_round_trip:
  assumes "root_wf r" and "roots_ok roots"
  shows "root_decode (root_encode r) = Some r \<and>
    root_decode (str_bytes (legacy_root_text v t roots)) = Some
      \<lparr>r_format_version = 1, r_lease_version = v, r_owner = [], r_lease_expires = 0, r_owner_endpoint = [],
       r_index_basis_t = t, r_roots = roots, r_history_roots = None, r_next_entity_id = 0,
       r_last_tx_instant = I64_MIN, r_key_manifest_version = 0\<rparr>"
  using root_decode_encode [OF assms(1)] root_decode_legacy [OF assms(2)] by blast

definition wit_root :: db_root where
  "wit_root = \<lparr>r_format_version = 5, r_lease_version = 1, r_owner = ''a'', r_lease_expires = 60, r_owner_endpoint = [],
     r_index_basis_t = 0, r_roots = None, r_history_roots = None, r_next_entity_id = 0,
     r_last_tx_instant = I64_MIN, r_key_manifest_version = 0\<rparr>"

lemma root_wf_wit_root: "root_wf wit_root"
  by (simp add: wit_root_def root_wf_def field_ok_def valid_str_ascii line_safe_def)

theorem root_round_trip_witness:
  "root_decode (root_encode wit_root) = Some wit_root \<and>
   map_option r_owner (root_decode (str_bytes (legacy_root_text 3 0 None))) = Some []"
  using root_round_trip [OF root_wf_wit_root, of None 3 0] by simp

end
