(* ===== verification/Blob_Store.thy ===== *)
theory Blob_Store
  imports Db_Root Ordered_Map
begin

text \<open>
  Blob and root stores (crates/corium-store/src/lib.rs): the contract of the two storage traits,
  the in-memory store that implements both, and garbage collection over any store that keeps
  the contract. The content digest is a parameter.
\<close>

subsection \<open>Errors\<close>

text \<open>The errors raised by the operations modelled here; a backend's own failures are \<open>Io\<close>.\<close>

datatype store_error =
    Io string
  | CasFailed "bytes option" "bytes option"
  | MissingBlob blob_id

subsection \<open>The in-memory store\<close>

record memory_store =
  ms_blobs :: "(blob_id, bytes) omap"
  ms_roots :: "(string, bytes) omap"

definition memory_new :: memory_store where
  "memory_new = \<lparr>ms_blobs = om_empty, ms_roots = om_empty\<rparr>"

definition mem_put :: "(bytes \<Rightarrow> blob_id) \<Rightarrow> memory_store \<Rightarrow> bytes \<Rightarrow> store_error + blob_id \<times> memory_store" where
  "mem_put digest s bytes = Inr (digest bytes, s\<lparr>ms_blobs := om_insert (digest bytes) bytes (ms_blobs s)\<rparr>)"

definition mem_get :: "memory_store \<Rightarrow> blob_id \<Rightarrow> store_error + bytes option" where
  "mem_get s i = Inr (om_get (ms_blobs s) i)"

definition mem_delete :: "memory_store \<Rightarrow> blob_id \<Rightarrow> store_error + memory_store" where
  "mem_delete s i = Inr (s\<lparr>ms_blobs := om_remove i (ms_blobs s)\<rparr>)"

definition mem_list :: "memory_store \<Rightarrow> store_error + blob_id list" where
  "mem_list s = Inr (om_keys (ms_blobs s))"

text \<open>The default \<open>modified_at\<close> of the trait: no timestamps.\<close>

definition mem_modified_at :: "memory_store \<Rightarrow> blob_id \<Rightarrow> store_error + nat option" where
  "mem_modified_at s i = Inr None"

definition mem_get_root :: "memory_store \<Rightarrow> string \<Rightarrow> store_error + bytes option" where
  "mem_get_root s name = Inr (om_get (ms_roots s) name)"

definition mem_cas_root :: "memory_store \<Rightarrow> string \<Rightarrow> bytes option \<Rightarrow> bytes \<Rightarrow> store_error + memory_store" where
  "mem_cas_root s name expected bytes =
    (let actual = om_get (ms_roots s) name
     in if actual \<noteq> expected then Inl (CasFailed expected actual)
        else Inr (s\<lparr>ms_roots := om_insert name bytes (ms_roots s)\<rparr>))"

definition mem_delete_root :: "memory_store \<Rightarrow> string \<Rightarrow> store_error + memory_store" where
  "mem_delete_root s name = Inr (s\<lparr>ms_roots := om_remove name (ms_roots s)\<rparr>)"

definition mem_list_roots :: "memory_store \<Rightarrow> string \<Rightarrow> store_error + string list" where
  "mem_list_roots s p = Inr (filter (prefix p) (om_keys (ms_roots s)))"

text \<open>The provided methods of the blob trait.\<close>

definition blob_contains :: "('s \<Rightarrow> blob_id \<Rightarrow> store_error + bytes option) \<Rightarrow> 's \<Rightarrow> blob_id \<Rightarrow> store_error + bool" where
  "blob_contains get s i = bindr (get s i) (\<lambda>b. Inr (b \<noteq> None))"

definition put_if_absent ::
    "(bytes \<Rightarrow> blob_id) \<Rightarrow> ('s \<Rightarrow> blob_id \<Rightarrow> store_error + bytes option) \<Rightarrow> ('s \<Rightarrow> bytes \<Rightarrow> store_error + blob_id \<times> 's)
      \<Rightarrow> 's \<Rightarrow> bytes \<Rightarrow> store_error + blob_id \<times> 's" where
  "put_if_absent digest get put s bytes =
    (let i = digest bytes
     in bindr (blob_contains get s i) (\<lambda>present. if present then Inr (i, s) else put s bytes))"

subsection \<open>Mark and sweep\<close>

record gc_report =
  gc_marked :: nat
  gc_swept :: nat
  gc_retained :: nat

text \<open>
  The mark walk. \<open>pending\<close> is the stack with its top first; a blob is marked before it is read.
  A walk that never ends has no value.
\<close>

partial_function (option) mark_reachable ::
    "(blob_id \<Rightarrow> store_error + bytes option) \<Rightarrow> (blob_id \<Rightarrow> bytes \<Rightarrow> store_error + blob_id list)
      \<Rightarrow> blob_id list \<Rightarrow> blob_id oset \<Rightarrow> (store_error + blob_id oset) option" where
  [code]: "mark_reachable get children pending marked = (case pending of
     [] \<Rightarrow> Some (Inr marked)
   | i # pending \<Rightarrow>
      if os_member i marked then mark_reachable get children pending marked
      else case bindr (get i) (ok_or (MissingBlob i)) of
        Inl e \<Rightarrow> Some (Inl e)
      | Inr bytes \<Rightarrow> (case children i bytes of
          Inl e \<Rightarrow> Some (Inl e)
        | Inr cs \<Rightarrow> mark_reachable get children (rev cs @ pending) (os_insert i marked)))"

text \<open>Whether an unmarked blob may go: durations are a number of ticks, a later modification counts as age 0.\<close>

definition old_enough :: "nat \<Rightarrow> nat \<Rightarrow> nat option \<Rightarrow> bool" where
  "old_enough retention now modified \<longleftrightarrow> (case modified of None \<Rightarrow> False | Some m \<Rightarrow> retention \<le> now - m)"

definition sweep_step ::
    "('s \<Rightarrow> blob_id \<Rightarrow> store_error + 's) \<Rightarrow> ('s \<Rightarrow> blob_id \<Rightarrow> store_error + nat option) \<Rightarrow> blob_id oset \<Rightarrow> nat \<Rightarrow> nat
      \<Rightarrow> blob_id \<Rightarrow> 's \<times> nat \<times> nat \<Rightarrow> store_error + 's \<times> nat \<times> nat" where
  "sweep_step del modified_at marked retention now i = (\<lambda>(s, swept, retained).
     if os_member i marked then Inr (s, swept, retained)
     else bindr (if retention = 0 then Inr True
                 else bindr (modified_at s i) (\<lambda>m. Inr (old_enough retention now m))) (\<lambda>old.
       if old then bindr (del s i) (\<lambda>s. Inr (s, swept + 1, retained))
       else Inr (s, swept, retained + 1)))"

fun sweep_loop ::
    "('s \<Rightarrow> blob_id \<Rightarrow> store_error + 's) \<Rightarrow> ('s \<Rightarrow> blob_id \<Rightarrow> store_error + nat option) \<Rightarrow> blob_id oset \<Rightarrow> nat \<Rightarrow> nat
      \<Rightarrow> blob_id list \<Rightarrow> 's \<times> nat \<times> nat \<Rightarrow> store_error + 's \<times> nat \<times> nat" where
  "sweep_loop del modified_at marked retention now [] st = Inr st"
| "sweep_loop del modified_at marked retention now (i # ids) st =
    bindr (sweep_step del modified_at marked retention now i st) (sweep_loop del modified_at marked retention now ids)"

definition sweep_unmarked ::
    "('s \<Rightarrow> store_error + blob_id list) \<Rightarrow> ('s \<Rightarrow> blob_id \<Rightarrow> store_error + 's)
      \<Rightarrow> ('s \<Rightarrow> blob_id \<Rightarrow> store_error + nat option) \<Rightarrow> 's \<Rightarrow> blob_id oset \<Rightarrow> nat \<Rightarrow> nat \<Rightarrow> store_error + gc_report \<times> 's" where
  "sweep_unmarked lst del modified_at s marked retention now =
    bindr (lst s) (\<lambda>ids.
    bindr (sweep_loop del modified_at marked retention now ids (s, 0, 0)) (\<lambda>(s, swept, retained).
      Inr (\<lparr>gc_marked = om_size marked, gc_swept = swept, gc_retained = retained\<rparr>, s)))"

definition mark_and_sweep_retained ::
    "('s \<Rightarrow> blob_id \<Rightarrow> store_error + bytes option) \<Rightarrow> ('s \<Rightarrow> store_error + blob_id list) \<Rightarrow> ('s \<Rightarrow> blob_id \<Rightarrow> store_error + 's)
      \<Rightarrow> ('s \<Rightarrow> blob_id \<Rightarrow> store_error + nat option) \<Rightarrow> 's \<Rightarrow> blob_id list \<Rightarrow> (blob_id \<Rightarrow> bytes \<Rightarrow> store_error + blob_id list)
      \<Rightarrow> nat \<Rightarrow> nat \<Rightarrow> (store_error + gc_report \<times> 's) option" where
  "mark_and_sweep_retained get lst del modified_at s live_roots children retention now =
    map_option (\<lambda>r. bindr r (\<lambda>marked. sweep_unmarked lst del modified_at s marked retention now))
      (mark_reachable (get s) children (rev live_roots) om_empty)"

subsection \<open>Reachability\<close>

text \<open>The blobs reachable from a set of roots through the references their contents decode to.\<close>

inductive blob_reaches ::
    "(blob_id \<Rightarrow> bytes option) \<Rightarrow> (blob_id \<Rightarrow> bytes \<Rightarrow> store_error + blob_id list) \<Rightarrow> blob_id set \<Rightarrow> blob_id \<Rightarrow> bool"
  for content children roots where
  reaches_root: "i \<in> roots \<Longrightarrow> blob_reaches content children roots i"
| reaches_child: "blob_reaches content children roots i \<Longrightarrow> content i = Some bytes \<Longrightarrow> children i bytes = Inr cs \<Longrightarrow>
    c \<in> set cs \<Longrightarrow> blob_reaches content children roots c"

lemma blob_reaches_mono: "blob_reaches content children A i \<Longrightarrow> A \<subseteq> B \<Longrightarrow> blob_reaches content children B i"
  by (induction rule: blob_reaches.induct) (blast intro: blob_reaches.intros)+

lemma blob_reaches_trans:
  "blob_reaches content children A i \<Longrightarrow> (\<And>a. a \<in> A \<Longrightarrow> blob_reaches content children B a) \<Longrightarrow>
    blob_reaches content children B i"
  by (induction rule: blob_reaches.induct) (blast intro: blob_reaches.intros)+

lemma blob_reaches_closed:
  assumes "blob_reaches content children roots i" and "roots \<subseteq> M"
    and "\<And>i bytes cs. i \<in> M \<Longrightarrow> content i = Some bytes \<Longrightarrow> children i bytes = Inr cs \<Longrightarrow> set cs \<subseteq> M"
  shows "i \<in> M"
  using assms(1) by induction (use assms(2,3) in blast)+

text \<open>What a mark walk that returns has done.\<close>

definition mark_post ::
    "(blob_id \<Rightarrow> bytes option) \<Rightarrow> (blob_id \<Rightarrow> bytes \<Rightarrow> store_error + blob_id list) \<Rightarrow> blob_id set \<Rightarrow> blob_id set \<Rightarrow> blob_id set \<Rightarrow> bool" where
  "mark_post content children P M M' \<longleftrightarrow> M \<subseteq> M' \<and> P \<subseteq> M' \<and>
     (\<forall>i \<in> M' - M. \<exists>bytes cs. content i = Some bytes \<and> children i bytes = Inr cs \<and> set cs \<subseteq> M') \<and>
     (\<forall>i \<in> M'. i \<in> M \<or> blob_reaches content children P i)"

lemma mark_post_skip: "mark_post content children P M M' \<Longrightarrow> i \<in> M \<Longrightarrow> mark_post content children (insert i P) M M'"
  unfolding mark_post_def using blob_reaches_mono [of content children P _ "insert i P"] by blast

lemma mark_post_visit:
  assumes post: "mark_post content children (set cs \<union> P) (insert i M) M'"
    and i: "content i = Some bytes" "children i bytes = Inr cs"
  shows "mark_post content children (insert i P) M M'"
proof -
  have M': "insert i M \<subseteq> M'" "set cs \<union> P \<subseteq> M'" using post by (simp_all add: mark_post_def)
  have root: "blob_reaches content children (insert i P) i" by (rule reaches_root) simp
  have step: "blob_reaches content children (insert i P) j" if "j \<in> set cs \<union> P" for j
    using that reaches_child [OF root i] reaches_root [of j "insert i P" content children] by blast
  have "blob_reaches content children (insert i P) j" if "j \<in> M'" "j \<notin> M" for j
  proof (cases "j = i")
    case False
    then have "blob_reaches content children (set cs \<union> P) j" using post that unfolding mark_post_def by blast
    from blob_reaches_trans [OF this step] show ?thesis .
  qed (use root in simp)
  moreover have "\<exists>bytes cs. content j = Some bytes \<and> children j bytes = Inr cs \<and> set cs \<subseteq> M'" if "j \<in> M' - M" for j
  proof (cases "j = i")
    case True
    then show ?thesis using i M' by auto
  next
    case False
    then have "j \<in> M' - insert i M" using that by simp
    then show ?thesis using post unfolding mark_post_def by blast
  qed
  ultimately show ?thesis using M' unfolding mark_post_def by auto
qed

lemma mark_reachable_post:
  assumes "mark_reachable get children pending marked = Some y"
  shows "y = Inr m \<Longrightarrow> (\<And>i r. get i = Inr r \<Longrightarrow> r = content i) \<Longrightarrow>
    mark_post content children (set pending) (os_set marked) (os_set m)"
proof (induction rule: mark_reachable.raw_induct [OF _ assms])
  case (1 mark get children pending marked y)
  show ?case
  proof (cases pending)
    case Nil
    then show ?thesis using "1.prems" "1.hyps" by (auto simp: mark_post_def)
  next
    case (Cons i rest)
    show ?thesis
    proof (cases "os_member i marked")
      case True
      then have "mark get children rest marked = Some y" using "1.hyps" Cons by simp
      from mark_post_skip [OF "1.IH" [OF this "1.prems"]] True show ?thesis by (simp add: Cons os_set_def)
    next
      case False
      then obtain bytes cs where v: "get i = Inr (Some bytes)" "children i bytes = Inr cs"
          and rec: "mark get children (rev cs @ rest) (os_insert i marked) = Some y"
        using "1.hyps" "1.prems"(1) Cons by (auto split: sum.splits simp: bindr_eq_Inr ok_or_eq_Inr)
      have "mark_post content children (set cs \<union> set rest) (insert i (os_set marked)) (os_set m)"
        using "1.IH" [OF rec "1.prems"] by simp
      from mark_post_visit [OF this _ v(2)] "1.prems"(2) [OF v(1)] show ?thesis by (simp add: Cons)
    qed
  qed
qed

lemma mark_reachable_exact:
  assumes "mark_reachable get children pending om_empty = Some (Inr m)" and "\<And>i r. get i = Inr r \<Longrightarrow> r = content i"
  shows "os_set m = {i. blob_reaches content children (set pending) i}"
proof -
  have post: "mark_post content children (set pending) {} (os_set m)"
    using mark_reachable_post [OF assms(1) refl assms(2)] by simp
  then have "i \<in> os_set m" if "blob_reaches content children (set pending) i" for i
    using blob_reaches_closed [OF that, of "os_set m"] unfolding mark_post_def
    by (metis Diff_empty option.inject sum.inject(2))
  with post show ?thesis unfolding mark_post_def by blast
qed

text \<open>The walk fails only at a reachable blob that is missing or does not decode.\<close>

lemma mark_reachable_fails:
  assumes "mark_reachable get children pending marked = Some y"
  shows "y = Inl e \<Longrightarrow> (\<And>i. get i = Inr (content i)) \<Longrightarrow>
    \<exists>i. blob_reaches content children (set pending) i \<and>
      (content i = None \<and> e = MissingBlob i \<or> (\<exists>bytes. content i = Some bytes \<and> children i bytes = Inl e))"
proof (induction rule: mark_reachable.raw_induct [OF _ assms])
  case (1 mark get children pending marked y)
  show ?case
  proof (cases pending)
    case Nil
    then show ?thesis using "1.prems" "1.hyps" by auto
  next
    case (Cons i rest)
    have root: "blob_reaches content children (set pending) i" by (rule reaches_root) (simp add: Cons)
    show ?thesis
    proof (cases "os_member i marked")
      case True
      then have "mark get children rest marked = Some y" using "1.hyps" Cons by simp
      from "1.IH" [OF this "1.prems"] show ?thesis
        using blob_reaches_mono [of content children "set rest" _ "set pending"] Cons by auto
    next
      case no: False
      consider "content i = None" "y = Inl (MissingBlob i)"
        | bytes e' where "content i = Some bytes" "children i bytes = Inl e'" "y = Inl e'"
        | bytes cs where "content i = Some bytes" "children i bytes = Inr cs"
            "mark get children (rev cs @ rest) (os_insert i marked) = Some y"
        using "1.hyps" "1.prems"(2) no Cons
        by (cases "content i"; cases "children i (the (content i))") auto
      then show ?thesis
      proof cases
        case 3
        have "blob_reaches content children (set pending) j" if "j \<in> set (rev cs @ rest)" for j
          using that reaches_child [OF root 3(1,2)] reaches_root [of j "set pending" content children] by (auto simp: Cons)
        then show ?thesis
          using "1.IH" [OF 3(3) "1.prems"] blob_reaches_trans [of content children "set (rev cs @ rest)" _ "set pending"] by blast
      qed (use root "1.prems"(1) in auto)
    qed
  qed
qed

text \<open>
  The walk ends: every step either drops a pending id or marks a blob the store holds, so over
  a store of finitely many blobs it returns, with a result or with the error it met.
\<close>

lemma mark_reachable_ends:
  assumes "finite {i. \<exists>bytes. get i = Inr (Some bytes)}"
  shows "\<exists>y. mark_reachable get children pending marked = Some y"
proof (induction "(card ({i. \<exists>bytes. get i = Inr (Some bytes)} - os_set marked), length pending)"
    arbitrary: pending marked rule: wf_induct_rule [OF wf_lex_prod [OF wf_less_than wf_less_than]])
  case (1 pending marked)
  show ?case
  proof (cases pending)
    case Nil
    then show ?thesis by (subst mark_reachable.simps) simp
  next
    case (Cons i rest)
    show ?thesis
    proof (cases "os_member i marked")
      case True
      have "\<exists>y. mark_reachable get children rest marked = Some y"
        by (rule "1.hyps") (simp add: Cons)
      then show ?thesis using True Cons by (subst mark_reachable.simps) simp
    next
      case False
      have "\<exists>y. mark_reachable get children (rev cs @ rest) (os_insert i marked) = Some y" if "get i = Inr (Some bytes)" for bytes cs
      proof (rule "1.hyps")
        have "card ({i. \<exists>bytes. get i = Inr (Some bytes)} - os_set (os_insert i marked)) <
            card ({i. \<exists>bytes. get i = Inr (Some bytes)} - os_set marked)"
          by (rule psubset_card_mono) (use assms that False in \<open>auto simp: os_set_def\<close>)
        then show "((card ({i. \<exists>bytes. get i = Inr (Some bytes)} - os_set (os_insert i marked)), length (rev cs @ rest)),
            card ({i. \<exists>bytes. get i = Inr (Some bytes)} - os_set marked), length pending) \<in> less_than <*lex*> less_than"
          by simp
      qed
      then show ?thesis using False Cons
        by (subst mark_reachable.simps) (auto split: sum.split simp: bindr_eq_Inr ok_or_eq_Inr)
    qed
  qed
qed

subsection \<open>The contract of a blob store\<close>

text \<open>
  \<open>content\<close> is what the store holds: a read returns it, a delete removes one blob and nothing else,
  a listing names every blob once.
\<close>

locale blob_store =
  fixes content :: "'s \<Rightarrow> blob_id \<Rightarrow> bytes option"
    and get :: "'s \<Rightarrow> blob_id \<Rightarrow> store_error + bytes option"
    and put :: "'s \<Rightarrow> bytes \<Rightarrow> store_error + blob_id \<times> 's"
    and del :: "'s \<Rightarrow> blob_id \<Rightarrow> store_error + 's"
    and lst :: "'s \<Rightarrow> store_error + blob_id list"
    and digest :: "bytes \<Rightarrow> blob_id"
  assumes get_content: "get s i = Inr r \<Longrightarrow> r = content s i"
    and put_content: "put s bytes = Inr (i, s') \<Longrightarrow> i = digest bytes \<and> content s' = (content s)(i \<mapsto> bytes)"
    and del_content: "del s i = Inr s' \<Longrightarrow> content s' = (content s)(i := None)"
    and list_content: "lst s = Inr ids \<Longrightarrow> set ids = dom (content s) \<and> distinct ids"
begin

lemma sweep_step_content:
  assumes "sweep_step del modified_at marked retention now i (s, sw, re) = Inr (s', sw', re')"
  shows "content s' = (if i \<notin> os_set marked \<and>
      (retention = 0 \<or> (\<exists>m. modified_at s i = Inr m \<and> old_enough retention now m)) then (content s)(i := None) else content s) \<and>
    (s' = s \<or> del s i = Inr s')"
proof (cases "os_member i marked")
  case False
  then obtain old where old: "(if retention = 0 then Inr True
      else bindr (modified_at s i) (\<lambda>m. Inr (old_enough retention now m))) = Inr old"
    and rest: "(if old then bindr (del s i) (\<lambda>s. Inr (s, sw + 1, re)) else Inr (s, sw, re + 1)) = Inr (s', sw', re')"
    using assms by (auto simp: sweep_step_def bindr_eq_Inr)
  have old_iff: "old \<longleftrightarrow> retention = 0 \<or> (\<exists>m. modified_at s i = Inr m \<and> old_enough retention now m)"
    using old by (auto simp: bindr_eq_Inr split: if_splits)
  show ?thesis
  proof (cases old)
    case True
    then have "del s i = Inr s'" using rest by (auto simp: bindr_eq_Inr)
    then show ?thesis using True False old_iff del_content by (simp add: os_set_def)
  next
    case no: False
    then have "s' = s" using rest by simp
    then show ?thesis using no False unfolding old_iff by auto
  qed
qed (use assms in \<open>simp add: sweep_step_def os_set_def\<close>)

lemma sweep_loop_content:
  assumes "sweep_loop del modified_at marked retention now ids (s, sw, re) = Inr (s', sw', re')" and "distinct ids"
    and mod: "\<And>s i s'. del s i = Inr s' \<Longrightarrow> modified_at s' = modified_at s"
  shows "content s' x = (if x \<in> set ids \<and> x \<notin> os_set marked \<and>
      (retention = 0 \<or> (\<exists>m. modified_at s x = Inr m \<and> old_enough retention now m)) then None else content s x)"
  using assms(1,2)
proof (induction ids arbitrary: s sw re)
  case (Cons i ids)
  obtain s1 sw1 re1 where step: "sweep_step del modified_at marked retention now i (s, sw, re) = Inr (s1, sw1, re1)"
    and rest: "sweep_loop del modified_at marked retention now ids (s1, sw1, re1) = Inr (s', sw', re')"
    using Cons.prems(1) by (auto simp: bindr_eq_Inr)
  have m: "modified_at s1 = modified_at s" using sweep_step_content [OF step] mod by metis
  show ?case
    using Cons.IH [OF rest] Cons.prems(2) sweep_step_content [OF step, THEN conjunct1] unfolding m
    by (cases "x = i") auto
qed simp

lemma collection:
  assumes "mark_and_sweep_retained get lst del modified_at s live children retention now = Some (Inr (report, s'))"
    and mod: "\<And>s i s'. del s i = Inr s' \<Longrightarrow> modified_at s' = modified_at s"
  shows "content s' = (\<lambda>i. if blob_reaches (content s) children (set live) i \<or>
      retention \<noteq> 0 \<and> \<not> (\<exists>m. modified_at s i = Inr m \<and> old_enough retention now m) then content s i else None) \<and>
    gc_marked report = card {i. blob_reaches (content s) children (set live) i}"
proof -
  obtain m where mark: "mark_reachable (get s) children (rev live) om_empty = Some (Inr m)"
    and sweep: "sweep_unmarked lst del modified_at s m retention now = Inr (report, s')"
    using assms(1) by (auto simp: mark_and_sweep_retained_def bindr_eq_Inr)
  have reach: "os_set m = {i. blob_reaches (content s) children (set live) i}"
    using mark_reachable_exact [OF mark, of "content s"] get_content by simp
  obtain ids sw re where ids: "lst s = Inr ids" and loop: "sweep_loop del modified_at m retention now ids (s, 0, 0) = Inr (s', sw, re)"
    and report: "gc_marked report = om_size m"
    using sweep by (auto simp: sweep_unmarked_def bindr_eq_Inr)
  note all = list_content [OF ids]
  have "content s i = None" if "i \<notin> set ids" for i using all that by (auto simp: dom_def)
  then have "content s' x = (if blob_reaches (content s) children (set live) x \<or>
      retention \<noteq> 0 \<and> \<not> (\<exists>m. modified_at s x = Inr m \<and> old_enough retention now m) then content s x else None)" for x
    using sweep_loop_content [OF loop _ mod, where x = x] all reach by auto
  then show ?thesis using report reach by (auto simp: om_size_os_set)
qed

text \<open>Storing a blob whose id stands for no other blob puts it there, or finds it there.\<close>

lemma put_if_absent_content:
  assumes "put_if_absent digest get put s bytes = Inr (i, s')"
    and "\<And>bytes'. content s (digest bytes) = Some bytes' \<Longrightarrow> bytes' = bytes"
  shows "i = digest bytes \<and> content s' = (content s)(i \<mapsto> bytes)"
proof -
  obtain r where r: "get s (digest bytes) = Inr r" and rest: "(if r \<noteq> None then Inr (digest bytes, s) else put s bytes) = Inr (i, s')"
    using assms(1) by (auto simp: put_if_absent_def blob_contains_def bindr_eq_Inr Let_def)
  show ?thesis
  proof (cases r)
    case None
    then show ?thesis using rest put_content by simp
  next
    case (Some bytes')
    then have "content s (digest bytes) = Some bytes" using get_content [OF r] assms(2) by simp
    then show ?thesis using rest Some by (auto simp: fun_eq_iff)
  qed
qed

end

definition mem_content :: "memory_store \<Rightarrow> blob_id \<Rightarrow> bytes option" where
  "mem_content s = om_get (ms_blobs s)"

interpretation mem_blobs: blob_store mem_content mem_get "mem_put digest" mem_delete mem_list digest for digest
proof (unfold_locales, goal_cases)
  case (4 s ids)
  then show ?case
    using om_keys_ascending [of "ms_blobs s"] by (auto simp: mem_list_def om_keys_iff mem_content_def dom_def strict_sorted_iff)
qed (auto simp: mem_get_def mem_put_def mem_delete_def mem_content_def fun_eq_iff)

text \<open>
  C10. Garbage collection is safe, complete and total. The mark walk always returns, whatever the
  references, cycles included. A collection that succeeds keeps every blob reachable from the
  live roots as it was, and of the others exactly those that are inside the retention window
  or have no timestamp, all of them going when the window is zero. It fails only when a
  reachable blob is missing or does not decode, and then nothing is deleted.
\<close>

theorem garbage_collection:
  fixes stamp :: "blob_id \<Rightarrow> nat option"
  defines "gc \<equiv> mark_and_sweep_retained mem_get mem_list mem_delete (\<lambda>_ i. Inr (stamp i))"
  shows "(\<exists>result. gc s live children retention now = Some result) \<and>
    (\<forall>report s'. gc s live children retention now = Some (Inr (report, s')) \<longrightarrow>
      mem_content s' = (\<lambda>i. if blob_reaches (mem_content s) children (set live) i \<or>
        retention \<noteq> 0 \<and> \<not> old_enough retention now (stamp i) then mem_content s i else None) \<and>
      gc_marked report = card {i. blob_reaches (mem_content s) children (set live) i}) \<and>
    (\<forall>e. gc s live children retention now = Some (Inl e) \<longrightarrow>
      (\<exists>i. blob_reaches (mem_content s) children (set live) i \<and>
        (mem_content s i = None \<and> e = MissingBlob i \<or>
         (\<exists>bytes. mem_content s i = Some bytes \<and> children i bytes = Inl e))))"
proof (intro conjI allI impI)
  have "finite {i. \<exists>bytes. mem_get s i = Inr (Some bytes)}"
    by (rule finite_subset [of _ "set (om_keys (ms_blobs s))"]) (auto simp: mem_get_def om_keys_iff)
  from mark_reachable_ends [OF this] show "\<exists>result. gc s live children retention now = Some result"
    by (auto simp: gc_def mark_and_sweep_retained_def)
next
  fix report s' assume "gc s live children retention now = Some (Inr (report, s'))"
  from mem_blobs.collection [OF this [unfolded gc_def]]
  show "mem_content s' = (\<lambda>i. if blob_reaches (mem_content s) children (set live) i \<or>
        retention \<noteq> 0 \<and> \<not> old_enough retention now (stamp i) then mem_content s i else None)"
    and "gc_marked report = card {i. blob_reaches (mem_content s) children (set live) i}" by simp_all
next
  fix e assume "gc s live children retention now = Some (Inl e)"
  moreover have "sweep_unmarked mem_list mem_delete (\<lambda>_ i. Inr (stamp i)) s m retention now \<noteq> Inl e" for m
  proof -
    have "\<exists>r. sweep_loop mem_delete (\<lambda>_ i. Inr (stamp i)) m retention now ids st = Inr r" for ids st
      by (induction ids arbitrary: st) (auto simp: sweep_step_def mem_delete_def split: prod.split)
    then show ?thesis by (metis (no_types, lifting) sweep_unmarked_def mem_list_def bindr_simps(2) old.prod.exhaust case_prod_conv sum.distinct(2))
  qed
  ultimately have "mark_reachable (mem_get s) children (rev live) om_empty = Some (Inl e)"
    by (auto simp: gc_def mark_and_sweep_retained_def bindr_eq_Inl)
  from mark_reachable_fails [OF this refl, of "mem_content s"]
  show "\<exists>i. blob_reaches (mem_content s) children (set live) i \<and>
        (mem_content s i = None \<and> e = MissingBlob i \<or> (\<exists>bytes. mem_content s i = Some bytes \<and> children i bytes = Inl e))"
    by (simp add: mem_get_def mem_content_def)
qed

definition wit_blobs :: memory_store where
  "wit_blobs = memory_new\<lparr>ms_blobs := om_insert ''a'' [1] (om_insert ''b'' [2] (om_insert ''c'' [3] om_empty))\<rparr>"

definition wit_children :: "blob_id \<Rightarrow> bytes \<Rightarrow> store_error + blob_id list" where
  "wit_children i bytes = Inr (if i = ''a'' then [''b''] else if i = ''b'' then [''a''] else [])"

theorem garbage_collection_witness:
  "\<exists>report s'. mark_and_sweep_retained mem_get mem_list mem_delete (\<lambda>_ i. Inr None) wit_blobs [''a''] wit_children 0 0 = Some (Inr (report, s'))
    \<and> mem_content s' ''b'' = Some [2] \<and> mem_content s' ''c'' = None"
proof -
  have c: "mem_content wit_blobs ''a'' = Some [1]" "mem_content wit_blobs ''b'' = Some [2]"
    by (simp_all add: mem_content_def wit_blobs_def memory_new_def)
  have ab: "blob_reaches (mem_content wit_blobs) wit_children (set [''a'']) i \<Longrightarrow> i = ''a'' \<or> i = ''b''" for i
    by (induction rule: blob_reaches.induct) (auto simp: wit_children_def)
  have b: "blob_reaches (mem_content wit_blobs) wit_children (set [''a'']) ''b''"
    by (rule reaches_child [OF reaches_root, of "''a''" _ _ "[1]" _ "[''b'']"]) (simp_all add: c wit_children_def)
  note all = garbage_collection [where stamp = "\<lambda>_. None" and s = wit_blobs and live = "[''a'']" and children = wit_children
    and retention = 0 and now = 0]
  obtain result where r: "mark_and_sweep_retained mem_get mem_list mem_delete (\<lambda>_ i. Inr None) wit_blobs [''a''] wit_children 0 0 = Some result"
    using all by blast
  show ?thesis
  proof (cases result)
    case (Inl e)
    then obtain i where "blob_reaches (mem_content wit_blobs) wit_children (set [''a'']) i"
        "mem_content wit_blobs i = None \<or> (\<exists>bytes. wit_children i bytes = Inl e)"
      using all r by blast
    then show ?thesis using ab [of i] c by (auto simp: wit_children_def)
  next
    case (Inr rs)
    obtain report s' where rs: "rs = (report, s')" by (cases rs)
    have "mem_content s' = (\<lambda>i. if blob_reaches (mem_content wit_blobs) wit_children (set [''a'']) i \<or>
        0 \<noteq> (0 :: nat) \<and> \<not> old_enough 0 0 None then mem_content wit_blobs i else None)"
      using all r Inr rs by blast
    then have "mem_content s' ''b'' = Some [2]" "mem_content s' ''c'' = None" using b c ab [of "''c''"] by auto
    then show ?thesis using r Inr rs by blast
  qed
qed

end
