(* ===== verification/Chunk.thy ===== *)
theory Chunk
  imports Prelude
begin

text \<open>
  Where a sorted stream of index keys is cut into chunks (\<open>crates/corium-core/src/chunk.rs\<close>):
  the rule \<open>cut_after\<close>, and the chunking of a whole stream that it defines.
\<close>

definition CHUNK_TARGET_ENTRIES :: u64 where
  "CHUNK_TARGET_ENTRIES = 2048"

definition CHUNK_MIN_ENTRIES :: nat where
  "CHUNK_MIN_ENTRIES = 512"

definition CHUNK_MAX_ENTRIES :: nat where
  "CHUNK_MAX_ENTRIES = 8192"

definition boundary_hash :: "bytes \<Rightarrow> u64" where
  "boundary_hash key =
    foldl (\<lambda>hash b. (hash XOR ucast b) * 0x100000001b3) 0xcbf29ce484222325 key"

definition cut_after :: "bytes \<Rightarrow> nat \<Rightarrow> bool" where
  "cut_after key entries =
    (if entries \<ge> CHUNK_MAX_ENTRIES then True
     else entries \<ge> CHUNK_MIN_ENTRIES
       \<and> boundary_hash key mod CHUNK_TARGET_ENTRIES = CHUNK_TARGET_ENTRIES - 1)"

lemma cut_after_min: "cut_after key n \<Longrightarrow> CHUNK_MIN_ENTRIES \<le> n"
  by (auto simp: cut_after_def CHUNK_MIN_ENTRIES_def CHUNK_MAX_ENTRIES_def split: if_splits)

lemma cut_after_max: "CHUNK_MAX_ENTRIES \<le> n \<Longrightarrow> cut_after key n"
  by (simp add: cut_after_def)

text \<open>
  The chunking of a stream, with the open run so far: the reference the leaf builders are
  compared with.
\<close>

fun chunks_from :: "bytes list \<Rightarrow> bytes list \<Rightarrow> bytes list list" where
  "chunks_from run [] = (if run = [] then [] else [run])"
| "chunks_from run (k # ks) =
    (if cut_after k (length run + 1) then (run @ [k]) # chunks_from [] ks
     else chunks_from (run @ [k]) ks)"

definition chunks :: "bytes list \<Rightarrow> bytes list list" where
  "chunks ks = chunks_from [] ks"

text \<open>A chunk that ends where the rule cuts.\<close>

definition closed_run :: "bytes list \<Rightarrow> bool" where
  "closed_run run \<longleftrightarrow> run \<noteq> [] \<and> cut_after (last run) (length run)"

lemma concat_chunks_from: "concat (chunks_from run ks) = run @ ks"
  by (induction run ks rule: chunks_from.induct) auto

lemma chunks_from_eq_Nil: "chunks_from run ks = [] \<Longrightarrow> run = [] \<and> ks = []"
  using concat_chunks_from [of run ks] by simp

lemma chunks_from_nonempty: "c \<in> set (chunks_from run ks) \<Longrightarrow> c \<noteq> []"
  by (induction run ks rule: chunks_from.induct) (auto split: if_splits)

lemma chunks_from_closed:
  "c \<in> set (butlast (chunks_from run ks)) \<Longrightarrow> closed_run c"
  by (induction run ks rule: chunks_from.induct) (auto simp: closed_run_def split: if_splits)

lemma chunks_from_max:
  "length run < CHUNK_MAX_ENTRIES \<Longrightarrow> c \<in> set (chunks_from run ks) \<Longrightarrow> length c \<le> CHUNK_MAX_ENTRIES"
proof (induction run ks rule: chunks_from.induct)
  case (2 run k ks)
  have "length (run @ [k]) < CHUNK_MAX_ENTRIES" if "\<not> cut_after k (length run + 1)"
    using cut_after_max [of "length run + 1" k] that by fastforce
  moreover have "0 < CHUNK_MAX_ENTRIES" by (simp add: CHUNK_MAX_ENTRIES_def)
  ultimately show ?case using 2 by (auto split: if_splits)
qed (auto split: if_splits)

lemma closed_run_min: "closed_run run \<Longrightarrow> CHUNK_MIN_ENTRIES \<le> length run"
  by (auto simp: closed_run_def dest: cut_after_min)

text \<open>Behind a boundary the chunking starts afresh.\<close>

lemma chunks_from_append:
  "xs \<noteq> [] \<Longrightarrow> closed_run (last (chunks_from run xs)) \<Longrightarrow>
   chunks_from run (xs @ ys) = chunks_from run xs @ chunks_from [] ys"
proof (induction run xs rule: chunks_from.induct)
  case (2 run k ks)
  show ?case
  proof (cases "cut_after k (length run + 1)")
    case True
    then show ?thesis
      using 2 by (cases "ks = []") (auto split: if_splits dest: chunks_from_eq_Nil)
  next
    case False
    then have "ks \<noteq> []"
      using 2(4) by (auto simp: closed_run_def)
    with False 2 show ?thesis by simp
  qed
qed simp

end
