(* ===== verification/Index_Segment.thy ===== *)
theory Index_Segment
  imports Datom Chunk Ordered_Map
begin

text \<open>
  Index segments (\<open>crates/corium-index/src/lib.rs\<close>): a covering index as one sorted stream of
  keys, split into leaves.

  A leaf carries the identity of its allocation, \<open>leaf_id\<close>; the builder takes fresh identities
  from a counter, so that carrying a leaf over by handle keeps its identity and sealing a run
  makes a new one. The operations that allocate take the counter and return it.
  \<open>apply_borrowed\<close> walks the pending changes by a cursor; the model holds the changes from the
  cursor on.

  The contract is at the end: a segment stands for the map from facts to their current key,
  \<open>apply\<close> is the fold of the changes over that map, a history segment is a set of keys, and the
  leaves obey the size bounds of the chunking rule.
\<close>

subsection \<open>Leaves and their builder\<close>

definition RESYNC_LEAF_LIMIT :: nat where
  "RESYNC_LEAF_LIMIT = 4"

record leaf =
  leaf_id :: nat
  leaf_keys :: "bytes list"

type_synonym segment = "leaf list"

definition is_closed :: "leaf \<Rightarrow> bool" where
  "is_closed l = (case leaf_keys l of
     [] \<Rightarrow> False
   | _ # _ \<Rightarrow> cut_after (last (leaf_keys l)) (length (leaf_keys l)))"

record leaf_builder =
  b_leaves :: "leaf list"
  b_pending :: "bytes list"
  b_spilled :: nat
  b_next :: nat

definition builder_new :: "nat \<Rightarrow> leaf_builder" where
  "builder_new next = \<lparr>b_leaves = [], b_pending = [], b_spilled = 0, b_next = next\<rparr>"

definition seal :: "leaf_builder \<Rightarrow> leaf_builder" where
  "seal b = (if b_pending b \<noteq> []
     then b\<lparr>b_leaves := b_leaves b @ [\<lparr>leaf_id = b_next b, leaf_keys = b_pending b\<rparr>],
            b_pending := [], b_next := b_next b + 1\<rparr>
     else b)"

definition push :: "leaf_builder \<Rightarrow> bytes \<Rightarrow> leaf_builder" where
  "push b key =
    (let cut = cut_after key (length (b_pending b) + 1);
         b = b\<lparr>b_pending := b_pending b @ [key]\<rparr>
     in if cut then seal b else b)"

definition push_change :: "leaf_builder \<Rightarrow> bytes option \<Rightarrow> leaf_builder" where
  "push_change b key = (case key of None \<Rightarrow> b | Some key \<Rightarrow> push b key)"

definition begin_dirty :: "leaf_builder \<Rightarrow> leaf_builder" where
  "begin_dirty b = b\<lparr>b_spilled := 0\<rparr>"

definition carry :: "leaf_builder \<Rightarrow> leaf \<Rightarrow> leaf_builder" where
  "carry b l =
    (if b_pending b = [] then b\<lparr>b_spilled := 0, b_leaves := b_leaves b @ [l]\<rparr>
     else if b_spilled b \<ge> RESYNC_LEAF_LIMIT then
       (let b = seal b in b\<lparr>b_spilled := 0, b_leaves := b_leaves b @ [l]\<rparr>)
     else foldl push (b\<lparr>b_spilled := b_spilled b + 1\<rparr>) (leaf_keys l))"

definition finish :: "leaf_builder \<Rightarrow> segment \<times> nat" where
  "finish b = (let b = seal b in (b_leaves b, b_next b))"

subsection \<open>Building and reading a segment\<close>

definition from_keys :: "nat \<Rightarrow> bytes list \<Rightarrow> segment \<times> nat" where
  "from_keys next keys = finish (foldl push (builder_new next) keys)"

definition from_sorted :: "nat \<Rightarrow> index_order \<Rightarrow> datom list \<Rightarrow> segment \<times> nat" where
  "from_sorted next order datoms =
    finish (foldl (\<lambda>b d. push b (datom_key d order)) (builder_new next) datoms)"

definition seg_build :: "nat \<Rightarrow> index_order \<Rightarrow> datom list \<Rightarrow> segment \<times> nat" where
  "seg_build next order datoms =
    from_keys next (om_values (fold (\<lambda>d m.
      let key = datom_key d order in om_insert (key_components key) key m) datoms om_empty))"

definition seg_keys :: "segment \<Rightarrow> bytes list" where
  "seg_keys seg = concat (map leaf_keys seg)"

definition seg_len :: "segment \<Rightarrow> nat" where
  "seg_len seg = sum_list (map (\<lambda>l. length (leaf_keys l)) seg)"

definition seg_is_empty :: "segment \<Rightarrow> bool" where
  "seg_is_empty seg = (seg = [])"

text \<open>The number of leading elements that satisfy the predicate, as \<open>slice::partition_point\<close>.\<close>

definition partition_point :: "('a \<Rightarrow> bool) \<Rightarrow> 'a list \<Rightarrow> nat" where
  "partition_point P xs = length (takeWhile P xs)"

definition seek :: "segment \<Rightarrow> bytes \<Rightarrow> bytes list" where
  "seek seg key =
    (let leaf_idx = partition_point
           (\<lambda>l. leaf_keys l = [] \<or> last (leaf_keys l) < key) seg;
         entry_idx = (case drop leaf_idx seg of
             [] \<Rightarrow> 0 | l # _ \<Rightarrow> partition_point (\<lambda>entry. entry < key) (leaf_keys l))
     in case drop leaf_idx seg of
          [] \<Rightarrow> []
        | l # ls \<Rightarrow> drop entry_idx (leaf_keys l) @ concat (map leaf_keys ls))"

subsection \<open>Folding a transaction tail into a segment\<close>

type_synonym changes = "(bytes \<times> bytes option) list"

definition fold_changes :: "index_order \<Rightarrow> datom list \<Rightarrow> (bytes, bytes option) omap" where
  "fold_changes order changes = fold (\<lambda>d m.
     let key = datom_key d order
     in om_insert (key_components key) (if d_added d then Some key else None) m) changes om_empty"

fun drain_before :: "bytes \<Rightarrow> changes \<times> leaf_builder \<Rightarrow> changes \<times> leaf_builder" where
  "drain_before bound ([], b) = ([], b)"
| "drain_before bound ((f, c) # ps, b) =
    (if f < bound then drain_before bound (ps, push_change b c) else ((f, c) # ps, b))"

definition apply_key :: "bytes \<Rightarrow> changes \<times> leaf_builder \<Rightarrow> changes \<times> leaf_builder" where
  "apply_key key st = (case drain_before (key_components key) st of
     ([], b) \<Rightarrow> ([], push b key)
   | ((f, c) # ps, b) \<Rightarrow>
       if f = key_components key then (ps, push_change b c) else ((f, c) # ps, push b key))"

definition apply_leaf :: "bool \<Rightarrow> leaf \<Rightarrow> changes \<times> leaf_builder \<Rightarrow> changes \<times> leaf_builder" where
  "apply_leaf more_leaves l st = (case leaf_keys l of
     [] \<Rightarrow> st
   | first # _ \<Rightarrow>
      (let (ps, b) = drain_before (key_components first) st;
           touched = (case ps of [] \<Rightarrow> False
             | (f, _) # _ \<Rightarrow> f \<le> key_components (last (leaf_keys l)));
           followed = (more_leaves \<or> (\<exists>p \<in> set ps. snd p \<noteq> None))
       in if \<not> touched \<and> (is_closed l \<or> \<not> followed) then (ps, carry b l)
          else fold apply_key (leaf_keys l) (ps, begin_dirty b)))"

fun apply_leaves :: "leaf list \<Rightarrow> changes \<times> leaf_builder \<Rightarrow> changes \<times> leaf_builder" where
  "apply_leaves [] st = st"
| "apply_leaves (l # ls) st = apply_leaves ls (apply_leaf (ls \<noteq> []) l st)"

definition seg_apply :: "nat \<Rightarrow> segment \<Rightarrow> index_order \<Rightarrow> datom list \<Rightarrow> segment \<times> nat" where
  "seg_apply next seg order changes =
    (let pending = om_entries (fold_changes order changes)
     in if pending = [] then (seg, next)
        else let (rest, b) = apply_leaves seg (pending, builder_new next)
             in finish (foldl (\<lambda>b p. push_change b (snd p)) b rest))"

subsection \<open>Inserting history\<close>

fun drain_keys_before :: "bytes \<Rightarrow> bytes list \<times> leaf_builder \<Rightarrow> bytes list \<times> leaf_builder" where
  "drain_keys_before bound ([], b) = ([], b)"
| "drain_keys_before bound (k # ps, b) =
    (if k < bound then drain_keys_before bound (ps, push b k) else (k # ps, b))"

definition history_key :: "bytes \<Rightarrow> bytes list \<times> leaf_builder \<Rightarrow> bytes list \<times> leaf_builder" where
  "history_key key st = (case drain_keys_before key st of
     ([], b) \<Rightarrow> ([], push b key)
   | (k # ps, b) \<Rightarrow> if k = key then (ps, push b key) else (k # ps, push b key))"

definition history_leaf :: "bool \<Rightarrow> leaf \<Rightarrow> bytes list \<times> leaf_builder \<Rightarrow> bytes list \<times> leaf_builder" where
  "history_leaf more_leaves l st = (case leaf_keys l of
     [] \<Rightarrow> st
   | first # _ \<Rightarrow>
      (let (ps, b) = drain_keys_before first st;
           touched = (case ps of [] \<Rightarrow> False | k # _ \<Rightarrow> k \<le> last (leaf_keys l));
           followed = (more_leaves \<or> ps \<noteq> [])
       in if \<not> touched \<and> (is_closed l \<or> \<not> followed) then (ps, carry b l)
          else fold history_key (leaf_keys l) (ps, if touched then begin_dirty b else b)))"

fun history_leaves :: "leaf list \<Rightarrow> bytes list \<times> leaf_builder \<Rightarrow> bytes list \<times> leaf_builder" where
  "history_leaves [] st = st"
| "history_leaves (l # ls) st = history_leaves ls (history_leaf (ls \<noteq> []) l st)"

definition insert_history :: "nat \<Rightarrow> segment \<Rightarrow> index_order \<Rightarrow> datom list \<Rightarrow> segment \<times> nat" where
  "insert_history next seg order datoms =
    (let pending = os_elems (fold (\<lambda>d. os_insert (datom_key d order)) datoms om_empty)
     in if pending = [] then (seg, next)
        else let (rest, b) = history_leaves seg (pending, builder_new next)
             in finish (foldl push b rest))"

subsection \<open>Comparing segments\<close>

fun count_shared :: "bytes list \<Rightarrow> bytes list \<Rightarrow> nat" where
  "count_shared (l # mine) (r # theirs) =
    (if l < r then count_shared mine (r # theirs)
     else if r < l then count_shared (l # mine) theirs
     else Suc (count_shared mine theirs))"
| "count_shared mine theirs = 0"

definition shared_key_count :: "segment \<Rightarrow> segment \<Rightarrow> nat" where
  "shared_key_count seg older = count_shared (seg_keys seg) (seg_keys older)"

definition shared_leaf_count :: "segment \<Rightarrow> segment \<Rightarrow> nat" where
  "shared_leaf_count seg older =
    length (filter (\<lambda>l. leaf_id l \<in> set (map leaf_id older)) seg)"

subsection \<open>The key stream of a builder\<close>

definition b_keys :: "leaf_builder \<Rightarrow> bytes list" where
  "b_keys b = seg_keys (b_leaves b) @ b_pending b"

lemma seg_keys_simps [simp]:
  "seg_keys [] = []"
  "seg_keys (l # ls) = leaf_keys l @ seg_keys ls"
  "seg_keys (ls @ ls') = seg_keys ls @ seg_keys ls'"
  by (simp_all add: seg_keys_def)

lemma b_keys_new [simp]: "b_keys (builder_new n) = []"
  by (simp add: b_keys_def builder_new_def)

lemma b_keys_seal [simp]: "b_keys (seal b) = b_keys b"
  by (simp add: b_keys_def seal_def)

lemma b_keys_push [simp]: "b_keys (push b k) = b_keys b @ [k]"
proof -
  have "b_keys (b\<lparr>b_pending := b_pending b @ [k]\<rparr>) = b_keys b @ [k]"
    by (simp add: b_keys_def)
  then show ?thesis by (simp add: push_def Let_def)
qed

lemma b_keys_begin_dirty [simp]: "b_keys (begin_dirty b) = b_keys b"
  by (simp add: begin_dirty_def b_keys_def)

lemma b_keys_foldl_push [simp]: "b_keys (foldl push b ks) = b_keys b @ ks"
  by (induction ks arbitrary: b) simp_all

lemma b_keys_push_change [simp]:
  "b_keys (push_change b c) = b_keys b @ (case c of None \<Rightarrow> [] | Some k \<Rightarrow> [k])"
  by (simp add: push_change_def split: option.split)

lemma b_keys_foldl_push_change:
  "b_keys (foldl (\<lambda>b p. push_change b (snd p)) b ps) =
     b_keys b @ concat (map (\<lambda>p. case snd p of None \<Rightarrow> [] | Some k \<Rightarrow> [k]) ps)"
  by (induction ps arbitrary: b) simp_all

lemma seal_pending [simp]: "b_pending (seal b) = []"
  by (simp add: seal_def)

lemma b_keys_carry [simp]: "b_keys (carry b l) = b_keys b @ leaf_keys l"
proof -
  have "seg_keys (b_leaves (seal b)) = b_keys b"
    using b_keys_seal [of b] unfolding b_keys_def [of "seal b"] by simp
  moreover have "b_keys (b\<lparr>b_spilled := n\<rparr>) = b_keys b" for n
    by (simp add: b_keys_def)
  ultimately show ?thesis
    by (simp add: carry_def Let_def) (simp add: b_keys_def)
qed

lemma seg_keys_finish [simp]: "seg_keys (fst (finish b)) = b_keys b"
  using b_keys_seal [of b] unfolding b_keys_def [of "seal b"] by (simp add: finish_def Let_def)

subsection \<open>Merging changes into a stream\<close>

text \<open>
  The reference for both walks: changes sorted by what they are placed by, merged into a stream
  of keys; a change at a key's place replaces it.
\<close>

fun merge_changes :: "(bytes \<Rightarrow> bytes) \<Rightarrow> changes \<Rightarrow> bytes list \<Rightarrow> bytes list" where
  "merge_changes place [] ks = ks"
| "merge_changes place ((f, c) # ps) [] =
    (case c of None \<Rightarrow> [] | Some k \<Rightarrow> [k]) @ merge_changes place ps []"
| "merge_changes place ((f, c) # ps) (k # ks) =
    (if f < place k then (case c of None \<Rightarrow> [] | Some k \<Rightarrow> [k]) @ merge_changes place ps (k # ks)
     else if f = place k then (case c of None \<Rightarrow> [] | Some k \<Rightarrow> [k]) @ merge_changes place ps ks
     else k # merge_changes place ((f, c) # ps) ks)"

lemma merge_changes_rest:
  "merge_changes place ps [] = concat (map (\<lambda>p. case snd p of None \<Rightarrow> [] | Some k \<Rightarrow> [k]) ps)"
  by (induction place ps "[] :: bytes list" rule: merge_changes.induct) auto

lemma merge_changes_skip:
  assumes "\<And>k. k \<in> set ks \<Longrightarrow> place k < f"
  shows "merge_changes place ((f, c) # ps) (ks @ ks') = ks @ merge_changes place ((f, c) # ps) ks'"
  using assms by (induction ks) (force)+

definition stream :: "changes \<times> leaf_builder \<Rightarrow> bytes list \<Rightarrow> bytes list" where
  "stream st ks = b_keys (snd st) @ merge_changes key_components (fst st) ks"

lemma drain_before_stream: "stream (drain_before (key_components k) st) (k # ks) = stream st (k # ks)"
  by (induction "key_components k" st rule: drain_before.induct) (auto simp: stream_def)

lemma drain_before_head:
  "drain_before bound st = ((f, c) # ps, b) \<Longrightarrow> \<not> f < bound"
  by (induction bound st rule: drain_before.induct) (auto split: if_splits)

lemma apply_key_stream: "stream (apply_key k st) ks = stream st (k # ks)"
proof -
  obtain ps b where d: "drain_before (key_components k) st = (ps, b)" by fastforce
  have "stream (apply_key k st) ks = stream (ps, b) (k # ks)"
    using drain_before_head [of "key_components k" st]
    by (cases ps) (auto simp: apply_key_def d stream_def)
  then show ?thesis using drain_before_stream [of k st ks] d by simp
qed

lemma fold_apply_key_stream: "stream (fold apply_key keys st) ks = stream st (keys @ ks)"
  by (induction keys arbitrary: st) (simp_all add: apply_key_stream)

lemma apply_leaf_stream:
  assumes "sorted_wrt (<) (map key_components (leaf_keys l))"
  shows "stream (apply_leaf m l st) ks = stream st (leaf_keys l @ ks)"
proof (cases "leaf_keys l")
  case (Cons first keys)
  obtain ps b where d: "drain_before (key_components first) st = (ps, b)" by fastforce
  define dirty where "dirty \<longleftrightarrow> (case ps of [] \<Rightarrow> False | (f, _) # _ \<Rightarrow> f \<le> key_components (last (leaf_keys l)))"
  have "stream (ps, carry b l) ks = stream (ps, b) (leaf_keys l @ ks)" if "\<not> dirty"
  proof (cases ps)
    case (Cons p ps')
    obtain f c where p: "p = (f, c)" by fastforce
    have "key_components k < f" if "k \<in> set (leaf_keys l)" for k
    proof -
      have "key_components k \<le> key_components (last (leaf_keys l))"
        using assms that by (rule strict_sorted_le_last)
      also have "\<dots> < f" using \<open>\<not> dirty\<close> by (simp add: dirty_def Cons p)
      finally show ?thesis .
    qed
    then show ?thesis by (simp add: stream_def Cons p merge_changes_skip)
  qed (simp add: stream_def)
  moreover have "stream (fold apply_key (leaf_keys l) (ps, begin_dirty b)) ks = stream (ps, b) (leaf_keys l @ ks)"
    unfolding fold_apply_key_stream by (simp add: stream_def)
  ultimately have "stream (apply_leaf m l st) ks = stream (ps, b) (leaf_keys l @ ks)"
    by (simp add: apply_leaf_def Cons d dirty_def Let_def)
  then show ?thesis
    using drain_before_stream [of first st "keys @ ks"] d Cons by simp
qed (simp add: apply_leaf_def)

lemma apply_leaves_stream:
  "sorted_wrt (<) (map key_components (seg_keys seg)) \<Longrightarrow>
     stream (apply_leaves seg st) [] = stream st (seg_keys seg)"
  by (induction seg arbitrary: st) (auto simp: apply_leaf_stream sorted_wrt_append)

lemma seg_apply_keys_merge:
  assumes "sorted_wrt (<) (map key_components (seg_keys seg))"
  shows "seg_keys (fst (seg_apply n seg order ds)) =
    merge_changes key_components (om_entries (fold_changes order ds)) (seg_keys seg)"
proof -
  let ?pending = "om_entries (fold_changes order ds)"
  obtain rest b where ab: "apply_leaves seg (?pending, builder_new n) = (rest, b)" by fastforce
  show ?thesis
    using apply_leaves_stream [OF assms, of "(?pending, builder_new n)"]
    by (auto simp: seg_apply_def ab Let_def stream_def b_keys_foldl_push_change merge_changes_rest)
qed

subsection \<open>Merging changes is updating a map\<close>

abbreviation placed :: "(bytes \<Rightarrow> bytes) \<Rightarrow> bytes list \<Rightarrow> (bytes \<times> bytes) list" where
  "placed place ks \<equiv> map (\<lambda>k. (place k, k)) ks"

definition changes_ok :: "(bytes \<Rightarrow> bytes) \<Rightarrow> changes \<Rightarrow> bool" where
  "changes_ok place ps \<longleftrightarrow> ascending ps \<and> (\<forall>f k. (f, Some k) \<in> set ps \<longrightarrow> place k = f)"

text \<open>Putting a change in front of a stream that is placed after it.\<close>

abbreviation opt_key :: "bytes option \<Rightarrow> bytes list" where
  "opt_key c \<equiv> (case c of None \<Rightarrow> [] | Some k \<Rightarrow> [k])"

lemma opt_key_sorted:
  assumes "\<And>k. c = Some k \<Longrightarrow> place k = f" and "\<And>k. k \<in> set ks \<Longrightarrow> f < place k"
    and "sorted_wrt (<) (map place ks)"
  shows "sorted_wrt (<) (map place (opt_key c @ ks))"
proof (cases c)
  case (Some k)
  then have "place k = f" by (rule assms(1))
  with Some assms(2,3) show ?thesis by simp
qed (simp add: assms(3))

lemma changes_ok_Cons:
  "changes_ok place ((f, c) # ps) \<longleftrightarrow>
     (\<forall>p \<in> set ps. f < fst p) \<and> (\<forall>k. c = Some k \<longrightarrow> place k = f) \<and> changes_ok place ps"
  by (auto simp: changes_ok_def)

lemma merge_changes_places:
  "changes_ok place ps \<Longrightarrow> k \<in> set (merge_changes place ps ks) \<Longrightarrow>
     k \<in> set ks \<or> (place k, Some k) \<in> set ps"
proof (induction place ps ks rule: merge_changes.induct)
  case (2 place f c ps)
  then show ?case by (cases c) (auto simp: changes_ok_Cons)
next
  case (3 place f c ps k' ks)
  consider "f < place k'" | "\<not> f < place k'" "f = place k'" | "\<not> f < place k'" "f \<noteq> place k'" by blast
  then show ?case
  proof cases
    case 1
    with 3 show ?thesis by (cases c) (auto simp: changes_ok_Cons)
  next
    case 2
    with 3 show ?thesis by (cases c) (auto simp: changes_ok_Cons)
  next
    case x: 3
    with 3 show ?thesis by auto
  qed
qed simp

lemma merge_changes_above:
  assumes "changes_ok place ps" and "\<forall>p \<in> set ps. f < fst p" and "\<forall>k \<in> set ks. f < place k"
    and "k \<in> set (merge_changes place ps ks)"
  shows "f < place k"
  using merge_changes_places [OF assms(1,4)] assms(2,3) by force

lemma merge_changes_sorted:
  "changes_ok place ps \<Longrightarrow> sorted_wrt (<) (map place ks) \<Longrightarrow>
     sorted_wrt (<) (map place (merge_changes place ps ks))"
proof (induction place ps ks rule: merge_changes.induct)
  case (2 place f c ps)
  then have ok: "\<forall>p \<in> set ps. f < fst p" "\<And>k. c = Some k \<Longrightarrow> place k = f" "changes_ok place ps"
    by (simp_all add: changes_ok_Cons)
  show ?case unfolding merge_changes.simps
    by (rule opt_key_sorted [OF ok(2) merge_changes_above [OF ok(3,1)]]) (simp_all add: 2 ok(3))
next
  case (3 place f c ps k ks)
  then have ok: "\<forall>p \<in> set ps. f < fst p" "\<And>k. c = Some k \<Longrightarrow> place k = f" "changes_ok place ps"
    by (simp_all add: changes_ok_Cons)
  have k: "\<forall>k' \<in> set ks. place k < place k'" and ks: "sorted_wrt (<) (map place ks)"
    using 3(5) by simp_all
  consider "f < place k" | "f = place k" | "place k < f" by fastforce
  then show ?case
  proof cases
    case 1
    then have "\<forall>k' \<in> set (k # ks). f < place k'" using k by force
    from opt_key_sorted [OF ok(2) merge_changes_above [OF ok(3,1) this] 3(1) [OF 1 ok(3) 3(5)]]
    show ?thesis using 1 by simp
  next
    case 2
    then have "\<forall>k' \<in> set ks. f < place k'" and nless: "\<not> f < place k" using k by simp_all
    from opt_key_sorted [OF ok(2) merge_changes_above [OF ok(3,1) this(1)] 3(2) [OF nless 2 ok(3) ks]]
    show ?thesis using 2 by simp
  next
    case x: 3
    then have "\<forall>p \<in> set ((f, c) # ps). place k < fst p" using ok(1) by force
    note above = merge_changes_above [OF 3(4) this k]
    have n: "\<not> f < place k" "f \<noteq> place k" using x by auto
    from above 3(3) [OF n 3(4) ks] n show ?thesis by simp
  qed
qed simp

lemma map_of_placed: "map_of (placed place ks) f = Some k \<Longrightarrow> place k = f \<and> k \<in> set ks"
  by (induction ks) (auto split: if_splits)

lemma map_of_placed_None: "(\<And>k. k \<in> set ks \<Longrightarrow> place k \<noteq> f) \<Longrightarrow> map_of (placed place ks) f = None"
  by (induction ks) auto

lemma map_of_opt_key:
  assumes "\<And>k. c = Some k \<Longrightarrow> place k = f"
  shows "map_of (placed place (opt_key c @ ks)) x =
    (if x = f \<and> c \<noteq> None then c else map_of (placed place ks) x)"
proof (cases c)
  case (Some k)
  then have "place k = f" by (rule assms)
  with Some show ?thesis by auto
qed simp

lemma map_of_merge_changes:
  "changes_ok place ps \<Longrightarrow> sorted_wrt (<) (map place ks) \<Longrightarrow>
     map_of (placed place (merge_changes place ps ks)) x =
       (case map_of ps x of None \<Rightarrow> map_of (placed place ks) x | Some c \<Rightarrow> c)"
proof (induction place ps ks rule: merge_changes.induct)
  case (2 place f c ps)
  then have ok: "\<forall>p \<in> set ps. f < fst p" "\<And>k. c = Some k \<Longrightarrow> place k = f" "changes_ok place ps"
    by (simp_all add: changes_ok_Cons)
  have f: "map_of ps f = None" using ok(1) by (auto simp: map_of_eq_None_iff)
  have "map_of (placed place (merge_changes place ((f, c) # ps) [])) x =
      (if x = f \<and> c \<noteq> None then c else map_of (placed place (merge_changes place ps [])) x)"
    unfolding merge_changes.simps by (rule map_of_opt_key) (rule ok(2))
  then show ?case using f by (simp add: 2(1) [OF ok(3) 2(3)])
next
  case (3 place f c ps k ks)
  then have ok: "\<forall>p \<in> set ps. f < fst p" "\<And>k. c = Some k \<Longrightarrow> place k = f" "changes_ok place ps"
    by (simp_all add: changes_ok_Cons)
  have f: "map_of ps f = None" using ok(1) by (auto simp: map_of_eq_None_iff)
  have later: "map_of (placed place ks) y = None" if "y \<le> place k" for y
    using 3(5) that by (intro map_of_placed_None) auto
  have ks: "sorted_wrt (<) (map place ks)" using 3(5) by simp
  consider "f < place k" | "f = place k" | "place k < f" by fastforce
  then show ?case
  proof cases
    case 1
    have IH: "map_of (placed place (merge_changes place ps (k # ks))) x =
        (case map_of ps x of None \<Rightarrow> map_of (placed place (k # ks)) x | Some c \<Rightarrow> c)"
      by (rule 3(1) [OF 1 ok(3) 3(5)])
    have "map_of (placed place (merge_changes place ((f, c) # ps) (k # ks))) x =
        (if x = f \<and> c \<noteq> None then c else map_of (placed place (merge_changes place ps (k # ks))) x)"
      unfolding merge_changes.simps if_P [OF 1] by (rule map_of_opt_key) (rule ok(2))
    moreover have "map_of (placed place (k # ks)) f = None" using later [of f] 1 by simp
    ultimately show ?thesis using f by (simp only: IH) simp
  next
    case 2
    then have "\<not> f < place k" by simp
    have IH: "map_of (placed place (merge_changes place ps ks)) x =
        (case map_of ps x of None \<Rightarrow> map_of (placed place ks) x | Some c \<Rightarrow> c)"
      by (rule 3(2) [OF \<open>\<not> f < place k\<close> 2 ok(3) ks])
    have "map_of (placed place (merge_changes place ((f, c) # ps) (k # ks))) x =
        (if x = f \<and> c \<noteq> None then c else map_of (placed place (merge_changes place ps ks)) x)"
      unfolding merge_changes.simps if_not_P [OF \<open>\<not> f < place k\<close>] if_P [OF 2]
      by (rule map_of_opt_key) (rule ok(2))
    moreover have "map_of (placed place ks) f = None" using later [of f] 2 by simp
    ultimately show ?thesis using f 2 by (simp only: IH) (simp split: option.split)
  next
    case x: 3
    then have n: "\<not> f < place k" "f \<noteq> place k" by auto
    have "map_of ((f, c) # ps) (place k) = None"
      using ok(1) x by (auto simp: map_of_eq_None_iff)
    moreover have "map_of (placed place (merge_changes place ((f, c) # ps) ks)) x =
        (case map_of ((f, c) # ps) x of None \<Rightarrow> map_of (placed place ks) x | Some c \<Rightarrow> c)"
      by (rule 3(3) [OF n 3(4) ks])
    ultimately show ?thesis using n by (cases "x = place k") (simp_all split: option.split)
  qed
qed simp

subsection \<open>The contract of a segment\<close>

text \<open>A current-value segment: one key per fact, in order, in leaves of legal size.\<close>

definition leaf_sizes_ok :: "segment \<Rightarrow> bool" where
  "leaf_sizes_ok seg \<longleftrightarrow>
    (\<forall>l \<in> set seg. leaf_keys l \<noteq> [] \<and> length (leaf_keys l) \<le> CHUNK_MAX_ENTRIES)"

definition seg_wf :: "segment \<Rightarrow> bool" where
  "seg_wf seg \<longleftrightarrow> sorted_wrt (<) (map key_components (seg_keys seg)) \<and> leaf_sizes_ok seg"

text \<open>What it stands for: the current key of each fact, and the fold of changes over that.\<close>

definition seg_facts :: "segment \<Rightarrow> (bytes, bytes) omap" where
  "seg_facts seg = om_of_list (placed key_components (seg_keys seg))"

definition current_step :: "index_order \<Rightarrow> datom \<Rightarrow> (bytes, bytes) omap \<Rightarrow> (bytes, bytes) omap" where
  "current_step order d m = (let key = datom_key d order
     in if d_added d then om_insert (key_components key) key m else om_remove (key_components key) m)"

definition current_fold :: "index_order \<Rightarrow> datom list \<Rightarrow> (bytes, bytes) omap \<Rightarrow> (bytes, bytes) omap" where
  "current_fold order ds m = fold (current_step order) ds m"

lemma om_get_current_fold:
  "om_get (current_fold order ds m) f =
     (case om_get (fold_changes order ds) f of None \<Rightarrow> om_get m f | Some c \<Rightarrow> c)"
proof (induction ds rule: rev_induct)
  case (snoc d ds)
  then show ?case
    by (simp add: current_fold_def fold_changes_def current_step_def Let_def)
qed (simp add: current_fold_def fold_changes_def)

lemma fold_changes_ok: "changes_ok key_components (om_entries (fold_changes order ds))"
proof -
  have "om_get (fold_changes order ds) f = Some (Some k) \<Longrightarrow> key_components k = f" for f k
    by (induction ds rule: rev_induct)
      (auto simp: fold_changes_def Let_def split: if_splits)
  then show ?thesis by (auto simp: changes_ok_def om_entries_iff)
qed

lemma ascending_placed: "ascending (placed place ks) \<longleftrightarrow> sorted_wrt (<) (map place ks)"
  by (simp add: comp_def)

lemma seg_facts_get:
  assumes "sorted_wrt (<) (map key_components (seg_keys seg))"
  shows "om_get (seg_facts seg) f = map_of (placed key_components (seg_keys seg)) f"
  using assms by (simp add: seg_facts_def om_get_entries om_entries_of_list comp_def)

lemma seg_apply_sorted:
  "sorted_wrt (<) (map key_components (seg_keys seg)) \<Longrightarrow>
   sorted_wrt (<) (map key_components (seg_keys (fst (seg_apply n seg order ds))))"
  by (simp add: seg_apply_keys_merge merge_changes_sorted fold_changes_ok)

lemma seg_facts_apply:
  assumes "sorted_wrt (<) (map key_components (seg_keys seg))"
  shows "seg_facts (fst (seg_apply n seg order ds)) = current_fold order ds (seg_facts seg)"
proof (rule om_eqI)
  fix f
  have "om_get (seg_facts (fst (seg_apply n seg order ds))) f =
      map_of (placed key_components (merge_changes key_components
        (om_entries (fold_changes order ds)) (seg_keys seg))) f"
    using seg_facts_get [OF seg_apply_sorted [OF assms]] unfolding seg_apply_keys_merge [OF assms] .
  also have "\<dots> = om_get (current_fold order ds (seg_facts seg)) f"
    unfolding map_of_merge_changes [OF fold_changes_ok assms] om_get_current_fold
      seg_facts_get [OF assms] by (simp only: om_get_entries [of "fold_changes order ds"])
  finally show "om_get (seg_facts (fst (seg_apply n seg order ds))) f =
      om_get (current_fold order ds (seg_facts seg)) f" .
qed

text \<open>A segment's keys are recovered from the map it stands for.\<close>

lemma seg_keys_facts:
  assumes "sorted_wrt (<) (map key_components (seg_keys seg))"
  shows "om_values (seg_facts seg) = seg_keys seg"
  using assms by (simp add: seg_facts_def om_values_def om_entries_of_list comp_def)

subsection \<open>Leaf sizes and identities\<close>

definition b_ok :: "leaf set \<Rightarrow> nat \<Rightarrow> leaf_builder \<Rightarrow> bool" where
  "b_ok old n b \<longleftrightarrow> leaf_sizes_ok (b_leaves b) \<and> length (b_pending b) < CHUNK_MAX_ENTRIES \<and> n \<le> b_next b \<and>
     (\<forall>l \<in> set (b_leaves b). l \<in> old \<or> n \<le> leaf_id l \<and> leaf_id l < b_next b)"

lemma b_ok_new [simp]: "b_ok old n (builder_new n)"
  by (simp add: b_ok_def builder_new_def leaf_sizes_ok_def CHUNK_MAX_ENTRIES_def)

lemma b_ok_seal_full:
  assumes "b_ok old n b" and "length ks \<le> CHUNK_MAX_ENTRIES"
  shows "b_ok old n (seal (b\<lparr>b_pending := ks\<rparr>))"
  using assms
  by (fastforce simp: b_ok_def seal_def leaf_sizes_ok_def CHUNK_MAX_ENTRIES_def)

lemma b_ok_seal: "b_ok old n b \<Longrightarrow> b_ok old n (seal b)"
  using b_ok_seal_full [of old n b "b_pending b"] by (simp add: b_ok_def)

lemma b_ok_push: "b_ok old n b \<Longrightarrow> b_ok old n (push b k)"
proof -
  assume ok: "b_ok old n b"
  then have len: "length (b_pending b) + 1 \<le> CHUNK_MAX_ENTRIES"
    by (simp add: b_ok_def)
  show ?thesis
  proof (cases "cut_after k (length (b_pending b) + 1)")
    case True
    then show ?thesis using b_ok_seal_full [OF ok, of "b_pending b @ [k]"] len
      by (simp add: push_def)
  next
    case False
    then have "length (b_pending b) + 1 < CHUNK_MAX_ENTRIES"
      using cut_after_max [of "length (b_pending b) + 1" k] by fastforce
    with False ok show ?thesis by (simp add: push_def b_ok_def)
  qed
qed

lemma b_ok_push_change: "b_ok old n b \<Longrightarrow> b_ok old n (push_change b c)"
  by (simp add: push_change_def b_ok_push split: option.split)

lemma b_ok_foldl_push: "b_ok old n b \<Longrightarrow> b_ok old n (foldl push b ks)"
  by (induction ks arbitrary: b) (simp_all add: b_ok_push)

lemma b_ok_begin_dirty: "b_ok old n b \<Longrightarrow> b_ok old n (begin_dirty b)"
  by (simp add: b_ok_def begin_dirty_def)

lemma b_ok_add_leaf:
  "b_ok old n b \<Longrightarrow> l \<in> old \<Longrightarrow> leaf_sizes_ok [l] \<Longrightarrow>
     b_ok old n (b\<lparr>b_spilled := s, b_leaves := b_leaves b @ [l]\<rparr>)"
  by (auto simp: b_ok_def leaf_sizes_ok_def)

lemma b_ok_carry: "b_ok old n b \<Longrightarrow> l \<in> old \<Longrightarrow> leaf_sizes_ok [l] \<Longrightarrow> b_ok old n (carry b l)"
proof -
  assume ok: "b_ok old n b" "l \<in> old" "leaf_sizes_ok [l]"
  then have "b_ok old n (b\<lparr>b_spilled := s\<rparr>)" for s by (simp add: b_ok_def)
  with ok show ?thesis
    by (simp add: carry_def Let_def b_ok_add_leaf b_ok_seal b_ok_foldl_push)
qed

lemma b_ok_drain: "b_ok old n (snd st) \<Longrightarrow> b_ok old n (snd (drain_before bound st))"
  by (induction bound st rule: drain_before.induct) (simp_all add: b_ok_push_change)

lemma b_ok_apply_key: "b_ok old n (snd st) \<Longrightarrow> b_ok old n (snd (apply_key k st))"
  using b_ok_drain [of old n st "key_components k"]
  by (auto simp: apply_key_def b_ok_push b_ok_push_change split: list.splits prod.splits)

lemma b_ok_fold_apply_key: "b_ok old n (snd st) \<Longrightarrow> b_ok old n (snd (fold apply_key ks st))"
  by (induction ks arbitrary: st) (simp_all add: b_ok_apply_key)

lemma b_ok_apply_leaf:
  assumes "b_ok old n (snd st)" and "l \<in> old" and "leaf_sizes_ok [l]"
  shows "b_ok old n (snd (apply_leaf m l st))"
proof (cases "leaf_keys l")
  case (Cons first ks)
  obtain ps b where d: "drain_before (key_components first) st = (ps, b)" by fastforce
  then have "b_ok old n b" using b_ok_drain [OF assms(1), of "key_components first"] by simp
  then show ?thesis
    using assms b_ok_fold_apply_key [of old n "(ps, begin_dirty b)" "first # ks"]
    by (simp add: apply_leaf_def Cons d Let_def b_ok_carry b_ok_begin_dirty)
qed (simp add: assms apply_leaf_def)

lemma b_ok_apply_leaves:
  "b_ok old n (snd st) \<Longrightarrow> set seg \<subseteq> old \<Longrightarrow> leaf_sizes_ok seg \<Longrightarrow> b_ok old n (snd (apply_leaves seg st))"
  by (induction seg arbitrary: st) (simp_all add: b_ok_apply_leaf leaf_sizes_ok_def)

text \<open>Every leaf of the result is a leaf of the segment or a new allocation.\<close>

definition leaves_from :: "segment \<Rightarrow> nat \<Rightarrow> segment \<times> nat \<Rightarrow> bool" where
  "leaves_from seg n r \<longleftrightarrow> leaf_sizes_ok (fst r) \<and> n \<le> snd r \<and>
     (\<forall>l \<in> set (fst r). l \<in> set seg \<or> n \<le> leaf_id l \<and> leaf_id l < snd r)"

lemma leaves_from_finish: "b_ok (set seg) n b \<Longrightarrow> leaves_from seg n (finish b)"
  using b_ok_seal [of "set seg" n b] by (simp add: leaves_from_def finish_def b_ok_def Let_def)

lemma leaves_from_apply:
  assumes "leaf_sizes_ok seg"
  shows "leaves_from seg n (seg_apply n seg order ds)"
proof -
  let ?pending = "om_entries (fold_changes order ds)"
  obtain rest b where ab: "apply_leaves seg (?pending, builder_new n) = (rest, b)" by fastforce
  then have "b_ok (set seg) n b"
    using b_ok_apply_leaves [of "set seg" n "(?pending, builder_new n)" seg] assms by simp
  then have "b_ok (set seg) n (foldl (\<lambda>b p. push_change b (snd p)) b rest)"
    by (induction rest arbitrary: b) (simp_all add: b_ok_push_change)
  then show ?thesis
    using assms by (auto simp: seg_apply_def ab Let_def leaves_from_finish) (simp add: leaves_from_def)
qed

subsection \<open>History segments\<close>

text \<open>
  The walk of \<open>insert_history_ref\<close> is a merge of changes too, with every key placed by itself.
\<close>

abbreviation inserts :: "bytes list \<Rightarrow> changes" where
  "inserts ps \<equiv> map (\<lambda>k. (k, Some k)) ps"

definition hstream :: "bytes list \<times> leaf_builder \<Rightarrow> bytes list \<Rightarrow> bytes list" where
  "hstream st ks = b_keys (snd st) @ merge_changes id (inserts (fst st)) ks"

lemma drain_keys_stream: "hstream (drain_keys_before k st) (k # ks) = hstream st (k # ks)"
  by (induction k st rule: drain_keys_before.induct) (auto simp: hstream_def)

lemma drain_keys_head: "drain_keys_before bound st = (k # ps, b) \<Longrightarrow> \<not> k < bound"
  by (induction bound st rule: drain_keys_before.induct) (auto split: if_splits)

lemma history_key_stream: "hstream (history_key k st) ks = hstream st (k # ks)"
proof -
  obtain ps b where d: "drain_keys_before k st = (ps, b)" by fastforce
  have "hstream (history_key k st) ks = hstream (ps, b) (k # ks)"
    using drain_keys_head [of k st]
    by (cases ps) (auto simp: history_key_def d hstream_def)
  then show ?thesis using drain_keys_stream [of k st ks] d by simp
qed

lemma fold_history_key_stream: "hstream (fold history_key keys st) ks = hstream st (keys @ ks)"
  by (induction keys arbitrary: st) (simp_all add: history_key_stream)

lemma history_leaf_stream:
  assumes "sorted_wrt (<) (leaf_keys l)"
  shows "hstream (history_leaf m l st) ks = hstream st (leaf_keys l @ ks)"
proof (cases "leaf_keys l")
  case (Cons first keys)
  obtain ps b where d: "drain_keys_before first st = (ps, b)" by fastforce
  define dirty where "dirty \<longleftrightarrow> (case ps of [] \<Rightarrow> False | k # _ \<Rightarrow> k \<le> last (leaf_keys l))"
  have "hstream (ps, carry b l) ks = hstream (ps, b) (leaf_keys l @ ks)" if "\<not> dirty"
  proof (cases ps)
    case (Cons p ps')
    have "id k < p" if "k \<in> set (leaf_keys l)" for k
      using strict_sorted_le_last [of id "leaf_keys l" k] assms that \<open>\<not> dirty\<close>
      by (simp add: dirty_def Cons)
    then show ?thesis by (simp add: hstream_def Cons merge_changes_skip)
  qed (simp add: hstream_def)
  moreover have "hstream (fold history_key (leaf_keys l) (ps, if q then begin_dirty b else b)) ks =
      hstream (ps, b) (leaf_keys l @ ks)" for q
    unfolding fold_history_key_stream by (simp add: hstream_def)
  ultimately have "hstream (history_leaf m l st) ks = hstream (ps, b) (leaf_keys l @ ks)"
    by (simp add: history_leaf_def Cons d dirty_def Let_def)
  then show ?thesis
    using drain_keys_stream [of first st "keys @ ks"] d Cons by simp
qed (simp add: history_leaf_def)

lemma history_leaves_stream:
  "sorted_wrt (<) (seg_keys seg) \<Longrightarrow> hstream (history_leaves seg st) [] = hstream st (seg_keys seg)"
  by (induction seg arbitrary: st) (auto simp: history_leaf_stream sorted_wrt_append)

definition history_pending :: "index_order \<Rightarrow> datom list \<Rightarrow> bytes list" where
  "history_pending order ds = os_elems (fold (\<lambda>d. os_insert (datom_key d order)) ds om_empty)"

lemma history_pending_set: "set (history_pending order ds) = (\<lambda>d. datom_key d order) ` set ds"
proof -
  have "os_member k (fold (\<lambda>d. os_insert (datom_key d order)) ds s) \<longleftrightarrow>
      k \<in> (\<lambda>d. datom_key d order) ` set ds \<or> os_member k s" for k s
    by (induction ds arbitrary: s) auto
  then show ?thesis by (auto simp: history_pending_def)
qed

lemma inserts_ok: "changes_ok id (inserts (history_pending order ds))"
  using os_elems_sorted by (auto simp: changes_ok_def history_pending_def comp_def)

lemma insert_history_keys_merge:
  assumes "sorted_wrt (<) (seg_keys seg)"
  shows "seg_keys (fst (insert_history n seg order ds)) =
    merge_changes id (inserts (history_pending order ds)) (seg_keys seg)"
proof -
  let ?pending = "history_pending order ds"
  obtain rest b where ab: "history_leaves seg (?pending, builder_new n) = (rest, b)" by fastforce
  have "concat (map (\<lambda>p. case snd p of None \<Rightarrow> [] | Some k \<Rightarrow> [k]) (inserts rest)) = rest"
    by (induction rest) simp_all
  then show ?thesis
    using history_leaves_stream [OF assms, of "(?pending, builder_new n)"]
    by (auto simp: insert_history_def ab Let_def hstream_def merge_changes_rest
        simp flip: history_pending_def)
qed

lemma map_of_placed_id: "map_of (placed (\<lambda>k. k) ks) x = (if x \<in> set ks then Some x else None)"
  by (induction ks) auto

lemma insert_history_set:
  assumes "sorted_wrt (<) (seg_keys seg)"
  shows "set (seg_keys (fst (insert_history n seg order ds))) =
    set (seg_keys seg) \<union> (\<lambda>d. datom_key d order) ` set ds"
proof -
  have m: "map_of (inserts ps) x = (if x \<in> set ps then Some (Some x) else None)" for x and ps :: "bytes list"
    by (induction ps) auto
  have "x \<in> set (merge_changes id (inserts (history_pending order ds)) (seg_keys seg)) \<longleftrightarrow>
      x \<in> set (seg_keys seg) \<or> x \<in> set (history_pending order ds)" for x
    using map_of_merge_changes [OF inserts_ok, of "seg_keys seg" order ds x] assms
    by (auto simp: map_of_placed_id m split: if_splits)
  then show ?thesis
    by (auto simp: insert_history_keys_merge [OF assms] history_pending_set)
qed

lemma insert_history_sorted:
  "sorted_wrt (<) (seg_keys seg) \<Longrightarrow> sorted_wrt (<) (seg_keys (fst (insert_history n seg order ds)))"
  using merge_changes_sorted [OF inserts_ok, of "seg_keys seg" order ds]
  by (simp add: insert_history_keys_merge)

subsection \<open>Seeking and comparing\<close>

lemma partition_point_drop: "drop (partition_point P xs) xs = dropWhile P xs"
  by (simp add: partition_point_def dropWhile_eq_drop)

lemma seek_alt:
  "seek seg key = (case dropWhile (\<lambda>l. leaf_keys l = [] \<or> last (leaf_keys l) < key) seg of
     [] \<Rightarrow> [] | l # ls \<Rightarrow> dropWhile (\<lambda>k. k < key) (leaf_keys l) @ seg_keys ls)"
  unfolding seek_def Let_def partition_point_drop
  by (cases "dropWhile (\<lambda>l. leaf_keys l = [] \<or> last (leaf_keys l) < key) seg")
    (simp_all add: partition_point_drop seg_keys_def del: dropWhile_eq_Nil_conv)

lemma seek_dropWhile:
  "sorted_wrt (<) (seg_keys seg) \<Longrightarrow> seek seg key = dropWhile (\<lambda>k. k < key) (seg_keys seg)"
proof (induction seg)
  case (Cons l ls)
  have sorted: "sorted_wrt (<) (leaf_keys l)" and IH: "seek ls key = dropWhile (\<lambda>k. k < key) (seg_keys ls)"
    using Cons by (simp_all add: sorted_wrt_append)
  show ?case
  proof (cases "leaf_keys l = [] \<or> last (leaf_keys l) < key")
    case True
    then have "k < key" if "k \<in> set (leaf_keys l)" for k
      using strict_sorted_le_last [of id "leaf_keys l" k] sorted that by fastforce
    moreover have "seek (l # ls) key = seek ls key"
      using True by (simp add: seek_alt)
    ultimately show ?thesis using IH by (simp add: dropWhile_append2)
  next
    case False
    then have "dropWhile (\<lambda>k. k < key) (leaf_keys l @ seg_keys ls) =
        dropWhile (\<lambda>k. k < key) (leaf_keys l) @ seg_keys ls"
      by (metis (no_types, lifting) dropWhile_append1 last_in_set)
    with False show ?thesis
      by (simp add: seek_alt)
  qed
qed (simp add: seek_alt)

lemma count_shared_card:
  "sorted_wrt (<) xs \<Longrightarrow> sorted_wrt (<) ys \<Longrightarrow> count_shared xs ys = card (set xs \<inter> set ys)"
proof (induction xs ys rule: count_shared.induct)
  case (1 l mine r theirs)
  consider "l < r" | "r < l" | "l = r" by fastforce
  then show ?case
  proof cases
    case 1
    then have "l \<notin> set (r # theirs)" using "1.prems" by auto
    with 1 "1.IH" "1.prems" show ?thesis by simp
  next
    case 2
    then have "r \<notin> set (l # mine)" using "1.prems" by auto
    then have "set (l # mine) \<inter> set (r # theirs) = set (l # mine) \<inter> set theirs" by auto
    with 2 "1.IH" "1.prems" show ?thesis by simp
  next
    case 3
    then have "set (l # mine) \<inter> set (r # theirs) = insert l (set mine \<inter> set theirs)"
      and "l \<notin> set mine \<inter> set theirs" using "1.prems" by auto
    with 3 "1.IH" "1.prems" show ?thesis by simp
  qed
qed simp_all

subsection \<open>Building from a sorted stream\<close>

lemma from_keys_loop:
  "length (b_pending b) < CHUNK_MAX_ENTRIES \<Longrightarrow>
   map leaf_keys (fst (finish (foldl push b ks))) = map leaf_keys (b_leaves b) @ chunks_from (b_pending b) ks"
proof (induction ks arbitrary: b)
  case Nil
  then show ?case by (simp add: finish_def seal_def Let_def)
next
  case (Cons k ks)
  have "length (b_pending (push b k)) < CHUNK_MAX_ENTRIES"
    using cut_after_max [of "length (b_pending b) + 1" k] Cons.prems
    by (auto simp: push_def Let_def not_le intro: ccontr)
  with Cons show ?case by (simp add: push_def seal_def Let_def)
qed

lemma from_keys_chunks: "map leaf_keys (fst (from_keys n ks)) = chunks ks"
  by (simp add: from_keys_def from_keys_loop chunks_def) (simp add: builder_new_def CHUNK_MAX_ENTRIES_def from_keys_loop)


lemma leaf_sizes_from_keys: "leaf_sizes_ok (fst (from_keys n ks))"
proof -
  have "b_ok {} n (foldl push (builder_new n) ks)"
    by (rule b_ok_foldl_push) simp
  then have "b_ok {} n (seal (foldl push (builder_new n) ks))" by (rule b_ok_seal)
  then show ?thesis by (simp add: from_keys_def finish_def Let_def b_ok_def)
qed

lemma seg_keys_from_keys [simp]: "seg_keys (fst (from_keys n ks)) = ks"
  by (simp add: from_keys_def)

lemma seg_facts_from_keys:
  assumes "\<And>f k. om_get m f = Some k \<Longrightarrow> key_components k = f"
  shows "seg_facts (fst (from_keys n (om_values m))) = m \<and> seg_wf (fst (from_keys n (om_values m)))"
proof -
  have e: "placed key_components (om_values m) = om_entries m"
    using assms by (force simp: om_values_def comp_def om_entries_iff intro: map_idI)
  have "map key_components (om_values m) = map fst (placed key_components (om_values m))"
    by simp
  then have "map key_components (om_values m) = om_keys m"
    unfolding e om_keys_def .
  then have "sorted_wrt (<) (map key_components (om_values m))"
    using om_keys_ascending by simp
  then show ?thesis
    using e by (simp add: seg_wf_def leaf_sizes_from_keys seg_facts_def om_entries_of_list
        flip: om_entries_inject)
qed

subsection \<open>Properties\<close>

definition example_datom :: "u64 \<Rightarrow> bool \<Rightarrow> datom" where
  "example_datom tx added = \<lparr>d_e = 7, d_a = 3, d_v = Long 1, d_tx = tx, d_added = added\<rparr>"

definition example_segment :: segment where
  "example_segment = [\<lparr>leaf_id = 0, leaf_keys = [datom_key (example_datom 5 True) Eavt]\<rparr>]"

lemma example_segment_ok:
  "seg_wf example_segment" "sorted_wrt (<) (seg_keys example_segment)"
  "\<forall>l \<in> set example_segment. leaf_id l < 1" "distinct (map leaf_id example_segment)"
  by (simp_all add: example_segment_def seg_wf_def leaf_sizes_ok_def CHUNK_MAX_ENTRIES_def)

lemma example_datom_fact:
  "key_components (datom_key (example_datom tx added) Eavt) =
     key_components (datom_key (example_datom tx' added') Eavt)"
  by (simp add: example_datom_def d_fact_def)

text \<open>
  C7. Folding a transaction tail into a current-value segment implements the current-value fold:
  on a well-formed segment the result is well formed (one key per fact, sorted, leaves within
  the size bound), and the map from facts to keys it stands for is the old map with each
  assertion inserted and each retraction removed, in transaction order.
\<close>

theorem seg_apply_refines_fold:
  assumes "seg_wf seg"
  shows "seg_wf (fst (seg_apply next seg order ds)) \<and>
    seg_facts (fst (seg_apply next seg order ds)) = current_fold order ds (seg_facts seg) \<and>
    seg_keys (fst (seg_apply next seg order ds)) = om_values (current_fold order ds (seg_facts seg))"
proof -
  have sorted: "sorted_wrt (<) (map key_components (seg_keys seg))" and sizes: "leaf_sizes_ok seg"
    using assms by (simp_all add: seg_wf_def)
  have "seg_wf (fst (seg_apply next seg order ds))"
    using seg_apply_sorted [OF sorted] leaves_from_apply [OF sizes]
    by (simp add: seg_wf_def leaves_from_def)
  moreover note seg_facts_apply [OF sorted, of "next" order ds]
    seg_keys_facts [OF seg_apply_sorted [OF sorted], of "next" order ds]
  ultimately show ?thesis by simp
qed

theorem seg_apply_refines_fold_witness:
  "seg_keys (fst (seg_apply 1 example_segment Eavt [example_datom 6 False])) = []"
  using seg_apply_refines_fold [OF example_segment_ok(1), of 1 Eavt "[example_datom 6 False]"]
    example_datom_fact [of 6 False 5 True]
  by (simp add: current_fold_def current_step_def Let_def seg_facts_def example_segment_def
      om_of_list_def om_values_def al_remove_def example_datom_def del: key_components_datom_key)

text \<open>
  Sharing: every leaf of the result is a leaf of the segment, carried over with its identity,
  or a new allocation. So a leaf of the result with the identity of an old leaf holds exactly its
  keys, and \<open>shared_leaf_count\<close> counts the leaves that were carried over.
\<close>

theorem seg_apply_shares_leaves:
  assumes "leaf_sizes_ok seg" and "\<forall>l \<in> set seg. leaf_id l < next"
    and "distinct (map leaf_id seg)" and "l \<in> set (fst (seg_apply next seg order ds))"
  shows "(l \<in> set seg \<or> next \<le> leaf_id l) \<and>
    (\<forall>l' \<in> set seg. leaf_id l' = leaf_id l \<longrightarrow> l' = l) \<and>
    shared_leaf_count (fst (seg_apply next seg order ds)) seg =
      length (filter (\<lambda>l. l \<in> set seg) (fst (seg_apply next seg order ds)))"
proof -
  let ?r = "fst (seg_apply next seg order ds)"
  have orig: "l \<in> set seg \<or> next \<le> leaf_id l" if "l \<in> set ?r" for l
    using leaves_from_apply [OF assms(1), of "next" order ds] that by (auto simp: leaves_from_def)
  have same: "l' = l" if "l \<in> set ?r" "l' \<in> set seg" "leaf_id l' = leaf_id l" for l l'
    using orig [OF that(1)] that(2,3) assms(2,3) by (fastforce simp: distinct_map inj_on_def)
  have "filter (\<lambda>l. leaf_id l \<in> set (map leaf_id seg)) ?r = filter (\<lambda>l. l \<in> set seg) ?r"
    by (rule filter_cong) (auto dest: same)
  with orig [OF assms(4)] same [OF assms(4)] show ?thesis by (auto simp: shared_leaf_count_def)
qed

theorem seg_apply_shares_leaves_witness:
  "shared_leaf_count (fst (seg_apply 1 example_segment Eavt [])) example_segment = 1"
  using seg_apply_shares_leaves [of example_segment 1 "hd example_segment" Eavt "[]"] example_segment_ok
  by (simp add: seg_wf_def seg_apply_def fold_changes_def) (simp add: example_segment_def)

text \<open>
  Inserting history keeps every statement: the result holds exactly the old keys and the keys
  of the inserted datoms, in strictly ascending order, so inserting the same datoms again
  changes nothing.
\<close>

theorem insert_history_union:
  assumes "sorted_wrt (<) (seg_keys seg)"
  shows "sorted_wrt (<) (seg_keys (fst (insert_history next seg order ds))) \<and>
    set (seg_keys (fst (insert_history next seg order ds))) =
      set (seg_keys seg) \<union> (\<lambda>d. datom_key d order) ` set ds \<and>
    seg_keys (fst (insert_history next' (fst (insert_history next seg order ds)) order ds)) =
      seg_keys (fst (insert_history next seg order ds))"
proof -
  note s1 = insert_history_sorted [OF assms, of "next" order ds]
  have "seg_keys (fst (insert_history next' (fst (insert_history next seg order ds)) order ds)) =
      seg_keys (fst (insert_history next seg order ds))"
    by (rule strict_sorted_unique [OF insert_history_sorted [OF s1] s1])
      (auto simp: insert_history_set [OF s1] insert_history_set [OF assms])
  with s1 insert_history_set [OF assms] show ?thesis by blast
qed

theorem insert_history_union_witness:
  "set (seg_keys (fst (insert_history 1 example_segment Eavt [example_datom 6 False]))) =
     {datom_key (example_datom 5 True) Eavt, datom_key (example_datom 6 False) Eavt}"
  using insert_history_union [OF example_segment_ok(2), of 1 Eavt "[example_datom 6 False]"]
  by (auto simp: example_segment_def)

text \<open>
  \<open>seek\<close> returns exactly the keys at or after the sought one, in order, although it looks at
  one leaf only; \<open>shared_key_count\<close> counts the keys that two segments have in common.
\<close>

theorem seek_and_share:
  assumes "sorted_wrt (<) (seg_keys seg)" and "sorted_wrt (<) (seg_keys older)"
  shows "seek seg key = filter (\<lambda>k. key \<le> k) (seg_keys seg) \<and>
    shared_key_count seg older = card (set (seg_keys seg) \<inter> set (seg_keys older))"
proof -
  have "sorted (seg_keys seg)" using assms(1) by (simp add: strict_sorted_iff)
  then show ?thesis
    by (simp add: seek_dropWhile [OF assms(1)] dropWhile_less_sorted shared_key_count_def
        count_shared_card [OF assms])
qed

theorem seek_and_share_witness:
  "shared_key_count example_segment example_segment = 1"
  using seek_and_share [OF example_segment_ok(2) example_segment_ok(2)]
  by (simp add: example_segment_def)

text \<open>
  C26. A segment built from a key stream holds that stream, cut by the content-defined rule: every
  leaf but the last ends at a boundary and has between 512 and 8192 keys, and behind a boundary
  the chunking does not depend on what precedes it.
\<close>

theorem from_keys_content_defined:
  "seg_keys (fst (from_keys next ks)) = ks \<and>
   map leaf_keys (fst (from_keys next ks)) = chunks ks \<and>
   (\<forall>c \<in> set (butlast (chunks ks)). CHUNK_MIN_ENTRIES \<le> length c) \<and>
   (\<forall>c \<in> set (chunks ks). c \<noteq> [] \<and> length c \<le> CHUNK_MAX_ENTRIES) \<and>
   (ks \<noteq> [] \<and> closed_run (last (chunks ks)) \<longrightarrow> chunks (ks @ ks') = chunks ks @ chunks ks')"
  by (auto simp: from_keys_chunks chunks_def chunks_from_append chunks_from_nonempty
      intro: closed_run_min chunks_from_closed chunks_from_max [of "[]"])
    (auto simp: CHUNK_MAX_ENTRIES_def intro: chunks_from_max [of "[]", unfolded CHUNK_MAX_ENTRIES_def])

theorem from_keys_content_defined_witness:
  "map leaf_keys (fst (from_keys 0 [[1], [2]])) = [[[1], [2]]]"
  using from_keys_content_defined [of 0 "[[1], [2]]" "[]"]
  by (simp add: chunks_def cut_after_def CHUNK_MIN_ENTRIES_def CHUNK_MAX_ENTRIES_def)

end
