(* ===== verification/Snapshot.thy ===== *)
theory Snapshot
  imports Blob_Store Index_Segment
begin

text \<open>
  The stored form of a published covering index (crates/corium-store/src/snapshot.rs): a manifest
  that names leaf chunks, and the length-prefixed key streams of the chunks.
\<close>

subsection \<open>Manifests\<close>

definition INDEX_MANIFEST_MAGIC :: string where
  "INDEX_MANIFEST_MAGIC = ''corium-index-manifest-v1''"

definition is_index_manifest :: "bytes \<Rightarrow> bool" where
  "is_index_manifest bytes \<longleftrightarrow> prefix (str_bytes INDEX_MANIFEST_MAGIC) bytes"

definition encode_index_manifest :: "blob_id list \<Rightarrow> bytes" where
  "encode_index_manifest children =
    str_bytes (INDEX_MANIFEST_MAGIC @ [newline] @ concat (map (\<lambda>c. c @ [newline]) children))"

definition corrupt :: "string \<Rightarrow> store_error" where
  "corrupt detail = Io (''malformed index manifest: '' @ detail)"

fun decode_children :: "string list \<Rightarrow> store_error + blob_id list" where
  "decode_children [] = Inr []"
| "decode_children (l # ls) =
    bindr (ok_or (corrupt ''invalid child id'') (blob_from_hex l)) (\<lambda>i.
    bindr (decode_children ls) (\<lambda>ids. Inr (i # ids)))"

definition decode_index_manifest :: "bytes \<Rightarrow> store_error + blob_id list" where
  "decode_index_manifest bytes =
    (if \<not> utf8_valid bytes then Inl (corrupt ''not UTF-8'')
     else case next_line (lines (bytes_str bytes)) of (first, ls) \<Rightarrow>
       if first \<noteq> Some INDEX_MANIFEST_MAGIC then Inl (corrupt ''missing magic'')
       else decode_children ls)"

definition index_blob_children :: "bytes \<Rightarrow> store_error + blob_id list" where
  "index_blob_children bytes = (if is_index_manifest bytes then decode_index_manifest bytes else Inr [])"

subsection \<open>Key streams\<close>

definition truncated :: store_error where
  "truncated = Io ''truncated segment''"

definition split_at_checked :: "nat \<Rightarrow> bytes \<Rightarrow> (bytes \<times> bytes) option" where
  "split_at_checked n bs = (if n \<le> length bs then Some (take n bs, drop n bs) else None)"

lemma split_at_checked_length [termination_simp]:
  "split_at_checked n bs = Some (a, b) \<Longrightarrow> length bs = n + length b \<and> length a = n"
  by (auto simp: split_at_checked_def split: if_splits)

function decode_segment_keys :: "bytes \<Rightarrow> store_error + bytes list" where
  "decode_segment_keys input =
    (if input = [] then Inr []
     else case split_at_checked 8 input of
       None \<Rightarrow> Inl truncated
     | Some (len_bytes, rest) \<Rightarrow> (case split_at_checked (unat (u64_from_be_bytes len_bytes)) rest of
         None \<Rightarrow> Inl truncated
       | Some (key, rest) \<Rightarrow> bindr (decode_segment_keys rest) (\<lambda>keys. Inr (key # keys))))"
  by pat_completeness auto
termination
  by (relation "measure length") (auto dest!: split_at_checked_length)

declare decode_segment_keys.simps [simp del]

definition frame_key :: "bytes \<Rightarrow> bytes" where
  "frame_key key = u64_to_be_bytes (of_nat (length key)) @ key"

definition encode_segment_chunk :: "bytes list \<Rightarrow> bytes" where
  "encode_segment_chunk keys = concat (map frame_key keys)"

text \<open>The chunks so far, the open chunk and how many keys it holds.\<close>

definition chunk_step :: "bytes list \<times> bytes \<times> nat \<Rightarrow> bytes \<Rightarrow> bytes list \<times> bytes \<times> nat" where
  "chunk_step = (\<lambda>(cs, chunk, entries) key.
    let chunk = chunk @ frame_key key; entries = entries + 1
    in if cut_after key entries then (cs @ [chunk], [], 0) else (cs, chunk, entries))"

definition chunk_segment_keys :: "bytes list \<Rightarrow> bytes list" where
  "chunk_segment_keys keys = (case foldl chunk_step ([], [], 0) keys of
     (cs, chunk, _) \<Rightarrow> if chunk = [] then cs else cs @ [chunk])"


subsection \<open>Round trips\<close>

lemma lines_concat: "list_all line_safe ls \<Longrightarrow> lines (concat (map (\<lambda>l. l @ [newline]) ls)) = ls"
  by (induction ls) (simp_all add: lines_line)

lemma decode_children_ok: "list_all (\<lambda>i. blob_from_hex i \<noteq> None) ids \<Longrightarrow> decode_children ids = Inr ids"
  by (induction ids) (auto simp: blob_ok(1))

lemma magic_safe: "line_safe INDEX_MANIFEST_MAGIC" "ascii INDEX_MANIFEST_MAGIC"
  by (simp_all add: INDEX_MANIFEST_MAGIC_def line_safe_def)

lemma manifest_round_trip:
  assumes "list_all (\<lambda>i. blob_from_hex i \<noteq> None) ids"
  shows "index_blob_children (encode_index_manifest ids) = Inr ids"
proof -
  have safe: "list_all line_safe ids" "list_all ascii ids"
    using assms blob_ok(2,3) by (auto simp: list_all_iff)
  have "ascii (concat (map (\<lambda>c. c @ [newline]) ids))" using safe(2) by (induction ids) auto
  then have "utf8_valid (encode_index_manifest ids)"
    unfolding encode_index_manifest_def by (intro utf8_valid_ascii) (simp add: magic_safe)
  moreover have "lines (INDEX_MANIFEST_MAGIC @ newline # concat (map (\<lambda>c. c @ [newline]) ids)) = INDEX_MANIFEST_MAGIC # ids"
    using lines_line [OF magic_safe(1)] lines_concat [OF safe(1)] by simp
  moreover have "is_index_manifest (encode_index_manifest ids)"
    by (simp add: is_index_manifest_def encode_index_manifest_def str_bytes_def)
  ultimately show ?thesis
    using decode_children_ok [OF assms]
    by (simp add: index_blob_children_def decode_index_manifest_def encode_index_manifest_def next_line_def)
qed

text \<open>Keys a machine can hold.\<close>

definition key_fits :: "bytes \<Rightarrow> bool" where
  "key_fits key \<longleftrightarrow> length key < 2 ^ 62"

lemma length_u64: "length (u64_to_be_bytes w) = 8"
  by (simp add: u64_to_be_bytes_def del: be_bytes_numeral)

lemma u64_not_Nil: "u64_to_be_bytes w \<noteq> []"
  by (metis length_u64 list.size(3) zero_neq_numeral)

lemma be_bytes_first: "be_bytes (Suc n) x = word_of_nat (x div 256 ^ n) # be_bytes n x"
  by (induction n arbitrary: x) (simp_all add: div_mult2_eq)

lemma decode_frame:
  assumes "key_fits key"
  shows "decode_segment_keys (frame_key key @ rest) = bindr (decode_segment_keys rest) (\<lambda>keys. Inr (key # keys))"
proof -
  have "unat (of_nat (length key) :: u64) = length key"
    using assms by (simp add: key_fits_def unat_of_nat)
  then show ?thesis
    by (subst decode_segment_keys.simps) (simp add: frame_key_def split_at_checked_def length_u64 u64_not_Nil)
qed

lemma decode_encode_chunk: "list_all key_fits keys \<Longrightarrow> decode_segment_keys (encode_segment_chunk keys) = Inr keys"
proof (induction keys)
  case Nil
  then show ?case by (simp add: encode_segment_chunk_def decode_segment_keys.simps)
next
  case (Cons k ks)
  then show ?case using decode_frame [of k "encode_segment_chunk ks"] by (simp add: encode_segment_chunk_def)
qed

lemma encode_chunk_eq_Nil: "encode_segment_chunk keys = [] \<longleftrightarrow> keys = []"
  by (cases keys) (simp_all add: encode_segment_chunk_def frame_key_def u64_to_be_bytes_def)

lemma encode_chunk_append: "encode_segment_chunk (ks @ ls) = encode_segment_chunk ks @ encode_segment_chunk ls"
  by (simp add: encode_segment_chunk_def)

lemma chunk_fold:
  "foldl chunk_step (cs, encode_segment_chunk run, length run) keys = (cs', chunk, n) \<Longrightarrow>
    (if chunk = [] then cs' else cs' @ [chunk]) = cs @ map encode_segment_chunk (chunks_from run keys)"
proof (induction run keys arbitrary: cs rule: chunks_from.induct)
  case (1 run)
  then show ?case by (auto simp: encode_chunk_eq_Nil)
next
  case (2 run k ks)
  have snoc: "encode_segment_chunk run @ frame_key k = encode_segment_chunk (run @ [k])"
    by (simp add: encode_segment_chunk_def)
  show ?case
  proof (cases "cut_after k (length run + 1)")
    case True
    then show ?thesis
      using "2.prems" "2.IH"(1) [OF True, of "cs @ [encode_segment_chunk (run @ [k])]"]
      by (simp add: chunk_step_def snoc encode_segment_chunk_def [of "[]"])
  next
    case False
    then show ?thesis
      using "2.prems" "2.IH"(2) [OF False, of cs] by (simp add: chunk_step_def snoc)
  qed
qed

lemma chunk_segment_keys_eq: "chunk_segment_keys keys = map encode_segment_chunk (chunks keys)"
  using chunk_fold [of "[]" "[]" keys]
  by (auto simp: chunk_segment_keys_def chunks_def encode_segment_chunk_def split: prod.split)

text \<open>A key stream is never taken for a manifest: its first byte is the top byte of a length.\<close>

lemma stream_not_manifest:
  assumes "list_all key_fits keys"
  shows "\<not> is_index_manifest (encode_segment_chunk keys)"
proof (cases keys)
  case Nil
  then show ?thesis by (simp add: is_index_manifest_def encode_segment_chunk_def INDEX_MANIFEST_MAGIC_def str_bytes_def)
next
  case (Cons k ks)
  have len: "length k < 2 ^ 62" using assms Cons by (simp add: key_fits_def)
  then have u: "unat (of_nat (length k) :: u64) = length k" by (simp add: unat_of_nat)
  have "(word_of_nat (length k div 2 ^ 56) :: byte) \<noteq> 99"
  proof
    assume "(word_of_nat (length k div 2 ^ 56) :: byte) = 99"
    then have "unat (word_of_nat (length k div 2 ^ 56) :: byte) = 99" by simp
    moreover have "length k div 2 ^ 56 < 64" using len by (simp add: less_mult_imp_div_less)
    ultimately show False by (simp add: unat_of_nat)
  qed
  then show ?thesis
    using be_bytes_first [of 7 "length k"] unfolding is_index_manifest_def Cons
    by (simp add: encode_segment_chunk_def frame_key_def u64_to_be_bytes_def u INDEX_MANIFEST_MAGIC_def str_bytes_def
        del: be_bytes_numeral be_bytes.simps)
qed

text \<open>
  The stored form of a covering index round trips. The leaves of an index segment built from a
  key stream encode to exactly the chunks of that stream, so an unchanged leaf has an unchanged
  blob; decoding the chunks in order gives the stream back; a manifest names its chunks and is
  read as their references; and no chunk is ever taken for a manifest.
\<close>

theorem snapshot_round_trip:
  assumes "list_all key_fits keys" and "list_all (\<lambda>i. blob_from_hex i \<noteq> None) ids"
  shows "map (encode_segment_chunk \<circ> leaf_keys) (fst (from_keys n keys)) = chunk_segment_keys keys \<and>
    map decode_segment_keys (chunk_segment_keys keys) = map Inr (chunks keys) \<and> concat (chunks keys) = keys \<and>
    decode_segment_keys (concat (chunk_segment_keys keys)) = Inr keys \<and>
    index_blob_children (encode_index_manifest ids) = Inr ids \<and>
    (\<forall>c \<in> set (chunk_segment_keys keys). index_blob_children c = Inr [])"
proof -
  have con: "concat (chunks keys) = keys" using concat_chunks_from [of "[]" keys] by (simp add: chunks_def)
  then have fits: "list_all key_fits c" if "c \<in> set (chunks keys)" for c
  proof -
    have "set c \<subseteq> set (concat (chunks keys))" using that by auto
    then show ?thesis using assms(1) unfolding con by (auto simp: list_all_iff)
  qed
  have "concat (map encode_segment_chunk cs) = encode_segment_chunk (concat cs)" for cs
    by (induction cs) (simp_all add: encode_chunk_append encode_segment_chunk_def)
  then have "decode_segment_keys (concat (chunk_segment_keys keys)) = Inr keys"
    using decode_encode_chunk [OF assms(1)] con by (simp add: chunk_segment_keys_eq)
  moreover have "map (encode_segment_chunk \<circ> leaf_keys) (fst (from_keys n keys)) = chunk_segment_keys keys"
    by (simp add: chunk_segment_keys_eq from_keys_chunks [of n, symmetric] del: map_map) simp
  ultimately show ?thesis
    using con fits manifest_round_trip [OF assms(2)] stream_not_manifest
    by (auto simp: chunk_segment_keys_eq decode_encode_chunk index_blob_children_def)
qed

theorem snapshot_round_trip_witness:
  "decode_segment_keys (concat (chunk_segment_keys [[1], [2, 3]])) = Inr [[1], [2, 3]] \<and>
   index_blob_children (encode_index_manifest [replicate 64 CHR ''a'']) = Inr [replicate 64 CHR ''a'']"
proof -
  have "list_all key_fits [[1], [2, 3]]" by (simp add: key_fits_def)
  moreover have "list_all (\<lambda>i. blob_from_hex i \<noteq> None) [replicate 64 CHR ''a'']"
    by (simp add: blob_from_hex_def is_ascii_hexdigit_def list_all_iff)
  ultimately show ?thesis using snapshot_round_trip by blast
qed

end
