(* ===== verification/Crypt.thy ===== *)
theory Crypt
  imports Encoding Rust_Text Ordered_Map "HOL-Library.Product_Lexorder"
begin

text \<open>
  Stored encryption formats and key resolution (crates/corium-crypt/src/lib.rs): the headers of
  encrypted blobs and log records, what is authenticated with them, deterministic sealing, and
  the static keyring. The ciphers AES-256-GCM and AES-256-GCM-SIV and the hash BLAKE3 are other
  packages: they are the fields of \<open>crypto\<close>. The bytes \<open>getrandom\<close> draws are an argument, which is
  \<open>None\<close> where the system has none.
\<close>

subsection \<open>Ciphers\<close>

text \<open>An AEAD cipher encrypts and decrypts under a key, a nonce and additional data, in this order.\<close>

record aead =
  ae_encrypt :: "bytes \<Rightarrow> bytes \<Rightarrow> bytes \<Rightarrow> bytes \<Rightarrow> bytes option"
  ae_decrypt :: "bytes \<Rightarrow> bytes \<Rightarrow> bytes \<Rightarrow> bytes \<Rightarrow> bytes option"

record crypto =
  cr_gcm :: aead
  cr_siv :: aead
  cr_hash :: "bytes \<Rightarrow> bytes"
  cr_keyed_hash :: "bytes \<Rightarrow> bytes \<Rightarrow> bytes"

datatype crypt_error =
    InvalidKeyLength
  | RandomnessUnavailable
  | InvalidBlobHeader
  | InvalidLogHeader
  | UnsupportedAlgorithm u8
  | InvalidBlobLength
  | EncryptionFailed
  | AuthenticationFailed
  | PlaintextTooLarge

subsection \<open>Key material\<close>

datatype secret_key = SecretKey (key_bytes: bytes)

definition key_from_slice :: "bytes \<Rightarrow> crypt_error + secret_key" where
  "key_from_slice bytes = (if length bytes = 32 then Inr (SecretKey bytes) else Inl InvalidKeyLength)"

definition key_generate :: "bytes option \<Rightarrow> crypt_error + secret_key" where
  "key_generate entropy = bindr (ok_or RandomnessUnavailable entropy) (\<lambda>bytes. Inr (SecretKey bytes))"

definition cipher_encrypt ::
    "aead \<Rightarrow> secret_key \<Rightarrow> bytes \<Rightarrow> bytes \<Rightarrow> bytes \<Rightarrow> crypt_error + bytes" where
  "cipher_encrypt c key nonce aad msg =
    (if length (key_bytes key) \<noteq> 32 then Inl InvalidKeyLength
     else ok_or EncryptionFailed (ae_encrypt c (key_bytes key) nonce aad msg))"

definition cipher_decrypt ::
    "aead \<Rightarrow> secret_key \<Rightarrow> bytes \<Rightarrow> bytes \<Rightarrow> bytes \<Rightarrow> crypt_error + bytes" where
  "cipher_decrypt c key nonce aad msg =
    (if length (key_bytes key) \<noteq> 32 then Inl InvalidKeyLength
     else ok_or AuthenticationFailed (ae_decrypt c (key_bytes key) nonce aad msg))"

subsection \<open>Formats\<close>

definition BLOB_MAGIC :: bytes where
  "BLOB_MAGIC = str_bytes ''CORIUMB1''"

definition LOG_MAGIC :: bytes where
  "LOG_MAGIC = str_bytes ''CORIUML1''"

definition ALGORITHM_AES_256_GCM_SIV :: u8 where
  "ALGORITHM_AES_256_GCM_SIV = 1"

definition ALGORITHM_AES_256_GCM :: u8 where
  "ALGORITHM_AES_256_GCM = 2"

definition NONCE_LEN :: nat where
  "NONCE_LEN = 12"

definition AEAD_TAG_LEN :: nat where
  "AEAD_TAG_LEN = 16"

definition BLOB_HEADER_LEN :: nat where
  "BLOB_HEADER_LEN = length BLOB_MAGIC + 1 + 4 + 8"

definition LOG_HEADER_LEN :: nat where
  "LOG_HEADER_LEN = length LOG_MAGIC + 1 + 4 + 8 + NONCE_LEN"

text \<open>\<open>&bytes[from..to]\<close>, used where the bounds have been checked.\<close>

definition slice :: "nat \<Rightarrow> nat \<Rightarrow> 'a list \<Rightarrow> 'a list" where
  "slice from to xs = take (to - from) (drop from xs)"

subsection \<open>Blobs\<close>

record blob_header =
  bh_epoch :: u32
  bh_plaintext_len :: u64

definition parse_blob_header :: "bytes \<Rightarrow> crypt_error + blob_header" where
  "parse_blob_header object =
    (if length object < BLOB_HEADER_LEN \<or> take (length BLOB_MAGIC) object \<noteq> BLOB_MAGIC
     then Inl InvalidBlobHeader
     else let algorithm = object ! length BLOB_MAGIC
     in if algorithm \<noteq> ALGORITHM_AES_256_GCM_SIV then Inl (UnsupportedAlgorithm algorithm)
     else let epoch_offset = length BLOB_MAGIC + 1;
              length_offset = epoch_offset + 4;
              epoch = u32_from_be_bytes (slice epoch_offset length_offset object);
              plaintext_len = u64_from_be_bytes (slice length_offset BLOB_HEADER_LEN object);
              expected_len = BLOB_HEADER_LEN + NONCE_LEN + unat plaintext_len + AEAD_TAG_LEN
     in if expected_len \<ge> 2 ^ 64 then Inl InvalidBlobLength
        else if length object \<noteq> expected_len then Inl InvalidBlobLength
        else Inr \<lparr>bh_epoch = epoch, bh_plaintext_len = plaintext_len\<rparr>)"

definition blob_header_bytes :: "u32 \<Rightarrow> nat \<Rightarrow> bytes" where
  "blob_header_bytes epoch n =
    BLOB_MAGIC @ [ALGORITHM_AES_256_GCM_SIV] @ u32_to_be_bytes epoch @ u64_to_be_bytes (of_nat n)"

definition blob_nonce :: "crypto \<Rightarrow> secret_key \<Rightarrow> bytes \<Rightarrow> bytes \<Rightarrow> bytes" where
  "blob_nonce cr key header plaintext = take NONCE_LEN (cr_keyed_hash cr (key_bytes key)
     (str_bytes ''corium/blob-nonce'' @ header @ cr_hash cr plaintext))"

definition encrypt_blob :: "crypto \<Rightarrow> secret_key \<Rightarrow> u32 \<Rightarrow> bytes \<Rightarrow> crypt_error + bytes" where
  "encrypt_blob cr key epoch plaintext =
    (if length plaintext \<ge> 2 ^ 64 then Inl PlaintextTooLarge
     else let header = blob_header_bytes epoch (length plaintext);
              nonce = blob_nonce cr key header plaintext
     in bindr (cipher_encrypt (cr_siv cr) key nonce header plaintext) (\<lambda>ciphertext.
          Inr (header @ nonce @ ciphertext)))"

definition decrypt_blob :: "crypto \<Rightarrow> secret_key \<Rightarrow> bytes \<Rightarrow> crypt_error + bytes" where
  "decrypt_blob cr key object =
    bindr (parse_blob_header object) (\<lambda>_.
      let header = take BLOB_HEADER_LEN object;
          nonce_end = BLOB_HEADER_LEN + NONCE_LEN;
          nonce = slice BLOB_HEADER_LEN nonce_end object;
          ciphertext = drop nonce_end object
      in cipher_decrypt (cr_siv cr) key nonce header ciphertext)"

subsection \<open>Deterministic sealing\<close>

definition zero_nonce :: bytes where
  "zero_nonce = replicate NONCE_LEN 0"

definition seal_deterministic :: "crypto \<Rightarrow> secret_key \<Rightarrow> bytes \<Rightarrow> bytes \<Rightarrow> crypt_error + bytes" where
  "seal_deterministic cr key aad plaintext = cipher_encrypt (cr_siv cr) key zero_nonce aad plaintext"

definition open_deterministic :: "crypto \<Rightarrow> secret_key \<Rightarrow> bytes \<Rightarrow> bytes \<Rightarrow> crypt_error + bytes" where
  "open_deterministic cr key aad body =
    (if length body < AEAD_TAG_LEN then Inl AuthenticationFailed
     else cipher_decrypt (cr_siv cr) key zero_nonce aad body)"

subsection \<open>Log records\<close>

record log_header =
  lh_epoch :: u32
  lh_t :: u64

definition is_encrypted_log_record :: "bytes \<Rightarrow> bool" where
  "is_encrypted_log_record payload \<longleftrightarrow>
    length payload \<ge> length LOG_MAGIC \<and> take (length LOG_MAGIC) payload = LOG_MAGIC"

definition parse_log_header :: "bytes \<Rightarrow> crypt_error + log_header" where
  "parse_log_header payload =
    (if \<not> is_encrypted_log_record payload \<or> length payload < LOG_HEADER_LEN + AEAD_TAG_LEN
     then Inl InvalidLogHeader
     else let algorithm = payload ! length LOG_MAGIC
     in if algorithm \<noteq> ALGORITHM_AES_256_GCM then Inl (UnsupportedAlgorithm algorithm)
     else let epoch_offset = length LOG_MAGIC + 1;
              t_offset = epoch_offset + 4;
              nonce_offset = t_offset + 8
     in Inr \<lparr>lh_epoch = u32_from_be_bytes (slice epoch_offset t_offset payload),
             lh_t = u64_from_be_bytes (slice t_offset nonce_offset payload)\<rparr>)"

definition log_header_and_aad :: "u32 \<Rightarrow> bytes \<Rightarrow> u64 \<Rightarrow> u64 \<Rightarrow> bytes \<Rightarrow> bytes \<times> bytes" where
  "log_header_and_aad epoch lineage log_version t nonce =
    (let header = LOG_MAGIC @ [ALGORITHM_AES_256_GCM] @ u32_to_be_bytes epoch @ u64_to_be_bytes t @ nonce
     in (header, str_bytes ''corium/log-v1'' @ u64_to_be_bytes (of_nat (length lineage)) @ lineage
                 @ u64_to_be_bytes log_version @ header))"

definition encrypt_log_record ::
    "crypto \<Rightarrow> bytes option \<Rightarrow> secret_key \<Rightarrow> u32 \<Rightarrow> bytes \<Rightarrow> u64 \<Rightarrow> u64 \<Rightarrow> bytes \<Rightarrow> crypt_error + bytes" where
  "encrypt_log_record cr entropy key epoch lineage log_version t plaintext =
    bindr (ok_or RandomnessUnavailable entropy) (\<lambda>nonce.
      let (header, aad) = log_header_and_aad epoch lineage log_version t nonce
      in bindr (cipher_encrypt (cr_gcm cr) key nonce aad plaintext) (\<lambda>ciphertext.
           Inr (header @ ciphertext)))"

definition decrypt_log_record ::
    "crypto \<Rightarrow> secret_key \<Rightarrow> bytes \<Rightarrow> u64 \<Rightarrow> bytes \<Rightarrow> crypt_error + bytes" where
  "decrypt_log_record cr key lineage log_version payload =
    bindr (parse_log_header payload) (\<lambda>h.
      let header = take LOG_HEADER_LEN payload;
          nonce = drop (LOG_HEADER_LEN - NONCE_LEN) header;
          (_, aad) = log_header_and_aad (lh_epoch h) lineage log_version (lh_t h) nonce
      in cipher_decrypt (cr_gcm cr) key nonce aad (drop LOG_HEADER_LEN payload))"

subsection \<open>Key identities and local material\<close>

type_synonym key_id = string

datatype key_error =
    InvalidId
  | MissingKey key_id u32
  | MissingCurrentEpoch key_id
  | InvalidWrappedKey
  | UnsupportedScheme key_id
  | Unreadable key_id string
  | InvalidMaterial key_id
  | WrappedEpochMismatch u32 u32
  | KeyCrypt crypt_error

definition key_id_new :: "string \<Rightarrow> key_error + key_id" where
  "key_id_new value = (if value = [] then Inl InvalidId else Inr value)"

text \<open>\<open>str::split_once(':')\<close>.\<close>

fun split_once :: "char \<Rightarrow> string \<Rightarrow> (string \<times> string) option" where
  "split_once c [] = None"
| "split_once c (x # xs) =
    (if x = c then Some ([], xs) else map_option (\<lambda>(a, b). (x # a, b)) (split_once c xs))"

definition key_scheme :: "key_id \<Rightarrow> (string \<times> string) option" where
  "key_scheme i = split_once (CHR '':'') i"

text \<open>The UTF-8 forms of the characters \<open>char::is_whitespace\<close> accepts, which \<open>str::trim\<close> removes from both ends.\<close>

definition whitespace :: "bytes list" where
  "whitespace = map (\<lambda>b. [b]) [0x09, 0x0A, 0x0B, 0x0C, 0x0D, 0x20] @ [[0xC2, 0x85], [0xC2, 0xA0], [0xE1, 0x9A, 0x80]]
     @ map (\<lambda>b. [0xE2, 0x80, b]) [0x80, 0x81, 0x82, 0x83, 0x84, 0x85, 0x86, 0x87, 0x88, 0x89, 0x8A, 0xA8, 0xA9, 0xAF]
     @ [[0xE2, 0x81, 0x9F], [0xE3, 0x80, 0x80]]"

function strip_first :: "bytes list \<Rightarrow> bytes \<Rightarrow> bytes" where
  "strip_first ws bs = (case find (\<lambda>w. w \<noteq> [] \<and> prefix w bs) ws of
     None \<Rightarrow> bs | Some w \<Rightarrow> strip_first ws (drop (length w) bs))"
  by pat_completeness auto
termination
proof (relation "measure (length \<circ> snd)")
  show "((ws, drop (length w) bs), ws, bs) \<in> measure (length \<circ> snd)"
    if "find (\<lambda>w. w \<noteq> [] \<and> prefix w bs) ws = Some w" for ws w and bs :: bytes
    using that by (auto simp: find_Some_iff prefix_def)
qed simp

declare strip_first.simps [simp del]

definition trim :: "bytes \<Rightarrow> bytes" where
  "trim bs = rev (strip_first (map rev whitespace) (rev (strip_first whitespace bs)))"

definition hex_digit :: "byte \<Rightarrow> byte option" where
  "hex_digit b = (if 0x30 \<le> b \<and> b \<le> 0x39 then Some (b - 0x30)
     else if 0x61 \<le> b \<and> b \<le> 0x66 then Some (b - 0x61 + 10)
     else if 0x41 \<le> b \<and> b \<le> 0x46 then Some (b - 0x41 + 10) else None)"

text \<open>\<open>u8::from_str_radix(pair, 16)\<close> on two bytes of text, which accepts a leading plus.\<close>

definition u8_from_hex :: "bytes \<Rightarrow> u8 option" where
  "u8_from_hex pair = (case pair of
     [a, b] \<Rightarrow> if a = 0x2B then hex_digit b
       else Option.bind (hex_digit a) (\<lambda>x. map_option (\<lambda>y. x * 16 + y) (hex_digit b))
   | _ \<Rightarrow> None)"

fun hex_pairs :: "bytes \<Rightarrow> bytes option" where
  "hex_pairs [] = Some []"
| "hex_pairs [a] = None"
| "hex_pairs (a # b # bs) = (if \<not> utf8_valid [a, b] then None
     else Option.bind (u8_from_hex [a, b]) (\<lambda>x. map_option (Cons x) (hex_pairs bs)))"

definition decode_key_material :: "bytes \<Rightarrow> secret_key option" where
  "decode_key_material material = (case key_from_slice material of
     Inr key \<Rightarrow> Some key
   | Inl _ \<Rightarrow> if \<not> utf8_valid material then None
       else let trimmed = trim material
         in if length trimmed \<noteq> 64 then None else map_option SecretKey (hex_pairs trimmed))"

text \<open>
  The file system and the environment are arguments: the bytes of a file or the text of the
  error, and the value of a variable.
\<close>

definition load_key ::
    "(string \<Rightarrow> string + bytes) \<Rightarrow> (string \<Rightarrow> bytes option) \<Rightarrow> key_id \<Rightarrow> key_error + secret_key" where
  "load_key read_file env_var i = (case key_scheme i of
     None \<Rightarrow> Inl (UnsupportedScheme i)
   | Some (scheme, rest) \<Rightarrow>
       bindr (if scheme = ''file'' then
                (case read_file rest of
                   Inl error \<Rightarrow> Inl (Unreadable i (''cannot read '' @ rest @ '': '' @ error))
                 | Inr material \<Rightarrow> Inr material)
              else if scheme = ''env'' then
                ok_or (Unreadable i (''environment variable '' @ rest @ '' is not set'')) (env_var rest)
              else Inl (UnsupportedScheme i)) (\<lambda>material.
       ok_or (InvalidMaterial i) (decode_key_material material)))"

subsection \<open>The static keyring\<close>

record static_keyring =
  sk_keys :: "(key_id \<times> u32, secret_key) omap"
  sk_current_epochs :: "(key_id, u32) omap"
  sk_key_ids :: "key_id list"

definition keyring_default :: static_keyring where
  "keyring_default = \<lparr>sk_keys = om_empty, sk_current_epochs = om_empty, sk_key_ids = []\<rparr>"

definition STATIC_KEY_EPOCH :: u32 where
  "STATIC_KEY_EPOCH = 1"

definition keyring_insert :: "static_keyring \<Rightarrow> key_id \<Rightarrow> u32 \<Rightarrow> secret_key \<Rightarrow> bool \<Rightarrow> static_keyring" where
  "keyring_insert kr i epoch key current =
    (let epochs = (if current then om_insert i epoch (sk_current_epochs kr) else sk_current_epochs kr);
         keys = om_insert (i, epoch) key (sk_keys kr)
     in \<lparr>sk_keys = keys, sk_current_epochs = epochs,
         sk_key_ids = os_elems (fold (\<lambda>(j, _). os_insert j) (om_keys keys) om_empty)\<rparr>)"

fun keyring_resolve_from ::
    "(key_id \<Rightarrow> key_error + secret_key) \<Rightarrow> static_keyring \<Rightarrow> key_id list \<Rightarrow> key_error + static_keyring" where
  "keyring_resolve_from load kr [] = Inr kr"
| "keyring_resolve_from load kr (i # is) =
    bindr (load i) (\<lambda>key. keyring_resolve_from load (keyring_insert kr i STATIC_KEY_EPOCH key True) is)"

definition keyring_resolve ::
    "(string \<Rightarrow> string + bytes) \<Rightarrow> (string \<Rightarrow> bytes option) \<Rightarrow> key_id list \<Rightarrow> key_error + static_keyring" where
  "keyring_resolve read_file env_var ids = keyring_resolve_from (load_key read_file env_var) keyring_default ids"

definition keyring_key :: "static_keyring \<Rightarrow> key_id \<Rightarrow> u32 \<Rightarrow> key_error + secret_key" where
  "keyring_key kr i epoch = ok_or (MissingKey i epoch) (om_get (sk_keys kr) (i, epoch))"

definition keyring_current_epoch :: "static_keyring \<Rightarrow> key_id \<Rightarrow> key_error + u32" where
  "keyring_current_epoch kr i = ok_or (MissingCurrentEpoch i) (om_get (sk_current_epochs kr) i)"

definition derive_key :: "crypto \<Rightarrow> secret_key \<Rightarrow> bytes \<Rightarrow> secret_key" where
  "derive_key cr parent context =
    SecretKey (cr_keyed_hash cr (key_bytes parent) (str_bytes ''corium/derived-key'' @ context))"

definition map_crypt_error :: "crypt_error + 'a \<Rightarrow> key_error + 'a" where
  "map_crypt_error r = (case r of Inl e \<Rightarrow> Inl (KeyCrypt e) | Inr a \<Rightarrow> Inr a)"

definition keyring_wrap ::
    "crypto \<Rightarrow> static_keyring \<Rightarrow> key_id \<Rightarrow> u32 \<Rightarrow> secret_key \<Rightarrow> key_error + bytes" where
  "keyring_wrap cr kr i epoch dek =
    bindr (keyring_key kr i epoch) (\<lambda>kek.
      map_crypt_error (encrypt_blob cr (derive_key cr kek (str_bytes ''corium/key-wrap'')) epoch (key_bytes dek)))"

definition keyring_unwrap ::
    "crypto \<Rightarrow> static_keyring \<Rightarrow> key_id \<Rightarrow> u32 \<Rightarrow> bytes \<Rightarrow> key_error + secret_key" where
  "keyring_unwrap cr kr i epoch wrapped =
    bindr (keyring_key kr i epoch) (\<lambda>kek.
      let wrapping_key = derive_key cr kek (str_bytes ''corium/key-wrap'')
      in bindr (map_crypt_error (parse_blob_header wrapped)) (\<lambda>header.
         if bh_epoch header \<noteq> epoch then Inl (WrappedEpochMismatch epoch (bh_epoch header))
         else bindr (map_crypt_error (decrypt_blob cr wrapping_key wrapped)) (\<lambda>plaintext.
           case key_from_slice plaintext of Inl _ \<Rightarrow> Inl InvalidWrappedKey | Inr key \<Rightarrow> Inr key)))"

subsection \<open>What the code relies on\<close>

text \<open>A cipher opens what it sealed and adds a tag of 16 bytes; BLAKE3 digests have 32 bytes.\<close>

definition aead_ok :: "aead \<Rightarrow> bool" where
  "aead_ok c \<longleftrightarrow> (\<forall>key nonce aad msg ct. ae_encrypt c key nonce aad msg = Some ct \<longrightarrow>
     ae_decrypt c key nonce aad ct = Some msg \<and> length ct = length msg + AEAD_TAG_LEN)"

definition hash_ok :: "crypto \<Rightarrow> bool" where
  "hash_ok cr \<longleftrightarrow> (\<forall>key bytes. length (cr_keyed_hash cr key bytes) = 32)"

named_theorems crypt_simps
lemmas [crypt_simps] = BLOB_MAGIC_def LOG_MAGIC_def BLOB_HEADER_LEN_def LOG_HEADER_LEN_def NONCE_LEN_def AEAD_TAG_LEN_def
  str_bytes_def slice_def

lemma cipher_opens:
  assumes "aead_ok c" and "cipher_encrypt c key nonce aad msg = Inr ct"
  shows "cipher_decrypt c key nonce aad ct = Inr msg" and "length ct = length msg + 16"
  using assms
  by (auto simp: aead_ok_def cipher_encrypt_def cipher_decrypt_def ok_or_eq_Inr AEAD_TAG_LEN_def split: if_splits)

lemma slice_append:
  "length xs = from \<Longrightarrow> length ys = to - from \<Longrightarrow> slice from to (xs @ ys @ zs) = ys"
  by (simp add: slice_def)

subsection \<open>Blobs\<close>

lemma length_blob_header_bytes: "length (blob_header_bytes epoch n) = BLOB_HEADER_LEN"
  by (simp add: blob_header_bytes_def crypt_simps)

lemma parse_blob_header_bytes:
  assumes "n < 2 ^ 62" and "length rest = 12 + n + 16"
  shows "parse_blob_header (blob_header_bytes epoch n @ rest) = Inr \<lparr>bh_epoch = epoch, bh_plaintext_len = of_nat n\<rparr>"
proof -
  let ?o = "blob_header_bytes epoch n @ rest"
  have layout: "?o = BLOB_MAGIC @ [ALGORITHM_AES_256_GCM_SIV] @ u32_to_be_bytes epoch @ u64_to_be_bytes (of_nat n) @ rest"
    by (simp add: blob_header_bytes_def)
  have magic: "length BLOB_MAGIC = 8" by (simp add: crypt_simps)
  have "take (length BLOB_MAGIC) ?o = BLOB_MAGIC" "?o ! length BLOB_MAGIC = ALGORITHM_AES_256_GCM_SIV"
    by (simp_all add: layout)
  moreover have "slice 9 13 ?o = u32_to_be_bytes epoch" "slice 13 21 ?o = u64_to_be_bytes (of_nat n)"
    by (simp_all add: layout slice_def magic)
  moreover have "unat (of_nat n :: u64) = n" using assms(1) by (simp add: unat_of_nat)
  moreover have "length ?o = 21 + 12 + n + 16" using assms(2) by (simp add: layout magic)
  ultimately show ?thesis
    using assms(1) by (simp add: parse_blob_header_def Let_def magic BLOB_HEADER_LEN_def NONCE_LEN_def AEAD_TAG_LEN_def)
qed

lemma encrypt_blob_opens:
  assumes "aead_ok (cr_siv cr)" and "hash_ok cr" and "length plaintext < 2 ^ 62"
    and "encrypt_blob cr key epoch plaintext = Inr object"
  shows "parse_blob_header object = Inr \<lparr>bh_epoch = epoch, bh_plaintext_len = of_nat (length plaintext)\<rparr>"
    and "decrypt_blob cr key object = Inr plaintext"
proof -
  let ?h = "blob_header_bytes epoch (length plaintext)"
  let ?n = "blob_nonce cr key ?h plaintext"
  obtain ct where ct: "cipher_encrypt (cr_siv cr) key ?n ?h plaintext = Inr ct" "object = ?h @ ?n @ ct"
    using assms(4) by (auto simp: encrypt_blob_def Let_def bindr_eq_Inr split: if_splits)
  have n: "length ?n = 12" using assms(2) by (simp add: blob_nonce_def hash_ok_def NONCE_LEN_def)
  note opens = cipher_opens [OF assms(1) ct(1)]
  show header: "parse_blob_header object = Inr \<lparr>bh_epoch = epoch, bh_plaintext_len = of_nat (length plaintext)\<rparr>"
    unfolding ct(2) by (rule parse_blob_header_bytes [OF assms(3)]) (simp add: n opens(2))
  have "take BLOB_HEADER_LEN object = ?h" "slice BLOB_HEADER_LEN (BLOB_HEADER_LEN + NONCE_LEN) object = ?n"
    "drop (BLOB_HEADER_LEN + NONCE_LEN) object = ct"
    by (simp_all add: ct(2) slice_def length_blob_header_bytes n NONCE_LEN_def)
  then show "decrypt_blob cr key object = Inr plaintext"
    using opens(1) by (simp add: decrypt_blob_def header Let_def)
qed

lemma map_crypt_error_eq_Inr: "map_crypt_error r = Inr a \<longleftrightarrow> r = Inr a"
  by (cases r) (simp_all add: map_crypt_error_def)

lemma wrap_unwrap:
  assumes "aead_ok (cr_siv cr)" and "hash_ok cr" and "length (key_bytes dek) = 32"
    and "keyring_wrap cr kr i epoch dek = Inr wrapped"
  shows "keyring_unwrap cr kr i epoch wrapped = Inr dek"
proof -
  obtain kek where kek: "keyring_key kr i epoch = Inr kek"
    "encrypt_blob cr (derive_key cr kek (str_bytes ''corium/key-wrap'')) epoch (key_bytes dek) = Inr wrapped"
    using assms(4) by (auto simp: keyring_wrap_def bindr_eq_Inr map_crypt_error_eq_Inr)
  have "length (key_bytes dek) < 2 ^ 62" using assms(3) by simp
  note blob = encrypt_blob_opens [OF assms(1,2) this kek(2)]
  show ?thesis
    using assms(3) by (simp add: keyring_unwrap_def kek(1) Let_def blob map_crypt_error_def key_from_slice_def)
qed

subsection \<open>Log records\<close>

lemma length_log_header:
  "length nonce = 12 \<Longrightarrow> length (fst (log_header_and_aad epoch lineage v t nonce)) = LOG_HEADER_LEN"
  by (simp add: log_header_and_aad_def Let_def crypt_simps)

lemma log_payload_fields:
  assumes "length nonce = 12" and "payload = fst (log_header_and_aad epoch lineage v t nonce) @ ct" and "16 \<le> length ct"
  shows "is_encrypted_log_record payload"
    and "parse_log_header payload = Inr \<lparr>lh_epoch = epoch, lh_t = t\<rparr>"
    and "drop (LOG_HEADER_LEN - NONCE_LEN) (take LOG_HEADER_LEN payload) = nonce"
    and "drop LOG_HEADER_LEN payload = ct"
proof -
  have layout: "payload = LOG_MAGIC @ [ALGORITHM_AES_256_GCM] @ u32_to_be_bytes epoch @ u64_to_be_bytes t @ nonce @ ct"
    by (simp add: assms(2) log_header_and_aad_def Let_def)
  have magic: "length LOG_MAGIC = 8" by (simp add: crypt_simps)
  have lens: "LOG_HEADER_LEN = 33" "NONCE_LEN = 12" by (simp_all add: crypt_simps)
  show enc: "is_encrypted_log_record payload" by (simp add: is_encrypted_log_record_def layout)
  have "slice 9 13 payload = u32_to_be_bytes epoch" "slice 13 21 payload = u64_to_be_bytes t"
    by (simp_all add: layout slice_def magic)
  moreover have "\<not> length payload < LOG_HEADER_LEN + AEAD_TAG_LEN"
    using assms(1,3) by (simp add: layout magic lens AEAD_TAG_LEN_def)
  moreover have "payload ! length LOG_MAGIC = ALGORITHM_AES_256_GCM" by (simp add: layout)
  ultimately show "parse_log_header payload = Inr \<lparr>lh_epoch = epoch, lh_t = t\<rparr>"
    using enc by (simp add: parse_log_header_def Let_def magic)
  show "drop (LOG_HEADER_LEN - NONCE_LEN) (take LOG_HEADER_LEN payload) = nonce" "drop LOG_HEADER_LEN payload = ct"
    using assms(1) by (simp_all add: layout magic lens)
qed

lemma encrypt_log_record_Inr:
  assumes "encrypt_log_record cr entropy key epoch lineage v t plaintext = Inr payload"
  obtains nonce ct where "entropy = Some nonce"
    "cipher_encrypt (cr_gcm cr) key nonce (snd (log_header_and_aad epoch lineage v t nonce)) plaintext = Inr ct"
    "payload = fst (log_header_and_aad epoch lineage v t nonce) @ ct"
  using assms by (auto simp: encrypt_log_record_def bindr_eq_Inr ok_or_eq_Inr Let_def split_beta)

lemma encrypt_log_record_opens:
  assumes "aead_ok (cr_gcm cr)" and "length nonce = 12"
    and "encrypt_log_record cr (Some nonce) key epoch lineage v t plaintext = Inr payload"
  shows "is_encrypted_log_record payload" and "parse_log_header payload = Inr \<lparr>lh_epoch = epoch, lh_t = t\<rparr>"
    and "decrypt_log_record cr key lineage v payload = Inr plaintext"
proof -
  obtain ct where ct: "cipher_encrypt (cr_gcm cr) key nonce (snd (log_header_and_aad epoch lineage v t nonce)) plaintext = Inr ct"
    "payload = fst (log_header_and_aad epoch lineage v t nonce) @ ct"
    using assms(3) by (elim encrypt_log_record_Inr) auto
  note opens = cipher_opens [OF assms(1) ct(1)]
  note fields = log_payload_fields [OF assms(2) ct(2)]
  show "is_encrypted_log_record payload" "parse_log_header payload = Inr \<lparr>lh_epoch = epoch, lh_t = t\<rparr>"
    using fields opens(2) by simp_all
  then show "decrypt_log_record cr key lineage v payload = Inr plaintext"
    using fields opens by (simp add: decrypt_log_record_def Let_def split_beta)
qed

text \<open>The additional data determines everything it is made of, the split of lineage and version included.\<close>

lemma log_aad_inject:
  assumes "snd (log_header_and_aad e l v t n) = snd (log_header_and_aad e' l' v' t' n')"
    and "length l < 2 ^ 64" and "length l' < 2 ^ 64"
  shows "e = e' \<and> l = l' \<and> v = v' \<and> t = t' \<and> n = n'"
proof -
  let ?w = "\<lambda>x. u64_to_be_bytes x"
  have eq: "?w (of_nat (length l)) @ l @ ?w v @ LOG_MAGIC @ [ALGORITHM_AES_256_GCM] @ u32_to_be_bytes e @ ?w t @ n
      = ?w (of_nat (length l')) @ l' @ ?w v' @ LOG_MAGIC @ [ALGORITHM_AES_256_GCM] @ u32_to_be_bytes e' @ ?w t' @ n'"
    using assms(1) by (simp add: log_header_and_aad_def Let_def)
  have "?w (of_nat (length l)) = ?w (of_nat (length l'))"
    using eq by (simp add: append_eq_append_conv)
  then have "of_nat (length l) = (of_nat (length l') :: u64)" by (metis u64_from_to_be_bytes)
  then have "unat (of_nat (length l) :: u64) = unat (of_nat (length l') :: u64)" by simp
  then have len: "length l = length l'" using assms(2,3) by (simp add: unat_of_nat)
  then have "l = l'" "?w v = ?w v'" "u32_to_be_bytes e = u32_to_be_bytes e'" "?w t = ?w t'" "n = n'"
    using eq by (simp_all add: append_eq_append_conv)
  then show ?thesis by (metis u64_from_to_be_bytes u32_from_to_be_bytes)
qed


lemma decrypt_log_record_Inr:
  assumes "decrypt_log_record cr key lineage v payload = Inr plaintext"
  obtains h where "parse_log_header payload = Inr h"
    "ae_decrypt (cr_gcm cr) (key_bytes key) (drop (LOG_HEADER_LEN - NONCE_LEN) (take LOG_HEADER_LEN payload))
       (snd (log_header_and_aad (lh_epoch h) lineage v (lh_t h) (drop (LOG_HEADER_LEN - NONCE_LEN) (take LOG_HEADER_LEN payload))))
       (drop LOG_HEADER_LEN payload) = Some plaintext"
  using assms
  by (auto simp: decrypt_log_record_def bindr_eq_Inr Let_def split_beta cipher_decrypt_def ok_or_eq_Inr split: if_splits)

subsection \<open>Properties\<close>

text \<open>
  What was sealed under a key: for each record its nonce, epoch, lineage, log version,
  transaction number and plaintext.
\<close>

record seal_event =
  se_nonce :: bytes
  se_epoch :: u32
  se_lineage :: bytes
  se_version :: u64
  se_t :: u64
  se_plaintext :: bytes

definition sealed_payload :: "crypto \<Rightarrow> secret_key \<Rightarrow> seal_event \<Rightarrow> crypt_error + bytes" where
  "sealed_payload cr key ev = encrypt_log_record cr (Some (se_nonce ev)) key (se_epoch ev) (se_lineage ev)
     (se_version ev) (se_t ev) (se_plaintext ev)"

definition event_aad :: "seal_event \<Rightarrow> bytes" where
  "event_aad ev = snd (log_header_and_aad (se_epoch ev) (se_lineage ev) (se_version ev) (se_t ev) (se_nonce ev))"

text \<open>
  The cipher authenticates under a key: it accepts only a nonce, additional data and ciphertext
  that an encryption under this key produced.
\<close>

definition authentic :: "aead \<Rightarrow> secret_key \<Rightarrow> seal_event list \<Rightarrow> bool" where
  "authentic c key events \<longleftrightarrow> (\<forall>nonce aad ct msg. ae_decrypt c (key_bytes key) nonce aad ct = Some msg \<longrightarrow>
     (\<exists>ev \<in> set events. nonce = se_nonce ev \<and> aad = event_aad ev \<and>
        ae_encrypt c (key_bytes key) nonce aad (se_plaintext ev) = Some ct))"

text \<open>C20. A log record opens only where it was sealed: if a payload decrypts under a lineage and a
  log version, then a record with this lineage, version and transaction number and with these
  contents was sealed under the key, provided the cipher authenticates its inputs. The additional
  data is made of the length of the lineage, the lineage, the version and the header, so no other
  position has the same.\<close>

theorem opened_record_was_sealed_here:
  assumes "aead_ok (cr_gcm cr)" and "authentic (cr_gcm cr) key events"
    and "length lineage < 2 ^ 64" and "\<forall>ev \<in> set events. length (se_lineage ev) < 2 ^ 64"
    and "parse_log_header payload = Inr h" and "decrypt_log_record cr key lineage v payload = Inr plaintext"
  shows "\<exists>ev \<in> set events. se_lineage ev = lineage \<and> se_version ev = v \<and> se_epoch ev = lh_epoch h \<and>
    se_t ev = lh_t h \<and> se_plaintext ev = plaintext"
proof -
  let ?n = "drop (LOG_HEADER_LEN - NONCE_LEN) (take LOG_HEADER_LEN payload)"
  let ?a = "snd (log_header_and_aad (lh_epoch h) lineage v (lh_t h) ?n)"
  have dec: "ae_decrypt (cr_gcm cr) (key_bytes key) ?n ?a (drop LOG_HEADER_LEN payload) = Some plaintext"
    using assms(5,6) by (elim decrypt_log_record_Inr) simp
  then obtain ev where ev: "ev \<in> set events" "?n = se_nonce ev" "?a = event_aad ev"
      "ae_encrypt (cr_gcm cr) (key_bytes key) ?n ?a (se_plaintext ev) = Some (drop LOG_HEADER_LEN payload)"
    using assms(2) unfolding authentic_def by blast
  have "se_plaintext ev = plaintext" using ev(4) dec assms(1) unfolding aead_ok_def by fastforce
  moreover have "lh_epoch h = se_epoch ev \<and> lineage = se_lineage ev \<and> v = se_version ev \<and> lh_t h = se_t ev \<and> ?n = se_nonce ev"
    using log_aad_inject [OF ev(3) [unfolded event_aad_def]] assms(3,4) ev(1) by blast
  ultimately show ?thesis using ev(1) by metis
qed

definition wit_event :: seal_event where
  "wit_event = \<lparr>se_nonce = replicate 12 7, se_epoch = 2, se_lineage = [1, 2], se_version = 3, se_t = 42, se_plaintext = [9]\<rparr>"

text \<open>A cipher that knows one message.\<close>

definition wit_aead :: aead where
  "wit_aead = \<lparr>
     ae_encrypt = (\<lambda>key nonce aad msg. if nonce = se_nonce wit_event \<and> aad = event_aad wit_event \<and> msg = [9]
       then Some (9 # replicate 16 0) else None),
     ae_decrypt = (\<lambda>key nonce aad ct. if nonce = se_nonce wit_event \<and> aad = event_aad wit_event \<and> ct = 9 # replicate 16 0
       then Some [9] else None)\<rparr>"

definition wit_crypto :: crypto where
  "wit_crypto = \<lparr>cr_gcm = wit_aead, cr_siv = wit_aead, cr_hash = (\<lambda>_. []), cr_keyed_hash = (\<lambda>_ _. replicate 32 0)\<rparr>"

definition wit_key :: secret_key where
  "wit_key = SecretKey (replicate 32 5)"

definition wit_payload :: bytes where
  "wit_payload = fst (log_header_and_aad 2 [1, 2] 3 42 (replicate 12 7)) @ 9 # replicate 16 0"

lemma wit_aead_ok: "aead_ok wit_aead" "authentic wit_aead key [wit_event]"
  by (simp_all add: aead_ok_def authentic_def wit_aead_def wit_event_def AEAD_TAG_LEN_def)

theorem opened_record_was_sealed_here_witness:
  "decrypt_log_record wit_crypto wit_key [1, 2] 3 wit_payload = Inr [9] \<and>
   (\<exists>ev \<in> set [wit_event]. se_lineage ev = [1, 2] \<and> se_version ev = 3 \<and> se_epoch ev = 2 \<and> se_t ev = 42 \<and> se_plaintext ev = [9])"
proof -
  have "encrypt_log_record wit_crypto (Some (replicate 12 7)) wit_key 2 [1, 2] 3 42 [9] = Inr wit_payload"
    by (simp add: encrypt_log_record_def Let_def split_beta cipher_encrypt_def wit_key_def wit_crypto_def wit_aead_def
        wit_event_def event_aad_def wit_payload_def)
  note opens = encrypt_log_record_opens [OF _ _ this]
  have gcm: "cr_gcm wit_crypto = wit_aead" by (simp add: wit_crypto_def)
  have dec: "decrypt_log_record wit_crypto wit_key [1, 2] 3 wit_payload = Inr [9]"
    by (rule opens(3)) (simp_all add: gcm wit_aead_ok)
  have "parse_log_header wit_payload = Inr \<lparr>lh_epoch = 2, lh_t = 42\<rparr>"
    by (rule opens(2)) (simp_all add: gcm wit_aead_ok)
  note ev = opened_record_was_sealed_here [OF _ _ _ _ this dec, of "[wit_event]"]
  have "\<exists>ev \<in> set [wit_event]. se_lineage ev = [1, 2] \<and> se_version ev = 3 \<and>
      se_epoch ev = lh_epoch \<lparr>lh_epoch = 2, lh_t = 42\<rparr> \<and> se_t ev = lh_t \<lparr>lh_epoch = 2, lh_t = 42\<rparr> \<and> se_plaintext ev = [9]"
    by (rule ev) (simp_all add: gcm wit_aead_ok, simp add: wit_event_def)
  with dec show ?thesis by simp
qed

text \<open>Wrapped data keys: what a keyring wraps under one of its keys it unwraps to the same data
  key, and the header of the wrapped key names the epoch; unwrapping it at another epoch of the
  same identity is refused before the cipher runs.\<close>

theorem wrapped_key_round_trip:
  assumes "aead_ok (cr_siv cr)" and "hash_ok cr" and "length (key_bytes dek) = 32"
    and "keyring_wrap cr kr i epoch dek = Inr wrapped"
  shows "keyring_unwrap cr kr i epoch wrapped = Inr dek \<and>
    (\<forall>other kek. other \<noteq> epoch \<and> keyring_key kr i other = Inr kek \<longrightarrow>
       keyring_unwrap cr kr i other wrapped = Inl (WrappedEpochMismatch other epoch))"
proof -
  obtain kek where kek: "encrypt_blob cr (derive_key cr kek (str_bytes ''corium/key-wrap'')) epoch (key_bytes dek) = Inr wrapped"
    using assms(4) by (auto simp: keyring_wrap_def bindr_eq_Inr map_crypt_error_eq_Inr)
  have "length (key_bytes dek) < 2 ^ 62" using assms(3) by simp
  then have "parse_blob_header wrapped = Inr \<lparr>bh_epoch = epoch, bh_plaintext_len = of_nat (length (key_bytes dek))\<rparr>"
    by (rule encrypt_blob_opens(1) [OF assms(1,2) _ kek])
  then show ?thesis
    using wrap_unwrap [OF assms] by (auto simp: keyring_unwrap_def Let_def map_crypt_error_def)
qed

definition wit_plain_aead :: aead where
  "wit_plain_aead = \<lparr>ae_encrypt = (\<lambda>key nonce aad msg. Some (msg @ replicate 16 0)),
     ae_decrypt = (\<lambda>key nonce aad ct. Some (take (length ct - 16) ct))\<rparr>"

definition wit_plain_crypto :: crypto where
  "wit_plain_crypto = wit_crypto\<lparr>cr_siv := wit_plain_aead\<rparr>"

definition wit_keyring :: static_keyring where
  "wit_keyring = keyring_insert keyring_default ''env:KEK'' 1 wit_key True"

lemma wit_plain_ok: "aead_ok (cr_siv wit_plain_crypto)" "hash_ok wit_plain_crypto"
  by (simp_all add: aead_ok_def hash_ok_def wit_plain_crypto_def wit_plain_aead_def wit_crypto_def AEAD_TAG_LEN_def)

theorem wrapped_key_round_trip_witness:
  "\<exists>wrapped. keyring_wrap wit_plain_crypto wit_keyring ''env:KEK'' 1 wit_key = Inr wrapped \<and>
     keyring_unwrap wit_plain_crypto wit_keyring ''env:KEK'' 1 wrapped = Inr wit_key"
proof -
  have "keyring_key wit_keyring ''env:KEK'' 1 = Inr wit_key"
    by (simp add: keyring_key_def wit_keyring_def keyring_insert_def Let_def)
  then obtain wrapped where wrapped: "keyring_wrap wit_plain_crypto wit_keyring ''env:KEK'' 1 wit_key = Inr wrapped"
    by (simp add: keyring_wrap_def encrypt_blob_def Let_def cipher_encrypt_def derive_key_def map_crypt_error_def
        wit_plain_crypto_def wit_plain_aead_def wit_crypto_def wit_key_def)
  then show ?thesis
    using wrapped_key_round_trip [OF wit_plain_ok _ wrapped] by (simp add: wit_key_def)
qed

end
