(* ===== verification/Log_Codec.thy ===== *)
theory Log_Codec
  imports Crypt Datom
begin

text \<open>
  Records of the transaction log as bytes (crates/corium-log/src/lib.rs): the record encoding, the
  cipher that seals payloads with its installed keys, the codec of one log file or object, the
  checksummed frames, and the scan that finds the whole frames of a file after a crash. The CRC32C
  functions come from another package and are fields of \<open>log_env\<close>, beside the ciphers. Lengths are
  those of a 64-bit target, where every \<open>u64\<close> is a \<open>usize\<close>.
\<close>

subsection \<open>Records and errors\<close>

record tx_record =
  tr_t :: u64
  tr_tx_instant :: i64
  tr_datoms :: "datom list"

record framed_record =
  fr_t :: u64
  fr_log_version :: u64
  fr_frame :: bytes

datatype log_error =
    LogIo string
  | Corrupt
  | Native string
  | AsyncOnly
  | Encrypted
  | Unencrypted
  | MissingKeyEpoch u32
  | FramesOnly
  | LogCrypt crypt_error

record log_env =
  le_crypto :: crypto
  le_crc32c :: "bytes \<Rightarrow> u32"
  le_crc32c_append :: "u32 \<Rightarrow> bytes \<Rightarrow> u32"

text \<open>\<open>u64::checked_add\<close>, on lengths and offsets and on transaction numbers.\<close>

definition checked_add :: "nat \<Rightarrow> nat \<Rightarrow> nat option" where
  "checked_add a b = (if a + b < 2 ^ 64 then Some (a + b) else None)"

definition checked_succ :: "u64 \<Rightarrow> u64 option" where
  "checked_succ t = (if t = - 1 then None else Some (t + 1))"

subsection \<open>The record encoding\<close>

definition encode_record_datom :: "datom \<Rightarrow> bytes" where
  "encode_record_datom d =
    (let v = encode_value (d_v d)
     in u64_to_be_bytes (d_e d) @ u64_to_be_bytes (d_a d) @ u64_to_be_bytes (d_tx d)
        @ [if d_added d then 1 else 0] @ u64_to_be_bytes (of_nat (length v)) @ v)"

definition encode_record :: "tx_record \<Rightarrow> bytes" where
  "encode_record r =
    u64_to_be_bytes (tr_t r) @ u64_to_be_bytes (tr_tx_instant r) @ u64_to_be_bytes (of_nat (length (tr_datoms r)))
    @ concat (map encode_record_datom (tr_datoms r))"

definition take_bytes :: "nat \<Rightarrow> bytes \<Rightarrow> log_error + bytes \<times> bytes" where
  "take_bytes n bs = (if n \<le> length bs then Inr (take n bs, drop n bs) else Inl Corrupt)"

definition u64_be :: "bytes \<Rightarrow> log_error + u64 \<times> bytes" where
  "u64_be bs = bindr (take_bytes 8 bs) (\<lambda>(w, bs). Inr (u64_from_be_bytes w, bs))"

definition decode_record_datom :: "bytes \<Rightarrow> log_error + datom \<times> bytes" where
  "decode_record_datom bs =
    bindr (u64_be bs) (\<lambda>(e, bs).
    bindr (u64_be bs) (\<lambda>(a, bs).
    bindr (u64_be bs) (\<lambda>(tx, bs).
    bindr (take_bytes 1 bs) (\<lambda>(added, bs).
    bindr (u64_be bs) (\<lambda>(len, bs).
    bindr (take_bytes (unat len) bs) (\<lambda>(raw, bs).
      case decode_value raw of
        Inl _ \<Rightarrow> Inl Corrupt
      | Inr (v, used) \<Rightarrow>
          if used \<noteq> unat len then Inl Corrupt
          else Inr (\<lparr>d_e = e, d_a = a, d_v = v, d_tx = tx, d_added = (added ! 0 \<noteq> 0)\<rparr>, bs)))))))"

fun decode_record_datoms :: "nat \<Rightarrow> bytes \<Rightarrow> log_error + datom list \<times> bytes" where
  "decode_record_datoms 0 bs = Inr ([], bs)"
| "decode_record_datoms (Suc n) bs =
    bindr (decode_record_datom bs) (\<lambda>(d, bs).
    bindr (decode_record_datoms n bs) (\<lambda>(ds, bs). Inr (d # ds, bs)))"

definition decode_record :: "bytes \<Rightarrow> log_error + tx_record" where
  "decode_record bs =
    bindr (u64_be bs) (\<lambda>(t, bs).
    bindr (u64_be bs) (\<lambda>(tx_instant, bs).
    bindr (u64_be bs) (\<lambda>(count, bs).
    bindr (decode_record_datoms (unat count) bs) (\<lambda>(datoms, bs).
      if bs \<noteq> [] then Inl Corrupt
      else Inr \<lparr>tr_t = t, tr_tx_instant = tx_instant, tr_datoms = datoms\<rparr>))))"

subsection \<open>The cipher of a log\<close>

record key_snapshot =
  ks_current_epoch :: u32
  ks_keys :: "(u32, secret_key) omap"

record log_cipher =
  lc_lineage :: bytes
  lc_keys :: key_snapshot

definition key_snapshot_new :: "u32 \<Rightarrow> (u32 \<times> secret_key) list \<Rightarrow> log_error + key_snapshot" where
  "key_snapshot_new current_epoch keys =
    (let keys = om_of_list keys
     in if om_get keys current_epoch = None then Inl (MissingKeyEpoch current_epoch)
        else Inr \<lparr>ks_current_epoch = current_epoch, ks_keys = keys\<rparr>)"

definition snapshot_key :: "key_snapshot \<Rightarrow> u32 \<Rightarrow> log_error + secret_key" where
  "snapshot_key ks epoch = ok_or (MissingKeyEpoch epoch) (om_get (ks_keys ks) epoch)"

definition log_cipher_new :: "bytes \<Rightarrow> u32 \<Rightarrow> (u32 \<times> secret_key) list \<Rightarrow> log_error + log_cipher" where
  "log_cipher_new lineage current_epoch keys =
    bindr (key_snapshot_new current_epoch keys) (\<lambda>ks. Inr \<lparr>lc_lineage = lineage, lc_keys = ks\<rparr>)"

definition log_cipher_with_key :: "bytes \<Rightarrow> u32 \<Rightarrow> secret_key \<Rightarrow> log_cipher" where
  "log_cipher_with_key lineage epoch key =
    \<lparr>lc_lineage = lineage, lc_keys = \<lparr>ks_current_epoch = epoch, ks_keys = om_insert epoch key om_empty\<rparr>\<rparr>"

text \<open>A rotation replaces the installed keys; without a key for the new epoch it is refused.\<close>

definition log_cipher_install :: "log_cipher \<Rightarrow> u32 \<Rightarrow> (u32 \<times> secret_key) list \<Rightarrow> log_error + log_cipher" where
  "log_cipher_install c current_epoch keys =
    bindr (key_snapshot_new current_epoch keys) (\<lambda>ks. Inr (c\<lparr>lc_keys := ks\<rparr>))"

definition map_log_crypt :: "crypt_error + 'a \<Rightarrow> log_error + 'a" where
  "map_log_crypt r = (case r of Inl e \<Rightarrow> Inl (LogCrypt e) | Inr a \<Rightarrow> Inr a)"

definition log_seal ::
    "crypto \<Rightarrow> bytes option \<Rightarrow> log_cipher \<Rightarrow> u64 \<Rightarrow> u64 \<Rightarrow> bytes \<Rightarrow> log_error + bytes" where
  "log_seal cr entropy c log_version t plaintext =
    (let ks = lc_keys c
     in bindr (snapshot_key ks (ks_current_epoch ks)) (\<lambda>key.
        map_log_crypt (encrypt_log_record cr entropy key (ks_current_epoch ks) (lc_lineage c) log_version t plaintext)))"

definition log_open :: "crypto \<Rightarrow> log_cipher \<Rightarrow> u64 \<Rightarrow> log_header \<Rightarrow> bytes \<Rightarrow> log_error + bytes" where
  "log_open cr c log_version header payload =
    bindr (snapshot_key (lc_keys c) (lh_epoch header)) (\<lambda>key.
      map_log_crypt (decrypt_log_record cr key (lc_lineage c) log_version payload))"

subsection \<open>The codec of a file or object\<close>

datatype record_mode = Plain | SealedWith log_cipher | Opaque

record record_codec =
  rc_mode :: record_mode
  rc_log_version :: u64

definition codec_plaintext :: record_codec where
  "codec_plaintext = \<lparr>rc_mode = Plain, rc_log_version = 0\<rparr>"

definition mode_of_cipher :: "log_cipher option \<Rightarrow> record_mode" where
  "mode_of_cipher c = (case c of None \<Rightarrow> Plain | Some c \<Rightarrow> SealedWith c)"

definition codec_new :: "log_cipher option \<Rightarrow> u64 \<Rightarrow> record_codec" where
  "codec_new c log_version = \<lparr>rc_mode = mode_of_cipher c, rc_log_version = log_version\<rparr>"

definition codec_for_mode :: "record_mode \<Rightarrow> u64 \<Rightarrow> record_codec" where
  "codec_for_mode mode log_version = \<lparr>rc_mode = mode, rc_log_version = log_version\<rparr>"

definition codec_encode :: "log_env \<Rightarrow> bytes option \<Rightarrow> record_codec \<Rightarrow> tx_record \<Rightarrow> log_error + bytes" where
  "codec_encode env entropy codec r =
    (let encoded = encode_record r
     in case rc_mode codec of
          SealedWith c \<Rightarrow> log_seal (le_crypto env) entropy c (rc_log_version codec) (tr_t r) encoded
        | Plain \<Rightarrow> Inr encoded
        | Opaque \<Rightarrow> Inl FramesOnly)"

definition codec_decode :: "log_env \<Rightarrow> record_codec \<Rightarrow> bytes \<Rightarrow> log_error + tx_record" where
  "codec_decode env codec payload = (case rc_mode codec of
     Opaque \<Rightarrow> Inl FramesOnly
   | SealedWith c \<Rightarrow>
       if is_encrypted_log_record payload then
         bindr (map_log_crypt (parse_log_header payload)) (\<lambda>header.
         bindr (log_open (le_crypto env) c (rc_log_version codec) header payload) (\<lambda>plaintext.
         bindr (decode_record plaintext) (\<lambda>r.
           if tr_t r \<noteq> lh_t header then Inl Corrupt else Inr r)))
       else Inl Unencrypted
   | Plain \<Rightarrow> if is_encrypted_log_record payload then Inl Encrypted else decode_record payload)"

definition frame_t :: "log_env \<Rightarrow> record_codec \<Rightarrow> bytes \<Rightarrow> log_error + u64" where
  "frame_t env codec payload =
    (if rc_mode codec = Opaque then
       if is_encrypted_log_record payload
       then bindr (map_log_crypt (parse_log_header payload)) (\<lambda>h. Inr (lh_t h))
       else bindr (decode_record payload) (\<lambda>r. Inr (tr_t r))
     else bindr (codec_decode env codec payload) (\<lambda>r. Inr (tr_t r)))"

subsection \<open>Frames\<close>

definition CHECKSUMMED_FRAME :: u64 where
  "CHECKSUMMED_FRAME = push_bit 63 1"

definition FRAME_CHECKSUM_LEN :: nat where
  "FRAME_CHECKSUM_LEN = 4"

definition frame_header :: "nat \<Rightarrow> log_error + bytes" where
  "frame_header n =
    (if n \<ge> 2 ^ 64 then Inl Corrupt
     else let payload_len = of_nat n :: u64
          in if payload_len AND CHECKSUMMED_FRAME \<noteq> 0 then Inl Corrupt
             else Inr (u64_to_be_bytes (payload_len OR CHECKSUMMED_FRAME)))"

definition frame_payload_len :: "bytes \<Rightarrow> nat \<times> bool" where
  "frame_payload_len header =
    (let encoded = u64_from_be_bytes header
     in (unat (encoded AND NOT CHECKSUMMED_FRAME), encoded AND CHECKSUMMED_FRAME \<noteq> 0))"

definition frame_checksum :: "log_env \<Rightarrow> bytes \<Rightarrow> bytes \<Rightarrow> u32" where
  "frame_checksum env header payload = le_crc32c_append env (le_crc32c env header) payload"

definition append_framed_payload :: "log_env \<Rightarrow> bytes \<Rightarrow> bytes \<Rightarrow> log_error + bytes" where
  "append_framed_payload env out payload =
    bindr (frame_header (length payload)) (\<lambda>header.
      Inr (out @ header @ payload @ u32_to_be_bytes (frame_checksum env header payload)))"

definition append_framed_record :: "log_env \<Rightarrow> bytes \<Rightarrow> tx_record \<Rightarrow> log_error + bytes" where
  "append_framed_record env out r = append_framed_payload env out (encode_record r)"

definition append_framed_record_sealed ::
    "log_env \<Rightarrow> bytes option \<Rightarrow> bytes \<Rightarrow> tx_record \<Rightarrow> log_cipher option \<Rightarrow> u64 \<Rightarrow> log_error + bytes" where
  "append_framed_record_sealed env entropy out r c log_version =
    bindr (codec_encode env entropy (codec_new c log_version) r) (append_framed_payload env out)"

definition frame_len :: "nat \<Rightarrow> bool \<Rightarrow> log_error + nat" where
  "frame_len payload_len checksummed =
    ok_or Corrupt (Option.bind (checked_add 8 payload_len)
      (\<lambda>len. checked_add len (if checksummed then FRAME_CHECKSUM_LEN else 0)))"

lemma frame_len_pos: "frame_len p c = Inr n \<Longrightarrow> 8 \<le> n"
  by (auto simp: frame_len_def ok_or_eq_Inr bind_eq_Some_conv checked_add_def split: if_splits)

text \<open>One step of the loop of \<open>split_frames\<close>: the first frame, its payload and the bytes after it.\<close>

definition next_frame :: "log_env \<Rightarrow> bytes \<Rightarrow> log_error + bytes \<times> bytes \<times> bytes" where
  "next_frame env bs =
    (if length bs < 8 then Inl Corrupt
     else let header = take 8 bs; (payload_len, checksummed) = frame_payload_len header
     in bindr (frame_len payload_len checksummed) (\<lambda>n.
        if length bs < n then Inl Corrupt
        else let frame = take n bs; payload = take payload_len (drop 8 frame)
          in if checksummed \<and> u32_from_be_bytes (drop (8 + payload_len) frame) \<noteq> frame_checksum env header payload
             then Inl Corrupt
             else Inr (frame, payload, drop n bs)))"

lemma next_frame_shorter: "next_frame env bs = Inr (frame, payload, rest) \<Longrightarrow> length rest < length bs"
  by (auto simp: next_frame_def Let_def split_beta bindr_eq_Inr dest!: frame_len_pos split: if_splits)

function split_frames :: "log_env \<Rightarrow> bytes \<Rightarrow> log_error + (bytes \<times> bytes) list" where
  "split_frames env bs =
    (if bs = [] then Inr []
     else case next_frame env bs of
       Inl e \<Rightarrow> Inl e
     | Inr (frame, payload, rest) \<Rightarrow>
         bindr (split_frames env rest) (\<lambda>frames. Inr ((frame, payload) # frames)))"
  by pat_completeness auto
termination by (relation "measure (length \<circ> snd)") (auto dest: next_frame_shorter)

declare split_frames.simps [simp del]

fun map_results :: "('a \<Rightarrow> 'e + 'b) \<Rightarrow> 'a list \<Rightarrow> 'e + 'b list" where
  "map_results f [] = Inr []"
| "map_results f (x # xs) = bindr (f x) (\<lambda>y. bindr (map_results f xs) (\<lambda>ys. Inr (y # ys)))"

definition decode_framed_payloads :: "log_env \<Rightarrow> record_codec \<Rightarrow> bytes \<Rightarrow> log_error + tx_record list" where
  "decode_framed_payloads env codec bs =
    bindr (split_frames env bs) (map_results (\<lambda>(_, payload). codec_decode env codec payload))"

definition decode_framed_records :: "log_env \<Rightarrow> bytes \<Rightarrow> log_error + tx_record list" where
  "decode_framed_records env bs = decode_framed_payloads env codec_plaintext bs"

definition decode_framed_records_sealed ::
    "log_env \<Rightarrow> bytes \<Rightarrow> log_cipher option \<Rightarrow> u64 \<Rightarrow> log_error + tx_record list" where
  "decode_framed_records_sealed env bs c log_version = decode_framed_payloads env (codec_new c log_version) bs"

definition split_framed_records :: "log_env \<Rightarrow> bytes \<Rightarrow> log_error + (u64 \<times> bytes) list" where
  "split_framed_records env bs =
    bindr (split_frames env bs) (map_results (\<lambda>(frame, payload).
      bindr (frame_t env (codec_for_mode Opaque 0) payload) (\<lambda>t. Inr (t, frame))))"

subsection \<open>Scanning a file\<close>

record frame_index =
  fi_t :: u64
  fi_offset :: nat
  fi_len :: nat

text \<open>
  One round of the loop of \<open>scan_frames\<close> at an offset: \<open>None\<close> where the loop ends because the rest
  of the file holds no whole frame, otherwise the entry of the frame and the offset after it.
\<close>

definition scan_frame ::
    "log_env \<Rightarrow> record_codec \<Rightarrow> bytes \<Rightarrow> nat \<Rightarrow> log_error + (frame_index \<times> nat) option" where
  "scan_frame env codec file durable_len =
    (if length file - durable_len < 8 then Inr None
     else let len = take 8 (drop durable_len file); (payload_len, checksummed) = frame_payload_len len
     in bindr (frame_len payload_len checksummed) (\<lambda>n.
        if length file - durable_len < n then Inr None
        else let payload = take payload_len (drop (durable_len + 8) file);
                 stored = take FRAME_CHECKSUM_LEN (drop (durable_len + 8 + payload_len) file)
          in if checksummed \<and> u32_from_be_bytes stored \<noteq> frame_checksum env len payload then Inl Corrupt
             else bindr (frame_t env codec payload) (\<lambda>t.
                  bindr (ok_or Corrupt (checked_add durable_len n)) (\<lambda>after.
                    Inr (Some (\<lparr>fi_t = t, fi_offset = durable_len, fi_len = n\<rparr>, after))))))"

lemma scan_frame_progress:
  "scan_frame env codec file d = Inr (Some (f, d')) \<Longrightarrow> d < d' \<and> d' \<le> length file \<and> d' = d + fi_len f"
  by (auto simp: scan_frame_def Let_def split_beta bindr_eq_Inr ok_or_eq_Inr checked_add_def dest!: frame_len_pos split: if_splits)

function scan_frames ::
    "log_env \<Rightarrow> record_codec \<Rightarrow> bytes \<Rightarrow> nat \<Rightarrow> log_error + frame_index list \<times> nat" where
  "scan_frames env codec file durable_len =
    (case scan_frame env codec file durable_len of
       Inl e \<Rightarrow> Inl e
     | Inr None \<Rightarrow> Inr ([], durable_len)
     | Inr (Some (f, after)) \<Rightarrow>
         bindr (scan_frames env codec file after) (\<lambda>(frames, durable). Inr (f # frames, durable)))"
  by pat_completeness auto
termination
  by (relation "measure (\<lambda>(_, _, file, durable_len). length file - durable_len)") (auto dest!: scan_frame_progress)

declare scan_frames.simps [simp del]

subsection \<open>Records round trip\<close>

text \<open>Records a machine can hold: their strings are UTF-8 and their lengths are 64-bit numbers.\<close>

definition record_datom_ok :: "datom \<Rightarrow> bool" where
  "record_datom_ok d \<longleftrightarrow> value_wf (d_v d) \<and> length (encode_value (d_v d)) < 2 ^ 64"

definition record_ok :: "tx_record \<Rightarrow> bool" where
  "record_ok r \<longleftrightarrow> list_all record_datom_ok (tr_datoms r) \<and> length (tr_datoms r) < 2 ^ 64"

lemma take_bytes_append [simp]: "length a = n \<Longrightarrow> take_bytes n (a @ b) = Inr (a, b)"
  by (simp add: take_bytes_def)

lemma u64_be_append [simp]: "u64_be (u64_to_be_bytes w @ b) = Inr (w, b)"
  by (simp add: u64_be_def)

lemma decode_encode_record_datom:
  assumes "record_datom_ok d"
  shows "decode_record_datom (encode_record_datom d @ rest) = Inr (d, rest)"
proof -
  let ?v = "encode_value (d_v d)"
  have len: "unat (of_nat (length ?v) :: u64) = length ?v"
    using assms by (simp add: record_datom_ok_def unat_of_nat)
  have one: "take_bytes (Suc 0) (b # bs) = Inr ([b], bs)" for b :: byte and bs
    by (simp add: take_bytes_def)
  have "decode_value ?v = Inr (d_v d, length ?v)"
    using decode_encode_value [of "d_v d" "[]"] assms by (simp add: record_datom_ok_def)
  then show ?thesis
    by (simp add: decode_record_datom_def encode_record_datom_def Let_def one len)
qed

lemma decode_encode_record_datoms:
  "list_all record_datom_ok ds \<Longrightarrow>
   decode_record_datoms (length ds) (concat (map encode_record_datom ds) @ rest) = Inr (ds, rest)"
  by (induction ds) (simp_all add: decode_encode_record_datom)

lemma decode_encode_record: "record_ok r \<Longrightarrow> decode_record (encode_record r) = Inr r"
  using decode_encode_record_datoms [of "tr_datoms r" "[]"]
  by (simp add: decode_record_def encode_record_def record_ok_def unat_of_nat)

subsection \<open>Payloads round trip\<close>

text \<open>A record whose number is written with the bytes of the encrypted marker reads as encrypted.\<close>

definition LOG_MAGIC_T :: u64 where
  "LOG_MAGIC_T = u64_from_be_bytes LOG_MAGIC"

lemma encode_record_not_encrypted:
  "is_encrypted_log_record (encode_record r) \<longleftrightarrow> tr_t r = LOG_MAGIC_T"
proof -
  have magic: "length LOG_MAGIC = 8" by (simp add: crypt_simps)
  have "is_encrypted_log_record (encode_record r) \<longleftrightarrow> u64_to_be_bytes (tr_t r) = LOG_MAGIC"
    by (simp add: is_encrypted_log_record_def encode_record_def magic)
  also have "\<dots> \<longleftrightarrow> tr_t r = LOG_MAGIC_T"
    unfolding LOG_MAGIC_T_def by (metis magic u64_from_to_be_bytes u64_to_from_be_bytes)
  finally show ?thesis .
qed

definition codec_ok :: "log_env \<Rightarrow> record_codec \<Rightarrow> bool" where
  "codec_ok env codec \<longleftrightarrow> (case rc_mode codec of
     Plain \<Rightarrow> True | SealedWith c \<Rightarrow> aead_ok (cr_gcm (le_crypto env)) | Opaque \<Rightarrow> False)"

text \<open>The payload a codec writes for a record, with some fresh nonce.\<close>

definition payload_of :: "log_env \<Rightarrow> record_codec \<Rightarrow> tx_record \<Rightarrow> bytes \<Rightarrow> bool" where
  "payload_of env codec r payload \<longleftrightarrow>
    (\<exists>nonce. length nonce = 12 \<and> codec_encode env (Some nonce) codec r = Inr payload)"

lemma map_log_crypt_eq_Inr: "map_log_crypt x = Inr a \<longleftrightarrow> x = Inr a"
  by (cases x) (simp_all add: map_log_crypt_def)

lemma payload_opens:
  assumes "codec_ok env codec" and "record_ok r" and "tr_t r \<noteq> LOG_MAGIC_T" and "payload_of env codec r payload"
  shows "codec_decode env codec payload = Inr r" and "frame_t env codec payload = Inr (tr_t r)"
    and "frame_t env (codec_for_mode Opaque v) payload = Inr (tr_t r)"
proof -
  obtain nonce where nonce: "length nonce = 12" "codec_encode env (Some nonce) codec r = Inr payload"
    using assms(4) by (auto simp: payload_of_def)
  note rt = decode_encode_record [OF assms(2)]
  have both: "codec_decode env codec payload = Inr r \<and> frame_t env (codec_for_mode Opaque v) payload = Inr (tr_t r)"
  proof (cases "rc_mode codec")
    case Plain
    then have "payload = encode_record r" using nonce(2) by (simp add: codec_encode_def)
    then show ?thesis
      using Plain assms(3) by (simp add: codec_decode_def frame_t_def codec_for_mode_def encode_record_not_encrypted rt)
  next
    case (SealedWith c)
    obtain key where key: "snapshot_key (lc_keys c) (ks_current_epoch (lc_keys c)) = Inr key"
      "encrypt_log_record (le_crypto env) (Some nonce) key (ks_current_epoch (lc_keys c)) (lc_lineage c)
         (rc_log_version codec) (tr_t r) (encode_record r) = Inr payload"
      using nonce(2) SealedWith by (auto simp: codec_encode_def log_seal_def Let_def bindr_eq_Inr map_log_crypt_eq_Inr)
    have "aead_ok (cr_gcm (le_crypto env))" using assms(1) SealedWith by (simp add: codec_ok_def)
    note opens = encrypt_log_record_opens [OF this nonce(1) key(2)]
    show ?thesis
      using SealedWith key(1) opens
      by (simp add: codec_decode_def frame_t_def codec_for_mode_def log_open_def map_log_crypt_def rt)
  next
    case Opaque
    then show ?thesis using assms(1) by (simp add: codec_ok_def)
  qed
  then show "codec_decode env codec payload = Inr r" "frame_t env (codec_for_mode Opaque v) payload = Inr (tr_t r)"
    by simp_all
  have "rc_mode codec \<noteq> Opaque" using assms(1) by (auto simp: codec_ok_def)
  then show "frame_t env codec payload = Inr (tr_t r)" using both by (simp add: frame_t_def)
qed

subsection \<open>Frames round trip\<close>

lemma CHECKSUMMED_FRAME_sign_bit: "CHECKSUMMED_FRAME = sign_bit"
  by (simp add: CHECKSUMMED_FRAME_def sign_bit_def)

lemma bit_63_unat: "bit (w :: u64) 63 \<longleftrightarrow> 2 ^ 63 \<le> unat w"
proof -
  have "bit w 63 \<longleftrightarrow> bit (unat w) 63" by (simp add: bit_unsigned_iff)
  also have "\<dots> \<longleftrightarrow> odd (unat w div 2 ^ 63)" by (simp only: bit_iff_odd)
  also have "\<dots> \<longleftrightarrow> 2 ^ 63 \<le> unat w"
  proof (cases "2 ^ 63 \<le> unat w")
    case True
    then have "unat w div 2 ^ 63 = 1" using unat_less_pow [of w] by (intro div_nat_eqI) simp_all
    with True show ?thesis by simp
  next
    case False
    then have "unat w div 2 ^ 63 = 0" by (intro div_less) simp
    with False show ?thesis by simp
  qed
  finally show ?thesis .
qed

lemma checksummed_flag:
  fixes w :: u64
  shows "w AND CHECKSUMMED_FRAME = 0 \<longleftrightarrow> unat w < 2 ^ 63"
    and "unat w < 2 ^ 63 \<Longrightarrow> (w OR CHECKSUMMED_FRAME) AND NOT CHECKSUMMED_FRAME = w"
    and "(w OR CHECKSUMMED_FRAME) AND CHECKSUMMED_FRAME \<noteq> 0"
proof -
  show "w AND CHECKSUMMED_FRAME = 0 \<longleftrightarrow> unat w < 2 ^ 63"
    by (simp add: CHECKSUMMED_FRAME_sign_bit and_sign_bit_eq_0 bit_63_unat not_le)
  show "(w OR CHECKSUMMED_FRAME) AND NOT CHECKSUMMED_FRAME = w" if "unat w < 2 ^ 63"
    using that bit_63_unat [of w]
    by (intro bit_eqI) (auto simp: bit_and_iff bit_or_iff bit_not_iff CHECKSUMMED_FRAME_sign_bit bit_sign_bit)
  have "bit ((w OR CHECKSUMMED_FRAME) AND CHECKSUMMED_FRAME) 63"
    by (simp add: bit_and_iff bit_or_iff CHECKSUMMED_FRAME_sign_bit bit_sign_bit)
  then show "(w OR CHECKSUMMED_FRAME) AND CHECKSUMMED_FRAME \<noteq> 0" by (metis bit_0_eq bot_apply bot_bool_def)
qed

definition frame_bytes :: "log_env \<Rightarrow> bytes \<Rightarrow> bytes" where
  "frame_bytes env payload =
    (let header = u64_to_be_bytes (of_nat (length payload) OR CHECKSUMMED_FRAME)
     in header @ payload @ u32_to_be_bytes (frame_checksum env header payload))"

lemma append_framed_payload_Inr:
  "append_framed_payload env out payload = Inr frame \<longleftrightarrow> length payload < 2 ^ 63 \<and> frame = out @ frame_bytes env payload"
proof (cases "length payload < 2 ^ 64")
  case True
  then have "unat (of_nat (length payload) :: u64) = length payload" by (simp add: unat_of_nat)
  then show ?thesis
    using True by (auto simp: append_framed_payload_def frame_header_def Let_def checksummed_flag(1) frame_bytes_def)
next
  case False
  then show ?thesis by (simp add: append_framed_payload_def frame_header_def)
qed

lemma length_frame_bytes: "length (frame_bytes env payload) = 12 + length payload"
  by (simp add: frame_bytes_def Let_def)

lemma frame_bytes_header:
  assumes "length payload < 2 ^ 63"
  shows "frame_payload_len (take 8 (frame_bytes env payload)) = (length payload, True)"
    and "frame_len (length payload) True = Inr (length (frame_bytes env payload))"
proof -
  have n: "unat (of_nat (length payload) :: u64) = length payload" using assms by (simp add: unat_of_nat)
  then show "frame_payload_len (take 8 (frame_bytes env payload)) = (length payload, True)"
    using assms checksummed_flag(2) [of "of_nat (length payload)"] checksummed_flag(3) [of "of_nat (length payload)"]
    by (simp only: frame_bytes_def frame_payload_len_def Let_def take_append length_u64_to_be_bytes) (simp add: n)
  show "frame_len (length payload) True = Inr (length (frame_bytes env payload))"
    using assms by (simp add: frame_len_def checked_add_def FRAME_CHECKSUM_LEN_def length_frame_bytes)
qed

lemma frame_bytes_parts:
  "take (length payload) (drop 8 (frame_bytes env payload)) = payload"
  "drop (8 + length payload) (frame_bytes env payload) = u32_to_be_bytes (frame_checksum env (take 8 (frame_bytes env payload)) payload)"
  by (simp_all add: frame_bytes_def Let_def)

lemma next_frame_bytes:
  assumes "length payload < 2 ^ 63"
  shows "next_frame env (frame_bytes env payload @ rest) = Inr (frame_bytes env payload, payload, rest)"
proof -
  let ?f = "frame_bytes env payload"
  have eight: "take 8 (?f @ rest) = take 8 ?f" using length_frame_bytes [of env payload] by simp
  show ?thesis
    unfolding next_frame_def eight Let_def frame_bytes_header [OF assms]
    using length_frame_bytes [of env payload] frame_bytes_parts [of payload env] by (simp add: frame_bytes_header(2) [OF assms, of env])
qed

lemma split_frames_Cons:
  assumes "length payload < 2 ^ 63"
  shows "split_frames env (frame_bytes env payload @ rest) =
    bindr (split_frames env rest) (\<lambda>fs. Inr ((frame_bytes env payload, payload) # fs))"
proof -
  have "frame_bytes env payload \<noteq> []" using length_frame_bytes [of env payload] by auto
  then show ?thesis by (subst split_frames.simps) (simp add: next_frame_bytes [OF assms])
qed

lemma split_frames_Nil [simp]: "split_frames env [] = Inr []"
  by (simp add: split_frames.simps)

lemma split_frames_concat:
  "list_all (\<lambda>p. length p < 2 ^ 63) ps \<Longrightarrow>
   split_frames env (concat (map (frame_bytes env) ps)) = Inr (map (\<lambda>p. (frame_bytes env p, p)) ps)"
  by (induction ps) (simp_all add: split_frames_Cons)

subsection \<open>Recovery of a file\<close>

definition frame_of :: "log_env \<Rightarrow> record_codec \<Rightarrow> tx_record \<Rightarrow> bytes \<Rightarrow> bool" where
  "frame_of env codec r frame \<longleftrightarrow>
    (\<exists>payload. payload_of env codec r payload \<and> length payload < 2 ^ 63 \<and> frame = frame_bytes env payload)"

text \<open>Records that read back: of machine size, and with a number that is not the encrypted marker.\<close>

definition loggable :: "tx_record \<Rightarrow> bool" where
  "loggable r \<longleftrightarrow> record_ok r \<and> tr_t r \<noteq> LOG_MAGIC_T"

fun index_frames :: "nat \<Rightarrow> tx_record list \<Rightarrow> bytes list \<Rightarrow> frame_index list" where
  "index_frames offset (r # rs) (f # fs) =
    \<lparr>fi_t = tr_t r, fi_offset = offset, fi_len = length f\<rparr> # index_frames (offset + length f) rs fs"
| "index_frames _ _ _ = []"

lemma length_index_frames [simp]: "length rs = length fs \<Longrightarrow> length (index_frames offset rs fs) = length rs"
  by (induction offset rs fs rule: index_frames.induct) auto

lemma index_frames_t: "length rs = length fs \<Longrightarrow> map fi_t (index_frames offset rs fs) = map tr_t rs"
  by (induction offset rs fs rule: index_frames.induct) auto

lemma scan_frame_whole:
  assumes "codec_ok env codec" and "loggable r" and "frame_of env codec r frame"
    and "length (pre @ frame @ rest) < 2 ^ 64"
  shows "scan_frame env codec (pre @ frame @ rest) (length pre) =
    Inr (Some (\<lparr>fi_t = tr_t r, fi_offset = length pre, fi_len = length frame\<rparr>, length pre + length frame))"
proof -
  obtain payload where payload: "payload_of env codec r payload" "length payload < 2 ^ 63" "frame = frame_bytes env payload"
    using assms(3) by (auto simp: frame_of_def)
  have t: "frame_t env codec payload = Inr (tr_t r)"
    using payload_opens(2) [OF assms(1) _ _ payload(1)] assms(2) by (simp add: loggable_def)
  have len: "length frame = 12 + length payload" by (simp add: payload(3) length_frame_bytes)
  have eight: "take 8 (frame @ rest) = take 8 frame" using len by simp
  have body: "take (length payload) (drop 8 (frame @ rest)) = payload"
    using len frame_bytes_parts(1) [of payload env] payload(3) by simp
  have "length frame - (8 + length payload) = 4" using len by simp
  then have sum: "take FRAME_CHECKSUM_LEN (drop (8 + length payload) (frame @ rest)) = u32_to_be_bytes (frame_checksum env (take 8 frame) payload)"
    using len frame_bytes_parts(2) [of payload env] payload(3) by (simp add: FRAME_CHECKSUM_LEN_def)
  have drops: "drop (length pre + k) (pre @ xs) = drop k xs" for k and xs :: bytes by simp
  show ?thesis
    unfolding scan_frame_def
    using assms(4) frame_bytes_header [OF payload(2), of env] t eight body sum
    by (simp add: Let_def checked_add_def add.assoc drops len flip: payload(3))
qed

lemma scan_frame_torn:
  assumes "length payload < 2 ^ 63" and "k < length (frame_bytes env payload)"
  shows "scan_frame env codec (pre @ take k (frame_bytes env payload)) (length pre) = Inr None"
proof (cases "k < 8")
  case True
  then show ?thesis by (simp add: scan_frame_def min_def)
next
  case False
  then have "take 8 (take k (frame_bytes env payload)) = take 8 (frame_bytes env payload)" by simp
  then show ?thesis
    using frame_bytes_header [OF assms(1), of env] assms(2) False by (simp add: scan_frame_def Let_def)
qed

lemma scan_frame_end: "scan_frame env codec file (length file) = Inr None"
  by (simp add: scan_frame_def)

lemma scan_frames_durable:
  assumes "codec_ok env codec" and "list_all loggable rs" and "list_all2 (frame_of env codec) rs fs"
    and "length (pre @ concat fs @ torn) < 2 ^ 64"
    and "scan_frame env codec (pre @ concat fs @ torn) (length pre + length (concat fs)) = Inr None"
  shows "scan_frames env codec (pre @ concat fs @ torn) (length pre) =
    Inr (index_frames (length pre) rs fs, length pre + length (concat fs))"
  using assms(3,2,4,5)
proof (induction rs fs arbitrary: pre rule: list_all2_induct)
  case Nil
  then show ?case by (subst scan_frames.simps) simp
next
  case (Cons r rs f fs)
  let ?file = "pre @ concat (f # fs) @ torn"
  have "scan_frame env codec ?file (length pre) =
      Inr (Some (\<lparr>fi_t = tr_t r, fi_offset = length pre, fi_len = length f\<rparr>, length pre + length f))"
    using scan_frame_whole [OF assms(1) _ Cons(1), of pre "concat fs @ torn"] Cons.prems by simp
  moreover have "scan_frames env codec ?file (length pre + length f) =
      Inr (index_frames (length pre + length f) rs fs, length pre + length (concat (f # fs)))"
    using Cons.IH [of "pre @ f"] Cons.prems by (simp add: add.assoc)
  ultimately show ?case by (subst scan_frames.simps) simp
qed

lemma decode_framed_payloads_concat:
  assumes "codec_ok env codec" and "list_all loggable rs" and "list_all2 (frame_of env codec) rs fs"
  shows "decode_framed_payloads env codec (concat fs) = Inr rs"
  using assms(3,2)
proof (induction rs fs rule: list_all2_induct)
  case Nil
  then show ?case by (simp add: decode_framed_payloads_def)
next
  case (Cons r rs f fs)
  obtain payload where payload: "payload_of env codec r payload" "length payload < 2 ^ 63" "f = frame_bytes env payload"
    using Cons(1) by (auto simp: frame_of_def)
  have "codec_decode env codec payload = Inr r"
    using payload_opens(1) [OF assms(1) _ _ payload(1)] Cons.prems by (simp add: loggable_def)
  moreover obtain ps where "split_frames env (concat fs) = Inr ps" "map_results (\<lambda>(_, p). codec_decode env codec p) ps = Inr rs"
    using Cons.IH Cons.prems by (auto simp: decode_framed_payloads_def bindr_eq_Inr)
  ultimately show ?case
    by (simp add: decode_framed_payloads_def payload(3) split_frames_Cons [OF payload(2)])
qed

text \<open>A crash in the middle of an append loses nothing that was written before: if a log holds
  the frames of some records and then any proper beginning of one more frame, the scan of the file
  stops exactly at the end of the whole frames, with one index entry per record, in order, and what
  is left after cutting the file there decodes to these records. This holds for plaintext and sealed
  logs.\<close>

theorem scan_after_crash:
  assumes "codec_ok env codec" and "list_all loggable rs" and "list_all2 (frame_of env codec) rs fs"
    and "file = concat fs @ take k (frame_bytes env payload)" and "length payload < 2 ^ 63"
    and "k < length (frame_bytes env payload)" and "length file < 2 ^ 64"
  shows "\<exists>frames n. scan_frames env codec file 0 = Inr (frames, n) \<and> n = length (concat fs) \<and>
    map fi_t frames = map tr_t rs \<and> decode_framed_payloads env codec (take n file) = Inr rs"
proof -
  have "scan_frame env codec file (length (concat fs)) = Inr None"
    unfolding assms(4) by (rule scan_frame_torn [OF assms(5,6)])
  then have "scan_frames env codec file 0 = Inr (index_frames 0 rs fs, length (concat fs))"
    using scan_frames_durable [OF assms(1-3), of "[]" "take k (frame_bytes env payload)"] assms(4,7) by simp
  moreover have "take (length (concat fs)) file = concat fs" by (simp add: assms(4))
  moreover have "length rs = length fs" using assms(3) by (rule list_all2_lengthD)
  ultimately show ?thesis
    using decode_framed_payloads_concat [OF assms(1-3)] index_frames_t by metis
qed

definition wit_env :: log_env where
  "wit_env = \<lparr>le_crypto = wit_crypto, le_crc32c = (\<lambda>bs. of_nat (length bs)), le_crc32c_append = (\<lambda>c bs. c + of_nat (length bs))\<rparr>"

definition wit_record :: tx_record where
  "wit_record = \<lparr>tr_t = 1, tr_tx_instant = 5, tr_datoms = [\<lparr>d_e = 9, d_a = 8, d_v = Long 7, d_tx = 6, d_added = True\<rparr>]\<rparr>"

lemma wit_record_loggable: "loggable wit_record"
proof -
  have "LOG_MAGIC_T \<noteq> 1"
    by (simp add: LOG_MAGIC_T_def crypt_simps u64_from_be_bytes_def be_val_def)
  then show ?thesis by (simp add: loggable_def record_ok_def record_datom_ok_def wit_record_def)
qed

lemma wit_frame: "frame_of wit_env codec_plaintext wit_record (frame_bytes wit_env (encode_record wit_record))"
proof -
  have "payload_of wit_env codec_plaintext wit_record (encode_record wit_record)"
    by (auto simp: payload_of_def codec_encode_def codec_plaintext_def intro!: exI [of _ "replicate 12 0"])
  moreover have "length (encode_record wit_record) < 2 ^ 63"
    by (simp add: encode_record_def encode_record_datom_def wit_record_def Let_def)
  ultimately show ?thesis by (auto simp: frame_of_def)
qed

theorem scan_after_crash_witness:
  "\<exists>frames n. scan_frames wit_env codec_plaintext (frame_bytes wit_env (encode_record wit_record) @ take 9 (frame_bytes wit_env [1, 2])) 0
      = Inr (frames, n) \<and> map fi_t frames = [1] \<and>
     decode_framed_payloads wit_env codec_plaintext (take n (frame_bytes wit_env (encode_record wit_record) @ take 9 (frame_bytes wit_env [1, 2])))
      = Inr [wit_record]"
proof -
  let ?f = "frame_bytes wit_env (encode_record wit_record)"
  have ok: "codec_ok wit_env codec_plaintext" by (simp add: codec_ok_def codec_plaintext_def)
  have "length (encode_record wit_record) < 2 ^ 62"
    by (simp add: encode_record_def encode_record_datom_def wit_record_def Let_def)
  then have small: "length (?f @ take 9 (frame_bytes wit_env [1, 2])) < 2 ^ 64" by (simp add: length_frame_bytes)
  have t: "tr_t wit_record = 1" by (simp add: wit_record_def)
  let ?file = "?f @ take 9 (frame_bytes wit_env [1, 2])"
  have "\<exists>frames n. scan_frames wit_env codec_plaintext ?file 0 = Inr (frames, n) \<and> n = length (concat [?f]) \<and>
      map fi_t frames = map tr_t [wit_record] \<and> decode_framed_payloads wit_env codec_plaintext (take n ?file) = Inr [wit_record]"
    by (rule scan_after_crash [OF ok, where k = 9 and payload = "[1, 2]"])
      (use wit_record_loggable wit_frame small in \<open>simp_all add: length_frame_bytes\<close>)
  then obtain frames n where res: "scan_frames wit_env codec_plaintext ?file 0 = Inr (frames, n)"
    "map fi_t frames = map tr_t [wit_record]" "decode_framed_payloads wit_env codec_plaintext (take n ?file) = Inr [wit_record]"
    by blast
  have "map fi_t frames = [1]" using res(2) by (simp add: t)
  with res(1,3) show ?thesis by (intro exI conjI)
qed

end
