(* ===== verification/Tx_Log.thy ===== *)
theory Tx_Log
  imports Log_Codec
begin

text \<open>
  Transaction logs without bytes (crates/corium-log/src/lib.rs): the contract every log keeps, the
  in-memory log, the log numbered from a basis, and the log split over lease versions, with the
  takeover rule that merges the versions. The in-memory registry shares its records between every
  handle opened on a name, so it is a store of cells. Transaction numbers are \<open>u64\<close> and wrap.
\<close>

subsection \<open>Ranges\<close>

definition in_tx_range :: "u64 \<Rightarrow> u64 option \<Rightarrow> u64 \<Rightarrow> bool" where
  "in_tx_range start end t \<longleftrightarrow> start \<le> t \<and> (case end of None \<Rightarrow> True | Some e \<Rightarrow> t < e)"

definition range_records :: "u64 \<Rightarrow> u64 option \<Rightarrow> tx_record list \<Rightarrow> tx_record list" where
  "range_records start end rs = filter (\<lambda>r. in_tx_range start end (tr_t r)) rs"

text \<open>\<open>records.last().map_or(1, |r| r.t + 1)\<close>\<close>

definition next_after :: "tx_record list \<Rightarrow> u64" where
  "next_after rs = (if rs = [] then 1 else tr_t (last rs) + 1)"

subsection \<open>The in-memory log\<close>

definition memlog_append :: "tx_record list \<Rightarrow> tx_record \<Rightarrow> log_error + tx_record list" where
  "memlog_append rs r = (if next_after rs \<noteq> tr_t r then Inl Corrupt else Inr (rs @ [r]))"

definition memlog_tx_range :: "tx_record list \<Rightarrow> u64 \<Rightarrow> u64 option \<Rightarrow> log_error + tx_record list" where
  "memlog_tx_range rs start end = Inr (range_records start end rs)"

subsection \<open>The trait's own methods\<close>

fun append_batch :: "('s \<Rightarrow> tx_record \<Rightarrow> log_error + 's) \<Rightarrow> 's \<Rightarrow> tx_record list \<Rightarrow> log_error + 's" where
  "append_batch app s [] = Inr s"
| "append_batch app s (r # rs) = bindr (app s r) (\<lambda>s. append_batch app s rs)"

definition replay :: "('s \<Rightarrow> u64 \<Rightarrow> u64 option \<Rightarrow> log_error + tx_record list) \<Rightarrow> 's \<Rightarrow> log_error + tx_record list" where
  "replay tx_range s = tx_range s 0 None"

definition tx_range_framed ::
    "log_env \<Rightarrow> ('s \<Rightarrow> u64 \<Rightarrow> u64 option \<Rightarrow> log_error + tx_record list) \<Rightarrow> 's \<Rightarrow> u64 \<Rightarrow> u64 option \<Rightarrow> log_error + framed_record list" where
  "tx_range_framed env tx_range s start end =
    bindr (tx_range s start end) (map_results (\<lambda>r.
      bindr (append_framed_record env [] r) (\<lambda>frame. Inr \<lparr>fr_t = tr_t r, fr_log_version = 0, fr_frame = frame\<rparr>)))"

subsection \<open>A log numbered from a basis\<close>

definition inward :: "u64 \<Rightarrow> tx_record \<Rightarrow> log_error + tx_record" where
  "inward basis r = (if basis < tr_t r then Inr (r\<lparr>tr_t := tr_t r - basis\<rparr>) else Inl Corrupt)"

definition saturating_sub :: "u64 \<Rightarrow> u64 \<Rightarrow> u64" where
  "saturating_sub a b = (if b \<le> a then a - b else 0)"

definition saturating_add :: "u64 \<Rightarrow> u64 \<Rightarrow> u64" where
  "saturating_add a b = (if unat a + unat b < 2 ^ 64 then a + b else - 1)"

definition inward_range :: "u64 \<Rightarrow> u64 \<Rightarrow> u64 option \<Rightarrow> u64 \<times> u64 option" where
  "inward_range basis start end = (saturating_sub start basis, map_option (\<lambda>e. saturating_sub e basis) end)"

definition outward :: "u64 \<Rightarrow> tx_record list \<Rightarrow> tx_record list" where
  "outward basis rs = map (\<lambda>r. r\<lparr>tr_t := saturating_add (tr_t r) basis\<rparr>) rs"

definition rooted_append ::
    "('s \<Rightarrow> tx_record \<Rightarrow> log_error + 's) \<Rightarrow> u64 \<Rightarrow> 's \<Rightarrow> tx_record \<Rightarrow> log_error + 's" where
  "rooted_append app basis s r = bindr (inward basis r) (app s)"

definition rooted_append_batch ::
    "('s \<Rightarrow> tx_record list \<Rightarrow> log_error + 's) \<Rightarrow> u64 \<Rightarrow> 's \<Rightarrow> tx_record list \<Rightarrow> log_error + 's" where
  "rooted_append_batch batch basis s rs = bindr (map_results (inward basis) rs) (batch s)"

definition rooted_tx_range ::
    "('s \<Rightarrow> u64 \<Rightarrow> u64 option \<Rightarrow> log_error + tx_record list) \<Rightarrow> u64 \<Rightarrow> 's \<Rightarrow> u64 \<Rightarrow> u64 option \<Rightarrow> log_error + tx_record list" where
  "rooted_tx_range tx_range basis s start end = (case inward_range basis start end of (start, end) \<Rightarrow>
     bindr (tx_range s start end) (\<lambda>rs. Inr (outward basis rs)))"

definition rooted_replay ::
    "('s \<Rightarrow> u64 \<Rightarrow> u64 option \<Rightarrow> log_error + tx_record list) \<Rightarrow> u64 \<Rightarrow> 's \<Rightarrow> log_error + tx_record list" where
  "rooted_replay tx_range basis s = bindr (replay tx_range s) (\<lambda>rs. Inr (outward basis rs))"

subsection \<open>The takeover rule\<close>

definition merge_version :: "('a \<Rightarrow> u64) \<Rightarrow> 'a list \<Rightarrow> u64 \<times> 'a list list \<Rightarrow> u64 \<times> 'a list list" where
  "merge_version t rs = (\<lambda>(cutoff, kept).
    (case rs of [] \<Rightarrow> cutoff | r # _ \<Rightarrow> min cutoff (t r), filter (\<lambda>r. t r < cutoff) rs # kept))"

definition merge_versions :: "('a \<Rightarrow> u64) \<Rightarrow> 'a list list \<Rightarrow> 'a list" where
  "merge_versions t per_version = concat (snd (foldr (merge_version t) per_version (- 1, [])))"

subsection \<open>The in-memory log over lease versions\<close>

type_synonym versioned_records = "(u64 \<times> tx_record) list"

record mem_log_registry =
  mr_cells :: "versioned_records list"
  mr_logs :: "(string, nat) omap"

record mem_versioned_log =
  mv_records :: nat
  mv_write_version :: u64
  mv_next_t :: u64

definition registry_new :: mem_log_registry where
  "registry_new = \<lparr>mr_cells = [], mr_logs = om_empty\<rparr>"

definition registry_entry :: "mem_log_registry \<Rightarrow> string \<Rightarrow> nat \<times> mem_log_registry" where
  "registry_entry reg name = (case om_get (mr_logs reg) name of
     Some cell \<Rightarrow> (cell, reg)
   | None \<Rightarrow> let cell = length (mr_cells reg)
       in (cell, \<lparr>mr_cells = mr_cells reg @ [[]], mr_logs = om_insert name cell (mr_logs reg)\<rparr>))"

definition mem_merged :: "versioned_records \<Rightarrow> tx_record list" where
  "mem_merged rs =
    (let versions = remdups_adj (sort (map fst rs))
     in merge_versions tr_t (map (\<lambda>v. map snd (filter (\<lambda>(w, _). w = v) rs)) versions))"

definition registry_open :: "mem_log_registry \<Rightarrow> string \<Rightarrow> u64 \<Rightarrow> mem_versioned_log \<times> mem_log_registry" where
  "registry_open reg name write_version = (case registry_entry reg name of (cell, reg) \<Rightarrow>
     (\<lparr>mv_records = cell, mv_write_version = write_version, mv_next_t = next_after (mem_merged (mr_cells reg ! cell))\<rparr>, reg))"

definition registry_exists :: "mem_log_registry \<Rightarrow> string \<Rightarrow> bool" where
  "registry_exists reg name = (case om_get (mr_logs reg) name of
     None \<Rightarrow> False | Some cell \<Rightarrow> mr_cells reg ! cell \<noteq> [])"

definition registry_delete_all :: "mem_log_registry \<Rightarrow> string \<Rightarrow> mem_log_registry" where
  "registry_delete_all reg name = reg\<lparr>mr_logs := om_remove name (mr_logs reg)\<rparr>"

definition mv_append ::
    "mem_log_registry \<Rightarrow> mem_versioned_log \<Rightarrow> tx_record \<Rightarrow> log_error + mem_log_registry \<times> mem_versioned_log" where
  "mv_append reg h r =
    (if mv_next_t h \<noteq> tr_t r then Inl Corrupt
     else Inr (reg\<lparr>mr_cells := (mr_cells reg)[mv_records h := mr_cells reg ! mv_records h @ [(mv_write_version h, r)]]\<rparr>,
               h\<lparr>mv_next_t := mv_next_t h + 1\<rparr>))"

definition mv_tx_range ::
    "mem_log_registry \<Rightarrow> mem_versioned_log \<Rightarrow> u64 \<Rightarrow> u64 option \<Rightarrow> log_error + tx_record list" where
  "mv_tx_range reg h start end = Inr (range_records start end (mem_merged (mr_cells reg ! mv_records h)))"

subsection \<open>The contract of a log\<close>

text \<open>Records numbered one after the other from just past a basis, without wrapping.\<close>

definition contiguous :: "u64 \<Rightarrow> tx_record list \<Rightarrow> bool" where
  "contiguous basis rs \<longleftrightarrow> (\<forall>i < length rs. unat (tr_t (rs ! i)) = unat basis + Suc i)"

lemma contiguous_Nil [simp]: "contiguous basis []"
  by (simp add: contiguous_def)

lemma contiguous_nth: "contiguous basis rs \<Longrightarrow> i < length rs \<Longrightarrow> unat (tr_t (rs ! i)) = unat basis + Suc i"
  by (simp add: contiguous_def)

lemma contiguous_snoc:
  "contiguous basis (rs @ [r]) \<longleftrightarrow> contiguous basis rs \<and> unat (tr_t r) = unat basis + Suc (length rs)"
  by (auto simp: contiguous_def nth_append less_Suc_eq)

lemma contiguous_append:
  "contiguous basis (rs @ qs) \<Longrightarrow> contiguous basis rs \<and> (\<forall>q \<in> set qs. \<forall>r \<in> set rs. tr_t r < tr_t q)"
proof (induction qs rule: rev_induct)
  case (snoc q qs)
  then have q: "unat (tr_t q) = unat basis + Suc (length rs + length qs)" and IH: "contiguous basis rs" "\<forall>q \<in> set qs. \<forall>r \<in> set rs. tr_t r < tr_t q"
    by (auto simp: contiguous_snoc simp flip: append_assoc)
  have "tr_t r < tr_t q" if "r \<in> set rs" for r
  proof -
    obtain i where "i < length rs" "r = rs ! i" using \<open>r \<in> set rs\<close> by (auto simp: in_set_conv_nth)
    then show ?thesis using contiguous_nth [OF IH(1)] q by (simp add: word_less_nat_alt)
  qed
  with IH show ?case by auto
qed simp

definition next_from :: "u64 \<Rightarrow> tx_record list \<Rightarrow> u64" where
  "next_from basis rs = (if rs = [] then basis + 1 else tr_t (last rs) + 1)"

lemma next_from_0: "next_from 0 rs = next_after rs"
  by (simp add: next_from_def next_after_def)

lemma contiguous_next:
  assumes "contiguous basis rs" and "tr_t r = next_from basis rs" and "tr_t r \<noteq> 0"
  shows "contiguous basis (rs @ [r])"
proof -
  have suc: "unat (w + 1) = Suc (unat w)" if "w + 1 \<noteq> (0 :: u64)" for w
    using that by (simp add: unatSuc add.commute)
  show ?thesis
  proof (cases "rs = []")
    case True
    then show ?thesis using assms suc [of basis] by (simp add: contiguous_def next_from_def)
  next
    case False
    then have "unat (tr_t (last rs)) = unat basis + length rs"
      using contiguous_nth [OF assms(1), of "length rs - 1"] by (simp add: last_conv_nth)
    then show ?thesis using assms suc [of "tr_t (last rs)"] False by (simp add: contiguous_snoc next_from_def)
  qed
qed

lemma range_records_all: "range_records 0 None rs = rs"
  by (simp add: range_records_def in_tx_range_def)

locale transaction_log =
  fixes valid :: "'s \<Rightarrow> bool"
    and content :: "'s \<Rightarrow> tx_record list"
    and basis :: u64
    and ok :: "tx_record \<Rightarrow> bool"
    and app :: "'s \<Rightarrow> tx_record \<Rightarrow> log_error + 's"
    and tx_range :: "'s \<Rightarrow> u64 \<Rightarrow> u64 option \<Rightarrow> log_error + tx_record list"
  assumes numbered: "valid s \<Longrightarrow> contiguous basis (content s)"
    and app_next: "valid s \<Longrightarrow> ok r \<Longrightarrow> app s r = Inr s' \<Longrightarrow> tr_t r = next_from basis (content s)"
    and app_content: "valid s \<Longrightarrow> ok r \<Longrightarrow> app s r = Inr s' \<Longrightarrow> valid s' \<and> content s' = content s @ [r]"
    and range_content: "valid s \<Longrightarrow> tx_range s start end = Inr (range_records start end (content s))"
begin

lemma replay_content: "valid s \<Longrightarrow> replay tx_range s = Inr (content s)"
  by (simp add: replay_def range_content range_records_all)

lemma batch_content:
  "valid s \<Longrightarrow> \<forall>r \<in> set rs. ok r \<Longrightarrow> append_batch app s rs = Inr s' \<Longrightarrow> valid s' \<and> content s' = content s @ rs"
proof (induction rs arbitrary: s)
  case (Cons r rs)
  obtain m where m: "app s r = Inr m" "append_batch app m rs = Inr s'"
    using Cons.prems(3) by (auto simp: bindr_eq_Inr)
  have "valid m \<and> content m = content s @ [r]" by (rule app_content [OF _ _ m(1)]) (use Cons.prems in simp_all)
  with Cons.IH [OF _ _ m(2)] Cons.prems(2) show ?case by simp
qed simp

text \<open>A reader that has the log up to a batch gets the batch and nothing else from its first number on.\<close>

lemma tail_is_batch:
  assumes "valid s" and "\<forall>q \<in> set (r # rs). ok q" and "append_batch app s (r # rs) = Inr s'"
  shows "tx_range s' (tr_t r) None = Inr (r # rs)"
proof -
  have s': "valid s'" "content s' = content s @ r # rs" using batch_content [OF assms] by simp_all
  have c: "contiguous basis (content s @ r # rs)" using numbered [OF s'(1)] s'(2) by simp
  then have old: "q \<in> set (content s) \<Longrightarrow> \<not> tr_t r \<le> tr_t q" for q
    using contiguous_append [of basis "content s" "r # rs"] by auto
  have new: "tr_t r \<le> tr_t q" if "q \<in> set rs" for q
    using contiguous_append [of basis "content s @ [r]" rs] c that by (simp add: less_imp_le)
  have "filter (\<lambda>q. tr_t r \<le> tr_t q) (content s) = []" using old by (simp add: filter_empty_conv)
  moreover have "filter (\<lambda>q. tr_t r \<le> tr_t q) rs = rs" using new by (simp add: filter_id_conv)
  ultimately show ?thesis using s' by (simp add: range_content range_records_def in_tx_range_def)
qed

end

interpretation mem_log: transaction_log "contiguous 0" "\<lambda>rs. rs" 0 "\<lambda>r. tr_t r \<noteq> 0" memlog_append memlog_tx_range
  by unfold_locales
    (auto simp: memlog_append_def memlog_tx_range_def next_from_0 contiguous_next split: if_splits)

subsection \<open>Rooted logs keep the contract\<close>

lemma outward_inward:
  assumes "inward basis r = Inr q"
  shows "q\<lparr>tr_t := saturating_add (tr_t q) basis\<rparr> = r" and "tr_t q \<noteq> 0" and "unat (tr_t q) + unat basis = unat (tr_t r)"
proof -
  have lt: "basis < tr_t r" and q: "q = r\<lparr>tr_t := tr_t r - basis\<rparr>"
    using assms by (auto simp: inward_def split: if_splits)
  then have sum: "unat (tr_t r - basis) + unat basis = unat (tr_t r)"
    by (simp add: unat_sub less_imp_le word_less_nat_alt)
  then show "unat (tr_t q) + unat basis = unat (tr_t r)" by (simp add: q)
  show "q\<lparr>tr_t := saturating_add (tr_t q) basis\<rparr> = r"
    using sum unat_less_pow [of "tr_t r"] by (simp add: q saturating_add_def)
  show "tr_t q \<noteq> 0" using lt by (auto simp: q)
qed

lemma unat_saturating_add: "unat a + unat b < 2 ^ 64 \<Longrightarrow> unat (saturating_add a b) = unat a + unat b"
  by (simp add: saturating_add_def unat_word_ariths)

lemma saturating_sub_le:
  "unat t + unat b < 2 ^ 64 \<Longrightarrow> saturating_sub start b \<le> t \<longleftrightarrow> start \<le> saturating_add t b"
  "unat t + unat b < 2 ^ 64 \<Longrightarrow> t < saturating_sub e b \<longleftrightarrow> saturating_add t b < e"
  by (auto simp: saturating_sub_def word_le_nat_alt word_less_nat_alt unat_saturating_add unat_sub)

definition shiftable :: "u64 \<Rightarrow> tx_record list \<Rightarrow> bool" where
  "shiftable basis rs \<longleftrightarrow> (\<forall>r \<in> set rs. unat (tr_t r) + unat basis < 2 ^ 64)"

lemma outward_range:
  "shiftable basis rs \<Longrightarrow>
   outward basis (range_records (saturating_sub start basis) (map_option (\<lambda>e. saturating_sub e basis) end) rs)
   = range_records start end (outward basis rs)"
  by (induction rs) (auto simp: outward_def range_records_def in_tx_range_def saturating_sub_le shiftable_def split: option.splits)

lemma contiguous_outward:
  assumes "contiguous 0 rs" and "shiftable basis rs"
  shows "contiguous basis (outward basis rs)"
  unfolding contiguous_def
proof (intro allI impI)
  fix i
  assume "i < length (outward basis rs)"
  then have i: "i < length rs" by (simp add: outward_def)
  then have "unat (tr_t (rs ! i)) + unat basis < 2 ^ 64" using assms(2) by (simp add: shiftable_def)
  then show "unat (tr_t (outward basis rs ! i)) = unat basis + Suc i"
    using contiguous_nth [OF assms(1) i] i by (simp add: outward_def unat_saturating_add)
qed

locale rooted_log = transaction_log valid content 0 ok app tx_range
  for valid :: "'s \<Rightarrow> bool" and content and ok and app and tx_range +
  fixes root :: u64
begin

lemma rooted_append_content:
  assumes "valid s" and "shiftable root (content s)" and "ok (r\<lparr>tr_t := tr_t r - root\<rparr>)" and "rooted_append app root s r = Inr s'"
  shows "valid s'" and "content s' = content s @ [r\<lparr>tr_t := tr_t r - root\<rparr>]" and "shiftable root (content s')"
    and "outward root (content s') = outward root (content s) @ [r]"
proof -
  obtain q where q: "inward root r = Inr q" "app s q = Inr s'"
    using assms(4) by (auto simp: rooted_append_def bindr_eq_Inr)
  note io = outward_inward [OF q(1)]
  have ok: "ok q" using assms(3) q(1) by (auto simp: inward_def split: if_splits)
  show s': "valid s'" and c: "content s' = content s @ [r\<lparr>tr_t := tr_t r - root\<rparr>]"
    using app_content [OF assms(1) ok q(2)] q(1) by (auto simp: inward_def split: if_splits)
  have c': "content s' = content s @ [q]" using app_content [OF assms(1) ok q(2)] by simp
  show "shiftable root (content s')"
    using assms(2) io(3) unat_less_pow [of "tr_t r"] by (simp add: c' shiftable_def)
  show "outward root (content s') = outward root (content s) @ [r]"
    using io(1) by (simp add: c' outward_def)
qed

end

sublocale rooted_log \<subseteq> rooted: transaction_log "\<lambda>s. valid s \<and> shiftable root (content s)" "\<lambda>s. outward root (content s)"
  root "\<lambda>r. ok (r\<lparr>tr_t := tr_t r - root\<rparr>)" "rooted_append app root" "rooted_tx_range tx_range root"
proof unfold_locales
  fix s r s' and start :: u64 and "end" :: "u64 option"
  assume s: "valid s \<and> shiftable root (content s)"
  show "contiguous root (outward root (content s))" using s numbered contiguous_outward by blast
  show "rooted_tx_range tx_range root s start end = Inr (range_records start end (outward root (content s)))"
    using s by (simp add: rooted_tx_range_def inward_range_def range_content outward_range)
  assume ok: "ok (r\<lparr>tr_t := tr_t r - root\<rparr>)" and app: "rooted_append app root s r = Inr s'"
  note after = rooted_append_content [OF _ _ ok app]
  show "tr_t r = next_from root (outward root (content s))"
  proof -
    have "contiguous root (outward root (content s) @ [r])"
      using after s numbered contiguous_outward by metis
    then have u: "unat (tr_t r) = unat root + Suc (length (content s))" by (simp add: contiguous_snoc outward_def)
    have c: "contiguous root (outward root (content s))" using s numbered contiguous_outward by blast
    show ?thesis
    proof (cases "content s = []")
      case True
      then show ?thesis using u unat_less_pow [of "tr_t r"] by (simp add: next_from_def outward_def word_unat_eq_iff unat_word_ariths)
    next
      case False
      have "unat (tr_t (last (outward root (content s)))) = unat root + length (content s)"
        using contiguous_nth [OF c, of "length (content s) - 1"] False by (simp add: outward_def last_conv_nth)
      then show ?thesis using u False unat_less_pow [of "tr_t r"]
        by (simp add: next_from_def outward_def word_unat_eq_iff unat_word_ariths)
    qed
  qed
  show "(valid s' \<and> shiftable root (content s')) \<and> outward root (content s') = outward root (content s) @ [r]"
    using after s by blast
qed

interpretation rooted_mem: rooted_log "contiguous 0" "\<lambda>rs. rs" "\<lambda>r. tr_t r \<noteq> 0" memlog_append memlog_tx_range basis for basis
  by unfold_locales

subsection \<open>What the takeover rule keeps\<close>

text \<open>The first number of any of the versions, or the largest number.\<close>

fun cutoff_of :: "('a \<Rightarrow> u64) \<Rightarrow> 'a list list \<Rightarrow> u64" where
  "cutoff_of t [] = - 1"
| "cutoff_of t (rs # vs) = (case rs of [] \<Rightarrow> cutoff_of t vs | r # _ \<Rightarrow> min (cutoff_of t vs) (t r))"

lemma merge_versions_simps [simp]:
  "merge_versions t [] = []"
  "merge_versions t (rs # vs) = filter (\<lambda>r. t r < cutoff_of t vs) rs @ merge_versions t vs"
proof -
  have fold: "fst (foldr (merge_version t) vs (- 1, [])) = cutoff_of t vs" for vs
    by (induction vs) (simp_all add: merge_version_def split_beta split: list.split)
  show "merge_versions t [] = []" by (simp add: merge_versions_def)
  show "merge_versions t (rs # vs) = filter (\<lambda>r. t r < cutoff_of t vs) rs @ merge_versions t vs"
    using fold [of vs] by (simp add: merge_versions_def merge_version_def split_beta)
qed

lemma less_cutoff_of:
  "c < cutoff_of t vs \<longleftrightarrow> c < - 1 \<and> (\<forall>rs \<in> set vs. rs \<noteq> [] \<longrightarrow> c < t (hd rs))"
  by (induction vs) (auto split: list.splits)

definition ascending_by :: "('a \<Rightarrow> u64) \<Rightarrow> 'a list \<Rightarrow> bool" where
  "ascending_by t rs \<longleftrightarrow> sorted_wrt (\<lambda>a b. t a < t b) rs"

lemma ascending_by_hd: "ascending_by t rs \<Longrightarrow> r \<in> set rs \<Longrightarrow> t (hd rs) \<le> t r"
  by (cases rs) (auto simp: ascending_by_def intro: less_imp_le)

lemma ascending_by_last: "ascending_by t rs \<Longrightarrow> r \<in> set rs \<Longrightarrow> t r \<le> t (last rs)"
  by (induction rs rule: rev_induct) (auto simp: ascending_by_def sorted_wrt_append intro: less_imp_le)

lemma merge_versions_from: "\<forall>rs \<in> set vs. ascending_by t rs \<Longrightarrow> r \<in> set (merge_versions t vs) \<Longrightarrow> cutoff_of t vs \<le> t r"
proof (induction vs)
  case (Cons rs vs)
  show ?case
  proof (cases "r \<in> set (merge_versions t vs)")
    case True
    then show ?thesis using Cons by (auto split: list.splits intro: min.coboundedI1)
  next
    case False
    then have "r \<in> set rs" using Cons.prems(2) by auto
    then have "t (hd rs) \<le> t r" using ascending_by_hd Cons.prems(1) by auto
    then show ?thesis using \<open>r \<in> set rs\<close> by (cases rs) (auto intro: min.coboundedI2)
  qed
qed simp

lemma merge_versions_ascending:
  "\<forall>rs \<in> set vs. ascending_by t rs \<Longrightarrow> ascending_by t (merge_versions t vs)"
proof (induction vs)
  case (Cons rs vs)
  have "t a < t b" if "t a < cutoff_of t vs" "b \<in> set (merge_versions t vs)" for a b
    using merge_versions_from [of vs t b] Cons.prems that by (auto intro: less_le_trans)
  then show ?case
    using Cons by (auto simp: ascending_by_def sorted_wrt_append sorted_wrt_filter)
qed (simp add: ascending_by_def)

text \<open>The records of one version, in the order they were appended.\<close>

definition of_version :: "u64 \<Rightarrow> versioned_records \<Rightarrow> tx_record list" where
  "of_version v rs = map snd (filter (\<lambda>(w, _). w = v) rs)"

lemma of_version_simps [simp]:
  "of_version v [] = []"
  "of_version v (rs @ [(w, r)]) = (if w = v then of_version v rs @ [r] else of_version v rs)"
  by (simp_all add: of_version_def)

lemma in_of_version [simp]: "r \<in> set (of_version v rs) \<longleftrightarrow> (v, r) \<in> set rs"
  by (force simp: of_version_def)

definition versions_ascend :: "versioned_records \<Rightarrow> bool" where
  "versions_ascend rs \<longleftrightarrow> (\<forall>v. ascending_by tr_t (of_version v rs))"

lemma merge_sorted_versions:
  fixes vs :: "u64 list"
  assumes "sorted_wrt (<) vs" and "\<forall>v \<in> set vs. ascending_by tr_t (f v)"
  shows "r \<in> set (merge_versions tr_t (map f vs)) \<longleftrightarrow>
    (\<exists>v \<in> set vs. r \<in> set (f v) \<and> tr_t r < - 1 \<and> (\<forall>w \<in> set vs. v < w \<longrightarrow> (\<forall>q \<in> set (f w). tr_t r < tr_t q)))"
  using assms
proof (induction vs)
  case (Cons v vs)
  have later: "\<forall>w \<in> set vs. v < w" using Cons.prems(1) by simp
  note prems = Cons.prems and IH = Cons.IH
  have "(f w \<noteq> [] \<longrightarrow> tr_t r < tr_t (hd (f w))) \<longleftrightarrow> (\<forall>q \<in> set (f w). tr_t r < tr_t q)" if "w \<in> set vs" for w
  proof (cases "f w")
    case (Cons q qs)
    have "ascending_by tr_t (f w)" using prems(2) that by simp
    then show ?thesis using ascending_by_hd [of tr_t "f w"] Cons by (auto intro: less_le_trans)
  qed simp
  then have cut: "tr_t r < cutoff_of tr_t (map f vs) \<longleftrightarrow> tr_t r < - 1 \<and> (\<forall>w \<in> set vs. \<forall>q \<in> set (f w). tr_t r < tr_t q)"
    unfolding less_cutoff_of by simp
  let ?Q = "\<lambda>u vs. r \<in> set (f u) \<and> tr_t r < - 1 \<and> (\<forall>w \<in> set vs. u < w \<longrightarrow> (\<forall>q \<in> set (f w). tr_t r < tr_t q))"
  have "?Q u (v # vs) \<longleftrightarrow> ?Q u vs" if "u \<in> set vs" for u using later that by auto
  then have "(\<exists>u \<in> set vs. ?Q u (v # vs)) \<longleftrightarrow> r \<in> set (merge_versions tr_t (map f vs))" using IH prems by simp
  moreover have "?Q v (v # vs) \<longleftrightarrow> r \<in> set (f v) \<and> tr_t r < cutoff_of tr_t (map f vs)" using later cut by auto
  ultimately show ?case by simp
qed simp

lemma sorted_remdups_adj_strict: "sorted xs \<Longrightarrow> sorted_wrt (<) (remdups_adj xs)"
  by (induction xs rule: remdups_adj.induct) (auto simp: order.strict_iff_order intro: order.antisym)

lemma mem_merged_iff:
  assumes "versions_ascend rs"
  shows "r \<in> set (mem_merged rs) \<longleftrightarrow>
    (\<exists>v. (v, r) \<in> set rs \<and> tr_t r < - 1 \<and> (\<forall>w q. (w, q) \<in> set rs \<and> v < w \<longrightarrow> tr_t r < tr_t q))"
proof -
  let ?vs = "remdups_adj (sort (map fst rs))"
  have vs: "sorted_wrt (<) ?vs" by (rule sorted_remdups_adj_strict) simp
  have f: "(\<lambda>v. map snd (filter (\<lambda>(w, _). w = v) rs)) = (\<lambda>v. of_version v rs)"
    by (simp add: of_version_def)
  have "\<forall>v \<in> set ?vs. ascending_by tr_t (of_version v rs)" using assms by (simp add: versions_ascend_def)
  note iff = merge_sorted_versions [OF vs this, of r]
  have in_vs: "(w, q) \<in> set rs \<Longrightarrow> w \<in> set ?vs" for w q by (simp add: rev_image_eqI)
  show ?thesis
    unfolding mem_merged_def Let_def f iff in_of_version
  proof
    show "\<exists>v. (v, r) \<in> set rs \<and> tr_t r < - 1 \<and> (\<forall>w q. (w, q) \<in> set rs \<and> v < w \<longrightarrow> tr_t r < tr_t q)"
      if "\<exists>v \<in> set ?vs. (v, r) \<in> set rs \<and> tr_t r < - 1 \<and> (\<forall>w \<in> set ?vs. v < w \<longrightarrow> (\<forall>q \<in> set (of_version w rs). tr_t r < tr_t q))"
      using that in_vs in_of_version by meson
    show "\<exists>v \<in> set ?vs. (v, r) \<in> set rs \<and> tr_t r < - 1 \<and> (\<forall>w \<in> set ?vs. v < w \<longrightarrow> (\<forall>q \<in> set (of_version w rs). tr_t r < tr_t q))"
      if "\<exists>v. (v, r) \<in> set rs \<and> tr_t r < - 1 \<and> (\<forall>w q. (w, q) \<in> set rs \<and> v < w \<longrightarrow> tr_t r < tr_t q)"
      using that in_vs in_of_version by meson
  qed
qed

lemma mem_merged_ascending: "versions_ascend rs \<Longrightarrow> ascending_by tr_t (mem_merged rs)"
  unfolding mem_merged_def Let_def
  by (rule merge_versions_ascending) (auto simp: versions_ascend_def simp flip: of_version_def)

lemma less_succ: "w < - 1 \<Longrightarrow> w < w + 1" for w :: u64
proof -
  assume "w < - 1"
  then have "1 + w \<noteq> 0" by (metis add.commute add_eq_0_iff less_irrefl)
  then show "w < w + 1" by (simp add: word_less_nat_alt unatSuc add.commute [of w])
qed

lemma next_after_merged:
  assumes "versions_ascend rs" and "r \<in> set (mem_merged rs)"
  shows "tr_t r < next_after (mem_merged rs)"
proof -
  let ?l = "last (mem_merged rs)"
  have "?l \<in> set (mem_merged rs)" using assms(2) by (cases "mem_merged rs") auto
  then have "tr_t ?l < - 1" using mem_merged_iff [OF assms(1)] by blast
  then have "tr_t ?l < tr_t ?l + 1" by (rule less_succ)
  moreover have "tr_t r \<le> tr_t ?l" by (rule ascending_by_last [OF mem_merged_ascending [OF assms(1)] assms(2)])
  ultimately show ?thesis using assms(2) by (auto simp: next_after_def)
qed

subsection \<open>Takeovers\<close>

text \<open>
  A log through successive lease holders. The handles are listed newest first, so the head is the
  one that holds the lease; every other handle belongs to a deposed writer that may still append.
  Taking over opens the log under a larger version. A record counts as acknowledged when the holder
  of the lease appended it. The numbers stay below the largest \<open>u64\<close>.
\<close>

record takeover =
  tk_registry :: mem_log_registry
  tk_handles :: "mem_versioned_log list"
  tk_acked :: versioned_records

inductive takeover_step :: "string \<Rightarrow> takeover \<Rightarrow> takeover \<Rightarrow> bool" for name where
  take_over:
    "\<forall>h \<in> set (tk_handles s). mv_write_version h < v \<Longrightarrow>
     registry_open (tk_registry s) name v = (h, reg) \<Longrightarrow>
     takeover_step name s (s\<lparr>tk_registry := reg, tk_handles := h # tk_handles s\<rparr>)"
| holder_appends:
    "tk_handles s = h # hs \<Longrightarrow> tr_t r < - 1 \<Longrightarrow>
     mv_append (tk_registry s) h r = Inr (reg, h') \<Longrightarrow>
     takeover_step name s (s\<lparr>tk_registry := reg, tk_handles := h' # hs, tk_acked := (mv_write_version h, r) # tk_acked s\<rparr>)"
| deposed_appends:
    "tk_handles s = pre @ h # hs \<Longrightarrow> pre \<noteq> [] \<Longrightarrow> tr_t r < - 1 \<Longrightarrow>
     mv_append (tk_registry s) h r = Inr (reg, h') \<Longrightarrow>
     takeover_step name s (s\<lparr>tk_registry := reg, tk_handles := pre @ h' # hs\<rparr>)"

definition takeover_init :: takeover where
  "takeover_init = \<lparr>tk_registry = registry_new, tk_handles = [], tk_acked = []\<rparr>"

definition takeover_reachable :: "string \<Rightarrow> takeover \<Rightarrow> bool" where
  "takeover_reachable name s \<longleftrightarrow> (takeover_step name)\<^sup>*\<^sup>* takeover_init s"

definition log_records :: "string \<Rightarrow> mem_log_registry \<Rightarrow> versioned_records" where
  "log_records name reg = (case om_get (mr_logs reg) name of None \<Rightarrow> [] | Some cell \<Rightarrow> mr_cells reg ! cell)"

definition takeover_log :: "string \<Rightarrow> takeover \<Rightarrow> versioned_records" where
  "takeover_log name s = log_records name (tk_registry s)"

definition handle_on :: "string \<Rightarrow> mem_log_registry \<Rightarrow> mem_versioned_log \<Rightarrow> bool" where
  "handle_on name reg h \<longleftrightarrow> om_get (mr_logs reg) name = Some (mv_records h) \<and> mv_records h < length (mr_cells reg)"

lemma registry_open_log:
  assumes "registry_open reg name v = (h, reg')" and "\<forall>cell. om_get (mr_logs reg) name = Some cell \<longrightarrow> cell < length (mr_cells reg)"
  shows "log_records name reg' = log_records name reg" and "handle_on name reg' h" and "mv_write_version h = v"
    and "mv_next_t h = next_after (mem_merged (log_records name reg))"
    and "handle_on name reg g \<Longrightarrow> handle_on name reg' g"
  using assms
  by (auto simp: registry_open_def registry_entry_def log_records_def handle_on_def Let_def nth_append split: option.splits prod.splits)

lemma mv_append_log:
  assumes "mv_append reg h r = Inr (reg', h')" and "handle_on name reg h"
  shows "log_records name reg' = log_records name reg @ [(mv_write_version h, r)]"
    and "handle_on name reg' g \<longleftrightarrow> handle_on name reg g" and "handle_on name reg' h'"
    and "mv_write_version h' = mv_write_version h" and "mv_next_t h = tr_t r" and "mv_next_t h' = tr_t r + 1"
    and "mr_logs reg' = mr_logs reg" and "length (mr_cells reg') = length (mr_cells reg)"
  using assms by (auto simp: mv_append_def log_records_def handle_on_def split: if_splits)

subsection \<open>The invariant of takeovers\<close>

definition handles_ok :: "string \<Rightarrow> takeover \<Rightarrow> bool" where
  "handles_ok name s \<longleftrightarrow> (\<forall>h \<in> set (tk_handles s). handle_on name (tk_registry s) h) \<and>
     (\<forall>cell. om_get (mr_logs (tk_registry s)) name = Some cell \<longrightarrow> cell < length (mr_cells (tk_registry s))) \<and>
     sorted_wrt (\<lambda>a b. mv_write_version b < mv_write_version a) (tk_handles s)"

definition records_ok :: "versioned_records \<Rightarrow> mem_versioned_log list \<Rightarrow> bool" where
  "records_ok rs hs \<longleftrightarrow> versions_ascend rs \<and>
     (\<forall>v r. (v, r) \<in> set rs \<longrightarrow> (\<exists>h \<in> set hs. mv_write_version h = v \<and> tr_t r < mv_next_t h))"

text \<open>An acknowledged record comes before everything a later version holds or will append.\<close>

definition acked_ok :: "versioned_records \<Rightarrow> mem_versioned_log list \<Rightarrow> versioned_records \<Rightarrow> bool" where
  "acked_ok rs hs acked \<longleftrightarrow> (\<forall>v r. (v, r) \<in> set acked \<longrightarrow> (v, r) \<in> set rs \<and> tr_t r < - 1 \<and>
     (\<forall>w q. (w, q) \<in> set rs \<and> v < w \<longrightarrow> tr_t r < tr_t q) \<and>
     (\<forall>h \<in> set hs. v < mv_write_version h \<longrightarrow> tr_t r < mv_next_t h))"

definition takeover_inv :: "string \<Rightarrow> takeover \<Rightarrow> bool" where
  "takeover_inv name s \<longleftrightarrow> handles_ok name s \<and> records_ok (takeover_log name s) (tk_handles s) \<and>
     acked_ok (takeover_log name s) (tk_handles s) (tk_acked s)"

lemma acked_in_merged:
  assumes "records_ok rs hs" and "acked_ok rs hs acked" and "(v, r) \<in> set acked"
  shows "r \<in> set (mem_merged rs)"
proof -
  have "(v, r) \<in> set rs \<and> tr_t r < - 1 \<and> (\<forall>w q. (w, q) \<in> set rs \<and> v < w \<longrightarrow> tr_t r < tr_t q)"
    using assms(2,3) by (simp add: acked_ok_def)
  moreover have "versions_ascend rs" using assms(1) by (simp add: records_ok_def)
  ultimately show ?thesis using mem_merged_iff by (metis (no_types, lifting))
qed

lemma versions_unique:
  "sorted_wrt (\<lambda>a b. mv_write_version b < mv_write_version a) hs \<Longrightarrow> g \<in> set hs \<Longrightarrow> h \<in> set hs \<Longrightarrow>
   mv_write_version g = mv_write_version h \<Longrightarrow> g = h"
  by (induction hs) auto

lemma records_ok_append:
  assumes "records_ok rs (pre @ h # hs)" and "sorted_wrt (\<lambda>a b. mv_write_version b < mv_write_version a) (pre @ h # hs)"
    and "mv_write_version h' = mv_write_version h" and "mv_next_t h = tr_t r" and "mv_next_t h' = tr_t r + 1" and "tr_t r < - 1"
  shows "records_ok (rs @ [(mv_write_version h, r)]) (pre @ h' # hs)"
proof -
  let ?v = "mv_write_version h"
  have before: "tr_t q < tr_t r" if q: "(?v, q) \<in> set rs" for q
  proof -
    obtain g where "g \<in> set (pre @ h # hs)" "mv_write_version g = ?v" "tr_t q < mv_next_t g"
      using assms(1) q unfolding records_ok_def by blast
    moreover from this have "g = h" using versions_unique [OF assms(2)] by simp
    ultimately show ?thesis using assms(4) by simp
  qed
  have "ascending_by tr_t (of_version v (rs @ [(?v, r)]))" for v
    using assms(1) before by (auto simp: records_ok_def versions_ascend_def ascending_by_def sorted_wrt_append)
  moreover have "\<exists>g \<in> set (pre @ h' # hs). mv_write_version g = v \<and> tr_t q < mv_next_t g"
    if vq: "(v, q) \<in> set (rs @ [(?v, r)])" for v q
  proof (cases "v = ?v")
    case True
    then have "tr_t q \<le> tr_t r" using vq before by (auto intro: less_imp_le)
    then have "tr_t q < mv_next_t h'" using less_succ [OF assms(6)] assms(5) by (simp add: le_less_trans)
    then show ?thesis using True assms(3) by auto
  next
    case False
    then have "(v, q) \<in> set rs" using vq by auto
    then obtain g where "g \<in> set (pre @ h # hs)" "mv_write_version g = v" "tr_t q < mv_next_t g"
      using assms(1) unfolding records_ok_def by blast
    then show ?thesis using False by auto
  qed
  ultimately show ?thesis unfolding records_ok_def versions_ascend_def by blast
qed

lemma acked_ok_append:
  assumes "acked_ok rs (pre @ h # hs) acked" and "mv_write_version h' = mv_write_version h"
    and "mv_next_t h = tr_t r" and "mv_next_t h' = tr_t r + 1" and "tr_t r < - 1"
  shows "acked_ok (rs @ [(mv_write_version h, r)]) (pre @ h' # hs) acked"
proof -
  have grows: "tr_t r < mv_next_t h'" using less_succ [OF assms(5)] assms(4) by simp
  have "tr_t q < tr_t r" if "(v, q) \<in> set acked" "v < mv_write_version h" for v q
    using assms(1,3) that unfolding acked_ok_def by fastforce
  then show ?thesis
    using assms(1,2) grows unfolding acked_ok_def by (auto intro: less_trans)
qed

lemma takeover_step_inv:
  assumes "takeover_step name s s'" and "takeover_inv name s"
  shows "takeover_inv name s'"
  using assms(1)
proof cases
  case (take_over v h reg)
  have cells: "\<forall>cell. om_get (mr_logs (tk_registry s)) name = Some cell \<longrightarrow> cell < length (mr_cells (tk_registry s))"
    using assms(2) by (simp add: takeover_inv_def handles_ok_def)
  note opened = registry_open_log [OF take_over(3) cells]
  have log: "takeover_log name s' = takeover_log name s" using opened(1) by (simp add: takeover_log_def take_over(1))
  have "handles_ok name s'"
    using assms(2) opened(2,3,5) take_over(2) by (auto simp: takeover_inv_def handles_ok_def take_over(1) handle_on_def)
  moreover have "records_ok (takeover_log name s') (tk_handles s')"
    using assms(2) unfolding log by (auto simp: takeover_inv_def records_ok_def take_over(1))
  moreover have "tr_t r < mv_next_t h" if "(v, r) \<in> set (tk_acked s)" for v r
    using acked_in_merged [of "takeover_log name s" "tk_handles s" "tk_acked s" v r] that assms(2) opened(4)
      next_after_merged [of "takeover_log name s" r]
    by (simp add: takeover_inv_def records_ok_def takeover_log_def)
  then have "acked_ok (takeover_log name s') (tk_handles s') (tk_acked s')"
    using assms(2) unfolding log by (auto simp: takeover_inv_def acked_ok_def take_over(1))
  ultimately show ?thesis by (simp add: takeover_inv_def)
next
  case (holder_appends h hs r reg h')
  have inv: "handles_ok name s" "records_ok (takeover_log name s) (h # hs)" "acked_ok (takeover_log name s) (h # hs) (tk_acked s)"
    using assms(2) holder_appends(2) by (simp_all add: takeover_inv_def)
  have on: "handle_on name (tk_registry s) h" using inv(1) holder_appends(2) by (simp add: handles_ok_def)
  note app = mv_append_log [OF holder_appends(4) on]
  have log: "takeover_log name s' = takeover_log name s @ [(mv_write_version h, r)]"
    using app(1) by (simp add: takeover_log_def holder_appends(1))
  have sorted: "sorted_wrt (\<lambda>a b. mv_write_version b < mv_write_version a) (h # hs)"
    using inv(1) holder_appends(2) by (simp add: handles_ok_def)
  have "handles_ok name s'"
    using inv(1) app(3,4,7,8) holder_appends(2) by (auto simp: handles_ok_def holder_appends(1) handle_on_def)
  moreover have "records_ok (takeover_log name s') (h' # hs)"
    unfolding log using records_ok_append [where pre = "[]", unfolded append_Nil, OF inv(2) sorted app(4-6) holder_appends(3)] .
  moreover have old: "acked_ok (takeover_log name s') (h' # hs) (tk_acked s)"
    unfolding log using acked_ok_append [where pre = "[]", unfolded append_Nil, OF inv(3) app(4-6) holder_appends(3)] .
  moreover have "\<not> mv_write_version h < w" if "(w, q) \<in> set (takeover_log name s')" for w q
  proof -
    note wq = that
    obtain g where "g \<in> set (h' # hs)" "mv_write_version g = w"
      using \<open>records_ok (takeover_log name s') (h' # hs)\<close> wq unfolding records_ok_def by blast
    then show ?thesis using sorted app(4) by auto
  qed
  then have "acked_ok (takeover_log name s') (h' # hs) ((mv_write_version h, r) # tk_acked s)"
    using old holder_appends(3) sorted app(4) unfolding acked_ok_def log by auto
  ultimately show ?thesis by (simp add: takeover_inv_def holder_appends(1))
next
  case (deposed_appends pre h hs r reg h')
  have inv: "handles_ok name s" "records_ok (takeover_log name s) (pre @ h # hs)" "acked_ok (takeover_log name s) (pre @ h # hs) (tk_acked s)"
    using assms(2) deposed_appends(2) by (simp_all add: takeover_inv_def)
  have on: "handle_on name (tk_registry s) h" using inv(1) deposed_appends(2) by (simp add: handles_ok_def)
  note app = mv_append_log [OF deposed_appends(5) on]
  have log: "takeover_log name s' = takeover_log name s @ [(mv_write_version h, r)]"
    using app(1) by (simp add: takeover_log_def deposed_appends(1))
  have sorted: "sorted_wrt (\<lambda>a b. mv_write_version b < mv_write_version a) (pre @ h # hs)"
    using inv(1) deposed_appends(2) by (simp add: handles_ok_def)
  have "handles_ok name s'"
    using inv(1) app(3,4,7,8) deposed_appends(2)
    by (auto simp: handles_ok_def deposed_appends(1) handle_on_def sorted_wrt_append)
  then show ?thesis
    using records_ok_append [OF inv(2) sorted app(4-6) deposed_appends(4)]
      acked_ok_append [OF inv(3) app(4-6) deposed_appends(4)] log
    by (simp add: takeover_inv_def deposed_appends(1))
qed

lemma takeover_init_inv: "takeover_inv name takeover_init"
  by (simp add: takeover_inv_def takeover_init_def handles_ok_def records_ok_def acked_ok_def takeover_log_def log_records_def
      registry_new_def versions_ascend_def ascending_by_def)

lemma takeover_reachable_inv: "takeover_reachable name s \<Longrightarrow> takeover_inv name s"
  unfolding takeover_reachable_def
  by (induction rule: rtranclp_induct) (auto intro: takeover_init_inv takeover_step_inv)

subsection \<open>Properties\<close>

text \<open>C3. No takeover loses an acknowledged transaction: through any interleaving of takeovers under
  growing lease versions, appends by the holder of the lease and appends by deposed writers, every
  record appended by a holder stays in the merged log, and the merged log is strictly ascending, so
  no transaction number has two records.\<close>

theorem acknowledged_records_survive:
  assumes "takeover_reachable name s"
  shows "(\<forall>(v, r) \<in> set (tk_acked s). r \<in> set (mem_merged (takeover_log name s))) \<and>
    sorted_wrt (\<lambda>a b. tr_t a < tr_t b) (mem_merged (takeover_log name s))"
proof -
  have inv: "takeover_inv name s" by (rule takeover_reachable_inv [OF assms])
  have "r \<in> set (mem_merged (takeover_log name s))" if "(v, r) \<in> set (tk_acked s)" for v r
    using acked_in_merged [OF _ _ that] inv unfolding takeover_inv_def by blast
  then show ?thesis
    using mem_merged_ascending [of "takeover_log name s"] inv
    by (auto simp: takeover_inv_def records_ok_def ascending_by_def)
qed

text \<open>A run with three lease versions, one state per step.\<close>

definition numbered_record :: "u64 \<Rightarrow> tx_record" where
  "numbered_record t = \<lparr>tr_t = t, tr_tx_instant = 0, tr_datoms = []\<rparr>"

definition run_state :: "versioned_records \<Rightarrow> (u64 \<times> u64) list \<Rightarrow> versioned_records \<Rightarrow> takeover" where
  "run_state rs hs acked = \<lparr>
     tk_registry = \<lparr>mr_cells = [rs], mr_logs = om_insert ''db'' 0 om_empty\<rparr>,
     tk_handles = map (\<lambda>(v, t). \<lparr>mv_records = 0, mv_write_version = v, mv_next_t = t\<rparr>) hs,
     tk_acked = acked\<rparr>"

lemma less_max_iff: "x < - 1 \<longleftrightarrow> x \<noteq> - 1" for x :: u64
  by (metis max_word_max order.not_eq_order_implies_strict order_less_irrefl)

lemma run_open:
  assumes "\<forall>(w, _) \<in> set hs. w < v" and "next_after (mem_merged rs) = t"
  shows "takeover_step ''db'' (run_state rs hs acked) (run_state rs ((v, t) # hs) acked)"
proof -
  have "registry_open (tk_registry (run_state rs hs acked)) ''db'' v =
      (\<lparr>mv_records = 0, mv_write_version = v, mv_next_t = t\<rparr>, tk_registry (run_state rs hs acked))"
    using assms(2) by (simp add: registry_open_def registry_entry_def run_state_def)
  then show ?thesis
    using take_over [of "run_state rs hs acked" v] assms(1) by (fastforce simp: run_state_def)
qed

lemma run_first_open: "takeover_step ''db'' takeover_init (run_state [] [(v, 1)] [])"
proof -
  have "mem_merged [] = []" by (simp add: mem_merged_def)
  then have "registry_open (tk_registry takeover_init) ''db'' v =
      (\<lparr>mv_records = 0, mv_write_version = v, mv_next_t = 1\<rparr>, tk_registry (run_state [] [] []))"
    by (simp add: registry_open_def registry_entry_def run_state_def takeover_init_def registry_new_def Let_def next_after_def)
  from take_over [OF _ this] show ?thesis by (simp add: run_state_def takeover_init_def)
qed

lemma run_append:
  "mv_append (tk_registry (run_state rs hs acked)) \<lparr>mv_records = 0, mv_write_version = v, mv_next_t = t\<rparr> (numbered_record t) =
   Inr (tk_registry (run_state (rs @ [(v, numbered_record t)]) hs acked), \<lparr>mv_records = 0, mv_write_version = v, mv_next_t = t + 1\<rparr>)"
  by (simp add: mv_append_def run_state_def numbered_record_def)

lemma run_holder:
  "t \<noteq> - 1 \<Longrightarrow> takeover_step ''db'' (run_state rs ((v, t) # hs) acked)
     (run_state (rs @ [(v, numbered_record t)]) ((v, t + 1) # hs) ((v, numbered_record t) # acked))"
  using holder_appends [of "run_state rs ((v, t) # hs) acked", OF _ _ run_append]
  by (simp add: run_state_def numbered_record_def less_max_iff)

lemma run_deposed:
  "t \<noteq> - 1 \<Longrightarrow> pre \<noteq> [] \<Longrightarrow> takeover_step ''db'' (run_state rs (pre @ (v, t) # hs) acked)
     (run_state (rs @ [(v, numbered_record t)]) (pre @ (v, t + 1) # hs) acked)"
  using deposed_appends [of "run_state rs (pre @ (v, t) # hs) acked", OF _ _ _ run_append]
  by (simp add: run_state_def numbered_record_def less_max_iff)

lemmas merge_eval = mem_merged_def Let_def numbered_record_def next_after_def less_max_iff

lemma run_then: "(takeover_step name)\<^sup>*\<^sup>* a b \<Longrightarrow> takeover_step name b c \<Longrightarrow> (takeover_step name)\<^sup>*\<^sup>* a c"
  by (rule rtranclp.rtrancl_into_rtrancl)

lemma run_one: "(takeover_step ''db'')\<^sup>*\<^sup>* takeover_init (run_state [(1, numbered_record 1)] [(1, 2)] [(1, numbered_record 1)])"
proof -
  have "takeover_step ''db'' (run_state [] [(1, 1)] []) (run_state [(1, numbered_record 1)] [(1, 2)] [(1, numbered_record 1)])"
    using run_holder [of 1 "[]" 1 "[]" "[]"] by simp
  then show ?thesis using run_first_open [of 1] by (meson r_into_rtranclp rtranclp.rtrancl_into_rtrancl)
qed

definition wit_taken_over :: takeover where
  "wit_taken_over = run_state [(1, numbered_record 1), (1, numbered_record 2), (2, numbered_record 2)] [(2, 3), (1, 3)]
     [(2, numbered_record 2), (1, numbered_record 1)]"

lemma wit_taken_over_reachable: "takeover_reachable ''db'' wit_taken_over"
proof -
  let ?s = "takeover_step ''db''" and ?n = numbered_record
  have one: "?s\<^sup>*\<^sup>* takeover_init (run_state [(1, ?n 1)] [(1, 2)] [(1, ?n 1)])" by (rule run_one)
  have "?s (run_state [(1, ?n 1)] [(1, 2)] [(1, ?n 1)]) (run_state [(1, ?n 1)] [(2, 2), (1, 2)] [(1, ?n 1)])"
    by (rule run_open) (simp_all add: merge_eval)
  note two = run_then [OF one this]
  have "?s (run_state [(1, ?n 1)] [(2, 2), (1, 2)] [(1, ?n 1)]) (run_state [(1, ?n 1), (1, ?n 2)] [(2, 2), (1, 3)] [(1, ?n 1)])"
    using run_deposed [of 2 "[(2, 2)]" "[(1, ?n 1)]" 1 "[]"] by simp
  note three = run_then [OF two this]
  have "?s (run_state [(1, ?n 1), (1, ?n 2)] [(2, 2), (1, 3)] [(1, ?n 1)]) wit_taken_over"
    using run_holder [of 2 "[(1, ?n 1), (1, ?n 2)]" 2 "[(1, 3)]"] by (simp add: wit_taken_over_def)
  from run_then [OF three this] show ?thesis by (simp add: takeover_reachable_def)
qed

theorem acknowledged_records_survive_witness:
  "takeover_reachable ''db'' wit_taken_over \<and>
   numbered_record 2 \<in> set (mem_merged (takeover_log ''db'' wit_taken_over)) \<and>
   numbered_record 1 \<in> set (mem_merged (takeover_log ''db'' wit_taken_over))"
  using acknowledged_records_survive [OF wit_taken_over_reachable] wit_taken_over_reachable
  by (simp add: wit_taken_over_def run_state_def)

text \<open>C40. Deposed writers can leave a hole in the log. After two takeovers the first writer's late
  records can be merged when the third writer opens the in-memory log, and be cut off afterwards by a late
  record of the second writer. The third writer then reads, from its own handle and without an error, a log that
  skips a number its acknowledged record follows.\<close>

theorem deposed_writers_leave_hole:
  "\<exists>s. takeover_reachable ''db'' s \<and> (3, numbered_record 4) \<in> set (tk_acked s) \<and>
     mv_write_version (hd (tk_handles s)) = 3 \<and>
     mv_tx_range (tk_registry s) (hd (tk_handles s)) 0 None = Inr [numbered_record 1, numbered_record 2, numbered_record 4]"
proof -
  let ?s = "takeover_step ''db''" and ?n = numbered_record
  let ?a = "[(1, ?n 1)]"
  have one: "?s\<^sup>*\<^sup>* takeover_init (run_state ?a [(1, 2)] ?a)" by (rule run_one)
  have "?s (run_state ?a [(1, 2)] ?a) (run_state ?a [(2, 2), (1, 2)] ?a)"
    by (rule run_open) (simp_all add: merge_eval)
  note two = run_then [OF one this]
  have "?s (run_state ?a [(2, 2), (1, 2)] ?a) (run_state (?a @ [(1, ?n 2)]) [(2, 2), (1, 3)] ?a)"
    using run_deposed [of 2 "[(2, 2)]" ?a 1 "[]"] by simp
  note three = run_then [OF two this]
  have "?s (run_state (?a @ [(1, ?n 2)]) [(2, 2), (1, 3)] ?a) (run_state (?a @ [(1, ?n 2), (1, ?n 3)]) [(2, 2), (1, 4)] ?a)"
    using run_deposed [of 3 "[(2, 2)]" "?a @ [(1, ?n 2)]" 1 "[]"] by simp
  note four = run_then [OF three this]
  let ?b = "?a @ [(1, ?n 2), (1, ?n 3)]"
  have "?s (run_state ?b [(2, 2), (1, 4)] ?a) (run_state ?b [(3, 4), (2, 2), (1, 4)] ?a)"
    by (rule run_open) (simp_all add: merge_eval)
  note five = run_then [OF four this]
  have "?s (run_state ?b [(3, 4), (2, 2), (1, 4)] ?a) (run_state (?b @ [(2, ?n 2)]) [(3, 4), (2, 3), (1, 4)] ?a)"
    using run_deposed [of 2 "[(3, 4)]" ?b 2 "[(1, 4)]"] by simp
  note six = run_then [OF five this]
  let ?final = "run_state (?b @ [(2, ?n 2), (3, ?n 4)]) [(3, 5), (2, 3), (1, 4)] ((3, ?n 4) # ?a)"
  have "?s (run_state (?b @ [(2, ?n 2)]) [(3, 4), (2, 3), (1, 4)] ?a) ?final"
    using run_holder [of 4 "?b @ [(2, ?n 2)]" 3 "[(2, 3), (1, 4)]" ?a] by simp
  from run_then [OF six this] have "takeover_reachable ''db'' ?final" by (simp add: takeover_reachable_def)
  moreover have "mem_merged (?b @ [(2, ?n 2), (3, ?n 4)]) = [?n 1, ?n 2, ?n 4]" by (simp add: merge_eval)
  ultimately show ?thesis by (intro exI [of _ ?final]) (simp add: run_state_def mv_tx_range_def range_records_all)
qed

text \<open>A log numbered from a basis behaves as one: what a run of appends put into it reads back
  with the same numbers, which continue the basis without a hole, in whole and over any range.\<close>

theorem rooted_log_reads_back:
  assumes "append_batch (rooted_append memlog_append basis) [] rs = Inr s"
  shows "contiguous basis rs \<and> rooted_replay memlog_tx_range basis s = Inr rs \<and>
    rooted_tx_range memlog_tx_range basis s start end = Inr (range_records start end rs)"
proof -
  have pos: "tr_t (r\<lparr>tr_t := tr_t r - basis\<rparr>) \<noteq> 0" if "r \<in> set rs" for r
  proof -
    have "\<exists>q. inward basis r = Inr q" if "append_batch (rooted_append memlog_append basis) s0 qs = Inr s" "r \<in> set qs" for s0 qs
      using that by (induction qs arbitrary: s0) (auto simp: rooted_append_def bindr_eq_Inr)
    then obtain q where "inward basis r = Inr q" using assms \<open>r \<in> set rs\<close> by blast
    then show ?thesis by (auto simp: inward_def split: if_splits)
  qed
  have start: "contiguous 0 [] \<and> shiftable basis []" by (simp add: shiftable_def)
  have s: "contiguous 0 s \<and> shiftable basis s" "outward basis s = rs"
    using rooted_mem.rooted.batch_content [OF start _ assms] pos by (auto simp: outward_def)
  then have "contiguous basis rs" using rooted_mem.rooted.numbered [of s basis] by simp
  moreover have "rooted_tx_range memlog_tx_range basis s a e = Inr (range_records a e rs)" for a e
    using rooted_mem.rooted.range_content [OF s(1)] s(2) by simp
  moreover have "rooted_replay memlog_tx_range basis s = Inr rs"
    using s(2) by (simp add: rooted_replay_def replay_def memlog_tx_range_def range_records_all)
  ultimately show ?thesis by simp
qed

theorem rooted_log_reads_back_witness:
  "\<exists>s. append_batch (rooted_append memlog_append 10) [] [numbered_record 11, numbered_record 12] = Inr s \<and>
     rooted_tx_range memlog_tx_range 10 s 12 None = Inr [numbered_record 12]"
proof -
  obtain s where s: "append_batch (rooted_append memlog_append 10) [] [numbered_record 11, numbered_record 12] = Inr s"
    by (simp add: rooted_append_def inward_def memlog_append_def next_after_def numbered_record_def)
  then show ?thesis
    using rooted_log_reads_back [OF s, of 12 None] by (simp add: range_records_def in_tx_range_def numbered_record_def)
qed

end
