(* ===== verification/File_Log.thy ===== *)
theory File_Log
  imports Tx_Log
begin

text \<open>
  Transaction logs in files (crates/corium-log/src/lib.rs): the indexed file with its cached frame
  index, the single-file log, and the log split into one file per lease version. A directory is a
  map from file names to their bytes, and is an argument of every operation that reads it; files
  are not removed while a handle is open. What the operating system does with an append is an
  argument too: it may stop after some bytes, or fail to make them durable. A failed open of a file
  that does not exist is the only other I/O error here.
\<close>

subsection \<open>Frame indexes\<close>

type_synonym directory = "(string, bytes) omap"

fun validate_sorted_frames :: "frame_index list \<Rightarrow> log_error + unit" where
  "validate_sorted_frames (a # b # fs) = (if fi_t a \<ge> fi_t b then Inl Corrupt else validate_sorted_frames (b # fs))"
| "validate_sorted_frames _ = Inr ()"

definition validate_sorted_extension :: "frame_index list \<Rightarrow> frame_index list \<Rightarrow> log_error + unit" where
  "validate_sorted_extension existing appended =
    bindr (validate_sorted_frames appended) (\<lambda>_.
      if existing \<noteq> [] \<and> appended \<noteq> [] \<and> fi_t (last existing) \<ge> fi_t (hd appended) then Inl Corrupt else Inr ())"

fun first_gap_index :: "frame_index list \<Rightarrow> nat option" where
  "first_gap_index (a # b # fs) =
    (if checked_succ (fi_t a) \<noteq> Some (fi_t b) then Some 1 else map_option Suc (first_gap_index (b # fs)))"
| "first_gap_index _ = None"

definition extension_first_gap :: "frame_index list \<Rightarrow> frame_index list \<Rightarrow> nat option" where
  "extension_first_gap existing appended =
    (if existing \<noteq> [] \<and> appended \<noteq> [] \<and> checked_succ (fi_t (last existing)) \<noteq> Some (fi_t (hd appended)) then Some 0
     else first_gap_index appended)"

definition frame_end :: "frame_index \<Rightarrow> log_error + nat" where
  "frame_end f = ok_or Corrupt (checked_add (fi_offset f) (fi_len f))"

definition frames_next_t :: "frame_index list \<Rightarrow> log_error + u64" where
  "frames_next_t fs = (if fs = [] then Inr 1 else ok_or Corrupt (checked_succ (fi_t (last fs))))"

definition range_is_indexed :: "frame_index list \<Rightarrow> u64 option \<Rightarrow> log_error + bool" where
  "range_is_indexed fs end = (case end of
     None \<Rightarrow> Inr False | Some e \<Rightarrow> bindr (frames_next_t fs) (\<lambda>n. Inr (e \<le> n)))"

text \<open>\<open>partition_point\<close> on frames sorted by their numbers.\<close>

definition frames_below :: "u64 \<Rightarrow> frame_index list \<Rightarrow> nat" where
  "frames_below t fs = length (takeWhile (\<lambda>f. fi_t f < t) fs)"

subsection \<open>Indexed files\<close>

record indexed_file =
  if_path :: string
  if_cached :: bool
  if_writable :: bool
  if_poisoned :: bool
  if_frames :: "frame_index list"
  if_durable_len :: nat
  if_first_gap :: "nat option"
  if_codec :: record_codec

definition open_index_file :: "directory \<Rightarrow> string \<Rightarrow> bool \<Rightarrow> log_error + bytes \<times> directory" where
  "open_index_file dir path writable = (case om_get dir path of
     Some bytes \<Rightarrow> Inr (bytes, dir)
   | None \<Rightarrow> if writable then Inr ([], om_insert path [] dir) else Inl (LogIo ''not found''))"

definition idx_open ::
    "log_env \<Rightarrow> directory \<Rightarrow> string \<Rightarrow> bool \<Rightarrow> bool \<Rightarrow> record_codec \<Rightarrow> log_error + indexed_file \<times> directory" where
  "idx_open env dir path writable truncate_torn codec =
    bindr (open_index_file dir path writable) (\<lambda>(file, dir).
    bindr (scan_frames env codec file 0) (\<lambda>(frames, durable_len).
    bindr (validate_sorted_frames frames) (\<lambda>_.
      let dir = (if truncate_torn \<and> length file > durable_len then om_insert path (take durable_len file) dir else dir)
      in Inr (\<lparr>if_path = path, if_cached = True, if_writable = writable, if_poisoned = False, if_frames = frames,
               if_durable_len = durable_len, if_first_gap = first_gap_index frames, if_codec = codec\<rparr>, dir))))"

definition ensure_healthy :: "indexed_file \<Rightarrow> log_error + unit" where
  "ensure_healthy f = (if if_poisoned f then Inl (LogIo ''transaction log handle is poisoned'') else Inr ())"

definition idx_read :: "directory \<Rightarrow> indexed_file \<Rightarrow> log_error + bytes" where
  "idx_read dir f = ok_or (LogIo ''not found'') (om_get dir (if_path f))"

definition idx_refresh :: "log_env \<Rightarrow> directory \<Rightarrow> indexed_file \<Rightarrow> log_error + indexed_file" where
  "idx_refresh env dir f =
    bindr (ensure_healthy f) (\<lambda>_.
    bindr (idx_read dir f) (\<lambda>file.
      if length file < if_durable_len f then
        bindr (scan_frames env (if_codec f) file 0) (\<lambda>(frames, durable_len).
        bindr (validate_sorted_frames frames) (\<lambda>_.
          Inr (f\<lparr>if_first_gap := first_gap_index frames, if_frames := frames, if_durable_len := durable_len\<rparr>)))
      else if length file > if_durable_len f then
        bindr (scan_frames env (if_codec f) file (if_durable_len f)) (\<lambda>(new_frames, durable_len).
        bindr (validate_sorted_extension (if_frames f) new_frames) (\<lambda>_.
          let gap = (case if_first_gap f of
                None \<Rightarrow> map_option (\<lambda>gap. length (if_frames f) + gap) (extension_first_gap (if_frames f) new_frames)
              | Some gap \<Rightarrow> Some gap)
          in Inr (f\<lparr>if_first_gap := gap, if_frames := if_frames f @ new_frames, if_durable_len := durable_len\<rparr>)))
      else Inr f))"

text \<open>How the operating system handles an append: all of it durable, cut short after some bytes, or written and not synced.\<close>

datatype io_outcome = Durable | Short_Write nat string | Sync_Failed string

fun written_bytes :: "io_outcome \<Rightarrow> bytes \<Rightarrow> bytes" where
  "written_bytes (Short_Write n _) frame = take n frame"
| "written_bytes _ frame = frame"

fun outcome_error :: "io_outcome \<Rightarrow> log_error option" where
  "outcome_error Durable = None"
| "outcome_error (Short_Write _ e) = Some (LogIo e)"
| "outcome_error (Sync_Failed e) = Some (LogIo e)"

definition idx_append ::
    "log_env \<Rightarrow> io_outcome \<Rightarrow> bytes option \<Rightarrow> directory \<Rightarrow> indexed_file \<Rightarrow> tx_record \<Rightarrow>
     (log_error + unit) \<times> directory \<times> indexed_file" where
  "idx_append env outcome entropy dir f r = (case
      bindr (ensure_healthy f) (\<lambda>_.
      bindr (if if_writable f then Inr () else Inl (Native ''transaction log is read-only'')) (\<lambda>_.
      bindr (idx_read dir f) (\<lambda>file.
      bindr (if length file \<noteq> if_durable_len f then Inl Corrupt else Inr ()) (\<lambda>_.
      bindr (codec_encode env entropy (if_codec f) r) (\<lambda>payload.
      bindr (append_framed_payload env [] payload) (\<lambda>frame. Inr (file, frame))))))) of
     Inl e \<Rightarrow> (Inl e, dir, f)
   | Inr (file, frame) \<Rightarrow>
       let dir = om_insert (if_path f) (file @ written_bytes outcome frame) dir
       in case outcome_error outcome of
            Some e \<Rightarrow> (Inl e, dir, f\<lparr>if_poisoned := True\<rparr>)
          | None \<Rightarrow> (case checked_add (if_durable_len f) (length frame) of
              None \<Rightarrow> (Inl Corrupt, dir, f)
            | Some durable_len \<Rightarrow>
                let gap = (if if_first_gap f = None \<and> if_frames f \<noteq> [] \<and> checked_succ (fi_t (last (if_frames f))) \<noteq> Some (tr_t r)
                           then Some (length (if_frames f)) else if_first_gap f)
                in (Inr (), dir, f\<lparr>if_durable_len := durable_len, if_first_gap := gap,
                      if_frames := if_frames f @ [\<lparr>fi_t = tr_t r, fi_offset = if_durable_len f, fi_len = length frame\<rparr>]\<rparr>)))"

definition validate_contiguous_prefix :: "indexed_file \<Rightarrow> nat \<Rightarrow> log_error + unit" where
  "validate_contiguous_prefix f retained = (case if_first_gap f of
     Some gap \<Rightarrow> if gap < retained then Inl Corrupt else Inr () | None \<Rightarrow> Inr ())"

subsection \<open>Reading ranges\<close>

definition RANGE_READ_CHUNK_BYTES :: nat where
  "RANGE_READ_CHUNK_BYTES = 4 * 1024 * 1024"

definition checked_sub :: "nat \<Rightarrow> nat \<Rightarrow> nat option" where
  "checked_sub a b = (if b \<le> a then Some (a - b) else None)"

text \<open>The frames after the first that fit into a chunk starting at an offset, and the frames left.\<close>

fun chunk_frames :: "nat \<Rightarrow> frame_index list \<Rightarrow> log_error + frame_index list \<times> frame_index list" where
  "chunk_frames offset [] = Inr ([], [])"
| "chunk_frames offset (f # fs) =
    bindr (frame_end f) (\<lambda>candidate_end.
    bindr (ok_or Corrupt (checked_sub candidate_end offset)) (\<lambda>len.
      if len > RANGE_READ_CHUNK_BYTES then Inr ([], f # fs)
      else bindr (chunk_frames offset fs) (\<lambda>(chunk, rest). Inr (f # chunk, rest))))"

definition read_exact_at :: "bytes \<Rightarrow> nat \<Rightarrow> nat \<Rightarrow> log_error + bytes" where
  "read_exact_at file offset len =
    (if offset + len \<le> length file then Inr (take len (drop offset file)) else Inl (LogIo ''unexpected end of file''))"

lemma chunk_frames_shorter: "chunk_frames offset fs = Inr (chunk, rest) \<Longrightarrow> fs = chunk @ rest"
  by (induction fs arbitrary: chunk rest) (auto simp: bindr_eq_Inr split: if_splits)

function read_chunks_from ::
    "(bytes \<Rightarrow> frame_index list \<Rightarrow> log_error + 'a list) \<Rightarrow> bytes \<Rightarrow> frame_index list \<Rightarrow> log_error + 'a list" where
  "read_chunks_from visit file [] = Inr []"
| "read_chunks_from visit file (f # fs) = (case chunk_frames (fi_offset f) fs of
     Inl e \<Rightarrow> Inl e
   | Inr (chunk, rest) \<Rightarrow>
       bindr (frame_end (last (f # chunk))) (\<lambda>byte_end.
       bindr (ok_or Corrupt (checked_sub byte_end (fi_offset f))) (\<lambda>byte_len.
       bindr (read_exact_at file (fi_offset f) byte_len) (\<lambda>bytes.
       bindr (visit bytes (f # chunk)) (\<lambda>out.
       bindr (read_chunks_from visit file rest) (\<lambda>more. Inr (out @ more)))))))"
  by pat_completeness auto
termination
  by (relation "measure (\<lambda>(_, _, fs). length fs)") (auto dest!: chunk_frames_shorter)

definition read_chunks ::
    "(bytes \<Rightarrow> frame_index list \<Rightarrow> log_error + 'a list) \<Rightarrow> directory \<Rightarrow> indexed_file \<Rightarrow> u64 \<Rightarrow> u64 option \<Rightarrow> log_error + 'a list" where
  "read_chunks visit dir f start end =
    bindr (ensure_healthy f) (\<lambda>_.
      let frames = if_frames f; first = frames_below start frames;
          last = (case end of None \<Rightarrow> length frames | Some e \<Rightarrow> frames_below e frames)
      in if first \<ge> last then Inr []
         else bindr (idx_read dir f) (\<lambda>file. read_chunks_from visit file (slice first last frames)))"

definition visit_decode :: "log_env \<Rightarrow> record_codec \<Rightarrow> bytes \<Rightarrow> frame_index list \<Rightarrow> log_error + tx_record list" where
  "visit_decode env codec bytes frames =
    bindr (decode_framed_payloads env codec bytes) (\<lambda>chunk.
      if length chunk \<noteq> length frames \<or> list_ex (\<lambda>(r, f). tr_t r \<noteq> fi_t f) (zip chunk frames)
      then Inl Corrupt else Inr chunk)"

definition idx_tx_range :: "log_env \<Rightarrow> directory \<Rightarrow> indexed_file \<Rightarrow> u64 \<Rightarrow> u64 option \<Rightarrow> log_error + tx_record list" where
  "idx_tx_range env dir f start end = read_chunks (visit_decode env (if_codec f)) dir f start end"

fun visit_frames :: "u64 \<Rightarrow> nat \<Rightarrow> bytes \<Rightarrow> frame_index list \<Rightarrow> log_error + framed_record list" where
  "visit_frames log_version cursor bytes [] = Inr []"
| "visit_frames log_version cursor bytes (f # fs) =
    bindr (ok_or Corrupt (checked_add cursor (fi_len f))) (\<lambda>stop.
      if stop > length bytes then Inl Corrupt
      else bindr (visit_frames log_version stop bytes fs) (\<lambda>more.
        Inr (\<lparr>fr_t = fi_t f, fr_log_version = log_version, fr_frame = slice cursor stop bytes\<rparr> # more)))"

definition idx_framed_range :: "directory \<Rightarrow> indexed_file \<Rightarrow> u64 \<Rightarrow> u64 \<Rightarrow> u64 option \<Rightarrow> log_error + framed_record list" where
  "idx_framed_range dir f log_version start end = read_chunks (visit_frames log_version 0) dir f start end"

subsection \<open>The single-file log\<close>

definition empty_range :: "u64 \<Rightarrow> u64 option \<Rightarrow> bool" where
  "empty_range start end = (case end of None \<Rightarrow> False | Some e \<Rightarrow> e \<le> start)"

definition file_log_open :: "log_env \<Rightarrow> directory \<Rightarrow> string \<Rightarrow> log_cipher option \<Rightarrow> log_error + indexed_file \<times> directory" where
  "file_log_open env dir path c =
    bindr (idx_open env dir path True True (codec_new c 0)) (\<lambda>(f, dir).
    bindr (validate_contiguous_prefix f (length (if_frames f))) (\<lambda>_. Inr (f, dir)))"

text \<open>A read first brings the index up to date, which the handle keeps.\<close>

definition file_log_refreshed_for ::
    "log_env \<Rightarrow> directory \<Rightarrow> indexed_file \<Rightarrow> u64 option \<Rightarrow> (log_error + unit) \<times> indexed_file" where
  "file_log_refreshed_for env dir f end = (case range_is_indexed (if_frames f) end of
     Inl e \<Rightarrow> (Inl e, f)
   | Inr indexed \<Rightarrow>
       if indexed then (Inr (), f)
       else (case idx_refresh env dir f of
           Inl e \<Rightarrow> (Inl e, f)
         | Inr f \<Rightarrow> (validate_contiguous_prefix f (length (if_frames f)), f)))"

definition file_log_append ::
    "log_env \<Rightarrow> io_outcome \<Rightarrow> bytes option \<Rightarrow> directory \<Rightarrow> indexed_file \<Rightarrow> tx_record \<Rightarrow>
     (log_error + unit) \<times> directory \<times> indexed_file" where
  "file_log_append env outcome entropy dir f r = (case idx_refresh env dir f of
     Inl e \<Rightarrow> (Inl e, dir, f)
   | Inr f \<Rightarrow> (case
        bindr (validate_contiguous_prefix f (length (if_frames f))) (\<lambda>_.
        bindr (frames_next_t (if_frames f)) (\<lambda>n. if n \<noteq> tr_t r then Inl Corrupt else Inr ())) of
       Inl e \<Rightarrow> (Inl e, dir, f)
     | Inr _ \<Rightarrow> idx_append env outcome entropy dir f r))"

definition file_log_tx_range ::
    "log_env \<Rightarrow> directory \<Rightarrow> indexed_file \<Rightarrow> u64 \<Rightarrow> u64 option \<Rightarrow> (log_error + tx_record list) \<times> indexed_file" where
  "file_log_tx_range env dir f start end =
    (if empty_range start end then (Inr [], f)
     else case file_log_refreshed_for env dir f end of (ready, f) \<Rightarrow>
       (bindr ready (\<lambda>_. idx_tx_range env dir f start end), f))"

definition file_log_tx_range_framed ::
    "log_env \<Rightarrow> directory \<Rightarrow> indexed_file \<Rightarrow> u64 \<Rightarrow> u64 option \<Rightarrow> (log_error + framed_record list) \<times> indexed_file" where
  "file_log_tx_range_framed env dir f start end =
    (if empty_range start end then (Inr [], f)
     else case file_log_refreshed_for env dir f end of (ready, f) \<Rightarrow>
       (bindr ready (\<lambda>_. idx_framed_range dir f 0 start end), f))"

subsection \<open>One file per lease version\<close>

definition version_path :: "string \<Rightarrow> u64 \<Rightarrow> string" where
  "version_path name version =
    (if version = 0 then name @ ''.log'' else name @ ''.v'' @ print_unsigned version @ ''.log'')"

definition version_of_file :: "string \<Rightarrow> string \<Rightarrow> u64 option" where
  "version_of_file name text =
    Option.bind (strip_prefix (name @ ''.v'') text) (\<lambda>rest.
    Option.bind (strip_suffix ''.log'' rest) (\<lambda>v.
    Option.bind (parse_unsigned v) (\<lambda>version. if version > 0 then Some version else None)))"

text \<open>The listing of the directory is in the order of the names; the result is sorted by version.\<close>

definition version_files :: "directory \<Rightarrow> string \<Rightarrow> (u64 \<times> string) list" where
  "version_files dir name = sort_key fst
    ((if om_get dir (version_path name 0) \<noteq> None then [(0, version_path name 0)] else [])
     @ List.map_filter (\<lambda>text. map_option (\<lambda>v. (v, text)) (version_of_file name text)) (om_keys dir))"

definition MAX_CACHED_READ_VERSION_FILES :: nat where
  "MAX_CACHED_READ_VERSION_FILES = 8"

type_synonym versioned_file = "u64 \<times> indexed_file"

definition close_cold_step :: "versioned_file \<Rightarrow> nat \<times> versioned_file list \<Rightarrow> nat \<times> versioned_file list" where
  "close_cold_step = (\<lambda>(v, f) (cached_readers, out).
    if if_writable f \<or> \<not> if_cached f then (cached_readers, (v, f) # out)
    else if cached_readers < MAX_CACHED_READ_VERSION_FILES then (cached_readers + 1, (v, f) # out)
    else (cached_readers, (v, f\<lparr>if_cached := False\<rparr>) # out))"

definition close_cold_version_files :: "versioned_file list \<Rightarrow> versioned_file list" where
  "close_cold_version_files files = snd (foldr close_cold_step files (0, []))"

record versioned_log =
  vl_name :: string
  vl_mode :: record_mode
  vl_files :: "versioned_file list"
  vl_write_version :: "u64 option"
  vl_next_t :: u64

definition cutoff_step :: "versioned_file \<Rightarrow> u64 list \<times> u64 \<Rightarrow> u64 list \<times> u64" where
  "cutoff_step = (\<lambda>(_, f) (cutoffs, cutoff).
    (cutoff # cutoffs, case if_frames f of [] \<Rightarrow> cutoff | g # _ \<Rightarrow> min cutoff (fi_t g)))"

definition version_cutoffs :: "versioned_file list \<Rightarrow> u64 list" where
  "version_cutoffs files = fst (foldr cutoff_step files ([], - 1))"

fun validate_cutoffs :: "u64 option \<Rightarrow> (versioned_file \<times> u64) list \<Rightarrow> log_error + unit" where
  "validate_cutoffs previous_t [] = Inr ()"
| "validate_cutoffs previous_t (((_, f), cutoff) # files) =
    (let retained = frames_below cutoff (if_frames f)
     in if retained = 0 then validate_cutoffs previous_t files
        else bindr (validate_contiguous_prefix f retained) (\<lambda>_.
          if (case previous_t of None \<Rightarrow> False | Some p \<Rightarrow> checked_succ p \<noteq> Some (fi_t (if_frames f ! 0))) then Inl Corrupt
          else validate_cutoffs (Some (fi_t (if_frames f ! (retained - 1)))) files))"

definition validated_version_cutoffs :: "versioned_file list \<Rightarrow> log_error + u64 list" where
  "validated_version_cutoffs files =
    (let cutoffs = version_cutoffs files
     in bindr (validate_cutoffs None (zip files cutoffs)) (\<lambda>_. Inr cutoffs))"

fun last_retained :: "(versioned_file \<times> u64) list \<Rightarrow> log_error + u64" where
  "last_retained [] = Inr 1"
| "last_retained (((_, f), cutoff) # files) =
    (let retained = frames_below cutoff (if_frames f)
     in if retained > 0 then ok_or Corrupt (checked_succ (fi_t (if_frames f ! (retained - 1)))) else last_retained files)"

definition merged_next_t :: "versioned_file list \<Rightarrow> u64 list \<Rightarrow> log_error + u64" where
  "merged_next_t files cutoffs = last_retained (rev (zip files cutoffs))"

definition range_is_merged_indexed :: "versioned_file list \<Rightarrow> u64 list \<Rightarrow> u64 option \<Rightarrow> log_error + bool" where
  "range_is_merged_indexed files cutoffs end = (case end of
     None \<Rightarrow> Inr False | Some e \<Rightarrow> bindr (merged_next_t files cutoffs) (\<lambda>n. Inr (e \<le> n)))"

fun read_merged_files ::
    "(versioned_file \<Rightarrow> u64 option \<Rightarrow> log_error + 'a list) \<Rightarrow> u64 option \<Rightarrow> (versioned_file \<times> u64) list \<Rightarrow> log_error + 'a list" where
  "read_merged_files read end [] = Inr []"
| "read_merged_files read end ((f, cutoff) # files) =
    bindr (read f (Some (case end of None \<Rightarrow> cutoff | Some e \<Rightarrow> min e cutoff))) (\<lambda>rs.
    bindr (read_merged_files read end files) (\<lambda>more. Inr (rs @ more)))"

definition read_merged_range ::
    "log_env \<Rightarrow> directory \<Rightarrow> versioned_file list \<Rightarrow> u64 list \<Rightarrow> u64 \<Rightarrow> u64 option \<Rightarrow> log_error + tx_record list" where
  "read_merged_range env dir files cutoffs start end =
    read_merged_files (\<lambda>(_, f) e. idx_tx_range env dir f start e) end (zip files cutoffs)"

definition read_merged_framed_range ::
    "directory \<Rightarrow> versioned_file list \<Rightarrow> u64 list \<Rightarrow> u64 \<Rightarrow> u64 option \<Rightarrow> log_error + framed_record list" where
  "read_merged_framed_range dir files cutoffs start end =
    read_merged_files (\<lambda>(v, f) e. idx_framed_range dir f v start e) end (zip files cutoffs)"

fun open_files ::
    "log_env \<Rightarrow> (u64 \<Rightarrow> bool) \<Rightarrow> record_mode \<Rightarrow> directory \<Rightarrow> versioned_file list \<Rightarrow> (u64 \<times> string) list \<Rightarrow>
     log_error + versioned_file list \<times> directory" where
  "open_files env writable mode dir files [] = Inr (files, dir)"
| "open_files env writable mode dir files ((version, path) # paths) =
    bindr (idx_open env dir path (writable version) (writable version) (codec_for_mode mode version)) (\<lambda>(f, dir).
      open_files env writable mode dir (close_cold_version_files (files @ [(version, f)])) paths)"

definition versioned_open ::
    "log_env \<Rightarrow> directory \<Rightarrow> string \<Rightarrow> u64 \<Rightarrow> log_cipher option \<Rightarrow> log_error + versioned_log \<times> directory" where
  "versioned_open env dir name write_version c =
    (let mode = mode_of_cipher c; write_path = version_path name write_version
     in bindr (open_files env (\<lambda>v. v = write_version) mode dir [] (version_files dir name)) (\<lambda>(files, dir).
        bindr (if list_ex (\<lambda>(v, _). v = write_version) files then Inr (files, dir)
               else bindr (idx_open env dir write_path True True (codec_for_mode mode write_version)) (\<lambda>(f, dir).
                 Inr (sort_key fst (files @ [(write_version, f)]), dir))) (\<lambda>(files, dir).
          let files = close_cold_version_files files
          in bindr (validated_version_cutoffs files) (\<lambda>cutoffs.
             bindr (merged_next_t files cutoffs) (\<lambda>next_t.
               Inr (\<lparr>vl_name = name, vl_mode = mode, vl_files = files, vl_write_version = Some write_version,
                     vl_next_t = next_t\<rparr>, dir))))))"

definition versioned_open_read_only ::
    "log_env \<Rightarrow> directory \<Rightarrow> string \<Rightarrow> record_mode \<Rightarrow> log_error + versioned_log" where
  "versioned_open_read_only env dir name mode =
    bindr (open_files env (\<lambda>_. False) mode dir [] (version_files dir name)) (\<lambda>(files, _).
      let files = close_cold_version_files files
      in bindr (validated_version_cutoffs files) (\<lambda>cutoffs.
         bindr (merged_next_t files cutoffs) (\<lambda>next_t.
           Inr \<lparr>vl_name = name, vl_mode = mode, vl_files = files, vl_write_version = None, vl_next_t = next_t\<rparr>)))"

definition versioned_exists :: "directory \<Rightarrow> string \<Rightarrow> bool" where
  "versioned_exists dir name \<longleftrightarrow> version_files dir name \<noteq> []"

definition versioned_delete_all :: "directory \<Rightarrow> string \<Rightarrow> directory" where
  "versioned_delete_all dir name = fold (\<lambda>(_, path). om_remove path) (version_files dir name) dir"

fun index_of_version :: "u64 \<Rightarrow> versioned_file list \<Rightarrow> nat option" where
  "index_of_version v [] = None"
| "index_of_version v ((w, _) # files) = (if w = v then Some 0 else map_option Suc (index_of_version v files))"

definition versioned_append ::
    "log_env \<Rightarrow> io_outcome \<Rightarrow> bytes option \<Rightarrow> directory \<Rightarrow> versioned_log \<Rightarrow> tx_record \<Rightarrow>
     (log_error + unit) \<times> directory \<times> versioned_log" where
  "versioned_append env outcome entropy dir log r = (case
      bindr (if vl_next_t log \<noteq> tr_t r then Inl Corrupt else Inr ()) (\<lambda>_.
      bindr (ok_or (Native ''transaction log is read-only'') (vl_write_version log)) (\<lambda>write_version.
      bindr (ok_or Corrupt (index_of_version write_version (vl_files log))) (\<lambda>i.
        let f = snd (vl_files log ! i)
        in if version_cutoffs (vl_files log) ! i = - 1 \<and> if_frames f \<noteq> [] then
             bindr (frames_next_t (if_frames f)) (\<lambda>n. if n \<noteq> tr_t r then Inl Corrupt else Inr i)
           else Inr i))) of
     Inl e \<Rightarrow> (Inl e, dir, log)
   | Inr i \<Rightarrow> (case idx_append env outcome entropy dir (snd (vl_files log ! i)) r of (res, dir, f) \<Rightarrow>
       let log = log\<lparr>vl_files := (vl_files log)[i := (fst (vl_files log ! i), f)]\<rparr>
       in case res of
            Inl e \<Rightarrow> (Inl e, dir, log)
          | Inr _ \<Rightarrow> (case checked_succ (vl_next_t log) of
              None \<Rightarrow> (Inl Corrupt, dir, log) | Some n \<Rightarrow> (Inr (), dir, log\<lparr>vl_next_t := n\<rparr>))))"

text \<open>Bringing the index up to date stops at the first error, and the files refreshed before stay refreshed.\<close>

fun refresh_files :: "log_env \<Rightarrow> directory \<Rightarrow> versioned_file list \<Rightarrow> (log_error + unit) \<times> versioned_file list" where
  "refresh_files env dir [] = (Inr (), [])"
| "refresh_files env dir ((v, f) # files) = (case idx_refresh env dir f of
     Inl e \<Rightarrow> (Inl e, (v, f) # files)
   | Inr f \<Rightarrow> (case refresh_files env dir files of (res, files) \<Rightarrow> (res, (v, f) # files)))"

fun open_new_files ::
    "log_env \<Rightarrow> record_mode \<Rightarrow> directory \<Rightarrow> versioned_file list \<Rightarrow> (u64 \<times> string) list \<Rightarrow> (log_error + unit) \<times> versioned_file list" where
  "open_new_files env mode dir files [] = (Inr (), files)"
| "open_new_files env mode dir files ((version, path) # paths) =
    (if list_all (\<lambda>(v, _). v \<noteq> version) files then
       (case idx_open env dir path False False (codec_for_mode mode version) of
          Inl e \<Rightarrow> (Inl e, files)
        | Inr (f, _) \<Rightarrow> open_new_files env mode dir (close_cold_version_files (files @ [(version, f)])) paths)
     else open_new_files env mode dir files paths)"

definition refresh_version_files ::
    "log_env \<Rightarrow> directory \<Rightarrow> string \<Rightarrow> record_mode \<Rightarrow> versioned_file list \<Rightarrow> (log_error + unit) \<times> versioned_file list" where
  "refresh_version_files env dir name mode files = (case refresh_files env dir files of
     (Inl e, files) \<Rightarrow> (Inl e, files)
   | (Inr _, files) \<Rightarrow> (case open_new_files env mode dir files (version_files dir name) of
       (Inl e, files) \<Rightarrow> (Inl e, files)
     | (Inr _, files) \<Rightarrow> (Inr (), sort_key fst files)))"

text \<open>A merged read, with the index it leaves in the handle.\<close>

definition read_merged ::
    "log_env \<Rightarrow> directory \<Rightarrow> versioned_log \<Rightarrow> u64 option \<Rightarrow>
     (versioned_file list \<Rightarrow> u64 list \<Rightarrow> log_error + 'a list) \<Rightarrow> (log_error + 'a list) \<times> versioned_log" where
  "read_merged env dir log end read = (case
      bindr (validated_version_cutoffs (vl_files log)) (\<lambda>cutoffs.
      bindr (range_is_merged_indexed (vl_files log) cutoffs end) (\<lambda>indexed. Inr (cutoffs, indexed))) of
     Inl e \<Rightarrow> (Inl e, log)
   | Inr (cutoffs, indexed) \<Rightarrow>
       if indexed then (read (vl_files log) cutoffs, log)
       else (case refresh_version_files env dir (vl_name log) (vl_mode log) (vl_files log) of
           (Inl e, files) \<Rightarrow> (Inl e, log\<lparr>vl_files := files\<rparr>)
         | (Inr _, files) \<Rightarrow>
             let files = close_cold_version_files files
             in (bindr (validated_version_cutoffs files) (read files), log\<lparr>vl_files := files\<rparr>)))"

definition versioned_tx_range ::
    "log_env \<Rightarrow> directory \<Rightarrow> versioned_log \<Rightarrow> u64 \<Rightarrow> u64 option \<Rightarrow> (log_error + tx_record list) \<times> versioned_log" where
  "versioned_tx_range env dir log start end =
    (if empty_range start end then (Inr [], log)
     else read_merged env dir log end (\<lambda>files cutoffs. read_merged_range env dir files cutoffs start end))"

definition versioned_tx_range_framed ::
    "log_env \<Rightarrow> directory \<Rightarrow> versioned_log \<Rightarrow> u64 \<Rightarrow> u64 option \<Rightarrow> (log_error + framed_record list) \<times> versioned_log" where
  "versioned_tx_range_framed env dir log start end =
    (if empty_range start end then (Inr [], log)
     else read_merged env dir log end (\<lambda>files cutoffs. read_merged_framed_range dir files cutoffs start end))"

subsection \<open>An index in step with its file\<close>

definition ascending_records :: "tx_record list \<Rightarrow> bool" where
  "ascending_records rs \<longleftrightarrow> sorted_wrt (\<lambda>a b. tr_t a < tr_t b) rs"

text \<open>The records a file holds as whole frames, possibly followed by the beginning of one more.\<close>

definition file_holds :: "log_env \<Rightarrow> record_codec \<Rightarrow> bytes \<Rightarrow> tx_record list \<Rightarrow> bytes list \<Rightarrow> bytes \<Rightarrow> bool" where
  "file_holds env codec file rs fs torn \<longleftrightarrow> file = concat fs @ torn \<and> list_all2 (frame_of env codec) rs fs \<and>
     list_all loggable rs \<and> length file < 2 ^ 64 \<and>
     (\<exists>payload k. length payload < 2 ^ 63 \<and> k < length (frame_bytes env payload) \<and> torn = take k (frame_bytes env payload))"

lemma file_holds_whole: "file_holds env codec (concat fs) rs fs [] \<longleftrightarrow>
    list_all2 (frame_of env codec) rs fs \<and> list_all loggable rs \<and> length (concat fs) < 2 ^ 64"
proof -
  have "\<exists>payload k. length payload < 2 ^ 63 \<and> k < length (frame_bytes env payload) \<and> [] = take k (frame_bytes env payload)"
    by (intro exI [of _ "[]"] exI [of _ 0]) (simp add: length_frame_bytes)
  then show ?thesis by (auto simp: file_holds_def)
qed

definition idx_synced :: "log_env \<Rightarrow> indexed_file \<Rightarrow> tx_record list \<Rightarrow> bytes list \<Rightarrow> bool" where
  "idx_synced env f rs fs \<longleftrightarrow> if_frames f = index_frames 0 rs fs \<and> if_durable_len f = length (concat fs) \<and>
     if_first_gap f = first_gap_index (if_frames f) \<and> \<not> if_poisoned f"

lemma holds_lengths: "file_holds env codec file rs fs torn \<Longrightarrow> length rs = length fs"
  by (auto simp: file_holds_def dest: list_all2_lengthD)

lemma scan_holds:
  assumes "codec_ok env codec" and "file_holds env codec file rs fs torn"
  shows "scan_frames env codec file 0 = Inr (index_frames 0 rs fs, length (concat fs))"
proof -
  obtain payload k where torn: "length payload < 2 ^ 63" "k < length (frame_bytes env payload)" "torn = take k (frame_bytes env payload)"
    using assms(2) by (auto simp: file_holds_def)
  have "scan_frame env codec (concat fs @ torn) (length (concat fs)) = Inr None"
    unfolding torn(3) by (rule scan_frame_torn [OF torn(1,2)])
  moreover have "length (concat fs @ torn) < 2 ^ 64" using assms(2) by (auto simp: file_holds_def)
  moreover have "file = concat fs @ torn" using assms(2) by (simp add: file_holds_def)
  ultimately show ?thesis
    using scan_frames_durable [OF assms(1), of rs fs "[]" torn] assms(2) by (simp add: file_holds_def)
qed

lemma scan_holds_from:
  assumes "codec_ok env codec" and "file_holds env codec file (rs @ qs) (fs @ gs) torn" and "length rs = length fs"
  shows "scan_frames env codec file (length (concat fs)) = Inr (index_frames (length (concat fs)) qs gs, length (concat (fs @ gs)))"
proof -
  obtain payload k where torn: "length payload < 2 ^ 63" "k < length (frame_bytes env payload)" "torn = take k (frame_bytes env payload)"
    using assms(2) by (auto simp: file_holds_def)
  have "scan_frame env codec ((concat fs @ concat gs) @ torn) (length (concat fs @ concat gs)) = Inr None"
    unfolding torn(3) by (rule scan_frame_torn [OF torn(1,2)])
  moreover have "length (concat fs @ concat gs @ torn) < 2 ^ 64" using assms(2) by (auto simp: file_holds_def)
  moreover have "file = concat fs @ concat gs @ torn" using assms(2) by (simp add: file_holds_def)
  moreover have "list_all2 (frame_of env codec) qs gs" "list_all loggable qs"
    using assms(2,3) by (simp_all add: file_holds_def list_all2_append)
  ultimately show ?thesis
    using scan_frames_durable [OF assms(1), of qs gs "concat fs" torn] by simp
qed

lemma index_frames_append:
  "length rs = length fs \<Longrightarrow>
   index_frames offset (rs @ qs) (fs @ gs) = index_frames offset rs fs @ index_frames (offset + length (concat fs)) qs gs"
  by (induction offset rs fs rule: index_frames.induct) (simp_all add: add.assoc)

lemma validate_sorted_frames_iff:
  "validate_sorted_frames fs = (if sorted_wrt (\<lambda>a b. fi_t a < fi_t b) fs then Inr () else Inl Corrupt)"
proof (induction fs rule: validate_sorted_frames.induct)
  case (1 a b fs)
  have "sorted_wrt (\<lambda>a b. fi_t a < fi_t b) (a # b # fs) \<longleftrightarrow> fi_t a < fi_t b \<and> sorted_wrt (\<lambda>a b. fi_t a < fi_t b) (b # fs)"
    by (auto intro: less_trans)
  with 1 show ?case by auto
qed simp_all

lemma index_sorted:
  "length rs = length fs \<Longrightarrow> sorted_wrt (\<lambda>a b. fi_t a < fi_t b) (index_frames offset rs fs) \<longleftrightarrow> ascending_records rs"
  unfolding ascending_records_def
  by (metis (no_types) index_frames_t sorted_wrt_map)

lemma validate_index [simp]:
  "length rs = length fs \<Longrightarrow> ascending_records rs \<Longrightarrow> validate_sorted_frames (index_frames offset rs fs) = Inr ()"
  by (simp add: validate_sorted_frames_iff index_sorted)

lemma plus_fun: "(+) (0::nat) = id" "(+) (Suc n) = Suc \<circ> (+) n"
  by auto

lemma first_gap_append:
  "first_gap_index (fs @ gs) = (case first_gap_index fs of
     Some gap \<Rightarrow> Some gap
   | None \<Rightarrow> if fs = [] then first_gap_index gs else map_option (\<lambda>gap. length fs + gap) (extension_first_gap fs gs))"
proof (induction fs rule: first_gap_index.induct)
  case (1 a b fs)
  have ext: "extension_first_gap (a # b # fs) gs = extension_first_gap (b # fs) gs" by (simp add: extension_first_gap_def)
  show ?case
    using 1 by (cases "extension_first_gap (b # fs) gs") (auto simp: ext split: option.splits)
qed (simp, cases gs, auto simp: extension_first_gap_def plus_fun option.map_id0)

lemma idx_refresh_synced:
  assumes "codec_ok env (if_codec f)" and "om_get dir (if_path f) = Some file"
    and "file_holds env (if_codec f) file (rs @ qs) (fs @ gs) torn" and "length rs = length fs"
    and "idx_synced env f rs fs" and "ascending_records (rs @ qs)"
  shows "\<exists>g. idx_refresh env dir f = Inr g \<and> idx_synced env g (rs @ qs) (fs @ gs) \<and>
    if_path g = if_path f \<and> if_codec g = if_codec f \<and> if_writable g = if_writable f"
proof -
  have len: "length qs = length gs" using holds_lengths [OF assms(3)] assms(4) by simp
  have flen: "length file = length (concat fs) + length (concat gs) + length torn" using assms(3) by (simp add: file_holds_def)
  have dur: "if_durable_len f = length (concat fs)" using assms(5) by (simp add: idx_synced_def)
  show ?thesis
  proof (cases "length file > if_durable_len f")
    case True
    have asc: "ascending_records qs" using assms(6) by (simp add: ascending_records_def sorted_wrt_append)
    have "\<not> fi_t (last (if_frames f)) \<ge> fi_t (hd (index_frames (length (concat fs)) qs gs))"
      if "if_frames f \<noteq> []" "index_frames (length (concat fs)) qs gs \<noteq> []"
    proof -
      have "map fi_t (if_frames f) = map tr_t rs" "map fi_t (index_frames (length (concat fs)) qs gs) = map tr_t qs"
        using assms(4,5) len by (simp_all add: idx_synced_def index_frames_t)
      then have "fi_t (last (if_frames f)) = tr_t (last rs)" "fi_t (hd (index_frames (length (concat fs)) qs gs)) = tr_t (hd qs)"
        "rs \<noteq> []" "qs \<noteq> []"
        using that by (metis last_map map_is_Nil_conv, metis list.map_sel(1) map_is_Nil_conv, auto)
      then show ?thesis using assms(6) by (auto simp: ascending_records_def sorted_wrt_append not_le)
    qed
    then have ext: "validate_sorted_extension (if_frames f) (index_frames (length (concat fs)) qs gs) = Inr ()"
      by (auto simp: validate_sorted_extension_def len asc)
    have gap: "(case if_first_gap f of
          None \<Rightarrow> map_option (\<lambda>gap. length (if_frames f) + gap) (extension_first_gap (if_frames f) (index_frames (length (concat fs)) qs gs))
        | Some gap \<Rightarrow> Some gap) = first_gap_index (if_frames f @ index_frames (length (concat fs)) qs gs)"
      using assms(5) by (auto simp: idx_synced_def first_gap_append extension_first_gap_def plus_fun option.map_id split: option.splits)
    have "idx_refresh env dir f = Inr (f\<lparr>if_first_gap := first_gap_index (if_frames f @ index_frames (length (concat fs)) qs gs),
        if_frames := if_frames f @ index_frames (length (concat fs)) qs gs, if_durable_len := length (concat (fs @ gs))\<rparr>)"
      using True assms(2,5) scan_holds_from [OF assms(1,3,4)] ext gap dur
      by (simp add: idx_refresh_def ensure_healthy_def idx_synced_def idx_read_def Let_def)
    then show ?thesis using assms(4,5) by (simp add: idx_synced_def index_frames_append)
  next
    case False
    then have "concat gs = []" "length file = if_durable_len f" using flen dur by auto
    moreover have "gs = []"
    proof (rule ccontr)
      assume "gs \<noteq> []"
      then obtain g q where "g \<in> set gs" "frame_of env (if_codec f) q g"
        using assms(3,4) len by (cases gs; cases qs) (auto simp: file_holds_def list_all2_append)
      then have "g \<noteq> []" by (auto simp: frame_of_def frame_bytes_def Let_def dest: arg_cong [where f = length])
      with \<open>concat gs = []\<close> \<open>g \<in> set gs\<close> show False by simp
    qed
    ultimately show ?thesis
      using assms(2,5) len by (simp add: idx_refresh_def ensure_healthy_def idx_synced_def idx_read_def)
  qed
qed

subsection \<open>Opening and appending\<close>

lemma idx_open_holds:
  assumes "codec_ok env codec" and "open_index_file dir path writable = Inr (file, dir0)"
    and "file_holds env codec file rs fs torn" and "ascending_records rs"
  shows "\<exists>f dir'. idx_open env dir path writable trunc codec = Inr (f, dir') \<and> idx_synced env f rs fs \<and>
    if_path f = path \<and> if_codec f = codec \<and> if_writable f = writable \<and>
    dir' = (if trunc \<and> torn \<noteq> [] then om_insert path (concat fs) dir0 else dir0)"
proof -
  have "length rs = length fs" by (rule holds_lengths [OF assms(3)])
  moreover have "file = concat fs @ torn" using assms(3) by (simp add: file_holds_def)
  ultimately show ?thesis
    using assms(2,4) scan_holds [OF assms(1,3)] by (auto simp: idx_open_def idx_synced_def Let_def)
qed

text \<open>The frame an append writes, when the record can be encoded.\<close>

definition writes_frame :: "log_env \<Rightarrow> bytes option \<Rightarrow> record_codec \<Rightarrow> tx_record \<Rightarrow> bytes \<Rightarrow> bool" where
  "writes_frame env entropy codec r frame \<longleftrightarrow>
    (\<exists>payload. codec_encode env entropy codec r = Inr payload \<and> append_framed_payload env [] payload = Inr frame)"

lemma writes_frame_of:
  assumes "writes_frame env (Some nonce) codec r frame" and "length nonce = 12"
  shows "frame_of env codec r frame"
  using assms by (auto simp: writes_frame_def frame_of_def payload_of_def append_framed_payload_Inr)

lemma file_holds_snoc:
  assumes "file_holds env codec (concat fs) rs fs []" and "frame_of env codec r frame" and "loggable r"
    and "length (concat fs) + length frame < 2 ^ 64"
  shows "file_holds env codec (concat (fs @ [frame])) (rs @ [r]) (fs @ [frame]) []"
proof -
  have "length rs = length fs" by (rule holds_lengths [OF assms(1)])
  then show ?thesis using assms unfolding file_holds_whole by (simp add: list_all2_append)
qed

lemma first_gap_snoc:
  "first_gap_index (fs @ [g]) = (if first_gap_index fs = None \<and> fs \<noteq> [] \<and> checked_succ (fi_t (last fs)) \<noteq> Some (fi_t g)
     then Some (length fs) else first_gap_index fs)"
  by (auto simp: first_gap_append extension_first_gap_def split: option.splits)

lemma idx_append_durable:
  assumes "om_get dir (if_path f) = Some (concat fs)" and "idx_synced env f rs fs" and "if_writable f"
    and "length rs = length fs" and "writes_frame env entropy (if_codec f) r frame" and "length (concat fs) + length frame < 2 ^ 64"
  shows "\<exists>g. idx_append env Durable entropy dir f r = (Inr (), om_insert (if_path f) (concat (fs @ [frame])) dir, g) \<and>
    idx_synced env g (rs @ [r]) (fs @ [frame]) \<and> if_path g = if_path f \<and> if_codec g = if_codec f \<and> if_writable g"
proof -
  obtain payload where payload: "codec_encode env entropy (if_codec f) r = Inr payload" "append_framed_payload env [] payload = Inr frame"
    using assms(5) by (auto simp: writes_frame_def)
  let ?fi = "\<lparr>fi_t = tr_t r, fi_offset = length (concat fs), fi_len = length frame\<rparr>"
  have idx: "index_frames 0 (rs @ [r]) (fs @ [frame]) = index_frames 0 rs fs @ [?fi]"
    using assms(4) by (simp add: index_frames_append)
  let ?g = "f\<lparr>if_durable_len := length (concat (fs @ [frame])),
      if_first_gap := first_gap_index (index_frames 0 rs fs @ [?fi]), if_frames := index_frames 0 rs fs @ [?fi]\<rparr>"
  have "idx_append env Durable entropy dir f r = (Inr (), om_insert (if_path f) (concat (fs @ [frame])) dir, ?g)"
    using assms(1,2,3,6) payload
    by (simp add: idx_append_def ensure_healthy_def idx_synced_def idx_read_def Let_def checked_add_def first_gap_snoc)
  then show ?thesis using assms(2,3) by (simp add: idx_synced_def idx)
qed

text \<open>A failed append leaves a beginning of its frame, and a handle that refuses everything after.\<close>

lemma idx_append_failed:
  assumes "om_get dir (if_path f) = Some (concat fs)" and "idx_synced env f rs fs" and "if_writable f"
    and "writes_frame env entropy (if_codec f) r frame" and "outcome_error outcome = Some e"
  shows "idx_append env outcome entropy dir f r =
    (Inl e, om_insert (if_path f) (concat fs @ written_bytes outcome frame) dir, f\<lparr>if_poisoned := True\<rparr>)"
proof -
  obtain payload where "codec_encode env entropy (if_codec f) r = Inr payload" "append_framed_payload env [] payload = Inr frame"
    using assms(4) by (auto simp: writes_frame_def)
  then show ?thesis
    using assms(1,2,3,5) by (simp add: idx_append_def ensure_healthy_def idx_synced_def idx_read_def Let_def)
qed

subsection \<open>Reading\<close>

lemma frames_below_index:
  assumes "length rs = length fs"
  shows "frames_below t (index_frames offset rs fs) = length (takeWhile (\<lambda>r. tr_t r < t) rs)"
proof -
  have "takeWhile (\<lambda>x. x < t) (map fi_t (index_frames offset rs fs)) = takeWhile (\<lambda>x. x < t) (map tr_t rs)"
    by (simp add: index_frames_t [OF assms])
  from arg_cong [OF this, of length] show ?thesis by (simp add: frames_below_def takeWhile_map comp_def)
qed

lemma frame_end_ok: "fi_offset f + fi_len f < 2 ^ 64 \<Longrightarrow> frame_end f = Inr (fi_offset f + fi_len f)"
  by (simp add: frame_end_def checked_add_def)

lemma index_frames_bounds:
  "length rs = length fs \<Longrightarrow> g \<in> set (index_frames offset rs fs) \<Longrightarrow>
   offset \<le> fi_offset g \<and> fi_offset g + fi_len g \<le> offset + length (concat fs)"
  by (induction offset rs fs rule: index_frames.induct) auto

lemma chunk_frames_index:
  assumes "length rs = length fs" and "base \<le> offset" and "offset + length (concat fs) < 2 ^ 64"
  shows "\<exists>n. n \<le> length rs \<and> chunk_frames base (index_frames offset rs fs) =
    Inr (index_frames offset (take n rs) (take n fs), index_frames (offset + length (concat (take n fs))) (drop n rs) (drop n fs))"
  using assms
proof (induction offset rs fs rule: index_frames.induct)
  case (1 offset r rs f fs)
  let ?g = "\<lparr>fi_t = tr_t r, fi_offset = offset, fi_len = length f\<rparr>"
  have fe: "frame_end ?g = Inr (offset + length f)" using 1(4) by (simp add: frame_end_def checked_add_def)
  show ?case
  proof (cases "offset + length f - base > RANGE_READ_CHUNK_BYTES")
    case True
    then show ?thesis using fe 1(3) by (intro exI [of _ 0]) (simp add: checked_sub_def)
  next
    case False
    obtain n where "n \<le> length rs" "chunk_frames base (index_frames (offset + length f) rs fs) =
      Inr (index_frames (offset + length f) (take n rs) (take n fs),
           index_frames (offset + length f + length (concat (take n fs))) (drop n rs) (drop n fs))"
      using 1 by auto
    then show ?thesis using False fe 1(3) by (intro exI [of _ "Suc n"]) (simp add: checked_sub_def add.assoc)
  qed
qed auto

lemma index_frames_end:
  "length rs = length fs \<Longrightarrow> rs \<noteq> [] \<Longrightarrow>
   fi_offset (last (index_frames offset rs fs)) + fi_len (last (index_frames offset rs fs)) = offset + length (concat fs)"
proof (induction offset rs fs rule: index_frames.induct)
  case (1 offset r rs f fs)
  show ?case
  proof (cases rs)
    case (Cons q qs)
    then have "index_frames (offset + length f) rs fs \<noteq> []" using 1(2) by (cases fs) auto
    then show ?thesis using 1 Cons by simp
  qed (use 1 in simp)
qed auto

text \<open>Any visitor that turns the bytes of some frames into a list that concatenates reads the whole selection.\<close>

lemma read_chunks_from_index:
  assumes "length rs = length fs" and "take (length (concat fs)) (drop offset file) = concat fs"
    and "offset + length (concat fs) \<le> length file" and "length file < 2 ^ 64"
    and "\<And>offset qs gs. length qs = length gs \<Longrightarrow> set (zip qs gs) \<subseteq> set (zip rs fs) \<Longrightarrow>
      length (concat gs) \<le> length file \<Longrightarrow> visit (concat gs) (index_frames offset qs gs) = Inr (out qs gs)"
    and "\<And>qs gs qs' gs'. length qs = length gs \<Longrightarrow> length qs' = length gs' \<Longrightarrow> out (qs @ qs') (gs @ gs') = out qs gs @ out qs' gs'"
    and "out [] [] = []"
  shows "read_chunks_from visit file (index_frames offset rs fs) = Inr (out rs fs)"
  using assms(1-3,5)
proof (induction "length rs" arbitrary: offset rs fs rule: less_induct)
  case less
  show ?case
  proof (cases rs)
    case Nil
    then show ?thesis using less.prems(1) assms(7) by simp
  next
    case (Cons r rs')
    then obtain f fs' where fs: "fs = f # fs'" using less.prems(1) by (cases fs) auto
    let ?g = "\<lparr>fi_t = tr_t r, fi_offset = offset, fi_len = length f\<rparr>"
    have len': "length rs' = length fs'" using less.prems(1) Cons fs by simp
    obtain n where n: "n \<le> length rs'" "chunk_frames offset (index_frames (offset + length f) rs' fs') =
        Inr (index_frames (offset + length f) (take n rs') (take n fs'),
          index_frames (offset + length f + length (concat (take n fs'))) (drop n rs') (drop n fs'))"
      using chunk_frames_index [OF len', of offset "offset + length f"] less.prems(3) assms(4) fs by auto
    let ?qs = "take (Suc n) rs" and ?gs = "take (Suc n) fs"
    have qs: "length ?qs = length ?gs" using less.prems(1) by simp
    have chunk: "?g # index_frames (offset + length f) (take n rs') (take n fs') = index_frames offset ?qs ?gs"
      by (simp add: Cons fs)
    have split: "concat fs = concat ?gs @ concat (drop (Suc n) fs)" by (metis append_take_drop_id concat_append)
    have size: "length (concat ?gs) + length (concat (drop (Suc n) fs)) = length (concat fs)" by (metis split length_append)
    obtain rest where rest: "drop offset file = concat ?gs @ concat (drop (Suc n) fs) @ rest"
      using less.prems(2) split by (metis append_assoc append_take_drop_id)
    have ends: "frame_end (last (index_frames offset ?qs ?gs)) = Inr (offset + length (concat ?gs))"
      using index_frames_end [OF qs, of offset] less.prems(3) assms(4) size Cons by (subst frame_end_ok) auto
    have reads: "read_exact_at file offset (length (concat ?gs)) = Inr (concat ?gs)"
      using less.prems(3) size rest by (simp add: read_exact_at_def)
    have visits: "visit (concat ?gs) (index_frames offset ?qs ?gs) = Inr (out ?qs ?gs)"
    proof (rule less.prems(4) [OF qs])
      show "set (zip ?qs ?gs) \<subseteq> set (zip rs fs)" by (metis set_take_subset take_zip)
      show "length (concat ?gs) \<le> length file" using less.prems(3) size by simp
    qed
    have more: "read_chunks_from visit file (index_frames (offset + length (concat ?gs)) (drop (Suc n) rs) (drop (Suc n) fs))
        = Inr (out (drop (Suc n) rs) (drop (Suc n) fs))"
    proof (rule less.hyps)
      show "length (drop (Suc n) rs) < length rs" using Cons by simp
      show "length (drop (Suc n) rs) = length (drop (Suc n) fs)" using less.prems(1) by simp
      have "drop (offset + length (concat ?gs)) file = drop (length (concat ?gs)) (drop offset file)" by (simp add: add.commute)
      then show "take (length (concat (drop (Suc n) fs))) (drop (offset + length (concat ?gs)) file) = concat (drop (Suc n) fs)"
        by (simp add: rest)
      show "offset + length (concat ?gs) + length (concat (drop (Suc n) fs)) \<le> length file" using less.prems(3) size by simp
      show "visit (concat gs) (index_frames off qs gs) = Inr (out qs gs)"
        if "length qs = length gs" "set (zip qs gs) \<subseteq> set (zip (drop (Suc n) rs) (drop (Suc n) fs))"
          "length (concat gs) \<le> length file" for off qs gs
        using less.prems(4) [OF that(1) _ that(3)] that(2) by (metis drop_zip set_drop_subset subset_trans)
    qed
    have outs: "out rs fs = out ?qs ?gs @ out (drop (Suc n) rs) (drop (Suc n) fs)"
      using assms(6) [OF qs, of "drop (Suc n) rs" "drop (Suc n) fs"] less.prems(1) by simp
    have idx: "index_frames offset rs fs = ?g # index_frames (offset + length f) rs' fs'" by (simp add: Cons fs)
    have after: "index_frames (offset + length f + length (concat (take n fs'))) (drop n rs') (drop n fs')
        = index_frames (offset + length (concat ?gs)) (drop (Suc n) rs) (drop (Suc n) fs)"
      by (simp add: Cons fs add.assoc)
    have sub: "checked_sub (offset + length (concat ?gs)) offset = Some (length (concat ?gs))" by (simp add: checked_sub_def)
    have off: "fi_offset ?g = offset" by simp
    show ?thesis
      unfolding idx read_chunks_from.simps off n(2) sum.case prod.case chunk after ends bindr_simps sub ok_or_simps reads visits more outs ..
  qed
qed

lemma index_frames_take: "index_frames offset (take n rs) (take n fs) = take n (index_frames offset rs fs)"
  by (induction offset rs fs arbitrary: n rule: index_frames.induct) (auto simp: take_Cons split: nat.split)

lemma index_frames_drop:
  "length rs = length fs \<Longrightarrow> n \<le> length rs \<Longrightarrow>
   drop n (index_frames offset rs fs) = index_frames (offset + length (concat (take n fs))) (drop n rs) (drop n fs)"
proof (induction offset rs fs arbitrary: n rule: index_frames.induct)
  case (1 offset r rs f fs)
  then show ?case by (cases n) (simp_all add: add.assoc)
qed auto

lemma takeWhile_all_above: "\<forall>r \<in> set rs. start \<le> tr_t r \<Longrightarrow> takeWhile (\<lambda>r. tr_t r < start) rs = []"
  by (cases rs) auto

lemma range_records_slice:
  assumes "ascending_records rs"
  shows "range_records start end rs =
    slice (length (takeWhile (\<lambda>r. tr_t r < start) rs))
      (case end of None \<Rightarrow> length rs | Some e \<Rightarrow> length (takeWhile (\<lambda>r. tr_t r < e) rs)) rs"
  using assms
proof (induction rs)
  case (Cons r rs)
  have asc: "ascending_records rs" and above: "\<forall>q \<in> set rs. tr_t r < tr_t q"
    using Cons.prems by (simp_all add: ascending_records_def)
  have none: "range_records start end rs = []" if "end = Some e" "e \<le> tr_t r" for e
    using above that by (auto simp: range_records_def in_tx_range_def filter_empty_conv)
  have zero: "takeWhile (\<lambda>r. tr_t r < start) rs = []" if "\<not> tr_t r < start"
    using above that by (intro takeWhile_all_above) auto
  show ?case
    using Cons.IH [OF asc] none zero
    by (auto simp: range_records_def in_tx_range_def slice_def not_less split: option.splits)
qed (simp add: range_records_def slice_def split: option.split)

lemma slice_zip_subset: "set (zip (slice i j rs) (slice i j fs)) \<subseteq> set (zip rs fs)"
  unfolding slice_def by (metis drop_zip set_drop_subset set_take_subset subset_trans take_zip)

lemma concat_slice: "concat fs = concat (take i fs) @ concat (slice i j fs) @ concat (drop (j - i) (drop i fs))"
  unfolding slice_def by (metis append_take_drop_id concat_append)

lemma list_all2_zip_subset:
  "list_all2 P rs fs \<Longrightarrow> length qs = length gs \<Longrightarrow> set (zip qs gs) \<subseteq> set (zip rs fs) \<Longrightarrow> list_all2 P qs gs"
  by (auto simp: list_all2_iff)

lemma zip_subset_fst: "length qs = length gs \<Longrightarrow> set (zip qs gs) \<subseteq> set (zip rs fs) \<Longrightarrow> set qs \<subseteq> set rs"
  by (metis image_mono map_fst_zip set_map set_zip_leftD subset_iff fst_conv in_set_impl_in_set_zip1)

lemma visit_decode_frames:
  assumes "codec_ok env codec" and "list_all2 (frame_of env codec) qs gs" and "list_all loggable qs"
  shows "visit_decode env codec (concat gs) (index_frames offset qs gs) = Inr qs"
proof -
  have len: "length qs = length gs" using assms(2) by (rule list_all2_lengthD)
  have "map fi_t (index_frames offset qs gs) = map tr_t qs" by (rule index_frames_t [OF len])
  then have "\<forall>(r, f) \<in> set (zip qs (index_frames offset qs gs)). tr_t r = fi_t f"
    by (auto simp: set_zip) (metis len length_index_frames nth_map)
  then show ?thesis
    using decode_framed_payloads_concat [OF assms(1,3,2)] len by (auto simp: visit_decode_def list_ex_iff)
qed

lemma visit_frames_index:
  assumes "length qs = length gs" and "length (pre @ concat gs) < 2 ^ 64"
  shows "visit_frames v (length pre) (pre @ concat gs @ post) (index_frames offset qs gs) =
    Inr (map (\<lambda>(q, g). \<lparr>fr_t = tr_t q, fr_log_version = v, fr_frame = g\<rparr>) (zip qs gs))"
  using assms
proof (induction offset qs gs arbitrary: pre rule: index_frames.induct)
  case (1 offset q qs g gs)
  have "visit_frames v (length (pre @ g)) ((pre @ g) @ concat gs @ post) (index_frames (offset + length g) qs gs) =
      Inr (map (\<lambda>(q, g). \<lparr>fr_t = tr_t q, fr_log_version = v, fr_frame = g\<rparr>) (zip qs gs))"
    using 1 by (intro "1.IH") simp_all
  then show ?case using 1(3) by (simp add: checked_add_def slice_def)
qed auto

text \<open>Reads through an index that covers a prefix of what the file holds.\<close>

lemma read_chunks_index:
  assumes "file_holds env codec file (rs @ qs) (fs @ gs) torn" and "length rs = length fs"
    and "om_get dir (if_path f) = Some file" and "idx_synced env f rs fs" and "ascending_records rs"
    and "\<And>offset ps hs. length ps = length hs \<Longrightarrow> set (zip ps hs) \<subseteq> set (zip rs fs) \<Longrightarrow>
      length (concat hs) \<le> length file \<Longrightarrow> visit (concat hs) (index_frames offset ps hs) = Inr (out ps hs)"
    and "\<And>ps hs ps' hs'. length ps = length hs \<Longrightarrow> length ps' = length hs' \<Longrightarrow> out (ps @ ps') (hs @ hs') = out ps hs @ out ps' hs'"
    and "out [] [] = []"
  shows "\<exists>hs. length (range_records start end rs) = length hs \<and> set (zip (range_records start end rs) hs) \<subseteq> set (zip rs fs) \<and>
    read_chunks visit dir f start end = Inr (out (range_records start end rs) hs)"
proof -
  define i where "i = length (takeWhile (\<lambda>r. tr_t r < start) rs)"
  define j where "j = (case end of None \<Rightarrow> length rs | Some e \<Rightarrow> length (takeWhile (\<lambda>r. tr_t r < e) rs))"
  have frames: "if_frames f = index_frames 0 rs fs" "ensure_healthy f = Inr ()"
    using assms(4) by (simp_all add: idx_synced_def ensure_healthy_def)
  have first: "frames_below start (if_frames f) = i" and
    last: "(case end of None \<Rightarrow> length (if_frames f) | Some e \<Rightarrow> frames_below e (if_frames f)) = j"
    using frames(1) assms(2) by (auto simp: i_def j_def frames_below_index split: option.split)
  have rr: "range_records start end rs = slice i j rs" unfolding i_def j_def by (rule range_records_slice [OF assms(5)])
  have i: "i \<le> length rs" unfolding i_def by (rule length_takeWhile_le)
  show ?thesis
  proof (cases "i \<ge> j")
    case True
    then have "range_records start end rs = []" by (simp add: rr slice_def)
    then show ?thesis
      using True assms(8) unfolding read_chunks_def frames(2) bindr_simps Let_def first last
      by (intro exI [of _ "[]"]) simp
  next
    case False
    let ?rs = "slice i j rs" and ?fs = "slice i j fs" and ?off = "length (concat (take i fs))"
    have len: "length ?rs = length ?fs" using assms(2) by (simp add: slice_def)
    have idx: "slice i j (if_frames f) = index_frames ?off ?rs ?fs"
      using index_frames_drop [OF assms(2) i, of 0] by (simp add: frames(1) slice_def index_frames_take)
    note cat = concat_slice [of fs i j] and sub = slice_zip_subset [of i j rs fs]
    have whole: "file = concat fs @ concat gs @ torn" using assms(1) by (simp add: file_holds_def)
    have small: "length file < 2 ^ 64" using assms(1) unfolding file_holds_def by blast
    have "read_chunks_from visit file (index_frames ?off ?rs ?fs) = Inr (out ?rs ?fs)"
    proof (rule read_chunks_from_index [OF len _ _ small])
      show "take (length (concat ?fs)) (drop ?off file) = concat ?fs" unfolding whole by (subst cat) simp
      show "?off + length (concat ?fs) \<le> length file" using arg_cong [OF cat, of length] by (simp add: whole)
      show "visit (concat hs) (index_frames offset ps hs) = Inr (out ps hs)"
        if "length ps = length hs" "set (zip ps hs) \<subseteq> set (zip ?rs ?fs)" "length (concat hs) \<le> length file" for offset ps hs
        by (rule assms(6) [OF that(1) _ that(3)]) (use that(2) sub in blast)
    qed (use assms(7,8) in auto)
    then show ?thesis
      using False assms(3) len sub unfolding read_chunks_def frames(2) bindr_simps Let_def first last rr idx
      by (intro exI [of _ ?fs]) (simp add: idx_read_def)
  qed
qed

lemma idx_tx_range_index:
  assumes "codec_ok env (if_codec f)" and "file_holds env (if_codec f) file (rs @ qs) (fs @ gs) torn" and "length rs = length fs"
    and "om_get dir (if_path f) = Some file" and "idx_synced env f rs fs" and "ascending_records rs"
  shows "idx_tx_range env dir f start end = Inr (range_records start end rs)"
proof -
  have fs: "list_all2 (frame_of env (if_codec f)) rs fs" "list_all loggable rs"
    using assms(2,3) by (simp_all add: file_holds_def list_all2_append)
  have visit: "visit_decode env (if_codec f) (concat hs) (index_frames offset ps hs) = Inr ps"
    if "length ps = length hs" "set (zip ps hs) \<subseteq> set (zip rs fs)" for offset ps hs
  proof (rule visit_decode_frames [OF assms(1) list_all2_zip_subset [OF fs(1) that]])
    show "list_all loggable ps" using zip_subset_fst [OF that] fs(2) by (auto simp: list_all_iff)
  qed
  then show ?thesis
    using read_chunks_index [OF assms(2-6), of "visit_decode env (if_codec f)" "\<lambda>ps _. ps" start "end"]
    by (auto simp: idx_tx_range_def)
qed

end
