(* ===== verification/File_Log_Recovery.thy ===== *)
theory File_Log_Recovery
  imports File_Log
begin

text \<open>
  The log in one file: it keeps the contract of a transaction log, and a crash in the middle of an
  append costs at most the record that was being appended.
\<close>

subsection \<open>The single-file log keeps the contract\<close>

lemma first_gap_None:
  "first_gap_index fs = None \<longleftrightarrow> (\<forall>i. Suc i < length fs \<longrightarrow> checked_succ (fi_t (fs ! i)) = Some (fi_t (fs ! Suc i)))"
proof (induction fs rule: first_gap_index.induct)
  case (1 a b fs)
  have "(\<forall>i. Suc i < length (a # b # fs) \<longrightarrow> checked_succ (fi_t ((a # b # fs) ! i)) = Some (fi_t ((a # b # fs) ! Suc i))) \<longleftrightarrow>
      checked_succ (fi_t a) = Some (fi_t b) \<and>
      (\<forall>i. Suc i < length (b # fs) \<longrightarrow> checked_succ (fi_t ((b # fs) ! i)) = Some (fi_t ((b # fs) ! Suc i)))"
    by (auto simp: nth_Cons split: nat.splits)
  then show ?case using 1 by simp
qed auto

lemma checked_succ_unat: "checked_succ a = Some b \<longleftrightarrow> unat b = Suc (unat a)"
proof
  show "unat b = Suc (unat a)" if "checked_succ a = Some b"
  proof -
    have "a \<noteq> - 1" "b = a + 1" using that by (auto simp: checked_succ_def split: if_splits)
    then have "1 + a \<noteq> 0" by (metis add.commute add_eq_0_iff)
    then show ?thesis using \<open>b = a + 1\<close> by (simp add: unatSuc add.commute [of a])
  qed
  assume "unat b = Suc (unat a)"
  then have "b = a + 1" "a \<noteq> - 1"
    using unat_less_pow [of b] by (auto simp: word_unat_eq_iff unat_word_ariths unsigned_minus_1_eq_mask mask_eq_exp_minus_1)
  then show "checked_succ a = Some b" by (simp add: checked_succ_def)
qed

lemma index_nth_t: "length rs = length fs \<Longrightarrow> i < length rs \<Longrightarrow> fi_t (index_frames offset rs fs ! i) = tr_t (rs ! i)"
  using index_frames_t [of rs fs offset] by (metis length_index_frames nth_map)

lemma contiguous_no_gap: "contiguous basis rs \<Longrightarrow> length rs = length fs \<Longrightarrow> first_gap_index (index_frames offset rs fs) = None"
  by (auto simp: first_gap_None index_nth_t checked_succ_unat contiguous_nth)

lemma contiguous_ascending: "contiguous basis rs \<Longrightarrow> ascending_records rs"
  unfolding ascending_records_def sorted_wrt_iff_nth_less by (auto simp: word_less_nat_alt contiguous_nth)

lemma frames_next_t_index:
  assumes "length rs = length fs" and "\<forall>r \<in> set rs. tr_t r \<noteq> - 1"
  shows "frames_next_t (index_frames offset rs fs) = Inr (next_after rs)"
proof (cases "rs = []")
  case True
  then show ?thesis using assms(1) by (simp add: frames_next_t_def next_after_def)
next
  case False
  then have "index_frames offset rs fs \<noteq> []" using length_index_frames [OF assms(1)] by (metis length_0_conv)
  moreover have "fi_t (last (index_frames offset rs fs)) = tr_t (last rs)"
    using index_frames_t [OF assms(1)] False calculation by (metis last_map)
  ultimately show ?thesis
    using False assms(2) by (simp add: frames_next_t_def next_after_def checked_succ_def)
qed

definition file_log_state ::
    "log_env \<Rightarrow> record_codec \<Rightarrow> string \<Rightarrow> directory \<times> indexed_file \<Rightarrow> tx_record list \<Rightarrow> bool" where
  "file_log_state env codec path s rs \<longleftrightarrow> (case s of (dir, f) \<Rightarrow>
     if_path f = path \<and> if_codec f = codec \<and> if_writable f \<and> contiguous 0 rs \<and> (\<forall>r \<in> set rs. tr_t r \<noteq> - 1) \<and>
     (\<exists>fs. om_get dir path = Some (concat fs) \<and> file_holds env codec (concat fs) rs fs [] \<and> idx_synced env f rs fs))"

text \<open>Records a file log can take: they read back, and their number has a successor.\<close>

definition appendable :: "tx_record \<Rightarrow> bool" where
  "appendable r \<longleftrightarrow> loggable r \<and> tr_t r \<noteq> - 1"

lemma file_log_refreshes:
  assumes "codec_ok env codec" and "file_log_state env codec path (dir, f) rs"
  shows "idx_refresh env dir f = Inr f" and "validate_contiguous_prefix f n = Inr ()"
    and "frames_next_t (if_frames f) = Inr (next_after rs)"
proof -
  obtain fs where fs: "om_get dir (if_path f) = Some (concat fs)" "file_holds env codec (concat fs) rs fs []" "idx_synced env f rs fs"
      "if_codec f = codec" "contiguous 0 rs" "\<forall>r \<in> set rs. tr_t r \<noteq> - 1"
    using assms(2) by (auto simp: file_log_state_def)
  note len = holds_lengths [OF fs(2)]
  show "idx_refresh env dir f = Inr f"
    using fs(1,3) by (simp add: idx_refresh_def ensure_healthy_def idx_synced_def idx_read_def)
  show "validate_contiguous_prefix f n = Inr ()"
    using contiguous_no_gap [OF fs(5) len] fs(3) by (simp add: validate_contiguous_prefix_def idx_synced_def)
  show "frames_next_t (if_frames f) = Inr (next_after rs)"
    using frames_next_t_index [OF len fs(6)] fs(3) by (simp add: idx_synced_def)
qed

lemma file_log_append_state:
  assumes "codec_ok env codec" and "file_log_state env codec path (dir, f) rs" and "appendable r" and "length nonce = 12"
    and "file_log_append env Durable (Some nonce) dir f r = (Inr u, dir', g)"
  shows "file_log_state env codec path (dir', g) (rs @ [r])" and "tr_t r = next_after rs"
proof -
  obtain fs where fs: "om_get dir (if_path f) = Some (concat fs)" "file_holds env codec (concat fs) rs fs []" "idx_synced env f rs fs"
      "if_codec f = codec" "contiguous 0 rs" "\<forall>r \<in> set rs. tr_t r \<noteq> - 1" "if_writable f" "if_path f = path"
    using assms(2) by (auto simp: file_log_state_def)
  note len = holds_lengths [OF fs(2)] and ready = file_log_refreshes [OF assms(1,2)]
  show t: "tr_t r = next_after rs"
    using assms(5) ready by (auto simp: file_log_append_def split: if_splits)
  then have app: "idx_append env Durable (Some nonce) dir f r = (Inr u, dir', g)"
    using assms(5) ready by (simp add: file_log_append_def)
  then obtain payload frame where frame: "codec_encode env (Some nonce) codec r = Inr payload" "append_framed_payload env [] payload = Inr frame"
      "length (concat fs) + length frame < 2 ^ 64"
    using fs by (auto simp: idx_append_def ensure_healthy_def idx_synced_def idx_read_def Let_def bindr_eq_Inr checked_add_def
        split: sum.splits prod.splits if_splits option.splits)
  have writes: "writes_frame env (Some nonce) (if_codec f) r frame" using frame fs(4) by (auto simp: writes_frame_def)
  have whole: "file_holds env codec (concat (fs @ [frame])) (rs @ [r]) (fs @ [frame]) []"
    using file_holds_snoc [OF fs(2) _ _ frame(3)] writes_frame_of [OF writes assms(4)] assms(3) fs(4) by (simp add: appendable_def)
  obtain g' where "idx_append env Durable (Some nonce) dir f r = (Inr (), om_insert (if_path f) (concat (fs @ [frame])) dir, g')"
      "idx_synced env g' (rs @ [r]) (fs @ [frame])" "if_path g' = if_path f" "if_codec g' = if_codec f" "if_writable g'"
    using idx_append_durable [OF fs(1,3,7) len writes frame(3)] by blast
  moreover have "contiguous 0 (rs @ [r])"
  proof (rule contiguous_next [OF fs(5)])
    show "tr_t r = next_from 0 rs" by (simp add: t next_from_0)
    show "tr_t r \<noteq> 0"
      using fs(6) last_in_set [of rs] by (auto simp: t next_after_def eq_neg_iff_add_eq_0)
  qed
  ultimately show "file_log_state env codec path (dir', g) (rs @ [r])"
    using app fs whole assms(3) by (auto simp: file_log_state_def appendable_def intro!: exI [of _ "fs @ [frame]"])
qed

definition file_content :: "log_env \<Rightarrow> record_codec \<Rightarrow> string \<Rightarrow> directory \<times> indexed_file \<Rightarrow> tx_record list" where
  "file_content env codec path s = (case om_get (fst s) path of
     None \<Rightarrow> [] | Some file \<Rightarrow> (case decode_framed_payloads env codec file of Inl _ \<Rightarrow> [] | Inr rs \<Rightarrow> rs))"

lemma file_log_state_content:
  assumes "codec_ok env codec" and "file_log_state env codec path s rs"
  shows "file_content env codec path s = rs"
  using assms(2) decode_framed_payloads_concat [OF assms(1)]
  by (auto simp: file_log_state_def file_content_def file_holds_whole split: prod.splits)

lemma file_log_range_state:
  assumes "codec_ok env codec" and "file_log_state env codec path (dir, f) rs"
  shows "file_log_tx_range env dir f start end = (Inr (range_records start end rs), f)"
proof -
  obtain fs where fs: "om_get dir (if_path f) = Some (concat fs)" "file_holds env codec (concat fs) rs fs []" "idx_synced env f rs fs"
      "if_codec f = codec" "contiguous 0 rs"
    using assms(2) by (auto simp: file_log_state_def)
  note ready = file_log_refreshes [OF assms]
  have "idx_tx_range env dir f start end = Inr (range_records start end rs)"
    using idx_tx_range_index [of env f "concat fs" rs "[]" fs "[]" "[]" dir start "end"] assms(1) fs
      holds_lengths [OF fs(2)] contiguous_ascending [OF fs(5)] by simp
  moreover have "range_records start end rs = []" if "empty_range start end"
    using that by (auto simp: empty_range_def range_records_def in_tx_range_def filter_empty_conv split: option.splits)
  moreover have "file_log_refreshed_for env dir f end = (Inr (), f)"
    using ready by (auto simp: file_log_refreshed_for_def range_is_indexed_def split: option.splits)
  ultimately show ?thesis by (simp add: file_log_tx_range_def)
qed

text \<open>Appends whose bytes become durable, with the nonce drawn for each record.\<close>

definition file_app ::
    "log_env \<Rightarrow> (tx_record \<Rightarrow> bytes) \<Rightarrow> directory \<times> indexed_file \<Rightarrow> tx_record \<Rightarrow> log_error + directory \<times> indexed_file" where
  "file_app env nonce = (\<lambda>(dir, f) r. case file_log_append env Durable (Some (nonce r)) dir f r of
     (Inl e, _) \<Rightarrow> Inl e | (Inr _, s) \<Rightarrow> Inr s)"

definition file_range ::
    "log_env \<Rightarrow> directory \<times> indexed_file \<Rightarrow> u64 \<Rightarrow> u64 option \<Rightarrow> log_error + tx_record list" where
  "file_range env = (\<lambda>(dir, f) start end. fst (file_log_tx_range env dir f start end))"

interpretation file_log: transaction_log
  "\<lambda>s. codec_ok env codec \<and> (\<forall>r. length (nonce r) = 12) \<and> (\<exists>rs. file_log_state env codec path s rs)"
  "file_content env codec path" 0 appendable "file_app env nonce" "file_range env" for env codec nonce path
proof unfold_locales
  fix s r s' and start :: u64 and "end" :: "u64 option"
  assume "codec_ok env codec \<and> (\<forall>r. length (nonce r) = 12) \<and> (\<exists>rs. file_log_state env codec path s rs)"
  then obtain rs dir f where s: "codec_ok env codec" "length (nonce r) = 12" "\<forall>r. length (nonce r) = 12" "s = (dir, f)"
      "file_log_state env codec path (dir, f) rs" "file_content env codec path s = rs"
    using file_log_state_content by (metis surj_pair)
  show "contiguous 0 (file_content env codec path s)" using s by (auto simp: file_log_state_def)
  show "file_range env s start end = Inr (range_records start end (file_content env codec path s))"
    using file_log_range_state [OF s(1,5)] s(4,6) by (simp add: file_range_def)
  assume ok: "appendable r" and "file_app env nonce s r = Inr s'"
  then obtain u dir' g where app: "file_log_append env Durable (Some (nonce r)) dir f r = (Inr u, dir', g)" "s' = (dir', g)"
    by (auto simp: file_app_def s(4) split: prod.splits sum.splits)
  note after = file_log_append_state [OF s(1,5) ok s(2) app(1)]
  show "tr_t r = next_from 0 (file_content env codec path s)" using after(2) s(6) by (simp add: next_from_0)
  show "(codec_ok env codec \<and> (\<forall>r. length (nonce r) = 12) \<and> (\<exists>rs. file_log_state env codec path s' rs)) \<and>
      file_content env codec path s' = file_content env codec path s @ [r]"
    using after(1) s(1,3,6) app(2) file_log_state_content by blast
qed

lemma file_log_open_state:
  assumes "codec_ok env (codec_new c 0)" and "open_index_file dir path True = Inr (file, dir0)"
    and "file_holds env (codec_new c 0) file rs fs torn" and "contiguous 0 rs" and "\<forall>r \<in> set rs. tr_t r \<noteq> - 1"
  shows "\<exists>f dir'. file_log_open env dir path c = Inr (f, dir') \<and> file_log_state env (codec_new c 0) path (dir', f) rs"
proof -
  obtain f dir' where f: "idx_open env dir path True True (codec_new c 0) = Inr (f, dir')" "idx_synced env f rs fs"
      "if_path f = path" "if_codec f = codec_new c 0" "if_writable f"
      "dir' = (if torn \<noteq> [] then om_insert path (concat fs) dir0 else dir0)"
    using idx_open_holds [OF assms(1-3) contiguous_ascending [OF assms(4)], of True] by auto
  have len: "length rs = length fs" by (rule holds_lengths [OF assms(3)])
  have "om_get dir0 path = Some file" using assms(2) by (auto simp: open_index_file_def split: option.splits)
  then have "om_get dir' path = Some (concat fs)" using assms(3) f(6) by (auto simp: file_holds_def)
  moreover have "file_holds env (codec_new c 0) (concat fs) rs fs []"
    using assms(3) unfolding file_holds_whole by (auto simp: file_holds_def)
  moreover have "validate_contiguous_prefix f (length (if_frames f)) = Inr ()"
    using contiguous_no_gap [OF assms(4) len] f(2) by (simp add: validate_contiguous_prefix_def idx_synced_def)
  ultimately show ?thesis using f assms(4,5) by (auto simp: file_log_open_def file_log_state_def)
qed

subsection \<open>Recovery of a single-file log\<close>

lemma idx_append_shape:
  assumes "idx_append env outcome entropy dir f r = (res, dir', f')"
  shows "((\<exists>e. res = Inl e) \<and> dir' = dir) \<or>
    (\<exists>file frame. om_get dir (if_path f) = Some file \<and> writes_frame env entropy (if_codec f) r frame \<and>
       dir' = om_insert (if_path f) (file @ written_bytes outcome frame) dir \<and> (\<forall>u. res = Inr u \<longrightarrow> outcome = Durable))"
proof -
  define plan where "plan =
      bindr (ensure_healthy f) (\<lambda>_.
      bindr (if if_writable f then Inr () else Inl (Native ''transaction log is read-only'')) (\<lambda>_.
      bindr (idx_read dir f) (\<lambda>file.
      bindr (if length file \<noteq> if_durable_len f then Inl Corrupt else Inr ()) (\<lambda>_.
      bindr (codec_encode env entropy (if_codec f) r) (\<lambda>payload.
      bindr (append_framed_payload env [] payload) (\<lambda>frame. Inr (file, frame)))))))"
  note app = assms [unfolded idx_append_def, folded plan_def]
  show ?thesis
  proof (cases plan)
    case (Inl e)
    then show ?thesis using app by auto
  next
    case (Inr done_plan)
    then obtain bs frame where plan: "plan = Inr (bs, frame)" by (cases done_plan) simp
    then have "om_get dir (if_path f) = Some bs" "writes_frame env entropy (if_codec f) r frame"
      by (auto simp: plan_def bindr_eq_Inr ok_or_eq_Inr idx_read_def writes_frame_def split: option.splits if_splits)
    moreover have "dir' = om_insert (if_path f) (bs @ written_bytes outcome frame) dir" "\<forall>u. res = Inr u \<longrightarrow> outcome = Durable"
      using app plan by (cases outcome; auto simp: Let_def split: option.splits)+
    ultimately show ?thesis by blast
  qed
qed

lemma file_log_append_shape:
  assumes "codec_ok env codec" and "file_log_state env codec path (dir, f) rs"
    and "file_log_append env outcome entropy dir f r = (res, dir', f')"
  shows "((\<exists>e. res = Inl e) \<and> dir' = dir) \<or>
    (tr_t r = next_after rs \<and> idx_append env outcome entropy dir f r = (res, dir', f'))"
  using assms(3) file_log_refreshes [OF assms(1,2)] by (auto simp: file_log_append_def split: if_splits)

lemma written_whole_or_torn:
  assumes "writes_frame env entropy codec r frame"
  shows "written_bytes outcome frame = frame \<or>
    outcome \<noteq> Durable \<and> (\<exists>payload k. length payload < 2 ^ 63 \<and> k < length (frame_bytes env payload) \<and>
      written_bytes outcome frame = take k (frame_bytes env payload))"
proof -
  obtain payload where payload: "frame = frame_bytes env payload" "length payload < 2 ^ 63"
    using assms by (auto simp: writes_frame_def append_framed_payload_Inr)
  show ?thesis
  proof (cases outcome)
    case (Short_Write n e)
    then show ?thesis using payload by (cases "n < length frame") auto
  qed auto
qed

lemma contiguous_snoc_next:
  assumes "contiguous 0 rs" and "\<forall>r \<in> set rs. tr_t r \<noteq> - 1" and "tr_t r = next_after rs"
  shows "contiguous 0 (rs @ [r])"
proof (rule contiguous_next [OF assms(1)])
  show "tr_t r = next_from 0 rs" by (simp add: assms(3) next_from_0)
  show "tr_t r \<noteq> 0" using assms(2) last_in_set [of rs] by (auto simp: assms(3) next_after_def eq_neg_iff_add_eq_0)
qed

text \<open>After an append, however it ends, the file holds the records before it, or these and the new one.\<close>

lemma file_log_append_leaves:
  assumes "codec_ok env codec" and "file_log_state env codec path (dir, f) rs" and "appendable r" and "length nonce = 12"
    and "file_log_append env outcome (Some nonce) dir f r = (res, dir', f')"
    and "\<forall>file. om_get dir' path = Some file \<longrightarrow> length file < 2 ^ 64"
  shows "\<exists>qs fs torn. open_index_file dir' path True = Inr (concat fs @ torn, dir') \<and>
    file_holds env codec (concat fs @ torn) qs fs torn \<and> contiguous 0 qs \<and> (\<forall>q \<in> set qs. tr_t q \<noteq> - 1) \<and>
    (qs = rs \<or> qs = rs @ [r]) \<and> (\<forall>u. res = Inr u \<longrightarrow> qs = rs @ [r])"
proof -
  obtain fs where fs: "om_get dir path = Some (concat fs)" "file_holds env codec (concat fs) rs fs []" "idx_synced env f rs fs"
      "if_codec f = codec" "contiguous 0 rs" "\<forall>r \<in> set rs. tr_t r \<noteq> - 1" "if_path f = path"
    using assms(2) by (auto simp: file_log_state_def)
  consider (kept) e where "res = Inl e" "dir' = dir"
    | (wrote) frame where "tr_t r = next_after rs" "writes_frame env (Some nonce) codec r frame"
        "dir' = om_insert path (concat fs @ written_bytes outcome frame) dir" "\<forall>u. res = Inr u \<longrightarrow> outcome = Durable"
    using file_log_append_shape [OF assms(1,2,5)]
  proof (elim disjE conjE exE)
    assume "tr_t r = next_after rs" and "idx_append env outcome (Some nonce) dir f r = (res, dir', f')"
    from this(1) idx_append_shape [OF this(2)] show thesis using that fs(1,4,7) by auto
  qed (use that in blast)
  then show ?thesis
  proof cases
    case kept
    then show ?thesis
      using fs by (intro exI [of _ rs] exI [of _ fs] exI [of _ "[]"]) (auto simp: open_index_file_def)
  next
    case wrote
    have small: "length (concat fs @ written_bytes outcome frame) < 2 ^ 64" using assms(6) wrote(3) by simp
    have next_ok: "contiguous 0 (rs @ [r])" "\<forall>q \<in> set (rs @ [r]). tr_t q \<noteq> - 1"
      using contiguous_snoc_next [OF fs(5,6) wrote(1)] fs(6) assms(3) by (auto simp: appendable_def)
    from written_whole_or_torn [OF wrote(2), of outcome] show ?thesis
    proof
      assume whole: "written_bytes outcome frame = frame"
      have "file_holds env codec (concat (fs @ [frame])) (rs @ [r]) (fs @ [frame]) []"
        using file_holds_snoc [OF fs(2) writes_frame_of [OF wrote(2) assms(4)]] assms(3) small whole by (simp add: appendable_def)
      then show ?thesis
        using next_ok wrote(3) whole
        by (intro exI [of _ "rs @ [r]"] exI [of _ "fs @ [frame]"] exI [of _ "[]"]) (auto simp: open_index_file_def)
    next
      assume torn: "outcome \<noteq> Durable \<and> (\<exists>payload k. length payload < 2 ^ 63 \<and> k < length (frame_bytes env payload) \<and>
        written_bytes outcome frame = take k (frame_bytes env payload))"
      then have "file_holds env codec (concat fs @ written_bytes outcome frame) rs fs (written_bytes outcome frame)"
        using fs(2) small by (auto simp: file_holds_def)
      then show ?thesis
        using torn fs wrote(3,4)
        by (intro exI [of _ rs] exI [of _ fs] exI [of _ "written_bytes outcome frame"]) (auto simp: open_index_file_def)
    qed
  qed
qed

lemma file_log_fresh:
  assumes "codec_ok env (codec_new c 0)" and "om_get dir path = None" and "file_log_open env dir path c = Inr (f, dir')"
  shows "file_log_state env (codec_new c 0) path (dir', f) []"
proof -
  have "open_index_file dir path True = Inr ([], om_insert path [] dir)" using assms(2) by (simp add: open_index_file_def)
  moreover have "file_holds env (codec_new c 0) [] [] [] []" using file_holds_whole [of env "codec_new c 0" "[]" "[]"] by simp
  moreover have "contiguous 0 []" by simp
  ultimately obtain g d where "file_log_open env dir path c = Inr (g, d)" "file_log_state env (codec_new c 0) path (d, g) []"
    using file_log_open_state [OF assms(1)] by (metis empty_iff list.set(1))
  then show ?thesis using assms(3) by simp
qed

text \<open>C8. The log in one file survives a crash: start from a directory without the file, append any
  records with every write durable, then append one more whose write may be cut anywhere, fail to
  sync or succeed. Opening what is left succeeds and serves, over every range, either the earlier
  records or these and the last one; and the last one is there if its append was acknowledged. The
  records are numbered from one without a hole. This holds for plaintext and sealed logs.\<close>

theorem file_log_recovers:
  assumes "codec_ok env (codec_new c 0)" and "\<forall>r. length (nonce r) = 12"
    and "om_get base path = None" and "file_log_open env base path c = Inr (f, dir)"
    and "append_batch (file_app env nonce) (dir, f) rs = Inr (dir', f')" and "\<forall>r \<in> set (rs @ [r]). appendable r"
    and "file_log_append env outcome (Some (nonce r)) dir' f' r = (res, crashed, f'')"
    and "\<forall>file. om_get crashed path = Some file \<longrightarrow> length file < 2 ^ 64"
  shows "\<exists>g dir'' qs. file_log_open env crashed path c = Inr (g, dir'') \<and> (qs = rs \<or> qs = rs @ [r]) \<and>
    (res = Inr () \<longrightarrow> qs = rs @ [r]) \<and> contiguous 0 qs \<and>
    (\<forall>start end. fst (file_log_tx_range env dir'' g start end) = Inr (range_records start end qs))"
proof -
  let ?codec = "codec_new c 0"
  have fresh: "file_log_state env ?codec path (dir, f) []" by (rule file_log_fresh [OF assms(1,3,4)])
  have "(\<exists>rs. file_log_state env ?codec path (dir', f') rs) \<and> file_content env ?codec path (dir', f') = rs"
    using file_log.batch_content [OF _ _ assms(5), of ?codec path] assms(1,2,6) fresh
      file_log_state_content [OF assms(1) fresh] by auto
  then have "file_log_state env ?codec path (dir', f') rs" using file_log_state_content [OF assms(1)] by blast
  then obtain qs fs torn where qs: "open_index_file crashed path True = Inr (concat fs @ torn, crashed)"
      "file_holds env ?codec (concat fs @ torn) qs fs torn" "contiguous 0 qs" "\<forall>q \<in> set qs. tr_t q \<noteq> - 1"
      "qs = rs \<or> qs = rs @ [r]" "\<forall>u. res = Inr u \<longrightarrow> qs = rs @ [r]"
    using file_log_append_leaves [OF assms(1) _ _ _ assms(7,8), of rs] assms(2,6) by auto
  obtain g dir'' where "file_log_open env crashed path c = Inr (g, dir'')" "file_log_state env ?codec path (dir'', g) qs"
    using file_log_open_state [OF assms(1) qs(1-4)] by blast
  then show ?thesis using file_log_range_state [OF assms(1)] qs(3,5,6) by (metis fst_conv)
qed

lemma plain_append_first:
  assumes "file_log_state wit_env (codec_new None 0) path (dir, f) []" and "tr_t r = 1" and "length (encode_record r) < 2 ^ 62"
  shows "\<exists>f'. file_log_append wit_env Durable entropy dir f r =
    (Inr (), om_insert path (frame_bytes wit_env (encode_record r)) dir, f')"
proof -
  let ?codec = "codec_new None 0" and ?frame = "frame_bytes wit_env (encode_record r)"
  have ok: "codec_ok wit_env ?codec" by (simp add: codec_ok_def codec_new_def mode_of_cipher_def)
  obtain fs where fs: "om_get dir (if_path f) = Some (concat fs)" "file_holds wit_env ?codec (concat fs) [] fs []"
      "idx_synced wit_env f [] fs" "if_codec f = ?codec" "if_writable f" "if_path f = path"
    using assms(1) by (auto simp: file_log_state_def)
  then have "fs = []" using holds_lengths by fastforce
  have "codec_encode wit_env entropy (if_codec f) r = Inr (encode_record r)"
    by (simp add: fs(4) codec_encode_def codec_new_def mode_of_cipher_def Let_def)
  moreover have "append_framed_payload wit_env [] (encode_record r) = Inr ?frame"
    using assms(3) by (simp add: append_framed_payload_Inr)
  ultimately have writes: "writes_frame wit_env entropy (if_codec f) r ?frame" by (auto simp: writes_frame_def)
  have "length ?frame < 2 ^ 64" using assms(3) by (simp add: length_frame_bytes)
  then obtain f' where idx: "idx_append wit_env Durable entropy dir f r = (Inr (), om_insert path ?frame dir, f')"
    using idx_append_durable [OF fs(1,3,5) _ writes] \<open>fs = []\<close> fs(6) by auto
  then show ?thesis
    using file_log_refreshes [OF ok assms(1)] assms(2) by (simp add: file_log_append_def next_after_def)
qed

lemma plain_open_first:
  "om_get dir path = None \<Longrightarrow> \<exists>f dir'. file_log_open wit_env dir path None = Inr (f, dir') \<and>
     file_log_state wit_env (codec_new None 0) path (dir', f) []"
proof -
  assume none: "om_get dir path = None"
  have ok: "codec_ok wit_env (codec_new None 0)" by (simp add: codec_ok_def codec_new_def mode_of_cipher_def)
  have "open_index_file dir path True = Inr ([], om_insert path [] dir)" using none by (simp add: open_index_file_def)
  moreover have "file_holds wit_env (codec_new None 0) [] [] [] []" using file_holds_whole [of wit_env "codec_new None 0" "[]" "[]"] by simp
  moreover have "contiguous 0 []" by simp
  ultimately show ?thesis using file_log_open_state [OF ok] by (metis empty_iff list.set(1))
qed

theorem file_log_recovers_witness:
  "\<exists>f dir f' dir' g dir''. file_log_open wit_env om_empty ''x.log'' None = Inr (f, dir) \<and>
     file_log_append wit_env Durable (Some (replicate 12 0)) dir f wit_record = (Inr (), dir', f') \<and>
     file_log_open wit_env dir' ''x.log'' None = Inr (g, dir'') \<and>
     fst (file_log_tx_range wit_env dir'' g 0 None) = Inr [wit_record]"
proof -
  let ?codec = "codec_new None 0" and ?p = "''x.log''" and ?nonce = "\<lambda>_. replicate 12 (0 :: 8 word)"
  let ?frame = "frame_bytes wit_env (encode_record wit_record)"
  have ok: "codec_ok wit_env ?codec" by (simp add: codec_ok_def codec_new_def mode_of_cipher_def)
  have none: "om_get om_empty ?p = (None :: bytes option)" by simp
  have can: "\<forall>r \<in> set ([] @ [wit_record]). appendable r"
    using wit_record_loggable by (simp add: appendable_def wit_record_def)
  obtain f dir where opened: "file_log_open wit_env om_empty ?p None = Inr (f, dir)" "file_log_state wit_env ?codec ?p (dir, f) []"
    using plain_open_first [OF none] by blast
  have small: "length (encode_record wit_record) < 2 ^ 62"
    by (simp add: encode_record_def encode_record_datom_def wit_record_def Let_def)
  have t: "tr_t wit_record = 1" by (simp add: wit_record_def)
  obtain f' where app: "file_log_append wit_env Durable (Some (?nonce wit_record)) dir f wit_record = (Inr (), om_insert ?p ?frame dir, f')"
    using plain_append_first [OF opened(2) t small] by blast
  have "length ?frame < 2 ^ 64" using small by (simp add: length_frame_bytes)
  then obtain g dir'' where "file_log_open wit_env (om_insert ?p ?frame dir) ?p None = Inr (g, dir'')"
      "fst (file_log_tx_range wit_env dir'' g 0 None) = Inr (range_records 0 None [wit_record])"
    using file_log_recovers [OF ok _ none opened(1) _ can app] by auto
  then show ?thesis using opened app by (auto simp: range_records_all)
qed

end
