(* ===== verification/File_Log_Merge.thy ===== *)
theory File_Log_Merge
  imports File_Log_Recovery
begin

text \<open>
  The log in one file per lease version: validation and merged reads compute the same merge as the
  in-memory log, and a reader follows files that others append to.
\<close>

subsection \<open>Merged reads\<close>

text \<open>Numbers that follow on from each other, and from the one before them if there is one.\<close>

fun linked :: "u64 option \<Rightarrow> u64 list \<Rightarrow> bool" where
  "linked p [] = True"
| "linked p (t # ts) \<longleftrightarrow> (case p of None \<Rightarrow> True | Some p \<Rightarrow> checked_succ p = Some t) \<and> linked (Some t) ts"

lemma linked_append: "linked p (xs @ ys) \<longleftrightarrow> linked p xs \<and> linked (if xs = [] then p else Some (last xs)) ys"
  by (induction xs arbitrary: p) auto

lemma linked_head: "xs \<noteq> [] \<Longrightarrow> linked p xs \<longleftrightarrow> (case p of None \<Rightarrow> True | Some p \<Rightarrow> checked_succ p = Some (hd xs)) \<and> linked None xs"
  by (cases xs; cases p) auto

lemma first_gap_linked:
  "linked None (take n (map fi_t fs)) \<longleftrightarrow> (case first_gap_index fs of None \<Rightarrow> True | Some gap \<Rightarrow> n \<le> gap)"
proof (induction fs arbitrary: n rule: first_gap_index.induct)
  case (1 a b fs)
  show ?case
  proof (cases "n \<le> 1")
    case True
    then have "n = 0 \<or> n = 1" by auto
    then show ?thesis by (auto split: option.splits)
  next
    case False
    then obtain m where n: "n = Suc (Suc m)" by (metis One_nat_def not_less_eq_eq old.nat.exhaust le0)
    show ?thesis using "1.IH" [of "Suc m"] by (auto simp: n split: option.splits)
  qed
qed (simp_all add: take_Cons')

text \<open>An indexed file that serves the first records of what its file holds.\<close>

definition file_serves :: "log_env \<Rightarrow> record_mode \<Rightarrow> directory \<Rightarrow> versioned_file \<Rightarrow> tx_record list \<Rightarrow> bool" where
  "file_serves env mode dir vf rs \<longleftrightarrow> (case vf of (v, f) \<Rightarrow>
     if_codec f = codec_for_mode mode v \<and> ascending_records rs \<and>
     (\<exists>bs fs qs gs torn. om_get dir (if_path f) = Some bs \<and> file_holds env (if_codec f) bs (rs @ qs) (fs @ gs) torn \<and>
        length rs = length fs \<and> idx_synced env f rs fs))"

lemma file_serves_t: "file_serves env mode dir (v, f) rs \<Longrightarrow> map fi_t (if_frames f) = map tr_t rs"
  by (auto simp: file_serves_def idx_synced_def index_frames_t)

lemma file_serves_range:
  "codec_ok env (codec_for_mode mode v) \<Longrightarrow> file_serves env mode dir (v, f) rs \<Longrightarrow>
   idx_tx_range env dir f start end = Inr (range_records start end rs)"
  by (auto simp: file_serves_def intro: idx_tx_range_index)

lemma takeWhile_filter_ascending: "ascending_records rs \<Longrightarrow> takeWhile (\<lambda>r. tr_t r < c) rs = filter (\<lambda>r. tr_t r < c) rs"
  by (induction rs) (auto simp: ascending_records_def eq_commute [of "[]"] filter_empty_conv dest: order.strict_trans)

lemma file_serves_below:
  assumes "file_serves env mode dir (v, f) rs"
  shows "frames_below c (if_frames f) = length (filter (\<lambda>r. tr_t r < c) rs)"
    and "take (length (filter (\<lambda>r. tr_t r < c) rs)) rs = filter (\<lambda>r. tr_t r < c) rs"
proof -
  have asc: "ascending_records rs" using assms by (simp add: file_serves_def)
  show "frames_below c (if_frames f) = length (filter (\<lambda>r. tr_t r < c) rs)"
    using assms takeWhile_filter_ascending [OF asc, of c] by (auto simp: file_serves_def idx_synced_def frames_below_index)
  show "take (length (filter (\<lambda>r. tr_t r < c) rs)) rs = filter (\<lambda>r. tr_t r < c) rs"
    by (simp add: takeWhile_eq_take [symmetric] flip: takeWhile_filter_ascending [OF asc]) 
qed

lemma version_cutoffs_simps:
  "version_cutoffs [] = []"
  "version_cutoffs ((v, f) # files) = cutoff_of fi_t (map (if_frames \<circ> snd) files) # version_cutoffs files"
proof -
  have fold: "snd (foldr cutoff_step files ([], - 1)) = cutoff_of fi_t (map (if_frames \<circ> snd) files)" for files
    by (induction files) (auto simp: cutoff_step_def split_beta split: list.split)
  show "version_cutoffs [] = []" by (simp add: version_cutoffs_def)
  show "version_cutoffs ((v, f) # files) = cutoff_of fi_t (map (if_frames \<circ> snd) files) # version_cutoffs files"
    using fold [of files] by (simp add: version_cutoffs_def cutoff_step_def split_beta)
qed

lemma cutoff_of_map: "cutoff_of t rss = cutoff_of id (map (map t) rss)"
  by (induction rss) (auto split: list.splits)

lemma served_cutoff:
  assumes "list_all2 (file_serves env mode dir) files rss"
  shows "cutoff_of fi_t (map (if_frames \<circ> snd) files) = cutoff_of tr_t rss"
proof -
  have "map (map fi_t) (map (if_frames \<circ> snd) files) = map (map tr_t) rss"
    using assms by induction (auto dest: file_serves_t split: prod.splits)
  then show ?thesis using cutoff_of_map by metis
qed

lemma read_merged_range_serves:
  assumes "\<forall>v. codec_ok env (codec_for_mode mode v)" and "list_all2 (file_serves env mode dir) files rss"
  shows "read_merged_range env dir files (version_cutoffs files) start end = Inr (range_records start end (merge_versions tr_t rss))"
  using assms(2)
proof induction
  case (Cons vf files rs rss)
  obtain v f where vf: "vf = (v, f)" by (cases vf)
  have "range_records start (Some (case end of None \<Rightarrow> c | Some e \<Rightarrow> min e c)) rs
      = range_records start end (filter (\<lambda>r. tr_t r < c) rs)" for c
    by (auto simp: range_records_def in_tx_range_def filter_filter split: option.splits intro!: filter_cong)
  then show ?case
    using Cons file_serves_range [of env mode v dir f rs] assms(1) served_cutoff [OF Cons.hyps(2)]
    by (simp add: read_merged_range_def vf version_cutoffs_simps range_records_def)
qed (simp add: read_merged_range_def version_cutoffs_simps range_records_def)

lemma validate_prefix_linked:
  assumes "file_serves env mode dir (v, f) rs"
  shows "validate_contiguous_prefix f n = (if linked None (map tr_t (take n rs)) then Inr () else Inl Corrupt)"
proof -
  have "if_first_gap f = first_gap_index (if_frames f)" using assms by (auto simp: file_serves_def idx_synced_def)
  moreover have "map tr_t (take n rs) = take n (map fi_t (if_frames f))"
    by (simp add: file_serves_t [OF assms] take_map)
  ultimately show ?thesis using first_gap_linked [of n "if_frames f"] by (auto simp: validate_contiguous_prefix_def split: option.splits)
qed

lemma validate_cutoffs_serves:
  assumes "list_all2 (file_serves env mode dir) files rss"
  shows "validate_cutoffs p (zip files (version_cutoffs files)) =
    (if linked p (map tr_t (merge_versions tr_t rss)) then Inr () else Inl Corrupt)"
  using assms
proof (induction arbitrary: p)
  case (Cons vf files rs rss)
  obtain v f where vf: "vf = (v, f)" by (cases vf)
  define keep where "keep = filter (\<lambda>r. tr_t r < cutoff_of tr_t rss) rs"
  note serves = Cons.hyps(1) [unfolded vf]
  have below: "frames_below (cutoff_of tr_t rss) (if_frames f) = length keep" "take (length keep) rs = keep"
    using file_serves_below [OF serves] by (auto simp: keep_def)
  have prefix: "validate_contiguous_prefix f (length keep) = (if linked None (map tr_t keep) then Inr () else Inl Corrupt)"
    by (simp add: validate_prefix_linked [OF serves] below(2))
  have nth: "fi_t (if_frames f ! i) = tr_t (keep ! i)" if "i < length keep" for i
    using that file_serves_t [OF serves] below(2) by (metis le_less_trans length_map length_take min.cobounded1 nth_map nth_take
        less_le_trans min.cobounded2)
  have step: "validate_cutoffs p (zip ((v, f) # files) (version_cutoffs ((v, f) # files))) =
      (if keep = [] then validate_cutoffs p (zip files (version_cutoffs files))
       else if linked p (map tr_t keep) then validate_cutoffs (Some (tr_t (last keep))) (zip files (version_cutoffs files))
       else Inl Corrupt)"
  proof (cases "keep = []")
    case False
    then have "tr_t (last keep) = fi_t (if_frames f ! (length keep - 1))" "tr_t (hd keep) = fi_t (if_frames f ! 0)"
      using nth by (simp_all add: last_conv_nth hd_conv_nth)
    moreover have "linked p (map tr_t keep) \<longleftrightarrow>
        (case p of None \<Rightarrow> True | Some q \<Rightarrow> checked_succ q = Some (tr_t (hd keep))) \<and> linked None (map tr_t keep)"
      using False by (subst linked_head) (cases p; simp add: hd_map)+
    ultimately show ?thesis
      using False prefix by (auto simp: version_cutoffs_simps served_cutoff [OF Cons.hyps(2)] below(1) Let_def split: option.splits)
  qed (simp add: version_cutoffs_simps served_cutoff [OF Cons.hyps(2)] below(1))
  show ?case
    unfolding vf step using Cons.IH by (auto simp: linked_append keep_def [symmetric] last_map)
qed (simp add: version_cutoffs_simps)

lemma last_retained_append:
  "last_retained (xs @ ys) =
    (if \<forall>((_, f), c) \<in> set xs. frames_below c (if_frames f) = 0 then last_retained ys else last_retained xs)"
proof (induction xs)
  case (Cons x xs)
  then show ?case by (cases x; cases "fst x") (auto simp: Let_def)
qed simp

lemma none_retained:
  assumes "list_all2 (file_serves env mode dir) files rss"
  shows "(\<forall>((_, f), c) \<in> set (zip files (version_cutoffs files)). frames_below c (if_frames f) = 0) \<longleftrightarrow> merge_versions tr_t rss = []"
  using assms
proof induction
  case (Cons vf files rs rss)
  obtain v f where vf: "vf = (v, f)" by (cases vf)
  show ?case
    using Cons.IH file_serves_below(1) [OF Cons.hyps(1) [unfolded vf], of "cutoff_of tr_t rss"] served_cutoff [OF Cons.hyps(2)]
    by (auto simp: vf version_cutoffs_simps)
qed (simp add: version_cutoffs_simps)

lemma merged_below_max: "r \<in> set (merge_versions t rss) \<Longrightarrow> t r < - 1"
  by (induction rss) (auto simp: less_cutoff_of)

lemma merged_next_t_serves:
  assumes "list_all2 (file_serves env mode dir) files rss"
  shows "merged_next_t files (version_cutoffs files) = Inr (next_after (merge_versions tr_t rss))"
  using assms
proof induction
  case (Cons vf files rs rss)
  obtain v f where vf: "vf = (v, f)" by (cases vf)
  note serves = Cons.hyps(1) [unfolded vf]
  define keep where "keep = filter (\<lambda>r. tr_t r < cutoff_of tr_t rss) rs"
  have below: "frames_below (cutoff_of tr_t rss) (if_frames f) = length keep" "take (length keep) rs = keep"
    using file_serves_below [OF serves] by (auto simp: keep_def)
  have last: "fi_t (if_frames f ! (length keep - 1)) = tr_t (last keep)" "tr_t (last keep) \<noteq> - 1" if "keep \<noteq> []"
  proof -
    have "length keep - 1 < length keep" "length keep \<le> length rs" using that by (auto simp: keep_def)
    then have "fi_t (if_frames f ! (length keep - 1)) = tr_t (rs ! (length keep - 1))"
      using file_serves_t [OF serves] by (metis length_map less_le_trans nth_map)
    also have "rs ! (length keep - 1) = last keep"
      using below(2) \<open>length keep - 1 < length keep\<close> that by (metis last_conv_nth nth_take)
    finally show "fi_t (if_frames f ! (length keep - 1)) = tr_t (last keep)" .
    have "last keep \<in> set keep" using that by simp
    then show "tr_t (last keep) \<noteq> - 1" by (auto simp: keep_def less_cutoff_of)
  qed
  have one: "last_retained [((v, f), cutoff_of tr_t rss)] = Inr (next_after keep)"
    using last below(1) by (simp add: Let_def next_after_def checked_succ_def)
  have "last_retained (rev (zip files (version_cutoffs files))) = Inr (next_after (merge_versions tr_t rss))"
    using Cons.IH by (simp add: merged_next_t_def)
  then show ?case
    using none_retained [OF Cons.hyps(2)] one
    by (auto simp: merged_next_t_def vf version_cutoffs_simps served_cutoff [OF Cons.hyps(2)] last_retained_append
        keep_def [symmetric] next_after_def)
qed (simp add: merged_next_t_def version_cutoffs_simps next_after_def)

subsection \<open>A reader over a directory that others write\<close>

text \<open>The directory holds the records \<open>content v\<close> in the file of each version \<open>v\<close>.\<close>

definition directory_holds :: "log_env \<Rightarrow> record_mode \<Rightarrow> directory \<Rightarrow> string \<Rightarrow> (u64 \<Rightarrow> tx_record list) \<Rightarrow> bool" where
  "directory_holds env mode dir name content \<longleftrightarrow> distinct (map fst (version_files dir name)) \<and>
     (\<forall>(v, path) \<in> set (version_files dir name). ascending_records (content v) \<and>
        (\<exists>bs fs torn. om_get dir path = Some bs \<and> file_holds env (codec_for_mode mode v) bs (content v) fs torn))"

definition directory_records :: "directory \<Rightarrow> string \<Rightarrow> (u64 \<Rightarrow> tx_record list) \<Rightarrow> tx_record list" where
  "directory_records dir name content = merge_versions tr_t (map (content \<circ> fst) (version_files dir name))"

lemma close_cold_same:
  "list_all2 (\<lambda>x y. fst y = fst x \<and> (\<exists>c. snd y = (snd x)\<lparr>if_cached := c\<rparr>)) files (close_cold_version_files files)"
proof (induction files)
  case (Cons x files)
  obtain n out where rest: "foldr close_cold_step files (0, []) = (n, out)" by fastforce
  obtain b g where step: "close_cold_step x (n, out) = (b, (fst x, g) # out)" "g = snd x \<or> g = (snd x)\<lparr>if_cached := False\<rparr>"
    by (cases x, cases "if_writable (snd x) \<or> \<not> if_cached (snd x)"; cases "n < MAX_CACHED_READ_VERSION_FILES")
      (simp_all add: close_cold_step_def)
  have "\<exists>c. g = (snd x)\<lparr>if_cached := c\<rparr>"
    using step(2) by (auto intro: exI [of _ "if_cached (snd x)"])
  then show ?case using Cons.IH rest step(1) by (simp add: close_cold_version_files_def)
qed (simp add: close_cold_version_files_def)

lemma close_cold_versions: "map fst (close_cold_version_files files) = map fst files"
  using close_cold_same [of files] by (auto simp: list_all2_conv_all_nth intro: nth_equalityI)

text \<open>A file as it is just after its index was built or brought up to date.\<close>

definition file_opened :: "log_env \<Rightarrow> record_mode \<Rightarrow> directory \<Rightarrow> versioned_file \<Rightarrow> tx_record list \<Rightarrow> bool" where
  "file_opened env mode dir vf rs \<longleftrightarrow> (case vf of (v, f) \<Rightarrow>
     if_codec f = codec_for_mode mode v \<and> ascending_records rs \<and>
     (\<exists>bs fs torn. om_get dir (if_path f) = Some bs \<and> file_holds env (if_codec f) bs rs fs torn \<and> idx_synced env f rs fs))"

lemma file_opened_serves: "file_opened env mode dir vf rs \<Longrightarrow> file_serves env mode dir vf rs"
proof -
  assume "file_opened env mode dir vf rs"
  then obtain v f bs fs torn where vf: "vf = (v, f)" "if_codec f = codec_for_mode mode v" "ascending_records rs"
      "om_get dir (if_path f) = Some bs" "file_holds env (if_codec f) bs rs fs torn" "idx_synced env f rs fs"
    by (auto simp: file_opened_def)
  then have "file_holds env (if_codec f) bs (rs @ []) (fs @ []) torn" by simp
  then show ?thesis using vf holds_lengths [OF vf(5)] unfolding file_serves_def by blast
qed

text \<open>Versioned files that serve the content, one for each of the versions and paths.\<close>

definition files_serve ::
    "log_env \<Rightarrow> record_mode \<Rightarrow> directory \<Rightarrow> (u64 \<Rightarrow> tx_record list) \<Rightarrow> versioned_file list \<Rightarrow> (u64 \<times> string) list \<Rightarrow> bool" where
  "files_serve env mode dir content files paths \<longleftrightarrow>
     list_all2 (\<lambda>x (v, path). fst x = v \<and> if_path (snd x) = path \<and> file_opened env mode dir x (content v)) files paths"

lemma files_serve_list:
  "files_serve env mode dir content files paths \<Longrightarrow> list_all2 (file_serves env mode dir) files (map (content \<circ> fst) paths)"
  by (auto simp: files_serve_def list_all2_conv_all_nth split_beta intro: file_opened_serves)

lemma file_opened_cached: "file_opened env mode dir (v, f\<lparr>if_cached := c\<rparr>) rs = file_opened env mode dir (v, f) rs"
  by (simp add: file_opened_def idx_synced_def)

lemma files_serve_cold:
  assumes "files_serve env mode dir content files paths"
  shows "files_serve env mode dir content (close_cold_version_files files) paths"
  using close_cold_same [of files] assms unfolding files_serve_def
proof (induction arbitrary: paths)
  case (Cons x files y out)
  then obtain v path rest where paths: "paths = (v, path) # rest" by (cases paths) auto
  obtain c where "fst y = fst x" "snd y = (snd x)\<lparr>if_cached := c\<rparr>" using Cons.hyps(1) by blast
  then show ?case
    using Cons.IH Cons.prems file_opened_cached [of env mode dir "fst x" _ "snd x"] paths by (cases x; cases y) auto
qed simp

lemma files_serve_snoc:
  "files_serve env mode dir content files paths \<Longrightarrow> file_opened env mode dir (v, f) (content v) \<Longrightarrow> if_path f = path \<Longrightarrow>
   files_serve env mode dir content (files @ [(v, f)]) (paths @ [(v, path)])"
  by (auto simp: files_serve_def list_all2_appendI)

lemma files_serve_versions: "files_serve env mode dir content files paths \<Longrightarrow> map fst files = map fst paths"
  by (auto simp: files_serve_def list_all2_conv_all_nth split_beta intro: nth_equalityI)

lemma idx_open_opened:
  assumes "codec_ok env (codec_for_mode mode v)" and "ascending_records rs"
    and "om_get dir path = Some bs" and "file_holds env (codec_for_mode mode v) bs rs fs torn"
  shows "\<exists>f. idx_open env dir path False False (codec_for_mode mode v) = Inr (f, dir) \<and> file_opened env mode dir (v, f) rs \<and> if_path f = path"
proof -
  have "open_index_file dir path False = Inr (bs, dir)" by (simp add: open_index_file_def assms(3))
  then obtain f where "idx_open env dir path False False (codec_for_mode mode v) = Inr (f, dir)" "idx_synced env f rs fs"
      "if_path f = path" "if_codec f = codec_for_mode mode v"
    using idx_open_holds [OF assms(1) _ assms(4,2), of dir path False dir False] by auto
  moreover from this have "file_opened env mode dir (v, f) rs" using assms(2,3,4) unfolding file_opened_def by auto
  ultimately show ?thesis by blast
qed

lemma open_files_serve:
  assumes "\<forall>v. codec_ok env (codec_for_mode mode v)" and "files_serve env mode dir content files done_paths"
    and "\<forall>(v, path) \<in> set paths. ascending_records (content v) \<and>
        (\<exists>bs fs torn. om_get dir path = Some bs \<and> file_holds env (codec_for_mode mode v) bs (content v) fs torn)"
  shows "\<exists>out. open_files env (\<lambda>_. False) mode dir files paths = Inr (out, dir) \<and>
    files_serve env mode dir content out (done_paths @ paths)"
  using assms(2,3)
proof (induction paths arbitrary: files done_paths)
  case (Cons vp paths)
  obtain v path where vp: "vp = (v, path)" by (cases vp)
  obtain bs fs torn where "ascending_records (content v)" "om_get dir path = Some bs"
      "file_holds env (codec_for_mode mode v) bs (content v) fs torn"
    using Cons.prems(2) by (auto simp: vp)
  then obtain f where f: "idx_open env dir path False False (codec_for_mode mode v) = Inr (f, dir)"
      "file_opened env mode dir (v, f) (content v)" "if_path f = path"
    using idx_open_opened assms(1) by blast
  have "files_serve env mode dir content (close_cold_version_files (files @ [(v, f)])) (done_paths @ [(v, path)])"
    by (intro files_serve_cold files_serve_snoc Cons.prems(1) f(2,3))
  from Cons.IH [OF this] Cons.prems(2) f(1) show ?case by (simp add: vp)
qed simp

text \<open>What writers may do to the directory between two reads: files grow by whole frames, the torn
  end of a file may be overwritten, and files of new versions appear.\<close>

definition directory_grows ::
    "log_env \<Rightarrow> record_mode \<Rightarrow> string \<Rightarrow> directory \<Rightarrow> (u64 \<Rightarrow> tx_record list) \<Rightarrow> directory \<Rightarrow> (u64 \<Rightarrow> tx_record list) \<Rightarrow> bool" where
  "directory_grows env mode name dir content dir' content' \<longleftrightarrow>
     (\<forall>(v, path) \<in> set (version_files dir name). (v, path) \<in> set (version_files dir' name) \<and>
        (\<exists>bs fs torn qs bs' gs torn'. om_get dir path = Some bs \<and> file_holds env (codec_for_mode mode v) bs (content v) fs torn \<and>
           om_get dir' path = Some bs' \<and> file_holds env (codec_for_mode mode v) bs' (content v @ qs) (fs @ gs) torn' \<and>
           content' v = content v @ qs))"

lemma synced_unique:
  assumes "codec_ok env codec" and "file_holds env codec bs rs fs torn" and "file_holds env codec bs rs gs torn'"
  shows "idx_synced env f rs fs = idx_synced env f rs gs"
  using scan_holds [OF assms(1,2)] scan_holds [OF assms(1,3)] by (simp add: idx_synced_def)

lemma opened_then_grown:
  assumes "codec_ok env (codec_for_mode mode v)" and "file_opened env mode dir (v, f) rs"
    and "om_get dir (if_path f) = Some bs" and "file_holds env (codec_for_mode mode v) bs rs fs torn"
    and "om_get dir' (if_path f) = Some bs'" and "file_holds env (codec_for_mode mode v) bs' (rs @ qs) (fs @ gs) torn'"
    and "ascending_records (rs @ qs)"
  shows "file_serves env mode dir' (v, f) rs"
    and "\<exists>g. idx_refresh env dir' f = Inr g \<and> if_path g = if_path f \<and> file_opened env mode dir' (v, g) (rs @ qs)"
proof -
  have codec: "if_codec f = codec_for_mode mode v" using assms(2) by (simp add: file_opened_def)
  obtain fs0 torn0 where opened: "file_holds env (codec_for_mode mode v) bs rs fs0 torn0" "idx_synced env f rs fs0"
    using assms(2,3) by (auto simp: file_opened_def)
  have synced: "idx_synced env f rs fs"
    using synced_unique [OF assms(1,4) opened(1)] opened(2) by simp
  have len: "length rs = length fs" by (rule holds_lengths [OF assms(4)])
  show "file_serves env mode dir' (v, f) rs"
    using assms(5,6,7) codec synced len unfolding file_serves_def by (auto simp: ascending_records_def sorted_wrt_append)
  obtain g where "idx_refresh env dir' f = Inr g" "idx_synced env g (rs @ qs) (fs @ gs)" "if_path g = if_path f" "if_codec g = if_codec f"
    using idx_refresh_synced [of env f dir' bs' rs qs fs gs torn'] assms(1,5,6,7) codec len synced by auto
  moreover from this have "file_opened env mode dir' (v, g) (rs @ qs)"
    using assms(5,6,7) codec unfolding file_opened_def by auto
  ultimately show "\<exists>g. idx_refresh env dir' f = Inr g \<and> if_path g = if_path f \<and> file_opened env mode dir' (v, g) (rs @ qs)" by blast
qed

lemma grown_file:
  assumes "\<forall>v. codec_ok env (codec_for_mode mode v)" and "directory_grows env mode name dir content dir' content'"
    and "directory_holds env mode dir' name content'" and "(v, path) \<in> set (version_files dir name)"
    and "file_opened env mode dir (v, f) (content v)" and "if_path f = path"
  shows "file_serves env mode dir' (v, f) (content v) \<and>
    (\<exists>g. idx_refresh env dir' f = Inr g \<and> if_path g = path \<and> file_opened env mode dir' (v, g) (content' v))"
proof -
  obtain bs fs torn qs bs' gs torn' where grown: "om_get dir path = Some bs" "file_holds env (codec_for_mode mode v) bs (content v) fs torn"
      "om_get dir' path = Some bs'" "file_holds env (codec_for_mode mode v) bs' (content v @ qs) (fs @ gs) torn'"
      "content' v = content v @ qs" "(v, path) \<in> set (version_files dir' name)"
    using assms(2,4) by (auto simp: directory_grows_def)
  then have asc: "ascending_records (content v @ qs)" using assms(3) by (auto simp: directory_holds_def)
  note codec = assms(1) [rule_format, of v]
  note serves = opened_then_grown [OF codec assms(5) grown(1) [folded assms(6)] grown(2) grown(3) [folded assms(6)] grown(4) asc]
  show ?thesis using serves grown(5) assms(6) by simp
qed

lemma refresh_files_serve:
  assumes "\<forall>v. codec_ok env (codec_for_mode mode v)" and "directory_grows env mode name dir content dir' content'"
    and "directory_holds env mode dir' name content'" and "files_serve env mode dir content files paths"
    and "set paths \<subseteq> set (version_files dir name)"
  shows "list_all2 (file_serves env mode dir') files (map (content \<circ> fst) paths) \<and>
    (\<exists>out. refresh_files env dir' files = (Inr (), out) \<and> files_serve env mode dir' content' out paths)"
  using assms(4,5) unfolding files_serve_def
proof induction
  case (Cons x files vp paths)
  obtain v path where vp: "vp = (v, path)" by (cases vp)
  obtain f where x: "x = (v, f)" "if_path f = path" "file_opened env mode dir (v, f) (content v)"
    using Cons.hyps(1) by (cases x) (auto simp: vp)
  then obtain g where "file_serves env mode dir' (v, f) (content v)" "idx_refresh env dir' f = Inr g" "if_path g = path"
      "file_opened env mode dir' (v, g) (content' v)"
    using grown_file [OF assms(1-3), of v path f] Cons.prems vp by auto
  then show ?case using Cons.IH Cons.prems by (auto simp: x(1) vp)
qed simp

lemma open_new_files_serve:
  assumes "\<forall>v. codec_ok env (codec_for_mode mode v)" and "directory_holds env mode dir name content"
    and "files_serve env mode dir content files done_paths" and "set paths \<subseteq> set (version_files dir name)"
    and "distinct (map fst paths)"
  shows "\<exists>out. open_new_files env mode dir files paths = (Inr (), out) \<and>
    files_serve env mode dir content out (done_paths @ filter (\<lambda>(v, _). v \<notin> fst ` set done_paths) paths)"
  using assms(3,4,5)
proof (induction paths arbitrary: files done_paths)
  case (Cons vp paths)
  obtain v path where vp: "vp = (v, path)" by (cases vp)
  have known: "list_all (\<lambda>(w, _). w \<noteq> v) files \<longleftrightarrow> v \<notin> fst ` set done_paths"
  proof -
    have "list_all (\<lambda>(w, _). w \<noteq> v) files \<longleftrightarrow> v \<notin> set (map fst files)" by (force simp: list_all_iff)
    then show ?thesis by (simp add: files_serve_versions [OF Cons.prems(1)])
  qed
  show ?case
  proof (cases "v \<in> fst ` set done_paths")
    case True
    then show ?thesis using Cons.IH [OF Cons.prems(1)] Cons.prems(2,3) known by (auto simp: vp)
  next
    case False
    obtain bs fs torn where "ascending_records (content v)" "om_get dir path = Some bs"
        "file_holds env (codec_for_mode mode v) bs (content v) fs torn"
      using Cons.prems(2) assms(2) by (auto simp: vp directory_holds_def)
    then obtain f where f: "idx_open env dir path False False (codec_for_mode mode v) = Inr (f, dir)"
        "file_opened env mode dir (v, f) (content v)" "if_path f = path"
      using idx_open_opened assms(1) by blast
    have more: "files_serve env mode dir content (close_cold_version_files (files @ [(v, f)])) (done_paths @ [(v, path)])"
      by (intro files_serve_cold files_serve_snoc Cons.prems(1) f(2,3))
    have "filter (\<lambda>(w, _). w \<notin> fst ` set (done_paths @ [(v, path)])) paths = filter (\<lambda>(w, _). w \<notin> fst ` set done_paths) paths"
      using Cons.prems(3) by (intro filter_cong) (auto simp: vp rev_image_eqI)
    then show ?thesis using Cons.IH [OF more] Cons.prems(2,3) False known f(1) by (simp add: vp)
  qed
qed simp

lemma sorted_version_files: "sorted (map fst (version_files dir name))"
  by (simp add: version_files_def)

lemma files_serve_member:
  "files_serve env mode dir content files paths \<Longrightarrow> x \<in> set files \<Longrightarrow>
   (fst x, if_path (snd x)) \<in> set paths \<and> file_opened env mode dir x (content (fst x))"
  by (auto simp: files_serve_def in_set_conv_nth list_all2_conv_all_nth split_beta)

lemma files_serve_reordered:
  assumes "files_serve env mode dir content files paths" and "set out = set files" and "map fst out = map fst paths'"
    and "set paths \<subseteq> set paths'" and "distinct (map fst paths')"
  shows "files_serve env mode dir content out paths'"
proof -
  have len: "length out = length paths'" using assms(3) by (metis length_map)
  have "fst (out ! i) = fst (paths' ! i) \<and> if_path (snd (out ! i)) = snd (paths' ! i) \<and> file_opened env mode dir (out ! i) (content (fst (out ! i)))"
    if "i < length out" for i
  proof -
    have same: "fst (out ! i) = fst (paths' ! i)"
      using that len arg_cong [OF assms(3), of "\<lambda>vs. vs ! i"] by simp
    have "out ! i \<in> set files" using nth_mem [OF that] assms(2) by simp
    then have member: "(fst (out ! i), if_path (snd (out ! i))) \<in> set paths'" "file_opened env mode dir (out ! i) (content (fst (out ! i)))"
      using files_serve_member [OF assms(1)] assms(4) by auto
    moreover have "paths' ! i \<in> set paths'" using that len by simp
    ultimately have "if_path (snd (out ! i)) = snd (paths' ! i)"
      using eq_key_imp_eq_value [OF assms(5), of "fst (paths' ! i)"] same by simp
    then show ?thesis using same member(2) by simp
  qed
  then show ?thesis by (force simp: files_serve_def list_all2_conv_all_nth len split_beta)
qed

lemma refresh_version_files_serve:
  assumes "\<forall>v. codec_ok env (codec_for_mode mode v)" and "directory_grows env mode name dir content dir' content'"
    and "directory_holds env mode dir name content" and "directory_holds env mode dir' name content'"
    and "files_serve env mode dir content files (version_files dir name)"
  shows "\<exists>out. refresh_version_files env dir' name mode files = (Inr (), out) \<and>
    files_serve env mode dir' content' out (version_files dir' name)"
proof -
  let ?old = "version_files dir name" and ?new = "version_files dir' name"
  obtain mid where mid: "refresh_files env dir' files = (Inr (), mid)" "files_serve env mode dir' content' mid ?old"
    using refresh_files_serve [OF assms(1,2,4,5)] by auto
  have distinct: "distinct (map fst ?old)" "distinct (map fst ?new)" using assms(3,4) by (auto simp: directory_holds_def)
  obtain out where out: "open_new_files env mode dir' mid ?new = (Inr (), out)"
      "files_serve env mode dir' content' out (?old @ filter (\<lambda>(v, _). v \<notin> fst ` set ?old) ?new)"
    using open_new_files_serve [OF assms(1,4) mid(2) order_refl distinct(2)] by auto
  let ?paths = "?old @ filter (\<lambda>(v, _). v \<notin> fst ` set ?old) ?new"
  have subset: "set ?old \<subseteq> set ?new" using assms(2) by (auto simp: directory_grows_def)
  have versions: "map fst out = map fst ?paths" by (rule files_serve_versions [OF out(2)])
  have "set (map fst out) = set (map fst ?new)" unfolding versions using subset by force
  moreover have "distinct (map fst out)"
    unfolding versions using distinct by (auto simp: distinct_map inj_on_def rev_image_eqI)
  ultimately have "map fst (sort_key fst out) = map fst ?new"
    using distinct(2) sorted_version_files by (intro sorted_distinct_set_unique) (auto simp: distinct_map)
  then have "files_serve env mode dir' content' (sort_key fst out) ?new"
    using subset by (intro files_serve_reordered [OF out(2) _ _ _ distinct(2)]) auto
  then show ?thesis using mid(1) out(1) by (simp add: refresh_version_files_def)
qed

lemma validated_serve:
  assumes "list_all2 (file_serves env mode dir) files rss"
  shows "validated_version_cutoffs files =
    (if linked None (map tr_t (merge_versions tr_t rss)) then Inr (version_cutoffs files) else Inl Corrupt)"
  using validate_cutoffs_serves [OF assms, of None] by (simp add: validated_version_cutoffs_def Let_def)

text \<open>C11. Reading a log that was written by several leaders, one file each, while others go on writing
  it. Opening it for reading succeeds exactly when the merge of the files has no hole, and says
  corrupt otherwise. A later read, after the files grew and files of new leaders appeared, returns
  the range of the merge: of the merge that was indexed, if the range ends within it, and of the
  merge of all that is durable by then otherwise, provided it has no hole. Torn ends of files count
  for nothing. The merge is the one of \<^const>\<open>merge_versions\<close>: records of an older leader count
  up to the first record of each newer one.\<close>

theorem versioned_reader_follows:
  assumes "\<forall>v. codec_ok env (codec_for_mode mode v)" and "directory_holds env mode dir name content"
    and "directory_holds env mode dir' name content'" and "directory_grows env mode name dir content dir' content'"
  defines "before \<equiv> directory_records dir name content" and "after \<equiv> directory_records dir' name content'"
  shows "if linked None (map tr_t before)
    then \<exists>log. versioned_open_read_only env dir name mode = Inr log \<and> vl_next_t log = next_after before \<and>
      (\<forall>start end. \<not> empty_range start end \<longrightarrow>
         fst (versioned_tx_range env dir' log start end) =
           (if \<exists>e. end = Some e \<and> e \<le> vl_next_t log then Inr (range_records start end before)
            else if linked None (map tr_t after) then Inr (range_records start end after) else Inl Corrupt))
    else versioned_open_read_only env dir name mode = Inl Corrupt"
proof -
  have "files_serve env mode dir content [] []" by (simp add: files_serve_def)
  then obtain files0 where files0: "open_files env (\<lambda>_. False) mode dir [] (version_files dir name) = Inr (files0, dir)"
      "files_serve env mode dir content files0 (version_files dir name)"
    using open_files_serve [OF assms(1), of dir content "[]" "[]" "version_files dir name"] assms(2) by (auto simp: directory_holds_def)
  define files where "files = close_cold_version_files files0"
  have files: "files_serve env mode dir content files (version_files dir name)"
    unfolding files_def by (rule files_serve_cold [OF files0(2)])
  note served = files_serve_list [OF files]
  have cutoffs: "validated_version_cutoffs files = (if linked None (map tr_t before) then Inr (version_cutoffs files) else Inl Corrupt)"
    using validated_serve [OF served] by (simp add: before_def directory_records_def)
  have next_t: "merged_next_t files (version_cutoffs files) = Inr (next_after before)"
    using merged_next_t_serves [OF served] by (simp add: before_def directory_records_def)
  have later: "list_all2 (file_serves env mode dir') files (map (content \<circ> fst) (version_files dir name))"
    using refresh_files_serve [OF assms(1,4,3) files order_refl] by simp
  have indexed: "read_merged_range env dir' files (version_cutoffs files) start end = Inr (range_records start end before)" for start "end"
    using read_merged_range_serves [OF assms(1) later] by (simp add: before_def directory_records_def)
  obtain out0 where out0: "refresh_version_files env dir' name mode files = (Inr (), out0)"
      "files_serve env mode dir' content' out0 (version_files dir' name)"
    using refresh_version_files_serve [OF assms(1,4,2,3) files] by blast
  define out where "out = close_cold_version_files out0"
  note out = files_serve_list [OF files_serve_cold [OF out0(2)], folded out_def]
  have fresh: "validated_version_cutoffs out = (if linked None (map tr_t after) then Inr (version_cutoffs out) else Inl Corrupt)"
    "read_merged_range env dir' out (version_cutoffs out) start end = Inr (range_records start end after)" for start "end"
    using validated_serve [OF out] read_merged_range_serves [OF assms(1) out] by (simp_all add: after_def directory_records_def)
  show ?thesis
    using cutoffs next_t files0(1) out0(1) indexed fresh
    by (auto simp: versioned_open_read_only_def files_def [symmetric] out_def [symmetric] versioned_tx_range_def read_merged_def
        range_is_merged_indexed_def Let_def split: option.splits)
qed

definition wit_second :: tx_record where
  "wit_second = wit_record\<lparr>tr_t := 2\<rparr>"

definition wit_dir :: directory where
  "wit_dir = om_insert ''x.log'' (frame_bytes wit_env (encode_record wit_record)) om_empty"

definition wit_dir_later :: directory where
  "wit_dir_later = om_insert ''x.v2.log'' (frame_bytes wit_env (encode_record wit_second)) wit_dir"

lemma wit_version_files: "version_files wit_dir ''x'' = [(0, ''x.log'')]"
  "version_files wit_dir_later ''x'' = [(0, ''x.log''), (2, ''x.v2.log'')]"
  unfolding wit_dir_def wit_dir_later_def version_files_def
  by (simp_all add: version_path_def version_of_file_def om_keys_def strip_prefix_def strip_suffix_def suffix_to_prefix
      map_filter_simps parse_unsigned_def parse_digits_def to_digit_10_def)

lemma wit_plain_frame:
  assumes "loggable r" and "length (encode_record r) < 2 ^ 62"
  shows "file_holds wit_env (codec_for_mode Plain v) (frame_bytes wit_env (encode_record r)) [r] [frame_bytes wit_env (encode_record r)] []"
proof -
  have "payload_of wit_env (codec_for_mode Plain v) r (encode_record r)"
    by (auto simp: payload_of_def codec_encode_def codec_for_mode_def intro!: exI [of _ "replicate 12 0"])
  then have "frame_of wit_env (codec_for_mode Plain v) r (frame_bytes wit_env (encode_record r))"
    using assms(2) by (auto simp: frame_of_def)
  then show ?thesis
    using file_holds_whole [of wit_env "codec_for_mode Plain v" "[frame_bytes wit_env (encode_record r)]" "[r]"] assms
    by (simp add: length_frame_bytes)
qed

theorem versioned_reader_follows_witness:
  "\<exists>log. versioned_open_read_only wit_env wit_dir ''x'' Plain = Inr log \<and> vl_next_t log = 2 \<and>
     fst (versioned_tx_range wit_env wit_dir_later log 1 None) = Inr [wit_record, wit_second]"
proof -
  let ?content = "\<lambda>v :: u64. if v = 0 then [wit_record] else if v = 2 then [wit_second] else []"
  have t: "tr_t wit_record = 1" "tr_t wit_second = 2" by (simp_all add: wit_record_def wit_second_def)
  have "LOG_MAGIC_T \<noteq> 2" by (simp add: LOG_MAGIC_T_def crypt_simps u64_from_be_bytes_def be_val_def)
  then have loggable: "loggable wit_second"
    by (simp add: loggable_def record_ok_def record_datom_ok_def wit_record_def wit_second_def)
  have small: "length (encode_record wit_record) < 2 ^ 62" "length (encode_record wit_second) < 2 ^ 62"
    by (simp_all add: encode_record_def encode_record_datom_def wit_record_def wit_second_def Let_def)
  note first = wit_plain_frame [OF wit_record_loggable small(1)] and second = wit_plain_frame [OF loggable small(2)]
  have asc: "ascending_records [r]" for r by (simp add: ascending_records_def)
  have files: "om_get wit_dir ''x.log'' = Some (frame_bytes wit_env (encode_record wit_record))"
      "om_get wit_dir_later ''x.log'' = Some (frame_bytes wit_env (encode_record wit_record))"
      "om_get wit_dir_later ''x.v2.log'' = Some (frame_bytes wit_env (encode_record wit_second))"
    by (simp_all add: wit_dir_def wit_dir_later_def)
  have codec: "\<forall>v. codec_ok wit_env (codec_for_mode Plain v)" by (simp add: codec_ok_def codec_for_mode_def)
  have early: "directory_holds wit_env Plain wit_dir ''x'' ?content"
    using first files(1) asc by (auto simp: directory_holds_def wit_version_files)
  have late: "directory_holds wit_env Plain wit_dir_later ''x'' ?content"
    using first second files asc by (auto simp: directory_holds_def wit_version_files)
  let ?f = "frame_bytes wit_env (encode_record wit_record)" and ?c = "codec_for_mode Plain 0"
  have "\<exists>bs fs torn qs bs' gs torn'. om_get wit_dir ''x.log'' = Some bs \<and> file_holds wit_env ?c bs [wit_record] fs torn \<and>
      om_get wit_dir_later ''x.log'' = Some bs' \<and> file_holds wit_env ?c bs' ([wit_record] @ qs) (fs @ gs) torn' \<and>
      [wit_record] = [wit_record] @ qs"
    by (rule exI [of _ ?f], rule exI [of _ "[?f]"], rule exI [of _ "[]"], rule exI [of _ "[]"], rule exI [of _ ?f],
        rule exI [of _ "[]"], rule exI [of _ "[]"]) (use first [of 0] files in simp)
  then have grows: "directory_grows wit_env Plain ''x'' wit_dir ?content wit_dir_later ?content"
    by (simp add: directory_grows_def wit_version_files)
  have records: "directory_records wit_dir ''x'' ?content = [wit_record]"
      "directory_records wit_dir_later ''x'' ?content = [wit_record, wit_second]"
    by (simp_all add: directory_records_def wit_version_files t less_max_iff)
  have link: "linked None (map tr_t [wit_record])" "linked None (map tr_t [wit_record, wit_second])"
    by (simp_all add: t checked_succ_def)
  obtain log where log: "versioned_open_read_only wit_env wit_dir ''x'' Plain = Inr log" "vl_next_t log = next_after [wit_record]"
      "fst (versioned_tx_range wit_env wit_dir_later log 1 None) = Inr (range_records 1 None [wit_record, wit_second])"
    using versioned_reader_follows [OF codec early late grows, unfolded records if_P [OF link(1)]] link(2)
    by (auto simp: empty_range_def)
  moreover have "range_records 1 None [wit_record, wit_second] = [wit_record, wit_second]"
    by (simp add: range_records_def in_tx_range_def t)
  ultimately show ?thesis by (simp add: next_after_def t)
qed

end
