(* ===== verification/Lease.thy ===== *)
theory Lease
  imports Blob_Store
begin

text \<open>
  The write lease and fenced root publication (crates/corium-transactor/src/lease.rs and
  \<open>publish_root\<close> of crates/corium-transactor/src/lib.rs). Every operation is a loop around a
  compare-and-swap of the root record; its awaits are the points where other processes may run,
  so an operation is a machine with one phase per await, and processes interleave phase by phase.
\<close>

subsection \<open>Leases\<close>

definition lease_root :: "string \<Rightarrow> string" where
  "lease_root db = ''lease:'' @ db"

record lease =
  ls_owner :: string
  ls_version :: u64
  ls_expires :: i64
  ls_endpoint :: string

datatype lease_error = Held string i64 | Lost | LeaseStore store_error

text \<open>The standalone record of the first format: owner, version and expiry on three lines.\<close>

definition decode_legacy :: "bytes \<Rightarrow> (string \<times> u64 \<times> i64) option" where
  "decode_legacy bytes =
    (if utf8_valid bytes then do {
       let ls = lines (bytes_str bytes);
       owner \<leftarrow> fst (next_line ls);
       let ls = snd (next_line ls);
       line \<leftarrow> fst (next_line ls);
       version \<leftarrow> parse_unsigned line;
       let ls = snd (next_line ls);
       line \<leftarrow> fst (next_line ls);
       expiry \<leftarrow> parse_signed line;
       Some (owner, version, expiry)
     } else None)"

definition holder :: "db_root option \<Rightarrow> (string \<times> u64 \<times> i64) option \<Rightarrow> string \<times> u64 \<times> i64" where
  "holder root legacy = (case root of
     Some root \<Rightarrow>
       if r_owner root \<noteq> [] then (r_owner root, r_lease_version root, r_lease_expires root)
       else (case legacy of
           Some (owner, version, expiry) \<Rightarrow> (owner, max version (r_lease_version root), expiry)
         | None \<Rightarrow> ([], r_lease_version root, 0))
   | None \<Rightarrow> (case legacy of
       Some (owner, version, expiry) \<Rightarrow> (owner, version, expiry)
     | None \<Rightarrow> ([], 0, 0)))"

definition acquire_version :: "string \<times> u64 \<times> i64 \<Rightarrow> string \<Rightarrow> i64 \<Rightarrow> lease_error + u64" where
  "acquire_version cur owner now = (case cur of (cur_owner, cur_version, cur_expiry) \<Rightarrow>
     if cur_owner \<noteq> [] \<and> cur_owner = owner then Inr cur_version
     else if now <s cur_expiry then Inl (Held cur_owner cur_expiry)
     else Inr (cur_version + 1))"

definition acquired_root :: "db_root option \<Rightarrow> string \<Rightarrow> string \<Rightarrow> i64 \<Rightarrow> i64 \<Rightarrow> u64 \<Rightarrow> db_root" where
  "acquired_root current owner endpoint ttl now version =
    \<lparr>r_format_version = FORMAT_VERSION, r_lease_version = version, r_owner = owner,
     r_lease_expires = now + ttl, r_owner_endpoint = endpoint,
     r_index_basis_t = (case current of None \<Rightarrow> 0 | Some root \<Rightarrow> r_index_basis_t root),
     r_roots = Option.bind current r_roots,
     r_history_roots = Option.bind current r_history_roots,
     r_next_entity_id = (case current of None \<Rightarrow> 0 | Some root \<Rightarrow> r_next_entity_id root),
     r_last_tx_instant = (case current of None \<Rightarrow> I64_MIN | Some root \<Rightarrow> r_last_tx_instant root),
     r_key_manifest_version = (case current of None \<Rightarrow> 0 | Some root \<Rightarrow> r_key_manifest_version root)\<rparr>"

subsection \<open>Publication\<close>

datatype root_publication = Installed | Superseded | Raced

record root_index_state =
  ri_basis :: u64
  ri_roots :: "index_roots option"
  ri_history :: "index_roots option"

definition index_state_of :: "db_root option \<Rightarrow> root_index_state" where
  "index_state_of root =
    \<lparr>ri_basis = (case root of None \<Rightarrow> 0 | Some r \<Rightarrow> r_index_basis_t r),
     ri_roots = Option.bind root r_roots, ri_history = Option.bind root r_history_roots\<rparr>"

text \<open>The outcome of an operation.\<close>

datatype lease_result =
    Acquired lease
  | Renewed lease
  | Verified
  | Released
  | Published root_publication
  | Refused lease_error
  | Deposed u64
  | StoreFailed store_error

text \<open>What a publication does with the record it read: stop, or a record to install.\<close>

definition publish_next :: "db_root \<Rightarrow> root_index_state option \<Rightarrow> db_root option \<Rightarrow> lease_result + db_root" where
  "publish_next root pinned stored =
    (if (case pinned of None \<Rightarrow> False | Some pin \<Rightarrow> index_state_of stored \<noteq> pin) then Inl (Published Raced)
     else case stored of
       None \<Rightarrow> Inr root
     | Some stored \<Rightarrow>
        let new = root\<lparr>r_key_manifest_version := r_key_manifest_version stored\<rparr>
        in if r_lease_version root < r_lease_version stored then Inl (Deposed (r_lease_version stored))
           else if r_lease_version stored = r_lease_version root
             \<and> (r_index_basis_t root < r_index_basis_t stored
                \<or> r_index_basis_t stored = r_index_basis_t root \<and> r_roots stored = r_roots root
                  \<and> r_history_roots stored = r_history_roots root)
             then Inl (Published Superseded)
           else if r_lease_version stored = r_lease_version root
             then Inr (new\<lparr>r_owner := r_owner stored, r_lease_expires := r_lease_expires stored,
                           r_owner_endpoint := r_owner_endpoint stored\<rparr>)
           else Inr new)"

subsection \<open>The operations, await by await\<close>

datatype lease_call =
    Acquire string string i64 i64
  | Renew lease i64 i64
  | Verify lease
  | Release lease
  | Publish db_root "root_index_state option"

datatype phase =
    Start
  | HaveRoot "bytes option"
  | Swap "bytes option" db_root lease_result bool
  | DropLegacy lease_result
  | Finished lease_result

text \<open>
  The compare-and-swap every loop ends with: done, once more from the top, or a store failure.
  The flag asks for the legacy record to be dropped afterwards.
\<close>

definition swap_step ::
    "('s \<Rightarrow> string \<Rightarrow> bytes option \<Rightarrow> bytes \<Rightarrow> store_error + 's) \<Rightarrow> string \<Rightarrow> (store_error \<Rightarrow> lease_result)
      \<Rightarrow> bytes option \<Rightarrow> db_root \<Rightarrow> lease_result \<Rightarrow> bool \<Rightarrow> 's \<Rightarrow> phase \<times> 's" where
  "swap_step cas name fail expected new result legacy s = (case cas s name expected (root_encode new) of
     Inr s \<Rightarrow> (if legacy then DropLegacy result else Finished result, s)
   | Inl (CasFailed _ _) \<Rightarrow> (Start, s)
   | Inl e \<Rightarrow> (Finished (fail e), s))"

definition acquire_step ::
    "('s \<Rightarrow> string \<Rightarrow> store_error + bytes option) \<Rightarrow> ('s \<Rightarrow> string \<Rightarrow> bytes option \<Rightarrow> bytes \<Rightarrow> store_error + 's)
      \<Rightarrow> ('s \<Rightarrow> string \<Rightarrow> store_error + 's) \<Rightarrow> string \<Rightarrow> string \<Rightarrow> string \<Rightarrow> i64 \<Rightarrow> i64 \<Rightarrow> phase \<Rightarrow> 's \<Rightarrow> phase \<times> 's" where
  "acquire_step get cas del db owner endpoint ttl now ph s = (case ph of
     Start \<Rightarrow> (case get s (db_root_name db) of
         Inl e \<Rightarrow> (Finished (Refused (LeaseStore e)), s)
       | Inr current_bytes \<Rightarrow> (HaveRoot current_bytes, s))
   | HaveRoot current_bytes \<Rightarrow> (case get s (lease_root db) of
         Inl e \<Rightarrow> (Finished (Refused (LeaseStore e)), s)
       | Inr legacy_bytes \<Rightarrow>
          let current = Option.bind current_bytes root_decode; legacy = Option.bind legacy_bytes decode_legacy
          in (case acquire_version (holder current legacy) owner now of
                Inl e \<Rightarrow> (Finished (Refused e), s)
              | Inr version \<Rightarrow>
                 (Swap current_bytes (acquired_root current owner endpoint ttl now version)
                    (Acquired \<lparr>ls_owner = owner, ls_version = version, ls_expires = now + ttl, ls_endpoint = endpoint\<rparr>)
                    (legacy \<noteq> None), s)))
   | Swap current_bytes new result legacy \<Rightarrow>
       swap_step cas (db_root_name db) (\<lambda>e. Refused (LeaseStore e)) current_bytes new result legacy s
   | DropLegacy result \<Rightarrow> (case del s (lease_root db) of
         Inl _ \<Rightarrow> (Finished result, s)
       | Inr s \<Rightarrow> (Finished result, s))
   | Finished result \<Rightarrow> (Finished result, s))"

text \<open>The record a renewal, a verification or a release finds, when the lease still holds.\<close>

definition held_root :: "lease \<Rightarrow> bytes option \<Rightarrow> db_root option" where
  "held_root held bytes = (case Option.bind bytes root_decode of
     None \<Rightarrow> None
   | Some root \<Rightarrow> if r_owner root \<noteq> ls_owner held \<or> r_lease_version root \<noteq> ls_version held then None else Some root)"

definition renew_step ::
    "('s \<Rightarrow> string \<Rightarrow> store_error + bytes option) \<Rightarrow> ('s \<Rightarrow> string \<Rightarrow> bytes option \<Rightarrow> bytes \<Rightarrow> store_error + 's)
      \<Rightarrow> string \<Rightarrow> lease \<Rightarrow> i64 \<Rightarrow> i64 \<Rightarrow> phase \<Rightarrow> 's \<Rightarrow> phase \<times> 's" where
  "renew_step get cas db held ttl now ph s = (case ph of
     Start \<Rightarrow> (case get s (db_root_name db) of
         Inl e \<Rightarrow> (Finished (Refused (LeaseStore e)), s)
       | Inr current_bytes \<Rightarrow> (case held_root held current_bytes of
           None \<Rightarrow> (Finished (Refused Lost), s)
         | Some root \<Rightarrow>
            (Swap current_bytes (root\<lparr>r_lease_expires := now + ttl, r_owner_endpoint := ls_endpoint held\<rparr>)
               (Renewed (held\<lparr>ls_expires := now + ttl\<rparr>)) False, s)))
   | Swap current_bytes new result legacy \<Rightarrow>
       swap_step cas (db_root_name db) (\<lambda>e. Refused (LeaseStore e)) current_bytes new result legacy s
   | _ \<Rightarrow> (ph, s))"

definition verify_step ::
    "('s \<Rightarrow> string \<Rightarrow> store_error + bytes option) \<Rightarrow> string \<Rightarrow> lease \<Rightarrow> phase \<Rightarrow> 's \<Rightarrow> phase \<times> 's" where
  "verify_step get db held ph s = (case ph of
     Start \<Rightarrow> (case get s (db_root_name db) of
         Inl e \<Rightarrow> (Finished (Refused (LeaseStore e)), s)
       | Inr bytes \<Rightarrow> (Finished (if held_root held bytes = None then Refused Lost else Verified), s))
   | _ \<Rightarrow> (ph, s))"

definition release_step ::
    "('s \<Rightarrow> string \<Rightarrow> store_error + bytes option) \<Rightarrow> ('s \<Rightarrow> string \<Rightarrow> bytes option \<Rightarrow> bytes \<Rightarrow> store_error + 's)
      \<Rightarrow> string \<Rightarrow> lease \<Rightarrow> phase \<Rightarrow> 's \<Rightarrow> phase \<times> 's" where
  "release_step get cas db held ph s = (case ph of
     Start \<Rightarrow> (case get s (db_root_name db) of
         Inl e \<Rightarrow> (Finished (Refused (LeaseStore e)), s)
       | Inr current_bytes \<Rightarrow> (case held_root held current_bytes of
           None \<Rightarrow> (Finished (Refused Lost), s)
         | Some root \<Rightarrow> (Swap current_bytes (root\<lparr>r_lease_expires := 0\<rparr>) Released False, s)))
   | Swap current_bytes new result legacy \<Rightarrow>
       swap_step cas (db_root_name db) (\<lambda>e. Refused (LeaseStore e)) current_bytes new result legacy s
   | _ \<Rightarrow> (ph, s))"

definition publish_step ::
    "('s \<Rightarrow> string \<Rightarrow> store_error + bytes option) \<Rightarrow> ('s \<Rightarrow> string \<Rightarrow> bytes option \<Rightarrow> bytes \<Rightarrow> store_error + 's)
      \<Rightarrow> string \<Rightarrow> db_root \<Rightarrow> root_index_state option \<Rightarrow> phase \<Rightarrow> 's \<Rightarrow> phase \<times> 's" where
  "publish_step get cas root_name root pinned ph s = (case ph of
     Start \<Rightarrow> (case get s root_name of
         Inl e \<Rightarrow> (Finished (StoreFailed e), s)
       | Inr previous \<Rightarrow> (case publish_next root pinned (Option.bind previous root_decode) of
           Inl result \<Rightarrow> (Finished result, s)
         | Inr new \<Rightarrow> (Swap previous new (Published Installed) False, s)))
   | Swap previous new result legacy \<Rightarrow> swap_step cas root_name StoreFailed previous new result legacy s
   | _ \<Rightarrow> (ph, s))"

definition lease_step ::
    "('s \<Rightarrow> string \<Rightarrow> store_error + bytes option) \<Rightarrow> ('s \<Rightarrow> string \<Rightarrow> bytes option \<Rightarrow> bytes \<Rightarrow> store_error + 's)
      \<Rightarrow> ('s \<Rightarrow> string \<Rightarrow> store_error + 's) \<Rightarrow> string \<Rightarrow> lease_call \<Rightarrow> phase \<Rightarrow> 's \<Rightarrow> phase \<times> 's" where
  "lease_step get cas del db call = (case call of
     Acquire owner endpoint ttl now \<Rightarrow> acquire_step get cas del db owner endpoint ttl now
   | Renew held ttl now \<Rightarrow> renew_step get cas db held ttl now
   | Verify held \<Rightarrow> verify_step get db held
   | Release held \<Rightarrow> release_step get cas db held
   | Publish root pinned \<Rightarrow> publish_step get cas (db_root_name db) root pinned)"

text \<open>A call run on its own, for at most so many awaits.\<close>

fun run_call ::
    "nat \<Rightarrow> (phase \<Rightarrow> 's \<Rightarrow> phase \<times> 's) \<Rightarrow> phase \<Rightarrow> 's \<Rightarrow> (lease_result \<times> 's) option" where
  "run_call n step (Finished r) s = Some (r, s)"
| "run_call 0 step ph s = None"
| "run_call (Suc n) step ph s = (case step ph s of (ph, s) \<Rightarrow> run_call n step ph s)"

subsection \<open>Interleaved processes\<close>

text \<open>
  The store, what every process is doing, and the leases that have been returned to callers.
\<close>

record 's lease_system =
  sy_store :: 's
  sy_procs :: "nat \<rightharpoonup> lease_call \<times> phase"
  sy_granted :: "lease set"

text \<open>
  A process holds what it was granted: it renews, verifies and releases a lease it was returned.
  A publication may carry any fencing version and any record that fits its line format. The
  indexing pass leaves owner, expiry and endpoint empty and the publication fills them in from
  the stored record (\<open>pass_publication_allowed\<close> shows that its roots
  are such calls). Owners and endpoints fit on a line of the record.
\<close>

definition call_allowed :: "lease set \<Rightarrow> lease_call \<Rightarrow> bool" where
  "call_allowed granted call \<longleftrightarrow> (case call of
     Acquire owner endpoint _ _ \<Rightarrow> owner \<noteq> [] \<and> field_ok owner \<and> field_ok endpoint
   | Renew held _ _ \<Rightarrow> held \<in> granted
   | Verify held \<Rightarrow> held \<in> granted
   | Release held \<Rightarrow> held \<in> granted
   | Publish root _ \<Rightarrow> root_wf root)"

fun grants_of :: "phase \<Rightarrow> lease set" where
  "grants_of (Finished (Acquired l)) = {l}"
| "grants_of (Finished (Renewed l)) = {l}"
| "grants_of _ = {}"

text \<open>Fencing versions are not exhausted where an acquisition is about to take the next one.\<close>

definition fence_room :: "('s \<Rightarrow> string \<Rightarrow> bytes option) \<Rightarrow> string \<Rightarrow> phase \<Rightarrow> 's \<Rightarrow> bool" where
  "fence_room contents db ph s \<longleftrightarrow> (\<forall>b. ph = HaveRoot b \<longrightarrow>
     fst (snd (holder (Option.bind b root_decode) (Option.bind (contents s (lease_root db)) decode_legacy))) + 1 \<noteq> 0)"

inductive lease_trans for get cas del contents db where
  trans_begin: "call_allowed (sy_granted y) call \<Longrightarrow>
    (case sy_procs y p of None \<Rightarrow> True | Some (_, ph) \<Rightarrow> \<exists>r. ph = Finished r) \<Longrightarrow>
    lease_trans get cas del contents db y (y\<lparr>sy_procs := (sy_procs y)(p \<mapsto> (call, Start))\<rparr>)"
| trans_step: "sy_procs y p = Some (call, ph) \<Longrightarrow> \<not> (\<exists>r. ph = Finished r) \<Longrightarrow> fence_room contents db ph (sy_store y) \<Longrightarrow>
    lease_step get cas del db call ph (sy_store y) = (ph', s') \<Longrightarrow>
    lease_trans get cas del contents db y
      \<lparr>sy_store = s', sy_procs = (sy_procs y)(p \<mapsto> (call, ph')), sy_granted = sy_granted y \<union> grants_of ph'\<rparr>"

subsection \<open>What an operation may do to the record\<close>

text \<open>
  A record may be replaced by one with a newer fencing version, or by one with the same version
  and the same owner; a record without an owner may be taken under its version.
\<close>

definition advances :: "db_root option \<Rightarrow> db_root \<Rightarrow> bool" where
  "advances old new \<longleftrightarrow> (case old of None \<Rightarrow> True
     | Some r \<Rightarrow> r_lease_version r < r_lease_version new \<or>
         r_lease_version r = r_lease_version new \<and> (r_owner r = [] \<or> r_owner new = r_owner r))"

text \<open>A lease that is current or was before the record moved on.\<close>

definition fences :: "db_root \<Rightarrow> lease \<Rightarrow> bool" where
  "fences r l \<longleftrightarrow> ls_owner l \<noteq> [] \<and> field_ok (ls_owner l) \<and> field_ok (ls_endpoint l) \<and>
     (ls_version l < r_lease_version r \<or> ls_version l = r_lease_version r \<and> ls_owner l = r_owner r)"

lemma fences_advance: "fences r l \<Longrightarrow> advances (Some r) new \<Longrightarrow> fences new l"
  by (auto simp: fences_def advances_def)

definition stored_ok :: "bytes option \<Rightarrow> bool" where
  "stored_ok b \<longleftrightarrow> (\<forall>r. Option.bind b root_decode = Some r \<longrightarrow> root_wf r)"

lemma stored_ok_encode: "root_wf r \<Longrightarrow> stored_ok (Some (root_encode r))"
  by (simp add: stored_ok_def root_decode_encode)

text \<open>The version a call acts under, and the record it may replace.\<close>

fun call_version :: "lease_call \<Rightarrow> u64 option" where
  "call_version (Acquire _ _ _ _) = None"
| "call_version (Renew held _ _) = Some (ls_version held)"
| "call_version (Verify held) = Some (ls_version held)"
| "call_version (Release held) = Some (ls_version held)"
| "call_version (Publish root _) = Some (r_lease_version root)"

fun leases_of :: "lease_result \<Rightarrow> lease set" where
  "leases_of (Acquired l) = {l}"
| "leases_of (Renewed l) = {l}"
| "leases_of _ = {}"

lemma grants_of_Finished [simp]: "grants_of (Finished r) = leases_of r"
  by (cases r) simp_all

definition proposal_ok :: "lease_call \<Rightarrow> bytes option \<Rightarrow> db_root \<Rightarrow> lease_result \<Rightarrow> bool" where
  "proposal_ok call b new res \<longleftrightarrow> root_wf new \<and> advances (Option.bind b root_decode) new \<and>
     (\<forall>l \<in> leases_of res. ls_version l = r_lease_version new \<and> fences new l) \<and>
     (\<forall>v r. call_version call = Some v \<longrightarrow> Option.bind b root_decode = Some r \<longrightarrow> r_lease_version r \<le> v)"

fun phase_ok :: "lease_call \<Rightarrow> phase \<Rightarrow> bool" where
  "phase_ok call (HaveRoot b) = stored_ok b"
| "phase_ok call (Swap b new res legacy) = proposal_ok call b new res"
| "phase_ok call _ = True"

lemma roots_ok_decoded: "root_wf r \<Longrightarrow> roots_ok (r_roots r)" "root_wf r \<Longrightarrow> roots_ok (r_history_roots r)"
  by (simp_all add: root_wf_def)

lemma acquire_proposal:
  assumes "acquire_version (holder current legacy) owner now = Inr version"
    and room: "fst (snd (holder current legacy)) + 1 \<noteq> 0"
    and ok: "owner \<noteq> []" "field_ok owner" "field_ok endpoint" "\<And>r. current = Some r \<Longrightarrow> root_wf r"
  shows "root_wf (acquired_root current owner endpoint ttl now version) \<and>
    advances current (acquired_root current owner endpoint ttl now version)"
proof -
  have "root_wf (acquired_root current owner endpoint ttl now version)"
    using ok by (cases current) (simp_all add: acquired_root_def root_wf_def)
  moreover have "advances current (acquired_root current owner endpoint ttl now version)"
  proof (cases current)
    case (Some r)
    obtain ow v e where h: "holder current legacy = (ow, v, e)" by (cases "holder current legacy")
    have v: "r_lease_version r \<le> v" "r_owner r \<noteq> [] \<Longrightarrow> ow = r_owner r \<and> v = r_lease_version r"
      using h by (auto simp: Some holder_def split: if_splits option.splits)
    have "version = v \<and> ow = owner \<or> version = v + 1"
      using assms(1) by (auto simp: acquire_version_def h split: if_splits)
    moreover have "v < v + 1" using room h by (simp add: word_less_nat_alt unatSuc add.commute [of v])
    ultimately show ?thesis using v by (auto simp: Some advances_def acquired_root_def)
  qed (simp add: advances_def)
  ultimately show ?thesis ..
qed

lemma publish_proposal:
  assumes "publish_next root pinned stored = Inr new" and "root_wf root" and "\<And>r. stored = Some r \<Longrightarrow> root_wf r"
  shows "root_wf new \<and> advances stored new \<and> (\<forall>r. stored = Some r \<longrightarrow> r_lease_version r \<le> r_lease_version root)"
  using assms by (cases stored) (auto simp: publish_next_def Let_def advances_def root_wf_def not_less split: if_splits)

subsection \<open>The contract of a root store\<close>

text \<open>
  \<open>contents\<close> is what the store holds: a read returns it, a compare-and-swap that succeeds found
  what it expected and changes one record, a delete removes one record.
\<close>

locale root_store =
  fixes contents :: "'s \<Rightarrow> string \<Rightarrow> bytes option"
    and get :: "'s \<Rightarrow> string \<Rightarrow> store_error + bytes option"
    and cas :: "'s \<Rightarrow> string \<Rightarrow> bytes option \<Rightarrow> bytes \<Rightarrow> store_error + 's"
    and del :: "'s \<Rightarrow> string \<Rightarrow> store_error + 's"
  assumes get_contents: "get s name = Inr b \<Longrightarrow> b = contents s name"
    and cas_contents: "cas s name expected bytes = Inr s' \<Longrightarrow>
      contents s name = expected \<and> contents s' = (contents s)(name \<mapsto> bytes)"
    and del_contents: "del s name = Inr s' \<Longrightarrow> contents s' = (contents s)(name := None)"

text \<open>The leases a process shows, and those of a whole system.\<close>

fun shown :: "phase \<Rightarrow> lease set" where
  "shown (DropLegacy r) = leases_of r"
| "shown (Finished r) = leases_of r"
| "shown _ = {}"

definition system_leases :: "('s, 'x) lease_system_scheme \<Rightarrow> lease set" where
  "system_leases y = {l. l \<in> sy_granted y \<or> (\<exists>p call ph. sy_procs y p = Some (call, ph) \<and> l \<in> shown ph)}"

definition lease_inv :: "('s \<Rightarrow> string \<Rightarrow> bytes option) \<Rightarrow> string \<Rightarrow> 's lease_system \<Rightarrow> bool" where
  "lease_inv contents db y \<longleftrightarrow>
     stored_ok (contents (sy_store y) (db_root_name db)) \<and>
     (\<forall>p call ph. sy_procs y p = Some (call, ph) \<longrightarrow> call_allowed (sy_granted y) call \<and> phase_ok call ph) \<and>
     (\<forall>l \<in> system_leases y. \<exists>r. Option.bind (contents (sy_store y) (db_root_name db)) root_decode = Some r \<and> fences r l) \<and>
     (\<forall>l \<in> system_leases y. \<forall>l' \<in> system_leases y. ls_version l = ls_version l' \<longrightarrow> ls_owner l = ls_owner l')"

definition lease_start :: "('s \<Rightarrow> string \<Rightarrow> bytes option) \<Rightarrow> string \<Rightarrow> 's lease_system \<Rightarrow> bool" where
  "lease_start contents db y \<longleftrightarrow> stored_ok (contents (sy_store y) (db_root_name db)) \<and> sy_procs y = Map.empty \<and> sy_granted y = {}"

lemma lease_inv_start: "lease_start contents db y \<Longrightarrow> lease_inv contents db y"
  by (simp add: lease_start_def lease_inv_def system_leases_def)

lemma names_differ [simp]: "lease_root db \<noteq> db_root_name db'" "db_root_name db' \<noteq> lease_root db"
  by (simp_all add: lease_root_def db_root_name_def)

lemma call_allowed_mono: "call_allowed G call \<Longrightarrow> G \<subseteq> G' \<Longrightarrow> call_allowed G' call"
  by (auto simp: call_allowed_def split: lease_call.splits)

text \<open>A compare-and-swap of a phase: it installs its proposal over what it read, or changes nothing.\<close>

context root_store
begin

lemma swap_outcome:
  assumes "swap_step cas name fail b new res legacy s = (ph', s')"
  shows "(s' = s \<and> (ph' = Start \<or> (\<exists>e. ph' = Finished (fail e)))) \<or>
    (contents s name = b \<and> contents s' = (contents s)(name \<mapsto> root_encode new) \<and> (ph' = DropLegacy res \<or> ph' = Finished res))"
  using assms cas_contents [of s name b "root_encode new"]
  by (auto simp: swap_step_def split: sum.splits store_error.splits if_splits)

end

lemma held_rootD:
  assumes "held_root held b = Some root"
  shows "Option.bind b root_decode = Some root" "r_owner root = ls_owner held" "r_lease_version root = ls_version held"
  using assms by (auto simp: held_root_def split: option.splits if_splits)

definition step_outcome ::
    "('s \<Rightarrow> string \<Rightarrow> bytes option) \<Rightarrow> string \<Rightarrow> lease_call \<Rightarrow> phase \<Rightarrow> 's \<Rightarrow> phase \<Rightarrow> 's \<Rightarrow> bool" where
  "step_outcome contents name call ph s ph' s' \<longleftrightarrow>
     contents s' name = contents s name \<and> phase_ok call ph' \<and> shown ph' \<subseteq> shown ph \<or>
     (\<exists>b new res legacy. ph = Swap b new res legacy \<and> contents s name = b \<and>
        contents s' name = Some (root_encode new) \<and> (ph' = DropLegacy res \<or> ph' = Finished res))"

context root_store
begin

lemma outcome_swap:
  assumes "swap_step cas name fail b new res legacy s = (ph', s')" and "\<And>e. leases_of (fail e) = {}"
  shows "step_outcome contents name call (Swap b new res legacy) s ph' s'"
  using swap_outcome [OF assms(1)] assms(2) by (auto simp: step_outcome_def)

lemma acquire_outcome:
  assumes "acquire_step get cas del db owner endpoint ttl now ph s = (ph', s')"
    and call: "call = Acquire owner endpoint ttl now" "call_allowed G call"
    and "phase_ok call ph" and "stored_ok (contents s (db_root_name db))" and room: "fence_room contents db ph s"
  shows "step_outcome contents (db_root_name db) call ph s ph' s'"
proof (cases ph)
  case Start
  then show ?thesis using assms(1,5) get_contents
    by (auto simp: acquire_step_def step_outcome_def split: sum.splits)
next
  case (HaveRoot b)
  show ?thesis
  proof (cases "get s (lease_root db)")
    case (Inl e)
    then show ?thesis using assms(1) HaveRoot by (auto simp: acquire_step_def step_outcome_def)
  next
    case (Inr lb)
    define current legacy where "current = Option.bind b root_decode" and "legacy = Option.bind lb decode_legacy"
    have "fst (snd (holder current legacy)) + 1 \<noteq> 0"
      using room get_contents [OF Inr] by (simp add: fence_room_def HaveRoot current_def legacy_def)
    moreover have "owner \<noteq> []" "field_ok owner" "field_ok endpoint" using call by (simp_all add: call_allowed_def)
    moreover have "root_wf r" if "current = Some r" for r
      using that assms(4) by (simp add: HaveRoot stored_ok_def current_def)
    ultimately have "proposal_ok call b (acquired_root current owner endpoint ttl now version)
        (Acquired \<lparr>ls_owner = owner, ls_version = version, ls_expires = now + ttl, ls_endpoint = endpoint\<rparr>)"
      if "acquire_version (holder current legacy) owner now = Inr version" for version
      using acquire_proposal [OF that] call(1)
      by (auto simp: proposal_ok_def current_def [symmetric] fences_def acquired_root_def)
    then show ?thesis using assms(1) HaveRoot Inr
      by (cases "acquire_version (holder current legacy) owner now")
        (auto simp: acquire_step_def step_outcome_def Let_def current_def legacy_def)
  qed
next
  case (Swap b new res legacy)
  then show ?thesis using assms(1) outcome_swap [of "db_root_name db" "\<lambda>e. Refused (LeaseStore e)" b new res legacy s ph' s']
    by (simp add: acquire_step_def)
next
  case (DropLegacy res)
  then show ?thesis using assms(1) del_contents [of s "lease_root db"]
    by (auto simp: acquire_step_def step_outcome_def split: sum.splits)
next
  case (Finished res)
  then show ?thesis using assms(1) by (auto simp: acquire_step_def step_outcome_def)
qed

lemma held_outcome:
  assumes "held_root held b = Some root" and "stored_ok b" and "call_version call = Some (ls_version held)"
    and "fences r held" and "leases_of res \<subseteq> {held\<lparr>ls_expires := t\<rparr>}" and "field_ok endpoint"
  shows "proposal_ok call b (root\<lparr>r_lease_expires := t', r_owner_endpoint := endpoint\<rparr>) res"
    and "proposal_ok call b (root\<lparr>r_lease_expires := t'\<rparr>) res"
proof -
  note h = held_rootD [OF assms(1)]
  have "root_wf root" using assms(2) h(1) by (simp add: stored_ok_def)
  then show "proposal_ok call b (root\<lparr>r_lease_expires := t', r_owner_endpoint := endpoint\<rparr>) res"
    and "proposal_ok call b (root\<lparr>r_lease_expires := t'\<rparr>) res"
    using h assms(3-6) by (auto simp: proposal_ok_def advances_def root_wf_def fences_def dest!: subsetD)
qed

lemma renew_outcome:
  assumes "renew_step get cas db held ttl now ph s = (ph', s')" and "call = Renew held ttl now"
    and "phase_ok call ph" and "stored_ok (contents s (db_root_name db))" and "fences r held"
  shows "step_outcome contents (db_root_name db) call ph s ph' s'"
proof (cases ph)
  case Start
  show ?thesis
  proof (cases "get s (db_root_name db)")
    case (Inr b)
    have "proposal_ok call b (root\<lparr>r_lease_expires := now + ttl, r_owner_endpoint := ls_endpoint held\<rparr>) (Renewed (held\<lparr>ls_expires := now + ttl\<rparr>))"
      if "held_root held b = Some root" for root
      using held_outcome(1) [OF that _ _ assms(5)] get_contents [OF Inr] assms(2,4,5) by (simp add: fences_def)
    then show ?thesis using assms(1) Start Inr
      by (cases "held_root held b") (auto simp: renew_step_def step_outcome_def)
  qed (use assms(1) Start in \<open>auto simp: renew_step_def step_outcome_def\<close>)
next
  case (Swap b new res legacy)
  then show ?thesis using assms(1) outcome_swap [of "db_root_name db" "\<lambda>e. Refused (LeaseStore e)" b new res legacy s ph' s']
    by (simp add: renew_step_def)
qed (use assms(1,3) in \<open>auto simp: renew_step_def step_outcome_def\<close>)

lemma release_outcome:
  assumes "release_step get cas db held ph s = (ph', s')" and "call = Release held"
    and "phase_ok call ph" and "stored_ok (contents s (db_root_name db))" and "fences r held"
  shows "step_outcome contents (db_root_name db) call ph s ph' s'"
proof (cases ph)
  case Start
  show ?thesis
  proof (cases "get s (db_root_name db)")
    case (Inr b)
    have "proposal_ok call b (root\<lparr>r_lease_expires := 0\<rparr>) Released" if "held_root held b = Some root" for root
      using held_outcome(2) [OF that _ _ assms(5), of call Released 0 "[]" 0] get_contents [OF Inr] assms(2,4,5)
      by (simp add: fences_def field_ok_def valid_str_ascii line_safe_def)
    then show ?thesis using assms(1) Start Inr
      by (cases "held_root held b") (auto simp: release_step_def step_outcome_def)
  qed (use assms(1) Start in \<open>auto simp: release_step_def step_outcome_def\<close>)
next
  case (Swap b new res legacy)
  then show ?thesis using assms(1) outcome_swap [of "db_root_name db" "\<lambda>e. Refused (LeaseStore e)" b new res legacy s ph' s']
    by (simp add: release_step_def)
qed (use assms(1,3) in \<open>auto simp: release_step_def step_outcome_def\<close>)

lemma publish_outcome:
  assumes "publish_step get cas name root pinned ph s = (ph', s')" and "call = Publish root pinned"
    and "phase_ok call ph" and "stored_ok (contents s name)" and "root_wf root"
  shows "step_outcome contents name call ph s ph' s'"
proof (cases ph)
  case Start
  show ?thesis
  proof (cases "get s name")
    case (Inr b)
    have "proposal_ok call b new (Published Installed)" if "publish_next root pinned (Option.bind b root_decode) = Inr new" for new
      using publish_proposal [OF that assms(5)] get_contents [OF Inr] assms(2,4) by (auto simp: stored_ok_def proposal_ok_def)
    moreover have "leases_of res = {}" if "publish_next root pinned stored = Inl res" for res stored
      using that by (auto simp: publish_next_def Let_def split: if_splits option.splits)
    ultimately show ?thesis using assms(1) Start Inr
      by (cases "publish_next root pinned (Option.bind b root_decode)") (auto simp: publish_step_def step_outcome_def)
  qed (use assms(1) Start in \<open>auto simp: publish_step_def step_outcome_def\<close>)
next
  case (Swap b new res legacy)
  then show ?thesis using assms(1) outcome_swap [of name StoreFailed b new res legacy s ph' s']
    by (simp add: publish_step_def)
qed (use assms(1,3) in \<open>auto simp: publish_step_def step_outcome_def\<close>)

lemma verify_outcome:
  assumes "verify_step get db held ph s = (ph', s')" and "phase_ok call ph"
  shows "step_outcome contents (db_root_name db) call ph s ph' s'"
  using assms by (cases ph) (auto simp: verify_step_def step_outcome_def split: sum.splits if_splits)

lemma lease_step_outcome:
  assumes "lease_step get cas del db call ph s = (ph', s')" and "call_allowed G call" and "\<forall>l \<in> G. \<exists>r. fences r l"
    and "phase_ok call ph" and "stored_ok (contents s (db_root_name db))" and "fence_room contents db ph s"
  shows "step_outcome contents (db_root_name db) call ph s ph' s'"
proof (cases call)
  case (Acquire owner endpoint ttl now)
  then show ?thesis using assms acquire_outcome [OF _ refl] by (simp add: lease_step_def)
next
  case (Renew held ttl now)
  then obtain r where "fences r held" using assms(2,3) by (auto simp: call_allowed_def)
  then show ?thesis using assms renew_outcome [OF _ refl] Renew by (simp add: lease_step_def)
next
  case (Verify held)
  then show ?thesis using assms verify_outcome by (simp add: lease_step_def)
next
  case (Release held)
  then obtain r where "fences r held" using assms(2,3) by (auto simp: call_allowed_def)
  then show ?thesis using assms release_outcome [OF _ refl] Release by (simp add: lease_step_def)
next
  case (Publish root pinned)
  then have "root_wf root" using assms(2) by (simp add: call_allowed_def)
  then show ?thesis using assms publish_outcome [OF _ refl] Publish by (simp add: lease_step_def)
qed

end

lemma system_leases_update:
  "system_leases \<lparr>sy_store = s', sy_procs = (sy_procs y)(p \<mapsto> (call, ph')), sy_granted = sy_granted y \<union> grants_of ph'\<rparr>
    \<subseteq> system_leases y \<union> shown ph'"
proof -
  have "grants_of ph' \<subseteq> shown ph'" by (cases ph' rule: shown.cases) auto
  then show ?thesis by (auto simp: system_leases_def split: if_splits)
qed

lemma shown_system: "sy_procs y p = Some (call, ph) \<Longrightarrow> shown ph \<subseteq> system_leases y"
  by (auto simp: system_leases_def)

lemma granted_system: "sy_granted y \<subseteq> system_leases y"
  by (auto simp: system_leases_def)

lemma lease_inv_stored: "lease_inv contents db y \<Longrightarrow> stored_ok (contents (sy_store y) (db_root_name db))"
  by (simp add: lease_inv_def)

lemma lease_inv_proc:
  "lease_inv contents db y \<Longrightarrow> sy_procs y p = Some (call, ph) \<Longrightarrow> call_allowed (sy_granted y) call \<and> phase_ok call ph"
  unfolding lease_inv_def by blast

lemma lease_inv_fences:
  "lease_inv contents db y \<Longrightarrow> l \<in> system_leases y \<Longrightarrow>
    \<exists>r. Option.bind (contents (sy_store y) (db_root_name db)) root_decode = Some r \<and> fences r l"
  unfolding lease_inv_def by blast

lemma lease_inv_unique:
  "lease_inv contents db y \<Longrightarrow> l \<in> system_leases y \<Longrightarrow> l' \<in> system_leases y \<Longrightarrow> ls_version l = ls_version l' \<Longrightarrow>
    ls_owner l = ls_owner l'"
  unfolding lease_inv_def by blast

lemma lease_invI:
  assumes "stored_ok (contents (sy_store y) (db_root_name db))"
    and "\<And>p call ph. sy_procs y p = Some (call, ph) \<Longrightarrow> call_allowed (sy_granted y) call \<and> phase_ok call ph"
    and "\<And>l. l \<in> system_leases y \<Longrightarrow> \<exists>r. Option.bind (contents (sy_store y) (db_root_name db)) root_decode = Some r \<and> fences r l"
    and "\<And>l l'. l \<in> system_leases y \<Longrightarrow> l' \<in> system_leases y \<Longrightarrow> ls_version l = ls_version l' \<Longrightarrow> ls_owner l = ls_owner l'"
  shows "lease_inv contents db y"
  using assms unfolding lease_inv_def by blast

text \<open>A new lease beside the old ones, under a record that advances.\<close>

lemma new_lease_unique:
  assumes "fences r l" and "advances (Some r) new" and "fences new l'" and "ls_version l' = r_lease_version new"
    and "ls_version l = ls_version l'"
  shows "ls_owner l = ls_owner l'"
proof -
  have le: "r_lease_version r \<le> r_lease_version new" using assms(2) by (auto simp: advances_def)
  have new: "ls_owner l' = r_owner new" using assms(3,4) by (simp add: fences_def)
  have "\<not> ls_version l < r_lease_version r" using le assms(4,5) by simp
  then have l: "ls_version l = r_lease_version r" "ls_owner l = r_owner r" "r_owner r \<noteq> []"
    using assms(1) unfolding fences_def by (blast, metis, metis)
  then have "\<not> r_lease_version r < r_lease_version new" using assms(4,5) by simp
  then have "r_owner new = r_owner r" using assms(2) l(3) by (simp add: advances_def)
  then show ?thesis using new l by simp
qed

context root_store
begin

lemma lease_inv_step:
  assumes inv: "lease_inv contents db y" and p: "sy_procs y p = Some (call, ph)"
    and "fence_room contents db ph (sy_store y)" and "lease_step get cas del db call ph (sy_store y) = (ph', s')"
  defines "y' \<equiv> \<lparr>sy_store = s', sy_procs = (sy_procs y)(p \<mapsto> (call, ph')), sy_granted = sy_granted y \<union> grants_of ph'\<rparr>"
  shows "lease_inv contents db y'"
proof -
  let ?N = "db_root_name db"
  note proc = lease_inv_proc [OF inv p] and stored = lease_inv_stored [OF inv]
  have "\<forall>l \<in> sy_granted y. \<exists>r. fences r l" using lease_inv_fences [OF inv] granted_system by blast
  from lease_step_outcome [OF assms(4) proc [THEN conjunct1] this proc [THEN conjunct2] stored assms(3)]
  have out: "step_outcome contents ?N call ph (sy_store y) ph' s'" .
  have allowed: "call_allowed (sy_granted y') c" if "sy_procs y q = Some (c, h)" for q c h
    using call_allowed_mono lease_inv_proc [OF inv that] by (auto simp: y'_def)
  have leases: "system_leases y' \<subseteq> system_leases y \<union> shown ph'" unfolding y'_def by (rule system_leases_update)
  show ?thesis
  proof (cases "contents s' ?N = contents (sy_store y) ?N \<and> phase_ok call ph' \<and> shown ph' \<subseteq> shown ph")
    case True
    then have sub: "system_leases y' \<subseteq> system_leases y" using leases shown_system [OF p] by blast
    have same: "contents (sy_store y') ?N = contents (sy_store y) ?N" using True by (simp add: y'_def)
    show ?thesis
    proof (rule lease_invI)
      show "call_allowed (sy_granted y') c \<and> phase_ok c h" if "sy_procs y' q = Some (c, h)" for q c h
        using that allowed p lease_inv_proc [OF inv] True by (cases "q = p") (auto simp: y'_def)
      show "stored_ok (contents (sy_store y') ?N)" using stored same by simp
      show "\<exists>r. Option.bind (contents (sy_store y') ?N) root_decode = Some r \<and> fences r l" if "l \<in> system_leases y'" for l
        unfolding same using that sub lease_inv_fences [OF inv] by blast
      show "ls_owner l = ls_owner l'" if "l \<in> system_leases y'" "l' \<in> system_leases y'" "ls_version l = ls_version l'" for l l'
        using that sub lease_inv_unique [OF inv] by blast
    qed
  next
    case False
    then obtain b new res legacy where sw: "ph = Swap b new res legacy" "contents (sy_store y) ?N = b"
        "contents s' ?N = Some (root_encode new)" "ph' = DropLegacy res \<or> ph' = Finished res"
      using out by (auto simp: step_outcome_def)
    have wf: "root_wf new" "advances (Option.bind b root_decode) new"
        "\<And>l. l \<in> leases_of res \<Longrightarrow> ls_version l = r_lease_version new \<and> fences new l"
      using proc by (simp_all add: sw(1) proposal_ok_def)
    have root: "Option.bind (contents s' ?N) root_decode = Some new" by (simp add: sw(3) root_decode_encode [OF wf(1)])
    have leases: "system_leases y' \<subseteq> system_leases y \<union> leases_of res" using leases sw(4) by auto
    have old: "\<exists>r. fences r l \<and> advances (Some r) new" if "l \<in> system_leases y" for l
      using lease_inv_fences [OF inv that] wf(2) by (auto simp: sw(2))
    show ?thesis
    proof (rule lease_invI)
      show "stored_ok (contents (sy_store y') ?N)" using stored_ok_encode [OF wf(1)] sw(3) by (simp add: y'_def)
      show "call_allowed (sy_granted y') c \<and> phase_ok c h" if "sy_procs y' q = Some (c, h)" for q c h
        using that allowed p lease_inv_proc [OF inv] sw(4) by (auto simp: y'_def split: if_splits)
      show "\<exists>r. Option.bind (contents (sy_store y') ?N) root_decode = Some r \<and> fences r l" if "l \<in> system_leases y'" for l
      proof -
        have "fences new l" using that leases old wf(3) fences_advance by blast
        then show ?thesis using root by (simp add: y'_def)
      qed
      show "ls_owner l = ls_owner l'" if "l \<in> system_leases y'" "l' \<in> system_leases y'" "ls_version l = ls_version l'" for l l'
      proof -
        have one: "leases_of res \<subseteq> {k}" if "k \<in> leases_of res" for k using that by (cases res) auto
        have new: "ls_owner k = ls_owner k'" if "k \<in> system_leases y" "k' \<in> leases_of res" "ls_version k = ls_version k'" for k k'
          using old [OF that(1)] wf(3) [OF that(2)] that(3) new_lease_unique by blast
        from that leases consider "l \<in> system_leases y" "l' \<in> system_leases y" | "l \<in> system_leases y" "l' \<in> leases_of res"
          | "l \<in> leases_of res" "l' \<in> system_leases y" | "l \<in> leases_of res" "l' \<in> leases_of res" by blast
        then show ?thesis
        proof cases
          case 1
          then show ?thesis using lease_inv_unique [OF inv] that(3) by blast
        next
          case 2
          then show ?thesis using new that(3) by blast
        next
          case 3
          then show ?thesis using new [of l' l] that(3) by simp
        next
          case 4
          then show ?thesis using one by auto
        qed
      qed
    qed
  qed
qed

end

context root_store
begin

lemma lease_inv_trans: "lease_trans get cas del contents db y y' \<Longrightarrow> lease_inv contents db y \<Longrightarrow> lease_inv contents db y'"
proof (induction rule: lease_trans.induct)
  case (trans_begin y call p)
  let ?y = "y\<lparr>sy_procs := (sy_procs y)(p \<mapsto> (call, Start))\<rparr>"
  have sub: "system_leases ?y \<subseteq> system_leases y" by (auto simp: system_leases_def split: if_splits)
  show ?case
  proof (rule lease_invI)
    show "stored_ok (contents (sy_store ?y) (db_root_name db))" using lease_inv_stored [OF trans_begin.prems] by simp
    show "call_allowed (sy_granted ?y) c \<and> phase_ok c h" if "sy_procs ?y q = Some (c, h)" for q c h
      using that trans_begin.hyps(1) lease_inv_proc [OF trans_begin.prems, of q] by (cases "q = p") auto
    show "\<exists>r. Option.bind (contents (sy_store ?y) (db_root_name db)) root_decode = Some r \<and> fences r l" if "l \<in> system_leases ?y" for l
      using that sub lease_inv_fences [OF trans_begin.prems] by auto
    show "ls_owner l = ls_owner l'" if "l \<in> system_leases ?y" "l' \<in> system_leases ?y" "ls_version l = ls_version l'" for l l'
      using that sub lease_inv_unique [OF trans_begin.prems] by blast
  qed
next
  case (trans_step y p call ph ph' s')
  then show ?case using lease_inv_step by blast
qed

lemma lease_inv_reach: "(lease_trans get cas del contents db)\<^sup>*\<^sup>* y y' \<Longrightarrow> lease_inv contents db y \<Longrightarrow> lease_inv contents db y'"
  by (induction rule: rtranclp_induct) (blast intro: lease_inv_trans)+

text \<open>The fencing version of the record never goes back.\<close>

lemma version_grows:
  assumes "lease_trans get cas del contents db y y'" and "lease_inv contents db y"
    and "Option.bind (contents (sy_store y) (db_root_name db)) root_decode = Some r"
  shows "\<exists>r'. Option.bind (contents (sy_store y') (db_root_name db)) root_decode = Some r' \<and> r_lease_version r \<le> r_lease_version r'"
  using assms
proof cases
  case (trans_step p call ph ph' s')
  note proc = lease_inv_proc [OF assms(2) trans_step(2)]
  have "\<forall>l \<in> sy_granted y. \<exists>r. fences r l" using lease_inv_fences [OF assms(2)] granted_system by blast
  from lease_step_outcome [OF trans_step(5) proc [THEN conjunct1] this proc [THEN conjunct2] lease_inv_stored [OF assms(2)] trans_step(4)]
  consider "contents s' (db_root_name db) = contents (sy_store y) (db_root_name db)"
    | b new res legacy where "ph = Swap b new res legacy" "contents (sy_store y) (db_root_name db) = b"
        "contents s' (db_root_name db) = Some (root_encode new)"
    by (auto simp: step_outcome_def)
  then show ?thesis
  proof cases
    case 1
    then show ?thesis using assms(3) trans_step(1) by auto
  next
    case 2
    then have "root_wf new" "advances (Some r) new" using proc assms(3) by (auto simp: proposal_ok_def)
    then show ?thesis using 2(3) trans_step(1) by (auto simp: root_decode_encode advances_def)
  qed
qed auto

lemma version_grows_reach:
  "(lease_trans get cas del contents db)\<^sup>*\<^sup>* y y' \<Longrightarrow> lease_inv contents db y \<Longrightarrow>
    Option.bind (contents (sy_store y) (db_root_name db)) root_decode = Some r \<Longrightarrow>
    \<exists>r'. Option.bind (contents (sy_store y') (db_root_name db)) root_decode = Some r' \<and> r_lease_version r \<le> r_lease_version r'"
proof (induction rule: rtranclp_induct)
  case (step y1 y2)
  obtain r1 where r1: "Option.bind (contents (sy_store y1) (db_root_name db)) root_decode = Some r1" "r_lease_version r \<le> r_lease_version r1"
    using step by blast
  from version_grows [OF step.hyps(2) lease_inv_reach [OF step.hyps(1) step.prems(1)] r1(1)] r1(2) show ?case
    using order_trans by blast
qed auto

end

text \<open>An operation that came to nothing.\<close>

fun failed :: "lease_result \<Rightarrow> bool" where
  "failed (Refused _) = True"
| "failed (Deposed _) = True"
| "failed (StoreFailed _) = True"
| "failed (Published Raced) = True"
| "failed _ = False"

context root_store
begin

lemma deposed_step:
  assumes "lease_step get cas del db call ph s = (ph', s')" and "phase_ok call ph" and "call_version call = Some v"
    and "Option.bind (contents s (db_root_name db)) root_decode = Some r" and "v < r_lease_version r"
    and "\<not> (\<exists>res. ph = Finished res)"
  shows "s' = s \<and> (\<forall>res. ph' = Finished res \<longrightarrow> failed res)"
proof -
  have stale: "contents s (db_root_name db) \<noteq> b" if "ph = Swap b new res legacy" for b new res legacy
    using that assms(2,3,4,5) by (force simp: proposal_ok_def)
  have swap: "s' = s \<and> (\<forall>res. ph' = Finished res \<longrightarrow> failed res)"
    if "ph = Swap b new res legacy" "swap_step cas (db_root_name db) fail b new res legacy s = (ph', s')" "\<And>e. failed (fail e)"
    for b new res legacy fail
    using swap_outcome [OF that(2)] stale [OF that(1)] that(3) by auto
  have lost: "held_root held b = None" if "get s (db_root_name db) = Inr b" "ls_version held = v" for held b
    using get_contents [OF that(1)] that(2) assms(4,5) by (auto simp: held_root_def split: option.splits)
  show ?thesis
  proof (cases call)
    case (Acquire owner endpoint ttl now)
    then show ?thesis using assms(3) by simp
  next
    case (Renew held ttl now)
    then show ?thesis using assms(1,3,6) swap lost
      by (cases ph) (auto simp: lease_step_def renew_step_def split: sum.splits)
  next
    case (Verify held)
    then show ?thesis using assms(1,3,6) lost
      by (cases ph) (auto simp: lease_step_def verify_step_def split: sum.splits)
  next
    case (Release held)
    then show ?thesis using assms(1,3,6) swap lost
      by (cases ph) (auto simp: lease_step_def release_step_def split: sum.splits)
  next
    case (Publish root pinned)
    have "\<exists>res. publish_next root pinned (Some r) = Inl res \<and> failed res"
      using assms(3,5) Publish by (auto simp: publish_next_def Let_def)
    moreover have "Option.bind b root_decode = Some r" if "get s (db_root_name db) = Inr b" for b
      using get_contents [OF that] assms(4) by simp
    ultimately show ?thesis using assms(1,6) swap Publish
      by (cases ph) (auto simp: lease_step_def publish_step_def split: sum.splits)
  qed
qed

end

subsection \<open>The in-memory store keeps the contract\<close>

definition mem_roots :: "memory_store \<Rightarrow> string \<Rightarrow> bytes option" where
  "mem_roots s = om_get (ms_roots s)"

interpretation mem_fence: root_store mem_roots mem_get_root mem_cas_root mem_delete_root
  by unfold_locales
    (auto simp: mem_roots_def mem_get_root_def mem_cas_root_def mem_delete_root_def Let_def fun_eq_iff split: if_splits)

abbreviation mem_step :: "string \<Rightarrow> lease_call \<Rightarrow> phase \<Rightarrow> memory_store \<Rightarrow> phase \<times> memory_store" where
  "mem_step \<equiv> lease_step mem_get_root mem_cas_root mem_delete_root"

abbreviation mem_trans :: "string \<Rightarrow> memory_store lease_system \<Rightarrow> memory_store lease_system \<Rightarrow> bool" where
  "mem_trans \<equiv> lease_trans mem_get_root mem_cas_root mem_delete_root mem_roots"

subsection \<open>A call on its own\<close>

definition root_stored :: "string \<Rightarrow> db_root \<Rightarrow> memory_store \<Rightarrow> memory_store" where
  "root_stored db r s = s\<lparr>ms_roots := om_insert (db_root_name db) (root_encode r) (ms_roots s)\<rparr>"

definition legacy_dropped :: "string \<Rightarrow> memory_store \<Rightarrow> memory_store" where
  "legacy_dropped db s = s\<lparr>ms_roots := om_remove (lease_root db) (ms_roots s)\<rparr>"

lemma mem_roots_stored [simp]:
  "mem_roots (root_stored db r s) (db_root_name db) = Some (root_encode r)"
  "mem_roots (root_stored db r s) (lease_root db) = mem_roots s (lease_root db)"
  "mem_roots (legacy_dropped db s) (db_root_name db) = mem_roots s (db_root_name db)"
  by (simp_all add: mem_roots_def root_stored_def legacy_dropped_def)

lemma mem_swap:
  "swap_step mem_cas_root (db_root_name db) fail (mem_roots s (db_root_name db)) new res legacy s =
    (if legacy then DropLegacy res else Finished res, root_stored db new s)"
  by (simp add: swap_step_def mem_cas_root_def mem_roots_def root_stored_def)

lemma run_Suc: "\<not> (\<exists>r. ph = Finished r) \<Longrightarrow> run_call (Suc n) step ph s = (case step ph s of (ph, s) \<Rightarrow> run_call n step ph s)"
  by (cases ph) simp_all

lemma acquire_alone:
  fixes s db owner endpoint ttl now
  defines "current \<equiv> Option.bind (mem_roots s (db_root_name db)) root_decode"
    and "legacy \<equiv> Option.bind (mem_roots s (lease_root db)) decode_legacy"
  shows "run_call 4 (mem_step db (Acquire owner endpoint ttl now)) Start s =
    (case acquire_version (holder current legacy) owner now of
       Inl e \<Rightarrow> Some (Refused e, s)
     | Inr version \<Rightarrow>
        Some (Acquired \<lparr>ls_owner = owner, ls_version = version, ls_expires = now + ttl, ls_endpoint = endpoint\<rparr>,
          let s = root_stored db (acquired_root current owner endpoint ttl now version) s
          in if legacy \<noteq> None then legacy_dropped db s else s))"
  by (simp add: numeral_eq_Suc run_Suc lease_step_def acquire_step_def mem_get_root_def mem_roots_def [symmetric] current_def [symmetric]
      legacy_def [symmetric] mem_swap mem_delete_root_def legacy_dropped_def [symmetric] Let_def split: sum.split)

lemma held_alone:
  "run_call 4 (mem_step db (Verify held)) Start s =
     Some (if held_root held (mem_roots s (db_root_name db)) = None then Refused Lost else Verified, s)"
  "run_call 4 (mem_step db (Renew held ttl now)) Start s = Some (case held_root held (mem_roots s (db_root_name db)) of
       None \<Rightarrow> (Refused Lost, s)
     | Some root \<Rightarrow> (Renewed (held\<lparr>ls_expires := now + ttl\<rparr>),
         root_stored db (root\<lparr>r_lease_expires := now + ttl, r_owner_endpoint := ls_endpoint held\<rparr>) s))"
  "run_call 4 (mem_step db (Release held)) Start s = Some (case held_root held (mem_roots s (db_root_name db)) of
       None \<Rightarrow> (Refused Lost, s)
     | Some root \<Rightarrow> (Released, root_stored db (root\<lparr>r_lease_expires := 0\<rparr>) s))"
  "run_call 4 (mem_step db (Publish root pinned)) Start s =
     Some (case publish_next root pinned (Option.bind (mem_roots s (db_root_name db)) root_decode) of
       Inl r \<Rightarrow> (r, s) | Inr new \<Rightarrow> (Published Installed, root_stored db new s))"
  by (simp_all add: numeral_eq_Suc run_Suc lease_step_def verify_step_def renew_step_def release_step_def publish_step_def
      mem_get_root_def mem_roots_def [symmetric] mem_swap split: option.split sum.split)

text \<open>
  C2. Fencing. Processes acquire, renew, verify, release and publish in any interleaving of their
  awaits, retries included. No two owners are ever granted the same fencing version. Once a
  lease with a newer version has been granted, whoever still acts under the older one changes
  nothing, from any await of any operation, and every such operation ends in failure: no
  verification, no renewal, no release and no publication succeeds.
\<close>

theorem lease_fencing:
  assumes "lease_start mem_roots db y0" and "(mem_trans db)\<^sup>*\<^sup>* y0 y"
  shows "(\<forall>l \<in> sy_granted y. \<forall>l' \<in> sy_granted y. ls_version l = ls_version l' \<longrightarrow> ls_owner l = ls_owner l') \<and>
    (\<forall>l \<in> sy_granted y. \<forall>l' \<in> sy_granted y. ls_version l < ls_version l' \<longrightarrow>
      (\<forall>y' p call ph ph' s'. (mem_trans db)\<^sup>*\<^sup>* y y' \<longrightarrow> sy_procs y' p = Some (call, ph) \<longrightarrow> \<not> (\<exists>r. ph = Finished r) \<longrightarrow>
        call_version call = Some (ls_version l) \<longrightarrow> mem_step db call ph (sy_store y') = (ph', s') \<longrightarrow>
        s' = sy_store y' \<and> (\<forall>r. ph' = Finished r \<longrightarrow> failed r)))"
proof (intro conjI ballI impI allI)
  have inv: "lease_inv mem_roots db y" by (rule mem_fence.lease_inv_reach [OF assms(2) lease_inv_start [OF assms(1)]])
  show "ls_owner l = ls_owner l'" if "l \<in> sy_granted y" "l' \<in> sy_granted y" "ls_version l = ls_version l'" for l l'
    using lease_inv_unique [OF inv _ _ that(3)] granted_system that by blast
  fix l l' y' p call ph ph' s'
  assume l: "l' \<in> sy_granted y" "ls_version l < ls_version l'" and reach: "(mem_trans db)\<^sup>*\<^sup>* y y'"
    and p: "sy_procs y' p = Some (call, ph)" "\<not> (\<exists>r. ph = Finished r)" "call_version call = Some (ls_version l)"
      "mem_step db call ph (sy_store y') = (ph', s')"
  obtain r where r: "Option.bind (mem_roots (sy_store y) (db_root_name db)) root_decode = Some r" "fences r l'"
    using lease_inv_fences [OF inv] granted_system l(1) by blast
  obtain r' where r': "Option.bind (mem_roots (sy_store y') (db_root_name db)) root_decode = Some r'" "r_lease_version r \<le> r_lease_version r'"
    using mem_fence.version_grows_reach [OF reach inv r(1)] by blast
  have "ls_version l' \<le> r_lease_version r" using r(2) by (auto simp: fences_def)
  then have "ls_version l < r_lease_version r'" using l(2) r'(2) by simp
  note stale = mem_fence.deposed_step [OF p(4) lease_inv_proc [OF mem_fence.lease_inv_reach [OF reach inv] p(1), THEN conjunct2] p(3) r'(1) this p(2)]
  show "s' = sy_store y'" using stale by blast
  show "failed r" if "ph' = Finished r" for r using stale that by blast
qed

text \<open>An acquisition that runs to its end without interference.\<close>

lemma acquire_reaches:
  fixes y db owner endpoint ttl now version
  defines "current \<equiv> Option.bind (mem_roots (sy_store y) (db_root_name db)) root_decode"
    and "l \<equiv> \<lparr>ls_owner = owner, ls_version = version, ls_expires = now + ttl, ls_endpoint = endpoint\<rparr>"
  assumes "call_allowed (sy_granted y) (Acquire owner endpoint ttl now)" and "sy_procs y p = None"
    and "mem_roots (sy_store y) (lease_root db) = None" and "acquire_version (holder current None) owner now = Inr version"
    and "fst (snd (holder current None)) + 1 \<noteq> 0"
  shows "(mem_trans db)\<^sup>*\<^sup>* y
    \<lparr>sy_store = root_stored db (acquired_root current owner endpoint ttl now version) (sy_store y),
     sy_procs = (sy_procs y)(p \<mapsto> (Acquire owner endpoint ttl now, Finished (Acquired l))), sy_granted = sy_granted y \<union> {l}\<rparr>"
proof -
  let ?c = "Acquire owner endpoint ttl now" and ?b = "mem_roots (sy_store y) (db_root_name db)"
  let ?new = "acquired_root current owner endpoint ttl now version"
  let ?at = "\<lambda>ph. \<lparr>sy_store = sy_store y, sy_procs = (sy_procs y)(p \<mapsto> (?c, ph)), sy_granted = sy_granted y\<rparr>"
  have 1: "mem_trans db y (?at Start)"
    using trans_begin [of y ?c p mem_get_root mem_cas_root mem_delete_root mem_roots db] assms(3,4)
    by (cases y) (simp add: lease_system.defs)
  have 2: "mem_trans db (?at Start) (?at (HaveRoot ?b))"
    using trans_step [of "?at Start" p ?c Start mem_roots db mem_get_root mem_cas_root mem_delete_root "HaveRoot ?b" "sy_store y"]
    by (simp add: fence_room_def lease_step_def acquire_step_def mem_get_root_def mem_roots_def)
  have 3: "mem_trans db (?at (HaveRoot ?b)) (?at (Swap ?b ?new (Acquired l) False))"
    using trans_step [of "?at (HaveRoot ?b)" p ?c "HaveRoot ?b" mem_roots db mem_get_root mem_cas_root mem_delete_root
        "Swap ?b ?new (Acquired l) False" "sy_store y"] assms(5,6,7)
    by (simp add: fence_room_def lease_step_def acquire_step_def mem_get_root_def mem_roots_def [symmetric] current_def l_def Let_def)
  have 4: "mem_trans db (?at (Swap ?b ?new (Acquired l) False))
    \<lparr>sy_store = root_stored db ?new (sy_store y), sy_procs = (sy_procs y)(p \<mapsto> (?c, Finished (Acquired l))), sy_granted = sy_granted y \<union> {l}\<rparr>"
    using trans_step [of "?at (Swap ?b ?new (Acquired l) False)" p ?c "Swap ?b ?new (Acquired l) False" mem_roots db
        mem_get_root mem_cas_root mem_delete_root "Finished (Acquired l)" "root_stored db ?new (sy_store y)"]
    by (simp add: fence_room_def lease_step_def acquire_step_def mem_swap)
  from 1 2 3 4 show ?thesis by (meson converse_rtranclp_into_rtranclp r_into_rtranclp)
qed

definition wit_system :: "memory_store lease_system" where
  "wit_system = \<lparr>sy_store = memory_new, sy_procs = Map.empty, sy_granted = {}\<rparr>"

definition wit_lease :: "string \<Rightarrow> u64 \<Rightarrow> i64 \<Rightarrow> lease" where
  "wit_lease owner version expires = \<lparr>ls_owner = owner, ls_version = version, ls_expires = expires, ls_endpoint = []\<rparr>"

text \<open>What an indexing pass under version 1 publishes: no owner, no expiry and no endpoint.\<close>

definition wit_stale_root :: db_root where
  "wit_stale_root = (acquired_root None [] [] 0 0 1)\<lparr>r_index_basis_t := 5\<rparr>"

theorem lease_fencing_witness:
  "\<exists>y y'. (mem_trans ''db'')\<^sup>*\<^sup>* wit_system y \<and>
    sy_granted y = {wit_lease ''a'' 1 10, wit_lease ''b'' 2 30} \<and>
    (mem_trans ''db'')\<^sup>*\<^sup>* y y' \<and> sy_procs y' 0 = Some (Publish wit_stale_root None, Start) \<and>
    snd (mem_step ''db'' (Publish wit_stale_root None) Start (sy_store y')) = sy_store y'"
proof -
  define r1 where "r1 = acquired_root None ''a'' [] 10 0 1"
  define y1 where "y1 = \<lparr>sy_store = root_stored ''db'' r1 memory_new,
    sy_procs = [0 \<mapsto> (Acquire ''a'' [] 10 0, Finished (Acquired (wit_lease ''a'' 1 10)))], sy_granted = {wit_lease ''a'' 1 10}\<rparr>"
  define r2 where "r2 = acquired_root (Some r1) ''b'' [] 10 20 2"
  define y2 where "y2 = \<lparr>sy_store = root_stored ''db'' r2 (sy_store y1),
    sy_procs = (sy_procs y1)(1 \<mapsto> (Acquire ''b'' [] 10 20, Finished (Acquired (wit_lease ''b'' 2 30)))),
    sy_granted = sy_granted y1 \<union> {wit_lease ''b'' 2 30}\<rparr>"
  define y3 where "y3 = y2\<lparr>sy_procs := (sy_procs y2)(0 \<mapsto> (Publish wit_stale_root None, Start))\<rparr>"
  have ok: "field_ok ''a''" "field_ok ''b''" "field_ok []" by (simp_all add: field_ok_def valid_str_ascii line_safe_def)
  have mem: "mem_roots memory_new n = None" for n by (simp add: mem_roots_def memory_new_def)
  have wf: "root_wf r1" by (simp add: r1_def acquired_root_def root_wf_def ok)
  have f1: "r_owner r1 = ''a''" "r_lease_version r1 = 1" "r_lease_expires r1 = 10" by (simp_all add: r1_def acquired_root_def)
  have 1: "(mem_trans ''db'')\<^sup>*\<^sup>* wit_system y1"
    using acquire_reaches [of wit_system "''a''" "[]" 10 0 0 "''db''" 1] ok
    by (simp add: wit_system_def call_allowed_def mem holder_def acquire_version_def y1_def r1_def wit_lease_def)
  have root1: "Option.bind (mem_roots (sy_store y1) (db_root_name ''db'')) root_decode = Some r1"
    by (simp add: y1_def root_decode_encode [OF wf])
  have "acquire_version (holder (Some r1) None) ''b'' 20 = Inr 2"
    by (simp add: holder_def f1 acquire_version_def word_sless_alt)
  then have 2: "(mem_trans ''db'')\<^sup>*\<^sup>* y1 y2"
    using acquire_reaches [of y1 "''b''" "[]" 10 20 1 "''db''" 2, unfolded root1] ok
    by (simp add: call_allowed_def mem holder_def f1 y1_def y2_def r2_def wit_lease_def)
  have "root_wf wit_stale_root" by (simp add: wit_stale_root_def acquired_root_def root_wf_def ok)
  then have "mem_trans ''db'' y2 y3" unfolding y3_def
    by (intro trans_begin) (simp_all add: call_allowed_def y2_def y1_def)
  then have 3: "(mem_trans ''db'')\<^sup>*\<^sup>* y2 y3" by blast
  have start: "lease_start mem_roots ''db'' wit_system" by (simp add: lease_start_def wit_system_def mem stored_ok_def)
  have g: "sy_granted y2 = {wit_lease ''a'' 1 10, wit_lease ''b'' 2 30}" by (auto simp: y2_def y1_def)
  have p: "sy_procs y3 0 = Some (Publish wit_stale_root None, Start)" by (simp add: y3_def)
  have v: "call_version (Publish wit_stale_root None) = Some (ls_version (wit_lease ''a'' 1 10))"
    by (simp add: wit_stale_root_def acquired_root_def wit_lease_def)
  have "(1 :: u64) < 2" by simp
  then have "s' = sy_store y3" if "mem_step ''db'' (Publish wit_stale_root None) Start (sy_store y3) = (ph', s')" for ph' s'
    using lease_fencing [OF start rtranclp_trans [OF 1 2]] 3 p v that unfolding g by (simp add: wit_lease_def)
  then have "snd (mem_step ''db'' (Publish wit_stale_root None) Start (sy_store y3)) = sy_store y3" by (metis prod.collapse)
  with rtranclp_trans [OF 1 2] g 3 p show ?thesis by blast
qed

text \<open>
  Every call on its own returns within four awaits, and a lease that is free is taken: the
  version goes up exactly when the owner changes, the new lease verifies, no other owner gets
  it before it expires, and after a release any other owner takes the next version at once.
\<close>

theorem free_lease_is_taken:
  fixes s :: memory_store and db :: string
  defines "current \<equiv> holder (Option.bind (mem_roots s (db_root_name db)) root_decode)
      (Option.bind (mem_roots s (lease_root db)) decode_legacy)"
  assumes "owner \<noteq> []" "field_ok owner" "field_ok endpoint" "stored_ok (mem_roots s (db_root_name db))"
    and "fst current = owner \<or> \<not> now <s snd (snd current)" and "other \<noteq> owner" and "mem_roots s (lease_root db) = None"
  shows "(\<exists>r s'. run_call 4 (mem_step db call) Start s = Some (r, s')) \<and>
    (\<exists>l s' s''. run_call 4 (mem_step db (Acquire owner endpoint ttl now)) Start s = Some (Acquired l, s') \<and>
      ls_owner l = owner \<and> ls_version l = (if fst current = owner then fst (snd current) else fst (snd current) + 1) \<and>
      run_call 4 (mem_step db (Verify l)) Start s' = Some (Verified, s') \<and>
      (now' <s now + ttl \<longrightarrow> run_call 4 (mem_step db (Acquire other endpoint' ttl' now')) Start s' =
         Some (Refused (Held owner (now + ttl)), s')) \<and>
      run_call 4 (mem_step db (Release l)) Start s' = Some (Released, s'') \<and>
      (\<not> now' <s 0 \<longrightarrow> (\<exists>l' s'''. run_call 4 (mem_step db (Acquire other endpoint' ttl' now')) Start s'' = Some (Acquired l', s''') \<and>
         ls_owner l' = other \<and> ls_version l' = ls_version l + 1)))"
proof
  show "\<exists>r s'. run_call 4 (mem_step db call) Start s = Some (r, s')"
    by (cases call) (simp_all add: acquire_alone held_alone split: option.split sum.split)
next
  let ?N = "db_root_name db" and ?cur = "Option.bind (mem_roots s (db_root_name db)) root_decode"
  define version where "version = (if fst current = owner then fst (snd current) else fst (snd current) + 1)"
  define new where "new = acquired_root ?cur owner endpoint ttl now version"
  define l where "l = \<lparr>ls_owner = owner, ls_version = version, ls_expires = now + ttl, ls_endpoint = endpoint\<rparr>"
  define s' where "s' = root_stored db new s"
  define new' where "new' = new\<lparr>r_lease_expires := 0\<rparr>"
  have wf: "root_wf new" "root_wf new'"
    using assms(2-5) by (cases ?cur; auto simp: new'_def new_def acquired_root_def root_wf_def stored_ok_def)+
  have fields: "r_owner new = owner" "r_lease_version new = version" "r_lease_expires new = now + ttl"
      "r_owner new' = owner" "r_lease_version new' = version" "r_lease_expires new' = 0"
    by (simp_all add: new'_def new_def acquired_root_def)
  have v: "acquire_version current owner now = Inr version"
    using assms(2,6) by (cases current) (auto simp: acquire_version_def version_def)
  have acq: "run_call 4 (mem_step db (Acquire owner endpoint ttl now)) Start s = Some (Acquired l, s')"
    using assms(8) v by (simp add: acquire_alone current_def new_def l_def s'_def)
  have root: "Option.bind (mem_roots s' ?N) root_decode = Some new" by (simp add: s'_def root_decode_encode [OF wf(1)])
  have root': "Option.bind (mem_roots (root_stored db new' s') ?N) root_decode = Some new'" by (simp add: root_decode_encode [OF wf(2)])
  have held: "held_root l (mem_roots s' ?N) = Some new" using root by (simp add: held_root_def fields l_def)
  have none: "mem_roots s' (lease_root db) = None" "mem_roots (root_stored db new' s') (lease_root db) = None"
    using assms(8) by (simp_all add: s'_def)
  have other: "run_call 4 (mem_step db (Acquire other endpoint' ttl' now')) Start s' = Some (Refused (Held owner (now + ttl)), s')"
    if "now' <s now + ttl"
    using that assms(2,7) none root by (simp add: acquire_alone holder_def fields acquire_version_def)
  have rel: "run_call 4 (mem_step db (Release l)) Start s' = Some (Released, root_stored db new' s')"
    by (simp add: held_alone held new'_def)
  have after: "\<exists>l' s'''. run_call 4 (mem_step db (Acquire other endpoint' ttl' now')) Start (root_stored db new' s') = Some (Acquired l', s''') \<and>
      ls_owner l' = other \<and> ls_version l' = version + 1" if "\<not> now' <s 0"
    using that assms(2,7) none root' by (simp add: acquire_alone holder_def fields acquire_version_def)
  show "\<exists>l s' s''. run_call 4 (mem_step db (Acquire owner endpoint ttl now)) Start s = Some (Acquired l, s') \<and>
      ls_owner l = owner \<and> ls_version l = (if fst current = owner then fst (snd current) else fst (snd current) + 1) \<and>
      run_call 4 (mem_step db (Verify l)) Start s' = Some (Verified, s') \<and>
      (now' <s now + ttl \<longrightarrow> run_call 4 (mem_step db (Acquire other endpoint' ttl' now')) Start s' =
         Some (Refused (Held owner (now + ttl)), s')) \<and>
      run_call 4 (mem_step db (Release l)) Start s' = Some (Released, s'') \<and>
      (\<not> now' <s 0 \<longrightarrow> (\<exists>l' s'''. run_call 4 (mem_step db (Acquire other endpoint' ttl' now')) Start s'' = Some (Acquired l', s''') \<and>
         ls_owner l' = other \<and> ls_version l' = ls_version l + 1))"
    using acq other rel after held
    by (intro exI [of _ l] exI [of _ s'] exI [of _ "root_stored db new' s'"]) (simp add: held_alone version_def [symmetric] l_def)
qed

theorem free_lease_is_taken_witness:
  "\<exists>l s'. run_call 4 (mem_step ''db'' (Acquire ''a'' [] 10 0)) Start memory_new = Some (Acquired l, s') \<and> ls_version l = 1 \<and>
    run_call 4 (mem_step ''db'' (Acquire ''b'' [] 10 5)) Start s' = Some (Refused (Held ''a'' 10), s')"
proof -
  have "field_ok ''a''" "field_ok []" by (simp_all add: field_ok_def valid_str_ascii line_safe_def)
  moreover have "mem_roots memory_new n = None" for n by (simp add: mem_roots_def memory_new_def)
  moreover have "(5 :: i64) <s 10" by (simp add: word_sless_alt)
  ultimately show ?thesis
    using free_lease_is_taken [of "''a''" "[]" memory_new "''db''" 0 "''b''" "Verify (wit_lease [] 0 0)" 10 5 "[]" 10]
    by (auto simp: holder_def stored_ok_def)
qed

end
