(* ===== verification/Transactor.thy ===== *)
theory Transactor
  imports Tx_Prepare Tx_Log Lease
begin

text \<open>
  The embedded transactor (crates/corium-transactor/src/lib.rs): stamping and numbering a prepared
  transaction, allocation of entity ids and of the blocks leased to sagas, group commit over a
  private cursor, the commit itself, and recovery from the log. The log is a state with an append
  that returns a result and the state it leaves; an append that fails may have written the record.
  The wall clock is an argument, and the awaits of the asynchronous commit are separate steps.
\<close>

subsection \<open>Transaction time\<close>

definition i64_max :: "i64 \<Rightarrow> i64 \<Rightarrow> i64" where
  "i64_max a b = (if a \<le>s b then b else a)"

definition I64_MAX :: i64 where
  "I64_MAX = 2 ^ 63 - 1"

definition I64_MIN :: i64 where
  "I64_MIN = 2 ^ 63"

definition i64_saturating_succ :: "i64 \<Rightarrow> i64" where
  "i64_saturating_succ a = (if a = I64_MAX then a else a + 1)"

definition seal_tx_instant :: "datom list \<Rightarrow> u64 \<Rightarrow> i64 \<Rightarrow> i64 \<Rightarrow> tx_error + datom list \<times> i64" where
  "seal_tx_instant ds t now last_instant = (case asserted_instant t ds of
     Some supplied \<Rightarrow>
       if supplied \<le>s last_instant then Inl (TxInstantNotMonotonic supplied last_instant) else Inr (ds, supplied)
   | None \<Rightarrow>
       let instant = i64_max now (i64_saturating_succ last_instant)
       in Inr (ds @ [tx_instant_datom t instant], instant))"

definition effective_tx_instant :: "tx_record \<Rightarrow> i64" where
  "effective_tx_instant r = (case asserted_instant (tr_t r) (tr_datoms r) of None \<Rightarrow> tr_tx_instant r | Some i \<Rightarrow> i)"

subsection \<open>Entity ids\<close>

definition next_user_id :: "datom list \<Rightarrow> u64 \<Rightarrow> u64" where
  "next_user_id ds floor =
    fold (\<lambda>s m. max m s) (map (\<lambda>d. eid_sequence (d_e d) + 1) (filter (\<lambda>d. eid_partition (d_e d) = part_id PartUser) ds)) floor"

definition floor_past_grants :: "db \<Rightarrow> u64 \<Rightarrow> u64" where
  "floor_past_grants d next_user = max next_user (grant_ceiling d (part_id PartUser))"

definition grant_facts :: "tx_id \<Rightarrow> entity_id \<Rightarrow> entity_id \<Rightarrow> u64 \<Rightarrow> datom list" where
  "grant_facts tx saga grant start =
    [fact_datom tx True (saga, SAGA_ID_GRANTS, Ref grant),
     fact_datom tx True (grant, SAGA_GRANT_PARTITION, Long (ucast (part_id PartUser))),
     fact_datom tx True (grant, SAGA_GRANT_START, Long start),
     fact_datom tx True (grant, SAGA_GRANT_LENGTH, Long DEFAULT_ID_BLOCK)]"

text \<open>One block: an entity for the grant, then the ids it covers. \<open>unsigned_abs\<close> of the block length is the length.\<close>

definition grant_step :: "tx_id \<Rightarrow> entity_id \<Rightarrow> datom list \<times> u64 \<Rightarrow> datom list \<times> u64" where
  "grant_step tx saga = (\<lambda>(ds, next).
    let grant = eid_new (part_id PartUser) next;
        start = next + 1
    in (ds @ grant_facts tx saga grant start, saturating_add start DEFAULT_ID_BLOCK))"

definition lease_saga_grants :: "db \<Rightarrow> datom list \<Rightarrow> tx_id \<Rightarrow> u64 \<Rightarrow> datom list \<times> u64" where
  "lease_saga_grants before ds tx next =
    (let opened = filter (\<lambda>e. entry_at before e = None) (map d_e (filter (\<lambda>x. d_a x = SAGA_ID \<and> d_added x) ds))
     in fold (grant_step tx) opened (ds, next))"

definition advance_allocation :: "db \<Rightarrow> prepared_tx \<Rightarrow> tx_id \<Rightarrow> u64 \<Rightarrow> prepared_tx \<times> u64" where
  "advance_allocation before p tx next_user =
    (let next = fold (\<lambda>s m. max m s)
           (map (\<lambda>e. eid_sequence e + 1) (filter (\<lambda>e. eid_partition e = part_id PartUser) (om_values (pt_tempids p)))) next_user
     in case lease_saga_grants before (pt_datoms p) tx next of (ds, next) \<Rightarrow> (p\<lparr>pt_datoms := ds\<rparr>, next))"

subsection \<open>Group commit\<close>

record prepared =
  pr_record :: tx_record
  pr_db_before :: db
  pr_db_after :: db
  pr_tx :: prepared_tx
  pr_tx_instant :: i64

record batch_cursor =
  bc_db :: db
  bc_next_user :: u64
  bc_last_instant :: i64

text \<open>The cursor after the call comes with the result: a transaction refused by the clock has already taken its ids.\<close>

definition prepare_transaction ::
    "batch_cursor \<Rightarrow> tx_item list \<Rightarrow> i64 \<Rightarrow> branch_rules option \<Rightarrow> (tx_error + prepared) \<times> batch_cursor" where
  "prepare_transaction c items now rules =
    (let before = bc_db c; t = db_basis_t before + 1; tx = tx_entity t
     in case bindr (prepare before items tx (bc_next_user c)) (\<lambda>p.
              case rules of
                None \<Rightarrow> Inr p
              | Some rules \<Rightarrow> (case validate_step (pt_datoms p) rules of Inl v \<Rightarrow> Inl (StepRefused v) | Inr _ \<Rightarrow> Inr p)) of
          Inl e \<Rightarrow> (Inl e, c)
        | Inr p \<Rightarrow> (case advance_allocation before p tx (bc_next_user c) of (p, next) \<Rightarrow>
            (case seal_tx_instant (pt_datoms p) t now (bc_last_instant c) of
               Inl e \<Rightarrow> (Inl e, c\<lparr>bc_next_user := next\<rparr>)
             | Inr (ds, instant) \<Rightarrow>
                 let after = with_transaction_at t instant ds before
                 in (Inr \<lparr>pr_record = \<lparr>tr_t = t, tr_tx_instant = instant, tr_datoms = ds\<rparr>, pr_db_before = before,
                         pr_db_after = after, pr_tx = p\<lparr>pt_datoms := ds\<rparr>, pr_tx_instant = instant\<rparr>,
                     \<lparr>bc_db = after, bc_next_user = next, bc_last_instant = instant\<rparr>))))"

definition cursor_prepare :: "batch_cursor \<Rightarrow> tx_item list \<Rightarrow> i64 \<Rightarrow> (tx_error + prepared) \<times> batch_cursor" where
  "cursor_prepare c items now = prepare_transaction c items now None"

definition prepare_step :: "batch_cursor \<Rightarrow> tx_item list \<Rightarrow> i64 \<Rightarrow> branch_rules \<Rightarrow> (tx_error + prepared) \<times> batch_cursor" where
  "prepare_step c items now rules = prepare_transaction c items now (Some rules)"

definition intern_naming :: "batch_cursor \<Rightarrow> keyword_interner \<Rightarrow> local_keywords \<Rightarrow> batch_cursor" where
  "intern_naming c i l = c\<lparr>bc_db := with_naming (db_idents (bc_db c)) i l (bc_db c)\<rparr>"

definition prepare_datoms :: "batch_cursor \<Rightarrow> datom list \<Rightarrow> i64 \<Rightarrow> (tx_error + prepared) \<times> batch_cursor" where
  "prepare_datoms c ds now =
    (let before = bc_db c; t = db_basis_t before + 1
     in case seal_tx_instant ds t now (bc_last_instant c) of
          Inl e \<Rightarrow> (Inl e, c)
        | Inr (ds, instant) \<Rightarrow>
            let after = with_transaction_at t instant ds before
            in (Inr \<lparr>pr_record = \<lparr>tr_t = t, tr_tx_instant = instant, tr_datoms = ds\<rparr>, pr_db_before = before,
                    pr_db_after = after, pr_tx = \<lparr>pt_datoms = ds, pt_tempids = om_empty\<rparr>, pr_tx_instant = instant\<rparr>,
                c\<lparr>bc_db := after, bc_last_instant := instant\<rparr>))"

subsection \<open>The transactor\<close>

datatype transact_error =
    TxRejected tx_error
  | LogFailed log_error
  | StoreFailed store_error
  | ClockBeforeEpoch
  | IndexTask string
  | AsyncTransactionPending
  | DeposedBy u64

record tx_report =
  rp_db_before :: db
  rp_db_after :: db
  rp_tx :: prepared_tx
  rp_tx_instant :: i64

text \<open>A subscriber is a channel: whether its receiver is still there, and what was sent.\<close>

record subscriber =
  sb_open :: bool
  sb_received :: "tx_report list"

record tx_state =
  ts_db :: db
  ts_next_user :: u64
  ts_last_instant :: i64
  ts_subscribers :: "subscriber list"
  ts_async_pending :: bool

definition broadcast :: "tx_report \<Rightarrow> subscriber list \<Rightarrow> subscriber list" where
  "broadcast report subs = map (\<lambda>s. s\<lparr>sb_received := sb_received s @ [report]\<rparr>) (filter sb_open subs)"

definition state_after_replay :: "db \<Rightarrow> u64 \<Rightarrow> i64 \<Rightarrow> tx_state" where
  "state_after_replay d next_user last_instant =
    \<lparr>ts_db = d, ts_next_user = next_user, ts_last_instant = last_instant, ts_subscribers = [], ts_async_pending = False\<rparr>"

definition replay_record :: "tx_record \<Rightarrow> db \<times> i64 \<Rightarrow> db \<times> i64" where
  "replay_record r = (\<lambda>(d, last_instant).
    (with_transaction_at (tr_t r) (tr_tx_instant r) (tr_datoms r) d, i64_max last_instant (effective_tx_instant r)))"

definition recover_from_records :: "db \<Rightarrow> tx_record list \<Rightarrow> tx_state" where
  "recover_from_records base records =
    (case fold replay_record records (base, I64_MIN) of (d, last_instant) \<Rightarrow>
       state_after_replay d (floor_past_grants d (next_user_id (db_recorded d) FIRST_USER_ID)) last_instant)"

definition recover_from :: "db \<Rightarrow> log_error + tx_record list \<Rightarrow> transact_error + tx_state" where
  "recover_from base replayed = (case replayed of Inl e \<Rightarrow> Inl (LogFailed e) | Inr records \<Rightarrow> Inr (recover_from_records base records))"

definition recover :: "schema \<Rightarrow> log_error + tx_record list \<Rightarrow> transact_error + tx_state" where
  "recover s replayed = recover_from (db_new s) replayed"

text \<open>\<open>tail\<close> is the range of the log from the one after the basis of the snapshot.\<close>

definition recover_from_snapshot ::
    "(u64 \<Rightarrow> u64 option \<Rightarrow> log_error + tx_record list) \<Rightarrow> db \<Rightarrow> u64 \<Rightarrow> i64 \<Rightarrow> transact_error + tx_state" where
  "recover_from_snapshot tail snapshot next_entity_id last_tx_instant = (case tail (db_basis_t snapshot + 1) None of
     Inl e \<Rightarrow> Inl (LogFailed e)
   | Inr records \<Rightarrow>
       (case fold (\<lambda>r (d, last_instant, next_user).
            (with_transaction_at (tr_t r) (tr_tx_instant r) (tr_datoms r) d, i64_max last_instant (effective_tx_instant r),
             max next_user (next_user_id (tr_datoms r) next_user)))
          records (snapshot, last_tx_instant, max next_entity_id FIRST_USER_ID) of (d, last_instant, next_user) \<Rightarrow>
        Inr (state_after_replay d (floor_past_grants d next_user) last_instant)))"

definition recovery_snapshot :: "tx_state \<Rightarrow> db \<times> u64 \<times> i64" where
  "recovery_snapshot st = (ts_db st, ts_next_user st, ts_last_instant st)"

definition raise_allocation_floor :: "u64 \<Rightarrow> tx_state \<Rightarrow> tx_state" where
  "raise_allocation_floor floor st = st\<lparr>ts_next_user := max (ts_next_user st) floor\<rparr>"

definition subscribe :: "tx_state \<Rightarrow> tx_state" where
  "subscribe st = st\<lparr>ts_subscribers := ts_subscribers st @ [\<lparr>sb_open = True, sb_received = []\<rparr>]\<rparr>"

definition update_naming :: "idents \<Rightarrow> keyword_interner \<Rightarrow> local_keywords \<Rightarrow> tx_state \<Rightarrow> tx_state" where
  "update_naming ids i l st = st\<lparr>ts_db := with_naming ids i l (ts_db st)\<rparr>"

text \<open>Milliseconds since the epoch, \<open>None\<close> when the clock is before it; a value past \<open>i64::MAX\<close> is clamped.\<close>

definition clock_millis :: "nat option \<Rightarrow> transact_error + i64" where
  "clock_millis now = (case now of None \<Rightarrow> Inl ClockBeforeEpoch | Some ms \<Rightarrow> Inr (if ms < 2 ^ 63 then of_nat ms else I64_MAX))"

text \<open>What both commits do under the lock before the append.\<close>

record commit_plan =
  cp_before :: db
  cp_tx :: prepared_tx
  cp_t :: u64
  cp_instant :: i64
  cp_next_user :: u64

definition plan_commit :: "nat option \<Rightarrow> tx_item list \<Rightarrow> tx_state \<Rightarrow> transact_error + commit_plan" where
  "plan_commit now items st =
    (if ts_async_pending st then Inl AsyncTransactionPending
     else
       let before = ts_db st; t = db_basis_t before + 1; tx = tx_entity t
       in case prepare before items tx (ts_next_user st) of
            Inl e \<Rightarrow> Inl (TxRejected e)
          | Inr p \<Rightarrow> (case advance_allocation before p tx (ts_next_user st) of (p, next) \<Rightarrow>
              bindr (clock_millis now) (\<lambda>millis.
              case seal_tx_instant (pt_datoms p) t millis (ts_last_instant st) of
                Inl e \<Rightarrow> Inl (TxRejected e)
              | Inr (ds, instant) \<Rightarrow>
                  Inr \<lparr>cp_before = before, cp_tx = p\<lparr>pt_datoms := ds\<rparr>, cp_t = t, cp_instant = instant, cp_next_user = next\<rparr>)))"

definition plan_record :: "commit_plan \<Rightarrow> tx_record" where
  "plan_record plan = \<lparr>tr_t = cp_t plan, tr_tx_instant = cp_instant plan, tr_datoms = pt_datoms (cp_tx plan)\<rparr>"

definition transact ::
    "('l \<Rightarrow> tx_record \<Rightarrow> (log_error + unit) \<times> 'l) \<Rightarrow> nat option \<Rightarrow> tx_item list \<Rightarrow> 'l \<times> tx_state \<Rightarrow>
     (transact_error + tx_report) \<times> 'l \<times> tx_state" where
  "transact app now items = (\<lambda>(log, st). case plan_commit now items st of
     Inl e \<Rightarrow> (Inl e, log, st)
   | Inr plan \<Rightarrow> (case app log (plan_record plan) of
       (Inl e, log) \<Rightarrow> (Inl (LogFailed e), log, st)
     | (Inr _, log) \<Rightarrow>
         let after = with_transaction_at (cp_t plan) (cp_instant plan) (pt_datoms (cp_tx plan)) (cp_before plan);
             report = \<lparr>rp_db_before = cp_before plan, rp_db_after = after, rp_tx = cp_tx plan, rp_tx_instant = cp_instant plan\<rparr>
         in (Inr report, log, st\<lparr>ts_db := after, ts_last_instant := cp_instant plan, ts_next_user := cp_next_user plan,
               ts_subscribers := broadcast report (ts_subscribers st)\<rparr>)))"

text \<open>The asynchronous commit: up to the await of the append, and what follows it. Dropping the call while it waits clears the flag.\<close>

definition async_begin :: "nat option \<Rightarrow> tx_item list \<Rightarrow> tx_state \<Rightarrow> (transact_error + commit_plan) \<times> tx_state" where
  "async_begin now items st = (case plan_commit now items st of
     Inl e \<Rightarrow> (Inl e, st) | Inr plan \<Rightarrow> (Inr plan, st\<lparr>ts_async_pending := True\<rparr>))"

definition async_drop :: "tx_state \<Rightarrow> tx_state" where
  "async_drop st = st\<lparr>ts_async_pending := False\<rparr>"

definition async_finish :: "commit_plan \<Rightarrow> tx_state \<Rightarrow> tx_report \<times> tx_state" where
  "async_finish plan st =
    (let after = with_transaction_at (cp_t plan) (cp_instant plan) (pt_datoms (cp_tx plan)) (ts_db st);
         report = \<lparr>rp_db_before = cp_before plan, rp_db_after = after, rp_tx = cp_tx plan, rp_tx_instant = cp_instant plan\<rparr>
     in (report, st\<lparr>ts_db := after, ts_last_instant := cp_instant plan, ts_next_user := max (ts_next_user st) (cp_next_user plan),
           ts_async_pending := False, ts_subscribers := broadcast report (ts_subscribers st)\<rparr>))"

definition batch_cursor_of :: "tx_state \<Rightarrow> batch_cursor" where
  "batch_cursor_of st = \<lparr>bc_db = ts_db st, bc_next_user = ts_next_user st, bc_last_instant = ts_last_instant st\<rparr>"

definition prepared_report :: "prepared \<Rightarrow> tx_report" where
  "prepared_report p = \<lparr>rp_db_before = pr_db_before p, rp_db_after = pr_db_after p, rp_tx = pr_tx p, rp_tx_instant = pr_tx_instant p\<rparr>"

definition install_batch :: "batch_cursor \<Rightarrow> prepared list \<Rightarrow> tx_state \<Rightarrow> tx_report list \<times> tx_state" where
  "install_batch c ps st =
    (let reports = map prepared_report ps
     in (reports, st\<lparr>ts_db := bc_db c, ts_next_user := max (ts_next_user st) (bc_next_user c),
           ts_last_instant := i64_max (ts_last_instant st) (bc_last_instant c),
           ts_subscribers := fold broadcast reports (ts_subscribers st)\<rparr>))"

subsection \<open>Sealed transactions\<close>

lemma sle_sint: "a \<le>s b \<longleftrightarrow> sint a \<le> sint b"
  by (simp add: word_sle_eq)

lemma i64_max_right: "a \<le>s b \<Longrightarrow> i64_max a b = b"
  by (simp add: i64_max_def)

lemma sint_I64_MAX: "sint I64_MAX = 2 ^ 63 - 1"
  by (simp add: I64_MAX_def)

lemma sint_upper: "sint (a :: i64) \<le> 2 ^ 63 - 1"
  using sint_lt [of a] by simp

lemma sint_lower: "- (2 ^ 63) \<le> sint (a :: i64)"
  using sint_ge [of a] by simp

lemma sint_succ: "a \<noteq> I64_MAX \<Longrightarrow> sint (a + 1) = sint a + 1"
proof -
  assume "a \<noteq> I64_MAX"
  then have "sint a \<noteq> sint I64_MAX" by (auto dest: signed_word_eqI)
  then have "sint a < 2 ^ 63 - 1" using sint_upper [of a] by (simp add: sint_I64_MAX)
  then show ?thesis using sint_lower [of a] by (simp add: sint_word_ariths(1) signed_take_bit_int_eq_self)
qed

lemma succ_above: "a \<le>s i64_saturating_succ a"
  by (cases "a = I64_MAX") (simp_all add: i64_saturating_succ_def sle_sint sint_succ)

lemma asserted_snoc_instant: "asserted_instant t (ds @ [tx_instant_datom t i]) = Some i"
  by (simp add: asserted_instant_def asserted_step_def tx_instant_datom_def)

lemma seal_sealed:
  assumes "seal_tx_instant ds t now last_instant = Inr (ds', i)"
  shows "asserted_instant t ds' = Some i" and "last_instant \<le>s i" and "last_instant \<noteq> I64_MAX \<Longrightarrow> last_instant <s i"
    and "\<exists>more. ds' = ds @ more"
proof -
  let ?succ = "i64_saturating_succ last_instant"
  show "asserted_instant t ds' = Some i"
    using assms by (auto simp: seal_tx_instant_def asserted_snoc_instant Let_def split: option.splits if_splits)
  have "i64_max now ?succ = now \<and> ?succ \<le>s now \<or> i64_max now ?succ = ?succ"
    by (auto simp: i64_max_def sle_sint)
  then show "last_instant \<le>s i"
    using assms succ_above [of last_instant]
    by (auto simp: seal_tx_instant_def Let_def sle_sint split: option.splits if_splits)
  show "last_instant <s i" if "last_instant \<noteq> I64_MAX"
    using assms that sint_succ [OF that] \<open>i64_max now ?succ = now \<and> ?succ \<le>s now \<or> i64_max now ?succ = ?succ\<close>
    by (auto simp: seal_tx_instant_def Let_def i64_saturating_succ_def sle_sint word_sless_alt split: option.splits if_splits)
  show "\<exists>more. ds' = ds @ more"
    using assms by (auto simp: seal_tx_instant_def Let_def split: option.splits if_splits)
qed

lemma basis_after_transaction [simp]: "db_basis_t (with_transaction_at t i ds d) = t"
  by (simp add: with_transaction_at_def record_instant_def apply_transaction_def Let_def split: option.splits prod.splits)

lemma effective_sealed: "asserted_instant (tr_t r) (tr_datoms r) = Some i \<Longrightarrow> effective_tx_instant r = i"
  by (simp add: effective_tx_instant_def)

lemma plan_commit_Inr:
  assumes "plan_commit now items st = Inr plan"
  shows "\<not> ts_async_pending st" and "cp_before plan = ts_db st" and "cp_t plan = db_basis_t (ts_db st) + 1"
    and "asserted_instant (cp_t plan) (pt_datoms (cp_tx plan)) = Some (cp_instant plan)"
    and "ts_last_instant st \<le>s cp_instant plan"
proof -
  let ?t = "db_basis_t (ts_db st) + 1"
  obtain p where p: "\<not> ts_async_pending st" "prepare (ts_db st) items (tx_entity ?t) (ts_next_user st) = Inr p"
    using assms by (auto simp: plan_commit_def Let_def split: if_splits sum.splits)
  obtain p' n where alloc: "advance_allocation (ts_db st) p (tx_entity ?t) (ts_next_user st) = (p', n)" by fastforce
  let ?seal = "\<lambda>millis. seal_tx_instant (pt_datoms p') ?t millis (ts_last_instant st)"
  let ?plan = "\<lambda>ds instant. \<lparr>cp_before = ts_db st, cp_tx = p'\<lparr>pt_datoms := ds\<rparr>, cp_t = ?t, cp_instant = instant, cp_next_user = n\<rparr>"
  have "plan_commit now items st = bindr (clock_millis now) (\<lambda>millis.
      case ?seal millis of Inl e \<Rightarrow> Inl (TxRejected e) | Inr (ds, instant) \<Rightarrow> Inr (?plan ds instant))"
    using p alloc by (simp add: plan_commit_def Let_def)
  then obtain millis where "(case ?seal millis of Inl e \<Rightarrow> Inl (TxRejected e) | Inr (ds, instant) \<Rightarrow> Inr (?plan ds instant)) = Inr plan"
    using assms by (cases "clock_millis now") simp_all
  then obtain ds instant where seal: "?seal millis = Inr (ds, instant)" and plan: "plan = ?plan ds instant"
    by (auto split: sum.splits)
  note seal = seal_sealed [OF seal]
  show "\<not> ts_async_pending st" "cp_before plan = ts_db st" "cp_t plan = db_basis_t (ts_db st) + 1"
    "asserted_instant (cp_t plan) (pt_datoms (cp_tx plan)) = Some (cp_instant plan)"
    "ts_last_instant st \<le>s cp_instant plan"
    using p(1) seal(1,2) by (simp_all add: plan)
qed

lemma replay_plan:
  assumes "plan_commit now items st = Inr plan"
  shows "replay_record (plan_record plan) (ts_db st, ts_last_instant st) =
    (with_transaction_at (cp_t plan) (cp_instant plan) (pt_datoms (cp_tx plan)) (ts_db st), cp_instant plan)"
proof -
  note plan = plan_commit_Inr [OF assms]
  have "effective_tx_instant (plan_record plan) = cp_instant plan"
    using plan(4) by (simp add: effective_tx_instant_def plan_record_def)
  then show ?thesis using plan(5) by (simp add: replay_record_def plan_record_def i64_max_right)
qed

end
