(* ===== verification/Transactor_Recovery.thy ===== *)
theory Transactor_Recovery
  imports Transactor File_Log_Recovery
begin

text \<open>
  Recovery of the embedded transactor: what it asks of its log (\<open>commit_log\<close>), the runs of a transactor
  over such a log, that a transactor restarted from the log is the one that stopped, and the instance of
  this for the log file, whose appends may be cut short by a crash.
\<close>

subsection \<open>A transactor over a log\<close>

text \<open>What the transactor relies on: an acknowledged append extends the log by its record, under the
  next number; a failed one leaves the log as it was or extended by the whole record.\<close>

locale commit_log =
  fixes valid :: "'l \<Rightarrow> bool"
    and content :: "'l \<Rightarrow> tx_record list"
    and basis :: u64
    and ok :: "tx_record \<Rightarrow> bool"
    and app :: "'l \<Rightarrow> tx_record \<Rightarrow> (log_error + unit) \<times> 'l"
  assumes log_numbered: "valid s \<Longrightarrow> contiguous basis (content s)"
    and log_commits: "valid s \<Longrightarrow> ok r \<Longrightarrow> app s r = (Inr u, s') \<Longrightarrow>
      tr_t r = next_from basis (content s) \<and> valid s' \<and> content s' = content s @ [r]"
    and log_fails: "valid s \<Longrightarrow> ok r \<Longrightarrow> app s r = (Inl e, s') \<Longrightarrow>
      valid s' \<and> (content s' = content s \<or> content s' = content s @ [r])"

text \<open>A transactor with its log, the commit that waits for its append, the records whose commits it
  reported, and whether the names attached to its value were replaced since it started.\<close>

record 'l running =
  rn_log :: 'l
  rn_state :: tx_state
  rn_pending :: "commit_plan option"
  rn_history :: "tx_record list"
  rn_renamed :: bool

definition report_record :: "tx_report \<Rightarrow> tx_record" where
  "report_record rp = \<lparr>tr_t = db_basis_t (rp_db_after rp), tr_tx_instant = rp_tx_instant rp, tr_datoms = pt_datoms (rp_tx rp)\<rparr>"

text \<open>Group commit: prepare requests on a private cursor, dropping the refused ones; append the records one
  by one; install. A request is a transaction, datoms that are already resolved (a schema update), or new
  names for the value on the cursor, attached before the request that uses them.\<close>

datatype batch_request =
    Request "tx_item list" i64 "branch_rules option"
  | Resolved "datom list" i64
  | Naming keyword_interner local_keywords

fun is_naming :: "batch_request \<Rightarrow> bool" where
  "is_naming (Naming i l) = True"
| "is_naming _ = False"

fun prepare_all :: "batch_cursor \<Rightarrow> batch_request list \<Rightarrow> prepared list \<times> batch_cursor" where
  "prepare_all c [] = ([], c)"
| "prepare_all c (Naming i l # reqs) = prepare_all (intern_naming c i l) reqs"
| "prepare_all c (Request items now rules # reqs) = (case prepare_transaction c items now rules of
     (Inl _, c) \<Rightarrow> prepare_all c reqs
   | (Inr p, c) \<Rightarrow> (case prepare_all c reqs of (ps, c) \<Rightarrow> (p # ps, c)))"
| "prepare_all c (Resolved ds now # reqs) = (case prepare_datoms c ds now of
     (Inl _, c) \<Rightarrow> prepare_all c reqs
   | (Inr p, c) \<Rightarrow> (case prepare_all c reqs of (ps, c) \<Rightarrow> (p # ps, c)))"

fun append_all :: "('l \<Rightarrow> tx_record \<Rightarrow> (log_error + unit) \<times> 'l) \<Rightarrow> 'l \<Rightarrow> tx_record list \<Rightarrow> (log_error + unit) \<times> 'l" where
  "append_all app log [] = (Inr (), log)"
| "append_all app log (r # rs) = (case app log r of (Inl e, log) \<Rightarrow> (Inl e, log) | (Inr _, log) \<Rightarrow> append_all app log rs)"

definition commit_batch ::
    "('l \<Rightarrow> tx_record \<Rightarrow> (log_error + unit) \<times> 'l) \<Rightarrow> batch_request list \<Rightarrow> 'l \<times> tx_state \<Rightarrow>
     (log_error + tx_report list) \<times> 'l \<times> tx_state" where
  "commit_batch app reqs = (\<lambda>(log, st). case prepare_all (batch_cursor_of st) reqs of (ps, c) \<Rightarrow>
     (case append_all app log (map pr_record ps) of
        (Inl e, log) \<Rightarrow> (Inl e, log, st)
      | (Inr _, log) \<Rightarrow> (case install_batch c ps st of (reports, st) \<Rightarrow> (Inr reports, log, st))))"

text \<open>Everything that can happen to it, one step at a time. Waiting commits can be dropped before or after
  their record is durable. Every record that reaches the log is one it can take. The caller's commit lock
  keeps a batch from being prepared while an asynchronous commit waits; names may be replaced at any time.\<close>

inductive transactor_step ::
    "('l \<Rightarrow> tx_record \<Rightarrow> (log_error + unit) \<times> 'l) \<Rightarrow> (tx_record \<Rightarrow> bool) \<Rightarrow> 'l running \<Rightarrow> 'l running \<Rightarrow> bool" for app ok where
  transacts:
    "\<forall>plan. plan_commit now items (rn_state s) = Inr plan \<longrightarrow> ok (plan_record plan) \<Longrightarrow>
     transact app now items (rn_log s, rn_state s) = (res, log, st) \<Longrightarrow>
     transactor_step app ok s (s\<lparr>rn_log := log, rn_state := st,
       rn_history := rn_history s @ (case res of Inl _ \<Rightarrow> [] | Inr rp \<Rightarrow> [report_record rp])\<rparr>)"
| commits_batch:
    "\<not> ts_async_pending (rn_state s) \<Longrightarrow>
     \<forall>p \<in> set (fst (prepare_all (batch_cursor_of (rn_state s)) reqs)). ok (pr_record p) \<Longrightarrow>
     commit_batch app reqs (rn_log s, rn_state s) = (res, log, st) \<Longrightarrow>
     transactor_step app ok s (s\<lparr>rn_log := log, rn_state := st,
       rn_history := rn_history s @ (case res of Inl _ \<Rightarrow> [] | Inr rps \<Rightarrow> map report_record rps),
       rn_renamed := rn_renamed s \<or> list_ex is_naming reqs\<rparr>)"
| begins:
    "async_begin now items (rn_state s) = (Inr plan, st) \<Longrightarrow> ok (plan_record plan) \<Longrightarrow>
     transactor_step app ok s (s\<lparr>rn_state := st, rn_pending := Some plan\<rparr>)"
| finishes:
    "rn_pending s = Some plan \<Longrightarrow> app (rn_log s) (plan_record plan) = (Inr u, log) \<Longrightarrow> async_finish plan (rn_state s) = (rp, st) \<Longrightarrow>
     transactor_step app ok s (s\<lparr>rn_log := log, rn_state := st, rn_pending := None, rn_history := rn_history s @ [report_record rp]\<rparr>)"
| drops:
    "rn_pending s = Some plan \<Longrightarrow> log = rn_log s \<or> (\<exists>res. app (rn_log s) (plan_record plan) = (res, log)) \<Longrightarrow>
     transactor_step app ok s (s\<lparr>rn_log := log, rn_state := async_drop (rn_state s), rn_pending := None\<rparr>)"
| renames:
    "transactor_step app ok s (s\<lparr>rn_state := update_naming ids i l (rn_state s), rn_renamed := True\<rparr>)"
| raises_floor:
    "transactor_step app ok s (s\<lparr>rn_state := raise_allocation_floor floor (rn_state s)\<rparr>)"
| subscribes:
    "transactor_step app ok s (s\<lparr>rn_state := subscribe (rn_state s)\<rparr>)"

definition transactor_start :: "db \<Rightarrow> 'l \<Rightarrow> tx_record list \<Rightarrow> 'l running" where
  "transactor_start base log records =
    \<lparr>rn_log = log, rn_state = recover_from_records base records, rn_pending = None, rn_history = records, rn_renamed = False\<rparr>"

text \<open>The value a run of records gives, with the last instant.\<close>

definition replayed :: "db \<Rightarrow> tx_record list \<Rightarrow> db \<times> i64" where
  "replayed base rs = fold replay_record rs (base, I64_MIN)"

lemma replayed_snoc: "replayed base (rs @ [r]) = replay_record r (replayed base rs)"
  by (simp add: replayed_def)

lemma replayed_append: "replayed base (rs @ qs) = fold replay_record qs (replayed base rs)"
  by (simp add: replayed_def)

lemma recover_from_records_replayed:
  "ts_db (recover_from_records base rs) = fst (replayed base rs)" "ts_last_instant (recover_from_records base rs) = snd (replayed base rs)"
  "\<not> ts_async_pending (recover_from_records base rs)"
  by (simp_all add: recover_from_records_def replayed_def state_after_replay_def case_prod_unfold)

lemma basis_replayed: "db_basis_t (fst (replayed base rs)) = (if rs = [] then db_basis_t base else tr_t (last rs))"
  by (cases rs rule: rev_cases) (simp_all add: replayed_snoc replayed_def replay_record_def case_prod_unfold)

lemma next_from_replayed: "db_basis_t (fst (replayed base rs)) + 1 = next_from (db_basis_t base) rs"
  by (simp add: basis_replayed next_from_def)

text \<open>Names play no part in the facts of a value: the datoms recorded, the basis, the id counter and the
  instants of the transactions. Replaying the same records gives the same facts under any names, and the
  same value altogether when the names were never replaced.\<close>

definition facts_of :: "db \<Rightarrow> datom list \<times> u64 \<times> u64 \<times> tx_instants" where
  "facts_of d = (db_recorded d, db_basis_t d, db_next_user d, db_instants d)"

definition same_value :: "bool \<Rightarrow> db \<times> i64 \<Rightarrow> db \<times> i64 \<Rightarrow> bool" where
  "same_value renamed x y \<longleftrightarrow> snd x = snd y \<and> facts_of (fst x) = facts_of (fst y) \<and> (renamed \<or> fst x = fst y)"

lemma facts_with_transaction_at:
  "facts_of d = facts_of d' \<Longrightarrow> facts_of (with_transaction_at t i ds d) = facts_of (with_transaction_at t i ds d')"
  by (cases "asserted_instant t ds")
    (simp_all add: facts_of_def with_transaction_at_def record_instant_def apply_transaction_def Let_def case_prod_unfold)

lemma facts_with_naming [simp]: "facts_of (with_naming ids i l d) = facts_of d"
  by (simp add: facts_of_def with_naming_def split: prod.split)

lemma facts_basis: "facts_of d = facts_of d' \<Longrightarrow> db_basis_t d = db_basis_t d'"
  by (simp add: facts_of_def)

lemma same_value_refl [simp]: "same_value b x x"
  by (simp add: same_value_def)

lemma same_value_exact [simp]: "same_value False x y \<longleftrightarrow> x = y"
  by (auto simp: same_value_def prod_eq_iff)

lemma same_value_mono: "same_value b x y \<Longrightarrow> b \<longrightarrow> b' \<Longrightarrow> same_value b' x y"
  by (auto simp: same_value_def)

lemma same_value_trans: "same_value b x y \<Longrightarrow> same_value b' y z \<Longrightarrow> same_value (b \<or> b') x z"
  by (auto simp: same_value_def)

lemma same_value_replay: "same_value b x y \<Longrightarrow> same_value b (replay_record r x) (replay_record r y)"
  by (auto simp: same_value_def replay_record_def case_prod_unfold intro: facts_with_transaction_at)

lemma same_value_fold: "same_value b x y \<Longrightarrow> same_value b (fold replay_record rs x) (fold replay_record rs y)"
  by (induction rs arbitrary: x y) (simp_all only: fold_simps same_value_replay)

lemma same_value_named: "same_value True (d, i) (with_naming ids n l d, i)"
  by (simp add: same_value_def)

text \<open>Prepared batches replay as they were prepared.\<close>

lemma prepare_transaction_Inr:
  assumes "prepare_transaction c items now rules = (Inr p, c')"
  shows "tr_t (pr_record p) = db_basis_t (bc_db c) + 1"
    and "replay_record (pr_record p) (bc_db c, bc_last_instant c) = (bc_db c', bc_last_instant c')"
    and "report_record (prepared_report p) = pr_record p"
proof -
  let ?t = "db_basis_t (bc_db c) + 1"
  define plan where "plan = bindr (prepare (bc_db c) items (tx_entity ?t) (bc_next_user c)) (\<lambda>p.
              case rules of
                None \<Rightarrow> Inr p
              | Some rules \<Rightarrow> (case validate_step (pt_datoms p) rules of Inl v \<Rightarrow> Inl (StepRefused v) | Inr _ \<Rightarrow> Inr p))"
  note unfolded = assms [unfolded prepare_transaction_def Let_def, folded plan_def]
  obtain q where q: "plan = Inr q" using unfolded by (cases plan) auto
  obtain q' n where alloc: "advance_allocation (bc_db c) q (tx_entity ?t) (bc_next_user c) = (q', n)" by fastforce
  obtain ds i where seal: "seal_tx_instant (pt_datoms q') ?t now (bc_last_instant c) = Inr (ds, i)"
    using unfolded q alloc by (cases "seal_tx_instant (pt_datoms q') ?t now (bc_last_instant c)") auto
  have p: "p = \<lparr>pr_record = \<lparr>tr_t = ?t, tr_tx_instant = i, tr_datoms = ds\<rparr>, pr_db_before = bc_db c,
      pr_db_after = with_transaction_at ?t i ds (bc_db c), pr_tx = q'\<lparr>pt_datoms := ds\<rparr>, pr_tx_instant = i\<rparr>"
    and c': "c' = \<lparr>bc_db = with_transaction_at ?t i ds (bc_db c), bc_next_user = n, bc_last_instant = i\<rparr>"
    using unfolded q alloc seal by simp_all
  note sealed = seal_sealed [OF seal]
  show "tr_t (pr_record p) = ?t" by (simp add: p)
  show "replay_record (pr_record p) (bc_db c, bc_last_instant c) = (bc_db c', bc_last_instant c')"
    using sealed(1,2) by (simp add: p c' replay_record_def effective_tx_instant_def i64_max_right)
  show "report_record (prepared_report p) = pr_record p" by (simp add: p report_record_def prepared_report_def)
qed

lemma prepare_transaction_Inl:
  assumes "prepare_transaction c items now rules = (Inl e, c')"
  shows "bc_db c' = bc_db c \<and> bc_last_instant c' = bc_last_instant c"
  using assms by (auto simp: prepare_transaction_def Let_def split: sum.splits prod.splits option.splits)

lemma prepare_datoms_Inr:
  assumes "prepare_datoms c ds now = (Inr p, c')"
  shows "tr_t (pr_record p) = db_basis_t (bc_db c) + 1"
    and "replay_record (pr_record p) (bc_db c, bc_last_instant c) = (bc_db c', bc_last_instant c')"
    and "report_record (prepared_report p) = pr_record p"
proof -
  let ?t = "db_basis_t (bc_db c) + 1"
  obtain ds' i where seal: "seal_tx_instant ds ?t now (bc_last_instant c) = Inr (ds', i)"
    using assms by (auto simp: prepare_datoms_def Let_def split: sum.splits)
  have p: "p = \<lparr>pr_record = \<lparr>tr_t = ?t, tr_tx_instant = i, tr_datoms = ds'\<rparr>, pr_db_before = bc_db c,
      pr_db_after = with_transaction_at ?t i ds' (bc_db c), pr_tx = \<lparr>pt_datoms = ds', pt_tempids = om_empty\<rparr>, pr_tx_instant = i\<rparr>"
    and c': "c' = c\<lparr>bc_db := with_transaction_at ?t i ds' (bc_db c), bc_last_instant := i\<rparr>"
    using assms seal by (simp_all add: prepare_datoms_def Let_def)
  note sealed = seal_sealed [OF seal]
  show "tr_t (pr_record p) = ?t" by (simp add: p)
  show "replay_record (pr_record p) (bc_db c, bc_last_instant c) = (bc_db c', bc_last_instant c')"
    using sealed(1,2) by (simp add: p c' replay_record_def effective_tx_instant_def i64_max_right)
  show "report_record (prepared_report p) = pr_record p" by (simp add: p report_record_def prepared_report_def)
qed

lemma prepare_datoms_Inl:
  assumes "prepare_datoms c ds now = (Inl e, c')"
  shows "bc_db c' = bc_db c \<and> bc_last_instant c' = bc_last_instant c"
  using assms by (auto simp: prepare_datoms_def Let_def split: sum.splits)

text \<open>One way to look at a batch: each request leaves the cursor alone, renames it, or prepares a record
  that replays to the new cursor.\<close>

lemma prepare_all_cases:
  assumes "prepare_all c (req # reqs) = (ps, c')"
  obtains m where "facts_of (bc_db m) = facts_of (bc_db c)" and "bc_last_instant m = bc_last_instant c"
      and "\<not> is_naming req \<Longrightarrow> bc_db m = bc_db c" and "prepare_all m reqs = (ps, c')"
    | p m qs where "tr_t (pr_record p) = db_basis_t (bc_db c) + 1"
      and "replay_record (pr_record p) (bc_db c, bc_last_instant c) = (bc_db m, bc_last_instant m)"
      and "report_record (prepared_report p) = pr_record p" and "ps = p # qs" and "prepare_all m reqs = (qs, c')"
proof (cases req)
  case (Naming i l)
  then show thesis using that(1) [of "intern_naming c i l"] assms by (simp add: intern_naming_def)
next
  case (Request items now rules)
  obtain res m where res: "prepare_transaction c items now rules = (res, m)" by fastforce
  show thesis
  proof (cases res)
    case (Inl e)
    then show thesis using that(1) [of m] assms Request res prepare_transaction_Inl [of c items now rules e m] by simp
  next
    case (Inr p)
    then show thesis
      using that(2) [of p m "tl ps"] assms Request res prepare_transaction_Inr [of c items now rules p m] by (auto split: prod.splits)
  qed
next
  case (Resolved ds now)
  obtain res m where res: "prepare_datoms c ds now = (res, m)" by fastforce
  show thesis
  proof (cases res)
    case (Inl e)
    then show thesis using that(1) [of m] assms Resolved res prepare_datoms_Inl [of c ds now e m] by simp
  next
    case (Inr p)
    then show thesis
      using that(2) [of p m "tl ps"] assms Resolved res prepare_datoms_Inr [of c ds now p m] by (auto split: prod.splits)
  qed
qed

lemma prepare_all_replays:
  assumes "prepare_all c reqs = (ps, c')"
  shows "same_value (list_ex is_naming reqs) (fold replay_record (map pr_record ps) (bc_db c, bc_last_instant c)) (bc_db c', bc_last_instant c') \<and>
    map (report_record \<circ> prepared_report) ps = map pr_record ps"
  using assms
proof (induction reqs arbitrary: c ps)
  case (Cons req reqs)
  from Cons.prems show ?case
  proof (cases rule: prepare_all_cases)
    case (1 m)
    have "same_value (is_naming req) (bc_db c, bc_last_instant c) (bc_db m, bc_last_instant m)"
      using 1(1-3) by (cases "is_naming req") (simp_all add: same_value_def)
    from same_value_trans [OF same_value_fold [OF this] Cons.IH [OF 1(4), THEN conjunct1]]
    show ?thesis using Cons.IH [OF 1(4)] by simp
  next
    case (2 p m qs)
    show ?thesis using Cons.IH [OF 2(5)] 2(2-4) by (auto elim: same_value_mono)
  qed
qed simp

lemma unat_next_from:
  assumes "contiguous basis (rs @ q # qs)"
  shows "tr_t q = next_from basis rs"
proof -
  have q: "unat (tr_t q) = unat basis + Suc (length rs)"
    using contiguous_nth [OF assms, of "length rs"] by simp
  have "unat (next_from basis rs) = unat basis + Suc (length rs)"
  proof (cases "rs = []")
    case True
    have "unat basis + 1 < 2 ^ 64" using q True unat_less_pow [of "tr_t q"] by simp
    then show ?thesis using True by (simp add: next_from_def unat_word_ariths)
  next
    case False
    then have l: "unat (tr_t (last rs)) = unat basis + length rs"
      using contiguous_nth [OF assms, of "length rs - 1"] by (simp add: last_conv_nth nth_append)
    then have "unat (tr_t (last rs)) + 1 < 2 ^ 64" using q unat_less_pow [of "tr_t q"] by simp
    then show ?thesis using False l by (simp add: next_from_def unat_word_ariths)
  qed
  then show ?thesis using q by (simp add: word_unat_eq_iff)
qed

lemma next_from_extra:
  assumes "contiguous basis (rs @ extra)" and "next_from basis (rs @ extra) = next_from basis rs"
  shows "extra = []"
proof (rule ccontr)
  assume "extra \<noteq> []"
  then obtain q qs where extra: "extra = q # qs" by (cases extra) auto
  have first: "tr_t q = next_from basis rs" using unat_next_from [of basis rs q qs] assms(1) extra by simp
  have q: "unat (tr_t q) = unat basis + Suc (length rs)"
    using contiguous_nth [OF assms(1), of "length rs"] extra by simp
  have "length rs + (length extra - 1) < length (rs @ extra)" using \<open>extra \<noteq> []\<close> by (cases extra) simp_all
  then have "unat (tr_t (last extra)) \<ge> unat (tr_t q)"
    using contiguous_nth [OF assms(1), of "length rs + (length extra - 1)"] \<open>extra \<noteq> []\<close> q
    by (simp add: nth_append_length_plus last_conv_nth)
  moreover have succ: "1 + tr_t (last extra) = tr_t q"
    using assms(2) first \<open>extra \<noteq> []\<close> by (simp add: next_from_def add.commute)
  moreover have "tr_t q \<noteq> 0" using q by auto
  ultimately have "unat (tr_t q) = Suc (unat (tr_t (last extra)))" using unatSuc [of "tr_t (last extra)"] by simp
  then show False using \<open>unat (tr_t (last extra)) \<ge> unat (tr_t q)\<close> by simp
qed

text \<open>The state is the replay of the history, and what the log holds beyond it was never reported.\<close>

definition runs_ok :: "('l \<Rightarrow> bool) \<Rightarrow> ('l \<Rightarrow> tx_record list) \<Rightarrow> (tx_record \<Rightarrow> bool) \<Rightarrow> db \<Rightarrow> 'l running \<Rightarrow> bool" where
  "runs_ok valid content ok base s \<longleftrightarrow> valid (rn_log s) \<and> (\<exists>extra. content (rn_log s) = rn_history s @ extra) \<and>
     same_value (rn_renamed s) (replayed base (rn_history s)) (ts_db (rn_state s), ts_last_instant (rn_state s)) \<and>
     (\<forall>plan. rn_pending s = Some plan \<longrightarrow> ts_async_pending (rn_state s) \<and> ok (plan_record plan) \<and> cp_t plan = db_basis_t (ts_db (rn_state s)) + 1 \<and>
        (\<forall>d. replay_record (plan_record plan) (d, ts_last_instant (rn_state s)) =
          (with_transaction_at (cp_t plan) (cp_instant plan) (pt_datoms (cp_tx plan)) d, cp_instant plan)))"

lemma plan_record_simps [simp]: "tr_t (plan_record plan) = cp_t plan" "tr_tx_instant (plan_record plan) = cp_instant plan"
  "tr_datoms (plan_record plan) = pt_datoms (cp_tx plan)"
  by (simp_all add: plan_record_def)

context commit_log
begin

lemma append_extends:
  assumes "valid s" and "ok r" and "app s r = (Inr u, s')" and "content s = h @ extra" and "tr_t r = next_from basis h"
  shows "valid s'" and "content s' = h @ [r]" and "extra = []"
proof -
  note c = log_commits [OF assms(1-3)]
  have "next_from basis (h @ extra) = next_from basis h" using c assms(4,5) by metis
  then show "extra = []" by (rule next_from_extra [OF log_numbered [OF assms(1), unfolded assms(4)]])
  then show "valid s'" "content s' = h @ [r]" using c assms(4) by simp_all
qed

lemma append_keeps:
  assumes "valid s" and "ok r" and "app s r = (res, s')" and "content s = h @ extra"
  shows "valid s' \<and> (\<exists>more. content s' = h @ more)"
proof (cases res)
  case (Inl e)
  then show ?thesis using log_fails [of s r e s'] assms by auto
next
  case (Inr u)
  then show ?thesis using log_commits [of s r u s'] assms by auto
qed

lemma append_all_keeps:
  assumes "valid s" and "\<forall>r \<in> set rs. ok r" and "append_all app s rs = (res, s')" and "content s = h @ extra"
  shows "valid s' \<and> (\<exists>more. content s' = h @ more)"
  using assms
proof (induction rs arbitrary: s extra)
  case (Cons r rs)
  obtain res1 m where m: "app s r = (res1, m)" by fastforce
  obtain more where more: "valid m" "content m = h @ more"
    using append_keeps [OF Cons.prems(1) _ m Cons.prems(4)] Cons.prems(2) by auto
  show ?case
  proof (cases res1)
    case (Inl e)
    then show ?thesis using Cons.prems(3) m more by auto
  next
    case (Inr u)
    then show ?thesis using Cons.IH [OF more(1) _ _ more(2)] Cons.prems(2,3) m by simp
  qed
qed auto

lemma append_all_extends:
  assumes "valid s" and "\<forall>r \<in> set rs. ok r" and "append_all app s rs = (Inr u, s')" and "content s = h @ extra"
    and "rs \<noteq> [] \<longrightarrow> tr_t (hd rs) = next_from basis h"
  shows "valid s' \<and> (rs \<noteq> [] \<longrightarrow> content s' = h @ rs) \<and> (rs = [] \<longrightarrow> content s' = h @ extra)"
  using assms
proof (induction rs arbitrary: s extra h)
  case (Cons r rs)
  obtain m v where m: "app s r = (Inr v, m)" "append_all app m rs = (Inr u, s')"
    using Cons.prems(3) by (auto split: prod.splits sum.splits)
  have mid: "valid m" "content m = h @ [r]"
    using append_extends [OF Cons.prems(1) _ m(1) Cons.prems(4)] Cons.prems(2,5) by auto
  show ?case
  proof (cases rs)
    case Nil
    then show ?thesis using m mid by simp
  next
    case (Cons q qs)
    obtain n w where n: "app m q = (Inr w, n)" using m(2) Cons by (auto split: prod.splits sum.splits)
    have "tr_t q = next_from basis (content m)" using log_commits [OF mid(1) _ n] Cons.prems(2) Cons by simp
    then show ?thesis
      using Cons.IH [OF mid(1) _ m(2), of "h @ [r]" "[]"] Cons.prems(2) mid(2) Cons by simp
  qed
qed simp

end

lemma prepare_all_first:
  "prepare_all c reqs = (p # ps, c') \<Longrightarrow> tr_t (pr_record p) = db_basis_t (bc_db c) + 1"
proof (induction reqs arbitrary: c)
  case (Cons req reqs)
  from Cons.prems show ?case
  proof (cases rule: prepare_all_cases)
    case (1 m)
    then show ?thesis using Cons.IH [OF 1(4)] facts_basis [OF 1(1)] by simp
  qed simp
qed simp

lemma i64_max_left_le: "a \<le>s i64_max a b"
  by (auto simp: i64_max_def sle_sint)

lemma replay_last_grows: "l \<le>s snd (fold replay_record rs (d, l))"
proof (induction rs arbitrary: d l)
  case (Cons r rs)
  have "l \<le>s i64_max l (effective_tx_instant r)" by (rule i64_max_left_le)
  then show ?case using Cons.IH [of "i64_max l (effective_tx_instant r)"] by (simp add: replay_record_def sle_sint) (meson order_trans)
qed (simp add: sle_sint)

context commit_log
begin

lemma runs_next_t:
  assumes "runs_ok valid content ok base s" and "db_basis_t base = basis"
  shows "db_basis_t (ts_db (rn_state s)) + 1 = next_from basis (rn_history s)"
proof -
  have "facts_of (fst (replayed base (rn_history s))) = facts_of (ts_db (rn_state s))"
    using assms(1) by (simp add: runs_ok_def same_value_def)
  from facts_basis [OF this] show ?thesis using next_from_replayed [of base "rn_history s"] assms(2) by simp
qed

lemma runs_commit:
  assumes "runs_ok valid content ok base s" and "db_basis_t base = basis" and "ok (plan_record plan)"
    and "cp_t plan = db_basis_t (ts_db (rn_state s)) + 1"
    and "replay_record (plan_record plan) (ts_db (rn_state s), ts_last_instant (rn_state s)) = (after, cp_instant plan)"
    and "app (rn_log s) (plan_record plan) = (Inr u, log)"
  shows "valid log" and "content log = rn_history s @ [plan_record plan]"
    and "same_value (rn_renamed s) (replayed base (rn_history s @ [plan_record plan])) (after, cp_instant plan)"
proof -
  obtain extra where extra: "valid (rn_log s)" "content (rn_log s) = rn_history s @ extra"
    using assms(1) by (auto simp: runs_ok_def)
  have "tr_t (plan_record plan) = next_from basis (rn_history s)"
    using runs_next_t [OF assms(1,2)] assms(4) by simp
  then show "valid log" "content log = rn_history s @ [plan_record plan]"
    using append_extends [OF extra(1) assms(3,6) extra(2)] by auto
  have "same_value (rn_renamed s) (replayed base (rn_history s)) (ts_db (rn_state s), ts_last_instant (rn_state s))"
    using assms(1) by (simp add: runs_ok_def)
  from same_value_replay [OF this, of "plan_record plan"]
  show "same_value (rn_renamed s) (replayed base (rn_history s @ [plan_record plan])) (after, cp_instant plan)"
    by (simp add: replayed_snoc assms(5))
qed

lemma runs_transacts:
  assumes "runs_ok valid content ok base s" and "db_basis_t base = basis"
    and "\<forall>plan. plan_commit now items (rn_state s) = Inr plan \<longrightarrow> ok (plan_record plan)"
    and "transact app now items (rn_log s, rn_state s) = (res, log, st)"
  shows "runs_ok valid content ok base (s\<lparr>rn_log := log, rn_state := st,
      rn_history := rn_history s @ (case res of Inl _ \<Rightarrow> [] | Inr rp \<Rightarrow> [report_record rp])\<rparr>)"
proof (cases "plan_commit now items (rn_state s)")
  case (Inl e)
  then have "log = rn_log s" "st = rn_state s" "res = Inl e" using assms(4) by (auto simp: transact_def)
  then show ?thesis using assms(1) by (simp add: runs_ok_def)
next
  case (Inr plan)
  note plan = plan_commit_Inr [OF Inr] and replay = replay_plan [OF Inr]
  have ok: "ok (plan_record plan)" using assms(3) Inr by simp
  have idle: "rn_pending s = None" using assms(1) plan(1) by (cases "rn_pending s") (auto simp: runs_ok_def)
  obtain r1 log1 where app: "app (rn_log s) (plan_record plan) = (r1, log1)" by fastforce
  show ?thesis
  proof (cases r1)
    case (Inl e)
    then have "log = log1" "st = rn_state s" "\<exists>e. res = Inl e" using assms(4) app \<open>plan_commit _ _ _ = Inr plan\<close> by (auto simp: transact_def)
    moreover obtain extra where "valid (rn_log s)" "content (rn_log s) = rn_history s @ extra" using assms(1) by (auto simp: runs_ok_def)
    ultimately show ?thesis using append_keeps [OF _ ok app] assms(1) idle by (auto simp: runs_ok_def)
  next
    case (Inr u)
    note commit = runs_commit [OF assms(1,2) ok plan(3) replay app [unfolded Inr]]
    let ?after = "with_transaction_at (cp_t plan) (cp_instant plan) (pt_datoms (cp_tx plan)) (ts_db (rn_state s))"
    have "log = log1" "ts_db st = ?after" "ts_last_instant st = cp_instant plan"
      and "\<exists>rp. res = Inr rp \<and> report_record rp = plan_record plan"
      using assms(4) app Inr \<open>plan_commit _ _ _ = Inr plan\<close> plan(2)
      by (auto simp: transact_def Let_def report_record_def plan_record_def)
    then show ?thesis using commit idle by (auto simp: runs_ok_def)
  qed
qed

lemma runs_commits_batch:
  assumes "runs_ok valid content ok base s" and "db_basis_t base = basis" and "\<not> ts_async_pending (rn_state s)"
    and "\<forall>p \<in> set (fst (prepare_all (batch_cursor_of (rn_state s)) reqs)). ok (pr_record p)"
    and "commit_batch app reqs (rn_log s, rn_state s) = (res, log, st)"
  shows "runs_ok valid content ok base (s\<lparr>rn_log := log, rn_state := st,
      rn_history := rn_history s @ (case res of Inl _ \<Rightarrow> [] | Inr rps \<Rightarrow> map report_record rps),
      rn_renamed := rn_renamed s \<or> list_ex is_naming reqs\<rparr>)"
proof -
  let ?c = "batch_cursor_of (rn_state s)"
  obtain ps c where ps: "prepare_all ?c reqs = (ps, c)" by fastforce
  note replays = prepare_all_replays [OF ps]
  obtain r1 log1 where app: "append_all app (rn_log s) (map pr_record ps) = (r1, log1)" by fastforce
  have ok: "\<forall>r \<in> set (map pr_record ps). ok r" using assms(4) ps by simp
  obtain extra where extra: "valid (rn_log s)" "content (rn_log s) = rn_history s @ extra" using assms(1) by (auto simp: runs_ok_def)
  have idle: "rn_pending s = None" using assms(1,3) by (cases "rn_pending s") (auto simp: runs_ok_def)
  show ?thesis
  proof (cases r1)
    case (Inl e)
    then have "log = log1" "st = rn_state s" "\<exists>e. res = Inl e" using assms(5) app ps by (auto simp: commit_batch_def)
    then show ?thesis using append_all_keeps [OF extra(1) ok app extra(2)] assms(1) idle
      by (auto simp: runs_ok_def elim: same_value_mono)
  next
    case (Inr u)
    have "map pr_record ps \<noteq> [] \<longrightarrow> tr_t (hd (map pr_record ps)) = next_from basis (rn_history s)"
      using runs_next_t [OF assms(1,2)] prepare_all_first [of ?c reqs] ps by (cases ps) (auto simp: batch_cursor_of_def)
    note durable = append_all_extends [OF extra(1) ok app [unfolded Inr] extra(2) this]
    let ?now = "(ts_db (rn_state s), ts_last_instant (rn_state s))" and ?named = "list_ex is_naming reqs"
    have after: "same_value ?named (fold replay_record (map pr_record ps) ?now) (bc_db c, bc_last_instant c)"
      using replays by (simp add: batch_cursor_of_def)
    then have "snd (fold replay_record (map pr_record ps) ?now) = bc_last_instant c" by (simp add: same_value_def)
    then have "ts_last_instant (rn_state s) \<le>s bc_last_instant c" using replay_last_grows by metis
    moreover have "log = log1" "ts_db st = bc_db c" "ts_last_instant st = i64_max (ts_last_instant (rn_state s)) (bc_last_instant c)"
      "res = Inr (map prepared_report ps)"
      using assms(5) app ps Inr by (auto simp: commit_batch_def install_batch_def Let_def)
    moreover have "\<exists>more. content log1 = (rn_history s @ map pr_record ps) @ more" using durable by (cases ps) auto
    moreover have "map report_record (map prepared_report ps) = map pr_record ps" using replays by simp
    moreover have "same_value (rn_renamed s \<or> ?named) (replayed base (rn_history s @ map pr_record ps)) (bc_db c, bc_last_instant c)"
      unfolding replayed_append
      by (rule same_value_trans [OF same_value_fold after]) (use assms(1) in \<open>simp add: runs_ok_def\<close>)
    ultimately show ?thesis using durable idle by (simp add: runs_ok_def i64_max_right del: map_map)
  qed
qed

lemma replay_plan_any:
  assumes "plan_commit now items st = Inr plan"
  shows "replay_record (plan_record plan) (d, ts_last_instant st) =
    (with_transaction_at (cp_t plan) (cp_instant plan) (pt_datoms (cp_tx plan)) d, cp_instant plan)"
  using replay_plan [OF assms] by (simp add: replay_record_def)

lemma runs_step:
  assumes "transactor_step app ok s s'" and "runs_ok valid content ok base s" and "db_basis_t base = basis"
  shows "runs_ok valid content ok base s'"
  using assms(1)
proof cases
  case (transacts now items res log st)
  then show ?thesis using runs_transacts [OF assms(2,3)] by blast
next
  case (commits_batch reqs res log st)
  then show ?thesis using runs_commits_batch [OF assms(2,3)] by blast
next
  case (begins now items plan st)
  have plan: "plan_commit now items (rn_state s) = Inr plan" "st = (rn_state s)\<lparr>ts_async_pending := True\<rparr>"
    using begins(2) by (auto simp: async_begin_def split: sum.splits)
  then show ?thesis
    using assms(2) begins(1,3) plan_commit_Inr [OF plan(1)] replay_plan_any [OF plan(1)] by (simp add: runs_ok_def)
next
  case (finishes plan u log rp st)
  have plan: "ok (plan_record plan)" "cp_t plan = db_basis_t (ts_db (rn_state s)) + 1"
    "replay_record (plan_record plan) (ts_db (rn_state s), ts_last_instant (rn_state s)) =
      (with_transaction_at (cp_t plan) (cp_instant plan) (pt_datoms (cp_tx plan)) (ts_db (rn_state s)), cp_instant plan)"
    using assms(2) finishes(2) by (auto simp: runs_ok_def)
  note commit = runs_commit [OF assms(2,3) plan finishes(3)]
  have "report_record rp = plan_record plan" "ts_last_instant st = cp_instant plan"
    "ts_db st = with_transaction_at (cp_t plan) (cp_instant plan) (pt_datoms (cp_tx plan)) (ts_db (rn_state s))"
    using finishes(4) by (auto simp: async_finish_def Let_def report_record_def plan_record_def)
  then show ?thesis using commit finishes(1) by (auto simp: runs_ok_def)
next
  case (drops plan log)
  obtain extra where "valid (rn_log s)" "content (rn_log s) = rn_history s @ extra" "ok (plan_record plan)"
    using assms(2) drops(2) by (auto simp: runs_ok_def)
  then have "valid log \<and> (\<exists>more. content log = rn_history s @ more)"
    using drops(3) append_keeps by blast
  then show ?thesis using assms(2) drops(1) by (auto simp: runs_ok_def async_drop_def)
next
  case (renames ids i l)
  have basis: "db_basis_t (with_naming ids i l (ts_db (rn_state s))) = db_basis_t (ts_db (rn_state s))"
    by (rule facts_basis) simp
  have "same_value True (replayed base (rn_history s)) (with_naming ids i l (ts_db (rn_state s)), ts_last_instant (rn_state s))"
    using assms(2) by (simp add: runs_ok_def same_value_def)
  then show ?thesis using assms(2) basis by (simp add: renames runs_ok_def update_naming_def)
next
  case (raises_floor floor)
  then show ?thesis using assms(2) by (auto simp: runs_ok_def raise_allocation_floor_def)
next
  case subscribes
  then show ?thesis using assms(2) by (auto simp: runs_ok_def subscribe_def)
qed

text \<open>Whenever the process stops, the log replays to the value it had, and possibly on to commits it never reported.\<close>

lemma runs_recover:
  assumes "(transactor_step app ok)\<^sup>*\<^sup>* (transactor_start base log (content log)) s" and "valid log" and "db_basis_t base = basis"
  shows "valid (rn_log s)" and "contiguous basis (content (rn_log s))"
    and "\<exists>extra. content (rn_log s) = rn_history s @ extra \<and>
      same_value (rn_renamed s) (replayed base (rn_history s)) (ts_db (rn_state s), ts_last_instant (rn_state s))"
proof -
  have "runs_ok valid content ok base (transactor_start base log (content log))"
    using assms(2) recover_from_records_replayed [of base "content log"] by (simp add: runs_ok_def transactor_start_def prod_eq_iff)
  with assms(1) have "runs_ok valid content ok base s"
    by (induction rule: rtranclp_induct) (auto intro: runs_step [OF _ _ assms(3)])
  then show "valid (rn_log s)" "contiguous basis (content (rn_log s))"
    "\<exists>extra. content (rn_log s) = rn_history s @ extra \<and>
      same_value (rn_renamed s) (replayed base (rn_history s)) (ts_db (rn_state s), ts_last_instant (rn_state s))"
    using log_numbered by (auto simp: runs_ok_def)
qed

end

subsection \<open>Every log is one a transactor can run on\<close>

definition log_commit :: "('s \<Rightarrow> tx_record \<Rightarrow> log_error + 's) \<Rightarrow> 's \<Rightarrow> tx_record \<Rightarrow> (log_error + unit) \<times> 's" where
  "log_commit app s r = (case app s r of Inl e \<Rightarrow> (Inl e, s) | Inr s' \<Rightarrow> (Inr (), s'))"

sublocale transaction_log \<subseteq> commits: commit_log valid content basis ok "log_commit app"
proof unfold_locales
  fix s r s' and u :: unit and e
  assume s: "valid s" "ok r"
  show "tr_t r = next_from basis (content s) \<and> valid s' \<and> content s' = content s @ [r]" if "log_commit app s r = (Inr u, s')"
  proof -
    have "app s r = Inr s'" using that by (auto simp: log_commit_def split: sum.splits)
    then show ?thesis using app_next [OF s] app_content [OF s] by blast
  qed
  show "valid s' \<and> (content s' = content s \<or> content s' = content s @ [r])" if "log_commit app s r = (Inl e, s')"
    using that s by (auto simp: log_commit_def split: sum.splits)
qed (rule numbered)

text \<open>The log file, with what the operating system does to each append still to come; it refuses to grow a file to \<open>2 ^ 64\<close> bytes.\<close>

type_synonym file_log = "directory \<times> indexed_file \<times> io_outcome list"

definition file_commit ::
    "log_env \<Rightarrow> (tx_record \<Rightarrow> bytes) \<Rightarrow> string \<Rightarrow> file_log \<Rightarrow> tx_record \<Rightarrow> (log_error + unit) \<times> file_log" where
  "file_commit env nonce path = (\<lambda>(dir, f, outcomes) r.
    let write = (\<lambda>outcome. file_log_append env outcome (Some (nonce r)) dir f r);
        outcome = (case outcomes of [] \<Rightarrow> Durable | w # _ \<Rightarrow> w);
        too_large = (case om_get (fst (snd (write outcome))) path of None \<Rightarrow> False | Some file \<Rightarrow> \<not> length file < 2 ^ 64)
    in case write (if too_large then Short_Write 0 ''file too large'' else outcome) of
         (res, dir, f) \<Rightarrow> (res, dir, f, tl outcomes))"

text \<open>A log file as the transactor may find it: the handle in step with the file, or poisoned by a failed append.\<close>

definition file_log_holds :: "log_env \<Rightarrow> record_codec \<Rightarrow> string \<Rightarrow> file_log \<Rightarrow> tx_record list \<Rightarrow> bool" where
  "file_log_holds env codec path s rs \<longleftrightarrow> (case s of (dir, f, _) \<Rightarrow>
     contiguous 0 rs \<and> (\<forall>r \<in> set rs. tr_t r \<noteq> - 1) \<and>
     (\<exists>fs torn. om_get dir path = Some (concat fs @ torn) \<and> file_holds env codec (concat fs @ torn) rs fs torn) \<and>
     (file_log_state env codec path (dir, f) rs \<or> if_poisoned f))"

definition whole_records :: "log_env \<Rightarrow> record_codec \<Rightarrow> string \<Rightarrow> file_log \<Rightarrow> tx_record list" where
  "whole_records env codec path s = (case om_get (fst s) path of
     None \<Rightarrow> []
   | Some file \<Rightarrow> (case scan_frames env codec file 0 of
       Inl _ \<Rightarrow> [] | Inr (_, n) \<Rightarrow> (case decode_framed_payloads env codec (take n file) of Inl _ \<Rightarrow> [] | Inr rs \<Rightarrow> rs)))"

lemma whole_records_holds:
  assumes "codec_ok env codec" and "file_log_holds env codec path s rs"
  shows "whole_records env codec path s = rs"
proof -
  obtain fs torn where fs: "om_get (fst s) path = Some (concat fs @ torn)" "file_holds env codec (concat fs @ torn) rs fs torn"
    using assms(2) by (auto simp: file_log_holds_def split: prod.splits)
  then have "decode_framed_payloads env codec (concat fs) = Inr rs"
    using decode_framed_payloads_concat [OF assms(1)] by (simp add: file_holds_def)
  then show ?thesis using fs(1) scan_holds [OF assms(1) fs(2)] by (simp add: whole_records_def)
qed

lemma file_log_state_holds:
  assumes "file_log_state env codec path (dir, f) rs"
  shows "file_log_holds env codec path (dir, f, outcomes) rs"
proof -
  obtain fs where "om_get dir path = Some (concat fs @ [])" "file_holds env codec (concat fs @ []) rs fs []"
    using assms by (auto simp: file_log_state_def)
  then have "\<exists>fs torn. om_get dir path = Some (concat fs @ torn) \<and> file_holds env codec (concat fs @ torn) rs fs torn" by blast
  then show ?thesis using assms by (auto simp: file_log_holds_def file_log_state_def)
qed

lemma poisoned_append:
  assumes "if_poisoned f"
  shows "\<exists>e. file_log_append env outcome entropy dir f r = (Inl e, dir, f)"
  using assms by (simp add: file_log_append_def idx_refresh_def ensure_healthy_def)

lemma idx_append_failure:
  assumes app: "idx_append env outcome entropy dir f r = (Inl e, dir', f')"
  shows "dir' = dir \<and> f' = f \<or> if_poisoned f' \<or> (\<exists>file. om_get dir' (if_path f) = Some file \<and> \<not> length file < 2 ^ 64)"
proof -
  define plan where "plan =
      bindr (ensure_healthy f) (\<lambda>_.
      bindr (if if_writable f then Inr () else Inl (Native ''transaction log is read-only'')) (\<lambda>_.
      bindr (idx_read dir f) (\<lambda>file.
      bindr (if length file \<noteq> if_durable_len f then Inl Corrupt else Inr ()) (\<lambda>_.
      bindr (codec_encode env entropy (if_codec f) r) (\<lambda>payload.
      bindr (append_framed_payload env [] payload) (\<lambda>frame. Inr (file, frame)))))))"
  note app = app [unfolded idx_append_def, folded plan_def]
  show ?thesis
  proof (cases plan)
    case (Inl e)
    then show ?thesis using app by auto
  next
    case (Inr planned)
    then obtain bs frame where plan: "plan = Inr (bs, frame)" by (cases planned) simp
    then have "length bs = if_durable_len f" by (auto simp: plan_def bindr_eq_Inr split: if_splits)
    then show ?thesis using app plan by (cases outcome) (auto simp: Let_def checked_add_def split: if_splits)
  qed
qed

lemma append_failure_leaves_handle:
  assumes "codec_ok env codec" and "file_log_state env codec path (dir, f) rs"
    and "file_log_append env outcome entropy dir f r = (Inl e, dir', f')"
    and "\<forall>file. om_get dir' path = Some file \<longrightarrow> length file < 2 ^ 64"
  shows "dir' = dir \<and> f' = f \<or> if_poisoned f'"
proof -
  have f: "if_path f = path" using assms(2) by (simp add: file_log_state_def)
  have "f' = f \<and> dir' = dir \<or> idx_append env outcome entropy dir f r = (Inl e, dir', f')"
    using assms(3) file_log_refreshes [OF assms(1,2)] by (auto simp: file_log_append_def split: if_splits)
  then show ?thesis using idx_append_failure [of env outcome entropy dir f r e dir' f'] f assms(4) by blast
qed

lemma file_log_append_healthy:
  assumes "codec_ok env codec" and "file_log_state env codec path (dir, f) rs" and "appendable r" and "length nonce = 12"
    and "file_log_append env outcome (Some nonce) dir f r = (Inr u, dir', f')"
    and "\<forall>file. om_get dir' path = Some file \<longrightarrow> length file < 2 ^ 64"
  shows "file_log_state env codec path (dir', f') (rs @ [r])" and "tr_t r = next_after rs"
proof -
  have "outcome = Durable"
    using file_log_append_shape [OF assms(1,2,5)] idx_append_shape [of env outcome "Some nonce" dir f r "Inr u" dir' f'] by auto
  then show "file_log_state env codec path (dir', f') (rs @ [r])" "tr_t r = next_after rs"
    using file_log_append_state [OF assms(1-4)] assms(5) by auto
qed

lemma open_index_file_get: "open_index_file dir path True = Inr (bs, dir) \<Longrightarrow> om_get dir path = Some bs"
proof (cases "om_get dir path")
  case None
  assume "open_index_file dir path True = Inr (bs, dir)"
  then have "om_get (om_insert path [] dir) path = None" using None by (simp add: open_index_file_def)
  then show ?thesis by simp
qed (simp add: open_index_file_def)

lemma file_log_holds_small:
  "file_log_holds env codec path (dir, f, outcomes) rs \<Longrightarrow> om_get dir path = Some file \<Longrightarrow> length file < 2 ^ 64"
  by (auto simp: file_log_holds_def file_holds_def)

lemma nothing_written:
  assumes "codec_ok env codec" and "file_log_holds env codec path (dir, f, outcomes) rs"
    and "file_log_append env (Short_Write 0 e) entropy dir f r = (res, dir', f')"
  shows "om_get dir' path = om_get dir path"
proof (cases "if_poisoned f")
  case True
  then show ?thesis using poisoned_append [of f env "Short_Write 0 e" entropy dir r] assms(3) by auto
next
  case False
  then have state: "file_log_state env codec path (dir, f) rs" using assms(2) by (simp add: file_log_holds_def)
  then have "if_path f = path" by (simp add: file_log_state_def)
  then show ?thesis
    using file_log_append_shape [OF assms(1) state assms(3)] idx_append_shape [of env "Short_Write 0 e" entropy dir f r res dir' f']
    by auto
qed

lemma file_commit_append:
  assumes "codec_ok env codec" and "file_log_holds env codec path (dir, f, outcomes) rs"
    and "file_commit env nonce path (dir, f, outcomes) r = (res, s')"
  obtains outcome dir' f' where "s' = (dir', f', tl outcomes)"
    and "file_log_append env outcome (Some (nonce r)) dir f r = (res, dir', f')"
    and "\<forall>file. om_get dir' path = Some file \<longrightarrow> length file < 2 ^ 64"
proof -
  let ?append = "\<lambda>outcome. file_log_append env outcome (Some (nonce r)) dir f r"
  define first where "first = (case outcomes of [] \<Rightarrow> Durable | w # _ \<Rightarrow> w)"
  define too_large where "too_large = (case om_get (fst (snd (?append first))) path of None \<Rightarrow> False | Some file \<Rightarrow> \<not> length file < 2 ^ 64)"
  define outcome where "outcome = (if too_large then Short_Write 0 ''file too large'' else first)"
  obtain res' dir' f' where wrote: "?append outcome = (res', dir', f')" by (metis prod_cases3)
  have commit: "file_commit env nonce path (dir, f, outcomes) r = (res', dir', f', tl outcomes)"
  proof -
    have "file_commit env nonce path (dir, f, outcomes) r = (case ?append outcome of (res, dir, f) \<Rightarrow> (res, dir, f, tl outcomes))"
      unfolding file_commit_def first_def too_large_def outcome_def by (simp only: Let_def prod.case)
    then show ?thesis using wrote by simp
  qed
  have "\<forall>file. om_get dir' path = Some file \<longrightarrow> length file < 2 ^ 64"
  proof (cases too_large)
    case True
    then have "om_get dir' path = om_get dir path"
      using nothing_written [OF assms(1,2), of "''file too large''"] wrote by (simp add: outcome_def)
    then show ?thesis using file_log_holds_small [OF assms(2)] by simp
  next
    case False
    then show ?thesis using wrote by (auto simp: too_large_def outcome_def split: option.splits)
  qed
  then show thesis using that [of dir' f' outcome] wrote commit assms(3) by simp
qed

lemma file_commit_keeps:
  assumes "codec_ok env codec" and "length (nonce r) = 12" and "file_log_holds env codec path s rs" and "appendable r"
    and "file_commit env nonce path s r = (res, s')"
  shows "case res of Inr _ \<Rightarrow> tr_t r = next_after rs \<and> file_log_holds env codec path s' (rs @ [r])
    | Inl _ \<Rightarrow> file_log_holds env codec path s' rs \<or> file_log_holds env codec path s' (rs @ [r])"
proof -
  obtain dir f outcomes where s: "s = (dir, f, outcomes)" by (cases s)
  note holds = assms(3) [unfolded s]
  obtain outcome dir' f' where app: "s' = (dir', f', tl outcomes)"
      "file_log_append env outcome (Some (nonce r)) dir f r = (res, dir', f')"
      "\<forall>file. om_get dir' path = Some file \<longrightarrow> length file < 2 ^ 64"
    using file_commit_append [OF assms(1) holds] assms(5) unfolding s by metis
  show ?thesis
  proof (cases "if_poisoned f")
    case True
    then obtain e where "res = Inl e" "dir' = dir" "f' = f" using poisoned_append app(2) by (metis Pair_inject)
    then show ?thesis using holds app(1) by (simp add: file_log_holds_def)
  next
    case False
    then have state: "file_log_state env codec path (dir, f) rs" using holds by (simp add: file_log_holds_def)
    show ?thesis
    proof (cases res)
      case (Inr u)
      then show ?thesis
        using file_log_append_healthy [OF assms(1) state assms(4,2) app(2) [unfolded Inr] app(3)] file_log_state_holds app(1) by simp
    next
      case (Inl e)
      obtain qs fs torn where "open_index_file dir' path True = Inr (concat fs @ torn, dir')"
          "file_holds env codec (concat fs @ torn) qs fs torn" "contiguous 0 qs" "\<forall>q \<in> set qs. tr_t q \<noteq> - 1" "qs = rs \<or> qs = rs @ [r]"
        using file_log_append_leaves [OF assms(1) state assms(4,2) app(2,3)] by auto
      then have "if_poisoned f' \<Longrightarrow> file_log_holds env codec path s' qs"
        using open_index_file_get by (auto simp: app(1) file_log_holds_def)
      moreover have "dir' = dir \<and> f' = f \<Longrightarrow> file_log_holds env codec path s' rs"
        using holds by (simp add: app(1) file_log_holds_def)
      moreover have "dir' = dir \<and> f' = f \<or> if_poisoned f'"
        by (rule append_failure_leaves_handle [OF assms(1) state app(2) [unfolded Inl] app(3)])
      ultimately show ?thesis using \<open>qs = rs \<or> qs = rs @ [r]\<close> Inl by auto
    qed
  qed
qed

interpretation file_commits: commit_log
  "\<lambda>s. codec_ok env codec \<and> (\<forall>r. length (nonce r) = 12) \<and> (\<exists>rs. file_log_holds env codec path s rs)"
  "whole_records env codec path" 0 appendable "file_commit env nonce path" for env codec nonce path
proof unfold_locales
  fix s r s' and u :: unit and e
  assume "codec_ok env codec \<and> (\<forall>r. length (nonce r) = 12) \<and> (\<exists>rs. file_log_holds env codec path s rs)"
  then obtain rs where s: "codec_ok env codec" "\<forall>r. length (nonce r) = 12" "file_log_holds env codec path s rs"
      "whole_records env codec path s = rs"
    using whole_records_holds by blast
  show "contiguous 0 (whole_records env codec path s)" using s(3,4) by (auto simp: file_log_holds_def split: prod.splits)
  assume r: "appendable r"
  note keeps = file_commit_keeps [where nonce = nonce and r = r and s' = s', OF s(1) _ s(3) r]
  show "tr_t r = next_from 0 (whole_records env codec path s) \<and>
      (codec_ok env codec \<and> (\<forall>r. length (nonce r) = 12) \<and> (\<exists>rs. file_log_holds env codec path s' rs)) \<and>
      whole_records env codec path s' = whole_records env codec path s @ [r]" if "file_commit env nonce path s r = (Inr u, s')"
    using keeps [OF _ that] s whole_records_holds [OF s(1)] by (auto simp: next_from_0)
  show "(codec_ok env codec \<and> (\<forall>r. length (nonce r) = 12) \<and> (\<exists>rs. file_log_holds env codec path s' rs)) \<and>
      (whole_records env codec path s' = whole_records env codec path s \<or>
       whole_records env codec path s' = whole_records env codec path s @ [r])" if "file_commit env nonce path s r = (Inl e, s')"
    using keeps [OF _ that] s whole_records_holds [OF s(1), of path s'] by auto
qed

text \<open>C4. A transactor on a log file survives a crash at any moment. Start it on a directory without the
  file; let it transact, commit batches of transactions and schema updates, wait on asynchronous
  commits and drop them, and replace names, while every write to the file may be cut short, fail to
  sync or succeed. Opening what is left succeeds; the log holds the records of all the commits it
  reported, in order and without a hole, followed only by records of commits that were not
  acknowledged; recovery gives the transaction clock and the facts of the value it had (the datoms
  recorded, the basis, the id counter of the value and the instants), carried on by those records, and
  the very value when the names were not replaced since the start.\<close>

theorem transactor_survives_crash:
  assumes "codec_ok env (codec_new c 0)" and "\<forall>r. length (nonce r) = 12"
    and "om_get start path = None" and "file_log_open env start path c = Inr (f, dir)" and "db_basis_t base = 0"
    and "(transactor_step (file_commit env nonce path) appendable)\<^sup>*\<^sup>* (transactor_start base (dir, f, outcomes) []) s"
  shows "\<exists>g dir' extra st. file_log_open env (fst (rn_log s)) path c = Inr (g, dir') \<and>
    replay (file_range env) (dir', g) = Inr (rn_history s @ extra) \<and> contiguous 0 (rn_history s @ extra) \<and>
    recover_from base (replay (file_range env) (dir', g)) = Inr st \<and>
    (case fold replay_record extra (ts_db (rn_state s), ts_last_instant (rn_state s)) of (d, last_instant) \<Rightarrow>
       ts_last_instant st = last_instant \<and> facts_of (ts_db st) = facts_of d \<and> (rn_renamed s \<or> ts_db st = d))"
proof -
  let ?codec = "codec_new c 0"
  have fresh: "file_log_holds env ?codec path (dir, f, outcomes) []"
    by (rule file_log_state_holds [OF file_log_fresh [OF assms(1,3,4)]])
  then have valid: "codec_ok env ?codec \<and> (\<forall>r. length (nonce r) = 12) \<and> (\<exists>rs. file_log_holds env ?codec path (dir, f, outcomes) rs)"
    using assms(1,2) by blast
  have run: "(transactor_step (file_commit env nonce path) appendable)\<^sup>*\<^sup>*
      (transactor_start base (dir, f, outcomes) (whole_records env ?codec path (dir, f, outcomes))) s"
    using assms(6) whole_records_holds [OF assms(1) fresh] by simp
  note runs = file_commits.runs_recover [OF run valid assms(5)]
  obtain rs where rs: "file_log_holds env ?codec path (rn_log s) rs" using runs(1) by blast
  obtain extra where extra: "rs = rn_history s @ extra"
      "same_value (rn_renamed s) (replayed base (rn_history s)) (ts_db (rn_state s), ts_last_instant (rn_state s))"
    using runs(3) whole_records_holds [OF assms(1) rs] by auto
  obtain fs torn where fs: "om_get (fst (rn_log s)) path = Some (concat fs @ torn)" "file_holds env ?codec (concat fs @ torn) rs fs torn"
      "contiguous 0 rs" "\<forall>r \<in> set rs. tr_t r \<noteq> - 1"
    using rs by (auto simp: file_log_holds_def split: prod.splits)
  then have "open_index_file (fst (rn_log s)) path True = Inr (concat fs @ torn, fst (rn_log s))" by (simp add: open_index_file_def)
  then obtain g dir' where g: "file_log_open env (fst (rn_log s)) path c = Inr (g, dir')" "file_log_state env ?codec path (dir', g) rs"
    using file_log_open_state [OF assms(1) _ fs(2-4)] by blast
  have "replay (file_range env) (dir', g) = Inr rs"
    using file_log_range_state [OF assms(1) g(2)] by (simp add: replay_def file_range_def range_records_all)
  moreover have "same_value (rn_renamed s) (ts_db (recover_from_records base rs), ts_last_instant (recover_from_records base rs))
      (fold replay_record extra (ts_db (rn_state s), ts_last_instant (rn_state s)))"
    using recover_from_records_replayed [of base rs] same_value_fold [OF extra(2), of extra] by (simp add: extra(1) replayed_append)
  ultimately show ?thesis using g(1) fs(3) extra(1) by (auto simp: recover_from_def same_value_def case_prod_unfold)
qed

definition wit_first :: tx_record where
  "wit_first = \<lparr>tr_t = 1, tr_tx_instant = 5, tr_datoms = [tx_instant_datom 1 5]\<rparr>"

lemma empty_prepare:
  "prepare db_default [] tx n = Inr \<lparr>pt_datoms = [], pt_tempids = om_empty\<rparr>"
  "advance_allocation db_default \<lparr>pt_datoms = [], pt_tempids = om_empty\<rparr> tx n = (\<lparr>pt_datoms = [], pt_tempids = om_empty\<rparr>, n)"
  "seal_tx_instant [] 1 5 I64_MIN = Inr ([tx_instant_datom 1 5], 5)"
  "db_basis_t db_default = 0"
  by (simp add: prepare_def assign_tempids_def validate_registry_def validate_granted_ids_def os_elems_def om_keys_def Let_def)
    (simp_all add: advance_allocation_def lease_saga_grants_def om_values_def seal_tx_instant_def asserted_instant_def i64_max_def
      i64_saturating_succ_def I64_MIN_def I64_MAX_def db_default_def Let_def)

lemma fresh_state:
  "ts_db (recover_from_records db_default []) = db_default" "ts_last_instant (recover_from_records db_default []) = I64_MIN"
  "\<not> ts_async_pending (recover_from_records db_default [])"
  by (simp_all add: recover_from_records_replayed replayed_def)

lemma empty_transaction:
  "plan_commit (Some 5) [] (recover_from_records db_default []) = Inr plan \<Longrightarrow> plan_record plan = wit_first"
  "\<exists>plan. plan_commit (Some 5) [] (recover_from_records db_default []) = Inr plan"
proof -
  let ?st = "recover_from_records db_default []"
  have plan: "plan_commit (Some 5) [] ?st = Inr \<lparr>cp_before = db_default, cp_tx = \<lparr>pt_datoms = [tx_instant_datom 1 5], pt_tempids = om_empty\<rparr>,
      cp_t = 1, cp_instant = 5, cp_next_user = ts_next_user ?st\<rparr>"
    using fresh_state empty_prepare by (simp add: plan_commit_def clock_millis_def Let_def)
  then show "\<exists>plan. plan_commit (Some 5) [] ?st = Inr plan" by blast
  show "plan_commit (Some 5) [] ?st = Inr plan \<Longrightarrow> plan_record plan = wit_first"
    using plan by (auto simp: plan_record_def wit_first_def)
qed

lemma wit_first_appendable: "appendable wit_first" "length (encode_record wit_first) < 2 ^ 62"
proof -
  have "LOG_MAGIC_T \<noteq> 1" by (simp add: LOG_MAGIC_T_def crypt_simps u64_from_be_bytes_def be_val_def)
  then show "appendable wit_first"
    by (simp add: appendable_def loggable_def record_ok_def record_datom_ok_def wit_first_def tx_instant_datom_def)
  show "length (encode_record wit_first) < 2 ^ 62"
    by (simp add: encode_record_def encode_record_datom_def wit_first_def tx_instant_datom_def Let_def)
qed

theorem transactor_survives_crash_witness:
  "\<exists>f dir s g dir' extra. file_log_open wit_env om_empty ''x.log'' None = Inr (f, dir) \<and>
     (transactor_step (file_commit wit_env (\<lambda>_. replicate 12 0) ''x.log'') appendable)\<^sup>*\<^sup>*
       (transactor_start db_default (dir, f, []) []) s \<and> rn_history s = [wit_first] \<and>
     file_log_open wit_env (fst (rn_log s)) ''x.log'' None = Inr (g, dir') \<and>
     replay (file_range wit_env) (dir', g) = Inr (wit_first # extra)"
proof -
  let ?p = "''x.log''" and ?nonce = "\<lambda>_ :: tx_record. replicate 12 (0 :: 8 word)" and ?st = "recover_from_records db_default []"
  have ok: "codec_ok wit_env (codec_new None 0)" by (simp add: codec_ok_def codec_new_def mode_of_cipher_def)
  have none: "om_get om_empty ?p = (None :: bytes option)" by simp
  obtain f dir where opened: "file_log_open wit_env om_empty ?p None = Inr (f, dir)" "file_log_state wit_env (codec_new None 0) ?p (dir, f) []"
    using plain_open_first [OF none] by blast
  let ?frame = "frame_bytes wit_env (encode_record wit_first)"
  have small: "length ?frame < 2 ^ 64" using wit_first_appendable(2) by (simp add: length_frame_bytes)
  obtain f' where append: "file_log_append wit_env Durable (Some (?nonce wit_first)) dir f wit_first = (Inr (), om_insert ?p ?frame dir, f')"
    using plain_append_first [OF opened(2) _ wit_first_appendable(2)] by (auto simp: wit_first_def)
  then have commit: "file_commit wit_env ?nonce ?p (dir, f, []) wit_first = (Inr (), om_insert ?p ?frame dir, f', [])"
    using small by (simp add: file_commit_def Let_def)
  obtain plan where plan: "plan_commit (Some 5) [] ?st = Inr plan" "plan_record plan = wit_first"
    using empty_transaction by blast
  let ?start = "transactor_start db_default (dir, f, [] :: io_outcome list) []"
  obtain rp st where trans: "transact (file_commit wit_env ?nonce ?p) (Some 5) [] ((dir, f, []), ?st)
      = (Inr rp, (om_insert ?p ?frame dir, f', []), st)" "report_record rp = wit_first"
    using plan commit by (auto simp: transact_def Let_def report_record_def plan_record_def)
  let ?s = "?start\<lparr>rn_log := (om_insert ?p ?frame dir, f', [] :: io_outcome list), rn_state := st, rn_history := rn_history ?start @ [report_record rp]\<rparr>"
  have "transactor_step (file_commit wit_env ?nonce ?p) appendable ?start ?s"
    using transacts [of "Some 5" "[]" ?start appendable "file_commit wit_env ?nonce ?p" "Inr rp"] plan wit_first_appendable(1) trans(1)
    by (simp add: transactor_start_def)
  then have run: "(transactor_step (file_commit wit_env ?nonce ?p) appendable)\<^sup>*\<^sup>* ?start ?s" by (rule r_into_rtranclp)
  have history: "rn_history ?s = [wit_first]" using trans(2) by (simp add: transactor_start_def)
  note basis = empty_prepare(4)
  obtain g dir' extra where "file_log_open wit_env (fst (rn_log ?s)) ?p None = Inr (g, dir')"
      "replay (file_range wit_env) (dir', g) = Inr (rn_history ?s @ extra)"
    using transactor_survives_crash [OF ok _ none opened(1) basis run] by auto
  then show ?thesis
    using opened(1) run history
    by (intro exI [of _ f] exI [of _ dir] exI [of _ ?s] exI [of _ g] exI [of _ dir'] exI [of _ extra] conjI) simp_all
qed

end
