(* ===== verification/Transactor_Batch.thy ===== *)
theory Transactor_Batch
  imports Transactor_Recovery
begin

text \<open>
  Group commit gives what committing one request after the other gives, and ids are handed out once.
\<close>

subsection \<open>Group commit\<close>

fun transact_each ::
    "('l \<Rightarrow> tx_record \<Rightarrow> (log_error + unit) \<times> 'l) \<Rightarrow> 'l \<times> tx_state \<Rightarrow> (tx_item list \<times> nat) list \<Rightarrow> tx_report list \<times> 'l \<times> tx_state" where
  "transact_each app s [] = ([], s)"
| "transact_each app s ((items, ms) # reqs) = (case transact app (Some ms) items s of
     (Inl _, s) \<Rightarrow> transact_each app s reqs
   | (Inr rp, s) \<Rightarrow> (case transact_each app s reqs of (rps, s) \<Rightarrow> (rp # rps, s)))"

definition as_request :: "tx_item list \<times> nat \<Rightarrow> batch_request" where
  "as_request = (\<lambda>(items, ms). Request items (of_nat ms) None)"

text \<open>The requests a batch refuses because of the transaction clock.\<close>

fun clock_refused :: "batch_cursor \<Rightarrow> batch_request list \<Rightarrow> bool" where
  "clock_refused c [] = False"
| "clock_refused c (Request items now rules # reqs) = (case prepare_transaction c items now rules of
     (Inl (TxInstantNotMonotonic _ _), _) \<Rightarrow> True
   | (_, c) \<Rightarrow> clock_refused c reqs)"
| "clock_refused c (Resolved ds now # reqs) = (case prepare_datoms c ds now of
     (Inl _, _) \<Rightarrow> True
   | (_, c) \<Rightarrow> clock_refused c reqs)"
| "clock_refused c (Naming i l # reqs) = clock_refused (intern_naming c i l) reqs"

definition state_of_cursor :: "tx_state \<Rightarrow> batch_cursor \<Rightarrow> tx_report list \<Rightarrow> tx_state" where
  "state_of_cursor st c reports = st\<lparr>ts_db := bc_db c, ts_next_user := bc_next_user c, ts_last_instant := bc_last_instant c,
     ts_subscribers := fold broadcast reports (ts_subscribers st)\<rparr>"

text \<open>One request, in a batch and on its own.\<close>

lemma transact_as_prepared:
  assumes "\<forall>log r. \<exists>log'. app log r = (Inr (), log')" and "\<not> ts_async_pending st" and "ms < 2 ^ 63"
    and "prepare_transaction (batch_cursor_of st) items (of_nat ms) None = (res, c)"
  shows "case res of
      Inr p \<Rightarrow> transact app (Some ms) items (log, st) =
        (Inr (prepared_report p), snd (app log (pr_record p)), state_of_cursor st c [prepared_report p])
    | Inl e \<Rightarrow> transact app (Some ms) items (log, st) = (Inl (TxRejected e), log, st) \<and>
        ((\<forall>s l. e \<noteq> TxInstantNotMonotonic s l) \<longrightarrow> c = batch_cursor_of st)"
proof -
  let ?t = "db_basis_t (ts_db st) + 1"
  show ?thesis
  proof (cases "prepare (ts_db st) items (tx_entity ?t) (ts_next_user st)")
    case (Inl e)
    then have "res = Inl e" "c = batch_cursor_of st" using assms(4) by (simp_all add: prepare_transaction_def batch_cursor_of_def Let_def)
    then show ?thesis using Inl assms(2) by (simp add: transact_def plan_commit_def Let_def)
  next
    case (Inr p)
    obtain q n where alloc: "advance_allocation (ts_db st) p (tx_entity ?t) (ts_next_user st) = (q, n)" by fastforce
    show ?thesis
    proof (cases "seal_tx_instant (pt_datoms q) ?t (of_nat ms) (ts_last_instant st)")
      case (Inl e)
      then have "res = Inl e" "\<exists>s l. e = TxInstantNotMonotonic s l"
        using assms(4) Inr alloc
        by (auto simp: prepare_transaction_def batch_cursor_of_def Let_def seal_tx_instant_def split: option.splits if_splits)
      then show ?thesis using Inl Inr alloc assms(2,3) by (auto simp: transact_def plan_commit_def clock_millis_def Let_def)
    next
      case (Inr sealed)
      then obtain ds i where seal: "seal_tx_instant (pt_datoms q) ?t (of_nat ms) (ts_last_instant st) = Inr (ds, i)" by (cases sealed) auto
      let ?plan = "\<lparr>cp_before = ts_db st, cp_tx = q\<lparr>pt_datoms := ds\<rparr>, cp_t = ?t, cp_instant = i, cp_next_user = n\<rparr>"
      have plan: "plan_commit (Some ms) items st = Inr ?plan"
        using \<open>prepare _ _ _ _ = Inr p\<close> alloc seal assms(2,3) by (simp add: plan_commit_def clock_millis_def Let_def)
      obtain log' where "app log (plan_record ?plan) = (Inr (), log')" using assms(1) by blast
      moreover have "res = Inr \<lparr>pr_record = plan_record ?plan, pr_db_before = ts_db st, pr_db_after = with_transaction_at ?t i ds (ts_db st),
          pr_tx = q\<lparr>pt_datoms := ds\<rparr>, pr_tx_instant = i\<rparr>"
        "c = \<lparr>bc_db = with_transaction_at ?t i ds (ts_db st), bc_next_user = n, bc_last_instant = i\<rparr>"
        using assms(4) \<open>prepare _ _ _ _ = Inr p\<close> alloc seal
        by (simp_all add: prepare_transaction_def batch_cursor_of_def Let_def plan_record_def)
      ultimately show ?thesis using plan by (auto simp: transact_def Let_def state_of_cursor_def prepared_report_def)
    qed
  qed
qed

lemma state_of_cursor_simps [simp]:
  "batch_cursor_of (state_of_cursor st c rps) = c" "ts_async_pending (state_of_cursor st c rps) = ts_async_pending st"
  "state_of_cursor (state_of_cursor st c rps) c' rps' = state_of_cursor st c' (rps @ rps')"
  "state_of_cursor st (batch_cursor_of st) [] = st"
  by (simp_all add: state_of_cursor_def batch_cursor_of_def)

lemma prepare_all_sequential:
  assumes "\<forall>log r. \<exists>log'. app log r = (Inr (), log')" and "\<not> ts_async_pending st" and "\<forall>(items, ms) \<in> set reqs. ms < 2 ^ 63"
    and "prepare_all (batch_cursor_of st) (map as_request reqs) = (ps, c)" and "\<not> clock_refused (batch_cursor_of st) (map as_request reqs)"
  shows "\<exists>log'. append_all app log (map pr_record ps) = (Inr (), log') \<and>
    transact_each app (log, st) reqs = (map prepared_report ps, log', state_of_cursor st c (map prepared_report ps))"
  using assms(2-5)
proof (induction reqs arbitrary: log st ps)
  case (Cons req reqs)
  obtain items ms where req: "req = (items, ms)" by (cases req)
  obtain res m where res: "prepare_transaction (batch_cursor_of st) items (of_nat ms) None = (res, m)" by fastforce
  have ms: "ms < 2 ^ 63" using Cons.prems(2) by (simp add: req)
  note one = transact_as_prepared [OF assms(1) Cons.prems(1) ms res, where log = log]
  show ?case
  proof (cases res)
    case (Inl e)
    have "\<forall>s l. e \<noteq> TxInstantNotMonotonic s l" using Cons.prems(4) res Inl by (auto simp: req as_request_def split: tx_error.splits)
    then have "m = batch_cursor_of st" "transact app (Some ms) items (log, st) = (Inl (TxRejected e), log, st)" using one Inl by auto
    then show ?thesis
      using Cons.IH [OF Cons.prems(1), of ps log] Cons.prems(2-4) res Inl by (auto simp: req as_request_def split: tx_error.splits)
  next
    case (Inr p)
    obtain log1 where log1: "app log (pr_record p) = (Inr (), log1)" using assms(1) by blast
    then have first: "transact app (Some ms) items (log, st) = (Inr (prepared_report p), log1, state_of_cursor st m [prepared_report p])"
      using one Inr by simp
    obtain qs where qs: "prepare_all m (map as_request reqs) = (qs, c)" "ps = p # qs"
      using Cons.prems(3) res Inr by (auto simp: req as_request_def split: prod.splits)
    have "\<not> clock_refused m (map as_request reqs)" using Cons.prems(4) res Inr by (simp add: req as_request_def)
    then obtain log' where "append_all app log1 (map pr_record qs) = (Inr (), log')" "transact_each app (log1, state_of_cursor st m [prepared_report p]) reqs
        = (map prepared_report qs, log', state_of_cursor (state_of_cursor st m [prepared_report p]) c (map prepared_report qs))"
      using Cons.IH [of "state_of_cursor st m [prepared_report p]" qs log1] Cons.prems(1,2) qs(1) by auto
    then show ?thesis using log1 first qs(2) by (simp add: req)
  qed
next
  case Nil
  then have "c = batch_cursor_of st" "ps = []" by simp_all
  then show ?case by simp
qed

text \<open>C18. Group commit commits like committing one at a time, on a log that takes every record. Prepare
  transactions on a private cursor, append their records and install the batch, or transact the same
  requests one after the other: the requests accepted, the reports, the records in the log, what each
  subscriber receives, the new value and both watermarks are the same. This holds as long as no
  asynchronous commit is waiting, no request is refused because of the transaction clock (one that is
  has already taken its ids from the cursor), the clock reads fit 63 bits and the id counter does not
  wrap round.\<close>

theorem batch_is_sequential:
  assumes "\<forall>log r. \<exists>log'. app log r = (Inr (), log')" and "\<not> ts_async_pending st" and "\<forall>(items, ms) \<in> set reqs. ms < 2 ^ 63"
    and "\<not> clock_refused (batch_cursor_of st) (map as_request reqs)"
    and "ts_next_user st \<le> bc_next_user (snd (prepare_all (batch_cursor_of st) (map as_request reqs)))"
  shows "\<exists>reports log' st'. commit_batch app (map as_request reqs) (log, st) = (Inr reports, log', st') \<and>
    transact_each app (log, st) reqs = (reports, log', st') \<and> append_all app log (map report_record reports) = (Inr (), log')"
proof -
  obtain ps c where ps: "prepare_all (batch_cursor_of st) (map as_request reqs) = (ps, c)" by fastforce
  obtain log' where each: "append_all app log (map pr_record ps) = (Inr (), log')"
      "transact_each app (log, st) reqs = (map prepared_report ps, log', state_of_cursor st c (map prepared_report ps))"
    using prepare_all_sequential [OF assms(1-3) ps assms(4)] by blast
  have "\<not> list_ex is_naming (map as_request reqs)" by (auto simp: list_ex_iff as_request_def)
  then have replays: "fold replay_record (map pr_record ps) (ts_db st, ts_last_instant st) = (bc_db c, bc_last_instant c)"
      "map report_record (map prepared_report ps) = map pr_record ps"
    using prepare_all_replays [OF ps] by (simp_all add: batch_cursor_of_def)
  then have "ts_last_instant st \<le>s bc_last_instant c" using replay_last_grows by (metis snd_conv)
  then have "install_batch c ps st = (map prepared_report ps, state_of_cursor st c (map prepared_report ps))"
    using assms(5) ps by (simp add: install_batch_def state_of_cursor_def i64_max_right max_absorb2 Let_def)
  then have "commit_batch app (map as_request reqs) (log, st) = (Inr (map prepared_report ps), log', state_of_cursor st c (map prepared_report ps))"
    using ps each(1) by (simp add: commit_batch_def)
  then show ?thesis using each replays(2) by metis
qed

theorem batch_is_sequential_witness:
  "\<exists>st reports. commit_batch (\<lambda>log r. (Inr (), log @ [r])) (map as_request [([], 5)]) ([], recover_from_records db_default []) =
       (Inr reports, [wit_first], st) \<and>
     transact_each (\<lambda>log r. (Inr (), log @ [r])) ([], recover_from_records db_default []) [([], 5)] = (reports, [wit_first], st)"
proof -
  let ?st = "recover_from_records db_default []"
  obtain ps c where ps: "prepare_all (batch_cursor_of ?st) (map as_request [([], 5)]) = (ps, c)" "map pr_record ps = [wit_first]"
      "bc_next_user c = ts_next_user ?st" "\<not> clock_refused (batch_cursor_of ?st) (map as_request [([], 5)])"
    using fresh_state empty_prepare
    by (simp add: as_request_def prepare_transaction_def batch_cursor_of_def Let_def wit_first_def)
  obtain reports log st where both: "commit_batch (\<lambda>log r. (Inr (), log @ [r])) (map as_request [([], 5)]) ([], ?st) = (Inr reports, log, st)"
      "transact_each (\<lambda>log r. (Inr (), log @ [r])) ([], ?st) [([], 5)] = (reports, log, st)"
    using batch_is_sequential [of "\<lambda>log r. (Inr (), log @ [r])" ?st "[([], 5)]" "[]"] fresh_state(3) ps by auto
  moreover have "log = [wit_first]" using both(1) ps(1,2) by (auto simp: commit_batch_def split: prod.splits)
  ultimately show ?thesis by blast
qed

subsection \<open>Ids are handed out once\<close>

abbreviation BLOCK :: nat where
  "BLOCK \<equiv> 2 ^ 20"

definition opened_sagas :: "db \<Rightarrow> datom list \<Rightarrow> entity_id list" where
  "opened_sagas before ds = filter (\<lambda>e. entry_at before e = None) (map d_e (filter (\<lambda>x. d_a x = SAGA_ID \<and> d_added x) ds))"

text \<open>The facts of the \<open>i\<close>-th block leased from \<open>n\<close> on.\<close>

definition block_start :: "u64 \<Rightarrow> nat \<Rightarrow> u64" where
  "block_start n i = n + of_nat (i * (BLOCK + 1)) + 1"

definition block_facts :: "tx_id \<Rightarrow> entity_id \<Rightarrow> u64 \<Rightarrow> datom list" where
  "block_facts tx saga start = grant_facts tx saga (eid_new (part_id PartUser) (start - 1)) start"

lemma unat_of_nat_add: "unat n + k < 2 ^ 64 \<Longrightarrow> unat (n + of_nat k :: u64) = unat n + k"
  by (simp add: unat_word_ariths unat_of_nat mod_add_right_eq)

lemma grant_step_block:
  assumes "unat n + (BLOCK + 1) < 2 ^ 64"
  shows "grant_step tx saga (ds, n) = (ds @ block_facts tx saga (n + 1), n + of_nat (BLOCK + 1))"
proof -
  have "unat (n + 1) = unat n + 1" using unat_of_nat_add [of n 1] assms by simp
  then have "saturating_add (n + 1) DEFAULT_ID_BLOCK = n + 1 + DEFAULT_ID_BLOCK"
    using assms by (simp add: saturating_add_def DEFAULT_ID_BLOCK_def)
  moreover have "n + 1 + DEFAULT_ID_BLOCK = n + of_nat (BLOCK + 1)" by (simp add: DEFAULT_ID_BLOCK_def)
  ultimately show ?thesis by (simp add: grant_step_def Let_def block_facts_def)
qed

lemma lease_fold_blocks:
  "unat n + length sagas * (BLOCK + 1) < 2 ^ 64 \<Longrightarrow>
   fold (grant_step tx) sagas (ds, n) =
     (ds @ concat (map (\<lambda>i. block_facts tx (sagas ! i) (block_start n i)) [0..<length sagas]), n + of_nat (length sagas * (BLOCK + 1)))"
proof (induction sagas rule: rev_induct)
  case (snoc saga sagas)
  let ?n = "n + of_nat (length sagas * (BLOCK + 1))"
  have "unat ?n = unat n + length sagas * (BLOCK + 1)" using snoc.prems by (intro unat_of_nat_add) simp
  then have "unat ?n + (BLOCK + 1) < 2 ^ 64" using snoc.prems by simp
  note step = grant_step_block [OF this]
  let ?facts = "\<lambda>sagas i. block_facts tx (sagas ! i) (block_start n i)"
  have old: "map (?facts (sagas @ [saga])) [0..<length sagas] = map (?facts sagas) [0..<length sagas]"
    by (auto simp: nth_append)
  have upt: "[0..<length (sagas @ [saga])] = [0..<length sagas] @ [length sagas]" by simp
  have facts: "concat (map (?facts (sagas @ [saga])) [0..<length (sagas @ [saga])])
      = concat (map (?facts sagas) [0..<length sagas]) @ block_facts tx saga (?n + 1)"
    unfolding upt map_append concat_append old by (simp add: block_start_def)
  have total: "n + of_nat (length (sagas @ [saga]) * (BLOCK + 1)) = ?n + of_nat (BLOCK + 1)" by (simp add: algebra_simps)
  have IH: "fold (grant_step tx) sagas (ds, n) = (ds @ concat (map (?facts sagas) [0..<length sagas]), ?n)"
    using snoc by simp
  show ?case unfolding facts total fold_append o_apply IH by (simp only: fold_simps step append_assoc)
qed simp

lemma fold_max_bounds:
  "n \<le> fold (\<lambda>s m. max m s) xs n" "x \<in> set xs \<Longrightarrow> x \<le> fold (\<lambda>s m. max m s) xs n"
  "(\<And>x. x \<in> set xs \<Longrightarrow> x \<le> b) \<Longrightarrow> n \<le> b \<Longrightarrow> fold (\<lambda>s m. max m s) xs n \<le> b"
  for n :: u64
proof -
  have grows: "n \<le> fold (\<lambda>s m. max m s) xs n" for xs and n :: u64
  proof (induction xs arbitrary: n)
    case (Cons y xs)
    show ?case using Cons.IH [of "max n y"] by simp
  qed simp
  then show "n \<le> fold (\<lambda>s m. max m s) xs n" .
  show "x \<in> set xs \<Longrightarrow> x \<le> fold (\<lambda>s m. max m s) xs n"
  proof (induction xs arbitrary: n)
    case (Cons y xs)
    show ?case using Cons grows [of "max n y" xs] by auto
  qed simp
  show "(\<And>x. x \<in> set xs \<Longrightarrow> x \<le> b) \<Longrightarrow> n \<le> b \<Longrightarrow> fold (\<lambda>s m. max m s) xs n \<le> b"
    by (induction xs arbitrary: n) auto
qed

lemma advance_allocation_blocks:
  assumes "advance_allocation before p tx n = (q, n')" and "unat n \<le> 2 ^ 42" and "length (pt_datoms p) < 2 ^ 40"
  obtains mid where "n \<le> mid" and "mid \<le> n'"
    and "\<And>e. e \<in> set (om_values (pt_tempids p)) \<Longrightarrow> eid_partition e = part_id PartUser \<Longrightarrow> unat (eid_sequence e) < unat mid"
    and "pt_datoms q = pt_datoms p @ concat (map (\<lambda>i. block_facts tx (opened_sagas before (pt_datoms p) ! i) (block_start mid i))
          [0..<length (opened_sagas before (pt_datoms p))])"
    and "\<And>i. i < length (opened_sagas before (pt_datoms p)) \<Longrightarrow> unat (block_start mid i) = unat mid + i * (BLOCK + 1) + 1"
    and "unat n' = unat mid + length (opened_sagas before (pt_datoms p)) * (BLOCK + 1)"
proof -
  let ?seqs = "map (\<lambda>e. eid_sequence e + 1) (filter (\<lambda>e. eid_partition e = part_id PartUser) (om_values (pt_tempids p)))"
  let ?sagas = "opened_sagas before (pt_datoms p)"
  define mid where "mid = fold (\<lambda>s m. max m s) ?seqs n"
  have succ: "unat (eid_sequence e + 1) = unat (eid_sequence e) + 1" "unat (eid_sequence e) < 2 ^ 42" for e
  proof -
    show "unat (eid_sequence e) < 2 ^ 42" by (simp add: unat_eid_sequence)
    then show "unat (eid_sequence e + 1) = unat (eid_sequence e) + 1" using unat_of_nat_add [of "eid_sequence e" 1] by simp
  qed
  have "mid \<le> 2 ^ 42" unfolding mid_def
  proof (rule fold_max_bounds(3))
    show "x \<le> 2 ^ 42" if "x \<in> set ?seqs" for x
    proof -
      have "x \<in> (\<lambda>e. eid_sequence e + 1) ` set (filter (\<lambda>e. eid_partition e = part_id PartUser) (om_values (pt_tempids p)))"
        using that by (simp only: set_map)
      then obtain e where "x = eid_sequence e + 1" by (elim imageE)
      then show ?thesis using succ [of e] by (simp add: word_le_nat_alt)
    qed
    show "n \<le> 2 ^ 42" using assms(2) by (simp add: word_le_nat_alt)
  qed
  then have mid: "unat mid \<le> 2 ^ 42" by (simp add: word_le_nat_alt)
  have "length ?sagas \<le> length (pt_datoms p)"
    unfolding opened_sagas_def by (rule order_trans [OF length_filter_le]) simp
  then have count: "length ?sagas < 2 ^ 40" using assms(3) by simp
  then have fits: "unat mid + length ?sagas * (BLOCK + 1) < 2 ^ 64" using mid by simp
  have "lease_saga_grants before (pt_datoms p) tx mid =
      (pt_datoms p @ concat (map (\<lambda>i. block_facts tx (?sagas ! i) (block_start mid i)) [0..<length ?sagas]), mid + of_nat (length ?sagas * (BLOCK + 1)))"
    using lease_fold_blocks [OF fits] by (simp add: lease_saga_grants_def opened_sagas_def)
  then have q: "pt_datoms q = pt_datoms p @ concat (map (\<lambda>i. block_facts tx (?sagas ! i) (block_start mid i)) [0..<length ?sagas])"
    and n': "n' = mid + of_nat (length ?sagas * (BLOCK + 1))"
    using assms(1) by (auto simp: advance_allocation_def Let_def mid_def)
  have total: "unat n' = unat mid + length ?sagas * (BLOCK + 1)" unfolding n' by (rule unat_of_nat_add [OF fits])
  show thesis
  proof (rule that [OF _ _ _ q _ total])
    show "n \<le> mid" unfolding mid_def by (rule fold_max_bounds(1))
    show "mid \<le> n'" using total by (simp add: word_le_nat_alt)
    show "unat (eid_sequence e) < unat mid" if "e \<in> set (om_values (pt_tempids p))" "eid_partition e = part_id PartUser" for e
    proof -
      have "eid_sequence e + 1 \<le> mid" unfolding mid_def using that by (intro fold_max_bounds(2)) auto
      then show ?thesis using succ(1) [of e] by (simp add: word_le_nat_alt)
    qed
    show "unat (block_start mid i) = unat mid + i * (BLOCK + 1) + 1" if "i < length ?sagas" for i
    proof -
      have "unat mid + i * (BLOCK + 1) + 1 < 2 ^ 64" using mid that count by simp
      then show ?thesis using unat_of_nat_add [of mid "i * (BLOCK + 1) + 1"] by (simp add: block_start_def algebra_simps)
    qed
  qed
qed

text \<open>C19. Ids are handed out once. A commit takes the ids for its tempids and for the blocks it leases
  to sagas from one counter, and moves the counter past all of them: every fresh tempid is at or
  after the counter and before its new value, no two tempids share an id, every leased block lies
  between the tempids and the new value, and no two blocks overlap. What a later commit takes starts
  at the new value. This holds while ids fit the sequence of an entity id.\<close>

theorem ids_handed_out_once:
  fixes d items tx n
  defines "ops \<equiv> concat (map expand_item items)"
  defines "fresh \<equiv> fresh_temps (fold (unify_step d) ops om_empty) (set (concat (map entity_positions ops)))"
  assumes "db_wf d" and "db_view d = Current" and "FIRST_USER_ID \<le> n"
    and "prepare d items tx n = Inr p" and "advance_allocation d p tx n = (q, n')"
    and "unat n + length (concat (map entity_positions ops)) < 2 ^ 42" and "length (pt_datoms p) < 2 ^ 40"
  shows "n \<le> n' \<and>
    (\<forall>t \<in> fresh. \<exists>e. om_get (pt_tempids p) t = Some e \<and> eid_partition e = part_id PartUser \<and>
       n \<le> eid_sequence e \<and> eid_sequence e < n' \<and> (\<forall>t' \<in> fresh. om_get (pt_tempids p) t' = Some e \<longrightarrow> t' = t)) \<and>
    (\<exists>start. pt_datoms q = pt_datoms p @ concat (map (\<lambda>i. block_facts tx (opened_sagas d (pt_datoms p) ! i) (start i))
         [0..<length (opened_sagas d (pt_datoms p))]) \<and>
       (\<forall>i < length (opened_sagas d (pt_datoms p)). n < start i \<and> unat (start i) + BLOCK \<le> unat n' \<and>
          (\<forall>j < i. unat (start j) + BLOCK < unat (start i)) \<and>
          (\<forall>t \<in> fresh. \<forall>e. om_get (pt_tempids p) t = Some e \<longrightarrow> unat (eid_sequence e) + 1 < unat (start i))))"
proof -
  let ?sagas = "opened_sagas d (pt_datoms p)"
  have tempids: "pt_tempids p = assign_tempids d ops tx n"
    unfolding ops_def by (rule prepare_Inr(3) [OF assms(6)])
  have n: "max n FIRST_USER_ID = n" using assms(5) by (simp add: max_absorb1)
  have size: "unat (max n FIRST_USER_ID) + length (concat (map entity_positions ops)) < 2 ^ 42" using assms(8) n by simp
  have fresh: "\<exists>e. om_get (pt_tempids p) t = Some e \<and> eid_partition e = part_id PartUser \<and> n \<le> eid_sequence e \<and>
      (\<forall>t' \<in> fresh. om_get (pt_tempids p) t' = Some e \<longrightarrow> t' = t)" if "t \<in> fresh" for t
    using tempids_assigned [OF assms(3,4) size] that n unfolding tempids fresh_def by simp
  have "unat n \<le> 2 ^ 42" using assms(8) by simp
  then obtain mid where mid: "n \<le> mid" "mid \<le> n'"
      "\<And>e. e \<in> set (om_values (pt_tempids p)) \<Longrightarrow> eid_partition e = part_id PartUser \<Longrightarrow> unat (eid_sequence e) < unat mid"
      "pt_datoms q = pt_datoms p @ concat (map (\<lambda>i. block_facts tx (?sagas ! i) (block_start mid i)) [0..<length ?sagas])"
      "\<And>i. i < length ?sagas \<Longrightarrow> unat (block_start mid i) = unat mid + i * (BLOCK + 1) + 1"
      "unat n' = unat mid + length ?sagas * (BLOCK + 1)"
    by (rule advance_allocation_blocks [OF assms(7) _ assms(9)]) (rule that)
  have below: "unat (eid_sequence e) < unat mid" if "om_get (pt_tempids p) t = Some e" "t \<in> fresh" for t e
  proof -
    have "e \<in> set (om_values (pt_tempids p))"
      using that(1) by (force simp: om_values_def om_get_entries dest: map_of_SomeD)
    then show ?thesis using fresh [OF that(2)] that(1) mid(3) by auto
  qed
  have "n < block_start mid i \<and> unat (block_start mid i) + BLOCK \<le> unat n' \<and>
      (\<forall>j < i. unat (block_start mid j) + BLOCK < unat (block_start mid i))" if "i < length ?sagas" for i
  proof -
    have "(i + 1) * (BLOCK + 1) \<le> length ?sagas * (BLOCK + 1)" using that by (intro mult_le_mono1) simp
    moreover have "(j + 1) * (BLOCK + 1) \<le> i * (BLOCK + 1)" if "j < i" for j using that by (intro mult_le_mono1) simp
    ultimately show ?thesis using mid(1,5,6) that by (auto simp: word_less_nat_alt word_le_nat_alt)
  qed
  moreover have "unat (eid_sequence e) + 1 < unat (block_start mid i)"
    if "om_get (pt_tempids p) t = Some e" "t \<in> fresh" "i < length ?sagas" for t e i
    using below [OF that(1,2)] mid(5) [OF that(3)] by simp
  moreover have "eid_sequence e < n'" if "om_get (pt_tempids p) t = Some e" "t \<in> fresh" for t e
    using below [OF that] mid(2) by (simp add: word_less_nat_alt word_le_nat_alt)
  ultimately show ?thesis using fresh mid(1,2,4) by (meson order_trans)
qed

lemma wit_temp_prepare:
  "prepare wit_empty [ItemOp (Add (Temp ''a'') 101 (Long 7))] (tx_entity 1) FIRST_USER_ID =
     Inr \<lparr>pt_datoms = [fact_datom (tx_entity 1) True (eid_new (part_id PartUser) FIRST_USER_ID, 101, Long 7)],
       pt_tempids = om_insert ''a'' (eid_new (part_id PartUser) FIRST_USER_ID) om_empty\<rparr>"
proof -
  let ?e = "eid_new (part_id PartUser) FIRST_USER_ID"
  have view: "db_view wit_empty \<noteq> History" by (simp add: wit_empty_simps)
  have "db_values wit_empty ?e 101 = []"
    by (rule values_none [OF wit_empty_simps(1) view]) (simp add: wit_empty_simps)
  moreover have none: "lookup wit_empty 101 (Long 7) = None"
    using lookup_None [OF wit_empty_simps(1) view] by (simp add: holds_value_facts wit_empty_simps)
  ultimately have "op_datoms wit_empty (om_insert ''a'' ?e om_empty) (tx_entity 1) wit_empty False (Add (Temp ''a'') 101 (Long 7)) =
      Inr ([fact_datom (tx_entity 1) True (?e, 101, Long 7)], False)"
    by (simp add: op_datoms_def resolve_entity_def add_op_def wit_101 validate_value_def wit_empty_simps validate_not_retired_def
        validate_assertion_form_def tl_current_def Tx_Prepare.wit_key_def om_get_simps)
  then show ?thesis
    using wit_no_sagas [OF wit_empty_simps(1,2), of "tx_entity 1" True ?e "Long 7"] none
    by (simp add: prepare_def assign_tempids_def unify_step_def allocate_step_def op_step_def Let_def
        wit_empty_simps TX_TEMPID_def)
qed

theorem ids_handed_out_once_witness:
  "\<exists>p q n'. prepare wit_empty [ItemOp (Add (Temp ''a'') 101 (Long 7))] (tx_entity 1) FIRST_USER_ID = Inr p \<and>
     advance_allocation wit_empty p (tx_entity 1) FIRST_USER_ID = (q, n') \<and>
     FIRST_USER_ID \<le> eid_sequence (the (om_get (pt_tempids p) ''a'')) \<and> eid_sequence (the (om_get (pt_tempids p) ''a'')) < n'"
proof -
  let ?items = "[ItemOp (Add (Temp ''a'') 101 (Long 7))]"
  obtain p where p: "prepare wit_empty ?items (tx_entity 1) FIRST_USER_ID = Inr p" "length (pt_datoms p) = 1"
    using wit_temp_prepare by simp
  obtain q n' where q: "advance_allocation wit_empty p (tx_entity 1) FIRST_USER_ID = (q, n')" by force
  have "''a'' \<in> fresh_temps (fold (unify_step wit_empty) (concat (map expand_item ?items)) om_empty)
      (set (concat (map entity_positions (concat (map expand_item ?items)))))"
    using lookup_None [OF wit_empty_simps(1), of 101 "Long 7"]
    by (simp add: fresh_temps_def unify_step_def holds_value_facts wit_empty_simps TX_TEMPID_def)
  with ids_handed_out_once [OF wit_empty_simps(1,2) order.refl p(1) q] p(2)
  show ?thesis using p(1) q by (fastforce simp: FIRST_USER_ID_def)
qed

end
