(* ===== verification/Publication.thy ===== *)
theory Publication
  imports Transactor Snapshot
begin

text \<open>
  Publication of the covering indexes (crates/corium-transactor/src/lib.rs): planning a pass by folding
  the log tail into the segments of the last one or by rebuilding them, uploading the chunks and manifests,
  and the fenced swap of the root; and reading a published index back (\<open>load_index_keys\<close>,
  \<open>load_history_snapshot\<close> and \<open>recover_transactor\<close> of crates/corium-transactor/src/node.rs). A publication is a
  machine with one step per store operation, so that commits, other publishers and garbage collection can
  run between its steps.
\<close>

subsection \<open>What the last publication left\<close>

text \<open>An array with one entry per covering index is a list in the order of \<open>ORDERS\<close>.\<close>

record published_indexes =
  pu_lease_version :: u64
  pu_basis_t :: u64
  pu_segments :: "segment list"
  pu_history_segments :: "segment list option"
  pu_manifests :: index_roots
  pu_history_manifests :: "index_roots option"
  pu_chunks :: "(nat, blob_id) omap list"
  pu_history_chunks :: "(nat, blob_id) omap list option"

definition is_current :: "published_indexes \<Rightarrow> db_root option \<Rightarrow> u64 \<Rightarrow> bool" where
  "is_current p root lease_version = (case root of
     None \<Rightarrow> False
   | Some root \<Rightarrow> pu_lease_version p = lease_version \<and> r_lease_version root = lease_version
       \<and> r_index_basis_t root = pu_basis_t p \<and> r_roots root = Some (pu_manifests p)
       \<and> r_history_roots root = pu_history_manifests p)"

subsection \<open>Planning\<close>

datatype chunk_plan = PublishedChunk blob_id | RebuiltChunk bytes

definition plan_chunk :: "leaf \<Rightarrow> (nat, blob_id) omap option \<Rightarrow> chunk_plan" where
  "plan_chunk l stored = (case Option.bind stored (\<lambda>m. om_get m (leaf_id l)) of
     Some i \<Rightarrow> PublishedChunk i
   | None \<Rightarrow> RebuiltChunk (encode_segment_chunk (leaf_keys l)))"

text \<open>One covering index: its segment, its chunk plan, and the next leaf id.\<close>

definition plan_index_step ::
    "db \<Rightarrow> published_indexes option \<Rightarrow> nat \<times> index_order
      \<Rightarrow> segment list \<times> chunk_plan list list \<times> nat \<Rightarrow> segment list \<times> chunk_plan list list \<times> nat" where
  "plan_index_step snapshot previous = (\<lambda>(slot, order) (segments, planned, n).
    let (segment, n) = (case previous of
          Some p \<Rightarrow> seg_apply n (pu_segments p ! slot) order
            (filter (covered (db_schema snapshot) order) (recorded_since snapshot (pu_basis_t p)))
        | None \<Rightarrow> from_sorted n order (datoms_at snapshot order));
        stored = map_option (\<lambda>p. pu_chunks p ! slot) previous
    in (segments @ [segment], planned @ [map (\<lambda>l. plan_chunk l stored) segment], n))"

definition plan_indexes :: "db \<Rightarrow> published_indexes option \<Rightarrow> nat \<Rightarrow> segment list \<times> chunk_plan list list \<times> nat" where
  "plan_indexes snapshot previous n = fold (plan_index_step snapshot previous) (enumerate 0 ORDERS) ([], [], n)"

definition plan_history_step ::
    "db \<Rightarrow> published_indexes option \<Rightarrow> nat \<times> index_order
      \<Rightarrow> segment list \<times> chunk_plan list list \<times> nat \<Rightarrow> segment list \<times> chunk_plan list list \<times> nat" where
  "plan_history_step snapshot previous = (\<lambda>(slot, order) (segments, planned, n).
    let (segment, n) = (case previous of
          Some p \<Rightarrow> insert_history n (the (pu_history_segments p) ! slot) order
            (filter (\<lambda>x. \<not> no_history_attr (db_schema snapshot) (d_a x) \<and> covered (db_schema snapshot) order x)
               (recorded_since snapshot (pu_basis_t p)))
        | None \<Rightarrow> from_sorted n order (datoms_at (history snapshot) order));
        stored = map_option (\<lambda>p. the (pu_history_chunks p) ! slot) previous
    in (segments @ [segment], planned @ [map (\<lambda>l. plan_chunk l stored) segment], n))"

definition plan_history_indexes ::
    "db \<Rightarrow> published_indexes option \<Rightarrow> nat \<Rightarrow> segment list \<times> chunk_plan list list \<times> nat" where
  "plan_history_indexes snapshot previous n = fold (plan_history_step snapshot previous) (enumerate 0 ORDERS) ([], [], n)"

subsection \<open>Uploading\<close>

text \<open>
  The two uploads of a pass, the current indexes and then the history indexes, run one after the other
  over one list of planned indexes; \<open>up_children\<close> are the chunks of the index at the head of it.
\<close>

record upload =
  up_todo :: "chunk_plan list list"
  up_children :: "blob_id list"
  up_manifests :: "blob_id list"
  up_chunk_ids :: "blob_id list list"

definition upload_new :: "chunk_plan list list \<Rightarrow> upload" where
  "upload_new planned = \<lparr>up_todo = planned, up_children = [], up_manifests = [], up_chunk_ids = []\<rparr>"

definition upload_step ::
    "('s \<Rightarrow> bytes \<Rightarrow> store_error + blob_id \<times> 's) \<Rightarrow> upload \<Rightarrow> 's \<Rightarrow> store_error + upload \<times> 's" where
  "upload_step put u s = (case up_todo u of
     [] \<Rightarrow> Inr (u, s)
   | (PublishedChunk i # rest) # planned \<Rightarrow>
       Inr (u\<lparr>up_todo := rest # planned, up_children := up_children u @ [i]\<rparr>, s)
   | (RebuiltChunk bytes # rest) # planned \<Rightarrow>
       bindr (put s bytes) (\<lambda>(i, s). Inr (u\<lparr>up_todo := rest # planned, up_children := up_children u @ [i]\<rparr>, s))
   | [] # planned \<Rightarrow>
       bindr (put s (encode_index_manifest (up_children u))) (\<lambda>(i, s).
         Inr (u\<lparr>up_todo := planned, up_children := [], up_manifests := up_manifests u @ [i],
               up_chunk_ids := up_chunk_ids u @ [up_children u]\<rparr>, s)))"

definition chunk_ids_by_leaf :: "segment list \<Rightarrow> blob_id list list \<Rightarrow> (nat, blob_id) omap list" where
  "chunk_ids_by_leaf segments chunk_ids =
    map (\<lambda>(segment, ids). fold (\<lambda>(i, b). om_insert i b) (zip (map leaf_id segment) ids) om_empty) (zip segments chunk_ids)"

text \<open>The array of four ids; the manifests of an upload are never fewer or more.\<close>

definition four_roots :: "blob_id list \<Rightarrow> index_roots" where
  "four_roots ids = (ids ! 0, ids ! 1, ids ! 2, ids ! 3)"

subsection \<open>One pass\<close>

record pass_work =
  pw_stored :: "db_root option"
  pw_pinned :: "root_index_state option"
  pw_basis_t :: u64
  pw_next_entity_id :: u64
  pw_last_tx_instant :: i64
  pw_segments :: "segment list"
  pw_history :: "segment list option"

datatype pass_outcome = PassPublished db_root | PassRaced

datatype pass_phase =
    PassStart "published_indexes option"
  | PassUpload pass_work upload
  | PassPublish pass_work upload db_root phase
  | PassDone "transact_error + pass_outcome"

definition usable_previous :: "published_indexes option \<Rightarrow> db_root option \<Rightarrow> u64 \<Rightarrow> u64 \<Rightarrow> published_indexes option" where
  "usable_previous previous stored lease_version basis_t = (case previous of
     None \<Rightarrow> None
   | Some p \<Rightarrow> if is_current p stored lease_version \<and> pu_basis_t p \<le> basis_t then Some p else None)"

definition pass_plan ::
    "u64 \<Rightarrow> published_indexes option \<Rightarrow> bytes option \<Rightarrow> tx_state \<Rightarrow> nat \<Rightarrow> transact_error + pass_work \<times> upload \<times> nat" where
  "pass_plan lease_version previous bytes st n =
    (let stored = Option.bind bytes root_decode
     in bindr (case stored of
           Some r \<Rightarrow> if lease_version < r_lease_version r then Inl (DeposedBy (r_lease_version r)) else Inr ()
         | None \<Rightarrow> Inr ()) (\<lambda>_.
       case recovery_snapshot st of (snapshot, next_entity_id, last_tx_instant) \<Rightarrow>
         let basis_t = db_basis_t snapshot;
             previous = usable_previous previous stored lease_version basis_t;
             work = \<lparr>pw_stored = stored, pw_pinned = map_option (\<lambda>_. index_state_of stored) previous, pw_basis_t = basis_t,
               pw_next_entity_id = next_entity_id, pw_last_tx_instant = last_tx_instant, pw_segments = [], pw_history = None\<rparr>
         in case plan_indexes snapshot previous n of (segments, planned, n) \<Rightarrow>
            if db_complete snapshot
            then case plan_history_indexes snapshot
                   (Option.bind previous (\<lambda>p. if pu_history_segments p \<noteq> None then Some p else None)) n of
                 (history_segments, history_planned, n) \<Rightarrow>
                   Inr (work\<lparr>pw_segments := segments, pw_history := Some history_segments\<rparr>, upload_new (planned @ history_planned), n)
            else Inr (work\<lparr>pw_segments := segments\<rparr>, upload_new planned, n)))"

definition history_manifests :: "pass_work \<Rightarrow> upload \<Rightarrow> index_roots option" where
  "history_manifests w u = map_option (\<lambda>_. four_roots (drop 4 (up_manifests u))) (pw_history w)"

definition pass_root :: "u64 \<Rightarrow> pass_work \<Rightarrow> upload \<Rightarrow> db_root" where
  "pass_root lease_version w u =
    \<lparr>r_format_version = FORMAT_VERSION, r_lease_version = lease_version, r_owner = [], r_lease_expires = 0,
     r_owner_endpoint = [], r_index_basis_t = pw_basis_t w, r_roots = Some (four_roots (take 4 (up_manifests u))),
     r_history_roots = history_manifests w u, r_next_entity_id = pw_next_entity_id w,
     r_last_tx_instant = pw_last_tx_instant w, r_key_manifest_version = 0\<rparr>"

definition pass_published :: "u64 \<Rightarrow> pass_work \<Rightarrow> upload \<Rightarrow> published_indexes" where
  "pass_published lease_version w u =
    \<lparr>pu_lease_version = lease_version, pu_basis_t = pw_basis_t w, pu_segments = pw_segments w,
     pu_history_segments = pw_history w, pu_manifests = four_roots (take 4 (up_manifests u)),
     pu_history_manifests = history_manifests w u,
     pu_chunks = chunk_ids_by_leaf (pw_segments w) (take 4 (up_chunk_ids u)),
     pu_history_chunks = map_option (\<lambda>segments. chunk_ids_by_leaf segments (drop 4 (up_chunk_ids u))) (pw_history w)\<rparr>"

text \<open>
  The state a pass runs in: what the transactor remembers of its last publication, the allocator of leaf
  ids, the transactor and the store.
\<close>

record 's publication =
  pn_published :: "published_indexes option"
  pn_leaf_ids :: nat
  pn_tx :: tx_state
  pn_store :: 's

definition pass_finish :: "u64 \<Rightarrow> pass_work \<Rightarrow> upload \<Rightarrow> db_root \<Rightarrow> lease_result \<Rightarrow> 's publication \<Rightarrow> pass_phase \<times> 's publication" where
  "pass_finish lease_version w u root result y = (case result of
     Published outcome \<Rightarrow>
       if outcome = Raced then (PassDone (Inr PassRaced), y)
       else
         let new = pass_published lease_version w u
         in (PassDone (Inr (PassPublished root)),
             if outcome = Installed \<or> is_current new (pw_stored w) lease_version then y\<lparr>pn_published := Some new\<rparr> else y)
   | Deposed published \<Rightarrow> (PassDone (Inl (DeposedBy published)), y)
   | Lease.StoreFailed e \<Rightarrow> (PassDone (Inl (Transactor.StoreFailed e)), y)
   | _ \<Rightarrow> (PassPublish w u root (Finished result), y))"

definition pass_step ::
    "('s \<Rightarrow> string \<Rightarrow> store_error + bytes option) \<Rightarrow> ('s \<Rightarrow> string \<Rightarrow> bytes option \<Rightarrow> bytes \<Rightarrow> store_error + 's)
      \<Rightarrow> ('s \<Rightarrow> bytes \<Rightarrow> store_error + blob_id \<times> 's) \<Rightarrow> string \<Rightarrow> u64 \<Rightarrow> pass_phase \<Rightarrow> 's publication \<Rightarrow> pass_phase \<times> 's publication" where
  "pass_step get cas put root_name lease_version ph y = (case ph of
     PassStart previous \<Rightarrow> (case get (pn_store y) root_name of
         Inl e \<Rightarrow> (PassDone (Inl (Transactor.StoreFailed e)), y)
       | Inr bytes \<Rightarrow> (case pass_plan lease_version previous bytes (pn_tx y) (pn_leaf_ids y) of
           Inl e \<Rightarrow> (PassDone (Inl e), y)
         | Inr (w, u, n) \<Rightarrow> (PassUpload w u, y\<lparr>pn_leaf_ids := n\<rparr>)))
   | PassUpload w u \<Rightarrow>
       if up_todo u = [] then (PassPublish w u (pass_root lease_version w u) Start, y)
       else (case upload_step put u (pn_store y) of
           Inl e \<Rightarrow> (PassDone (Inl (Transactor.StoreFailed e)), y)
         | Inr (u, s) \<Rightarrow> (PassUpload w u, y\<lparr>pn_store := s\<rparr>))
   | PassPublish w u root ph \<Rightarrow> (case publish_step get cas root_name root (pw_pinned w) ph (pn_store y) of
         (Finished result, s) \<Rightarrow> pass_finish lease_version w u root result (y\<lparr>pn_store := s\<rparr>)
       | (ph, s) \<Rightarrow> (PassPublish w u root ph, y\<lparr>pn_store := s\<rparr>))
   | PassDone _ \<Rightarrow> (ph, y))"

subsection \<open>A publication\<close>

text \<open>
  The first pass takes what the last publication left; when it is raced, a second pass rebuilds. The second
  pass pins nothing, so the outcome for which the source panics is not reached.
\<close>

datatype publish_phase =
    FirstPass pass_phase
  | RetryPass pass_phase
  | PublishDone "transact_error + db_root"

definition publish_begin :: "'s publication \<Rightarrow> publish_phase \<times> 's publication" where
  "publish_begin y = (FirstPass (PassStart (pn_published y)), y\<lparr>pn_published := None\<rparr>)"

definition publish_indexes_step ::
    "('s \<Rightarrow> string \<Rightarrow> store_error + bytes option) \<Rightarrow> ('s \<Rightarrow> string \<Rightarrow> bytes option \<Rightarrow> bytes \<Rightarrow> store_error + 's)
      \<Rightarrow> ('s \<Rightarrow> bytes \<Rightarrow> store_error + blob_id \<times> 's) \<Rightarrow> string \<Rightarrow> u64 \<Rightarrow> publish_phase \<Rightarrow> 's publication \<Rightarrow> publish_phase \<times> 's publication" where
  "publish_indexes_step get cas put root_name lease_version ph y = (case ph of
     FirstPass pass \<Rightarrow> (case pass_step get cas put root_name lease_version pass y of
         (PassDone (Inl e), y) \<Rightarrow> (PublishDone (Inl e), y)
       | (PassDone (Inr (PassPublished root)), y) \<Rightarrow> (PublishDone (Inr root), y)
       | (PassDone (Inr PassRaced), y) \<Rightarrow> (RetryPass (PassStart None), y)
       | (pass, y) \<Rightarrow> (FirstPass pass, y))
   | RetryPass pass \<Rightarrow> (case pass_step get cas put root_name lease_version pass y of
         (PassDone (Inl e), y) \<Rightarrow> (PublishDone (Inl e), y)
       | (PassDone (Inr (PassPublished root)), y) \<Rightarrow> (PublishDone (Inr root), y)
       | (pass, y) \<Rightarrow> (RetryPass pass, y))
   | PublishDone _ \<Rightarrow> (ph, y))"

subsection \<open>Reading a published index\<close>

fun load_chunks :: "(blob_id \<Rightarrow> store_error + bytes option) \<Rightarrow> blob_id list \<Rightarrow> bytes list \<Rightarrow> store_error + bytes list" where
  "load_chunks get [] acc = Inr acc"
| "load_chunks get (i # ids) acc =
    bindr (bindr (get i) (ok_or (MissingBlob i))) (\<lambda>chunk.
    bindr (decode_segment_keys chunk) (\<lambda>keys. load_chunks get ids (acc @ keys)))"

definition load_index_keys :: "(blob_id \<Rightarrow> store_error + bytes option) \<Rightarrow> blob_id \<Rightarrow> store_error + bytes list" where
  "load_index_keys get i =
    bindr (bindr (get i) (ok_or (MissingBlob i))) (\<lambda>blob.
      if \<not> is_index_manifest blob then decode_segment_keys blob
      else bindr (decode_index_manifest blob) (\<lambda>children. load_chunks get children []))"

definition hex_byte :: "u8 \<Rightarrow> string" where
  "hex_byte b = (let digit = (\<lambda>n. ''0123456789abcdef'' ! n); n = unat b
    in ''0x'' @ (if n < 16 then [] else [digit (n div 16)]) @ [digit (n mod 16)])"

fun decode_error_text :: "decode_error \<Rightarrow> string" where
  "decode_error_text Truncated = ''truncated sortable value''"
| "decode_error_text (UnknownTag tag) = ''unknown value tag '' @ hex_byte tag"
| "decode_error_text InvalidEscape = ''invalid escaped bytes''"
| "decode_error_text InvalidUtf8 = ''invalid UTF-8 string''"
| "decode_error_text Trailing = ''trailing bytes after sortable value''"
| "decode_error_text (InvalidValueType tag) = ''unknown value type tag '' @ hex_byte tag"

fun datoms_of_keys :: "bytes list \<Rightarrow> store_error + datom list" where
  "datoms_of_keys [] = Inr []"
| "datoms_of_keys (key # keys) = (case from_key Eavt key of
     Inl e \<Rightarrow> Inl (Io (decode_error_text e))
   | Inr x \<Rightarrow> bindr (datoms_of_keys keys) (\<lambda>xs. Inr (x # xs)))"

definition load_history_snapshot ::
    "(blob_id \<Rightarrow> store_error + bytes option) \<Rightarrow> db_root \<Rightarrow> blob_id \<Rightarrow> blob_id \<Rightarrow> schema \<Rightarrow> idents \<Rightarrow> keyword_interner
      \<Rightarrow> local_keywords \<Rightarrow> store_error + db" where
  "load_history_snapshot get root current_eavt history_eavt s ids i l =
    bindr (bindr (load_index_keys get current_eavt) datoms_of_keys) (\<lambda>current.
    bindr (bindr (load_index_keys get history_eavt) datoms_of_keys) (\<lambda>history.
      Inr (from_history_snapshot (r_index_basis_t root) (r_next_entity_id root) s ids i l history current)))"

text \<open>Recovery falls back to a full replay when there is no complete snapshot or it does not load.\<close>

definition recover_transactor ::
    "(blob_id \<Rightarrow> store_error + bytes option) \<Rightarrow> (u64 \<Rightarrow> u64 option \<Rightarrow> log_error + tx_record list) \<Rightarrow> log_error + tx_record list
      \<Rightarrow> schema \<Rightarrow> idents \<Rightarrow> keyword_interner \<Rightarrow> local_keywords \<Rightarrow> db_root option \<Rightarrow> transact_error + tx_state" where
  "recover_transactor get tail replayed s ids i l root =
    (let full = recover_from (with_naming ids i l (db_new s)) replayed
     in case root of
          None \<Rightarrow> full
        | Some root \<Rightarrow> (case (r_roots root, r_history_roots root) of
            (Some roots, Some history_roots) \<Rightarrow>
              if r_next_entity_id root = 0 then full
              else (case load_history_snapshot get root (fst roots) (fst history_roots) s ids i l of
                  Inr snapshot \<Rightarrow> recover_from_snapshot tail snapshot (r_next_entity_id root) (r_last_tx_instant root)
                | Inl _ \<Rightarrow> full)
          | _ \<Rightarrow> full))"

subsection \<open>Identities of leaves\<close>

text \<open>No two leaves of a segment share an id, and every id has been allocated.\<close>

definition ids_ok :: "nat \<Rightarrow> leaf set \<Rightarrow> bool" where
  "ids_ok n ls \<longleftrightarrow> inj_on leaf_id ls \<and> (\<forall>l \<in> ls. leaf_id l < n)"

lemma ids_ok_mono: "ids_ok n ls \<Longrightarrow> n \<le> m \<Longrightarrow> ids_ok m ls"
  by (auto simp: ids_ok_def)

text \<open>The leaves of a builder together with those that may still be carried into it.\<close>

definition b_ids :: "nat \<Rightarrow> leaf set \<Rightarrow> leaf_builder \<Rightarrow> bool" where
  "b_ids n old b \<longleftrightarrow> n \<le> b_next b \<and> ids_ok (b_next b) (old \<union> set (b_leaves b))"

lemma ids_ok_insert: "ids_ok n ls \<Longrightarrow> leaf_id l = n \<Longrightarrow> ids_ok (Suc n) (insert l ls)"
  by (auto simp: ids_ok_def less_Suc_eq)

lemma b_ids_seal: "b_ids n old b \<Longrightarrow> b_ids n old (seal b)"
  using ids_ok_insert [of "b_next b" "old \<union> set (b_leaves b)" "\<lparr>leaf_id = b_next b, leaf_keys = b_pending b\<rparr>"]
  by (simp add: b_ids_def seal_def)

lemma b_ids_pending [simp]: "b_ids n old (b\<lparr>b_pending := ks\<rparr>) = b_ids n old b" "b_ids n old (b\<lparr>b_spilled := k\<rparr>) = b_ids n old b"
  by (simp_all add: b_ids_def)

lemma b_ids_push: "b_ids n old b \<Longrightarrow> b_ids n old (push b k)"
  using b_ids_seal [of n old "b\<lparr>b_pending := b_pending b @ [k]\<rparr>"] by (simp add: push_def Let_def)

lemma b_ids_push_change: "b_ids n old b \<Longrightarrow> b_ids n old (push_change b c)"
  by (simp add: push_change_def b_ids_push split: option.split)

lemma b_ids_foldl_push: "b_ids n old b \<Longrightarrow> b_ids n old (foldl push b ks)"
  by (induction ks arbitrary: b) (simp_all add: b_ids_push)

lemma b_ids_carry:
  assumes "b_ids n old b" and "l \<in> old"
  shows "b_ids n old (carry b l)"
proof -
  have add: "b_ids n old (b\<lparr>b_spilled := s, b_leaves := b_leaves b @ [l]\<rparr>)" if "b_ids n old b" for b s
    using that assms(2) by (simp add: b_ids_def insert_absorb)
  show ?thesis
    using assms add [of b] add [OF b_ids_seal [OF assms(1)]] b_ids_foldl_push [of n old "b\<lparr>b_spilled := _\<rparr>"]
    by (simp add: carry_def Let_def)
qed

lemma b_ids_drain: "b_ids n old (snd st) \<Longrightarrow> b_ids n old (snd (drain_before bound st))"
  by (induction bound st rule: drain_before.induct) (simp_all add: b_ids_push_change)

lemma b_ids_apply_key: "b_ids n old (snd st) \<Longrightarrow> b_ids n old (snd (apply_key k st))"
  using b_ids_drain [of n old st "key_components k"]
  by (auto simp: apply_key_def b_ids_push b_ids_push_change split: list.splits prod.splits)

lemma b_ids_fold_apply_key: "b_ids n old (snd st) \<Longrightarrow> b_ids n old (snd (fold apply_key ks st))"
  by (induction ks arbitrary: st) (simp_all add: b_ids_apply_key)

lemma b_ids_apply_leaf:
  assumes "b_ids n old (snd st)" and "l \<in> old"
  shows "b_ids n old (snd (apply_leaf m l st))"
proof (cases "leaf_keys l")
  case (Cons first ks)
  obtain ps b where d: "drain_before (key_components first) st = (ps, b)" by fastforce
  then have "b_ids n old b" using b_ids_drain [OF assms(1), of "key_components first"] by simp
  then show ?thesis
    using assms b_ids_fold_apply_key [of n old "(ps, begin_dirty b)" "first # ks"]
    by (simp add: apply_leaf_def Cons d Let_def b_ids_carry begin_dirty_def)
qed (simp add: assms apply_leaf_def)

lemma b_ids_apply_leaves: "b_ids n old (snd st) \<Longrightarrow> set seg \<subseteq> old \<Longrightarrow> b_ids n old (snd (apply_leaves seg st))"
  by (induction seg arbitrary: st) (simp_all add: b_ids_apply_leaf)

lemma ids_ok_finish: "b_ids n old b \<Longrightarrow> n \<le> snd (finish b) \<and> ids_ok (snd (finish b)) (old \<union> set (fst (finish b)))"
  using b_ids_seal [of n old b] by (simp add: finish_def b_ids_def Let_def)

lemma b_ids_new: "ids_ok n old \<Longrightarrow> b_ids n old (builder_new n)"
  by (simp add: b_ids_def builder_new_def)

lemma ids_ok_apply:
  assumes "ids_ok n (set seg)"
  shows "n \<le> snd (seg_apply n seg order ds) \<and> ids_ok (snd (seg_apply n seg order ds)) (set seg \<union> set (fst (seg_apply n seg order ds)))"
proof -
  let ?pending = "om_entries (fold_changes order ds)"
  obtain rest b where ab: "apply_leaves seg (?pending, builder_new n) = (rest, b)" by fastforce
  then have "b_ids n (set seg) b"
    using b_ids_apply_leaves [of n "set seg" "(?pending, builder_new n)" seg] b_ids_new [OF assms] by simp
  then have "b_ids n (set seg) (foldl (\<lambda>b p. push_change b (snd p)) b rest)"
    by (induction rest arbitrary: b) (simp_all add: b_ids_push_change)
  from ids_ok_finish [OF this] assms show ?thesis by (auto simp: seg_apply_def ab Let_def)
qed

lemma ids_ok_from_sorted: "n \<le> snd (from_sorted n order ds) \<and> ids_ok (snd (from_sorted n order ds)) (set (fst (from_sorted n order ds)))"
proof -
  have "b_ids n {} (foldl (\<lambda>b d. push b (datom_key d order)) b ds)" if "b_ids n {} b" for b
    using that by (induction ds arbitrary: b) (simp_all add: b_ids_push)
  from ids_ok_finish [OF this [OF b_ids_new]] show ?thesis by (simp add: from_sorted_def ids_ok_def)
qed

lemma b_ids_drain_keys: "b_ids n old (snd st) \<Longrightarrow> b_ids n old (snd (drain_keys_before bound st))"
  by (induction bound st rule: drain_keys_before.induct) (simp_all add: b_ids_push)

lemma b_ids_history_key: "b_ids n old (snd st) \<Longrightarrow> b_ids n old (snd (history_key k st))"
  using b_ids_drain_keys [of n old st k]
  by (auto simp: history_key_def b_ids_push split: list.splits prod.splits)

lemma b_ids_fold_history_key: "b_ids n old (snd st) \<Longrightarrow> b_ids n old (snd (fold history_key ks st))"
  by (induction ks arbitrary: st) (simp_all add: b_ids_history_key)

lemma b_ids_history_leaf:
  assumes "b_ids n old (snd st)" and "l \<in> old"
  shows "b_ids n old (snd (history_leaf m l st))"
proof (cases "leaf_keys l")
  case (Cons first ks)
  obtain ps b where d: "drain_keys_before first st = (ps, b)" by fastforce
  then have "b_ids n old b" using b_ids_drain_keys [OF assms(1), of first] by simp
  then show ?thesis
    using assms b_ids_fold_history_key [of n old "(ps, begin_dirty b)" "first # ks"] b_ids_fold_history_key [of n old "(ps, b)" "first # ks"]
    by (simp add: history_leaf_def Cons d Let_def b_ids_carry begin_dirty_def)
qed (simp add: assms history_leaf_def)

lemma b_ids_history_leaves: "b_ids n old (snd st) \<Longrightarrow> set seg \<subseteq> old \<Longrightarrow> b_ids n old (snd (history_leaves seg st))"
  by (induction seg arbitrary: st) (simp_all add: b_ids_history_leaf)

lemma ids_ok_insert_history:
  assumes "ids_ok n (set seg)"
  shows "n \<le> snd (insert_history n seg order ds) \<and> ids_ok (snd (insert_history n seg order ds)) (set seg \<union> set (fst (insert_history n seg order ds)))"
proof -
  let ?pending = "os_elems (fold (\<lambda>d. os_insert (datom_key d order)) ds om_empty)"
  obtain rest b where ab: "history_leaves seg (?pending, builder_new n) = (rest, b)" by fastforce
  then have "b_ids n (set seg) b"
    using b_ids_history_leaves [of n "set seg" "(?pending, builder_new n)" seg] b_ids_new [OF assms] by simp
  then have "b_ids n (set seg) (foldl push b rest)" by (rule b_ids_foldl_push)
  from ids_ok_finish [OF this] assms show ?thesis by (auto simp: insert_history_def ab Let_def)
qed

subsection \<open>What the planned segments hold\<close>

abbreviation current_index :: "schema \<Rightarrow> datom list \<Rightarrow> index_order \<Rightarrow> index" where
  "current_index s ds \<equiv> project s (live_fold None ds)"

abbreviation history_index :: "schema \<Rightarrow> datom list \<Rightarrow> index_order \<Rightarrow> index" where
  "history_index s ds \<equiv> compute_indexes History s ds"

definition current_keys :: "schema \<Rightarrow> datom list \<Rightarrow> index_order \<Rightarrow> bytes list" where
  "current_keys s ds order = map (\<lambda>x. datom_key x order) (om_values (current_index s ds order))"

definition history_keys :: "schema \<Rightarrow> datom list \<Rightarrow> index_order \<Rightarrow> bytes list" where
  "history_keys s ds order = map (\<lambda>x. datom_key x order) (om_values (history_index s ds order))"

lemma om_values_map:
  assumes "\<And>k. om_get m k = map_option g (om_get m' k)"
  shows "om_values m = map g (om_values m')"
proof -
  have "om_keys m = om_keys m'"
    by (rule strict_sorted_unique [OF om_keys_ascending om_keys_ascending]) (auto simp: om_keys_iff assms)
  moreover have "om_values m = map (\<lambda>k. the (om_get m k)) (om_keys m)"
    using map_snd_by_key [OF ascending_distinct [OF om_entries_ascending]] by (simp add: om_values_def om_keys_def om_get_entries)
  moreover have "om_values m' = map (\<lambda>k. the (om_get m' k)) (om_keys m')"
    using map_snd_by_key [OF ascending_distinct [OF om_entries_ascending]] by (simp add: om_values_def om_keys_def om_get_entries)
  moreover have "the (om_get m k) = g (the (om_get m' k))" if "k \<in> set (om_keys m')" for k
    using that by (auto simp: om_keys_iff assms)
  ultimately show ?thesis by simp
qed

lemma seg_keys_from_sorted [simp]: "seg_keys (fst (from_sorted n order ds)) = map (\<lambda>x. datom_key x order) ds"
  and leaf_sizes_from_sorted: "leaf_sizes_ok (fst (from_sorted n order ds))"
proof -
  have "foldl (\<lambda>b d. push b (datom_key d order)) b ds = foldl push b (map (\<lambda>x. datom_key x order) ds)" for b
    by (induction ds arbitrary: b) simp_all
  then have "from_sorted n order ds = from_keys n (map (\<lambda>x. datom_key x order) ds)"
    by (simp add: from_sorted_def from_keys_def)
  then show "seg_keys (fst (from_sorted n order ds)) = map (\<lambda>x. datom_key x order) ds" "leaf_sizes_ok (fst (from_sorted n order ds))"
    by (simp_all add: leaf_sizes_from_keys)
qed

definition seg_current :: "schema \<Rightarrow> datom list \<Rightarrow> index_order \<Rightarrow> segment \<Rightarrow> bool" where
  "seg_current s ds order seg \<longleftrightarrow> leaf_sizes_ok seg \<and> seg_keys seg = current_keys s ds order"

definition seg_history :: "schema \<Rightarrow> datom list \<Rightarrow> index_order \<Rightarrow> segment \<Rightarrow> bool" where
  "seg_history s ds order seg \<longleftrightarrow> seg_keys seg = history_keys s ds order"

lemma current_index_keys: "map (component_key order) (om_values (current_index s ds order)) = om_keys (current_index s ds order)"
  unfolding om_values_def om_keys_def map_map
  by (rule map_cong [OF refl]) (auto simp: om_entries_iff current_indexes_get)

lemma current_keys_sorted: "sorted_wrt (<) (map key_components (current_keys s ds order))"
proof -
  have "map key_components (current_keys s ds order) = om_keys (current_index s ds order)"
    using current_index_keys [of order s ds] by (simp add: current_keys_def comp_def component_key_fact [abs_def])
  then show ?thesis by (simp add: om_keys_ascending)
qed

lemma seg_current_facts:
  assumes "seg_current s ds order seg"
  shows "om_get (seg_facts seg) f = map_option (\<lambda>x. datom_key x order) (om_get (current_index s ds order) f)"
proof -
  have "om_get (seg_facts seg) f = map_of (placed key_components (current_keys s ds order)) f"
    using assms seg_facts_get [of seg f] current_keys_sorted [of s ds order] by (simp add: seg_current_def)
  moreover have "placed key_components (current_keys s ds order) = map (\<lambda>(k, x). (k, datom_key x order)) (om_entries (current_index s ds order))"
    unfolding current_keys_def om_values_def by (auto simp: om_entries_iff current_indexes_get component_key_fact)
  ultimately show ?thesis by (simp add: om_get_entries map_of_map)
qed

lemma seg_current_fold:
  assumes "seg_current s pre order seg"
  shows "seg_current s (pre @ tail) order (fst (seg_apply n seg order (filter (covered s order) tail)))"
proof -
  have sorted: "sorted_wrt (<) (map key_components (seg_keys seg))" and sizes: "leaf_sizes_ok seg"
    using assms current_keys_sorted [of s pre order] by (simp_all add: seg_current_def)
  have fold: "om_get (current_fold order (filter (covered s order) tail) (seg_facts seg)) f =
      map_option (\<lambda>x. datom_key x order) (om_get (current_index s (pre @ tail) order) f)" for f
  proof (induction tail arbitrary: f rule: rev_induct)
    case Nil
    then show ?case by (simp add: current_fold_def seg_current_facts [OF assms])
  next
    case (snoc x tail)
    have "current_index s (pre @ tail @ [x]) order = apply_current s [x] (current_index s (pre @ tail)) order"
      using apply_current_project [of s "[x]" "pre @ tail"] by simp
    with snoc show ?case
      by (simp add: apply_current_def insert_datom_def remove_datom_def current_fold_def current_step_def Let_def component_key_fact)
  qed
  let ?r = "fst (seg_apply n seg order (filter (covered s order) tail))"
  have "seg_keys ?r = om_values (current_fold order (filter (covered s order) tail) (seg_facts seg))"
    using seg_facts_apply [OF sorted] seg_keys_facts [OF seg_apply_sorted [OF sorted]] by metis
  moreover have "leaf_sizes_ok ?r" using leaves_from_apply [OF sizes] by (simp add: leaves_from_def)
  ultimately show ?thesis using om_values_map [OF fold] by (simp add: seg_current_def current_keys_def)
qed

lemma seg_current_rebuild: "seg_current s ds order (fst (from_sorted n order (om_values (current_index s ds order))))"
  by (simp add: seg_current_def current_keys_def leaf_sizes_from_sorted)

lemma history_index_snoc:
  "history_index s (ds @ [x]) order =
    (if \<not> no_history_attr s (d_a x) \<and> covered s order x then om_insert (datom_key x order) x (history_index s ds order)
     else history_index s ds order)"
  by (simp add: compute_indexes_def insert_datom_def)

lemma history_index_key: "om_get (history_index s ds order) k = Some x \<Longrightarrow> k = datom_key x order"
proof (induction ds rule: rev_induct)
  case Nil
  then show ?case by (simp add: compute_indexes_def)
qed (auto simp: history_index_snoc split: if_splits)

lemma history_keys_eq: "history_keys s ds order = om_keys (history_index s ds order)"
  unfolding history_keys_def om_values_def om_keys_def map_map
  by (rule map_cong [OF refl]) (auto simp: om_entries_iff dest: history_index_key)

lemma history_keys_sorted: "sorted_wrt (<) (history_keys s ds order)"
  by (simp add: history_keys_eq om_keys_ascending)

lemma history_keys_set:
  "set (history_keys s ds order) = (\<lambda>x. datom_key x order) ` set (filter (\<lambda>x. \<not> no_history_attr s (d_a x) \<and> covered s order x) ds)"
proof -
  have "(\<exists>v. om_get (history_index s ds order) k = Some v) \<longleftrightarrow>
      k \<in> (\<lambda>x. datom_key x order) ` set (filter (\<lambda>x. \<not> no_history_attr s (d_a x) \<and> covered s order x) ds)" for k
  proof (induction ds rule: rev_induct)
    case Nil
    then show ?case by (simp add: compute_indexes_def)
  qed (auto simp: history_index_snoc)
  then show ?thesis by (auto simp: history_keys_eq om_keys_iff)
qed

lemma seg_history_fold:
  assumes "seg_history s pre order seg"
  shows "seg_history s (pre @ tail) order (fst (insert_history n seg order
    (filter (\<lambda>x. \<not> no_history_attr s (d_a x) \<and> covered s order x) tail)))"
proof -
  have sorted: "sorted_wrt (<) (seg_keys seg)" using assms by (simp add: seg_history_def history_keys_sorted)
  show ?thesis unfolding seg_history_def
    by (rule strict_sorted_unique [OF insert_history_sorted [OF sorted] history_keys_sorted])
      (use assms in \<open>auto simp: insert_history_set [OF sorted] seg_history_def history_keys_set\<close>)
qed

lemma seg_history_rebuild: "seg_history s ds order (fst (from_sorted n order (om_values (history_index s ds order))))"
  by (simp add: seg_history_def history_keys_def)

subsection \<open>Chunks and manifests of a segment\<close>

definition chunk_id :: "(bytes \<Rightarrow> blob_id) \<Rightarrow> leaf \<Rightarrow> blob_id" where
  "chunk_id digest l = digest (encode_segment_chunk (leaf_keys l))"

definition manifest_id :: "(bytes \<Rightarrow> blob_id) \<Rightarrow> segment \<Rightarrow> blob_id" where
  "manifest_id digest seg = digest (encode_index_manifest (map (chunk_id digest) seg))"

fun plan_id :: "(bytes \<Rightarrow> blob_id) \<Rightarrow> chunk_plan \<Rightarrow> blob_id" where
  "plan_id digest (PublishedChunk i) = i"
| "plan_id digest (RebuiltChunk bytes) = digest bytes"

text \<open>The chunk recorded for a leaf id is the chunk of the leaf of the segment with that id.\<close>

definition chunk_map_ok :: "(bytes \<Rightarrow> blob_id) \<Rightarrow> segment \<Rightarrow> (nat, blob_id) omap \<Rightarrow> bool" where
  "chunk_map_ok digest seg m \<longleftrightarrow> (\<forall>k i. om_get m k = Some i \<longrightarrow> (\<exists>l \<in> set seg. leaf_id l = k \<and> i = chunk_id digest l))"

lemma plan_chunk_id:
  assumes "ids_ok n (set old \<union> set seg)" and "l \<in> set seg" and "\<And>m. stored = Some m \<Longrightarrow> chunk_map_ok digest old m"
  shows "plan_id digest (plan_chunk l stored) = chunk_id digest l"
    and "plan_chunk l stored = PublishedChunk i \<Longrightarrow> stored \<noteq> None \<and> i \<in> chunk_id digest ` set old"
    and "plan_chunk l stored = RebuiltChunk bytes \<Longrightarrow> bytes = encode_segment_chunk (leaf_keys l)"
proof -
  have hit: "l \<in> set old \<and> i = chunk_id digest l" if "stored = Some m" "om_get m (leaf_id l) = Some i" for m i
  proof -
    note hit = that
    obtain l' where "l' \<in> set old" "leaf_id l' = leaf_id l" "i = chunk_id digest l'"
      using assms(3) [OF hit(1)] hit(2) by (auto simp: chunk_map_ok_def)
    moreover from this have "l' = l" using assms(1,2) by (auto simp: ids_ok_def dest: inj_onD)
    ultimately show ?thesis by simp
  qed
  then show "plan_id digest (plan_chunk l stored) = chunk_id digest l"
    by (auto simp: plan_chunk_def chunk_id_def split: option.split bind_splits)
  show "stored \<noteq> None \<and> i \<in> chunk_id digest ` set old" if "plan_chunk l stored = PublishedChunk i"
    using that hit by (auto simp: plan_chunk_def split: option.splits bind_splits)
  show "bytes = encode_segment_chunk (leaf_keys l)" if "plan_chunk l stored = RebuiltChunk bytes"
    using that by (auto simp: plan_chunk_def split: option.splits)
qed

lemma chunk_ids_by_leaf_ok:
  assumes "slot < length segs" and "ids_ok n (set (segs ! slot))"
  shows "chunk_map_ok digest (segs ! slot) (chunk_ids_by_leaf segs (map (map (chunk_id digest)) segs) ! slot)"
proof -
  have fold: "om_get (fold (\<lambda>(i, b). om_insert i b) (zip (map leaf_id seg) (map (chunk_id digest) seg)) m) k = Some i \<Longrightarrow>
      om_get m k = Some i \<or> (\<exists>l \<in> set seg. leaf_id l = k \<and> i = chunk_id digest l)" for seg m k i
    by (induction seg arbitrary: m) (fastforce split: if_splits)+
  show ?thesis
    using assms(1) fold [of "segs ! slot" om_empty] by (auto simp: chunk_map_ok_def chunk_ids_by_leaf_def)
qed

subsection \<open>Planning one index after the other\<close>

lemma plan_fold:
  assumes "\<And>slot n. slot < length os \<Longrightarrow> n\<^sub>0 \<le> n \<Longrightarrow> n \<le> snd (build slot (os ! slot) n) \<and>
      shows_index (os ! slot) (fst (build slot (os ! slot) n)) \<and>
      ids_ok (snd (build slot (os ! slot) n)) (set (old slot) \<union> set (fst (build slot (os ! slot) n)))"
  shows "\<exists>segs n. fold (\<lambda>(slot, order) (segments, planned, n). case build slot order n of (segment, n) \<Rightarrow>
        (segments @ [segment], planned @ [map (\<lambda>l. plan_chunk l (stored slot)) segment], n)) (enumerate 0 os) ([], [], n\<^sub>0) =
      (segs, map (\<lambda>slot. map (\<lambda>l. plan_chunk l (stored slot)) (segs ! slot)) [0..<length os], n) \<and> n\<^sub>0 \<le> n \<and>
      length segs = length os \<and> (\<forall>slot < length os. shows_index (os ! slot) (segs ! slot) \<and> ids_ok n (set (old slot) \<union> set (segs ! slot)))"
  using assms
proof (induction os rule: rev_induct)
  case (snoc order os)
  let ?step = "\<lambda>(slot, order) (segments, planned, n). case build slot order n of (segment, n) \<Rightarrow>
        (segments @ [segment], planned @ [map (\<lambda>l. plan_chunk l (stored slot)) segment], n)"
  have "slot < length os \<Longrightarrow> n\<^sub>0 \<le> n \<Longrightarrow> n \<le> snd (build slot (os ! slot) n) \<and>
      shows_index (os ! slot) (fst (build slot (os ! slot) n)) \<and>
      ids_ok (snd (build slot (os ! slot) n)) (set (old slot) \<union> set (fst (build slot (os ! slot) n)))" for slot n
    using snoc.prems [of slot n] by (simp add: nth_append)
  from snoc.IH [OF this] obtain segs n where IH:
      "fold ?step (enumerate 0 os) ([], [], n\<^sub>0) =
         (segs, map (\<lambda>slot. map (\<lambda>l. plan_chunk l (stored slot)) (segs ! slot)) [0..<length os], n)"
      "n\<^sub>0 \<le> n" "length segs = length os"
      "\<And>slot. slot < length os \<Longrightarrow> shows_index (os ! slot) (segs ! slot) \<and> ids_ok n (set (old slot) \<union> set (segs ! slot))"
    by blast
  obtain seg n' where build: "build (length os) order n = (seg, n')" by fastforce
  then have new: "n \<le> n'" "shows_index order seg" "ids_ok n' (set (old (length os)) \<union> set seg)"
    using snoc.prems [of "length os" n] IH(2) by simp_all
  have "fold ?step (enumerate 0 (os @ [order])) ([], [], n\<^sub>0) =
      (segs @ [seg], map (\<lambda>slot. map (\<lambda>l. plan_chunk l (stored slot)) ((segs @ [seg]) ! slot)) [0..<length (os @ [order])], n')"
    using IH(1,3) build by (simp add: enumerate_append_eq nth_append cong: map_cong) 
  moreover have "shows_index ((os @ [order]) ! slot) ((segs @ [seg]) ! slot) \<and> ids_ok n' (set (old slot) \<union> set ((segs @ [seg]) ! slot))"
    if "slot < length (os @ [order])" for slot
    using that IH(3,4) new ids_ok_mono [OF _ new(1)] by (cases "slot = length os") (auto simp: nth_append less_Suc_eq)
  ultimately show ?case using IH(2,3) new(1) by (intro exI [of _ "segs @ [seg]"] exI [of _ n']) simp
qed simp

end
