(* ===== verification/Publication_Plan.thy ===== *)
theory Publication_Plan
  imports Publication
begin

text \<open>
  What a publication pass plans (\<open>plan_indexes\<close>, \<open>plan_history_indexes\<close> and \<open>publish_pass\<close> of
  crates/corium-transactor/src/lib.rs). Folding the log tail into the segments of the last publication gives the
  segments a rebuild gives, and every chunk that is carried over by its id is a chunk of the last publication.
\<close>

subsection \<open>What a pass plans\<close>

text \<open>The datoms recorded up to a basis come first, and those after it follow.\<close>

definition at_basis :: "db \<Rightarrow> u64 \<Rightarrow> datom list" where
  "at_basis d t = filter (\<lambda>x. eid_sequence (d_tx x) \<le> t) (db_recorded d)"

definition splits_at :: "db \<Rightarrow> u64 \<Rightarrow> bool" where
  "splits_at d t \<longleftrightarrow> t \<le> db_basis_t d \<and> db_recorded d = at_basis d t @ recorded_since d t"

definition segments_ok :: "(index_order \<Rightarrow> segment \<Rightarrow> bool) \<Rightarrow> nat \<Rightarrow> segment list \<Rightarrow> bool" where
  "segments_ok shows_index n segs \<longleftrightarrow> length segs = 4 \<and>
     (\<forall>slot < 4. shows_index (ORDERS ! slot) (segs ! slot) \<and> ids_ok n (set (segs ! slot)))"

definition indexes_ok :: "db \<Rightarrow> nat \<Rightarrow> u64 \<Rightarrow> segment list \<Rightarrow> segment list option \<Rightarrow> bool" where
  "indexes_ok d n t segs hist \<longleftrightarrow> splits_at d t \<and> segments_ok (seg_current (db_schema d) (at_basis d t)) n segs \<and>
     (\<forall>hs. hist = Some hs \<longrightarrow> segments_ok (seg_history (db_schema d) (at_basis d t)) n hs)"

definition all_segments :: "segment list \<Rightarrow> segment list option \<Rightarrow> segment list" where
  "all_segments segs hist = segs @ (case hist of None \<Rightarrow> [] | Some hs \<Rightarrow> hs)"

text \<open>The blobs a list of segments is published as.\<close>

definition segment_blobs :: "(bytes \<Rightarrow> blob_id) \<Rightarrow> segment list \<Rightarrow> bytes set" where
  "segment_blobs digest segs = (\<Union>seg \<in> set segs. insert (encode_index_manifest (map (chunk_id digest) seg))
     ((\<lambda>l. encode_segment_chunk (leaf_keys l)) ` set seg))"

definition published_ok :: "(bytes \<Rightarrow> blob_id) \<Rightarrow> bytes set \<Rightarrow> db \<Rightarrow> nat \<Rightarrow> published_indexes \<Rightarrow> bool" where
  "published_ok digest known d n p \<longleftrightarrow> indexes_ok d n (pu_basis_t p) (pu_segments p) (pu_history_segments p) \<and>
     segment_blobs digest (all_segments (pu_segments p) (pu_history_segments p)) \<subseteq> known \<and>
     pu_manifests p = four_roots (map (manifest_id digest) (pu_segments p)) \<and>
     pu_history_manifests p = map_option (\<lambda>hs. four_roots (map (manifest_id digest) hs)) (pu_history_segments p) \<and>
     (\<forall>slot < 4. chunk_map_ok digest (pu_segments p ! slot) (pu_chunks p ! slot)) \<and>
     (\<forall>hs. pu_history_segments p = Some hs \<longrightarrow> (\<exists>ms. pu_history_chunks p = Some ms \<and> (\<forall>slot < 4. chunk_map_ok digest (hs ! slot) (ms ! slot))))"

definition segment_chunks :: "(bytes \<Rightarrow> blob_id) \<Rightarrow> segment list \<Rightarrow> blob_id set" where
  "segment_chunks digest segs = (\<Union>seg \<in> set segs. chunk_id digest ` set seg)"

definition carried :: "chunk_plan list list \<Rightarrow> blob_id set" where
  "carried planned = {i. \<exists>plan \<in> set planned. PublishedChunk i \<in> set plan}"

definition rebuilt :: "chunk_plan list list \<Rightarrow> bytes set" where
  "rebuilt planned = {bytes. \<exists>plan \<in> set planned. RebuiltChunk bytes \<in> set plan}"

lemma length_ORDERS [simp]: "length ORDERS = 4"
  by (simp add: ORDERS_def)

text \<open>Planning four indexes, from the segments of a previous publication or from scratch.\<close>

lemma plan_four:
  assumes build: "\<And>slot n. slot < 4 \<Longrightarrow> n\<^sub>0 \<le> n \<Longrightarrow> n \<le> snd (build slot (ORDERS ! slot) n) \<and>
      shows_index (ORDERS ! slot) (fst (build slot (ORDERS ! slot) n)) \<and>
      ids_ok (snd (build slot (ORDERS ! slot) n)) (set (old slot) \<union> set (fst (build slot (ORDERS ! slot) n)))"
    and stored: "\<And>slot m. slot < 4 \<Longrightarrow> stored slot = Some m \<Longrightarrow> chunk_map_ok digest (old slot) m"
    and plan: "fold (\<lambda>(slot, order) (segments, planned, n). case build slot order n of (segment, n) \<Rightarrow>
        (segments @ [segment], planned @ [map (\<lambda>l. plan_chunk l (stored slot)) segment], n)) (enumerate 0 ORDERS) ([], [], n\<^sub>0) = (segs, planned, n)"
  shows "n\<^sub>0 \<le> n" and "segments_ok shows_index n segs"
    and "map (map (plan_id digest)) planned = map (map (chunk_id digest)) segs"
    and "\<And>i. i \<in> carried planned \<Longrightarrow> \<exists>slot < 4. stored slot \<noteq> None \<and> i \<in> chunk_id digest ` set (old slot)"
    and "rebuilt planned \<subseteq> segment_blobs digest segs"
proof -
  obtain segs' n' where *: "fold (\<lambda>(slot, order) (segments, planned, n). case build slot order n of (segment, n) \<Rightarrow>
        (segments @ [segment], planned @ [map (\<lambda>l. plan_chunk l (stored slot)) segment], n)) (enumerate 0 ORDERS) ([], [], n\<^sub>0) =
      (segs', map (\<lambda>slot. map (\<lambda>l. plan_chunk l (stored slot)) (segs' ! slot)) [0..<4], n')" "n\<^sub>0 \<le> n'" "length segs' = 4"
      "\<And>slot. slot < 4 \<Longrightarrow> shows_index (ORDERS ! slot) (segs' ! slot) \<and> ids_ok n' (set (old slot) \<union> set (segs' ! slot))"
    using plan_fold [of ORDERS n\<^sub>0 build shows_index old stored] build by (auto simp only: length_ORDERS)
  have eq: "segs = segs'" "planned = map (\<lambda>slot. map (\<lambda>l. plan_chunk l (stored slot)) (segs' ! slot)) [0..<4]" "n = n'"
    using trans [OF plan [symmetric] *(1)] by simp_all
  show "n\<^sub>0 \<le> n" using *(2) eq by simp
  show "segments_ok shows_index n segs" using *(3,4) eq by (auto simp: segments_ok_def ids_ok_def inj_on_def)
  have ids: "map (plan_id digest) (map (\<lambda>l. plan_chunk l (stored slot)) (segs' ! slot)) = map (chunk_id digest) (segs' ! slot)" if "slot < 4" for slot
    using plan_chunk_id(1) [OF conjunct2 [OF *(4) [OF that]] _ stored [OF that]] by simp
  show "map (map (plan_id digest)) planned = map (map (chunk_id digest)) segs"
    using ids *(3) by (intro nth_equalityI) (simp_all add: eq)
  show "rebuilt planned \<subseteq> segment_blobs digest segs"
  proof
    fix bytes assume "bytes \<in> rebuilt planned"
    then obtain slot l where sl: "slot < 4" "l \<in> set (segs' ! slot)" "plan_chunk l (stored slot) = RebuiltChunk bytes"
      by (auto simp: rebuilt_def eq)
    from plan_chunk_id(3) [OF conjunct2 [OF *(4) [OF sl(1)]] sl(2) stored [OF sl(1)] sl(3)] sl(1,2) *(3)
    show "bytes \<in> segment_blobs digest segs" unfolding segment_blobs_def eq by (auto intro!: bexI [of _ "segs' ! slot"])
  qed
  show "\<exists>slot < 4. stored slot \<noteq> None \<and> i \<in> chunk_id digest ` set (old slot)" if "i \<in> carried planned" for i
  proof -
    note member = that
    obtain slot l where sl: "slot < 4" "l \<in> set (segs' ! slot)" "plan_chunk l (stored slot) = PublishedChunk i"
      using member by (auto simp: carried_def eq)
    from plan_chunk_id(2) [OF conjunct2 [OF *(4) [OF sl(1)]] sl(2) stored [OF sl(1)] sl(3)] sl(1) show ?thesis by blast
  qed
qed

lemma datoms_at_current: "db_wf d \<Longrightarrow> db_view d = Current \<Longrightarrow> datoms_at d order = om_values (current_index (db_schema d) (db_recorded d) order)"
  by (simp add: datoms_at_def db_wf_indexes fresh_indexes_def compute_indexes_def)

lemma datoms_at_history: "db_wf d \<Longrightarrow> datoms_at (history d) order = om_values (history_index (db_schema d) (db_recorded d) order)"
  using db_wf_with_view [of d History] by (simp add: history_def datoms_at_def db_wf_indexes fresh_indexes_def)

lemma plan_indexes_ok:
  assumes "db_wf d" and "db_view d = Current" and "\<And>p. previous = Some p \<Longrightarrow> published_ok digest known d n\<^sub>0 p"
    and "plan_indexes d previous n\<^sub>0 = (segs, planned, n)"
  shows "n\<^sub>0 \<le> n" and "segments_ok (seg_current (db_schema d) (db_recorded d)) n segs"
    and "map (map (plan_id digest)) planned = map (map (chunk_id digest)) segs"
    and "i \<in> carried planned \<Longrightarrow> \<exists>p. previous = Some p \<and> i \<in> segment_chunks digest (pu_segments p)"
    and "rebuilt planned \<subseteq> segment_blobs digest segs"
proof -
  define build where "build = (\<lambda>slot order n. case previous of
      Some p \<Rightarrow> seg_apply n (pu_segments p ! slot) order (filter (covered (db_schema d) order) (recorded_since d (pu_basis_t p)))
    | None \<Rightarrow> from_sorted n order (datoms_at d order))"
  define old where "old = (\<lambda>slot. case previous of Some p \<Rightarrow> pu_segments p ! slot | None \<Rightarrow> [])"
  define stored where "stored = (\<lambda>slot :: nat. map_option (\<lambda>p. pu_chunks p ! slot) previous)"
  have step: "plan_index_step d previous = (\<lambda>(slot, order) (segments, planned, n). case build slot order n of (segment, n) \<Rightarrow>
      (segments @ [segment], planned @ [map (\<lambda>l. plan_chunk l (stored slot)) segment], n))"
    by (simp add: plan_index_step_def build_def stored_def Let_def fun_eq_iff)
  note plan = assms(4) [unfolded plan_indexes_def step]
  have good: "n \<le> snd (build slot (ORDERS ! slot) n) \<and> seg_current (db_schema d) (db_recorded d) (ORDERS ! slot) (fst (build slot (ORDERS ! slot) n)) \<and>
      ids_ok (snd (build slot (ORDERS ! slot) n)) (set (old slot) \<union> set (fst (build slot (ORDERS ! slot) n)))"
    if "slot < 4" "n\<^sub>0 \<le> n" for slot n
  proof (cases previous)
    case None
    then show ?thesis
      using seg_current_rebuild ids_ok_from_sorted by (simp add: build_def old_def datoms_at_current [OF assms(1,2)])
  next
    case (Some p)
    have "splits_at d (pu_basis_t p)" "seg_current (db_schema d) (at_basis d (pu_basis_t p)) (ORDERS ! slot) (pu_segments p ! slot)"
      "ids_ok n (set (pu_segments p ! slot))"
      using assms(3) [OF Some] that by (auto simp: published_ok_def indexes_ok_def segments_ok_def intro: ids_ok_mono)
    then show ?thesis
      using seg_current_fold [of "db_schema d" "at_basis d (pu_basis_t p)" "ORDERS ! slot" "pu_segments p ! slot" "recorded_since d (pu_basis_t p)" n]
        ids_ok_apply [of n "pu_segments p ! slot"] by (simp add: build_def old_def Some splits_at_def)
  qed
  have hits: "chunk_map_ok digest (old slot) m" if "slot < 4" "stored slot = Some m" for slot m
    using assms(3) that by (auto simp: stored_def old_def published_ok_def)
  show "n\<^sub>0 \<le> n" "segments_ok (seg_current (db_schema d) (db_recorded d)) n segs"
    "map (map (plan_id digest)) planned = map (map (chunk_id digest)) segs" "rebuilt planned \<subseteq> segment_blobs digest segs"
    by (rule plan_four [of n\<^sub>0 build _ old stored digest, OF good hits plan]; assumption)+
  show "\<exists>p. previous = Some p \<and> i \<in> segment_chunks digest (pu_segments p)" if "i \<in> carried planned"
  proof -
    note member = that
    obtain slot p where "slot < 4" "previous = Some p" "i \<in> chunk_id digest ` set (pu_segments p ! slot)"
      using plan_four(4) [of n\<^sub>0 build _ old stored digest, OF good hits plan member] by (auto simp: stored_def old_def)
    moreover from this have "pu_segments p ! slot \<in> set (pu_segments p)"
      using assms(3) by (auto simp: published_ok_def indexes_ok_def segments_ok_def intro: nth_mem)
    ultimately show ?thesis by (auto simp: segment_chunks_def)
  qed
qed

lemma plan_history_ok:
  assumes "db_wf d" and "\<And>p. previous = Some p \<Longrightarrow> published_ok digest known d n\<^sub>0 p \<and> pu_history_segments p \<noteq> None"
    and "plan_history_indexes d previous n\<^sub>0 = (segs, planned, n)"
  shows "n\<^sub>0 \<le> n" and "segments_ok (seg_history (db_schema d) (db_recorded d)) n segs"
    and "map (map (plan_id digest)) planned = map (map (chunk_id digest)) segs"
    and "i \<in> carried planned \<Longrightarrow> \<exists>p. previous = Some p \<and> i \<in> segment_chunks digest (the (pu_history_segments p))"
    and "rebuilt planned \<subseteq> segment_blobs digest segs"
proof -
  define build where "build = (\<lambda>slot order n. case previous of
      Some p \<Rightarrow> insert_history n (the (pu_history_segments p) ! slot) order
        (filter (\<lambda>x. \<not> no_history_attr (db_schema d) (d_a x) \<and> covered (db_schema d) order x) (recorded_since d (pu_basis_t p)))
    | None \<Rightarrow> from_sorted n order (datoms_at (history d) order))"
  define old where "old = (\<lambda>slot. case previous of Some p \<Rightarrow> the (pu_history_segments p) ! slot | None \<Rightarrow> [])"
  define stored where "stored = (\<lambda>slot :: nat. map_option (\<lambda>p. the (pu_history_chunks p) ! slot) previous)"
  have step: "plan_history_step d previous = (\<lambda>(slot, order) (segments, planned, n). case build slot order n of (segment, n) \<Rightarrow>
      (segments @ [segment], planned @ [map (\<lambda>l. plan_chunk l (stored slot)) segment], n))"
    by (simp add: plan_history_step_def build_def stored_def Let_def fun_eq_iff)
  note plan = assms(3) [unfolded plan_history_indexes_def step]
  have good: "n \<le> snd (build slot (ORDERS ! slot) n) \<and> seg_history (db_schema d) (db_recorded d) (ORDERS ! slot) (fst (build slot (ORDERS ! slot) n)) \<and>
      ids_ok (snd (build slot (ORDERS ! slot) n)) (set (old slot) \<union> set (fst (build slot (ORDERS ! slot) n)))"
    if "slot < 4" "n\<^sub>0 \<le> n" for slot n
  proof (cases previous)
    case None
    then show ?thesis
      using seg_history_rebuild ids_ok_from_sorted by (simp add: build_def old_def datoms_at_history [OF assms(1)])
  next
    case (Some p)
    obtain hs where hs: "pu_history_segments p = Some hs" using assms(2) [OF Some] by blast
    have "splits_at d (pu_basis_t p)" "seg_history (db_schema d) (at_basis d (pu_basis_t p)) (ORDERS ! slot) (hs ! slot)"
      "ids_ok n (set (hs ! slot))"
      using assms(2) [OF Some] that hs by (auto simp: published_ok_def indexes_ok_def segments_ok_def intro: ids_ok_mono)
    then show ?thesis
      using seg_history_fold [of "db_schema d" "at_basis d (pu_basis_t p)" "ORDERS ! slot" "hs ! slot" "recorded_since d (pu_basis_t p)" n]
        ids_ok_insert_history [of n "hs ! slot"] by (simp add: build_def old_def Some hs splits_at_def)
  qed
  have hits: "chunk_map_ok digest (old slot) m" if "slot < 4" "stored slot = Some m" for slot m
    using assms(2) that by (fastforce simp: stored_def old_def published_ok_def)
  show "n\<^sub>0 \<le> n" "segments_ok (seg_history (db_schema d) (db_recorded d)) n segs"
    "map (map (plan_id digest)) planned = map (map (chunk_id digest)) segs" "rebuilt planned \<subseteq> segment_blobs digest segs"
    by (rule plan_four [of n\<^sub>0 build _ old stored digest, OF good hits plan]; assumption)+
  show "\<exists>p. previous = Some p \<and> i \<in> segment_chunks digest (the (pu_history_segments p))" if "i \<in> carried planned"
  proof -
    note member = that
    obtain slot p where "slot < 4" "previous = Some p" "i \<in> chunk_id digest ` set (the (pu_history_segments p) ! slot)"
      using plan_four(4) [of n\<^sub>0 build _ old stored digest, OF good hits plan member] by (auto simp: stored_def old_def)
    moreover from this have "the (pu_history_segments p) ! slot \<in> set (the (pu_history_segments p))"
      using assms(2) by (fastforce simp: published_ok_def indexes_ok_def segments_ok_def intro: nth_mem)
    ultimately show ?thesis by (auto simp: segment_chunks_def)
  qed
qed

text \<open>A chunk is vouched for by a pinned index state when the manifests it names hold it.\<close>

definition vouched :: "(bytes \<Rightarrow> blob_id) \<Rightarrow> bytes set \<Rightarrow> root_index_state option \<Rightarrow> blob_id \<Rightarrow> bool" where
  "vouched digest known pinned i \<longleftrightarrow> (\<exists>pin segs hist. pinned = Some pin \<and> length segs = 4 \<and> (\<forall>hs. hist = Some hs \<longrightarrow> length hs = 4) \<and>
     ri_roots pin = Some (four_roots (map (manifest_id digest) segs)) \<and>
     ri_history pin = map_option (\<lambda>hs. four_roots (map (manifest_id digest) hs)) hist \<and>
     segment_blobs digest (all_segments segs hist) \<subseteq> known \<and> i \<in> segment_chunks digest (all_segments segs hist))"

lemma vouchedI:
  assumes "published_ok digest known d n p" and "is_current p stored v" and "i \<in> segment_chunks digest (all_segments (pu_segments p) (pu_history_segments p))"
  shows "vouched digest known (Some (index_state_of stored)) i"
proof -
  obtain r where r: "stored = Some r" "r_roots r = Some (pu_manifests p)" "r_history_roots r = pu_history_manifests p"
    using assms(2) by (auto simp: is_current_def split: option.splits)
  show ?thesis unfolding vouched_def
    by (rule exI [of _ "index_state_of stored"], rule exI [of _ "pu_segments p"], rule exI [of _ "pu_history_segments p"])
      (use assms(1,3) r in \<open>auto simp: index_state_of_def published_ok_def indexes_ok_def segments_ok_def\<close>)
qed

lemma at_basis_now:
  assumes "db_wf d"
  shows "at_basis d (db_basis_t d) = db_recorded d" "recorded_since d (db_basis_t d) = []" "splits_at d (db_basis_t d)"
proof -
  have bound: "eid_sequence (d_tx x) \<le> db_basis_t d" if "x \<in> set (db_recorded d)" for x
    using assms that by (simp add: db_wf_def tx_bounded_def)
  then show now: "at_basis d (db_basis_t d) = db_recorded d" by (simp add: at_basis_def filter_id_conv)
  have "takeWhile (\<lambda>x. db_basis_t d < eid_sequence (d_tx x)) (rev (db_recorded d)) = []"
    using bound by (cases "rev (db_recorded d)") (auto simp: not_less rev_eq_Cons_iff)
  then show "recorded_since d (db_basis_t d) = []" by (simp add: recorded_since_def)
  with now show "splits_at d (db_basis_t d)" by (simp add: splits_at_def)
qed

definition plan_sound :: "(bytes \<Rightarrow> blob_id) \<Rightarrow> bytes set \<Rightarrow> pass_work \<Rightarrow> chunk_plan list list \<Rightarrow> bool" where
  "plan_sound digest known w planned \<longleftrightarrow>
     map (map (plan_id digest)) planned = map (map (chunk_id digest)) (all_segments (pw_segments w) (pw_history w)) \<and>
     (\<forall>i \<in> carried planned. vouched digest known (pw_pinned w) i) \<and>
     rebuilt planned \<subseteq> segment_blobs digest (all_segments (pw_segments w) (pw_history w))"

lemma carried_append: "carried (xs @ ys) = carried xs \<union> carried ys"
  by (auto simp: carried_def)

lemma pass_plan_ok:
  assumes d: "db_wf (ts_db st)" "db_view (ts_db st) = Current"
    and prev: "\<And>p. previous = Some p \<Longrightarrow> published_ok digest known (ts_db st) n p"
    and plan: "pass_plan v previous bytes st n = Inr (w, u, n')"
  shows "n \<le> n' \<and> indexes_ok (ts_db st) n' (pw_basis_t w) (pw_segments w) (pw_history w) \<and>
    (previous = None \<longrightarrow> pw_pinned w = None) \<and> (\<exists>planned. u = upload_new planned \<and> plan_sound digest known w planned)"
proof -
  let ?d = "ts_db st" and ?stored = "Option.bind bytes root_decode"
  define prev' where "prev' = usable_previous previous ?stored v (db_basis_t ?d)"
  have use': "\<exists>p. previous = Some p \<and> p = q \<and> is_current q ?stored v \<and> published_ok digest known ?d n q" if "prev' = Some q" for q
    using that prev by (auto simp: prev'_def usable_previous_def split: option.splits if_splits)
  obtain segs planned m where current: "plan_indexes ?d prev' n = (segs, planned, m)" by (metis prod_cases3)
  have cur: "n \<le> m" "segments_ok (seg_current (db_schema ?d) (db_recorded ?d)) m segs"
      "map (map (plan_id digest)) planned = map (map (chunk_id digest)) segs"
      "\<And>i. i \<in> carried planned \<Longrightarrow> \<exists>p. prev' = Some p \<and> i \<in> segment_chunks digest (pu_segments p)"
      "rebuilt planned \<subseteq> segment_blobs digest segs"
    using plan_indexes_ok [OF d _ current, of digest known] use' by blast+
  have vouch: "vouched digest known (map_option (\<lambda>_. index_state_of ?stored) prev') i"
    if "prev' = Some p" "i \<in> segment_chunks digest (all_segments (pu_segments p) (pu_history_segments p))" for p i
    using vouchedI [of digest known ?d n p ?stored v i] use' that by auto
  show ?thesis
  proof (cases "db_complete ?d")
    case False
    have eq: "pw_basis_t w = db_basis_t ?d" "pw_segments w = segs" "pw_history w = None"
      "pw_pinned w = map_option (\<lambda>_. index_state_of ?stored) prev'" "u = upload_new planned" "n' = m"
      using plan False by (auto simp: pass_plan_def recovery_snapshot_def Let_def current [unfolded prev'_def] prev'_def bindr_eq_Inr)
    then have "plan_sound digest known w planned"
      using cur(3,4,5) vouch by (fastforce simp: plan_sound_def all_segments_def segment_chunks_def)
    then show ?thesis
      using eq cur(1,2) at_basis_now [OF d(1)] by (auto simp: indexes_ok_def prev'_def usable_previous_def)
  next
    case True
    let ?hprev = "Option.bind prev' (\<lambda>p. if pu_history_segments p \<noteq> None then Some p else None)"
    obtain hs hplanned m' where history: "plan_history_indexes ?d ?hprev m = (hs, hplanned, m')"
      by (rule prod_cases3)
    have hprev: "published_ok digest known ?d m q \<and> pu_history_segments q \<noteq> None" if "?hprev = Some q" for q
    proof -
      have "prev' = Some q" "pu_history_segments q \<noteq> None" using that by (auto split: bind_splits if_splits)
      then show ?thesis using use' cur(1)
        by (fastforce simp: published_ok_def indexes_ok_def segments_ok_def intro: ids_ok_mono)
    qed
    have his: "m \<le> m'" "segments_ok (seg_history (db_schema ?d) (db_recorded ?d)) m' hs"
      "map (map (plan_id digest)) hplanned = map (map (chunk_id digest)) hs"
      "\<And>i. i \<in> carried hplanned \<Longrightarrow> \<exists>p. ?hprev = Some p \<and> i \<in> segment_chunks digest (the (pu_history_segments p))"
      "rebuilt hplanned \<subseteq> segment_blobs digest hs"
      using plan_history_ok [OF d(1) _ history, of digest known] hprev by blast+
    have eq: "pw_basis_t w = db_basis_t ?d" "pw_segments w = segs" "pw_history w = Some hs"
      "pw_pinned w = map_option (\<lambda>_. index_state_of ?stored) prev'" "u = upload_new (planned @ hplanned)" "n' = m'"
      using plan True history by (auto simp: pass_plan_def recovery_snapshot_def Let_def current [unfolded prev'_def] prev'_def bindr_eq_Inr)
    have "\<exists>p. prev' = Some p \<and> i \<in> segment_chunks digest (all_segments (pu_segments p) (pu_history_segments p))"
      if "i \<in> carried (planned @ hplanned)" for i
      using that cur(4) [of i] his(4) [of i]
      by (fastforce simp: carried_append all_segments_def segment_chunks_def split: bind_splits if_splits)
    then have "plan_sound digest known w (planned @ hplanned)"
      using vouch cur(3,5) his(3,5) eq by (fastforce simp: plan_sound_def all_segments_def segment_blobs_def rebuilt_def)
    moreover have "segments_ok (seg_current (db_schema ?d) (db_recorded ?d)) m' segs"
      using cur(2) his(1) by (auto simp: segments_ok_def intro: ids_ok_mono)
    ultimately show ?thesis
      using eq cur(1) his(1,2) at_basis_now [OF d(1)] by (auto simp: indexes_ok_def prev'_def usable_previous_def)
  qed
qed

end
