(* ===== verification/Publication_Store.thy ===== *)
theory Publication_Store
  imports Publication_Plan
begin

text \<open>
  Publication against a store that others use: the contract of a store of blobs and roots (locale
  \<open>index_store\<close>), the blobs an upload puts, and what holds while commits, other publishers and garbage
  collection run between the steps of a pass.
\<close>

subsection \<open>Stored indexes\<close>

text \<open>
  What the digest of a blob is relied on for: among the blobs that are known, no two have the same id, and
  the id of each is one.
\<close>

definition digest_ok :: "(bytes \<Rightarrow> blob_id) \<Rightarrow> bytes set \<Rightarrow> bool" where
  "digest_ok digest known \<longleftrightarrow> inj_on digest known \<and> (\<forall>bytes \<in> known. blob_from_hex (digest bytes) \<noteq> None)"

definition addressed :: "(bytes \<Rightarrow> blob_id) \<Rightarrow> bytes set \<Rightarrow> (blob_id \<Rightarrow> bytes option) \<Rightarrow> bool" where
  "addressed digest known content \<longleftrightarrow> (\<forall>i bytes. content i = Some bytes \<longrightarrow> bytes \<in> known \<and> i = digest bytes)"

fun root_list :: "index_roots option \<Rightarrow> blob_id list" where
  "root_list None = []"
| "root_list (Some (a, b, c, d)) = [a, b, c, d]"

text \<open>A root record none of whose blobs is missing.\<close>

definition root_closed :: "(blob_id \<Rightarrow> bytes option) \<Rightarrow> db_root \<Rightarrow> bool" where
  "root_closed content r \<longleftrightarrow> (\<forall>i \<in> set (root_list (r_roots r) @ root_list (r_history_roots r)).
     \<exists>bytes cs. content i = Some bytes \<and> index_blob_children bytes = Inr cs \<and> (\<forall>c \<in> set cs. content c \<noteq> None))"

definition seg_stored :: "(bytes \<Rightarrow> blob_id) \<Rightarrow> (blob_id \<Rightarrow> bytes option) \<Rightarrow> segment \<Rightarrow> bool" where
  "seg_stored digest content seg \<longleftrightarrow> content (manifest_id digest seg) \<noteq> None \<and> (\<forall>l \<in> set seg. content (chunk_id digest l) \<noteq> None)"

lemma root_list_four: "length ids = 4 \<Longrightarrow> root_list (Some (four_roots ids)) = ids"
  by (auto simp: four_roots_def numeral_eq_Suc length_Suc_conv)

lemma addressed_get:
  "digest_ok digest known \<Longrightarrow> addressed digest known content \<Longrightarrow> bytes \<in> known \<Longrightarrow> content (digest bytes) = Some bytes' \<Longrightarrow> bytes' = bytes"
  by (auto simp: digest_ok_def addressed_def dest: inj_onD)

lemma segment_blobs_mem: "seg \<in> set segs \<Longrightarrow> segment_blobs digest [seg] \<subseteq> segment_blobs digest segs"
  by (auto simp: segment_blobs_def)

lemma manifest_children:
  assumes "digest_ok digest known" and "segment_blobs digest [seg] \<subseteq> known"
  shows "index_blob_children (encode_index_manifest (map (chunk_id digest) seg)) = Inr (map (chunk_id digest) seg)"
  by (rule manifest_round_trip) (use assms in \<open>auto simp: digest_ok_def chunk_id_def list_all_iff segment_blobs_def\<close>)

lemma manifest_is_manifest: "is_index_manifest (encode_index_manifest ids)"
  by (simp add: is_index_manifest_def encode_index_manifest_def str_bytes_def)

lemma seg_stored_iff:
  assumes "digest_ok digest known" and "addressed digest known content" and "segment_blobs digest [seg] \<subseteq> known"
  shows "seg_stored digest content seg \<longleftrightarrow>
    (\<exists>bytes cs. content (manifest_id digest seg) = Some bytes \<and> index_blob_children bytes = Inr cs \<and> (\<forall>c \<in> set cs. content c \<noteq> None))"
proof -
  have "encode_index_manifest (map (chunk_id digest) seg) \<in> known" using assms(3) by (simp add: segment_blobs_def)
  from addressed_get [OF assms(1,2) this] manifest_children [OF assms(1,3)] show ?thesis
    by (fastforce simp: seg_stored_def manifest_id_def)
qed

text \<open>A stored segment is read back as its keys.\<close>

lemma load_stored:
  assumes "digest_ok digest known" and "addressed digest known content" and "segment_blobs digest [seg] \<subseteq> known"
    and "seg_stored digest content seg" and "list_all key_fits (seg_keys seg)" and "\<And>i. get i = Inr (content i)"
  shows "load_index_keys get (manifest_id digest seg) = Inr (seg_keys seg)"
proof -
  let ?m = "encode_index_manifest (map (chunk_id digest) seg)"
  have known: "?m \<in> known" "\<And>l. l \<in> set seg \<Longrightarrow> encode_segment_chunk (leaf_keys l) \<in> known"
    using assms(3) by (auto simp: segment_blobs_def)
  have "decode_index_manifest ?m = Inr (map (chunk_id digest) seg)"
    using manifest_children [OF assms(1,3)] by (simp add: index_blob_children_def manifest_is_manifest)
  moreover have "get (manifest_id digest seg) = Inr (Some ?m)"
    using addressed_get [OF assms(1,2) known(1)] assms(4,6) by (auto simp: manifest_id_def seg_stored_def)
  moreover have "load_chunks get (map (chunk_id digest) ls) acc = Inr (acc @ seg_keys ls)" if "set ls \<subseteq> set seg" for ls acc
    using that
  proof (induction ls arbitrary: acc)
    case (Cons l ls)
    then have "get (chunk_id digest l) = Inr (Some (encode_segment_chunk (leaf_keys l)))"
      using addressed_get [OF assms(1,2) known(2) [of l]] assms(4,6) by (auto simp: chunk_id_def seg_stored_def)
    moreover have "list_all key_fits (leaf_keys l)"
      using assms(5) Cons.prems by (auto simp: seg_keys_def list_all_iff)
    ultimately show ?case using Cons by (simp add: decode_encode_chunk)
  qed (simp add: seg_keys_def)
  ultimately show ?thesis by (simp add: load_index_keys_def manifest_is_manifest)
qed

lemma vouched_present:
  assumes "digest_ok digest known" and "addressed digest known content" and "root_closed content r" and "vouched digest known (Some (index_state_of (Some r))) i"
  shows "content i \<noteq> None"
proof -
  obtain segs hist where v: "length segs = 4" "\<And>hs. hist = Some hs \<Longrightarrow> length hs = 4"
      "r_roots r = Some (four_roots (map (manifest_id digest) segs))"
      "r_history_roots r = map_option (\<lambda>hs. four_roots (map (manifest_id digest) hs)) hist"
      "i \<in> segment_chunks digest (all_segments segs hist)" "segment_blobs digest (all_segments segs hist) \<subseteq> known"
    using assms(4) by (auto simp: vouched_def index_state_of_def)
  have "root_list (r_roots r) @ root_list (r_history_roots r) = map (manifest_id digest) (all_segments segs hist)"
    using v(1-4) by (cases hist) (simp_all add: all_segments_def root_list_four)
  moreover obtain seg l where seg: "seg \<in> set (all_segments segs hist)" "l \<in> set seg" "i = chunk_id digest l"
    using v(5) by (auto simp: segment_chunks_def)
  moreover from this have "segment_blobs digest [seg] \<subseteq> known" using segment_blobs_mem v(6) by blast
  ultimately have "seg_stored digest content seg"
    using assms(3) seg_stored_iff [OF assms(1,2)] unfolding root_closed_def by force
  then show ?thesis using seg by (auto simp: seg_stored_def)
qed

subsection \<open>The upload\<close>

definition upload_ok :: "(bytes \<Rightarrow> blob_id) \<Rightarrow> (blob_id \<Rightarrow> bool) \<Rightarrow> blob_id set \<Rightarrow> segment list \<Rightarrow> upload \<Rightarrow> bool" where
  "upload_ok digest safe touched segs u \<longleftrightarrow>
     up_chunk_ids u @ (case up_todo u of [] \<Rightarrow> [] | plan # planned \<Rightarrow>
       (up_children u @ map (plan_id digest) plan) # map (map (plan_id digest)) planned) = map (map (chunk_id digest)) segs \<and>
     (up_todo u = [] \<longrightarrow> up_children u = []) \<and> rebuilt (up_todo u) \<subseteq> segment_blobs digest segs \<and>
     up_manifests u = map (\<lambda>c. digest (encode_index_manifest c)) (up_chunk_ids u) \<and> set (up_manifests u) \<subseteq> touched \<and>
     (\<forall>i \<in> carried (up_todo u). safe i) \<and> (\<forall>i \<in> set (concat (up_chunk_ids u)) \<union> set (up_children u). i \<in> touched \<or> safe i)"

lemma upload_ok_new:
  "map (map (plan_id digest)) planned = map (map (chunk_id digest)) segs \<Longrightarrow> (\<And>i. i \<in> carried planned \<Longrightarrow> safe i) \<Longrightarrow>
    rebuilt planned \<subseteq> segment_blobs digest segs \<Longrightarrow> upload_ok digest safe touched segs (upload_new planned)"
  by (auto simp: upload_ok_def upload_new_def split: list.split)

lemma upload_ok_mono: "upload_ok digest safe touched segs u \<Longrightarrow> touched \<subseteq> touched' \<Longrightarrow> upload_ok digest safe touched' segs u"
  unfolding upload_ok_def by blast

text \<open>What a step of an upload puts in the store.\<close>

definition upload_bytes :: "upload \<Rightarrow> bytes set" where
  "upload_bytes u = (case up_todo u of
     (RebuiltChunk bytes # _) # _ \<Rightarrow> {bytes}
   | [] # _ \<Rightarrow> {encode_index_manifest (up_children u)}
   | _ \<Rightarrow> {})"

lemma upload_bytes_known:
  assumes "upload_ok digest safe touched segs u"
  shows "upload_bytes u \<subseteq> segment_blobs digest segs"
proof (cases "up_todo u")
  case (Cons plan planned)
  show ?thesis
  proof (cases plan)
    case Nil
    then have "map (map (chunk_id digest)) segs = up_chunk_ids u @ up_children u # map (map (plan_id digest)) planned"
      using assms Cons by (simp add: upload_ok_def)
    then have "up_children u \<in> set (map (map (chunk_id digest)) segs)" by simp
    then show ?thesis using Cons Nil by (auto simp: upload_bytes_def segment_blobs_def)
  next
    case (Cons c rest)
    then show ?thesis
      using assms \<open>up_todo u = plan # planned\<close> by (cases c) (auto simp: upload_bytes_def upload_ok_def rebuilt_def)
  qed
qed (simp add: upload_bytes_def)

lemma upload_ok_step:
  assumes "upload_ok digest safe touched segs u" and "upload_step put u s = Inr (u', s')"
    and put: "\<And>bytes i s'. bytes \<in> upload_bytes u \<Longrightarrow> put s bytes = Inr (i, s') \<Longrightarrow> i = digest bytes"
  shows "upload_ok digest safe (touched \<union> (digest ` upload_bytes u)) segs u'"
proof (cases "up_todo u")
  case Nil
  then show ?thesis using assms(1,2) by (simp add: upload_step_def upload_bytes_def)
next
  case (Cons plan planned)
  show ?thesis
  proof (cases plan)
    case Nil
    have bytes: "upload_bytes u = {encode_index_manifest (up_children u)}" using Cons Nil by (simp add: upload_bytes_def)
    have u': "u' = u\<lparr>up_todo := planned, up_children := [],
        up_manifests := up_manifests u @ [digest (encode_index_manifest (up_children u))], up_chunk_ids := up_chunk_ids u @ [up_children u]\<rparr>"
      using Cons Nil assms(2) put [unfolded bytes] by (auto simp: upload_step_def bindr_eq_Inr)
    have sub: "rebuilt planned \<subseteq> rebuilt (up_todo u)" "carried planned \<subseteq> carried (up_todo u)"
      using Cons by (auto simp: rebuilt_def carried_def)
    have old: "up_chunk_ids u @ up_children u # map (map (plan_id digest)) planned = map (map (chunk_id digest)) segs"
        "rebuilt (up_todo u) \<subseteq> segment_blobs digest segs" "up_manifests u = map (\<lambda>c. digest (encode_index_manifest c)) (up_chunk_ids u)"
        "set (up_manifests u) \<subseteq> touched" "\<And>i. i \<in> carried (up_todo u) \<Longrightarrow> safe i"
        "\<And>i. i \<in> set (concat (up_chunk_ids u)) \<union> set (up_children u) \<Longrightarrow> i \<in> touched \<or> safe i"
      using assms(1) Cons Nil unfolding upload_ok_def by auto
    show ?thesis unfolding upload_ok_def
    proof (intro conjI ballI)
      fix i assume "i \<in> set (concat (up_chunk_ids u')) \<union> set (up_children u')"
      then have "i \<in> set (concat (up_chunk_ids u)) \<union> set (up_children u)" by (auto simp: u')
      with old(6) show "i \<in> touched \<union> digest ` upload_bytes u \<or> safe i" by blast
    next
      show "set (up_manifests u') \<subseteq> touched \<union> digest ` upload_bytes u" using old(4) by (auto simp: u' bytes)
    next
      show "up_chunk_ids u' @ (case up_todo u' of [] \<Rightarrow> [] | plan # planned \<Rightarrow>
          (up_children u' @ map (plan_id digest) plan) # map (map (plan_id digest)) planned) = map (map (chunk_id digest)) segs"
        using old(1) by (cases planned) (simp_all add: u')
    qed (use old(2,3,5) sub in \<open>auto simp: u'\<close>)
  next
    case (Cons c rest)
    note todo = \<open>up_todo u = plan # planned\<close> Cons
    have u': "u' = u\<lparr>up_todo := rest # planned, up_children := up_children u @ [plan_id digest c]\<rparr>"
    proof (cases c)
      case (RebuiltChunk bytes)
      then have "bytes \<in> upload_bytes u" using todo by (simp add: upload_bytes_def)
      then show ?thesis using assms(2) put todo RebuiltChunk by (auto simp: upload_step_def bindr_eq_Inr)
    qed (use assms(2) todo in \<open>simp add: upload_step_def\<close>)
    have "plan_id digest c \<in> touched \<union> digest ` upload_bytes u \<or> safe (plan_id digest c)"
      using assms(1) todo by (cases c) (auto simp: upload_ok_def carried_def upload_bytes_def)
    moreover have "rebuilt (rest # planned) \<subseteq> rebuilt (up_todo u)" "carried (rest # planned) \<subseteq> carried (up_todo u)"
      using todo by (auto simp: rebuilt_def carried_def)
    ultimately show ?thesis using assms(1) todo unfolding u' by (auto simp: upload_ok_def)
  qed
qed

subsection \<open>Publication among other processes\<close>

text \<open>A blob store and a root store that keep out of each other's way.\<close>

locale index_store = blob_store content get put del lst digest + root_store contents get_root cas_root del_root
  for content :: "'s \<Rightarrow> blob_id \<Rightarrow> bytes option" and get put del lst digest
    and contents :: "'s \<Rightarrow> string \<Rightarrow> bytes option" and get_root cas_root del_root +
  assumes put_contents: "put s bytes = Inr (i, s') \<Longrightarrow> contents s' = contents s"
    and cas_content: "cas_root s name expected bytes = Inr s' \<Longrightarrow> content s' = content s"

text \<open>
  A publisher among others: its phase and lease version, its state, and the blobs its uploads put in the
  store or found there since the publication began.
\<close>

record 's publishing =
  pb_phase :: "publish_phase option"
  pb_version :: u64
  pb_state :: "'s publication"
  pb_touched :: "blob_id set"

fun pass_puts :: "(bytes \<Rightarrow> blob_id) \<Rightarrow> pass_phase \<Rightarrow> blob_id set" where
  "pass_puts digest (PassUpload w u) = digest ` upload_bytes u"
| "pass_puts digest _ = {}"

fun phase_puts :: "(bytes \<Rightarrow> blob_id) \<Rightarrow> publish_phase \<Rightarrow> blob_id set" where
  "phase_puts digest (FirstPass pass) = pass_puts digest pass"
| "phase_puts digest (RetryPass pass) = pass_puts digest pass"
| "phase_puts digest (PublishDone _) = {}"

text \<open>The blobs a pass has planned.\<close>

fun pass_blobs :: "(bytes \<Rightarrow> blob_id) \<Rightarrow> pass_phase \<Rightarrow> bytes set" where
  "pass_blobs digest (PassUpload w u) = segment_blobs digest (all_segments (pw_segments w) (pw_history w))"
| "pass_blobs digest _ = {}"

fun phase_blobs :: "(bytes \<Rightarrow> blob_id) \<Rightarrow> publish_phase \<Rightarrow> bytes set" where
  "phase_blobs digest (FirstPass pass) = pass_blobs digest pass"
| "phase_blobs digest (RetryPass pass) = pass_blobs digest pass"
| "phase_blobs digest (PublishDone _) = {}"

text \<open>
  What everybody keeps of the store: known blobs under their digests, a well-formed root record that names
  no missing blob, and the blobs of a publication that is under way.
\<close>

definition store_inv ::
    "(bytes \<Rightarrow> blob_id) \<Rightarrow> bytes set \<Rightarrow> ('s \<Rightarrow> blob_id \<Rightarrow> bytes option) \<Rightarrow> ('s \<Rightarrow> string \<Rightarrow> bytes option) \<Rightarrow> string \<Rightarrow> blob_id set \<Rightarrow> 's \<Rightarrow> bool" where
  "store_inv digest known content contents name touched s \<longleftrightarrow> addressed digest known (content s) \<and> stored_ok (contents s name) \<and>
     (\<forall>r. Option.bind (contents s name) root_decode = Some r \<longrightarrow> root_closed (content s) r) \<and> touched \<subseteq> dom (content s)"

text \<open>What commits do to the database: datoms of later transactions are appended, and no attribute changes its coverage or history.\<close>

definition db_ok :: "db \<Rightarrow> bool" where
  "db_ok d \<longleftrightarrow> db_wf d \<and> db_view d = Current \<and> (\<forall>x \<in> set (db_recorded d). \<forall>order. key_fits (datom_key x order))"

definition db_extends :: "db \<Rightarrow> db \<Rightarrow> bool" where
  "db_extends d d' \<longleftrightarrow> db_ok d' \<and> db_basis_t d \<le> db_basis_t d' \<and>
     (\<forall>a. avet_covered (db_schema d') a = avet_covered (db_schema d) a \<and> no_history_attr (db_schema d') a = no_history_attr (db_schema d) a) \<and>
     (\<exists>more. db_recorded d' = db_recorded d @ more \<and> (\<forall>x \<in> set more. db_basis_t d < eid_sequence (d_tx x)))"

text \<open>
  Everything a pass plans is among the known blobs; for a run, these are the blobs that ever occur in it. The
  steps \<open>commits\<close> and \<open>others\<close> are what the publisher relies on from everybody else. The code enforces neither: a
  schema update may change the coverage between two publications (what the next pass then publishes is shown in
  \<open>Publication_Recovery\<close>), and only the retention window keeps a collection away from blobs that no root names yet.
\<close>

inductive publishing_step for digest known get put content get_root cas_root contents name where
  begins: "(case pb_phase y of Some (PublishDone _) \<Rightarrow> True | None \<Rightarrow> True | _ \<Rightarrow> False) \<Longrightarrow> publish_begin (pb_state y) = (ph, st) \<Longrightarrow>
    publishing_step digest known get put content get_root cas_root contents name y
      \<lparr>pb_phase = Some ph, pb_version = v, pb_state = st, pb_touched = {}\<rparr>"
| publishes: "pb_phase y = Some ph \<Longrightarrow>
    publish_indexes_step get_root cas_root (put_if_absent digest get put) name (pb_version y) ph (pb_state y) = (ph', st) \<Longrightarrow>
    phase_blobs digest ph' \<subseteq> known \<Longrightarrow>
    publishing_step digest known get put content get_root cas_root contents name y
      (y\<lparr>pb_phase := Some ph', pb_state := st, pb_touched := pb_touched y \<union> (phase_puts digest ph \<inter> dom (content (pn_store st)))\<rparr>)"
| commits: "db_extends (ts_db (pn_tx (pb_state y))) (ts_db tx) \<Longrightarrow>
    publishing_step digest known get put content get_root cas_root contents name y (y\<lparr>pb_state := (pb_state y)\<lparr>pn_tx := tx\<rparr>\<rparr>)"
| others: "store_inv digest known content contents name (pb_touched y) s \<Longrightarrow>
    publishing_step digest known get put content get_root cas_root contents name y (y\<lparr>pb_state := (pb_state y)\<lparr>pn_store := s\<rparr>\<rparr>)"

subsection \<open>Commits during a publication\<close>

lemma covered_cong: "(\<And>a. avet_covered s' a = avet_covered s a) \<Longrightarrow> covered s' = covered s"
  by (rule ext, rule ext) (rename_tac order x, case_tac order; simp)

lemma current_keys_cong: "(\<And>a. avet_covered s' a = avet_covered s a) \<Longrightarrow> current_keys s' ds = current_keys s ds"
  by (simp add: current_keys_def project_def fun_eq_iff covered_cong [of s' s])

lemma history_keys_cong:
  assumes "\<And>a. avet_covered s' a = avet_covered s a" and "\<And>a. no_history_attr s' a = no_history_attr s a"
  shows "history_keys s' ds order = history_keys s ds order"
  by (rule strict_sorted_unique [OF history_keys_sorted history_keys_sorted]) (simp add: history_keys_set assms covered_cong [of s' s])

lemma takeWhile_rev_append:
  "(\<And>x. x \<in> set ys \<Longrightarrow> P x) \<Longrightarrow> rev (takeWhile P (rev (xs @ ys))) = rev (takeWhile P (rev xs)) @ ys"
  using takeWhile_append2 [of "rev ys" P "rev xs"] by simp

lemma indexes_ok_extends:
  assumes "indexes_ok d n t segs hist" and "db_extends d d'" and "n \<le> n'"
  shows "indexes_ok d' n' t segs hist"
proof -
  obtain more where more: "db_recorded d' = db_recorded d @ more" "\<And>x. x \<in> set more \<Longrightarrow> db_basis_t d < eid_sequence (d_tx x)"
    using assms(2) unfolding db_extends_def by blast
  have t: "t \<le> db_basis_t d" using assms(1) by (simp add: indexes_ok_def splits_at_def)
  then have after: "t < eid_sequence (d_tx x)" if "x \<in> set more" for x using more(2) [OF that] by simp
  have at': "at_basis d' t = at_basis d t" using after by (auto simp: at_basis_def more(1) filter_empty_conv not_le)
  have since': "recorded_since d' t = recorded_since d t @ more"
    unfolding recorded_since_def more(1) by (rule takeWhile_rev_append) (simp add: after)
  have "avet_covered (db_schema d') a = avet_covered (db_schema d) a" "no_history_attr (db_schema d') a = no_history_attr (db_schema d) a" for a
    using assms(2) by (simp_all add: db_extends_def)
  then have schema: "current_keys (db_schema d') ds order = current_keys (db_schema d) ds order"
      "history_keys (db_schema d') ds order = history_keys (db_schema d) ds order" for ds order
    using current_keys_cong [of "db_schema d'" "db_schema d" ds] history_keys_cong [of "db_schema d'" "db_schema d" ds order] by simp_all
  show ?thesis
    using assms t by (auto simp: indexes_ok_def splits_at_def segments_ok_def seg_current_def seg_history_def at' since' more(1) schema
        db_extends_def intro: ids_ok_mono order_trans)
qed

lemma published_ok_extends: "published_ok digest known d n p \<Longrightarrow> db_extends d d' \<Longrightarrow> n \<le> n' \<Longrightarrow> published_ok digest known d' n' p"
  using indexes_ok_extends by (auto simp: published_ok_def)

lemma db_extends_refl: "db_ok d \<Longrightarrow> db_extends d d"
  by (simp add: db_extends_def)

subsection \<open>The invariant of a pass\<close>

definition work_inv :: "(bytes \<Rightarrow> blob_id) \<Rightarrow> bytes set \<Rightarrow> db \<Rightarrow> nat \<Rightarrow> blob_id set \<Rightarrow> pass_work \<Rightarrow> upload \<Rightarrow> bool" where
  "work_inv digest known d n touched w u \<longleftrightarrow> indexes_ok d n (pw_basis_t w) (pw_segments w) (pw_history w) \<and>
     segment_blobs digest (all_segments (pw_segments w) (pw_history w)) \<subseteq> known \<and>
     upload_ok digest (vouched digest known (pw_pinned w)) touched (all_segments (pw_segments w) (pw_history w)) u"

definition swap_inv :: "db_root \<Rightarrow> root_index_state option \<Rightarrow> phase \<Rightarrow> bool" where
  "swap_inv root pinned ph \<longleftrightarrow> (case ph of
     Start \<Rightarrow> True
   | Swap b new result legacy \<Rightarrow> publish_next root pinned (Option.bind b root_decode) = Inr new \<and> result = Published Installed \<and> \<not> legacy
   | _ \<Rightarrow> False)"

fun pass_inv :: "(bytes \<Rightarrow> blob_id) \<Rightarrow> bytes set \<Rightarrow> db \<Rightarrow> nat \<Rightarrow> u64 \<Rightarrow> blob_id set \<Rightarrow> pass_phase \<Rightarrow> bool" where
  "pass_inv digest known d n v touched (PassStart previous) \<longleftrightarrow> (\<forall>p. previous = Some p \<longrightarrow> published_ok digest known d n p)"
| "pass_inv digest known d n v touched (PassUpload w u) \<longleftrightarrow> work_inv digest known d n touched w u"
| "pass_inv digest known d n v touched (PassPublish w u root ph) \<longleftrightarrow>
     work_inv digest known d n touched w u \<and> up_todo u = [] \<and> root = pass_root v w u \<and> swap_inv root (pw_pinned w) ph"
| "pass_inv digest known d n v touched (PassDone _) \<longleftrightarrow> True"

text \<open>A pass that pins nothing, and so is never raced.\<close>

fun unpinned :: "pass_phase \<Rightarrow> bool" where
  "unpinned (PassStart previous) \<longleftrightarrow> previous = None"
| "unpinned (PassUpload w u) \<longleftrightarrow> pw_pinned w = None"
| "unpinned (PassPublish w u root ph) \<longleftrightarrow> pw_pinned w = None"
| "unpinned (PassDone r) \<longleftrightarrow> r \<noteq> Inr PassRaced"

lemma work_inv_mono:
  "work_inv digest known d n touched w u \<Longrightarrow> db_extends d d' \<Longrightarrow> n \<le> n' \<Longrightarrow> touched \<subseteq> touched' \<Longrightarrow> work_inv digest known d' n' touched' w u"
  by (auto simp: work_inv_def intro: indexes_ok_extends upload_ok_mono)

lemma pass_inv_mono:
  "pass_inv digest known d n v touched pass \<Longrightarrow> db_extends d d' \<Longrightarrow> n \<le> n' \<Longrightarrow> touched \<subseteq> touched' \<Longrightarrow> pass_inv digest known d' n' v touched' pass"
  by (cases pass) (auto intro: published_ok_extends work_inv_mono)

text \<open>What a finished upload has produced.\<close>

lemma upload_finished:
  assumes "work_inv digest known d n touched w u" and "up_todo u = []"
  shows "up_chunk_ids u = map (map (chunk_id digest)) (all_segments (pw_segments w) (pw_history w))"
    and "up_manifests u = map (manifest_id digest) (all_segments (pw_segments w) (pw_history w))"
    and "r_roots (pass_root v w u) = Some (four_roots (map (manifest_id digest) (pw_segments w)))"
    and "r_history_roots (pass_root v w u) = map_option (\<lambda>hs. four_roots (map (manifest_id digest) hs)) (pw_history w)"
    and "seg \<in> set (all_segments (pw_segments w) (pw_history w)) \<Longrightarrow> manifest_id digest seg \<in> touched"
    and "seg \<in> set (all_segments (pw_segments w) (pw_history w)) \<Longrightarrow> l \<in> set seg \<Longrightarrow>
      chunk_id digest l \<in> touched \<or> vouched digest known (pw_pinned w) (chunk_id digest l)"
proof -
  let ?all = "all_segments (pw_segments w) (pw_history w)"
  show ids: "up_chunk_ids u = map (map (chunk_id digest)) ?all"
    using assms by (simp add: work_inv_def upload_ok_def)
  then show manifests: "up_manifests u = map (manifest_id digest) ?all"
    using assms by (simp add: work_inv_def upload_ok_def manifest_id_def)
  have four: "length (pw_segments w) = 4" using assms(1) by (simp add: work_inv_def indexes_ok_def segments_ok_def)
  show "r_roots (pass_root v w u) = Some (four_roots (map (manifest_id digest) (pw_segments w)))"
    "r_history_roots (pass_root v w u) = map_option (\<lambda>hs. four_roots (map (manifest_id digest) hs)) (pw_history w)"
    using four by (simp_all add: pass_root_def history_manifests_def manifests all_segments_def take_map drop_map split: option.split)
  show "manifest_id digest seg \<in> touched" if "seg \<in> set ?all"
    using assms(1) that manifests by (auto simp: work_inv_def upload_ok_def)
  show "chunk_id digest l \<in> touched \<or> vouched digest known (pw_pinned w) (chunk_id digest l)" if "seg \<in> set ?all" "l \<in> set seg"
  proof -
    have "chunk_id digest l \<in> set (concat (up_chunk_ids u))" using that ids by auto
    then show ?thesis using assms(1) by (auto simp: work_inv_def upload_ok_def)
  qed
qed

lemma pass_root_wf:
  assumes "digest_ok digest known" and "work_inv digest known d n touched w u" and "up_todo u = []"
  shows "root_wf (pass_root v w u)"
proof -
  have hex: "blob_from_hex (manifest_id digest seg) \<noteq> None" if "seg \<in> set (all_segments (pw_segments w) (pw_history w))" for seg
    using assms(1,2) that by (auto simp: digest_ok_def manifest_id_def work_inv_def segment_blobs_def)
  have "length (pw_segments w) = 4" "\<And>hs. pw_history w = Some hs \<Longrightarrow> length hs = 4"
    using assms(2) by (auto simp: work_inv_def indexes_ok_def segments_ok_def)
  moreover have "r_owner (pass_root v w u) = []" "r_owner_endpoint (pass_root v w u) = []" by (simp_all add: pass_root_def)
  ultimately show ?thesis
    using hex by (cases "pw_history w") (simp_all add: all_segments_def root_wf_def upload_finished(3,4) [OF assms(2,3)] four_roots_def field_ok_def line_safe_def valid_str_def utf8_valid_ascii)
qed

text \<open>What a finished pass publishes is a call the fencing of \<open>Lease\<close> speaks of.\<close>

lemma pass_publication_allowed:
  assumes "digest_ok digest known" and "work_inv digest known d n touched w u" and "up_todo u = []"
  shows "call_allowed granted (Publish (pass_root v w u) pinned)"
  using pass_root_wf [OF assms] by (simp add: call_allowed_def)

lemma pass_published_ok:
  assumes "work_inv digest known d n touched w u" and "up_todo u = []"
  shows "published_ok digest known d n (pass_published v w u)"
proof -
  let ?all = "all_segments (pw_segments w) (pw_history w)"
  have ok: "indexes_ok d n (pw_basis_t w) (pw_segments w) (pw_history w)" and known: "segment_blobs digest ?all \<subseteq> known"
    using assms(1) by (simp_all add: work_inv_def)
  from ok have four: "length (pw_segments w) = 4" "\<And>hs. pw_history w = Some hs \<Longrightarrow> length hs = 4"
    by (auto simp: indexes_ok_def segments_ok_def)
  have ids: "take 4 (up_chunk_ids u) = map (map (chunk_id digest)) (pw_segments w)"
      "\<And>hs. pw_history w = Some hs \<Longrightarrow> drop 4 (up_chunk_ids u) = map (map (chunk_id digest)) hs"
    using four by (simp_all add: upload_finished(1) [OF assms] all_segments_def take_map drop_map)
  have manifests: "four_roots (take 4 (up_manifests u)) = four_roots (map (manifest_id digest) (pw_segments w))"
      "history_manifests w u = map_option (\<lambda>hs. four_roots (map (manifest_id digest) hs)) (pw_history w)"
    using upload_finished(3,4) [OF assms] by (simp_all add: pass_root_def)
  have maps: "chunk_map_ok digest (segs ! slot) (chunk_ids_by_leaf segs (map (map (chunk_id digest)) segs) ! slot)"
    if "segments_ok P n segs" "slot < 4" for P segs slot
    using that chunk_ids_by_leaf_ok [of slot segs n digest] by (simp add: segments_ok_def)
  show ?thesis
    using ok maps ids manifests known by (auto simp: published_ok_def pass_published_def indexes_ok_def)
qed

text \<open>At the moment the root is swapped, every blob of the pass is in the store.\<close>

lemma pin_present:
  assumes "digest_ok digest known" and "store_inv digest known content contents name touched s"
    and "publish_next root pinned (Option.bind (contents s name) root_decode) \<noteq> Inl (Published Raced)" and "vouched digest known pinned i"
  shows "content s i \<noteq> None"
proof -
  let ?stored = "Option.bind (contents s name) root_decode"
  obtain pin where pin: "pinned = Some pin" using assms(4) by (auto simp: vouched_def)
  with assms(3) have eq: "pin = index_state_of ?stored" by (auto simp: publish_next_def split: if_splits)
  moreover obtain r where r: "?stored = Some r"
    using assms(4) unfolding pin eq by (cases ?stored) (auto simp: vouched_def index_state_of_def)
  ultimately have "vouched digest known (Some (index_state_of (Some r))) i" using assms(4) pin by (simp only:)
  moreover have "addressed digest known (content s)" "root_closed (content s) r" using assms(2) r by (auto simp: store_inv_def)
  ultimately show ?thesis using vouched_present [OF assms(1)] by blast
qed

lemma pass_stored:
  assumes "digest_ok digest known" and "store_inv digest known content contents name touched s" and "work_inv digest known d n touched w u" and "up_todo u = []"
    and "publish_next root (pw_pinned w) (Option.bind (contents s name) root_decode) \<noteq> Inl (Published Raced)"
    and "seg \<in> set (all_segments (pw_segments w) (pw_history w))"
  shows "seg_stored digest (content s) seg"
proof -
  have "touched \<subseteq> dom (content s)" using assms(2) by (simp add: store_inv_def)
  then show ?thesis
    using upload_finished(5,6) [OF assms(3,4,6)] pin_present [OF assms(1,2,5)] by (fastforce simp: seg_stored_def)
qed

lemma pass_root_closed:
  assumes "digest_ok digest known" and "addressed digest known content" and "work_inv digest known d n touched w u" and "up_todo u = []"
    and "\<And>seg. seg \<in> set (all_segments (pw_segments w) (pw_history w)) \<Longrightarrow> seg_stored digest content seg"
    and "r_roots new = r_roots (pass_root v w u)" and "r_history_roots new = r_history_roots (pass_root v w u)"
  shows "root_closed content new"
proof -
  have "length (pw_segments w) = 4" "\<And>hs. pw_history w = Some hs \<Longrightarrow> length hs = 4"
    using assms(3) by (auto simp: work_inv_def indexes_ok_def segments_ok_def)
  then have "root_list (r_roots new) @ root_list (r_history_roots new) = map (manifest_id digest) (all_segments (pw_segments w) (pw_history w))"
    unfolding assms(6,7) upload_finished(3,4) [OF assms(3,4)] by (cases "pw_history w") (simp_all add: all_segments_def root_list_four)
  moreover have "segment_blobs digest [seg] \<subseteq> known" if "seg \<in> set (all_segments (pw_segments w) (pw_history w))" for seg
    using assms(3) segment_blobs_mem [OF that] by (auto simp: work_inv_def)
  ultimately show ?thesis
    using assms(5) seg_stored_iff [OF assms(1,2)] unfolding root_closed_def by auto
qed

end
