(* ===== verification/Publication_Run.thy ===== *)
theory Publication_Run
  imports Publication_Store
begin

text \<open>
  Runs of a publication: every step keeps the invariant, what is published reads back as the database at the
  basis of the root, a publication on its own ends, and the commits of the transactor are among the steps it
  may be interleaved with.
\<close>

subsection \<open>Steps of a pass\<close>

text \<open>A root whose indexes are in the store, and show the database at its basis.\<close>

definition root_shows :: "(bytes \<Rightarrow> blob_id) \<Rightarrow> bytes set \<Rightarrow> db \<Rightarrow> nat \<Rightarrow> (blob_id \<Rightarrow> bytes option) \<Rightarrow> db_root \<Rightarrow> bool" where
  "root_shows digest known d n content root \<longleftrightarrow> (\<exists>segs hist. indexes_ok d n (r_index_basis_t root) segs hist \<and>
     r_roots root = Some (four_roots (map (manifest_id digest) segs)) \<and>
     r_history_roots root = map_option (\<lambda>hs. four_roots (map (manifest_id digest) hs)) hist \<and>
     segment_blobs digest (all_segments segs hist) \<subseteq> known \<and> (\<forall>seg \<in> set (all_segments segs hist). seg_stored digest content seg))"

definition pass_ok ::
    "(bytes \<Rightarrow> blob_id) \<Rightarrow> bytes set \<Rightarrow> ('s \<Rightarrow> blob_id \<Rightarrow> bytes option) \<Rightarrow> ('s \<Rightarrow> string \<Rightarrow> bytes option) \<Rightarrow> string \<Rightarrow> u64 \<Rightarrow> blob_id set \<Rightarrow> pass_phase \<Rightarrow> 's publication \<Rightarrow> bool" where
  "pass_ok digest known content contents name v touched ph y \<longleftrightarrow>
     store_inv digest known content contents name touched (pn_store y) \<and> db_ok (ts_db (pn_tx y)) \<and>
     (\<forall>p. pn_published y = Some p \<longrightarrow> published_ok digest known (ts_db (pn_tx y)) (pn_leaf_ids y) p) \<and>
     pass_inv digest known (ts_db (pn_tx y)) (pn_leaf_ids y) v touched ph"

lemma root_closed_mono:
  assumes "root_closed content r" and "\<And>i b. content i = Some b \<Longrightarrow> content' i = Some b"
  shows "root_closed content' r"
  unfolding root_closed_def
proof
  fix i assume "i \<in> set (root_list (r_roots r) @ root_list (r_history_roots r))"
  then obtain bytes cs where i: "content i = Some bytes" "index_blob_children bytes = Inr cs" "\<forall>c \<in> set cs. content c \<noteq> None"
    using assms(1) unfolding root_closed_def by blast
  have "content' c \<noteq> None" if "c \<in> set cs" for c using i(3) that assms(2) by fastforce
  with i assms(2) show "\<exists>bytes cs. content' i = Some bytes \<and> index_blob_children bytes = Inr cs \<and> (\<forall>c \<in> set cs. content' c \<noteq> None)"
    by blast
qed

lemma publish_next_roots:
  "publish_next root pinned stored = Inr new \<Longrightarrow> r_roots new = r_roots root \<and> r_history_roots new = r_history_roots root"
  by (cases stored) (auto simp: publish_next_def Let_def split: if_splits)

lemma publish_next_results:
  "publish_next root pinned stored = Inl res \<Longrightarrow> (\<exists>o'. res = Published o' \<and> o' \<noteq> Installed) \<or> (\<exists>v. res = Deposed v)"
  by (auto simp: publish_next_def Let_def split: if_splits option.splits)

lemma publish_next_unpinned: "publish_next root None stored \<noteq> Inl (Published Raced)"
  by (auto simp: publish_next_def Let_def split: option.splits)

context index_store
begin

lemma put_absent:
  assumes "digest_ok digest known" and "store_inv digest known content contents name touched s" and "bytes \<in> known"
    and "put_if_absent digest get put s bytes = Inr (i, s')"
  shows "i = digest bytes \<and> content s' = (content s)(i \<mapsto> bytes) \<and> contents s' = contents s"
proof -
  have "addressed digest known (content s)" using assms(2) by (simp add: store_inv_def)
  from put_if_absent_content [OF assms(4) addressed_get [OF assms(1) this assms(3)]]
  have "i = digest bytes \<and> content s' = (content s)(i \<mapsto> bytes)" .
  moreover have "contents s' = contents s"
    using assms(4) put_contents by (auto simp: put_if_absent_def blob_contains_def bindr_eq_Inr Let_def split: if_splits)
  ultimately show ?thesis by simp
qed

lemma store_inv_put:
  assumes "digest_ok digest known" and "store_inv digest known content contents name touched s" and "bytes \<in> known"
    and "put_if_absent digest get put s bytes = Inr (i, s')"
  shows "store_inv digest known content contents name (insert (digest bytes) touched) s'"
proof -
  note put = put_absent [OF assms]
  have "content s' j = Some b" if "content s j = Some b" for j b
    using that put assms(1,2,3) by (auto simp: store_inv_def dest: addressed_get)
  then have "root_closed (content s') r" if "Option.bind (contents s' name) root_decode = Some r" for r
    using that put assms(2) root_closed_mono by (auto simp: store_inv_def)
  then show ?thesis using put assms(2,3) by (auto simp: store_inv_def addressed_def)
qed

lemma upload_keeps_store:
  assumes "digest_ok digest known" and "store_inv digest known content contents name touched s" and "upload_bytes u \<subseteq> known"
    and "upload_step (put_if_absent digest get put) u s = Inr (u', s')"
  shows "store_inv digest known content contents name (touched \<union> digest ` upload_bytes u) s'"
  using assms(2,3,4) store_inv_put [OF assms(1,2)]
  by (auto simp: upload_step_def upload_bytes_def bindr_eq_Inr split: list.splits chunk_plan.splits)

lemma pass_start_ok:
  assumes "pass_ok digest known content contents name v touched (PassStart previous) y"
    and "pass_step get_root cas_root (put_if_absent digest get put) name v (PassStart previous) y = (ph', y')" and "pass_blobs digest ph' \<subseteq> known"
  shows "pass_ok digest known content contents name v touched ph' y' \<and> pn_tx y' = pn_tx y \<and> pn_leaf_ids y \<le> pn_leaf_ids y' \<and>
    (previous = None \<longrightarrow> unpinned ph') \<and> (\<forall>root. ph' \<noteq> PassDone (Inr (PassPublished root)))"
proof -
  let ?d = "ts_db (pn_tx y)" and ?n = "pn_leaf_ids y"
  have d: "db_ok ?d" "db_wf ?d" "db_view ?d = Current" using assms(1) by (simp_all add: pass_ok_def db_ok_def)
  have prev: "published_ok digest known ?d ?n p" if "previous = Some p" for p using assms(1) that by (simp add: pass_ok_def)
  show ?thesis
  proof (cases "get_root (pn_store y) name")
    case (Inl e)
    then show ?thesis using assms by (auto simp: pass_step_def pass_ok_def)
  next
    case (Inr bytes)
    show ?thesis
    proof (cases "pass_plan v previous bytes (pn_tx y) ?n")
      case (Inl e)
      then show ?thesis using assms \<open>get_root _ _ = _\<close> by (auto simp: pass_step_def pass_ok_def)
    next
      case (Inr wun)
      obtain w u n' where wun: "wun = (w, u, n')" by (cases wun)
      have plan: "?n \<le> n'" "indexes_ok ?d n' (pw_basis_t w) (pw_segments w) (pw_history w)"
          "previous = None \<Longrightarrow> pw_pinned w = None" "\<exists>planned. u = upload_new planned \<and> plan_sound digest known w planned"
        using pass_plan_ok [OF d(2,3) prev Inr [unfolded wun]] by blast+
      have eq: "ph' = PassUpload w u" "y' = y\<lparr>pn_leaf_ids := n'\<rparr>"
        using assms(2) \<open>get_root _ _ = _\<close> Inr wun by (simp_all add: pass_step_def)
      with plan assms(3) have "work_inv digest known ?d n' touched w u"
        by (auto simp: work_inv_def plan_sound_def intro: upload_ok_new)
      with eq show ?thesis
        using assms(1) plan(1,3) published_ok_extends [OF _ db_extends_refl [OF d(1)] plan(1)] by (auto simp: pass_ok_def)
    qed
  qed
qed

lemma pass_upload_ok:
  assumes "digest_ok digest known" and "pass_ok digest known content contents name v touched (PassUpload w u) y"
    and "pass_step get_root cas_root (put_if_absent digest get put) name v (PassUpload w u) y = (ph', y')"
  shows "pass_ok digest known content contents name v (touched \<union> (digest ` upload_bytes u \<inter> dom (content (pn_store y')))) ph' y' \<and>
    pn_tx y' = pn_tx y \<and> pn_leaf_ids y' = pn_leaf_ids y \<and> (pw_pinned w = None \<longrightarrow> unpinned ph') \<and>
    (\<forall>root. ph' \<noteq> PassDone (Inr (PassPublished root)))"
proof (cases "up_todo u = []")
  case True
  then have "upload_bytes u = {}" by (simp add: upload_bytes_def)
  with True assms(2,3) show ?thesis by (auto simp: pass_step_def pass_ok_def swap_inv_def)
next
  case False
  have inv: "store_inv digest known content contents name touched (pn_store y)" and work: "work_inv digest known (ts_db (pn_tx y)) (pn_leaf_ids y) touched w u"
    using assms(2) by (simp_all add: pass_ok_def)
  show ?thesis
  proof (cases "upload_step (put_if_absent digest get put) u (pn_store y)")
    case (Inl e)
    have "store_inv digest known content contents name (touched \<union> (digest ` upload_bytes u \<inter> dom (content (pn_store y)))) (pn_store y)"
      using inv by (auto simp: store_inv_def)
    with Inl False assms(2,3) show ?thesis by (auto simp: pass_step_def pass_ok_def)
  next
    case (Inr us)
    obtain u' s' where us: "us = (u', s')" by (cases us)
    note step = Inr [unfolded us]
    have bytes: "upload_bytes u \<subseteq> known"
      using work upload_bytes_known by (fastforce simp: work_inv_def)
    have inv': "store_inv digest known content contents name (touched \<union> digest ` upload_bytes u) s'"
      by (rule upload_keeps_store [OF assms(1) inv bytes step])
    then have "touched \<union> (digest ` upload_bytes u \<inter> dom (content s')) = touched \<union> digest ` upload_bytes u"
      by (auto simp: store_inv_def)
    moreover have "upload_ok digest (vouched digest known (pw_pinned w)) (touched \<union> digest ` upload_bytes u)
        (all_segments (pw_segments w) (pw_history w)) u'"
      using work put_absent [OF assms(1) inv] bytes by (intro upload_ok_step [OF _ step]) (auto simp: work_inv_def)
    moreover have "ph' = PassUpload w u'" "y' = y\<lparr>pn_store := s'\<rparr>"
      using assms(3) False step by (simp_all add: pass_step_def)
    ultimately show ?thesis using inv' assms(2) by (simp add: pass_ok_def work_inv_def)
  qed
qed

lemma pass_finished:
  assumes "digest_ok digest known" and inv: "store_inv digest known content contents name touched s"
    and work: "work_inv digest known d n touched w u" "up_todo u = []"
    and unraced: "publish_next (pass_root v w u) (pw_pinned w) (Option.bind (contents s name) root_decode) \<noteq> Inl (Published Raced)"
    and "content s' = content s"
  shows "root_shows digest known d n (content s') (pass_root v w u)"
  unfolding root_shows_def
proof (intro exI conjI)
  show "indexes_ok d n (r_index_basis_t (pass_root v w u)) (pw_segments w) (pw_history w)"
    using work(1) by (simp add: work_inv_def pass_root_def)
  show "segment_blobs digest (all_segments (pw_segments w) (pw_history w)) \<subseteq> known" using work(1) by (simp add: work_inv_def)
  show "\<forall>seg \<in> set (all_segments (pw_segments w) (pw_history w)). seg_stored digest (content s') seg"
    unfolding assms(6) using pass_stored [OF assms(1) inv work unraced] by blast
qed (rule upload_finished(3,4) [OF work])+

lemma pass_finish_ok:
  assumes "pass_ok digest known content contents name v touched (PassPublish w u root Start) y"
    and "pass_finish v w u root res y = (ph', y')"
    and "(\<exists>outcome. res = Published outcome) \<or> (\<exists>v. res = Deposed v) \<or> (\<exists>e. res = Lease.StoreFailed e)"
  shows "pass_ok digest known content contents name v touched ph' y' \<and> pn_tx y' = pn_tx y \<and> pn_leaf_ids y' = pn_leaf_ids y \<and> pn_store y' = pn_store y \<and>
    (\<forall>root'. ph' = PassDone (Inr (PassPublished root')) \<longrightarrow> root' = root \<and> (\<exists>outcome. res = Published outcome \<and> outcome \<noteq> Raced)) \<and>
    (ph' = PassDone (Inr PassRaced) \<longrightarrow> res = Published Raced) \<and> (\<exists>r. ph' = PassDone r)"
  using assms pass_published_ok [of digest known "ts_db (pn_tx y)" "pn_leaf_ids y" touched w u v]
  by (auto simp: pass_finish_def pass_ok_def Let_def split: lease_result.splits if_splits)

lemma pass_swap_ok:
  assumes "digest_ok digest known" and ok: "pass_ok digest known content contents name v touched (PassPublish w u root (Swap b new res legacy)) y"
    and "cas_root (pn_store y) name b (root_encode new) = Inr s'"
  shows "pass_ok digest known content contents name v touched (PassPublish w u root Start) (y\<lparr>pn_store := s'\<rparr>) \<and>
    root_shows digest known (ts_db (pn_tx y)) (pn_leaf_ids y) (content s') root"
proof -
  let ?s = "pn_store y"
  have inv: "store_inv digest known content contents name touched ?s" and work: "work_inv digest known (ts_db (pn_tx y)) (pn_leaf_ids y) touched w u" "up_todo u = []"
    and root: "root = pass_root v w u" and new: "publish_next root (pw_pinned w) (Option.bind b root_decode) = Inr new"
    using ok by (auto simp: pass_ok_def swap_inv_def)
  have cas: "contents ?s name = b" "contents s' = (contents ?s)(name \<mapsto> root_encode new)" "content s' = content ?s"
    using cas_contents [OF assms(3)] cas_content [OF assms(3)] by simp_all
  have unraced: "publish_next (pass_root v w u) (pw_pinned w) (Option.bind (contents ?s name) root_decode) \<noteq> Inl (Published Raced)"
    using new root cas(1) by simp
  have stored: "stored_ok b" "addressed digest known (content ?s)" "touched \<subseteq> dom (content ?s)" using inv cas(1) by (simp_all add: store_inv_def)
  have wf: "root_wf new"
    using publish_proposal [OF new] pass_root_wf [OF assms(1) work] stored(1) root by (auto simp: stored_ok_def)
  have "root_closed (content ?s) new"
    using publish_next_roots [OF new] root
    by (intro pass_root_closed [OF assms(1) stored(2) work pass_stored [OF assms(1) inv work unraced]]) auto
  then have "store_inv digest known content contents name touched s'"
    using stored wf by (simp add: store_inv_def cas stored_ok_encode root_decode_encode)
  with ok pass_finished [OF assms(1) inv work unraced cas(3)] root show ?thesis by (simp add: pass_ok_def swap_inv_def)
qed

lemma pass_publish_ok:
  assumes "digest_ok digest known" and ok: "pass_ok digest known content contents name v touched (PassPublish w u root ph) y"
    and step: "pass_step get_root cas_root (put_if_absent digest get put) name v (PassPublish w u root ph) y = (ph', y')"
  shows "pass_ok digest known content contents name v touched ph' y' \<and> pn_tx y' = pn_tx y \<and> pn_leaf_ids y' = pn_leaf_ids y \<and>
    (pw_pinned w = None \<longrightarrow> unpinned ph') \<and>
    (\<forall>root'. ph' = PassDone (Inr (PassPublished root')) \<longrightarrow> root_shows digest known (ts_db (pn_tx y)) (pn_leaf_ids y) (content (pn_store y')) root')"
proof -
  let ?s = "pn_store y"
  have inv: "store_inv digest known content contents name touched ?s" and work: "work_inv digest known (ts_db (pn_tx y)) (pn_leaf_ids y) touched w u" "up_todo u = []"
    and root: "root = pass_root v w u" and swap_ok: "swap_inv root (pw_pinned w) ph"
    using ok by (auto simp: pass_ok_def)
  have ok_start: "pass_ok digest known content contents name v touched (PassPublish w u root Start) (y\<lparr>pn_store := ?s\<rparr>)"
    using ok by (simp add: pass_ok_def swap_inv_def)
  consider (start) "ph = Start" | (swap) b new where "ph = Swap b new (Published Installed) False"
    using swap_ok by (cases ph) (auto simp: swap_inv_def)
  then show ?thesis
  proof cases
    case start
    show ?thesis
    proof (cases "get_root ?s name")
      case (Inl e)
      then have "pass_finish v w u root (Lease.StoreFailed e) (y\<lparr>pn_store := ?s\<rparr>) = (ph', y')"
        using step start by (simp add: pass_step_def publish_step_def)
      from pass_finish_ok [OF ok_start this] show ?thesis by auto
    next
      case (Inr b)
      then have b: "b = contents ?s name" by (rule get_contents)
      show ?thesis
      proof (cases "publish_next root (pw_pinned w) (Option.bind b root_decode)")
        case (Inl res)
        then have fin: "pass_finish v w u root res (y\<lparr>pn_store := ?s\<rparr>) = (ph', y')"
          using step start \<open>get_root _ _ = _\<close> by (simp add: pass_step_def publish_step_def)
        have res: "(\<exists>outcome. res = Published outcome) \<or> (\<exists>v. res = Deposed v) \<or> (\<exists>e. res = Lease.StoreFailed e)"
          using publish_next_results [OF Inl] by blast
        note finished = pass_finish_ok [OF ok_start fin res]
        have "root_shows digest known (ts_db (pn_tx y)) (pn_leaf_ids y) (content ?s) root" if "res \<noteq> Published Raced"
          using pass_finished [OF assms(1) inv work, where s' = ?s and v = v] Inl b that root by simp
        moreover have "res \<noteq> Published Raced" if "pw_pinned w = None" using Inl that publish_next_unpinned by metis
        ultimately show ?thesis using finished by auto
      next
        case (Inr new)
        then have "ph' = PassPublish w u root (Swap b new (Published Installed) False)" "y' = y\<lparr>pn_store := ?s\<rparr>"
          using step start \<open>get_root _ _ = _\<close> by (simp_all add: pass_step_def publish_step_def)
        then show ?thesis using ok Inr by (simp add: pass_ok_def swap_inv_def)
      qed
    qed
  next
    case swap
    show ?thesis
    proof (cases "cas_root ?s name b (root_encode new)")
      case (Inr s')
      then have fin: "pass_finish v w u root (Published Installed) (y\<lparr>pn_store := s'\<rparr>) = (ph', y')"
        using step swap by (simp add: pass_step_def publish_step_def swap_step_def)
      note swapped = pass_swap_ok [OF assms(1) ok [unfolded swap] Inr]
      from swapped pass_finish_ok [OF conjunct1 [OF swapped] fin] show ?thesis by auto
    next
      case (Inl e)
      show ?thesis
      proof (cases "\<exists>x a. e = CasFailed x a")
        case True
        then have "ph' = PassPublish w u root Start" "y' = y\<lparr>pn_store := ?s\<rparr>"
          using step swap Inl by (auto simp: pass_step_def publish_step_def swap_step_def)
        then show ?thesis using ok_start by simp
      next
        case False
        then have "pass_finish v w u root (Lease.StoreFailed e) (y\<lparr>pn_store := ?s\<rparr>) = (ph', y')"
          using step swap Inl by (auto simp: pass_step_def publish_step_def swap_step_def split: store_error.splits)
        from pass_finish_ok [OF ok_start this] show ?thesis by auto
      qed
    qed
  qed
qed

end

subsection \<open>Runs of a publisher\<close>

definition publishing_inv ::
    "(bytes \<Rightarrow> blob_id) \<Rightarrow> bytes set \<Rightarrow> ('s \<Rightarrow> blob_id \<Rightarrow> bytes option) \<Rightarrow> ('s \<Rightarrow> string \<Rightarrow> bytes option) \<Rightarrow> string \<Rightarrow> 's publishing \<Rightarrow> bool" where
  "publishing_inv digest known content contents name y \<longleftrightarrow>
     (let ok = (\<lambda>pass. pass_ok digest known content contents name (pb_version y) (pb_touched y) pass (pb_state y))
      in case pb_phase y of
           Some (FirstPass pass) \<Rightarrow> ok pass \<and> (\<forall>r. pass \<noteq> PassDone r)
         | Some (RetryPass pass) \<Rightarrow> ok pass \<and> unpinned pass \<and> (\<forall>r. pass \<noteq> PassDone r)
         | _ \<Rightarrow> ok (PassDone (Inr PassRaced)))"

lemma pass_ok_done: "pass_ok digest known content contents name v touched pass y \<Longrightarrow> pass_ok digest known content contents name v' touched (PassDone r) y"
  by (simp add: pass_ok_def)

lemma pass_ok_commit:
  assumes "pass_ok digest known content contents name v touched pass y" and "db_extends (ts_db (pn_tx y)) (ts_db tx)"
  shows "pass_ok digest known content contents name v touched pass (y\<lparr>pn_tx := tx\<rparr>)"
  using assms published_ok_extends [OF _ assms(2)] pass_inv_mono [OF _ assms(2)]
  by (auto simp: pass_ok_def) (auto simp: db_extends_def)

lemma pass_ok_store:
  "pass_ok digest known content contents name v touched pass y \<Longrightarrow> store_inv digest known content contents name touched s \<Longrightarrow>
    pass_ok digest known content contents name v touched pass (y\<lparr>pn_store := s\<rparr>)"
  by (simp add: pass_ok_def)

context index_store
begin

lemma pass_step_ok:
  assumes "digest_ok digest known" and ok: "pass_ok digest known content contents name v touched pass y"
    and step: "pass_step get_root cas_root (put_if_absent digest get put) name v pass y = (pass', y')" and "pass_blobs digest pass' \<subseteq> known"
  shows "pass_ok digest known content contents name v (touched \<union> (pass_puts digest pass \<inter> dom (content (pn_store y')))) pass' y' \<and>
    pn_tx y' = pn_tx y \<and> (unpinned pass \<longrightarrow> unpinned pass') \<and>
    (\<forall>root. pass' = PassDone (Inr (PassPublished root)) \<and> (\<forall>r. pass \<noteq> PassDone r) \<longrightarrow>
      root_shows digest known (ts_db (pn_tx y)) (pn_leaf_ids y') (content (pn_store y')) root)"
proof (cases pass)
  case (PassStart previous)
  from pass_start_ok [OF ok [unfolded PassStart] step [unfolded PassStart] assms(4)] show ?thesis by (auto simp: PassStart)
next
  case (PassUpload w u)
  from pass_upload_ok [OF assms(1) ok [unfolded PassUpload] step [unfolded PassUpload]] show ?thesis by (auto simp: PassUpload)
next
  case (PassPublish w u root ph)
  from pass_publish_ok [OF assms(1) ok [unfolded PassPublish] step [unfolded PassPublish]] show ?thesis by (auto simp: PassPublish)
next
  case (PassDone r)
  with step have "pass' = PassDone r" "y' = y" by (simp_all add: pass_step_def)
  with ok show ?thesis by (simp add: PassDone)
qed

text \<open>What one step of a publication does, and what a publication that ends has stored.\<close>

lemma publish_step_ok:
  assumes "digest_ok digest known" and inv: "publishing_inv digest known content contents name y" and ph: "pb_phase y = Some ph"
    and step: "publish_indexes_step get_root cas_root (put_if_absent digest get put) name (pb_version y) ph (pb_state y) = (ph', st)"
    and "phase_blobs digest ph' \<subseteq> known"
  defines "touched \<equiv> pb_touched y \<union> (phase_puts digest ph \<inter> dom (content (pn_store st)))"
  shows "publishing_inv digest known content contents name (y\<lparr>pb_phase := Some ph', pb_state := st, pb_touched := touched\<rparr>) \<and>
    pn_tx st = pn_tx (pb_state y) \<and>
    (\<forall>root. ph' = PublishDone (Inr root) \<and> (\<forall>r. ph \<noteq> PublishDone r) \<longrightarrow>
      root_shows digest known (ts_db (pn_tx st)) (pn_leaf_ids st) (content (pn_store st)) root)"
proof -
  let ?step = "pass_step get_root cas_root (put_if_absent digest get put) name (pb_version y)"
  consider (first) pass where "ph = FirstPass pass" | (retry) pass where "ph = RetryPass pass" | (finished) r where "ph = PublishDone r"
    by (cases ph)
  then show ?thesis
  proof cases
    case first
    obtain pass' y' where p: "?step pass (pb_state y) = (pass', y')" by fastforce
    have st: "st = y'" and next_phase: "ph' = (case pass' of PassDone (Inl e) \<Rightarrow> PublishDone (Inl e)
        | PassDone (Inr (PassPublished root)) \<Rightarrow> PublishDone (Inr root) | PassDone (Inr PassRaced) \<Rightarrow> RetryPass (PassStart None) | _ \<Rightarrow> FirstPass pass')"
      using step first p by (auto simp: publish_indexes_step_def split: pass_phase.splits sum.splits pass_outcome.splits)
    have "pass_blobs digest pass' \<subseteq> known" using assms(5) next_phase by (cases pass') auto
    moreover have "pass_ok digest known content contents name (pb_version y) (pb_touched y) pass (pb_state y)" "\<forall>r. pass \<noteq> PassDone r"
      using inv ph first by (simp_all add: publishing_inv_def)
    ultimately have new: "pass_ok digest known content contents name (pb_version y) touched pass' st" "pn_tx st = pn_tx (pb_state y)"
        "\<And>root. pass' = PassDone (Inr (PassPublished root)) \<Longrightarrow>
          root_shows digest known (ts_db (pn_tx st)) (pn_leaf_ids st) (content (pn_store st)) root"
      using pass_step_ok [OF assms(1) _ p] first st by (auto simp: touched_def)
    have restart: "pass_ok digest known content contents name (pb_version y) touched (PassStart None) st"
      using new(1) by (simp add: pass_ok_def)
    show ?thesis
      using new restart unfolding next_phase publishing_inv_def
      by (cases pass') (auto simp: Let_def intro: pass_ok_done split: sum.split pass_outcome.split)
  next
    case retry
    obtain pass' y' where p: "?step pass (pb_state y) = (pass', y')" by fastforce
    have st: "st = y'" and next_phase: "ph' = (case pass' of PassDone (Inl e) \<Rightarrow> PublishDone (Inl e)
        | PassDone (Inr (PassPublished root)) \<Rightarrow> PublishDone (Inr root) | _ \<Rightarrow> RetryPass pass')"
      using step retry p by (auto simp: publish_indexes_step_def split: pass_phase.splits sum.splits pass_outcome.splits)
    have "pass_blobs digest pass' \<subseteq> known" using assms(5) next_phase by (cases pass') auto
    moreover have "pass_ok digest known content contents name (pb_version y) (pb_touched y) pass (pb_state y)" "\<forall>r. pass \<noteq> PassDone r" "unpinned pass"
      using inv ph retry by (simp_all add: publishing_inv_def)
    ultimately have new: "pass_ok digest known content contents name (pb_version y) touched pass' st" "pn_tx st = pn_tx (pb_state y)" "unpinned pass'"
        "\<And>root. pass' = PassDone (Inr (PassPublished root)) \<Longrightarrow>
          root_shows digest known (ts_db (pn_tx st)) (pn_leaf_ids st) (content (pn_store st)) root"
      using pass_step_ok [OF assms(1) _ p] retry st by (auto simp: touched_def)
    then show ?thesis
      unfolding next_phase publishing_inv_def
      by (cases pass') (auto simp: Let_def intro: pass_ok_done split: sum.split pass_outcome.split)
  next
    case finished
    then have "ph' = ph" "st = pb_state y" using step by (simp_all add: publish_indexes_step_def)
    moreover have "touched = pb_touched y" using finished by (simp add: touched_def)
    ultimately show ?thesis using inv ph finished by (simp add: publishing_inv_def)
  qed
qed

lemma publishing_step_inv:
  assumes "digest_ok digest known" and "publishing_step digest known get put content get_root cas_root contents name y y'"
    and "publishing_inv digest known content contents name y"
  shows "publishing_inv digest known content contents name y'"
  using assms(2,3)
proof (induction rule: publishing_step.induct)
  case (begins y ph st v)
  then have "pass_ok digest known content contents name (pb_version y) (pb_touched y) (PassDone (Inr PassRaced)) (pb_state y)"
    by (auto simp: publishing_inv_def split: option.splits publish_phase.splits)
  then have "pass_ok digest known content contents name v {} ph' st" if "ph' = PassStart (pn_published (pb_state y))" for ph'
    using begins(2) that by (auto simp: pass_ok_def publish_begin_def store_inv_def)
  then show ?case using begins(2) by (auto simp: publishing_inv_def publish_begin_def)
next
  case (publishes y ph ph' st)
  then show ?case using publish_step_ok [OF assms(1)] by blast
next
  case (commits y tx)
  then show ?case using pass_ok_commit [OF _ commits(1)]
    by (auto simp: publishing_inv_def Let_def split: option.splits publish_phase.splits)
next
  case (others y s)
  then show ?case using pass_ok_store [OF _ others(1)]
    by (auto simp: publishing_inv_def Let_def split: option.splits publish_phase.splits)
qed

lemma publishing_run_inv:
  assumes "digest_ok digest known" and "(publishing_step digest known get put content get_root cas_root contents name)\<^sup>*\<^sup>* y y'"
    and "publishing_inv digest known content contents name y"
  shows "publishing_inv digest known content contents name y'"
  using assms(2,3) by (induction rule: rtranclp_induct) (auto intro: publishing_step_inv [OF assms(1)])

end

subsection \<open>Reading what was published\<close>

lemma current_index_as_of:
  assumes "db_wf d" and "db_view d = Current"
  shows "datoms_at (as_of t d) order = om_values (current_index (db_schema d) (at_basis d t) order)"
proof -
  have "project (db_schema d) (live_fold (Some t) (db_recorded d)) order = current_index (db_schema d) (at_basis d t) order"
  proof (rule om_eqI, rule option_eqI)
    fix k x
    show "(om_get (project (db_schema d) (live_fold (Some t) (db_recorded d)) order) k = Some x) =
        (om_get (current_index (db_schema d) (at_basis d t) order) k = Some x)"
      by (simp add: current_indexes_get upto_t_def at_basis_def)
  qed
  then show ?thesis
    using db_wf_with_view [OF assms(1), of "AsOf t"]
    by (simp add: as_of_def datoms_at_def db_wf_indexes fresh_indexes_def compute_indexes_def)
qed

lemma current_keys_fit:
  assumes "db_ok d"
  shows "list_all key_fits (current_keys (db_schema d) (at_basis d t) order)" "list_all key_fits (history_keys (db_schema d) (at_basis d t) order)"
proof -
  have "x \<in> set (db_recorded d)" if "x \<in> set (om_values (current_index (db_schema d) (at_basis d t) order))" for x
    using that by (auto simp: om_values_iff current_indexes_get upto_t_def at_basis_def dest: is_live_in)
  then show "list_all key_fits (current_keys (db_schema d) (at_basis d t) order)"
    using assms by (auto simp: current_keys_def list_all_iff db_ok_def)
  show "list_all key_fits (history_keys (db_schema d) (at_basis d t) order)"
    using assms by (auto simp: list_all_iff history_keys_set at_basis_def db_ok_def)
qed

text \<open>The index of an order that a root names, and the keys the history index of an order holds at a basis.\<close>

definition root_index :: "index_roots option \<Rightarrow> nat \<Rightarrow> blob_id" where
  "root_index roots slot = root_list roots ! slot"

definition history_at :: "db \<Rightarrow> u64 \<Rightarrow> index_order \<Rightarrow> datom set" where
  "history_at d t order = {x \<in> set (db_recorded d). eid_sequence (d_tx x) \<le> t \<and> \<not> no_history_attr (db_schema d) (d_a x) \<and> covered (db_schema d) order x}"

lemma root_shows_reads:
  assumes "digest_ok digest known" and "addressed digest known content" and d: "db_ok d" and "root_shows digest known d n content root"
    and "slot < 4" and "\<And>i. get i = Inr (content i)"
  shows "load_index_keys get (root_index (r_roots root) slot) =
      Inr (map (\<lambda>x. datom_key x (ORDERS ! slot)) (datoms_at (as_of (r_index_basis_t root) d) (ORDERS ! slot)))"
    and "r_history_roots root \<noteq> None \<Longrightarrow> \<exists>keys. load_index_keys get (root_index (r_history_roots root) slot) = Inr keys \<and>
      sorted_wrt (<) keys \<and> set keys = (\<lambda>x. datom_key x (ORDERS ! slot)) ` history_at d (r_index_basis_t root) (ORDERS ! slot)"
proof -
  let ?t = "r_index_basis_t root" and ?order = "ORDERS ! slot"
  obtain segs hist where shows': "indexes_ok d n ?t segs hist" "r_roots root = Some (four_roots (map (manifest_id digest) segs))"
      "r_history_roots root = map_option (\<lambda>hs. four_roots (map (manifest_id digest) hs)) hist"
      "segment_blobs digest (all_segments segs hist) \<subseteq> known" "\<And>seg. seg \<in> set (all_segments segs hist) \<Longrightarrow> seg_stored digest content seg"
    using assms(4) by (auto simp: root_shows_def)
  have read: "load_index_keys get (manifest_id digest seg) = Inr (seg_keys seg)"
    if "seg \<in> set (all_segments segs hist)" "list_all key_fits (seg_keys seg)" for seg
    using load_stored [OF assms(1,2) _ shows'(5) [OF that(1)] that(2), of get] shows'(4) segment_blobs_mem [OF that(1)] assms(6) by blast
  have four: "length segs = 4" "seg_current (db_schema d) (at_basis d ?t) ?order (segs ! slot)"
    using shows'(1) assms(5) by (auto simp: indexes_ok_def segments_ok_def)
  then have keys: "seg_keys (segs ! slot) = current_keys (db_schema d) (at_basis d ?t) ?order" by (simp add: seg_current_def)
  have "segs ! slot \<in> set (all_segments segs hist)" using four(1) assms(5) by (simp add: all_segments_def)
  moreover have "root_index (r_roots root) slot = manifest_id digest (segs ! slot)"
    using four(1) assms(5) by (simp add: root_index_def shows'(2) root_list_four)
  ultimately show "load_index_keys get (root_index (r_roots root) slot) = Inr (map (\<lambda>x. datom_key x ?order) (datoms_at (as_of ?t d) ?order))"
    using read keys current_keys_fit(1) [OF d, of ?t ?order] d current_index_as_of [of d ?t ?order]
    by (simp add: current_keys_def db_ok_def)
  show "\<exists>keys. load_index_keys get (root_index (r_history_roots root) slot) = Inr keys \<and>
      sorted_wrt (<) keys \<and> set keys = (\<lambda>x. datom_key x ?order) ` history_at d ?t ?order" if "r_history_roots root \<noteq> None"
  proof -
    note some = that
    obtain hs where hs: "hist = Some hs" using some shows'(3) by auto
    have hist4: "length hs = 4" "seg_keys (hs ! slot) = history_keys (db_schema d) (at_basis d ?t) ?order"
      using shows'(1) assms(5) hs by (auto simp: indexes_ok_def segments_ok_def seg_history_def)
    have "hs ! slot \<in> set (all_segments segs hist)" using hist4(1) assms(5) hs by (simp add: all_segments_def)
    moreover have "root_index (r_history_roots root) slot = manifest_id digest (hs ! slot)"
      using hist4(1) assms(5) hs by (simp add: root_index_def shows'(3) root_list_four)
    ultimately have "load_index_keys get (root_index (r_history_roots root) slot) = Inr (history_keys (db_schema d) (at_basis d ?t) ?order)"
      using read hist4(2) current_keys_fit(2) [OF d, of ?t ?order] by simp
    moreover have "set (history_keys (db_schema d) (at_basis d ?t) ?order) = (\<lambda>x. datom_key x ?order) ` history_at d ?t ?order"
      by (auto simp: history_keys_set at_basis_def history_at_def)
    ultimately show ?thesis using history_keys_sorted by blast
  qed
qed

subsection \<open>On the in-memory store\<close>

interpretation mem_index: index_store mem_content mem_get "mem_put digest" mem_delete mem_list digest mem_roots mem_get_root mem_cas_root mem_delete_root
  for digest
  by unfold_locales (auto simp: mem_put_def mem_cas_root_def mem_roots_def mem_content_def Let_def split: if_splits)

text \<open>
  What the steps \<open>others\<close> of a publishing run rely on. A collection that marks from the index roots of the
  stored record is such a step as long as the blobs the publication has touched are inside the retention
  window (or carry no timestamp).
\<close>

lemma sweep_loop_keeps_roots:
  "sweep_loop mem_delete modified_at marked retention now ids (s, swept, retained) = Inr (s', swept', retained') \<Longrightarrow> ms_roots s' = ms_roots s"
  by (induction ids arbitrary: s swept retained)
    (auto simp: sweep_step_def mem_delete_def bindr_eq_Inr split: if_splits)

lemma collection_keeps_roots:
  assumes "mark_and_sweep_retained mem_get mem_list mem_delete modified_at s live kids retention now = Some (Inr (report, s'))"
  shows "ms_roots s' = ms_roots s"
  using assms by (auto simp: mark_and_sweep_retained_def sweep_unmarked_def bindr_eq_Inr mem_list_def dest!: sweep_loop_keeps_roots)

lemma collection_is_other:
  assumes "store_inv digest known mem_content mem_roots name touched s"
    and "mark_and_sweep_retained mem_get mem_list mem_delete (\<lambda>_ i. Inr (stamp i)) s live (\<lambda>_. index_blob_children) retention now = Some (Inr (report, s'))"
    and "\<And>r. Option.bind (mem_roots s name) root_decode = Some r \<Longrightarrow> set (root_list (r_roots r) @ root_list (r_history_roots r)) \<subseteq> set live"
    and "\<And>i. i \<in> touched \<Longrightarrow> retention \<noteq> 0 \<and> \<not> old_enough retention now (stamp i)"
  shows "store_inv digest known mem_content mem_roots name touched s'"
proof -
  let ?reaches = "blob_reaches (mem_content s) (\<lambda>_. index_blob_children) (set live)"
  have roots: "mem_roots s' = mem_roots s" using collection_keeps_roots [OF assms(2)] by (simp add: mem_roots_def)
  have content: "mem_content s' = (\<lambda>i. if ?reaches i \<or> retention \<noteq> 0 \<and> \<not> old_enough retention now (stamp i) then mem_content s i else None)"
    using mem_blobs.collection [OF assms(2)] by simp
  have "root_closed (mem_content s') r" if r: "Option.bind (mem_roots s name) root_decode = Some r" for r
    unfolding root_closed_def
  proof
    fix i assume i: "i \<in> set (root_list (r_roots r) @ root_list (r_history_roots r))"
    have "root_closed (mem_content s) r" using assms(1) r by (simp add: store_inv_def)
    then obtain bytes cs where b: "mem_content s i = Some bytes" "index_blob_children bytes = Inr cs" "\<forall>c \<in> set cs. mem_content s c \<noteq> None"
      using i unfolding root_closed_def by blast
    have "?reaches i" using assms(3) [OF r] i by (blast intro: reaches_root)
    then have "?reaches c" if "c \<in> set cs" for c using reaches_child b(1,2) that by metis
    then show "\<exists>bytes cs. mem_content s' i = Some bytes \<and> index_blob_children bytes = Inr cs \<and> (\<forall>c \<in> set cs. mem_content s' c \<noteq> None)"
      using b \<open>?reaches i\<close> by (simp add: content)
  qed
  moreover have "touched \<subseteq> dom (mem_content s')" using assms(1,4) by (auto simp: store_inv_def content dom_def)
  ultimately show ?thesis using assms(1) by (auto simp: store_inv_def roots addressed_def content split: if_splits)
qed

text \<open>Reading the indexes a root names gives the database as of its basis, and the history retained up to it.\<close>

definition indexes_read :: "(blob_id \<Rightarrow> store_error + bytes option) \<Rightarrow> db_root \<Rightarrow> db \<Rightarrow> bool" where
  "indexes_read get root d \<longleftrightarrow> (\<forall>slot < 4.
     load_index_keys get (root_index (r_roots root) slot) =
       Inr (map (\<lambda>x. datom_key x (ORDERS ! slot)) (datoms_at (as_of (r_index_basis_t root) d) (ORDERS ! slot))) \<and>
     (r_history_roots root \<noteq> None \<longrightarrow> (\<exists>keys. load_index_keys get (root_index (r_history_roots root) slot) = Inr keys \<and>
        sorted_wrt (<) keys \<and> set keys = (\<lambda>x. datom_key x (ORDERS ! slot)) ` history_at d (r_index_basis_t root) (ORDERS ! slot))))"

text \<open>C5. What a publication installs can be read back and is right. A publisher runs among commits that append
  datoms of later transactions without changing the AVET coverage or the history flag of an attribute, and among
  other processes that may replace the root and delete blobs in any way that leaves no root naming a missing
  blob and keeps the blobs the current publication has uploaded or found (\<open>collection_is_other\<close>: a
  collection whose retention window covers them does). Whenever, under these two conditions on everybody else,
  its publication ends with a root, every index the root names is in the store: reading the manifest and its chunks gives, in
  each of the four orders, exactly the keys of the database as of the basis of the root, whether the pass folded the log tail
  into the last publication or rebuilt; the history indexes hold the retained statements up to the basis. And no
  step of the publisher leaves a root that names a missing blob. This holds while no two of the blobs of
  the run have the same digest.\<close>

theorem published_root_reads_back:
  assumes "digest_ok digest known"
    and "store_inv digest known mem_content mem_roots name {} (pn_store st\<^sub>0)" and "db_ok (ts_db (pn_tx st\<^sub>0))" and "pn_published st\<^sub>0 = None"
    and run: "(publishing_step digest known mem_get (mem_put digest) mem_content mem_get_root mem_cas_root mem_roots name)\<^sup>*\<^sup>*
      \<lparr>pb_phase = None, pb_version = v, pb_state = st\<^sub>0, pb_touched = {}\<rparr> y"
  shows "(\<forall>r. Option.bind (mem_roots (pn_store (pb_state y)) name) root_decode = Some r \<longrightarrow> root_closed (mem_content (pn_store (pb_state y))) r) \<and>
    (\<forall>ph root st. pb_phase y = Some ph \<and> (\<forall>r. ph \<noteq> PublishDone r) \<and>
      publish_indexes_step mem_get_root mem_cas_root (put_if_absent digest mem_get (mem_put digest)) name (pb_version y) ph (pb_state y) =
        (PublishDone (Inr root), st) \<longrightarrow>
      indexes_read (mem_get (pn_store st)) root (ts_db (pn_tx st)))"
proof -
  let ?y\<^sub>0 = "\<lparr>pb_phase = None, pb_version = v, pb_state = st\<^sub>0, pb_touched = {}\<rparr>"
  have "publishing_inv digest known mem_content mem_roots name ?y\<^sub>0"
    using assms(2-4) by (simp add: publishing_inv_def pass_ok_def)
  from mem_index.publishing_run_inv [OF assms(1) run this] have inv: "publishing_inv digest known mem_content mem_roots name y" .
  then have "store_inv digest known mem_content mem_roots name (pb_touched y) (pn_store (pb_state y))"
    by (auto simp: publishing_inv_def pass_ok_def Let_def split: option.splits publish_phase.splits)
  then have closed: "\<forall>r. Option.bind (mem_roots (pn_store (pb_state y)) name) root_decode = Some r \<longrightarrow> root_closed (mem_content (pn_store (pb_state y))) r"
    by (simp add: store_inv_def)
  have "indexes_read (mem_get (pn_store st)) root (ts_db (pn_tx st))"
    if ph: "pb_phase y = Some ph" "\<forall>r. ph \<noteq> PublishDone r"
      and step: "publish_indexes_step mem_get_root mem_cas_root (put_if_absent digest mem_get (mem_put digest)) name (pb_version y) ph (pb_state y) =
        (PublishDone (Inr root), st)" for ph root st
  proof -
    have blobs: "phase_blobs digest (PublishDone (Inr root)) \<subseteq> known" by simp
    note ended = mem_index.publish_step_ok [OF assms(1) inv ph(1) step blobs]
    then have "pass_ok digest known mem_content mem_roots name (pb_version y)
        (pb_touched y \<union> (phase_puts digest ph \<inter> dom (mem_content (pn_store st)))) (PassDone (Inr PassRaced)) st"
      by (simp add: publishing_inv_def)
    then have "addressed digest known (mem_content (pn_store st))" "db_ok (ts_db (pn_tx st))"
      by (simp_all add: pass_ok_def store_inv_def)
    moreover have "root_shows digest known (ts_db (pn_tx st)) (pn_leaf_ids st) (mem_content (pn_store st)) root"
      using ended ph(2) by blast
    moreover have "mem_get (pn_store st) i = Inr (mem_content (pn_store st) i)" for i by (simp add: mem_get_def mem_content_def)
    ultimately show ?thesis unfolding indexes_read_def using root_shows_reads [OF assms(1)] by blast
  qed
  with closed show ?thesis by blast
qed

subsection \<open>A publication on its own\<close>

definition mem_publish :: "(bytes \<Rightarrow> blob_id) \<Rightarrow> string \<Rightarrow> u64 \<Rightarrow> publish_phase \<times> memory_store publication \<Rightarrow> publish_phase \<times> memory_store publication" where
  "mem_publish digest name v = (\<lambda>(ph, y). publish_indexes_step mem_get_root mem_cas_root (put_if_absent digest mem_get (mem_put digest)) name v ph y)"

definition mem_pass :: "(bytes \<Rightarrow> blob_id) \<Rightarrow> string \<Rightarrow> u64 \<Rightarrow> pass_phase \<times> memory_store publication \<Rightarrow> pass_phase \<times> memory_store publication" where
  "mem_pass digest name v = (\<lambda>(ph, y). pass_step mem_get_root mem_cas_root (put_if_absent digest mem_get (mem_put digest)) name v ph y)"

lemma mem_put_if_absent: "\<exists>i s'. put_if_absent digest mem_get (mem_put digest) s bytes = Inr (i, s') \<and> ms_roots s' = ms_roots s"
  by (auto simp: put_if_absent_def blob_contains_def mem_get_def mem_put_def Let_def)

text \<open>Every put, and the chunks that need none, are one step of the upload.\<close>

definition upload_size :: "upload \<Rightarrow> nat" where
  "upload_size u = sum_list (map (\<lambda>plan. length plan + 1) (up_todo u))"

lemma upload_step_size:
  assumes "up_todo u \<noteq> []"
  shows "\<exists>u' s'. upload_step (put_if_absent digest mem_get (mem_put digest)) u s = Inr (u', s') \<and>
    upload_size u = Suc (upload_size u') \<and> ms_roots s' = ms_roots s"
proof -
  obtain plan planned where todo: "up_todo u = plan # planned" using assms by (cases "up_todo u") auto
  show ?thesis
  proof (cases plan)
    case Nil
    obtain i s' where "put_if_absent digest mem_get (mem_put digest) s (encode_index_manifest (up_children u)) = Inr (i, s')" "ms_roots s' = ms_roots s"
      using mem_put_if_absent by blast
    then show ?thesis using todo Nil by (simp add: upload_step_def upload_size_def)
  next
    case (Cons c rest)
    show ?thesis
    proof (cases c)
      case (RebuiltChunk bytes)
      obtain i s' where "put_if_absent digest mem_get (mem_put digest) s bytes = Inr (i, s')" "ms_roots s' = ms_roots s"
        using mem_put_if_absent by blast
      then show ?thesis using todo Cons RebuiltChunk by (simp add: upload_step_def upload_size_def)
    qed (use todo Cons in \<open>simp add: upload_step_def upload_size_def\<close>)
  qed
qed

lemma mem_pass_upload:
  "\<exists>u' s'. (mem_pass digest name v ^^ upload_size u) (PassUpload w u, y) = (PassUpload w u', y\<lparr>pn_store := s'\<rparr>) \<and>
    up_todo u' = [] \<and> ms_roots s' = ms_roots (pn_store y)"
proof (induction "upload_size u" arbitrary: u y)
  case 0
  then have "up_todo u = []" by (cases "up_todo u") (simp_all add: upload_size_def)
  then show ?case using 0 by (intro exI [of _ u] exI [of _ "pn_store y"]) simp
next
  case (Suc n)
  then have "up_todo u \<noteq> []" by (auto simp: upload_size_def)
  then obtain u' s' where step: "upload_step (put_if_absent digest mem_get (mem_put digest)) u (pn_store y) = Inr (u', s')" "n = upload_size u'"
      "ms_roots s' = ms_roots (pn_store y)"
    using upload_step_size [of u digest "pn_store y"] Suc(2) by auto
  have "mem_pass digest name v (PassUpload w u, y) = (PassUpload w u', y\<lparr>pn_store := s'\<rparr>)"
    using step(1) \<open>up_todo u \<noteq> []\<close> by (simp add: mem_pass_def pass_step_def)
  with Suc(1) [OF step(2), of "y\<lparr>pn_store := s'\<rparr>"] show ?case
    using step(2,3) by (simp add: Suc(2) [symmetric] funpow_Suc_right del: funpow.simps)
qed

text \<open>Nobody else is at work, so the swap is not raced: the root is installed, or is there already.\<close>

lemma mem_pass_publish:
  assumes "up_todo u = []" and stored: "stored = Option.bind (mem_roots (pn_store y) name) root_decode"
    and "pw_pinned w = None \<or> pw_pinned w = Some (index_state_of stored)" and "\<And>r. stored = Some r \<Longrightarrow> r_lease_version r \<le> v"
  shows "\<exists>y'. (mem_pass digest name v ^^ 3) (PassUpload w u, y) = (PassDone (Inr (PassPublished (pass_root v w u))), y')"
proof -
  let ?root = "pass_root v w u" and ?bytes = "mem_roots (pn_store y) name" and ?done = "\<lambda>y'. (PassDone (Inr (PassPublished (pass_root v w u))), y')"
  have one: "mem_pass digest name v (PassUpload w u, y) = (PassPublish w u ?root Start, y)"
    using assms(1) by (simp add: mem_pass_def pass_step_def)
  have still: "mem_pass digest name v (PassDone r, y') = (PassDone r, y')" for r y' by (simp add: mem_pass_def pass_step_def)
  have "\<exists>y'. mem_pass digest name v (mem_pass digest name v (PassPublish w u ?root Start, y)) = ?done y'"
  proof (cases "publish_next ?root (pw_pinned w) (Option.bind ?bytes root_decode)")
    case (Inl res)
    then have "res = Published Superseded"
      using assms(3,4) unfolding stored [symmetric] by (cases stored) (auto simp: publish_next_def Let_def pass_root_def split: if_splits)
    with Inl have "\<exists>y'. mem_pass digest name v (PassPublish w u ?root Start, y) = ?done y'"
      by (simp add: mem_pass_def pass_step_def publish_step_def mem_get_root_def mem_roots_def pass_finish_def Let_def)
    then show ?thesis using still by fastforce
  next
    case (Inr new)
    then have "mem_pass digest name v (PassPublish w u ?root Start, y) = (PassPublish w u ?root (Swap ?bytes new (Published Installed) False), y)"
      by (simp add: mem_pass_def pass_step_def publish_step_def mem_get_root_def mem_roots_def)
    then show ?thesis
      by (simp add: mem_pass_def pass_step_def publish_step_def swap_step_def mem_cas_root_def mem_roots_def pass_finish_def Let_def)
  qed
  then show ?thesis using one by (simp add: numeral_3_eq_3)
qed

lemma pass_plan_result:
  assumes "pass_plan v previous bytes st n = Inr (w, u, n')"
  shows "pw_basis_t w = db_basis_t (ts_db st) \<and>
    (pw_pinned w = None \<or> pw_pinned w = Some (index_state_of (Option.bind bytes root_decode)))"
  using assms by (cases "usable_previous previous (Option.bind bytes root_decode) v (db_basis_t (ts_db st))")
    (auto simp: pass_plan_def recovery_snapshot_def bindr_eq_Inr Let_def split: option.splits if_splits prod.splits)

lemma pass_plan_deposed:
  "pass_plan v previous bytes st n = Inl e \<longleftrightarrow>
    (\<exists>r. Option.bind bytes root_decode = Some r \<and> v < r_lease_version r \<and> e = DeposedBy (r_lease_version r))"
  by (auto simp: pass_plan_def recovery_snapshot_def bindr_def Let_def split: option.splits if_splits prod.splits)

text \<open>What a publication on its own comes to.\<close>

definition mem_outcome :: "string \<Rightarrow> u64 \<Rightarrow> memory_store publication \<Rightarrow> transact_error + db_root \<Rightarrow> bool" where
  "mem_outcome name v y r \<longleftrightarrow> (case (Option.bind (mem_roots (pn_store y) name) root_decode, r) of
     (Some live, Inl e) \<Rightarrow> v < r_lease_version live \<and> e = DeposedBy (r_lease_version live)
   | (Some live, Inr root) \<Rightarrow> r_lease_version live \<le> v \<and> r_index_basis_t root = db_basis_t (ts_db (pn_tx y))
   | (None, Inl e) \<Rightarrow> False
   | (None, Inr root) \<Rightarrow> r_index_basis_t root = db_basis_t (ts_db (pn_tx y)))"

fun pass_result :: "transact_error + db_root \<Rightarrow> transact_error + pass_outcome" where
  "pass_result (Inl e) = Inl e"
| "pass_result (Inr root) = Inr (PassPublished root)"

lemma mem_pass_ends:
  "\<exists>n r y'. (mem_pass digest name v ^^ n) (PassStart previous, y) = (PassDone (pass_result r), y') \<and> mem_outcome name v y r"
proof (cases "pass_plan v previous (mem_roots (pn_store y) name) (pn_tx y) (pn_leaf_ids y)")
  case (Inl e)
  then have "(mem_pass digest name v ^^ 1) (PassStart previous, y) = (PassDone (pass_result (Inl e)), y)"
    by (simp add: mem_pass_def pass_step_def mem_get_root_def mem_roots_def)
  moreover have "mem_outcome name v y (Inl e)" using Inl by (auto simp: pass_plan_deposed mem_outcome_def)
  ultimately show ?thesis by blast
next
  case (Inr wun)
  obtain w u n where wun: "wun = (w, u, n)" by (cases wun)
  note plan = pass_plan_result [OF Inr [unfolded wun]]
  let ?stored = "Option.bind (mem_roots (pn_store y) name) root_decode"
  have lease: "r_lease_version r \<le> v" if "?stored = Some r" for r
  proof (rule ccontr)
    assume "\<not> r_lease_version r \<le> v"
    with that have "pass_plan v previous (mem_roots (pn_store y) name) (pn_tx y) (pn_leaf_ids y) = Inl (DeposedBy (r_lease_version r))"
      by (simp add: pass_plan_deposed not_le)
    with Inr show False by simp
  qed
  have first: "(mem_pass digest name v ^^ 1) (PassStart previous, y) = (PassUpload w u, y\<lparr>pn_leaf_ids := n\<rparr>)"
    using Inr wun by (simp add: mem_pass_def pass_step_def mem_get_root_def mem_roots_def)
  obtain u' s' where upload: "(mem_pass digest name v ^^ upload_size u) (PassUpload w u, y\<lparr>pn_leaf_ids := n\<rparr>) =
      (PassUpload w u', y\<lparr>pn_leaf_ids := n, pn_store := s'\<rparr>)" "up_todo u' = []" "ms_roots s' = ms_roots (pn_store y)"
    using mem_pass_upload [where u = u and w = w and y = "y\<lparr>pn_leaf_ids := n\<rparr>" and digest = digest and name = name and v = v] by auto
  obtain y' where "(mem_pass digest name v ^^ 3) (PassUpload w u', y\<lparr>pn_leaf_ids := n, pn_store := s'\<rparr>) =
      (PassDone (Inr (PassPublished (pass_root v w u'))), y')"
    using mem_pass_publish [OF upload(2), of ?stored "y\<lparr>pn_leaf_ids := n, pn_store := s'\<rparr>" name w v digest] plan lease upload(3)
    by (auto simp: mem_roots_def)
  then have "(mem_pass digest name v ^^ (3 + (upload_size u + 1))) (PassStart previous, y) =
      (PassDone (pass_result (Inr (pass_root v w u'))), y')"
    using first upload(1) by (simp only: funpow_add comp_apply pass_result.simps)
  moreover have "mem_outcome name v y (Inr (pass_root v w u'))"
    using plan lease by (auto simp: mem_outcome_def pass_root_def split: option.split)
  ultimately show ?thesis by blast
qed

lemma mem_publish_pass:
  assumes "(mem_pass digest name v ^^ n) (ph, y) = (PassDone (pass_result r), y')"
  shows "\<exists>m. (mem_publish digest name v ^^ m) (FirstPass ph, y) = (PublishDone r, y')"
  using assms
proof (induction n arbitrary: ph y)
  case 0
  then have "(mem_publish digest name v ^^ 1) (FirstPass ph, y) = (PublishDone r, y')"
    by (cases r) (simp_all add: mem_publish_def publish_indexes_step_def pass_step_def)
  then show ?case by blast
next
  case (Suc n)
  obtain ph\<^sub>1 y\<^sub>1 where step: "mem_pass digest name v (ph, y) = (ph\<^sub>1, y\<^sub>1)" by fastforce
  with Suc(2) have run: "(mem_pass digest name v ^^ n) (ph\<^sub>1, y\<^sub>1) = (PassDone (pass_result r), y')"
    by (simp add: funpow_Suc_right del: funpow.simps)
  have still: "(mem_pass digest name v ^^ n) (PassDone q, y\<^sub>1) = (PassDone q, y\<^sub>1)" for q
    by (induction n) (simp_all add: mem_pass_def pass_step_def)
  show ?case
  proof (cases "\<exists>q. ph\<^sub>1 = PassDone q")
    case True
    with run still have "ph\<^sub>1 = PassDone (pass_result r)" "y\<^sub>1 = y'" by auto
    with step have "(mem_publish digest name v ^^ 1) (FirstPass ph, y) = (PublishDone r, y')"
      by (cases r) (simp_all add: mem_publish_def mem_pass_def publish_indexes_step_def)
    then show ?thesis by blast
  next
    case False
    with step have "mem_publish digest name v (FirstPass ph, y) = (FirstPass ph\<^sub>1, y\<^sub>1)"
      by (cases ph\<^sub>1) (simp_all add: mem_publish_def mem_pass_def publish_indexes_step_def)
    moreover obtain m where "(mem_publish digest name v ^^ m) (FirstPass ph\<^sub>1, y\<^sub>1) = (PublishDone r, y')" using Suc.IH [OF run] by blast
    ultimately have "(mem_publish digest name v ^^ Suc m) (FirstPass ph, y) = (PublishDone r, y')"
      by (simp add: funpow_Suc_right del: funpow.simps)
    then show ?thesis by blast
  qed
qed

text \<open>
  C33. A publication that nobody interferes with ends: with a root at the basis the database has, unless the
  root record in the store carries a newer lease version, and then it reports that it was deposed by it.
\<close>

theorem publication_ends:
  "\<exists>n r y'. (mem_publish digest name v ^^ n) (publish_begin y) = (PublishDone r, y') \<and>
    (case (Option.bind (mem_roots (pn_store y) name) root_decode, r) of
       (Some live, Inl e) \<Rightarrow> v < r_lease_version live \<and> e = DeposedBy (r_lease_version live)
     | (Some live, Inr root) \<Rightarrow> r_lease_version live \<le> v \<and> r_index_basis_t root = db_basis_t (ts_db (pn_tx y))
     | (None, Inl e) \<Rightarrow> False
     | (None, Inr root) \<Rightarrow> r_index_basis_t root = db_basis_t (ts_db (pn_tx y)))"
proof -
  obtain n r y' where "(mem_pass digest name v ^^ n) (PassStart (pn_published y), y\<lparr>pn_published := None\<rparr>) = (PassDone (pass_result r), y')"
      "mem_outcome name v (y\<lparr>pn_published := None\<rparr>) r"
    using mem_pass_ends by blast
  moreover from this obtain m where "(mem_publish digest name v ^^ m) (publish_begin y) = (PublishDone r, y')"
    unfolding publish_begin_def using mem_publish_pass by blast
  moreover from calculation(2) have "mem_outcome name v y r" by (auto simp: mem_outcome_def split: option.splits sum.splits)
  ultimately show ?thesis unfolding mem_outcome_def by blast
qed

subsection \<open>A run of a publication\<close>

lemma mem_publish_run:
  assumes "\<And>i. i \<le> n \<Longrightarrow> phase_blobs digest (fst ((mem_publish digest name v ^^ i) (publish_begin y))) \<subseteq> known"
  shows "\<exists>touched. (publishing_step digest known mem_get (mem_put digest) mem_content mem_get_root mem_cas_root mem_roots name)\<^sup>*\<^sup>*
      \<lparr>pb_phase = None, pb_version = v\<^sub>0, pb_state = y, pb_touched = {}\<rparr>
      \<lparr>pb_phase = Some (fst ((mem_publish digest name v ^^ n) (publish_begin y))), pb_version = v,
        pb_state = snd ((mem_publish digest name v ^^ n) (publish_begin y)), pb_touched = touched\<rparr>"
  using assms
proof (induction n)
  case 0
  have "publishing_step digest known mem_get (mem_put digest) mem_content mem_get_root mem_cas_root mem_roots name
      \<lparr>pb_phase = None, pb_version = v\<^sub>0, pb_state = y, pb_touched = {}\<rparr>
      \<lparr>pb_phase = Some (fst (publish_begin y)), pb_version = v, pb_state = snd (publish_begin y), pb_touched = {}\<rparr>"
    by (rule publishing_step.begins) simp_all
  then show ?case by auto
next
  case (Suc n)
  let ?run = "\<lambda>i. (mem_publish digest name v ^^ i) (publish_begin y)"
  obtain touched where run: "(publishing_step digest known mem_get (mem_put digest) mem_content mem_get_root mem_cas_root mem_roots name)\<^sup>*\<^sup>*
      \<lparr>pb_phase = None, pb_version = v\<^sub>0, pb_state = y, pb_touched = {}\<rparr>
      \<lparr>pb_phase = Some (fst (?run n)), pb_version = v, pb_state = snd (?run n), pb_touched = touched\<rparr>"
    using Suc by force
  let ?y = "\<lparr>pb_phase = Some (fst (?run n)), pb_version = v, pb_state = snd (?run n), pb_touched = touched\<rparr>"
  have "publish_indexes_step mem_get_root mem_cas_root (put_if_absent digest mem_get (mem_put digest)) name (pb_version ?y) (fst (?run n)) (pb_state ?y) =
      (fst (?run (Suc n)), snd (?run (Suc n)))"
    by (simp add: mem_publish_def case_prod_beta)
  from publishing_step.publishes [OF _ this Suc.prems] run show ?case by (fastforce intro: rtranclp.rtrancl_into_rtrancl)
qed

text \<open>The step with which a publication ends.\<close>

lemma mem_publish_last:
  assumes "(mem_publish digest name v ^^ n) (publish_begin y) = (PublishDone r, y')"
  shows "\<exists>m ph st. (mem_publish digest name v ^^ m) (publish_begin y) = (ph, st) \<and> (\<forall>q. ph \<noteq> PublishDone q) \<and>
    mem_publish digest name v (ph, st) = (PublishDone r, y')"
  using assms
proof (induction n)
  case (Suc n)
  obtain ph st where st: "(mem_publish digest name v ^^ n) (publish_begin y) = (ph, st)" by fastforce
  show ?case
  proof (cases "\<exists>q. ph = PublishDone q")
    case True
    then have "(mem_publish digest name v ^^ n) (publish_begin y) = (PublishDone r, y')"
      using Suc(2) st by (auto simp: mem_publish_def publish_indexes_step_def)
    then show ?thesis by (rule Suc.IH)
  next
    case False
    then show ?thesis using st Suc(2) by (intro exI [of _ n] exI [of _ ph] exI [of _ st]) auto
  qed
qed (simp add: publish_begin_def)

subsection \<open>The publication of one datom\<close>

definition wit_published_db :: db where
  "wit_published_db = apply_transaction 1 [wit_datom 9 5 1 True] (db_default\<lparr>db_schema := schema_insert wit_attr schema_default\<rparr>)"

definition wit_publication :: "memory_store publication" where
  "wit_publication = \<lparr>pn_published = None, pn_leaf_ids = 0, pn_tx = state_after_replay wit_published_db FIRST_USER_ID 0, pn_store = memory_new\<rparr>"

definition wit_hex :: "nat \<Rightarrow> blob_id" where
  "wit_hex n = replicate 63 (CHR ''0'') @ [''0123456789abcdef'' ! n]"

definition wit_chunk :: "index_order \<Rightarrow> bytes" where
  "wit_chunk order = encode_segment_chunk [datom_key (wit_datom 9 5 1 True) order]"

definition wit_pass_blobs :: "bytes list" where
  "wit_pass_blobs = map wit_chunk ORDERS @ map (\<lambda>n. encode_index_manifest [wit_hex n]) [0, 1, 2, 3] @ [encode_index_manifest []]"

definition wit_digest :: "bytes \<Rightarrow> blob_id" where
  "wit_digest b = wit_hex (length (takeWhile (\<lambda>c. c \<noteq> b) wit_pass_blobs))"

lemma length_wit_pass_blobs: "length wit_pass_blobs = 9"
  by (simp add: wit_pass_blobs_def)

lemma wit_hex_inj:
  assumes "m < 16" and "n < 16" and "wit_hex m = wit_hex n"
  shows "m = n"
proof -
  have "distinct ''0123456789abcdef''" by simp
  then show ?thesis using assms nth_eq_iff_index_eq [of "''0123456789abcdef''" m n] by (simp add: wit_hex_def)
qed

lemma wit_hex_from_hex: "n < 16 \<Longrightarrow> blob_from_hex (wit_hex n) \<noteq> None"
  by (simp add: wit_hex_def less_Suc_eq eval_nat_numeral)  (auto simp: blob_from_hex_def is_ascii_hexdigit_def)

lemma wit_position:
  assumes "b \<in> set wit_pass_blobs"
  shows "length (takeWhile (\<lambda>c. c \<noteq> b) wit_pass_blobs) < 9" and "wit_pass_blobs ! length (takeWhile (\<lambda>c. c \<noteq> b) wit_pass_blobs) = b"
proof -
  show "length (takeWhile (\<lambda>c. c \<noteq> b) wit_pass_blobs) < 9"
    using assms length_takeWhile_le [of "\<lambda>c. c \<noteq> b" wit_pass_blobs] takeWhile_eq_all_conv [of "\<lambda>c. c \<noteq> b" wit_pass_blobs]
      takeWhile_eq_take [of "\<lambda>c. c \<noteq> b" wit_pass_blobs] by (auto simp: length_wit_pass_blobs le_less)
  then show "wit_pass_blobs ! length (takeWhile (\<lambda>c. c \<noteq> b) wit_pass_blobs) = b"
    using nth_length_takeWhile [of "\<lambda>c. c \<noteq> b" wit_pass_blobs] by (simp add: length_wit_pass_blobs)
qed

lemma wit_digest_ok: "digest_ok wit_digest (set wit_pass_blobs)"
proof -
  have "b = c" if bc: "b \<in> set wit_pass_blobs" "c \<in> set wit_pass_blobs" and "wit_digest b = wit_digest c" for b c
  proof -
    have "length (takeWhile (\<lambda>x. x \<noteq> b) wit_pass_blobs) = length (takeWhile (\<lambda>x. x \<noteq> c) wit_pass_blobs)"
      using wit_hex_inj wit_position(1) [OF bc(1)] wit_position(1) [OF bc(2)] that(3) by (simp add: wit_digest_def)
    then show ?thesis using wit_position(2) [OF bc(1)] wit_position(2) [OF bc(2)] by metis
  qed
  moreover have "blob_from_hex (wit_digest b) \<noteq> None" if "b \<in> set wit_pass_blobs" for b
    unfolding wit_digest_def by (rule wit_hex_from_hex) (use wit_position(1) [OF that] in simp)
  ultimately show ?thesis unfolding digest_ok_def inj_on_def by blast
qed

lemma wit_published_db_simps:
  "db_wf wit_published_db" "db_view wit_published_db = Current" "db_basis_t wit_published_db = 1"
  "db_recorded wit_published_db = [wit_datom 9 5 1 True]"
proof -
  have "db_wf (db_default\<lparr>db_schema := schema_insert wit_attr schema_default\<rparr>)"
    by (simp add: db_wf_def db_default_def tx_bounded_def schema_wf_insert schema_wf_default wit_attr_def)
  then show "db_wf wit_published_db" unfolding wit_published_db_def
    by (rule db_wf_apply_transaction)
      (simp_all add: db_default_def applies_def tx_bounded_def schema_placed_def wit_datom_def eid_sequence_tx_entity_small is_schema_attribute_def engine_ids)
qed (simp_all add: wit_published_db_def db_default_def)

lemma wit_key_fits: "key_fits (datom_key (wit_datom e n t b) order)"
  by (cases order) (simp_all add: key_fits_def datom_key_def encode_tx_added_def i64_encode_def length_u64)

lemma om_values_one:
  assumes "\<And>k y. om_get m k = Some y \<Longrightarrow> k = k\<^sub>0 \<and> y = x"
  shows "om_values m = [] \<or> om_values m = [x]"
proof -
  have "set (om_entries m) \<subseteq> {(k\<^sub>0, x)}" using assms by (auto simp: om_entries_iff)
  moreover have "distinct (om_entries m)" using ascending_distinct [OF om_entries_ascending [of m]] by (simp add: distinct_map)
  ultimately have "om_entries m = [] \<or> om_entries m = [(k\<^sub>0, x)]"
    by (cases "om_entries m"; cases "tl (om_entries m)") auto
  then show ?thesis by (auto simp: om_values_def)
qed

lemma wit_datoms_at:
  "datoms_at wit_published_db order = [] \<or> datoms_at wit_published_db order = [wit_datom 9 5 1 True]"
  "datoms_at (history wit_published_db) order = [] \<or> datoms_at (history wit_published_db) order = [wit_datom 9 5 1 True]"
proof -
  let ?x = "wit_datom 9 5 1 True" and ?s = "db_schema wit_published_db"
  show "datoms_at wit_published_db order = [] \<or> datoms_at wit_published_db order = [?x]"
    unfolding datoms_at_current [OF wit_published_db_simps(1,2)] wit_published_db_simps(4)
    by (rule om_values_one [where k\<^sub>0 = "component_key order ?x"])
      (auto simp: current_indexes_get upto_t_def is_live_def Cons_eq_append_conv)
  have "k = datom_key ?x order \<and> y = ?x" if "om_get (history_index ?s [?x] order) k = Some y" for k y
    using that history_index_snoc [of ?s "[]" ?x order] by (simp add: compute_indexes_def [of History ?s "[]"] split: if_splits)
  then show "datoms_at (history wit_published_db) order = [] \<or> datoms_at (history wit_published_db) order = [?x]"
    unfolding datoms_at_history [OF wit_published_db_simps(1)] wit_published_db_simps(4) by (rule om_values_one)
qed

lemma from_sorted_one:
  "fst (from_sorted n order []) = []" "fst (from_sorted n order [x]) = [\<lparr>leaf_id = n, leaf_keys = [datom_key x order]\<rparr>]"
  by (simp_all add: from_sorted_def builder_new_def push_def seal_def finish_def Let_def)

lemma wit_segment_blobs:
  assumes "ds = [] \<or> ds = [wit_datom 9 5 1 True]" and "order \<in> set ORDERS"
  shows "segment_blobs wit_digest [fst (from_sorted n order ds)] \<subseteq> set wit_pass_blobs"
  using assms(1)
proof
  assume "ds = [wit_datom 9 5 1 True]"
  moreover have "encode_index_manifest [wit_digest (wit_chunk order)] \<in> set wit_pass_blobs"
  proof -
    let ?P = "\<lambda>c. c \<noteq> wit_chunk order"
    have "wit_chunk order \<in> set (map wit_chunk ORDERS)" using assms(2) by simp
    then have "takeWhile ?P wit_pass_blobs = takeWhile ?P (map wit_chunk ORDERS)" "takeWhile ?P (map wit_chunk ORDERS) \<noteq> map wit_chunk ORDERS"
      unfolding wit_pass_blobs_def by (simp add: takeWhile_append1, auto simp: takeWhile_eq_all_conv)
    moreover have "length (takeWhile ?P (map wit_chunk ORDERS)) \<le> 4"
      using length_takeWhile_le [of ?P "map wit_chunk ORDERS"] by simp
    ultimately have "length (takeWhile ?P wit_pass_blobs) < 4"
      using takeWhile_eq_take [of ?P "map wit_chunk ORDERS"] by (metis length_ORDERS length_map nat_less_le take_all_iff)
    then have "length (takeWhile ?P wit_pass_blobs) \<in> set [0, 1, 2, 3]" by (auto simp: less_Suc_eq eval_nat_numeral)
    then show ?thesis unfolding wit_digest_def wit_pass_blobs_def [THEN arg_cong [where f = set]] by auto
  qed
  moreover have "wit_chunk order \<in> set wit_pass_blobs" using assms(2) by (simp add: wit_pass_blobs_def)
  ultimately show ?thesis by (simp add: segment_blobs_def from_sorted_one chunk_id_def wit_chunk_def [symmetric])
qed (simp add: segment_blobs_def from_sorted_one wit_pass_blobs_def)


lemma segment_blobs_append: "segment_blobs digest (xs @ ys) = segment_blobs digest xs \<union> segment_blobs digest ys"
  by (auto simp: segment_blobs_def)

lemma wit_plan_blobs:
  assumes "ts_db st = wit_published_db" and "pass_plan v None bytes st n = Inr (w, u, n')"
  shows "segment_blobs wit_digest (all_segments (pw_segments w) (pw_history w)) \<subseteq> set wit_pass_blobs"
proof -
  let ?d = wit_published_db
  have step: "segment_blobs wit_digest (fst (plan_index_step ?d None (slot, order) acc)) \<subseteq> set wit_pass_blobs"
      "segment_blobs wit_digest (fst (plan_history_step ?d None (slot, order) acc)) \<subseteq> set wit_pass_blobs"
    if "segment_blobs wit_digest (fst acc) \<subseteq> set wit_pass_blobs" and "order \<in> set ORDERS" for slot order acc
    using that wit_segment_blobs [OF wit_datoms_at(1) that(2), of "snd (snd acc)"] wit_segment_blobs [OF wit_datoms_at(2) that(2), of "snd (snd acc)"]
    by (simp_all add: plan_index_step_def plan_history_step_def case_prod_beta Let_def segment_blobs_append)
  have order: "snd x \<in> set ORDERS" if "x \<in> set (enumerate 0 ORDERS)" for x
    using that by (metis image_eqI map_snd_enumerate set_map)
  have blobs: "segment_blobs wit_digest (fst (plan_indexes ?d None k)) \<subseteq> set wit_pass_blobs"
      "segment_blobs wit_digest (fst (plan_history_indexes ?d None k)) \<subseteq> set wit_pass_blobs" for k
    unfolding plan_indexes_def plan_history_indexes_def
    by (rule fold_invariant [where P = "\<lambda>acc. segment_blobs wit_digest (fst acc) \<subseteq> set wit_pass_blobs"],
        simp add: segment_blobs_def, metis prod.collapse step order)+
  obtain segs planned k where plan: "plan_indexes ?d None n = (segs, planned, k)" by (rule prod_cases3)
  obtain hist hplanned k' where hplan: "plan_history_indexes ?d None k = (hist, hplanned, k')" by (rule prod_cases3)
  have "pw_segments w = segs \<and> (pw_history w = None \<or> pw_history w = Some hist)"
    using assms plan hplan
    by (auto simp: pass_plan_def usable_previous_def recovery_snapshot_def bindr_eq_Inr Let_def split: if_splits)
  then show ?thesis using blobs(1) [of n] blobs(2) [of k] plan hplan by (auto simp: all_segments_def segment_blobs_append segment_blobs_def [of _ "[]"])
qed

text \<open>The blobs of every phase of the publication are the known ones.\<close>

fun wit_phase :: "publish_phase \<Rightarrow> bool" where
  "wit_phase (FirstPass (PassStart previous)) \<longleftrightarrow> previous = None"
| "wit_phase (RetryPass (PassStart previous)) \<longleftrightarrow> previous = None"
| "wit_phase ph \<longleftrightarrow> phase_blobs wit_digest ph \<subseteq> set wit_pass_blobs"

lemma wit_phase_blobs: "wit_phase ph \<Longrightarrow> phase_blobs wit_digest ph \<subseteq> set wit_pass_blobs"
  by (cases ph rule: wit_phase.cases) auto

definition wit_pass :: "pass_phase \<Rightarrow> bool" where
  "wit_pass ph = wit_phase (FirstPass ph)"

lemma wit_pass_step:
  assumes "wit_pass ph" and "ts_db (pn_tx y) = wit_published_db" and "mem_pass wit_digest name v (ph, y) = (ph', y')"
  shows "wit_pass ph' \<and> pn_tx y' = pn_tx y"
proof (cases ph)
  case (PassStart previous)
  then show ?thesis using assms wit_plan_blobs [OF assms(2)]
    by (auto simp: wit_pass_def mem_pass_def pass_step_def split: sum.splits prod.splits)
next
  case (PassUpload w u)
  then show ?thesis using assms
    by (auto simp: wit_pass_def mem_pass_def pass_step_def split: sum.splits prod.splits if_splits)
next
  case (PassPublish w u root sw)
  then show ?thesis using assms
    by (auto simp: wit_pass_def mem_pass_def pass_step_def pass_finish_def Let_def split: sum.splits prod.splits if_splits phase.splits lease_result.splits)
qed (use assms in \<open>auto simp: wit_pass_def mem_pass_def pass_step_def\<close>)

lemma mem_publish_step:
  "mem_publish digest name v (FirstPass pass, y) = (case mem_pass digest name v (pass, y) of
     (pass', y') \<Rightarrow> (case pass' of
         PassDone (Inl e) \<Rightarrow> (PublishDone (Inl e), y')
       | PassDone (Inr (PassPublished root)) \<Rightarrow> (PublishDone (Inr root), y')
       | PassDone (Inr PassRaced) \<Rightarrow> (RetryPass (PassStart None), y')
       | _ \<Rightarrow> (FirstPass pass', y')))"
  "mem_publish digest name v (RetryPass pass, y) = (case mem_pass digest name v (pass, y) of
     (pass', y') \<Rightarrow> (case pass' of
         PassDone (Inl e) \<Rightarrow> (PublishDone (Inl e), y')
       | PassDone (Inr (PassPublished root)) \<Rightarrow> (PublishDone (Inr root), y')
       | _ \<Rightarrow> (RetryPass pass', y')))"
  by (simp_all add: mem_publish_def mem_pass_def publish_indexes_step_def split: prod.split pass_phase.split sum.split pass_outcome.split)

lemma wit_publish_step:
  assumes "wit_phase ph" and "ts_db (pn_tx y) = wit_published_db" and "mem_publish wit_digest name v (ph, y) = (ph', y')"
  shows "wit_phase ph' \<and> pn_tx y' = pn_tx y"
proof -
  have phase: "wit_phase (FirstPass p) = wit_pass p" "wit_phase (RetryPass p) = wit_pass p" for p
    by (cases p; simp add: wit_pass_def)+
  show ?thesis
  proof (cases ph)
    case (FirstPass pass)
    obtain pass' y\<^sub>1 where step: "mem_pass wit_digest name v (pass, y) = (pass', y\<^sub>1)" by fastforce
    with wit_pass_step [OF _ assms(2) step] assms(1) FirstPass have "wit_pass pass'" "pn_tx y\<^sub>1 = pn_tx y" by (simp_all add: phase)
    with assms(3) show ?thesis unfolding FirstPass mem_publish_step step
      by (cases pass'; simp add: phase split: sum.splits pass_outcome.splits) (auto simp: wit_pass_def)
  next
    case (RetryPass pass)
    obtain pass' y\<^sub>1 where step: "mem_pass wit_digest name v (pass, y) = (pass', y\<^sub>1)" by fastforce
    with wit_pass_step [OF _ assms(2) step] assms(1) RetryPass have "wit_pass pass'" "pn_tx y\<^sub>1 = pn_tx y" by (simp_all add: phase)
    with assms(3) show ?thesis unfolding RetryPass mem_publish_step step
      by (cases pass'; simp add: phase split: sum.splits pass_outcome.splits) (auto simp: wit_pass_def)
  qed (use assms in \<open>auto simp: mem_publish_def publish_indexes_step_def\<close>)
qed

lemma wit_publish_run:
  "wit_phase (fst ((mem_publish wit_digest name v ^^ i) (publish_begin wit_publication))) \<and>
   pn_tx (snd ((mem_publish wit_digest name v ^^ i) (publish_begin wit_publication))) = pn_tx wit_publication"
proof (induction i)
  case (Suc i)
  have "ts_db (pn_tx wit_publication) = wit_published_db" by (simp add: wit_publication_def state_after_replay_def)
  with Suc have "ts_db (pn_tx (snd ((mem_publish wit_digest name v ^^ i) (publish_begin wit_publication)))) = wit_published_db" by simp
  from wit_publish_step [OF conjunct1 [OF Suc] this, of name v] Suc show ?case by (metis comp_apply funpow.simps(2) prod.collapse)
qed (simp add: publish_begin_def wit_publication_def)

theorem published_root_reads_back_witness:
  "\<exists>n root st. (mem_publish wit_digest ''db:corium'' 1 ^^ n) (publish_begin wit_publication) = (PublishDone (Inr root), st) \<and>
    indexes_read (mem_get (pn_store st)) root wit_published_db"
proof -
  let ?name = "''db:corium''" and ?y = wit_publication
  have none: "mem_roots (pn_store ?y) ?name = None" by (simp add: wit_publication_def memory_new_def mem_roots_def)
  obtain k r y' where "(mem_pass wit_digest ?name 1 ^^ k) (PassStart (pn_published ?y), ?y\<lparr>pn_published := None\<rparr>) = (PassDone (pass_result r), y')"
      "mem_outcome ?name 1 (?y\<lparr>pn_published := None\<rparr>) r"
    using mem_pass_ends by blast
  moreover from this(2) none obtain root where "r = Inr root" by (cases r) (auto simp: mem_outcome_def)
  ultimately obtain n where "(mem_publish wit_digest ?name 1 ^^ n) (publish_begin ?y) = (PublishDone (Inr root), y')"
    unfolding publish_begin_def using mem_publish_pass by blast
  from mem_publish_last [OF this] obtain m ph st where last: "(mem_publish wit_digest ?name 1 ^^ m) (publish_begin ?y) = (ph, st)"
      "\<forall>q. ph \<noteq> PublishDone q" "mem_publish wit_digest ?name 1 (ph, st) = (PublishDone (Inr root), y')"
    by blast
  have "phase_blobs wit_digest (fst ((mem_publish wit_digest ?name 1 ^^ i) (publish_begin ?y))) \<subseteq> set wit_pass_blobs" for i
    using wit_publish_run wit_phase_blobs by blast
  from mem_publish_run [where n = m and v\<^sub>0 = 1, OF this] obtain touched where run:
    "(publishing_step wit_digest (set wit_pass_blobs) mem_get (mem_put wit_digest) mem_content mem_get_root mem_cas_root mem_roots ?name)\<^sup>*\<^sup>*
      \<lparr>pb_phase = None, pb_version = 1, pb_state = ?y, pb_touched = {}\<rparr>
      \<lparr>pb_phase = Some ph, pb_version = 1, pb_state = st, pb_touched = touched\<rparr>"
    unfolding last(1) by auto
  have "store_inv wit_digest (set wit_pass_blobs) mem_content mem_roots ?name {} (pn_store ?y)"
    by (simp add: wit_publication_def memory_new_def store_inv_def addressed_def mem_content_def mem_roots_def stored_ok_def)
  moreover have "db_ok (ts_db (pn_tx ?y))"
    using wit_published_db_simps wit_key_fits by (simp add: db_ok_def wit_publication_def state_after_replay_def)
  moreover have "pn_published ?y = None" by (simp add: wit_publication_def)
  ultimately have "indexes_read (mem_get (pn_store y')) root (ts_db (pn_tx y'))"
    using published_root_reads_back [OF wit_digest_ok _ _ _ run] last(2,3) by (auto simp: mem_publish_def)
  moreover have "ts_db (pn_tx y') = wit_published_db"
    using wit_publish_run [where name = ?name and v = 1 and i = "Suc m"] last by (simp add: wit_publication_def state_after_replay_def)
  moreover have "(mem_publish wit_digest ?name 1 ^^ Suc m) (publish_begin ?y) = (PublishDone (Inr root), y')" using last by simp
  ultimately show ?thesis by metis
qed

subsection \<open>Commits of the transactor\<close>

text \<open>What a commit records: datoms of its own transaction, none of which alters the schema.\<close>

definition commit_ok :: "tx_id \<Rightarrow> datom list \<Rightarrow> bool" where
  "commit_ok tx ds \<longleftrightarrow> (\<forall>x \<in> set ds. d_tx x = tx) \<and> naming_only ds \<and> schema_placed ds"

lemma commit_ok_append: "commit_ok tx (xs @ ys) \<longleftrightarrow> commit_ok tx xs \<and> commit_ok tx ys"
  by (auto simp: commit_ok_def naming_only_def schema_placed_def)

lemma grant_facts_ok: "commit_ok tx (grant_facts tx saga grant start)"
  by (simp add: commit_ok_def naming_only_def schema_placed_def grant_facts_def fact_datom_def is_schema_attribute_def engine_ids)

lemma lease_saga_grants_ok:
  assumes "commit_ok tx ds"
  shows "commit_ok tx (fst (lease_saga_grants before ds tx n))"
  unfolding lease_saga_grants_def Let_def
  by (rule fold_invariant [where P = "\<lambda>(ds, n). commit_ok tx ds", simplified case_prod_beta])
    (simp_all add: assms grant_step_def case_prod_beta Let_def commit_ok_append grant_facts_ok)

lemma prepare_commit_ok:
  assumes "db_wf d" and "db_view d = Current" and "prepare d items tx seq = Inr p"
    and "tx_fits d tx (length (concat (map expand_item items)))"
  shows "commit_ok tx (pt_datoms p)"
proof -
  obtain w i where run: "run_ops d (pt_tempids p) tx (concat (map expand_item items)) ([], d, False) = Inr (pt_datoms p, w, i)"
    using prepare_Inr(1) [OF assms(3)] by blast
  have "run_inv d tx 0 (pt_datoms p, w, i)"
    by (rule run_ops_inv [OF _ run]) (use run_inv_start [OF assms(1,2)] assms(4) in simp)
  then have "\<forall>x \<in> set (pt_datoms p). datom_admitted d tx x" by (simp add: run_inv_def)
  then show ?thesis using admitted_naming_only by (simp add: commit_ok_def datom_admitted_def)
qed

lemma seal_commit_ok:
  assumes "commit_ok (tx_entity t) ds" and "seal_tx_instant ds t now last_instant = Inr (ds', i)"
  shows "commit_ok (tx_entity t) ds'"
proof -
  have "commit_ok (tx_entity t) [tx_instant_datom t k]" for k
    by (simp add: commit_ok_def naming_only_def schema_placed_def tx_instant_datom_def is_schema_attribute_def engine_ids)
  then show ?thesis using assms by (auto simp: seal_tx_instant_def Let_def commit_ok_append split: option.splits if_splits)
qed

lemma plan_commit_ok:
  assumes "plan_commit now items st = Inr plan" and "db_wf (ts_db st)" and "db_view (ts_db st) = Current"
    and "unat (db_basis_t (ts_db st)) + 1 + length (concat (map expand_item items)) < 2 ^ 42"
  shows "cp_before plan = ts_db st" and "cp_t plan = db_basis_t (ts_db st) + 1" and "commit_ok (tx_entity (cp_t plan)) (pt_datoms (cp_tx plan))"
    and "asserted_instant (cp_t plan) (pt_datoms (cp_tx plan)) = Some (cp_instant plan)"
proof -
  let ?t = "db_basis_t (ts_db st) + 1"
  obtain p p' n millis ds i where plan: "prepare (ts_db st) items (tx_entity ?t) (ts_next_user st) = Inr p"
      "advance_allocation (ts_db st) p (tx_entity ?t) (ts_next_user st) = (p', n)"
      "seal_tx_instant (pt_datoms p') ?t millis (ts_last_instant st) = Inr (ds, i)"
      "plan = \<lparr>cp_before = ts_db st, cp_tx = p'\<lparr>pt_datoms := ds\<rparr>, cp_t = ?t, cp_instant = i, cp_next_user = n\<rparr>"
  proof -
    obtain p where p: "prepare (ts_db st) items (tx_entity ?t) (ts_next_user st) = Inr p"
      using assms(1) by (auto simp: plan_commit_def Let_def split: if_splits sum.splits)
    obtain p' n where a: "advance_allocation (ts_db st) p (tx_entity ?t) (ts_next_user st) = (p', n)" by fastforce
    obtain millis where "clock_millis now = Inr millis"
        "(case seal_tx_instant (pt_datoms p') ?t millis (ts_last_instant st) of Inl e \<Rightarrow> Inl (TxRejected e)
          | Inr (ds, i) \<Rightarrow> Inr \<lparr>cp_before = ts_db st, cp_tx = p'\<lparr>pt_datoms := ds\<rparr>, cp_t = ?t, cp_instant = i, cp_next_user = n\<rparr>) = Inr plan"
      using assms(1) p a by (auto simp: plan_commit_def Let_def bindr_eq_Inr split: if_splits)
    with p a show thesis by (auto split: sum.splits prod.splits intro: that)
  qed
  show "cp_before plan = ts_db st" "cp_t plan = ?t" by (simp_all add: plan(4))
  have t: "unat ?t = Suc (unat (db_basis_t (ts_db st)))" using assms(4) by (simp add: unat_word_ariths)
  then have "tx_fits (ts_db st) (tx_entity ?t) (length (concat (map expand_item items)))"
    using assms(4) by (simp add: tx_fits_def eid_sequence_tx_entity word_less_nat_alt)
  from lease_saga_grants_ok [OF prepare_commit_ok [OF assms(2,3) plan(1) this]]
  have "commit_ok (tx_entity ?t) (pt_datoms p')" using plan(2)
    by (auto simp: advance_allocation_def Let_def case_prod_beta)
  from seal_commit_ok [OF this plan(3)] show "commit_ok (tx_entity (cp_t plan)) (pt_datoms (cp_tx plan))" by (simp add: plan(4))
  show "asserted_instant (cp_t plan) (pt_datoms (cp_tx plan)) = Some (cp_instant plan)"
    using seal_sealed(1) [OF plan(3)] by (simp add: plan(4))
qed

text \<open>A committed transaction is one of the steps a publication may be interleaved with.\<close>

lemma transact_extends:
  assumes "transact app now items (log, st) = (Inr report, log', st')" and "db_ok (ts_db st)"
    and "unat (db_basis_t (ts_db st)) + 1 + length (concat (map expand_item items)) < 2 ^ 42"
    and "\<And>x order. x \<in> set (pt_datoms (rp_tx report)) \<Longrightarrow> key_fits (datom_key x order)"
  shows "db_extends (ts_db st) (ts_db st')"
proof -
  let ?d = "ts_db st"
  have d: "db_wf ?d" "db_view ?d = Current" using assms(2) by (simp_all add: db_ok_def)
  obtain plan where plan: "plan_commit now items st = Inr plan" "rp_tx report = cp_tx plan"
      "ts_db st' = with_transaction_at (cp_t plan) (cp_instant plan) (pt_datoms (cp_tx plan)) (cp_before plan)"
    using assms(1) by (auto simp: transact_def Let_def split: sum.splits prod.splits)
  note ok = plan_commit_ok [OF plan(1) d assms(3)]
  let ?t = "db_basis_t ?d + 1" and ?ds = "pt_datoms (cp_tx plan)"
  have t: "unat ?t = Suc (unat (db_basis_t ?d))" using assms(3) by (simp add: unat_word_ariths)
  have seq: "eid_sequence (d_tx x) = ?t" if "x \<in> set ?ds" for x
    using ok(2,3) that t assms(3) by (simp add: commit_ok_def eid_sequence_tx_entity)
  have order: "db_basis_t ?d < ?t" "unat ?t < 2 ^ 42" using t assms(3) by (simp_all add: word_less_nat_alt)
  have "tx_bounded ?t ?ds" using order(1) by (auto simp: tx_bounded_def seq word_less_nat_alt t)
  then have "applies ?t ?ds ?d"
    using d(2) ok(3) order(1) by (simp add: applies_def commit_ok_def)
  then have wf: "db_wf (apply_transaction ?t ?ds ?d)" by (rule db_wf_apply_transaction [OF d(1)])
  have after: "ts_db st' = record_instant ?t (cp_instant plan) (apply_transaction ?t ?ds ?d)"
    using plan(3) ok by (simp add: with_transaction_at_def)
  have schema: "db_schema (apply_transaction ?t ?ds ?d) = db_schema ?d"
    using derive_naming_only [of ?ds] ok(3) by (simp add: apply_transaction_schema commit_ok_def)
  have recorded: "db_recorded (ts_db st') = db_recorded ?d @ ?ds" "db_basis_t (ts_db st') = ?t" "db_schema (ts_db st') = db_schema ?d"
    using schema by (simp_all add: after record_instant_def)
  have "db_ok (ts_db st')"
  proof -
    have "db_wf (ts_db st')" unfolding after db_wf_record_instant by (rule wf)
    then show ?thesis using assms(2,4) recorded(1) d(2) plan(2) by (auto simp: db_ok_def) (simp add: after record_instant_def)
  qed
  then show ?thesis using recorded seq order by (auto simp: db_extends_def)
qed

end
