(* ===== verification/Publication_Recovery.thy ===== *)
theory Publication_Recovery
  imports Publication_Run
begin

text \<open>
  Opening a database from a published root (\<open>recover_transactor\<close> and \<open>load_history_snapshot\<close> of
  crates/corium-transactor/src/node.rs): the recovered database is the published one where no transaction
  asserts a fact and then retracts it, and what happens where one does; and a pass that folds over a schema
  change.
\<close>

subsection \<open>Folding over a schema change\<close>

lemma datom_key_same:
  assumes "datom_key x order = datom_key y order"
  shows "d_fact x = d_fact y" and "eid_sequence (d_tx x) = eid_sequence (d_tx y)"
proof -
  show fact: "d_fact x = d_fact y" using assms by (metis key_components_eq_iff)
  have "u64_to_be_bytes (tx_added_word (d_tx x) (d_added x)) = u64_to_be_bytes (tx_added_word (d_tx y) (d_added y))"
    using assms fact by (simp add: datom_key_def encode_tx_added_def)
  then have w: "tx_added_word (d_tx x) (d_added x) = tx_added_word (d_tx y) (d_added y)" by (metis u64_from_to_be_bytes)
  have "bit (d_tx x) i = bit (d_tx y) i" if "i < 42" for i
  proof -
    have "bit (tx_added_word (d_tx x) (d_added x)) (Suc i) = bit (tx_added_word (d_tx y) (d_added y)) (Suc i)" using w by simp
    then show ?thesis using that
      unfolding tx_added_word_def bit_or_iff bit_push_bit_iff by (simp add: bit_of_bool_iff)
  qed
  then show "eid_sequence (d_tx x) = eid_sequence (d_tx y)"
    by (intro bit_word_eqI) (auto simp: eid_sequence_def SEQUENCE_MASK_mask bit_and_iff bit_mask_iff)
qed

lemma current_fold_keys:
  "set (om_values (current_fold order ds m)) \<subseteq> set (om_values m) \<union> (\<lambda>x. datom_key x order) ` set ds"
proof (induction ds rule: rev_induct)
  case (snoc x ds)
  have "set (om_values (current_step order x m')) \<subseteq> insert (datom_key x order) (set (om_values m'))" for m'
    by (auto simp: current_step_def Let_def om_values_iff split: if_splits)
  then show ?case using snoc by (fastforce simp: current_fold_def)
qed (simp add: current_fold_def)

lemma seg_apply_keys:
  assumes "seg_current s ds order seg"
  shows "set (seg_keys (fst (seg_apply n seg order tail))) \<subseteq> set (seg_keys seg) \<union> (\<lambda>x. datom_key x order) ` set tail"
proof -
  have sorted: "sorted_wrt (<) (map key_components (seg_keys seg))"
    using assms current_keys_sorted [of s ds order] by (simp add: seg_current_def)
  have "seg_keys (fst (seg_apply n seg order tail)) = om_values (current_fold order tail (seg_facts seg))"
    using seg_facts_apply [OF sorted] seg_keys_facts [OF seg_apply_sorted [OF sorted]] by metis
  then show ?thesis using current_fold_keys [of order tail "seg_facts seg"] seg_keys_facts [OF sorted] by simp
qed

lemma plan_indexes_slot:
  "slot < 4 \<Longrightarrow> \<exists>m. fst (plan_indexes d previous n) ! slot = (case previous of
      Some p \<Rightarrow> fst (seg_apply m (pu_segments p ! slot) (ORDERS ! slot) (filter (covered (db_schema d) (ORDERS ! slot)) (recorded_since d (pu_basis_t p))))
    | None \<Rightarrow> fst (from_sorted m (ORDERS ! slot) (datoms_at d (ORDERS ! slot))))"
  by (cases previous) (auto simp: plan_indexes_def ORDERS_def plan_index_step_def less_Suc_eq eval_nat_numeral Let_def case_prod_beta)

text \<open>C37. A pass that folds the log tail into the last publication does so under the schema of the present and has no other way to tell
  that the schema changed: when an attribute gains AVET coverage after a publication, a fact stated before it is in the
  AVET index of the database, and a rebuild publishes it there, but the folding pass, which takes the last publication as usable, publishes
  an AVET index that lacks it.\<close>

theorem fold_misses_backfill:
  assumes "db_wf d" and "db_view d = Current" and "db_wf d'" and "db_view d' = Current"
    and "db_recorded d' = db_recorded d @ tail" and "\<forall>y \<in> set tail. db_basis_t d < eid_sequence (d_tx y)" and "db_basis_t d \<le> db_basis_t d'"
    and "pu_segments p = fst (plan_indexes d None n)" and "pu_basis_t p = db_basis_t d"
    and "x \<in> set (db_recorded d)" and "is_live (db_recorded d') x" and "\<not> covered (db_schema d) Avet x" and "covered (db_schema d') Avet x"
    and "ts_db st = d'" and "Option.bind bytes root_decode = Some root" and "is_current p (Some root) v"
    and "pass_plan v (Some p) bytes st n' = Inr (w, u, m)"
  shows "x \<in> set (datoms_at d' Avet) \<and> datom_key x Avet \<in> set (seg_keys (fst (plan_indexes d' None n') ! 2)) \<and>
    datom_key x Avet \<notin> set (seg_keys (pw_segments w ! 2))"
proof -
  have slot: "2 < (4::nat)" "ORDERS ! 2 = Avet" by (simp_all add: ORDERS_def)
  have shown: "x \<in> set (datoms_at d' Avet)"
    using assms(11,13) by (auto simp: datoms_at_current [OF assms(3,4)] om_values_iff current_indexes_get upto_t_def)
  then have "datom_key x Avet \<in> set (seg_keys (fst (plan_indexes d' None n') ! 2))"
    using plan_indexes_slot [OF slot(1), of d' None n'] by (auto simp: slot(2))
  moreover have "datom_key x Avet \<notin> set (seg_keys (pw_segments w ! 2))"
  proof
    assume planned: "datom_key x Avet \<in> set (seg_keys (pw_segments w ! 2))"
    have "pw_segments w = fst (plan_indexes d' (Some p) n')"
      using assms(7,9,14-17) by (auto simp: pass_plan_def usable_previous_def recovery_snapshot_def bindr_eq_Inr Let_def is_current_def split: if_splits prod.splits)
    then obtain k where k: "pw_segments w ! 2 = fst (seg_apply k (pu_segments p ! 2) Avet (filter (covered (db_schema d') Avet) (recorded_since d' (db_basis_t d))))"
      using plan_indexes_slot [OF slot(1), of d' "Some p" n'] assms(9) by (auto simp: slot(2))
    have old: "seg_current (db_schema d) (db_recorded d) Avet (pu_segments p ! 2)"
      using plan_indexes_slot [OF slot(1), of d None n] seg_current_rebuild datoms_at_current [OF assms(1,2)] assms(8) by (auto simp: slot(2))
    then have "datom_key x Avet \<notin> set (seg_keys (pu_segments p ! 2))"
      using assms(12) by (auto simp: seg_current_def current_keys_def om_values_iff current_indexes_get d_fact_def dest!: datom_key_same(1))
    moreover have "datom_key x Avet \<notin> (\<lambda>x. datom_key x Avet) ` set (recorded_since d' (db_basis_t d))"
    proof
      assume "datom_key x Avet \<in> (\<lambda>x. datom_key x Avet) ` set (recorded_since d' (db_basis_t d))"
      then obtain y where "eid_sequence (d_tx x) = eid_sequence (d_tx y)" "y \<in> set (recorded_since d' (db_basis_t d))"
        using datom_key_same(2) by blast
      moreover have "db_basis_t d < eid_sequence (d_tx y)" if "y \<in> set (recorded_since d' (db_basis_t d))" for y
        using that set_takeWhileD by (fastforce simp: recorded_since_def)
      moreover have "eid_sequence (d_tx x) \<le> db_basis_t d" using assms(1,10) by (auto simp: db_wf_def tx_bounded_def)
      ultimately show False by fastforce
    qed
    ultimately show False using planned seg_apply_keys [OF old, of k "filter (covered (db_schema d') Avet) (recorded_since d' (db_basis_t d))"]
      unfolding k by auto
  qed
  ultimately show ?thesis using shown by blast
qed

definition wit_index_datom :: datom where
  "wit_index_datom = \<lparr>d_e = 70, d_a = INDEX, d_v = Bool True, d_tx = tx_entity 2, d_added = True\<rparr>"

definition wit_plain_db :: db where
  "wit_plain_db = apply_transaction 1 [wit_datom 9 5 1 True]
     (db_default\<lparr>db_schema := schema_insert (wit_attr\<lparr>at_indexed := False\<rparr>) schema_default\<rparr>)"

definition wit_reindexed_db :: db where
  "wit_reindexed_db = apply_transaction 2 [wit_index_datom] wit_plain_db"

definition wit_last_publication :: published_indexes where
  "wit_last_publication = \<lparr>pu_lease_version = 1, pu_basis_t = 1, pu_segments = fst (plan_indexes wit_plain_db None 0), pu_history_segments = None,
     pu_manifests = (wit_hex 0, wit_hex 1, wit_hex 2, wit_hex 3), pu_history_manifests = None,
     pu_chunks = replicate 4 om_empty, pu_history_chunks = None\<rparr>"

definition wit_last_root :: db_root where
  "wit_last_root = \<lparr>r_format_version = FORMAT_VERSION, r_lease_version = 1, r_owner = [], r_lease_expires = 0,
     r_owner_endpoint = [], r_index_basis_t = 1, r_roots = Some (wit_hex 0, wit_hex 1, wit_hex 2, wit_hex 3),
     r_history_roots = None, r_next_entity_id = FIRST_USER_ID, r_last_tx_instant = 0, r_key_manifest_version = 0\<rparr>"

lemma wit_plain_db_simps:
  "db_wf wit_plain_db" "db_view wit_plain_db = Current" "db_basis_t wit_plain_db = 1" "db_recorded wit_plain_db = [wit_datom 9 5 1 True]"
proof -
  have "db_wf (db_default\<lparr>db_schema := schema_insert (wit_attr\<lparr>at_indexed := False\<rparr>) schema_default\<rparr>)"
    by (simp add: db_wf_def db_default_def tx_bounded_def schema_wf_insert schema_wf_default wit_attr_def)
  then show "db_wf wit_plain_db" unfolding wit_plain_db_def
    by (rule db_wf_apply_transaction)
      (simp_all add: db_default_def applies_def tx_bounded_def schema_placed_def wit_datom_def eid_sequence_tx_entity_small is_schema_attribute_def engine_ids)
qed (simp_all add: wit_plain_db_def db_default_def)

lemma wit_plain_schema: "schema_get (db_schema wit_plain_db) 70 = Some (wit_attr\<lparr>at_indexed := False\<rparr>)"
  by (simp add: wit_plain_db_def apply_transaction_schema touches_naming_def wit_datom_def is_schema_attribute_def engine_ids db_default_def
      schema_get_def schema_insert_def wit_attr_def)

lemma wit_reindexed_schema: "covered (db_schema wit_reindexed_db) Avet (wit_datom 9 5 1 True)"
proof -
  have "om_entries (final_values [wit_index_datom]) = [((70, INDEX), Some (Bool True))]"
    by (simp add: final_values_def final_step_def wit_index_datom_def is_schema_attribute_def engine_ids)
  then show ?thesis using wit_plain_schema
    by (simp add: wit_reindexed_db_def apply_transaction_schema touches_naming_def derive_def derive_attr_def derive_record_def derive_beside_def
      wit_index_datom_def is_schema_attribute_def engine_ids avet_covered_def wit_datom_def schema_get_def schema_insert_def wit_attr_def)
qed

lemma wit_reindexed_db_simps:
  "db_wf wit_reindexed_db" "db_view wit_reindexed_db = Current" "db_basis_t wit_reindexed_db = 2"
  "db_recorded wit_reindexed_db = db_recorded wit_plain_db @ [wit_index_datom]"
proof -
  show "db_wf wit_reindexed_db" unfolding wit_reindexed_db_def
    by (rule db_wf_apply_transaction [OF wit_plain_db_simps(1)])
      (simp add: wit_plain_db_simps applies_def tx_bounded_def schema_placed_def wit_index_datom_def eid_sequence_tx_entity_small is_schema_attribute_def engine_ids eid_partition_def SEQUENCE_BITS_def)
qed (simp_all add: wit_reindexed_db_def wit_plain_db_simps)

lemma wit_reindexed_live: "is_live (db_recorded wit_reindexed_db) (wit_datom 9 5 1 True)"
  by (simp add: wit_reindexed_db_simps wit_plain_db_simps is_live_Cons) (simp add: wit_index_datom_def d_fact_def)

lemma wit_last_root_decode: "Option.bind (Some (root_encode wit_last_root)) root_decode = Some wit_last_root"
proof -
  have "root_wf wit_last_root"
    using wit_hex_from_hex by (simp add: root_wf_def wit_last_root_def field_ok_def line_safe_def valid_str_def utf8_valid_ascii)
  then show ?thesis by (simp add: root_decode_encode)
qed

theorem fold_misses_backfill_witness:
  "wit_datom 9 5 1 True \<in> set (datoms_at wit_reindexed_db Avet) \<and>
   (\<exists>w u m. pass_plan 1 (Some wit_last_publication) (Some (root_encode wit_last_root)) (state_after_replay wit_reindexed_db FIRST_USER_ID 0) 9 = Inr (w, u, m) \<and>
     datom_key (wit_datom 9 5 1 True) Avet \<notin> set (seg_keys (pw_segments w ! 2)))"
proof -
  let ?st = "state_after_replay wit_reindexed_db FIRST_USER_ID 0" and ?p = wit_last_publication and ?x = "wit_datom 9 5 1 True"
  have current: "is_current ?p (Some wit_last_root) 1" by (simp add: is_current_def wit_last_publication_def wit_last_root_def)
  have "\<nexists>e. pass_plan 1 (Some ?p) (Some (root_encode wit_last_root)) ?st 9 = Inl e"
    unfolding pass_plan_deposed wit_last_root_decode by (simp add: wit_last_root_def)
  then obtain w u m where plan: "pass_plan 1 (Some ?p) (Some (root_encode wit_last_root)) ?st 9 = Inr (w, u, m)"
    by (metis old.sum.exhaust prod_cases3)
  have "db_recorded wit_reindexed_db = db_recorded wit_plain_db @ [wit_index_datom]" by (simp add: wit_reindexed_db_simps)
  from fold_misses_backfill [OF wit_plain_db_simps(1,2) wit_reindexed_db_simps(1,2) this _ _ _ _ _ wit_reindexed_live _ wit_reindexed_schema _ wit_last_root_decode current plan, of 0]
  show ?thesis using plan wit_plain_schema
    by (auto simp: wit_plain_db_simps wit_reindexed_db_simps wit_index_datom_def eid_sequence_tx_entity_small wit_last_publication_def state_after_replay_def
        avet_covered_def wit_attr_def wit_datom_def [of 9 5 1 True])
qed

subsection \<open>Recovery from a published root\<close>

text \<open>The statements of every fact come in the order of their transactions, and a transaction that both retracts and asserts one retracts it first.\<close>

definition said_in_order :: "datom list \<Rightarrow> bool" where
  "said_in_order ds = sorted_wrt (\<lambda>x y. d_fact x = d_fact y \<longrightarrow> (d_tx x, d_added x) \<le> (d_tx y, d_added y)) ds"

lemma datom_eqI: "d_fact x = d_fact y \<Longrightarrow> d_tx x = d_tx y \<Longrightarrow> d_added x = d_added y \<Longrightarrow> x = y"
  by (simp add: d_fact_def)

lemma is_live_max:
  assumes "said_in_order ds"
  shows "is_live ds x \<longleftrightarrow> x \<in> set ds \<and> d_added x \<and> (\<forall>y \<in> set ds. d_fact y = d_fact x \<longrightarrow> (d_tx y, d_added y) \<le> (d_tx x, d_added x))"
proof
  assume "is_live ds x"
  then obtain pre post where "ds = pre @ x # post" "d_added x" "\<forall>y \<in> set post. d_fact y \<noteq> d_fact x" by (auto simp: is_live_def)
  then show "x \<in> set ds \<and> d_added x \<and> (\<forall>y \<in> set ds. d_fact y = d_fact x \<longrightarrow> (d_tx y, d_added y) \<le> (d_tx x, d_added x))"
    using assms by (auto simp: said_in_order_def sorted_wrt_append)
next
  assume x: "x \<in> set ds \<and> d_added x \<and> (\<forall>y \<in> set ds. d_fact y = d_fact x \<longrightarrow> (d_tx y, d_added y) \<le> (d_tx x, d_added x))"
  then obtain pre z post where split: "ds = pre @ z # post" "d_fact z = d_fact x" "\<forall>y \<in> set post. d_fact y \<noteq> d_fact x"
    using split_list_last_prop [of ds "\<lambda>y. d_fact y = d_fact x"] by auto
  have "(d_tx x, d_added x) \<le> (d_tx z, d_added z)"
    using x split assms by (auto simp: said_in_order_def sorted_wrt_append)
  moreover have "(d_tx z, d_added z) \<le> (d_tx x, d_added x)" using x split by auto
  ultimately have "z = x" using split(2) by (intro datom_eqI) auto
  then show "is_live ds x" using split x by (auto simp: is_live_def)
qed

lemma said_in_order_filter: "said_in_order ds \<Longrightarrow> said_in_order (filter P ds)"
  by (simp add: said_in_order_def sorted_wrt_filter)

lemma said_in_order_keys:
  assumes "sorted_wrt (<) (map (\<lambda>x. datom_key x order) ds)" and "\<forall>x \<in> set ds. datom_wf x"
  shows "said_in_order ds"
  using assms
proof (induction ds)
  case (Cons x ds)
  have "(d_tx x, d_added x) \<le> (d_tx y, d_added y)" if "y \<in> set ds" "d_fact x = d_fact y" for y
  proof -
    have "datom_key x order < datom_key y order" using Cons.prems(1) that(1) by simp
    then have "datom_less order x y" using datom_key_less [of x y order] Cons.prems(2) that(1) by (simp add: datom_wf_def)
    then show ?thesis using that(2) using fact_enc.enc_order [of order "d_fact y" "d_fact y"] by (auto simp: datom_less_def)
  qed
  then show ?case using Cons by (simp add: said_in_order_def)
qed (simp add: said_in_order_def)

lemma datoms_of_keys_map: "\<forall>x \<in> set xs. datom_wf x \<Longrightarrow> datoms_of_keys (map (\<lambda>x. datom_key x Eavt) xs) = Inr xs"
  by (induction xs) (simp_all add: from_key_datom_key)

lemma keys_datoms:
  assumes "set keys = (\<lambda>x. datom_key x order) ` X" and "\<forall>x \<in> X. datom_wf x"
  obtains xs where "keys = map (\<lambda>x. datom_key x order) xs" and "set xs = X"
proof -
  have "keys \<in> lists ((\<lambda>x. datom_key x order) ` X)" using assms(1) by auto
  then obtain xs where xs: "xs \<in> lists X" "keys = map (\<lambda>x. datom_key x order) xs" unfolding lists_image by blast
  have "inj_on (\<lambda>x. datom_key x order) X" using assms(2) datom_key_inject by (auto simp: inj_on_def)
  then have "set xs = X" using xs assms(1) by (metis in_listsD inj_on_image_eq_iff list.set_map subsetI subset_refl)
  with xs(2) show thesis by (rule that)
qed

text \<open>What a snapshot holds: the retained statements, and the facts of attributes that keep no history.\<close>

definition snapshot_datoms :: "db \<Rightarrow> u64 \<Rightarrow> datom set" where
  "snapshot_datoms d t = history_at d t Eavt \<union> {x. is_live (at_basis d t) x \<and> no_history_attr (db_schema d) (d_a x)}"

lemma load_history_snapshot_ok:
  assumes "db_ok d" and "\<forall>x \<in> set (db_recorded d). datom_wf x" and "indexes_read get root d" and "install_schema s = db_schema d"
    and "r_roots root = Some roots" and "r_history_roots root = Some history_roots"
  obtains d' where "load_history_snapshot get root (fst roots) (fst history_roots) s ids i l = Inr d'"
    and "db_wf d'" and "db_view d' = Current" and "db_schema d' = db_schema d" and "db_basis_t d' = r_index_basis_t root" and "db_complete d'"
    and "said_in_order (db_recorded d')" and "set (db_recorded d') = snapshot_datoms d (r_index_basis_t root)"
proof -
  let ?t = "r_index_basis_t root" and ?key = "\<lambda>x. datom_key x Eavt"
  have d: "db_wf d" "db_view d = Current" using assms(1) by (simp_all add: db_ok_def)
  have first: "root_index (Some r) 0 = fst r" for r by (cases r) (simp add: root_index_def)
  have eavt: "ORDERS ! 0 = Eavt" by (simp add: ORDERS_def)
  let ?current = "datoms_at (as_of ?t d) Eavt"
  have "load_index_keys get (root_index (r_roots root) 0) = Inr (map (\<lambda>x. datom_key x (ORDERS ! 0)) (datoms_at (as_of ?t d) (ORDERS ! 0)))"
    and "\<exists>keys. load_index_keys get (root_index (r_history_roots root) 0) = Inr keys \<and>
        sorted_wrt (<) keys \<and> set keys = (\<lambda>x. datom_key x (ORDERS ! 0)) ` history_at d ?t (ORDERS ! 0)"
    using assms(3,6) unfolding indexes_read_def by auto
  then have current: "load_index_keys get (fst roots) = Inr (map ?key ?current)"
    and "\<exists>keys. load_index_keys get (fst history_roots) = Inr keys \<and> sorted_wrt (<) keys \<and> set keys = ?key ` history_at d ?t Eavt"
    unfolding eavt assms(5,6) first by simp_all
  then obtain keys where keys: "load_index_keys get (fst history_roots) = Inr keys" "sorted_wrt (<) keys" "set keys = ?key ` history_at d ?t Eavt" by blast
  have hist_wf: "\<forall>x \<in> history_at d ?t Eavt. datom_wf x" using assms(2) by (auto simp: history_at_def)
  obtain xs where xs: "keys = map ?key xs" "set xs = history_at d ?t Eavt" by (rule keys_datoms [OF keys(3) hist_wf])
  have live: "x \<in> set ?current \<longleftrightarrow> is_live (at_basis d ?t) x" for x
    by (simp add: current_index_as_of [OF d] om_values_iff current_indexes_get upto_t_def)
  have recorded: "x \<in> set (db_recorded d)" "eid_sequence (d_tx x) \<le> ?t" if "is_live (at_basis d ?t) x" for x
    using is_live_in [OF that] by (auto simp: at_basis_def)
  have "\<forall>x \<in> set ?current. datom_wf x" using live recorded(1) assms(2) by blast
  with current have c: "bindr (load_index_keys get (fst roots)) datoms_of_keys = Inr ?current" by (simp add: datoms_of_keys_map)
  have "\<forall>x \<in> set xs. datom_wf x" using xs(2) hist_wf by simp
  with keys(1) xs(1) have h: "bindr (load_index_keys get (fst history_roots)) datoms_of_keys = Inr xs" by (simp add: datoms_of_keys_map)
  define kept where "kept = filter (\<lambda>x. no_history_attr (db_schema d) (d_a x)) ?current"
  define d' where "d' = from_history_snapshot ?t (r_next_entity_id root) s ids i l xs ?current"
  have simps: "db_view d' = Current" "db_schema d' = db_schema d" "db_basis_t d' = ?t" "db_complete d'" "db_recorded d' = xs @ kept"
      "db_indexes d' = None" "db_stats d' = None"
    using assms(4) by (simp_all add: d'_def from_history_snapshot_def install_def kept_def no_history_attr_def Let_def)
  have set_recorded: "set (db_recorded d') = snapshot_datoms d ?t"
    using live by (auto simp: simps kept_def snapshot_datoms_def xs(2))
  have "tx_bounded ?t (db_recorded d')"
    using d(1) recorded unfolding tx_bounded_def set_recorded snapshot_datoms_def by (auto simp: history_at_def db_wf_def tx_bounded_def)
  then have wf: "db_wf d'" using d(1) by (simp add: db_wf_def simps)
  have "sorted_wrt (<) (map (component_key Eavt) ?current)"
    unfolding current_index_as_of [OF d] current_index_keys by (rule om_keys_ascending)
  then have "sorted_wrt (\<lambda>x y. component_key Eavt x < component_key Eavt y) kept"
    unfolding kept_def sorted_wrt_map by (rule sorted_wrt_filter)
  then have "said_in_order kept" unfolding said_in_order_def
    by (rule sorted_wrt_mono_rel [rotated]) (metis component_key_fact order_less_irrefl)
  moreover have "said_in_order xs" using keys(2) xs(1) \<open>\<forall>x \<in> set xs. datom_wf x\<close> by (intro said_in_order_keys) auto
  moreover have "d_fact x \<noteq> d_fact y" if "x \<in> set xs" "y \<in> set kept" for x y
  proof -
    have "x \<in> history_at d ?t Eavt" "no_history_attr (db_schema d) (d_a y)" using that xs(2) by (simp_all add: kept_def)
    then have "d_a x \<noteq> d_a y" unfolding history_at_def by fastforce
    then show ?thesis by (simp add: d_fact_def)
  qed
  ultimately have "said_in_order (db_recorded d')" unfolding simps said_in_order_def sorted_wrt_append by blast
  with wf simps set_recorded show thesis
    by (intro that [of d']) (simp_all add: load_history_snapshot_def c h d'_def)
qed

lemma recover_transactor_snapshot:
  "r_roots root = Some roots \<Longrightarrow> r_history_roots root = Some history_roots \<Longrightarrow> r_next_entity_id root \<noteq> 0 \<Longrightarrow>
    load_history_snapshot get root (fst roots) (fst history_roots) s ids i l = Inr d' \<Longrightarrow>
    recover_transactor get tail replayed s ids i l (Some root) = recover_from_snapshot tail d' (r_next_entity_id root) (r_last_tx_instant root)"
  by (simp add: recover_transactor_def Let_def)

lemma datoms_at_as_of:
  assumes "db_wf d" and "db_view d = Current"
  shows "x \<in> set (datoms_at (as_of t d) order) \<longleftrightarrow> is_live (at_basis d t) x \<and> covered (db_schema d) order x"
  by (auto simp: current_index_as_of [OF assms] om_values_iff current_indexes_get upto_t_def)

lemma at_basis_all: "tx_bounded t (db_recorded d) \<Longrightarrow> at_basis d t = db_recorded d"
  by (simp add: at_basis_def tx_bounded_def)

text \<open>C6. Opening a database from a published root gives the database that was published. Suppose that the indexes
  the root names read back, that the root names history indexes, that no transaction asserts a fact and then retracts it,
  and that the schema the database is opened with is the schema of the published one (no schema change since). Then recovery
  loads a snapshot and replays the log tail over it; the snapshot has the basis of the root, the same datoms in every
  index as the published database as of the basis, and the same history. Views of an earlier basis are the same for the
  attributes that keep history; for the others nothing is said of them.\<close>

theorem recovery_shows_published:
  assumes "db_ok d" and "\<forall>x \<in> set (db_recorded d). datom_wf x" and "said_in_order (db_recorded d)"
    and "indexes_read get root d" and "install_schema s = db_schema d"
    and "r_roots root = Some roots" and "r_history_roots root = Some history_roots" and "r_next_entity_id root \<noteq> 0"
  shows "\<exists>d'. recover_transactor get tail replayed s ids i l (Some root) = recover_from_snapshot tail d' (r_next_entity_id root) (r_last_tx_instant root) \<and>
    db_wf d' \<and> db_basis_t d' = r_index_basis_t root \<and>
    (\<forall>order. datoms_at d' order = datoms_at (as_of (r_index_basis_t root) d) order) \<and>
    (\<forall>order. set (datoms_at (history d') order) = history_at d (r_index_basis_t root) order) \<and>
    (\<forall>t order x. \<not> no_history_attr (db_schema d) (d_a x) \<longrightarrow>
       (x \<in> set (datoms_at (as_of t d') order) \<longleftrightarrow> x \<in> set (datoms_at (as_of (min t (r_index_basis_t root)) d) order)))"
proof -
  let ?t = "r_index_basis_t root"
  obtain d' where load: "load_history_snapshot get root (fst roots) (fst history_roots) s ids i l = Inr d'"
    and d': "db_wf d'" "db_view d' = Current" "db_schema d' = db_schema d" "db_basis_t d' = ?t"
    and order: "said_in_order (db_recorded d')" and recorded: "set (db_recorded d') = snapshot_datoms d ?t"
    by (rule load_history_snapshot_ok [OF assms(1,2,4-7)])
  have d: "db_wf d" "db_view d = Current" using assms(1) by (simp_all add: db_ok_def)
  have same: "is_live (at_basis d' t) x \<longleftrightarrow> is_live (at_basis d (min t ?t)) x" if hist: "\<not> no_history_attr (db_schema d) (d_a x)" for t x
  proof -
    have mem: "y \<in> set (at_basis d' t) \<longleftrightarrow> y \<in> set (at_basis d (min t ?t))" if "d_fact y = d_fact x" for y
    proof -
      have "\<not> no_history_attr (db_schema d) (d_a y)" using hist that by (simp add: d_fact_def)
      then show ?thesis by (auto simp: at_basis_def recorded snapshot_datoms_def history_at_def)
    qed
    have "said_in_order (at_basis d' t)" "said_in_order (at_basis d (min t ?t))"
      unfolding at_basis_def by (rule said_in_order_filter [OF order], rule said_in_order_filter [OF assms(3)])
    then show ?thesis using mem by (simp add: is_live_max) blast
  qed
  have kept: "is_live (db_recorded d') x \<longleftrightarrow> is_live (at_basis d ?t) x" if none: "no_history_attr (db_schema d) (d_a x)" for x
  proof -
    have mem: "y \<in> set (db_recorded d') \<longleftrightarrow> is_live (at_basis d ?t) y" if "d_fact y = d_fact x" for y
    proof -
      have "no_history_attr (db_schema d) (d_a y)" using none that by (simp add: d_fact_def)
      then show ?thesis by (auto simp: recorded snapshot_datoms_def history_at_def)
    qed
    show ?thesis unfolding is_live_max [OF order]
      using mem is_live_in [of "at_basis d ?t" x] is_live_unique [of "at_basis d ?t" x] by (metis order_refl)
  qed
  have live: "is_live (db_recorded d') x \<longleftrightarrow> is_live (at_basis d ?t) x" for x
    using kept same [of x ?t] at_basis_all [of ?t d'] d'(1,4) by (cases "no_history_attr (db_schema d) (d_a x)") (simp_all add: db_wf_def)
  have "datoms_at d' order = datoms_at (as_of ?t d) order" for order
  proof -
    have "current_index (db_schema d) (db_recorded d') order = current_index (db_schema d) (at_basis d ?t) order"
      by (rule om_eqI, rule option_eqI) (simp add: current_indexes_get upto_t_def live)
    then show ?thesis using datoms_at_current [OF d'(1,2)] by (simp add: current_index_as_of [OF d] d'(3))
  qed
  moreover have "set (datoms_at (history d') order) = history_at d ?t order" for order
  proof -
    have "\<forall>x \<in> set (db_recorded d'). unat (d_tx x) < 2 ^ 63"
      using assms(2) is_live_in unfolding recorded snapshot_datoms_def history_at_def by (fastforce simp: datom_wf_def at_basis_def)
    then show ?thesis
      using datoms_at_visible [OF db_wf_with_view [OF d'(1), of History], of order]
      by (auto simp: history_def visible_def recorded snapshot_datoms_def history_at_def d'(3))
  qed
  moreover have "x \<in> set (datoms_at (as_of t d') order) \<longleftrightarrow> x \<in> set (datoms_at (as_of (min t ?t) d) order)"
    if "\<not> no_history_attr (db_schema d) (d_a x)" for t order x
    using same [OF that] by (simp add: datoms_at_as_of d d')
  ultimately show ?thesis using recover_transactor_snapshot [OF assms(6-8) load] d' by blast
qed

text \<open>C36. Recovery from a published root can bring a retracted fact back. When the last transaction that speaks of a fact of an attribute with history
  asserts it and then retracts it, the published database does not show the fact; its history key with the retraction sorts before the key
  with the assertion, the snapshot records the statements in key order, and so the recovered database shows the fact.\<close>

theorem recovery_resurrects:
  assumes "db_ok d" and "\<forall>x \<in> set (db_recorded d). datom_wf x" and "indexes_read get root d" and "install_schema s = db_schema d"
    and "r_roots root = Some roots" and "r_history_roots root = Some history_roots" and "r_next_entity_id root \<noteq> 0"
    and "x \<in> set (db_recorded d)" and "y \<in> set (db_recorded d)" and "eid_sequence (d_tx x) \<le> r_index_basis_t root"
    and "d_fact y = d_fact x" and "d_tx y = d_tx x" and "d_added x" and "\<not> d_added y" and "\<not> no_history_attr (db_schema d) (d_a x)"
    and "\<forall>z \<in> set (db_recorded d). d_fact z = d_fact x \<longrightarrow> d_tx z \<le> d_tx x" and "\<not> is_live (at_basis d (r_index_basis_t root)) x"
  shows "\<exists>d'. recover_transactor get tail replayed s ids i l (Some root) = recover_from_snapshot tail d' (r_next_entity_id root) (r_last_tx_instant root) \<and>
    db_basis_t d' = r_index_basis_t root \<and> x \<in> set (datoms_at d' Eavt) \<and> x \<notin> set (datoms_at (as_of (r_index_basis_t root) d) Eavt)"
proof -
  let ?t = "r_index_basis_t root"
  obtain d' where load: "load_history_snapshot get root (fst roots) (fst history_roots) s ids i l = Inr d'"
    and d': "db_wf d'" "db_view d' = Current" "db_schema d' = db_schema d" "db_basis_t d' = ?t"
    and order: "said_in_order (db_recorded d')" and recorded: "set (db_recorded d') = snapshot_datoms d ?t"
    by (rule load_history_snapshot_ok [OF assms(1-6)])
  have d: "db_wf d" "db_view d = Current" using assms(1) by (simp_all add: db_ok_def)
  have "z \<in> set (db_recorded d)" if "z \<in> set (db_recorded d')" for z
    using that is_live_in [of "at_basis d ?t" z] by (auto simp: recorded snapshot_datoms_def history_at_def at_basis_def)
  then have "(d_tx z, d_added z) \<le> (d_tx x, d_added x)" if "z \<in> set (db_recorded d')" "d_fact z = d_fact x" for z
    using that assms(13,16) by auto
  moreover have "x \<in> set (db_recorded d')" using assms(8,10,15) by (simp add: recorded snapshot_datoms_def history_at_def)
  ultimately have "is_live (db_recorded d') x" using assms(13) by (simp add: is_live_max [OF order])
  then have "x \<in> set (datoms_at d' Eavt)" by (simp add: datoms_at_current [OF d'(1,2)] om_values_iff current_indexes_get upto_t_def)
  moreover have "x \<notin> set (datoms_at (as_of ?t d) Eavt)" using assms(17) by (simp add: datoms_at_as_of d)
  ultimately show ?thesis using recover_transactor_snapshot [OF assms(5-7) load] d'(4) by blast
qed

subsection \<open>Stored indexes\<close>

text \<open>The indexes of a database, each a manifest of one chunk.\<close>

definition wit_index_keys :: "db \<Rightarrow> nat \<Rightarrow> bytes list" where
  "wit_index_keys d n = (if n < 4 then current_keys (db_schema d) (db_recorded d) (ORDERS ! n)
     else history_keys (db_schema d) (db_recorded d) (ORDERS ! (n - 4)))"

definition wit_stored :: "db \<Rightarrow> blob_id \<Rightarrow> store_error + bytes option" where
  "wit_stored d = (\<lambda>i. Inr (map_of (map (\<lambda>n. (wit_hex n, if n < 8 then encode_index_manifest [wit_hex (n + 8)]
     else encode_segment_chunk (wit_index_keys d (n - 8)))) [0..<16]) i))"

definition wit_stored_root :: "db \<Rightarrow> db_root" where
  "wit_stored_root d = wit_last_root\<lparr>r_index_basis_t := db_basis_t d, r_history_roots := Some (wit_hex 4, wit_hex 5, wit_hex 6, wit_hex 7)\<rparr>"

lemma wit_stored_get:
  assumes "n < 16"
  shows "wit_stored d (wit_hex n) = Inr (Some (if n < 8 then encode_index_manifest [wit_hex (n + 8)] else encode_segment_chunk (wit_index_keys d (n - 8))))"
proof -
  have "distinct (map wit_hex [0..<16])" by (auto simp: distinct_map inj_on_def intro: wit_hex_inj)
  then show ?thesis using assms unfolding wit_stored_def
    by (auto simp: comp_def intro!: map_of_is_SomeI)
qed

lemma wit_stored_load:
  assumes "db_ok d" and "n < 8"
  shows "load_index_keys (wit_stored d) (wit_hex n) = Inr (wit_index_keys d n)"
proof -
  have "at_basis d (db_basis_t d) = db_recorded d" using assms(1) by (simp add: at_basis_all db_ok_def db_wf_def)
  then have fits: "list_all key_fits (wit_index_keys d n)" using current_keys_fit [OF assms(1), of "db_basis_t d"] by (simp add: wit_index_keys_def)
  have "index_blob_children (encode_index_manifest [wit_hex (n + 8)]) = Inr [wit_hex (n + 8)]"
    by (rule manifest_round_trip) (use wit_hex_from_hex assms(2) in simp)
  then have "decode_index_manifest (encode_index_manifest [wit_hex (n + 8)]) = Inr [wit_hex (n + 8)]"
    by (simp add: index_blob_children_def manifest_is_manifest)
  then show ?thesis using assms(2) wit_stored_get [of n d] wit_stored_get [of "n + 8" d] decode_encode_chunk [OF fits]
    by (simp add: load_index_keys_def manifest_is_manifest)
qed

lemma wit_stored_reads:
  assumes "db_ok d"
  shows "indexes_read (wit_stored d) (wit_stored_root d) d"
proof -
  have d: "db_wf d" "db_view d = Current" using assms by (simp_all add: db_ok_def)
  have basis: "at_basis d (db_basis_t d) = db_recorded d" using d(1) by (simp add: at_basis_all db_wf_def)
  have ids: "root_index (r_roots (wit_stored_root d)) slot = wit_hex slot"
      "root_index (r_history_roots (wit_stored_root d)) slot = wit_hex (slot + 4)" if "slot < 4" for slot
    using that by (auto simp: wit_stored_root_def wit_last_root_def root_index_def less_Suc_eq eval_nat_numeral)
  have current: "load_index_keys (wit_stored d) (wit_hex slot) = Inr (map (\<lambda>x. datom_key x (ORDERS ! slot)) (datoms_at (as_of (db_basis_t d) d) (ORDERS ! slot)))"
    if "slot < 4" for slot
    using that wit_stored_load [OF assms, of slot] by (simp add: wit_index_keys_def current_index_as_of [OF d] basis current_keys_def)
  have hist: "load_index_keys (wit_stored d) (wit_hex (slot + 4)) = Inr (wit_index_keys d (slot + 4))" "sorted_wrt (<) (wit_index_keys d (slot + 4))"
      "set (wit_index_keys d (slot + 4)) = (\<lambda>x. datom_key x (ORDERS ! slot)) ` history_at d (db_basis_t d) (ORDERS ! slot)" if "slot < 4" for slot
    using that d(1) by (auto simp: wit_stored_load [OF assms] wit_index_keys_def history_keys_sorted history_keys_set history_at_def db_wf_def tx_bounded_def)
  have t: "r_index_basis_t (wit_stored_root d) = db_basis_t d" by (simp add: wit_stored_root_def)
  show ?thesis
    unfolding indexes_read_def t
  proof (intro allI impI conjI)
    fix slot :: nat
    assume slot: "slot < 4"
    show "load_index_keys (wit_stored d) (root_index (r_roots (wit_stored_root d)) slot) =
        Inr (map (\<lambda>x. datom_key x (ORDERS ! slot)) (datoms_at (as_of (db_basis_t d) d) (ORDERS ! slot)))"
      unfolding ids(1) [OF slot] by (rule current [OF slot])
    show "\<exists>keys. load_index_keys (wit_stored d) (root_index (r_history_roots (wit_stored_root d)) slot) = Inr keys \<and>
        sorted_wrt (<) keys \<and> set keys = (\<lambda>x. datom_key x (ORDERS ! slot)) ` history_at d (db_basis_t d) (ORDERS ! slot)"
      unfolding ids(2) [OF slot] using hist [OF slot] by blast
  qed
qed

subsection \<open>A transaction that asserts and retracts\<close>

definition wit_base_schema :: schema where
  "wit_base_schema = schema_insert Tx_Prepare.wit_key schema_default"

definition wit_said :: "bool \<Rightarrow> datom" where
  "wit_said b = fact_datom (tx_entity 1) b (5, 101, Long 7)"

definition wit_flip_db :: db where
  "wit_flip_db = apply_transaction 1 [wit_said True, wit_said False] (db_new wit_base_schema)"

definition wit_kept_db :: db where
  "wit_kept_db = apply_transaction 1 [wit_said True] (db_new wit_base_schema)"

lemma wit_base_simps:
  "db_wf (db_new wit_base_schema)" "db_view (db_new wit_base_schema) = Current" "db_facts (db_new wit_base_schema) = {}"
  "db_schema (db_new wit_base_schema) = install_schema wit_base_schema" "schema_get (install_schema wit_base_schema) 101 = Some Tx_Prepare.wit_key"
  "db_basis_t (db_new wit_base_schema) = 0" "db_recorded (db_new wit_base_schema) = []"
  "\<not> is_retired (install_schema wit_base_schema) 101" "schema_protection (install_schema wit_base_schema) 101 = []"
proof -
  show "db_wf (db_new wit_base_schema)"
    by (rule db_wf_new) (simp add: wit_base_schema_def schema_wf_insert schema_wf_default Tx_Prepare.wit_key_def)
  show "schema_get (install_schema wit_base_schema) 101 = Some Tx_Prepare.wit_key"
    by (subst schema_get_install_user) (simp_all add: FIRST_ATTR_ID_def wit_base_schema_def schema_get_def schema_insert_def Tx_Prepare.wit_key_def)
qed (simp_all add: db_new_def db_default_def db_facts_def visible_def is_live_def is_retired_def schema_protection_def install_schema_more
    wit_base_schema_def schema_insert_def schema_default_def)

lemma wit_said_simps [simp]:
  "d_fact (wit_said b) = (5, 101, Long 7)" "d_added (wit_said b) = b" "d_tx (wit_said b) = tx_entity 1" "d_a (wit_said b) = 101" "d_v (wit_said b) = Long 7"
  by (simp_all add: wit_said_def fact_datom_def d_fact_def)

lemma wit_said_ok: "datom_wf (wit_said b)" "key_fits (datom_key (wit_said b) order)"
proof -
  show "datom_wf (wit_said b)" by (simp add: datom_wf_def tx_entity_def eid_new_def SEQUENCE_BITS_def SEQUENCE_MASK_mask mask_eq_exp_minus_1)
  show "key_fits (datom_key (wit_said b) order)"
    by (cases order) (simp_all add: key_fits_def datom_key_def encode_tx_added_def i64_encode_def length_u64)
qed

lemma wit_commit:
  assumes "set ds \<subseteq> range wit_said"
  shows "db_ok (apply_transaction 1 ds (db_new wit_base_schema))"
    and "db_schema (apply_transaction 1 ds (db_new wit_base_schema)) = install_schema wit_base_schema"
    and "db_recorded (apply_transaction 1 ds (db_new wit_base_schema)) = ds" and "\<forall>x \<in> set ds. datom_wf x"
proof -
  have said: "x = wit_said True \<or> x = wit_said False" if "x \<in> set ds" for x using assms that by (metis (full_types) imageE subsetD)
  then have attr: "d_a x = 101" "d_tx x = tx_entity 1" "key_fits (datom_key x order)" "datom_wf x" if "x \<in> set ds" for x order
    using that wit_said_ok by fastforce+
  then have naming: "naming_only ds" by (auto simp: naming_only_def is_schema_attribute_def engine_ids)
  have "applies 1 ds (db_new wit_base_schema)"
    using attr by (auto simp: applies_def tx_bounded_def schema_placed_def is_schema_attribute_def engine_ids eid_sequence_tx_entity_small wit_base_simps)
  then show "db_ok (apply_transaction 1 ds (db_new wit_base_schema))"
    using db_wf_apply_transaction [OF wit_base_simps(1)] attr by (simp add: db_ok_def wit_base_simps)
  show "db_schema (apply_transaction 1 ds (db_new wit_base_schema)) = install_schema wit_base_schema"
    using derive_naming_only [OF naming] by (simp add: apply_transaction_schema wit_base_simps)
  show "db_recorded (apply_transaction 1 ds (db_new wit_base_schema)) = ds" by (simp add: wit_base_simps)
  show "\<forall>x \<in> set ds. datom_wf x" using attr by blast
qed

lemma wit_stored_root_simps:
  "r_index_basis_t (wit_stored_root d) = db_basis_t d" "r_next_entity_id (wit_stored_root d) = FIRST_USER_ID" "r_last_tx_instant (wit_stored_root d) = 0"
  "r_roots (wit_stored_root d) = Some (wit_hex 0, wit_hex 1, wit_hex 2, wit_hex 3)"
  "r_history_roots (wit_stored_root d) = Some (wit_hex 4, wit_hex 5, wit_hex 6, wit_hex 7)"
  by (simp_all add: wit_stored_root_def wit_last_root_def)

theorem recovery_shows_published_witness:
  "\<exists>d'. recover_transactor (wit_stored wit_kept_db) (\<lambda>_ _. Inr []) (Inr []) wit_base_schema (db_idents db_default) (db_interner db_default)
      (db_overlay db_default) (Some (wit_stored_root wit_kept_db)) = recover_from_snapshot (\<lambda>_ _. Inr []) d' FIRST_USER_ID 0 \<and>
    datoms_at d' Avet = datoms_at (as_of 1 wit_kept_db) Avet \<and> wit_said True \<in> set (datoms_at d' Avet)"
proof -
  have said: "set [wit_said True] \<subseteq> range wit_said" by simp
  note d = wit_commit [OF said, folded wit_kept_db_def]
  have "said_in_order (db_recorded wit_kept_db)" by (simp add: d(3) said_in_order_def)
  moreover have "wit_said True \<in> set (datoms_at (as_of 1 wit_kept_db) Avet)"
    using d(1,2) by (simp add: datoms_at_as_of db_ok_def at_basis_def d(3) eid_sequence_tx_entity_small is_live_Cons avet_covered_def wit_base_simps Tx_Prepare.wit_key_def)
  ultimately show ?thesis
    using recovery_shows_published [OF d(1) _ _ wit_stored_reads [OF d(1)] d(2) [symmetric] wit_stored_root_simps(4,5), of "\<lambda>_ _. Inr []" "Inr []"
        "db_idents db_default" "db_interner db_default" "db_overlay db_default"] d(3,4)
    by (simp add: wit_stored_root_simps FIRST_USER_ID_def wit_kept_db_def) metis
qed

lemma wit_flip_prepare:
  "prepare (db_new wit_base_schema) [ItemOp (Add (EId 5) 101 (Long 7)), ItemOp (Retract (EId 5) 101 (Long 7))] (tx_entity 1) 0 =
    Inr \<lparr>pt_datoms = [wit_said True, wit_said False], pt_tempids = om_empty\<rparr>"
proof -
  let ?d = "db_new wit_base_schema" and ?tx = "tx_entity 1"
  let ?w = "with_transaction 1 [wit_said True] ?d"
  have view: "db_view ?d \<noteq> History" by (simp add: wit_base_simps)
  have "db_values ?d 5 101 = []" by (rule values_none [OF wit_base_simps(1) view]) (simp add: wit_base_simps)
  moreover have "lookup ?d 101 (Long 7) = None" using lookup_None [OF wit_base_simps(1) view] by (simp add: holds_value_facts wit_base_simps)
  ultimately have add: "op_datoms ?d om_empty ?tx ?d False (Add (EId 5) 101 (Long 7)) = Inr ([wit_said True], False)"
    by (simp add: op_datoms_def resolve_entity_def add_op_def wit_101 validate_value_def wit_base_simps validate_not_retired_def
        validate_assertion_form_def tl_current_def Tx_Prepare.wit_key_def wit_said_def)
  have said: "set [wit_said True] \<subseteq> range wit_said" by simp
  have w: "?w = apply_transaction 1 [wit_said True] ?d"
    by (simp add: with_transaction_def asserted_instant_def asserted_step_def wit_101)
  note commit = wit_commit [OF said, folded w]
  have "set (db_values ?w 5 101) = {v. (5, 101, v) \<in> db_facts ?w}"
    using commit(1) by (intro db_values_facts) (simp_all add: db_ok_def)
  moreover have "(5, 101, Long 7) \<in> db_facts ?w" by (simp add: db_facts_with_transaction wit_base_simps apply_facts_def fact_step_def)
  ultimately have "Long 7 \<in> set (db_values ?w 5 101)" by simp
  then have retract: "op_datoms ?d om_empty ?tx ?w False (Retract (EId 5) 101 (Long 7)) = Inr ([wit_said False], False)"
    by (simp add: op_datoms_def resolve_entity_def retract_op_def wit_101 validate_value_def validate_historical_form_def commit(2) wit_base_simps
        Tx_Prepare.wit_key_def wit_said_def [symmetric])
  have "validate_registry ?d [wit_said True, wit_said False] = Inr ()"
    by (rule wit_no_sagas_all) (auto simp: wit_base_simps)
  with add retract show ?thesis
    by (simp add: prepare_def assign_tempids_def unify_step_def allocate_step_def op_step_def Let_def wit_base_simps)
qed

theorem recovery_resurrects_witness:
  "prepare (db_new wit_base_schema) [ItemOp (Add (EId 5) 101 (Long 7)), ItemOp (Retract (EId 5) 101 (Long 7))] (tx_entity 1) 0 =
     Inr \<lparr>pt_datoms = [wit_said True, wit_said False], pt_tempids = om_empty\<rparr> \<and>
   (\<exists>d'. recover_transactor (wit_stored wit_flip_db) (\<lambda>_ _. Inr []) (Inr []) wit_base_schema (db_idents db_default) (db_interner db_default)
       (db_overlay db_default) (Some (wit_stored_root wit_flip_db)) = recover_from_snapshot (\<lambda>_ _. Inr []) d' FIRST_USER_ID 0 \<and>
     wit_said True \<in> set (datoms_at d' Eavt) \<and> wit_said True \<notin> set (datoms_at (as_of 1 wit_flip_db) Eavt))"
proof -
  have said: "set [wit_said True, wit_said False] \<subseteq> range wit_said" by simp
  note d = wit_commit [OF said, folded wit_flip_db_def]
  have "\<not> is_live (at_basis wit_flip_db 1) (wit_said True)"
    by (simp add: at_basis_def d(3) eid_sequence_tx_entity_small is_live_Cons)
  moreover have "\<not> no_history_attr (db_schema wit_flip_db) 101" by (simp add: d(2) no_history_attr_def wit_base_simps Tx_Prepare.wit_key_def)
  ultimately show ?thesis
    using recovery_resurrects [OF d(1) _ wit_stored_reads [OF d(1)] d(2) [symmetric] wit_stored_root_simps(4,5), of "wit_said True" "wit_said False"
        "\<lambda>_ _. Inr []" "Inr []" "db_idents db_default" "db_interner db_default" "db_overlay db_default"] d(3,4) wit_flip_prepare
    by (simp add: wit_stored_root_simps FIRST_USER_ID_def wit_flip_db_def eid_sequence_tx_entity_small) metis
qed

end
