(* ===== verification/Authz_Model.thy ===== *)
theory Authz_Model
  imports Db_Facts
begin

text \<open>
  The vocabulary of authorization: principals, actions, key grants and decisions
  (crates/corium-protocol/src/authz.rs), and object references, tuples, rewrites, views and bindings
  (crates/corium-authz/src/model.rs and view.rs). A filter behind a trait object is a value of the datatype
  \<open>view_filter\<close> of the filters there are. The text of a refusal is not modelled; its cause is.
\<close>

subsection \<open>Principals and actions\<close>

text \<open>Collecting an iterator into a \<open>BTreeSet\<close>, and the union it is extended by.\<close>

definition os_extend :: "'a::linorder list \<Rightarrow> 'a oset \<Rightarrow> 'a oset" where
  "os_extend xs s = fold os_insert xs s"

abbreviation os_of :: "'a::linorder list \<Rightarrow> 'a oset" where
  "os_of xs \<equiv> os_extend xs om_empty"

lemma os_member_extend [simp]: "os_member x (os_extend xs s) \<longleftrightarrow> x \<in> set xs \<or> os_member x s"
  unfolding os_extend_def by (induction xs arbitrary: s) auto

record principal =
  pl_subject :: string
  pl_provider :: string
  pl_roles :: "string oset"
  pl_claims :: "(string, string) omap"

definition principal_anonymous :: principal where
  "principal_anonymous = \<lparr>pl_subject = ''anonymous'', pl_provider = ''anonymous'', pl_roles = om_empty, pl_claims = om_empty\<rparr>"

definition is_anonymous :: "principal \<Rightarrow> bool" where
  "is_anonymous p \<longleftrightarrow> pl_provider p = ''anonymous''"

datatype action =
    Query
  | Pull
  | Datoms
  | TxRange
  | Subscribe
  | Inspect
  | Transact
  | CreateDatabase
  | DeleteDatabase
  | ForkDatabase
  | ListDatabases
  | GarbageCollect
  | ManageIndex
  | ManageKeys
  | AlterSchema

definition is_write :: "action \<Rightarrow> bool" where
  "is_write a \<longleftrightarrow> a = Transact"

definition is_admin :: "action \<Rightarrow> bool" where
  "is_admin a \<longleftrightarrow> a \<in> {CreateDatabase, DeleteDatabase, ForkDatabase, GarbageCollect, ManageIndex, ManageKeys, AlterSchema}"

datatype action_class = ReadClass | WriteClass | AdminClass

definition class_of :: "action \<Rightarrow> action_class" where
  "class_of a = (if is_admin a then AdminClass else if is_write a then WriteClass else ReadClass)"

record access =
  ac_action :: action
  ac_database :: "string option"

fun action_name :: "action \<Rightarrow> string" where
  "action_name Query = ''query''"
| "action_name Pull = ''pull''"
| "action_name Datoms = ''datoms''"
| "action_name TxRange = ''tx-range''"
| "action_name Subscribe = ''subscribe''"
| "action_name Inspect = ''inspect''"
| "action_name Transact = ''transact''"
| "action_name CreateDatabase = ''create-database''"
| "action_name DeleteDatabase = ''delete-database''"
| "action_name ForkDatabase = ''fork-database''"
| "action_name ListDatabases = ''list-databases''"
| "action_name GarbageCollect = ''garbage-collect''"
| "action_name ManageIndex = ''manage-index''"
| "action_name ManageKeys = ''manage-keys''"
| "action_name AlterSchema = ''alter-schema''"

definition action_from_name :: "string \<Rightarrow> action option" where
  "action_from_name name = List.find (\<lambda>a. action_name a = name)
    [Query, Pull, Datoms, TxRange, Subscribe, Inspect, Transact, CreateDatabase, DeleteDatabase, ForkDatabase,
     ListDatabases, GarbageCollect, ManageIndex, ManageKeys, AlterSchema]"

fun action_class_name :: "action_class \<Rightarrow> string" where
  "action_class_name ReadClass = ''read''"
| "action_class_name WriteClass = ''write''"
| "action_class_name AdminClass = ''admin''"

subsection \<open>What a principal may read\<close>

datatype key_grant = Unrestricted | Only "string oset"

fun key_allows :: "key_grant \<Rightarrow> string \<Rightarrow> bool" where
  "key_allows Unrestricted key = True"
| "key_allows (Only allowed) key = os_member key allowed"

fun key_intersect :: "key_grant \<Rightarrow> key_grant \<Rightarrow> key_grant" where
  "key_intersect Unrestricted other = other"
| "key_intersect other Unrestricted = other"
| "key_intersect (Only mine) (Only theirs) = Only (om_filter (\<lambda>(key, _). os_member key theirs) mine)"

datatype view_filter =
    Allowlist string "string oset"
  | Denylist string "string oset"
  | Intersection "view_filter list"

definition normalize_attribute :: "string \<Rightarrow> string" where
  "normalize_attribute a = (case a of c # _ \<Rightarrow> if c = CHR '':'' then a else CHR '':'' # a | [] \<Rightarrow> CHR '':'' # a)"

fun attribute_visible :: "view_filter \<Rightarrow> string \<Rightarrow> bool" where
  "attribute_visible (Allowlist _ allowed) a = os_member (normalize_attribute a) allowed"
| "attribute_visible (Denylist _ denied) a = (\<not> os_member (normalize_attribute a) denied)"
| "attribute_visible (Intersection parts) a = list_all (\<lambda>part. attribute_visible part a) parts"

record read_grant =
  rg_view :: "view_filter option"
  rg_keys :: key_grant

definition grant_visible :: "read_grant \<Rightarrow> string \<Rightarrow> bool" where
  "grant_visible g a = (case rg_view g of None \<Rightarrow> True | Some view \<Rightarrow> attribute_visible view a)"

subsection \<open>Objects and subjects\<close>

datatype object_ref = ObjectRef (ob_kind: string) (ob_id: string)

instantiation object_ref :: linorder
begin

definition less_object_ref :: "object_ref \<Rightarrow> object_ref \<Rightarrow> bool" where
  "less_object_ref a b \<longleftrightarrow> (ob_kind a, ob_id a) < (ob_kind b, ob_id b)"

definition less_eq_object_ref :: "object_ref \<Rightarrow> object_ref \<Rightarrow> bool" where
  "less_eq_object_ref a b \<longleftrightarrow> (ob_kind a, ob_id a) \<le> (ob_kind b, ob_id b)"

instance
proof
  fix x y z :: object_ref
  show "x < y \<longleftrightarrow> x \<le> y \<and> \<not> y \<le> x"
    unfolding less_object_ref_def less_eq_object_ref_def by (rule less_le_not_le)
  show "x \<le> x" by (simp add: less_eq_object_ref_def)
  show "x \<le> y \<Longrightarrow> y \<le> z \<Longrightarrow> x \<le> z"
    unfolding less_eq_object_ref_def by (rule order_trans)
  show "x \<le> y \<Longrightarrow> y \<le> x \<Longrightarrow> x = y"
    unfolding less_eq_object_ref_def by (drule (1) order_antisym) (auto intro: object_ref.expand)
  show "x \<le> y \<or> y \<le> x"
    unfolding less_eq_object_ref_def by (rule linear)
qed

end

definition WILDCARD :: string where
  "WILDCARD = ''*''"

definition object_parse :: "string \<Rightarrow> object_ref" where
  "object_parse text = (case split_once (CHR '':'') text of
     Some (kind, i) \<Rightarrow> if kind \<noteq> [] \<and> i \<noteq> [] then ObjectRef kind i else ObjectRef ''user'' text
   | None \<Rightarrow> ObjectRef ''user'' text)"

definition object_text :: "object_ref \<Rightarrow> string" where
  "object_text ob = ob_kind ob @ CHR '':'' # ob_id ob"

definition wildcard_of_type :: "object_ref \<Rightarrow> object_ref" where
  "wildcard_of_type ob = ObjectRef (ob_kind ob) WILDCARD"

definition is_wildcard :: "object_ref \<Rightarrow> bool" where
  "is_wildcard ob \<longleftrightarrow> ob_id ob = WILDCARD"

record subject_ref =
  sj_object :: object_ref
  sj_relation :: "string option"

definition subject_parse :: "string \<Rightarrow> subject_ref" where
  "subject_parse text = (case split_once (CHR ''#'') text of
     Some (ob, relation) \<Rightarrow>
       if relation \<noteq> [] then \<lparr>sj_object = object_parse ob, sj_relation = Some relation\<rparr>
       else \<lparr>sj_object = object_parse text, sj_relation = None\<rparr>
   | None \<Rightarrow> \<lparr>sj_object = object_parse text, sj_relation = None\<rparr>)"

definition subject_text :: "subject_ref \<Rightarrow> string" where
  "subject_text s = (case sj_relation s of
     Some relation \<Rightarrow> object_text (sj_object s) @ CHR ''#'' # relation
   | None \<Rightarrow> object_text (sj_object s))"

subsection \<open>Policy entities\<close>

record rewrite =
  rw_relation :: string
  rw_via_relation :: string
  rw_on_relation :: string
  rw_object_type :: "string option"

datatype filter_kind = AttributeAllowlist | AttributeDenylist

definition filter_kind_parse :: "string \<Rightarrow> filter_kind option" where
  "filter_kind_parse text =
    (if text = ''attribute-allowlist'' \<or> text = ''allowlist'' then Some AttributeAllowlist
     else if text = ''attribute-denylist'' \<or> text = ''denylist'' then Some AttributeDenylist
     else None)"

record view_def =
  vd_name :: string
  vd_kind :: "filter_kind option"
  vd_attributes :: "string list"
  vd_keys :: "string list"

record binding =
  bd_relation :: string
  bd_object :: object_ref
  bd_view :: "string option"
  bd_unfiltered :: bool

record principal_def =
  pd_id :: string
  pd_provider :: "string option"
  pd_roles :: "string list"

text \<open>What a view compiles to.\<close>

definition view_build :: "view_def \<Rightarrow> view_filter option" where
  "view_build v = (case vd_kind v of
     None \<Rightarrow> None
   | Some AttributeAllowlist \<Rightarrow> Some (Allowlist (vd_name v) (os_of (map normalize_attribute (vd_attributes v))))
   | Some AttributeDenylist \<Rightarrow> Some (Denylist (vd_name v) (os_of (map normalize_attribute (vd_attributes v)))))"

definition view_key_grant :: "view_def \<Rightarrow> key_grant" where
  "view_key_grant v = (if vd_keys v = [] then Unrestricted else Only (os_of (vd_keys v)))"

definition view_combine :: "view_filter list \<Rightarrow> view_filter option" where
  "view_combine views = (case views of [] \<Rightarrow> None | [view] \<Rightarrow> Some view | _ \<Rightarrow> Some (Intersection views))"

subsection \<open>Names, references and filters\<close>

lemma action_name_inj: "action_name a = action_name b \<longleftrightarrow> a = b"
  by (cases a; cases b) simp_all

lemma action_from_name_iff: "action_from_name name = Some a \<longleftrightarrow> name = action_name a"
proof
  assume "action_from_name name = Some a"
  then show "name = action_name a" unfolding action_from_name_def find_Some_iff by blast
next
  assume "name = action_name a"
  then show "action_from_name name = Some a" unfolding action_from_name_def by (cases a) simp_all
qed

lemma object_parse_text:
  assumes "ob_kind ob \<noteq> []" "ob_id ob \<noteq> []" "CHR '':'' \<notin> set (ob_kind ob)"
  shows "object_parse (object_text ob) = ob"
proof -
  have "split_once (CHR '':'') (object_text ob) = Some (ob_kind ob, ob_id ob)"
    using assms by (simp add: object_text_def split_once_Some)
  then show ?thesis using assms by (cases ob) (simp add: object_parse_def)
qed

lemma key_allows_intersect: "key_allows (key_intersect a b) k \<longleftrightarrow> key_allows a k \<and> key_allows b k"
proof (cases "(a, b)" rule: key_intersect.cases)
  case (3 mine theirs)
  then show ?thesis by (auto simp: os_member_def om_get_filter split: option.splits)
qed auto

lemma combine_visible:
  "grant_visible \<lparr>rg_view = view_combine views, rg_keys = keys\<rparr> a = list_all (\<lambda>view. attribute_visible view a) views"
  by (auto simp: grant_visible_def view_combine_def split: list.splits)

end
