(* ===== verification/Authz_Policy.thy ===== *)
theory Authz_Policy
  imports Authz_Model
begin

text \<open>
  Compiling a snapshot of the authorization database into a policy value (crates/corium-authz/src/policy.rs and
  the attribute names of schema.rs): the reader that groups the reserved attributes by entity, one pass per kind
  of policy entity, and the lookups a check makes.
\<close>

subsection \<open>The reserved attributes\<close>

abbreviation PRINCIPAL_ID :: string where "PRINCIPAL_ID \<equiv> ''authz.principal/id''"
abbreviation PRINCIPAL_PROVIDER :: string where "PRINCIPAL_PROVIDER \<equiv> ''authz.principal/provider''"
abbreviation PRINCIPAL_ROLE :: string where "PRINCIPAL_ROLE \<equiv> ''authz.principal/role''"
abbreviation OBJECT_TYPE :: string where "OBJECT_TYPE \<equiv> ''authz.object/type''"
abbreviation OBJECT_ID :: string where "OBJECT_ID \<equiv> ''authz.object/id''"
abbreviation OBJECT_DATABASE :: string where "OBJECT_DATABASE \<equiv> ''authz.object/database''"
abbreviation TUPLE_SUBJECT :: string where "TUPLE_SUBJECT \<equiv> ''authz.tuple/subject''"
abbreviation TUPLE_RELATION :: string where "TUPLE_RELATION \<equiv> ''authz.tuple/relation''"
abbreviation TUPLE_OBJECT :: string where "TUPLE_OBJECT \<equiv> ''authz.tuple/object''"
abbreviation PERMISSION_OBJECT_TYPE :: string where "PERMISSION_OBJECT_TYPE \<equiv> ''authz.permission/object-type''"
abbreviation PERMISSION_ACTION :: string where "PERMISSION_ACTION \<equiv> ''authz.permission/action''"
abbreviation PERMISSION_RELATION :: string where "PERMISSION_RELATION \<equiv> ''authz.permission/relation''"
abbreviation REWRITE_RELATION :: string where "REWRITE_RELATION \<equiv> ''authz.rewrite/relation''"
abbreviation REWRITE_VIA_RELATION :: string where "REWRITE_VIA_RELATION \<equiv> ''authz.rewrite/via-relation''"
abbreviation REWRITE_ON_RELATION :: string where "REWRITE_ON_RELATION \<equiv> ''authz.rewrite/on-relation''"
abbreviation REWRITE_OBJECT_TYPE :: string where "REWRITE_OBJECT_TYPE \<equiv> ''authz.rewrite/object-type''"
abbreviation VIEW_NAME :: string where "VIEW_NAME \<equiv> ''authz.view/name''"
abbreviation VIEW_FILTER_TYPE :: string where "VIEW_FILTER_TYPE \<equiv> ''authz.view/filter-type''"
abbreviation VIEW_ATTRIBUTE :: string where "VIEW_ATTRIBUTE \<equiv> ''authz.view/attribute''"
abbreviation VIEW_KEY :: string where "VIEW_KEY \<equiv> ''authz.view/key''"
abbreviation BINDING_RELATION :: string where "BINDING_RELATION \<equiv> ''authz.binding/relation''"
abbreviation BINDING_OBJECT :: string where "BINDING_OBJECT \<equiv> ''authz.binding/object''"
abbreviation BINDING_VIEW :: string where "BINDING_VIEW \<equiv> ''authz.binding/view''"
abbreviation BINDING_UNFILTERED :: string where "BINDING_UNFILTERED \<equiv> ''authz.binding/unfiltered''"

definition ATTRIBUTES :: "string list" where
  "ATTRIBUTES = [PRINCIPAL_ID, PRINCIPAL_PROVIDER, PRINCIPAL_ROLE, OBJECT_TYPE, OBJECT_ID, OBJECT_DATABASE,
    TUPLE_SUBJECT, TUPLE_RELATION, TUPLE_OBJECT, PERMISSION_OBJECT_TYPE, PERMISSION_ACTION, PERMISSION_RELATION,
    REWRITE_RELATION, REWRITE_VIA_RELATION, REWRITE_ON_RELATION, REWRITE_OBJECT_TYPE,
    VIEW_NAME, VIEW_FILTER_TYPE, VIEW_ATTRIBUTE, VIEW_KEY,
    BINDING_RELATION, BINDING_OBJECT, BINDING_VIEW, BINDING_UNFILTERED]"

subsection \<open>The compiled policy\<close>

datatype policy_error =
    NotAnAuthzDatabase string
  | Incomplete string entity_id string
  | BadValue string entity_id string
  | UndefinedView string string string
  | UnsupportedFilter string string

record compiled_view =
  cv_filter :: "view_filter option"
  cv_keys :: key_grant

record policy_stats =
  ps_principals :: nat
  ps_objects :: nat
  ps_tuples :: nat
  ps_permissions :: nat
  ps_rewrites :: nat
  ps_views :: nat
  ps_bindings :: nat

record policy =
  po_basis_t :: u64
  po_by_object :: "(object_ref \<times> string, subject_ref list) omap"
  po_rewrites :: "(string, rewrite list) omap"
  po_permissions :: "(string \<times> string, string oset) omap"
  po_views :: "(string, compiled_view) omap"
  po_bindings :: "(string \<times> object_ref, binding) omap"
  po_principals :: "(string, principal_def) omap"
  po_objects_by_database :: "(string, object_ref list) omap"
  po_stats :: policy_stats

definition policy_empty :: policy where
  "policy_empty = \<lparr>po_basis_t = 0, po_by_object = om_empty, po_rewrites = om_empty, po_permissions = om_empty,
    po_views = om_empty, po_bindings = om_empty, po_principals = om_empty, po_objects_by_database = om_empty,
    po_stats = \<lparr>ps_principals = 0, ps_objects = 0, ps_tuples = 0, ps_permissions = 0, ps_rewrites = 0,
      ps_views = 0, ps_bindings = 0\<rparr>\<rparr>"

text \<open>\<open>entry(k).or_default().push(v)\<close>, and a \<open>for\<close> loop whose body may return an error.\<close>

abbreviation om_push :: "'k::linorder \<Rightarrow> 'v \<Rightarrow> ('k, 'v list) omap \<Rightarrow> ('k, 'v list) omap" where
  "om_push k v m \<equiv> om_update [] k (\<lambda>vs. vs @ [v]) m"

primrec try_fold :: "('a \<Rightarrow> 'b \<Rightarrow> 'e + 'b) \<Rightarrow> 'a list \<Rightarrow> 'b \<Rightarrow> 'e + 'b" where
  "try_fold f [] s = Inr s"
| "try_fold f (x # xs) s = bindr (f x s) (try_fold f xs)"

lemma try_fold_invariant:
  assumes "try_fold f xs s = Inr t" "P s" "\<And>x s t. P s \<Longrightarrow> f x s = Inr t \<Longrightarrow> P t"
  shows "P t"
  using assms(1,2) by (induction xs arbitrary: s) (auto simp: bindr_def intro: assms(3) split: sum.splits)

subsection \<open>Reading the snapshot\<close>

record reader =
  rd_rows :: "(string, (entity_id, val list) omap) omap"
  rd_interner :: keyword_interner
  rd_overlay :: local_keywords

definition attribute_id :: "db \<Rightarrow> string \<Rightarrow> attr_id option" where
  "attribute_id d name = entid (db_idents d) (kw_parse name)"

definition reader_new :: "db \<Rightarrow> policy_error + reader" where
  "reader_new d =
    (let installed = filter (\<lambda>name. attribute_id d name \<noteq> None) ATTRIBUTES;
         rows = fold (\<lambda>name rows. case attribute_id d name of
             None \<Rightarrow> rows
           | Some a \<Rightarrow> om_insert name (fold (\<lambda>x m. om_push (d_e x) (d_v x) m) (datoms_for_attribute d a) om_empty) rows)
           ATTRIBUTES om_empty
     in if length installed = 0 then Inl (NotAnAuthzDatabase TUPLE_SUBJECT)
        else Inr \<lparr>rd_rows = rows, rd_interner = db_interner d, rd_overlay = db_overlay d\<rparr>)"

definition reader_rows :: "reader \<Rightarrow> string \<Rightarrow> (entity_id \<times> val list) list" where
  "reader_rows r name = (case om_get (rd_rows r) name of None \<Rightarrow> [] | Some by_entity \<Rightarrow> om_entries by_entity)"

definition reader_value :: "reader \<Rightarrow> entity_id \<Rightarrow> string \<Rightarrow> val list option" where
  "reader_value r e name = (case om_get (rd_rows r) name of None \<Rightarrow> None | Some by_entity \<Rightarrow> om_get by_entity e)"

definition reader_text :: "reader \<Rightarrow> val \<Rightarrow> string option" where
  "reader_text r v = (case v of
     Str text \<Rightarrow> Some text
   | Keyword kid \<Rightarrow> map_option kw_display (kw_resolve (rd_interner r) (rd_overlay r) kid)
   | _ \<Rightarrow> None)"

definition one_string :: "reader \<Rightarrow> string \<Rightarrow> entity_id \<Rightarrow> string \<Rightarrow> val list \<Rightarrow> policy_error + string" where
  "one_string r entity e name values =
    bindr (ok_or (Incomplete entity e name) (case values of [] \<Rightarrow> None | v # _ \<Rightarrow> Some v)) (\<lambda>v.
    ok_or (BadValue name e ''string'') (reader_text r v))"

definition required_string :: "reader \<Rightarrow> string \<Rightarrow> entity_id \<Rightarrow> string \<Rightarrow> policy_error + string" where
  "required_string r entity e name =
    bindr (ok_or (Incomplete entity e name) (reader_value r e name)) (one_string r entity e name)"

definition optional_string :: "reader \<Rightarrow> string \<Rightarrow> entity_id \<Rightarrow> string \<Rightarrow> policy_error + string option" where
  "optional_string r entity e name = (case reader_value r e name of
     Some values \<Rightarrow> map_sum id Some (one_string r entity e name values)
   | None \<Rightarrow> Inr None)"

definition reader_strings :: "reader \<Rightarrow> entity_id \<Rightarrow> string \<Rightarrow> string list" where
  "reader_strings r e name = (case reader_value r e name of
     None \<Rightarrow> []
   | Some values \<Rightarrow> List.map_filter (reader_text r) values)"

subsection \<open>One pass per kind of entity\<close>

definition not_wildcard :: "string option \<Rightarrow> string option" where
  "not_wildcard text = (if text = Some WILDCARD then None else text)"

definition read_principal :: "reader \<Rightarrow> entity_id \<times> val list \<Rightarrow> policy \<Rightarrow> policy_error + policy" where
  "read_principal r row p = (case row of (e, values) \<Rightarrow>
    bindr (one_string r ''principal'' e PRINCIPAL_ID values) (\<lambda>i.
    bindr (optional_string r ''principal'' e PRINCIPAL_PROVIDER) (\<lambda>provider.
    Inr (p\<lparr>po_principals := om_insert i
      \<lparr>pd_id = i, pd_provider = not_wildcard provider, pd_roles = reader_strings r e PRINCIPAL_ROLE\<rparr>
      (po_principals p)\<rparr>))))"

definition read_object :: "reader \<Rightarrow> entity_id \<times> val list \<Rightarrow> policy \<Rightarrow> policy_error + policy" where
  "read_object r row p = (case row of (e, values) \<Rightarrow>
    bindr (one_string r ''object'' e OBJECT_ID values) (\<lambda>i.
    bindr (required_string r ''object'' e OBJECT_TYPE) (\<lambda>kind.
    bindr (optional_string r ''object'' e OBJECT_DATABASE) (\<lambda>database.
    Inr (p\<lparr>po_objects_by_database := (case database of
             Some name \<Rightarrow> om_push name (ObjectRef kind i) (po_objects_by_database p)
           | None \<Rightarrow> po_objects_by_database p),
           po_stats := (po_stats p)\<lparr>ps_objects := ps_objects (po_stats p) + 1\<rparr>\<rparr>)))))"

definition read_tuple :: "reader \<Rightarrow> entity_id \<times> val list \<Rightarrow> policy \<Rightarrow> policy_error + policy" where
  "read_tuple r row p = (case row of (e, values) \<Rightarrow>
    bindr (one_string r ''tuple'' e TUPLE_RELATION values) (\<lambda>relation.
    bindr (required_string r ''tuple'' e TUPLE_SUBJECT) (\<lambda>subject.
    bindr (required_string r ''tuple'' e TUPLE_OBJECT) (\<lambda>ob.
    Inr (p\<lparr>po_by_object := om_push (object_parse ob, relation) (subject_parse subject) (po_by_object p),
           po_stats := (po_stats p)\<lparr>ps_tuples := ps_tuples (po_stats p) + 1\<rparr>\<rparr>)))))"

definition read_permission :: "reader \<Rightarrow> entity_id \<times> val list \<Rightarrow> policy \<Rightarrow> policy_error + policy" where
  "read_permission r row p = (case row of (e, values) \<Rightarrow>
    bindr (one_string r ''permission'' e PERMISSION_ACTION values) (\<lambda>action.
    bindr (optional_string r ''permission'' e PERMISSION_OBJECT_TYPE) (\<lambda>object_type.
    let kind = (case object_type of None \<Rightarrow> WILDCARD | Some kind \<Rightarrow> kind);
        relations = reader_strings r e PERMISSION_RELATION
    in if relations = [] then Inl (Incomplete ''permission'' e PERMISSION_RELATION)
       else Inr (p\<lparr>po_permissions := om_update om_empty (kind, action) (os_extend relations) (po_permissions p),
            po_stats := (po_stats p)\<lparr>ps_permissions := ps_permissions (po_stats p) + 1\<rparr>\<rparr>))))"

definition read_rewrite :: "reader \<Rightarrow> entity_id \<times> val list \<Rightarrow> policy \<Rightarrow> policy_error + policy" where
  "read_rewrite r row p = (case row of (e, values) \<Rightarrow>
    bindr (one_string r ''rewrite'' e REWRITE_RELATION values) (\<lambda>relation.
    bindr (required_string r ''rewrite'' e REWRITE_VIA_RELATION) (\<lambda>via.
    bindr (required_string r ''rewrite'' e REWRITE_ON_RELATION) (\<lambda>on.
    bindr (optional_string r ''rewrite'' e REWRITE_OBJECT_TYPE) (\<lambda>object_type.
    Inr (p\<lparr>po_rewrites := om_push relation
             \<lparr>rw_relation = relation, rw_via_relation = via, rw_on_relation = on,
              rw_object_type = not_wildcard object_type\<rparr> (po_rewrites p),
           po_stats := (po_stats p)\<lparr>ps_rewrites := ps_rewrites (po_stats p) + 1\<rparr>\<rparr>))))))"

definition read_view :: "reader \<Rightarrow> entity_id \<times> val list \<Rightarrow> policy \<Rightarrow> policy_error + policy" where
  "read_view r row p = (case row of (e, values) \<Rightarrow>
    bindr (one_string r ''view'' e VIEW_NAME values) (\<lambda>name.
    bindr (optional_string r ''view'' e VIEW_FILTER_TYPE) (\<lambda>filter_type.
    bindr (case filter_type of
             Some text \<Rightarrow> map_sum id Some (ok_or (UnsupportedFilter name text) (filter_kind_parse text))
           | None \<Rightarrow> Inr None) (\<lambda>kind.
    let view = \<lparr>vd_name = name, vd_kind = kind, vd_attributes = reader_strings r e VIEW_ATTRIBUTE,
                vd_keys = reader_strings r e VIEW_KEY\<rparr>
    in Inr (p\<lparr>po_views := om_insert name \<lparr>cv_filter = view_build view, cv_keys = view_key_grant view\<rparr> (po_views p),
              po_stats := (po_stats p)\<lparr>ps_views := ps_views (po_stats p) + 1\<rparr>\<rparr>)))))"

definition read_binding :: "reader \<Rightarrow> entity_id \<times> val list \<Rightarrow> policy \<Rightarrow> policy_error + policy" where
  "read_binding r row p = (case row of (e, values) \<Rightarrow>
    bindr (one_string r ''binding'' e BINDING_RELATION values) (\<lambda>relation.
    bindr (required_string r ''binding'' e BINDING_OBJECT) (\<lambda>text.
    bindr (optional_string r ''binding'' e BINDING_VIEW) (\<lambda>view_name.
    let ob = object_parse text;
        unfiltered = (case reader_value r e BINDING_UNFILTERED of Some (v # _) \<Rightarrow> v = Bool True | _ \<Rightarrow> False);
        defined = (case view_name of Some name \<Rightarrow> om_get (po_views p) name \<noteq> None | None \<Rightarrow> True)
    in if \<not> defined then Inl (UndefinedView relation (object_text ob) (the view_name))
       else Inr (p\<lparr>po_bindings := om_insert (relation, ob)
                \<lparr>bd_relation = relation, bd_object = ob, bd_view = view_name, bd_unfiltered = unfiltered\<rparr>
                (po_bindings p),
              po_stats := (po_stats p)\<lparr>ps_bindings := ps_bindings (po_stats p) + 1\<rparr>\<rparr>)))))"

definition read_kind :: "(reader \<Rightarrow> entity_id \<times> val list \<Rightarrow> policy \<Rightarrow> policy_error + policy) \<Rightarrow> string \<Rightarrow>
    reader \<Rightarrow> policy \<Rightarrow> policy_error + policy" where
  "read_kind read name r p = try_fold (read r) (reader_rows r name) p"

definition compile :: "db \<Rightarrow> policy_error + policy" where
  "compile d =
    bindr (reader_new d) (\<lambda>r.
    bindr (read_kind read_principal PRINCIPAL_ID r (policy_empty\<lparr>po_basis_t := db_basis_t d\<rparr>)) (\<lambda>p.
    bindr (read_kind read_object OBJECT_ID r p) (\<lambda>p.
    bindr (read_kind read_tuple TUPLE_RELATION r p) (\<lambda>p.
    bindr (read_kind read_permission PERMISSION_ACTION r p) (\<lambda>p.
    bindr (read_kind read_rewrite REWRITE_RELATION r p) (\<lambda>p.
    bindr (read_kind read_view VIEW_NAME r p) (\<lambda>p.
    bindr (read_kind read_binding BINDING_RELATION r p) (\<lambda>p.
    Inr (p\<lparr>po_stats := (po_stats p)\<lparr>ps_principals := om_size (po_principals p)\<rparr>\<rparr>)))))))))"

subsection \<open>What a check looks up\<close>

definition objects_for_database :: "policy \<Rightarrow> string \<Rightarrow> object_ref list" where
  "objects_for_database p name = (case om_get (po_objects_by_database p) name of None \<Rightarrow> [] | Some obs \<Rightarrow> obs)"

definition relations_for :: "policy \<Rightarrow> string \<Rightarrow> action \<Rightarrow> string oset" where
  "relations_for p kind a =
    fold (\<lambda>name relations. fold (\<lambda>k relations. case om_get (po_permissions p) (k, name) of
        Some found \<Rightarrow> os_extend (os_elems found) relations | None \<Rightarrow> relations) [kind, WILDCARD] relations)
      [action_name a, action_class_name (class_of a), WILDCARD] om_empty"

definition tuples_on :: "policy \<Rightarrow> object_ref \<Rightarrow> string \<Rightarrow> subject_ref list" where
  "tuples_on p ob relation = (case om_get (po_by_object p) (ob, relation) of None \<Rightarrow> [] | Some found \<Rightarrow> found)"

definition subjects_for :: "policy \<Rightarrow> object_ref \<Rightarrow> string \<Rightarrow> subject_ref list" where
  "subjects_for p ob relation = tuples_on p ob relation @
    (if is_wildcard ob then [] else tuples_on p (wildcard_of_type ob) relation)"

definition rewrites_for :: "policy \<Rightarrow> string \<Rightarrow> string \<Rightarrow> rewrite list" where
  "rewrites_for p relation kind = (case om_get (po_rewrites p) relation of
     None \<Rightarrow> []
   | Some rules \<Rightarrow> filter (\<lambda>rule. case rw_object_type rule of None \<Rightarrow> True | Some k \<Rightarrow> k = kind) rules)"

definition binding_for :: "policy \<Rightarrow> string \<Rightarrow> object_ref \<Rightarrow> binding option" where
  "binding_for p relation ob = (case om_get (po_bindings p) (relation, ob) of
     Some b \<Rightarrow> Some b
   | None \<Rightarrow> om_get (po_bindings p) (relation, wildcard_of_type ob))"

subsection \<open>What compilation guarantees\<close>

lemma read_kind_invariant:
  assumes "read_kind read name r p = Inr p'" "P p" "\<And>row p p'. P p \<Longrightarrow> read r row p = Inr p' \<Longrightarrow> P p'"
  shows "P p'"
  using try_fold_invariant [of "read r" "reader_rows r name" p p' P] assms by (simp add: read_kind_def)

lemmas read_defs = read_principal_def read_object_def read_tuple_def read_permission_def read_rewrite_def
  read_view_def read_binding_def

text \<open>Every binding names a view the policy defines.\<close>

definition views_defined :: "policy \<Rightarrow> bool" where
  "views_defined p \<longleftrightarrow> (\<forall>b \<in> set (om_values (po_bindings p)). \<forall>name. bd_view b = Some name \<longrightarrow> om_get (po_views p) name \<noteq> None)"

lemma read_keeps:
  assumes "read \<in> {read_principal, read_object, read_tuple, read_permission, read_rewrite, read_view}" "read r row p = Inr p'"
  shows "po_basis_t p' = po_basis_t p \<and> po_bindings p' = po_bindings p"
  using assms by (auto simp: read_defs bindr_def Let_def split: prod.splits sum.splits if_splits option.splits)

lemma read_binding_keeps:
  assumes "views_defined p" "read_binding r row p = Inr p'"
  shows "views_defined p' \<and> po_basis_t p' = po_basis_t p"
  using assms
  by (fastforce simp: views_defined_def read_binding_def bindr_def Let_def om_values_iff split: prod.splits sum.splits if_splits option.splits)

lemma compile_stages:
  assumes "compile d = Inr p"
  obtains r a b c e f g p1 where "reader_new d = Inr r"
    "read_kind read_principal PRINCIPAL_ID r (policy_empty\<lparr>po_basis_t := db_basis_t d\<rparr>) = Inr a"
    "read_kind read_object OBJECT_ID r a = Inr b" "read_kind read_tuple TUPLE_RELATION r b = Inr c"
    "read_kind read_permission PERMISSION_ACTION r c = Inr e" "read_kind read_rewrite REWRITE_RELATION r e = Inr f"
    "read_kind read_view VIEW_NAME r f = Inr g" "read_kind read_binding BINDING_RELATION r g = Inr p1"
    "p = p1\<lparr>po_stats := (po_stats p1)\<lparr>ps_principals := om_size (po_principals p1)\<rparr>\<rparr>"
  using assms by (auto simp: compile_def bindr_def split: sum.splits)

lemma compile_steps:
  assumes "compile d = Inr p"
  obtains r p0 p1 where "po_basis_t p0 = db_basis_t d" "po_bindings p0 = om_empty"
    "read_kind read_binding BINDING_RELATION r p0 = Inr p1"
    "p = p1\<lparr>po_stats := (po_stats p1)\<lparr>ps_principals := om_size (po_principals p1)\<rparr>\<rparr>"
proof -
  obtain r a b c e f g p1 where s:
    "read_kind read_principal PRINCIPAL_ID r (policy_empty\<lparr>po_basis_t := db_basis_t d\<rparr>) = Inr a"
    "read_kind read_object OBJECT_ID r a = Inr b" "read_kind read_tuple TUPLE_RELATION r b = Inr c"
    "read_kind read_permission PERMISSION_ACTION r c = Inr e" "read_kind read_rewrite REWRITE_RELATION r e = Inr f"
    "read_kind read_view VIEW_NAME r f = Inr g" "read_kind read_binding BINDING_RELATION r g = Inr p1"
    "p = p1\<lparr>po_stats := (po_stats p1)\<lparr>ps_principals := om_size (po_principals p1)\<rparr>\<rparr>"
    using compile_stages [OF assms] .
  define P where "P = (\<lambda>p :: policy. po_basis_t p = db_basis_t d \<and> po_bindings p = om_empty)"
  have step: "P y" if "read_kind read name r x = Inr y" "P x"
    "read \<in> {read_principal, read_object, read_tuple, read_permission, read_rewrite, read_view}" for x y read name
    using read_kind_invariant [OF that(1), of P] that(2) read_keeps [OF that(3)] unfolding P_def by metis
  have "P (policy_empty\<lparr>po_basis_t := db_basis_t d\<rparr>)" by (simp add: P_def policy_empty_def)
  then have "P g" using s(1-6) by (blast intro: step)
  then show ?thesis by (intro that [OF _ _ s(7,8)]) (simp_all add: P_def)
qed

lemma compile_basis: "compile d = Inr p \<Longrightarrow> po_basis_t p = db_basis_t d"
  and compile_views_defined: "compile d = Inr p \<Longrightarrow> views_defined p"
proof -
  assume "compile d = Inr p"
  then obtain r p0 p1 where s: "po_basis_t p0 = db_basis_t d" "po_bindings p0 = om_empty"
    "read_kind read_binding BINDING_RELATION r p0 = Inr p1"
    "p = p1\<lparr>po_stats := (po_stats p1)\<lparr>ps_principals := om_size (po_principals p1)\<rparr>\<rparr>"
    using compile_steps by metis
  have "views_defined p0" using s(2) by (auto simp: views_defined_def om_values_iff)
  then have "views_defined p1 \<and> po_basis_t p1 = db_basis_t d"
    using read_kind_invariant [OF s(3), of "\<lambda>p. views_defined p \<and> po_basis_t p = db_basis_t d"] s(1) read_binding_keeps by metis
  then show "po_basis_t p = db_basis_t d" "views_defined p" by (simp_all add: s(4) views_defined_def)
qed

subsection \<open>Tuples\<close>

text \<open>The text of an entity's first value under a reserved attribute.\<close>

definition values_of :: "db \<Rightarrow> string \<Rightarrow> entity_id \<Rightarrow> val list" where
  "values_of d name e = (case attribute_id d name of
     None \<Rightarrow> []
   | Some a \<Rightarrow> map d_v (filter (\<lambda>x. d_e x = e) (datoms_for_attribute d a)))"

definition value_text :: "db \<Rightarrow> val \<Rightarrow> string option" where
  "value_text d v = (case v of Str text \<Rightarrow> Some text | Keyword kid \<Rightarrow> map_option kw_display (db_resolve d kid) | _ \<Rightarrow> None)"

definition first_text :: "db \<Rightarrow> string \<Rightarrow> entity_id \<Rightarrow> string option" where
  "first_text d name e = (case values_of d name e of [] \<Rightarrow> None | v # _ \<Rightarrow> value_text d v)"

lemma grouped_get:
  "om_get (fold (\<lambda>x m. om_push (d_e x) (d_v x) m) xs m) e =
    (case map d_v (filter (\<lambda>x. d_e x = e) xs) of
       [] \<Rightarrow> om_get m e
     | vs \<Rightarrow> Some ((case om_get m e of None \<Rightarrow> [] | Some us \<Rightarrow> us) @ vs))"
  by (induction xs arbitrary: m) (auto simp: om_update_def split: list.splits option.splits)

lemma rows_get:
  assumes "distinct names"
  shows "om_get (fold (\<lambda>name rows. case f name of None \<Rightarrow> rows | Some v \<Rightarrow> om_insert name (g v) rows) names m) name =
    (if name \<in> set names then (case f name of None \<Rightarrow> om_get m name | Some v \<Rightarrow> Some (g v)) else om_get m name)"
  using assms by (induction names arbitrary: m) (auto split: option.splits)

lemma ATTRIBUTES_distinct: "distinct ATTRIBUTES"
  by (simp add: ATTRIBUTES_def)

lemma reader_new_value:
  assumes "reader_new d = Inr r" "name \<in> set ATTRIBUTES"
  shows "reader_value r e name = (case values_of d name e of [] \<Rightarrow> None | vs \<Rightarrow> Some vs)"
proof -
  have "rd_rows r = fold (\<lambda>name rows. case attribute_id d name of
             None \<Rightarrow> rows
           | Some a \<Rightarrow> om_insert name (fold (\<lambda>x m. om_push (d_e x) (d_v x) m) (datoms_for_attribute d a) om_empty) rows)
           ATTRIBUTES om_empty"
    using assms(1) by (auto simp: reader_new_def Let_def split: if_splits)
  then have "om_get (rd_rows r) name = (case attribute_id d name of None \<Rightarrow> None
      | Some a \<Rightarrow> Some (fold (\<lambda>x m. om_push (d_e x) (d_v x) m) (datoms_for_attribute d a) om_empty))"
    using rows_get [OF ATTRIBUTES_distinct, where f = "attribute_id d" and m = om_empty and name = name and
        g = "\<lambda>a. fold (\<lambda>x m. om_push (d_e x) (d_v x) m) (datoms_for_attribute d a) om_empty"] assms(2)
    by (cases "attribute_id d name") simp_all
  then show ?thesis
    by (simp add: reader_value_def values_of_def grouped_get split: option.splits list.splits)
qed

lemma reader_new_text: "reader_new d = Inr r \<Longrightarrow> reader_text r v = value_text d v"
  by (auto simp: reader_new_def Let_def reader_text_def value_text_def db_resolve_def split: if_splits val.splits)

lemma reader_rows_value: "(e, vs) \<in> set (reader_rows r name) \<longleftrightarrow> reader_value r e name = Some vs"
  by (auto simp: reader_rows_def reader_value_def om_entries_iff split: option.splits)

lemma one_string_ok:
  "one_string r entity e name vs = Inr t \<longleftrightarrow> (\<exists>v us. vs = v # us \<and> reader_text r v = Some t)"
  by (auto simp: one_string_def bindr_def ok_or_def split: list.splits option.splits)

lemma required_string_ok:
  assumes "reader_new d = Inr r" "name \<in> set ATTRIBUTES"
  shows "required_string r entity e name = Inr t \<longleftrightarrow> first_text d name e = Some t"
  using reader_new_value [OF assms, of e] reader_new_text [OF assms(1)]
  by (auto simp: required_string_def bindr_def ok_or_def one_string_ok first_text_def split: list.splits)

text \<open>A row of the tuple table that says a subject holds a relation on an object.\<close>

definition tuple_row :: "reader \<Rightarrow> subject_ref \<Rightarrow> string \<Rightarrow> object_ref \<Rightarrow> entity_id \<Rightarrow> val list \<Rightarrow> bool" where
  "tuple_row r s rel ob e vs \<longleftrightarrow> one_string r ''tuple'' e TUPLE_RELATION vs = Inr rel \<and>
    (\<exists>st ot. required_string r ''tuple'' e TUPLE_SUBJECT = Inr st \<and> required_string r ''tuple'' e TUPLE_OBJECT = Inr ot \<and>
       s = subject_parse st \<and> ob = object_parse ot)"

lemma try_fold_tuples:
  assumes "try_fold (read_tuple r) rows p = Inr p'"
  shows "s \<in> set (tuples_on p' ob rel) \<longleftrightarrow> s \<in> set (tuples_on p ob rel) \<or> (\<exists>(e, vs) \<in> set rows. tuple_row r s rel ob e vs)"
  using assms
proof (induction rows arbitrary: p)
  case (Cons row rows)
  obtain e vs where row: "row = (e, vs)" by fastforce
  obtain p1 where p1: "read_tuple r row p = Inr p1" "try_fold (read_tuple r) rows p1 = Inr p'"
    using Cons.prems by (auto simp: bindr_def split: sum.splits)
  obtain rel' st ot where t: "one_string r ''tuple'' e TUPLE_RELATION vs = Inr rel'"
    "required_string r ''tuple'' e TUPLE_SUBJECT = Inr st" "required_string r ''tuple'' e TUPLE_OBJECT = Inr ot"
    "po_by_object p1 = om_push (object_parse ot, rel') (subject_parse st) (po_by_object p)"
    using p1(1) by (auto simp: read_tuple_def row bindr_def split: sum.splits)
  have "s \<in> set (tuples_on p1 ob rel) \<longleftrightarrow> s \<in> set (tuples_on p ob rel) \<or> rel = rel' \<and> ob = object_parse ot \<and> s = subject_parse st"
    by (auto simp: tuples_on_def t(4) om_update_def split: option.splits)
  moreover have "tuple_row r s rel ob e vs \<longleftrightarrow> rel = rel' \<and> ob = object_parse ot \<and> s = subject_parse st"
    unfolding tuple_row_def t(1-3) by auto
  ultimately show ?case using Cons.IH [OF p1(2)] by (simp add: row disj_assoc)
qed simp

lemma read_keeps_tuples:
  assumes "read \<in> {read_principal, read_object, read_permission, read_rewrite, read_view, read_binding}" "read r row p = Inr p'"
  shows "po_by_object p' = po_by_object p"
  using assms by (auto simp: read_defs bindr_def Let_def split: prod.splits sum.splits if_splits option.splits)

text \<open>
  Compiling a policy loses no tuple and invents none: a subject holds a relation on an object in the compiled
  policy exactly when some entity of the snapshot carries that relation, subject and object, read from the
  entity's first value of each reserved attribute.
\<close>

theorem compile_tuples:
  assumes "compile d = Inr p"
  shows "s \<in> set (tuples_on p ob rel) \<longleftrightarrow>
    (\<exists>e st ot. first_text d TUPLE_RELATION e = Some rel \<and> first_text d TUPLE_SUBJECT e = Some st \<and>
       first_text d TUPLE_OBJECT e = Some ot \<and> s = subject_parse st \<and> ob = object_parse ot)"
proof -
  obtain r a b c e f g p1 where s: "reader_new d = Inr r"
    "read_kind read_principal PRINCIPAL_ID r (policy_empty\<lparr>po_basis_t := db_basis_t d\<rparr>) = Inr a"
    "read_kind read_object OBJECT_ID r a = Inr b" "read_kind read_tuple TUPLE_RELATION r b = Inr c"
    "read_kind read_permission PERMISSION_ACTION r c = Inr e" "read_kind read_rewrite REWRITE_RELATION r e = Inr f"
    "read_kind read_view VIEW_NAME r f = Inr g" "read_kind read_binding BINDING_RELATION r g = Inr p1"
    "p = p1\<lparr>po_stats := (po_stats p1)\<lparr>ps_principals := om_size (po_principals p1)\<rparr>\<rparr>"
    using compile_stages [OF assms] .
  have keep: "po_by_object y = po_by_object x" if "read_kind read name r x = Inr y"
    "read \<in> {read_principal, read_object, read_permission, read_rewrite, read_view, read_binding}" for x y read name
    using read_kind_invariant [OF that(1), of "\<lambda>p. po_by_object p = po_by_object x"] read_keeps_tuples [OF that(2)] by metis
  have "po_by_object b = om_empty" using keep [OF s(2)] keep [OF s(3)] by (simp add: policy_empty_def)
  moreover have "po_by_object p = po_by_object c" using keep [OF s(5)] keep [OF s(6)] keep [OF s(7)] keep [OF s(8)] s(9) by simp
  ultimately have rows: "s \<in> set (tuples_on p ob rel) \<longleftrightarrow> (\<exists>(e, vs) \<in> set (reader_rows r TUPLE_RELATION). tuple_row r s rel ob e vs)"
    using try_fold_tuples [OF s(4) [unfolded read_kind_def], of s ob rel] by (simp add: tuples_on_def)
  have name: "TUPLE_RELATION \<in> set ATTRIBUTES" "TUPLE_SUBJECT \<in> set ATTRIBUTES" "TUPLE_OBJECT \<in> set ATTRIBUTES"
    by (simp_all add: ATTRIBUTES_def)
  have req: "required_string r ''tuple'' e TUPLE_RELATION = Inr rel \<longleftrightarrow>
      (\<exists>vs. reader_value r e TUPLE_RELATION = Some vs \<and> one_string r ''tuple'' e TUPLE_RELATION vs = Inr rel)" for e
    by (cases "reader_value r e TUPLE_RELATION") (simp_all add: required_string_def bindr_def ok_or_def)
  show ?thesis
    unfolding rows tuple_row_def required_string_ok [OF s(1) name(2)] required_string_ok [OF s(1) name(3)]
      required_string_ok [OF s(1) name(1), symmetric, of _ _ "''tuple''"] req
    by (simp only: Bex_def split_paired_Ex prod.case reader_rows_value) blast
qed

text \<open>A snapshot with one tuple.\<close>

definition wit_tuple_datom :: "attr_id \<Rightarrow> string \<Rightarrow> datom" where
  "wit_tuple_datom a v = \<lparr>d_e = 900, d_a = a, d_v = Str v, d_tx = tx_entity 1, d_added = True\<rparr>"

definition wit_authz_db :: db where
  "wit_authz_db = db_default\<lparr>db_basis_t := 1,
     db_recorded := [wit_tuple_datom 101 ''user:alice'', wit_tuple_datom 102 ''viewer'', wit_tuple_datom 103 ''database:music''],
     db_idents := idents_insert (kw_parse TUPLE_OBJECT) 103
       (idents_insert (kw_parse TUPLE_RELATION) 102 (idents_insert (kw_parse TUPLE_SUBJECT) 101 idents_default))\<rparr>"

lemma wit_authz_db_wf: "db_wf wit_authz_db"
  by (simp add: db_wf_def wit_authz_db_def db_default_def tx_bounded_def schema_wf_default wit_tuple_datom_def
      eid_sequence_tx_entity_small)

lemma wit_authz_attribute:
  "attribute_id wit_authz_db name = (if kw_parse name = kw_parse TUPLE_OBJECT then Some 103
     else if kw_parse name = kw_parse TUPLE_RELATION then Some 102
     else if kw_parse name = kw_parse TUPLE_SUBJECT then Some 101 else None)"
  by (simp add: attribute_id_def wit_authz_db_def idents_simps) (simp add: entid_def idents_default_def)

lemma wit_authz_datoms:
  "datoms_for_attribute wit_authz_db 101 = [wit_tuple_datom 101 ''user:alice'']"
  "datoms_for_attribute wit_authz_db 102 = [wit_tuple_datom 102 ''viewer'']"
  "datoms_for_attribute wit_authz_db 103 = [wit_tuple_datom 103 ''database:music'']"
proof -
  have view: "db_view wit_authz_db = Current" by (simp add: wit_authz_db_def db_default_def)
  have single: "xs = [y]" if "\<And>x. x \<in> set xs \<longleftrightarrow> x = y" "sorted_wrt (\<lambda>x y. component_key Aevt x < component_key Aevt y) xs" for xs y
  proof (cases xs)
    case (Cons z zs)
    then have "z = y" "zs = []" using that by (metis list.set_intros(1), metis list.set_intros less_irrefl sorted_wrt.simps(2) neq_Nil_conv)
    then show ?thesis using Cons by simp
  qed (use that(1) [of y] in simp)
  have live: "visible wit_authz_db x \<and> d_a x = a \<longleftrightarrow>
      d_a x = a \<and> x \<in> {wit_tuple_datom 101 ''user:alice'', wit_tuple_datom 102 ''viewer'', wit_tuple_datom 103 ''database:music''}" for x a
  proof -
    have "visible wit_authz_db x = is_live (db_recorded wit_authz_db) x" by (simp add: visible_def view)
    then show ?thesis by (auto simp: wit_authz_db_def is_live_Cons wit_tuple_datom_def d_fact_def)
  qed
  note scan = aevt_scan_a [OF wit_authz_db_wf, unfolded view, simplified]
  have all: "datoms_for_attribute wit_authz_db a = [y]"
    if "\<And>x. d_a x = a \<and> x \<in> {wit_tuple_datom 101 ''user:alice'', wit_tuple_datom 102 ''viewer'', wit_tuple_datom 103 ''database:music''} \<longleftrightarrow> x = y"
    for a y
    unfolding datoms_for_attribute_scan
    by (rule single) (use that scan_sorted [OF wit_authz_db_wf] view in \<open>simp_all add: scan live\<close>)
  show "datoms_for_attribute wit_authz_db 101 = [wit_tuple_datom 101 ''user:alice'']"
    "datoms_for_attribute wit_authz_db 102 = [wit_tuple_datom 102 ''viewer'']"
    "datoms_for_attribute wit_authz_db 103 = [wit_tuple_datom 103 ''database:music'']"
    by (rule all, auto simp: wit_tuple_datom_def)+
qed

definition wit_reader :: reader where
  "wit_reader = \<lparr>rd_rows = om_insert TUPLE_OBJECT (om_insert 900 [Str ''database:music''] om_empty)
       (om_insert TUPLE_RELATION (om_insert 900 [Str ''viewer''] om_empty)
       (om_insert TUPLE_SUBJECT (om_insert 900 [Str ''user:alice''] om_empty) om_empty)),
     rd_interner = db_interner db_default, rd_overlay = db_overlay db_default\<rparr>"

lemma wit_authz_attributes:
  "attribute_id wit_authz_db TUPLE_SUBJECT = Some 101" "attribute_id wit_authz_db TUPLE_RELATION = Some 102"
  "attribute_id wit_authz_db TUPLE_OBJECT = Some 103"
  "list_all (\<lambda>name. name \<in> {TUPLE_SUBJECT, TUPLE_RELATION, TUPLE_OBJECT} \<or> attribute_id wit_authz_db name = None) ATTRIBUTES"
  unfolding wit_authz_attribute by (simp_all add: kw_parse_def, code_simp)

lemma wit_authz_reader: "reader_new wit_authz_db = Inr wit_reader"
proof -
  have none: "attribute_id wit_authz_db name = None" if "name \<in> set ATTRIBUTES" "name \<notin> {TUPLE_SUBJECT, TUPLE_RELATION, TUPLE_OBJECT}" for name
    using that wit_authz_attributes(4) by (auto simp: list_all_iff)
  have rows: "fold (\<lambda>name rows. case attribute_id wit_authz_db name of
             None \<Rightarrow> rows
           | Some a \<Rightarrow> om_insert name (fold (\<lambda>x m. om_push (d_e x) (d_v x) m) (datoms_for_attribute wit_authz_db a) om_empty) rows)
           ATTRIBUTES om_empty = rd_rows wit_reader"
    by (rule om_eqI)
       (simp add: rows_get [OF ATTRIBUTES_distinct] wit_reader_def none wit_authz_attributes(1-3) wit_authz_datoms wit_tuple_datom_def om_update_def,
        auto simp: ATTRIBUTES_def none)
  have "TUPLE_SUBJECT \<in> set ATTRIBUTES" by (simp add: ATTRIBUTES_def)
  then have member: "TUPLE_SUBJECT \<in> set (filter (\<lambda>name. attribute_id wit_authz_db name \<noteq> None) ATTRIBUTES)"
    using wit_authz_attributes(1) by simp
  have "length (filter (\<lambda>name. attribute_id wit_authz_db name \<noteq> None) ATTRIBUTES) \<noteq> 0"
    using length_pos_if_in_set [OF member] by simp
  then show ?thesis unfolding reader_new_def Let_def rows by (simp add: wit_reader_def wit_authz_db_def)
qed

lemma wit_authz_rows:
  "reader_rows wit_reader PRINCIPAL_ID = []" "reader_rows wit_reader OBJECT_ID = []"
  "reader_rows wit_reader TUPLE_RELATION = [(900, [Str ''viewer''])]" "reader_rows wit_reader PERMISSION_ACTION = []"
  "reader_rows wit_reader REWRITE_RELATION = []" "reader_rows wit_reader VIEW_NAME = []" "reader_rows wit_reader BINDING_RELATION = []"
  "reader_value wit_reader 900 TUPLE_SUBJECT = Some [Str ''user:alice'']"
  "reader_value wit_reader 900 TUPLE_OBJECT = Some [Str ''database:music'']"
  by (simp_all add: reader_rows_def reader_value_def wit_reader_def)

lemma wit_authz_compiles: "\<exists>p. compile wit_authz_db = Inr p"
  by (simp add: compile_def wit_authz_reader bindr_def read_kind_def wit_authz_rows read_tuple_def required_string_def
      one_string_def ok_or_def reader_text_def)

theorem compile_tuples_witness:
  "\<exists>p. compile wit_authz_db = Inr p \<and>
     \<lparr>sj_object = ObjectRef ''user'' ''alice'', sj_relation = None\<rparr> \<in> set (tuples_on p (ObjectRef ''database'' ''music'') ''viewer'')"
proof -
  obtain p where p: "compile wit_authz_db = Inr p" using wit_authz_compiles by blast
  have "first_text wit_authz_db TUPLE_RELATION 900 = Some ''viewer''"
    "first_text wit_authz_db TUPLE_SUBJECT 900 = Some ''user:alice''"
    "first_text wit_authz_db TUPLE_OBJECT 900 = Some ''database:music''"
    by (simp_all add: first_text_def values_of_def wit_authz_attributes(1-3) wit_authz_datoms wit_tuple_datom_def value_text_def)
  moreover have "subject_parse ''user:alice'' = \<lparr>sj_object = ObjectRef ''user'' ''alice'', sj_relation = None\<rparr>"
    "object_parse ''database:music'' = ObjectRef ''database'' ''music''"
    by (simp_all add: subject_parse_def object_parse_def)
  ultimately show ?thesis
    using compile_tuples [OF p, of "\<lparr>sj_object = ObjectRef ''user'' ''alice'', sj_relation = None\<rparr>" "ObjectRef ''database'' ''music''" "''viewer''"] p
    by metis
qed

end
