(* ===== verification/Authz_Eval.thy ===== *)
theory Authz_Eval
  imports Authz_Policy
begin

text \<open>
  The bounded relationship search (crates/corium-authz/src/eval.rs): a breadth-first walk over goals
  \<open>(relation, object)\<close> with a depth bound, a visited set and a visit budget the whole check shares, and the
  combination of the views of the matched relations. Counters are natural numbers: \<open>visited\<close> never passes
  \<open>max_visited\<close> and a depth never passes \<open>max_depth + 1\<close>.
\<close>

subsection \<open>The search\<close>

record limits =
  lm_max_depth :: nat
  lm_max_visited :: nat

definition limits_default :: limits where
  "limits_default = \<lparr>lm_max_depth = 8, lm_max_visited = 10000\<rparr>"

record path_step =
  st_relation :: string
  st_object :: object_ref

record matched =
  mt_relation :: string
  mt_object :: object_ref
  mt_subject :: subject_ref
  mt_path :: "path_step list"

datatype denial =
    NoPermission string string
  | NoPath "string list" "string list"
  | ExhaustedAfter nat

datatype outcome =
    Allowed "matched list"
  | AllowedFiltered "matched list" read_grant "string list"
  | Denied denial

record query =
  qy_subjects :: "object_ref oset"
  qy_relations :: "string oset"
  qy_action :: string
  qy_objects :: "object_ref list"
  qy_expand_relations :: "string list"
  qy_limits :: limits

datatype search = Found matched | NotFound | Exhausted

record walk_node =
  nd_step :: path_step
  nd_parent :: "nat option"
  nd_depth :: nat

record walk =
  wk_nodes :: "walk_node list"
  wk_queue :: "nat list"
  wk_visited :: "(string \<times> object_ref) oset"

definition walk_new :: walk where
  "walk_new = \<lparr>wk_nodes = [], wk_queue = [], wk_visited = om_empty\<rparr>"

definition holds :: "query \<Rightarrow> subject_ref \<Rightarrow> bool" where
  "holds q s \<longleftrightarrow> os_member (sj_object s) (qy_subjects q) \<or>
    is_wildcard (sj_object s) \<and> list_ex (\<lambda>held. ob_kind held = ob_kind (sj_object s)) (os_elems (qy_subjects q))"

definition walk_push :: "query \<Rightarrow> string \<Rightarrow> object_ref \<Rightarrow> nat option \<Rightarrow> nat \<Rightarrow> walk \<Rightarrow> walk" where
  "walk_push q relation ob parent depth w =
    (if depth > lm_max_depth (qy_limits q) then w
     else if os_member (relation, ob) (wk_visited w) then w
     else \<lparr>wk_nodes = wk_nodes w @ [\<lparr>nd_step = \<lparr>st_relation = relation, st_object = ob\<rparr>, nd_parent = parent, nd_depth = depth\<rparr>],
           wk_queue = wk_queue w @ [length (wk_nodes w)],
           wk_visited = os_insert (relation, ob) (wk_visited w)\<rparr>)"

text \<open>
  \<open>path_of\<close> follows parent pointers, which always point to an earlier node; a node index that does not is the
  panic of the slice access and ends the path.
\<close>

function path_up :: "walk_node list \<Rightarrow> nat \<Rightarrow> path_step list" where
  "path_up nodes i = (if i < length nodes then
      nd_step (nodes ! i) # (case nd_parent (nodes ! i) of
        Some parent \<Rightarrow> if parent < i then path_up nodes parent else []
      | None \<Rightarrow> [])
    else [])"
  by pat_completeness auto
termination by (relation "measure snd") auto

declare path_up.simps [simp del]

definition path_of :: "walk \<Rightarrow> nat \<Rightarrow> path_step list" where
  "path_of w i = rev (path_up (wk_nodes w) i)"

text \<open>The loop over the subjects holding the goal: the first held subject, or the walk with the next goals pushed.\<close>

fun subjects_loop :: "query \<Rightarrow> nat \<Rightarrow> nat \<Rightarrow> subject_ref list \<Rightarrow> walk \<Rightarrow> subject_ref option \<times> walk" where
  "subjects_loop q i depth [] w = (None, w)"
| "subjects_loop q i depth (s # ss) w = (case sj_relation s of
     Some userset \<Rightarrow> subjects_loop q i depth ss (walk_push q userset (sj_object s) (Some i) (depth + 1) w)
   | None \<Rightarrow> if holds q s then (Some s, w)
             else subjects_loop q i depth ss
               (fold (\<lambda>expansion. walk_push q expansion (sj_object s) (Some i) (depth + 1)) (qy_expand_relations q) w))"

definition rewrites_loop :: "policy \<Rightarrow> query \<Rightarrow> nat \<Rightarrow> nat \<Rightarrow> path_step \<Rightarrow> walk \<Rightarrow> walk" where
  "rewrites_loop p q i depth goal w =
    fold (\<lambda>rule. fold (\<lambda>parent. walk_push q (rw_on_relation rule) parent (Some i) (depth + 1))
        (map sj_object (subjects_for p (st_object goal) (rw_via_relation rule))))
      (rewrites_for p (st_relation goal) (ob_kind (st_object goal))) w"

function walk_loop :: "policy \<Rightarrow> query \<Rightarrow> string \<Rightarrow> object_ref \<Rightarrow> walk \<Rightarrow> nat \<Rightarrow> search \<times> nat" where
  "walk_loop p q relation ob w visited = (case wk_queue w of
     [] \<Rightarrow> (NotFound, visited)
   | i # rest \<Rightarrow>
       if visited \<ge> lm_max_visited (qy_limits q) then (Exhausted, visited)
       else let goal = nd_step (wk_nodes w ! i);
                depth = nd_depth (wk_nodes w ! i);
                (found, w') = subjects_loop q i depth (subjects_for p (st_object goal) (st_relation goal)) (w\<lparr>wk_queue := rest\<rparr>)
            in case found of
                 Some s \<Rightarrow> (Found \<lparr>mt_relation = relation, mt_object = ob, mt_subject = s, mt_path = path_of w' i\<rparr>, visited + 1)
               | None \<Rightarrow> walk_loop p q relation ob (rewrites_loop p q i depth goal w') (visited + 1))"
  by pat_completeness auto
termination by (relation "measure (\<lambda>(p, q, relation, ob, w, visited). lm_max_visited (qy_limits q) - visited)") auto

declare walk_loop.simps [simp del]

definition walk_run :: "policy \<Rightarrow> query \<Rightarrow> string \<Rightarrow> object_ref \<Rightarrow> nat \<Rightarrow> search \<times> nat" where
  "walk_run p q relation ob visited = walk_loop p q relation ob (walk_push q relation ob None 0 walk_new) visited"

subsection \<open>The check\<close>

fun roots_loop :: "policy \<Rightarrow> query \<Rightarrow> (object_ref \<times> string) list \<Rightarrow> matched list \<Rightarrow> nat \<Rightarrow> matched list \<times> bool \<times> nat" where
  "roots_loop p q [] matches visited = (matches, False, visited)"
| "roots_loop p q ((ob, relation) # roots) matches visited = (case walk_run p q relation ob visited of
     (Found m, visited') \<Rightarrow> roots_loop p q roots (matches @ [m]) visited'
   | (NotFound, visited') \<Rightarrow> roots_loop p q roots matches visited'
   | (Exhausted, visited') \<Rightarrow> (matches, True, visited'))"

definition check_roots :: "query \<Rightarrow> (object_ref \<times> string) list" where
  "check_roots q = concat (map (\<lambda>ob. map (Pair ob) (os_elems (qy_relations q))) (qy_objects q))"

text \<open>\<open>None\<close>: an unfiltered binding was met, which ends the loop with full visibility.\<close>

fun views_loop :: "policy \<Rightarrow> matched list \<Rightarrow> view_filter list \<Rightarrow> string list \<Rightarrow> key_grant \<Rightarrow>
    (view_filter list \<times> string list \<times> key_grant) option" where
  "views_loop p [] filters names keys = Some (filters, names, keys)"
| "views_loop p (m # ms) filters names keys = (case binding_for p (mt_relation m) (mt_object m) of
     None \<Rightarrow> views_loop p ms filters names keys
   | Some b \<Rightarrow>
       if bd_unfiltered b then None
       else (case bd_view b of
           None \<Rightarrow> views_loop p ms filters names keys
         | Some name \<Rightarrow> (case om_get (po_views p) name of
             None \<Rightarrow> views_loop p ms filters names keys
           | Some v \<Rightarrow> views_loop p ms
               (case cv_filter v of Some f \<Rightarrow> filters @ [f] | None \<Rightarrow> filters)
               (names @ [name]) (key_intersect keys (cv_keys v)))))"

definition combine_views :: "policy \<Rightarrow> matched list \<Rightarrow> outcome" where
  "combine_views p matches = (case views_loop p matches [] [] Unrestricted of
     None \<Rightarrow> Allowed matches
   | Some (filters, names, keys) \<Rightarrow>
       (case view_combine filters of
          None \<Rightarrow> if keys = Unrestricted then Allowed matches
                   else AllowedFiltered matches \<lparr>rg_view = None, rg_keys = keys\<rparr> names
        | Some f \<Rightarrow> AllowedFiltered matches \<lparr>rg_view = Some f, rg_keys = keys\<rparr> names))"

definition check :: "policy \<Rightarrow> query \<Rightarrow> outcome" where
  "check p q =
    (if os_elems (qy_relations q) = [] then
       Denied (NoPermission (case qy_objects q of [] \<Rightarrow> ''*'' | ob # _ \<Rightarrow> ob_kind ob) (qy_action q))
     else case roots_loop p q (check_roots q) [] 0 of
       (matches, exhausted, visited) \<Rightarrow>
         if matches = [] then
           Denied (if exhausted then ExhaustedAfter visited
                   else NoPath (os_elems (qy_relations q)) (map object_text (qy_objects q)))
         else combine_views p matches)"

definition is_allowed :: "outcome \<Rightarrow> bool" where
  "is_allowed out = (case out of Denied _ \<Rightarrow> False | _ \<Rightarrow> True)"

definition render_path :: "matched \<Rightarrow> string" where
  "render_path m = foldr (\<lambda>step text. object_text (st_object step) @ CHR ''#'' # st_relation step @ '' -> '' @ text)
    (mt_path m) (subject_text (mt_subject m))"

subsection \<open>What the search decides\<close>

text \<open>
  The relation a tuple, a userset, a membership or a rewrite gives in at most \<open>n\<close> hops: the meaning of a policy,
  with no queue, no visited set and no budget.
\<close>

inductive relates :: "policy \<Rightarrow> query \<Rightarrow> nat \<Rightarrow> string \<Rightarrow> object_ref \<Rightarrow> bool" for p q where
  relates_tuple: "s \<in> set (subjects_for p ob r) \<Longrightarrow> sj_relation s = None \<Longrightarrow> holds q s \<Longrightarrow> relates p q n r ob"
| relates_userset: "s \<in> set (subjects_for p ob r) \<Longrightarrow> sj_relation s = Some u \<Longrightarrow> relates p q n u (sj_object s) \<Longrightarrow>
    relates p q (Suc n) r ob"
| relates_member: "s \<in> set (subjects_for p ob r) \<Longrightarrow> sj_relation s = None \<Longrightarrow> e \<in> set (qy_expand_relations q) \<Longrightarrow>
    relates p q n e (sj_object s) \<Longrightarrow> relates p q (Suc n) r ob"
| relates_rewrite: "rule \<in> set (rewrites_for p r (ob_kind ob)) \<Longrightarrow>
    s \<in> set (subjects_for p ob (rw_via_relation rule)) \<Longrightarrow> relates p q n (rw_on_relation rule) (sj_object s) \<Longrightarrow>
    relates p q (Suc n) r ob"

type_synonym goal = "string \<times> object_ref"

definition satisfied :: "policy \<Rightarrow> query \<Rightarrow> goal \<Rightarrow> bool" where
  "satisfied p q g \<longleftrightarrow> list_ex (\<lambda>s. sj_relation s = None \<and> holds q s) (subjects_for p (snd g) (fst g))"

definition subject_goals :: "query \<Rightarrow> subject_ref list \<Rightarrow> goal list" where
  "subject_goals q ss = concat (map (\<lambda>s. case sj_relation s of
     Some u \<Rightarrow> [(u, sj_object s)] | None \<Rightarrow> map (\<lambda>e. (e, sj_object s)) (qy_expand_relations q)) ss)"

definition rewrite_goals :: "policy \<Rightarrow> goal \<Rightarrow> goal list" where
  "rewrite_goals p g = concat (map (\<lambda>rule. map (\<lambda>s. (rw_on_relation rule, sj_object s))
     (subjects_for p (snd g) (rw_via_relation rule))) (rewrites_for p (fst g) (ob_kind (snd g))))"

definition next_goals :: "policy \<Rightarrow> query \<Rightarrow> goal \<Rightarrow> goal list" where
  "next_goals p q g = subject_goals q (subjects_for p (snd g) (fst g)) @ rewrite_goals p g"

lemma relates_goal:
  "relates p q n r ob \<longleftrightarrow> satisfied p q (r, ob) \<or>
    (\<exists>k u ob'. n = Suc k \<and> (u, ob') \<in> set (next_goals p q (r, ob)) \<and> relates p q k u ob')"
  (is "?l = ?r")
proof
  assume ?l
  then show ?r
    by (cases rule: relates.cases)
       (force simp: satisfied_def list_ex_iff next_goals_def subject_goals_def rewrite_goals_def split: option.splits)+
next
  assume ?r
  then show ?l
  proof
    assume "satisfied p q (r, ob)"
    then show ?thesis by (auto simp: satisfied_def list_ex_iff intro: relates_tuple)
  next
    assume "\<exists>k u ob'. n = Suc k \<and> (u, ob') \<in> set (next_goals p q (r, ob)) \<and> relates p q k u ob'"
    then obtain k u ob' where g: "n = Suc k" "(u, ob') \<in> set (next_goals p q (r, ob))" "relates p q k u ob'"
      by blast
    from g(2) consider (subject) s where "s \<in> set (subjects_for p ob r)" "(u, ob') \<in> set (subject_goals q [s])"
      | (rule) "(u, ob') \<in> set (rewrite_goals p (r, ob))"
      by (auto simp: next_goals_def subject_goals_def)
    then show ?thesis
    proof cases
      case subject
      then show ?thesis using g(1,3)
        by (cases "sj_relation s") (auto simp: subject_goals_def intro: relates_userset relates_member)
    next
      case rule
      then show ?thesis using g(1,3) by (auto simp: rewrite_goals_def intro: relates_rewrite)
    qed
  qed
qed

lemma relates_mono: "relates p q n r ob \<Longrightarrow> n \<le> m \<Longrightarrow> relates p q m r ob"
proof (induction n arbitrary: m r ob)
  case 0
  then show ?case using relates_goal [of p q 0 r ob] relates_goal [of p q m r ob] by simp
next
  case (Suc n)
  then obtain k where m: "m = Suc k" "n \<le> k" by (cases m) auto
  show ?case using Suc.prems(1) Suc.IH [OF _ m(2)] relates_goal [of p q "Suc n" r ob] relates_goal [of p q m r ob] m(1) by auto
qed

subsection \<open>One step of the walk\<close>

definition push_goals :: "query \<Rightarrow> nat \<Rightarrow> nat \<Rightarrow> goal list \<Rightarrow> walk \<Rightarrow> walk" where
  "push_goals q i depth gs w = fold (\<lambda>g. walk_push q (fst g) (snd g) (Some i) depth) gs w"

lemma push_goals_append: "push_goals q i depth (gs @ hs) w = push_goals q i depth hs (push_goals q i depth gs w)"
  by (simp add: push_goals_def)

lemma subjects_loop_none:
  "\<not> list_ex (\<lambda>s. sj_relation s = None \<and> holds q s) ss \<Longrightarrow>
   subjects_loop q i depth ss w = (None, push_goals q i (depth + 1) (subject_goals q ss) w)"
proof (induction ss arbitrary: w)
  case Nil
  then show ?case by (simp add: subject_goals_def push_goals_def)
next
  case (Cons s ss)
  then show ?case
    by (cases "sj_relation s") (simp_all add: subject_goals_def push_goals_def fold_map comp_def)
qed

lemma subjects_loop_some:
  assumes "list_ex (\<lambda>s. sj_relation s = None \<and> holds q s) ss"
  shows "\<exists>s gs. s \<in> set ss \<and> sj_relation s = None \<and> holds q s \<and>
    subjects_loop q i depth ss w = (Some s, push_goals q i (depth + 1) gs w)"
  using assms
proof (induction ss arbitrary: w)
  case (Cons s ss)
  show ?case
  proof (cases "sj_relation s = None \<and> holds q s")
    case True
    then show ?thesis by (intro exI [of _ s] exI [of _ "[]"]) (simp add: push_goals_def)
  next
    case False
    then have "list_ex (\<lambda>s. sj_relation s = None \<and> holds q s) ss" using Cons.prems by auto
    moreover have "subjects_loop q i depth (s # ss) w =
        subjects_loop q i depth ss (push_goals q i (depth + 1) (subject_goals q [s]) w)"
      using False by (cases "sj_relation s") (simp_all add: subject_goals_def push_goals_def fold_map comp_def)
    ultimately obtain s' gs where s: "s' \<in> set ss" "sj_relation s' = None" "holds q s'"
      "subjects_loop q i depth (s # ss) w =
        (Some s', push_goals q i (depth + 1) gs (push_goals q i (depth + 1) (subject_goals q [s]) w))"
      using Cons.IH by metis
    show ?thesis
      by (intro exI [of _ s'] exI [of _ "subject_goals q [s] @ gs"]) (simp add: s push_goals_append del: subjects_loop.simps)
  qed
qed simp

lemma rewrites_loop_goals:
  "rewrites_loop p q i depth goal w = push_goals q i (depth + 1) (rewrite_goals p (st_relation goal, st_object goal)) w"
proof -
  have "fold (\<lambda>rule. fold (\<lambda>parent. walk_push q (rw_on_relation rule) parent (Some i) (depth + 1))
        (map sj_object (subjects_for p (st_object goal) (rw_via_relation rule)))) rules w =
    push_goals q i (depth + 1) (concat (map (\<lambda>rule. map (\<lambda>s. (rw_on_relation rule, sj_object s))
     (subjects_for p (st_object goal) (rw_via_relation rule))) rules)) w" for rules
    by (induction rules arbitrary: w) (simp_all add: push_goals_def fold_map comp_def)
  then show ?thesis by (simp add: rewrites_loop_def rewrite_goals_def)
qed

definition node_goal :: "walk_node \<Rightarrow> goal" where
  "node_goal n = (st_relation (nd_step n), st_object (nd_step n))"

abbreviation goal_at :: "walk \<Rightarrow> nat \<Rightarrow> goal" where
  "goal_at w i \<equiv> node_goal (wk_nodes w ! i)"

abbreviation depth_at :: "walk \<Rightarrow> nat \<Rightarrow> nat" where
  "depth_at w i \<equiv> nd_depth (wk_nodes w ! i)"

lemma walk_loop_step:
  assumes "wk_queue w = i # rest" "visited < lm_max_visited (qy_limits q)" "\<not> satisfied p q (goal_at w i)"
  shows "walk_loop p q r ob w visited =
    walk_loop p q r ob (push_goals q i (depth_at w i + 1) (next_goals p q (goal_at w i)) (w\<lparr>wk_queue := rest\<rparr>)) (visited + 1)"
proof -
  have "subjects_loop q i (depth_at w i) (subjects_for p (snd (goal_at w i)) (fst (goal_at w i))) (w\<lparr>wk_queue := rest\<rparr>) =
    (None, push_goals q i (depth_at w i + 1) (subject_goals q (subjects_for p (snd (goal_at w i)) (fst (goal_at w i)))) (w\<lparr>wk_queue := rest\<rparr>))"
    using assms(3) subjects_loop_none unfolding satisfied_def by blast
  then show ?thesis
    using assms(1,2) by (subst walk_loop.simps) (simp add: rewrites_loop_goals next_goals_def push_goals_append node_goal_def Let_def)
qed

lemma walk_loop_found:
  assumes "wk_queue w = i # rest" "visited < lm_max_visited (qy_limits q)" "satisfied p q (goal_at w i)"
  obtains s gs where "s \<in> set (subjects_for p (snd (goal_at w i)) (fst (goal_at w i)))" "sj_relation s = None" "holds q s"
    "walk_loop p q r ob w visited = (Found \<lparr>mt_relation = r, mt_object = ob, mt_subject = s,
       mt_path = path_of (push_goals q i (depth_at w i + 1) gs (w\<lparr>wk_queue := rest\<rparr>)) i\<rparr>, visited + 1)"
proof -
  obtain s gs where s: "s \<in> set (subjects_for p (snd (goal_at w i)) (fst (goal_at w i)))" "sj_relation s = None" "holds q s"
    "subjects_loop q i (depth_at w i) (subjects_for p (snd (goal_at w i)) (fst (goal_at w i))) (w\<lparr>wk_queue := rest\<rparr>) =
      (Some s, push_goals q i (depth_at w i + 1) gs (w\<lparr>wk_queue := rest\<rparr>))"
    using subjects_loop_some assms(3) unfolding satisfied_def by blast
  then show ?thesis using assms(1,2) by (intro that [OF s(1-3)]) (subst walk_loop.simps, simp add: node_goal_def Let_def)
qed

subsection \<open>The walk's invariant\<close>

text \<open>
  Goals pushed by one node: the old nodes stay a prefix, every new node is a fresh goal at the depth pushed with
  that parent, the queue grows by the new indices, and after the push every goal within the depth bound is visited.
\<close>

definition pushes :: "query \<Rightarrow> nat option \<Rightarrow> nat \<Rightarrow> goal list \<Rightarrow> walk \<Rightarrow> walk \<Rightarrow> bool" where
  "pushes q parent depth gs w w' \<longleftrightarrow> (\<exists>ns.
     wk_nodes w' = wk_nodes w @ ns \<and>
     wk_queue w' = wk_queue w @ [length (wk_nodes w)..<length (wk_nodes w @ ns)] \<and>
     os_set (wk_visited w') = os_set (wk_visited w) \<union> node_goal ` set ns \<and>
     distinct (map node_goal ns) \<and>
     (\<forall>n \<in> set ns. nd_parent n = parent \<and> nd_depth n = depth \<and> depth \<le> lm_max_depth (qy_limits q) \<and>
        node_goal n \<in> set gs - os_set (wk_visited w)) \<and>
     (depth \<le> lm_max_depth (qy_limits q) \<longrightarrow> set gs \<subseteq> os_set (wk_visited w')))"

lemma os_member_set: "os_member x s \<longleftrightarrow> x \<in> os_set s"
  by (simp add: os_set_def os_member_def)

lemma pushes_one: "pushes q parent depth [g] w (walk_push q (fst g) (snd g) parent depth w)"
  unfolding pushes_def walk_push_def
  by (rule exI [of _ "if depth > lm_max_depth (qy_limits q) \<or> os_member g (wk_visited w) then []
      else [\<lparr>nd_step = \<lparr>st_relation = fst g, st_object = snd g\<rparr>, nd_parent = parent, nd_depth = depth\<rparr>]"])
     (auto simp: os_member_set node_goal_def)

lemma pushes_trans:
  assumes "pushes q parent depth gs w w'" "pushes q parent depth hs w' w''"
  shows "pushes q parent depth (gs @ hs) w w''"
proof -
  obtain ns where ns: "wk_nodes w' = wk_nodes w @ ns"
     "wk_queue w' = wk_queue w @ [length (wk_nodes w)..<length (wk_nodes w @ ns)]"
     "os_set (wk_visited w') = os_set (wk_visited w) \<union> node_goal ` set ns"
     "distinct (map node_goal ns)"
     "\<forall>n \<in> set ns. nd_parent n = parent \<and> nd_depth n = depth \<and> depth \<le> lm_max_depth (qy_limits q) \<and>
        node_goal n \<in> set gs - os_set (wk_visited w)"
     "depth \<le> lm_max_depth (qy_limits q) \<longrightarrow> set gs \<subseteq> os_set (wk_visited w')"
    using assms(1) unfolding pushes_def by blast
  obtain ms where ms: "wk_nodes w'' = wk_nodes w' @ ms"
     "wk_queue w'' = wk_queue w' @ [length (wk_nodes w')..<length (wk_nodes w' @ ms)]"
     "os_set (wk_visited w'') = os_set (wk_visited w') \<union> node_goal ` set ms"
     "distinct (map node_goal ms)"
     "\<forall>n \<in> set ms. nd_parent n = parent \<and> nd_depth n = depth \<and> depth \<le> lm_max_depth (qy_limits q) \<and>
        node_goal n \<in> set hs - os_set (wk_visited w')"
     "depth \<le> lm_max_depth (qy_limits q) \<longrightarrow> set hs \<subseteq> os_set (wk_visited w'')"
    using assms(2) unfolding pushes_def by blast
  have "[length (wk_nodes w)..<length (wk_nodes w @ ns)] @ [length (wk_nodes w')..<length (wk_nodes w' @ ms)] =
    [length (wk_nodes w)..<length (wk_nodes w @ ns @ ms)]"
    using upt_add_eq_append [of "length (wk_nodes w)" "length (wk_nodes w) + length ns" "length ms"] ns(1)
    by (simp add: add.assoc)
  then have queue: "wk_queue w'' = wk_queue w @ [length (wk_nodes w)..<length (wk_nodes w @ ns @ ms)]"
    using ns(2) ms(2) by simp
  have dist: "distinct (map node_goal (ns @ ms))"
    using ns(3,4) ms(4,5) by auto
  show ?thesis unfolding pushes_def
    by (rule exI [of _ "ns @ ms"], intro conjI)
       (use ns ms queue dist in \<open>simp, simp, simp add: Un_assoc image_Un, simp, auto\<close>)
qed

lemma pushes_goals: "pushes q (Some i) depth gs w (push_goals q i depth gs w)"
proof (induction gs arbitrary: w)
  case Nil
  show ?case unfolding pushes_def push_goals_def by (rule exI [of _ "[]"]) simp
next
  case (Cons g gs)
  have "push_goals q i depth (g # gs) w = push_goals q i depth gs (walk_push q (fst g) (snd g) (Some i) depth w)"
    by (simp add: push_goals_def)
  then show ?case using pushes_trans [OF pushes_one Cons, of g] by simp
qed

text \<open>
  With \<open>k\<close> nodes expanded: the queue is the rest of the nodes in order, depths do not decrease along it and
  differ by at most one from the front, every node but the root was pushed by an earlier one, and every
  expanded node is unsatisfied with its successors visited no deeper than one below it.
\<close>

definition walk_inv :: "policy \<Rightarrow> query \<Rightarrow> goal \<Rightarrow> walk \<Rightarrow> nat \<Rightarrow> bool" where
  "walk_inv p q root w k \<longleftrightarrow>
    (let len = length (wk_nodes w) in
     0 < len \<and> k \<le> len \<and> wk_queue w = [k..<len] \<and>
     os_set (wk_visited w) = node_goal ` set (wk_nodes w) \<and> distinct (map node_goal (wk_nodes w)) \<and>
     goal_at w 0 = root \<and> depth_at w 0 = 0 \<and> nd_parent (wk_nodes w ! 0) = None \<and>
     (\<forall>n \<in> set (wk_nodes w). nd_depth n \<le> lm_max_depth (qy_limits q)) \<and>
     sorted (map nd_depth (wk_nodes w)) \<and>
     (k < len \<longrightarrow> (\<forall>n \<in> set (wk_nodes w). nd_depth n \<le> Suc (depth_at w k))) \<and>
     (\<forall>j. 0 < j \<longrightarrow> j < len \<longrightarrow> (\<exists>i < j. nd_parent (wk_nodes w ! j) = Some i \<and>
        goal_at w j \<in> set (next_goals p q (goal_at w i)) \<and> depth_at w j = Suc (depth_at w i))) \<and>
     (\<forall>i < k. \<not> satisfied p q (goal_at w i) \<and>
        (depth_at w i < lm_max_depth (qy_limits q) \<longrightarrow>
          (\<forall>g \<in> set (next_goals p q (goal_at w i)). \<exists>n \<in> set (wk_nodes w). node_goal n = g \<and> nd_depth n \<le> Suc (depth_at w i)))))"

lemma walk_inv_start: "walk_inv p q (r, ob) (walk_push q r ob None 0 walk_new) 0"
  by (simp add: walk_inv_def walk_push_def walk_new_def node_goal_def)

lemma walk_inv_next:
  assumes inv: "walk_inv p q root w k" and k: "k < length (wk_nodes w)" and unsat: "\<not> satisfied p q (goal_at w k)"
    and w': "w' = push_goals q k (depth_at w k + 1) (next_goals p q (goal_at w k)) (w\<lparr>wk_queue := [Suc k..<length (wk_nodes w)]\<rparr>)"
  shows "walk_inv p q root w' (Suc k)"
proof -
  define len where "len = length (wk_nodes w)"
  have I: "0 < len" "wk_queue w = [k..<len]" "os_set (wk_visited w) = node_goal ` set (wk_nodes w)"
    "distinct (map node_goal (wk_nodes w))" "goal_at w 0 = root" "depth_at w 0 = 0" "nd_parent (wk_nodes w ! 0) = None"
    "\<forall>n \<in> set (wk_nodes w). nd_depth n \<le> lm_max_depth (qy_limits q)" "sorted (map nd_depth (wk_nodes w))"
    and gap: "\<And>n. n \<in> set (wk_nodes w) \<Longrightarrow> nd_depth n \<le> Suc (depth_at w k)"
    and par: "\<And>j. 0 < j \<Longrightarrow> j < len \<Longrightarrow> \<exists>i < j. nd_parent (wk_nodes w ! j) = Some i \<and>
        goal_at w j \<in> set (next_goals p q (goal_at w i)) \<and> depth_at w j = Suc (depth_at w i)"
    and old: "\<And>i. i < k \<Longrightarrow> \<not> satisfied p q (goal_at w i) \<and> (depth_at w i < lm_max_depth (qy_limits q) \<longrightarrow>
          (\<forall>g \<in> set (next_goals p q (goal_at w i)). \<exists>n \<in> set (wk_nodes w). node_goal n = g \<and> nd_depth n \<le> Suc (depth_at w i)))"
    using inv k unfolding walk_inv_def Let_def len_def by auto
  obtain ns where ns: "wk_nodes w' = wk_nodes w @ ns" "wk_queue w' = [Suc k..<len] @ [len..<len + length ns]"
     "os_set (wk_visited w') = os_set (wk_visited w) \<union> node_goal ` set ns" "distinct (map node_goal ns)"
     and new: "\<And>n. n \<in> set ns \<Longrightarrow> nd_parent n = Some k \<and> nd_depth n = Suc (depth_at w k) \<and>
        Suc (depth_at w k) \<le> lm_max_depth (qy_limits q) \<and>
        node_goal n \<in> set (next_goals p q (goal_at w k)) - os_set (wk_visited w)"
     and seen: "Suc (depth_at w k) \<le> lm_max_depth (qy_limits q) \<longrightarrow>
        set (next_goals p q (goal_at w k)) \<subseteq> os_set (wk_visited w')"
    using pushes_goals [of q k "depth_at w k + 1" "next_goals p q (goal_at w k)" "w\<lparr>wk_queue := [Suc k..<length (wk_nodes w)]\<rparr>"]
    unfolding pushes_def w' [symmetric] len_def by auto
  have nth: "wk_nodes w' ! j = wk_nodes w ! j" if "j < len" for j
    using that by (simp add: ns(1) len_def nth_append)
  have depth': "nd_depth n \<le> Suc (depth_at w k)" if "n \<in> set (wk_nodes w')" for n
    using that gap new by (auto simp: ns(1))
  have visited': "os_set (wk_visited w') = node_goal ` set (wk_nodes w')" using ns(1,3) I(3) by auto
  have A: "wk_queue w' = [Suc k..<len + length ns]"
    using ns(2) k upt_add_eq_append [of "Suc k" len "length ns"] by (simp add: len_def)
  have B: "distinct (map node_goal (wk_nodes w'))" 
  proof -
    have "node_goal ` set ns \<inter> node_goal ` set (wk_nodes w) = {}" using new I(3) by blast
    then show ?thesis using I(4) ns(1,4) by (simp add: Int_commute)
  qed
  have C: "sorted (map nd_depth (wk_nodes w'))"
  proof -
    have "map nd_depth ns = replicate (length ns) (Suc (depth_at w k))" using new by (auto intro!: map_replicate_const [THEN trans] simp: list_eq_iff_nth_eq)
    then show ?thesis using I(9) gap by (auto simp: ns(1) sorted_append new)
  qed
  have D: "nd_depth n \<le> Suc (depth_at w' (Suc k))" if "Suc k < length (wk_nodes w')" "n \<in> set (wk_nodes w')" for n
  proof -
    have "depth_at w' k \<le> depth_at w' (Suc k)" using sorted_nth_mono [OF C, of k "Suc k"] that(1) by simp
    then show ?thesis using depth' [OF that(2)] nth [of k] k by (simp add: len_def)
  qed
  have E: "\<exists>i < j. nd_parent (wk_nodes w' ! j) = Some i \<and>
      goal_at w' j \<in> set (next_goals p q (goal_at w' i)) \<and> depth_at w' j = Suc (depth_at w' i)"
    if j: "0 < j" "j < length (wk_nodes w')" for j
  proof (cases "j < len")
    case True
    then obtain i where i: "i < j" "nd_parent (wk_nodes w ! j) = Some i"
      "goal_at w j \<in> set (next_goals p q (goal_at w i))" "depth_at w j = Suc (depth_at w i)"
      using par [OF j(1) True] by blast
    then show ?thesis using nth [OF True] nth [of i] True by (intro exI [of _ i]) simp
  next
    case False
    then have "wk_nodes w' ! j \<in> set ns" using j(2) by (simp add: ns(1) nth_append len_def)
    then show ?thesis using new nth [of k] k False by (intro exI [of _ k]) (auto simp: len_def)
  qed
  have F: "\<not> satisfied p q (goal_at w' i) \<and> (depth_at w' i < lm_max_depth (qy_limits q) \<longrightarrow>
      (\<forall>g \<in> set (next_goals p q (goal_at w' i)). \<exists>n \<in> set (wk_nodes w'). node_goal n = g \<and> nd_depth n \<le> Suc (depth_at w' i)))"
    if i: "i < Suc k" for i
  proof (cases "i = k")
    case True
    have "\<exists>n \<in> set (wk_nodes w'). node_goal n = g \<and> nd_depth n \<le> Suc (depth_at w k)"
      if "depth_at w k < lm_max_depth (qy_limits q)" "g \<in> set (next_goals p q (goal_at w k))" for g
      using that seen visited' depth' by (metis (no_types, lifting) Suc_leI image_iff subsetD)
    then show ?thesis using True unsat nth [of k] k by (simp add: len_def)
  next
    case False
    then have "i < k" "i < len" using i k by (auto simp: len_def)
    then show ?thesis using old [of i] nth [of i] by (auto simp: ns(1))
  qed
  show ?thesis unfolding walk_inv_def Let_def
    using A B C D E F visited' I(1,5-8) nth [of 0] new k
    by (intro conjI) (auto simp: ns(1) len_def)
qed

subsection \<open>Soundness, completeness and cost of the walk\<close>

lemma walk_inv_parent:
  assumes "walk_inv p q root w k" "0 < j" "j < length (wk_nodes w)"
  obtains i where "i < j" "nd_parent (wk_nodes w ! j) = Some i"
    "goal_at w j \<in> set (next_goals p q (goal_at w i))" "depth_at w j = Suc (depth_at w i)"
  using assms unfolding walk_inv_def Let_def by blast

text \<open>What holds at a node holds at the root, that many hops further.\<close>

lemma relates_from_root:
  assumes inv: "walk_inv p q (r, ob) w k"
  shows "j < length (wk_nodes w) \<Longrightarrow> relates p q n (fst (goal_at w j)) (snd (goal_at w j)) \<Longrightarrow> relates p q (n + depth_at w j) r ob"
proof (induction j arbitrary: n rule: less_induct)
  case (less j)
  show ?case
  proof (cases "j = 0")
    case True
    then show ?thesis using less.prems(2) inv by (auto simp: walk_inv_def Let_def)
  next
    case False
    then obtain i where i: "i < j" "goal_at w j \<in> set (next_goals p q (goal_at w i))" "depth_at w j = Suc (depth_at w i)"
      using walk_inv_parent [OF inv _ less.prems(1)] by blast
    have "relates p q (Suc n) (fst (goal_at w i)) (snd (goal_at w i))"
      using relates_goal [of p q "Suc n" "fst (goal_at w i)" "snd (goal_at w i)"] i(2) less.prems(2)
      by (metis prod.collapse)
    then show ?thesis using less.IH [OF i(1), of "Suc n"] i(1,3) less.prems(1) by simp
  qed
qed

text \<open>Once every node is expanded, no node within the bound relates anything.\<close>

lemma relates_none:
  assumes inv: "walk_inv p q root w (length (wk_nodes w))"
  shows "j < length (wk_nodes w) \<Longrightarrow> depth_at w j + n \<le> lm_max_depth (qy_limits q) \<Longrightarrow>
    \<not> relates p q n (fst (goal_at w j)) (snd (goal_at w j))"
proof (induction n arbitrary: j)
  case 0
  then show ?case using inv relates_goal [of p q 0] unfolding walk_inv_def Let_def by simp
next
  case (Suc n)
  have j: "\<not> satisfied p q (goal_at w j)" and succ:
    "\<And>g. g \<in> set (next_goals p q (goal_at w j)) \<Longrightarrow> \<exists>n \<in> set (wk_nodes w). node_goal n = g \<and> nd_depth n \<le> Suc (depth_at w j)"
    using inv Suc.prems unfolding walk_inv_def Let_def by simp_all
  show ?case
  proof
    assume "relates p q (Suc n) (fst (goal_at w j)) (snd (goal_at w j))"
    then obtain u ob' where g: "(u, ob') \<in> set (next_goals p q (goal_at w j))" "relates p q n u ob'"
      using j relates_goal [of p q "Suc n" "fst (goal_at w j)" "snd (goal_at w j)"] by auto
    from succ [OF g(1)] obtain i where i: "i < length (wk_nodes w)" "goal_at w i = (u, ob')" "depth_at w i \<le> Suc (depth_at w j)"
      by (auto simp: in_set_conv_nth)
    show False using Suc.IH [OF i(1)] i(2,3) g(2) Suc.prems(2) by simp
  qed
qed

text \<open>The path a match carries leads from the target to the tuple that granted it.\<close>

definition step_goal :: "path_step \<Rightarrow> goal" where
  "step_goal s = (st_relation s, st_object s)"

fun chained :: "policy \<Rightarrow> query \<Rightarrow> path_step list \<Rightarrow> bool" where
  "chained p q (s # t # steps) \<longleftrightarrow> step_goal s \<in> set (next_goals p q (step_goal t)) \<and> chained p q (t # steps)"
| "chained p q _ \<longleftrightarrow> True"

definition match_valid :: "policy \<Rightarrow> query \<Rightarrow> matched \<Rightarrow> bool" where
  "match_valid p q m \<longleftrightarrow> mt_path m \<noteq> [] \<and> step_goal (hd (mt_path m)) = (mt_relation m, mt_object m) \<and>
    length (mt_path m) \<le> Suc (lm_max_depth (qy_limits q)) \<and> chained p q (rev (mt_path m)) \<and>
    mt_subject m \<in> set (subjects_for p (st_object (last (mt_path m))) (st_relation (last (mt_path m)))) \<and>
    sj_relation (mt_subject m) = None \<and> holds q (mt_subject m)"

lemma path_up_prefix: "i < length nodes \<Longrightarrow> path_up (nodes @ ns) i = path_up nodes i"
proof (induction i rule: less_induct)
  case (less i)
  then show ?case
    by (subst (1 2) path_up.simps) (auto simp: nth_append split: option.splits)
qed

lemma path_up_walk:
  assumes inv: "walk_inv p q root w k"
  shows "j < length (wk_nodes w) \<Longrightarrow> \<exists>steps. path_up (wk_nodes w) j = nd_step (wk_nodes w ! j) # steps \<and>
    chained p q (path_up (wk_nodes w) j) \<and> step_goal (last (path_up (wk_nodes w) j)) = root \<and>
    length (path_up (wk_nodes w) j) = Suc (depth_at w j)"
proof (induction j rule: less_induct)
  case (less j)
  show ?case
  proof (cases "j = 0")
    case True
    then have "path_up (wk_nodes w) j = [nd_step (wk_nodes w ! j)]"
      using inv less.prems by (subst path_up.simps) (auto simp: walk_inv_def Let_def)
    then show ?thesis using inv True by (auto simp: walk_inv_def Let_def step_goal_def node_goal_def)
  next
    case False
    then obtain i where i: "i < j" "nd_parent (wk_nodes w ! j) = Some i"
      "goal_at w j \<in> set (next_goals p q (goal_at w i))" "depth_at w j = Suc (depth_at w i)"
      using walk_inv_parent [OF inv _ less.prems] by blast
    then have up: "path_up (wk_nodes w) j = nd_step (wk_nodes w ! j) # path_up (wk_nodes w) i"
      using less.prems by (subst path_up.simps) simp
    obtain steps where steps: "path_up (wk_nodes w) i = nd_step (wk_nodes w ! i) # steps"
      "chained p q (path_up (wk_nodes w) i)" "step_goal (last (path_up (wk_nodes w) i)) = root"
      "length (path_up (wk_nodes w) i) = Suc (depth_at w i)"
      using less.IH [OF i(1)] i(1) less.prems by auto
    show ?thesis using up steps i(3,4) by (auto simp: step_goal_def node_goal_def)
  qed
qed

lemma match_valid_found:
  assumes inv: "walk_inv p q (r, ob) w k" and k: "k < length (wk_nodes w)"
    and s: "s \<in> set (subjects_for p (snd (goal_at w k)) (fst (goal_at w k)))" "sj_relation s = None" "holds q s"
    and w': "wk_nodes w' = wk_nodes w @ ns"
  shows "match_valid p q \<lparr>mt_relation = r, mt_object = ob, mt_subject = s, mt_path = path_of w' k\<rparr>"
proof -
  obtain steps where steps: "path_up (wk_nodes w) k = nd_step (wk_nodes w ! k) # steps"
    "chained p q (path_up (wk_nodes w) k)" "step_goal (last (path_up (wk_nodes w) k)) = (r, ob)"
    "length (path_up (wk_nodes w) k) = Suc (depth_at w k)"
    using path_up_walk [OF inv k] by blast
  have path: "path_of w' k = rev (path_up (wk_nodes w) k)" using path_up_prefix [OF k] by (simp add: path_of_def w')
  have "depth_at w k \<le> lm_max_depth (qy_limits q)" using inv k by (simp add: walk_inv_def Let_def)
  moreover have "last (path_of w' k) = nd_step (wk_nodes w ! k)" using steps(1) path by simp
  moreover have "hd (path_of w' k) = last (path_up (wk_nodes w) k)" using steps(1) path by (simp add: hd_rev)
  ultimately show ?thesis using steps path s by (simp add: match_valid_def node_goal_def)
qed

lemma walk_loop_correct:
  assumes "walk_inv p q (r, ob) w k"
  shows "case fst (walk_loop p q r ob w visited) of
      Found m \<Rightarrow> relates p q (lm_max_depth (qy_limits q)) r ob \<and> mt_relation m = r \<and> mt_object m = ob \<and> match_valid p q m
    | NotFound \<Rightarrow> \<not> relates p q (lm_max_depth (qy_limits q)) r ob
    | Exhausted \<Rightarrow> lm_max_visited (qy_limits q) \<le> snd (walk_loop p q r ob w visited)"
  using assms
proof (induction "lm_max_visited (qy_limits q) - visited" arbitrary: w k visited rule: less_induct)
  case less
  have inv: "walk_inv p q (r, ob) w k" by fact
  then have queue: "wk_queue w = [k..<length (wk_nodes w)]" "k \<le> length (wk_nodes w)" "0 < length (wk_nodes w)"
    "goal_at w 0 = (r, ob)" "depth_at w 0 = 0"
    by (simp_all add: walk_inv_def Let_def)
  show ?case
  proof (cases "k = length (wk_nodes w)")
    case True
    then have "walk_loop p q r ob w visited = (NotFound, visited)" using queue by (subst walk_loop.simps) simp
    then show ?thesis using relates_none [OF inv [unfolded True] queue(3)] queue(4,5) by simp
  next
    case False
    then have k: "k < length (wk_nodes w)" "wk_queue w = k # [Suc k..<length (wk_nodes w)]"
      using queue by (auto simp: upt_rec)
    show ?thesis
    proof (cases "visited < lm_max_visited (qy_limits q)")
      case False
      then have "walk_loop p q r ob w visited = (Exhausted, visited)" using k(2) by (subst walk_loop.simps) simp
      then show ?thesis using False by simp
    next
      case budget: True
      show ?thesis
      proof (cases "satisfied p q (goal_at w k)")
        case True
        obtain s gs where s: "s \<in> set (subjects_for p (snd (goal_at w k)) (fst (goal_at w k)))" "sj_relation s = None" "holds q s"
          "walk_loop p q r ob w visited = (Found \<lparr>mt_relation = r, mt_object = ob, mt_subject = s,
            mt_path = path_of (push_goals q k (depth_at w k + 1) gs (w\<lparr>wk_queue := [Suc k..<length (wk_nodes w)]\<rparr>)) k\<rparr>, visited + 1)"
          using walk_loop_found [OF k(2) budget True] .
        obtain ns where "wk_nodes (push_goals q k (depth_at w k + 1) gs (w\<lparr>wk_queue := [Suc k..<length (wk_nodes w)]\<rparr>)) = wk_nodes w @ ns"
          using pushes_goals [of q k "depth_at w k + 1" gs "w\<lparr>wk_queue := [Suc k..<length (wk_nodes w)]\<rparr>"]
          unfolding pushes_def by auto
        then have "match_valid p q \<lparr>mt_relation = r, mt_object = ob, mt_subject = s,
            mt_path = path_of (push_goals q k (depth_at w k + 1) gs (w\<lparr>wk_queue := [Suc k..<length (wk_nodes w)]\<rparr>)) k\<rparr>"
          by (rule match_valid_found [OF inv k(1) s(1-3)])
        moreover have "relates p q (lm_max_depth (qy_limits q)) r ob"
        proof -
          have "relates p q 0 (fst (goal_at w k)) (snd (goal_at w k))" using True relates_goal [of p q 0] by simp
          moreover have "depth_at w k \<le> lm_max_depth (qy_limits q)" using inv k(1) by (simp add: walk_inv_def Let_def)
          ultimately show ?thesis using relates_mono [OF relates_from_root [OF inv k(1), of 0]] by simp
        qed
        ultimately show ?thesis using s(4) by simp
      next
        case False
        show ?thesis
          unfolding walk_loop_step [OF k(2) budget False]
          by (rule less.hyps [OF _ walk_inv_next [OF inv k(1) False refl]]) (use budget in simp)
      qed
    qed
  qed
qed

end
