(* ===== verification/Authz_Check.thy ===== *)
theory Authz_Check
  imports Authz_Eval
begin

text \<open>
  What a whole check answers: the budget that is enough for every search to end, that the answer is then the meaning
  of the policy, what the views of the granted relations let a caller see, and what happens when the budget runs out.
\<close>

subsection \<open>The budget\<close>

lemma walk_loop_spends: "snd (walk_loop p q r ob w visited) \<le> max visited (lm_max_visited (qy_limits q))"
proof (induction p q r ob w visited rule: walk_loop.induct)
  case (1 p q r ob w visited)
  show ?case
    by (subst walk_loop.simps) (auto simp: Let_def not_le split: list.splits prod.splits option.splits dest!: 1)
qed

text \<open>
  The same loops, which also collect the goals they expand. They return what the loops of the code return, and the
  counter of the code counts what they collect.
\<close>

function walk_traced :: "policy \<Rightarrow> query \<Rightarrow> string \<Rightarrow> object_ref \<Rightarrow> walk \<Rightarrow> nat \<Rightarrow> path_step list \<Rightarrow> (search \<times> nat) \<times> path_step list" where
  "walk_traced p q relation ob w visited trace = (case wk_queue w of
     [] \<Rightarrow> ((NotFound, visited), trace)
   | i # rest \<Rightarrow>
       if visited \<ge> lm_max_visited (qy_limits q) then ((Exhausted, visited), trace)
       else let goal = nd_step (wk_nodes w ! i);
                depth = nd_depth (wk_nodes w ! i);
                (found, w') = subjects_loop q i depth (subjects_for p (st_object goal) (st_relation goal)) (w\<lparr>wk_queue := rest\<rparr>)
            in case found of
                 Some s \<Rightarrow> ((Found \<lparr>mt_relation = relation, mt_object = ob, mt_subject = s, mt_path = path_of w' i\<rparr>, visited + 1), trace @ [goal])
               | None \<Rightarrow> walk_traced p q relation ob (rewrites_loop p q i depth goal w') (visited + 1) (trace @ [goal]))"
  by pat_completeness auto
termination by (relation "measure (\<lambda>(p, q, relation, ob, w, visited, trace). lm_max_visited (qy_limits q) - visited)") auto

declare walk_traced.simps [simp del]

fun roots_traced :: "policy \<Rightarrow> query \<Rightarrow> (object_ref \<times> string) list \<Rightarrow> matched list \<Rightarrow> nat \<Rightarrow> path_step list \<Rightarrow>
    (matched list \<times> bool \<times> nat) \<times> path_step list" where
  "roots_traced p q [] matches visited trace = ((matches, False, visited), trace)"
| "roots_traced p q ((ob, relation) # roots) matches visited trace =
    (case walk_traced p q relation ob (walk_push q relation ob None 0 walk_new) visited trace of
       ((Found m, visited'), trace') \<Rightarrow> roots_traced p q roots (matches @ [m]) visited' trace'
     | ((NotFound, visited'), trace') \<Rightarrow> roots_traced p q roots matches visited' trace'
     | ((Exhausted, visited'), trace') \<Rightarrow> ((matches, True, visited'), trace'))"

lemma walk_traced_erases:
  "\<exists>more. walk_traced p q relation ob w visited trace = (walk_loop p q relation ob w visited, trace @ more) \<and>
    snd (walk_loop p q relation ob w visited) = visited + length more"
proof (induction p q relation ob w visited trace rule: walk_traced.induct)
  case (1 p q relation ob w visited trace)
  show ?case
  proof (cases "wk_queue w")
    case Nil
    then show ?thesis by (simp add: walk_traced.simps walk_loop.simps)
  next
    case (Cons i rest)
    let ?goal = "nd_step (wk_nodes w ! i)" and ?depth = "nd_depth (wk_nodes w ! i)"
    show ?thesis
    proof (cases "lm_max_visited (qy_limits q) \<le> visited")
      case True
      then show ?thesis using Cons by (simp add: walk_traced.simps walk_loop.simps)
    next
      case False
      obtain found w' where loop: "subjects_loop q i ?depth (subjects_for p (st_object ?goal) (st_relation ?goal)) (w\<lparr>wk_queue := rest\<rparr>) = (found, w')"
        by fastforce
      show ?thesis
      proof (cases found)
        case (Some s)
        then show ?thesis using Cons False loop
          by (subst walk_traced.simps, subst (1 2) walk_loop.simps) (simp add: Let_def)
      next
        case None
        let ?w = "rewrites_loop p q i ?depth ?goal w'"
        have loop': "walk_loop p q relation ob w visited = walk_loop p q relation ob ?w (visited + 1)"
          using Cons False loop None by (subst walk_loop.simps) (simp add: Let_def)
        have traced: "walk_traced p q relation ob w visited trace = walk_traced p q relation ob ?w (visited + 1) (trace @ [?goal])"
          using Cons False loop None by (subst walk_traced.simps) (simp add: Let_def)
        obtain more where "walk_traced p q relation ob ?w (visited + 1) (trace @ [?goal]) = (walk_loop p q relation ob ?w (visited + 1), (trace @ [?goal]) @ more)"
            "snd (walk_loop p q relation ob ?w (visited + 1)) = visited + 1 + length more"
          using 1 [OF Cons False refl refl loop [symmetric] refl None] by blast
        then show ?thesis unfolding loop' traced by (intro exI [of _ "?goal # more"]) simp
      qed
    qed
  qed
qed

lemma roots_traced_erases:
  "\<exists>more. roots_traced p q roots matches visited trace = (roots_loop p q roots matches visited, trace @ more) \<and>
    snd (snd (roots_loop p q roots matches visited)) = visited + length more"
proof (induction roots arbitrary: matches visited trace)
  case (Cons root roots)
  obtain ob r where root: "root = (ob, r)" by fastforce
  let ?w = "walk_push q r ob None 0 walk_new"
  obtain s v where run: "walk_loop p q r ob ?w visited = (s, v)" by fastforce
  obtain more where more: "walk_traced p q r ob ?w visited trace = ((s, v), trace @ more)" "v = visited + length more"
    using walk_traced_erases [of p q r ob ?w visited trace] run by auto
  show ?case
  proof (cases s)
    case (Found m)
    obtain more' where "roots_traced p q roots (matches @ [m]) v (trace @ more) = (roots_loop p q roots (matches @ [m]) v, (trace @ more) @ more')"
        "snd (snd (roots_loop p q roots (matches @ [m]) v)) = v + length more'"
      using Cons.IH by blast
    then show ?thesis using root run more Found by (intro exI [of _ "more @ more'"]) (simp add: walk_run_def)
  next
    case NotFound
    obtain more' where "roots_traced p q roots matches v (trace @ more) = (roots_loop p q roots matches v, (trace @ more) @ more')"
        "snd (snd (roots_loop p q roots matches v)) = v + length more'"
      using Cons.IH by blast
    then show ?thesis using root run more NotFound by (intro exI [of _ "more @ more'"]) (simp add: walk_run_def)
  next
    case Exhausted
    then show ?thesis using root run more by (intro exI [of _ more]) (simp add: walk_run_def)
  qed
qed simp

text \<open>Every goal a walk can meet: the roots, and a relation some rule names on an object some tuple names.\<close>

definition policy_goals :: "policy \<Rightarrow> query \<Rightarrow> goal list" where
  "policy_goals p q = (let subjects = concat (om_values (po_by_object p)) in
     map prod.swap (check_roots q) @
     List.product (qy_expand_relations q @ List.map_filter sj_relation subjects @
         map rw_on_relation (concat (om_values (po_rewrites p)))) (map sj_object subjects))"

lemma subjects_for_known: "s \<in> set (subjects_for p ob r) \<Longrightarrow> s \<in> set (concat (om_values (po_by_object p)))"
  by (force simp: subjects_for_def tuples_on_def om_values_iff split: option.splits if_splits)

lemma rewrites_for_known: "rule \<in> set (rewrites_for p r kind) \<Longrightarrow> rule \<in> set (concat (om_values (po_rewrites p)))"
  by (force simp: rewrites_for_def om_values_iff split: option.splits)

lemma policy_goals_closed: "set (next_goals p q g) \<subseteq> set (policy_goals p q)"
proof
  fix x assume "x \<in> set (next_goals p q g)"
  then consider (subject) s where "s \<in> set (subjects_for p (snd g) (fst g))" "x \<in> set (subject_goals q [s])"
    | (rule) rule s where "rule \<in> set (rewrites_for p (fst g) (ob_kind (snd g)))"
        "s \<in> set (subjects_for p (snd g) (rw_via_relation rule))" "x = (rw_on_relation rule, sj_object s)"
    by (auto simp: next_goals_def subject_goals_def rewrite_goals_def)
  then show "x \<in> set (policy_goals p q)"
  proof cases
    case subject
    have known: "s \<in> set (concat (om_values (po_by_object p)))" by (rule subjects_for_known [OF subject(1)])
    show ?thesis
    proof (cases "sj_relation s")
      case None
      then obtain e where "e \<in> set (qy_expand_relations q)" "x = (e, sj_object s)"
        using subject(2) by (auto simp: subject_goals_def)
      then show ?thesis using known unfolding policy_goals_def Let_def set_append set_product set_map by blast
    next
      case (Some u)
      then have "u \<in> set (List.map_filter sj_relation (concat (om_values (po_by_object p))))" "x = (u, sj_object s)"
        using subject(2) known by (force simp: subject_goals_def map_filter_def)+
      then show ?thesis using known unfolding policy_goals_def Let_def set_append set_product set_map by blast
    qed
  next
    case rule
    then show ?thesis using subjects_for_known [OF rule(2)] rewrites_for_known [OF rule(1)]
      unfolding policy_goals_def Let_def set_append set_product set_map by blast
  qed
qed

lemma walk_nodes_known:
  assumes inv: "walk_inv p q root w k" and root: "root \<in> set (policy_goals p q)"
  shows "length (wk_nodes w) \<le> length (policy_goals p q)"
proof -
  have "goal_at w j \<in> set (policy_goals p q)" if j: "j < length (wk_nodes w)" for j
  proof (cases "j = 0")
    case True
    then show ?thesis using inv root by (simp add: walk_inv_def Let_def)
  next
    case False
    then obtain i where "goal_at w j \<in> set (next_goals p q (goal_at w i))"
      using walk_inv_parent [OF inv _ j] by blast
    then show ?thesis using policy_goals_closed by (rule rev_subsetD)
  qed
  then have "set (map node_goal (wk_nodes w)) \<subseteq> set (policy_goals p q)" by (auto simp: in_set_conv_nth)
  then have "card (set (map node_goal (wk_nodes w))) \<le> card (set (policy_goals p q))" by (simp add: card_mono)
  then show ?thesis using inv distinct_card [of "map node_goal (wk_nodes w)"] card_length [of "policy_goals p q"]
    by (simp add: walk_inv_def Let_def)
qed

lemma walk_loop_enough:
  assumes "walk_inv p q (r, ob) w k" "(r, ob) \<in> set (policy_goals p q)"
    "visited + (length (policy_goals p q) - k) \<le> lm_max_visited (qy_limits q)"
  shows "fst (walk_loop p q r ob w visited) \<noteq> Exhausted \<and>
    snd (walk_loop p q r ob w visited) \<le> visited + (length (policy_goals p q) - k)"
  using assms(1,3)
proof (induction "lm_max_visited (qy_limits q) - visited" arbitrary: w k visited rule: less_induct)
  case less
  have inv: "walk_inv p q (r, ob) w k" by fact
  then have queue: "wk_queue w = [k..<length (wk_nodes w)]" "k \<le> length (wk_nodes w)"
    by (simp_all add: walk_inv_def Let_def)
  show ?case
  proof (cases "k = length (wk_nodes w)")
    case True
    then show ?thesis using queue by (subst (1 2) walk_loop.simps) simp
  next
    case False
    then have k: "k < length (wk_nodes w)" "wk_queue w = k # [Suc k..<length (wk_nodes w)]"
      using queue by (auto simp: upt_rec)
    have room: "k < length (policy_goals p q)" using walk_nodes_known [OF inv assms(2)] k(1) by simp
    then have budget: "visited < lm_max_visited (qy_limits q)" using less.prems(2) by simp
    show ?thesis
    proof (cases "satisfied p q (goal_at w k)")
      case True
      then show ?thesis using walk_loop_found [OF k(2) budget True] room by (metis One_nat_def Suc_leI fst_conv nat_add_left_cancel_le search.distinct(3) snd_conv zero_less_diff)
    next
      case False
      have "fst (walk_loop p q r ob w visited) \<noteq> Exhausted \<and>
        snd (walk_loop p q r ob w visited) \<le> (visited + 1) + (length (policy_goals p q) - Suc k)"
        unfolding walk_loop_step [OF k(2) budget False]
        by (rule less.hyps [OF _ walk_inv_next [OF inv k(1) False refl]]) (use budget less.prems(2) room in simp_all)
      then show ?thesis using room by linarith
    qed
  qed
qed

subsection \<open>The whole check\<close>

abbreviation granted :: "policy \<Rightarrow> query \<Rightarrow> object_ref \<times> string \<Rightarrow> bool" where
  "granted p q root \<equiv> relates p q (lm_max_depth (qy_limits q)) (snd root) (fst root)"

definition match_root :: "matched \<Rightarrow> object_ref \<times> string" where
  "match_root m = (mt_object m, mt_relation m)"

lemma roots_loop_correct:
  assumes "roots_loop p q roots ms visited = (ms', exhausted, visited')" "list_all (match_valid p q) ms"
  shows "\<exists>searched rest. roots = searched @ rest \<and> (\<not> exhausted \<longrightarrow> rest = []) \<and>
    map match_root ms' = map match_root ms @ filter (granted p q) searched \<and> list_all (match_valid p q) ms'"
  using assms
proof (induction roots arbitrary: ms visited)
  case Nil
  then show ?case by auto
next
  case (Cons root roots)
  obtain ob r where root: "root = (ob, r)" by fastforce
  have ok: "case fst (walk_run p q r ob visited) of
      Found m \<Rightarrow> relates p q (lm_max_depth (qy_limits q)) r ob \<and> mt_relation m = r \<and> mt_object m = ob \<and> match_valid p q m
    | NotFound \<Rightarrow> \<not> relates p q (lm_max_depth (qy_limits q)) r ob
    | Exhausted \<Rightarrow> lm_max_visited (qy_limits q) \<le> snd (walk_run p q r ob visited)"
    unfolding walk_run_def by (rule walk_loop_correct [OF walk_inv_start])
  obtain s v where run: "walk_run p q r ob visited = (s, v)" by fastforce
  show ?case
  proof (cases s)
    case (Found m)
    then have m: "roots_loop p q roots (ms @ [m]) v = (ms', exhausted, visited')" "granted p q root"
        "match_root m = root" "match_valid p q m"
      using Cons.prems(1) ok run root by (simp_all add: match_root_def)
    obtain searched rest where "roots = searched @ rest" "\<not> exhausted \<longrightarrow> rest = []" "list_all (match_valid p q) ms'"
      "map match_root ms' = map match_root (ms @ [m]) @ filter (granted p q) searched"
      using Cons.IH [OF m(1)] Cons.prems(2) m(4) by auto
    then show ?thesis using m by (intro exI [of _ "root # searched"] exI [of _ rest]) simp
  next
    case NotFound
    then have m: "roots_loop p q roots ms v = (ms', exhausted, visited')" "\<not> granted p q root"
      using Cons.prems(1) ok run root by simp_all
    obtain searched rest where "roots = searched @ rest" "\<not> exhausted \<longrightarrow> rest = []" "list_all (match_valid p q) ms'"
      "map match_root ms' = map match_root ms @ filter (granted p q) searched"
      using Cons.IH [OF m(1) Cons.prems(2)] by auto
    then show ?thesis using m by (intro exI [of _ "root # searched"] exI [of _ rest]) simp
  next
    case Exhausted
    then show ?thesis using Cons.prems run root by (intro exI [of _ "[]"] exI [of _ "root # roots"]) simp
  qed
qed

lemma roots_loop_spends:
  "visited \<le> lm_max_visited (qy_limits q) \<Longrightarrow> snd (snd (roots_loop p q roots ms visited)) \<le> lm_max_visited (qy_limits q)"
proof (induction roots arbitrary: ms visited)
  case (Cons root roots)
  obtain ob r where root: "root = (ob, r)" by fastforce
  obtain s v where run: "walk_run p q r ob visited = (s, v)" by fastforce
  have "v \<le> lm_max_visited (qy_limits q)"
    using walk_loop_spends [of p q r ob "walk_push q r ob None 0 walk_new" visited] Cons.prems run by (simp add: walk_run_def max_def)
  then show ?case using Cons.IH run root by (cases s) simp_all
qed simp

lemma roots_loop_exhausted:
  "roots_loop p q roots ms visited = (ms', True, visited') \<Longrightarrow> lm_max_visited (qy_limits q) \<le> visited'"
proof (induction roots arbitrary: ms visited)
  case (Cons root roots)
  obtain ob r where root: "root = (ob, r)" by fastforce
  obtain s v where run: "walk_run p q r ob visited = (s, v)" by fastforce
  have "s = Exhausted \<Longrightarrow> lm_max_visited (qy_limits q) \<le> v"
    using walk_loop_correct [OF walk_inv_start [of p q r ob], of visited] run by (auto simp: walk_run_def)
  then show ?case using Cons run root by (cases s) auto
qed simp

lemma roots_loop_enough:
  assumes "\<forall>root \<in> set roots. prod.swap root \<in> set (policy_goals p q)"
    "visited + length roots * length (policy_goals p q) \<le> lm_max_visited (qy_limits q)"
  shows "\<not> fst (snd (roots_loop p q roots ms visited))"
  using assms
proof (induction roots arbitrary: ms visited)
  case (Cons root roots)
  obtain ob r where root: "root = (ob, r)" by fastforce
  obtain s v where run: "walk_run p q r ob visited = (s, v)" by fastforce
  have "s \<noteq> Exhausted \<and> v \<le> visited + length (policy_goals p q)"
    using walk_loop_enough [OF walk_inv_start [of p q r ob], of visited] Cons.prems run root by (simp add: walk_run_def)
  then show ?case using Cons.IH [of v] Cons.prems run root by (cases s) simp_all
qed simp

lemma check_roots_iff: "(ob, r) \<in> set (check_roots q) \<longleftrightarrow> ob \<in> set (qy_objects q) \<and> os_member r (qy_relations q)"
  by (auto simp: check_roots_def image_iff)

lemma check_roots_enough:
  assumes "length (check_roots q) * length (policy_goals p q) \<le> lm_max_visited (qy_limits q)"
  obtains ms visited where "roots_loop p q (check_roots q) [] 0 = (ms, False, visited)"
    "map match_root ms = filter (granted p q) (check_roots q)"
proof -
  obtain ms ex visited where run: "roots_loop p q (check_roots q) [] 0 = (ms, ex, visited)" by (rule prod_cases3)
  have "\<forall>root \<in> set (check_roots q). prod.swap root \<in> set (policy_goals p q)" by (auto simp: policy_goals_def Let_def)
  then have "\<not> ex" using roots_loop_enough [of "check_roots q" p q 0 "[]"] assms run by simp
  then show ?thesis using that run roots_loop_correct [OF run] by auto
qed

subsection \<open>What a caller may see\<close>

definition outcome_grant :: "outcome \<Rightarrow> read_grant" where
  "outcome_grant out = (case out of AllowedFiltered _ g _ \<Rightarrow> g | _ \<Rightarrow> \<lparr>rg_view = None, rg_keys = Unrestricted\<rparr>)"

definition outcome_matches :: "outcome \<Rightarrow> matched list" where
  "outcome_matches out = (case out of Allowed ms \<Rightarrow> ms | AllowedFiltered ms _ _ \<Rightarrow> ms | Denied _ \<Rightarrow> [])"

text \<open>The view the binding of a relation on an object names, if there is one.\<close>

definition bound_view :: "policy \<Rightarrow> object_ref \<times> string \<Rightarrow> compiled_view option" where
  "bound_view p root = (case binding_for p (snd root) (fst root) of
     None \<Rightarrow> None
   | Some b \<Rightarrow> (case bd_view b of None \<Rightarrow> None | Some name \<Rightarrow> om_get (po_views p) name))"

definition unfiltered :: "policy \<Rightarrow> object_ref \<times> string \<Rightarrow> bool" where
  "unfiltered p root = (case binding_for p (snd root) (fst root) of None \<Rightarrow> False | Some b \<Rightarrow> bd_unfiltered b)"

definition view_admits :: "compiled_view \<Rightarrow> string \<Rightarrow> bool" where
  "view_admits v a = (case cv_filter v of None \<Rightarrow> True | Some f \<Rightarrow> attribute_visible f a)"

lemma views_loop_sees:
  "case views_loop p ms filters names keys of
     None \<Rightarrow> \<exists>m \<in> set ms. unfiltered p (match_root m)
   | Some (filters', names', keys') \<Rightarrow>
       (\<forall>m \<in> set ms. \<not> unfiltered p (match_root m)) \<and>
       (\<forall>a. list_all (\<lambda>f. attribute_visible f a) filters' \<longleftrightarrow> list_all (\<lambda>f. attribute_visible f a) filters \<and>
          (\<forall>m \<in> set ms. \<forall>v. bound_view p (match_root m) = Some v \<longrightarrow> view_admits v a)) \<and>
       (\<forall>k. key_allows keys' k \<longleftrightarrow> key_allows keys k \<and>
          (\<forall>m \<in> set ms. \<forall>v. bound_view p (match_root m) = Some v \<longrightarrow> key_allows (cv_keys v) k))"
proof (induction ms arbitrary: filters names keys)
  case (Cons m ms)
  have root: "match_root m = (mt_object m, mt_relation m)" by (simp add: match_root_def)
  show ?case
  proof (cases "binding_for p (mt_relation m) (mt_object m)")
    case None
    then have "\<not> unfiltered p (match_root m)" "bound_view p (match_root m) = None"
      by (simp_all add: root unfiltered_def bound_view_def)
    then show ?thesis using Cons.IH [where filters = filters and names = names and keys = keys] None by (auto split: option.splits)
  next
    case (Some b)
    then have unf: "unfiltered p (match_root m) = bd_unfiltered b"
      "bound_view p (match_root m) = (case bd_view b of None \<Rightarrow> None | Some name \<Rightarrow> om_get (po_views p) name)"
      by (simp_all add: root unfiltered_def bound_view_def)
    show ?thesis
    proof (cases "bd_unfiltered b \<or> bound_view p (match_root m) = None")
      case True
      then show ?thesis using Some unf Cons.IH [where filters = filters and names = names and keys = keys] by (auto split: option.splits)
    next
      case False
      then obtain name v where v: "bd_view b = Some name" "om_get (po_views p) name = Some v"
        "bound_view p (match_root m) = Some v" "\<not> unfiltered p (match_root m)"
        using unf by (auto split: option.splits)
      define F where "F = (case cv_filter v of Some f \<Rightarrow> filters @ [f] | None \<Rightarrow> filters)"
      have adm: "list_all (\<lambda>f. attribute_visible f a) F \<longleftrightarrow>
          list_all (\<lambda>f. attribute_visible f a) filters \<and> view_admits v a" for a
        by (simp add: F_def view_admits_def split: option.splits)
      have loop: "views_loop p (m # ms) filters names keys = views_loop p ms F (names @ [name]) (key_intersect keys (cv_keys v))"
        using Some v False by (simp add: F_def)
      show ?thesis
        using Cons.IH [where filters = F and names = "names @ [name]" and keys = "key_intersect keys (cv_keys v)"] v(3,4)
        unfolding loop by (simp add: adm key_allows_intersect split: option.splits prod.splits)
    qed
  qed
qed simp

lemma combine_views_sees:
  "grant_visible (outcome_grant (combine_views p ms)) a \<longleftrightarrow>
    (\<exists>m \<in> set ms. unfiltered p (match_root m)) \<or> (\<forall>m \<in> set ms. \<forall>v. bound_view p (match_root m) = Some v \<longrightarrow> view_admits v a)"
  "key_allows (rg_keys (outcome_grant (combine_views p ms))) k \<longleftrightarrow>
    (\<exists>m \<in> set ms. unfiltered p (match_root m)) \<or> (\<forall>m \<in> set ms. \<forall>v. bound_view p (match_root m) = Some v \<longrightarrow> key_allows (cv_keys v) k)"
proof -
  have "(grant_visible (outcome_grant (combine_views p ms)) a \<longleftrightarrow>
      (\<exists>m \<in> set ms. unfiltered p (match_root m)) \<or> (\<forall>m \<in> set ms. \<forall>v. bound_view p (match_root m) = Some v \<longrightarrow> view_admits v a)) \<and>
    (key_allows (rg_keys (outcome_grant (combine_views p ms))) k \<longleftrightarrow>
      (\<exists>m \<in> set ms. unfiltered p (match_root m)) \<or> (\<forall>m \<in> set ms. \<forall>v. bound_view p (match_root m) = Some v \<longrightarrow> key_allows (cv_keys v) k))"
  proof (cases "views_loop p ms [] [] Unrestricted")
    case None
    then have "\<exists>m \<in> set ms. unfiltered p (match_root m)" using views_loop_sees [where p = p and ms = ms and filters = "[]" and names = "[]" and keys = Unrestricted] by simp
    then show ?thesis using None by (simp add: combine_views_def outcome_grant_def grant_visible_def)
  next
    case (Some r)
    obtain filters names keys where r: "r = (filters, names, keys)" by (rule prod_cases3)
    have S: "\<forall>m \<in> set ms. \<not> unfiltered p (match_root m)"
      "list_all (\<lambda>f. attribute_visible f a) filters \<longleftrightarrow> (\<forall>m \<in> set ms. \<forall>v. bound_view p (match_root m) = Some v \<longrightarrow> view_admits v a)"
      "key_allows keys k \<longleftrightarrow> (\<forall>m \<in> set ms. \<forall>v. bound_view p (match_root m) = Some v \<longrightarrow> key_allows (cv_keys v) k)"
      using views_loop_sees [where p = p and ms = ms and filters = "[]" and names = "[]" and keys = Unrestricted] Some r by simp_all
    have "outcome_grant (combine_views p ms) = \<lparr>rg_view = view_combine filters, rg_keys = keys\<rparr>"
      using Some r by (simp add: combine_views_def outcome_grant_def split: option.splits)
    then show ?thesis using S combine_visible [of filters keys a] by auto
  qed
  then show "grant_visible (outcome_grant (combine_views p ms)) a \<longleftrightarrow>
    (\<exists>m \<in> set ms. unfiltered p (match_root m)) \<or> (\<forall>m \<in> set ms. \<forall>v. bound_view p (match_root m) = Some v \<longrightarrow> view_admits v a)"
    and "key_allows (rg_keys (outcome_grant (combine_views p ms))) k \<longleftrightarrow>
    (\<exists>m \<in> set ms. unfiltered p (match_root m)) \<or> (\<forall>m \<in> set ms. \<forall>v. bound_view p (match_root m) = Some v \<longrightarrow> key_allows (cv_keys v) k)"
    by blast+
qed

lemma combine_views_allowed: "is_allowed (combine_views p ms)" "outcome_matches (combine_views p ms) = ms"
  by (auto simp: combine_views_def is_allowed_def outcome_matches_def split: option.splits prod.splits)

lemma check_enough:
  assumes "length (check_roots q) * length (policy_goals p q) \<le> lm_max_visited (qy_limits q)"
  obtains ms where "map match_root ms = filter (granted p q) (check_roots q)"
    "is_allowed (check p q) \<longleftrightarrow> ms \<noteq> []" "ms \<noteq> [] \<Longrightarrow> check p q = combine_views p ms"
proof -
  obtain ms visited where run: "roots_loop p q (check_roots q) [] 0 = (ms, False, visited)"
    "map match_root ms = filter (granted p q) (check_roots q)" using check_roots_enough [OF assms] .
  have "check_roots q = []" if "os_elems (qy_relations q) = []" using that by (simp add: check_roots_def)
  then have none: "ms = []" if "os_elems (qy_relations q) = []" using that run(2) by simp
  show ?thesis
  proof (rule that [OF run(2)])
    show "is_allowed (check p q) \<longleftrightarrow> ms \<noteq> []"
      using run(1) none combine_views_allowed(1) [of p ms] by (auto simp: check_def is_allowed_def)
    show "check p q = combine_views p ms" if "ms \<noteq> []"
      using that run(1) none by (auto simp: check_def)
  qed
qed

text \<open>
  C13. The bounded search decides the policy. When the budget covers every goal the policy can name once per root,
  a check permits the access exactly when some relation the action asks for is granted on some target object by
  the tuples, usersets, memberships and rewrites in at most \<open>max_depth\<close> hops, whatever cycles the policy has.
\<close>

theorem check_decides:
  assumes "length (check_roots q) * length (policy_goals p q) \<le> lm_max_visited (qy_limits q)"
  shows "is_allowed (check p q) \<longleftrightarrow>
    (\<exists>ob r. ob \<in> set (qy_objects q) \<and> os_member r (qy_relations q) \<and> relates p q (lm_max_depth (qy_limits q)) r ob)"
proof -
  obtain ms where ms: "map match_root ms = filter (granted p q) (check_roots q)" "is_allowed (check p q) \<longleftrightarrow> ms \<noteq> []"
    using check_enough [OF assms] by metis
  have "ms \<noteq> [] \<longleftrightarrow> filter (granted p q) (check_roots q) \<noteq> []" using ms(1) by (metis map_is_Nil_conv)
  also have "\<dots> \<longleftrightarrow> (\<exists>root \<in> set (check_roots q). granted p q root)" by (simp add: filter_empty_conv)
  finally show ?thesis using ms(2) check_roots_iff [of _ _ q] by (metis fst_conv snd_conv surj_pair)
qed

text \<open>
  C15. Visibility is conservative. When the budget covers every goal the policy can name once per root, a permitted caller
  sees an attribute, or may use a key, exactly when a granted relation is bound as unfiltered or the view bound to every
  granted relation admits it: one more granted relation with a view can only narrow what is seen.
\<close>

theorem check_view:
  assumes "length (check_roots q) * length (policy_goals p q) \<le> lm_max_visited (qy_limits q)" "is_allowed (check p q)"
  shows "(grant_visible (outcome_grant (check p q)) a \<longleftrightarrow>
      (\<exists>root \<in> set (filter (granted p q) (check_roots q)). unfiltered p root) \<or>
      (\<forall>root \<in> set (filter (granted p q) (check_roots q)). \<forall>v. bound_view p root = Some v \<longrightarrow> view_admits v a)) \<and>
    (key_allows (rg_keys (outcome_grant (check p q))) k \<longleftrightarrow>
      (\<exists>root \<in> set (filter (granted p q) (check_roots q)). unfiltered p root) \<or>
      (\<forall>root \<in> set (filter (granted p q) (check_roots q)). \<forall>v. bound_view p root = Some v \<longrightarrow> key_allows (cv_keys v) k))"
proof -
  obtain ms where ms: "map match_root ms = filter (granted p q) (check_roots q)" "check p q = combine_views p ms"
    using check_enough [OF assms(1)] assms(2) by metis
  have "(\<exists>root \<in> set (filter (granted p q) (check_roots q)). P root) \<longleftrightarrow> (\<exists>m \<in> set ms. P (match_root m))"
    "(\<forall>root \<in> set (filter (granted p q) (check_roots q)). P root) \<longleftrightarrow> (\<forall>m \<in> set ms. P (match_root m))" for P
    unfolding ms(1) [symmetric] by auto
  then show ?thesis using combine_views_sees [of p ms] unfolding ms(2) by presburger
qed

text \<open>
  C30. No access without a path, and no more work than budgeted. Whatever the budget, every match a permitted check
  reports is for a relation the action asks for on a target object and carries a path of at most \<open>max_depth + 1\<close> goals,
  each following from the one before it, that ends at a tuple whose subject the caller is. The loops that collect the goals
  they expand do what the loops of the check do, and whatever the outcome they have expanded at most \<open>max_visited\<close>
  goals; a refusal for want of budget has spent it all.
\<close>

theorem check_sound:
  "(is_allowed (check p q) \<longleftrightarrow> outcome_matches (check p q) \<noteq> []) \<and>
   list_all (\<lambda>m. match_valid p q m \<and> match_root m \<in> set (check_roots q) \<and> granted p q (match_root m)) (outcome_matches (check p q)) \<and>
   fst (roots_traced p q (check_roots q) [] 0 []) = roots_loop p q (check_roots q) [] 0 \<and>
   length (snd (roots_traced p q (check_roots q) [] 0 [])) \<le> lm_max_visited (qy_limits q) \<and>
   (case check p q of Denied (ExhaustedAfter n) \<Rightarrow> n = lm_max_visited (qy_limits q) | _ \<Rightarrow> True)"
proof (intro conjI)
  obtain ms ex visited where run: "roots_loop p q (check_roots q) [] 0 = (ms, ex, visited)" by (rule prod_cases3)
  obtain searched rest where "check_roots q = searched @ rest" "list_all (match_valid p q) ms"
    "map match_root ms = filter (granted p q) searched" using roots_loop_correct [OF run] by auto
  then have "list_all (match_valid p q) ms" "\<forall>root \<in> set (map match_root ms). root \<in> set (check_roots q) \<and> granted p q root"
    by (simp, simp only:, simp)
  then have all: "list_all (\<lambda>m. match_valid p q m \<and> match_root m \<in> set (check_roots q) \<and> granted p q (match_root m)) ms"
    by (simp add: list_all_iff)
  have cases: "(\<exists>d. check p q = Denied d) \<or> (ms \<noteq> [] \<and> check p q = combine_views p ms)"
    using run by (auto simp: check_def)
  then show "is_allowed (check p q) \<longleftrightarrow> outcome_matches (check p q) \<noteq> []"
    using combine_views_allowed [of p ms] by (auto simp: is_allowed_def outcome_matches_def)
  show "list_all (\<lambda>m. match_valid p q m \<and> match_root m \<in> set (check_roots q) \<and> granted p q (match_root m)) (outcome_matches (check p q))"
    using cases all combine_views_allowed(2) [of p ms] by (auto simp: outcome_matches_def [of "Denied _"])
  obtain trace where trace: "roots_traced p q (check_roots q) [] 0 [] = (roots_loop p q (check_roots q) [] 0, trace)"
      "visited = length trace"
    using roots_traced_erases [of p q "check_roots q" "[]" 0 "[]"] run by auto
  then show "fst (roots_traced p q (check_roots q) [] 0 []) = roots_loop p q (check_roots q) [] 0" by simp
  show "length (snd (roots_traced p q (check_roots q) [] 0 [])) \<le> lm_max_visited (qy_limits q)"
    using trace roots_loop_spends [of 0 q p "check_roots q" "[]"] run by simp
  have "n = lm_max_visited (qy_limits q)" if d: "check p q = Denied (ExhaustedAfter n)" for n
  proof -
    have "n = visited \<and> ex"
      using d run combine_views_allowed(1) [of p ms] by (auto simp: check_def is_allowed_def split: if_splits)
    then show ?thesis
      using roots_loop_spends [of 0 q p "check_roots q" "[]"] roots_loop_exhausted [of p q "check_roots q" "[]" 0 ms visited] run by simp
  qed
  then show "case check p q of Denied (ExhaustedAfter n) \<Rightarrow> n = lm_max_visited (qy_limits q) | _ \<Rightarrow> True"
    by (auto split: outcome.splits denial.splits)
qed

subsection \<open>A policy with a cycle and a view\<close>

definition wit_subject :: "string \<Rightarrow> string \<Rightarrow> subject_ref" where
  "wit_subject kind i = \<lparr>sj_object = ObjectRef kind i, sj_relation = None\<rparr>"

text \<open>
  Members of \<open>eng\<close> view the database through a view of one attribute; \<open>alice\<close> is a member, as is \<open>eng\<close> itself,
  and an auditor with no view.
\<close>

definition wit_policy :: policy where
  "wit_policy = policy_empty\<lparr>
     po_by_object := om_of_list [((ObjectRef ''database'' ''music'', ''auditor''), [wit_subject ''user'' ''alice'']),
       ((ObjectRef ''database'' ''music'', ''viewer''), [wit_subject ''group'' ''eng'']),
       ((ObjectRef ''group'' ''eng'', ''member''), [wit_subject ''group'' ''eng'', wit_subject ''user'' ''alice''])],
     po_views := om_of_list [(''names'', \<lparr>cv_filter = Some (Allowlist ''names'' (os_of ['':person/name''])), cv_keys = Unrestricted\<rparr>)],
     po_bindings := om_of_list [((''viewer'', ObjectRef ''database'' ''*''),
       \<lparr>bd_relation = ''viewer'', bd_object = ObjectRef ''database'' ''*'', bd_view = Some ''names'', bd_unfiltered = False\<rparr>)]\<rparr>"

definition wit_query :: "nat \<Rightarrow> query" where
  "wit_query budget = \<lparr>qy_subjects = os_of [ObjectRef ''user'' ''alice''], qy_relations = os_of [''auditor'', ''viewer''],
     qy_action = ''query'', qy_objects = [ObjectRef ''database'' ''music''], qy_expand_relations = [''member''],
     qy_limits = \<lparr>lm_max_depth = 8, lm_max_visited = budget\<rparr>\<rparr>"

lemma wit_query_enough: "length (check_roots (wit_query 100)) * length (policy_goals wit_policy (wit_query 100)) \<le> lm_max_visited (qy_limits (wit_query 100))"
  by code_simp

lemma wit_query_allowed: "is_allowed (check wit_policy (wit_query 100))"
  by code_simp

theorem check_decides_witness:
  "length (check_roots (wit_query 100)) * length (policy_goals wit_policy (wit_query 100)) \<le> lm_max_visited (qy_limits (wit_query 100)) \<and>
   (\<exists>ob r. ob \<in> set (qy_objects (wit_query 100)) \<and> os_member r (qy_relations (wit_query 100)) \<and>
      relates wit_policy (wit_query 100) (lm_max_depth (qy_limits (wit_query 100))) r ob)"
  using check_decides [OF wit_query_enough] wit_query_enough wit_query_allowed by blast

theorem check_view_witness:
  "is_allowed (check wit_policy (wit_query 100)) \<and>
   (\<exists>root. root \<in> set (check_roots (wit_query 100)) \<and> granted wit_policy (wit_query 100) root \<and>
     (\<exists>v. bound_view wit_policy root = Some v \<and> \<not> view_admits v '':person/ssn''))"
proof -
  have "\<not> grant_visible (outcome_grant (check wit_policy (wit_query 100))) '':person/ssn''" by code_simp
  then show ?thesis
    using check_view [OF wit_query_enough wit_query_allowed, of "'':person/ssn''"] wit_query_allowed by auto
qed

text \<open>The budget plays no part in what a policy grants.\<close>

definition with_budget :: "nat \<Rightarrow> query \<Rightarrow> query" where
  "with_budget n q = q\<lparr>qy_limits := (qy_limits q)\<lparr>lm_max_visited := n\<rparr>\<rparr>"

lemma with_budget_simps [simp]:
  "check_roots (with_budget n q) = check_roots q" "lm_max_visited (qy_limits (with_budget n q)) = n"
  "lm_max_depth (qy_limits (with_budget n q)) = lm_max_depth (qy_limits q)" "policy_goals p (with_budget n q) = policy_goals p q"
  by (simp_all add: with_budget_def check_roots_def policy_goals_def)

lemma with_budget_goals: "satisfied p (with_budget n q) = satisfied p q" "next_goals p (with_budget n q) = next_goals p q"
proof -
  have fields: "qy_expand_relations (with_budget n q) = qy_expand_relations q" "qy_subjects (with_budget n q) = qy_subjects q"
    by (simp_all add: with_budget_def)
  show "satisfied p (with_budget n q) = satisfied p q" "next_goals p (with_budget n q) = next_goals p q"
    unfolding satisfied_def holds_def next_goals_def subject_goals_def fun_eq_iff fields by simp_all
qed

lemma relates_with_budget [simp]: "relates p (with_budget n q) k r ob \<longleftrightarrow> relates p q k r ob"
proof (induction k arbitrary: r ob)
  note same = with_budget_goals [of p n q]
  case 0
  show ?case by (subst (1 2) relates_goal) (simp add: same)
  case (Suc k)
  show ?case by (subst (1 2) relates_goal) (simp add: same Suc)
qed

text \<open>
  C35. Running out of budget can widen a grant. A check that has found a relation and runs out of budget in a later one
  still answers from what it found. So when the views of the relations it found admit an attribute, and the view of
  some granted relation does not, the caller sees the attribute; with a budget that covers every goal once per root the same
  check, on the same policy with no granted relation bound as unfiltered, hides it.
\<close>

theorem exhaustion_drops_restriction:
  assumes "roots_loop p q (check_roots q) [] 0 = (ms, True, visited)" "ms \<noteq> []"
    and "\<forall>m \<in> set ms. \<forall>v. bound_view p (match_root m) = Some v \<longrightarrow> view_admits v a"
    and "root \<in> set (check_roots q)" "granted p q root" "bound_view p root = Some v" "\<not> view_admits v a"
    and "\<forall>root \<in> set (check_roots q). granted p q root \<longrightarrow> \<not> unfiltered p root"
    and "length (check_roots q) * length (policy_goals p q) \<le> n"
  shows "is_allowed (check p q) \<and> grant_visible (outcome_grant (check p q)) a \<and>
    is_allowed (check p (with_budget n q)) \<and> \<not> grant_visible (outcome_grant (check p (with_budget n q))) a"
proof -
  have "os_elems (qy_relations q) \<noteq> []" using assms(4) by (auto simp: check_roots_def)
  then have now: "check p q = combine_views p ms" using assms(1,2) by (simp add: check_def)
  have visible: "grant_visible (outcome_grant (check p q)) a" unfolding now using combine_views_sees(1) [of p ms a] assms(3) by blast
  obtain ms' where ms': "map match_root ms' = filter (granted p (with_budget n q)) (check_roots (with_budget n q))"
      "is_allowed (check p (with_budget n q)) \<longleftrightarrow> ms' \<noteq> []" "ms' \<noteq> [] \<Longrightarrow> check p (with_budget n q) = combine_views p ms'"
    using check_enough [of "with_budget n q" p] assms(9) by auto
  have set: "match_root ` set ms' = {root \<in> set (check_roots q). granted p q root}"
    using arg_cong [OF ms'(1), of set] by simp
  then have "root \<in> match_root ` set ms'" using assms(4,5) by simp
  then obtain m where m: "m \<in> set ms'" "match_root m = root" by auto
  then have "ms' \<noteq> []" by auto
  moreover have "\<not> unfiltered p (match_root m')" if "m' \<in> set ms'" for m'
    using set assms(8) that by auto
  ultimately have "\<not> grant_visible (outcome_grant (check p (with_budget n q))) a"
    using ms'(3) combine_views_sees(1) [of p ms' a] m assms(6,7) by auto
  then show ?thesis using visible ms'(2) \<open>ms' \<noteq> []\<close> combine_views_allowed(1) [of p ms] now by simp
qed

lemma wit_query_found: "fst (snd (roots_loop wit_policy (wit_query 2) (check_roots (wit_query 2)) [] 0))"
  "map match_root (fst (roots_loop wit_policy (wit_query 2) (check_roots (wit_query 2)) [] 0)) = [(ObjectRef ''database'' ''music'', ''auditor'')]"
  by code_simp+

lemma wit_query_views:
  "check_roots (wit_query 2) = [(ObjectRef ''database'' ''music'', ''auditor''), (ObjectRef ''database'' ''music'', ''viewer'')]"
  "bound_view wit_policy (ObjectRef ''database'' ''music'', ''auditor'') = None"
  "\<not> unfiltered wit_policy (ObjectRef ''database'' ''music'', ''auditor'')" "\<not> unfiltered wit_policy (ObjectRef ''database'' ''music'', ''viewer'')"
  "length (check_roots (wit_query 2)) * length (policy_goals wit_policy (wit_query 2)) \<le> 100"
  by code_simp+

theorem exhaustion_drops_restriction_witness:
  "grant_visible (outcome_grant (check wit_policy (wit_query 2))) '':person/ssn'' \<and>
   \<not> grant_visible (outcome_grant (check wit_policy (wit_query 100))) '':person/ssn''"
proof -
  let ?viewer = "(ObjectRef ''database'' ''music'', ''viewer'')" and ?q = "wit_query 2"
  have q: "with_budget 100 ?q = wit_query 100" by (simp add: with_budget_def wit_query_def)
  obtain ms ex visited where run: "roots_loop wit_policy ?q (check_roots ?q) [] 0 = (ms, ex, visited)" by (rule prod_cases3)
  have ms: "ex" "map match_root ms = [(ObjectRef ''database'' ''music'', ''auditor'')]" using wit_query_found run by simp_all
  obtain v where v: "bound_view wit_policy ?viewer = Some v" "\<not> view_admits v '':person/ssn''"
  proof -
    have "(case bound_view wit_policy ?viewer of None \<Rightarrow> False | Some v \<Rightarrow> \<not> view_admits v '':person/ssn'')" by code_simp
    then show thesis using that by (auto split: option.splits)
  qed
  have "filter (granted wit_policy (wit_query 100)) (check_roots (wit_query 100)) = map match_root (outcome_matches (check wit_policy (wit_query 100)))"
    using check_enough [OF wit_query_enough] wit_query_allowed combine_views_allowed(2) by metis
  moreover have "map match_root (outcome_matches (check wit_policy (wit_query 100))) = check_roots (wit_query 100)" by code_simp
  ultimately have "set (filter (granted wit_policy (wit_query 100)) (check_roots (wit_query 100))) = set (check_roots (wit_query 100))" by simp
  moreover have "?viewer \<in> set (check_roots (wit_query 100))" using wit_query_views(1) with_budget_simps(1) [of 100 ?q] unfolding q by simp
  ultimately have "?viewer \<in> set (filter (granted wit_policy (wit_query 100)) (check_roots (wit_query 100)))" by (simp only:)
  then have "granted wit_policy (wit_query 100) ?viewer" by simp
  then have granted: "granted wit_policy ?q ?viewer" using relates_with_budget [of wit_policy 100 ?q] with_budget_simps(3) [of 100 ?q] unfolding q by simp
  show ?thesis
    using exhaustion_drops_restriction [of wit_policy ?q ms visited "'':person/ssn''" ?viewer v 100] run ms v granted wit_query_views
    unfolding q by auto
qed

end
