(* ===== verification/Authz_Authorizer.thy ===== *)
theory Authz_Authorizer
  imports Authz_Eval
begin

text \<open>
  The authorizer over the authorization database (crates/corium-authz/src/subject.rs and authorizer.rs): the
  subjects a principal stands for, the fingerprint that keys the check cache, refreshing the compiled policy from
  a snapshot, and one decision. The source's answer to \<open>snapshot\<close> is an argument. Audit records and log lines are
  left out.
\<close>

subsection \<open>Subjects\<close>

record subject_mapping =
  sm_claim_subjects :: "(string \<times> string) list"
  sm_require_registered :: bool

definition subject_mapping_default :: subject_mapping where
  "subject_mapping_default = \<lparr>sm_claim_subjects = [(''groups'', ''group''), (''group'', ''group''), (''tenant'', ''tenant'')],
    sm_require_registered = False\<rparr>"

text \<open>\<open>str::split\<close> on a set of characters, and \<open>str::trim\<close>: the UTF-8 encodings of the white space characters.\<close>

fun split_on :: "char list \<Rightarrow> string \<Rightarrow> string list" where
  "split_on cs [] = [[]]"
| "split_on cs (x # xs) = (case split_on cs xs of
     [] \<Rightarrow> [[x]]
   | part # parts \<Rightarrow> if x \<in> set cs then [] # part # parts else (x # part) # parts)"

definition white_space :: "string list" where
  "white_space = map (\<lambda>code. map char_of code)
    ([[9], [10], [11], [12], [13], [32], [194, 133], [194, 160], [225, 154, 128]] @
     map (\<lambda>i. [226, 128, i]) [128, 129, 130, 131, 132, 133, 134, 135, 136, 137, 138, 168, 169, 175] @
     [[226, 129, 159], [227, 128, 128 :: nat]])"

definition drop_prefix :: "string list \<Rightarrow> string \<Rightarrow> string option" where
  "drop_prefix ws text = map_option (\<lambda>w. drop (length w) text) (List.find (\<lambda>w. w \<noteq> [] \<and> take (length w) text = w) ws)"

lemma drop_prefix_shorter:
  assumes "drop_prefix ws text = Some tail"
  shows "length tail < length text"
proof -
  obtain w where "List.find (\<lambda>w. w \<noteq> [] \<and> take (length w) text = w) ws = Some w" "tail = drop (length w) text"
    using assms by (auto simp: drop_prefix_def)
  then have "w \<noteq> []" "take (length w) text = w" "tail = drop (length w) text" by (metis (mono_tags, lifting) find_Some_iff)+
  then show ?thesis by (cases "text") auto
qed

function trim_prefix :: "string list \<Rightarrow> string \<Rightarrow> string" where
  "trim_prefix ws text = (case drop_prefix ws text of None \<Rightarrow> text | Some tail \<Rightarrow> trim_prefix ws tail)"
  by pat_completeness auto
termination by (relation "measure (\<lambda>(ws, text). length text)") (auto dest: drop_prefix_shorter)

declare trim_prefix.simps [simp del]

definition trim :: "string \<Rightarrow> string" where
  "trim text = rev (trim_prefix (map rev white_space) (rev (trim_prefix white_space text)))"

definition claim_subjects :: "subject_mapping \<Rightarrow> principal \<Rightarrow> object_ref list" where
  "claim_subjects mapping pr = concat (map (\<lambda>(claim, kind). case om_get (pl_claims pr) claim of
      None \<Rightarrow> []
    | Some value \<Rightarrow> map (ObjectRef kind) (filter (\<lambda>item. item \<noteq> []) (map trim (split_on [CHR '','', CHR '' ''] value))))
    (sm_claim_subjects mapping))"

definition subjects_of :: "principal \<Rightarrow> policy \<Rightarrow> subject_mapping \<Rightarrow> object_ref oset" where
  "subjects_of pr p mapping =
    (let registered = om_get (po_principals p) (pl_subject pr);
         provider_matches = (case registered of
             Some reg \<Rightarrow> (case pd_provider reg of Some provider \<Rightarrow> provider = pl_provider pr | None \<Rightarrow> True)
           | None \<Rightarrow> True);
         admissible = (provider_matches \<and> (registered \<noteq> None \<or> \<not> sm_require_registered mapping));
         roles = os_extend (case registered of Some reg \<Rightarrow> if admissible then pd_roles reg else [] | None \<Rightarrow> []) (pl_roles pr)
     in os_extend ([ObjectRef ''user'' (pl_provider pr @ CHR ''/'' # pl_subject pr)] @
          (if admissible then [ObjectRef ''user'' (pl_subject pr)] else []) @
          (if is_anonymous pr then [] else [ObjectRef ''authenticated'' (pl_subject pr)]) @
          map (ObjectRef ''role'') (os_elems roles) @ claim_subjects mapping pr) om_empty)"

definition fingerprint :: "principal \<Rightarrow> subject_mapping \<Rightarrow> string" where
  "fingerprint pr mapping = pl_provider pr @ CHR ''|'' # pl_subject pr @
    concat (map (\<lambda>role. CHR ''|'' # role) (os_elems (pl_roles pr))) @
    concat (map (\<lambda>(claim, _). case om_get (pl_claims pr) claim of
        Some value \<Rightarrow> CHR ''|'' # claim @ CHR ''='' # value | None \<Rightarrow> []) (sm_claim_subjects mapping))"

subsection \<open>The authorizer\<close>

datatype consistency = Pinned | Fresh

record break_glass =
  bg_subjects :: "string oset"
  bg_roles :: "string oset"

definition admits :: "break_glass \<Rightarrow> principal \<Rightarrow> bool" where
  "admits bg pr \<longleftrightarrow> os_member (pl_subject pr) (bg_subjects bg) \<or>
    list_ex (\<lambda>role. os_member role (bg_roles bg)) (os_elems (pl_roles pr))"

record authz_config =
  cf_limits :: limits
  cf_mapping :: subject_mapping
  cf_consistency :: consistency
  cf_fresh_for :: "action_class list"
  cf_expand_relations :: "string list"
  cf_catalog_object :: object_ref
  cf_cache_capacity :: nat
  cf_break_glass :: "break_glass option"

definition authz_config_default :: authz_config where
  "authz_config_default = \<lparr>cf_limits = limits_default, cf_mapping = subject_mapping_default, cf_consistency = Pinned,
    cf_fresh_for = [], cf_expand_relations = [''member''], cf_catalog_object = ObjectRef ''catalog'' ''*'',
    cf_cache_capacity = 4096, cf_break_glass = None\<rparr>"

datatype source_error = SourceUnavailable string | SourceFailed string string

datatype refresh_error = RefreshSource source_error | RefreshPolicy policy_error

datatype reason = RefusedCheck denial | PolicyUnavailable refresh_error

datatype decision = Allow | AllowFiltered read_grant | Deny reason

record authz_decision =
  ad_decision :: decision
  ad_authz_t :: u64
  ad_object :: string
  ad_path :: "string option"
  ad_views :: "string list"
  ad_reason :: "reason option"

type_synonym cache_key = "string \<times> string \<times> string"

record check_cache =
  cc_basis_t :: u64
  cc_capacity :: nat
  cc_entries :: "(cache_key, authz_decision) omap"

definition cache_new :: "nat \<Rightarrow> check_cache" where
  "cache_new capacity = \<lparr>cc_basis_t = 0, cc_capacity = capacity, cc_entries = om_empty\<rparr>"

definition cache_retarget :: "u64 \<Rightarrow> check_cache \<Rightarrow> check_cache" where
  "cache_retarget t c = (if cc_basis_t c \<noteq> t then c\<lparr>cc_basis_t := t, cc_entries := om_empty\<rparr> else c)"

definition cache_get :: "u64 \<Rightarrow> cache_key \<Rightarrow> check_cache \<Rightarrow> authz_decision option \<times> check_cache" where
  "cache_get t key c = (let c' = cache_retarget t c in (om_get (cc_entries c') key, c'))"

definition cache_put :: "u64 \<Rightarrow> cache_key \<Rightarrow> authz_decision \<Rightarrow> check_cache \<Rightarrow> check_cache" where
  "cache_put t key d c =
    (let c' = cache_retarget t c;
         entries = (if om_size (cc_entries c') \<ge> cc_capacity c' then om_empty else cc_entries c')
     in c'\<lparr>cc_entries := om_insert key d entries\<rparr>)"

record authorizer =
  az_config :: authz_config
  az_policy :: "policy option"
  az_checks :: check_cache

definition with_config :: "authz_config \<Rightarrow> authorizer" where
  "with_config cfg = \<lparr>az_config = cfg, az_policy = None, az_checks = cache_new (cf_cache_capacity cfg)\<rparr>"

definition refresh :: "source_error + db \<Rightarrow> authorizer \<Rightarrow> (refresh_error + policy) \<times> authorizer" where
  "refresh snapshot z = (case snapshot of
     Inl e \<Rightarrow> (Inl (RefreshSource e), z)
   | Inr d \<Rightarrow> (case az_policy z of
       Some current \<Rightarrow> if po_basis_t current = db_basis_t d then (Inr current, z)
         else (case compile d of
             Inl e \<Rightarrow> (Inl (RefreshPolicy e), z)
           | Inr p \<Rightarrow> (Inr p, z\<lparr>az_policy := Some p, az_checks := cache_retarget (po_basis_t p) (az_checks z)\<rparr>))
     | None \<Rightarrow> (case compile d of
         Inl e \<Rightarrow> (Inl (RefreshPolicy e), z)
       | Inr p \<Rightarrow> (Inr p, z\<lparr>az_policy := Some p, az_checks := cache_retarget (po_basis_t p) (az_checks z)\<rparr>))))"

definition target_objects :: "authz_config \<Rightarrow> policy \<Rightarrow> access \<Rightarrow> object_ref list" where
  "target_objects cfg p ac = (case ac_database ac of
     Some name \<Rightarrow> ObjectRef ''database'' name # objects_for_database p name @
       (if class_of (ac_action ac) = AdminClass then [cf_catalog_object cfg] else [])
   | None \<Rightarrow> [cf_catalog_object cfg])"

definition render :: "outcome \<Rightarrow> u64 \<Rightarrow> string \<Rightarrow> string \<Rightarrow> authz_decision" where
  "render out t ob object_type = (case out of
     Allowed matches \<Rightarrow> \<lparr>ad_decision = Allow, ad_authz_t = t, ad_object = ob,
       ad_path = (case matches of [] \<Rightarrow> None | m # _ \<Rightarrow> Some (render_path m)), ad_views = [], ad_reason = None\<rparr>
   | AllowedFiltered matches g views \<Rightarrow> \<lparr>ad_decision = AllowFiltered g, ad_authz_t = t, ad_object = ob,
       ad_path = (case matches of [] \<Rightarrow> None | m # _ \<Rightarrow> Some (render_path m)), ad_views = views, ad_reason = None\<rparr>
   | Denied denial \<Rightarrow>
       (let why = RefusedCheck (case denial of NoPermission _ action \<Rightarrow> NoPermission object_type action | other \<Rightarrow> other)
        in \<lparr>ad_decision = Deny why, ad_authz_t = t, ad_object = ob, ad_path = None, ad_views = [], ad_reason = Some why\<rparr>))"

definition unavailable :: "authorizer \<Rightarrow> principal \<Rightarrow> access \<Rightarrow> refresh_error \<Rightarrow> authz_decision" where
  "unavailable z pr ac e =
    (let t = (case az_policy z of Some p \<Rightarrow> po_basis_t p | None \<Rightarrow> 0);
         ob = (case ac_database ac of Some name \<Rightarrow> name | None \<Rightarrow> ''catalog'')
     in if (case cf_break_glass (az_config z) of Some bg \<Rightarrow> admits bg pr | None \<Rightarrow> False)
        then \<lparr>ad_decision = Allow, ad_authz_t = t, ad_object = ob, ad_path = Some ''break-glass'', ad_views = [], ad_reason = None\<rparr>
        else \<lparr>ad_decision = Deny (PolicyUnavailable e), ad_authz_t = t, ad_object = ob, ad_path = None, ad_views = [],
              ad_reason = Some (PolicyUnavailable e)\<rparr>)"

text \<open>\<open>decide\<close>, in its three parts: the policy to decide from, the cache key, and the evaluation behind a miss.\<close>

definition is_fresh :: "authz_config \<Rightarrow> access \<Rightarrow> bool" where
  "is_fresh cfg ac \<longleftrightarrow> cf_consistency cfg = Fresh \<or> class_of (ac_action ac) \<in> set (cf_fresh_for cfg)"

definition decide_policy :: "source_error + db \<Rightarrow> access \<Rightarrow> authorizer \<Rightarrow> (refresh_error + policy) \<times> authorizer" where
  "decide_policy snapshot ac z =
    (if is_fresh (az_config z) ac then refresh snapshot z
     else (case az_policy z of Some p \<Rightarrow> (Inr p, z) | None \<Rightarrow> refresh snapshot z))"

fun join :: "string \<Rightarrow> string list \<Rightarrow> string" where
  "join sep [] = []"
| "join sep [x] = x"
| "join sep (x # y # xs) = x @ sep @ join sep (y # xs)"

definition object_label :: "object_ref list \<Rightarrow> string" where
  "object_label obs = join '','' (map object_text obs)"

definition decide_key :: "authz_config \<Rightarrow> policy \<Rightarrow> principal \<Rightarrow> access \<Rightarrow> cache_key" where
  "decide_key cfg p pr ac = (fingerprint pr (cf_mapping cfg), action_name (ac_action ac), object_label (target_objects cfg p ac))"

definition decide_query :: "authz_config \<Rightarrow> policy \<Rightarrow> principal \<Rightarrow> access \<Rightarrow> query" where
  "decide_query cfg p pr ac =
    (let obs = target_objects cfg p ac
     in \<lparr>qy_subjects = subjects_of pr p (cf_mapping cfg),
         qy_relations = fold (\<lambda>ob relations. os_extend (os_elems (relations_for p (ob_kind ob) (ac_action ac))) relations) obs om_empty,
         qy_action = action_name (ac_action ac), qy_objects = obs, qy_expand_relations = cf_expand_relations cfg,
         qy_limits = cf_limits cfg\<rparr>)"

definition evaluate :: "authz_config \<Rightarrow> policy \<Rightarrow> principal \<Rightarrow> access \<Rightarrow> authz_decision" where
  "evaluate cfg p pr ac =
    (let obs = target_objects cfg p ac
     in render (check p (decide_query cfg p pr ac)) (po_basis_t p) (object_label obs)
          (case obs of [] \<Rightarrow> ''*'' | ob # _ \<Rightarrow> ob_kind ob))"

definition decide :: "source_error + db \<Rightarrow> principal \<Rightarrow> access \<Rightarrow> authorizer \<Rightarrow> authz_decision \<times> authorizer" where
  "decide snapshot pr ac z = (case decide_policy snapshot ac z of
     (Inl e, z') \<Rightarrow> (unavailable z' pr ac e, z')
   | (Inr p, z') \<Rightarrow>
       (let cfg = az_config z'; key = decide_key cfg p pr ac; t = po_basis_t p
        in if cf_cache_capacity cfg > 0 then
             (case cache_get t key (az_checks z') of
                (Some cached, c) \<Rightarrow> (cached, z'\<lparr>az_checks := c\<rparr>)
              | (None, c) \<Rightarrow> (let d = evaluate cfg p pr ac in (d, z'\<lparr>az_checks := cache_put t key d c\<rparr>)))
           else (evaluate cfg p pr ac, z')))"

subsection \<open>What a fingerprint tells apart\<close>

text \<open>
  Names the separators of a fingerprint do not occur in: no \<open>|\<close> in the provider, the subject, a role or a mapped
  claim, and no \<open>=\<close> in a role or in the name of a mapped claim.
\<close>

definition plain_mapping :: "subject_mapping \<Rightarrow> bool" where
  "plain_mapping mapping \<longleftrightarrow> list_all (\<lambda>(claim, _). CHR ''|'' \<notin> set claim \<and> CHR ''='' \<notin> set claim) (sm_claim_subjects mapping)"

definition plain_principal :: "subject_mapping \<Rightarrow> principal \<Rightarrow> bool" where
  "plain_principal mapping pr \<longleftrightarrow> CHR ''|'' \<notin> set (pl_provider pr) \<and> CHR ''|'' \<notin> set (pl_subject pr) \<and>
    list_all (\<lambda>role. CHR ''|'' \<notin> set role \<and> CHR ''='' \<notin> set role) (os_elems (pl_roles pr)) \<and>
    list_all (\<lambda>(claim, _). case om_get (pl_claims pr) claim of None \<Rightarrow> True | Some value \<Rightarrow> CHR ''|'' \<notin> set value)
      (sm_claim_subjects mapping)"

definition claim_texts :: "subject_mapping \<Rightarrow> principal \<Rightarrow> string list" where
  "claim_texts mapping pr = concat (map (\<lambda>(claim, _). case om_get (pl_claims pr) claim of
     Some value \<Rightarrow> [claim @ CHR ''='' # value] | None \<Rightarrow> []) (sm_claim_subjects mapping))"

lemma fingerprint_parts:
  "CHR ''|'' # fingerprint pr mapping =
    concat (map (\<lambda>x. CHR ''|'' # x) (pl_provider pr # pl_subject pr # os_elems (pl_roles pr) @ claim_texts mapping pr))"
proof -
  have "concat (map (\<lambda>(claim, _). case om_get (pl_claims pr) claim of
        Some value \<Rightarrow> CHR ''|'' # claim @ CHR ''='' # value | None \<Rightarrow> []) ms) =
    concat (map (\<lambda>x. CHR ''|'' # x) (concat (map (\<lambda>(claim, _). case om_get (pl_claims pr) claim of
     Some value \<Rightarrow> [claim @ CHR ''='' # value] | None \<Rightarrow> []) ms)))" for ms :: "(string \<times> string) list"
    by (induction ms) (auto split: option.splits)
  then show ?thesis by (simp add: fingerprint_def claim_texts_def)
qed

lemma separated_inj:
  assumes "concat (map (\<lambda>x. c # x) xs) = concat (map (\<lambda>x. c # x) ys)"
    "\<forall>x \<in> set xs. c \<notin> set x" "\<forall>y \<in> set ys. c \<notin> set y"
  shows "xs = ys"
  using assms
proof (induction xs arbitrary: ys)
  case Nil
  then show ?case by (cases ys) auto
next
  case (Cons x xs)
  then obtain y zs where ys: "ys = y # zs" by (cases ys) auto
  have tail: "concat (map (\<lambda>x. c # x) us) = [] \<or> (\<exists>t. concat (map (\<lambda>x. c # x) us) = c # t)" for us
    by (cases us) auto
  have eq: "x @ concat (map (\<lambda>x. c # x) xs) = y @ concat (map (\<lambda>x. c # x) zs)" using Cons.prems(1) ys by simp
  have "takeWhile (\<lambda>z. z \<noteq> c) (x @ concat (map (\<lambda>x. c # x) xs)) = x"
    "takeWhile (\<lambda>z. z \<noteq> c) (y @ concat (map (\<lambda>x. c # x) zs)) = y"
    using Cons.prems(2,3) ys tail [of xs] tail [of zs] by (auto simp: takeWhile_append)
  then have "x = y" using eq by metis
  then show ?case using eq Cons.IH [of zs] Cons.prems(2,3) ys by simp
qed

lemma claim_texts_iff:
  "t \<in> set (claim_texts mapping pr) \<longleftrightarrow>
    (\<exists>claim kind v. (claim, kind) \<in> set (sm_claim_subjects mapping) \<and> om_get (pl_claims pr) claim = Some v \<and> t = claim @ CHR ''='' # v)"
  (is "?l = ?r")
proof
  assume ?l
  then obtain m where m: "m \<in> set (sm_claim_subjects mapping)"
    "t \<in> set (case m of (claim, _) \<Rightarrow> case om_get (pl_claims pr) claim of Some v \<Rightarrow> [claim @ CHR ''='' # v] | None \<Rightarrow> [])"
    unfolding claim_texts_def set_concat set_map by blast
  then show ?r by (cases m) (auto split: option.splits)
next
  assume ?r
  then show ?l unfolding claim_texts_def by force
qed

lemma claim_texts_marked: "t \<in> set (claim_texts mapping pr) \<Longrightarrow> CHR ''='' \<in> set t"
  unfolding claim_texts_iff by auto

lemma claim_texts_plain:
  assumes "plain_mapping mapping" "plain_principal mapping pr" "t \<in> set (claim_texts mapping pr)"
  shows "CHR ''|'' \<notin> set t"
proof -
  obtain claim kind v where c: "(claim, kind) \<in> set (sm_claim_subjects mapping)" "om_get (pl_claims pr) claim = Some v"
    "t = claim @ CHR ''='' # v"
    using assms(3) unfolding claim_texts_iff by blast
  have "CHR ''|'' \<notin> set claim" using assms(1) c(1) by (auto simp: plain_mapping_def list_all_iff)
  moreover have "CHR ''|'' \<notin> set v" using assms(2) c(1,2) by (force simp: plain_principal_def list_all_iff)
  ultimately show ?thesis using c(3) by simp
qed

lemma claim_texts_claim:
  assumes "plain_mapping mapping" "(claim, kind) \<in> set (sm_claim_subjects mapping)"
  shows "om_get (pl_claims pr) claim = Some v \<longleftrightarrow> claim @ CHR ''='' # v \<in> set (claim_texts mapping pr)"
proof
  assume "om_get (pl_claims pr) claim = Some v"
  then show "claim @ CHR ''='' # v \<in> set (claim_texts mapping pr)" using assms(2) unfolding claim_texts_iff by blast
next
  assume "claim @ CHR ''='' # v \<in> set (claim_texts mapping pr)"
  then obtain claim' kind' v' where c: "(claim', kind') \<in> set (sm_claim_subjects mapping)" "om_get (pl_claims pr) claim' = Some v'"
    "claim @ CHR ''='' # v = claim' @ CHR ''='' # v'"
    unfolding claim_texts_iff by blast
  have "CHR ''='' \<notin> set claim" "CHR ''='' \<notin> set claim'"
    using assms c(1) unfolding plain_mapping_def list_all_iff by blast+
  then have once: "split_once (CHR ''='') (claim @ CHR ''='' # v) = Some (claim, v)"
    "split_once (CHR ''='') (claim' @ CHR ''='' # v') = Some (claim', v')" unfolding split_once_Some by blast+
  have "claim = claim'" "v = v'" using once(1) [unfolded c(3) once(2)] by simp_all
  then show "om_get (pl_claims pr) claim = Some v" using c(2) by simp
qed

lemma fingerprint_inj:
  assumes "plain_mapping mapping" "plain_principal mapping pr" "plain_principal mapping pr'"
    "fingerprint pr mapping = fingerprint pr' mapping"
  shows "pl_provider pr = pl_provider pr'" "pl_subject pr = pl_subject pr'" "pl_roles pr = pl_roles pr'"
    "(claim, kind) \<in> set (sm_claim_subjects mapping) \<Longrightarrow> om_get (pl_claims pr) claim = om_get (pl_claims pr') claim"
proof -
  have plain: "\<forall>x \<in> set (pl_provider pr # pl_subject pr # os_elems (pl_roles pr) @ claim_texts mapping pr). CHR ''|'' \<notin> set x"
    if "plain_principal mapping pr" for pr
    using that claim_texts_plain [OF assms(1) that] by (auto simp: plain_principal_def list_all_iff)
  have "pl_provider pr # pl_subject pr # os_elems (pl_roles pr) @ claim_texts mapping pr =
    pl_provider pr' # pl_subject pr' # os_elems (pl_roles pr') @ claim_texts mapping pr'"
    using separated_inj [OF _ plain [OF assms(2)] plain [OF assms(3)]] fingerprint_parts [of pr mapping] fingerprint_parts [of pr' mapping] assms(4)
    by simp
  then have parts: "pl_provider pr = pl_provider pr'" "pl_subject pr = pl_subject pr'"
    "os_elems (pl_roles pr) @ claim_texts mapping pr = os_elems (pl_roles pr') @ claim_texts mapping pr'" by simp_all
  have split: "filter (\<lambda>x. CHR ''='' \<notin> set x) (os_elems (pl_roles pr) @ claim_texts mapping pr) = os_elems (pl_roles pr)"
    "filter (\<lambda>x. CHR ''='' \<in> set x) (os_elems (pl_roles pr) @ claim_texts mapping pr) = claim_texts mapping pr"
    if "plain_principal mapping pr" for pr
    using that claim_texts_marked [of _ mapping pr] by (auto simp: plain_principal_def list_all_iff filter_empty_conv intro!: filter_True)
  have roles: "os_elems (pl_roles pr) = os_elems (pl_roles pr')" and texts: "claim_texts mapping pr = claim_texts mapping pr'"
    using split [OF assms(2)] split [OF assms(3)] parts(3) by metis+
  show "pl_provider pr = pl_provider pr'" "pl_subject pr = pl_subject pr'" by (fact parts)+
  show "pl_roles pr = pl_roles pr'"
  proof (rule om_eqI)
    fix k
    have "os_member k (pl_roles pr) = os_member k (pl_roles pr')" using roles by (metis os_elems_iff)
    then show "om_get (pl_roles pr) k = om_get (pl_roles pr') k"
      by (cases "om_get (pl_roles pr) k"; cases "om_get (pl_roles pr') k") (simp_all add: os_member_def)
  qed
  show "om_get (pl_claims pr) claim = om_get (pl_claims pr') claim" if "(claim, kind) \<in> set (sm_claim_subjects mapping)"
    using claim_texts_claim [OF assms(1) that, of pr] claim_texts_claim [OF assms(1) that, of pr'] texts
    by (metis not_Some_eq)
qed

lemma subjects_of_fingerprint:
  assumes "plain_mapping mapping" "plain_principal mapping pr" "plain_principal mapping pr'"
    "fingerprint pr mapping = fingerprint pr' mapping"
  shows "subjects_of pr p mapping = subjects_of pr' p mapping"
proof -
  note eq = fingerprint_inj [OF assms]
  have "claim_subjects mapping pr = claim_subjects mapping pr'"
    unfolding claim_subjects_def using eq(4) by (intro arg_cong [where f = concat] map_cong) auto
  then show ?thesis unfolding subjects_of_def is_anonymous_def eq(1-3) by simp
qed

subsection \<open>Cached decisions\<close>

text \<open>A database name has no comma, and the catalog object is not written like a database.\<close>

definition plain_access :: "access \<Rightarrow> bool" where
  "plain_access ac = (case ac_database ac of None \<Rightarrow> True | Some name \<Rightarrow> CHR '','' \<notin> set name)"

definition plain_config :: "authz_config \<Rightarrow> bool" where
  "plain_config cfg \<longleftrightarrow> plain_mapping (cf_mapping cfg) \<and> take 9 (object_text (cf_catalog_object cfg)) \<noteq> ''database:''"

lemma label_database:
  assumes "CHR '','' \<notin> set name"
  shows "takeWhile (\<lambda>c. c \<noteq> CHR '','') (object_label (ObjectRef ''database'' name # obs)) = ''database:'' @ name"
    "take 9 (object_label (ObjectRef ''database'' name # obs)) = ''database:''"
proof -
  obtain tail where "object_label (ObjectRef ''database'' name # obs) = ''database:'' @ name @ tail" "tail = [] \<or> (\<exists>t. tail = CHR '','' # t)"
    by (cases obs) (auto simp: object_label_def object_text_def)
  then have tail: "object_label (ObjectRef ''database'' name # obs) = (''database:'' @ name) @ tail"
    "takeWhile (\<lambda>c. c \<noteq> CHR '','') tail = []" by auto
  have "takeWhile (\<lambda>c. c \<noteq> CHR '','') ((''database:'' @ name) @ tail) = (''database:'' @ name) @ takeWhile (\<lambda>c. c \<noteq> CHR '','') tail"
    by (rule takeWhile_append2) (use assms in auto)
  then show "takeWhile (\<lambda>c. c \<noteq> CHR '','') (object_label (ObjectRef ''database'' name # obs)) = ''database:'' @ name"
    "take 9 (object_label (ObjectRef ''database'' name # obs)) = ''database:''"
    using tail by simp_all
qed

lemma label_access:
  assumes cfg: "plain_config cfg" and plain: "plain_access ac" "plain_access ac'"
    and label: "object_label (target_objects cfg p ac) = object_label (target_objects cfg p ac')"
  shows "ac_database ac = ac_database ac'"
proof -
  have some: "\<exists>obs. target_objects cfg p ac = ObjectRef ''database'' name # obs" if "ac_database ac = Some name" for ac name
    using that by (simp add: target_objects_def)
  have none: "take 9 (object_label (target_objects cfg p ac)) \<noteq> ''database:''" if "ac_database ac = None" for ac
    using that cfg by (simp add: target_objects_def object_label_def plain_config_def)
  have named: "take 9 (object_label (target_objects cfg p ac)) = ''database:'' \<and>
      takeWhile (\<lambda>c. c \<noteq> CHR '','') (object_label (target_objects cfg p ac)) = ''database:'' @ name"
    if "ac_database ac = Some name" "plain_access ac" for ac name
    using some [OF that(1)] label_database [of name] that by (auto simp: plain_access_def)
  show ?thesis
  proof (cases "ac_database ac")
    case None
    then show ?thesis using none [OF None] label named [OF _ plain(2)] by (cases "ac_database ac'") auto
  next
    case (Some x)
    have x: "take 9 (object_label (target_objects cfg p ac)) = ''database:''"
      "takeWhile (\<lambda>c. c \<noteq> CHR '','') (object_label (target_objects cfg p ac)) = ''database:'' @ x"
      using named [OF Some plain(1)] by blast+
    show ?thesis
    proof (cases "ac_database ac'")
      case None
      then show ?thesis using none [OF None] x(1) label by simp
    next
      case (Some y)
      then show ?thesis using named [OF Some plain(2)] x(2) \<open>ac_database ac = Some x\<close> label by simp
    qed
  qed
qed

lemma decide_key_evaluate:
  assumes cfg: "plain_config cfg" and ac: "plain_access ac" "plain_access ac'"
    and pr: "plain_principal (cf_mapping cfg) pr" "plain_principal (cf_mapping cfg) pr'"
    and key: "decide_key cfg p pr ac = decide_key cfg p pr' ac'"
  shows "evaluate cfg p pr ac = evaluate cfg p pr' ac'"
proof -
  have parts: "fingerprint pr (cf_mapping cfg) = fingerprint pr' (cf_mapping cfg)" "ac_action ac = ac_action ac'"
    "object_label (target_objects cfg p ac) = object_label (target_objects cfg p ac')"
    using key by (simp_all add: decide_key_def action_name_inj)
  have "ac = ac'" using label_access [OF cfg ac parts(3)] parts(2) by simp
  moreover have "subjects_of pr p (cf_mapping cfg) = subjects_of pr' p (cf_mapping cfg)"
    using subjects_of_fingerprint [OF _ pr parts(1)] cfg by (simp add: plain_config_def)
  ultimately show ?thesis by (simp add: evaluate_def decide_query_def Let_def)
qed

text \<open>
  The authorizer under concurrent requests: each atomic section of \<open>refresh\<close> and \<open>decide\<close> is a step, by any task,
  for a policy compiled from any snapshot \<open>D\<close> of the source and any of the requests \<open>R\<close> that are made.
\<close>

inductive authz_run :: "(db \<Rightarrow> bool) \<Rightarrow> (principal \<Rightarrow> access \<Rightarrow> bool) \<Rightarrow> authz_config \<Rightarrow> authorizer \<Rightarrow> bool" for D R cfg where
  run_start: "authz_run D R cfg (with_config cfg)"
| run_install: "authz_run D R cfg z \<Longrightarrow> D d \<Longrightarrow> compile d = Inr p \<Longrightarrow> authz_run D R cfg (z\<lparr>az_policy := Some p\<rparr>)"
| run_retarget: "authz_run D R cfg z \<Longrightarrow> D d \<Longrightarrow> compile d = Inr p \<Longrightarrow>
    authz_run D R cfg (z\<lparr>az_checks := cache_retarget (po_basis_t p) (az_checks z)\<rparr>)"
| run_lookup: "authz_run D R cfg z \<Longrightarrow> D d \<Longrightarrow> compile d = Inr p \<Longrightarrow>
    authz_run D R cfg (z\<lparr>az_checks := snd (cache_get (po_basis_t p) key (az_checks z))\<rparr>)"
| run_store: "authz_run D R cfg z \<Longrightarrow> D d \<Longrightarrow> compile d = Inr p \<Longrightarrow> R pr ac \<Longrightarrow>
    authz_run D R cfg (z\<lparr>az_checks := cache_put (po_basis_t p) (decide_key cfg p pr ac) (evaluate cfg p pr ac) (az_checks z)\<rparr>)"

definition cache_sound :: "(db \<Rightarrow> bool) \<Rightarrow> (principal \<Rightarrow> access \<Rightarrow> bool) \<Rightarrow> authz_config \<Rightarrow> check_cache \<Rightarrow> bool" where
  "cache_sound D R cfg c \<longleftrightarrow> (\<forall>key dec. om_get (cc_entries c) key = Some dec \<longrightarrow>
     (\<exists>d p pr ac. D d \<and> compile d = Inr p \<and> db_basis_t d = cc_basis_t c \<and> R pr ac \<and> key = decide_key cfg p pr ac \<and> dec = evaluate cfg p pr ac))"

lemma cache_sound_retarget: "cache_sound D R cfg c \<Longrightarrow> cache_sound D R cfg (cache_retarget t c)"
  by (auto simp: cache_sound_def cache_retarget_def)

lemma cache_sound_put:
  assumes "cache_sound D R cfg c" "D d" "compile d = Inr p" "R pr ac"
  shows "cache_sound D R cfg (cache_put (po_basis_t p) (decide_key cfg p pr ac) (evaluate cfg p pr ac) c)"
proof -
  let ?c = "cache_retarget (po_basis_t p) c"
  have t: "cc_basis_t ?c = db_basis_t d" using compile_basis [OF assms(3)] by (simp add: cache_retarget_def)
  have old: "cache_sound D R cfg ?c" by (rule cache_sound_retarget [OF assms(1)])
  have "\<exists>d p pr ac. D d \<and> compile d = Inr p \<and> db_basis_t d = cc_basis_t ?c \<and> R pr ac \<and> key = decide_key cfg p pr ac \<and> dec = evaluate cfg p pr ac"
    if "om_get (cc_entries (cache_put (po_basis_t p) (decide_key cfg p pr ac) (evaluate cfg p pr ac) c)) key = Some dec" for key dec
  proof (cases "key = decide_key cfg p pr ac")
    case True
    then have "dec = evaluate cfg p pr ac" using that by (simp add: cache_put_def Let_def)
    then show ?thesis using True assms(2-4) t by metis
  next
    case False
    then have "om_get (cc_entries ?c) key = Some dec" using that by (auto simp: cache_put_def Let_def split: if_splits)
    then show ?thesis using old unfolding cache_sound_def by blast
  qed
  moreover have "cc_basis_t (cache_put (po_basis_t p) (decide_key cfg p pr ac) (evaluate cfg p pr ac) c) = cc_basis_t ?c"
    by (simp add: cache_put_def Let_def)
  ultimately show ?thesis unfolding cache_sound_def by simp
qed

lemma authz_run_inv:
  "authz_run D R cfg z \<Longrightarrow> az_config z = cfg \<and> cache_sound D R cfg (az_checks z) \<and>
     (case az_policy z of None \<Rightarrow> True | Some p \<Rightarrow> \<exists>d. D d \<and> compile d = Inr p)"
proof (induction rule: authz_run.induct)
  case run_start
  show ?case by (simp add: with_config_def cache_new_def cache_sound_def)
next
  case (run_store z d p pr ac)
  then show ?case using cache_sound_put [of D R cfg "az_checks z" d p pr ac] by simp
qed (auto simp: cache_sound_retarget cache_get_def Let_def)

text \<open>Snapshots with the same basis are the same value.\<close>

definition one_per_basis :: "(db \<Rightarrow> bool) \<Rightarrow> bool" where
  "one_per_basis D \<longleftrightarrow> (\<forall>d d'. D d \<longrightarrow> D d' \<longrightarrow> db_basis_t d = db_basis_t d' \<longrightarrow> d = d')"

lemma one_per_basisD: "one_per_basis D \<Longrightarrow> D d \<Longrightarrow> D d' \<Longrightarrow> db_basis_t d = db_basis_t d' \<Longrightarrow> d = d'"
  by (simp add: one_per_basis_def)

text \<open>A cached answer is the answer the policy gives to a request with the same key.\<close>

lemma cache_get_evaluate:
  assumes sound: "cache_sound D R cfg c" and D: "one_per_basis D" and p: "D d" "compile d = Inr p"
    and hit: "fst (cache_get (po_basis_t p) key c) = Some dec"
  obtains pr ac where "R pr ac" and "decide_key cfg p pr ac = key" and "dec = evaluate cfg p pr ac"
proof -
  let ?c = "cache_retarget (po_basis_t p) c"
  have "om_get (cc_entries ?c) key = Some dec" using hit by (simp add: cache_get_def Let_def)
  then obtain d' p' pr ac where e: "D d'" "compile d' = Inr p'" "db_basis_t d' = cc_basis_t ?c" "R pr ac"
    "key = decide_key cfg p' pr ac" "dec = evaluate cfg p' pr ac"
    using cache_sound_retarget [OF sound] unfolding cache_sound_def by metis
  have "cc_basis_t ?c = db_basis_t d" using compile_basis [OF p(2)] by (simp add: cache_retarget_def)
  then have "p' = p" using one_per_basisD [OF D e(1) p(1)] e(2,3) p(2) by simp
  then show thesis using that e(4-6) by blast
qed

lemma refresh_result:
  assumes inv: "case az_policy z of None \<Rightarrow> True | Some p \<Rightarrow> \<exists>d. D d \<and> compile d = Inr p"
    and D: "one_per_basis D"
    and snap: "case snapshot of Inl e \<Rightarrow> True | Inr d \<Rightarrow> D d"
  shows "fst (refresh snapshot z) = (case snapshot of Inl e \<Rightarrow> Inl (RefreshSource e) | Inr d \<Rightarrow> map_sum RefreshPolicy id (compile d))"
proof (cases snapshot)
  case (Inr d)
  have "map_sum RefreshPolicy id (compile d) = Inr p" if "az_policy z = Some p" "po_basis_t p = db_basis_t d" for p
  proof -
    obtain d' where d': "D d'" "compile d' = Inr p" using inv \<open>az_policy z = Some p\<close> by auto
    then have "d' = d" using one_per_basisD [OF D d'(1)] compile_basis [OF d'(2)] snap Inr that(2) by simp
    then show ?thesis using d'(2) by simp
  qed
  then show ?thesis using Inr by (auto simp: refresh_def split: option.splits sum.splits)
qed (simp add: refresh_def)

lemma refresh_run:
  assumes "authz_run D R cfg z" "case snapshot of Inl e \<Rightarrow> True | Inr d \<Rightarrow> D d"
  shows "authz_run D R cfg (snd (refresh snapshot z))"
proof -
  have step: "authz_run D R cfg (z\<lparr>az_policy := Some p, az_checks := cache_retarget (po_basis_t p) (az_checks z)\<rparr>)"
    if "D d" "compile d = Inr p" for d p
    using run_retarget [OF run_install [OF assms(1) that] that] by simp
  show ?thesis using assms by (auto simp: refresh_def intro: step split: sum.splits option.splits)
qed

lemma decide_policy_run:
  assumes run: "authz_run D R cfg z" and snap: "case snapshot of Inl e \<Rightarrow> True | Inr d \<Rightarrow> D d"
    and D: "one_per_basis D"
  shows "authz_run D R cfg (snd (decide_policy snapshot ac z))"
    "fst (decide_policy snapshot ac z) = Inr p \<Longrightarrow> \<exists>d. D d \<and> compile d = Inr p"
    "fst (decide_policy snapshot ac z) = Inl e \<Longrightarrow> snd (decide_policy snapshot ac z) = z"
    "is_fresh cfg ac \<Longrightarrow> fst (decide_policy snapshot ac z) =
      (case snapshot of Inl e \<Rightarrow> Inl (RefreshSource e) | Inr d \<Rightarrow> map_sum RefreshPolicy id (compile d))"
proof -
  note inv = authz_run_inv [OF run]
  have result: "fst (refresh snapshot z) =
      (case snapshot of Inl e \<Rightarrow> Inl (RefreshSource e) | Inr d \<Rightarrow> map_sum RefreshPolicy id (compile d))"
    by (rule refresh_result [where D = D]) (use inv snap D in blast)+
  show "authz_run D R cfg (snd (decide_policy snapshot ac z))"
    using run refresh_run [OF run snap] by (simp add: decide_policy_def split: option.splits)
  show "is_fresh cfg ac \<Longrightarrow> fst (decide_policy snapshot ac z) =
      (case snapshot of Inl e \<Rightarrow> Inl (RefreshSource e) | Inr d \<Rightarrow> map_sum RefreshPolicy id (compile d))"
    using inv by (simp add: decide_policy_def flip: result)
  show "fst (decide_policy snapshot ac z) = Inl e \<Longrightarrow> snd (decide_policy snapshot ac z) = z"
    by (auto simp: decide_policy_def refresh_def split: if_splits option.splits sum.splits)
  have ref: "\<exists>d. D d \<and> compile d = Inr p" if "fst (refresh snapshot z) = Inr p"
    using that snap unfolding result by (auto simp: map_sum_def split: sum.splits)
  show "fst (decide_policy snapshot ac z) = Inr p \<Longrightarrow> \<exists>d. D d \<and> compile d = Inr p"
    using ref inv by (auto simp: decide_policy_def split: if_splits option.splits)
qed

text \<open>
  C14. What the cache can answer. However requests interleave with policy refreshes, a decision is the unavailable
  answer when no policy can be read, and otherwise the evaluation, by the policy in force, of a request that was made
  and has the same cache key. When the access must be fresh, the policy in force is the one compiled from the snapshot
  the source has now. When all the requests made are plain (no separator of the key occurs in their names), requests
  with the same key are evaluated alike, and the decision is what the policy in force gives this very request.
  Snapshots of the source with the same basis are taken to be the same database value.
\<close>

theorem decide_is_evaluated:
  assumes run: "authz_run D R cfg z" and D: "one_per_basis D"
    and snap: "case snapshot of Inl e \<Rightarrow> True | Inr d \<Rightarrow> D d" and made: "R pr ac"
  shows "authz_run D R cfg (snd (decide snapshot pr ac z)) \<and>
    (case fst (decide_policy snapshot ac z) of
       Inl e \<Rightarrow> fst (decide snapshot pr ac z) = unavailable z pr ac e
     | Inr p \<Rightarrow> (\<exists>pr' ac'. R pr' ac' \<and> decide_key cfg p pr' ac' = decide_key cfg p pr ac \<and>
         fst (decide snapshot pr ac z) = evaluate cfg p pr' ac') \<and>
         (plain_config cfg \<and> (\<forall>pr ac. R pr ac \<longrightarrow> plain_principal (cf_mapping cfg) pr \<and> plain_access ac) \<longrightarrow>
           fst (decide snapshot pr ac z) = evaluate cfg p pr ac)) \<and>
    (is_fresh cfg ac \<longrightarrow> fst (decide_policy snapshot ac z) =
       (case snapshot of Inl e \<Rightarrow> Inl (RefreshSource e) | Inr d \<Rightarrow> map_sum RefreshPolicy id (compile d)))"
proof -
  obtain r z' where pol: "decide_policy snapshot ac z = (r, z')" by fastforce
  note facts = decide_policy_run [OF run snap D, where ac = ac, unfolded pol fst_conv snd_conv]
  have run': "authz_run D R cfg z'" using facts(1) by blast
  note inv = authz_run_inv [OF run']
  have "authz_run D R cfg (snd (decide snapshot pr ac z)) \<and>
    (case r of Inl e \<Rightarrow> fst (decide snapshot pr ac z) = unavailable z pr ac e
     | Inr p \<Rightarrow> \<exists>pr' ac'. R pr' ac' \<and> decide_key cfg p pr' ac' = decide_key cfg p pr ac \<and> fst (decide snapshot pr ac z) = evaluate cfg p pr' ac')"
  proof (cases r)
    case (Inl e)
    then have "z' = z" using facts(3) by blast
    then show ?thesis using run Inl by (simp add: decide_def pol)
  next
    case (Inr p)
    then obtain d where d: "D d" "compile d = Inr p" using facts(2) by blast
    let ?key = "decide_key cfg p pr ac"
    obtain hit c where get: "cache_get (po_basis_t p) ?key (az_checks z') = (hit, c)" by fastforce
    have c: "authz_run D R cfg (z'\<lparr>az_checks := c\<rparr>)" using run_lookup [OF run' d, of ?key] get by simp
    have put: "authz_run D R cfg (z'\<lparr>az_checks := cache_put (po_basis_t p) ?key (evaluate cfg p pr ac) c\<rparr>)"
      using run_store [where R = R, OF c d made] by simp
    have cfg: "az_config z' = cfg" using inv by blast
    have dec: "decide snapshot pr ac z = (if cf_cache_capacity cfg > 0 then
        (case hit of Some cached \<Rightarrow> (cached, z'\<lparr>az_checks := c\<rparr>)
         | None \<Rightarrow> (evaluate cfg p pr ac, z'\<lparr>az_checks := cache_put (po_basis_t p) ?key (evaluate cfg p pr ac) c\<rparr>))
        else (evaluate cfg p pr ac, z'))"
      unfolding decide_def pol Inr prod.case sum.case Let_def cfg get by (rule refl)
    show ?thesis
    proof (cases hit)
      case None
      then show ?thesis using run' put made by (auto simp: dec Inr)
    next
      case (Some x)
      then have "fst (cache_get (po_basis_t p) ?key (az_checks z')) = Some x" using get by simp
      then obtain pr' ac' where "R pr' ac'" "decide_key cfg p pr' ac' = ?key" "x = evaluate cfg p pr' ac'"
        using cache_get_evaluate [OF _ D d] inv by metis
      then show ?thesis using run' c made by (auto simp: dec Inr Some)
    qed
  qed
  moreover have "evaluate cfg p pr' ac' = evaluate cfg p pr ac"
    if "plain_config cfg" "\<forall>pr ac. R pr ac \<longrightarrow> plain_principal (cf_mapping cfg) pr \<and> plain_access ac"
      "R pr' ac'" "decide_key cfg p pr' ac' = decide_key cfg p pr ac" for p pr' ac'
    using decide_key_evaluate [OF that(1) _ _ _ _ that(4)] that(2,3) made by blast
  ultimately show ?thesis using facts(4) pol by (cases r) auto
qed

definition wit_alice :: principal where
  "wit_alice = \<lparr>pl_subject = ''alice'', pl_provider = ''oidc'', pl_roles = om_empty, pl_claims = om_empty\<rparr>"

definition wit_music :: access where
  "wit_music = \<lparr>ac_action = Query, ac_database = Some ''music''\<rparr>"

theorem decide_is_evaluated_witness:
  "\<exists>p. compile wit_authz_db = Inr p \<and>
     fst (decide (Inr wit_authz_db) wit_alice wit_music (with_config authz_config_default)) =
       evaluate authz_config_default p wit_alice wit_music"
proof -
  let ?D = "\<lambda>d. d = wit_authz_db" and ?R = "\<lambda>pr ac. pr = wit_alice \<and> ac = wit_music" and ?cfg = authz_config_default
  obtain p where p: "compile wit_authz_db = Inr p" using wit_authz_compiles by blast
  have plain: "plain_config ?cfg" "\<forall>pr ac. ?R pr ac \<longrightarrow> plain_principal (cf_mapping ?cfg) pr \<and> plain_access ac"
    by (simp_all add: plain_config_def plain_mapping_def authz_config_default_def subject_mapping_default_def object_text_def
        plain_principal_def wit_alice_def os_elems_def om_keys_def plain_access_def wit_music_def)
  have "fst (decide_policy (Inr wit_authz_db) wit_music (with_config ?cfg)) = Inr p"
    using p by (simp add: decide_policy_def is_fresh_def authz_config_default_def with_config_def refresh_def)
  moreover have "one_per_basis ?D" by (simp add: one_per_basis_def)
  ultimately show ?thesis
    using decide_is_evaluated [of ?D ?R, OF run_start, of "Inr wit_authz_db" wit_alice wit_music ?cfg] plain p by simp
qed

subsection \<open>Names with separators in them\<close>

text \<open>The default configuration with a smaller budget and cache.\<close>

definition wit_config :: authz_config where
  "wit_config = authz_config_default\<lparr>cf_limits := \<lparr>lm_max_depth = 3, lm_max_visited = 9\<rparr>, cf_cache_capacity := 4\<rparr>"

text \<open>A policy that lets the role \<open>admin\<close> query a database.\<close>

definition wit_role_policy :: policy where
  "wit_role_policy = policy_empty\<lparr>
     po_by_object := om_of_list [((ObjectRef ''database'' ''music'', ''owner''), [\<lparr>sj_object = ObjectRef ''role'' ''admin'', sj_relation = None\<rparr>])],
     po_permissions := om_of_list [((''database'', ''read''), os_of [''owner''])]\<rparr>"

text \<open>\<open>alice\<close> with the role, and a caller of the same provider whose subject is \<open>alice|admin\<close> with none.\<close>

definition wit_admin :: principal where
  "wit_admin = wit_alice\<lparr>pl_roles := os_of [''admin'']\<rparr>"

definition wit_barred :: principal where
  "wit_barred = wit_alice\<lparr>pl_subject := ''alice|admin''\<rparr>"

text \<open>The separator is not escaped: a subject that ends in a role is written like the role.\<close>

lemma fingerprint_subject_role:
  assumes "pl_provider pr' = pl_provider pr" "pl_subject pr' = pl_subject pr @ CHR ''|'' # role" "pl_claims pr' = pl_claims pr"
    "os_elems (pl_roles pr) = role # os_elems (pl_roles pr')"
  shows "fingerprint pr' mapping = fingerprint pr mapping"
  using assms by (simp add: fingerprint_def)

lemma cache_get_again:
  "cache_get t key (snd (cache_get t key c)) = cache_get t key c"
  "fst (cache_get t key (cache_put t key d c)) = Some d"
  by (simp_all add: cache_get_def cache_put_def cache_retarget_def Let_def)

text \<open>
  C34. Two principals that authorization must tell apart share a cache entry. The fingerprint joins its parts with
  \<open>|\<close> and does not escape them. So take any principal with a role, and the principal of the same provider and with
  the same claims whose subject is the first one's subject, \<open>|\<close> and the role, without that role. While the
  policy is pinned and the cache is on, whatever the policy says of the second, once the first has asked for an access the
  second is given the first one's decision.
\<close>

theorem fingerprint_collision:
  assumes "pl_provider pr' = pl_provider pr" "pl_subject pr' = pl_subject pr @ CHR ''|'' # role" "pl_claims pr' = pl_claims pr"
    "os_elems (pl_roles pr) = role # os_elems (pl_roles pr')"
    and "az_policy z = Some p" "\<not> is_fresh (az_config z) ac" "cf_cache_capacity (az_config z) > 0"
  shows "fst (decide snapshot' pr' ac (snd (decide snapshot pr ac z))) = fst (decide snapshot pr ac z)"
proof -
  let ?key = "decide_key (az_config z) p pr ac" and ?t = "po_basis_t p"
  have key: "decide_key (az_config z) p pr' ac = ?key"
    using fingerprint_subject_role [OF assms(1-4)] by (simp add: decide_key_def)
  have pol: "decide_policy snap ac y = (Inr p, y)" if "az_config y = az_config z" "az_policy y = Some p" for snap y
    using that assms(6) by (simp add: decide_policy_def)
  obtain hit c where get: "cache_get ?t ?key (az_checks z) = (hit, c)" by fastforce
  show ?thesis
  proof (cases hit)
    case (Some x)
    have "decide snapshot pr ac z = (x, z\<lparr>az_checks := c\<rparr>)" using get Some pol [of z snapshot] assms(5,7) by (simp add: decide_def Let_def)
    moreover have "cache_get ?t ?key c = (Some x, c)" using cache_get_again(1) [of ?t ?key "az_checks z"] get Some by simp
    ultimately show ?thesis using pol [of "z\<lparr>az_checks := c\<rparr>" snapshot'] assms(5,7) key by (simp add: decide_def Let_def)
  next
    case None
    let ?d = "evaluate (az_config z) p pr ac"
    have first: "decide snapshot pr ac z = (?d, z\<lparr>az_checks := cache_put ?t ?key ?d c\<rparr>)"
      using get None pol [of z snapshot] assms(5,7) by (simp add: decide_def Let_def)
    obtain c' where "cache_get ?t ?key (cache_put ?t ?key ?d c) = (Some ?d, c')"
      using cache_get_again(2) [of ?t ?key ?d c] by (metis prod.collapse)
    then show ?thesis using first pol [of "z\<lparr>az_checks := cache_put ?t ?key ?d c\<rparr>" snapshot'] assms(5,7) key by (simp add: decide_def Let_def)
  qed
qed

text \<open>\<open>alice|admin\<close> without roles is refused when evaluated, and allowed once \<open>alice\<close> with the role \<open>admin\<close> has asked.\<close>

theorem fingerprint_collision_witness:
  "ad_decision (evaluate wit_config wit_role_policy wit_barred wit_music) =
     Deny (RefusedCheck (NoPath [''owner''] [''database:music''])) \<and>
   ad_decision (fst (decide (Inl (SourceUnavailable ''authz'')) wit_barred wit_music
     (snd (decide (Inl (SourceUnavailable ''authz'')) wit_admin wit_music
       ((with_config wit_config)\<lparr>az_policy := Some wit_role_policy\<rparr>))))) = Allow"
proof -
  let ?z = "(with_config wit_config)\<lparr>az_policy := Some wit_role_policy\<rparr>" and ?none = "Inl (SourceUnavailable ''authz'') :: source_error + db"
  have "ad_decision (evaluate wit_config wit_role_policy wit_barred wit_music) = Deny (RefusedCheck (NoPath [''owner''] [''database:music'']))"
    by code_simp
  moreover have "ad_decision (fst (decide ?none wit_admin wit_music ?z)) = Allow" by code_simp
  moreover have "pl_subject wit_barred = pl_subject wit_admin @ CHR ''|'' # ''admin''" by code_simp
  moreover have "os_elems (pl_roles wit_admin) = ''admin'' # os_elems (pl_roles wit_barred)" by code_simp
  moreover have "pl_provider wit_barred = pl_provider wit_admin" "pl_claims wit_barred = pl_claims wit_admin"
    by (simp_all add: wit_barred_def wit_admin_def)
  moreover have "\<not> is_fresh (az_config ?z) wit_music" "cf_cache_capacity (az_config ?z) > 0"
    by (simp_all add: is_fresh_def with_config_def wit_config_def authz_config_default_def)
  ultimately show ?thesis
    using fingerprint_collision [of wit_barred wit_admin "''admin''" ?z wit_role_policy wit_music ?none ?none] by simp
qed

text \<open>
  The subject \<open>user:provider/id\<close> is not peculiar to its provider: a bare subject may contain a slash.
\<close>

lemma qualified_subject_ambiguous:
  "os_member (ObjectRef ''user'' ''oidc/alice'') (subjects_of wit_alice policy_empty subject_mapping_default) \<and>
   os_member (ObjectRef ''user'' ''oidc/alice'')
     (subjects_of (wit_alice\<lparr>pl_provider := ''tokens'', pl_subject := ''oidc/alice''\<rparr>) policy_empty subject_mapping_default)"
  by code_simp

text \<open>
  The relations of every target object are searched on all of them: a relation that only gives an action on the
  catalog also gives it when held on the database.
\<close>

lemma catalog_relation_on_database:
  "let p = policy_empty\<lparr>
       po_by_object := om_of_list [((ObjectRef ''database'' ''music'', ''operator''), [\<lparr>sj_object = ObjectRef ''user'' ''alice'', sj_relation = None\<rparr>])],
       po_permissions := om_of_list [((''catalog'', ''admin''), os_of [''operator''])]\<rparr>
   in os_elems (relations_for p ''database'' DeleteDatabase) = [] \<and>
      ad_decision (evaluate wit_config p wit_alice \<lparr>ac_action = DeleteDatabase, ac_database = Some ''music''\<rparr>) = Allow"
  by code_simp

end
