(* ===== verification/Spec2Isabelle.thy ===== *)
theory Spec2Isabelle
  imports Tx_Merge Snapshot File_Log_Merge Transactor_Batch Publication_Recovery Authz_Check Authz_Authorizer
begin

text \<open>
  Corium is a database of datoms: facts \<open>(entity, attribute, value, transaction, added)\<close> recorded in a
  transaction log and served from four covering indexes (EAVT, AEVT, AVET, VAET). A client's request is expanded
  and validated against the present database value, stamped, appended to the log and applied; from time to time
  the indexes are published as chunks in a blob store under a root that a write lease fences; a new leader recovers
  from the root and the tail of the log; sagas run on branches that are leased ids and merged back; and an
  authorizer decides requests from a policy kept in a database of its own. Paths below are under src/crates.

  \<^bold>\<open>Conventions.\<close> Machine integers are words of their width and wrap as in a release build; \<open>usize\<close> counters that a
  bound in the code keeps small are natural numbers. A Rust string is the list of the bytes of its UTF-8 form. A struct
  is a record, an enum a datatype, \<open>Result\<close> a sum with the error on the left, a \<open>BTreeMap\<close> or \<open>HashMap\<close> an
  ordered map (\<open>Ordered_Map\<close>). A loop is a total function; one that may run for ever is a machine whose steps are
  the awaits, or is bounded by a counter the code has. What an operation awaits is a separate step, and what others
  do between two steps is a step relation. Code of other packages is a parameter: the ciphers and the hash (the
  record \<open>crypto\<close>), the CRC (\<open>log_env\<close>), the content digest of a blob, with what is relied on as a named
  hypothesis (a cipher opens what it sealed and is authentic, a digest does not collide on the blobs of a run). The
  wall clock, random bytes and the answer of the operating system to a write are arguments.

  \<^bold>\<open>Values and indexes.\<close> \<open>Prelude\<close>, \<open>Ids\<close>, \<open>Values\<close>, \<open>Encoding\<close>, \<open>Datom\<close>, \<open>Chunk\<close>, \<open>Index_Segment\<close>
  (corium-core/src/ids.rs, value.rs, encoding.rs, datom.rs, chunk.rs; corium-index/src/lib.rs). The byte
  encoding of values preserves their order, is self-delimiting and decodes back; index keys sort by the components of
  their order and decode to their datom; folding a transaction tail into a segment implements the fold of its
  datoms, keeps the segment well formed and shares the leaves it does not touch; chunks are cut by content within bounds.

  \<^bold>\<open>Schema and database values.\<close> \<open>Keywords\<close>, \<open>Schema_Model\<close>, \<open>Bootstrap\<close>, \<open>Schema_Datoms\<close>, \<open>Db\<close>,
  \<open>Db_Reads\<close>, \<open>Db_Facts\<close> (corium-core/src/keyword.rs, schema.rs; corium-db/src/lib.rs, bootstrap.rs,
  schemadatoms.rs). A database value caches indexes and statistics; every operation keeps them equal to a fresh
  fold of the recorded datoms, the current, as-of, since and history views show the datoms they promise, and committing
  datoms is folding them into the set of facts. The schema is derived from datoms, whatever their order, and changes only
  for the entities and keywords a transaction states something of.

  \<^bold>\<open>Transactions and sagas.\<close> \<open>Saga_Registry\<close>, \<open>Tx_Saga\<close>, \<open>Tx_Branch\<close>, \<open>Tx\<close>, \<open>Tx_Prepare\<close>, \<open>Tx_Merge\<close>
  (corium-db/src/saga.rs; corium-tx/src/lib.rs, saga.rs, branch.rs, merge.rs). A prepared transaction is typed,
  keeps cardinality and uniqueness (compare-and-swap of a unique attribute apart), and passes the registry checks; a
  finished saga stays as it is, an entry moves only along its lifecycle as long as no fact is asserted and retracted at
  once, the ids leased to an open saga are written by its commit only, a branch step stays inside what the saga
  declared, and a merge without conflicts is a three-way merge of its net effect. Retracting an entity walks its
  components with a worklist that is total because every entity enters it once.

  \<^bold>\<open>Stores, leases and logs.\<close> \<open>Rust_Text\<close>, \<open>Db_Root\<close>, \<open>Blob_Store\<close>, \<open>Snapshot\<close>, \<open>Lease\<close>, \<open>Crypt\<close>,
  \<open>Log_Codec\<close>, \<open>Tx_Log\<close>, \<open>File_Log\<close>, \<open>File_Log_Recovery\<close>, \<open>File_Log_Merge\<close> (corium-store/src/lib.rs and
  snapshot.rs; corium-transactor/src/lease.rs; corium-crypt/src/lib.rs; corium-log/src/lib.rs). Stored records
  read back; garbage collection keeps what is reachable; in every interleaving of lease operations and publications no two owners share
  a fencing version and a deposed one changes nothing; acknowledged records survive takeovers, crashes in the middle of
  an append and the merge of several leaders' files; a record that opens was sealed under that key for that place.

  \<^bold>\<open>The transactor.\<close> \<open>Transactor\<close>, \<open>Transactor_Recovery\<close>, \<open>Transactor_Batch\<close>, \<open>Publication\<close>,
  \<open>Publication_Plan\<close>, \<open>Publication_Store\<close>, \<open>Publication_Run\<close>, \<open>Publication_Recovery\<close>
  (corium-transactor/src/lib.rs and the recovery of node.rs). A transactor recovered after a crash has every acknowledged
  transaction, and the very value it had as long as no names were replaced; a group commit is the sequence of its
  commits; ids are handed out once. A publication relies on two things the code does not enforce, that commits leave
  the coverage and history flags of attributes alone and that collections spare the blobs it has touched: then, whenever it
  ends with a root, its indexes read back as the database at that basis, and a database opened from the root with the same
  schema shows what was published. A publication nobody interferes with ends.

  \<^bold>\<open>Authorization.\<close> \<open>Authz_Model\<close>, \<open>Authz_Policy\<close>, \<open>Authz_Eval\<close>, \<open>Authz_Check\<close>, \<open>Authz_Authorizer\<close>
  (corium-authz/src/model.rs, view.rs, policy.rs, eval.rs, subject.rs, authorizer.rs; the vocabulary of
  corium-protocol/src/authz.rs). The breadth-first search permits exactly what the policy grants within its depth
  bound and shows the intersection of the bound views, given a budget of one visit per goal of the policy and root;
  whatever the budget, every match has a valid path and no more goals than budgeted are expanded; and a cached decision is
  what the policy in force gives a request with the same cache key, which is the request itself while no names contain the
  separators of the key.

  \<^bold>\<open>Interfaces.\<close> The locales are \<open>sortable_encoding\<close> and \<open>ordered_map\<close> (what an index asks of its keys),
  \<open>blob_store\<close>, \<open>root_store\<close> and \<open>index_store\<close> (what collection and publication ask of a store),
  \<open>transaction_log\<close>, \<open>rooted_log\<close> and \<open>commit_log\<close> (what the transactor asks of a log); each is interpreted on
  the modelled implementations.

  \<^bold>\<open>Where the code falls short.\<close> Some theorems show behaviour the code does not intend: a compare-and-swap that gives
  a unique value a second owner, a saga status cleared behind its assertion, deposed writers that leave a hole in
  a merged log, a fold that misses the backfill of a newly indexed attribute, a retracted fact that recovery shows
  again, a check that runs out of budget and drops a restriction, and two principals that share a cache entry.

  \<^bold>\<open>Not modelled.\<close> The query engine, its pull and entity interfaces and the SQL, PostgreSQL and form front ends: they
  parse text and read database values through the operations modelled here, and two of them are built on third-party
  engines. The tasks and network services around the transactor, peers, clients, language bindings and the command
  line: I/O, timers and generated code. The transactor's merge command, which turns a squashed branch into transaction items
  (\<open>merged\<close> of \<open>Tx_Merge\<close> specifies their effect on the facts). Storage services and plugins, and the log over such
  a service: clients of external systems. Display and debug
  text, log lines, metrics and audit records have no effect on state. Panics of the code are left out where the
  model shows they cannot be reached, and are errors elsewhere.
\<close>

end
